(* ===== verification/Prelude.thy ===== *)
theory Prelude
  imports Main "HOL-Library.Multiset" "HOL-Library.Code_Target_Nat"
begin

text \<open>
  Shared vocabulary of the development: results of fallible Rust code as a sum type,
  checked machine arithmetic on natural numbers with the width written out, the slice
  and vector operations of the Rust standard library the sources use, and the facts
  on sorted lists, aligned lists and multisets the component theories share.

  Unsigned integers are natural numbers. Every arithmetic step of the sources that can
  leave its width is a checked operation there, and is a checked operation here, so a
  width never wraps silently; casts are written out where the source has them.
\<close>

section \<open>Collections of facts\<close>

named_theorems checked_simps \<open>characterisations of the checked operations\<close>
named_theorems slice_simps \<open>facts on slice and vector operations\<close>

section \<open>Results\<close>

type_synonym ('e, 'a) result = "'e + 'a"

definition bind_r :: "('e, 'a) result \<Rightarrow> ('a \<Rightarrow> ('e, 'b) result) \<Rightarrow> ('e, 'b) result" where
  "bind_r m f = (case m of Inl e \<Rightarrow> Inl e | Inr a \<Rightarrow> f a)"

lemma bind_r_simps [simp]:
  "bind_r (Inl e) f = Inl e"
  "bind_r (Inr a) f = f a"
  by (simp_all add: bind_r_def)

lemma bind_r_eq_Inr: "bind_r m f = Inr b \<longleftrightarrow> (\<exists>a. m = Inr a \<and> f a = Inr b)"
  by (cases m) auto

lemma bind_r_eq_Inl: "bind_r m f = Inl e \<longleftrightarrow> m = Inl e \<or> (\<exists>a. m = Inr a \<and> f a = Inl e)"
  by (cases m) auto

definition ok_or :: "'e \<Rightarrow> 'a option \<Rightarrow> ('e, 'a) result" where
  "ok_or e x = (case x of None \<Rightarrow> Inl e | Some a \<Rightarrow> Inr a)"

lemma ok_or_simps [simp]:
  "ok_or e None = Inl e"
  "ok_or e (Some a) = Inr a"
  by (simp_all add: ok_or_def)

lemma ok_or_eq_Inr [simp]: "ok_or e x = Inr a \<longleftrightarrow> x = Some a"
  by (cases x) auto

lemma ok_or_eq_Inl [simp]: "ok_or e x = Inl e' \<longleftrightarrow> x = None \<and> e' = e"
  by (cases x) auto

definition guard_r :: "bool \<Rightarrow> 'e \<Rightarrow> ('e, unit) result" where
  "guard_r b e = (if b then Inr () else Inl e)"

lemma guard_r_eq_Inr [simp]: "guard_r b e = Inr u \<longleftrightarrow> b"
  by (simp add: guard_r_def)

lemma guard_r_eq_Inl [simp]: "guard_r b e = Inl e' \<longleftrightarrow> \<not> b \<and> e' = e"
  by (auto simp: guard_r_def)

lemma guard_r_simps [simp]: "guard_r True e = Inr ()" "guard_r False e = Inl e"
  by (simp_all add: guard_r_def)

text \<open>The \<open>?\<close>-chained loop: a fallible function over a list, stopping at the first error.\<close>

fun fold_r :: "('a \<Rightarrow> 'b \<Rightarrow> ('e, 'b) result) \<Rightarrow> 'a list \<Rightarrow> 'b \<Rightarrow> ('e, 'b) result" where
  "fold_r f [] b = Inr b"
| "fold_r f (x # xs) b = bind_r (f x b) (fold_r f xs)"

lemma fold_r_append: "fold_r f (xs @ ys) b = bind_r (fold_r f xs b) (fold_r f ys)"
  by (induction xs arbitrary: b) (auto simp: bind_r_def split: sum.splits)

fun map_r :: "('a \<Rightarrow> ('e, 'b) result) \<Rightarrow> 'a list \<Rightarrow> ('e, 'b list) result" where
  "map_r f [] = Inr []"
| "map_r f (x # xs) = bind_r (f x) (\<lambda>y. bind_r (map_r f xs) (\<lambda>ys. Inr (y # ys)))"

lemma map_r_eq_Inr: "map_r f xs = Inr ys \<longleftrightarrow> list_all2 (\<lambda>x y. f x = Inr y) xs ys"
  by (induction xs arbitrary: ys) (auto simp: bind_r_eq_Inr list_all2_Cons1)

lemma map_r_total: "(\<And>x. x \<in> set xs \<Longrightarrow> f x = Inr (g x)) \<Longrightarrow> map_r f xs = Inr (map g xs)"
  by (induction xs) auto

lemma map_r_cong: "xs = ys \<Longrightarrow> (\<And>x. x \<in> set ys \<Longrightarrow> f x = g x) \<Longrightarrow> map_r f xs = map_r g ys"
  by (induction ys arbitrary: xs) auto

section \<open>Checked arithmetic\<close>

definition checked_add :: "nat \<Rightarrow> nat \<Rightarrow> nat \<Rightarrow> nat option" where
  "checked_add w a b = (if a + b < 2 ^ w then Some (a + b) else None)"

definition checked_mul :: "nat \<Rightarrow> nat \<Rightarrow> nat \<Rightarrow> nat option" where
  "checked_mul w a b = (if a * b < 2 ^ w then Some (a * b) else None)"

definition checked_sub :: "nat \<Rightarrow> nat \<Rightarrow> nat option" where
  "checked_sub a b = (if b \<le> a then Some (a - b) else None)"

definition checked_div :: "nat \<Rightarrow> nat \<Rightarrow> nat option" where
  "checked_div a b = (if b = 0 then None else Some (a div b))"

definition try_from :: "nat \<Rightarrow> nat \<Rightarrow> nat option" where
  "try_from w v = (if v < 2 ^ w then Some v else None)"

definition u32_max :: nat where "u32_max = 4294967295"
definition u64_max :: nat where "u64_max = 18446744073709551615"

definition div_ceil :: "nat \<Rightarrow> nat \<Rightarrow> nat" where
  "div_ceil a b = (if a mod b = 0 then a div b else a div b + 1)"

lemma checked_eq_Some [simp, checked_simps]:
  "checked_add w a b = Some c \<longleftrightarrow> c = a + b \<and> a + b < 2 ^ w"
  "checked_mul w a b = Some c \<longleftrightarrow> c = a * b \<and> a * b < 2 ^ w"
  "checked_sub a b = Some c \<longleftrightarrow> c = a - b \<and> b \<le> a"
  "checked_div a b = Some c \<longleftrightarrow> c = a div b \<and> b \<noteq> 0"
  "try_from w a = Some c \<longleftrightarrow> c = a \<and> a < 2 ^ w"
  by (auto simp: checked_add_def checked_mul_def checked_sub_def checked_div_def try_from_def)

lemma checked_eq_None [simp, checked_simps]:
  "checked_add w a b = None \<longleftrightarrow> 2 ^ w \<le> a + b"
  "checked_mul w a b = None \<longleftrightarrow> 2 ^ w \<le> a * b"
  "checked_sub a b = None \<longleftrightarrow> a < b"
  "checked_div a b = None \<longleftrightarrow> b = 0"
  "try_from w a = None \<longleftrightarrow> 2 ^ w \<le> a"
  by (auto simp: checked_add_def checked_mul_def checked_sub_def checked_div_def try_from_def)

lemma u32_max_lt: "n \<le> u32_max \<longleftrightarrow> n < 2 ^ 32"
  by (auto simp: u32_max_def)

lemma u64_max_lt: "n \<le> u64_max \<longleftrightarrow> n < 2 ^ 64"
  by (auto simp: u64_max_def)

lemma div_ceil_le_iff: "0 < b \<Longrightarrow> div_ceil a b \<le> n \<longleftrightarrow> a \<le> n * b"
proof -
  assume b: "0 < b"
  have eq: "a = a div b * b + a mod b" by simp
  show ?thesis
  proof (cases "a mod b = 0")
    case True
    with eq have "a = a div b * b" by linarith
    with b have "a \<le> n * b \<longleftrightarrow> a div b \<le> n" by (metis mult_le_cancel2)
    with True show ?thesis by (simp add: div_ceil_def)
  next
    case False
    have "a div b + 1 \<le> n \<longleftrightarrow> a div b < n" by auto
    also have "\<dots> \<longleftrightarrow> a < n * b"
      using b by (simp add: div_less_iff_less_mult)
    also have "\<dots> \<longleftrightarrow> a \<le> n * b"
      using False by (auto simp: order_le_less)
    finally show ?thesis using False by (simp add: div_ceil_def)
  qed
qed

lemma less_div_ceil_iff: "0 < b \<Longrightarrow> n < div_ceil a b \<longleftrightarrow> n * b < a"
  using div_ceil_le_iff [of b a n] by (metis not_le)

section \<open>Slices and vectors\<close>

definition get :: "'a list \<Rightarrow> nat \<Rightarrow> 'a option" where
  "get xs i = (if i < length xs then Some (xs ! i) else None)"

lemma get_eq_Some [simp, slice_simps]: "get xs i = Some x \<longleftrightarrow> i < length xs \<and> xs ! i = x"
  by (auto simp: get_def)

lemma get_eq_None [simp, slice_simps]: "get xs i = None \<longleftrightarrow> length xs \<le> i"
  by (auto simp: get_def)

text \<open>
  \<open>partition_point\<close> on a slice partitioned by the predicate: the number of leading
  elements that satisfy it. The sources call it on sorted vectors only, and the
  invariants of the components say those vectors are sorted.
\<close>

definition partition_point :: "('a \<Rightarrow> bool) \<Rightarrow> 'a list \<Rightarrow> nat" where
  "partition_point P xs = length (takeWhile P xs)"

definition insert_at :: "nat \<Rightarrow> 'a \<Rightarrow> 'a list \<Rightarrow> 'a list" where
  "insert_at i x xs = take i xs @ x # drop i xs"

definition remove_at :: "nat \<Rightarrow> 'a list \<Rightarrow> 'a list" where
  "remove_at i xs = take i xs @ drop (Suc i) xs"

lemma partition_point_le [simp]: "partition_point P xs \<le> length xs"
  by (simp add: partition_point_def length_takeWhile_le)

lemma take_partition_point: "take (partition_point P xs) xs = takeWhile P xs"
  unfolding partition_point_def by (rule takeWhile_eq_take [symmetric])

lemma drop_partition_point: "drop (partition_point P xs) xs = dropWhile P xs"
  unfolding partition_point_def by (rule dropWhile_eq_drop [symmetric])

lemma length_insert_at [simp]: "length (insert_at i x xs) = Suc (length xs)"
  by (simp add: insert_at_def)

lemma mset_insert_at [simp]: "mset (insert_at i x xs) = add_mset x (mset xs)"
proof -
  have "mset xs = mset (take i xs) + mset (drop i xs)"
    by (simp flip: mset_append)
  then show ?thesis by (simp add: insert_at_def)
qed

lemma set_insert_at [simp]: "set (insert_at i x xs) = insert x (set xs)"
  using mset_insert_at [of i x xs] by (metis set_mset_add_mset_insert set_mset_mset)

lemma length_remove_at [simp]: "i < length xs \<Longrightarrow> length (remove_at i xs) = length xs - 1"
  by (simp add: remove_at_def)

lemma mset_remove_at: "i < length xs \<Longrightarrow> add_mset (xs ! i) (mset (remove_at i xs)) = mset xs"
proof -
  assume i: "i < length xs"
  have "mset xs = mset (take i xs @ xs ! i # drop (Suc i) xs)"
    using id_take_nth_drop [OF i] by simp
  then show ?thesis by (simp add: remove_at_def)
qed

lemma zip_insert_at:
  "length xs = length ys \<Longrightarrow> zip (insert_at i x xs) (insert_at i y ys) = insert_at i (x, y) (zip xs ys)"
  by (simp add: insert_at_def zip_append take_zip drop_zip)

lemma map_of_insert_at:
  "x \<notin> fst ` set zs \<Longrightarrow> map_of (insert_at i (x, y) zs) = (map_of zs)(x \<mapsto> y)"
proof -
  assume x: "x \<notin> fst ` set zs"
  then have "map_of (take i zs) x = None"
    using set_take_subset [of i zs] by (auto simp: map_of_eq_None_iff)
  then have "map_of (insert_at i (x, y) zs) =
      (map_of (drop i zs) ++ map_of (take i zs))(x \<mapsto> y)"
    by (auto simp: insert_at_def map_add_def fun_eq_iff split: option.splits)
  then show ?thesis by (metis append_take_drop_id map_of_append)
qed

text \<open>Strictly ascending vectors.\<close>

abbreviation ascending :: "'a::linorder list \<Rightarrow> bool" where
  "ascending xs \<equiv> sorted_wrt (<) xs"

abbreviation descending :: "'a::linorder list \<Rightarrow> bool" where
  "descending xs \<equiv> sorted_wrt (>) xs"

lemma ascending_distinct: "ascending xs \<Longrightarrow> distinct xs"
  using strict_sorted_iff by blast

lemma descending_distinct: "descending xs \<Longrightarrow> distinct xs"
  by (induction xs) auto

lemma takeWhile_less_ascending: "ascending xs \<Longrightarrow> takeWhile (\<lambda>x. x < k) xs = filter (\<lambda>x. x < k) xs"
  by (induction xs) (force simp: filter_empty_conv eq_commute [of "[]"])+

lemma dropWhile_less_ascending: "ascending xs \<Longrightarrow> dropWhile (\<lambda>x. x < k) xs = filter (\<lambda>x. k \<le> x) xs"
proof (induction xs)
  case (Cons a xs)
  show ?case
  proof (cases "a < k")
    case False
    with Cons.prems have "filter (\<lambda>x. k \<le> x) xs = xs" by (auto simp: filter_id_conv)
    with False show ?thesis by simp
  qed (use Cons in simp)
qed simp

lemma takeWhile_greater_descending:
  "descending xs \<Longrightarrow> takeWhile (\<lambda>x. x > k) xs = filter (\<lambda>x. x > k) xs"
  by (induction xs) (force simp: filter_empty_conv eq_commute [of "[]"])+

lemma dropWhile_greater_descending:
  "descending xs \<Longrightarrow> dropWhile (\<lambda>x. x > k) xs = filter (\<lambda>x. x \<le> k) xs"
proof (induction xs)
  case (Cons a xs)
  show ?case
  proof (cases "a > k")
    case False
    with Cons.prems have "filter (\<lambda>x. x \<le> k) xs = xs" by (auto simp: filter_id_conv)
    with False show ?thesis by simp
  qed (use Cons in simp)
qed simp

lemma ascending_insert_at:
  assumes "ascending xs" and "k \<notin> set xs"
  shows "ascending (insert_at (partition_point (\<lambda>x. x < k) xs) k xs)"
  using assms
  by (auto simp: insert_at_def take_partition_point drop_partition_point
      takeWhile_less_ascending dropWhile_less_ascending sorted_wrt_append sorted_wrt_filter
      intro: le_neq_trans)

lemma descending_insert_at:
  assumes "descending xs" and "k \<notin> set xs"
  shows "descending (insert_at (partition_point (\<lambda>x. x > k) xs) k xs)"
  using assms
  by (auto simp: insert_at_def take_partition_point drop_partition_point
      takeWhile_greater_descending dropWhile_greater_descending sorted_wrt_append
      sorted_wrt_filter intro: le_neq_trans)

lemma get_partition_point_ascending:
  assumes "ascending xs"
  shows "get xs (partition_point (\<lambda>x. x < k) xs) = Some k \<longleftrightarrow> k \<in> set xs"
proof
  assume "get xs (partition_point (\<lambda>x. x < k) xs) = Some k"
  then show "k \<in> set xs" by (metis get_eq_Some nth_mem)
next
  assume k: "k \<in> set xs"
  let ?p = "partition_point (\<lambda>x. x < k) xs"
  have d: "drop ?p xs = filter (\<lambda>x. k \<le> x) xs"
    using assms by (simp add: drop_partition_point dropWhile_less_ascending)
  from k have ne: "filter (\<lambda>x. k \<le> x) xs \<noteq> []" by (auto simp: filter_empty_conv)
  then have lt: "?p < length xs" using d by (metis drop_all not_le_imp_less)
  have "hd (filter (\<lambda>x. k \<le> x) xs) = k"
  proof -
    have asc: "ascending (filter (\<lambda>x. k \<le> x) xs)" using assms by (rule sorted_wrt_filter)
    obtain y ys where y: "filter (\<lambda>x. k \<le> x) xs = y # ys" using ne by (cases "filter (\<lambda>x. k \<le> x) xs") auto
    have sub: "set (y # ys) = set xs \<inter> {x. k \<le> x}" by (subst y [symmetric]) auto
    with k have "k \<in> set (y # ys)" and "k \<le> y" by auto
    with asc y show ?thesis by auto
  qed
  with d lt show "get xs ?p = Some k" by (metis get_def hd_drop_conv_nth)
qed

end
