(* ===== verification/F32.thy ===== *)
theory F32
  imports Prelude
begin

text \<open>
  The IEEE 754 binary32 arithmetic the scheduler uses for step costs and budgets: Rust's
  \<open>f32\<close> with round-to-nearest-even addition, subtraction, multiplication, comparison,
  conversion from unsigned integers and the saturating cast to \<open>u64\<close>. A finite value is
  a sign, a mantissa below \<open>2 ^ 24\<close> and an exponent from \<open>-149\<close> to \<open>104\<close>, normalised; the
  zeros keep their sign. NaN payloads are not modelled: no code of the scheduler reads
  them.
\<close>

section \<open>Values\<close>

datatype f32 = F32_NaN | F32_Inf bool | F32_Fin bool nat int

text \<open>The normalised representations.\<close>

fun f32_ok :: "f32 \<Rightarrow> bool" where
  "f32_ok (F32_Fin neg m e) \<longleftrightarrow>
     (2 ^ 23 \<le> m \<and> m < 2 ^ 24 \<and> -149 \<le> e \<and> e \<le> 104) \<or> (m < 2 ^ 23 \<and> e = -149)"
| "f32_ok _ \<longleftrightarrow> True"

fun bit_length :: "nat \<Rightarrow> nat" where
  "bit_length n = (if n = 0 then 0 else Suc (bit_length (n div 2)))"

declare bit_length.simps [simp del]

text \<open>\<open>m / 2 ^ k\<close> rounded to the nearest integer, ties to even.\<close>

definition round_shift :: "nat \<Rightarrow> nat \<Rightarrow> nat" where
  "round_shift m k =
     (let q = m div 2 ^ k; r = m mod 2 ^ k
      in if 2 ^ k < 2 * r \<or> (2 ^ k = 2 * r \<and> odd q) then q + 1 else q)"

text \<open>The value \<open>m * 2 ^ e\<close> rounded to binary32.\<close>

definition f32_round :: "bool \<Rightarrow> nat \<Rightarrow> int \<Rightarrow> f32" where
  "f32_round neg m e =
     (if m = 0 then F32_Fin neg 0 (-149)
      else let e1 = max (-149) (e + int (bit_length m) - 24);
               m1 = (if e1 \<le> e then m * 2 ^ nat (e - e1) else round_shift m (nat (e1 - e)))
           in if m1 = 2 ^ 24 then (if e1 + 1 > 104 then F32_Inf neg else F32_Fin neg (2 ^ 23) (e1 + 1))
              else if e1 > 104 then F32_Inf neg else F32_Fin neg m1 e1)"

section \<open>Operations\<close>

definition signed_at :: "bool \<Rightarrow> nat \<Rightarrow> int \<Rightarrow> int \<Rightarrow> int" where
  "signed_at neg m e e0 = (if neg then - int m else int m) * 2 ^ nat (e - e0)"

fun f32_neg :: "f32 \<Rightarrow> f32" where
  "f32_neg F32_NaN = F32_NaN"
| "f32_neg (F32_Inf neg) = F32_Inf (\<not> neg)"
| "f32_neg (F32_Fin neg m e) = F32_Fin (\<not> neg) m e"

fun f32_add :: "f32 \<Rightarrow> f32 \<Rightarrow> f32" where
  "f32_add (F32_Fin n1 m1 e1) (F32_Fin n2 m2 e2) =
     (let e = min e1 e2; v = signed_at n1 m1 e1 e + signed_at n2 m2 e2 e
      in if v = 0 then F32_Fin (n1 \<and> n2) 0 (-149) else f32_round (v < 0) (nat \<bar>v\<bar>) e)"
| "f32_add F32_NaN y = F32_NaN"
| "f32_add x F32_NaN = F32_NaN"
| "f32_add (F32_Inf n1) (F32_Inf n2) = (if n1 = n2 then F32_Inf n1 else F32_NaN)"
| "f32_add (F32_Inf n1) y = F32_Inf n1"
| "f32_add x (F32_Inf n2) = F32_Inf n2"

definition f32_sub :: "f32 \<Rightarrow> f32 \<Rightarrow> f32" where
  "f32_sub x y = f32_add x (f32_neg y)"

fun f32_mul :: "f32 \<Rightarrow> f32 \<Rightarrow> f32" where
  "f32_mul (F32_Fin n1 m1 e1) (F32_Fin n2 m2 e2) = f32_round (n1 \<noteq> n2) (m1 * m2) (e1 + e2)"
| "f32_mul F32_NaN y = F32_NaN"
| "f32_mul x F32_NaN = F32_NaN"
| "f32_mul (F32_Inf n1) (F32_Inf n2) = F32_Inf (n1 \<noteq> n2)"
| "f32_mul (F32_Inf n1) (F32_Fin n2 m2 e2) = (if m2 = 0 then F32_NaN else F32_Inf (n1 \<noteq> n2))"
| "f32_mul (F32_Fin n1 m1 e1) (F32_Inf n2) = (if m1 = 0 then F32_NaN else F32_Inf (n1 \<noteq> n2))"

fun f32_less :: "f32 \<Rightarrow> f32 \<Rightarrow> bool" where
  "f32_less (F32_Fin n1 m1 e1) (F32_Fin n2 m2 e2) \<longleftrightarrow>
     signed_at n1 m1 e1 (min e1 e2) < signed_at n2 m2 e2 (min e1 e2)"
| "f32_less F32_NaN y \<longleftrightarrow> False"
| "f32_less x F32_NaN \<longleftrightarrow> False"
| "f32_less (F32_Inf n1) (F32_Inf n2) \<longleftrightarrow> n1 \<and> \<not> n2"
| "f32_less (F32_Inf n1) y \<longleftrightarrow> n1"
| "f32_less x (F32_Inf n2) \<longleftrightarrow> \<not> n2"

fun f32_eq :: "f32 \<Rightarrow> f32 \<Rightarrow> bool" where
  "f32_eq (F32_Fin n1 m1 e1) (F32_Fin n2 m2 e2) \<longleftrightarrow>
     signed_at n1 m1 e1 (min e1 e2) = signed_at n2 m2 e2 (min e1 e2)"
| "f32_eq (F32_Inf n1) (F32_Inf n2) \<longleftrightarrow> n1 = n2"
| "f32_eq _ _ \<longleftrightarrow> False"

definition f32_le :: "f32 \<Rightarrow> f32 \<Rightarrow> bool" where
  "f32_le x y \<longleftrightarrow> f32_less x y \<or> f32_eq x y"

fun is_finite :: "f32 \<Rightarrow> bool" where
  "is_finite (F32_Fin _ _ _) \<longleftrightarrow> True"
| "is_finite _ \<longleftrightarrow> False"

text \<open>\<open>n as f32\<close> and \<open>x as u64\<close>.\<close>

definition f32_of_nat :: "nat \<Rightarrow> f32" where
  "f32_of_nat n = f32_round False n 0"

fun f32_to_u64 :: "f32 \<Rightarrow> nat" where
  "f32_to_u64 F32_NaN = 0"
| "f32_to_u64 (F32_Inf neg) = (if neg then 0 else u64_max)"
| "f32_to_u64 (F32_Fin neg m e) =
     (if neg then 0 else min u64_max (if 0 \<le> e then m * 2 ^ nat e else m div 2 ^ nat (- e)))"

text \<open>The literals of the sources, each the binary32 value nearest to its decimal.\<close>

definition f32_zero :: f32 where "f32_zero = F32_Fin False 0 (-149)"
definition f32_one :: f32 where "f32_one = f32_of_nat 1"
definition f32_1_25 :: f32 where "f32_1_25 = f32_round False 5 (-2)"
definition f32_0_1 :: f32 where "f32_0_1 = F32_Fin False 13421773 (-27)"
definition f32_0_2 :: f32 where "f32_0_2 = F32_Fin False 13421773 (-26)"
definition f32_0_8 :: f32 where "f32_0_8 = F32_Fin False 13421773 (-24)"
definition f32_0_3 :: f32 where "f32_0_3 = F32_Fin False 10066330 (-25)"
definition f32_0_05 :: f32 where "f32_0_05 = F32_Fin False 13421773 (-28)"
definition f32_0_005 :: f32 where "f32_0_005 = F32_Fin False 10737418 (-31)"

section \<open>Normalisation\<close>

lemma bit_length_bounds: "0 < n \<Longrightarrow> 2 ^ (bit_length n - 1) \<le> n \<and> n < 2 ^ bit_length n"
proof (induction n rule: bit_length.induct)
  case (1 n)
  show ?case
  proof (cases "n div 2 = 0")
    case True
    with 1(2) have "n = 1" by auto
    then show ?thesis by (simp add: bit_length.simps)
  next
    case False
    then have ih: "2 ^ (bit_length (n div 2) - 1) \<le> n div 2" "n div 2 < 2 ^ bit_length (n div 2)"
      using 1 by simp_all
    have pos: "0 < bit_length (n div 2)" using False by (subst bit_length.simps) simp
    have s: "bit_length n = Suc (bit_length (n div 2))" using 1(2) by (subst bit_length.simps) simp
    from pos have "2 ^ bit_length (n div 2) = (2::nat) * 2 ^ (bit_length (n div 2) - 1)"
      by (cases "bit_length (n div 2)") simp_all
    with ih show ?thesis unfolding s by simp linarith
  qed
qed

lemma round_shift_bounds: "m div 2 ^ k \<le> round_shift m k \<and> round_shift m k \<le> m div 2 ^ k + 1"
  by (simp add: round_shift_def Let_def)

text \<open>The rounded quotient is a nearest one.\<close>

lemma round_shift_nearest: "2 * \<bar>int (round_shift m k) * 2 ^ k - int m\<bar> \<le> 2 ^ k"
proof -
  let ?q = "m div 2 ^ k" and ?r = "m mod 2 ^ k"
  have "int (2 ^ k) = 2 ^ k" by simp
  then have m: "int m = int ?q * 2 ^ k + int ?r"
    by (metis div_mult_mod_eq of_nat_add of_nat_mult)
  have "?r < 2 ^ k" by simp
  then have r: "int ?r < 2 ^ k" by (metis of_nat_less_iff of_nat_numeral of_nat_power)
  show ?thesis
  proof (cases "2 ^ k < 2 * ?r \<or> (2 ^ k = 2 * ?r \<and> odd ?q)")
    case True
    then have s: "round_shift m k = ?q + 1" by (simp add: round_shift_def Let_def)
    from True have "(2::int) ^ k \<le> 2 * int ?r"
      by (metis of_nat_le_iff of_nat_mult of_nat_numeral of_nat_power order_le_less)
    moreover have "\<bar>int (?q + 1) * 2 ^ k - int m\<bar> = 2 ^ k - int ?r" unfolding m using r by (simp add: algebra_simps)
    ultimately show ?thesis by (simp only: s) simp
  next
    case False
    then have s: "round_shift m k = ?q" by (simp add: round_shift_def Let_def)
    from False have "2 * ?r \<le> 2 ^ k" by linarith
    then have "2 * int ?r \<le> 2 ^ k" by (metis of_nat_le_iff of_nat_mult of_nat_numeral of_nat_power)
    then show ?thesis unfolding s m by simp
  qed
qed

text \<open>Rounding yields a normalised value, so every arithmetic result is one.\<close>

lemma div_power_bounds:
  assumes "0 < m" and "k \<le> bit_length m"
  shows "m div 2 ^ k < 2 ^ (bit_length m - k)"
    and "k < bit_length m \<Longrightarrow> 2 ^ (bit_length m - k - 1) \<le> m div 2 ^ k"
proof -
  have b: "2 ^ (bit_length m - 1) \<le> m" "m < 2 ^ bit_length m" using bit_length_bounds [OF assms(1)] by auto
  have "(2::nat) ^ bit_length m = 2 ^ (bit_length m - k) * 2 ^ k" using assms(2) by (simp flip: power_add)
  with b(2) show "m div 2 ^ k < 2 ^ (bit_length m - k)" by (simp add: div_less_iff_less_mult)
  assume k: "k < bit_length m"
  then have "(2::nat) ^ (bit_length m - 1) = 2 ^ (bit_length m - k - 1) * 2 ^ k" by (simp flip: power_add)
  with b(1) show "2 ^ (bit_length m - k - 1) \<le> m div 2 ^ k" by (simp add: less_eq_div_iff_mult_less_eq)
qed

lemma mantissa_normal:
  assumes m: "0 < m" and e1: "e1 = e + int (bit_length m) - 24"
  defines "m1 \<equiv> if e1 \<le> e then m * 2 ^ nat (e - e1) else round_shift m (nat (e1 - e))"
  shows "2 ^ 23 \<le> m1 \<and> m1 \<le> 2 ^ 24"
proof (cases "e1 \<le> e")
  case True
  then have k: "nat (e - e1) + bit_length m = 24" and "bit_length m \<le> 24" using e1 by auto
  have b: "2 ^ (bit_length m - 1) \<le> m" "m < 2 ^ bit_length m" "0 < bit_length m"
    using bit_length_bounds [OF m] m by (auto simp: bit_length.simps [of m])
  have "2 ^ (bit_length m - 1) * 2 ^ nat (e - e1) = (2::nat) ^ 23" "2 ^ bit_length m * 2 ^ nat (e - e1) = (2::nat) ^ 24"
    using k b(3) by (simp_all flip: power_add add: algebra_simps)
  moreover have "2 ^ (bit_length m - 1) * 2 ^ nat (e - e1) \<le> m * 2 ^ nat (e - e1)"
      "m * 2 ^ nat (e - e1) \<le> 2 ^ bit_length m * 2 ^ nat (e - e1)"
    using b by (intro mult_le_mono1; simp)+
  ultimately show ?thesis using True by (simp add: m1_def del: power_numeral)
next
  case False
  then have k: "nat (e1 - e) + 24 = bit_length m" using e1 by simp
  then have "m div 2 ^ nat (e1 - e) < 2 ^ 24" "2 ^ 23 \<le> m div 2 ^ nat (e1 - e)"
    using div_power_bounds [OF m, of "nat (e1 - e)"] by (simp_all flip: k)
  with round_shift_bounds [of m "nat (e1 - e)"] False show ?thesis
    by (simp add: m1_def)
qed

lemma mantissa_subnormal:
  assumes m: "0 < m" and e1: "e + int (bit_length m) - 24 < -149"
  defines "m1 \<equiv> if -149 \<le> e then m * 2 ^ nat (e - -149) else round_shift m (nat (-149 - e))"
  shows "m1 \<le> 2 ^ 23"
proof (cases "-149 \<le> e")
  case True
  then have "nat (e - -149) + bit_length m \<le> 23" using e1 by auto
  then have "(2::nat) ^ (bit_length m + nat (e - -149)) \<le> 2 ^ 23" by (intro power_increasing) simp_all
  then have "2 ^ bit_length m * 2 ^ nat (e - -149) \<le> (2::nat) ^ 23" by (simp only: power_add)
  moreover have "m * 2 ^ nat (e - -149) \<le> 2 ^ bit_length m * 2 ^ nat (e - -149)"
    using bit_length_bounds [OF m] by (intro mult_le_mono1) simp
  ultimately have "m * 2 ^ nat (e - -149) \<le> 2 ^ 23" by (rule order_trans [rotated])
  then show ?thesis unfolding m1_def using True by (simp only: if_True)
next
  case False
  show ?thesis
  proof (cases "nat (-149 - e) \<le> bit_length m")
    case True
    then have "bit_length m - nat (-149 - e) \<le> 23" using e1 False by auto
    then have "(2::nat) ^ (bit_length m - nat (-149 - e)) \<le> 2 ^ 23" by (rule power_increasing) simp
    with div_power_bounds(1) [OF m True] have "m div 2 ^ nat (-149 - e) < 2 ^ 23" by simp
    with round_shift_bounds [of m "nat (-149 - e)"] False show ?thesis by (simp add: m1_def)
  next
    case big: False
    then have "(2::nat) ^ bit_length m \<le> 2 ^ nat (-149 - e)" by (intro power_increasing) simp_all
    with bit_length_bounds [OF m] have "m < 2 ^ nat (-149 - e)" by linarith
    then have "m div 2 ^ nat (-149 - e) = 0" by (rule div_less)
    with round_shift_bounds [of m "nat (-149 - e)"] False show ?thesis by (simp add: m1_def)
  qed
qed

lemma f32_round_ok: "f32_ok (f32_round neg m e)"
proof (cases "m = 0")
  case False
  let ?e1 = "max (-149) (e + int (bit_length m) - 24)"
  let ?m1 = "if ?e1 \<le> e then m * 2 ^ nat (e - ?e1) else round_shift m (nat (?e1 - e))"
  have m: "?m1 \<le> 2 ^ 24 \<and> (?m1 < 2 ^ 23 \<longrightarrow> ?e1 = -149)"
  proof (cases "e + int (bit_length m) - 24 < -149")
    case True
    then show ?thesis using mantissa_subnormal [of m e] False by (simp add: max_def split: if_splits)
  next
    case sub: False
    then show ?thesis using mantissa_normal [of m "e + int (bit_length m) - 24" e] False by (simp add: max_def split: if_splits)
  qed
  have r: "f32_round neg m e = (if ?m1 = 2 ^ 24 then (if ?e1 + 1 > 104 then F32_Inf neg else F32_Fin neg (2 ^ 23) (?e1 + 1))
              else if ?e1 > 104 then F32_Inf neg else F32_Fin neg ?m1 ?e1)"
    using False by (simp only: f32_round_def Let_def if_False)
  show ?thesis unfolding r
    using m by (auto simp: not_less simp del: max_less_iff_conj split: if_splits)
qed (simp add: f32_round_def)

lemma f32_add_ok: "f32_ok x \<Longrightarrow> f32_ok y \<Longrightarrow> f32_ok (f32_add x y)"
  by (cases "(x, y)" rule: f32_add.cases) (simp_all add: Let_def f32_round_ok)

lemma f32_mul_ok: "f32_ok (f32_mul x y)"
  by (cases "(x, y)" rule: f32_mul.cases) (simp_all add: f32_round_ok)

lemma f32_of_nat_finite: "n < 2 ^ 64 \<Longrightarrow> is_finite (f32_of_nat n)"
proof (cases "n = 0")
  case False
  assume n: "n < 2 ^ 64"
  have "2 ^ (bit_length n - 1) < (2::nat) ^ 64" using bit_length_bounds [of n] False n by linarith
  then have "bit_length n - 1 < 64" by (rule power_less_imp_less_exp [rotated]) simp
  then have "bit_length n \<le> 64" by simp
  then show ?thesis by (simp add: f32_of_nat_def f32_round_def Let_def)
qed (simp add: f32_of_nat_def f32_round_def)

section \<open>Evaluation\<close>

lemma bit_length_simps [simp]:
  "bit_length 0 = 0" "bit_length (Suc 0) = 1" "bit_length (numeral (num.Bit0 k)) = Suc (bit_length (numeral k))"
  "bit_length (numeral (num.Bit1 k)) = Suc (bit_length (numeral k))" "bit_length (numeral num.One) = 1"
  by (subst bit_length.simps, simp add: bit_length.simps)+

lemma bit_length_shift: "0 < m \<Longrightarrow> bit_length (m * 2 ^ j) = bit_length m + j"
proof (induction j)
  case (Suc j)
  then show ?case by (subst bit_length.simps) (simp add: mult.left_commute)
qed simp

lemma f32_round_exact:
  assumes "2 ^ 23 \<le> m" and "m < 2 ^ 24" and "-149 \<le> e" and "e \<le> 104" and "e0 \<le> e"
  shows "f32_round neg (m * 2 ^ nat (e - e0)) e0 = F32_Fin neg m e"
proof -
  have "2 ^ (bit_length m - 1) < (2::nat) ^ 24" "(2::nat) ^ 23 < 2 ^ bit_length m"
    using bit_length_bounds [of m] assms(1,2) by auto
  then have "bit_length m - 1 < 24" "23 < bit_length m" by (simp_all only: power_strict_increasing_iff)
  then have "bit_length m = 24" by simp
  then show ?thesis using assms by (simp add: f32_round_def bit_length_shift round_shift_def Let_def max_def)
qed

text \<open>Adding or subtracting zero is exact.\<close>

lemma f32_sub_zero:
  assumes "2 ^ 23 \<le> m" and "m < 2 ^ 24" and "-149 \<le> e" and "e \<le> 104"
  shows "f32_sub (F32_Fin neg m e) f32_zero = F32_Fin neg m e"
proof -
  have "nat (int m * 2 ^ k) = m * 2 ^ k" for k by (simp add: nat_mult_distrib nat_power_eq)
  moreover have "\<not> int m * 2 ^ k < 0" for k by (simp add: not_less)
  moreover have "0 < m" using assms(1) by simp
  ultimately show ?thesis using f32_round_exact [OF assms(1-4,3), of neg] assms(3)
    by (cases neg) (simp_all add: f32_sub_def f32_zero_def min_absorb2 Let_def signed_at_def)
qed

end
