(* ===== verification/State_Error.thy ===== *)
theory State_Error
  imports F32
begin

text \<open>
  The error types of \<open>crates/r9v-state/src/error.rs\<close> and the part of
  \<open>crates/r9v-ir/src/error.rs\<close> that the batch, tree, bucket and sampling checks produce. Messages that the
  sources render with \<open>format!\<close> are kept as structured values: one constructor per
  message, with the numbers the message prints as its arguments. \<open>RustPanic\<close> is the one
  value with no counterpart in the source enum: an indexing or \<open>expect\<close> that would panic.
\<close>

section \<open>Configuration problems\<close>

datatype reason =
    MaxCtxOutOfRange nat
  | MaxCtxNotMultiple nat
  | MaxSeqsOutOfRange nat
  | DimOutOfRange string nat
  | WindowOutOfRange nat
  | SinkOutOfRange nat
  | SinksRequireWindow nat
  | LayersExceedCap nat
  | LayerIndexExceedsU32 nat
  | LayerIndexExceedsCap nat
  | DeclarationsExceedCap nat
  | UniqueLayersExceedCap nat
  | GroupsExceedCap nat
  | PoolBelowFixed nat nat nat
  | BlockCostZero
  | BlocksExceedSlotRange nat
  | PoolBelowRequired nat nat nat

record invalid_item =
  ii_index :: nat
  ii_reason :: reason

section \<open>Op IR errors of the modelled checks\<close>

datatype ir_error =
    ZeroBatchDim nat nat nat nat
  | BatchLength string nat nat
  | BatchShapeOverflow string "nat list"
  | MissingField string
  | EmptyQuery nat
  | QueryTokenCount nat nat
  | ZeroTreeMax nat
  | AncestorLength nat nat nat nat
  | AncestorShapeOverflow nat nat
  | BadParent nat int nat
  | SelfParent nat
  | TreeCycle nat
  | TreeCycleStateTooSmall nat nat
  | TreeCyclePathTooSmall nat nat
  | TreeBatchMismatch nat nat
  | TreeMaxTooSmall nat nat
  | TreeParentCrossesSequence nat int nat nat nat
  | OpAttributeInvalid string string "nat option" f32
  | BucketExceeded string nat nat
  | InvalidBucket string nat
  | Multiple "ir_error list"

text \<open>\<open>IrError::from_problems\<close>: nothing, the single problem, or all of them.\<close>

definition from_problems :: "ir_error list \<Rightarrow> (ir_error, unit) result" where
  "from_problems ps = (case ps of [] \<Rightarrow> Inr () | [p] \<Rightarrow> Inl p | _ \<Rightarrow> Inl (Multiple ps))"

lemma from_problems_ok [simp]: "from_problems ps = Inr u \<longleftrightarrow> ps = []"
  by (auto simp: from_problems_def split: list.splits)

section \<open>State errors\<close>

datatype batch_problem =
    DuplicateSequence nat nat
  | UnknownSequence nat nat
  | QueryLenOutsideTail nat nat nat
  | ExceedsMaxCtx nat nat nat nat
  | TokenTotalOverflows nat
  | TokensExceedCap nat
  | PositionsLenMismatch nat nat
  | TreeTokenCountMismatch nat nat

datatype detail =
    ReleaseOutOfRange nat nat
  | DoubleRelease nat
  | NotFixedGroup nat
  | NotPagedGroup nat
  | NotRecurrentGroup nat
  | GroupOutOfRange nat nat
  | HoldsNoSlot nat nat
  | SequenceHasNoTable nat
  | SequenceVanished
  | StaleSlotRange nat nat nat nat
  | BlockExceedsPool nat nat nat
  | BlockAlreadyFree nat nat
  | BlockDuplicated nat nat
  | SlotExceedsPool nat nat nat
  | SlotAlreadyFree nat nat
  | LengthMismatch nat nat
  | EmptyBatch
  | BatchProblems "batch_problem list"
  | WorkspaceCapacity string nat nat
  | NoOutstandingTail
  | AcceptedExceedsCap nat
  | PositionOutOfTail nat nat
  | DuplicatePosition nat
  | AcceptedNotCompacted nat nat

datatype state_error =
    InvalidConfig "invalid_item list"
  | UnknownSeq nat
  | SeqLimit nat nat
  | PoolExhausted nat nat nat nat nat nat
  | ReserveTooLarge nat nat nat
  | InvalidReserve nat nat
  | CommitTooLarge nat nat
  | NoReservation nat
  | UnmappedPosition nat nat nat
  | InvalidCompact nat nat detail
  | InvalidBatch detail
  | OutOfRange nat nat nat
  | Overflow string
  | SeqIdOverflow nat nat
  | Ir ir_error
  | RustPanic string

type_synonym 'a state_result = "(state_error, 'a) result"

end
