(* ===== verification/State_Spec.thy ===== *)
theory State_Spec
  imports State_Error
begin

text \<open>
  \<open>crates/r9v-state/src/spec.rs\<close>: the per-layer state declarations, their validation,
  their byte accounting, and the grouping of layers with identical declarations.
\<close>

section \<open>Constants and types\<close>

definition BLOCK_TOKENS :: nat where [simp]: "BLOCK_TOKENS = 32"
definition MAX_CTX_HARD :: nat where "MAX_CTX_HARD = 1048576"
definition MAX_SEQS_HARD :: nat where "MAX_SEQS_HARD = 65536"
definition MAX_LAYERS_HARD :: nat where "MAX_LAYERS_HARD = 1024"
definition MAX_DECLS_HARD :: nat where "MAX_DECLS_HARD = 4096"
definition MAX_GROUPS_HARD :: nat where "MAX_GROUPS_HARD = 16"
definition MAX_DIM_HARD :: nat where "MAX_DIM_HARD = 4096"
definition MAX_BATCH_TOKENS_HARD :: nat where "MAX_BATCH_TOKENS_HARD = 1048576"
definition MAX_RESERVE_HARD :: nat where "MAX_RESERVE_HARD = 1048576"

lemmas hard_caps = MAX_CTX_HARD_def MAX_SEQS_HARD_def MAX_LAYERS_HARD_def MAX_DECLS_HARD_def
  MAX_GROUPS_HARD_def MAX_DIM_HARD_def MAX_BATCH_TOKENS_HARD_def MAX_RESERVE_HARD_def

datatype cache_dtype = E4M3 | I8 | F16

definition cache_bytes :: "cache_dtype \<Rightarrow> nat" where
  "cache_bytes c = (case c of E4M3 \<Rightarrow> 1 | I8 \<Rightarrow> 1 | F16 \<Rightarrow> 2)"

datatype retain = RetainAll | Window nat | SinkWindow nat nat

definition retain_window :: "retain \<Rightarrow> nat option" where
  "retain_window r = (case r of RetainAll \<Rightarrow> None | Window w \<Rightarrow> Some w | SinkWindow n w \<Rightarrow> Some w)"

definition is_windowed :: "retain \<Rightarrow> bool" where
  "is_windowed r = (case r of RetainAll \<Rightarrow> False | _ \<Rightarrow> True)"

definition from_window_sinks :: "nat option \<Rightarrow> nat \<Rightarrow> retain state_result" where
  "from_window_sinks window sinks =
     (case window of
        None \<Rightarrow> if sinks = 0 then Inr RetainAll
                else Inl (InvalidConfig [\<lparr>ii_index = 0, ii_reason = SinksRequireWindow sinks\<rparr>])
      | Some w \<Rightarrow> if sinks = 0 then Inr (Window w) else Inr (SinkWindow sinks w))"

datatype state_spec =
    KvPaged nat nat nat cache_dtype retain
  | KvLatent nat nat cache_dtype retain
  | Recurrent nat nat nat
  | ConvWindow nat nat

fun is_paged :: "state_spec \<Rightarrow> bool" where
  "is_paged (KvPaged _ _ _ _ _) = True"
| "is_paged (KvLatent _ _ _ _) = True"
| "is_paged (Recurrent _ _ _) = False"
| "is_paged (ConvWindow _ _) = False"

fun is_recurrent :: "state_spec \<Rightarrow> bool" where
  "is_recurrent (KvPaged _ _ _ _ _) = False"
| "is_recurrent (KvLatent _ _ _ _) = False"
| "is_recurrent (Recurrent _ _ _) = True"
| "is_recurrent (ConvWindow _ _) = True"

fun spec_retain :: "state_spec \<Rightarrow> retain option" where
  "spec_retain (KvPaged _ _ _ _ r) = Some r"
| "spec_retain (KvLatent _ _ _ r) = Some r"
| "spec_retain (Recurrent _ _ _) = None"
| "spec_retain (ConvWindow _ _) = None"

lemma is_recurrent_iff [simp]: "is_recurrent sp \<longleftrightarrow> \<not> is_paged sp"
  by (cases sp) simp_all

lemma spec_retain_None_iff: "spec_retain sp = None \<longleftrightarrow> \<not> is_paged sp"
  by (cases sp) simp_all

section \<open>Validation\<close>

definition check_dim :: "string \<Rightarrow> nat \<Rightarrow> nat \<Rightarrow> invalid_item list \<Rightarrow> invalid_item list" where
  "check_dim name v i out =
     (if v = 0 \<or> v > MAX_DIM_HARD
      then out @ [\<lparr>ii_index = i, ii_reason = DimOutOfRange name v\<rparr>] else out)"

definition check_retain :: "retain \<Rightarrow> nat \<Rightarrow> invalid_item list \<Rightarrow> invalid_item list" where
  "check_retain r i out =
     (case r of
        RetainAll \<Rightarrow> out
      | Window w \<Rightarrow>
          if w = 0 \<or> w > MAX_CTX_HARD
          then out @ [\<lparr>ii_index = i, ii_reason = WindowOutOfRange w\<rparr>] else out
      | SinkWindow n w \<Rightarrow>
          let out1 = (if n = 0 \<or> n > MAX_CTX_HARD
                      then out @ [\<lparr>ii_index = i, ii_reason = SinkOutOfRange n\<rparr>] else out)
          in if w = 0 \<or> w > MAX_CTX_HARD
             then out1 @ [\<lparr>ii_index = i, ii_reason = WindowOutOfRange w\<rparr>] else out1)"

fun push_checks :: "state_spec \<Rightarrow> nat \<Rightarrow> invalid_item list \<Rightarrow> invalid_item list" where
  "push_checks (KvPaged hkv d dv cache retain) i out =
     check_retain retain i (check_dim ''dv'' dv i (check_dim ''d'' d i (check_dim ''hkv'' hkv i out)))"
| "push_checks (KvLatent latent rope cache retain) i out =
     check_retain retain i (check_dim ''rope'' rope i (check_dim ''latent'' latent i out))"
| "push_checks (Recurrent h d dv) i out =
     check_dim ''dv'' dv i (check_dim ''d'' d i (check_dim ''h'' h i out))"
| "push_checks (ConvWindow c w) i out = check_dim ''w'' w i (check_dim ''c'' c i out)"

definition check_dims :: "state_spec \<Rightarrow> unit state_result" where
  "check_dims sp =
     (let problems = push_checks sp u32_max []
      in if problems = [] then Inr () else Inl (InvalidConfig problems))"

text \<open>The reading of a clean validation: every dimension is in range.\<close>

definition dim_ok :: "nat \<Rightarrow> bool" where
  "dim_ok v \<longleftrightarrow> 0 < v \<and> v \<le> MAX_DIM_HARD"

fun retain_ok :: "retain \<Rightarrow> bool" where
  "retain_ok RetainAll = True"
| "retain_ok (Window w) = (0 < w \<and> w \<le> MAX_CTX_HARD)"
| "retain_ok (SinkWindow n w) = (0 < n \<and> n \<le> MAX_CTX_HARD \<and> 0 < w \<and> w \<le> MAX_CTX_HARD)"

fun spec_ok :: "state_spec \<Rightarrow> bool" where
  "spec_ok (KvPaged hkv d dv cache r) = (dim_ok hkv \<and> dim_ok d \<and> dim_ok dv \<and> retain_ok r)"
| "spec_ok (KvLatent latent rope cache r) = (dim_ok latent \<and> dim_ok rope \<and> retain_ok r)"
| "spec_ok (Recurrent h d dv) = (dim_ok h \<and> dim_ok d \<and> dim_ok dv)"
| "spec_ok (ConvWindow c w) = (dim_ok c \<and> dim_ok w)"

lemma check_dim_Nil [simp]: "check_dim name v i out = [] \<longleftrightarrow> out = [] \<and> dim_ok v"
  by (auto simp: check_dim_def dim_ok_def)

lemma check_retain_Nil [simp]: "check_retain r i out = [] \<longleftrightarrow> out = [] \<and> retain_ok r"
  by (auto simp: check_retain_def Let_def split: retain.splits)

lemma push_checks_Nil [simp]: "push_checks sp i out = [] \<longleftrightarrow> out = [] \<and> spec_ok sp"
  by (cases sp) auto

lemma check_dims_ok [simp]: "check_dims sp = Inr u \<longleftrightarrow> spec_ok sp"
  by (simp add: check_dims_def Let_def)

section \<open>Byte accounting\<close>

definition scale_bytes_kv :: "cache_dtype \<Rightarrow> nat" where
  "scale_bytes_kv c = (case c of E4M3 \<Rightarrow> 4 | I8 \<Rightarrow> 4 | F16 \<Rightarrow> 0)"

definition scale_bytes_latent :: "cache_dtype \<Rightarrow> nat" where
  "scale_bytes_latent c = (case c of E4M3 \<Rightarrow> 2 | I8 \<Rightarrow> 2 | F16 \<Rightarrow> 0)"

definition per_token_bytes :: "state_spec \<Rightarrow> nat state_result" where
  "per_token_bytes sp = bind_r (check_dims sp) (\<lambda>_.
     case sp of
       KvPaged hkv d dv cache r \<Rightarrow>
         bind_r (ok_or (Overflow ''kv dims'') (checked_add 64 d dv)) (\<lambda>dd.
         bind_r (ok_or (Overflow ''kv values'') (checked_mul 64 dd (cache_bytes cache))) (\<lambda>vals.
         bind_r (ok_or (Overflow ''kv scales'') (checked_add 64 vals (scale_bytes_kv cache)))
           (\<lambda>per_head. ok_or (Overflow ''kv heads'') (checked_mul 64 per_head hkv))))
     | KvLatent latent rope cache r \<Rightarrow>
         bind_r (ok_or (Overflow ''latent values'') (checked_mul 64 latent (cache_bytes cache))) (\<lambda>vals.
         bind_r (ok_or (Overflow ''latent scales'') (checked_add 64 vals (scale_bytes_latent cache)))
           (\<lambda>vals_with_scales.
         bind_r (ok_or (Overflow ''rope values'') (checked_mul 64 rope 2)) (\<lambda>rope_bytes.
         ok_or (Overflow ''latent total'') (checked_add 64 vals_with_scales rope_bytes))))
     | Recurrent h d dv \<Rightarrow> Inr 0
     | ConvWindow c w \<Rightarrow> Inr 0)"

definition slot_bytes :: "state_spec \<Rightarrow> nat state_result" where
  "slot_bytes sp = bind_r (check_dims sp) (\<lambda>_.
     case sp of
       Recurrent h d dv \<Rightarrow>
         ok_or (Overflow ''recurrent slot'')
           (Option.bind (checked_mul 64 h d) (\<lambda>v.
            Option.bind (checked_mul 64 v dv) (\<lambda>v. checked_mul 64 v 4)))
     | ConvWindow c w \<Rightarrow>
         bind_r (ok_or (Overflow ''conv window'') (checked_sub w 1)) (\<lambda>w1.
         ok_or (Overflow ''conv slot'')
           (Option.bind (checked_mul 64 w1 c) (\<lambda>v. checked_mul 64 v 2)))
     | KvPaged hkv d dv cache r \<Rightarrow> Inr 0
     | KvLatent latent rope cache r \<Rightarrow> Inr 0)"

definition per_seq_bytes :: "state_spec \<Rightarrow> nat state_result" where
  "per_seq_bytes sp = bind_r (slot_bytes sp) (\<lambda>single.
     if is_recurrent sp
     then ok_or (Overflow ''double-buffer per-sequence bytes'') (checked_mul 64 single 2)
     else Inr 0)"

text \<open>The documented formulas, on unbounded numbers.\<close>

fun token_bytes :: "state_spec \<Rightarrow> nat" where
  "token_bytes (KvPaged hkv d dv c r) = hkv * ((d + dv) * cache_bytes c + scale_bytes_kv c)"
| "token_bytes (KvLatent latent rope c r) = latent * cache_bytes c + scale_bytes_latent c + rope * 2"
| "token_bytes (Recurrent h d dv) = 0"
| "token_bytes (ConvWindow c w) = 0"

fun seq_bytes :: "state_spec \<Rightarrow> nat" where
  "seq_bytes (KvPaged hkv d dv c r) = 0"
| "seq_bytes (KvLatent latent rope c r) = 0"
| "seq_bytes (Recurrent h d dv) = h * d * dv * 4 * 2"
| "seq_bytes (ConvWindow c w) = (w - 1) * c * 2 * 2"

lemma cache_bytes_bounds: "1 \<le> cache_bytes c" "cache_bytes c \<le> 2"
  by (cases c; simp add: cache_bytes_def)+

lemma scale_bytes_bounds: "scale_bytes_kv c \<le> 4" "scale_bytes_latent c \<le> 2"
  by (cases c; simp add: scale_bytes_kv_def scale_bytes_latent_def)+

lemma dim_okD: "dim_ok v \<Longrightarrow> 0 < v \<and> v \<le> 4096"
  by (simp add: dim_ok_def MAX_DIM_HARD_def)

lemma kv_values_bound:
  assumes "d \<le> 4096" and "dv \<le> 4096"
  shows "(d + dv) * cache_bytes c \<le> 16384"
  using mult_le_mono [of "d + dv" 8192 "cache_bytes c" 2] assms cache_bytes_bounds [of c] by simp

lemma kv_token_bytes_bound:
  assumes "hkv \<le> 4096" and "d \<le> 4096" and "dv \<le> 4096"
  shows "((d + dv) * cache_bytes c + scale_bytes_kv c) * hkv \<le> 67125248"
  using mult_le_mono [of "(d + dv) * cache_bytes c + scale_bytes_kv c" 16388 hkv 4096]
    kv_values_bound [of d dv c] scale_bytes_bounds [of c] assms by simp

lemma latent_values_bound: "latent \<le> 4096 \<Longrightarrow> latent * cache_bytes c \<le> 8192"
  using mult_le_mono [of latent 4096 "cache_bytes c" 2] cache_bytes_bounds [of c] by simp

lemma mult2_bound: "a \<le> 4096 \<Longrightarrow> b \<le> (4096::nat) \<Longrightarrow> a * b \<le> 16777216"
  using mult_le_mono [of a 4096 b 4096] by simp

lemma mult3_bound: "a \<le> 4096 \<Longrightarrow> b \<le> 4096 \<Longrightarrow> c \<le> (4096::nat) \<Longrightarrow> a * b * c \<le> 68719476736"
  using mult_le_mono [OF mult2_bound, of a b c 4096] by simp

lemma per_token_bytes_ok: "spec_ok sp \<Longrightarrow> per_token_bytes sp = Inr (token_bytes sp)"
proof (cases sp)
  case (KvPaged hkv d dv c r)
  moreover assume "spec_ok sp"
  ultimately have le: "hkv \<le> 4096" "d \<le> 4096" "dv \<le> 4096" by (auto dest: dim_okD)
  from KvPaged \<open>spec_ok sp\<close> le kv_values_bound [of d dv c] kv_token_bytes_bound [of hkv d dv c]
    scale_bytes_bounds [of c]
  show ?thesis
    by (simp add: per_token_bytes_def bind_r_eq_Inr mult.commute)
next
  case (KvLatent latent rope c r)
  moreover assume "spec_ok sp"
  ultimately have le: "latent \<le> 4096" "rope \<le> 4096" by (auto dest: dim_okD)
  from KvLatent \<open>spec_ok sp\<close> le latent_values_bound [of latent c] scale_bytes_bounds [of c]
  show ?thesis by (simp add: per_token_bytes_def bind_r_eq_Inr)
qed (simp_all add: per_token_bytes_def bind_r_eq_Inr)

lemma per_seq_bytes_ok: "spec_ok sp \<Longrightarrow> per_seq_bytes sp = Inr (seq_bytes sp)"
proof (cases sp)
  case (Recurrent h d dv)
  moreover assume "spec_ok sp"
  ultimately have "h \<le> 4096" "d \<le> 4096" "dv \<le> 4096" by (auto dest: dim_okD)
  from mult2_bound [OF this(1,2)] mult3_bound [OF this] Recurrent \<open>spec_ok sp\<close> show ?thesis
    by (simp add: per_seq_bytes_def slot_bytes_def bind_r_eq_Inr bind_eq_Some_conv mult_ac)
next
  case (ConvWindow c w)
  moreover assume "spec_ok sp"
  ultimately have le: "c \<le> 4096" "w - 1 \<le> 4096" "1 \<le> w" by (auto dest: dim_okD)
  with mult2_bound [of "w - 1" c] ConvWindow \<open>spec_ok sp\<close> show ?thesis
    by (simp add: per_seq_bytes_def slot_bytes_def bind_r_eq_Inr bind_eq_Some_conv mult_ac)
qed (simp_all add: per_seq_bytes_def slot_bytes_def bind_r_eq_Inr)

lemma token_bytes_bound: "spec_ok sp \<Longrightarrow> token_bytes sp \<le> 67125248"
proof (cases sp)
  case (KvPaged hkv d dv c r)
  moreover assume "spec_ok sp"
  ultimately have "hkv \<le> 4096" "d \<le> 4096" "dv \<le> 4096" by (auto dest: dim_okD)
  from kv_token_bytes_bound [OF this, of c] KvPaged show ?thesis by (simp add: mult.commute)
next
  case (KvLatent latent rope c r)
  moreover assume "spec_ok sp"
  ultimately have "latent \<le> 4096" "rope \<le> 4096" by (auto dest: dim_okD)
  with KvLatent latent_values_bound [of latent c] scale_bytes_bounds [of c] show ?thesis by simp
qed simp_all

lemma token_bytes_pos: "spec_ok sp \<Longrightarrow> is_paged sp \<Longrightarrow> 0 < token_bytes sp"
  using cache_bytes_bounds(1) by (cases sp) (auto dest!: dim_okD simp: Suc_le_eq)

lemma seq_bytes_bound: "spec_ok sp \<Longrightarrow> seq_bytes sp \<le> 549755813888"
proof (cases sp)
  case (Recurrent h d dv)
  moreover assume "spec_ok sp"
  ultimately have "h \<le> 4096" "d \<le> 4096" "dv \<le> 4096" by (auto dest: dim_okD)
  from mult3_bound [OF this] Recurrent show ?thesis by (simp add: mult_ac)
next
  case (ConvWindow c w)
  moreover assume "spec_ok sp"
  ultimately have "w - 1 \<le> 4096" "c \<le> 4096" by (auto dest: dim_okD)
  from mult2_bound [OF this] ConvWindow show ?thesis by (simp add: mult_ac)
qed simp_all

lemma even_seq_bytes: "seq_bytes sp mod 2 = 0"
  by (cases sp) simp_all

section \<open>Layer groups\<close>

record layer_group =
  lg_index :: nat
  lg_spec :: state_spec
  lg_layers :: "nat list"

definition group_per_token_bytes :: "layer_group \<Rightarrow> nat state_result" where
  "group_per_token_bytes g =
     bind_r (per_token_bytes (lg_spec g)) (\<lambda>per_layer.
     bind_r (ok_or (Overflow ''group layer count'') (try_from 64 (length (lg_layers g)))) (\<lambda>count.
     ok_or (Overflow ''group per-token bytes'') (checked_mul 64 per_layer count)))"

definition group_block_bytes :: "layer_group \<Rightarrow> nat state_result" where
  "group_block_bytes g =
     bind_r (group_per_token_bytes g) (\<lambda>b.
     ok_or (Overflow ''group block bytes'') (checked_mul 64 b BLOCK_TOKENS))"

definition slots_bytes_per_seq :: "layer_group \<Rightarrow> nat state_result" where
  "slots_bytes_per_seq g =
     bind_r (per_seq_bytes (lg_spec g)) (\<lambda>per_layer.
     bind_r (ok_or (Overflow ''group layer count'') (try_from 64 (length (lg_layers g)))) (\<lambda>count.
     ok_or (Overflow ''group slot bytes'') (checked_mul 64 per_layer count)))"

record state_decl =
  sd_layer :: nat
  sd_spec :: state_spec

text \<open>
  One declaration: the first group with the same spec takes the layer at its sorted
  place unless it has it, otherwise a new group goes at the end; \<open>n\<close> is the number of
  groups before the call.
\<close>

definition add_layer :: "nat \<Rightarrow> layer_group \<Rightarrow> layer_group" where
  "add_layer l g =
     (if l \<in> set (lg_layers g) then g
      else g\<lparr>lg_layers := insert_at (partition_point (\<lambda>x. x < l) (lg_layers g)) l (lg_layers g)\<rparr>)"

fun upsert_group :: "nat \<Rightarrow> state_decl \<Rightarrow> layer_group list \<Rightarrow> layer_group list" where
  "upsert_group n d [] = [\<lparr>lg_index = n, lg_spec = sd_spec d, lg_layers = [sd_layer d]\<rparr>]"
| "upsert_group n d (g # gs) =
     (if lg_spec g = sd_spec d then add_layer (sd_layer d) g # gs else g # upsert_group n d gs)"

fun group_declarations_from :: "layer_group list \<Rightarrow> state_decl list \<Rightarrow> layer_group list" where
  "group_declarations_from gs [] = gs"
| "group_declarations_from gs (d # ds) = group_declarations_from (upsert_group (length gs) d gs) ds"

definition group_declarations_infallible :: "state_decl list \<Rightarrow> layer_group list" where
  "group_declarations_infallible ds = group_declarations_from [] ds"

definition whole_config :: "reason \<Rightarrow> state_error" where
  "whole_config r = InvalidConfig [\<lparr>ii_index = u32_max, ii_reason = r\<rparr>]"

definition cap_groups :: "layer_group list \<Rightarrow> layer_group list state_result" where
  "cap_groups gs =
     (if length gs > MAX_GROUPS_HARD then Inl (whole_config (GroupsExceedCap (length gs))) else Inr gs)"

fun layer_problems :: "nat \<Rightarrow> state_spec list \<Rightarrow> invalid_item list \<Rightarrow> state_decl list \<Rightarrow>
    invalid_item list \<times> state_decl list" where
  "layer_problems i [] ps ds = (ps, ds)"
| "layer_problems i (sp # sps) ps ds =
     (case try_from 32 i of
        None \<Rightarrow> layer_problems (Suc i) sps
                  (ps @ [\<lparr>ii_index = u32_max, ii_reason = LayerIndexExceedsU32 i\<rparr>]) ds
      | Some layer \<Rightarrow>
          layer_problems (Suc i) sps
            (push_checks sp layer
              (if layer \<ge> MAX_LAYERS_HARD
               then ps @ [\<lparr>ii_index = layer, ii_reason = LayerIndexExceedsCap layer\<rparr>] else ps))
            (ds @ [\<lparr>sd_layer = layer, sd_spec = sp\<rparr>]))"

definition group_layers :: "state_spec list \<Rightarrow> layer_group list state_result" where
  "group_layers specs =
     (if length specs > MAX_LAYERS_HARD then Inl (whole_config (LayersExceedCap (length specs)))
      else let (problems, decls) = layer_problems 0 specs [] []
           in if problems \<noteq> [] then Inl (InvalidConfig problems)
              else cap_groups (group_declarations_infallible decls))"

fun decl_problems :: "state_decl list \<Rightarrow> invalid_item list \<Rightarrow> nat set \<Rightarrow> invalid_item list \<times> nat set" where
  "decl_problems [] ps ls = (ps, ls)"
| "decl_problems (d # ds) ps ls =
     (if sd_layer d \<ge> MAX_LAYERS_HARD
      then decl_problems ds
             (push_checks (sd_spec d) (sd_layer d)
               (ps @ [\<lparr>ii_index = sd_layer d, ii_reason = LayerIndexExceedsCap (sd_layer d)\<rparr>])) ls
      else decl_problems ds (push_checks (sd_spec d) (sd_layer d) ps) (insert (sd_layer d) ls))"

definition group_layer_specs :: "state_decl list \<Rightarrow> layer_group list state_result" where
  "group_layer_specs decls =
     (if length decls > MAX_DECLS_HARD then Inl (whole_config (DeclarationsExceedCap (length decls)))
      else let (ps, unique_layers) = decl_problems decls [] {};
               problems = (if card unique_layers > MAX_LAYERS_HARD
                 then ps @ [\<lparr>ii_index = u32_max,
                             ii_reason = UniqueLayersExceedCap (card unique_layers)\<rparr>] else ps)
           in if problems \<noteq> [] then Inl (InvalidConfig problems)
              else cap_groups (group_declarations_infallible decls))"

subsection \<open>What grouping computes\<close>

text \<open>
  A well-formed group list for a list of declarations: groups are numbered by position,
  their specs are distinct and in first-occurrence order, and each group's layers are the
  strictly ascending layers declared with its spec.
\<close>

definition first_occurrences :: "'a list \<Rightarrow> 'a list" where
  "first_occurrences xs = rev (remdups (rev xs))"

lemma first_occurrences_Nil [simp]: "first_occurrences [] = []"
  by (simp add: first_occurrences_def)

lemma set_first_occurrences [simp]: "set (first_occurrences xs) = set xs"
  by (simp add: first_occurrences_def)

lemma first_occurrences_snoc:
  "first_occurrences (xs @ [x]) = (if x \<in> set xs then first_occurrences xs else first_occurrences xs @ [x])"
  by (simp add: first_occurrences_def)

lemma distinct_first_occurrences [simp]: "distinct (first_occurrences xs)"
  by (simp add: first_occurrences_def)

definition declared :: "state_decl list \<Rightarrow> state_spec \<Rightarrow> nat set" where
  "declared ds sp = sd_layer ` {d \<in> set ds. sd_spec d = sp}"

definition groups_of :: "state_decl list \<Rightarrow> layer_group list \<Rightarrow> bool" where
  "groups_of ds gs \<longleftrightarrow>
     map lg_index gs = [0..<length gs] \<and>
     map lg_spec gs = first_occurrences (map sd_spec ds) \<and>
     (\<forall>g \<in> set gs. ascending (lg_layers g) \<and> set (lg_layers g) = declared ds (lg_spec g))"

lemma declared_snoc:
  "declared (ds @ [d]) sp = (if sd_spec d = sp then insert (sd_layer d) (declared ds sp) else declared ds sp)"
  by (auto simp: declared_def)

lemma add_layer_fields [simp]:
  "lg_index (add_layer l g) = lg_index g" "lg_spec (add_layer l g) = lg_spec g"
  by (simp_all add: add_layer_def)

lemma add_layer_layers:
  assumes "ascending (lg_layers g)"
  shows "ascending (lg_layers (add_layer l g))"
    and "set (lg_layers (add_layer l g)) = insert l (set (lg_layers g))"
  using assms ascending_insert_at [of "lg_layers g" l] by (auto simp: add_layer_def)

lemma upsert_group_maps:
  "map lg_index (upsert_group n d gs) =
     (if sd_spec d \<in> lg_spec ` set gs then map lg_index gs else map lg_index gs @ [n])"
  "map lg_spec (upsert_group n d gs) =
     (if sd_spec d \<in> lg_spec ` set gs then map lg_spec gs else map lg_spec gs @ [sd_spec d])"
  by (induction gs) auto

lemma upsert_group_elems:
  assumes "distinct (map lg_spec gs)"
  shows "set (upsert_group n d gs) =
    {g \<in> set gs. lg_spec g \<noteq> sd_spec d} \<union>
    (if sd_spec d \<in> lg_spec ` set gs
     then add_layer (sd_layer d) ` {g \<in> set gs. lg_spec g = sd_spec d}
     else {\<lparr>lg_index = n, lg_spec = sd_spec d, lg_layers = [sd_layer d]\<rparr>})"
  using assms by (induction gs) (auto simp: image_iff)

lemma groups_of_upsert:
  assumes "groups_of ds gs"
  shows "groups_of (ds @ [d]) (upsert_group (length gs) d gs)"
proof -
  have specs: "map lg_spec gs = first_occurrences (map sd_spec ds)"
    and idx: "map lg_index gs = [0..<length gs]"
    and lay: "\<And>g. g \<in> set gs \<Longrightarrow> ascending (lg_layers g) \<and> set (lg_layers g) = declared ds (lg_spec g)"
    using assms by (auto simp: groups_of_def)
  have mem: "sd_spec d \<in> lg_spec ` set gs \<longleftrightarrow> sd_spec d \<in> sd_spec ` set ds"
    using arg_cong [OF specs, of set] by simp
  have len: "length (upsert_group (length gs) d gs) =
      (if sd_spec d \<in> lg_spec ` set gs then length gs else Suc (length gs))"
    using arg_cong [OF upsert_group_maps(1) [of "length gs" d gs], of length]
    by (auto split: if_splits)
  have dist: "distinct (map lg_spec gs)" by (simp add: specs)
  have elem: "ascending (lg_layers g) \<and> set (lg_layers g) = declared (ds @ [d]) (lg_spec g)"
    if g: "g \<in> set (upsert_group (length gs) d gs)" for g
  proof -
    consider (old) "g \<in> set gs" "lg_spec g \<noteq> sd_spec d"
      | (upd) g0 where "g0 \<in> set gs" "lg_spec g0 = sd_spec d" "g = add_layer (sd_layer d) g0"
      | (new) "sd_spec d \<notin> sd_spec ` set ds"
          "g = \<lparr>lg_index = length gs, lg_spec = sd_spec d, lg_layers = [sd_layer d]\<rparr>"
      using g unfolding upsert_group_elems [OF dist] by (auto simp: mem split: if_splits)
    then show ?thesis
    proof cases
      case old
      with lay show ?thesis by (simp add: declared_snoc)
    next
      case upd
      with lay [OF upd(1)] show ?thesis by (simp add: declared_snoc add_layer_layers)
    next
      case new
      have "declared ds (sd_spec d) = {}" using new(1) by (auto simp: declared_def image_iff)
      with new(2) show ?thesis by (simp add: declared_snoc)
    qed
  qed
  show ?thesis
    unfolding groups_of_def
  proof (intro conjI ballI)
    show "map lg_index (upsert_group (length gs) d gs) = [0..<length (upsert_group (length gs) d gs)]"
      by (simp add: upsert_group_maps len idx)
    show "map lg_spec (upsert_group (length gs) d gs) = first_occurrences (map sd_spec (ds @ [d]))"
      by (simp add: upsert_group_maps mem specs first_occurrences_snoc)
  qed (use elem in blast)+
qed

lemma groups_of_from:
  "groups_of ds gs \<Longrightarrow> groups_of (ds @ es) (group_declarations_from gs es)"
proof (induction es arbitrary: ds gs)
  case (Cons e es)
  from Cons.IH [OF groups_of_upsert [OF Cons.prems]] show ?case by simp
qed simp

lemma groups_of_infallible: "groups_of ds (group_declarations_infallible ds)"
proof -
  have "groups_of [] []" by (simp add: groups_of_def)
  from groups_of_from [OF this, of ds] show ?thesis by (simp add: group_declarations_infallible_def)
qed

lemma groups_of_layers_bound:
  assumes "groups_of ds gs" and "g \<in> set gs" and "\<forall>d \<in> set ds. sd_layer d < n"
  shows "length (lg_layers g) \<le> n"
proof -
  from assms have asc: "ascending (lg_layers g)" and sub: "set (lg_layers g) \<subseteq> {..<n}"
    by (auto simp: groups_of_def declared_def)
  have "length (lg_layers g) = card (set (lg_layers g))"
    using ascending_distinct [OF asc] by (simp add: distinct_card)
  also have "\<dots> \<le> n" using card_mono [OF _ sub] by simp
  finally show ?thesis .
qed

lemma groups_of_spec: "groups_of ds gs \<Longrightarrow> g \<in> set gs \<Longrightarrow> \<exists>d \<in> set ds. sd_spec d = lg_spec g"
proof -
  assume gs: "groups_of ds gs" and g: "g \<in> set gs"
  then have "lg_spec g \<in> set (map lg_spec gs)" by simp
  also have "\<dots> = sd_spec ` set ds" using gs by (simp add: groups_of_def)
  finally show ?thesis by auto
qed

subsection \<open>When grouping succeeds\<close>

lemma layer_problems_ok:
  assumes "i + length specs \<le> MAX_LAYERS_HARD"
  shows "snd (layer_problems i specs ps ds) =
      ds @ map (\<lambda>(l, sp). \<lparr>sd_layer = l, sd_spec = sp\<rparr>) (zip [i..<i + length specs] specs)"
    and "fst (layer_problems i specs ps ds) = [] \<longleftrightarrow> ps = [] \<and> (\<forall>sp \<in> set specs. spec_ok sp)"
proof -
  have tf: "try_from 32 j = Some j" if "j < MAX_LAYERS_HARD" for j
    using that by (simp add: hard_caps)
  show "snd (layer_problems i specs ps ds) =
      ds @ map (\<lambda>(l, sp). \<lparr>sd_layer = l, sd_spec = sp\<rparr>) (zip [i..<i + length specs] specs)"
    using assms by (induction specs arbitrary: i ps ds) (auto simp: tf upt_conv_Cons simp del: upt_Suc)
  show "fst (layer_problems i specs ps ds) = [] \<longleftrightarrow> ps = [] \<and> (\<forall>sp \<in> set specs. spec_ok sp)"
    using assms by (induction specs arbitrary: i ps ds) (auto simp: tf)
qed

definition enumerate_decls :: "state_spec list \<Rightarrow> state_decl list" where
  "enumerate_decls specs = map (\<lambda>(l, sp). \<lparr>sd_layer = l, sd_spec = sp\<rparr>) (zip [0..<length specs] specs)"

lemma decl_problems_ok:
  "fst (decl_problems ds ps ls) = [] \<longleftrightarrow>
     ps = [] \<and> (\<forall>d \<in> set ds. sd_layer d < MAX_LAYERS_HARD \<and> spec_ok (sd_spec d))"
  "snd (decl_problems ds ps ls) = ls \<union> (sd_layer ` set ds \<inter> {..<MAX_LAYERS_HARD})"
  by (induction ds arbitrary: ps ls) auto

lemma cap_groups_ok [simp]: "cap_groups gs = Inr gs' \<longleftrightarrow> gs' = gs \<and> length gs \<le> MAX_GROUPS_HARD"
  by (auto simp: cap_groups_def)

lemma group_layers_iff:
  "group_layers specs = Inr gs \<longleftrightarrow>
     length specs \<le> MAX_LAYERS_HARD \<and> (\<forall>sp \<in> set specs. spec_ok sp) \<and>
     gs = group_declarations_infallible (enumerate_decls specs) \<and> length gs \<le> MAX_GROUPS_HARD"
proof (cases "length specs \<le> MAX_LAYERS_HARD")
  case True
  note lp = layer_problems_ok [of 0 specs "[]" "[]", simplified, OF True]
  show ?thesis
    using True lp by (auto simp: group_layers_def enumerate_decls_def Let_def split: prod.splits)
qed (auto simp: group_layers_def)

lemma group_layer_specs_iff:
  "group_layer_specs ds = Inr gs \<longleftrightarrow>
     length ds \<le> MAX_DECLS_HARD \<and>
     (\<forall>d \<in> set ds. sd_layer d < MAX_LAYERS_HARD \<and> spec_ok (sd_spec d)) \<and>
     gs = group_declarations_infallible ds \<and> length gs \<le> MAX_GROUPS_HARD"
proof (cases "length ds \<le> MAX_DECLS_HARD")
  case True
  have "card (snd (decl_problems ds [] {})) \<le> card {..<MAX_LAYERS_HARD}"
    by (rule card_mono) (auto simp: decl_problems_ok)
  then have "\<not> card (snd (decl_problems ds [] {})) > MAX_LAYERS_HARD" by simp
  then show ?thesis
    using True decl_problems_ok(1) [of ds "[]" "{}"]
    by (auto simp: group_layer_specs_def Let_def split: prod.splits)
qed (auto simp: group_layer_specs_def)

text \<open>
  Validated groups: what both constructors hand on. Every group has a valid spec and at
  most \<open>MAX_LAYERS_HARD\<close> layers, so none of the byte products overflows.
\<close>

definition groups_ok :: "layer_group list \<Rightarrow> bool" where
  "groups_ok gs \<longleftrightarrow> length gs \<le> MAX_GROUPS_HARD \<and> map lg_index gs = [0..<length gs] \<and>
     (\<forall>g \<in> set gs. spec_ok (lg_spec g) \<and> length (lg_layers g) \<le> MAX_LAYERS_HARD \<and> lg_layers g \<noteq> [])"

lemma groups_of_ok:
  assumes "groups_of ds gs" and "length gs \<le> MAX_GROUPS_HARD"
    and "\<forall>d \<in> set ds. sd_layer d < MAX_LAYERS_HARD \<and> spec_ok (sd_spec d)"
  shows "groups_ok gs"
proof -
  have "spec_ok (lg_spec g) \<and> length (lg_layers g) \<le> MAX_LAYERS_HARD \<and> lg_layers g \<noteq> []"
    if g: "g \<in> set gs" for g
  proof -
    obtain d where d: "d \<in> set ds" "sd_spec d = lg_spec g"
      using groups_of_spec [OF assms(1) g] by auto
    have "sd_layer d \<in> set (lg_layers g)" using assms(1) g d by (auto simp: groups_of_def declared_def)
    moreover have "spec_ok (lg_spec g)" using assms(3) d by auto
    moreover have "length (lg_layers g) \<le> MAX_LAYERS_HARD"
      using groups_of_layers_bound [OF assms(1) g] assms(3) by blast
    ultimately show ?thesis by auto
  qed
  with assms show ?thesis by (auto simp: groups_ok_def groups_of_def)
qed

lemma enumerate_decls_layers:
  "d \<in> set (enumerate_decls specs) \<Longrightarrow> sd_layer d < length specs \<and> sd_spec d \<in> set specs"
  by (auto simp: enumerate_decls_def set_zip)

lemma group_layers_ok: "group_layers specs = Inr gs \<Longrightarrow> groups_ok gs"
  using groups_of_ok [OF groups_of_infallible, of "enumerate_decls specs"] enumerate_decls_layers
  by (force simp: group_layers_iff)

lemma group_layer_specs_ok: "group_layer_specs ds = Inr gs \<Longrightarrow> groups_ok gs"
  using groups_of_ok [OF groups_of_infallible, of ds] by (auto simp: group_layer_specs_iff)

definition block_bytes_of :: "layer_group \<Rightarrow> nat" where
  "block_bytes_of g = token_bytes (lg_spec g) * length (lg_layers g) * BLOCK_TOKENS"

definition slot_bytes_of :: "layer_group \<Rightarrow> nat" where
  "slot_bytes_of g = seq_bytes (lg_spec g) * length (lg_layers g)"

lemma group_bytes_bounds:
  assumes "spec_ok (lg_spec g)" and "length (lg_layers g) \<le> MAX_LAYERS_HARD"
  shows "token_bytes (lg_spec g) * length (lg_layers g) \<le> 68736253952"
    and "block_bytes_of g \<le> 2199560126464"
    and "slot_bytes_of g \<le> 562949953421312"
  using mult_le_mono [OF token_bytes_bound [OF assms(1)], of "length (lg_layers g)" 1024]
    mult_le_mono [OF seq_bytes_bound [OF assms(1)], of "length (lg_layers g)" 1024] assms(2)
  by (simp_all add: MAX_LAYERS_HARD_def block_bytes_of_def slot_bytes_of_def mult_ac)

lemma group_block_bytes_ok:
  assumes "spec_ok (lg_spec g)" and "length (lg_layers g) \<le> MAX_LAYERS_HARD"
  shows "group_block_bytes g = Inr (block_bytes_of g)"
  using group_bytes_bounds(1) [OF assms] assms(2)
  by (simp add: group_block_bytes_def group_per_token_bytes_def per_token_bytes_ok [OF assms(1)]
      bind_r_eq_Inr MAX_LAYERS_HARD_def block_bytes_of_def)

lemma slots_bytes_per_seq_ok:
  assumes "spec_ok (lg_spec g)" and "length (lg_layers g) \<le> MAX_LAYERS_HARD"
  shows "slots_bytes_per_seq g = Inr (slot_bytes_of g)"
  using group_bytes_bounds(3) [OF assms] assms(2)
  by (simp add: slots_bytes_per_seq_def per_seq_bytes_ok [OF assms(1)] bind_r_eq_Inr
      MAX_LAYERS_HARD_def slot_bytes_of_def)

lemma block_bytes_of_pos:
  "groups_ok gs \<Longrightarrow> g \<in> set gs \<Longrightarrow> is_paged (lg_spec g) \<Longrightarrow> 0 < block_bytes_of g"
  using token_bytes_pos by (auto simp: groups_ok_def block_bytes_of_def)

end
