(* ===== verification/Block_Pool.thy ===== *)
theory Block_Pool
  imports State_Error
begin

text \<open>
  The two allocators of \<open>crates/r9v-state/src/manager.rs\<close>: \<open>BlockPool\<close> (paged blocks, a
  descending free vector) and \<open>FixedPool\<close> (recurrent sequence slots, a \<open>BTreeSet\<close>), with the
  interface \<open>id_pool\<close> that the manager's proofs use of both: the smallest free id is
  taken, an id that is not free and in range is given back, and free and owned ids
  together are always exactly the ids of the pool.
\<close>

section \<open>Conservation of ids\<close>

text \<open>
  \<open>conserved F n owned\<close>: the free ids \<open>F\<close> and the multiset of owned ids are a partition of
  the \<open>n\<close> ids of a pool. As an equation of multisets it says at once that no id is lost,
  none is owned twice, and none is both owned and free.
\<close>

definition conserved :: "nat set \<Rightarrow> nat \<Rightarrow> nat multiset \<Rightarrow> bool" where
  "conserved F n owned \<longleftrightarrow> finite F \<and> mset_set F + owned = mset_set {..<n}"

lemma conserved_owned:
  assumes "conserved F n owned" and "i \<in># owned"
  shows "i < n" and "i \<notin> F" and "count owned i = 1"
proof -
  from assms(1) have fin: "finite F" and eq: "mset_set F + owned = mset_set {..<n}"
    by (auto simp: conserved_def)
  have cnt: "count (mset_set F) i + count owned i = count (mset_set {..<n}) i"
    using arg_cong [OF eq, of "\<lambda>M. count M i"] by simp
  from assms(2) have pos: "0 < count owned i" by simp
  with cnt show lt: "i < n" by (cases "i < n") auto
  with cnt have "count (mset_set F) i + count owned i = 1" by simp
  with pos have one: "count owned i = 1" and zero: "count (mset_set F) i = 0" by linarith+
  from one show "count owned i = 1" .
  from zero fin show "i \<notin> F" by (auto simp: count_mset_set split: if_splits)
qed

lemma conserved_free_bound: "conserved F n owned \<Longrightarrow> F \<subseteq> {..<n}"
proof
  fix i
  assume c: "conserved F n owned" and "i \<in> F"
  then have "i \<in># mset_set {..<n}"
    unfolding conserved_def by (metis elem_mset_set union_iff)
  then show "i \<in> {..<n}" by simp
qed

lemma conserved_size: "conserved F n owned \<Longrightarrow> card F + size owned = n"
  unfolding conserved_def by (metis card_lessThan size_mset_set size_union)

lemma conserved_take:
  assumes "conserved F n owned" and "i \<in> F"
  shows "conserved (F - {i}) n (add_mset i owned)"
  using assms by (auto simp: conserved_def mset_set.remove)

lemma conserved_give:
  assumes "conserved F n (add_mset i owned)"
  shows "conserved (insert i F) n owned"
  using assms conserved_owned(2) [OF assms, of i] by (auto simp: conserved_def)

lemma conserved_init: "conserved {..<n} n {#}"
  by (simp add: conserved_def)

section \<open>The interface\<close>

locale id_pool =
  fixes free_ids :: "'p \<Rightarrow> nat set"
    and capacity :: "'p \<Rightarrow> nat"
    and pool_ok :: "'p \<Rightarrow> bool"
    and take_id :: "'p \<Rightarrow> (nat \<times> 'p) option"
    and give_id :: "'p \<Rightarrow> nat \<Rightarrow> 'p"
  assumes finite_free: "pool_ok p \<Longrightarrow> finite (free_ids p)"
    and take_None: "pool_ok p \<Longrightarrow> take_id p = None \<longleftrightarrow> free_ids p = {}"
    and take_Some: "pool_ok p \<Longrightarrow> take_id p = Some (i, p') \<Longrightarrow>
      i = Min (free_ids p) \<and> free_ids p' = free_ids p - {i} \<and> pool_ok p' \<and> capacity p' = capacity p"
    and give: "pool_ok p \<Longrightarrow> i < capacity p \<Longrightarrow> i \<notin> free_ids p \<Longrightarrow>
      free_ids (give_id p i) = insert i (free_ids p) \<and> pool_ok (give_id p i) \<and>
      capacity (give_id p i) = capacity p"
begin

lemma take_mem:
  assumes "pool_ok p" and "take_id p = Some (i, p')"
  shows "i \<in> free_ids p" and "\<And>j. j \<in> free_ids p \<Longrightarrow> i \<le> j"
proof -
  have ne: "free_ids p \<noteq> {}" using take_None [OF assms(1)] assms(2) by auto
  have i: "i = Min (free_ids p)" using take_Some [OF assms] by simp
  show "i \<in> free_ids p" unfolding i by (rule Min_in [OF finite_free [OF assms(1)] ne])
  show "i \<le> j" if "j \<in> free_ids p" for j
    unfolding i by (rule Min_le [OF finite_free [OF assms(1)] that])
qed

lemma take_succeeds:
  assumes "pool_ok p" and "free_ids p \<noteq> {}"
  obtains i p' where "take_id p = Some (i, p')"
proof -
  have "take_id p \<noteq> None" using take_None [OF assms(1)] assms(2) by simp
  then obtain q where "take_id p = Some q" by blast
  then show thesis using that by (cases q) auto
qed

lemma take_conserves:
  assumes "pool_ok p" and "conserved (free_ids p) (capacity p) owned" and "take_id p = Some (i, p')"
  shows "conserved (free_ids p') (capacity p') (add_mset i owned)"
  using take_Some [OF assms(1,3)] conserved_take [OF assms(2) take_mem(1) [OF assms(1,3)]] by simp

lemma give_conserves:
  assumes "pool_ok p" and "conserved (free_ids p) (capacity p) (add_mset i owned)"
  shows "conserved (free_ids (give_id p i)) (capacity (give_id p i)) owned"
    and "pool_ok (give_id p i)"
proof -
  from assms(2) have "i < capacity p" "i \<notin> free_ids p" by (auto dest: conserved_owned)
  from give [OF assms(1) this] conserved_give [OF assms(2)]
  show "conserved (free_ids (give_id p i)) (capacity (give_id p i)) owned"
    and "pool_ok (give_id p i)" by simp_all
qed

lemma take_give_free:
  assumes "pool_ok p" and "free_ids p \<subseteq> {..<capacity p}" and "take_id p = Some (i, p')"
  shows "free_ids (give_id p' i) = free_ids p"
proof -
  note s = take_Some [OF assms(1,3)] and m = take_mem(1) [OF assms(1,3)]
  have "i < capacity p'" and "i \<notin> free_ids p'" using s m assms(2) by auto
  then have "free_ids (give_id p' i) = insert i (free_ids p')" using give s by blast
  then show ?thesis using s m by auto
qed

text \<open>Giving back a whole list of owned ids: the order of release does not matter.\<close>

lemma give_list_conserves:
  assumes "pool_ok p" and "conserved (free_ids p) (capacity p) (mset is + owned)"
  shows "conserved (free_ids (foldl give_id p is)) (capacity p) owned \<and>
    pool_ok (foldl give_id p is) \<and> free_ids (foldl give_id p is) = free_ids p \<union> set is \<and>
    capacity (foldl give_id p is) = capacity p"
  using assms
proof (induction "is" arbitrary: p)
  case (Cons i "is")
  have c: "conserved (free_ids p) (capacity p) (add_mset i (mset is + owned))"
    using Cons.prems by simp
  have lt: "i < capacity p" and nf: "i \<notin> free_ids p"
    using conserved_owned [OF c, of i] by simp_all
  note g = give [OF Cons.prems(1) lt nf] and gc = give_conserves [OF Cons.prems(1) c]
  from Cons.IH [OF gc(2,1)] g show ?case by (metis Un_insert_left Un_insert_right foldl_Cons list.set(2))
qed simp

end

section \<open>BlockPool\<close>

record block_pool =
  bp_total :: nat
  bp_free :: "nat list"
  bp_base_offset :: nat
  bp_block_bytes :: nat

definition bp_alloc :: "block_pool \<Rightarrow> nat option \<times> block_pool" where
  "bp_alloc p =
     (if bp_free p = [] then (None, p)
      else (Some (last (bp_free p)), p\<lparr>bp_free := butlast (bp_free p)\<rparr>))"

text \<open>The binary search over the descending vector finds the id at its partition point.\<close>

definition bp_contains :: "block_pool \<Rightarrow> nat \<Rightarrow> bool" where
  "bp_contains p i = (get (bp_free p) (partition_point (\<lambda>x. x > i) (bp_free p)) = Some i)"

definition bp_release :: "block_pool \<Rightarrow> nat \<Rightarrow> block_pool state_result" where
  "bp_release p i =
     (if i \<ge> bp_total p then Inl (InvalidBatch (ReleaseOutOfRange i (bp_total p)))
      else if bp_contains p i then Inl (InvalidBatch (DoubleRelease i))
      else Inr (p\<lparr>bp_free := insert_at (partition_point (\<lambda>x. x > i) (bp_free p)) i (bp_free p)\<rparr>))"

definition bp_ok :: "block_pool \<Rightarrow> bool" where
  "bp_ok p \<longleftrightarrow> descending (bp_free p)"

definition bp_take :: "block_pool \<Rightarrow> (nat \<times> block_pool) option" where
  "bp_take p = (case bp_alloc p of (None, _) \<Rightarrow> None | (Some i, p') \<Rightarrow> Some (i, p'))"

definition bp_give :: "block_pool \<Rightarrow> nat \<Rightarrow> block_pool" where
  "bp_give p i = (case bp_release p i of Inl _ \<Rightarrow> p | Inr p' \<Rightarrow> p')"

lemma bp_contains_iff: "bp_ok p \<Longrightarrow> bp_contains p i \<longleftrightarrow> i \<in> set (bp_free p)"
proof
  assume ok: "bp_ok p" and i: "i \<in> set (bp_free p)"
  let ?q = "partition_point (\<lambda>x. x > i) (bp_free p)"
  have d: "drop ?q (bp_free p) = filter (\<lambda>x. x \<le> i) (bp_free p)"
    using ok by (simp add: bp_ok_def drop_partition_point dropWhile_greater_descending)
  have "descending (filter (\<lambda>x. x \<le> i) (bp_free p))"
    using ok unfolding bp_ok_def by (rule sorted_wrt_filter)
  moreover obtain y ys where y: "filter (\<lambda>x. x \<le> i) (bp_free p) = y # ys"
    using i by (cases "filter (\<lambda>x. x \<le> i) (bp_free p)") (auto simp: filter_empty_conv)
  moreover have "set (y # ys) = set (bp_free p) \<inter> {x. x \<le> i}" by (subst y [symmetric]) auto
  then have "i \<in> set (y # ys)" and "y \<le> i" using i by auto
  ultimately have "y = i" by auto
  moreover have lt: "?q < length (bp_free p)" using d y by (metis drop_all list.distinct(1) not_le)
  moreover have "bp_free p ! ?q = y" using d y lt by (metis hd_drop_conv_nth list.sel(1))
  ultimately show "bp_contains p i" by (simp add: bp_contains_def)
qed (metis bp_contains_def get_eq_Some nth_mem)

lemma last_descending_Min:
  assumes "descending xs" and "xs \<noteq> []"
  shows "last xs = Min (set xs)" and "set (butlast xs) = set xs - {last xs}"
proof -
  obtain ys y where xs: "xs = ys @ [y]" using assms(2) by (cases xs rule: rev_cases) auto
  with assms(1) have less: "\<forall>x \<in> set ys. y < x" by (simp add: sorted_wrt_append)
  then have "Min (set (ys @ [y])) = y" by (intro Min_eqI) auto
  then show "last xs = Min (set xs)" by (simp add: xs)
  show "set (butlast xs) = set xs - {last xs}" using less by (auto simp: xs)
qed

lemma descending_butlast: "descending xs \<Longrightarrow> descending (butlast xs)"
  by (cases xs rule: rev_cases) (auto simp: sorted_wrt_append)

interpretation bp: id_pool "\<lambda>p. set (bp_free p)" bp_total bp_ok bp_take bp_give
proof unfold_locales
  fix p :: block_pool and p' i
  assume ok: "bp_ok p"
  show "finite (set (bp_free p))" by simp
  show "(bp_take p = None) = (set (bp_free p) = {})"
    by (auto simp: bp_take_def bp_alloc_def)
  show "i = Min (set (bp_free p)) \<and> set (bp_free p') = set (bp_free p) - {i} \<and>
      bp_ok p' \<and> bp_total p' = bp_total p"
    if t: "bp_take p = Some (i, p')"
  proof -
    from t have ne: "bp_free p \<noteq> []" and i: "i = last (bp_free p)"
      and p': "p' = p\<lparr>bp_free := butlast (bp_free p)\<rparr>"
      by (simp_all add: bp_take_def bp_alloc_def split: if_splits)
    have desc: "descending (bp_free p)" using ok by (simp add: bp_ok_def)
    from last_descending_Min [OF desc ne] descending_butlast [OF desc] show ?thesis
      by (simp add: i p' bp_ok_def)
  qed
  show "set (bp_free (bp_give p i)) = insert i (set (bp_free p)) \<and>
      bp_ok (bp_give p i) \<and> bp_total (bp_give p i) = bp_total p"
    if "i < bp_total p" and "i \<notin> set (bp_free p)"
    using that ok descending_insert_at [of "bp_free p" i]
    by (simp add: bp_give_def bp_release_def bp_contains_iff) (simp add: bp_ok_def)
qed

lemma bp_release_ok:
  assumes "bp_ok p" and "i < bp_total p" and "i \<notin> set (bp_free p)"
  shows "bp_release p i = Inr (bp_give p i)"
  using assms by (simp add: bp_give_def bp_release_def bp_contains_iff)

lemma bp_release_iff:
  assumes "bp_ok p"
  shows "(\<exists>p'. bp_release p i = Inr p') \<longleftrightarrow> i < bp_total p \<and> i \<notin> set (bp_free p)"
  using assms by (auto simp: bp_release_def bp_contains_iff)

lemma bp_frame [simp]:
  "bp_base_offset (bp_give p i) = bp_base_offset p"
  "bp_block_bytes (bp_give p i) = bp_block_bytes p"
  "bp_total (bp_give p i) = bp_total p"
  by (auto simp: bp_give_def bp_release_def)

lemma bp_give_length:
  assumes "bp_ok p" and "i < bp_total p" and "i \<notin> set (bp_free p)"
  shows "length (bp_free (bp_give p i)) = Suc (length (bp_free p))"
  using assms by (simp add: bp_give_def bp_release_def bp_contains_iff)

section \<open>FixedPool\<close>

text \<open>The free \<open>BTreeSet\<close> is its ascending list of elements.\<close>

record fixed_pool =
  fp_total_slots :: nat
  fp_free :: "nat list"
  fp_slot_bytes_per_seq :: nat
  fp_buffer_bytes :: nat
  fp_base_offset :: nat

definition btree_insert :: "nat \<Rightarrow> nat list \<Rightarrow> nat list" where
  "btree_insert x xs = (if x \<in> set xs then xs else insert_at (partition_point (\<lambda>y. y < x) xs) x xs)"

definition fp_take :: "fixed_pool \<Rightarrow> (nat \<times> fixed_pool) option" where
  "fp_take p = (case fp_free p of [] \<Rightarrow> None | i # is \<Rightarrow> Some (i, p\<lparr>fp_free := remove1 i (fp_free p)\<rparr>))"

definition fp_give :: "fixed_pool \<Rightarrow> nat \<Rightarrow> fixed_pool" where
  "fp_give p i = p\<lparr>fp_free := btree_insert i (fp_free p)\<rparr>"

definition fp_ok :: "fixed_pool \<Rightarrow> bool" where
  "fp_ok p \<longleftrightarrow> ascending (fp_free p)"

definition fp_buffer_offset :: "fixed_pool \<Rightarrow> nat \<Rightarrow> nat state_result" where
  "fp_buffer_offset p buffer =
     ok_or (Overflow ''fixed buffer offset'')
       (Option.bind (checked_mul 64 buffer (fp_buffer_bytes p)) (\<lambda>v. checked_add 64 v (fp_base_offset p)))"

lemma ascending_Cons_Min: "ascending (x # xs) \<Longrightarrow> Min (set (x # xs)) = (x::nat)"
  by (intro Min_eqI) (auto intro: less_imp_le)

interpretation fp: id_pool "\<lambda>p. set (fp_free p)" fp_total_slots fp_ok fp_take fp_give
proof unfold_locales
  fix p :: fixed_pool and p' i
  assume ok: "fp_ok p"
  show "finite (set (fp_free p))" by simp
  show "(fp_take p = None) = (set (fp_free p) = {})"
    by (auto simp: fp_take_def split: list.splits)
  show "i = Min (set (fp_free p)) \<and> set (fp_free p') = set (fp_free p) - {i} \<and>
      fp_ok p' \<and> fp_total_slots p' = fp_total_slots p"
    if t: "fp_take p = Some (i, p')"
  proof -
    from t obtain "is" where f: "fp_free p = i # is" and p': "p' = p\<lparr>fp_free := is\<rparr>"
      by (auto simp: fp_take_def split: list.splits)
    with ok ascending_Cons_Min [of i "is"] show ?thesis
      by (auto simp: fp_ok_def)
  qed
  show "set (fp_free (fp_give p i)) = insert i (set (fp_free p)) \<and>
      fp_ok (fp_give p i) \<and> fp_total_slots (fp_give p i) = fp_total_slots p"
    if "i < fp_total_slots p" and "i \<notin> set (fp_free p)"
    using that ok ascending_insert_at [of "fp_free p" i]
    by (simp add: fp_give_def btree_insert_def fp_ok_def)
qed

lemma fp_frame [simp]:
  "fp_base_offset (fp_give p i) = fp_base_offset p"
  "fp_buffer_bytes (fp_give p i) = fp_buffer_bytes p"
  "fp_slot_bytes_per_seq (fp_give p i) = fp_slot_bytes_per_seq p"
  "fp_total_slots (fp_give p i) = fp_total_slots p"
  by (simp_all add: fp_give_def)

end
