(* ===== verification/State_Manager.thy ===== *)
theory State_Manager
  imports State_Spec Block_Pool
begin

text \<open>
  \<open>crates/r9v-state/src/manager.rs\<close>, the sequence-state manager: its configuration, its
  records, construction from validated groups, and every operation that changes it
  (\<open>new_seq\<close>, \<open>reserve\<close>, \<open>write_tokens\<close>, \<open>compact\<close>, \<open>commit\<close>, \<open>free_seq\<close>) with the read
  accessors. An operation on \<open>&mut self\<close> returns its result together with the manager it
  leaves behind, also on an error, so that what a refusal changes is part of the model.

  A \<open>BTreeMap\<close> is a partial map; no operation iterates over the sequences. \<open>usize\<close> and
  \<open>u64\<close> have the same 64 bits, so conversions between them are the identity. The
  allocator is a parameter: \<open>grants size n\<close> says whether a \<open>try_reserve_exact\<close> of \<open>n\<close>
  entries of \<open>size\<close> bytes succeeds.
\<close>

section \<open>Configuration\<close>

definition SLOT_NONE :: nat where "SLOT_NONE = u32_max"
definition MAX_SLOT_BLOCKS :: nat where "MAX_SLOT_BLOCKS = 134217727"
definition MAX_COMPACT_TOKENS :: nat where "MAX_COMPACT_TOKENS = 16"

record state_config =
  sc_max_ctx :: nat
  sc_max_seqs :: nat

definition config_validate :: "state_config \<Rightarrow> unit state_result" where
  "config_validate c =
     (let problems =
        (if sc_max_ctx c = 0 \<or> sc_max_ctx c > MAX_CTX_HARD
         then [\<lparr>ii_index = u32_max, ii_reason = MaxCtxOutOfRange (sc_max_ctx c)\<rparr>] else []) @
        (if sc_max_ctx c mod BLOCK_TOKENS \<noteq> 0
         then [\<lparr>ii_index = u32_max, ii_reason = MaxCtxNotMultiple (sc_max_ctx c)\<rparr>] else []) @
        (if sc_max_seqs c = 0 \<or> sc_max_seqs c > MAX_SEQS_HARD
         then [\<lparr>ii_index = u32_max, ii_reason = MaxSeqsOutOfRange (sc_max_seqs c)\<rparr>] else [])
      in if problems = [] then Inr () else Inl (InvalidConfig problems))"

definition max_blocks :: "state_config \<Rightarrow> nat" where
  "max_blocks c = sc_max_ctx c div BLOCK_TOKENS"

definition required_pool_bytes :: "state_config \<Rightarrow> layer_group list \<Rightarrow> nat state_result" where
  "required_pool_bytes c groups =
     fold_r (\<lambda>g total.
       if is_paged (lg_spec g)
       then bind_r (group_block_bytes g) (\<lambda>bb.
            bind_r (ok_or (Overflow ''full-context paged pool'') (checked_mul 64 bb (max_blocks c))) (\<lambda>full.
            ok_or (Overflow ''pool total'') (checked_add 64 total full)))
       else bind_r (slots_bytes_per_seq g) (\<lambda>sb.
            bind_r (ok_or (Overflow ''recurrent pool'') (checked_mul 64 sb (sc_max_seqs c))) (\<lambda>fixed.
            ok_or (Overflow ''pool total'') (checked_add 64 total fixed)))) groups 0"

definition block_offset :: "nat \<Rightarrow> nat \<Rightarrow> nat \<Rightarrow> nat state_result" where
  "block_offset base block_id block_bytes =
     ok_or (Overflow ''block offset'')
       (Option.bind (checked_mul 64 block_id block_bytes) (\<lambda>v. checked_add 64 v base))"

section \<open>State\<close>

record slot_range =
  sr_seq :: nat
  sr_start :: nat
  sr_len :: nat

definition sr_end :: "slot_range \<Rightarrow> nat" where
  "sr_end r = sr_start r + sr_len r"

record compact_op =
  co_seq :: nat
  co_src :: "nat list"
  co_dst_start :: nat
  co_len :: nat

definition src_positions :: "compact_op \<Rightarrow> nat list" where
  "src_positions op = take (co_len op) (co_src op)"

record seq_state =
  ss_ctx_len :: nat
  ss_tail_len :: nat
  ss_tables :: "nat list list"
  ss_indices :: "nat list list"
  ss_mirror :: "nat \<times> nat \<rightharpoonup> nat"
  ss_compacted :: "nat option"
  ss_fixed_slots :: "nat option list"
  ss_parity :: "nat list"

record state_manager =
  sm_config :: state_config
  sm_groups :: "layer_group list"
  sm_pools :: "block_pool option list"
  sm_fixed :: "fixed_pool option list"
  sm_max_blocks :: nat
  sm_pool_bytes_total :: nat
  sm_fixed_bytes_total :: nat
  sm_unusable_bytes :: nat
  sm_next_seq :: nat
  sm_seqs :: "nat \<rightharpoonup> seq_state"
  sm_live_count :: nat
  sm_swaps :: nat
  sm_commits :: nat
  sm_reserve_scratch :: "(nat \<times> nat) list"

definition slot_at :: "'a option list \<Rightarrow> nat \<Rightarrow> 'a option" where
  "slot_at xs i = (case get xs i of Some (Some x) \<Rightarrow> Some x | _ \<Rightarrow> None)"

lemma slot_at_eq_Some [simp, slice_simps]: "slot_at xs i = Some x \<longleftrightarrow> i < length xs \<and> xs ! i = Some x"
  by (auto simp: slot_at_def get_def split: option.splits)

section \<open>Construction\<close>

definition fixed_pool_bytes :: "nat \<Rightarrow> layer_group list \<Rightarrow> nat state_result" where
  "fixed_pool_bytes max_seqs groups =
     fold_r (\<lambda>g total.
       if is_paged (lg_spec g) then Inr total
       else bind_r (slots_bytes_per_seq g) (\<lambda>per_seq.
            bind_r (ok_or (Overflow ''fixed group pool'') (checked_mul 64 per_seq max_seqs)) (\<lambda>grp.
            ok_or (Overflow ''fixed pool total'') (checked_add 64 total grp)))) groups 0"

definition block_cost_sum :: "layer_group list \<Rightarrow> nat state_result" where
  "block_cost_sum paged_groups =
     fold_r (\<lambda>g total. bind_r (group_block_bytes g) (\<lambda>bb.
       ok_or (Overflow ''block cost sum'') (checked_add 64 total bb))) paged_groups 0"

definition split_paged :: "nat \<Rightarrow> nat \<Rightarrow> nat \<Rightarrow> layer_group list \<Rightarrow> nat \<Rightarrow> (nat \<times> nat) state_result" where
  "split_paged max_b pool_bytes fixed_total paged_groups cost =
     (if paged_groups = [] then Inr (0, 0)
      else bind_r (ok_or (whole_config BlockCostZero) (checked_div (pool_bytes - fixed_total) cost)) (\<lambda>blocks.
           bind_r (ok_or (whole_config (BlocksExceedSlotRange blocks)) (try_from 32 blocks)) (\<lambda>per_group.
           if per_group > MAX_SLOT_BLOCKS then Inl (whole_config (BlocksExceedSlotRange per_group))
           else if per_group < max_b
           then bind_r (ok_or (Overflow ''minimum paged pool'') (checked_mul 64 max_b cost)) (\<lambda>need_paged.
                bind_r (ok_or (Overflow ''minimum pool'') (checked_add 64 fixed_total need_paged)) (\<lambda>required.
                Inl (whole_config (PoolBelowRequired pool_bytes required (required - pool_bytes)))))
           else bind_r (ok_or (Overflow ''assigned paged bytes'') (checked_mul 64 per_group cost)) (\<lambda>assigned.
                Inr (per_group, assigned)))))"

definition build_pool :: "nat \<Rightarrow> nat \<Rightarrow> layer_group \<Rightarrow>
    nat \<times> block_pool option list \<times> fixed_pool option list \<Rightarrow>
    (nat \<times> block_pool option list \<times> fixed_pool option list) state_result" where
  "build_pool blocks_per_group max_seqs g acc =
     (case acc of (base, pools, fixed) \<Rightarrow>
       if is_paged (lg_spec g)
       then bind_r (group_block_bytes g) (\<lambda>block_bytes.
            bind_r (ok_or (Overflow ''group pool bytes'') (checked_mul 64 blocks_per_group block_bytes)) (\<lambda>bytes.
            bind_r (ok_or (Overflow ''arena base'') (checked_add 64 base bytes)) (\<lambda>base'.
            Inr (base',
                 pools @ [Some \<lparr>bp_total = blocks_per_group, bp_free = rev [0..<blocks_per_group],
                                bp_base_offset = base, bp_block_bytes = block_bytes\<rparr>],
                 fixed @ [None]))))
       else bind_r (slots_bytes_per_seq g) (\<lambda>per_seq.
            bind_r (ok_or (Overflow ''fixed group bytes'') (checked_mul 64 per_seq max_seqs)) (\<lambda>grp_bytes.
            bind_r (ok_or (Overflow ''arena base'') (checked_add 64 base grp_bytes)) (\<lambda>base'.
            Inr (base',
                 pools @ [None],
                 fixed @ [Some \<lparr>fp_total_slots = max_seqs, fp_free = [0..<max_seqs],
                                fp_slot_bytes_per_seq = per_seq, fp_buffer_bytes = per_seq div 2,
                                fp_base_offset = base\<rparr>])))))"

definition new_from_validated_groups ::
    "(nat \<Rightarrow> nat \<Rightarrow> bool) \<Rightarrow> state_config \<Rightarrow> layer_group list \<Rightarrow> nat \<Rightarrow> state_manager state_result" where
  "new_from_validated_groups grants config groups pool_bytes =
     bind_r (fixed_pool_bytes (sc_max_seqs config) groups) (\<lambda>fixed_total.
     if pool_bytes < fixed_total
     then Inl (whole_config (PoolBelowFixed pool_bytes fixed_total (fixed_total - pool_bytes)))
     else
       let usable = pool_bytes - fixed_total;
           paged_groups = filter (\<lambda>g. is_paged (lg_spec g)) groups
       in
       bind_r (block_cost_sum paged_groups) (\<lambda>cost.
       bind_r (split_paged (max_blocks config) pool_bytes fixed_total paged_groups cost)
         (\<lambda>(blocks_per_group, assigned_paged).
       bind_r (fold_r (build_pool blocks_per_group (sc_max_seqs config)) groups (0, [], []))
         (\<lambda>(base, pools, fixed).
       bind_r (ok_or (Overflow ''reserve scratch capacity'')
                (checked_mul 64 (length paged_groups) (max_blocks config))) (\<lambda>scratch_cap.
       if \<not> grants 8 scratch_cap then Inl (Overflow ''reserve scratch capacity'')
       else Inr \<lparr>sm_config = config, sm_groups = groups, sm_pools = pools, sm_fixed = fixed,
                 sm_max_blocks = max_blocks config, sm_pool_bytes_total = assigned_paged,
                 sm_fixed_bytes_total = fixed_total, sm_unusable_bytes = usable - assigned_paged,
                 sm_next_seq = 0, sm_seqs = Map.empty, sm_live_count = 0, sm_swaps = 0,
                 sm_commits = 0, sm_reserve_scratch = []\<rparr>)))))"

definition with_config :: "unit state_result \<Rightarrow> layer_group list state_result \<Rightarrow>
    layer_group list state_result" where
  "with_config config_res groups_res =
     (case (config_res, groups_res) of
        (Inl (InvalidConfig cp), Inl (InvalidConfig gp)) \<Rightarrow> Inl (InvalidConfig (cp @ gp))
      | (Inl e, _) \<Rightarrow> Inl e
      | (Inr _, Inl e) \<Rightarrow> Inl e
      | (Inr _, Inr groups) \<Rightarrow> Inr groups)"

definition sm_new ::
    "(nat \<Rightarrow> nat \<Rightarrow> bool) \<Rightarrow> state_config \<Rightarrow> state_spec list \<Rightarrow> nat \<Rightarrow> state_manager state_result" where
  "sm_new grants config layer_specs pool_bytes =
     bind_r (with_config (config_validate config) (group_layers layer_specs)) (\<lambda>groups.
     new_from_validated_groups grants config groups pool_bytes)"

definition new_with_declarations ::
    "(nat \<Rightarrow> nat \<Rightarrow> bool) \<Rightarrow> state_config \<Rightarrow> state_decl list \<Rightarrow> nat \<Rightarrow> state_manager state_result" where
  "new_with_declarations grants config declarations pool_bytes =
     bind_r (with_config (config_validate config) (group_layer_specs declarations)) (\<lambda>groups.
     new_from_validated_groups grants config groups pool_bytes)"

section \<open>Starting a sequence\<close>

fun fixed_slots_free :: "nat \<Rightarrow> nat \<Rightarrow> fixed_pool option list \<Rightarrow> (nat \<times> layer_group) list \<Rightarrow> unit state_result" where
  "fixed_slots_free live cap fixed [] = Inr ()"
| "fixed_slots_free live cap fixed ((gi, g) # rest) =
     (if \<not> is_recurrent (lg_spec g) then fixed_slots_free live cap fixed rest
      else case slot_at fixed gi of
             None \<Rightarrow> Inl (InvalidBatch (NotFixedGroup gi))
           | Some pool \<Rightarrow> if fp_free pool = [] then Inl (SeqLimit live cap)
                          else fixed_slots_free live cap fixed rest)"

text \<open>Slots taken so far go back to their pools when a later group fails.\<close>

fun return_slots :: "(nat \<times> nat option) list \<Rightarrow> fixed_pool option list \<Rightarrow> fixed_pool option list" where
  "return_slots [] fixed = fixed"
| "return_slots ((gi, slot) # rest) fixed =
     return_slots rest
       (case (slot, slot_at fixed gi) of
          (Some sid, Some pool) \<Rightarrow> fixed[gi := Some (fp_give pool sid)]
        | _ \<Rightarrow> fixed)"

fun take_slots :: "nat \<Rightarrow> nat \<Rightarrow> (nat \<times> layer_group) list \<Rightarrow> nat option list \<Rightarrow> fixed_pool option list \<Rightarrow>
    (nat option list) state_result \<times> fixed_pool option list" where
  "take_slots live cap [] slots fixed = (Inr slots, fixed)"
| "take_slots live cap ((gi, g) # rest) slots fixed =
     (if \<not> is_recurrent (lg_spec g) then take_slots live cap rest slots fixed
      else case slot_at fixed gi of
             None \<Rightarrow> (Inl (InvalidBatch (NotFixedGroup gi)),
                       return_slots (List.enumerate 0 slots) fixed)
           | Some pool \<Rightarrow>
               (case fp_take pool of
                  None \<Rightarrow> (Inl (SeqLimit live cap), return_slots (List.enumerate 0 slots) fixed)
                | Some (i, pool') \<Rightarrow>
                    take_slots live cap rest (slots[gi := Some i]) (fixed[gi := Some pool'])))"

definition new_seq :: "state_manager \<Rightarrow> nat list \<Rightarrow> (nat \<times> nat) state_result \<times> state_manager" where
  "new_seq m tokens =
     (let len = length tokens; cap = sc_max_seqs (sm_config m); live = sm_live_count m;
          checks =
            bind_r (ok_or (Overflow ''prompt length'') (try_from 32 len)) (\<lambda>len_u32.
            bind_r (guard_r (len \<le> sc_max_ctx (sm_config m))
                     (ReserveTooLarge len_u32 (sc_max_ctx (sm_config m)) len_u32)) (\<lambda>_.
            bind_r (ok_or (Overflow ''live sequence count'') (checked_add 32 live 1)) (\<lambda>next_live.
            bind_r (guard_r (sm_next_seq m \<le> u32_max) (SeqIdOverflow (sm_next_seq m) u32_max)) (\<lambda>_.
            bind_r (ok_or (Overflow ''sequence id'') (checked_add 64 (sm_next_seq m) 1)) (\<lambda>next_id.
            bind_r (guard_r (live < cap) (SeqLimit live cap)) (\<lambda>_.
            bind_r (fixed_slots_free live cap (sm_fixed m) (List.enumerate 0 (sm_groups m))) (\<lambda>_.
            Inr (next_live, next_id))))))))
      in case checks of
           Inl e \<Rightarrow> (Inl e, m)
         | Inr (next_live, next_id) \<Rightarrow>
             (case take_slots live cap (List.enumerate 0 (sm_groups m))
                     (replicate (length (sm_groups m)) None) (sm_fixed m) of
                (Inl e, fixed') \<Rightarrow> (Inl e, m\<lparr>sm_fixed := fixed'\<rparr>)
              | (Inr fixed_slots, fixed') \<Rightarrow>
                  (Inr (sm_next_seq m, 0),
                   m\<lparr>sm_fixed := fixed',
                     sm_seqs := (sm_seqs m)(sm_next_seq m \<mapsto>
                       \<lparr>ss_ctx_len = 0, ss_tail_len = 0,
                        ss_tables = replicate (length (sm_groups m)) [],
                        ss_indices = replicate (length (sm_groups m)) [],
                        ss_mirror = Map.empty, ss_compacted = None, ss_fixed_slots = fixed_slots,
                        ss_parity = replicate (length (sm_groups m)) 0\<rparr>),
                     sm_next_seq := next_id,
                     sm_live_count := next_live\<rparr>)))"

section \<open>Accessors\<close>

definition sm_seq :: "state_manager \<Rightarrow> nat \<Rightarrow> seq_state state_result" where
  "sm_seq m q = ok_or (UnknownSeq q) (sm_seqs m q)"

definition sm_ctx_len :: "state_manager \<Rightarrow> nat \<Rightarrow> nat state_result" where
  "sm_ctx_len m q = bind_r (sm_seq m q) (\<lambda>s. Inr (ss_ctx_len s))"

definition sm_tail_len :: "state_manager \<Rightarrow> nat \<Rightarrow> nat state_result" where
  "sm_tail_len m q = bind_r (sm_seq m q) (\<lambda>s. Inr (ss_tail_len s))"

definition window_start_of :: "nat \<Rightarrow> nat \<Rightarrow> nat" where
  "window_start_of ctx w = (if ctx \<ge> w then ctx - w else 0)"

definition group_window_start :: "state_spec \<Rightarrow> nat \<Rightarrow> nat" where
  "group_window_start sp ctx =
     (case spec_retain sp of
        None \<Rightarrow> 0
      | Some RetainAll \<Rightarrow> 0
      | Some (Window w) \<Rightarrow> window_start_of ctx w
      | Some (SinkWindow n w) \<Rightarrow> window_start_of ctx w)"

definition window_start :: "state_manager \<Rightarrow> nat \<Rightarrow> nat \<Rightarrow> nat state_result" where
  "window_start m q grp =
     bind_r (sm_seq m q) (\<lambda>s.
     bind_r (ok_or (InvalidBatch (GroupOutOfRange grp (length (sm_groups m)))) (get (sm_groups m) grp))
       (\<lambda>g. Inr (group_window_start (lg_spec g) (ss_ctx_len s))))"

definition recurrent_active :: "state_manager \<Rightarrow> nat \<Rightarrow> nat \<Rightarrow> nat state_result" where
  "recurrent_active m q grp =
     bind_r (sm_seq m q) (\<lambda>s.
     ok_or (InvalidBatch (GroupOutOfRange grp (length (sm_groups m)))) (get (ss_parity s) grp))"

definition fixed_slot :: "state_manager \<Rightarrow> nat \<Rightarrow> nat \<Rightarrow> nat state_result" where
  "fixed_slot m q grp =
     bind_r (sm_seq m q) (\<lambda>s.
     bind_r (ok_or (InvalidBatch (GroupOutOfRange grp (length (sm_groups m)))) (get (sm_groups m) grp)) (\<lambda>g.
     bind_r (guard_r (is_recurrent (lg_spec g)) (InvalidBatch (NotRecurrentGroup grp))) (\<lambda>_.
     ok_or (InvalidBatch (HoldsNoSlot q grp)) (slot_at (ss_fixed_slots s) grp))))"

definition recurrent_buffers :: "state_manager \<Rightarrow> nat \<Rightarrow> nat \<Rightarrow> (nat \<times> nat) state_result" where
  "recurrent_buffers m q grp =
     bind_r (fixed_slot m q grp) (\<lambda>slot.
     bind_r (recurrent_active m q grp) (\<lambda>active_bit.
     bind_r (ok_or (Overflow ''fixed buffer id'') (checked_mul 32 slot 2)) (\<lambda>base.
     bind_r (ok_or (Overflow ''fixed buffer id'') (checked_add 32 base active_bit)) (\<lambda>active.
     bind_r (if active_bit = 0 then Inr 1 else if active_bit = 1 then Inr 0
             else Inl (Overflow ''fixed buffer parity'')) (\<lambda>working_bit.
     bind_r (ok_or (Overflow ''fixed buffer id'') (checked_add 32 base working_bit)) (\<lambda>working.
     Inr (active, working)))))))"

definition fixed_buffer_offset :: "state_manager \<Rightarrow> nat \<Rightarrow> nat \<Rightarrow> nat state_result" where
  "fixed_buffer_offset m grp buffer =
     bind_r (ok_or (InvalidBatch (NotRecurrentGroup grp)) (slot_at (sm_fixed m) grp)) (\<lambda>pool.
     bind_r (ok_or (Overflow ''fixed buffer range'') (checked_mul 32 (fp_total_slots pool) 2)) (\<lambda>total_buffers.
     bind_r (guard_r (buffer < total_buffers) (OutOfRange buffer 1 total_buffers)) (\<lambda>_.
     fp_buffer_offset pool buffer)))"

definition free_blocks :: "state_manager \<Rightarrow> nat \<Rightarrow> nat state_result" where
  "free_blocks m grp =
     bind_r (ok_or (InvalidBatch (NotPagedGroup grp)) (slot_at (sm_pools m) grp)) (\<lambda>pool.
     ok_or (Overflow ''free block count'') (try_from 32 (length (bp_free pool))))"

definition free_slots :: "state_manager \<Rightarrow> nat \<Rightarrow> nat state_result" where
  "free_slots m grp =
     bind_r (ok_or (InvalidBatch (NotRecurrentGroup grp)) (slot_at (sm_fixed m) grp)) (\<lambda>pool.
     ok_or (Overflow ''free slot count'') (try_from 32 (length (fp_free pool))))"

section \<open>Reserving\<close>

definition missing_indices :: "nat list \<Rightarrow> nat \<Rightarrow> nat \<Rightarrow> nat list" where
  "missing_indices held first_block last_block =
     filter (\<lambda>idx. get held (partition_point (\<lambda>i. i < idx) held) \<noteq> Some idx) [first_block..<last_block]"

text \<open>Pass 1: count what every paged group misses, filling the scratch; nothing is allocated.\<close>

fun reserve_scan :: "nat \<Rightarrow> nat \<Rightarrow> nat \<Rightarrow> nat \<Rightarrow> block_pool option list \<Rightarrow> seq_state \<Rightarrow>
    (nat \<times> layer_group) list \<Rightarrow> (nat \<times> nat) list \<Rightarrow> unit state_result \<times> (nat \<times> nat) list" where
  "reserve_scan first_b last_b end_pos max_ctx pools s [] scratch = (Inr (), scratch)"
| "reserve_scan first_b last_b end_pos max_ctx pools s ((gi, g) # rest) scratch =
     (if \<not> is_paged (lg_spec g) then reserve_scan first_b last_b end_pos max_ctx pools s rest scratch
      else case try_from 32 gi of
             None \<Rightarrow> (Inl (Overflow ''group index''), scratch)
           | Some grp \<Rightarrow>
               (case get (ss_indices s) gi of
                  None \<Rightarrow> (Inl (RustPanic ''indices''), scratch)
                | Some held \<Rightarrow>
                    let missing = missing_indices held first_b last_b;
                        scratch' = scratch @ map (\<lambda>idx. (grp, idx)) missing;
                        want = length missing;
                        free = (case get pools gi of Some (Some p) \<Rightarrow> length (bp_free p) | _ \<Rightarrow> 0)
                    in if want > free
                       then (bind_r (ok_or (Overflow ''free block count'') (try_from 32 free)) (\<lambda>available.
                             bind_r (ok_or (Overflow ''missing block count'') (try_from 32 want)) (\<lambda>required.
                             bind_r (ok_or (Overflow ''pool shortfall'') (checked_sub required available)) (\<lambda>shortfall.
                             Inl (PoolExhausted gi required available shortfall end_pos max_ctx)))), scratch')
                       else reserve_scan first_b last_b end_pos max_ctx pools s rest scratch'))"

definition place_one_block :: "block_pool option list \<Rightarrow> (nat \<rightharpoonup> seq_state) \<Rightarrow> nat \<Rightarrow> nat \<Rightarrow> nat \<Rightarrow> nat \<Rightarrow> nat \<Rightarrow>
    unit state_result \<times> block_pool option list \<times> (nat \<rightharpoonup> seq_state)" where
  "place_one_block pools seqs q gi idx end_pos max_ctx =
     (case slot_at pools gi of
        None \<Rightarrow> (Inl (InvalidBatch (NotPagedGroup gi)), pools, seqs)
      | Some pool \<Rightarrow>
          (case bp_alloc pool of
             (None, _) \<Rightarrow> (Inl (PoolExhausted gi 1 0 1 end_pos max_ctx), pools, seqs)
           | (Some i, pool') \<Rightarrow>
               let pools' = pools[gi := Some pool'] in
               (case seqs q of
                  None \<Rightarrow> (Inl (UnknownSeq q), pools', seqs)
                | Some s \<Rightarrow>
                    (case get (ss_indices s) gi of
                       None \<Rightarrow> (Inl (InvalidBatch (SequenceHasNoTable q)), pools', seqs)
                     | Some ix \<Rightarrow>
                         let at = partition_point (\<lambda>j. j < idx) ix;
                             s1 = s\<lparr>ss_indices := (ss_indices s)[gi := insert_at at idx ix]\<rparr> in
                         (case get (ss_tables s) gi of
                            None \<Rightarrow> (Inl (InvalidBatch (SequenceHasNoTable q)), pools', seqs(q \<mapsto> s1))
                          | Some tb \<Rightarrow>
                              if at > length tb then (Inl (RustPanic ''insert''), pools', seqs(q \<mapsto> s1))
                              else (Inr (), pools',
                                    seqs(q \<mapsto> s1\<lparr>ss_tables := (ss_tables s)[gi := insert_at at i tb]\<rparr>)))))))"

text \<open>Rolling back a placed prefix: each entry is found again and its id released.\<close>

fun unplace_blocks :: "nat \<Rightarrow> (nat \<times> nat) list \<Rightarrow> block_pool option list \<Rightarrow> (nat \<rightharpoonup> seq_state) \<Rightarrow>
    unit state_result \<times> block_pool option list \<times> (nat \<rightharpoonup> seq_state)" where
  "unplace_blocks q [] pools seqs = (Inr (), pools, seqs)"
| "unplace_blocks q ((rgi, ridx) # rest) pools seqs =
     (let found = (case seqs q of
                     None \<Rightarrow> None
                   | Some s \<Rightarrow>
                       (case get (ss_indices s) rgi of
                          None \<Rightarrow> None
                        | Some ix \<Rightarrow>
                            let at = partition_point (\<lambda>j. j < ridx) ix in
                            (case get (ss_tables s) rgi of
                               Some tb \<Rightarrow> if get ix at = Some ridx \<and> at < length tb
                                          then Some (s, at, ix, tb) else None
                             | None \<Rightarrow> None)))
      in case found of
           None \<Rightarrow> unplace_blocks q rest pools seqs
         | Some (s, at, ix, tb) \<Rightarrow>
             let seqs' = seqs(q \<mapsto> s\<lparr>ss_indices := (ss_indices s)[rgi := remove_at at ix],
                                     ss_tables := (ss_tables s)[rgi := remove_at at tb]\<rparr>)
             in (case slot_at pools rgi of
                   None \<Rightarrow> unplace_blocks q rest pools seqs'
                 | Some pool \<Rightarrow>
                     (case bp_release pool (tb ! at) of
                        Inl e \<Rightarrow> (Inl e, pools, seqs')
                      | Inr pool' \<Rightarrow> unplace_blocks q rest (pools[rgi := Some pool']) seqs')))"

fun place_blocks :: "nat \<Rightarrow> nat \<Rightarrow> nat \<Rightarrow> (nat \<times> nat) list \<Rightarrow> nat \<Rightarrow> block_pool option list \<Rightarrow> (nat \<rightharpoonup> seq_state) \<Rightarrow>
    (nat \<times> state_error option) \<times> block_pool option list \<times> (nat \<rightharpoonup> seq_state)" where
  "place_blocks q end_pos max_ctx [] placed pools seqs = ((placed, None), pools, seqs)"
| "place_blocks q end_pos max_ctx ((gi, idx) # rest) placed pools seqs =
     (case place_one_block pools seqs q gi idx end_pos max_ctx of
        (Inr _, pools', seqs') \<Rightarrow> place_blocks q end_pos max_ctx rest (Suc placed) pools' seqs'
      | (Inl e, pools', seqs') \<Rightarrow> ((placed, Some e), pools', seqs'))"

definition place_reserve_blocks :: "state_manager \<Rightarrow> nat \<Rightarrow> nat \<Rightarrow> unit state_result \<times> state_manager" where
  "place_reserve_blocks m q end_pos =
     (case place_blocks q end_pos (sc_max_ctx (sm_config m)) (sm_reserve_scratch m) 0 (sm_pools m) (sm_seqs m) of
        ((placed, None), pools', seqs') \<Rightarrow> (Inr (), m\<lparr>sm_pools := pools', sm_seqs := seqs'\<rparr>)
      | ((placed, Some e), pools', seqs') \<Rightarrow>
          (case unplace_blocks q (take placed (sm_reserve_scratch m)) pools' seqs' of
             (Inl e', pools'', seqs'') \<Rightarrow> (Inl e', m\<lparr>sm_pools := pools'', sm_seqs := seqs''\<rparr>)
           | (Inr _, pools'', seqs'') \<Rightarrow> (Inl e, m\<lparr>sm_pools := pools'', sm_seqs := seqs''\<rparr>)))"

definition reserve_checks :: "state_manager \<Rightarrow> nat \<Rightarrow> nat \<Rightarrow> (seq_state \<times> nat) state_result" where
  "reserve_checks m q n =
     (if n = 0 \<or> n > MAX_RESERVE_HARD
      then bind_r (sm_seq m q) (\<lambda>s. Inl (InvalidReserve n (ss_tail_len s)))
      else bind_r (sm_seq m q) (\<lambda>s.
           bind_r (guard_r (ss_tail_len s = 0) (InvalidReserve n (ss_tail_len s))) (\<lambda>_.
           bind_r (ok_or (Overflow ''reserve end'') (checked_add 32 (ss_ctx_len s) n)) (\<lambda>end_pos.
           bind_r (guard_r (end_pos \<le> sc_max_ctx (sm_config m))
                    (ReserveTooLarge end_pos (sc_max_ctx (sm_config m)) n)) (\<lambda>_.
           Inr (s, end_pos))))))"

definition reserve :: "state_manager \<Rightarrow> nat \<Rightarrow> nat \<Rightarrow> slot_range state_result \<times> state_manager" where
  "reserve m q n =
     (case reserve_checks m q n of
        Inl e \<Rightarrow> (Inl e, m)
      | Inr (s, end_pos) \<Rightarrow>
          (case reserve_scan (ss_ctx_len s div BLOCK_TOKENS) (div_ceil end_pos BLOCK_TOKENS) end_pos
                  (sc_max_ctx (sm_config m)) (sm_pools m) s (List.enumerate 0 (sm_groups m)) [] of
             (Inl e, scratch) \<Rightarrow> (Inl e, m\<lparr>sm_reserve_scratch := scratch\<rparr>)
           | (Inr _, scratch) \<Rightarrow>
               (case place_reserve_blocks (m\<lparr>sm_reserve_scratch := scratch\<rparr>) q end_pos of
                  (Inl e, m') \<Rightarrow> (Inl e, m')
                | (Inr _, m') \<Rightarrow>
                    (case sm_seqs m' q of
                       None \<Rightarrow> (Inl (UnknownSeq q), m')
                     | Some s' \<Rightarrow>
                         (Inr \<lparr>sr_seq = q, sr_start = ss_ctx_len s, sr_len = n\<rparr>,
                          m'\<lparr>sm_seqs := (sm_seqs m')(q \<mapsto> s'\<lparr>ss_tail_len := n, ss_compacted := None\<rparr>)\<rparr>)))))"

section \<open>Slots\<close>

definition flatten_slot :: "seq_state \<Rightarrow> nat \<Rightarrow> nat \<Rightarrow> nat \<Rightarrow> nat state_result" where
  "flatten_slot s grp pos end_pos =
     (let missing = UnmappedPosition grp pos end_pos in
      bind_r (ok_or missing (get (ss_indices s) grp)) (\<lambda>indices.
      bind_r (ok_or missing (get (ss_tables s) grp)) (\<lambda>tables.
      let block = pos div BLOCK_TOKENS; lane = pos mod BLOCK_TOKENS;
          at = partition_point (\<lambda>i. i < block) indices in
      bind_r (guard_r (get indices at = Some block) missing) (\<lambda>_.
      bind_r (ok_or missing (get tables at)) (\<lambda>i.
      ok_or (Overflow ''slot id'')
        (Option.bind (checked_mul 64 i BLOCK_TOKENS) (\<lambda>v.
         Option.bind (checked_add 64 v lane) (try_from 32))))))))"

definition check_range_live :: "seq_state \<Rightarrow> slot_range \<Rightarrow> unit state_result" where
  "check_range_live s r =
     guard_r (ss_ctx_len s = sr_start r \<and> ss_tail_len s = sr_len r)
       (InvalidBatch (StaleSlotRange (sr_start r) (sr_len r) (ss_ctx_len s) (ss_tail_len s)))"

definition slot :: "state_manager \<Rightarrow> slot_range \<Rightarrow> nat \<Rightarrow> nat \<Rightarrow> nat state_result" where
  "slot m r grp k =
     bind_r (ok_or (InvalidBatch (GroupOutOfRange grp (length (sm_groups m)))) (get (sm_groups m) grp)) (\<lambda>g.
     bind_r (guard_r (k < sr_len r) (OutOfRange k 1 (sr_len r))) (\<lambda>_.
     bind_r (sm_seq m (sr_seq r)) (\<lambda>s.
     bind_r (check_range_live s r) (\<lambda>_.
     if \<not> is_paged (lg_spec g) then Inr SLOT_NONE
     else bind_r (ok_or (Overflow ''slot position'') (checked_add 32 (sr_start r) k)) (\<lambda>pos.
          flatten_slot s grp pos (sr_end r))))))"

text \<open>\<open>fill_slots\<close> writes a caller-owned buffer: the row it writes, or the first error.\<close>

definition fill_slots :: "state_manager \<Rightarrow> slot_range \<Rightarrow> nat \<Rightarrow> nat list \<Rightarrow> (nat list) state_result" where
  "fill_slots m r grp out =
     bind_r (guard_r (sr_len r \<le> length out) (OutOfRange 0 (length out) (sr_len r))) (\<lambda>_.
     bind_r (ok_or (InvalidBatch (GroupOutOfRange grp (length (sm_groups m)))) (get (sm_groups m) grp)) (\<lambda>g.
     bind_r (sm_seq m (sr_seq r)) (\<lambda>s.
     bind_r (check_range_live s r) (\<lambda>_.
     if \<not> is_paged (lg_spec g) then Inr (replicate (sr_len r) SLOT_NONE @ drop (sr_len r) out)
     else bind_r (map_r (\<lambda>k. bind_r (ok_or (Overflow ''slot position'') (checked_add 32 (sr_start r) k))
                               (\<lambda>pos. flatten_slot s grp pos (sr_end r))) [0..<sr_len r]) (\<lambda>row.
          Inr (row @ drop (sr_len r) out))))))"

section \<open>The token mirror\<close>

fun mirror_write :: "nat \<Rightarrow> nat \<Rightarrow> nat list \<Rightarrow> (nat \<times> nat \<rightharpoonup> nat) \<Rightarrow> (nat \<times> nat \<rightharpoonup> nat)" where
  "mirror_write gi pos [] mir = mir"
| "mirror_write gi pos (t # ts) mir = mirror_write gi (Suc pos) ts (mir((gi, pos) \<mapsto> t))"

text \<open>
  Every written position is below the checked write end, so the position addition in the
  group loop never overflows and has no error branch here.
\<close>

definition write_tokens :: "state_manager \<Rightarrow> nat \<Rightarrow> nat \<Rightarrow> nat list \<Rightarrow> unit state_result \<times> state_manager" where
  "write_tokens m q start tokens =
     (case bind_r (sm_seq m q) (\<lambda>s.
           bind_r (ok_or (Overflow ''write length'') (try_from 32 (length tokens))) (\<lambda>len.
           bind_r (ok_or (Overflow ''write end'') (checked_add 32 start len)) (\<lambda>write_end.
           bind_r (ok_or (Overflow ''reserved end'') (checked_add 32 (ss_ctx_len s) (ss_tail_len s))) (\<lambda>reserved_end.
           bind_r (guard_r (ss_ctx_len s \<le> start) (OutOfRange start (length tokens) reserved_end)) (\<lambda>_.
           bind_r (guard_r (write_end \<le> reserved_end) (OutOfRange start (length tokens) reserved_end)) (\<lambda>_.
           Inr s)))))) of
        Inl e \<Rightarrow> (Inl e, m)
      | Inr s \<Rightarrow>
          (Inr (), m\<lparr>sm_seqs := (sm_seqs m)(q \<mapsto> s\<lparr>ss_mirror :=
             fold (\<lambda>(gi, g) mir. if is_paged (lg_spec g) then mirror_write gi start tokens mir else mir)
               (List.enumerate 0 (sm_groups m)) (ss_mirror s)\<rparr>)\<rparr>))"

definition read_token :: "state_manager \<Rightarrow> nat \<Rightarrow> nat \<Rightarrow> nat \<Rightarrow> (nat option) state_result" where
  "read_token m q grp pos =
     bind_r (sm_seq m q) (\<lambda>s.
     bind_r (guard_r (grp < length (sm_groups m)) (InvalidBatch (GroupOutOfRange grp (length (sm_groups m))))) (\<lambda>_.
     bind_r (ok_or (Overflow ''reserved end'') (checked_add 32 (ss_ctx_len s) (ss_tail_len s))) (\<lambda>end_pos.
     bind_r (guard_r (pos < end_pos) (OutOfRange pos 1 end_pos)) (\<lambda>_.
     Inr (ss_mirror s (grp, pos))))))"

section \<open>Compaction\<close>

fun compact_scan :: "nat \<Rightarrow> nat list \<Rightarrow> nat list \<Rightarrow> detail option" where
  "compact_scan tail seen [] = None"
| "compact_scan tail seen (p # ps) =
     (if p \<ge> tail then Some (PositionOutOfTail p tail)
      else if p \<in> set seen then Some (DuplicatePosition p)
      else compact_scan tail (seen @ [p]) ps)"

text \<open>Read all sources of a group first, then write all destinations.\<close>

fun mirror_store :: "nat \<Rightarrow> nat \<Rightarrow> nat option list \<Rightarrow> (nat \<times> nat \<rightharpoonup> nat) \<Rightarrow> (nat \<times> nat \<rightharpoonup> nat)" where
  "mirror_store gi dst [] mir = mir"
| "mirror_store gi dst (t # ts) mir = mirror_store gi (Suc dst) ts (mir((gi, dst) := t))"

definition compact_group :: "nat \<Rightarrow> nat list \<Rightarrow> nat \<times> layer_group \<Rightarrow> (nat \<times> nat \<rightharpoonup> nat) \<Rightarrow> (nat \<times> nat \<rightharpoonup> nat)" where
  "compact_group ctx src gg mir =
     (case gg of (gi, g) \<Rightarrow>
        if is_paged (lg_spec g) then mirror_store gi ctx (map (\<lambda>p. mir (gi, p)) src) mir else mir)"

definition compact :: "state_manager \<Rightarrow> nat \<Rightarrow> nat list \<Rightarrow> compact_op state_result \<times> state_manager" where
  "compact m q accepted =
     (case bind_r (sm_seq m q) (\<lambda>s.
           let ctx = ss_ctx_len s; tail = ss_tail_len s; bad = InvalidCompact (length accepted) tail in
           bind_r (guard_r (tail \<noteq> 0) (bad NoOutstandingTail)) (\<lambda>_.
           bind_r (guard_r (length accepted \<le> MAX_COMPACT_TOKENS) (bad (AcceptedExceedsCap (length accepted)))) (\<lambda>_.
           bind_r (case compact_scan tail [] accepted of None \<Rightarrow> Inr () | Some d \<Rightarrow> Inl (bad d)) (\<lambda>_.
           bind_r (map_r (\<lambda>p. ok_or (Overflow ''compact source'') (checked_add 32 ctx p)) accepted) (\<lambda>src.
           bind_r (map_r (\<lambda>i. ok_or (Overflow ''compact destination'') (checked_add 32 ctx i))
                    [0..<length accepted]) (\<lambda>_.
           Inr (s, src))))))) of
        Inl e \<Rightarrow> (Inl e, m)
      | Inr (s, src) \<Rightarrow>
          (Inr \<lparr>co_seq = q, co_src = src @ replicate (MAX_COMPACT_TOKENS - length src) 0,
                co_dst_start = ss_ctx_len s, co_len = length accepted\<rparr>,
           m\<lparr>sm_seqs := (sm_seqs m)(q \<mapsto> s\<lparr>
               ss_mirror := fold (compact_group (ss_ctx_len s) src) (List.enumerate 0 (sm_groups m)) (ss_mirror s),
               ss_compacted := Some (length accepted)\<rparr>)\<rparr>))"

section \<open>Committing\<close>

definition sink_blocks :: "retain \<Rightarrow> nat" where
  "sink_blocks r = (case r of SinkWindow n w \<Rightarrow> div_ceil n BLOCK_TOKENS | _ \<Rightarrow> 0)"

text \<open>The block-index range a group evicts at a new context length; empty when \<open>hi \<le> lo\<close>.\<close>

definition evict_range :: "nat \<Rightarrow> layer_group \<Rightarrow> nat \<times> nat" where
  "evict_range new_ctx g =
     (case spec_retain (lg_spec g) of
        None \<Rightarrow> (u32_max, 0)
      | Some r \<Rightarrow>
          (case retain_window r of
             None \<Rightarrow> (u32_max, 0)
           | Some w \<Rightarrow>
               let hi = window_start_of new_ctx w div BLOCK_TOKENS
               in if hi > sink_blocks r then (sink_blocks r, hi) else (u32_max, 0)))"

fun check_evict_ids :: "nat \<Rightarrow> block_pool \<Rightarrow> nat list \<Rightarrow> nat list \<Rightarrow> unit state_result" where
  "check_evict_ids q pool tables [] = Inr ()"
| "check_evict_ids q pool tables (at # ats) =
     bind_r (ok_or (InvalidBatch (SequenceHasNoTable q)) (get tables at)) (\<lambda>i.
     bind_r (guard_r (i < bp_total pool) (InvalidBatch (ReleaseOutOfRange i (bp_total pool)))) (\<lambda>_.
     bind_r (guard_r (\<not> bp_contains pool i) (InvalidBatch (DoubleRelease i))) (\<lambda>_.
     check_evict_ids q pool tables ats)))"

fun check_evict :: "nat \<Rightarrow> nat \<Rightarrow> block_pool option list \<Rightarrow> seq_state \<Rightarrow> (nat \<times> layer_group) list \<Rightarrow> unit state_result" where
  "check_evict q new_ctx pools s [] = Inr ()"
| "check_evict q new_ctx pools s ((gi, g) # rest) =
     (let (lo, hi) = evict_range new_ctx g in
      if hi \<le> lo then check_evict q new_ctx pools s rest
      else bind_r (guard_r (is_paged (lg_spec g)) (InvalidBatch (NotPagedGroup gi))) (\<lambda>_.
           bind_r (ok_or (InvalidBatch (NotPagedGroup gi)) (slot_at pools gi)) (\<lambda>pool.
           bind_r (ok_or (InvalidBatch (SequenceHasNoTable q)) (get (ss_indices s) gi)) (\<lambda>indices.
           bind_r (ok_or (InvalidBatch (SequenceHasNoTable q)) (get (ss_tables s) gi)) (\<lambda>tables.
           bind_r (check_evict_ids q pool tables
                    [partition_point (\<lambda>i. i < lo) indices..<partition_point (\<lambda>i. i < hi) indices]) (\<lambda>_.
           check_evict q new_ctx pools s rest))))))"

text \<open>Draining one group's run of evicted entries, last position first.\<close>

fun drain_run :: "nat list \<Rightarrow> nat list \<Rightarrow> nat list \<Rightarrow> block_pool \<Rightarrow>
    unit state_result \<times> nat list \<times> nat list \<times> block_pool" where
  "drain_run [] ix tb pool = (Inr (), ix, tb, pool)"
| "drain_run (at # ats) ix tb pool =
     (if length ix \<le> at \<or> length tb \<le> at then (Inl (RustPanic ''remove''), ix, tb, pool)
      else case bp_release pool (tb ! at) of
             Inl e \<Rightarrow> (Inl e, remove_at at ix, remove_at at tb, pool)
           | Inr pool' \<Rightarrow> drain_run ats (remove_at at ix) (remove_at at tb) pool')"

definition mirror_evict :: "nat \<Rightarrow> nat \<Rightarrow> nat \<Rightarrow> (nat \<times> nat \<rightharpoonup> nat) \<Rightarrow> (nat \<times> nat \<rightharpoonup> nat)" where
  "mirror_evict gi lo hi mir =
     (\<lambda>(g, p). if g \<noteq> gi \<or> p div BLOCK_TOKENS < lo \<or> hi \<le> p div BLOCK_TOKENS then mir (g, p) else None)"

fun evict_groups :: "nat \<Rightarrow> (nat \<times> layer_group) list \<Rightarrow> seq_state \<Rightarrow> block_pool option list \<Rightarrow>
    unit state_result \<times> seq_state \<times> block_pool option list" where
  "evict_groups new_ctx [] s pools = (Inr (), s, pools)"
| "evict_groups new_ctx ((gi, g) # rest) s pools =
     (let (lo, hi) = evict_range new_ctx g in
      if hi \<le> lo then evict_groups new_ctx rest s pools
      else if \<not> is_paged (lg_spec g) then (Inl (InvalidBatch (NotPagedGroup gi)), s, pools)
      else case get (ss_indices s) gi of
             None \<Rightarrow> (Inl (RustPanic ''indices''), s, pools)
           | Some held \<Rightarrow>
               (case slot_at pools gi of
                  None \<Rightarrow> (Inl (InvalidBatch (NotPagedGroup gi)), s, pools)
                | Some pool \<Rightarrow>
                    (case get (ss_tables s) gi of
                       None \<Rightarrow> (Inl (RustPanic ''tables''), s, pools)
                     | Some tb \<Rightarrow>
                         (case drain_run (rev [partition_point (\<lambda>i. i < lo) held..<partition_point (\<lambda>i. i < hi) held])
                                 held tb pool of
                            (Inl e, ix', tb', pool') \<Rightarrow>
                              (Inl e, s\<lparr>ss_indices := (ss_indices s)[gi := ix'], ss_tables := (ss_tables s)[gi := tb']\<rparr>,
                               pools[gi := Some pool'])
                          | (Inr _, ix', tb', pool') \<Rightarrow>
                              evict_groups new_ctx rest
                                (s\<lparr>ss_indices := (ss_indices s)[gi := ix'], ss_tables := (ss_tables s)[gi := tb'],
                                   ss_mirror := mirror_evict gi lo hi (ss_mirror s)\<rparr>)
                                (pools[gi := Some pool'])))))"

text \<open>Group indices are positions in the group list, and the parity vector has an entry for each.\<close>

definition flip_parity :: "layer_group list \<Rightarrow> nat list \<Rightarrow> nat list" where
  "flip_parity groups parity =
     fold (\<lambda>g ps. if is_recurrent (lg_spec g) then ps[lg_index g := xor (ps ! lg_index g) 1] else ps) groups parity"

definition commit_checks :: "state_manager \<Rightarrow> nat \<Rightarrow> nat \<Rightarrow>
    (seq_state \<times> nat \<times> nat \<times> nat option) state_result" where
  "commit_checks m q accepted =
     bind_r (sm_seq m q) (\<lambda>s.
     bind_r (guard_r (ss_tail_len s \<noteq> 0) (NoReservation q)) (\<lambda>_.
     bind_r (guard_r (accepted \<le> ss_tail_len s) (CommitTooLarge accepted (ss_tail_len s))) (\<lambda>_.
     bind_r (case ss_compacted s of
               None \<Rightarrow> Inr ()
             | Some c \<Rightarrow> guard_r (accepted = c)
                 (InvalidCompact c (ss_tail_len s) (AcceptedNotCompacted accepted c))) (\<lambda>_.
     bind_r (ok_or (Overflow ''commit ctx'') (checked_add 32 (ss_ctx_len s) accepted)) (\<lambda>new_ctx.
     bind_r (ok_or (Overflow ''commit count'') (checked_add 64 (sm_commits m) 1)) (\<lambda>next_commits.
     bind_r (if accepted > 0 \<and> (\<exists>g \<in> set (sm_groups m). is_recurrent (lg_spec g))
             then bind_r (ok_or (Overflow ''swap count'') (checked_add 64 (sm_swaps m) 1)) (\<lambda>n. Inr (Some n))
             else Inr None) (\<lambda>next_swaps.
     bind_r (check_evict q new_ctx (sm_pools m) s (List.enumerate 0 (sm_groups m))) (\<lambda>_.
     Inr (s, new_ctx, next_commits, next_swaps)))))))))"

definition commit :: "state_manager \<Rightarrow> nat \<Rightarrow> nat \<Rightarrow> unit state_result \<times> state_manager" where
  "commit m q accepted =
     (case commit_checks m q accepted of
        Inl e \<Rightarrow> (Inl e, m)
      | Inr (s, new_ctx, next_commits, next_swaps) \<Rightarrow>
          (case evict_groups new_ctx (List.enumerate 0 (sm_groups m))
                  (s\<lparr>ss_ctx_len := new_ctx, ss_tail_len := 0, ss_compacted := None\<rparr>) (sm_pools m) of
             (Inl e, s', pools') \<Rightarrow>
               (Inl e, m\<lparr>sm_seqs := (sm_seqs m)(q \<mapsto> s'), sm_pools := pools'\<rparr>)
           | (Inr _, s', pools') \<Rightarrow>
               (Inr (),
                m\<lparr>sm_seqs := (sm_seqs m)(q \<mapsto>
                    (if next_swaps = None then s'
                     else s'\<lparr>ss_parity := flip_parity (sm_groups m) (ss_parity s')\<rparr>)),
                  sm_pools := pools',
                  sm_swaps := (case next_swaps of None \<Rightarrow> sm_swaps m | Some n \<Rightarrow> n),
                  sm_commits := next_commits\<rparr>)))"

section \<open>Freeing\<close>

fun check_free_ids :: "nat \<Rightarrow> block_pool \<Rightarrow> nat list \<Rightarrow> nat list \<Rightarrow> unit state_result" where
  "check_free_ids gi pool seen [] = Inr ()"
| "check_free_ids gi pool seen (i # is) =
     bind_r (guard_r (i < bp_total pool) (InvalidBatch (BlockExceedsPool i gi (bp_total pool)))) (\<lambda>_.
     bind_r (guard_r (\<not> bp_contains pool i) (InvalidBatch (BlockAlreadyFree i gi))) (\<lambda>_.
     bind_r (guard_r (i \<notin> set seen) (InvalidBatch (BlockDuplicated i gi))) (\<lambda>_.
     check_free_ids gi pool (i # seen) is)))"

fun check_free_tables :: "block_pool option list \<Rightarrow> (nat \<times> nat list) list \<Rightarrow> unit state_result" where
  "check_free_tables pools [] = Inr ()"
| "check_free_tables pools ((gi, ids) # rest) =
     (if ids = [] then check_free_tables pools rest
      else bind_r (ok_or (InvalidBatch (NotPagedGroup gi)) (slot_at pools gi)) (\<lambda>pool.
           bind_r (check_free_ids gi pool [] ids) (\<lambda>_. check_free_tables pools rest)))"

fun check_free_slots :: "fixed_pool option list \<Rightarrow> (nat \<times> nat option) list \<Rightarrow> unit state_result" where
  "check_free_slots fixed [] = Inr ()"
| "check_free_slots fixed ((gi, sl) # rest) =
     (case sl of
        None \<Rightarrow> check_free_slots fixed rest
      | Some i \<Rightarrow>
          bind_r (ok_or (InvalidBatch (NotFixedGroup gi)) (slot_at fixed gi)) (\<lambda>pool.
          bind_r (guard_r (i < fp_total_slots pool) (InvalidBatch (SlotExceedsPool i gi (fp_total_slots pool)))) (\<lambda>_.
          bind_r (guard_r (i \<notin> set (fp_free pool)) (InvalidBatch (SlotAlreadyFree i gi))) (\<lambda>_.
          check_free_slots fixed rest))))"

fun release_ids :: "nat list \<Rightarrow> block_pool \<Rightarrow> unit state_result \<times> block_pool" where
  "release_ids [] pool = (Inr (), pool)"
| "release_ids (i # is) pool =
     (case bp_release pool i of Inl e \<Rightarrow> (Inl e, pool) | Inr pool' \<Rightarrow> release_ids is pool')"

fun release_tables :: "(nat \<times> nat list) list \<Rightarrow> block_pool option list \<Rightarrow>
    unit state_result \<times> block_pool option list" where
  "release_tables [] pools = (Inr (), pools)"
| "release_tables ((gi, ids) # rest) pools =
     (if ids = [] then release_tables rest pools
      else case slot_at pools gi of
             None \<Rightarrow> (Inl (InvalidBatch (NotPagedGroup gi)), pools)
           | Some pool \<Rightarrow>
               (case release_ids ids pool of
                  (Inl e, pool') \<Rightarrow> (Inl e, pools[gi := Some pool'])
                | (Inr _, pool') \<Rightarrow> release_tables rest (pools[gi := Some pool'])))"

fun release_slots :: "(nat \<times> nat option) list \<Rightarrow> fixed_pool option list \<Rightarrow>
    unit state_result \<times> fixed_pool option list" where
  "release_slots [] fixed = (Inr (), fixed)"
| "release_slots ((gi, sl) # rest) fixed =
     (case sl of
        None \<Rightarrow> release_slots rest fixed
      | Some i \<Rightarrow>
          (case slot_at fixed gi of
             None \<Rightarrow> (Inl (InvalidBatch (NotFixedGroup gi)), fixed)
           | Some pool \<Rightarrow> release_slots rest (fixed[gi := Some (fp_give pool i)])))"

definition free_seq :: "state_manager \<Rightarrow> nat \<Rightarrow> unit state_result \<times> state_manager" where
  "free_seq m q =
     (case bind_r (sm_seq m q) (\<lambda>s.
           bind_r (ok_or (Overflow ''live sequence count'') (checked_sub (sm_live_count m) 1)) (\<lambda>next_live.
           bind_r (check_free_tables (sm_pools m) (List.enumerate 0 (ss_tables s))) (\<lambda>_.
           bind_r (check_free_slots (sm_fixed m) (List.enumerate 0 (ss_fixed_slots s))) (\<lambda>_.
           Inr (s, next_live))))) of
        Inl e \<Rightarrow> (Inl e, m)
      | Inr (s, next_live) \<Rightarrow>
          let m1 = m\<lparr>sm_seqs := (sm_seqs m)(q := None)\<rparr> in
          (case release_tables (List.enumerate 0 (ss_tables s)) (sm_pools m) of
             (Inl e, pools') \<Rightarrow> (Inl e, m1\<lparr>sm_pools := pools'\<rparr>)
           | (Inr _, pools') \<Rightarrow>
               (case release_slots (List.enumerate 0 (ss_fixed_slots s)) (sm_fixed m) of
                  (Inl e, fixed') \<Rightarrow> (Inl e, m1\<lparr>sm_pools := pools', sm_fixed := fixed'\<rparr>)
                | (Inr _, fixed') \<Rightarrow>
                    (Inr (), m1\<lparr>sm_pools := pools', sm_fixed := fixed', sm_live_count := next_live\<rparr>))))"

section \<open>Budget and statistics\<close>

record group_budget =
  gb_index :: nat
  gb_total_blocks :: nat
  gb_free_blocks :: nat
  gb_block_bytes :: nat
  gb_base_offset :: nat
  gb_total_slots :: nat
  gb_free_slots :: nat
  gb_slot_bytes_per_seq :: nat

record budget =
  bu_groups :: "group_budget list"
  bu_pool_bytes_total :: nat
  bu_pool_bytes_free :: nat
  bu_fixed_bytes_total :: nat
  bu_fixed_bytes_free :: nat
  bu_host_free :: nat
  bu_unusable_bytes :: nat

definition group_budget_of :: "state_manager \<Rightarrow> nat \<Rightarrow> group_budget" where
  "group_budget_of m gi =
     (let e0 = \<lparr>gb_index = gi, gb_total_blocks = 0, gb_free_blocks = 0, gb_block_bytes = 0,
                gb_base_offset = 0, gb_total_slots = 0, gb_free_slots = 0, gb_slot_bytes_per_seq = 0\<rparr>;
          e1 = (case slot_at (sm_pools m) gi of
                  None \<Rightarrow> e0
                | Some p \<Rightarrow> e0\<lparr>gb_total_blocks := bp_total p, gb_free_blocks := length (bp_free p),
                              gb_block_bytes := bp_block_bytes p, gb_base_offset := bp_base_offset p\<rparr>)
      in case slot_at (sm_fixed m) gi of
           None \<Rightarrow> e1
         | Some f \<Rightarrow> e1\<lparr>gb_total_slots := fp_total_slots f, gb_free_slots := length (fp_free f),
                       gb_slot_bytes_per_seq := fp_slot_bytes_per_seq f, gb_base_offset := fp_base_offset f\<rparr>)"

text \<open>
  The free sums are 128-bit accumulators narrowed by an \<open>expect\<close>; the narrowing conversions
  and the two \<open>expect\<close>ed count conversions are the \<open>RustPanic\<close> branches.
\<close>

definition sm_budget :: "state_manager \<Rightarrow> budget state_result" where
  "sm_budget m =
     (let free_paged = (\<Sum>gi\<leftarrow>[0..<length (sm_groups m)].
            case slot_at (sm_pools m) gi of None \<Rightarrow> 0 | Some p \<Rightarrow> length (bp_free p) * bp_block_bytes p);
          free_fixed = (\<Sum>gi\<leftarrow>[0..<length (sm_groups m)].
            case slot_at (sm_fixed m) gi of None \<Rightarrow> 0 | Some f \<Rightarrow> length (fp_free f) * fp_slot_bytes_per_seq f);
          entries = map (group_budget_of m) [0..<length (sm_groups m)]
      in bind_r (guard_r (\<forall>e \<in> set entries. gb_free_blocks e \<le> u32_max) (RustPanic ''free blocks fit u32'')) (\<lambda>_.
         bind_r (guard_r (\<forall>e \<in> set entries. gb_free_slots e \<le> u32_max) (RustPanic ''free slots fit u32'')) (\<lambda>_.
         bind_r (ok_or (RustPanic ''free paged bytes fit'') (try_from 64 free_paged)) (\<lambda>pf.
         bind_r (ok_or (RustPanic ''free fixed bytes fit'') (try_from 64 free_fixed)) (\<lambda>ff.
         Inr \<lparr>bu_groups = entries, bu_pool_bytes_total = sm_pool_bytes_total m, bu_pool_bytes_free = pf,
              bu_fixed_bytes_total = sm_fixed_bytes_total m, bu_fixed_bytes_free = ff, bu_host_free = 0,
              bu_unusable_bytes = sm_unusable_bytes m\<rparr>)))))"

end
