(* ===== verification/State_Inv.thy ===== *)
theory State_Inv
  imports State_Manager
begin

text \<open>
  The invariant of the sequence-state manager and its frame. Per paged group the free
  blocks and the blocks in the tables of all live sequences are a partition of the pool,
  per recurrent group the free slots and the slots held by live sequences are; every
  sequence has aligned, strictly ascending block tables that cover its committed and
  reserved positions except the evicted ones; and the token mirror names mapped
  positions only.
\<close>

section \<open>What live sequences own\<close>

definition owned_by :: "(seq_state \<Rightarrow> nat multiset) \<Rightarrow> (nat \<rightharpoonup> seq_state) \<Rightarrow> nat multiset" where
  "owned_by f seqs = (\<Sum>q\<in>dom seqs. f (the (seqs q)))"

definition table_ids :: "nat \<Rightarrow> seq_state \<Rightarrow> nat multiset" where
  "table_ids gi s = mset (ss_tables s ! gi)"

definition slot_ids :: "nat \<Rightarrow> seq_state \<Rightarrow> nat multiset" where
  "slot_ids gi s = (case ss_fixed_slots s ! gi of None \<Rightarrow> {#} | Some i \<Rightarrow> {#i#})"

lemma owned_by_empty [simp]: "owned_by f Map.empty = {#}"
  by (simp add: owned_by_def)

lemma owned_by_upd:
  assumes "finite (dom seqs)"
  shows "owned_by f (seqs(q \<mapsto> s)) = f s + owned_by f (seqs(q := None))"
proof -
  have "(\<Sum>r\<in>dom seqs - {q}. f (the ((seqs(q \<mapsto> s)) r))) = (\<Sum>r\<in>dom seqs - {q}. f (the ((seqs(q := None)) r)))"
    by (rule sum.cong) auto
  then show ?thesis
    using assms by (simp add: owned_by_def sum.insert_remove)
qed

lemma owned_by_split:
  "finite (dom seqs) \<Longrightarrow> seqs q = Some s \<Longrightarrow> owned_by f seqs = f s + owned_by f (seqs(q := None))"
  using owned_by_upd [of seqs f q s] by (simp add: fun_upd_idem)

lemma owned_by_fresh:
  "finite (dom seqs) \<Longrightarrow> seqs q = None \<Longrightarrow> owned_by f (seqs(q \<mapsto> s)) = f s + owned_by f seqs"
  using owned_by_upd [of seqs f q s] by (simp add: fun_upd_idem)

lemma owned_by_mem:
  "finite (dom seqs) \<Longrightarrow> i \<in># owned_by f seqs \<longleftrightarrow> (\<exists>q s. seqs q = Some s \<and> i \<in># f s)"
  by (force simp: owned_by_def set_mset_sum)

section \<open>The invariant\<close>

definition config_ok :: "state_config \<Rightarrow> bool" where
  "config_ok c \<longleftrightarrow> 0 < sc_max_ctx c \<and> sc_max_ctx c \<le> MAX_CTX_HARD \<and> sc_max_ctx c mod BLOCK_TOKENS = 0 \<and>
     0 < sc_max_seqs c \<and> sc_max_seqs c \<le> MAX_SEQS_HARD"

lemma config_validate_ok [simp]: "config_validate c = Inr u \<longleftrightarrow> config_ok c"
  by (auto simp: config_validate_def config_ok_def Let_def)

definition evicted :: "nat \<Rightarrow> layer_group \<Rightarrow> nat \<Rightarrow> bool" where
  "evicted ctx g b \<longleftrightarrow> fst (evict_range ctx g) \<le> b \<and> b < snd (evict_range ctx g)"

definition table_ok :: "state_config \<Rightarrow> layer_group \<Rightarrow> nat \<Rightarrow> seq_state \<Rightarrow> bool" where
  "table_ok c g gi s \<longleftrightarrow>
     ascending (ss_indices s ! gi) \<and> length (ss_tables s ! gi) = length (ss_indices s ! gi) \<and>
     (if is_paged (lg_spec g)
      then ss_fixed_slots s ! gi = None \<and>
           (\<forall>b \<in> set (ss_indices s ! gi). b < max_blocks c \<and> \<not> evicted (ss_ctx_len s) g b) \<and>
           (\<forall>b < div_ceil (ss_ctx_len s + ss_tail_len s) BLOCK_TOKENS.
              b \<in> set (ss_indices s ! gi) \<or> evicted (ss_ctx_len s) g b)
      else ss_indices s ! gi = [] \<and> ss_fixed_slots s ! gi \<noteq> None)"

definition mirror_ok :: "layer_group list \<Rightarrow> seq_state \<Rightarrow> bool" where
  "mirror_ok gs s \<longleftrightarrow> (\<forall>gi p. ss_mirror s (gi, p) \<noteq> None \<longrightarrow>
     gi < length gs \<and> is_paged (lg_spec (gs ! gi)) \<and> p div BLOCK_TOKENS \<in> set (ss_indices s ! gi))"

definition seq_shape :: "nat \<Rightarrow> seq_state \<Rightarrow> bool" where
  "seq_shape n s \<longleftrightarrow> length (ss_tables s) = n \<and> length (ss_indices s) = n \<and>
     length (ss_fixed_slots s) = n \<and> length (ss_parity s) = n \<and> set (ss_parity s) \<subseteq> {0, 1}"

definition seq_ok :: "state_config \<Rightarrow> layer_group list \<Rightarrow> seq_state \<Rightarrow> bool" where
  "seq_ok c gs s \<longleftrightarrow> seq_shape (length gs) s \<and>
     ss_ctx_len s + ss_tail_len s \<le> sc_max_ctx c \<and>
     (\<forall>k. ss_compacted s = Some k \<longrightarrow> k \<le> ss_tail_len s) \<and>
     (\<forall>gi < length gs. table_ok c (gs ! gi) gi s) \<and> mirror_ok gs s"

definition paged_ok :: "(nat \<rightharpoonup> seq_state) \<Rightarrow> nat \<Rightarrow> nat \<Rightarrow> block_pool option \<Rightarrow> bool" where
  "paged_ok seqs mb gi po \<longleftrightarrow> (\<exists>p. po = Some p \<and> bp_ok p \<and> mb \<le> bp_total p \<and> bp_total p \<le> MAX_SLOT_BLOCKS \<and>
     conserved (set (bp_free p)) (bp_total p) (owned_by (table_ids gi) seqs))"

definition fixed_ok :: "(nat \<rightharpoonup> seq_state) \<Rightarrow> nat \<Rightarrow> nat \<Rightarrow> fixed_pool option \<Rightarrow> bool" where
  "fixed_ok seqs cap gi fo \<longleftrightarrow> (\<exists>f. fo = Some f \<and> fp_ok f \<and> fp_total_slots f = cap \<and>
     conserved (set (fp_free f)) (fp_total_slots f) (owned_by (slot_ids gi) seqs))"

definition pools_ok :: "state_manager \<Rightarrow> bool" where
  "pools_ok m \<longleftrightarrow> length (sm_pools m) = length (sm_groups m) \<and> length (sm_fixed m) = length (sm_groups m) \<and>
     (\<forall>gi < length (sm_groups m).
        if is_paged (lg_spec (sm_groups m ! gi))
        then paged_ok (sm_seqs m) (sm_max_blocks m) gi (sm_pools m ! gi) \<and> sm_fixed m ! gi = None
        else sm_pools m ! gi = None \<and> fixed_ok (sm_seqs m) (sc_max_seqs (sm_config m)) gi (sm_fixed m ! gi))"

definition static_ok :: "state_manager \<Rightarrow> bool" where
  "static_ok m \<longleftrightarrow> config_ok (sm_config m) \<and> groups_ok (sm_groups m) \<and> sm_max_blocks m = max_blocks (sm_config m)"

definition ids_ok :: "state_manager \<Rightarrow> bool" where
  "ids_ok m \<longleftrightarrow> finite (dom (sm_seqs m)) \<and> (\<forall>q \<in> dom (sm_seqs m). q < sm_next_seq m) \<and>
     sm_live_count m = card (dom (sm_seqs m)) \<and> sm_live_count m \<le> sc_max_seqs (sm_config m) \<and>
     sm_next_seq m \<le> u32_max + 1"

definition seqs_ok :: "state_manager \<Rightarrow> bool" where
  "seqs_ok m \<longleftrightarrow> (\<forall>q s. sm_seqs m q = Some s \<longrightarrow> seq_ok (sm_config m) (sm_groups m) s)"

definition sm_inv :: "state_manager \<Rightarrow> bool" where
  "sm_inv m \<longleftrightarrow> static_ok m \<and> ids_ok m \<and> seqs_ok m \<and> pools_ok m"

text \<open>What no operation changes: the configuration and the arena geometry.\<close>

definition pool_geometry :: "block_pool \<Rightarrow> nat \<times> nat \<times> nat" where
  "pool_geometry p = (bp_total p, bp_base_offset p, bp_block_bytes p)"

definition fixed_geometry :: "fixed_pool \<Rightarrow> nat \<times> nat \<times> nat \<times> nat" where
  "fixed_geometry f = (fp_total_slots f, fp_base_offset f, fp_slot_bytes_per_seq f, fp_buffer_bytes f)"

definition same_geometry :: "state_manager \<Rightarrow> state_manager \<Rightarrow> bool" where
  "same_geometry m m' \<longleftrightarrow> sm_config m' = sm_config m \<and> sm_groups m' = sm_groups m \<and>
     sm_max_blocks m' = sm_max_blocks m \<and> sm_pool_bytes_total m' = sm_pool_bytes_total m \<and>
     sm_fixed_bytes_total m' = sm_fixed_bytes_total m \<and> sm_unusable_bytes m' = sm_unusable_bytes m \<and>
     map (map_option pool_geometry) (sm_pools m') = map (map_option pool_geometry) (sm_pools m) \<and>
     map (map_option fixed_geometry) (sm_fixed m') = map (map_option fixed_geometry) (sm_fixed m)"

lemma same_geometry_refl [simp]: "same_geometry m m"
  by (simp add: same_geometry_def)

lemma same_geometry_trans [trans]: "same_geometry a b \<Longrightarrow> same_geometry b c \<Longrightarrow> same_geometry a c"
  by (simp add: same_geometry_def)

section \<open>Consequences\<close>

lemma max_blocks_le_iff:
  assumes "config_ok c"
  shows "b < max_blocks c \<longleftrightarrow> b * 32 < sc_max_ctx c" and "max_blocks c * 32 = sc_max_ctx c"
  using assms by (auto simp: config_ok_def max_blocks_def)

lemma sm_inv_finite: "sm_inv m \<Longrightarrow> finite (dom (sm_seqs m))"
  by (simp add: sm_inv_def ids_ok_def)

lemma sm_inv_seq: "sm_inv m \<Longrightarrow> sm_seqs m q = Some s \<Longrightarrow> seq_ok (sm_config m) (sm_groups m) s"
  by (auto simp: sm_inv_def seqs_ok_def)

lemma sm_inv_paged:
  assumes "sm_inv m" and "gi < length (sm_groups m)" and "is_paged (lg_spec (sm_groups m ! gi))"
  obtains p where "sm_pools m ! gi = Some p" and "slot_at (sm_pools m) gi = Some p" and "bp_ok p"
    and "sm_max_blocks m \<le> bp_total p" and "bp_total p \<le> MAX_SLOT_BLOCKS"
    and "conserved (set (bp_free p)) (bp_total p) (owned_by (table_ids gi) (sm_seqs m))"
  using assms by (force simp: sm_inv_def pools_ok_def paged_ok_def)

lemma sm_inv_fixed:
  assumes "sm_inv m" and "gi < length (sm_groups m)" and "\<not> is_paged (lg_spec (sm_groups m ! gi))"
  obtains f where "sm_fixed m ! gi = Some f" and "slot_at (sm_fixed m) gi = Some f" and "fp_ok f"
    and "fp_total_slots f = sc_max_seqs (sm_config m)"
    and "conserved (set (fp_free f)) (fp_total_slots f) (owned_by (slot_ids gi) (sm_seqs m))"
  using assms by (force simp: sm_inv_def pools_ok_def fixed_ok_def)

lemma sm_inv_intro:
  assumes "sm_inv m" and "sm_config m' = sm_config m" and "sm_groups m' = sm_groups m"
    and "sm_max_blocks m' = sm_max_blocks m" and "ids_ok m'" and "seqs_ok m'" and "pools_ok m'"
  shows "sm_inv m'"
  using assms by (simp add: sm_inv_def static_ok_def)

lemma sm_inv_scratch [simp]: "sm_inv (m\<lparr>sm_reserve_scratch := x\<rparr>) = sm_inv m"
  by (simp add: sm_inv_def static_ok_def ids_ok_def seqs_ok_def pools_ok_def)

text \<open>Replacing one live sequence by one that is again well formed.\<close>

lemma ids_ok_upd:
  "ids_ok m \<Longrightarrow> sm_seqs m q = Some s \<Longrightarrow> dom (sm_seqs m') = dom (sm_seqs m) \<Longrightarrow>
   sm_next_seq m' = sm_next_seq m \<Longrightarrow> sm_live_count m' = sm_live_count m \<Longrightarrow>
   sm_config m' = sm_config m \<Longrightarrow> ids_ok m'"
  by (simp add: ids_ok_def)

lemma seqs_ok_upd:
  "seqs_ok m \<Longrightarrow> sm_seqs m' = (sm_seqs m)(q \<mapsto> s') \<Longrightarrow> seq_ok (sm_config m) (sm_groups m) s' \<Longrightarrow>
   sm_config m' = sm_config m \<Longrightarrow> sm_groups m' = sm_groups m \<Longrightarrow> seqs_ok m'"
  by (auto simp: seqs_ok_def)

text \<open>
  The block table of a group as a map from block index to block id: the abstraction of
  the two aligned vectors, on which lookup is application.
\<close>

definition block_map :: "seq_state \<Rightarrow> nat \<Rightarrow> nat \<rightharpoonup> nat" where
  "block_map s gi = map_of (zip (ss_indices s ! gi) (ss_tables s ! gi))"

lemma dom_block_map:
  "length (ss_tables s ! gi) = length (ss_indices s ! gi) \<Longrightarrow> dom (block_map s gi) = set (ss_indices s ! gi)"
  by (simp add: block_map_def)

lemma map_of_zip_partition_point:
  assumes "ascending ix" and "length tb = length ix"
  shows "map_of (zip ix tb) b =
    (if get ix (partition_point (\<lambda>i. i < b) ix) = Some b then get tb (partition_point (\<lambda>i. i < b) ix) else None)"
proof (cases "b \<in> set ix")
  case True
  then have g: "get ix (partition_point (\<lambda>i. i < b) ix) = Some b"
    by (simp only: get_partition_point_ascending [OF assms(1)])
  let ?p = "partition_point (\<lambda>i. i < b) ix"
  have lt: "?p < length ix" and eq: "ix ! ?p = b" using g by (auto simp del: partition_point_le)
  have "map_of (zip ix tb) (ix ! ?p) = Some (tb ! ?p)"
    using ascending_distinct [OF assms(1)] assms(2) lt by (simp add: map_of_zip_nth)
  with g lt eq assms(2) show ?thesis by (simp add: get_def)
next
  case False
  then have "get ix (partition_point (\<lambda>i. i < b) ix) \<noteq> Some b"
    by (simp only: get_partition_point_ascending [OF assms(1)] not_False_eq_True)
  then have r: "(if get ix (partition_point (\<lambda>i. i < b) ix) = Some b
      then get tb (partition_point (\<lambda>i. i < b) ix) else None) = None" by (rule if_not_P)
  have "map_of (zip ix tb) b = None" using False by (auto simp: map_of_eq_None_iff dest: set_zip_leftD)
  with r show ?thesis by simp
qed

end
