(* ===== verification/State_New.thy ===== *)
theory State_New
  imports State_Inv
begin

text \<open>
  Construction of the manager: when it succeeds, and what arena layout it produces. The
  groups' regions are laid out back to back from offset 0; their bytes and the unusable
  remainder add up to the pool bytes that were handed in.
\<close>

section \<open>Layout\<close>

definition region_bytes :: "nat \<Rightarrow> nat \<Rightarrow> layer_group \<Rightarrow> nat" where
  "region_bytes bpg ms g = (if is_paged (lg_spec g) then bpg * block_bytes_of g else slot_bytes_of g * ms)"

fun layout :: "nat \<Rightarrow> nat \<Rightarrow> nat \<Rightarrow> layer_group list \<Rightarrow> (nat \<times> layer_group) list" where
  "layout bpg ms base [] = []"
| "layout bpg ms base (g # gs) = (base, g) # layout bpg ms (base + region_bytes bpg ms g) gs"

definition pool_entry :: "nat \<Rightarrow> nat \<times> layer_group \<Rightarrow> block_pool option" where
  "pool_entry bpg bg = (if is_paged (lg_spec (snd bg))
     then Some \<lparr>bp_total = bpg, bp_free = rev [0..<bpg], bp_base_offset = fst bg,
                bp_block_bytes = block_bytes_of (snd bg)\<rparr> else None)"

definition fixed_entry :: "nat \<Rightarrow> nat \<times> layer_group \<Rightarrow> fixed_pool option" where
  "fixed_entry ms bg = (if is_paged (lg_spec (snd bg)) then None
     else Some \<lparr>fp_total_slots = ms, fp_free = [0..<ms], fp_slot_bytes_per_seq = slot_bytes_of (snd bg),
                fp_buffer_bytes = slot_bytes_of (snd bg) div 2, fp_base_offset = fst bg\<rparr>)"

lemma length_layout [simp]: "length (layout bpg ms base gs) = length gs"
  by (induction gs arbitrary: base) auto

lemma nth_layout:
  "j < length gs \<Longrightarrow>
   layout bpg ms base gs ! j = (base + sum_list (map (region_bytes bpg ms) (take j gs)), gs ! j)"
  by (induction gs arbitrary: base j) (auto simp: nth_Cons' take_Cons' gr0_conv_Suc)

definition group_ok :: "layer_group \<Rightarrow> bool" where
  "group_ok g \<longleftrightarrow> spec_ok (lg_spec g) \<and> length (lg_layers g) \<le> MAX_LAYERS_HARD"

lemma groups_ok_group: "groups_ok gs \<Longrightarrow> g \<in> set gs \<Longrightarrow> group_ok g"
  by (auto simp: groups_ok_def group_ok_def)

lemma group_ok_bytes:
  "group_ok g \<Longrightarrow> group_block_bytes g = Inr (block_bytes_of g)"
  "group_ok g \<Longrightarrow> slots_bytes_per_seq g = Inr (slot_bytes_of g)"
  by (simp_all add: group_ok_def group_block_bytes_ok slots_bytes_per_seq_ok)

lemma build_pools:
  assumes "\<forall>g \<in> set gs. group_ok g"
    and "base + sum_list (map (region_bytes bpg ms) gs) < 2 ^ 64"
  shows "fold_r (build_pool bpg ms) gs (base, ps, fs) =
    Inr (base + sum_list (map (region_bytes bpg ms) gs),
         ps @ map (pool_entry bpg) (layout bpg ms base gs),
         fs @ map (fixed_entry ms) (layout bpg ms base gs))"
  using assms
proof (induction gs arbitrary: base ps fs)
  case (Cons g gs)
  let ?r = "region_bytes bpg ms g"
  have g: "group_ok g" and lt: "?r < 2 ^ 64" "base + ?r < 2 ^ 64" using Cons.prems by auto
  have step: "build_pool bpg ms g (base, ps, fs) =
      Inr (base + ?r, ps @ [pool_entry bpg (base, g)], fs @ [fixed_entry ms (base, g)])"
    using lt group_ok_bytes [OF g]
    by (simp add: build_pool_def pool_entry_def fixed_entry_def region_bytes_def bind_r_eq_Inr split: if_splits)
  from Cons.IH [of "base + ?r"] Cons.prems step show ?case by (simp add: add.assoc)
qed simp

section \<open>Totals\<close>

definition fixed_sum :: "nat \<Rightarrow> layer_group list \<Rightarrow> nat" where
  "fixed_sum ms gs = (\<Sum>g\<leftarrow>filter (\<lambda>g. \<not> is_paged (lg_spec g)) gs. slot_bytes_of g * ms)"

definition block_cost :: "layer_group list \<Rightarrow> nat" where
  "block_cost gs = (\<Sum>g\<leftarrow>filter (\<lambda>g. is_paged (lg_spec g)) gs. block_bytes_of g)"

definition has_paged :: "layer_group list \<Rightarrow> bool" where
  "has_paged gs \<longleftrightarrow> filter (\<lambda>g. is_paged (lg_spec g)) gs \<noteq> []"

lemma regions_sum:
  "sum_list (map (region_bytes bpg ms) gs) = bpg * block_cost gs + fixed_sum ms gs"
  by (induction gs) (auto simp: region_bytes_def block_cost_def fixed_sum_def algebra_simps)

text \<open>A checked running sum returns exactly the sum when it fits, else an overflow error.\<close>

lemma fold_checked_sum:
  fixes w :: "'a \<Rightarrow> nat"
  assumes step: "\<And>g t. g \<in> set gs \<Longrightarrow> t < 2 ^ 64 \<Longrightarrow>
      f g t = (if t + w g < 2 ^ 64 then Inr (t + w g) else Inl (Overflow (err g t)))"
    and "t < 2 ^ 64"
  shows "fold_r f gs t = Inr r \<longleftrightarrow> r = t + sum_list (map w gs) \<and> t + sum_list (map w gs) < 2 ^ 64"
    and "fold_r f gs t = Inl e \<Longrightarrow> \<exists>x. e = Overflow x"
proof -
  show "fold_r f gs t = Inr r \<longleftrightarrow> r = t + sum_list (map w gs) \<and> t + sum_list (map w gs) < 2 ^ 64"
    using assms
  proof (induction gs arbitrary: t)
    case (Cons g gs)
    have s: "f g t = (if t + w g < 2 ^ 64 then Inr (t + w g) else Inl (Overflow (err g t)))"
      using Cons.prems by simp
    show ?case
    proof (cases "t + w g < 2 ^ 64")
      case True
      with Cons.IH [of "t + w g"] Cons.prems s show ?thesis by (simp add: add.assoc)
    qed (use s in simp)
  qed auto
  show "fold_r f gs t = Inl e \<Longrightarrow> \<exists>x. e = Overflow x"
    using assms
  proof (induction gs arbitrary: t)
    case (Cons g gs)
    have s: "f g t = (if t + w g < 2 ^ 64 then Inr (t + w g) else Inl (Overflow (err g t)))"
      using Cons.prems by simp
    show ?case
    proof (cases "t + w g < 2 ^ 64")
      case True
      with Cons.IH [of "t + w g"] Cons.prems s show ?thesis by simp
    qed (use s Cons.prems(1) in auto)
  qed simp
qed

lemma fixed_pool_bytes_ok:
  assumes "\<forall>g \<in> set gs. group_ok g"
  shows "fixed_pool_bytes ms gs = Inr t \<longleftrightarrow> t = fixed_sum ms gs \<and> fixed_sum ms gs < 2 ^ 64"
    and "fixed_pool_bytes ms gs = Inl e \<Longrightarrow> \<exists>x. e = Overflow x"
proof -
  let ?f = "\<lambda>g total.
       if is_paged (lg_spec g) then Inr total
       else bind_r (slots_bytes_per_seq g) (\<lambda>per_seq.
            bind_r (ok_or (Overflow ''fixed group pool'') (checked_mul 64 per_seq ms)) (\<lambda>grp.
            ok_or (Overflow ''fixed pool total'') (checked_add 64 total grp)))"
  let ?w = "\<lambda>g. if is_paged (lg_spec g) then 0 else slot_bytes_of g * ms"
  let ?e = "\<lambda>g (t::nat). if slot_bytes_of g * ms < 2 ^ 64 then ''fixed pool total'' else ''fixed group pool''"
  have step: "?f g t = (if t + ?w g < 2 ^ 64 then Inr (t + ?w g) else Inl (Overflow (?e g t)))"
    if "g \<in> set gs" "t < 2 ^ 64" for g t
    using that assms group_ok_bytes(2) [of g]
    by (auto simp: bind_r_def ok_or_def checked_mul_def checked_add_def)
  have w: "sum_list (map ?w gs) = fixed_sum ms gs"
    unfolding fixed_sum_def by (induction gs) auto
  note s = fold_checked_sum [of gs ?f ?w ?e 0, OF step]
  show "fixed_pool_bytes ms gs = Inr t \<longleftrightarrow> t = fixed_sum ms gs \<and> fixed_sum ms gs < 2 ^ 64"
    unfolding fixed_pool_bytes_def using s(1) w by simp
  show "\<exists>x. e = Overflow x" if "fixed_pool_bytes ms gs = Inl e"
    using that s(2) unfolding fixed_pool_bytes_def by simp
qed

lemma block_cost_bound: "groups_ok gs \<Longrightarrow> block_cost gs \<le> 35192962023424"
proof -
  assume ok: "groups_ok gs"
  have "block_cost gs \<le> length gs * 2199560126464"
    unfolding block_cost_def
    using groups_ok_group [OF ok] group_bytes_bounds(2)
    by (induction gs) (fastforce simp: group_ok_def)+
  also have "\<dots> \<le> 16 * 2199560126464" using ok by (simp add: groups_ok_def hard_caps)
  finally show ?thesis by simp
qed

lemma block_cost_pos: "groups_ok gs \<Longrightarrow> has_paged gs \<Longrightarrow> 0 < block_cost gs"
proof -
  assume ok: "groups_ok gs" and "has_paged gs"
  then obtain g where g: "g \<in> set gs" "is_paged (lg_spec g)" by (auto simp: has_paged_def filter_empty_conv)
  then have "block_bytes_of g \<le> block_cost gs"
    unfolding block_cost_def by (intro member_le_sum_list) auto
  with block_bytes_of_pos [OF ok g] show ?thesis by simp
qed

lemma block_cost_sum_ok:
  assumes "groups_ok gs"
  shows "block_cost_sum (filter (\<lambda>g. is_paged (lg_spec g)) gs) = Inr (block_cost gs)"
proof -
  let ?p = "filter (\<lambda>g. is_paged (lg_spec g)) gs"
  have step: "bind_r (group_block_bytes g) (\<lambda>bb. ok_or (Overflow ''block cost sum'') (checked_add 64 t bb)) =
      (if t + block_bytes_of g < 2 ^ 64 then Inr (t + block_bytes_of g) else Inl (Overflow ''block cost sum''))"
    if "g \<in> set ?p" for g t
    using that groups_ok_group [OF assms] group_ok_bytes(1) by (auto simp: ok_or_def checked_add_def)
  show ?thesis
    unfolding block_cost_sum_def
    using fold_checked_sum(1) [of ?p _ block_bytes_of "\<lambda>_ _. ''block cost sum''" 0, OF step]
      block_cost_bound [OF assms]
    by (simp add: block_cost_def)
qed

section \<open>When construction succeeds\<close>

definition blocks_for :: "nat \<Rightarrow> nat \<Rightarrow> layer_group list \<Rightarrow> nat" where
  "blocks_for ms pool_bytes gs =
     (if has_paged gs then (pool_bytes - fixed_sum ms gs) div block_cost gs else 0)"

definition initial_manager :: "state_config \<Rightarrow> layer_group list \<Rightarrow> nat \<Rightarrow> state_manager" where
  "initial_manager c gs pool_bytes =
     (let ms = sc_max_seqs c; bpg = blocks_for ms pool_bytes gs; lay = layout bpg ms 0 gs
      in \<lparr>sm_config = c, sm_groups = gs, sm_pools = map (pool_entry bpg) lay,
          sm_fixed = map (fixed_entry ms) lay, sm_max_blocks = max_blocks c,
          sm_pool_bytes_total = bpg * block_cost gs, sm_fixed_bytes_total = fixed_sum ms gs,
          sm_unusable_bytes = pool_bytes - fixed_sum ms gs - bpg * block_cost gs,
          sm_next_seq = 0, sm_seqs = Map.empty, sm_live_count = 0, sm_swaps = 0,
          sm_commits = 0, sm_reserve_scratch = []\<rparr>)"

definition pool_fits :: "state_config \<Rightarrow> layer_group list \<Rightarrow> nat \<Rightarrow> bool" where
  "pool_fits c gs pool_bytes \<longleftrightarrow> fixed_sum (sc_max_seqs c) gs \<le> pool_bytes \<and>
     (has_paged gs \<longrightarrow> max_blocks c \<le> blocks_for (sc_max_seqs c) pool_bytes gs \<and>
        blocks_for (sc_max_seqs c) pool_bytes gs \<le> MAX_SLOT_BLOCKS)"

lemma assigned_le: "blocks_for ms pool_bytes gs * block_cost gs \<le> pool_bytes - fixed_sum ms gs"
  by (simp add: blocks_for_def)

lemma scratch_cap_fits:
  assumes "config_ok c" and "groups_ok gs"
  shows "length (filter (\<lambda>g. is_paged (lg_spec g)) gs) * max_blocks c < 2 ^ 64"
proof -
  have "length (filter (\<lambda>g. is_paged (lg_spec g)) gs) \<le> 16"
    by (rule order_trans [OF length_filter_le]) (use assms(2) in \<open>simp add: groups_ok_def hard_caps\<close>)
  moreover have "max_blocks c \<le> 1048576"
    using assms(1) by (auto simp: config_ok_def max_blocks_def hard_caps intro: order_trans [OF div_le_dividend])
  ultimately show ?thesis using mult_le_mono [of _ 16 "max_blocks c" 1048576] by fastforce
qed

lemma split_paged_ok:
  assumes "groups_ok gs" and "pool_bytes < 2 ^ 64"
  shows "split_paged mb pool_bytes (fixed_sum ms gs) (filter (\<lambda>g. is_paged (lg_spec g)) gs) (block_cost gs) = Inr r
    \<longleftrightarrow> r = (blocks_for ms pool_bytes gs, blocks_for ms pool_bytes gs * block_cost gs) \<and>
      (has_paged gs \<longrightarrow> mb \<le> blocks_for ms pool_bytes gs \<and> blocks_for ms pool_bytes gs \<le> MAX_SLOT_BLOCKS)"
proof (cases "has_paged gs")
  case True
  let ?b = "blocks_for ms pool_bytes gs"
  have b: "?b = (pool_bytes - fixed_sum ms gs) div block_cost gs" using True by (simp add: blocks_for_def)
  have pos: "block_cost gs \<noteq> 0" using block_cost_pos [OF assms(1) True] by simp
  have asg: "?b * block_cost gs < 2 ^ 64"
    by (rule le_less_trans [OF assigned_le]) (rule le_less_trans [OF diff_le_self assms(2)])
  have "MAX_SLOT_BLOCKS < 2 ^ 32" by (simp add: MAX_SLOT_BLOCKS_def)
  with True pos asg b show ?thesis
    unfolding split_paged_def has_paged_def
    by (auto simp: bind_r_eq_Inr simp del: power_numeral)
next
  case False
  then show ?thesis by (auto simp: split_paged_def has_paged_def blocks_for_def)
qed

theorem new_from_validated_groups_iff:
  assumes "config_ok c" and "groups_ok gs" and "pool_bytes < 2 ^ 64"
  shows "new_from_validated_groups grants c gs pool_bytes = Inr m \<longleftrightarrow>
    m = initial_manager c gs pool_bytes \<and> pool_fits c gs pool_bytes \<and>
    grants 8 (length (filter (\<lambda>g. is_paged (lg_spec g)) gs) * max_blocks c)"
proof (cases "pool_fits c gs pool_bytes")
  case False
  have "new_from_validated_groups grants c gs pool_bytes \<noteq> Inr m"
    using False fixed_pool_bytes_ok(1) [of gs "sc_max_seqs c"] groups_ok_group [OF assms(2)]
    by (auto simp: new_from_validated_groups_def bind_r_eq_Inr block_cost_sum_ok [OF assms(2)]
        split_paged_ok [OF assms(2,3)] pool_fits_def Let_def simp del: power_numeral)
  with False show ?thesis by simp
next
  case True
  let ?ms = "sc_max_seqs c"
  let ?b = "blocks_for ?ms pool_bytes gs"
  have fs: "fixed_sum ?ms gs \<le> pool_bytes" using True by (simp add: pool_fits_def)
  then have fp: "fixed_pool_bytes ?ms gs = Inr (fixed_sum ?ms gs)"
    using fixed_pool_bytes_ok(1) [of gs ?ms] groups_ok_group [OF assms(2)] assms(3) by simp
  have sp: "split_paged (max_blocks c) pool_bytes (fixed_sum ?ms gs)
      (filter (\<lambda>g. is_paged (lg_spec g)) gs) (block_cost gs) = Inr (?b, ?b * block_cost gs)"
    using True by (simp add: split_paged_ok [OF assms(2,3)] pool_fits_def)
  have "sum_list (map (region_bytes ?b ?ms) gs) \<le> pool_bytes"
    using assigned_le [of ?ms pool_bytes gs] fs by (simp add: regions_sum)
  then have bp: "fold_r (build_pool ?b ?ms) gs (0, [], []) =
      Inr (sum_list (map (region_bytes ?b ?ms) gs), map (pool_entry ?b) (layout ?b ?ms 0 gs),
           map (fixed_entry ?ms) (layout ?b ?ms 0 gs))"
    using build_pools [of gs 0 ?b ?ms "[]" "[]"] groups_ok_group [OF assms(2)] assms(3) by simp
  from True fs show ?thesis
    using scratch_cap_fits [OF assms(1,2)]
    by (auto simp: new_from_validated_groups_def fp block_cost_sum_ok [OF assms(2)] sp bp Let_def
        bind_r_eq_Inr initial_manager_def simp del: power_numeral)
qed

section \<open>The initial manager\<close>

lemma descending_rev_upt [simp]: "descending (rev [0..<n])"
  by (simp add: sorted_wrt_rev)

lemma initial_paged:
  assumes "gi < length gs" and "is_paged (lg_spec (gs ! gi))" and "pool_fits c gs pool_bytes"
  shows "paged_ok Map.empty (max_blocks c) gi (sm_pools (initial_manager c gs pool_bytes) ! gi)"
proof -
  have hp: "has_paged gs" using assms(1,2) nth_mem by (fastforce simp: has_paged_def filter_empty_conv)
  show ?thesis
    using assms hp conserved_init
    by (auto simp: initial_manager_def Let_def nth_layout pool_entry_def paged_ok_def bp_ok_def
        pool_fits_def atLeast0LessThan)
qed

lemma initial_fixed:
  assumes "gi < length gs" and "\<not> is_paged (lg_spec (gs ! gi))"
  shows "fixed_ok Map.empty (sc_max_seqs c) gi (sm_fixed (initial_manager c gs pool_bytes) ! gi)"
  using assms conserved_init
  by (auto simp: initial_manager_def Let_def nth_layout fixed_entry_def fixed_ok_def fp_ok_def atLeast0LessThan)

lemma initial_none:
  assumes "gi < length gs"
  shows "is_paged (lg_spec (gs ! gi)) \<Longrightarrow> sm_fixed (initial_manager c gs pool_bytes) ! gi = None"
    and "\<not> is_paged (lg_spec (gs ! gi)) \<Longrightarrow> sm_pools (initial_manager c gs pool_bytes) ! gi = None"
  using assms by (simp_all add: initial_manager_def Let_def nth_layout fixed_entry_def pool_entry_def)

lemma initial_fields [simp]:
  "sm_config (initial_manager c gs pb) = c" "sm_groups (initial_manager c gs pb) = gs"
  "sm_max_blocks (initial_manager c gs pb) = max_blocks c" "sm_seqs (initial_manager c gs pb) = Map.empty"
  "sm_next_seq (initial_manager c gs pb) = 0" "sm_live_count (initial_manager c gs pb) = 0"
  "length (sm_pools (initial_manager c gs pb)) = length gs"
  "length (sm_fixed (initial_manager c gs pb)) = length gs"
  by (simp_all add: initial_manager_def Let_def)

lemma initial_inv:
  assumes "config_ok c" and "groups_ok gs" and "pool_fits c gs pool_bytes"
  shows "sm_inv (initial_manager c gs pool_bytes)"
  using assms initial_paged [OF _ _ assms(3)] initial_fixed [of _ gs c pool_bytes] initial_none [of _ gs c pool_bytes]
  by (simp add: sm_inv_def static_ok_def ids_ok_def seqs_ok_def pools_ok_def)

section \<open>Accounting\<close>

lemma initial_bytes:
  assumes "pool_fits c gs pool_bytes"
  shows "sm_pool_bytes_total (initial_manager c gs pool_bytes) + sm_fixed_bytes_total (initial_manager c gs pool_bytes) +
    sm_unusable_bytes (initial_manager c gs pool_bytes) = pool_bytes"
  using assms assigned_le [of "sc_max_seqs c" pool_bytes gs]
  by (auto simp: initial_manager_def Let_def pool_fits_def)

lemma initial_unusable:
  assumes "groups_ok gs" and "has_paged gs"
  shows "sm_unusable_bytes (initial_manager c gs pool_bytes) < block_cost gs"
proof -
  have "0 < block_cost gs" by (rule block_cost_pos [OF assms])
  then show ?thesis
    using assms(2) mod_less_divisor [of "block_cost gs" "pool_bytes - fixed_sum (sc_max_seqs c) gs"]
    by (simp add: initial_manager_def Let_def blocks_for_def minus_div_mult_eq_mod
        del: mod_less_divisor diff_diff_left)
qed

text \<open>The byte region of a group in the arena: its base and its length.\<close>

definition group_region :: "state_manager \<Rightarrow> nat \<Rightarrow> nat \<times> nat" where
  "group_region m gi =
     (case (sm_pools m ! gi, sm_fixed m ! gi) of
        (Some p, _) \<Rightarrow> (bp_base_offset p, bp_total p * bp_block_bytes p)
      | (None, Some f) \<Rightarrow> (fp_base_offset f, fp_slot_bytes_per_seq f * fp_total_slots f)
      | (None, None) \<Rightarrow> (0, 0))"

lemma group_region_initial:
  assumes "gi < length gs"
  shows "group_region (initial_manager c gs pb) gi =
    (sum_list (map (region_bytes (blocks_for (sc_max_seqs c) pb gs) (sc_max_seqs c)) (take gi gs)),
     region_bytes (blocks_for (sc_max_seqs c) pb gs) (sc_max_seqs c) (gs ! gi))"
  using assms
  by (simp add: group_region_def initial_manager_def Let_def nth_layout pool_entry_def fixed_entry_def
      region_bytes_def)

lemma group_regions_ordered:
  assumes "gi < gj" and "gj < length gs"
  shows "fst (group_region (initial_manager c gs pb) gi) + snd (group_region (initial_manager c gs pb) gi)
    \<le> fst (group_region (initial_manager c gs pb) gj)"
proof -
  let ?w = "region_bytes (blocks_for (sc_max_seqs c) pb gs) (sc_max_seqs c)"
  have "sum_list (map ?w (take (Suc gi) gs)) \<le> sum_list (map ?w (take gj gs))"
  proof -
    have "take gj gs = take (Suc gi) gs @ take (gj - Suc gi) (drop (Suc gi) gs)"
      using assms by (metis Suc_leI add_diff_inverse_nat not_le take_add)
    then show ?thesis by simp
  qed
  then show ?thesis using assms by (simp add: group_region_initial take_Suc_conv_app_nth)
qed

lemma group_regions_end:
  assumes "gi < length gs" and "pool_fits c gs pb"
  shows "fst (group_region (initial_manager c gs pb) gi) + snd (group_region (initial_manager c gs pb) gi) \<le> pb"
proof -
  let ?w = "region_bytes (blocks_for (sc_max_seqs c) pb gs) (sc_max_seqs c)"
  have "fst (group_region (initial_manager c gs pb) gi) + snd (group_region (initial_manager c gs pb) gi) =
      sum_list (map ?w (take (Suc gi) gs))"
    using assms by (simp add: group_region_initial take_Suc_conv_app_nth)
  also have "\<dots> \<le> sum_list (map ?w gs)"
    by (subst (2) append_take_drop_id [of "Suc gi" gs, symmetric]) (simp del: append_take_drop_id)
  also have "\<dots> \<le> pb"
    using assms(2) assigned_le [of "sc_max_seqs c" pb gs] by (auto simp: regions_sum pool_fits_def)
  finally show ?thesis .
qed

section \<open>The required pool\<close>

definition required_sum :: "state_config \<Rightarrow> layer_group list \<Rightarrow> nat" where
  "required_sum c gs = block_cost gs * max_blocks c + fixed_sum (sc_max_seqs c) gs"

lemma required_pool_bytes_ok:
  assumes "\<forall>g \<in> set gs. group_ok g"
  shows "required_pool_bytes c gs = Inr r \<longleftrightarrow> r = required_sum c gs \<and> required_sum c gs < 2 ^ 64"
proof -
  let ?f = "\<lambda>g total.
       if is_paged (lg_spec g)
       then bind_r (group_block_bytes g) (\<lambda>bb.
            bind_r (ok_or (Overflow ''full-context paged pool'') (checked_mul 64 bb (max_blocks c))) (\<lambda>full.
            ok_or (Overflow ''pool total'') (checked_add 64 total full)))
       else bind_r (slots_bytes_per_seq g) (\<lambda>sb.
            bind_r (ok_or (Overflow ''recurrent pool'') (checked_mul 64 sb (sc_max_seqs c))) (\<lambda>fixed.
            ok_or (Overflow ''pool total'') (checked_add 64 total fixed)))"
  let ?w = "\<lambda>g. if is_paged (lg_spec g) then block_bytes_of g * max_blocks c else slot_bytes_of g * sc_max_seqs c"
  let ?e = "\<lambda>g (t::nat). if ?w g < 2 ^ 64 then ''pool total''
      else if is_paged (lg_spec g) then ''full-context paged pool'' else ''recurrent pool''"
  have step: "?f g t = (if t + ?w g < 2 ^ 64 then Inr (t + ?w g) else Inl (Overflow (?e g t)))"
    if "g \<in> set gs" "t < 2 ^ 64" for g t
    using that assms group_ok_bytes [of g]
    by (auto simp: bind_r_def ok_or_def checked_mul_def checked_add_def)
  have w: "sum_list (map ?w gs) = required_sum c gs"
    unfolding required_sum_def fixed_sum_def block_cost_def by (induction gs) (auto simp: algebra_simps)
  show ?thesis
    unfolding required_pool_bytes_def using fold_checked_sum(1) [of gs ?f ?w ?e 0, OF step] w by simp
qed

lemma pool_fits_iff_required:
  assumes "groups_ok gs" and "has_paged gs"
  shows "required_sum c gs \<le> pb \<longleftrightarrow>
    fixed_sum (sc_max_seqs c) gs \<le> pb \<and> max_blocks c \<le> blocks_for (sc_max_seqs c) pb gs"
proof -
  have pos: "0 < block_cost gs" by (rule block_cost_pos [OF assms])
  have "max_blocks c \<le> (pb - fixed_sum (sc_max_seqs c) gs) div block_cost gs \<longleftrightarrow>
      max_blocks c * block_cost gs \<le> pb - fixed_sum (sc_max_seqs c) gs"
    using pos by (simp add: less_eq_div_iff_mult_less_eq)
  with assms(2) show ?thesis
    by (auto simp: required_sum_def blocks_for_def mult.commute)
qed

end
