(* ===== verification/State_Reserve.thy ===== *)
theory State_Reserve
  imports State_Inv
begin

text \<open>
  Reserving tail positions: the scan decides success before anything is allocated, the
  placement after a successful scan never fails, and the invariant is kept. A refused
  reservation leaves everything but the scratch vector as it was.
\<close>

section \<open>Placing one block\<close>

definition tables_ok :: "nat \<Rightarrow> seq_state \<Rightarrow> bool" where
  "tables_ok n s \<longleftrightarrow> length (ss_tables s) = n \<and> length (ss_indices s) = n \<and>
     (\<forall>gi < n. ascending (ss_indices s ! gi) \<and> length (ss_tables s ! gi) = length (ss_indices s ! gi))"

definition add_block :: "nat \<Rightarrow> nat \<Rightarrow> nat \<Rightarrow> seq_state \<Rightarrow> seq_state" where
  "add_block gi idx i s =
     (let at = partition_point (\<lambda>j. j < idx) (ss_indices s ! gi)
      in s\<lparr>ss_indices := (ss_indices s)[gi := insert_at at idx (ss_indices s ! gi)],
           ss_tables := (ss_tables s)[gi := insert_at at i (ss_tables s ! gi)]\<rparr>)"

text \<open>A group's cell: the pool entry and the table, against the ids other sequences own.\<close>

definition cell_ok :: "nat \<Rightarrow> nat multiset \<Rightarrow> nat \<Rightarrow> seq_state \<Rightarrow> block_pool option \<Rightarrow> bool" where
  "cell_ok mb rest gi s po \<longleftrightarrow> (\<exists>p. po = Some p \<and> bp_ok p \<and> mb \<le> bp_total p \<and> bp_total p \<le> MAX_SLOT_BLOCKS \<and>
     conserved (set (bp_free p)) (bp_total p) (table_ids gi s + rest))"

lemma paged_ok_cell:
  assumes "finite (dom seqs)"
  shows "paged_ok (seqs(q \<mapsto> s)) mb gi po \<longleftrightarrow> cell_ok mb (owned_by (table_ids gi) (seqs(q := None))) gi s po"
  using owned_by_upd [OF assms, of "table_ids gi" q s] by (simp add: paged_ok_def cell_ok_def)

lemma paged_ok_cell':
  assumes "finite (dom seqs)" and "seqs q = Some s"
  shows "paged_ok seqs mb gi po \<longleftrightarrow> cell_ok mb (owned_by (table_ids gi) (seqs(q := None))) gi s po"
  using paged_ok_cell [OF assms(1), of q s mb gi po] assms(2) by (simp add: fun_upd_idem)

lemma cell_ok_pool: "cell_ok mb rest gi s (Some p) \<Longrightarrow> bp_ok p"
  by (simp add: cell_ok_def)

text \<open>What a batch of placements establishes: \<open>A\<close> are the pairs of group and block index added.\<close>

definition grown :: "(nat \<times> nat) set \<Rightarrow> nat \<Rightarrow> block_pool option list \<Rightarrow> seq_state \<Rightarrow>
    block_pool option list \<Rightarrow> seq_state \<Rightarrow> bool" where
  "grown A n pools s pools' s' \<longleftrightarrow>
     s' = s\<lparr>ss_indices := ss_indices s', ss_tables := ss_tables s'\<rparr> \<and> tables_ok n s' \<and>
     length pools' = length pools \<and>
     map (map_option pool_geometry) pools' = map (map_option pool_geometry) pools \<and>
     (\<forall>gi < n. set (ss_indices s' ! gi) = set (ss_indices s ! gi) \<union> {idx. (gi, idx) \<in> A} \<and>
        block_map s gi \<subseteq>\<^sub>m block_map s' gi \<and>
        (\<forall>mb rest. cell_ok mb rest gi s (pools ! gi) \<longrightarrow> cell_ok mb rest gi s' (pools' ! gi)))"

lemma grown_refl: "tables_ok n s \<Longrightarrow> grown {} n pools s pools s"
  by (simp add: grown_def)

lemma grown_trans:
  assumes "grown A n pools s pools' s'" and "grown B n pools' s' pools'' s''"
  shows "grown (A \<union> B) n pools s pools'' s''"
proof -
  have "s'' = s\<lparr>ss_indices := ss_indices s'', ss_tables := ss_tables s''\<rparr>"
  proof -
    have a: "s' = s\<lparr>ss_indices := ss_indices s', ss_tables := ss_tables s'\<rparr>"
      and b: "s'' = s'\<lparr>ss_indices := ss_indices s'', ss_tables := ss_tables s''\<rparr>"
      using assms by (simp_all add: grown_def)
    show ?thesis by (subst b, subst a) simp
  qed
  with assms show ?thesis
    unfolding grown_def by (auto intro: map_le_trans)
qed

lemma add_block_tables_ok:
  assumes "tables_ok n s" and "gi < n" and "idx \<notin> set (ss_indices s ! gi)"
  shows "tables_ok n (add_block gi idx i s)"
  using assms ascending_insert_at [of "ss_indices s ! gi" idx]
  by (auto simp: tables_ok_def add_block_def Let_def nth_list_update)

lemma add_block_map:
  assumes "tables_ok n s" and "gi < n" and "idx \<notin> set (ss_indices s ! gi)"
  shows "block_map (add_block gi idx i s) gi = (block_map s gi)(idx \<mapsto> i)"
    and "gj \<noteq> gi \<Longrightarrow> block_map (add_block gi idx i s) gj = block_map s gj"
proof -
  let ?ix = "ss_indices s ! gi" and ?tb = "ss_tables s ! gi"
  have len: "length ?ix = length ?tb" using assms(1,2) by (simp add: tables_ok_def)
  have "idx \<notin> fst ` set (zip ?ix ?tb)" using assms(3) by (auto dest: set_zip_leftD)
  with assms len show "block_map (add_block gi idx i s) gi = (block_map s gi)(idx \<mapsto> i)"
    by (simp add: block_map_def add_block_def Let_def tables_ok_def zip_insert_at map_of_insert_at)
  show "gj \<noteq> gi \<Longrightarrow> block_map (add_block gi idx i s) gj = block_map s gj"
    by (simp add: block_map_def add_block_def Let_def)
qed

lemma add_block_ids:
  "tables_ok n s \<Longrightarrow> gi < n \<Longrightarrow> table_ids gj (add_block gi idx i s) =
     (if gj = gi then add_mset i (table_ids gi s) else table_ids gj s)"
  by (simp add: table_ids_def add_block_def Let_def tables_ok_def)

lemma bp_alloc_take: "bp_take p = Some (i, p') \<Longrightarrow> bp_alloc p = (Some i, p')"
  by (auto simp: bp_take_def split: prod.splits option.splits)

lemma bp_take_frame: "bp_take p = Some (i, p') \<Longrightarrow>
    pool_geometry p' = pool_geometry p \<and> Suc (length (bp_free p')) = length (bp_free p)"
  by (auto simp: bp_take_def bp_alloc_def pool_geometry_def split: if_splits)

lemma place_one_block_eq:
  assumes "tables_ok n s" and "seqs q = Some s" and "length pools = n" and "gi < n"
    and "pools ! gi = Some p" and "bp_take p = Some (i, p')"
  shows "place_one_block pools seqs q gi idx e mc =
    (Inr (), pools[gi := Some p'], seqs(q \<mapsto> add_block gi idx i s))"
proof -
  have sl: "slot_at pools gi = Some p" using assms by simp
  have ix: "get (ss_indices s) gi = Some (ss_indices s ! gi)" and tb: "get (ss_tables s) gi = Some (ss_tables s ! gi)"
    and len: "length (ss_tables s ! gi) = length (ss_indices s ! gi)"
    using assms(1,4) by (auto simp: tables_ok_def)
  show ?thesis
    unfolding place_one_block_def sl option.case bp_alloc_take [OF assms(6)] prod.case assms(2) ix Let_def tb len
    by (simp add: not_less add_block_def Let_def)
qed

lemma add_block_grown:
  assumes "tables_ok n s" and "length pools = n" and "gi < n" and "idx \<notin> set (ss_indices s ! gi)"
    and "pools ! gi = Some p" and "bp_take p = Some (i, p')"
  shows "grown {(gi, idx)} n pools s (pools[gi := Some p']) (add_block gi idx i s)"
proof -
  have geo: "map (map_option pool_geometry) (pools[gi := Some p']) = map (map_option pool_geometry) pools"
    using assms bp_take_frame [OF assms(6)] by (simp add: map_update list_update_same_conv)
  have cells: "cell_ok mb rest gj (add_block gi idx i s) (pools[gi := Some p'] ! gj)"
    if "cell_ok mb rest gj s (pools ! gj)" "gj < n" for mb rest gj
  proof (cases "gj = gi")
    case True
    with that assms(5) have ok: "bp_ok p" and c: "conserved (set (bp_free p)) (bp_total p) (table_ids gi s + rest)"
      and tot: "mb \<le> bp_total p" "bp_total p \<le> MAX_SLOT_BLOCKS"
      by (auto simp: cell_ok_def)
    note t = bp.take_Some [OF ok assms(6)] and tc = bp.take_conserves [OF ok c assms(6)]
    from t tc tot assms True show ?thesis by (simp add: cell_ok_def add_block_ids [OF assms(1,3)])
  qed (use that add_block_ids [OF assms(1,3)] in \<open>simp add: cell_ok_def\<close>)
  have maps: "block_map s gj \<subseteq>\<^sub>m block_map (add_block gi idx i s) gj" for gj
  proof (cases "gj = gi")
    case True
    have "idx \<notin> dom (block_map s gi)" using assms(1,3,4) by (simp add: dom_block_map tables_ok_def)
    then show ?thesis using True by (auto simp: add_block_map(1) [OF assms(1,3,4)] map_le_def)
  qed (simp add: add_block_map(2) [OF assms(1,3,4)])
  have sets: "set (ss_indices (add_block gi idx i s) ! gj) = set (ss_indices s ! gj) \<union> {x. (gj, x) \<in> {(gi, idx)}}"
    if "gj < n" for gj
    using that assms(1) by (cases "gj = gi") (auto simp: add_block_def Let_def tables_ok_def)
  have upd: "add_block gi idx i s = s\<lparr>ss_indices := ss_indices (add_block gi idx i s),
      ss_tables := ss_tables (add_block gi idx i s)\<rparr>" by (simp add: add_block_def Let_def)
  show ?thesis
    unfolding grown_def
    using upd geo cells maps sets add_block_tables_ok [OF assms(1,3,4)] by simp
qed

section \<open>Placing the scratch\<close>

definition free_in :: "block_pool option list \<Rightarrow> nat \<Rightarrow> nat" where
  "free_in pools gi = (case slot_at pools gi of None \<Rightarrow> 0 | Some p \<Rightarrow> length (bp_free p))"

definition wanted :: "(nat \<times> nat) list \<Rightarrow> nat \<Rightarrow> nat" where
  "wanted xs gi = length (filter (\<lambda>x. fst x = gi) xs)"

lemma place_blocks_ok:
  assumes "tables_ok n s" and "seqs q = Some s" and "length pools = n" and "distinct xs"
    and "\<And>gi idx. (gi, idx) \<in> set xs \<Longrightarrow> gi < n \<and> idx \<notin> set (ss_indices s ! gi)"
    and "\<And>gi. wanted xs gi \<le> free_in pools gi"
  shows "\<exists>pools' s'. place_blocks q e mc xs k pools seqs = ((k + length xs, None), pools', seqs(q \<mapsto> s')) \<and>
    grown (set xs) n pools s pools' s'"
  using assms
proof (induction xs arbitrary: k pools seqs s)
  case Nil
  then have "seqs(q \<mapsto> s) = seqs" by (simp add: fun_upd_idem)
  with Nil grown_refl [OF Nil.prems(1)] show ?case by (auto intro!: exI [of _ s])
next
  case (Cons x xs)
  obtain gi idx where x: "x = (gi, idx)" by (cases x)
  have gi: "gi < n" and idx: "idx \<notin> set (ss_indices s ! gi)" using Cons.prems(5) x by auto
  have "0 < free_in pools gi" using Cons.prems(6) [of gi] by (simp add: wanted_def x)
  then obtain p where p: "pools ! gi = Some p" and ne: "bp_free p \<noteq> []"
    using gi Cons.prems(3) by (auto simp: free_in_def split: option.splits)
  then obtain i p' where t: "bp_take p = Some (i, p')" by (auto simp: bp_take_def bp_alloc_def)
  let ?s = "add_block gi idx i s" and ?pools = "pools[gi := Some p']"
  have step: "place_one_block pools seqs q gi idx e mc = (Inr (), ?pools, seqs(q \<mapsto> ?s))"
    using place_one_block_eq [of n s seqs q pools gi p i p' idx e mc] Cons.prems(1-3) gi p t by simp
  have g: "grown {(gi, idx)} n pools s ?pools ?s"
    by (rule add_block_grown [OF Cons.prems(1,3) gi idx p t])
  have free: "wanted xs gj \<le> free_in ?pools gj" for gj
  proof -
    have "free_in ?pools gj = (if gj = gi then free_in pools gi - 1 else free_in pools gj)"
      using gi Cons.prems(3) p bp_take_frame [OF t]
      by (auto simp: free_in_def slot_at_def get_def nth_list_update)
    moreover have "wanted (x # xs) gj = (if gj = gi then Suc (wanted xs gj) else wanted xs gj)"
      by (simp add: wanted_def x)
    ultimately show ?thesis using Cons.prems(6) [of gj] by (auto split: if_splits)
  qed
  have new: "gj < n \<and> jdx \<notin> set (ss_indices ?s ! gj)" if "(gj, jdx) \<in> set xs" for gj jdx
    using that g Cons.prems(4) Cons.prems(5) [of gj jdx] x by (auto simp: grown_def)
  have "\<exists>pools' s'. place_blocks q e mc xs (Suc k) ?pools (seqs(q \<mapsto> ?s)) =
        ((Suc k + length xs, None), pools', seqs(q \<mapsto> ?s, q \<mapsto> s')) \<and>
      grown (set xs) n ?pools ?s pools' s'"
    by (rule Cons.IH [OF add_block_tables_ok [OF Cons.prems(1) gi idx]])
       (use new free Cons.prems(3,4) in simp_all)
  then obtain pools' s' where r: "place_blocks q e mc xs (Suc k) ?pools (seqs(q \<mapsto> ?s)) =
        ((Suc k + length xs, None), pools', seqs(q \<mapsto> ?s, q \<mapsto> s'))"
      "grown (set xs) n ?pools ?s pools' s'"
    by blast
  from r(1) step x have "place_blocks q e mc (x # xs) k pools seqs = ((k + length (x # xs), None), pools', seqs(q \<mapsto> s'))"
    by simp
  moreover from grown_trans [OF g r(2)] x have "grown (set (x # xs)) n pools s pools' s'" by simp
  ultimately show ?case by blast
qed

section \<open>The scan\<close>

definition missing_blocks :: "nat \<Rightarrow> nat \<Rightarrow> seq_state \<Rightarrow> nat \<Rightarrow> nat list" where
  "missing_blocks fb lb s gi = filter (\<lambda>b. b \<notin> set (ss_indices s ! gi)) [fb..<lb]"

lemma missing_indices_eq:
  "ascending (ss_indices s ! gi) \<Longrightarrow> missing_indices (ss_indices s ! gi) fb lb = missing_blocks fb lb s gi"
  by (simp add: missing_indices_def missing_blocks_def get_partition_point_ascending del: get_eq_Some)

fun scan_entries :: "nat \<Rightarrow> nat \<Rightarrow> seq_state \<Rightarrow> (nat \<times> layer_group) list \<Rightarrow> (nat \<times> nat) list" where
  "scan_entries fb lb s [] = []"
| "scan_entries fb lb s ((gi, g) # rest) =
     (if is_paged (lg_spec g) then map (Pair gi) (missing_blocks fb lb s gi) else []) @ scan_entries fb lb s rest"

definition blocks_available :: "nat \<Rightarrow> nat \<Rightarrow> block_pool option list \<Rightarrow> seq_state \<Rightarrow> nat \<Rightarrow> bool" where
  "blocks_available fb lb pools s gi \<longleftrightarrow> length (missing_blocks fb lb s gi) \<le> free_in pools gi"

lemma free_in_case: "(case get pools gi of Some (Some p) \<Rightarrow> length (bp_free p) | _ \<Rightarrow> 0) = free_in pools gi"
  by (auto simp: free_in_def slot_at_def split: option.splits)

lemma reserve_scan_step:
  assumes "is_paged (lg_spec g)" and "gi < 2 ^ 32" and "gi < length (ss_indices s)"
    and "ascending (ss_indices s ! gi)"
  shows "reserve_scan fb lb e mc pools s ((gi, g) # rest) scr =
    (let scr' = scr @ map (Pair gi) (missing_blocks fb lb s gi);
         want = length (missing_blocks fb lb s gi); free = free_in pools gi
     in if want > free
        then (bind_r (ok_or (Overflow ''free block count'') (try_from 32 free)) (\<lambda>available.
              bind_r (ok_or (Overflow ''missing block count'') (try_from 32 want)) (\<lambda>required.
              bind_r (ok_or (Overflow ''pool shortfall'') (checked_sub required available)) (\<lambda>shortfall.
              Inl (PoolExhausted gi required available shortfall e mc)))), scr')
        else reserve_scan fb lb e mc pools s rest scr')"
proof -
  have t: "try_from 32 gi = Some gi" using assms(2) by simp
  have g: "get (ss_indices s) gi = Some (ss_indices s ! gi)" using assms(3) by simp
  show ?thesis
    unfolding reserve_scan.simps t g option.case free_in_case missing_indices_eq [OF assms(4)]
    using assms(1) by (simp add: Let_def)
qed

lemma reserve_scan_ok:
  assumes "\<And>gi g. (gi, g) \<in> set xs \<Longrightarrow> is_paged (lg_spec g) \<Longrightarrow>
      gi < 2 ^ 32 \<and> gi < length (ss_indices s) \<and> ascending (ss_indices s ! gi) \<and> blocks_available fb lb pools s gi"
  shows "reserve_scan fb lb e mc pools s xs scr = (Inr (), scr @ scan_entries fb lb s xs)"
  using assms
proof (induction xs arbitrary: scr)
  case (Cons x xs)
  obtain gi g where x: "x = (gi, g)" by (cases x)
  have ih: "reserve_scan fb lb e mc pools s xs sc = (Inr (), sc @ scan_entries fb lb s xs)" for sc
    by (rule Cons.IH) (use Cons.prems in auto)
  show ?case
  proof (cases "is_paged (lg_spec g)")
    case True
    then have "gi < 2 ^ 32" "gi < length (ss_indices s)" "ascending (ss_indices s ! gi)"
      and av: "blocks_available fb lb pools s gi" using Cons.prems x by auto
    note step = reserve_scan_step [OF True this(1-3), of fb lb e mc pools xs scr]
    from ih av True show ?thesis unfolding x step Let_def by (simp add: blocks_available_def)
  next
    case False
    with ih x show ?thesis by simp
  qed
qed simp

lemma reserve_scan_refused:
  assumes "\<And>gi g. (gi, g) \<in> set xs \<Longrightarrow> is_paged (lg_spec g) \<Longrightarrow>
      gi < 2 ^ 32 \<and> gi < length (ss_indices s) \<and> ascending (ss_indices s ! gi)"
    and "lb < 2 ^ 32" and "(gj, gg) \<in> set xs" and "is_paged (lg_spec gg)" and "\<not> blocks_available fb lb pools s gj"
  shows "\<exists>gi g. (gi, g) \<in> set xs \<and> is_paged (lg_spec g) \<and> \<not> blocks_available fb lb pools s gi \<and>
    fst (reserve_scan fb lb e mc pools s xs scr) =
      Inl (PoolExhausted gi (length (missing_blocks fb lb s gi)) (free_in pools gi)
            (length (missing_blocks fb lb s gi) - free_in pools gi) e mc)"
  using assms
proof (induction xs arbitrary: scr)
  case (Cons x xs)
  obtain gi g where x: "x = (gi, g)" by (cases x)
  show ?case
  proof (cases "is_paged (lg_spec g)")
    case True
    then have "gi < 2 ^ 32" "gi < length (ss_indices s)" "ascending (ss_indices s ! gi)"
      using Cons.prems(1) x by auto
    note step = reserve_scan_step [OF True this, of fb lb e mc pools xs scr]
    show ?thesis
    proof (cases "blocks_available fb lb pools s gi")
      case av: True
      then have "(gj, gg) \<in> set xs" using Cons.prems x by auto
      with Cons.IH [of "scr @ map (Pair gi) (missing_blocks fb lb s gi)"] Cons.prems obtain hi h where
        "(hi, h) \<in> set xs \<and> is_paged (lg_spec h) \<and> \<not> blocks_available fb lb pools s hi \<and>
         fst (reserve_scan fb lb e mc pools s xs (scr @ map (Pair gi) (missing_blocks fb lb s gi))) =
           Inl (PoolExhausted hi (length (missing_blocks fb lb s hi)) (free_in pools hi)
             (length (missing_blocks fb lb s hi) - free_in pools hi) e mc)" by auto
      then show ?thesis unfolding x step Let_def using av by (auto simp: blocks_available_def)
    next
      case na: False
      have "length (missing_blocks fb lb s gi) \<le> lb"
        unfolding missing_blocks_def by (rule order_trans [OF length_filter_le]) simp
      then have w: "length (missing_blocks fb lb s gi) < 2 ^ 32" using Cons.prems(2) by linarith
      with na have f: "free_in pools gi < 2 ^ 32" by (simp add: blocks_available_def)
      have "fst (reserve_scan fb lb e mc pools s (x # xs) scr) =
         Inl (PoolExhausted gi (length (missing_blocks fb lb s gi)) (free_in pools gi)
           (length (missing_blocks fb lb s gi) - free_in pools gi) e mc)"
        unfolding x step Let_def using na w f by (simp add: blocks_available_def bind_r_eq_Inl)
      with na True show ?thesis unfolding x by (intro exI [of _ gi] exI [of _ g]) simp
    qed
  next
    case False
    with Cons.prems x have "(gj, gg) \<in> set xs" by auto
    with Cons.IH [of scr] Cons.prems False x show ?thesis by fastforce
  qed
qed simp

lemma scan_entries_set:
  "(gi, b) \<in> set (scan_entries fb lb s xs) \<longleftrightarrow>
     (\<exists>g. (gi, g) \<in> set xs \<and> is_paged (lg_spec g)) \<and> b \<in> set (missing_blocks fb lb s gi)"
  by (induction fb lb s xs rule: scan_entries.induct) auto

lemma scan_entries_distinct: "distinct (map fst xs) \<Longrightarrow> distinct (scan_entries fb lb s xs)"
proof (induction fb lb s xs rule: scan_entries.induct)
  case (2 fb lb s gi g rest)
  moreover have "distinct (map (Pair gi) (missing_blocks fb lb s gi))"
    by (simp add: missing_blocks_def distinct_map inj_on_def)
  moreover have "set (map (Pair gi) (missing_blocks fb lb s gi)) \<inter> set (scan_entries fb lb s rest) = {}"
    using 2(2) by (force simp: scan_entries_set)
  ultimately show ?case by simp
qed simp

lemma wanted_scan_entries:
  assumes "distinct (map fst xs)"
  shows "wanted (scan_entries fb lb s xs) gi \<le> length (missing_blocks fb lb s gi)"
    and "\<not> (\<exists>g. (gi, g) \<in> set xs \<and> is_paged (lg_spec g)) \<Longrightarrow> wanted (scan_entries fb lb s xs) gi = 0"
proof -
  have "wanted (scan_entries fb lb s xs) gi = card (set (filter (\<lambda>x. fst x = gi) (scan_entries fb lb s xs)))"
    using distinct_card [OF distinct_filter [OF scan_entries_distinct [OF assms]]] by (simp add: wanted_def)
  moreover have "set (filter (\<lambda>x. fst x = gi) (scan_entries fb lb s xs)) \<subseteq> Pair gi ` set (missing_blocks fb lb s gi)"
    by (auto simp: scan_entries_set)
  then have "card (set (filter (\<lambda>x. fst x = gi) (scan_entries fb lb s xs))) \<le> card (Pair gi ` set (missing_blocks fb lb s gi))"
    by (rule card_mono [rotated]) simp
  moreover have "card (Pair gi ` set (missing_blocks fb lb s gi)) \<le> length (missing_blocks fb lb s gi)"
    by (rule order_trans [OF card_image_le card_length]) simp
  ultimately show "wanted (scan_entries fb lb s xs) gi \<le> length (missing_blocks fb lb s gi)" by linarith
  show "wanted (scan_entries fb lb s xs) gi = 0" if "\<not> (\<exists>g. (gi, g) \<in> set xs \<and> is_paged (lg_spec g))"
    using that scan_entries_set [of gi _ fb lb s xs] by (auto simp: wanted_def filter_empty_conv)
qed

section \<open>Updating one sequence and the block pools\<close>

lemma owned_by_same:
  assumes "finite (dom seqs)" and "seqs q = Some s" and "f s' = f s"
  shows "owned_by f (seqs(q \<mapsto> s')) = owned_by f seqs"
  using owned_by_upd [OF assms(1), of f q s'] owned_by_split [OF assms(1,2), of f] assms(3) by simp

lemma geometry_None:
  assumes "map (map_option h) xs' = map (map_option h) xs" and "gi < length xs"
  shows "xs' ! gi = None \<longleftrightarrow> xs ! gi = None"
proof -
  have "length xs' = length xs" using assms(1) by (rule map_eq_imp_length_eq)
  with assms have "map_option h (xs' ! gi) = map_option h (xs ! gi)" by (metis nth_map)
  then show ?thesis by (cases "xs ! gi"; cases "xs' ! gi") auto
qed

definition keeps_cells :: "state_manager \<Rightarrow> seq_state \<Rightarrow> block_pool option list \<Rightarrow> seq_state \<Rightarrow> bool" where
  "keeps_cells m s pools' s' \<longleftrightarrow>
     map (map_option pool_geometry) pools' = map (map_option pool_geometry) (sm_pools m) \<and>
     (\<forall>gi < length (sm_groups m). \<forall>mb rest. is_paged (lg_spec (sm_groups m ! gi)) \<longrightarrow>
        cell_ok mb rest gi s (sm_pools m ! gi) \<longrightarrow> cell_ok mb rest gi s' (pools' ! gi))"

lemma sm_inv_update:
  assumes inv: "sm_inv m" and s: "sm_seqs m q = Some s"
    and m': "sm_config m' = sm_config m" "sm_groups m' = sm_groups m" "sm_max_blocks m' = sm_max_blocks m"
      "sm_fixed m' = sm_fixed m" "sm_next_seq m' = sm_next_seq m" "sm_live_count m' = sm_live_count m"
      "sm_seqs m' = (sm_seqs m)(q \<mapsto> s')"
    and cells: "keeps_cells m s (sm_pools m') s'"
    and fs: "ss_fixed_slots s' = ss_fixed_slots s"
    and ok: "seq_ok (sm_config m) (sm_groups m) s'"
  shows "sm_inv m'"
proof (rule sm_inv_intro [OF inv m'(1-3)])
  have fin: "finite (dom (sm_seqs m))" by (rule sm_inv_finite [OF inv])
  have po: "pools_ok m" and io: "ids_ok m" and so: "seqs_ok m" using inv by (simp_all add: sm_inv_def)
  have "dom (sm_seqs m') = dom (sm_seqs m)" using s m'(7) by auto
  with io m' show "ids_ok m'" by (simp add: ids_ok_def)
  show "seqs_ok m'" using so m' ok by (auto simp: seqs_ok_def)
  have slots: "owned_by (slot_ids gi) (sm_seqs m') = owned_by (slot_ids gi) (sm_seqs m)" for gi
    unfolding m' by (rule owned_by_same [OF fin s]) (simp add: slot_ids_def fs)
  have len: "length (sm_pools m') = length (sm_pools m)"
    using cells map_eq_imp_length_eq by (auto simp: keeps_cells_def)
  have "if is_paged (lg_spec (sm_groups m ! gi))
        then paged_ok (sm_seqs m') (sm_max_blocks m) gi (sm_pools m' ! gi) \<and> sm_fixed m ! gi = None
        else sm_pools m' ! gi = None \<and> fixed_ok (sm_seqs m') (sc_max_seqs (sm_config m)) gi (sm_fixed m ! gi)"
    if gi: "gi < length (sm_groups m)" for gi
  proof (cases "is_paged (lg_spec (sm_groups m ! gi))")
    case True
    with po gi have p: "paged_ok (sm_seqs m) (sm_max_blocks m) gi (sm_pools m ! gi)" and "sm_fixed m ! gi = None"
      by (auto simp: pools_ok_def)
    moreover from p cells gi True have "paged_ok (sm_seqs m') (sm_max_blocks m) gi (sm_pools m' ! gi)"
      unfolding m'(7) paged_ok_cell [OF fin] paged_ok_cell' [of "sm_seqs m", OF fin s] keeps_cells_def by blast
    ultimately show ?thesis using True by simp
  next
    case False
    with po gi have "sm_pools m ! gi = None" and "fixed_ok (sm_seqs m) (sc_max_seqs (sm_config m)) gi (sm_fixed m ! gi)"
      and "gi < length (sm_pools m)" by (auto simp: pools_ok_def)
    moreover have "sm_pools m' ! gi = None \<longleftrightarrow> sm_pools m ! gi = None"
      by (rule geometry_None [of pool_geometry])
         (use cells calculation(3) in \<open>simp_all add: keeps_cells_def\<close>)
    ultimately show ?thesis using False by (simp add: fixed_ok_def slots)
  qed
  then show "pools_ok m'"
    unfolding pools_ok_def m'(1-4) using po len by (intro conjI allI impI) (auto simp: pools_ok_def)
qed

lemma keeps_cells_refl:
  "ss_tables s' = ss_tables s \<Longrightarrow> pools' = sm_pools m \<Longrightarrow> keeps_cells m s pools' s'"
  by (simp add: keeps_cells_def cell_ok_def table_ids_def)

lemma keeps_cells_grown:
  assumes "grown A (length (sm_groups m)) (sm_pools m) s pools' s1" and "ss_tables s' = ss_tables s1"
  shows "keeps_cells m s pools' s'"
  using assms by (auto simp: keeps_cells_def grown_def cell_ok_def table_ids_def)

section \<open>Reserving\<close>

lemma evicted_below: "evicted ctx g b \<Longrightarrow> b < ctx div 32"
proof -
  assume e: "evicted ctx g b"
  then obtain w where "b < window_start_of ctx w div 32"
    by (auto simp: evicted_def evict_range_def Let_def split: option.splits if_splits)
  also have "\<dots> \<le> ctx div 32" by (rule div_le_mono) (simp add: window_start_of_def)
  finally show ?thesis .
qed

lemma seq_ok_table: "seq_ok c gs s \<Longrightarrow> gi < length gs \<Longrightarrow> table_ok c (gs ! gi) gi s"
  by (simp add: seq_ok_def)

lemma seq_ok_unpaged:
  assumes "seq_ok c gs s" and "gi < length gs" and "\<not> is_paged (lg_spec (gs ! gi))"
  shows "ss_indices s ! gi = [] \<and> ss_tables s ! gi = []"
  using seq_ok_table [OF assms(1,2)] assms(3) by (auto simp: table_ok_def)

lemma seq_ok_tables: "seq_ok c gs s \<Longrightarrow> tables_ok (length gs) s"
  by (auto simp: seq_ok_def seq_shape_def table_ok_def tables_ok_def)

definition first_block :: "seq_state \<Rightarrow> nat" where
  "first_block s = ss_ctx_len s div BLOCK_TOKENS"

definition last_block :: "seq_state \<Rightarrow> nat \<Rightarrow> nat" where
  "last_block s n = div_ceil (ss_ctx_len s + n) BLOCK_TOKENS"

definition can_reserve :: "state_manager \<Rightarrow> nat \<Rightarrow> nat \<Rightarrow> bool" where
  "can_reserve m q n = (case sm_seqs m q of
     None \<Rightarrow> False
   | Some s \<Rightarrow> 0 < n \<and> ss_tail_len s = 0 \<and> ss_ctx_len s + n \<le> sc_max_ctx (sm_config m) \<and>
       (\<forall>gi < length (sm_groups m). is_paged (lg_spec (sm_groups m ! gi)) \<longrightarrow>
          blocks_available (first_block s) (last_block s n) (sm_pools m) s gi))"

lemma seq_ok_grown:
  assumes ok: "seq_ok c gs s" and c: "config_ok c" and tail: "ss_tail_len s = 0"
    and fits: "ss_ctx_len s + n \<le> sc_max_ctx c"
    and g: "grown A (length gs) pools s pools' s1"
    and A: "\<And>gi b. (gi, b) \<in> A \<longleftrightarrow> gi < length gs \<and> is_paged (lg_spec (gs ! gi)) \<and>
        b \<in> set (missing_blocks (first_block s) (last_block s n) s gi)"
  shows "seq_ok c gs (s1\<lparr>ss_tail_len := n, ss_compacted := None\<rparr>)"
proof -
  have s1: "s1 = s\<lparr>ss_indices := ss_indices s1, ss_tables := ss_tables s1\<rparr>" and t1: "tables_ok (length gs) s1"
    using g by (simp_all add: grown_def)
  have f: "ss_ctx_len s1 = ss_ctx_len s" "ss_fixed_slots s1 = ss_fixed_slots s" "ss_parity s1 = ss_parity s"
    "ss_mirror s1 = ss_mirror s" by (subst s1, simp)+
  have set1: "set (ss_indices s1 ! gi) = set (ss_indices s ! gi) \<union> {b. (gi, b) \<in> A}" if "gi < length gs" for gi
    using g that by (simp add: grown_def)
  have "table_ok c (gs ! gi) gi (s1\<lparr>ss_tail_len := n, ss_compacted := None\<rparr>)" if gi: "gi < length gs" for gi
  proof (cases "is_paged (lg_spec (gs ! gi))")
    case True
    have old: "table_ok c (gs ! gi) gi s" using ok gi by (simp add: seq_ok_def)
    have miss: "first_block s \<le> b \<and> b < last_block s n" if "(gi, b) \<in> A" for b
      using that A by (auto simp: missing_blocks_def)
    have lb: "last_block s n \<le> max_blocks c"
      using fits max_blocks_le_iff(2) [OF c] by (simp add: last_block_def div_ceil_le_iff)
    have held: "b < max_blocks c \<and> \<not> evicted (ss_ctx_len s) (gs ! gi) b" if "b \<in> set (ss_indices s1 ! gi)" for b
      using that old True miss [of b] lb evicted_below [of "ss_ctx_len s" "gs ! gi" b]
      by (auto simp: set1 [OF gi] table_ok_def first_block_def)
    have cover: "b \<in> set (ss_indices s1 ! gi) \<or> evicted (ss_ctx_len s) (gs ! gi) b"
      if b: "b < div_ceil (ss_ctx_len s + n) 32" for b
    proof (cases "b < first_block s")
      case True
      then have "b < div_ceil (ss_ctx_len s + ss_tail_len s) 32"
        by (simp add: tail less_div_ceil_iff first_block_def div_ceil_def split: if_splits)
      with old \<open>is_paged (lg_spec (gs ! gi))\<close> show ?thesis by (auto simp: set1 [OF gi] table_ok_def)
    next
      case False
      with b True gi show ?thesis by (auto simp: set1 [OF gi] A missing_blocks_def last_block_def)
    qed
    from True old held cover t1 gi f show ?thesis by (simp add: table_ok_def tables_ok_def)
  next
    case False
    with gi have "set (ss_indices s1 ! gi) = set (ss_indices s ! gi)" by (simp add: set1 A)
    with False ok gi t1 f show ?thesis by (auto simp: table_ok_def seq_ok_def tables_ok_def)
  qed
  moreover have "mirror_ok gs (s1\<lparr>ss_tail_len := n, ss_compacted := None\<rparr>)"
    using ok set1 f by (auto simp: mirror_ok_def seq_ok_def)
  ultimately show ?thesis
    using ok fits f t1 by (simp add: seq_ok_def seq_shape_def tables_ok_def)
qed

lemma sm_inv_static:
  assumes "sm_inv m"
  shows "config_ok (sm_config m)" and "groups_ok (sm_groups m)" and "sm_max_blocks m = max_blocks (sm_config m)"
    and "length (sm_pools m) = length (sm_groups m)" and "length (sm_fixed m) = length (sm_groups m)"
    and "length (sm_groups m) < 2 ^ 32" and "sc_max_ctx (sm_config m) \<le> MAX_CTX_HARD"
  using assms by (auto simp: sm_inv_def static_ok_def pools_ok_def groups_ok_def config_ok_def hard_caps)

lemma reserve_checks_iff:
  assumes "sm_inv m"
  shows "reserve_checks m q n = Inr (s, e) \<longleftrightarrow> sm_seqs m q = Some s \<and> 0 < n \<and> ss_tail_len s = 0 \<and>
    e = ss_ctx_len s + n \<and> e \<le> sc_max_ctx (sm_config m)"
proof -
  have "sc_max_ctx (sm_config m) \<le> MAX_CTX_HARD" by (rule sm_inv_static [OF assms])
  then show ?thesis
    by (auto simp: reserve_checks_def sm_seq_def bind_r_eq_Inr hard_caps)
qed

lemma scan_group_facts:
  assumes "sm_inv m" and "sm_seqs m q = Some s" and "(gi, g) \<in> set (List.enumerate 0 (sm_groups m))"
  shows "gi < 2 ^ 32 \<and> gi < length (ss_indices s) \<and> ascending (ss_indices s ! gi)"
  using assms seq_ok_tables [OF sm_inv_seq [OF assms(1,2)]] sm_inv_static(6) [OF assms(1)]
  by (auto simp: in_set_enumerate_eq tables_ok_def)

theorem reserve_success:
  assumes inv: "sm_inv m" and can: "can_reserve m q n"
  obtains s s' m' where "sm_seqs m q = Some s"
    and "reserve m q n = (Inr \<lparr>sr_seq = q, sr_start = ss_ctx_len s, sr_len = n\<rparr>, m')"
    and "sm_seqs m' = (sm_seqs m)(q \<mapsto> s')" and "sm_inv m'" and "same_geometry m m'"
    and "s' = s\<lparr>ss_tail_len := n, ss_compacted := None, ss_indices := ss_indices s', ss_tables := ss_tables s'\<rparr>"
    and "\<forall>gi < length (sm_groups m). block_map s gi \<subseteq>\<^sub>m block_map s' gi"
    and "\<forall>gi < length (sm_groups m). is_paged (lg_spec (sm_groups m ! gi)) \<longrightarrow>
        set (ss_indices s' ! gi) = set (ss_indices s ! gi) \<union> {first_block s..<last_block s n}"
    and "m' = m\<lparr>sm_seqs := sm_seqs m', sm_pools := sm_pools m', sm_reserve_scratch := sm_reserve_scratch m'\<rparr>"
proof -
  obtain s where s: "sm_seqs m q = Some s" and n: "0 < n" "ss_tail_len s = 0"
    and fits: "ss_ctx_len s + n \<le> sc_max_ctx (sm_config m)"
    and av: "\<And>gi. gi < length (sm_groups m) \<Longrightarrow> is_paged (lg_spec (sm_groups m ! gi)) \<Longrightarrow>
        blocks_available (first_block s) (last_block s n) (sm_pools m) s gi"
    using can by (auto simp: can_reserve_def split: option.splits)
  let ?xs = "List.enumerate 0 (sm_groups m)" and ?N = "length (sm_groups m)"
  let ?A = "scan_entries (first_block s) (last_block s n) s ?xs"
  note st = sm_inv_static [OF inv] and ok = sm_inv_seq [OF inv s]
  have chk: "reserve_checks m q n = Inr (s, ss_ctx_len s + n)"
    using s n fits by (simp add: reserve_checks_iff [OF inv])
  have scan: "reserve_scan (first_block s) (last_block s n) (ss_ctx_len s + n) (sc_max_ctx (sm_config m))
      (sm_pools m) s ?xs [] = (Inr (), [] @ ?A)"
    by (rule reserve_scan_ok) (use scan_group_facts [OF inv s] av in \<open>auto simp: in_set_enumerate_eq\<close>)
  have A: "(gi, b) \<in> set ?A \<longleftrightarrow> gi < ?N \<and> is_paged (lg_spec (sm_groups m ! gi)) \<and>
      b \<in> set (missing_blocks (first_block s) (last_block s n) s gi)" for gi b
    by (auto simp: scan_entries_set in_set_enumerate_eq)
  have dist: "distinct (map fst ?xs)" by (simp add: map_fst_enumerate)
  have want: "wanted ?A gi \<le> free_in (sm_pools m) gi" for gi
  proof (cases "gi < ?N \<and> is_paged (lg_spec (sm_groups m ! gi))")
    case True
    with wanted_scan_entries(1) [OF dist, of "first_block s" "last_block s n" s gi] av [of gi] show ?thesis
      by (auto simp: blocks_available_def)
  qed (use wanted_scan_entries(2) [OF dist] in \<open>auto simp: in_set_enumerate_eq\<close>)
  have "\<exists>pools' s1. place_blocks q (ss_ctx_len s + n) (sc_max_ctx (sm_config m)) ?A 0 (sm_pools m) (sm_seqs m) =
      ((0 + length ?A, None), pools', (sm_seqs m)(q \<mapsto> s1)) \<and> grown (set ?A) ?N (sm_pools m) s pools' s1"
    by (rule place_blocks_ok)
       (use seq_ok_tables [OF ok] s st(4) scan_entries_distinct [OF dist] want in \<open>auto simp: A missing_blocks_def\<close>)
  then obtain pools' s1 where pl: "place_blocks q (ss_ctx_len s + n) (sc_max_ctx (sm_config m)) ?A 0
        (sm_pools m) (sm_seqs m) = ((length ?A, None), pools', (sm_seqs m)(q \<mapsto> s1))"
    and g: "grown (set ?A) ?N (sm_pools m) s pools' s1" by auto
  let ?s = "s1\<lparr>ss_tail_len := n, ss_compacted := None\<rparr>"
  let ?m = "m\<lparr>sm_reserve_scratch := ?A, sm_pools := pools', sm_seqs := (sm_seqs m)(q \<mapsto> ?s)\<rparr>"
  have res: "reserve m q n = (Inr \<lparr>sr_seq = q, sr_start = ss_ctx_len s, sr_len = n\<rparr>, ?m)"
    using chk scan pl by (simp add: reserve_def place_reserve_blocks_def first_block_def last_block_def)
  have s1: "s1 = s\<lparr>ss_indices := ss_indices s1, ss_tables := ss_tables s1\<rparr>" using g by (simp add: grown_def)
  have sok: "seq_ok (sm_config m) (sm_groups m) ?s"
    by (rule seq_ok_grown [OF ok st(1) n(2) fits g A])
  have invm: "sm_inv ?m"
  proof (rule sm_inv_update [OF inv s, where s' = ?s])
    show "keeps_cells m s (sm_pools ?m) ?s" using keeps_cells_grown [OF g, of ?s] by simp
    show "ss_fixed_slots ?s = ss_fixed_slots s" by (subst s1) simp
  qed (use sok in simp_all)
  have bm: "block_map ?s gi = block_map s1 gi" for gi by (simp add: block_map_def)
  have eq: "?s = s\<lparr>ss_tail_len := n, ss_compacted := None, ss_indices := ss_indices ?s, ss_tables := ss_tables ?s\<rparr>"
    by (subst s1) simp
  have sets: "\<forall>gi < ?N. is_paged (lg_spec (sm_groups m ! gi)) \<longrightarrow>
      set (ss_indices ?s ! gi) = set (ss_indices s ! gi) \<union> {first_block s..<last_block s n}"
    using g by (auto simp: grown_def A missing_blocks_def)
  show thesis
    by (rule that [OF s res _ invm _ eq _ sets])
       (use g bm in \<open>simp_all add: same_geometry_def grown_def\<close>)
qed

theorem reserve_refused:
  assumes inv: "sm_inv m" and "\<not> can_reserve m q n"
  obtains e x where "reserve m q n = (Inl e, m\<lparr>sm_reserve_scratch := x\<rparr>)"
proof (cases "reserve_checks m q n")
  case (Inl e)
  then have "reserve m q n = (Inl e, m\<lparr>sm_reserve_scratch := sm_reserve_scratch m\<rparr>)" by (simp add: reserve_def)
  then show thesis by (rule that)
next
  case (Inr r)
  then obtain s e where "reserve_checks m q n = Inr (s, e)" by (cases r) auto
  then have s: "sm_seqs m q = Some s" and e: "e = ss_ctx_len s + n" "e \<le> sc_max_ctx (sm_config m)"
    and chk: "reserve_checks m q n = Inr (s, ss_ctx_len s + n)" and n: "0 < n" "ss_tail_len s = 0"
    by (auto simp: reserve_checks_iff [OF inv])
  then obtain gi where gi: "gi < length (sm_groups m)" "is_paged (lg_spec (sm_groups m ! gi))"
    "\<not> blocks_available (first_block s) (last_block s n) (sm_pools m) s gi"
    using assms(2) by (auto simp: can_reserve_def)
  have lb: "last_block s n < 2 ^ 32"
  proof -
    have "div_ceil e 32 \<le> 1048576" using e(2) sm_inv_static(7) [OF inv] by (simp add: div_ceil_le_iff hard_caps)
    then show ?thesis by (simp add: last_block_def e(1))
  qed
  let ?r = "reserve_scan (first_block s) (last_block s n) (ss_ctx_len s + n) (sc_max_ctx (sm_config m))
      (sm_pools m) s (List.enumerate 0 (sm_groups m)) []"
  have "\<exists>hi h. (hi, h) \<in> set (List.enumerate 0 (sm_groups m)) \<and> is_paged (lg_spec h) \<and>
      \<not> blocks_available (first_block s) (last_block s n) (sm_pools m) s hi \<and>
      fst ?r = Inl (PoolExhausted hi (length (missing_blocks (first_block s) (last_block s n) s hi))
        (free_in (sm_pools m) hi)
        (length (missing_blocks (first_block s) (last_block s n) s hi) - free_in (sm_pools m) hi)
        (ss_ctx_len s + n) (sc_max_ctx (sm_config m)))"
    by (rule reserve_scan_refused [OF _ lb _ gi(2,3)])
       (use scan_group_facts [OF inv s] gi(1) in \<open>auto simp: in_set_enumerate_eq\<close>)
  then obtain err scr where "?r = (Inl err, scr)" by (cases ?r) auto
  then have "reserve m q n = (Inl err, m\<lparr>sm_reserve_scratch := scr\<rparr>)"
    using chk by (simp add: reserve_def first_block_def last_block_def)
  then show thesis by (rule that)
qed

corollary reserve_inv: "sm_inv m \<Longrightarrow> sm_inv (snd (reserve m q n))"
  by (cases "can_reserve m q n") (auto elim: reserve_success intro: reserve_refused [of m q n "sm_inv (snd (reserve m q n))"])

corollary reserve_geometry:
  assumes "sm_inv m"
  shows "same_geometry m (snd (reserve m q n))"
proof (cases "can_reserve m q n")
  case True
  then show ?thesis by (rule reserve_success [OF assms]) simp
next
  case False
  then show ?thesis by (rule reserve_refused [OF assms]) (simp add: same_geometry_def)
qed

end
