(* ===== verification/State_Tokens.thy ===== *)
theory State_Tokens
  imports State_Reserve
begin

text \<open>
  Addressing and the token mirror: a mapped position has exactly one flat slot, distinct
  positions have distinct slots, tokens written to the reserved tail read back, and
  compaction moves the accepted tail positions to the front.
\<close>

section \<open>Slots\<close>

lemma flatten_slot_map:
  assumes "tables_ok n s" and "gi < n"
  shows "flatten_slot s gi pos e =
    (case block_map s gi (pos div 32) of
       None \<Rightarrow> Inl (UnmappedPosition gi pos e)
     | Some i \<Rightarrow> if i * 32 + pos mod 32 < 2 ^ 32 then Inr (i * 32 + pos mod 32) else Inl (Overflow ''slot id''))"
proof -
  let ?ix = "ss_indices s ! gi" and ?tb = "ss_tables s ! gi"
  let ?at = "partition_point (\<lambda>i. i < pos div 32) ?ix"
  have asc: "ascending ?ix" and len: "length ?tb = length ?ix"
    and gix: "get (ss_indices s) gi = Some ?ix" and gtb: "get (ss_tables s) gi = Some ?tb"
    using assms by (auto simp: tables_ok_def)
  have bm: "block_map s gi (pos div 32) = (if get ?ix ?at = Some (pos div 32) then get ?tb ?at else None)"
    unfolding block_map_def by (rule map_of_zip_partition_point [OF asc len])
  have small: "i * 32 + pos mod 32 < 2 ^ 32 \<Longrightarrow> i * 32 < 2 ^ 64 \<and> i * 32 + pos mod 32 < 2 ^ 64" for i :: nat
    by simp
  show ?thesis
  proof (cases "get ?ix ?at = Some (pos div 32)")
    case True
    then have "?at < length ?tb" using len by (simp del: partition_point_le)
    then obtain i where i: "get ?tb ?at = Some i" by (simp add: get_def)
    have num: "Option.bind (checked_mul 64 i 32) (\<lambda>v. Option.bind (checked_add 64 v (pos mod 32)) (try_from 32)) =
        (if i * 32 + pos mod 32 < 2 ^ 32 then Some (i * 32 + pos mod 32) else None)"
      using small [of i] by (auto simp: checked_mul_def checked_add_def try_from_def)
    show ?thesis
      unfolding flatten_slot_def Let_def gix gtb ok_or_simps bind_r_simps BLOCK_TOKENS_def True bm i
      by (simp add: num)
  next
    case False
    then show ?thesis
      unfolding flatten_slot_def Let_def gix gtb ok_or_simps bind_r_simps BLOCK_TOKENS_def bm
      by (simp del: get_eq_Some)
  qed
qed

lemma block_map_table_id:
  "block_map s gi b = Some i \<Longrightarrow> i \<in># table_ids gi s"
  by (auto simp: block_map_def table_ids_def dest!: map_of_SomeD set_zip_rightD)

lemma block_map_id_bound:
  assumes "sm_inv m" and "sm_seqs m q = Some s" and "gi < length (sm_groups m)"
    and "block_map s gi b = Some i"
  shows "i < MAX_SLOT_BLOCKS"
proof (cases "is_paged (lg_spec (sm_groups m ! gi))")
  case True
  obtain p :: block_pool where p: "bp_total p \<le> MAX_SLOT_BLOCKS"
    "conserved (set (bp_free p)) (bp_total p) (owned_by (table_ids gi) (sm_seqs m))"
    by (rule sm_inv_paged [OF assms(1,3) True]) blast
  have "i \<in># owned_by (table_ids gi) (sm_seqs m)"
    using owned_by_mem [OF sm_inv_finite [OF assms(1)]] assms(2) block_map_table_id [OF assms(4)] by blast
  from conserved_owned(1) [OF p(2) this] p(1) show ?thesis by simp
next
  case False
  then have "block_map s gi b = None"
    using seq_ok_unpaged [OF sm_inv_seq [OF assms(1,2)] assms(3)] by (simp add: block_map_def)
  with assms(4) show ?thesis by simp
qed

lemma flatten_slot_mapped:
  assumes "sm_inv m" and "sm_seqs m q = Some s" and "gi < length (sm_groups m)"
    and "block_map s gi (pos div 32) = Some i"
  shows "flatten_slot s gi pos e = Inr (i * 32 + pos mod 32)" and "i * 32 + pos mod 32 < SLOT_NONE"
proof -
  have "i < 134217727" using block_map_id_bound [OF assms] by (simp add: MAX_SLOT_BLOCKS_def)
  moreover have "pos mod 32 < 32" by simp
  ultimately have lt: "i * 32 + pos mod 32 < 4294967295" by linarith
  then show "i * 32 + pos mod 32 < SLOT_NONE" by (simp add: SLOT_NONE_def u32_max_def)
  show "flatten_slot s gi pos e = Inr (i * 32 + pos mod 32)"
    using lt flatten_slot_map [OF seq_ok_tables [OF sm_inv_seq [OF assms(1,2)]] assms(3)] assms(4) by simp
qed

text \<open>One id, one sequence, one block index.\<close>

lemma block_map_inj:
  assumes inv: "sm_inv m" and gi: "gi < length (sm_groups m)"
    and q: "sm_seqs m q = Some s" "block_map s gi b = Some i"
    and q': "sm_seqs m q' = Some s'" "block_map s' gi b' = Some i"
  shows "q = q' \<and> b = b'"
proof -
  have fin: "finite (dom (sm_seqs m))" by (rule sm_inv_finite [OF inv])
  have paged: "is_paged (lg_spec (sm_groups m ! gi))"
    by (rule ccontr) (use q(2) seq_ok_unpaged [OF sm_inv_seq [OF inv q(1)] gi] in \<open>simp add: block_map_def\<close>)
  obtain p :: block_pool where c: "conserved (set (bp_free p)) (bp_total p) (owned_by (table_ids gi) (sm_seqs m))"
    by (rule sm_inv_paged [OF inv gi paged]) blast
  have mem: "i \<in># owned_by (table_ids gi) (sm_seqs m)"
    using owned_by_mem [OF fin] q(1) block_map_table_id [OF q(2)] by blast
  have one: "count (owned_by (table_ids gi) (sm_seqs m)) i = 1" by (rule conserved_owned(3) [OF c mem])
  note sp = owned_by_split [OF fin q(1), of "table_ids gi"]
  have in_s: "0 < count (table_ids gi s) i" using block_map_table_id [OF q(2)] by simp
  have qq: "q = q'"
  proof (rule ccontr)
    assume "q \<noteq> q'"
    then have "i \<in># owned_by (table_ids gi) ((sm_seqs m)(q := None))"
      using q' block_map_table_id [OF q'(2)] fin by (subst owned_by_mem) auto
    then have "0 < count (owned_by (table_ids gi) ((sm_seqs m)(q := None))) i" by simp
    with one in_s show False unfolding sp by simp
  qed
  with q q' have "s' = s" by simp
  have "count (mset (ss_tables s ! gi)) i \<le> 1" using one unfolding sp table_ids_def by simp
  moreover have "tables_ok (length (sm_groups m)) s" by (rule seq_ok_tables [OF sm_inv_seq [OF inv q(1)]])
  then have asc: "ascending (ss_indices s ! gi)" and len: "length (ss_tables s ! gi) = length (ss_indices s ! gi)"
    using gi by (auto simp: tables_ok_def)
  obtain j where j: "j < length (ss_indices s ! gi)" "ss_indices s ! gi ! j = b" "ss_tables s ! gi ! j = i"
    using q(2) len by (auto simp: block_map_def in_set_zip dest!: map_of_SomeD)
  obtain j' where j': "j' < length (ss_indices s ! gi)" "ss_indices s ! gi ! j' = b'" "ss_tables s ! gi ! j' = i"
    using q'(2) len \<open>s' = s\<close> by (auto simp: block_map_def in_set_zip dest!: map_of_SomeD)
  have "j = j'"
  proof (rule ccontr)
    assume "j \<noteq> j'"
    with j j' len have "{j, j'} \<subseteq> {k. k < length (ss_tables s ! gi) \<and> i = ss_tables s ! gi ! k}" "card {j, j'} = 2"
      by auto
    then have "2 \<le> card {k. k < length (ss_tables s ! gi) \<and> i = ss_tables s ! gi ! k}"
      using card_mono [of "{k. k < length (ss_tables s ! gi) \<and> i = ss_tables s ! gi ! k}" "{j, j'}"] by simp
    also have "\<dots> = count (mset (ss_tables s ! gi)) i"
      by (simp add: count_mset count_list_eq_length_filter length_filter_conv_card)
    finally show False using \<open>count (mset (ss_tables s ! gi)) i \<le> 1\<close> by simp
  qed
  with j j' qq show ?thesis by simp
qed

text \<open>Every reserved position is mapped.\<close>

lemma tail_mapped:
  assumes "seq_ok c gs s" and "gi < length gs" and "is_paged (lg_spec (gs ! gi))"
    and "ss_ctx_len s \<le> p" and "p < ss_ctx_len s + ss_tail_len s"
  shows "p div 32 \<in> set (ss_indices s ! gi)"
proof -
  have lt: "p div 32 < div_ceil (ss_ctx_len s + ss_tail_len s) 32"
    using assms(5) div_mult_mod_eq [of p 32] by (simp add: less_div_ceil_iff)
  have "ss_ctx_len s div 32 \<le> p div 32" by (rule div_le_mono [OF assms(4)])
  then have "\<not> evicted (ss_ctx_len s) (gs ! gi) (p div 32)" using evicted_below not_le by blast
  with lt seq_ok_table [OF assms(1,2)] assms(3) show ?thesis by (auto simp: table_ok_def)
qed

section \<open>The mirror\<close>

lemma fold_groups:
  assumes "\<And>gi g mir h p. f (gi, g) mir (h, p) = (if h = gi then F gi g (\<lambda>p. mir (gi, p)) p else mir (h, p))"
  shows "fold f (List.enumerate k gs) mir (h, p) =
    (if k \<le> h \<and> h < k + length gs then F h (gs ! (h - k)) (\<lambda>p. mir (h, p)) p else mir (h, p))"
proof (induction gs arbitrary: k mir)
  case (Cons g gs)
  have "fold f (List.enumerate (Suc k) gs) (f (k, g) mir) (h, p) =
      (if Suc k \<le> h \<and> h < Suc k + length gs then F h (gs ! (h - Suc k)) (\<lambda>p. f (k, g) mir (h, p)) p
       else f (k, g) mir (h, p))" by (rule Cons.IH)
  then show ?case by (cases "h = k") (auto simp: assms nth_Cons')
qed auto

lemma mirror_write_apply:
  "mirror_write gi pos ts mir (h, p) =
     (if h = gi \<and> pos \<le> p \<and> p < pos + length ts then Some (ts ! (p - pos)) else mir (h, p))"
proof (induction ts arbitrary: pos mir)
  case (Cons t ts)
  then show ?case by (cases "p = pos") (auto simp: nth_Cons' Suc_diff_Suc)
qed auto

lemma mirror_store_apply:
  "mirror_store gi dst ts mir (h, p) =
     (if h = gi \<and> dst \<le> p \<and> p < dst + length ts then ts ! (p - dst) else mir (h, p))"
proof (induction ts arbitrary: dst mir)
  case (Cons t ts)
  then show ?case by (cases "p = dst") (auto simp: nth_Cons' Suc_diff_Suc)
qed auto

definition written :: "layer_group list \<Rightarrow> nat \<Rightarrow> nat list \<Rightarrow> (nat \<times> nat \<rightharpoonup> nat) \<Rightarrow> (nat \<times> nat \<rightharpoonup> nat)" where
  "written gs start ts mir = (\<lambda>(h, p).
     if h < length gs \<and> is_paged (lg_spec (gs ! h)) \<and> start \<le> p \<and> p < start + length ts
     then Some (ts ! (p - start)) else mir (h, p))"

definition compacted :: "layer_group list \<Rightarrow> nat \<Rightarrow> nat list \<Rightarrow> (nat \<times> nat \<rightharpoonup> nat) \<Rightarrow> (nat \<times> nat \<rightharpoonup> nat)" where
  "compacted gs ctx src mir = (\<lambda>(h, p).
     if h < length gs \<and> is_paged (lg_spec (gs ! h)) \<and> ctx \<le> p \<and> p < ctx + length src
     then mir (h, src ! (p - ctx)) else mir (h, p))"

lemma fold_mirror_write:
  "fold (\<lambda>(gi, g) mir. if is_paged (lg_spec g) then mirror_write gi start ts mir else mir)
     (List.enumerate 0 gs) mir = written gs start ts mir"
proof
  fix x show "fold (\<lambda>(gi, g) mir. if is_paged (lg_spec g) then mirror_write gi start ts mir else mir)
     (List.enumerate 0 gs) mir x = written gs start ts mir x"
  proof (cases x)
    case (Pair h p)
    have "fold (\<lambda>(gi, g) mir. if is_paged (lg_spec g) then mirror_write gi start ts mir else mir)
       (List.enumerate 0 gs) mir (h, p) =
      (if 0 \<le> h \<and> h < 0 + length gs then
         (if is_paged (lg_spec (gs ! (h - 0))) \<and> start \<le> p \<and> p < start + length ts then Some (ts ! (p - start))
          else mir (h, p)) else mir (h, p))"
      by (rule fold_groups [where F = "\<lambda>gi g row p. if is_paged (lg_spec g) \<and> start \<le> p \<and> p < start + length ts
            then Some (ts ! (p - start)) else row p"]) (auto simp: mirror_write_apply)
    then show ?thesis using Pair by (simp add: written_def)
  qed
qed

lemma fold_compact_group:
  "fold (compact_group ctx src) (List.enumerate 0 gs) mir = compacted gs ctx src mir"
proof
  fix x show "fold (compact_group ctx src) (List.enumerate 0 gs) mir x = compacted gs ctx src mir x"
  proof (cases x)
    case (Pair h p)
    have "fold (compact_group ctx src) (List.enumerate 0 gs) mir (h, p) =
      (if 0 \<le> h \<and> h < 0 + length gs then
         (if is_paged (lg_spec (gs ! (h - 0))) \<and> ctx \<le> p \<and> p < ctx + length src then mir (h, src ! (p - ctx))
          else mir (h, p)) else mir (h, p))"
      by (rule fold_groups [where F = "\<lambda>gi g row p. if is_paged (lg_spec g) \<and> ctx \<le> p \<and> p < ctx + length src
            then row (src ! (p - ctx)) else row p"]) (auto simp: compact_group_def mirror_store_apply)
    then show ?thesis using Pair by (simp add: compacted_def)
  qed
qed

section \<open>Writing\<close>

definition can_write :: "state_manager \<Rightarrow> nat \<Rightarrow> nat \<Rightarrow> nat list \<Rightarrow> bool" where
  "can_write m q start ts = (case sm_seqs m q of
     None \<Rightarrow> False
   | Some s \<Rightarrow> ss_ctx_len s \<le> start \<and> start + length ts \<le> ss_ctx_len s + ss_tail_len s)"

lemma seq_ok_len: "sm_inv m \<Longrightarrow> sm_seqs m q = Some s \<Longrightarrow> ss_ctx_len s + ss_tail_len s \<le> 1048576"
  using sm_inv_seq sm_inv_static(7) [of m] by (fastforce simp: seq_ok_def hard_caps)

lemma write_tokens_eq:
  assumes inv: "sm_inv m"
  shows "write_tokens m q start ts =
    (if can_write m q start ts
     then (Inr (), m\<lparr>sm_seqs := (sm_seqs m)(q \<mapsto> (the (sm_seqs m q))\<lparr>ss_mirror :=
             written (sm_groups m) start ts (ss_mirror (the (sm_seqs m q)))\<rparr>)\<rparr>)
     else (Inl (projl (fst (write_tokens m q start ts))), m))"
proof (cases "sm_seqs m q")
  case None
  then show ?thesis by (simp add: write_tokens_def sm_seq_def can_write_def)
next
  case (Some s)
  have len: "ss_ctx_len s + ss_tail_len s < 2 ^ 32" using seq_ok_len [OF inv Some] by simp
  show ?thesis
  proof (cases "can_write m q start ts")
    case True
    with Some have c: "ss_ctx_len s \<le> start" "start + length ts \<le> ss_ctx_len s + ss_tail_len s"
      by (simp_all add: can_write_def)
    with len have "length ts < 2 ^ 32" "start + length ts < 2 ^ 32" by linarith+
    with c Some len True show ?thesis
      by (simp add: write_tokens_def sm_seq_def fold_mirror_write try_from_def checked_add_def)
  next
    case False
    then have "bind_r (sm_seq m q) (\<lambda>s.
           bind_r (ok_or (Overflow ''write length'') (try_from 32 (length ts))) (\<lambda>len.
           bind_r (ok_or (Overflow ''write end'') (checked_add 32 start len)) (\<lambda>write_end.
           bind_r (ok_or (Overflow ''reserved end'') (checked_add 32 (ss_ctx_len s) (ss_tail_len s))) (\<lambda>reserved_end.
           bind_r (guard_r (ss_ctx_len s \<le> start) (OutOfRange start (length ts) reserved_end)) (\<lambda>_.
           bind_r (guard_r (write_end \<le> reserved_end) (OutOfRange start (length ts) reserved_end)) (\<lambda>_.
           Inr s)))))) \<noteq> Inr s'" for s'
      using Some by (auto simp: sm_seq_def bind_r_eq_Inr can_write_def)
    with False show ?thesis by (auto simp: write_tokens_def split: sum.splits)
  qed
qed

lemma seq_ok_mirror:
  assumes "seq_ok c gs s" and "mirror_ok gs (s\<lparr>ss_mirror := mir\<rparr>)"
    and "\<And>k. cp = Some k \<Longrightarrow> k \<le> ss_tail_len s"
  shows "seq_ok c gs (s\<lparr>ss_mirror := mir, ss_compacted := cp\<rparr>)"
  using assms by (simp add: seq_ok_def seq_shape_def table_ok_def mirror_ok_def)

lemma written_mirror_ok:
  assumes "seq_ok c gs s" and "ss_ctx_len s \<le> start" and "start + length ts \<le> ss_ctx_len s + ss_tail_len s"
  shows "mirror_ok gs (s\<lparr>ss_mirror := written gs start ts (ss_mirror s)\<rparr>)"
proof -
  have "p div 32 \<in> set (ss_indices s ! gi)"
    if "gi < length gs" "is_paged (lg_spec (gs ! gi))" "start \<le> p" "p < start + length ts" for gi p
    using tail_mapped [OF assms(1) that(1,2), of p] that assms(2,3) by linarith
  moreover have "mirror_ok gs s" using assms(1) by (simp add: seq_ok_def)
  ultimately show ?thesis by (simp add: mirror_ok_def written_def)
qed

lemma write_tokens_inv:
  assumes "sm_inv m"
  shows "sm_inv (snd (write_tokens m q start ts))"
proof (cases "can_write m q start ts")
  case True
  then obtain s where s: "sm_seqs m q = Some s" and c: "ss_ctx_len s \<le> start"
    "start + length ts \<le> ss_ctx_len s + ss_tail_len s"
    by (auto simp: can_write_def split: option.splits)
  let ?s = "s\<lparr>ss_mirror := written (sm_groups m) start ts (ss_mirror s)\<rparr>"
  note ok = sm_inv_seq [OF assms s]
  have "seq_ok (sm_config m) (sm_groups m) (s\<lparr>ss_mirror := written (sm_groups m) start ts (ss_mirror s),
      ss_compacted := ss_compacted s\<rparr>)"
    by (rule seq_ok_mirror [OF ok written_mirror_ok [OF ok c]]) (use ok in \<open>simp add: seq_ok_def\<close>)
  then have sok: "seq_ok (sm_config m) (sm_groups m) ?s" by simp
  have "sm_inv (m\<lparr>sm_seqs := (sm_seqs m)(q \<mapsto> ?s)\<rparr>)"
    by (rule sm_inv_update [OF assms s, where s' = ?s])
       (use sok keeps_cells_refl [of ?s s "sm_pools m" m] in simp_all)
  with True s show ?thesis by (subst write_tokens_eq [OF assms]) simp
qed (subst write_tokens_eq [OF assms], use assms in simp)

section \<open>Compaction\<close>

lemma compact_scan_None:
  "compact_scan tail seen ps = None \<longleftrightarrow> (\<forall>p \<in> set ps. p < tail) \<and> distinct ps \<and> set ps \<inter> set seen = {}"
  by (induction ps arbitrary: seen) auto

lemma distinct_bounded_length: "distinct xs \<Longrightarrow> \<forall>p \<in> set xs. p < n \<Longrightarrow> length xs \<le> (n::nat)"
proof -
  assume d: "distinct xs" and b: "\<forall>p \<in> set xs. p < n"
  have "length xs = card (set xs)" using d by (simp add: distinct_card)
  also have "\<dots> \<le> card {..<n}" by (rule card_mono) (use b in auto)
  finally show ?thesis by simp
qed

definition can_compact :: "state_manager \<Rightarrow> nat \<Rightarrow> nat list \<Rightarrow> bool" where
  "can_compact m q accepted = (case sm_seqs m q of
     None \<Rightarrow> False
   | Some s \<Rightarrow> 0 < ss_tail_len s \<and> length accepted \<le> MAX_COMPACT_TOKENS \<and> distinct accepted \<and>
       (\<forall>p \<in> set accepted. p < ss_tail_len s))"

definition compact_result :: "state_manager \<Rightarrow> nat \<Rightarrow> nat list \<Rightarrow> seq_state \<Rightarrow> compact_op state_result \<times> state_manager" where
  "compact_result m q accepted s =
     (let src = map ((+) (ss_ctx_len s)) accepted
      in (Inr \<lparr>co_seq = q, co_src = src @ replicate (MAX_COMPACT_TOKENS - length src) 0,
               co_dst_start = ss_ctx_len s, co_len = length accepted\<rparr>,
          m\<lparr>sm_seqs := (sm_seqs m)(q \<mapsto> s\<lparr>
              ss_mirror := compacted (sm_groups m) (ss_ctx_len s) src (ss_mirror s),
              ss_compacted := Some (length accepted)\<rparr>)\<rparr>))"

lemma compact_eq:
  assumes inv: "sm_inv m"
  shows "compact m q accepted =
    (if can_compact m q accepted then compact_result m q accepted (the (sm_seqs m q))
     else (Inl (projl (fst (compact m q accepted))), m))"
proof (cases "sm_seqs m q")
  case None
  then show ?thesis by (simp add: compact_def sm_seq_def can_compact_def)
next
  case (Some s)
  have len: "ss_ctx_len s + ss_tail_len s < 2 ^ 32" using seq_ok_len [OF inv Some] by simp
  show ?thesis
  proof (cases "can_compact m q accepted")
    case True
    with Some have c: "0 < ss_tail_len s" "length accepted \<le> MAX_COMPACT_TOKENS" "distinct accepted"
      "\<And>p. p \<in> set accepted \<Longrightarrow> p < ss_tail_len s" by (auto simp: can_compact_def)
    have sc: "compact_scan (ss_tail_len s) [] accepted = None" using c by (simp add: compact_scan_None)
    have src: "map_r (\<lambda>p. ok_or (Overflow ''compact source'') (checked_add 32 (ss_ctx_len s) p)) accepted =
        Inr (map ((+) (ss_ctx_len s)) accepted)"
      by (rule map_r_total) (use c(4) len in fastforce)
    have "length accepted \<le> ss_tail_len s" by (rule distinct_bounded_length) (use c in auto)
    then have dst: "map_r (\<lambda>i. ok_or (Overflow ''compact destination'') (checked_add 32 (ss_ctx_len s) i))
        [0..<length accepted] = Inr (map ((+) (ss_ctx_len s)) [0..<length accepted])"
      by (intro map_r_total) (use len in auto)
    from True Some c(1,2) show ?thesis
      by (simp add: compact_def sm_seq_def Let_def sc src dst fold_compact_group compact_result_def)
  next
    case False
    have "fst (compact m q accepted) \<noteq> Inr r" for r
      using False Some
      by (auto simp: compact_def sm_seq_def Let_def can_compact_def bind_r_def guard_r_def compact_scan_None
          split: sum.splits option.splits if_splits)
    moreover have "snd (compact m q accepted) = m" if "\<forall>r. fst (compact m q accepted) \<noteq> Inr r"
      using that by (auto simp: compact_def split: sum.splits prod.splits)
    ultimately show ?thesis using False by (metis prod.collapse sum.collapse(1) sum.exhaust_sel sum.disc(2))
  qed
qed

lemma compacted_mirror_ok:
  assumes "seq_ok c gs s" and "length src \<le> ss_tail_len s"
  shows "mirror_ok gs (s\<lparr>ss_mirror := compacted gs (ss_ctx_len s) src (ss_mirror s)\<rparr>)"
proof -
  have "p div 32 \<in> set (ss_indices s ! gi)"
    if "gi < length gs" "is_paged (lg_spec (gs ! gi))" "ss_ctx_len s \<le> p" "p < ss_ctx_len s + length src" for gi p
    using tail_mapped [OF assms(1) that(1,2,3)] that(4) assms(2) by linarith
  moreover have "mirror_ok gs s" using assms(1) by (simp add: seq_ok_def)
  ultimately show ?thesis by (auto simp: mirror_ok_def compacted_def)
qed

lemma compact_inv:
  assumes "sm_inv m"
  shows "sm_inv (snd (compact m q accepted))"
proof (cases "can_compact m q accepted")
  case True
  then obtain s where s: "sm_seqs m q = Some s" and d: "distinct accepted"
    and b: "\<forall>p \<in> set accepted. p < ss_tail_len s"
    by (auto simp: can_compact_def split: option.splits)
  let ?src = "map ((+) (ss_ctx_len s)) accepted"
  let ?s = "s\<lparr>ss_mirror := compacted (sm_groups m) (ss_ctx_len s) ?src (ss_mirror s),
      ss_compacted := Some (length accepted)\<rparr>"
  note ok = sm_inv_seq [OF assms s] and len = distinct_bounded_length [OF d b]
  have sok: "seq_ok (sm_config m) (sm_groups m) ?s"
    by (rule seq_ok_mirror [OF ok compacted_mirror_ok [OF ok]]) (use len in simp_all)
  have "sm_inv (m\<lparr>sm_seqs := (sm_seqs m)(q \<mapsto> ?s)\<rparr>)"
    by (rule sm_inv_update [OF assms s, where s' = ?s])
       (use sok keeps_cells_refl [of ?s s "sm_pools m" m] in simp_all)
  with True s show ?thesis by (subst compact_eq [OF assms]) (simp add: compact_result_def Let_def)
qed (subst compact_eq [OF assms], use assms in simp)

lemma tokens_geometry:
  assumes "sm_inv m"
  shows "same_geometry m (snd (write_tokens m q start ts))" and "same_geometry m (snd (compact m q accepted))"
  by (subst write_tokens_eq [OF assms], simp add: same_geometry_def)
     (subst compact_eq [OF assms], simp add: same_geometry_def compact_result_def Let_def)

end
