(* ===== verification/State_Commit.thy ===== *)
theory State_Commit
  imports State_Tokens
begin

text \<open>
  Committing a reserved tail: the eviction run of every windowed group is drained and its
  ids go back to the pool, the mirror forgets the evicted positions, the recurrent
  buffers swap, and the invariant is kept. On a well-formed manager no check of the
  eviction pass can fail, so the only refusals are the documented ones.
\<close>

section \<open>Draining a run\<close>

lemma take_drop_window:
  fixes f :: "'a \<Rightarrow> nat"
  assumes "ascending (map f zs)" and "lo \<le> hi"
  shows "takeWhile (\<lambda>x. f x < lo) zs @ dropWhile (\<lambda>x. f x < hi) zs = filter (\<lambda>x. f x < lo \<or> hi \<le> f x) zs"
  using assms
proof (induction zs)
  case (Cons z zs)
  show ?case
  proof (cases "f z < lo")
    case True
    with Cons show ?thesis by simp
  next
    case False
    with Cons.prems have lo: "\<forall>x \<in> set zs. \<not> f x < lo" by auto
    have "dropWhile (\<lambda>x. f x < hi) (z # zs) = filter (\<lambda>x. hi \<le> f x) (z # zs)"
      using Cons.prems(1)
    proof (induction "z # zs" arbitrary: z zs)
      case (Cons z zs)
      show ?case
      proof (cases "f z < hi")
        case True
        with Cons show ?thesis by (cases zs) auto
      next
        case False
        with Cons.prems have "\<forall>x \<in> set zs. hi \<le> f x" by auto
        with False show ?thesis by (simp add: filter_id_conv)
      qed
    qed
    moreover have "filter (\<lambda>x. f x < lo \<or> hi \<le> f x) (z # zs) = filter (\<lambda>x. hi \<le> f x) (z # zs)"
      using False lo by (intro filter_cong) auto
    ultimately show ?thesis using False by simp
  qed
qed simp

lemma remove_at_prefix: "a \<le> b \<Longrightarrow> b < length xs \<Longrightarrow> take a (remove_at b xs) = take a xs"
  by (simp add: remove_at_def)

lemma remove_at_suffix: "b < length xs \<Longrightarrow> drop b (remove_at b xs) = drop (Suc b) xs"
  by (simp add: remove_at_def)

lemma release_owned:
  assumes "bp_ok p" and "conserved (set (bp_free p)) (bp_total p) (add_mset i rest)"
  shows "bp_release p i = Inr (bp_give p i)" and "bp_ok (bp_give p i)"
    and "conserved (set (bp_free (bp_give p i))) (bp_total (bp_give p i)) rest"
    and "pool_geometry (bp_give p i) = pool_geometry p"
  using bp_release_ok [OF assms(1)] conserved_owned [OF assms(2), of i] bp.give_conserves [OF assms]
  by (simp_all add: pool_geometry_def)

lemma drain_run_ok:
  assumes "a \<le> b" and "b \<le> length ix" and "length tb = length ix" and "bp_ok p"
    and "conserved (set (bp_free p)) (bp_total p) (mset tb + rest)"
  shows "\<exists>p'. drain_run (rev [a..<b]) ix tb p = (Inr (), take a ix @ drop b ix, take a tb @ drop b tb, p') \<and>
    bp_ok p' \<and> conserved (set (bp_free p')) (bp_total p') (mset (take a tb @ drop b tb) + rest) \<and>
    pool_geometry p' = pool_geometry p"
  using assms
proof (induction b arbitrary: ix tb p rule: nat_induct)
  case 0
  then show ?case by simp
next
  case (Suc b)
  show ?case
  proof (cases "a = Suc b")
    case True
    with Suc.prems show ?thesis by simp
  next
    case False
    with Suc.prems have ab: "a \<le> b" and b: "b < length ix" "b < length tb" by auto
    have c: "conserved (set (bp_free p)) (bp_total p) (add_mset (tb ! b) (mset (remove_at b tb) + rest))"
      using Suc.prems(5) mset_remove_at [OF b(2)] by (simp flip: union_mset_add_mset_left)
    note r = release_owned [OF Suc.prems(4) c]
    have "\<exists>p'. drain_run (rev [a..<b]) (remove_at b ix) (remove_at b tb) (bp_give p (tb ! b)) =
          (Inr (), take a (remove_at b ix) @ drop b (remove_at b ix), take a (remove_at b tb) @ drop b (remove_at b tb), p') \<and>
        bp_ok p' \<and> conserved (set (bp_free p')) (bp_total p')
          (mset (take a (remove_at b tb) @ drop b (remove_at b tb)) + rest) \<and>
        pool_geometry p' = pool_geometry (bp_give p (tb ! b))"
      by (rule Suc.IH) (use ab b Suc.prems(3) r in simp_all)
    then show ?thesis
      using ab b r by (simp add: remove_at_prefix [OF ab b(1)] remove_at_prefix [OF ab b(2)]
          remove_at_suffix [OF b(1)] remove_at_suffix [OF b(2)])
  qed
qed

definition window_run :: "nat \<Rightarrow> nat \<Rightarrow> nat list \<Rightarrow> nat list" where
  "window_run lo hi ix = [partition_point (\<lambda>i. i < lo) ix..<partition_point (\<lambda>i. i < hi) ix]"

lemma partition_point_mono: "lo \<le> hi \<Longrightarrow> partition_point (\<lambda>i. i < lo) ix \<le> partition_point (\<lambda>i. i < (hi::nat)) ix"
  unfolding partition_point_def
  by (induction ix) auto

lemma zip_window:
  fixes ix :: "nat list"
  assumes "ascending ix" and "length tb = length ix" and "lo \<le> hi"
  shows "zip (take (partition_point (\<lambda>i. i < lo) ix) ix @ drop (partition_point (\<lambda>i. i < hi) ix) ix)
     (take (partition_point (\<lambda>i. i < lo) ix) tb @ drop (partition_point (\<lambda>i. i < hi) ix) tb) =
     filter (\<lambda>z. fst z < lo \<or> hi \<le> fst z) (zip ix tb)"
proof -
  let ?z = "zip ix tb"
  have pp: "partition_point (\<lambda>i. i < k) ix = length (takeWhile (\<lambda>z. fst z < k) ?z)" for k
  proof -
    have "takeWhile (\<lambda>i. i < k) (map fst ?z) = map fst (takeWhile (\<lambda>z. fst z < k) ?z)"
      by (simp add: takeWhile_map comp_def)
    then show ?thesis using assms(2) by (simp add: partition_point_def)
  qed
  have asc: "ascending (map fst ?z)" using assms(1,2) by simp
  have "zip (take (partition_point (\<lambda>i. i < lo) ix) ix @ drop (partition_point (\<lambda>i. i < hi) ix) ix)
     (take (partition_point (\<lambda>i. i < lo) ix) tb @ drop (partition_point (\<lambda>i. i < hi) ix) tb) =
     take (partition_point (\<lambda>i. i < lo) ix) ?z @ drop (partition_point (\<lambda>i. i < hi) ix) ?z"
    using assms(2) by (simp add: take_zip drop_zip)
  also have "\<dots> = takeWhile (\<lambda>z. fst z < lo) ?z @ dropWhile (\<lambda>z. fst z < hi) ?z"
    by (simp add: pp takeWhile_eq_take [symmetric] dropWhile_eq_drop [symmetric])
  also have "\<dots> = filter (\<lambda>z. fst z < lo \<or> hi \<le> fst z) ?z" by (rule take_drop_window [OF asc assms(3)])
  finally show ?thesis .
qed

section \<open>Evicting one group\<close>

definition evict_block :: "nat \<Rightarrow> nat \<Rightarrow> nat \<Rightarrow> seq_state \<Rightarrow> seq_state" where
  "evict_block gi lo hi s =
     (let ix = ss_indices s ! gi; tb = ss_tables s ! gi;
          a = partition_point (\<lambda>i. i < lo) ix; b = partition_point (\<lambda>i. i < hi) ix
      in s\<lparr>ss_indices := (ss_indices s)[gi := take a ix @ drop b ix],
           ss_tables := (ss_tables s)[gi := take a tb @ drop b tb],
           ss_mirror := mirror_evict gi lo hi (ss_mirror s)\<rparr>)"

text \<open>What evicting the groups in \<open>D\<close> establishes.\<close>

definition shrunk :: "nat set \<Rightarrow> nat \<Rightarrow> layer_group list \<Rightarrow> block_pool option list \<Rightarrow> seq_state \<Rightarrow>
    block_pool option list \<Rightarrow> seq_state \<Rightarrow> bool" where
  "shrunk D ctx gs pools s pools' s' \<longleftrightarrow>
     s' = s\<lparr>ss_indices := ss_indices s', ss_tables := ss_tables s', ss_mirror := ss_mirror s'\<rparr> \<and>
     tables_ok (length gs) s' \<and>
     map (map_option pool_geometry) pools' = map (map_option pool_geometry) pools \<and>
     (\<forall>gi p. ss_mirror s' (gi, p) =
        (if gi \<in> D \<and> evicted ctx (gs ! gi) (p div 32) then None else ss_mirror s (gi, p))) \<and>
     (\<forall>gi < length gs.
        set (ss_indices s' ! gi) = {b \<in> set (ss_indices s ! gi). \<not> (gi \<in> D \<and> evicted ctx (gs ! gi) b)} \<and>
        block_map s' gi = block_map s gi |` {b. \<not> (gi \<in> D \<and> evicted ctx (gs ! gi) b)} \<and>
        (\<forall>mb rest. cell_ok mb rest gi s (pools ! gi) \<longrightarrow> cell_ok mb rest gi s' (pools' ! gi)))"

lemma shrunk_cells:
  "shrunk D ctx gs pools s pools' s' \<Longrightarrow> gi < length gs \<Longrightarrow> cell_ok mb rest gi s (pools ! gi) \<Longrightarrow>
   cell_ok mb rest gi s' (pools' ! gi)"
  by (simp add: shrunk_def)

lemma shrunk_refl:
  assumes "tables_ok (length gs) s" and "\<forall>gi \<in> D. \<forall>b. \<not> evicted ctx (gs ! gi) b"
  shows "shrunk D ctx gs pools s pools s"
proof -
  have "block_map s gi |` {b. \<not> (gi \<in> D \<and> evicted ctx (gs ! gi) b)} = block_map s gi" for gi
    using assms(2) by (auto simp: restrict_map_def fun_eq_iff)
  then show ?thesis using assms by (auto simp: shrunk_def)
qed

lemma shrunk_trans:
  assumes "shrunk D ctx gs pools s pools' s'" and "shrunk E ctx gs pools' s' pools'' s''"
  shows "shrunk (D \<union> E) ctx gs pools s pools'' s''"
proof -
  have a: "s' = s\<lparr>ss_indices := ss_indices s', ss_tables := ss_tables s', ss_mirror := ss_mirror s'\<rparr>"
    and b: "s'' = s'\<lparr>ss_indices := ss_indices s'', ss_tables := ss_tables s'', ss_mirror := ss_mirror s''\<rparr>"
    using assms by (simp_all add: shrunk_def)
  have "s'' = s\<lparr>ss_indices := ss_indices s'', ss_tables := ss_tables s'', ss_mirror := ss_mirror s''\<rparr>"
    by (subst b, subst a) simp
  moreover have "{b. \<not> (gi \<in> D \<and> evicted ctx (gs ! gi) b)} \<inter> {b. \<not> (gi \<in> E \<and> evicted ctx (gs ! gi) b)} =
      {b. \<not> (gi \<in> D \<union> E \<and> evicted ctx (gs ! gi) b)}" for gi by auto
  ultimately show ?thesis
    using assms unfolding shrunk_def by (auto simp del: Un_iff)
qed

lemma evict_block_shrunk:
  assumes tb: "tables_ok (length gs) s" and gi: "gi < length gs" and len: "length pools = length gs"
    and ev: "\<And>b. evicted ctx (gs ! gi) b \<longleftrightarrow> lo \<le> b \<and> b < hi" and lohi: "lo \<le> hi"
    and p: "pools ! gi = Some p" and cell: "cell_ok mb0 rest0 gi s (pools ! gi)"
  shows "\<exists>p'. drain_run (rev (window_run lo hi (ss_indices s ! gi))) (ss_indices s ! gi) (ss_tables s ! gi) p =
      (Inr (), ss_indices (evict_block gi lo hi s) ! gi, ss_tables (evict_block gi lo hi s) ! gi, p') \<and>
    shrunk {gi} ctx gs pools s (pools[gi := Some p']) (evict_block gi lo hi s)"
proof -
  let ?ix = "ss_indices s ! gi" and ?tb = "ss_tables s ! gi" and ?s = "evict_block gi lo hi s"
  let ?a = "partition_point (\<lambda>i. i < lo) ?ix" and ?b = "partition_point (\<lambda>i. i < hi) ?ix"
  have asc: "ascending ?ix" and lt: "length ?tb = length ?ix" and l: "gi < length (ss_indices s)" "gi < length (ss_tables s)"
    using tb gi by (auto simp: tables_ok_def)
  have new: "ss_indices ?s ! gi = take ?a ?ix @ drop ?b ?ix" "ss_tables ?s ! gi = take ?a ?tb @ drop ?b ?tb"
    using l by (simp_all add: evict_block_def Let_def)
  have other: "ss_indices ?s ! gj = ss_indices s ! gj" "ss_tables ?s ! gj = ss_tables s ! gj" if "gj \<noteq> gi" for gj
    using that by (simp_all add: evict_block_def Let_def)
  have ab: "?a \<le> ?b" by (rule partition_point_mono [OF lohi])
  have ok: "bp_ok p" and c0: "conserved (set (bp_free p)) (bp_total p) (mset ?tb + rest0)"
    using cell p by (auto simp: cell_ok_def table_ids_def)
  obtain p' where d: "drain_run (rev [?a..<?b]) ?ix ?tb p = (Inr (), take ?a ?ix @ drop ?b ?ix, take ?a ?tb @ drop ?b ?tb, p')"
    and geo: "pool_geometry p' = pool_geometry p"
    using drain_run_ok [OF ab partition_point_le lt ok c0] by blast
  have cells: "cell_ok mb rest gi ?s (Some p')" if "cell_ok mb rest gi s (Some p)" for mb rest
  proof -
    have c: "conserved (set (bp_free p)) (bp_total p) (mset ?tb + rest)" and t: "mb \<le> bp_total p" "bp_total p \<le> MAX_SLOT_BLOCKS"
      using that by (auto simp: cell_ok_def table_ids_def)
    from drain_run_ok [OF ab partition_point_le lt ok c] d geo t show ?thesis
      by (auto simp: cell_ok_def table_ids_def new pool_geometry_def)
  qed
  have zip: "zip (ss_indices ?s ! gi) (ss_tables ?s ! gi) = filter (\<lambda>z. fst z < lo \<or> hi \<le> fst z) (zip ?ix ?tb)"
    unfolding new by (rule zip_window [OF asc lt lohi])
  have len': "length (ss_tables ?s ! gi) = length (ss_indices ?s ! gi)" using lt by (simp add: new)
  have ix': "ss_indices ?s ! gi = filter (\<lambda>b. b < lo \<or> hi \<le> b) ?ix"
  proof -
    have "ss_indices ?s ! gi = map fst (zip (ss_indices ?s ! gi) (ss_tables ?s ! gi))" using len' by simp
    also have "\<dots> = filter (\<lambda>b. b < lo \<or> hi \<le> b) (map fst (zip ?ix ?tb))" unfolding zip by (simp add: filter_map comp_def)
    finally show ?thesis using lt by simp
  qed
  have bm: "block_map ?s gi = block_map s gi |` {b. \<not> evicted ctx (gs ! gi) b}"
  proof
    fix b
    have "map_of (filter (\<lambda>z. fst z < lo \<or> hi \<le> fst z) zs) b = (if b < lo \<or> hi \<le> b then map_of zs b else None)"
      for zs :: "(nat \<times> nat) list" by (induction zs) auto
    then show "block_map ?s gi b = (block_map s gi |` {b. \<not> evicted ctx (gs ! gi) b}) b"
      unfolding block_map_def zip by (auto simp: ev restrict_map_def)
  qed
  have "shrunk {gi} ctx gs pools s (pools[gi := Some p']) ?s"
    unfolding shrunk_def
  proof (intro conjI allI impI)
    show "?s = s\<lparr>ss_indices := ss_indices ?s, ss_tables := ss_tables ?s, ss_mirror := ss_mirror ?s\<rparr>"
      by (simp add: evict_block_def Let_def)
    have "ascending (ss_indices ?s ! gj) \<and> length (ss_tables ?s ! gj) = length (ss_indices ?s ! gj)"
      if "gj < length gs" for gj
      by (cases "gj = gi") (use that asc tb len' in \<open>auto simp: ix' other tables_ok_def sorted_wrt_filter\<close>)
    then show "tables_ok (length gs) ?s" using tb by (simp add: tables_ok_def evict_block_def Let_def)
    show "map (map_option pool_geometry) (pools[gi := Some p']) = map (map_option pool_geometry) pools"
      using geo p gi len by (simp add: map_update list_update_same_conv)
    show "ss_mirror ?s (gj, q) = (if gj \<in> {gi} \<and> evicted ctx (gs ! gj) (q div 32) then None else ss_mirror s (gj, q))" for gj q
      by (auto simp: evict_block_def Let_def mirror_evict_def ev)
    fix gj assume gj: "gj < length gs"
    show "set (ss_indices ?s ! gj) = {b \<in> set (ss_indices s ! gj). \<not> (gj \<in> {gi} \<and> evicted ctx (gs ! gj) b)}"
      by (cases "gj = gi") (auto simp: ix' other ev)
    show "block_map ?s gj = block_map s gj |` {b. \<not> (gj \<in> {gi} \<and> evicted ctx (gs ! gj) b)}"
      by (cases "gj = gi") (simp_all add: bm, simp add: block_map_def other restrict_map_def)
    show "cell_ok mb rest gj ?s (pools[gi := Some p'] ! gj)" if "cell_ok mb rest gj s (pools ! gj)" for mb rest
    proof (cases "gj = gi")
      case True
      with that p have "cell_ok mb rest gi s (Some p)" by simp
      from cells [OF this] True gi len show ?thesis by simp
    qed (use that in \<open>simp add: cell_ok_def table_ids_def other\<close>)
  qed
  with d new show ?thesis unfolding window_run_def by auto
qed

section \<open>The eviction passes\<close>

lemma evict_range_cases:
  "snd (evict_range ctx g) \<le> fst (evict_range ctx g) \<Longrightarrow> \<not> evicted ctx g b"
  by (simp add: evicted_def)

lemma evict_range_paged: "fst (evict_range ctx g) < snd (evict_range ctx g) \<Longrightarrow> is_paged (lg_spec g)"
  using spec_retain_None_iff [of "lg_spec g"] by (auto simp: evict_range_def split: option.splits)

lemma evict_groups_ok:
  assumes "tables_ok (length gs) s" and "length pools = length gs"
    and "\<And>gi. gi < length gs \<Longrightarrow> is_paged (lg_spec (gs ! gi)) \<Longrightarrow> \<exists>mb rest. cell_ok mb rest gi s (pools ! gi)"
    and "\<And>gi g. (gi, g) \<in> set xs \<Longrightarrow> gi < length gs \<and> g = gs ! gi"
  shows "\<exists>s' pools'. evict_groups ctx xs s pools = (Inr (), s', pools') \<and> shrunk (fst ` set xs) ctx gs pools s pools' s'"
  using assms
proof (induction xs arbitrary: s pools)
  case Nil
  then show ?case using shrunk_refl [of gs s "{}"] by simp
next
  case (Cons x xs)
  obtain gi g where x: "x = (gi, g)" by (cases x)
  have gi: "gi < length gs" and g: "g = gs ! gi" using Cons.prems(4) x by auto
  obtain lo hi where r: "evict_range ctx g = (lo, hi)" by (cases "evict_range ctx g")
  show ?case
  proof (cases "hi \<le> lo")
    case True
    have s0: "shrunk {gi} ctx gs pools s pools s"
      by (rule shrunk_refl [OF Cons.prems(1)]) (use True r g in \<open>auto simp: evicted_def\<close>)
    have "\<exists>s' pools'. evict_groups ctx xs s pools = (Inr (), s', pools') \<and> shrunk (fst ` set xs) ctx gs pools s pools' s'"
      by (rule Cons.IH) (use Cons.prems in auto)
    then obtain s' pools' where e: "evict_groups ctx xs s pools = (Inr (), s', pools')"
        "shrunk (fst ` set xs) ctx gs pools s pools' s'" by blast
    from shrunk_trans [OF s0 e(2)] e(1) True show ?thesis by (simp add: x r)
  next
    case False
    then have lohi: "lo \<le> hi" by simp
    have pg: "is_paged (lg_spec g)" using evict_range_paged [of ctx g] False r by simp
    then obtain mb rest where cell: "cell_ok mb rest gi s (pools ! gi)" using Cons.prems(3) gi g by blast
    then obtain p where p: "pools ! gi = Some p" by (auto simp: cell_ok_def)
    have ev: "evicted ctx (gs ! gi) b \<longleftrightarrow> lo \<le> b \<and> b < hi" for b using r g by (simp add: evicted_def)
    let ?s = "evict_block gi lo hi s"
    obtain p' where d: "drain_run (rev (window_run lo hi (ss_indices s ! gi))) (ss_indices s ! gi) (ss_tables s ! gi) p =
        (Inr (), ss_indices ?s ! gi, ss_tables ?s ! gi, p')"
      and sh: "shrunk {gi} ctx gs pools s (pools[gi := Some p']) ?s"
      using evict_block_shrunk [OF Cons.prems(1) gi Cons.prems(2) ev lohi p cell] by blast
    have "\<exists>s' pools'. evict_groups ctx xs ?s (pools[gi := Some p']) = (Inr (), s', pools') \<and>
        shrunk (fst ` set xs) ctx gs (pools[gi := Some p']) ?s pools' s'"
    proof (rule Cons.IH)
      show "tables_ok (length gs) ?s" using sh by (simp add: shrunk_def)
      show "\<exists>mb rest. cell_ok mb rest gj ?s (pools[gi := Some p'] ! gj)"
        if "gj < length gs" "is_paged (lg_spec (gs ! gj))" for gj
        using Cons.prems(3) [OF that] shrunk_cells [OF sh that(1)] by blast
    qed (use Cons.prems in auto)
    then obtain s' pools' where e: "evict_groups ctx xs ?s (pools[gi := Some p']) = (Inr (), s', pools')"
        "shrunk (fst ` set xs) ctx gs (pools[gi := Some p']) ?s pools' s'" by blast
    have gets: "get (ss_indices s) gi = Some (ss_indices s ! gi)" "slot_at pools gi = Some p"
      "get (ss_tables s) gi = Some (ss_tables s ! gi)"
      using gi p Cons.prems(1,2) by (auto simp: tables_ok_def)
    have seq: "s\<lparr>ss_indices := (ss_indices s)[gi := ss_indices ?s ! gi],
        ss_tables := (ss_tables s)[gi := ss_tables ?s ! gi],
        ss_mirror := mirror_evict gi lo hi (ss_mirror s)\<rparr> = ?s"
      using gi Cons.prems(1) by (simp add: evict_block_def Let_def tables_ok_def)
    have "evict_groups ctx (x # xs) s pools = evict_groups ctx xs ?s (pools[gi := Some p'])"
      unfolding x evict_groups.simps r Let_def prod.case gets option.case
      using False pg d [unfolded window_run_def] seq by simp
    with e shrunk_trans [OF sh e(2)] show ?thesis by (simp add: x)
  qed
qed

lemma check_evict_ids_ok:
  assumes "bp_ok p" and "\<And>at. at \<in> set ats \<Longrightarrow> at < length tb"
    and "conserved (set (bp_free p)) (bp_total p) (mset tb + rest)"
  shows "check_evict_ids q p tb ats = Inr ()"
  using assms
proof (induction ats)
  case (Cons at ats)
  then have at: "at < length tb" by simp
  then have "tb ! at \<in># mset tb + rest" by simp
  note o = conserved_owned [OF Cons.prems(3) this]
  from Cons at o show ?case by (simp add: bp_contains_iff bind_r_eq_Inr get_def)
qed simp

lemma check_evict_ok:
  assumes "tables_ok (length gs) s" and "length pools = length gs"
    and "\<And>gi. gi < length gs \<Longrightarrow> is_paged (lg_spec (gs ! gi)) \<Longrightarrow> \<exists>mb rest. cell_ok mb rest gi s (pools ! gi)"
    and "\<And>gi g. (gi, g) \<in> set xs \<Longrightarrow> gi < length gs \<and> g = gs ! gi"
  shows "check_evict q ctx pools s xs = Inr ()"
  using assms(4)
proof (induction xs)
  case (Cons x xs)
  obtain gi g where x: "x = (gi, g)" by (cases x)
  have gi: "gi < length gs" and g: "g = gs ! gi" using Cons.prems x by auto
  have ih: "check_evict q ctx pools s xs = Inr ()" by (rule Cons.IH) (use Cons.prems in auto)
  obtain lo hi where r: "evict_range ctx g = (lo, hi)" by (cases "evict_range ctx g")
  show ?case
  proof (cases "hi \<le> lo")
    case False
    have pg: "is_paged (lg_spec g)" using evict_range_paged [of ctx g] False r by simp
    then obtain mb rest where "cell_ok mb rest gi s (pools ! gi)" using assms(3) gi g by blast
    then obtain p where p: "pools ! gi = Some p" "bp_ok p"
        "conserved (set (bp_free p)) (bp_total p) (mset (ss_tables s ! gi) + rest)"
      by (auto simp: cell_ok_def table_ids_def)
    have lt: "length (ss_tables s ! gi) = length (ss_indices s ! gi)"
      and l: "get (ss_indices s) gi = Some (ss_indices s ! gi)" "slot_at pools gi = Some p"
        "get (ss_tables s) gi = Some (ss_tables s ! gi)"
      using assms(1,2) gi p by (auto simp: tables_ok_def)
    have "check_evict_ids q p (ss_tables s ! gi) [partition_point (\<lambda>i. i < lo) (ss_indices s ! gi)..<
        partition_point (\<lambda>i. i < hi) (ss_indices s ! gi)] = Inr ()"
      by (rule check_evict_ids_ok [OF p(2) _ p(3)])
         (use lt partition_point_le [of "\<lambda>i. i < hi" "ss_indices s ! gi"] in \<open>simp del: partition_point_le\<close>)
    with ih pg False show ?thesis
      unfolding x check_evict.simps r Let_def prod.case l ok_or_simps bind_r_simps by simp
  qed (use ih in \<open>simp add: x r\<close>)
qed simp

section \<open>Committing\<close>

lemma evicted_mono: "ctx \<le> ctx' \<Longrightarrow> evicted ctx g b \<Longrightarrow> evicted ctx' g b"
proof -
  assume le: "ctx \<le> ctx'" and e: "evicted ctx g b"
  then obtain r w where r: "spec_retain (lg_spec g) = Some r" "retain_window r = Some w"
    and b: "sink_blocks r \<le> b" "b < window_start_of ctx w div 32"
    by (auto simp: evicted_def evict_range_def Let_def split: option.splits if_splits)
  have "window_start_of ctx w div 32 \<le> window_start_of ctx' w div 32"
    by (rule div_le_mono) (use le in \<open>simp add: window_start_of_def diff_le_mono\<close>)
  with r b show ?thesis by (simp add: evicted_def evict_range_def Let_def)
qed

lemma flip_parity_nth:
  assumes "map lg_index gs = [k..<k + length gs]" and "k + length gs \<le> length ps" and "j < length ps"
  shows "flip_parity gs ps ! j =
    (if k \<le> j \<and> j < k + length gs \<and> \<not> is_paged (lg_spec (gs ! (j - k))) then xor (ps ! j) 1 else ps ! j)
    \<and> length (flip_parity gs ps) = length ps"
  using assms
proof (induction gs arbitrary: k ps)
  case (Cons g gs)
  let ?ps = "if is_recurrent (lg_spec g) then ps[lg_index g := xor (ps ! lg_index g) 1] else ps"
  have k: "lg_index g = k" and tl: "map lg_index gs = [Suc k..<Suc k + length gs]"
    using Cons.prems(1) by (simp_all add: upt_conv_Cons del: upt_Suc)
  have f: "flip_parity (g # gs) ps = flip_parity gs ?ps" by (simp add: flip_parity_def)
  have "flip_parity gs ?ps ! j =
      (if Suc k \<le> j \<and> j < Suc k + length gs \<and> \<not> is_paged (lg_spec (gs ! (j - Suc k))) then xor (?ps ! j) 1 else ?ps ! j)
      \<and> length (flip_parity gs ?ps) = length ?ps"
    by (rule Cons.IH [OF tl]) (use Cons.prems in auto)
  then show ?case
    unfolding f using k Cons.prems(2,3) by (cases "j = k") (auto simp: nth_Cons')
qed (simp add: flip_parity_def)

lemma flip_parity_eq:
  assumes "groups_ok gs" and "length ps = length gs"
  shows "flip_parity gs ps = map (\<lambda>j. if is_paged (lg_spec (gs ! j)) then ps ! j else xor (ps ! j) 1) [0..<length gs]"
proof (rule nth_equalityI)
  have idx: "map lg_index gs = [0..<0 + length gs]" using assms(1) by (simp add: groups_ok_def)
  show "length (flip_parity gs ps) = length (map (\<lambda>j. if is_paged (lg_spec (gs ! j)) then ps ! j else xor (ps ! j) 1) [0..<length gs])"
    using flip_parity_nth [OF idx, of ps 0] assms(2) by (cases gs) (auto simp: flip_parity_def)
  then show "flip_parity gs ps ! j = map (\<lambda>j. if is_paged (lg_spec (gs ! j)) then ps ! j else xor (ps ! j) 1) [0..<length gs] ! j"
    if "j < length (flip_parity gs ps)" for j
    using flip_parity_nth [OF idx, of ps j] that assms(2) by simp
qed

definition can_commit :: "state_manager \<Rightarrow> nat \<Rightarrow> nat \<Rightarrow> bool" where
  "can_commit m q accepted = (case sm_seqs m q of
     None \<Rightarrow> False
   | Some s \<Rightarrow> 0 < ss_tail_len s \<and> accepted \<le> ss_tail_len s \<and>
       (ss_compacted s = None \<or> ss_compacted s = Some accepted) \<and> sm_commits m + 1 < 2 ^ 64 \<and>
       (accepted > 0 \<and> (\<exists>g \<in> set (sm_groups m). \<not> is_paged (lg_spec g)) \<longrightarrow> sm_swaps m + 1 < 2 ^ 64))"

definition swaps_on :: "state_manager \<Rightarrow> nat \<Rightarrow> bool" where
  "swaps_on m accepted \<longleftrightarrow> accepted > 0 \<and> (\<exists>g \<in> set (sm_groups m). \<not> is_paged (lg_spec g))"

lemma seq_cells:
  assumes "sm_inv m" and "sm_seqs m q = Some s" and "gi < length (sm_groups m)"
    and "is_paged (lg_spec (sm_groups m ! gi))"
  shows "\<exists>mb rest. cell_ok mb rest gi s (sm_pools m ! gi)"
proof -
  have "paged_ok (sm_seqs m) (sm_max_blocks m) gi (sm_pools m ! gi)"
    using assms by (auto simp: sm_inv_def pools_ok_def)
  then show ?thesis using paged_ok_cell' [OF sm_inv_finite [OF assms(1)] assms(2)] by blast
qed

lemma commit_checks_iff:
  assumes inv: "sm_inv m"
  shows "commit_checks m q accepted =
    (if can_commit m q accepted
     then Inr (the (sm_seqs m q), ss_ctx_len (the (sm_seqs m q)) + accepted, sm_commits m + 1,
               if swaps_on m accepted then Some (sm_swaps m + 1) else None)
     else Inl (projl (commit_checks m q accepted)))"
proof (cases "sm_seqs m q")
  case None
  then show ?thesis by (simp add: commit_checks_def sm_seq_def can_commit_def)
next
  case (Some s)
  have ev: "check_evict q ctx (sm_pools m) s (List.enumerate 0 (sm_groups m)) = Inr ()" for ctx
    by (rule check_evict_ok [OF seq_ok_tables [OF sm_inv_seq [OF inv Some]] sm_inv_static(4) [OF inv]])
       (use seq_cells [OF inv Some] in \<open>auto simp: in_set_enumerate_eq\<close>)
  have len: "ss_ctx_len s + ss_tail_len s < 2 ^ 32" using seq_ok_len [OF inv Some] by simp
  show ?thesis
  proof (cases "can_commit m q accepted")
    case True
    with Some len have c: "ss_ctx_len s + accepted < 2 ^ 32" by (auto simp: can_commit_def)
    have e: "(\<exists>g \<in> set (sm_groups m). is_recurrent (lg_spec g)) \<longleftrightarrow> (\<exists>g \<in> set (sm_groups m). \<not> is_paged (lg_spec g))" by simp
    from True Some c show ?thesis
      unfolding commit_checks_def e
      by (auto simp: sm_seq_def can_commit_def swaps_on_def ev checked_add_def)
  next
    case False
    have "commit_checks m q accepted \<noteq> Inr r" for r
      using False Some
      by (cases r) (auto simp: commit_checks_def sm_seq_def can_commit_def bind_r_eq_Inr split: option.splits if_splits)
    then show ?thesis using False by (cases "commit_checks m q accepted") auto
  qed
qed

lemma seq_ok_commit:
  assumes ok: "seq_ok c gs s" and acc: "accepted \<le> ss_tail_len s"
    and sh: "shrunk {..<length gs} (ss_ctx_len s + accepted) gs pools
        (s\<lparr>ss_ctx_len := ss_ctx_len s + accepted, ss_tail_len := 0, ss_compacted := None\<rparr>) pools' s'"
    and par: "length ps = length gs" "set ps \<subseteq> {0, 1}"
  shows "seq_ok c gs (s'\<lparr>ss_parity := ps\<rparr>)"
proof -
  let ?ctx = "ss_ctx_len s + accepted"
  let ?s0 = "s\<lparr>ss_ctx_len := ?ctx, ss_tail_len := 0, ss_compacted := None\<rparr>"
  have s': "s' = ?s0\<lparr>ss_indices := ss_indices s', ss_tables := ss_tables s', ss_mirror := ss_mirror s'\<rparr>"
    and tb: "tables_ok (length gs) s'" using sh by (simp_all add: shrunk_def)
  have f: "ss_ctx_len s' = ?ctx" "ss_tail_len s' = 0" "ss_compacted s' = None" "ss_fixed_slots s' = ss_fixed_slots s"
    by (subst s', simp)+
  have set': "set (ss_indices s' ! gi) = {b \<in> set (ss_indices s ! gi). \<not> evicted ?ctx (gs ! gi) b}" if "gi < length gs" for gi
    using sh that by (simp add: shrunk_def)
  have mir: "ss_mirror s' (gi, p) = (if gi < length gs \<and> evicted ?ctx (gs ! gi) (p div 32) then None else ss_mirror s (gi, p))" for gi p
    using sh by (simp add: shrunk_def)
  have "table_ok c (gs ! gi) gi (s'\<lparr>ss_parity := ps\<rparr>)" if gi: "gi < length gs" for gi
  proof -
    note old = seq_ok_table [OF ok gi]
    have "b \<in> set (ss_indices s ! gi) \<or> evicted ?ctx (gs ! gi) b"
      if "b < div_ceil ?ctx 32" "is_paged (lg_spec (gs ! gi))" for b
    proof -
      have "b < div_ceil (ss_ctx_len s + ss_tail_len s) 32" using that(1) acc by (simp add: less_div_ceil_iff)
      with old that(2) have "b \<in> set (ss_indices s ! gi) \<or> evicted (ss_ctx_len s) (gs ! gi) b" by (simp add: table_ok_def)
      then show ?thesis using evicted_mono [of "ss_ctx_len s" ?ctx] by auto
    qed
    moreover have "ss_indices s' ! gi = []" if "\<not> is_paged (lg_spec (gs ! gi))"
      using set' [OF gi] seq_ok_unpaged [OF ok gi that] by simp
    ultimately show ?thesis
      using old tb gi f by (auto simp: table_ok_def set' [OF gi] tables_ok_def)
  qed
  moreover have "mirror_ok gs (s'\<lparr>ss_parity := ps\<rparr>)"
    using ok set' by (auto simp: mirror_ok_def mir seq_ok_def split: if_splits)
  ultimately show ?thesis
    using ok f acc par tb by (simp add: seq_ok_def seq_shape_def tables_ok_def)
qed

definition parity_after :: "state_manager \<Rightarrow> nat \<Rightarrow> seq_state \<Rightarrow> nat list" where
  "parity_after m accepted s =
     (if swaps_on m accepted then flip_parity (sm_groups m) (ss_parity s) else ss_parity s)"

lemma parity_after_ok:
  assumes "groups_ok (sm_groups m)" and "seq_shape (length (sm_groups m)) s"
  shows "length (parity_after m accepted s) = length (sm_groups m) \<and> set (parity_after m accepted s) \<subseteq> {0, 1}"
proof -
  have ps: "length (ss_parity s) = length (sm_groups m)" "set (ss_parity s) \<subseteq> {0, 1}"
    using assms(2) by (simp_all add: seq_shape_def)
  have "ss_parity s ! j \<in> {0, 1}" if "j < length (sm_groups m)" for j
    using ps(2) nth_mem [of j "ss_parity s"] that unfolding ps(1) by blast
  then have flip: "(if is_paged (lg_spec (sm_groups m ! j)) then ss_parity s ! j else xor (ss_parity s ! j) 1) \<in> {0, 1}"
    if "j < length (sm_groups m)" for j using that by fastforce
  have "set (flip_parity (sm_groups m) (ss_parity s)) \<subseteq> {0, 1}"
    unfolding flip_parity_eq [OF assms(1) ps(1)] set_map image_subset_iff
    by (intro ballI flip) simp
  then show ?thesis
    using ps by (simp add: parity_after_def) (simp add: flip_parity_eq [OF assms(1) ps(1)])
qed

theorem commit_success:
  assumes inv: "sm_inv m" and can: "can_commit m q accepted"
  obtains s s' m' where "sm_seqs m q = Some s" and "commit m q accepted = (Inr (), m')" and "sm_inv m'"
    and "same_geometry m m'" and "sm_seqs m' = (sm_seqs m)(q \<mapsto> s')"
    and "ss_ctx_len s' = ss_ctx_len s + accepted" and "ss_tail_len s' = 0" and "ss_compacted s' = None"
    and "ss_fixed_slots s' = ss_fixed_slots s" and "ss_parity s' = parity_after m accepted s"
    and "\<forall>gi < length (sm_groups m). block_map s' gi =
        block_map s gi |` {b. \<not> evicted (ss_ctx_len s') (sm_groups m ! gi) b}"
    and "\<forall>gi p. ss_mirror s' (gi, p) =
        (if gi < length (sm_groups m) \<and> evicted (ss_ctx_len s') (sm_groups m ! gi) (p div 32) then None
         else ss_mirror s (gi, p))"
    and "sm_commits m' = sm_commits m + 1" and "sm_swaps m' = (if swaps_on m accepted then sm_swaps m + 1 else sm_swaps m)"
    and "m' = m\<lparr>sm_seqs := sm_seqs m', sm_pools := sm_pools m', sm_commits := sm_commits m', sm_swaps := sm_swaps m'\<rparr>"
proof -
  obtain s where s: "sm_seqs m q = Some s" and acc: "accepted \<le> ss_tail_len s"
    using can by (auto simp: can_commit_def split: option.splits)
  let ?gs = "sm_groups m" and ?ctx = "ss_ctx_len s + accepted"
  let ?s0 = "s\<lparr>ss_ctx_len := ?ctx, ss_tail_len := 0, ss_compacted := None\<rparr>"
  note ok = sm_inv_seq [OF inv s] and st = sm_inv_static [OF inv]
  have t0: "tables_ok (length ?gs) ?s0" using seq_ok_tables [OF ok] by (simp add: tables_ok_def)
  have cells0: "cell_ok mb rest gi ?s0 po = cell_ok mb rest gi s po" for mb rest gi po
    by (simp add: cell_ok_def table_ids_def)
  have "\<exists>s' pools'. evict_groups ?ctx (List.enumerate 0 ?gs) ?s0 (sm_pools m) = (Inr (), s', pools') \<and>
      shrunk (fst ` set (List.enumerate 0 ?gs)) ?ctx ?gs (sm_pools m) ?s0 pools' s'"
    by (rule evict_groups_ok [OF t0 st(4)])
       (use seq_cells [OF inv s] in \<open>auto simp: in_set_enumerate_eq cells0\<close>)
  moreover have "fst ` set (List.enumerate 0 ?gs) = {..<length ?gs}"
    by (metis atLeast0LessThan list.set_map map_fst_enumerate plus_nat.add_0 set_upt)
  ultimately obtain s1 pools' where e: "evict_groups ?ctx (List.enumerate 0 ?gs) ?s0 (sm_pools m) = (Inr (), s1, pools')"
    and sh: "shrunk {..<length ?gs} ?ctx ?gs (sm_pools m) ?s0 pools' s1" by auto
  have s1: "s1 = ?s0\<lparr>ss_indices := ss_indices s1, ss_tables := ss_tables s1, ss_mirror := ss_mirror s1\<rparr>"
    using sh by (simp add: shrunk_def)
  have f: "ss_ctx_len s1 = ?ctx" "ss_tail_len s1 = 0" "ss_compacted s1 = None" "ss_fixed_slots s1 = ss_fixed_slots s"
    "ss_parity s1 = ss_parity s" by (subst s1, simp)+
  let ?s' = "s1\<lparr>ss_parity := parity_after m accepted s\<rparr>"
  let ?m' = "m\<lparr>sm_seqs := (sm_seqs m)(q \<mapsto> ?s'), sm_pools := pools',
      sm_swaps := (if swaps_on m accepted then sm_swaps m + 1 else sm_swaps m), sm_commits := sm_commits m + 1\<rparr>"
  have par: "s1\<lparr>ss_parity := ss_parity s\<rparr> = s1" using f(5) by (metis (full_types) seq_state.surjective seq_state.update_convs(8))
  have chk: "commit_checks m q accepted = Inr (s, ?ctx, sm_commits m + 1,
      if swaps_on m accepted then Some (sm_swaps m + 1) else None)"
    by (subst commit_checks_iff [OF inv]) (use can s in simp)
  have res: "commit m q accepted = (Inr (), ?m')"
    using e f by (simp add: commit_def chk parity_after_def par)
  have shape: "seq_shape (length ?gs) s" using ok by (simp add: seq_ok_def)
  have sok: "seq_ok (sm_config m) ?gs ?s'"
    using seq_ok_commit [OF ok acc sh] parity_after_ok [OF st(2) shape] by blast
  have kc: "keeps_cells m s pools' ?s'"
    using sh by (simp add: keeps_cells_def shrunk_def cells0) (simp add: cell_ok_def table_ids_def)
  have invm: "sm_inv ?m'"
    by (rule sm_inv_update [OF inv s, where s' = ?s']) (use sok kc f in simp_all)
  have bm: "block_map ?s' gi = block_map s1 gi" "block_map ?s0 gi = block_map s gi" for gi by (simp_all add: block_map_def)
  show thesis
    by (rule that [OF s res invm, where s' = ?s'])
       (use sh f bm in \<open>simp_all add: same_geometry_def shrunk_def\<close>)
qed

lemma commit_refused:
  assumes "sm_inv m" and "\<not> can_commit m q accepted"
  shows "commit m q accepted = (Inl (projl (commit_checks m q accepted)), m)"
proof -
  have "commit_checks m q accepted = Inl (projl (commit_checks m q accepted))"
    using commit_checks_iff [OF assms(1), of q accepted] assms(2) by simp
  then obtain e where "commit_checks m q accepted = Inl e" by blast
  then show ?thesis by (simp add: commit_def)
qed

corollary commit_inv: "sm_inv m \<Longrightarrow> sm_inv (snd (commit m q accepted))"
  by (cases "can_commit m q accepted") (auto simp: commit_refused elim: commit_success)

corollary commit_geometry: "sm_inv m \<Longrightarrow> same_geometry m (snd (commit m q accepted))"
  by (cases "can_commit m q accepted") (auto simp: commit_refused elim: commit_success)

end
