(* ===== verification/State_Lifecycle.thy ===== *)
theory State_Lifecycle
  imports State_Commit
begin

text \<open>
  Starting and freeing a sequence. Starting takes the smallest free slot of every
  recurrent group, and always finds one while fewer than the maximal number of sequences
  live; freeing returns exactly the blocks and slots the sequence owned and never fails on a
  live sequence.
\<close>

section \<open>Starting\<close>

lemma size_sum: "finite A \<Longrightarrow> size (\<Sum>a\<in>A. f a) = (\<Sum>a\<in>A. size (f a :: 'b multiset))"
  by (induction A rule: finite_induct) auto

lemma slots_owned_count:
  assumes "sm_inv m" and "gi < length (sm_groups m)" and "\<not> is_paged (lg_spec (sm_groups m ! gi))"
  shows "size (owned_by (slot_ids gi) (sm_seqs m)) = sm_live_count m"
proof -
  have "size (slot_ids gi (the (sm_seqs m q))) = 1" if q: "q \<in> dom (sm_seqs m)" for q
  proof -
    from q obtain s where s: "sm_seqs m q = Some s" by auto
    with seq_ok_table [OF sm_inv_seq [OF assms(1) s] assms(2)] assms(3) show ?thesis
      by (auto simp: table_ok_def slot_ids_def)
  qed
  with sm_inv_finite [OF assms(1)] have "size (owned_by (slot_ids gi) (sm_seqs m)) = card (dom (sm_seqs m))"
    by (simp add: owned_by_def size_sum)
  with assms(1) show ?thesis by (simp add: sm_inv_def ids_ok_def)
qed

lemma fixed_slot_free:
  assumes "sm_inv m" and "gi < length (sm_groups m)" and "\<not> is_paged (lg_spec (sm_groups m ! gi))"
    and "sm_live_count m < sc_max_seqs (sm_config m)"
  shows "\<exists>f. sm_fixed m ! gi = Some f \<and> fp_ok f \<and> fp_free f \<noteq> []"
proof -
  obtain f where f: "sm_fixed m ! gi = Some f" "fp_ok f" "fp_total_slots f = sc_max_seqs (sm_config m)"
    and c: "conserved (set (fp_free f)) (fp_total_slots f) (owned_by (slot_ids gi) (sm_seqs m))"
    by (rule sm_inv_fixed [OF assms(1-3)])
  have "card (set (fp_free f)) \<noteq> 0"
    using conserved_size [OF c] slots_owned_count [OF assms(1-3)] f(3) assms(4) by linarith
  with f show ?thesis by auto
qed

lemma fixed_slots_free_ok:
  assumes "\<And>gi g. (gi, g) \<in> set xs \<Longrightarrow> \<not> is_paged (lg_spec g) \<Longrightarrow>
      gi < length fixed \<and> (\<exists>f. fixed ! gi = Some f \<and> fp_free f \<noteq> [])"
  shows "fixed_slots_free live cap fixed xs = Inr ()"
  using assms
proof (induction xs)
  case (Cons x xs)
  obtain gi g where x: "x = (gi, g)" by (cases x)
  have ih: "fixed_slots_free live cap fixed xs = Inr ()" by (rule Cons.IH) (use Cons.prems in auto)
  show ?case
  proof (cases "is_paged (lg_spec g)")
    case False
    then obtain f where sl: "slot_at fixed gi = Some f" and "fp_free f \<noteq> []" using Cons.prems [of gi g] x by auto
    with ih show ?thesis by (simp add: x sl)
  qed (simp add: x ih)
qed simp

definition slot_taken :: "fixed_pool option \<Rightarrow> nat option \<Rightarrow> fixed_pool option \<Rightarrow> bool" where
  "slot_taken fo so fo' \<longleftrightarrow> (\<exists>f i f'. fo = Some f \<and> fp_take f = Some (i, f') \<and> so = Some i \<and> fo' = Some f')"

lemma take_slots_ok:
  assumes "distinct (map fst xs)" and "length slots = length fixed"
    and "\<And>gi g. (gi, g) \<in> set xs \<Longrightarrow> \<not> is_paged (lg_spec g) \<Longrightarrow>
      gi < length fixed \<and> (\<exists>f. fixed ! gi = Some f \<and> fp_free f \<noteq> [])"
  shows "\<exists>slots' fixed'. take_slots live cap xs slots fixed = (Inr slots', fixed') \<and>
    length slots' = length slots \<and> length fixed' = length fixed \<and>
    (\<forall>gi < length fixed. if \<exists>g. (gi, g) \<in> set xs \<and> \<not> is_paged (lg_spec g)
       then slot_taken (fixed ! gi) (slots' ! gi) (fixed' ! gi)
       else slots' ! gi = slots ! gi \<and> fixed' ! gi = fixed ! gi)"
  using assms
proof (induction xs arbitrary: slots fixed)
  case (Cons x xs)
  obtain gi g where x: "x = (gi, g)" by (cases x)
  have notin: "\<forall>h. (gi, h) \<notin> set xs" using Cons.prems(1) x by force
  show ?case
  proof (cases "is_paged (lg_spec g)")
    case True
    have "\<exists>slots' fixed'. take_slots live cap xs slots fixed = (Inr slots', fixed') \<and>
        length slots' = length slots \<and> length fixed' = length fixed \<and>
        (\<forall>gi < length fixed. if \<exists>g. (gi, g) \<in> set xs \<and> \<not> is_paged (lg_spec g)
           then slot_taken (fixed ! gi) (slots' ! gi) (fixed' ! gi)
           else slots' ! gi = slots ! gi \<and> fixed' ! gi = fixed ! gi)"
      by (rule Cons.IH) (use Cons.prems in auto)
    moreover have "(\<exists>h. (gj, h) \<in> set (x # xs) \<and> \<not> is_paged (lg_spec h)) \<longleftrightarrow>
        (\<exists>h. (gj, h) \<in> set xs \<and> \<not> is_paged (lg_spec h))" for gj
      using True x by auto
    ultimately show ?thesis using True by (simp add: x)
  next
    case False
    then obtain f where gi: "gi < length fixed" and f: "fixed ! gi = Some f" "fp_free f \<noteq> []"
      using Cons.prems(3) [of gi g] x by auto
    then obtain i f' where t: "fp_take f = Some (i, f')" by (cases "fp_free f") (auto simp: fp_take_def)
    let ?slots = "slots[gi := Some i]" and ?fixed = "fixed[gi := Some f']"
    have "\<exists>slots' fixed'. take_slots live cap xs ?slots ?fixed = (Inr slots', fixed') \<and>
        length slots' = length ?slots \<and> length fixed' = length ?fixed \<and>
        (\<forall>gi < length ?fixed. if \<exists>g. (gi, g) \<in> set xs \<and> \<not> is_paged (lg_spec g)
           then slot_taken (?fixed ! gi) (slots' ! gi) (fixed' ! gi)
           else slots' ! gi = ?slots ! gi \<and> fixed' ! gi = ?fixed ! gi)"
    proof (rule Cons.IH)
      fix gj h assume h: "(gj, h) \<in> set xs" "\<not> is_paged (lg_spec h)"
      then have "gj \<noteq> gi" using notin by auto
      with Cons.prems(3) [of gj h] h show "gj < length ?fixed \<and> (\<exists>f. ?fixed ! gj = Some f \<and> fp_free f \<noteq> [])" by simp
    qed (use Cons.prems in auto)
    then obtain slots' fixed' where r: "take_slots live cap xs ?slots ?fixed = (Inr slots', fixed')"
      and len: "length slots' = length slots" "length fixed' = length fixed"
      and el: "\<And>gj. gj < length fixed \<Longrightarrow> if \<exists>g. (gj, g) \<in> set xs \<and> \<not> is_paged (lg_spec g)
           then slot_taken (?fixed ! gj) (slots' ! gj) (fixed' ! gj)
           else slots' ! gj = ?slots ! gj \<and> fixed' ! gj = ?fixed ! gj" by auto
    have sl: "slot_at fixed gi = Some f" using gi f by simp
    have step: "take_slots live cap (x # xs) slots fixed = (Inr slots', fixed')" using False t r by (simp add: x sl)
    have "if \<exists>h. (gj, h) \<in> set (x # xs) \<and> \<not> is_paged (lg_spec h)
        then slot_taken (fixed ! gj) (slots' ! gj) (fixed' ! gj)
        else slots' ! gj = slots ! gj \<and> fixed' ! gj = fixed ! gj" if gj: "gj < length fixed" for gj
    proof (cases "gj = gi")
      case True
      with el [OF gj] notin gi Cons.prems(2) have "slots' ! gi = Some i" "fixed' ! gi = Some f'" by auto
      with True f t False x show ?thesis by (auto simp: slot_taken_def)
    next
      case False
      have ex: "(\<exists>h. (gj, h) \<in> set (x # xs) \<and> \<not> is_paged (lg_spec h)) \<longleftrightarrow>
          (\<exists>h. (gj, h) \<in> set xs \<and> \<not> is_paged (lg_spec h))" using False x by auto
      from el [OF gj] False show ?thesis unfolding ex by (auto split: if_splits)
    qed
    with step len show ?thesis by blast
  qed
qed simp

definition can_start :: "state_manager \<Rightarrow> nat list \<Rightarrow> bool" where
  "can_start m tokens \<longleftrightarrow> length tokens \<le> sc_max_ctx (sm_config m) \<and>
     sm_live_count m < sc_max_seqs (sm_config m) \<and> sm_next_seq m \<le> u32_max"

definition fresh_seq :: "nat \<Rightarrow> nat option list \<Rightarrow> seq_state" where
  "fresh_seq n slots = \<lparr>ss_ctx_len = 0, ss_tail_len = 0, ss_tables = replicate n [], ss_indices = replicate n [],
     ss_mirror = Map.empty, ss_compacted = None, ss_fixed_slots = slots, ss_parity = replicate n 0\<rparr>"

lemma fresh_seq_ok:
  assumes "length slots = length gs"
    and "\<And>gi. gi < length gs \<Longrightarrow> slots ! gi = None \<longleftrightarrow> is_paged (lg_spec (gs ! gi))"
  shows "seq_ok c gs (fresh_seq (length gs) slots)"
  using assms by (auto simp: seq_ok_def fresh_seq_def seq_shape_def table_ok_def mirror_ok_def div_ceil_def)

lemma fp_take_geometry: "fp_take f = Some (i, f') \<Longrightarrow> fixed_geometry f' = fixed_geometry f"
  by (auto simp: fp_take_def fixed_geometry_def split: list.splits)

lemma fixed_geometry_eqI:
  assumes "length fixed' = length fixed"
    and "\<And>gi. gi < length fixed \<Longrightarrow> slot_taken (fixed ! gi) (so gi) (fixed' ! gi) \<or> fixed' ! gi = fixed ! gi"
  shows "map (map_option fixed_geometry) fixed' = map (map_option fixed_geometry) fixed"
  by (rule nth_equalityI) (use assms fp_take_geometry in \<open>fastforce simp: slot_taken_def\<close>)+

theorem new_seq_success:
  assumes inv: "sm_inv m" and can: "can_start m tokens"
  obtains slots fixed' m' where "new_seq m tokens = (Inr (sm_next_seq m, 0), m')"
    and "m' = m\<lparr>sm_fixed := fixed', sm_seqs := (sm_seqs m)(sm_next_seq m \<mapsto> fresh_seq (length (sm_groups m)) slots),
        sm_next_seq := sm_next_seq m + 1, sm_live_count := sm_live_count m + 1\<rparr>"
    and "sm_seqs m (sm_next_seq m) = None" and "sm_inv m'" and "same_geometry m m'"
    and "\<forall>gi < length (sm_groups m). \<not> is_paged (lg_spec (sm_groups m ! gi)) \<longrightarrow>
        slot_taken (sm_fixed m ! gi) (slots ! gi) (fixed' ! gi)"
proof -
  let ?gs = "sm_groups m" and ?xs = "List.enumerate 0 (sm_groups m)" and ?cap = "sc_max_seqs (sm_config m)"
  note st = sm_inv_static [OF inv] and fin = sm_inv_finite [OF inv]
  have live: "sm_live_count m < ?cap" and len: "length tokens \<le> sc_max_ctx (sm_config m)"
    and nxt: "sm_next_seq m \<le> u32_max" using can by (simp_all add: can_start_def)
  have cap: "?cap \<le> 65536" and ctx: "sc_max_ctx (sm_config m) \<le> 1048576"
    using st(1) by (simp_all add: config_ok_def hard_caps)
  have slots: "gi < length (sm_fixed m) \<and> (\<exists>f. sm_fixed m ! gi = Some f \<and> fp_free f \<noteq> [])"
    if "(gi, g) \<in> set ?xs" "\<not> is_paged (lg_spec g)" for gi g
    using that fixed_slot_free [OF inv _ _ live, of gi] st(5) by (auto simp: in_set_enumerate_eq)
  have mem: "(\<exists>g. (gi, g) \<in> set ?xs \<and> \<not> is_paged (lg_spec g)) \<longleftrightarrow> gi < length ?gs \<and> \<not> is_paged (lg_spec (?gs ! gi))" for gi
    by (auto simp: in_set_enumerate_eq)
  have "\<exists>slots' fixed'. take_slots (sm_live_count m) ?cap ?xs (replicate (length ?gs) None) (sm_fixed m) = (Inr slots', fixed') \<and>
    length slots' = length (replicate (length ?gs) (None :: nat option)) \<and> length fixed' = length (sm_fixed m) \<and>
    (\<forall>gi < length (sm_fixed m). if \<exists>g. (gi, g) \<in> set ?xs \<and> \<not> is_paged (lg_spec g)
       then slot_taken (sm_fixed m ! gi) (slots' ! gi) (fixed' ! gi)
       else slots' ! gi = replicate (length ?gs) None ! gi \<and> fixed' ! gi = sm_fixed m ! gi)"
    by (rule take_slots_ok) (use slots st(5) in \<open>simp_all add: map_fst_enumerate\<close>)
  then obtain slots' fixed' where t: "take_slots (sm_live_count m) ?cap ?xs (replicate (length ?gs) None) (sm_fixed m) = (Inr slots', fixed')"
    and l: "length slots' = length ?gs" "length fixed' = length (sm_fixed m)"
    and taken: "\<And>gi. gi < length ?gs \<Longrightarrow> \<not> is_paged (lg_spec (?gs ! gi)) \<Longrightarrow>
        slot_taken (sm_fixed m ! gi) (slots' ! gi) (fixed' ! gi)"
    and kept: "\<And>gi. gi < length ?gs \<Longrightarrow> is_paged (lg_spec (?gs ! gi)) \<Longrightarrow> slots' ! gi = None \<and> fixed' ! gi = sm_fixed m ! gi"
    using st(5) unfolding mem by fastforce
  let ?s = "fresh_seq (length ?gs) slots'"
  let ?m = "m\<lparr>sm_fixed := fixed', sm_seqs := (sm_seqs m)(sm_next_seq m \<mapsto> ?s),
      sm_next_seq := sm_next_seq m + 1, sm_live_count := sm_live_count m + 1\<rparr>"
  have fsf: "fixed_slots_free (sm_live_count m) ?cap (sm_fixed m) ?xs = Inr ()"
    by (rule fixed_slots_free_ok) (use slots in blast)
  have arith: "length tokens < 2 ^ 32" "sm_live_count m + 1 < 2 ^ 32" "sm_next_seq m + 1 < 2 ^ 64"
    using len ctx live cap nxt by (auto simp: u32_max_def)
  have res: "new_seq m tokens = (Inr (sm_next_seq m, 0), ?m)"
    using arith len live nxt fsf t
    by (simp add: new_seq_def Let_def try_from_def checked_add_def fresh_seq_def)
  have fresh: "sm_seqs m (sm_next_seq m) = None"
    using inv by (auto simp: sm_inv_def ids_ok_def)
  have sok: "seq_ok (sm_config m) ?gs ?s"
    by (rule fresh_seq_ok [OF l(1)]) (use taken kept in \<open>fastforce simp: slot_taken_def\<close>)
  have "sm_inv ?m"
  proof (rule sm_inv_intro [OF inv])
    show "ids_ok ?m"
      using inv live nxt fresh fin
      by (auto simp: sm_inv_def ids_ok_def card_insert_if domIff intro: less_SucI)
    show "seqs_ok ?m" using inv sok by (auto simp: sm_inv_def seqs_ok_def)
    have tables: "owned_by (table_ids gi) ((sm_seqs m)(sm_next_seq m \<mapsto> ?s)) = owned_by (table_ids gi) (sm_seqs m)"
      if "gi < length ?gs" for gi
      unfolding owned_by_fresh [OF fin fresh] using that by (simp add: table_ids_def fresh_seq_def)
    have "fixed_ok ((sm_seqs m)(sm_next_seq m \<mapsto> ?s)) ?cap gi (fixed' ! gi)"
      if gi: "gi < length ?gs" "\<not> is_paged (lg_spec (?gs ! gi))" for gi
    proof -
      obtain f where f: "sm_fixed m ! gi = Some f" "fp_ok f" "fp_total_slots f = ?cap"
        and c: "conserved (set (fp_free f)) (fp_total_slots f) (owned_by (slot_ids gi) (sm_seqs m))"
        by (rule sm_inv_fixed [OF inv gi])
      from taken [OF gi] f(1) obtain i f' where tk: "fp_take f = Some (i, f')" "slots' ! gi = Some i" "fixed' ! gi = Some f'"
        by (auto simp: slot_taken_def)
      have "owned_by (slot_ids gi) ((sm_seqs m)(sm_next_seq m \<mapsto> ?s)) = add_mset i (owned_by (slot_ids gi) (sm_seqs m))"
        unfolding owned_by_fresh [OF fin fresh] by (simp add: slot_ids_def fresh_seq_def tk(2))
      with fp.take_conserves [OF f(2) c tk(1)] fp.take_Some [OF f(2) tk(1)] f(3) tk(3) show ?thesis
        by (simp add: fixed_ok_def)
    qed
    with inv kept tables l(2) show "pools_ok ?m" by (auto simp: sm_inv_def pools_ok_def paged_ok_def)
  qed simp_all
  moreover have "map (map_option fixed_geometry) fixed' = map (map_option fixed_geometry) (sm_fixed m)"
    by (rule fixed_geometry_eqI [OF l(2), of "\<lambda>gi. slots' ! gi"]) (use taken kept st(5) in \<open>cases; force\<close>)
  ultimately show thesis
    by (intro that [OF res refl fresh]) (use taken in \<open>simp_all add: same_geometry_def\<close>)
qed

lemma new_seq_refused:
  assumes "\<not> can_start m tokens"
  shows "\<exists>e. new_seq m tokens = (Inl e, m)"
  using assms
  by (auto simp: new_seq_def Let_def can_start_def bind_r_def guard_r_def ok_or_def split: option.splits)

section \<open>Freeing\<close>

lemma check_free_ids_ok:
  assumes "bp_ok p" and "conserved (set (bp_free p)) (bp_total p) (mset ids + rest)"
    and "\<And>i. i \<in> set seen \<Longrightarrow> i \<notin># mset ids"
  shows "check_free_ids gi p seen ids = Inr ()"
  using assms(2,3)
proof (induction ids arbitrary: seen rest)
  case (Cons i ids)
  have c: "conserved (set (bp_free p)) (bp_total p) (add_mset i (mset ids + rest))" using Cons.prems by simp
  have o: "i < bp_total p" "i \<notin> set (bp_free p)" using conserved_owned(1,2) [OF c, of i] by simp_all
  have "count (mset ids) i = 0" using conserved_owned(3) [OF c, of i] by simp
  then have "i \<notin># mset ids" by (simp only: count_eq_zero_iff not_False_eq_True)
  moreover have "check_free_ids gi p (i # seen) ids = Inr ()"
    by (rule Cons.IH [where rest = "add_mset i rest"]) (use Cons.prems \<open>i \<notin># mset ids\<close> in auto)
  moreover have "i \<notin> set seen" using Cons.prems(2) [of i] by auto
  ultimately show ?case using o assms(1) by (simp add: bp_contains_iff)
qed simp

lemma release_ids_ok:
  assumes "bp_ok p" and "conserved (set (bp_free p)) (bp_total p) (mset ids + rest)"
  shows "release_ids ids p = (Inr (), foldl bp_give p ids)"
  using assms
proof (induction ids arbitrary: p)
  case (Cons i ids)
  have c: "conserved (set (bp_free p)) (bp_total p) (add_mset i (mset ids + rest))" using Cons.prems by simp
  note r = release_owned [OF Cons.prems(1) c]
  from Cons.IH [OF r(2,3)] r(1) show ?case by simp
qed simp

lemma foldl_give_geometry: "pool_geometry (foldl bp_give p ids) = pool_geometry p"
  by (induction ids arbitrary: p) (simp_all add: pool_geometry_def)

lemma fp_give_geometry: "fixed_geometry (fp_give f i) = fixed_geometry f"
  by (simp add: fixed_geometry_def)

lemma check_free_tables_ok:
  assumes "\<And>j. j < length tbs \<Longrightarrow> tbs ! j \<noteq> [] \<Longrightarrow>
      k + j < length pools \<and> (\<exists>p rest. pools ! (k + j) = Some p \<and> bp_ok p \<and>
        conserved (set (bp_free p)) (bp_total p) (mset (tbs ! j) + rest))"
  shows "check_free_tables pools (List.enumerate k tbs) = Inr ()"
  using assms
proof (induction tbs arbitrary: k)
  case (Cons ids tbs)
  have ih: "check_free_tables pools (List.enumerate (Suc k) tbs) = Inr ()"
    by (rule Cons.IH) (use Cons.prems [of "Suc _"] in auto)
  show ?case
  proof (cases "ids = []")
    case False
    then obtain p rest where p: "k < length pools" "pools ! k = Some p" "bp_ok p"
      "conserved (set (bp_free p)) (bp_total p) (mset ids + rest)" using Cons.prems [of 0] by auto
    then have "slot_at pools k = Some p" by simp
    with check_free_ids_ok [OF p(3,4), of "[]" k] ih show ?thesis by (simp add: bind_r_eq_Inr)
  qed (simp add: ih)
qed simp

lemma release_tables_ok:
  assumes "k + length tbs \<le> length pools"
    and "\<And>j. j < length tbs \<Longrightarrow> tbs ! j \<noteq> [] \<Longrightarrow> (\<exists>p rest. pools ! (k + j) = Some p \<and> bp_ok p \<and>
        conserved (set (bp_free p)) (bp_total p) (mset (tbs ! j) + rest))"
  shows "\<exists>pools'. release_tables (List.enumerate k tbs) pools = (Inr (), pools') \<and> length pools' = length pools \<and>
    (\<forall>gi < length pools. pools' ! gi = (if k \<le> gi \<and> gi < k + length tbs
       then map_option (\<lambda>p. foldl bp_give p (tbs ! (gi - k))) (pools ! gi) else pools ! gi))"
  using assms
proof (induction tbs arbitrary: k pools)
  case (Cons ids tbs)
  let ?pools = "if ids = [] then pools else pools[k := map_option (\<lambda>p. foldl bp_give p ids) (pools ! k)]"
  have step: "release_tables (List.enumerate k (ids # tbs)) pools = release_tables (List.enumerate (Suc k) tbs) ?pools"
  proof (cases "ids = []")
    case False
    then obtain p rest where p: "pools ! k = Some p" "bp_ok p"
      "conserved (set (bp_free p)) (bp_total p) (mset ids + rest)" using Cons.prems(2) [of 0] by auto
    have sl: "slot_at pools k = Some p" using p(1) Cons.prems(1) by simp
    from False p(1) show ?thesis by (simp add: sl release_ids_ok [OF p(2,3)])
  qed simp
  have len: "length ?pools = length pools" by simp
  have at: "?pools ! gi = (if gi = k then map_option (\<lambda>p. foldl bp_give p ids) (pools ! gi) else pools ! gi)"
    if "gi < length pools" for gi using that by (auto simp: option.map_ident)
  have "\<exists>pools'. release_tables (List.enumerate (Suc k) tbs) ?pools = (Inr (), pools') \<and> length pools' = length ?pools \<and>
    (\<forall>gi < length ?pools. pools' ! gi = (if Suc k \<le> gi \<and> gi < Suc k + length tbs
       then map_option (\<lambda>p. foldl bp_give p (tbs ! (gi - Suc k))) (?pools ! gi) else ?pools ! gi))"
  proof (rule Cons.IH)
    fix j assume j: "j < length tbs" "tbs ! j \<noteq> []"
    with Cons.prems(2) [of "Suc j"] Cons.prems(1)
    show "\<exists>p rest. ?pools ! (Suc k + j) = Some p \<and> bp_ok p \<and> conserved (set (bp_free p)) (bp_total p) (mset (tbs ! j) + rest)"
      by (subst at) auto
  qed (use Cons.prems in simp)
  then obtain pools' where r: "release_tables (List.enumerate (Suc k) tbs) ?pools = (Inr (), pools')"
    and l: "length pools' = length pools"
    and el: "\<And>gi. gi < length pools \<Longrightarrow> pools' ! gi = (if Suc k \<le> gi \<and> gi < Suc k + length tbs
       then map_option (\<lambda>p. foldl bp_give p (tbs ! (gi - Suc k))) (?pools ! gi) else ?pools ! gi)" by auto
  have "pools' ! gi = (if k \<le> gi \<and> gi < k + length (ids # tbs)
       then map_option (\<lambda>p. foldl bp_give p ((ids # tbs) ! (gi - k))) (pools ! gi) else pools ! gi)"
    if gi: "gi < length pools" for gi
    unfolding el [OF gi] at [OF gi] by (cases "gi = k") (auto simp: nth_Cons')
  with step r l show ?case by (intro exI [of _ pools']) simp
qed auto

lemma check_free_slots_ok:
  assumes "\<And>j i. j < length slots \<Longrightarrow> slots ! j = Some i \<Longrightarrow>
      k + j < length fixed \<and> (\<exists>f. fixed ! (k + j) = Some f \<and> i < fp_total_slots f \<and> i \<notin> set (fp_free f))"
  shows "check_free_slots fixed (List.enumerate k slots) = Inr ()"
  using assms
proof (induction slots arbitrary: k)
  case (Cons sl slots)
  have ih: "check_free_slots fixed (List.enumerate (Suc k) slots) = Inr ()"
    by (rule Cons.IH) (use Cons.prems [of "Suc _"] in auto)
  show ?case
  proof (cases sl)
    case (Some i)
    then obtain f where f: "slot_at fixed k = Some f" and "i < fp_total_slots f" "i \<notin> set (fp_free f)"
      using Cons.prems [of 0 i] by auto
    with Some ih show ?thesis by (simp add: f)
  qed (simp add: ih)
qed simp

lemma release_slots_ok:
  assumes "k + length slots \<le> length fixed"
    and "\<And>j i. j < length slots \<Longrightarrow> slots ! j = Some i \<Longrightarrow> fixed ! (k + j) \<noteq> None"
  shows "\<exists>fixed'. release_slots (List.enumerate k slots) fixed = (Inr (), fixed') \<and> length fixed' = length fixed \<and>
    (\<forall>gi < length fixed. fixed' ! gi = (if k \<le> gi \<and> gi < k + length slots
       then (case slots ! (gi - k) of None \<Rightarrow> fixed ! gi | Some i \<Rightarrow> map_option (\<lambda>f. fp_give f i) (fixed ! gi))
       else fixed ! gi))"
  using assms
proof (induction slots arbitrary: k fixed)
  case (Cons sl slots)
  let ?fixed = "case sl of None \<Rightarrow> fixed | Some i \<Rightarrow> fixed[k := map_option (\<lambda>f. fp_give f i) (fixed ! k)]"
  have step: "release_slots (List.enumerate k (sl # slots)) fixed = release_slots (List.enumerate (Suc k) slots) ?fixed"
  proof (cases sl)
    case (Some i)
    then obtain f where f: "fixed ! k = Some f" using Cons.prems(2) [of 0 i] by auto
    have sl: "slot_at fixed k = Some f" using f Cons.prems(1) by simp
    from Some f show ?thesis by (simp add: sl)
  qed simp
  have len: "length ?fixed = length fixed" by (simp split: option.split)
  have at: "?fixed ! gi = (if gi = k then (case sl of None \<Rightarrow> fixed ! gi | Some i \<Rightarrow> map_option (\<lambda>f. fp_give f i) (fixed ! gi))
      else fixed ! gi)" if "gi < length fixed" for gi using that by (auto split: option.split)
  have "\<exists>fixed'. release_slots (List.enumerate (Suc k) slots) ?fixed = (Inr (), fixed') \<and> length fixed' = length ?fixed \<and>
    (\<forall>gi < length ?fixed. fixed' ! gi = (if Suc k \<le> gi \<and> gi < Suc k + length slots
       then (case slots ! (gi - Suc k) of None \<Rightarrow> ?fixed ! gi | Some i \<Rightarrow> map_option (\<lambda>f. fp_give f i) (?fixed ! gi))
       else ?fixed ! gi))"
  proof (rule Cons.IH)
    fix j i assume j: "j < length slots" "slots ! j = Some i"
    with Cons.prems(2) [of "Suc j" i] Cons.prems(1) show "?fixed ! (Suc k + j) \<noteq> None" by (subst at) auto
  qed (use Cons.prems(1) len in simp)
  then obtain fixed' where r: "release_slots (List.enumerate (Suc k) slots) ?fixed = (Inr (), fixed')"
    and l: "length fixed' = length fixed"
    and el: "\<And>gi. gi < length fixed \<Longrightarrow> fixed' ! gi = (if Suc k \<le> gi \<and> gi < Suc k + length slots
       then (case slots ! (gi - Suc k) of None \<Rightarrow> ?fixed ! gi | Some i \<Rightarrow> map_option (\<lambda>f. fp_give f i) (?fixed ! gi))
       else ?fixed ! gi)" unfolding len by auto
  have "fixed' ! gi = (if k \<le> gi \<and> gi < k + length (sl # slots)
       then (case (sl # slots) ! (gi - k) of None \<Rightarrow> fixed ! gi | Some i \<Rightarrow> map_option (\<lambda>f. fp_give f i) (fixed ! gi))
       else fixed ! gi)"
    if gi: "gi < length fixed" for gi
    unfolding el [OF gi] at [OF gi] by (cases "gi = k") (auto simp: nth_Cons')
  with step r l show ?case by (intro exI [of _ fixed']) simp
qed auto

text \<open>A live sequence's share of a pool, against what the other sequences own.\<close>

lemma seq_paged_view:
  assumes inv: "sm_inv m" and s: "sm_seqs m q = Some s" and gi: "gi < length (sm_groups m)" "is_paged (lg_spec (sm_groups m ! gi))"
  shows "\<exists>p. sm_pools m ! gi = Some p \<and> bp_ok p \<and> sm_max_blocks m \<le> bp_total p \<and> bp_total p \<le> MAX_SLOT_BLOCKS \<and>
    conserved (set (bp_free p)) (bp_total p)
      (mset (ss_tables s ! gi) + owned_by (table_ids gi) ((sm_seqs m)(q := None)))"
  by (rule sm_inv_paged [OF inv gi])
     (use owned_by_split [OF sm_inv_finite [OF inv] s, of "table_ids gi"] in \<open>auto simp: table_ids_def\<close>)

lemma seq_fixed_view:
  assumes inv: "sm_inv m" and s: "sm_seqs m q = Some s" and gi: "gi < length (sm_groups m)" "\<not> is_paged (lg_spec (sm_groups m ! gi))"
  shows "\<exists>f i. sm_fixed m ! gi = Some f \<and> ss_fixed_slots s ! gi = Some i \<and> fp_ok f \<and>
    fp_total_slots f = sc_max_seqs (sm_config m) \<and>
    conserved (set (fp_free f)) (fp_total_slots f) (add_mset i (owned_by (slot_ids gi) ((sm_seqs m)(q := None))))"
proof -
  obtain i where i: "ss_fixed_slots s ! gi = Some i"
    using seq_ok_table [OF sm_inv_seq [OF inv s] gi(1)] gi(2) by (auto simp: table_ok_def)
  show ?thesis
    by (rule sm_inv_fixed [OF inv gi])
       (use owned_by_split [OF sm_inv_finite [OF inv] s, of "slot_ids gi"] i in \<open>auto simp: slot_ids_def\<close>)
qed

lemma seq_kinds:
  assumes "sm_inv m" and "sm_seqs m q = Some s" and "gi < length (sm_groups m)"
  shows "ss_tables s ! gi \<noteq> [] \<Longrightarrow> is_paged (lg_spec (sm_groups m ! gi))"
    and "ss_fixed_slots s ! gi = Some i \<Longrightarrow> \<not> is_paged (lg_spec (sm_groups m ! gi))"
    and "length (ss_tables s) = length (sm_groups m)" and "length (ss_fixed_slots s) = length (sm_groups m)"
  using seq_ok_unpaged [OF sm_inv_seq [OF assms(1,2)] assms(3)] seq_ok_table [OF sm_inv_seq [OF assms(1,2)] assms(3)]
    sm_inv_seq [OF assms(1,2)]
  by (auto simp: table_ok_def seq_ok_def seq_shape_def)

lemma seq_lengths:
  assumes "sm_inv m" and "sm_seqs m q = Some s"
  shows "length (ss_tables s) = length (sm_groups m)" and "length (ss_fixed_slots s) = length (sm_groups m)"
  using sm_inv_seq [OF assms] by (simp_all add: seq_ok_def seq_shape_def)

lemma free_checks_ok:
  assumes inv: "sm_inv m" and s: "sm_seqs m q = Some s"
  shows "check_free_tables (sm_pools m) (List.enumerate 0 (ss_tables s)) = Inr ()"
    and "check_free_slots (sm_fixed m) (List.enumerate 0 (ss_fixed_slots s)) = Inr ()"
proof -
  note st = sm_inv_static [OF inv] and len = seq_lengths [OF inv s] and kind = seq_kinds [OF inv s]
  show "check_free_tables (sm_pools m) (List.enumerate 0 (ss_tables s)) = Inr ()"
    by (rule check_free_tables_ok) (use seq_paged_view [OF inv s] kind(1) len st(4) in fastforce)
  show "check_free_slots (sm_fixed m) (List.enumerate 0 (ss_fixed_slots s)) = Inr ()"
  proof (rule check_free_slots_ok)
    fix j i assume j: "j < length (ss_fixed_slots s)" "ss_fixed_slots s ! j = Some i"
    then have jl: "j < length (sm_groups m)" using len by simp
    obtain f where f: "sm_fixed m ! j = Some f" "conserved (set (fp_free f)) (fp_total_slots f)
        (add_mset i (owned_by (slot_ids j) ((sm_seqs m)(q := None))))"
      using seq_fixed_view [OF inv s jl kind(2) [OF jl j(2)]] j(2) by auto
    from conserved_owned(1,2) [OF f(2), of i] f(1) jl st(5)
    show "0 + j < length (sm_fixed m) \<and> (\<exists>f. sm_fixed m ! (0 + j) = Some f \<and> i < fp_total_slots f \<and> i \<notin> set (fp_free f))"
      by simp
  qed
qed

lemma released_pools:
  assumes inv: "sm_inv m" and s: "sm_seqs m q = Some s"
  obtains pools' where "release_tables (List.enumerate 0 (ss_tables s)) (sm_pools m) = (Inr (), pools')"
    and "length pools' = length (sm_groups m)"
    and "map (map_option pool_geometry) pools' = map (map_option pool_geometry) (sm_pools m)"
    and "\<And>gi. gi < length (sm_groups m) \<Longrightarrow> is_paged (lg_spec (sm_groups m ! gi)) \<Longrightarrow>
      paged_ok ((sm_seqs m)(q := None)) (sm_max_blocks m) gi (pools' ! gi)"
    and "\<And>gi p. gi < length (sm_groups m) \<Longrightarrow> sm_pools m ! gi = Some p \<Longrightarrow>
      \<exists>p'. pools' ! gi = Some p' \<and> set (bp_free p') = set (bp_free p) \<union> set (ss_tables s ! gi)"
proof -
  let ?gs = "sm_groups m"
  note st = sm_inv_static [OF inv] and len = seq_lengths [OF inv s] and kind = seq_kinds [OF inv s]
  have "\<exists>pools'. release_tables (List.enumerate 0 (ss_tables s)) (sm_pools m) = (Inr (), pools') \<and> length pools' = length (sm_pools m) \<and>
    (\<forall>gi < length (sm_pools m). pools' ! gi = (if 0 \<le> gi \<and> gi < 0 + length (ss_tables s)
       then map_option (\<lambda>p. foldl bp_give p (ss_tables s ! (gi - 0))) (sm_pools m ! gi) else sm_pools m ! gi))"
    by (rule release_tables_ok) (use seq_paged_view [OF inv s] kind(1) len st(4) in fastforce)+
  then obtain pools' where rt: "release_tables (List.enumerate 0 (ss_tables s)) (sm_pools m) = (Inr (), pools')"
    and lp: "length pools' = length ?gs"
    and el: "\<And>gi. gi < length ?gs \<Longrightarrow> pools' ! gi = map_option (\<lambda>p. foldl bp_give p (ss_tables s ! gi)) (sm_pools m ! gi)"
    using len st(4) by auto
  have pg: "paged_ok ((sm_seqs m)(q := None)) (sm_max_blocks m) gi (pools' ! gi) \<and>
      (\<exists>p p'. sm_pools m ! gi = Some p \<and> pools' ! gi = Some p' \<and> set (bp_free p') = set (bp_free p) \<union> set (ss_tables s ! gi))"
    if gi: "gi < length ?gs" "is_paged (lg_spec (?gs ! gi))" for gi
  proof -
    obtain p where p: "sm_pools m ! gi = Some p" "bp_ok p" "sm_max_blocks m \<le> bp_total p" "bp_total p \<le> MAX_SLOT_BLOCKS"
      "conserved (set (bp_free p)) (bp_total p)
        (mset (ss_tables s ! gi) + owned_by (table_ids gi) ((sm_seqs m)(q := None)))"
      using seq_paged_view [OF inv s gi] by blast
    from bp.give_list_conserves [OF p(2,5)] p show ?thesis by (auto simp: el [OF gi(1)] paged_ok_def)
  qed
  have geo: "map (map_option pool_geometry) pools' = map (map_option pool_geometry) (sm_pools m)"
    by (rule nth_equalityI) (use lp st(4) el in \<open>simp_all add: option.map_comp comp_def foldl_give_geometry\<close>)
  have pd: "is_paged (lg_spec (?gs ! gi))" if "gi < length ?gs" "sm_pools m ! gi = Some p" for gi p
    using inv that by (auto simp: sm_inv_def pools_ok_def split: if_splits)
  show thesis by (rule that [OF rt lp geo]) (use pg pd in fastforce)+
qed

lemma released_slots:
  assumes inv: "sm_inv m" and s: "sm_seqs m q = Some s"
  obtains fixed' where "release_slots (List.enumerate 0 (ss_fixed_slots s)) (sm_fixed m) = (Inr (), fixed')"
    and "length fixed' = length (sm_groups m)"
    and "map (map_option fixed_geometry) fixed' = map (map_option fixed_geometry) (sm_fixed m)"
    and "\<And>gi. gi < length (sm_groups m) \<Longrightarrow> \<not> is_paged (lg_spec (sm_groups m ! gi)) \<Longrightarrow>
      fixed_ok ((sm_seqs m)(q := None)) (sc_max_seqs (sm_config m)) gi (fixed' ! gi)"
    and "\<And>gi f. gi < length (sm_groups m) \<Longrightarrow> sm_fixed m ! gi = Some f \<Longrightarrow>
      \<exists>f' i. ss_fixed_slots s ! gi = Some i \<and> fixed' ! gi = Some f' \<and> set (fp_free f') = insert i (set (fp_free f))"
proof -
  let ?gs = "sm_groups m"
  note st = sm_inv_static [OF inv] and len = seq_lengths [OF inv s] and kind = seq_kinds [OF inv s]
  have "\<exists>fixed'. release_slots (List.enumerate 0 (ss_fixed_slots s)) (sm_fixed m) = (Inr (), fixed') \<and> length fixed' = length (sm_fixed m) \<and>
    (\<forall>gi < length (sm_fixed m). fixed' ! gi = (if 0 \<le> gi \<and> gi < 0 + length (ss_fixed_slots s)
       then (case ss_fixed_slots s ! (gi - 0) of None \<Rightarrow> sm_fixed m ! gi | Some i \<Rightarrow> map_option (\<lambda>f. fp_give f i) (sm_fixed m ! gi))
       else sm_fixed m ! gi))"
    by (rule release_slots_ok) (use seq_fixed_view [OF inv s] kind(2) len st(5) in fastforce)+
  then obtain fixed' where rs: "release_slots (List.enumerate 0 (ss_fixed_slots s)) (sm_fixed m) = (Inr (), fixed')"
    and lf: "length fixed' = length ?gs"
    and el: "\<And>gi. gi < length ?gs \<Longrightarrow> fixed' ! gi =
        (case ss_fixed_slots s ! gi of None \<Rightarrow> sm_fixed m ! gi | Some i \<Rightarrow> map_option (\<lambda>f. fp_give f i) (sm_fixed m ! gi))"
    using len st(5) by auto
  have fx: "fixed_ok ((sm_seqs m)(q := None)) (sc_max_seqs (sm_config m)) gi (fixed' ! gi) \<and>
      (\<exists>f f' i. sm_fixed m ! gi = Some f \<and> ss_fixed_slots s ! gi = Some i \<and> fixed' ! gi = Some f' \<and>
         set (fp_free f') = insert i (set (fp_free f)))"
    if gi: "gi < length ?gs" "\<not> is_paged (lg_spec (?gs ! gi))" for gi
  proof -
    obtain f i where f: "sm_fixed m ! gi = Some f" "ss_fixed_slots s ! gi = Some i" "fp_ok f"
      "fp_total_slots f = sc_max_seqs (sm_config m)"
      "conserved (set (fp_free f)) (fp_total_slots f) (add_mset i (owned_by (slot_ids gi) ((sm_seqs m)(q := None))))"
      using seq_fixed_view [OF inv s gi] by blast
    have o: "i < fp_total_slots f" "i \<notin> set (fp_free f)" using conserved_owned(1,2) [OF f(5), of i] by simp_all
    from fp.give_conserves [OF f(3,5)] fp.give [OF f(3) o] f show ?thesis
      by (auto simp: el [OF gi(1)] fixed_ok_def)
  qed
  have geo: "map (map_option fixed_geometry) fixed' = map (map_option fixed_geometry) (sm_fixed m)"
    by (rule nth_equalityI)
       (use lf st(5) el in \<open>auto simp: option.map_comp comp_def fp_give_geometry split: option.split\<close>)
  have fd: "\<not> is_paged (lg_spec (?gs ! gi))" if "gi < length ?gs" "sm_fixed m ! gi = Some f" for gi f
    using inv that by (auto simp: sm_inv_def pools_ok_def split: if_splits)
  show thesis by (rule that [OF rs lf geo]) (use fx fd in fastforce)+
qed

theorem free_seq_success:
  assumes inv: "sm_inv m" and s: "sm_seqs m q = Some s"
  obtains m' where "free_seq m q = (Inr (), m')" and "sm_inv m'" and "same_geometry m m'"
    and "sm_seqs m' = (sm_seqs m)(q := None)" and "sm_live_count m' = sm_live_count m - 1"
    and "\<And>gi p. gi < length (sm_groups m) \<Longrightarrow> sm_pools m ! gi = Some p \<Longrightarrow>
        \<exists>p'. sm_pools m' ! gi = Some p' \<and> set (bp_free p') = set (bp_free p) \<union> set (ss_tables s ! gi)"
    and "\<And>gi f. gi < length (sm_groups m) \<Longrightarrow> sm_fixed m ! gi = Some f \<Longrightarrow>
        \<exists>f' i. ss_fixed_slots s ! gi = Some i \<and> sm_fixed m' ! gi = Some f' \<and> set (fp_free f') = insert i (set (fp_free f))"
    and "m' = m\<lparr>sm_seqs := sm_seqs m', sm_pools := sm_pools m', sm_fixed := sm_fixed m', sm_live_count := sm_live_count m'\<rparr>"
proof -
  obtain pools' where rt: "release_tables (List.enumerate 0 (ss_tables s)) (sm_pools m) = (Inr (), pools')"
    and lp: "length pools' = length (sm_groups m)"
    and gp: "map (map_option pool_geometry) pools' = map (map_option pool_geometry) (sm_pools m)"
    and pg: "\<And>gi. gi < length (sm_groups m) \<Longrightarrow> is_paged (lg_spec (sm_groups m ! gi)) \<Longrightarrow>
      paged_ok ((sm_seqs m)(q := None)) (sm_max_blocks m) gi (pools' ! gi)"
    and pe: "\<And>gi p. gi < length (sm_groups m) \<Longrightarrow> sm_pools m ! gi = Some p \<Longrightarrow>
      \<exists>p'. pools' ! gi = Some p' \<and> set (bp_free p') = set (bp_free p) \<union> set (ss_tables s ! gi)"
    by (rule released_pools [OF inv s]) blast
  obtain fixed' where rs: "release_slots (List.enumerate 0 (ss_fixed_slots s)) (sm_fixed m) = (Inr (), fixed')"
    and lf: "length fixed' = length (sm_groups m)"
    and gf: "map (map_option fixed_geometry) fixed' = map (map_option fixed_geometry) (sm_fixed m)"
    and fx: "\<And>gi. gi < length (sm_groups m) \<Longrightarrow> \<not> is_paged (lg_spec (sm_groups m ! gi)) \<Longrightarrow>
      fixed_ok ((sm_seqs m)(q := None)) (sc_max_seqs (sm_config m)) gi (fixed' ! gi)"
    and fe: "\<And>gi f. gi < length (sm_groups m) \<Longrightarrow> sm_fixed m ! gi = Some f \<Longrightarrow>
      \<exists>f' i. ss_fixed_slots s ! gi = Some i \<and> fixed' ! gi = Some f' \<and> set (fp_free f') = insert i (set (fp_free f))"
    by (rule released_slots [OF inv s]) blast
  have live: "1 \<le> sm_live_count m" and card: "card (dom (sm_seqs m) - {q}) = sm_live_count m - 1"
    using inv s sm_inv_finite [OF inv]
    by (auto simp: sm_inv_def ids_ok_def Suc_le_eq card_gt_0_iff card_Diff_singleton domI)
  let ?m = "m\<lparr>sm_seqs := (sm_seqs m)(q := None), sm_pools := pools', sm_fixed := fixed', sm_live_count := sm_live_count m - 1\<rparr>"
  have res: "free_seq m q = (Inr (), ?m)"
    using s live free_checks_ok [OF inv s] rt rs by (simp add: free_seq_def sm_seq_def Let_def checked_sub_def)
  have invm: "sm_inv ?m"
  proof (rule sm_inv_intro [OF inv])
    show "ids_ok ?m" using inv card by (auto simp: sm_inv_def ids_ok_def)
    show "seqs_ok ?m" using inv by (auto simp: sm_inv_def seqs_ok_def)
    have len: "length (sm_pools m) = length (sm_groups m)" "length (sm_fixed m) = length (sm_groups m)"
      by (simp_all add: sm_inv_static [OF inv])
    have "if is_paged (lg_spec (sm_groups m ! gi))
        then paged_ok ((sm_seqs m)(q := None)) (sm_max_blocks m) gi (pools' ! gi) \<and> fixed' ! gi = None
        else pools' ! gi = None \<and> fixed_ok ((sm_seqs m)(q := None)) (sc_max_seqs (sm_config m)) gi (fixed' ! gi)"
      if gi: "gi < length (sm_groups m)" for gi
      using pg [OF gi] fx [OF gi] inv gi geometry_None [OF gp, of gi] geometry_None [OF gf, of gi] len
      by (auto simp: sm_inv_def pools_ok_def)
    then show "pools_ok ?m" using lp lf by (simp add: pools_ok_def)
  qed simp_all
  show thesis
    by (rule that [OF res invm]) (use pe fe gp gf in \<open>simp_all add: same_geometry_def\<close>)
qed

lemma free_seq_refused: "sm_seqs m q = None \<Longrightarrow> free_seq m q = (Inl (UnknownSeq q), m)"
  by (simp add: free_seq_def sm_seq_def)

corollary lifecycle_inv:
  assumes "sm_inv m"
  shows "sm_inv (snd (new_seq m tokens)) \<and> same_geometry m (snd (new_seq m tokens))"
    and "sm_inv (snd (free_seq m q)) \<and> same_geometry m (snd (free_seq m q))"
proof -
  show "sm_inv (snd (new_seq m tokens)) \<and> same_geometry m (snd (new_seq m tokens))"
  proof (cases "can_start m tokens")
    case True
    then show ?thesis by (rule new_seq_success [OF assms]) simp
  next
    case False
    with new_seq_refused [OF False] assms show ?thesis by auto
  qed
  show "sm_inv (snd (free_seq m q)) \<and> same_geometry m (snd (free_seq m q))"
  proof (cases "sm_seqs m q")
    case None
    with assms show ?thesis by (simp add: free_seq_refused)
  next
    case (Some s)
    show ?thesis by (rule free_seq_success [OF assms Some]) simp
  qed
qed

end
