(* ===== verification/State_Reach.thy ===== *)
theory State_Reach
  imports State_New State_Lifecycle
begin

text \<open>
  The manager as a transition system: what is reachable from a successful construction by
  any interleaving of the public operations, with any arguments, refused calls included.
  Every reachable manager satisfies the invariant and keeps the arena layout it was
  constructed with.
\<close>

datatype sm_op =
    OpNewSeq "nat list"
  | OpReserve nat nat
  | OpWrite nat nat "nat list"
  | OpCompact nat "nat list"
  | OpCommit nat nat
  | OpFree nat

fun sm_apply :: "sm_op \<Rightarrow> state_manager \<Rightarrow> state_manager" where
  "sm_apply (OpNewSeq ts) m = snd (new_seq m ts)"
| "sm_apply (OpReserve q n) m = snd (reserve m q n)"
| "sm_apply (OpWrite q start ts) m = snd (write_tokens m q start ts)"
| "sm_apply (OpCompact q accepted) m = snd (compact m q accepted)"
| "sm_apply (OpCommit q accepted) m = snd (commit m q accepted)"
| "sm_apply (OpFree q) m = snd (free_seq m q)"

inductive constructed :: "state_manager \<Rightarrow> nat \<Rightarrow> bool" where
  from_specs: "pb < 2 ^ 64 \<Longrightarrow> sm_new grants c specs pb = Inr m \<Longrightarrow> constructed m pb"
| from_decls: "pb < 2 ^ 64 \<Longrightarrow> new_with_declarations grants c decls pb = Inr m \<Longrightarrow> constructed m pb"

inductive sm_reach :: "state_manager \<Rightarrow> state_manager \<Rightarrow> bool" for m0 where
  refl: "sm_reach m0 m0"
| step: "sm_reach m0 m \<Longrightarrow> sm_reach m0 (sm_apply op m)"

definition reachable :: "state_manager \<Rightarrow> bool" where
  "reachable m \<longleftrightarrow> (\<exists>m0 pb. constructed m0 pb \<and> sm_reach m0 m)"

inductive_cases sm_reach_stepE: "sm_reach m0 m"

lemma with_config_Inr: "with_config a b = Inr gs \<longleftrightarrow> a = Inr () \<and> b = Inr gs"
  by (cases a; cases b) (auto simp: with_config_def split: state_error.splits)

lemma constructed_initial:
  assumes "constructed m pb"
  shows "\<exists>c gs. config_ok c \<and> groups_ok gs \<and> pool_fits c gs pb \<and> m = initial_manager c gs pb"
  using assms
proof cases
  case (from_specs grants c specs)
  then obtain gs where "config_ok c" "group_layers specs = Inr gs" "new_from_validated_groups grants c gs pb = Inr m"
    by (auto simp: sm_new_def bind_r_eq_Inr with_config_Inr)
  with new_from_validated_groups_iff [OF _ group_layers_ok from_specs(1)] group_layers_ok show ?thesis by blast
next
  case (from_decls grants c decls)
  then obtain gs where "config_ok c" "group_layer_specs decls = Inr gs" "new_from_validated_groups grants c gs pb = Inr m"
    by (auto simp: new_with_declarations_def bind_r_eq_Inr with_config_Inr)
  with new_from_validated_groups_iff [OF _ group_layer_specs_ok from_decls(1)] group_layer_specs_ok show ?thesis by blast
qed

lemma constructed_inv: "constructed m pb \<Longrightarrow> sm_inv m"
  using constructed_initial initial_inv by blast

text \<open>One preservation fact for all operations.\<close>

lemma sm_apply_inv:
  assumes "sm_inv m"
  shows "sm_inv (sm_apply op m) \<and> same_geometry m (sm_apply op m)"
  using assms lifecycle_inv reserve_inv reserve_geometry write_tokens_inv compact_inv tokens_geometry
    commit_inv commit_geometry
  by (cases op) simp_all

lemma sm_reach_inv:
  "sm_reach m0 m \<Longrightarrow> sm_inv m0 \<Longrightarrow> sm_inv m \<and> same_geometry m0 m"
  by (induction rule: sm_reach.induct) (auto dest: sm_apply_inv intro: same_geometry_trans)

lemma reachable_inv: "reachable m \<Longrightarrow> sm_inv m"
  using sm_reach_inv constructed_inv by (auto simp: reachable_def)

lemma reachable_step: "reachable m \<Longrightarrow> reachable (sm_apply op m)"
  by (auto simp: reachable_def intro: sm_reach.step)

lemma reachable_init: "constructed m pb \<Longrightarrow> reachable m"
  by (auto simp: reachable_def intro: sm_reach.refl)

lemmas reachable_ops =
  reachable_step [where op = "OpNewSeq _", simplified] reachable_step [where op = "OpReserve _ _", simplified]
  reachable_step [where op = "OpWrite _ _ _", simplified] reachable_step [where op = "OpCompact _ _", simplified]
  reachable_step [where op = "OpCommit _ _", simplified] reachable_step [where op = "OpFree _", simplified]

section \<open>Geometry of reachable managers\<close>

lemma same_geometry_region:
  assumes "same_geometry m0 m" and "gi < length (sm_pools m0)" and "gi < length (sm_fixed m0)"
  shows "group_region m gi = group_region m0 gi"
proof -
  have lp: "length (sm_pools m) = length (sm_pools m0)" and lf: "length (sm_fixed m) = length (sm_fixed m0)"
    using assms(1) map_eq_imp_length_eq by (auto simp: same_geometry_def)
  have "map_option pool_geometry (sm_pools m ! gi) = map_option pool_geometry (sm_pools m0 ! gi)"
    using assms lp unfolding same_geometry_def by (metis nth_map)
  moreover have "map_option fixed_geometry (sm_fixed m ! gi) = map_option fixed_geometry (sm_fixed m0 ! gi)"
    using assms lf unfolding same_geometry_def by (metis nth_map)
  ultimately show ?thesis
    by (cases "sm_pools m ! gi"; cases "sm_pools m0 ! gi"; cases "sm_fixed m ! gi"; cases "sm_fixed m0 ! gi")
       (simp_all add: group_region_def pool_geometry_def fixed_geometry_def)
qed

lemma reach_regions:
  assumes "constructed m0 pb" and "sm_reach m0 m"
  shows "gi < length (sm_groups m) \<Longrightarrow> fst (group_region m gi) + snd (group_region m gi) \<le> pb"
    and "gi < gj \<Longrightarrow> gj < length (sm_groups m) \<Longrightarrow>
      fst (group_region m gi) + snd (group_region m gi) \<le> fst (group_region m gj)"
proof -
  obtain c gs where i: "pool_fits c gs pb" "m0 = initial_manager c gs pb"
    using constructed_initial [OF assms(1)] by blast
  have geo: "same_geometry m0 m" using sm_reach_inv [OF assms(2) constructed_inv [OF assms(1)]] by simp
  have gs: "sm_groups m = gs" using geo i(2) by (simp add: same_geometry_def)
  have reg: "group_region m gi = group_region m0 gi" if "gi < length gs" for gi
    by (rule same_geometry_region [OF geo]) (use that i in simp_all)
  show "gi < length (sm_groups m) \<Longrightarrow> fst (group_region m gi) + snd (group_region m gi) \<le> pb"
    using group_regions_end [OF _ i(1)] by (simp add: gs reg) (simp add: i(2))
  show "gi < gj \<Longrightarrow> gj < length (sm_groups m) \<Longrightarrow>
      fst (group_region m gi) + snd (group_region m gi) \<le> fst (group_region m gj)"
    using group_regions_ordered [of gi gj gs c pb] by (simp add: gs reg) (simp add: i(2))
qed

section \<open>A concrete manager\<close>

text \<open>
  A small manager on which the properties are instantiated: a paged group, a group with a
  sink and a sliding window, and a recurrent group, five blocks per paged group.
\<close>

definition demo_config :: state_config where
  "demo_config = \<lparr>sc_max_ctx = 128, sc_max_seqs = 2\<rparr>"

definition demo_specs :: "state_spec list" where
  "demo_specs = [KvPaged 1 1 1 F16 RetainAll, KvPaged 1 1 1 F16 (SinkWindow 1 32), Recurrent 1 1 1]"

definition demo_groups :: "layer_group list" where
  "demo_groups =
     [\<lparr>lg_index = 0, lg_spec = KvPaged 1 1 1 F16 RetainAll, lg_layers = [0]\<rparr>,
      \<lparr>lg_index = 1, lg_spec = KvPaged 1 1 1 F16 (SinkWindow 1 32), lg_layers = [1]\<rparr>,
      \<lparr>lg_index = 2, lg_spec = Recurrent 1 1 1, lg_layers = [2]\<rparr>]"

definition demo_pools :: "nat list \<Rightarrow> nat list \<Rightarrow> block_pool option list" where
  "demo_pools xs ys =
     [Some \<lparr>bp_total = 5, bp_free = xs, bp_base_offset = 0, bp_block_bytes = 128\<rparr>,
      Some \<lparr>bp_total = 5, bp_free = ys, bp_base_offset = 640, bp_block_bytes = 128\<rparr>, None]"

definition demo_fixed :: "nat list \<Rightarrow> fixed_pool option list" where
  "demo_fixed xs =
     [None, None, Some \<lparr>fp_total_slots = 2, fp_free = xs, fp_slot_bytes_per_seq = 8, fp_buffer_bytes = 4,
                        fp_base_offset = 1280\<rparr>]"

definition demo0 :: state_manager where
  "demo0 = \<lparr>sm_config = demo_config, sm_groups = demo_groups, sm_pools = demo_pools [4, 3, 2, 1, 0] [4, 3, 2, 1, 0],
     sm_fixed = demo_fixed [0, 1], sm_max_blocks = 4, sm_pool_bytes_total = 1280, sm_fixed_bytes_total = 16,
     sm_unusable_bytes = 4, sm_next_seq = 0, sm_seqs = Map.empty, sm_live_count = 0, sm_swaps = 0, sm_commits = 0,
     sm_reserve_scratch = []\<rparr>"

definition demo_seq :: "nat list list \<Rightarrow> nat \<Rightarrow> (nat \<times> nat \<rightharpoonup> nat) \<Rightarrow> seq_state" where
  "demo_seq xs tail mir = \<lparr>ss_ctx_len = 0, ss_tail_len = tail, ss_tables = xs, ss_indices = xs, ss_mirror = mir,
     ss_compacted = None, ss_fixed_slots = [None, None, Some 0], ss_parity = [0, 0, 0]\<rparr>"

definition demo1 :: state_manager where
  "demo1 = demo0\<lparr>sm_fixed := demo_fixed [1], sm_seqs := [0 \<mapsto> demo_seq [[], [], []] 0 Map.empty],
     sm_next_seq := 1, sm_live_count := 1\<rparr>"

definition demo2 :: state_manager where
  "demo2 = demo1\<lparr>sm_pools := demo_pools [4, 3, 2] [4, 3, 2], sm_reserve_scratch := [(0, 0), (0, 1), (1, 0), (1, 1)],
     sm_seqs := [0 \<mapsto> demo_seq [[0, 1], [0, 1], []] 40 Map.empty]\<rparr>"

definition demo3 :: state_manager where
  "demo3 = snd (write_tokens demo2 0 0 [10, 11, 12, 13])"

lemmas demo_defs = demo_config_def demo_groups_def demo_pools_def demo_fixed_def demo0_def demo1_def demo2_def demo_seq_def

lemmas checked_eval = checked_add_def checked_mul_def checked_sub_def checked_div_def try_from_def

lemma demo_specs_groups: "group_layers demo_specs = Inr demo_groups"
  by code_simp

lemma demo0_new: "sm_new (\<lambda>_ _. True) demo_config demo_specs 1300 = Inr demo0"
proof -
  have cfg: "config_validate demo_config = Inr ()" by code_simp
  have fixed: "fixed_pool_bytes 2 demo_groups = Inr 16" by code_simp
  have cost: "block_cost_sum (filter (\<lambda>g. is_paged (lg_spec g)) demo_groups) = Inr 256" by code_simp
  have split: "split_paged 4 1300 16 (filter (\<lambda>g. is_paged (lg_spec g)) demo_groups) 256 = Inr (5, 1280)"
    by code_simp
  have pools: "fold_r (build_pool 5 2) demo_groups (0, [], []) =
      Inr (1296, demo_pools [4, 3, 2, 1, 0] [4, 3, 2, 1, 0], demo_fixed [0, 1])" by code_simp
  have len: "length (filter (\<lambda>g. is_paged (lg_spec g)) demo_groups) = 2" by code_simp
  have mb: "max_blocks demo_config = 4" "sc_max_seqs demo_config = 2" by (simp_all add: demo_config_def max_blocks_def)
  have wc: "with_config (config_validate demo_config) (group_layers demo_specs) = Inr demo_groups"
    by (simp only: with_config_Inr cfg demo_specs_groups)
  have "new_from_validated_groups (\<lambda>_ _. True) demo_config demo_groups 1300 = Inr demo0"
    unfolding new_from_validated_groups_def Let_def mb fixed bind_r_simps cost
    by (simp add: split pools len checked_eval demo0_def mb)
  then show ?thesis by (simp only: sm_new_def wc bind_r_simps)
qed

lemma demo1_new: "snd (new_seq demo0 [7, 8, 9]) = demo1"
  by (simp add: new_seq_def demo_defs Let_def checked_eval u32_max_def fp_take_def slot_at_def get_def)

lemma demo2_reserve: "snd (reserve demo1 0 40) = demo2"
  by (simp add: reserve_def reserve_checks_def sm_seq_def demo_defs checked_eval hard_caps div_ceil_def get_def
      missing_indices_def partition_point_def place_reserve_blocks_def place_one_block_def slot_at_def bp_alloc_def
      insert_at_def upt_conv_Cons Let_def del: upt_Suc)

lemma demo0_constructed: "constructed demo0 1300"
  by (rule constructed.from_specs [OF _ demo0_new]) simp

lemma demo_reachable: "reachable demo0" "reachable demo1" "reachable demo2" "reachable demo3"
  using reachable_init [OF demo0_constructed] reachable_ops demo1_new demo2_reserve unfolding demo3_def by metis+

lemma liveI: "\<not> Option.is_none (sm_seqs m q) \<Longrightarrow> sm_seqs m q = Some (the (sm_seqs m q))"
  by (cases "sm_seqs m q") auto

lemma demo_live:
  "sm_seqs demo1 0 = Some (the (sm_seqs demo1 0))" "sm_seqs demo2 0 = Some (the (sm_seqs demo2 0))"
  "sm_seqs demo3 0 = Some (the (sm_seqs demo3 0))"
  by (rule liveI, code_simp)+

end
