(* ===== verification/State_Props.thy ===== *)
theory State_Props
  imports State_Reach
begin

text \<open>
  The properties of the sequence-state manager, each over managers reachable from a
  successful construction by any sequence of operations, with a witness on a small
  manager: one paged group, one sliding-window group and one recurrent group.
\<close>

section \<open>Storage is never shared or lost\<close>

lemma flatten_slot_Inr:
  assumes "sm_inv m" and "sm_seqs m q = Some s" and "gi < length (sm_groups m)"
    and "flatten_slot s gi pos e = Inr sid"
  shows "\<exists>i. block_map s gi (pos div 32) = Some i \<and> sid = i * 32 + pos mod 32 \<and> sid < SLOT_NONE"
proof (cases "block_map s gi (pos div 32)")
  case None
  with assms(4) flatten_slot_map [OF seq_ok_tables [OF sm_inv_seq [OF assms(1,2)]] assms(3), of pos e]
  show ?thesis by simp
next
  case (Some i)
  from flatten_slot_mapped [OF assms(1-3) Some] assms(4) Some show ?thesis by simp
qed

text \<open>
  C1. In every reachable manager, two live mapped positions of a paged group that share a
  flat slot are the same position of the same sequence, and no slot is the reserved
  value \<open>SLOT_NONE\<close>: cache rows of different sequences never alias.
\<close>

theorem slots_never_alias:
  assumes "reachable m" and "gi < length (sm_groups m)"
    and "sm_seqs m q = Some s" and "flatten_slot s gi pos e = Inr sid"
    and "sm_seqs m q' = Some s'" and "flatten_slot s' gi pos' e' = Inr sid"
  shows "q = q' \<and> pos = pos' \<and> sid < SLOT_NONE"
proof -
  note inv = reachable_inv [OF assms(1)]
  obtain i where i: "block_map s gi (pos div 32) = Some i" "sid = i * 32 + pos mod 32" "sid < SLOT_NONE"
    using flatten_slot_Inr [OF inv assms(3,2,4)] by blast
  obtain i' where i': "block_map s' gi (pos' div 32) = Some i'" "sid = i' * 32 + pos' mod 32"
    using flatten_slot_Inr [OF inv assms(5,2,6)] by blast
  have "i = sid div 32" "pos mod 32 = sid mod 32" unfolding i(2) by simp_all
  moreover have "i' = sid div 32" "pos' mod 32 = sid mod 32" unfolding i'(2) by simp_all
  ultimately have "i' = i" "pos mod 32 = pos' mod 32" by simp_all
  with block_map_inj [OF inv assms(2,3) i(1) assms(5)] i'(1) have "q = q'" "pos div 32 = pos' div 32" by auto
  with \<open>pos mod 32 = pos' mod 32\<close> i(3) show ?thesis by (metis div_mult_mod_eq)
qed

theorem slots_never_alias_witness:
  "(0::nat) = 0 \<and> (33::nat) = 33 \<and> (33::nat) < SLOT_NONE"
proof (rule slots_never_alias [OF demo_reachable(3), of 0 0 _ 33 40 33 0 _ 33 40])
  show "flatten_slot (the (sm_seqs demo2 0)) 0 33 40 = Inr 33" by code_simp
  then show "flatten_slot (the (sm_seqs demo2 0)) 0 33 40 = Inr 33" .
  show "0 < length (sm_groups demo2)" by code_simp
qed (rule demo_live)+

text \<open>
  C2. In every reachable manager, per paged group the free blocks and the blocks in the tables of the live
  sequences partition the pool: every block number below the total occurs exactly once, in the free list or
  in one place of one table, and no other number occurs. So no sequence of operations leaks a block, frees it twice or gives it to two sequences.
\<close>

theorem blocks_conserved:
  assumes "reachable m" and "slot_at (sm_pools m) gi = Some p"
  shows "mset (bp_free p) + (\<Sum>q\<in>dom (sm_seqs m). mset (ss_tables (the (sm_seqs m q)) ! gi)) = mset [0..<bp_total p]"
proof -
  note inv = reachable_inv [OF assms(1)]
  have gi: "gi < length (sm_groups m)" and p: "sm_pools m ! gi = Some p"
    using assms(2) sm_inv_static(4) [OF inv] by simp_all
  then have pg: "is_paged (lg_spec (sm_groups m ! gi))" using inv by (auto simp: sm_inv_def pools_ok_def split: if_splits)
  have ok: "bp_ok p" and c: "conserved (set (bp_free p)) (bp_total p) (owned_by (table_ids gi) (sm_seqs m))"
    by (rule sm_inv_paged [OF inv gi pg]; use p in simp)+
  have "distinct (bp_free p)" using ok descending_distinct by (simp add: bp_ok_def)
  then have "mset (bp_free p) = mset_set (set (bp_free p))" by (simp add: mset_set_set)
  moreover have "mset [0..<bp_total p] = mset_set {..<bp_total p}" by (simp add: lessThan_atLeast0)
  ultimately show ?thesis using c by (simp add: conserved_def owned_by_def table_ids_def)
qed

theorem blocks_conserved_witness:
  "mset (bp_free (the (slot_at (sm_pools demo2) 0))) + (\<Sum>q\<in>dom (sm_seqs demo2). mset (ss_tables (the (sm_seqs demo2 q)) ! 0)) =
     mset [0..<bp_total (the (slot_at (sm_pools demo2) 0))] \<and> length (ss_tables (the (sm_seqs demo2 0)) ! 0) = 2"
proof
  have "\<not> Option.is_none (slot_at (sm_pools demo2) 0)" by code_simp
  then have p: "slot_at (sm_pools demo2) 0 = Some (the (slot_at (sm_pools demo2) 0))"
    by (cases "slot_at (sm_pools demo2) 0") (auto simp del: slot_at_eq_Some)
  show "mset (bp_free (the (slot_at (sm_pools demo2) 0))) + (\<Sum>q\<in>dom (sm_seqs demo2). mset (ss_tables (the (sm_seqs demo2 q)) ! 0)) =
     mset [0..<bp_total (the (slot_at (sm_pools demo2) 0))]" by (rule blocks_conserved [OF demo_reachable(3) p])
  show "length (ss_tables (the (sm_seqs demo2 0)) ! 0) = 2" by code_simp
qed

section \<open>Reserving\<close>

lemma reserve_decides:
  assumes "sm_inv m"
  shows "fst (reserve m q n) = Inr r \<longleftrightarrow>
    can_reserve m q n \<and> r = \<lparr>sr_seq = q, sr_start = ss_ctx_len (the (sm_seqs m q)), sr_len = n\<rparr>"
proof (cases "can_reserve m q n")
  case True
  show ?thesis by (rule reserve_success [OF assms True]) (use True in auto)
next
  case False
  show ?thesis by (rule reserve_refused [OF assms False]) (use False in auto)
qed

text \<open>
  C3. \<open>reserve\<close> decides exactly: it returns a range precisely when the sequence is live with no
  outstanding tail, the request is not empty and ends within the maximal context, and every
  paged group has at least as many free blocks as the sequence misses for the range; and
  the range starts at the committed length.
\<close>

theorem reserve_iff:
  assumes "reachable m"
  shows "fst (reserve m q n) = Inr r \<longleftrightarrow>
    can_reserve m q n \<and> r = \<lparr>sr_seq = q, sr_start = ss_ctx_len (the (sm_seqs m q)), sr_len = n\<rparr>"
  by (rule reserve_decides [OF reachable_inv [OF assms]])

theorem reserve_iff_witness:
  "fst (reserve demo1 0 40) = Inr \<lparr>sr_seq = 0, sr_start = 0, sr_len = 40\<rparr> \<and> can_reserve demo1 0 40"
proof -
  have "fst (reserve demo1 0 40) = Inr \<lparr>sr_seq = 0, sr_start = 0, sr_len = 40\<rparr>" by code_simp
  with reserve_iff [OF demo_reachable(2), of 0 40] show ?thesis by blast
qed

text \<open>
  C4. A refused reservation is atomic: no block moves, no sequence changes and no counter
  moves; only the scratch vector of the scan may differ.
\<close>

theorem reserve_refusal_atomic:
  assumes "reachable m" and "fst (reserve m q n) = Inl e"
  shows "(snd (reserve m q n))\<lparr>sm_reserve_scratch := x\<rparr> = m\<lparr>sm_reserve_scratch := x\<rparr>"
proof (cases "can_reserve m q n")
  case True
  show ?thesis by (rule reserve_success [OF reachable_inv [OF assms(1)] True]) (use assms(2) in auto)
next
  case False
  show ?thesis by (rule reserve_refused [OF reachable_inv [OF assms(1)] False]) auto
qed

theorem reserve_refusal_atomic_witness:
  "(snd (reserve demo2 0 1))\<lparr>sm_reserve_scratch := []\<rparr> = demo2\<lparr>sm_reserve_scratch := []\<rparr>"
proof (rule reserve_refusal_atomic [OF demo_reachable(3)])
  have "fst (reserve demo2 0 1) = Inl (InvalidReserve 1 40)" by code_simp
  then show "fst (reserve demo2 0 1) = Inl (InvalidReserve 1 40)" .
qed

lemma slot_live:
  assumes "sm_seqs m (sr_seq r) = Some s" and "gi < length (sm_groups m)" and "k < sr_len r"
    and "ss_ctx_len s = sr_start r" and "ss_tail_len s = sr_len r" and "sr_start r + k < 2 ^ 32"
  shows "slot m r gi k = (if is_paged (lg_spec (sm_groups m ! gi)) then flatten_slot s gi (sr_start r + k) (sr_end r)
      else Inr SLOT_NONE)"
  using assms by (simp add: slot_def sm_seq_def check_range_live_def get_def checked_add_def)

text \<open>
  After a successful \<open>reserve\<close> every position of the range has a slot in every paged
  group, and the slot of every recurrent group is \<open>SLOT_NONE\<close>; the blocks held before keep
  their ids.
\<close>

theorem reserve_maps_range:
  assumes "reachable m" and "reserve m q n = (Inr r, m')" and "gi < length (sm_groups m)" and "k < n"
  shows "if is_paged (lg_spec (sm_groups m ! gi)) then \<exists>sid < SLOT_NONE. slot m' r gi k = Inr sid
    else slot m' r gi k = Inr SLOT_NONE"
proof -
  note inv = reachable_inv [OF assms(1)]
  have can: "can_reserve m q n" using reserve_decides [OF inv, of q n r] assms(2) by simp
  obtain s s' where s: "sm_seqs m q = Some s" and r: "r = \<lparr>sr_seq = q, sr_start = ss_ctx_len s, sr_len = n\<rparr>"
    and q': "sm_seqs m' = (sm_seqs m)(q \<mapsto> s')" and inv': "sm_inv m'" and geo: "same_geometry m m'"
    and s': "s' = s\<lparr>ss_tail_len := n, ss_compacted := None, ss_indices := ss_indices s', ss_tables := ss_tables s'\<rparr>"
    by (rule reserve_success [OF inv can]) (use assms(2) in auto)
  have f: "ss_ctx_len s' = ss_ctx_len s" "ss_tail_len s' = n" by (subst s', simp)+
  have live: "sm_seqs m' q = Some s'" and gs: "sm_groups m' = sm_groups m"
    using q' geo by (simp_all add: same_geometry_def)
  have lt: "ss_ctx_len s + k < 2 ^ 32" using seq_ok_len [OF inv' live] f assms(4) by simp
  have sl: "slot m' r gi k = (if is_paged (lg_spec (sm_groups m ! gi))
      then flatten_slot s' gi (ss_ctx_len s + k) (ss_ctx_len s + n) else Inr SLOT_NONE)"
    using slot_live [of m' r s' gi k] live gs f r assms(3,4) lt by (simp add: sr_end_def)
  show ?thesis
  proof (cases "is_paged (lg_spec (sm_groups m ! gi))")
    case True
    have ok': "seq_ok (sm_config m') (sm_groups m') s'" by (rule sm_inv_seq [OF inv' live])
    have "(ss_ctx_len s + k) div 32 \<in> set (ss_indices s' ! gi)"
      by (rule tail_mapped [OF ok']) (use gs True f assms(3,4) in simp_all)
    then obtain i where i: "block_map s' gi ((ss_ctx_len s + k) div 32) = Some i"
      using dom_block_map [of s' gi] seq_ok_tables [OF ok'] gs assms(3) by (auto simp: tables_ok_def)
    from flatten_slot_mapped [OF inv' live _ i] gs assms(3) sl True show ?thesis by auto
  qed (simp add: sl)
qed

theorem reserve_maps_range_witness:
  "if is_paged (lg_spec (sm_groups demo1 ! 0)) then \<exists>sid < SLOT_NONE. slot demo2 \<lparr>sr_seq = 0, sr_start = 0, sr_len = 40\<rparr> 0 33 = Inr sid
    else slot demo2 \<lparr>sr_seq = 0, sr_start = 0, sr_len = 40\<rparr> 0 33 = Inr SLOT_NONE"
proof (rule reserve_maps_range [OF demo_reachable(2)])
  have "fst (reserve demo1 0 40) = Inr \<lparr>sr_seq = 0, sr_start = 0, sr_len = 40\<rparr>" by code_simp
  then show "reserve demo1 0 40 = (Inr \<lparr>sr_seq = 0, sr_start = 0, sr_len = 40\<rparr>, demo2)"
    using demo2_reserve by (metis prod.collapse)
  show "0 < length (sm_groups demo1)" by code_simp
qed simp

text \<open>
  The bulk form \<open>fill_slots\<close> agrees with \<open>slot\<close>: on a non-empty range and a buffer that is
  long enough it writes exactly the row of single lookups and leaves the rest of the buffer,
  or fails with the error of the first failing lookup.
\<close>

theorem fill_slots_pointwise:
  assumes "0 < sr_len r" and "sr_len r \<le> length out"
  shows "fill_slots m r gi out =
    bind_r (map_r (slot m r gi) [0..<sr_len r]) (\<lambda>row. Inr (row @ drop (sr_len r) out))"
proof -
  have cons: "[0..<sr_len r] = 0 # [1..<sr_len r]" using assms(1) by (simp add: upt_conv_Cons)
  show ?thesis
  proof (cases "get (sm_groups m) gi")
    case None
    show ?thesis using assms by (simp add: fill_slots_def slot_def cons None)
  next
    case (Some g)
    show ?thesis
    proof (cases "sm_seqs m (sr_seq r)")
      case None
      show ?thesis using assms by (simp add: fill_slots_def slot_def cons sm_seq_def Some None)
    next
      case seq: (Some s)
      show ?thesis
      proof (cases "check_range_live s r")
        case (Inl e)
        show ?thesis using assms by (simp add: fill_slots_def slot_def cons sm_seq_def Some seq Inl)
      next
        case (Inr u)
        have sl: "slot m r gi k = (if is_paged (lg_spec g)
            then bind_r (ok_or (Overflow ''slot position'') (checked_add 32 (sr_start r) k))
                   (\<lambda>pos. flatten_slot s gi pos (sr_end r)) else Inr SLOT_NONE)" if "k < sr_len r" for k
          unfolding slot_def Some ok_or_simps bind_r_simps sm_seq_def seq Inr using that by simp
        have row: "map_r (slot m r gi) [0..<sr_len r] = map_r (\<lambda>k. if is_paged (lg_spec g)
            then bind_r (ok_or (Overflow ''slot position'') (checked_add 32 (sr_start r) k))
                   (\<lambda>pos. flatten_slot s gi pos (sr_end r)) else Inr SLOT_NONE) [0..<sr_len r]"
          by (rule map_r_cong) (use sl in simp_all)
        show ?thesis
          unfolding row fill_slots_def Some ok_or_simps bind_r_simps sm_seq_def seq Inr using assms(2)
          by (cases "is_paged (lg_spec g)") (simp_all add: map_r_total [of _ _ "\<lambda>_. SLOT_NONE"] map_replicate_const)
      qed
    qed
  qed
qed

theorem fill_slots_pointwise_witness:
  "fill_slots demo2 \<lparr>sr_seq = 0, sr_start = 0, sr_len = 40\<rparr> 0 (replicate 41 9) =
    bind_r (map_r (slot demo2 \<lparr>sr_seq = 0, sr_start = 0, sr_len = 40\<rparr> 0) [0..<40])
      (\<lambda>row. Inr (row @ drop 40 (replicate 41 9)))"
  using fill_slots_pointwise [of "\<lparr>sr_seq = 0, sr_start = 0, sr_len = 40\<rparr>" "replicate 41 9" demo2 0] by simp

section \<open>Committing and retention\<close>

lemma commit_decides:
  assumes "sm_inv m"
  shows "(fst (commit m q accepted) = Inr () \<longleftrightarrow> can_commit m q accepted) \<and>
    (\<not> can_commit m q accepted \<longrightarrow> snd (commit m q accepted) = m)"
proof (cases "can_commit m q accepted")
  case True
  show ?thesis by (rule commit_success [OF assms True]) (use True in auto)
next
  case False
  with commit_refused [OF assms False] show ?thesis by simp
qed

text \<open>
  C33. \<open>commit\<close> decides exactly and is atomic: it succeeds precisely when the sequence is live
  with a tail, accepts no more than the tail, agrees with a preceding compaction and the
  counters do not overflow; otherwise the manager is unchanged. No eviction check and no
  release can fail on a reachable manager.
\<close>

theorem commit_iff:
  assumes "reachable m"
  shows "(fst (commit m q accepted) = Inr () \<longleftrightarrow> can_commit m q accepted) \<and>
    (\<not> can_commit m q accepted \<longrightarrow> snd (commit m q accepted) = m)"
  by (rule commit_decides [OF reachable_inv [OF assms]])

theorem commit_iff_witness:
  "fst (commit demo2 0 35) = Inr () \<and> can_commit demo2 0 35 \<and> \<not> can_commit demo2 0 41 \<and> snd (commit demo2 0 41) = demo2"
proof -
  have ok: "isl (fst (commit demo2 0 35)) = False" and bad: "isl (fst (commit demo2 0 41)) = True" by code_simp+
  have r: "fst (commit demo2 0 35) = Inr ()" using ok by (cases "fst (commit demo2 0 35)") auto
  have n: "fst (commit demo2 0 41) \<noteq> Inr ()" using bad by auto
  show ?thesis using r n commit_iff [OF demo_reachable(3), of 0 35] commit_iff [OF demo_reachable(3), of 0 41] by blast
qed

text \<open>What a retention policy promises at a committed length: the positions it keeps, and the blocks that hold one of them.\<close>

definition retained :: "retain \<Rightarrow> nat \<Rightarrow> nat \<Rightarrow> bool" where
  "retained r ctx p = (case r of
     RetainAll \<Rightarrow> True | Window w \<Rightarrow> ctx - w \<le> p | SinkWindow n w \<Rightarrow> p < n \<or> ctx - w \<le> p)"

definition block_retained :: "layer_group \<Rightarrow> nat \<Rightarrow> nat \<Rightarrow> bool" where
  "block_retained g ctx b = (case spec_retain (lg_spec g) of None \<Rightarrow> True | Some r \<Rightarrow> \<exists>p \<in> {32 * b..<32 * b + 32}. retained r ctx p)"

lemma window_block: "(\<exists>p \<in> {32 * b..<32 * b + 32}. x \<le> p) \<longleftrightarrow> x div 32 \<le> (b::nat)"
proof
  assume "x div 32 \<le> b"
  then have "x \<le> 32 * b + 31" by linarith
  then show "\<exists>p \<in> {32 * b..<32 * b + 32}. x \<le> p" by (intro bexI [of _ "32 * b + 31"]) auto
qed auto

lemma sink_block: "(\<exists>p \<in> {32 * b..<32 * b + 32}. p < n) \<longleftrightarrow> b < div_ceil n (32::nat)"
proof -
  have "(\<exists>p \<in> {32 * b..<32 * b + 32}. p < n) \<longleftrightarrow> 32 * b < n" by (auto intro: bexI [of _ "32 * b"])
  then show ?thesis using div_ceil_le_iff [of 32 n b] by (simp add: not_le [symmetric] mult.commute)
qed

lemma evicted_iff: "evicted ctx g b \<longleftrightarrow> \<not> block_retained g ctx b"
proof (cases "spec_retain (lg_spec g)")
  case (Some r)
  then show ?thesis
    by (cases r) (auto simp: evicted_def evict_range_def window_start_of_def block_retained_def retained_def retain_window_def sink_blocks_def Let_def
      window_block sink_block bex_disj_distrib simp del: bex_simps)
qed (simp add: evicted_def evict_range_def block_retained_def)

lemma retained_not_evicted:
  assumes "spec_retain (lg_spec g) = Some r" and "retained r ctx p"
  shows "\<not> evicted ctx g (p div 32)"
proof -
  have "p \<in> {32 * (p div 32)..<32 * (p div 32) + 32}" by simp
  then show ?thesis using assms by (auto simp: evicted_iff block_retained_def)
qed



text \<open>
  C35. Every position that the retention policy keeps is resident: in every reachable manager a
  committed or reserved position inside the window, or below the sink count, has a slot.
\<close>

theorem retained_positions_resident:
  assumes "reachable m" and "sm_seqs m q = Some s" and "gi < length (sm_groups m)"
    and "spec_retain (lg_spec (sm_groups m ! gi)) = Some r"
    and "p < ss_ctx_len s + ss_tail_len s" and "retained r (ss_ctx_len s) p"
  shows "\<exists>sid < SLOT_NONE. flatten_slot s gi p e = Inr sid"
proof -
  note inv = reachable_inv [OF assms(1)] and ok = sm_inv_seq [OF reachable_inv [OF assms(1)] assms(2)]
  have pg: "is_paged (lg_spec (sm_groups m ! gi))" using assms(4) spec_retain_None_iff by (metis option.distinct(1))
  have "p div 32 * 32 \<le> p" by (simp add: div_times_less_eq_dividend)
  then have "p div 32 < div_ceil (ss_ctx_len s + ss_tail_len s) 32" using assms(5) by (simp add: less_div_ceil_iff)
  with seq_ok_table [OF ok assms(3)] pg retained_not_evicted [OF assms(4,6)]
  have "p div 32 \<in> set (ss_indices s ! gi)" by (auto simp: table_ok_def)
  then obtain i where i: "block_map s gi (p div 32) = Some i"
    using dom_block_map [of s gi] seq_ok_tables [OF ok] assms(3) by (auto simp: tables_ok_def)
  from flatten_slot_mapped [OF inv assms(2,3) i] show ?thesis by blast
qed

theorem retained_positions_resident_witness:
  "\<exists>sid < SLOT_NONE. flatten_slot (the (sm_seqs demo2 0)) 1 33 40 = Inr sid"
proof (rule retained_positions_resident [OF demo_reachable(3) demo_live(2), where r = "SinkWindow 1 32"])
  show "1 < length (sm_groups demo2)" by code_simp
  show "spec_retain (lg_spec (sm_groups demo2 ! 1)) = Some (SinkWindow 1 32)" by code_simp
  show "33 < ss_ctx_len (the (sm_seqs demo2 0)) + ss_tail_len (the (sm_seqs demo2 0))" by code_simp
  show "retained (SinkWindow 1 32) (ss_ctx_len (the (sm_seqs demo2 0))) 33" by code_simp
qed

lemma flatten_slot_same_map:
  assumes "tables_ok n s" and "tables_ok n s'" and "gi < n" and "block_map s gi = block_map s' gi"
  shows "flatten_slot s gi p e = flatten_slot s' gi p e"
  using assms by (simp add: flatten_slot_map [OF assms(1,3)] flatten_slot_map [OF assms(2,3)])

lemma evicted_restrict_id:
  assumes "seq_ok c gs s" and "gi < length gs" and "ctx = ss_ctx_len s"
  shows "block_map s gi |` {b. \<not> evicted ctx (gs ! gi) b} = block_map s gi"
proof -
  have "\<not> evicted ctx (gs ! gi) b" if "b \<in> set (ss_indices s ! gi)" for b
    using seq_ok_table [OF assms(1,2)] that assms(3) by (auto simp: table_ok_def split: if_splits)
  moreover have "dom (block_map s gi) = set (ss_indices s ! gi)"
    by (rule dom_block_map) (use seq_ok_tables [OF assms(1)] assms(2) in \<open>simp add: tables_ok_def\<close>)
  ultimately show ?thesis by (intro ext) (auto simp: restrict_map_def, metis domIff)
qed

lemma range_resident_reserve:
  assumes inv: "sm_inv m" and s: "sm_seqs m q = Some s" and n: "0 < n" "ss_tail_len s = 0"
    and fits: "ss_ctx_len s + n \<le> sc_max_ctx (sm_config m)"
    and held: "\<And>gi. gi < length (sm_groups m) \<Longrightarrow> is_paged (lg_spec (sm_groups m ! gi)) \<Longrightarrow>
      {first_block s..<last_block s n} \<subseteq> set (ss_indices s ! gi)"
  shows "\<exists>m' s'. reserve m q n = (Inr \<lparr>sr_seq = q, sr_start = ss_ctx_len s, sr_len = n\<rparr>, m') \<and>
    sm_seqs m' q = Some s' \<and> sm_inv m' \<and> sm_groups m' = sm_groups m \<and>
    ss_ctx_len s' = ss_ctx_len s \<and> ss_tail_len s' = n \<and>
    (\<forall>gi < length (sm_groups m). block_map s' gi = block_map s gi)"
proof -
  have miss: "missing_blocks (first_block s) (last_block s n) s gi = []"
    if "gi < length (sm_groups m)" "is_paged (lg_spec (sm_groups m ! gi))" for gi
    using held [OF that] by (auto simp: missing_blocks_def filter_empty_conv)
  then have can: "can_reserve m q n" using s n fits by (simp add: can_reserve_def blocks_available_def)
  obtain s' m' where r: "reserve m q n = (Inr \<lparr>sr_seq = q, sr_start = ss_ctx_len s, sr_len = n\<rparr>, m')"
    and q': "sm_seqs m' = (sm_seqs m)(q \<mapsto> s')" and inv': "sm_inv m'" and geo: "same_geometry m m'"
    and s': "s' = s\<lparr>ss_tail_len := n, ss_compacted := None, ss_indices := ss_indices s', ss_tables := ss_tables s'\<rparr>"
    and le: "\<forall>gi < length (sm_groups m). block_map s gi \<subseteq>\<^sub>m block_map s' gi"
    and ix: "\<forall>gi < length (sm_groups m). is_paged (lg_spec (sm_groups m ! gi)) \<longrightarrow>
        set (ss_indices s' ! gi) = set (ss_indices s ! gi) \<union> {first_block s..<last_block s n}"
    by (rule reserve_success [OF inv can]) (use s in auto)
  have gs: "sm_groups m' = sm_groups m" using geo by (simp add: same_geometry_def)
  have f: "ss_ctx_len s' = ss_ctx_len s" "ss_tail_len s' = n" by (subst s', simp)+
  have live: "sm_seqs m' q = Some s'" using q' by simp
  note t = seq_ok_tables [OF sm_inv_seq [OF inv s]] and ok' = sm_inv_seq [OF inv' live, unfolded gs]
  have "block_map s' gi = block_map s gi" if gi: "gi < length (sm_groups m)" for gi
  proof (cases "is_paged (lg_spec (sm_groups m ! gi))")
    case True
    have "dom (block_map s' gi) = dom (block_map s gi)"
      using ix gi True held [OF gi True] t seq_ok_tables [OF ok'] by (auto simp: dom_block_map tables_ok_def)
    with le gi show ?thesis by (metis map_le_antisym map_le_def)
  next
    case False
    with seq_ok_unpaged [OF ok' gi] seq_ok_unpaged [OF sm_inv_seq [OF inv s] gi] show ?thesis
      by (simp add: block_map_def)
  qed
  with r live inv' gs f show ?thesis by blast
qed

lemma reserve_Inr:
  assumes "sm_inv m" and "reserve m q n = (Inr r, m1)"
  obtains s s1 where "sm_seqs m q = Some s" and "0 < n" and "ss_ctx_len s + n \<le> sc_max_ctx (sm_config m)"
    and "r = \<lparr>sr_seq = q, sr_start = ss_ctx_len s, sr_len = n\<rparr>" and "sm_seqs m1 q = Some s1" and "sm_inv m1"
    and "sm_groups m1 = sm_groups m" and "sm_config m1 = sm_config m"
    and "ss_ctx_len s1 = ss_ctx_len s" and "ss_tail_len s1 = n"
    and "\<And>gi. gi < length (sm_groups m) \<Longrightarrow> is_paged (lg_spec (sm_groups m ! gi)) \<Longrightarrow>
      {first_block s..<last_block s n} \<subseteq> set (ss_indices s1 ! gi)"
proof (cases "can_reserve m q n")
  case True
  show thesis
  proof (rule reserve_success [OF assms(1) True])
    fix s s' m' assume a: "sm_seqs m q = Some s"
      "reserve m q n = (Inr \<lparr>sr_seq = q, sr_start = ss_ctx_len s, sr_len = n\<rparr>, m')"
      "sm_seqs m' = (sm_seqs m)(q \<mapsto> s')" "sm_inv m'" "same_geometry m m'"
      "s' = s\<lparr>ss_tail_len := n, ss_compacted := None, ss_indices := ss_indices s', ss_tables := ss_tables s'\<rparr>"
      "\<forall>gi < length (sm_groups m). is_paged (lg_spec (sm_groups m ! gi)) \<longrightarrow>
        set (ss_indices s' ! gi) = set (ss_indices s ! gi) \<union> {first_block s..<last_block s n}"
    have f: "ss_ctx_len s' = ss_ctx_len s" "ss_tail_len s' = n" by (subst a(6), simp)+
    show thesis
      by (rule that [of s s']) (use a f assms(2) True in \<open>auto simp: same_geometry_def can_reserve_def\<close>)
  qed
next
  case False
  show thesis by (rule reserve_refused [OF assms(1) False]) (use assms(2) in simp)
qed

lemma commit_0_keeps_blocks:
  assumes "sm_inv m1" and "sm_seqs m1 q = Some s1" and "commit m1 q 0 = (Inr (), m2)"
  obtains s2 where "sm_inv m2" and "sm_seqs m2 q = Some s2" and "sm_groups m2 = sm_groups m1" and "sm_config m2 = sm_config m1"
    and "ss_ctx_len s2 = ss_ctx_len s1" and "ss_tail_len s2 = 0"
    and "\<And>gi. gi < length (sm_groups m1) \<Longrightarrow> block_map s2 gi = block_map s1 gi"
proof (cases "can_commit m1 q 0")
  case True
  show thesis
  proof (rule commit_success [OF assms(1) True])
    fix s0 s' m' assume "sm_seqs m1 q = Some s0" "commit m1 q 0 = (Inr (), m')" "sm_inv m'" "same_geometry m1 m'"
      "sm_seqs m' = (sm_seqs m1)(q \<mapsto> s')" "ss_ctx_len s' = ss_ctx_len s0 + 0" "ss_tail_len s' = 0"
      "\<forall>gi < length (sm_groups m1). block_map s' gi = block_map s0 gi |` {b. \<not> evicted (ss_ctx_len s') (sm_groups m1 ! gi) b}"
    then show thesis
      using that [of s'] assms evicted_restrict_id [OF sm_inv_seq [OF assms(1,2)]] by (simp add: same_geometry_def)
  qed
next
  case False
  with commit_refused [OF assms(1)] assms(3) show thesis by simp
qed

text \<open>
  Rejecting a whole tail and reserving again is stable: after \<open>reserve\<close> and \<open>commit 0\<close> the
  same reservation succeeds again, needs no block, and every position gets the slot it had.
\<close>

theorem reserve_after_rollback:
  assumes "reachable m" and "reserve m q n = (Inr r, m1)" and "commit m1 q 0 = (Inr (), m2)"
  shows "\<exists>m3. reserve m2 q n = (Inr r, m3) \<and>
    (\<forall>gi < length (sm_groups m). \<forall>k < n. slot m3 r gi k = slot m1 r gi k)"
proof -
  obtain s s1 where "sm_seqs m q = Some s" and nf: "0 < n" "ss_ctx_len s + n \<le> sc_max_ctx (sm_config m)"
    and r: "r = \<lparr>sr_seq = q, sr_start = ss_ctx_len s, sr_len = n\<rparr>" and live1: "sm_seqs m1 q = Some s1" and inv1: "sm_inv m1"
    and gs1: "sm_groups m1 = sm_groups m" "sm_config m1 = sm_config m" and f1: "ss_ctx_len s1 = ss_ctx_len s" "ss_tail_len s1 = n"
    and ix1: "\<And>gi. gi < length (sm_groups m) \<Longrightarrow> is_paged (lg_spec (sm_groups m ! gi)) \<Longrightarrow>
      {first_block s..<last_block s n} \<subseteq> set (ss_indices s1 ! gi)"
    by (rule reserve_Inr [OF reachable_inv [OF assms(1)] assms(2)]) blast
  obtain s2 where inv2: "sm_inv m2" and live2: "sm_seqs m2 q = Some s2"
    and gs2: "sm_groups m2 = sm_groups m1" "sm_config m2 = sm_config m1"
    and f2: "ss_ctx_len s2 = ss_ctx_len s1" "ss_tail_len s2 = 0"
    and bm2: "\<And>gi. gi < length (sm_groups m1) \<Longrightarrow> block_map s2 gi = block_map s1 gi"
    by (rule commit_0_keeps_blocks [OF inv1 live1 assms(3)]) blast
  note t1 = seq_ok_tables [OF sm_inv_seq [OF inv1 live1], unfolded gs1]
    and t2 = seq_ok_tables [OF sm_inv_seq [OF inv2 live2], unfolded gs2 gs1]
  have held: "{first_block s2..<last_block s2 n} \<subseteq> set (ss_indices s2 ! gi)"
    if gi: "gi < length (sm_groups m2)" "is_paged (lg_spec (sm_groups m2 ! gi))" for gi
  proof -
    have "set (ss_indices s2 ! gi) = set (ss_indices s1 ! gi)"
      using dom_block_map [of s2 gi] dom_block_map [of s1 gi] bm2 [of gi] t1 t2 gi gs1 gs2 by (simp add: tables_ok_def)
    then show ?thesis using ix1 [of gi] gi gs1 gs2 f1 f2 by (simp add: first_block_def last_block_def)
  qed
  obtain m3 s3 where r3: "reserve m2 q n = (Inr \<lparr>sr_seq = q, sr_start = ss_ctx_len s2, sr_len = n\<rparr>, m3)"
    and live3: "sm_seqs m3 q = Some s3" and inv3: "sm_inv m3" and gs3: "sm_groups m3 = sm_groups m2"
    and f3: "ss_ctx_len s3 = ss_ctx_len s2" "ss_tail_len s3 = n"
    and bm3: "\<And>gi. gi < length (sm_groups m2) \<Longrightarrow> block_map s3 gi = block_map s2 gi"
    using range_resident_reserve [OF inv2 live2 nf(1) f2(2) _ held] nf(2) f1 f2 gs1 gs2 by auto
  note t3 = seq_ok_tables [OF sm_inv_seq [OF inv3 live3], unfolded gs3 gs2 gs1]
  have "slot m3 r gi k = slot m1 r gi k" if gi: "gi < length (sm_groups m)" and k: "k < n" for gi k
  proof -
    have lt: "ss_ctx_len s + k < 2 ^ 32" using seq_ok_len [OF inv1 live1] f1 k by simp
    have "flatten_slot s3 gi p e = flatten_slot s1 gi p e" for p e
      by (rule flatten_slot_same_map [OF t3 t1 gi]) (simp add: bm2 bm3 gi gs1 gs2)
    with slot_live [of m3 r s3 gi k] slot_live [of m1 r s1 gi k] live1 live3 gs1 gs2 gs3 f1 f2 f3 r gi k lt
    show ?thesis by simp
  qed
  with r3 r f1 f2 show ?thesis by auto
qed

theorem reserve_after_rollback_witness:
  "\<exists>m3. reserve (snd (commit demo2 0 0)) 0 40 = (Inr \<lparr>sr_seq = 0, sr_start = 0, sr_len = 40\<rparr>, m3) \<and>
    (\<forall>gi < length (sm_groups demo1). \<forall>k < 40. slot m3 \<lparr>sr_seq = 0, sr_start = 0, sr_len = 40\<rparr> gi k =
       slot demo2 \<lparr>sr_seq = 0, sr_start = 0, sr_len = 40\<rparr> gi k)"
proof (rule reserve_after_rollback [OF demo_reachable(2)])
  have "fst (reserve demo1 0 40) = Inr \<lparr>sr_seq = 0, sr_start = 0, sr_len = 40\<rparr>" by code_simp
  then show "reserve demo1 0 40 = (Inr \<lparr>sr_seq = 0, sr_start = 0, sr_len = 40\<rparr>, demo2)"
    using demo2_reserve by (metis prod.collapse)
  have "fst (commit demo2 0 0) = Inr ()" by code_simp
  then show "commit demo2 0 0 = (Inr (), snd (commit demo2 0 0))" by (metis prod.collapse)
qed

section \<open>Tokens\<close>

text \<open>
  Tokens written into the reserved tail read back, in every paged group, at the positions
  they were written to.
\<close>

theorem write_read_tokens:
  assumes "reachable m" and "write_tokens m q start ts = (Inr (), m')"
    and "gi < length (sm_groups m)" and "is_paged (lg_spec (sm_groups m ! gi))" and "i < length ts"
  shows "read_token m' q gi (start + i) = Inr (Some (ts ! i))"
proof -
  note inv = reachable_inv [OF assms(1)]
  have eq: "write_tokens m q start ts = (if can_write m q start ts
     then (Inr (), m\<lparr>sm_seqs := (sm_seqs m)(q \<mapsto> (the (sm_seqs m q))\<lparr>ss_mirror :=
             written (sm_groups m) start ts (ss_mirror (the (sm_seqs m q)))\<rparr>)\<rparr>)
     else (Inl (projl (fst (write_tokens m q start ts))), m))" by (rule write_tokens_eq [OF inv])
  have can: "can_write m q start ts" using eq assms(2) by (cases "can_write m q start ts") auto
  then obtain s where s: "sm_seqs m q = Some s" "start + length ts \<le> ss_ctx_len s + ss_tail_len s"
    by (auto simp: can_write_def split: option.splits)
  have m': "m' = m\<lparr>sm_seqs := (sm_seqs m)(q \<mapsto> s\<lparr>ss_mirror := written (sm_groups m) start ts (ss_mirror s)\<rparr>)\<rparr>"
    using eq assms(2) can s(1) by auto
  show ?thesis
    using s seq_ok_len [OF inv s(1)] assms(3-5)
    by (simp add: m' read_token_def sm_seq_def checked_add_def written_def)
qed

theorem write_read_tokens_witness:
  "read_token demo3 0 1 (0 + 2) = Inr (Some ([10, 11, 12, 13] ! 2))"
proof (rule write_read_tokens [OF demo_reachable(3)])
  have "fst (write_tokens demo2 0 0 [10, 11, 12, 13]) = Inr ()" by code_simp
  then show "write_tokens demo2 0 0 [10, 11, 12, 13] = (Inr (), demo3)"
    unfolding demo3_def by (metis prod.collapse)
  show "1 < length (sm_groups demo2)" and "is_paged (lg_spec (sm_groups demo2 ! 1))" by code_simp+
qed simp

text \<open>
  Compaction moves the accepted tail positions, in the order given, to the front of the
  tail: position \<open>ctx + i\<close> afterwards holds what the \<open>i\<close>-th accepted position held before, even
  when source and destination ranges overlap; the returned operation names these sources.
\<close>

theorem compact_moves_tokens:
  assumes "reachable m" and "sm_seqs m q = Some s" and "compact m q accepted = (Inr op, m')"
    and "gi < length (sm_groups m)" and "is_paged (lg_spec (sm_groups m ! gi))" and "i < length accepted"
  shows "read_token m' q gi (ss_ctx_len s + i) = read_token m q gi (ss_ctx_len s + accepted ! i) \<and>
    src_positions op = map ((+) (ss_ctx_len s)) accepted \<and> co_dst_start op = ss_ctx_len s"
proof -
  note inv = reachable_inv [OF assms(1)]
  have eq: "compact m q accepted = (if can_compact m q accepted then compact_result m q accepted (the (sm_seqs m q))
     else (Inl (projl (fst (compact m q accepted))), m))" by (rule compact_eq [OF inv])
  have can: "can_compact m q accepted" using eq assms(3) by (cases "can_compact m q accepted") auto
  then have c: "distinct accepted" "\<forall>p \<in> set accepted. p < ss_tail_len s" using assms(2) by (simp_all add: can_compact_def)
  have len: "length accepted \<le> ss_tail_len s" by (rule distinct_bounded_length [OF c])
  have res: "(Inr op, m') = compact_result m q accepted s" using eq assms(2,3) can by simp
  have lt: "accepted ! i < ss_tail_len s" using c(2) assms(6) by simp
  show ?thesis
    using res assms(2,4-6) seq_ok_len [OF inv assms(2)] len lt
    by (simp add: compact_result_def Let_def read_token_def sm_seq_def checked_add_def compacted_def src_positions_def)
qed

theorem compact_moves_tokens_witness:
  "read_token (snd (compact demo3 0 [2, 0])) 0 0 (ss_ctx_len (the (sm_seqs demo3 0)) + 0) =
     read_token demo3 0 0 (ss_ctx_len (the (sm_seqs demo3 0)) + [2, 0] ! 0) \<and>
   src_positions (projr (fst (compact demo3 0 [2, 0]))) = map ((+) (ss_ctx_len (the (sm_seqs demo3 0)))) [2, 0] \<and>
   co_dst_start (projr (fst (compact demo3 0 [2, 0]))) = ss_ctx_len (the (sm_seqs demo3 0))"
proof (rule compact_moves_tokens [OF demo_reachable(4) demo_live(3)])
  have "\<not> isl (fst (compact demo3 0 [2, 0]))" by code_simp
  then show "compact demo3 0 [2, 0] = (Inr (projr (fst (compact demo3 0 [2, 0]))), snd (compact demo3 0 [2, 0]))"
    by (metis prod.collapse sum.collapse(2))
  show "0 < length (sm_groups demo3)" and "is_paged (lg_spec (sm_groups demo3 ! 0))" by code_simp+
qed simp

section \<open>Lifecycle\<close>

text \<open>
  \<open>new_seq\<close> decides exactly: it succeeds precisely when the prompt fits the context, fewer
  than the maximal number of sequences live and ids are left; it returns a fresh id and
  context length 0, and a refusal changes nothing. In particular a recurrent slot is always
  available when the live count allows a sequence.
\<close>

theorem new_seq_iff:
  assumes "reachable m"
  shows "if can_start m tokens
    then fst (new_seq m tokens) = Inr (sm_next_seq m, 0) \<and> sm_seqs m (sm_next_seq m) = None \<and>
      sm_ctx_len (snd (new_seq m tokens)) (sm_next_seq m) = Inr 0
    else \<exists>e. new_seq m tokens = (Inl e, m)"
proof (cases "can_start m tokens")
  case True
  show ?thesis
    by (rule new_seq_success [OF reachable_inv [OF assms] True])
       (use True in \<open>simp add: sm_ctx_len_def sm_seq_def fresh_seq_def\<close>)
next
  case False
  then show ?thesis using new_seq_refused [OF False] by simp
qed

theorem new_seq_iff_witness:
  "if can_start demo1 [5]
    then fst (new_seq demo1 [5]) = Inr (sm_next_seq demo1, 0) \<and> sm_seqs demo1 (sm_next_seq demo1) = None \<and>
      sm_ctx_len (snd (new_seq demo1 [5])) (sm_next_seq demo1) = Inr 0
    else \<exists>e. new_seq demo1 [5] = (Inl e, demo1)"
  by (rule new_seq_iff [OF demo_reachable(2)])

text \<open>
  \<open>free_seq\<close> of a live sequence never fails: the sequence is gone, exactly its blocks and its
  recurrent slots become free, and every other sequence is untouched.
\<close>

theorem free_seq_returns_everything:
  assumes "reachable m" and "sm_seqs m q = Some s"
  shows "\<exists>m'. free_seq m q = (Inr (), m') \<and> sm_seqs m' = (sm_seqs m)(q := None) \<and>
    (\<forall>gi < length (sm_groups m).
      (\<forall>p. sm_pools m ! gi = Some p \<longrightarrow> (\<exists>p'. sm_pools m' ! gi = Some p' \<and>
         set (bp_free p') = set (bp_free p) \<union> set (ss_tables s ! gi))) \<and>
      (\<forall>f. sm_fixed m ! gi = Some f \<longrightarrow> (\<exists>f' i. ss_fixed_slots s ! gi = Some i \<and> sm_fixed m' ! gi = Some f' \<and>
         set (fp_free f') = insert i (set (fp_free f)))))"
  by (rule free_seq_success [OF reachable_inv [OF assms(1)] assms(2)]) blast

theorem free_seq_returns_everything_witness:
  "\<exists>m'. free_seq demo2 0 = (Inr (), m') \<and> sm_seqs m' = (sm_seqs demo2)(0 := None) \<and>
    (\<forall>gi < length (sm_groups demo2).
      (\<forall>p. sm_pools demo2 ! gi = Some p \<longrightarrow> (\<exists>p'. sm_pools m' ! gi = Some p' \<and>
         set (bp_free p') = set (bp_free p) \<union> set (ss_tables (the (sm_seqs demo2 0)) ! gi))) \<and>
      (\<forall>f. sm_fixed demo2 ! gi = Some f \<longrightarrow> (\<exists>f' i. ss_fixed_slots (the (sm_seqs demo2 0)) ! gi = Some i \<and>
         sm_fixed m' ! gi = Some f' \<and> set (fp_free f') = insert i (set (fp_free f)))))"
  by (rule free_seq_returns_everything [OF demo_reachable(3) demo_live(2)])

lemma lone_blocks_available:
  assumes inv: "sm_inv m" and dom: "dom (sm_seqs m) = {q}" and s: "sm_seqs m q = Some s"
    and gi: "gi < length (sm_groups m)" "is_paged (lg_spec (sm_groups m ! gi))" and lb: "lb \<le> max_blocks (sm_config m)"
  shows "blocks_available fb lb (sm_pools m) s gi"
proof -
  obtain p where sl: "slot_at (sm_pools m) gi = Some p" and ok: "bp_ok p" and mb: "sm_max_blocks m \<le> bp_total p"
    and c: "conserved (set (bp_free p)) (bp_total p) (owned_by (table_ids gi) (sm_seqs m))"
    by (rule sm_inv_paged [OF inv gi])
  note st = sm_inv_static [OF inv] and t = seq_ok_tables [OF sm_inv_seq [OF inv s]]
  let ?ix = "ss_indices s ! gi"
  have d: "distinct ?ix" and len: "length (ss_tables s ! gi) = length ?ix"
    using t gi ascending_distinct by (auto simp: tables_ok_def)
  have "owned_by (table_ids gi) (sm_seqs m) = mset (ss_tables s ! gi)" by (simp add: owned_by_def dom s table_ids_def)
  then have free: "length (bp_free p) + length ?ix = bp_total p"
    using conserved_size [OF c] ok descending_distinct [of "bp_free p"] len by (simp add: bp_ok_def distinct_card)
  have "set (missing_blocks fb lb s gi) \<union> set ?ix \<subseteq> {..<max_blocks (sm_config m)}"
    using seq_ok_table [OF sm_inv_seq [OF inv s] gi(1)] gi(2) lb by (auto simp: missing_blocks_def table_ok_def)
  then have "card (set (missing_blocks fb lb s gi) \<union> set ?ix) \<le> max_blocks (sm_config m)"
    using card_mono [of "{..<max_blocks (sm_config m)}"] by simp
  moreover have "card (set (missing_blocks fb lb s gi) \<union> set ?ix) = card (set (missing_blocks fb lb s gi)) + card (set ?ix)"
    by (rule card_Un_disjoint) (auto simp: missing_blocks_def)
  moreover have "distinct (missing_blocks fb lb s gi)" by (simp add: missing_blocks_def)
  ultimately show ?thesis
    using mb st(3) d free by (simp add: blocks_available_def free_in_def sl distinct_card)
qed

text \<open>
  C36. A sequence that has the manager to itself can always reserve up to the maximal context:
  the pool that construction demands is large enough, so a lone sequence is never refused
  for lack of blocks, whatever was reserved, committed, evicted and freed before.
\<close>

theorem lone_sequence_never_starves:
  assumes "reachable m" and "dom (sm_seqs m) = {q}" and "sm_seqs m q = Some s"
    and "ss_tail_len s = 0" and "0 < n" and "ss_ctx_len s + n \<le> sc_max_ctx (sm_config m)"
  shows "fst (reserve m q n) = Inr \<lparr>sr_seq = q, sr_start = ss_ctx_len s, sr_len = n\<rparr>"
proof -
  note inv = reachable_inv [OF assms(1)]
  have "last_block s n \<le> max_blocks (sm_config m)"
    using assms(6) max_blocks_le_iff(2) [OF sm_inv_static(1) [OF inv]] by (simp add: last_block_def div_ceil_le_iff)
  with lone_blocks_available [OF inv assms(2,3)] assms(3-6) have "can_reserve m q n" by (simp add: can_reserve_def)
  then show ?thesis using reserve_decides [OF inv, of q n] assms(3) by simp
qed

theorem lone_sequence_never_starves_witness:
  "fst (reserve demo1 0 128) = Inr \<lparr>sr_seq = 0, sr_start = ss_ctx_len (the (sm_seqs demo1 0)), sr_len = 128\<rparr>"
proof (rule lone_sequence_never_starves [OF demo_reachable(2) _ demo_live(1)])
  show "dom (sm_seqs demo1) = {0}" by (simp add: demo1_def)
  show "ss_tail_len (the (sm_seqs demo1 0)) = 0" by code_simp
  show "ss_ctx_len (the (sm_seqs demo1 0)) + 128 \<le> sc_max_ctx (sm_config demo1)" by code_simp
qed simp

end
