(* ===== verification/State_Arena_Props.thy ===== *)
theory State_Arena_Props
  imports State_Reach
begin

text \<open>
  The properties of grouping, byte accounting, construction, the arena layout, the recurrent
  double buffers and the budget report.
\<close>

section \<open>Grouping\<close>

text \<open>
  Grouping the per-layer declarations of a model yields groups numbered by position,
  with distinct specs in first-occurrence order, each holding exactly the layers declared
  with that spec in strictly ascending order.
\<close>

theorem group_layers_partition:
  assumes "group_layers specs = Inr gs"
  shows "map lg_index gs = [0..<length gs] \<and>
    map lg_spec gs = first_occurrences specs \<and>
    (\<forall>g \<in> set gs. ascending (lg_layers g) \<and>
       set (lg_layers g) = {l. l < length specs \<and> specs ! l = lg_spec g})"
proof -
  have gs: "groups_of (enumerate_decls specs) gs"
    using assms groups_of_infallible by (simp add: group_layers_iff)
  have "map sd_spec (enumerate_decls specs) = specs"
    by (rule nth_equalityI) (simp_all add: enumerate_decls_def)
  moreover have "declared (enumerate_decls specs) sp = {l. l < length specs \<and> specs ! l = sp}" for sp
    by (force simp: declared_def enumerate_decls_def set_zip image_iff)
  ultimately show ?thesis using gs by (simp add: groups_of_def)
qed

theorem group_layers_partition_witness:
  "map lg_spec demo_groups = first_occurrences demo_specs \<and> ascending (lg_layers (demo_groups ! 0)) \<and>
    set (lg_layers (demo_groups ! 0)) = {l. l < length demo_specs \<and> demo_specs ! l = lg_spec (demo_groups ! 0)}"
proof -
  have "demo_groups ! 0 \<in> set demo_groups" by (simp add: demo_groups_def)
  then show ?thesis using group_layers_partition [OF demo_specs_groups] by blast
qed

text \<open>
  Byte accounting of validated groups never overflows and is the documented formula: a
  block is 32 tokens of every layer's keys, values and scales, a sequence slot is two buffers
  of every layer's state.
\<close>

theorem group_bytes_formula:
  assumes "group_layers specs = Inr gs" and "g \<in> set gs"
  shows "group_block_bytes g = Inr (32 * length (lg_layers g) * token_bytes (lg_spec g)) \<and>
    slots_bytes_per_seq g = Inr (length (lg_layers g) * seq_bytes (lg_spec g)) \<and>
    32 * length (lg_layers g) * token_bytes (lg_spec g) < 2 ^ 42 \<and>
    length (lg_layers g) * seq_bytes (lg_spec g) < 2 ^ 50"
proof -
  have g: "spec_ok (lg_spec g)" "length (lg_layers g) \<le> MAX_LAYERS_HARD"
    using group_layers_ok [OF assms(1)] assms(2) by (auto simp: groups_ok_def)
  show ?thesis
    using group_block_bytes_ok [OF g] slots_bytes_per_seq_ok [OF g] group_bytes_bounds [OF g]
    by (simp add: block_bytes_of_def slot_bytes_of_def mult_ac)
qed

theorem group_bytes_formula_witness:
  "group_block_bytes (demo_groups ! 0) =
      Inr (32 * length (lg_layers (demo_groups ! 0)) * token_bytes (lg_spec (demo_groups ! 0))) \<and>
    slots_bytes_per_seq (demo_groups ! 0) =
      Inr (length (lg_layers (demo_groups ! 0)) * seq_bytes (lg_spec (demo_groups ! 0))) \<and>
    32 * length (lg_layers (demo_groups ! 0)) * token_bytes (lg_spec (demo_groups ! 0)) < 2 ^ 42 \<and>
    length (lg_layers (demo_groups ! 0)) * seq_bytes (lg_spec (demo_groups ! 0)) < 2 ^ 50"
  by (rule group_bytes_formula [OF demo_specs_groups]) (simp add: demo_groups_def)

section \<open>Construction\<close>

lemma sm_new_decides:
  assumes "pb < 2 ^ 64"
  shows "sm_new grants c specs pb = Inr m \<longleftrightarrow>
    config_ok c \<and> (\<exists>gs. group_layers specs = Inr gs \<and> m = initial_manager c gs pb \<and> pool_fits c gs pb \<and>
      grants 8 (length (filter (\<lambda>g. is_paged (lg_spec g)) gs) * max_blocks c))"
  using new_from_validated_groups_iff [OF _ group_layers_ok assms]
  by (auto simp: sm_new_def bind_r_eq_Inr with_config_Inr)

text \<open>
  C37. The pool that \<open>required_pool_bytes\<close> reports is the exact threshold of construction: for a
  validated configuration with a paged group, construction from any pool size succeeds if and
  only if the pool is at least that large and yields no more blocks than slots can address.
\<close>

theorem required_pool_is_threshold:
  assumes "config_ok c" and "group_layers specs = Inr gs" and "has_paged gs"
    and "required_pool_bytes c gs = Inr required" and "pool_bytes < 2 ^ 64"
  shows "(\<exists>m. sm_new (\<lambda>_ _. True) c specs pool_bytes = Inr m) \<longleftrightarrow>
    required \<le> pool_bytes \<and> blocks_for (sc_max_seqs c) pool_bytes gs \<le> MAX_SLOT_BLOCKS"
proof -
  have ok: "groups_ok gs" by (rule group_layers_ok [OF assms(2)])
  have "required = required_sum c gs"
    using required_pool_bytes_ok [of gs c] groups_ok_group [OF ok] assms(4) by blast
  then show ?thesis
    using pool_fits_iff_required [OF ok assms(3)] assms(1-3)
    by (auto simp: sm_new_decides [OF assms(5)] pool_fits_def)
qed

theorem required_pool_is_threshold_witness:
  "(\<exists>m. sm_new (\<lambda>_ _. True) demo_config demo_specs 1040 = Inr m) \<longleftrightarrow>
    (1040::nat) \<le> 1040 \<and> blocks_for (sc_max_seqs demo_config) 1040 demo_groups \<le> MAX_SLOT_BLOCKS"
proof (rule required_pool_is_threshold [OF _ demo_specs_groups])
  show "config_ok demo_config" by code_simp
  show "has_paged demo_groups" by code_simp
  show "required_pool_bytes demo_config demo_groups = Inr 1040" by code_simp
qed simp

text \<open>
  Construction accounts for every byte: paged bytes, fixed bytes and the unusable remainder
  add up to the pool that was handed in, and the remainder is less than one block of every
  paged group.
\<close>

theorem construction_accounts_bytes:
  assumes "sm_new grants c specs pool_bytes = Inr m" and "pool_bytes < 2 ^ 64"
  shows "sm_pool_bytes_total m + sm_fixed_bytes_total m + sm_unusable_bytes m = pool_bytes \<and>
    (has_paged (sm_groups m) \<longrightarrow> sm_unusable_bytes m < block_cost (sm_groups m))"
proof -
  obtain gs where gs: "group_layers specs = Inr gs" "m = initial_manager c gs pool_bytes" "pool_fits c gs pool_bytes"
    using assms by (auto simp: sm_new_decides)
  from initial_bytes [OF gs(3)] initial_unusable [OF group_layers_ok [OF gs(1)], of c pool_bytes] gs(2)
  show ?thesis by auto
qed

theorem construction_accounts_bytes_witness:
  "sm_pool_bytes_total demo0 + sm_fixed_bytes_total demo0 + sm_unusable_bytes demo0 = 1300 \<and>
    has_paged (sm_groups demo0) \<and> sm_unusable_bytes demo0 < block_cost (sm_groups demo0)"
proof -
  have "has_paged (sm_groups demo0)" by code_simp
  with construction_accounts_bytes [OF demo0_new] show ?thesis by simp
qed

text \<open>
  C38. The groups' arena regions are disjoint and inside the pool, in every manager reachable
  from a construction: no operation moves a region.
\<close>

theorem arena_regions_disjoint:
  assumes "constructed m0 pool_bytes" and "sm_reach m0 m" and "gi < gj" and "gj < length (sm_groups m)"
  shows "fst (group_region m gi) + snd (group_region m gi) \<le> fst (group_region m gj) \<and>
    fst (group_region m gj) + snd (group_region m gj) \<le> pool_bytes"
  using reach_regions [OF assms(1,2)] assms(3,4) by simp

theorem arena_regions_disjoint_witness:
  "fst (group_region demo1 0) + snd (group_region demo1 0) \<le> fst (group_region demo1 2) \<and>
    fst (group_region demo1 2) + snd (group_region demo1 2) \<le> 1300"
proof (rule arena_regions_disjoint [OF demo0_constructed])
  show "sm_reach demo0 demo1"
    using sm_reach.step [OF sm_reach.refl, of demo0 "OpNewSeq [7, 8, 9]"] by (simp add: demo1_new)
  show "2 < length (sm_groups demo1)" by code_simp
qed simp

text \<open>
  Block addresses never overflow and never overlap: every block of a paged group lies inside
  the group's region, and two different blocks of it do not intersect.
\<close>

theorem block_offset_in_region:
  assumes "constructed m0 pool_bytes" and "sm_reach m0 m" and "slot_at (sm_pools m) gi = Some p"
    and "i < bp_total p" and "j < bp_total p" and "i < j"
  shows "\<exists>oi oj. block_offset (bp_base_offset p) i (bp_block_bytes p) = Inr oi \<and>
    block_offset (bp_base_offset p) j (bp_block_bytes p) = Inr oj \<and>
    bp_base_offset p \<le> oi \<and> oi + bp_block_bytes p \<le> oj \<and>
    oj + bp_block_bytes p \<le> bp_base_offset p + bp_total p * bp_block_bytes p \<and> oj + bp_block_bytes p \<le> pool_bytes"
proof -
  have inv: "sm_inv m" using sm_reach_inv [OF assms(2) constructed_inv [OF assms(1)]] by simp
  have gi: "gi < length (sm_groups m)" and p: "sm_pools m ! gi = Some p"
    using assms(3) sm_inv_static(4) [OF inv] by simp_all
  have reg: "bp_base_offset p + bp_total p * bp_block_bytes p \<le> pool_bytes"
    using reach_regions(1) [OF assms(1,2) gi] p by (simp add: group_region_def)
  have pb: "pool_bytes < 2 ^ 64" using assms(1) by cases simp_all
  have le: "(k + 1) * bp_block_bytes p \<le> bp_total p * bp_block_bytes p" if "k < bp_total p" for k
    by (rule mult_le_mono1) (use that in simp)
  have off: "block_offset (bp_base_offset p) k (bp_block_bytes p) = Inr (k * bp_block_bytes p + bp_base_offset p)"
    if "k < bp_total p" for k
    using le [OF that] reg pb by (simp add: block_offset_def checked_mul_def checked_add_def)
  have "(i + 1) * bp_block_bytes p \<le> j * bp_block_bytes p" by (rule mult_le_mono1) (use assms(6) in simp)
  with off [OF assms(4)] off [OF assms(5)] le [OF assms(5)] reg show ?thesis by simp
qed

theorem block_offset_in_region_witness:
  "\<exists>oi oj. block_offset (bp_base_offset (the (slot_at (sm_pools demo0) 1))) 1 (bp_block_bytes (the (slot_at (sm_pools demo0) 1))) = Inr oi \<and>
    block_offset (bp_base_offset (the (slot_at (sm_pools demo0) 1))) 4 (bp_block_bytes (the (slot_at (sm_pools demo0) 1))) = Inr oj \<and>
    bp_base_offset (the (slot_at (sm_pools demo0) 1)) \<le> oi \<and> oi + bp_block_bytes (the (slot_at (sm_pools demo0) 1)) \<le> oj \<and>
    oj + bp_block_bytes (the (slot_at (sm_pools demo0) 1)) \<le> bp_base_offset (the (slot_at (sm_pools demo0) 1)) +
      bp_total (the (slot_at (sm_pools demo0) 1)) * bp_block_bytes (the (slot_at (sm_pools demo0) 1)) \<and>
    oj + bp_block_bytes (the (slot_at (sm_pools demo0) 1)) \<le> 1300"
proof (rule block_offset_in_region [OF demo0_constructed sm_reach.refl])
  show "slot_at (sm_pools demo0) 1 = Some (the (slot_at (sm_pools demo0) 1))"
    by (simp add: demo0_def demo_pools_def slot_at_def get_def)
  show "1 < bp_total (the (slot_at (sm_pools demo0) 1))" "4 < bp_total (the (slot_at (sm_pools demo0) 1))" by code_simp+
qed simp

section \<open>Recurrent double buffers\<close>

lemma seq_ok_parity:
  assumes "seq_ok c gs s" and "gi < length gs"
  shows "ss_parity s ! gi \<in> {0, 1} \<and> gi < length (ss_fixed_slots s) \<and> gi < length (ss_parity s)"
proof -
  have "length (ss_parity s) = length gs" "length (ss_fixed_slots s) = length gs" and sub: "set (ss_parity s) \<subseteq> {0, 1}"
    using assms(1) by (simp_all add: seq_ok_def seq_shape_def)
  then show ?thesis using subsetD [OF sub nth_mem, of gi] assms(2) by simp
qed

lemma recurrent_buffers_eq:
  assumes inv: "sm_inv m" and s: "sm_seqs m q = Some s" and gi: "gi < length (sm_groups m)"
  shows "recurrent_buffers m q gi = (if is_paged (lg_spec (sm_groups m ! gi)) then Inl (InvalidBatch (NotRecurrentGroup gi))
    else Inr (the (ss_fixed_slots s ! gi) * 2 + ss_parity s ! gi, the (ss_fixed_slots s ! gi) * 2 + (1 - ss_parity s ! gi)))"
proof (cases "is_paged (lg_spec (sm_groups m ! gi))")
  case True
  then show ?thesis using s gi by (simp add: recurrent_buffers_def fixed_slot_def sm_seq_def get_def)
next
  case False
  obtain f :: fixed_pool and i where f: "fp_total_slots f = sc_max_seqs (sm_config m)" and i: "ss_fixed_slots s ! gi = Some i"
    and c: "conserved (set (fp_free f)) (fp_total_slots f) (add_mset i (owned_by (slot_ids gi) ((sm_seqs m)(q := None))))"
    using seq_fixed_view [OF inv s gi False] by blast
  have "i < 65536"
    using conserved_owned(1) [OF c, of i] f sm_inv_static(1) [OF inv] by (simp add: config_ok_def hard_caps)
  moreover have par: "ss_parity s ! gi \<in> {0, 1}" and len: "gi < length (ss_fixed_slots s)" "gi < length (ss_parity s)"
    using seq_ok_parity [OF sm_inv_seq [OF inv s] gi] by auto
  moreover have sl: "slot_at (ss_fixed_slots s) gi = Some i" using i len by simp
  ultimately show ?thesis
    using s gi False i
    by (auto simp: recurrent_buffers_def fixed_slot_def recurrent_active_def sm_seq_def get_def sl checked_mul_def checked_add_def)
qed

lemma recurrent_buffers_Inr:
  assumes inv: "sm_inv m" and b: "recurrent_buffers m q gi = Inr ab"
  obtains s i where "sm_seqs m q = Some s" and "gi < length (sm_groups m)" and "\<not> is_paged (lg_spec (sm_groups m ! gi))"
    and "ss_fixed_slots s ! gi = Some i" and "ss_parity s ! gi \<in> {0, 1}"
    and "ab = (i * 2 + ss_parity s ! gi, i * 2 + (1 - ss_parity s ! gi))"
proof -
  obtain s where s: "sm_seqs m q = Some s" and gi: "gi < length (sm_groups m)"
    using b by (auto simp: recurrent_buffers_def fixed_slot_def sm_seq_def bind_r_eq_Inr)
  have np: "\<not> is_paged (lg_spec (sm_groups m ! gi))"
    using b recurrent_buffers_eq [OF inv s gi] by (auto split: if_splits)
  obtain i where i: "ss_fixed_slots s ! gi = Some i" using seq_fixed_view [OF inv s gi np] by blast
  have "ss_parity s ! gi \<in> {0, 1}" using seq_ok_parity [OF sm_inv_seq [OF inv s] gi] by simp
  with s gi np i b show thesis using recurrent_buffers_eq [OF inv s gi] by (intro that) auto
qed

text \<open>
  Committing an accepted token swaps the active and the working buffer of every recurrent
  group of that sequence; committing nothing leaves them, so a rejected tail never becomes the
  recurrent state.
\<close>

theorem commit_swaps_buffers:
  assumes "reachable m" and "recurrent_buffers m q gi = Inr (active, working)" and "commit m q accepted = (Inr (), m')"
  shows "recurrent_buffers m' q gi = Inr (if accepted > 0 then (working, active) else (active, working))"
proof -
  note inv = reachable_inv [OF assms(1)]
  obtain s i where s: "sm_seqs m q = Some s" and gi: "gi < length (sm_groups m)"
    and np: "\<not> is_paged (lg_spec (sm_groups m ! gi))" and i: "ss_fixed_slots s ! gi = Some i"
    and par: "ss_parity s ! gi \<in> {0, 1}"
    and ab: "(active, working) = (i * 2 + ss_parity s ! gi, i * 2 + (1 - ss_parity s ! gi))"
    by (rule recurrent_buffers_Inr [OF inv assms(2)])
  have can: "can_commit m q accepted" using commit_refused [OF inv] assms(3) by (cases "can_commit m q accepted") auto
  obtain s' where inv': "sm_inv m'" and geo: "same_geometry m m'" and q': "sm_seqs m' = (sm_seqs m)(q \<mapsto> s')"
    and f: "ss_fixed_slots s' = ss_fixed_slots s" "ss_parity s' = parity_after m accepted s"
    by (rule commit_success [OF inv can]) (use assms(3) s in auto)
  have "swaps_on m accepted \<longleftrightarrow> accepted > 0" using np gi nth_mem by (auto simp: swaps_on_def)
  moreover have "length (ss_parity s) = length (sm_groups m)" using sm_inv_seq [OF inv s] by (simp add: seq_ok_def seq_shape_def)
  ultimately have "ss_parity s' ! gi = (if accepted > 0 then xor (ss_parity s ! gi) 1 else ss_parity s ! gi)"
    using np gi by (simp add: f parity_after_def flip_parity_eq [OF sm_inv_static(2) [OF inv]])
  moreover have "sm_seqs m' q = Some s'" and "sm_groups m' = sm_groups m" using q' geo by (simp_all add: same_geometry_def)
  ultimately show ?thesis
    using recurrent_buffers_eq [OF inv', of q s' gi] gi np i f(1) par ab by auto
qed

theorem commit_swaps_buffers_witness:
  "recurrent_buffers (snd (commit demo2 0 35)) 0 2 = Inr (if (35::nat) > 0 then (1, 0) else (0, 1))"
proof (rule commit_swaps_buffers [OF demo_reachable(3)])
  show "recurrent_buffers demo2 0 2 = Inr (0, 1)" by code_simp
  have "fst (commit demo2 0 35) = Inr ()" by code_simp
  then show "commit demo2 0 35 = (Inr (), snd (commit demo2 0 35))" by (metis prod.collapse)
qed

text \<open>
  The two recurrent buffers of a sequence are different, and buffers of different sequences
  are different: no two live sequences ever share recurrent state.
\<close>

theorem recurrent_buffers_disjoint:
  assumes "reachable m" and "recurrent_buffers m q gi = Inr (a, w)" and "recurrent_buffers m q' gi = Inr (a', w')"
    and "q \<noteq> q'"
  shows "a \<noteq> w \<and> {a, w} \<inter> {a', w'} = {}"
proof -
  note inv = reachable_inv [OF assms(1)]
  obtain s i where s: "sm_seqs m q = Some s" and gi: "gi < length (sm_groups m)"
    and np: "\<not> is_paged (lg_spec (sm_groups m ! gi))" and i: "ss_fixed_slots s ! gi = Some i"
    and par: "ss_parity s ! gi \<in> {0, 1}" and ab: "(a, w) = (i * 2 + ss_parity s ! gi, i * 2 + (1 - ss_parity s ! gi))"
    by (rule recurrent_buffers_Inr [OF inv assms(2)])
  obtain s' i' where s': "sm_seqs m q' = Some s'" and i': "ss_fixed_slots s' ! gi = Some i'"
    and par': "ss_parity s' ! gi \<in> {0, 1}" and ab': "(a', w') = (i' * 2 + ss_parity s' ! gi, i' * 2 + (1 - ss_parity s' ! gi))"
    by (rule recurrent_buffers_Inr [OF inv assms(3)])
  obtain f :: fixed_pool where c: "conserved (set (fp_free f)) (fp_total_slots f)
      (add_mset i (owned_by (slot_ids gi) ((sm_seqs m)(q := None))))"
    using seq_fixed_view [OF inv s gi np] i by auto
  have "i' \<in># owned_by (slot_ids gi) ((sm_seqs m)(q := None))"
    using s' i' assms(4) sm_inv_finite [OF inv] by (subst owned_by_mem) (auto simp: slot_ids_def intro!: exI [of _ q'])
  moreover have "count (owned_by (slot_ids gi) ((sm_seqs m)(q := None))) i = 0"
    using conserved_owned(3) [OF c, of i] by simp
  ultimately have "i \<noteq> i'" by (metis count_eq_zero_iff)
  with par par' ab ab' show ?thesis by auto
qed

theorem recurrent_buffers_disjoint_witness:
  "(0::nat) \<noteq> 1 \<and> {0, 1} \<inter> {2, 3::nat} = {}"
proof (rule recurrent_buffers_disjoint)
  show "reachable (snd (new_seq demo2 [1]))" by (rule reachable_ops(1) [OF demo_reachable(3)])
  show "recurrent_buffers (snd (new_seq demo2 [1])) 0 2 = Inr (0, 1)" by code_simp
  show "recurrent_buffers (snd (new_seq demo2 [1])) 1 2 = Inr (2, 3)" by code_simp
qed simp

section \<open>Budget\<close>

definition paged_free_bytes :: "state_manager \<Rightarrow> nat \<Rightarrow> nat" where
  "paged_free_bytes m gi = (case slot_at (sm_pools m) gi of None \<Rightarrow> 0 | Some p \<Rightarrow> length (bp_free p) * bp_block_bytes p)"

definition fixed_free_bytes :: "state_manager \<Rightarrow> nat \<Rightarrow> nat" where
  "fixed_free_bytes m gi =
     (case slot_at (sm_fixed m) gi of None \<Rightarrow> 0 | Some f \<Rightarrow> length (fp_free f) * fp_slot_bytes_per_seq f)"

definition paged_bytes :: "state_manager \<Rightarrow> nat \<Rightarrow> nat" where
  "paged_bytes m gi = (case slot_at (sm_pools m) gi of None \<Rightarrow> 0 | Some p \<Rightarrow> bp_total p * bp_block_bytes p)"

definition fixed_bytes :: "state_manager \<Rightarrow> nat \<Rightarrow> nat" where
  "fixed_bytes m gi =
     (case slot_at (sm_fixed m) gi of None \<Rightarrow> 0 | Some f \<Rightarrow> fp_total_slots f * fp_slot_bytes_per_seq f)"

lemma paged_sum: "(\<Sum>g\<leftarrow>gs. if is_paged (lg_spec g) then b * block_bytes_of g else 0) = b * block_cost gs"
  by (induction gs) (auto simp: block_cost_def algebra_simps)

lemma unpaged_sum: "(\<Sum>g\<leftarrow>gs. if is_paged (lg_spec g) then 0 else ms * slot_bytes_of g) = fixed_sum ms gs"
  by (induction gs) (auto simp: fixed_sum_def mult.commute)

lemma initial_totals:
  "(\<Sum>gi\<leftarrow>[0..<length gs]. paged_bytes (initial_manager c gs pb) gi) = sm_pool_bytes_total (initial_manager c gs pb)"
  "(\<Sum>gi\<leftarrow>[0..<length gs]. fixed_bytes (initial_manager c gs pb) gi) = sm_fixed_bytes_total (initial_manager c gs pb)"
proof -
  let ?b = "blocks_for (sc_max_seqs c) pb gs"
  have nth: "(\<Sum>gi\<leftarrow>[0..<length gs]. h (gs ! gi)) = sum_list (map h gs)" for h :: "layer_group \<Rightarrow> nat"
    by (rule arg_cong [of _ _ sum_list]) (rule nth_equalityI; simp)
  have p: "paged_bytes (initial_manager c gs pb) gi = (if is_paged (lg_spec (gs ! gi)) then ?b * block_bytes_of (gs ! gi) else 0)"
    and f: "fixed_bytes (initial_manager c gs pb) gi = (if is_paged (lg_spec (gs ! gi)) then 0 else sc_max_seqs c * slot_bytes_of (gs ! gi))"
    if "gi < length gs" for gi
    using that by (simp_all add: paged_bytes_def fixed_bytes_def initial_manager_def Let_def slot_at_def get_def
        nth_layout pool_entry_def fixed_entry_def)
  have "(\<Sum>gi\<leftarrow>[0..<length gs]. paged_bytes (initial_manager c gs pb) gi) =
      (\<Sum>gi\<leftarrow>[0..<length gs]. if is_paged (lg_spec (gs ! gi)) then ?b * block_bytes_of (gs ! gi) else 0)"
    by (rule arg_cong [of _ _ sum_list], rule map_cong) (use p in auto)
  also have "\<dots> = ?b * block_cost gs"
    using nth [of "\<lambda>g. if is_paged (lg_spec g) then ?b * block_bytes_of g else 0"] by (simp add: paged_sum)
  finally show "(\<Sum>gi\<leftarrow>[0..<length gs]. paged_bytes (initial_manager c gs pb) gi) = sm_pool_bytes_total (initial_manager c gs pb)"
    by (simp add: initial_manager_def Let_def)
  have "(\<Sum>gi\<leftarrow>[0..<length gs]. fixed_bytes (initial_manager c gs pb) gi) =
      (\<Sum>gi\<leftarrow>[0..<length gs]. if is_paged (lg_spec (gs ! gi)) then 0 else sc_max_seqs c * slot_bytes_of (gs ! gi))"
    by (rule arg_cong [of _ _ sum_list], rule map_cong) (use f in auto)
  also have "\<dots> = fixed_sum (sc_max_seqs c) gs"
    using nth [of "\<lambda>g. if is_paged (lg_spec g) then 0 else sc_max_seqs c * slot_bytes_of g"] by (simp add: unpaged_sum)
  finally show "(\<Sum>gi\<leftarrow>[0..<length gs]. fixed_bytes (initial_manager c gs pb) gi) = sm_fixed_bytes_total (initial_manager c gs pb)"
    by (simp add: initial_manager_def Let_def)
qed

lemma geometry_bytes:
  assumes "same_geometry m0 m" and "gi < length (sm_pools m0)" and "gi < length (sm_fixed m0)"
  shows "paged_bytes m gi = paged_bytes m0 gi" and "fixed_bytes m gi = fixed_bytes m0 gi"
proof -
  have lp: "length (sm_pools m) = length (sm_pools m0)" and lf: "length (sm_fixed m) = length (sm_fixed m0)"
    using assms(1) map_eq_imp_length_eq by (auto simp: same_geometry_def)
  have "map_option pool_geometry (sm_pools m ! gi) = map_option pool_geometry (sm_pools m0 ! gi)"
    using assms lp unfolding same_geometry_def by (metis nth_map)
  then show "paged_bytes m gi = paged_bytes m0 gi"
    using assms lp by (cases "sm_pools m ! gi"; cases "sm_pools m0 ! gi")
      (simp_all add: paged_bytes_def slot_at_def get_def pool_geometry_def)
  have "map_option fixed_geometry (sm_fixed m ! gi) = map_option fixed_geometry (sm_fixed m0 ! gi)"
    using assms lf unfolding same_geometry_def by (metis nth_map)
  then show "fixed_bytes m gi = fixed_bytes m0 gi"
    using assms lf by (cases "sm_fixed m ! gi"; cases "sm_fixed m0 ! gi")
      (simp_all add: fixed_bytes_def slot_at_def get_def fixed_geometry_def)
qed

lemma reachable_totals:
  assumes "constructed m0 pb" and "sm_reach m0 m"
  shows "(\<Sum>gi\<leftarrow>[0..<length (sm_groups m)]. paged_bytes m gi) = sm_pool_bytes_total m"
    and "(\<Sum>gi\<leftarrow>[0..<length (sm_groups m)]. fixed_bytes m gi) = sm_fixed_bytes_total m"
    and "sm_pool_bytes_total m + sm_fixed_bytes_total m + sm_unusable_bytes m = pb" and "pb < 2 ^ 64"
proof -
  obtain c gs where i: "pool_fits c gs pb" "m0 = initial_manager c gs pb" using constructed_initial [OF assms(1)] by blast
  have geo: "same_geometry m0 m" using sm_reach_inv [OF assms(2) constructed_inv [OF assms(1)]] by simp
  have gs: "sm_groups m = gs" and tot: "sm_pool_bytes_total m = sm_pool_bytes_total m0"
    "sm_fixed_bytes_total m = sm_fixed_bytes_total m0" "sm_unusable_bytes m = sm_unusable_bytes m0"
    using geo i(2) by (simp_all add: same_geometry_def)
  have b: "paged_bytes m gi = paged_bytes m0 gi" "fixed_bytes m gi = fixed_bytes m0 gi" if "gi < length gs" for gi
    using geometry_bytes [OF geo, of gi] that i(2) by simp_all
  have "map (paged_bytes m) [0..<length gs] = map (paged_bytes m0) [0..<length gs]"
    "map (fixed_bytes m) [0..<length gs] = map (fixed_bytes m0) [0..<length gs]" using b by simp_all
  then show "(\<Sum>gi\<leftarrow>[0..<length (sm_groups m)]. paged_bytes m gi) = sm_pool_bytes_total m"
    and "(\<Sum>gi\<leftarrow>[0..<length (sm_groups m)]. fixed_bytes m gi) = sm_fixed_bytes_total m"
    using initial_totals [where c = c and gs = gs and pb = pb] by (simp_all only: gs tot i(2))
  show "sm_pool_bytes_total m + sm_fixed_bytes_total m + sm_unusable_bytes m = pb"
    using initial_bytes [OF i(1)] by (simp add: tot i(2))
  show "pb < 2 ^ 64" using assms(1) by cases simp_all
qed

lemma slot_at_nth: "i < length xs \<Longrightarrow> slot_at xs i = xs ! i"
  by (simp add: slot_at_def get_def split: option.split)

lemma free_bytes_le:
  assumes "sm_inv m" and "gi < length (sm_groups m)"
  shows "paged_free_bytes m gi \<le> paged_bytes m gi" and "fixed_free_bytes m gi \<le> fixed_bytes m gi"
    and "sm_seqs m = Map.empty \<Longrightarrow> paged_free_bytes m gi = paged_bytes m gi \<and> fixed_free_bytes m gi = fixed_bytes m gi"
    and "gb_free_blocks (group_budget_of m gi) \<le> u32_max" and "gb_free_slots (group_budget_of m gi) \<le> u32_max"
proof -
  note st = sm_inv_static [OF assms(1)]
  have p: "length (bp_free p) \<le> bp_total p \<and> (sm_seqs m = Map.empty \<longrightarrow> length (bp_free p) = bp_total p) \<and> bp_total p \<le> u32_max"
    if pp: "sm_pools m ! gi = Some p" for p
  proof -
    have pg: "is_paged (lg_spec (sm_groups m ! gi))" using assms pp by (auto simp: sm_inv_def pools_ok_def split: if_splits)
    have "bp_ok p" and c: "conserved (set (bp_free p)) (bp_total p) (owned_by (table_ids gi) (sm_seqs m))" and "bp_total p \<le> MAX_SLOT_BLOCKS"
      by (rule sm_inv_paged [OF assms pg]; use pp in simp)+
    then show ?thesis
      using conserved_size [OF c] descending_distinct [of "bp_free p"]
      by (auto simp: bp_ok_def distinct_card MAX_SLOT_BLOCKS_def u32_max_def)
  qed
  have f: "length (fp_free f) \<le> fp_total_slots f \<and> (sm_seqs m = Map.empty \<longrightarrow> length (fp_free f) = fp_total_slots f) \<and> fp_total_slots f \<le> u32_max"
    if ff: "sm_fixed m ! gi = Some f" for f
  proof -
    have np: "\<not> is_paged (lg_spec (sm_groups m ! gi))" using assms ff by (auto simp: sm_inv_def pools_ok_def split: if_splits)
    have "fp_ok f" and c: "conserved (set (fp_free f)) (fp_total_slots f) (owned_by (slot_ids gi) (sm_seqs m))"
      and "fp_total_slots f = sc_max_seqs (sm_config m)"
      by (rule sm_inv_fixed [OF assms np]; use ff in simp)+
    then show ?thesis
      using conserved_size [OF c] ascending_distinct [of "fp_free f"] st(1)
      by (auto simp: fp_ok_def distinct_card config_ok_def hard_caps u32_max_def)
  qed
  have len: "gi < length (sm_pools m)" "gi < length (sm_fixed m)" using assms(2) st(4,5) by simp_all
  show "paged_free_bytes m gi \<le> paged_bytes m gi" and "fixed_free_bytes m gi \<le> fixed_bytes m gi"
    and "sm_seqs m = Map.empty \<Longrightarrow> paged_free_bytes m gi = paged_bytes m gi \<and> fixed_free_bytes m gi = fixed_bytes m gi"
    using p f len
    by (auto simp: paged_free_bytes_def paged_bytes_def fixed_free_bytes_def fixed_bytes_def slot_at_nth split: option.splits)
  show "gb_free_blocks (group_budget_of m gi) \<le> u32_max" and "gb_free_slots (group_budget_of m gi) \<le> u32_max"
    using p f len by (auto simp: group_budget_of_def Let_def slot_at_nth split: option.splits intro: order_trans)
qed

text \<open>
  The budget report never hits one of its \<open>expect\<close>s: on every reachable manager it returns,
  its free bytes are within its totals, the totals and the unusable remainder add up to the
  pool, and when no sequence lives everything is reported free.
\<close>

theorem budget_accounts_pool:
  assumes "constructed m0 pool_bytes" and "sm_reach m0 m"
  shows "\<exists>b. sm_budget m = Inr b \<and> bu_pool_bytes_free b \<le> bu_pool_bytes_total b \<and>
    bu_fixed_bytes_free b \<le> bu_fixed_bytes_total b \<and>
    bu_pool_bytes_total b + bu_fixed_bytes_total b + bu_unusable_bytes b = pool_bytes \<and>
    (sm_seqs m = Map.empty \<longrightarrow> bu_pool_bytes_free b = bu_pool_bytes_total b \<and> bu_fixed_bytes_free b = bu_fixed_bytes_total b)"
proof -
  let ?is = "[0..<length (sm_groups m)]"
  have inv: "sm_inv m" using sm_reach_inv [OF assms(2) constructed_inv [OF assms(1)]] by simp
  note t = reachable_totals [OF assms] and fb = free_bytes_le [OF inv]
  have le: "(\<Sum>gi\<leftarrow>?is. paged_free_bytes m gi) \<le> sm_pool_bytes_total m" "(\<Sum>gi\<leftarrow>?is. fixed_free_bytes m gi) \<le> sm_fixed_bytes_total m"
    unfolding t(1,2) [symmetric] by (rule sum_list_mono; use fb in simp)+
  have eq: "(\<Sum>gi\<leftarrow>?is. paged_free_bytes m gi) = sm_pool_bytes_total m \<and> (\<Sum>gi\<leftarrow>?is. fixed_free_bytes m gi) = sm_fixed_bytes_total m"
    if "sm_seqs m = Map.empty"
    unfolding t(1,2) [symmetric] using fb(3) [OF _ that] by (auto intro!: arg_cong [of _ _ sum_list])
  have lt: "(\<Sum>gi\<leftarrow>?is. paged_free_bytes m gi) < 2 ^ 64" "(\<Sum>gi\<leftarrow>?is. fixed_free_bytes m gi) < 2 ^ 64"
    using le t(3,4) by linarith+
  have g1: "\<forall>e \<in> set (map (group_budget_of m) ?is). gb_free_blocks e \<le> u32_max"
    and g2: "\<forall>e \<in> set (map (group_budget_of m) ?is). gb_free_slots e \<le> u32_max" using fb(4,5) by auto
  have "\<exists>b. sm_budget m = Inr b \<and> bu_pool_bytes_free b = (\<Sum>gi\<leftarrow>?is. paged_free_bytes m gi) \<and>
      bu_fixed_bytes_free b = (\<Sum>gi\<leftarrow>?is. fixed_free_bytes m gi) \<and> bu_pool_bytes_total b = sm_pool_bytes_total m \<and>
      bu_fixed_bytes_total b = sm_fixed_bytes_total m \<and> bu_unusable_bytes b = sm_unusable_bytes m"
    unfolding sm_budget_def Let_def paged_free_bytes_def [symmetric] fixed_free_bytes_def [symmetric]
    using lt g1 g2 by (simp add: try_from_def)
  then show ?thesis using le eq t(3) by auto
qed

theorem budget_accounts_pool_witness:
  "\<exists>b. sm_budget demo0 = Inr b \<and> bu_pool_bytes_free b \<le> bu_pool_bytes_total b \<and>
    bu_fixed_bytes_free b \<le> bu_fixed_bytes_total b \<and>
    bu_pool_bytes_total b + bu_fixed_bytes_total b + bu_unusable_bytes b = 1300 \<and>
    (sm_seqs demo0 = Map.empty \<longrightarrow> bu_pool_bytes_free b = bu_pool_bytes_total b \<and> bu_fixed_bytes_free b = bu_fixed_bytes_total b)"
  by (rule budget_accounts_pool [OF demo0_constructed sm_reach.refl])

end
