(* ===== verification/Tree_Mask.thy ===== *)
theory Tree_Mask
  imports State_Error
begin

text \<open>
  The speculative-tree checks of \<open>crates/r9v-ir/src/batch.rs\<close>: shape, parent ids and the
  three-mark cycle walk, shared by the owned \<open>TreeMask::new\<close> and the borrowed
  \<open>validate_tree_slices\<close>. The walk is shown to terminate and to report a cycle exactly when
  some token does not reach a root by following parents.

  Parents are \<open>i32\<close> values as integers; the cast \<open>t as i32\<close> is written out. Tokens stored as
  \<open>u32\<close> in the walk's path are below the number of parents.
\<close>

section \<open>Shape and parents\<close>

record tree_mask =
  tm_parents :: "int list"
  tm_t_max :: nat
  tm_ancestors :: "bool list"

definition as_i32 :: "nat \<Rightarrow> int" where
  "as_i32 n = (int n + 2 ^ 31) mod 2 ^ 32 - 2 ^ 31"

definition push_tree_shape_problems :: "nat \<Rightarrow> nat \<Rightarrow> nat \<Rightarrow> ir_error list \<Rightarrow> ir_error list" where
  "push_tree_shape_problems t t_max anc_len problems =
     (let ps = (if t > 0 \<and> t_max = 0 then problems @ [ZeroTreeMax t] else problems)
      in case checked_mul 64 t t_max of
           Some expected \<Rightarrow> if anc_len \<noteq> expected then ps @ [AncestorLength t t_max expected anc_len] else ps
         | None \<Rightarrow> ps @ [AncestorShapeOverflow t t_max])"

fun parent_problems_from :: "nat \<Rightarrow> nat \<Rightarrow> int list \<Rightarrow> ir_error list \<Rightarrow> ir_error list" where
  "parent_problems_from t token [] ps = ps"
| "parent_problems_from t token (p # rest) ps =
     parent_problems_from t (Suc token) rest
       (if p < -1 \<or> p \<ge> as_i32 t then ps @ [BadParent token p t]
        else if p = as_i32 token then ps @ [SelfParent token] else ps)"

definition push_tree_parent_problems :: "int list \<Rightarrow> ir_error list \<Rightarrow> ir_error list" where
  "push_tree_parent_problems parents problems = parent_problems_from (length parents) 0 parents problems"

section \<open>The cycle walk\<close>

text \<open>
  The lowest token of the walk from its first visit of \<open>token\<close> on. \<open>position\<close> falls back to
  the whole path.
\<close>

definition cycle_token :: "nat list \<Rightarrow> nat \<Rightarrow> nat" where
  "cycle_token path token =
     (let tail = (if token \<in> set path then dropWhile (\<lambda>s. s \<noteq> token) path else path)
      in if tail = [] then token else Min (set tail))"

text \<open>The edge a walk follows: it stops at roots, out-of-range ids and self-parents.\<close>

definition next_token :: "int list \<Rightarrow> nat \<Rightarrow> nat option" where
  "next_token parents token =
     (let parent = parents ! token
      in if parent < 0 \<or> nat parent \<ge> length parents \<or> nat parent = token then None else Some (nat parent))"

text \<open>
  One walk: the marks, the path and the cycle it found. Indices are in range on every call
  (\<open>walk\<close> is started below the number of parents and follows in-range edges); the first
  guard makes the function total.
\<close>

function walk :: "int list \<Rightarrow> nat \<Rightarrow> nat list \<Rightarrow> nat list \<Rightarrow> nat list \<times> nat list \<times> nat option" where
  "walk parents token state path =
     (if length state \<le> token then (state, path, None)
      else if state ! token = 2 then (state, path, None)
      else if state ! token = 1 then (state, path, Some (cycle_token path token))
      else let state' = state[token := 1]; path' = path @ [token]
           in case next_token parents token of
                None \<Rightarrow> (state', path', None)
              | Some token' \<Rightarrow> walk parents token' state' path')"
  by pat_completeness auto

text \<open>Every step marks one more token, so a walk ends.\<close>

lemma unmarked_decreases:
  assumes "token < length state" and "state ! token \<noteq> 1" and "state ! token \<noteq> 2"
  shows "length (filter (\<lambda>x. x \<noteq> 1 \<and> x \<noteq> 2) (state[token := 1])) < length (filter (\<lambda>x. x \<noteq> 1 \<and> x \<noteq> (2::nat)) state)"
proof -
  have s: "state = take token state @ state ! token # drop (Suc token) state" using assms(1) by (rule id_take_nth_drop)
  have u: "state[token := 1] = take token state @ 1 # drop (Suc token) state" using assms(1) by (rule upd_conv_take_nth_drop)
  show ?thesis unfolding u by (subst s) (use assms in simp)
qed

termination walk
  by (relation "measure (\<lambda>(parents, token, state, path). length (filter (\<lambda>x. x \<noteq> 1 \<and> x \<noteq> 2) state))")
     (use unmarked_decreases in simp_all)

declare walk.simps [simp del]

definition mark_done :: "nat list \<Rightarrow> nat list \<Rightarrow> nat list" where
  "mark_done path state = fold (\<lambda>token st. st[token := 2]) path state"

fun cycles_from :: "int list \<Rightarrow> nat list \<Rightarrow> nat list \<Rightarrow> nat list \<Rightarrow> ir_error list \<Rightarrow> ir_error list \<times> nat list \<times> nat list" where
  "cycles_from parents [] state path problems = (problems, state, path)"
| "cycles_from parents (start # starts) state path problems =
     (if state ! start = 2 then cycles_from parents starts state path problems
      else case walk parents start state [] of
             (state', path', found) \<Rightarrow>
               cycles_from parents starts (mark_done path' state') path'
                 (case found of None \<Rightarrow> problems | Some c \<Rightarrow> problems @ [TreeCycle c]))"

definition check_tree_cycles :: "int list \<Rightarrow> nat list \<Rightarrow> nat list \<Rightarrow> ir_error list \<Rightarrow> ir_error list \<times> nat list \<times> nat list" where
  "check_tree_cycles parents state path problems = cycles_from parents [0..<length parents] state path problems"

section \<open>Entry points\<close>

definition tree_problems :: "int list \<Rightarrow> nat \<Rightarrow> nat \<Rightarrow> ir_error list" where
  "tree_problems parents t_max anc_len =
     fst (check_tree_cycles parents (replicate (length parents) 0) []
       (push_tree_parent_problems parents (push_tree_shape_problems (length parents) t_max anc_len [])))"

definition tree_mask_new :: "int list \<Rightarrow> nat \<Rightarrow> bool list \<Rightarrow> (ir_error, tree_mask) result" where
  "tree_mask_new parents t_max ancestors =
     (let problems = tree_problems parents t_max (length ancestors)
      in if problems = [] then Inr \<lparr>tm_parents = parents, tm_t_max = t_max, tm_ancestors = ancestors\<rparr>
         else if length problems = 1 then Inl (last problems)
         else Inl (Multiple problems))"

text \<open>
  The scratch buffers are caller-owned: the marks by their length, the path by its capacity.
  Only the first \<open>T\<close> marks are reset and used.
\<close>

definition validate_tree_slices ::
    "int list \<Rightarrow> nat \<Rightarrow> bool list \<Rightarrow> nat list \<Rightarrow> nat \<Rightarrow> (ir_error, unit) result" where
  "validate_tree_slices parents t_max ancestors cycle_state path_capacity =
     (let t = length parents in
      if length cycle_state < t then Inl (TreeCycleStateTooSmall t (length cycle_state))
      else if path_capacity < t then Inl (TreeCyclePathTooSmall t path_capacity)
      else from_problems (tree_problems parents t_max (length ancestors)))"

definition is_ancestor :: "tree_mask \<Rightarrow> nat \<Rightarrow> nat \<Rightarrow> bool option" where
  "is_ancestor m tok pos =
     (if tok < length (tm_parents m) \<and> pos mod 2 ^ 32 < tm_t_max m
      then get (tm_ancestors m) (tok * tm_t_max m + pos) else None)"

section \<open>Rooted tokens\<close>

text \<open>A token is rooted when following parents from it ends.\<close>

inductive rooted :: "int list \<Rightarrow> nat \<Rightarrow> bool" for parents where
  root: "next_token parents token = None \<Longrightarrow> rooted parents token"
| step: "next_token parents token = Some token' \<Longrightarrow> rooted parents token' \<Longrightarrow> rooted parents token"

definition edges :: "int list \<Rightarrow> (nat \<times> nat) set" where
  "edges parents = {(i, j). next_token parents i = Some j}"

lemma rooted_no_cycle: "rooted parents i \<Longrightarrow> (i, i) \<notin> (edges parents)\<^sup>+"
proof (induction rule: rooted.induct)
  case (root i)
  then show ?case by (auto simp: edges_def elim: converse_tranclE)
next
  case (step i j)
  have fn: "k = j" if "(i, k) \<in> edges parents" for k using that step.hyps(1) by (auto simp: edges_def)
  show ?case
  proof
    assume "(i, i) \<in> (edges parents)\<^sup>+"
    then have "(j, i) \<in> (edges parents)\<^sup>*" by (metis fn tranclD)
    moreover have "(i, j) \<in> edges parents" using step.hyps(1) by (simp add: edges_def)
    ultimately have "(j, j) \<in> (edges parents)\<^sup>+" by (rule rtrancl_into_trancl1)
    with step.IH show False ..
  qed
qed

lemma next_token_bound: "next_token parents i = Some j \<Longrightarrow> j < length parents"
  by (auto simp: next_token_def Let_def split: if_splits)

text \<open>The path of a walk: consecutive tokens are joined by edges, and the walk stands after its end.\<close>

fun chain :: "int list \<Rightarrow> nat list \<Rightarrow> nat \<Rightarrow> bool" where
  "chain parents [] token = True"
| "chain parents [a] token = (next_token parents a = Some token)"
| "chain parents (a # b # xs) token = (next_token parents a = Some b \<and> chain parents (b # xs) token)"

lemma chain_snoc: "chain parents path token \<Longrightarrow> next_token parents token = Some t' \<Longrightarrow> chain parents (path @ [token]) t'"
  by (induction parents path token rule: chain.induct) auto

lemma chain_reaches: "chain parents path token \<Longrightarrow> i \<in> set path \<Longrightarrow> (i, token) \<in> (edges parents)\<^sup>+"
proof (induction parents path token arbitrary: i rule: chain.induct)
  case (3 parents a b xs token)
  have e: "(a, b) \<in> edges parents" and c: "chain parents (b # xs) token"
    using "3.prems"(1) by (simp_all add: edges_def)
  have b: "(b, token) \<in> (edges parents)\<^sup>+" by (rule "3.IH" [OF c]) simp
  show ?case
  proof (cases "i = a")
    case True
    with e b show ?thesis by (metis trancl_into_trancl2)
  qed (use 3 in auto)
qed (auto simp: edges_def)

lemma chain_rooted: "chain parents path token \<Longrightarrow> rooted parents token \<Longrightarrow> i \<in> set path \<Longrightarrow> rooted parents i"
  by (induction parents path token arbitrary: i rule: chain.induct) (auto intro: rooted.step)

section \<open>What a walk establishes\<close>

definition marks_ok :: "int list \<Rightarrow> nat list \<Rightarrow> nat list \<Rightarrow> bool" where
  "marks_ok parents state path \<longleftrightarrow> length state = length parents \<and> set state \<subseteq> {0, 1, 2} \<and>
     set path = {i. i < length state \<and> state ! i = 1}"

lemma walk_ok:
  assumes "marks_ok parents state path" and "chain parents path token" and "token < length parents"
    and "walk parents token state path = (state', path', found)"
  shows "marks_ok parents state' path' \<and> set path \<subseteq> set path' \<and>
    (token \<in> set path' \<or> state ! token = 2) \<and>
    (\<forall>i < length parents. state' ! i = 2 \<longleftrightarrow> state ! i = 2) \<and>
    (found = None \<longrightarrow> (\<forall>i < length parents. state ! i = 2 \<longrightarrow> rooted parents i) \<longrightarrow> (\<forall>i \<in> set path'. rooted parents i)) \<and>
    (found \<noteq> None \<longrightarrow> (\<exists>i \<in> set path'. \<not> rooted parents i))"
  using assms
proof (induction parents token state path arbitrary: state' path' found rule: walk.induct)
  case (1 parents token state path)
  have len: "length state = length parents" and tok: "token < length state" using 1(2,4) by (auto simp: marks_ok_def)
  show ?case
  proof (cases "state ! token = 2 \<or> state ! token = 1")
    case True
    show ?thesis
    proof (cases "state ! token = 2")
      case True
      with 1(5) tok have r: "state' = state" "path' = path" "found = None" by (simp_all add: walk.simps [of parents token])
      from 1(2-4) True len show ?thesis unfolding r using chain_rooted [OF 1(3)] by auto
    next
      case False
      with True have one: "state ! token = 1" by simp
      with 1(5) tok have r: "state' = state" "path' = path" "found \<noteq> None" by (auto simp: walk.simps [of parents token])
      have mem: "token \<in> set path" using 1(2) one tok by (simp add: marks_ok_def)
      have "\<not> rooted parents token" using rooted_no_cycle chain_reaches [OF 1(3) mem] by blast
      with 1(2) r mem show ?thesis by auto
    qed
  next
    case new: False
    let ?state = "state[token := 1]" and ?path = "path @ [token]"
    have mk: "marks_ok parents ?state ?path"
      using 1(2) tok set_update_subset_insert [of state token 1] by (auto simp: marks_ok_def nth_list_update)
    have two: "?state ! i = 2 \<longleftrightarrow> state ! i = 2" if "i < length parents" for i
      by (cases "i = token") (use that new len in auto)
    show ?thesis
    proof (cases "next_token parents token")
      case None
      with 1(5) tok new have r: "state' = ?state" "path' = ?path" "found = None"
        by (auto simp: walk.simps [of parents token] Let_def)
      have "rooted parents token" using None by (rule rooted.root)
      then have "rooted parents i" if "i \<in> set ?path" for i using that chain_rooted [OF 1(3)] by auto
      with mk two show ?thesis unfolding r by auto
    next
      case (Some token')
      have w: "walk parents token' ?state ?path = (state', path', found)"
        using 1(5) tok new Some by (simp add: walk.simps [of parents token] Let_def)
      have "marks_ok parents state' path' \<and> set ?path \<subseteq> set path' \<and>
        (token' \<in> set path' \<or> ?state ! token' = 2) \<and>
        (\<forall>i < length parents. state' ! i = 2 \<longleftrightarrow> ?state ! i = 2) \<and>
        (found = None \<longrightarrow> (\<forall>i < length parents. ?state ! i = 2 \<longrightarrow> rooted parents i) \<longrightarrow> (\<forall>i \<in> set path'. rooted parents i)) \<and>
        (found \<noteq> None \<longrightarrow> (\<exists>i \<in> set path'. \<not> rooted parents i))"
        by (rule 1(1) [OF _ _ _ refl refl Some mk chain_snoc [OF 1(3) Some] next_token_bound [OF Some] w])
           (use tok new in simp_all)
      then show ?thesis using two by auto
    qed
  qed
qed

lemma walk_cycle:
  assumes "marks_ok parents state path" and "chain parents path token" and "token < length parents"
    and "walk parents token state path = (state', path', Some c)"
  shows "\<exists>p t. chain parents p t \<and> t \<in> set p \<and> c = cycle_token p t"
  using assms
proof (induction parents token state path arbitrary: state' path' rule: walk.induct)
  case (1 parents token state path)
  have len: "length state = length parents" and tok: "token < length state" using 1(2,4) by (auto simp: marks_ok_def)
  consider (finished) "state ! token = 2" | (closed) "state ! token = 1" | (new) "state ! token \<noteq> 2" "state ! token \<noteq> 1" by blast
  then show ?case
  proof cases
    case finished
    with 1(5) tok show ?thesis by (simp add: walk.simps [of parents token])
  next
    case closed
    with 1(5) tok have c: "c = cycle_token path token" by (auto simp: walk.simps [of parents token])
    have "token \<in> set path" using 1(2) closed tok by (simp add: marks_ok_def)
    with c 1(3) show ?thesis by blast
  next
    case new
    let ?state = "state[token := 1]" and ?path = "path @ [token]"
    have mk: "marks_ok parents ?state ?path"
      using 1(2) tok set_update_subset_insert [of state token 1] by (auto simp: marks_ok_def nth_list_update)
    obtain token' where n: "next_token parents token = Some token'"
      using 1(5) tok new by (cases "next_token parents token") (auto simp: walk.simps [of parents token] Let_def)
    have w: "walk parents token' ?state ?path = (state', path', Some c)"
      using 1(5) tok new n by (simp add: walk.simps [of parents token] Let_def)
    show ?thesis
      by (rule 1(1) [OF _ _ _ refl refl n mk chain_snoc [OF 1(3) n] next_token_bound [OF n] w]) (use tok new in simp_all)
  qed
qed

text \<open>The token a closed walk reports lies on a parent cycle and is the lowest token of it.\<close>

lemma chain_drop: "chain parents (xs @ ys) token \<Longrightarrow> chain parents ys token"
proof (induction xs)
  case (Cons x xs)
  then show ?case by (cases "xs @ ys") auto
qed simp

lemma chain_next: "chain parents path token \<Longrightarrow> a \<in> set path \<Longrightarrow> next_token parents a = Some b \<Longrightarrow> b \<in> insert token (set path)"
  by (induction parents path token arbitrary: a rule: chain.induct) (auto split: if_splits)

lemma chain_from_hd: "chain parents (a # path) token \<Longrightarrow> i \<in> set path \<Longrightarrow> (a, i) \<in> (edges parents)\<^sup>+"
proof (induction path arbitrary: a)
  case (Cons b path)
  then have e: "(a, b) \<in> edges parents" and c: "chain parents (b # path) token" by (auto simp: edges_def)
  show ?case
  proof (cases "i = b")
    case False
    with Cons.prems(2) Cons.IH [OF c] have "(b, i) \<in> (edges parents)\<^sup>+" by simp
    with e show ?thesis by (metis trancl_into_trancl2)
  qed (use e in blast)
qed simp

lemma cycle_token_least:
  assumes "chain parents path token" and "token \<in> set path" and "c = cycle_token path token"
  shows "(c, c) \<in> (edges parents)\<^sup>+ \<and> (\<forall>d. (c, d) \<in> (edges parents)\<^sup>+ \<longrightarrow> c \<le> d)"
proof -
  obtain xs ys where p: "path = xs @ token # ys" and x: "token \<notin> set xs" using assms(2) by (metis split_list_first)
  let ?tail = "token # ys"
  have dw: "dropWhile (\<lambda>s. s \<noteq> token) path = ?tail"
    unfolding p using x by (subst dropWhile_append2) auto
  have c: "c = Min (set ?tail)" using assms(2,3) dw by (simp add: cycle_token_def Let_def)
  then have mem: "c \<in> set ?tail" by (metis List.finite_set Min_in list.distinct(1) set_empty)
  have ch: "chain parents ?tail token" using assms(1) p chain_drop by blast
  have closed: "d \<in> set ?tail" if "(a, d) \<in> (edges parents)\<^sup>+" "a \<in> set ?tail" for a d
    using that
  proof (induction rule: trancl_induct)
    case (base y)
    then show ?case using chain_next [OF ch] by (auto simp: edges_def)
  next
    case (step y z)
    then show ?case using chain_next [OF ch] by (auto simp: edges_def)
  qed
  have "(c, token) \<in> (edges parents)\<^sup>+" using chain_reaches [OF ch mem] .
  moreover have "c = token \<or> (token, c) \<in> (edges parents)\<^sup>+" using chain_from_hd [OF ch] mem by auto
  ultimately have "(c, c) \<in> (edges parents)\<^sup>+" by (metis trancl_trans)
  moreover have "c \<le> d" if "(c, d) \<in> (edges parents)\<^sup>+" for d
    using closed [OF that mem] c by (metis List.finite_set Min_le)
  ultimately show ?thesis by blast
qed

section \<open>All walks\<close>

lemma mark_done_nth:
  "length (mark_done path state) = length state \<and>
   (i < length state \<longrightarrow> mark_done path state ! i = (if i \<in> set path then 2 else state ! i))"
  unfolding mark_done_def
proof (induction path arbitrary: state)
  case (Cons a path)
  show ?case using Cons.IH [of "state[a := 2]"] by (auto simp: nth_list_update)
qed simp

lemma mark_done_ok:
  assumes "marks_ok parents state path"
  shows "marks_ok parents (mark_done path state) []"
proof -
  have "mark_done path state ! i \<in> {0, 2}" if "i < length state" for i
  proof -
    have "state ! i \<in> {0, 1, 2}" using assms that nth_mem unfolding marks_ok_def by blast
    moreover have "i \<in> set path \<longleftrightarrow> state ! i = 1" using assms that by (auto simp: marks_ok_def)
    ultimately show ?thesis using mark_done_nth [of path state i] that by auto
  qed
  moreover have "length (mark_done path state) = length parents" using assms mark_done_nth [of path state] by (simp add: marks_ok_def)
  moreover have "length state = length parents" using assms by (simp add: marks_ok_def)
  ultimately show ?thesis unfolding marks_ok_def by (force simp: in_set_conv_nth)
qed

definition on_cycle :: "int list \<Rightarrow> nat \<Rightarrow> bool" where
  "on_cycle parents c \<longleftrightarrow> (c, c) \<in> (edges parents)\<^sup>+ \<and> (\<forall>d. (c, d) \<in> (edges parents)\<^sup>+ \<longrightarrow> c \<le> d)"

lemma cycles_from_ok:
  assumes "marks_ok parents state []" and "set starts \<subseteq> {..<length parents}"
  shows "\<exists>cs. fst (cycles_from parents starts state path problems) = problems @ map TreeCycle cs \<and>
    (\<forall>c \<in> set cs. on_cycle parents c) \<and> (cs \<noteq> [] \<longrightarrow> (\<exists>i < length parents. \<not> rooted parents i)) \<and>
    (cs = [] \<longrightarrow> (\<forall>i < length parents. state ! i = 2 \<longrightarrow> rooted parents i) \<longrightarrow> (\<forall>i \<in> set starts. rooted parents i))"
  using assms
proof (induction starts arbitrary: state path problems)
  case (Cons start starts)
  have sub: "start < length parents" "set starts \<subseteq> {..<length parents}" using Cons.prems(2) by auto
  show ?case
  proof (cases "state ! start = 2")
    case True
    then show ?thesis using Cons.IH [OF Cons.prems(1) sub(2), of path problems] sub(1) by auto
  next
    case False
    obtain state' path' found where w: "walk parents start state [] = (state', path', found)" by (metis surj_pair)
    have nil: "chain parents [] start" by simp
    note ok = walk_ok [OF Cons.prems(1) nil sub(1) w]
    have mk: "marks_ok parents (mark_done path' state') []" using ok mark_done_ok by blast
    have len: "length state' = length parents" using ok by (simp add: marks_ok_def)
    have two: "mark_done path' state' ! i = 2 \<longleftrightarrow> i \<in> set path' \<or> state ! i = 2" if "i < length parents" for i
      using mark_done_nth [of path' state' i] ok that len by auto
    have inr: "set path' \<subseteq> {..<length parents}" using ok by (auto simp: marks_ok_def)
    let ?ps = "case found of None \<Rightarrow> problems | Some c \<Rightarrow> problems @ [TreeCycle c]"
    obtain cs where cs: "fst (cycles_from parents starts (mark_done path' state') path' ?ps) = ?ps @ map TreeCycle cs"
      "\<forall>c \<in> set cs. on_cycle parents c" "cs \<noteq> [] \<longrightarrow> (\<exists>i < length parents. \<not> rooted parents i)"
      "cs = [] \<longrightarrow> (\<forall>i < length parents. mark_done path' state' ! i = 2 \<longrightarrow> rooted parents i) \<longrightarrow> (\<forall>i \<in> set starts. rooted parents i)"
      using Cons.IH [OF mk sub(2), of path' ?ps] by blast
    have eq: "fst (cycles_from parents (start # starts) state path problems) =
        fst (cycles_from parents starts (mark_done path' state') path' ?ps)"
      using False w by simp
    show ?thesis
    proof (cases found)
      case None
      have "start \<in> set path'" using ok False by blast
      have all: "\<forall>i \<in> set (start # starts). rooted parents i"
        if "cs = []" and old: "\<forall>i < length parents. state ! i = 2 \<longrightarrow> rooted parents i"
      proof -
        have path: "\<forall>i \<in> set path'. rooted parents i" using ok None old by blast
        then have "\<forall>i < length parents. mark_done path' state' ! i = 2 \<longrightarrow> rooted parents i" using two old by blast
        with cs(4) that(1) path \<open>start \<in> set path'\<close> show ?thesis by simp
      qed
      then show ?thesis unfolding eq cs(1) using cs(2,3) None by (intro exI [of _ cs]) simp
    next
      case (Some c)
      obtain p t where "chain parents p t" "t \<in> set p" "c = cycle_token p t"
        using walk_cycle [OF Cons.prems(1) nil sub(1) w [unfolded Some]] by blast
      then have "on_cycle parents c" unfolding on_cycle_def by (rule cycle_token_least)
      moreover have "\<exists>i < length parents. \<not> rooted parents i" using ok Some inr by auto
      ultimately show ?thesis unfolding eq cs(1) using cs(2) Some by (intro exI [of _ "c # cs"]) simp
    qed
  qed
qed simp

lemma check_tree_cycles_ok:
  "\<exists>cs. fst (check_tree_cycles parents (replicate (length parents) 0) path problems) = problems @ map TreeCycle cs \<and>
    (\<forall>c \<in> set cs. on_cycle parents c) \<and> (cs = [] \<longleftrightarrow> (\<forall>i < length parents. rooted parents i))"
proof -
  have mk: "marks_ok parents (replicate (length parents) 0) []"
    by (auto simp: marks_ok_def dest: in_set_replicate [THEN iffD1])
  show ?thesis
    unfolding check_tree_cycles_def
    using cycles_from_ok [OF mk, of "[0..<length parents]" path problems] by fastforce
qed

section \<open>The checks as a whole\<close>

definition parent_problem :: "nat \<Rightarrow> nat \<Rightarrow> int \<Rightarrow> ir_error list" where
  "parent_problem t token p = (if p < -1 \<or> p \<ge> as_i32 t then [BadParent token p t]
     else if p = as_i32 token then [SelfParent token] else [])"

lemma parent_problems_from_eq:
  "parent_problems_from t token ps problems =
     problems @ concat (map (\<lambda>(i, p). parent_problem t i p) (enumerate token ps))"
  by (induction t token ps problems rule: parent_problems_from.induct) (auto simp: parent_problem_def)

definition shape_ok :: "nat \<Rightarrow> nat \<Rightarrow> nat \<Rightarrow> bool" where
  "shape_ok t t_max anc_len \<longleftrightarrow> (0 < t \<longrightarrow> 0 < t_max) \<and> anc_len = t * t_max \<and> t * t_max < 2 ^ 64"

definition parents_ok :: "int list \<Rightarrow> bool" where
  "parents_ok parents \<longleftrightarrow> (\<forall>i < length parents. parents ! i = -1 \<or>
     0 \<le> parents ! i \<and> parents ! i < int (length parents) \<and> parents ! i \<noteq> int i)"

definition tree_ok :: "int list \<Rightarrow> nat \<Rightarrow> nat \<Rightarrow> bool" where
  "tree_ok parents t_max anc_len \<longleftrightarrow>
     shape_ok (length parents) t_max anc_len \<and> parents_ok parents \<and> (\<forall>i < length parents. rooted parents i)"

lemma shape_problems_nil:
  "push_tree_shape_problems t t_max anc_len [] = [] \<longleftrightarrow> shape_ok t t_max anc_len"
  by (auto simp: push_tree_shape_problems_def shape_ok_def Let_def split: option.splits)

lemma as_i32_small: "n < 2 ^ 31 \<Longrightarrow> as_i32 n = int n"
  by (simp add: as_i32_def)

lemma parent_problems_nil:
  assumes "length parents < 2 ^ 31"
  shows "push_tree_parent_problems parents ps = [] \<longleftrightarrow> ps = [] \<and> parents_ok parents"
proof -
  have "parent_problem (length parents) i (parents ! i) = [] \<longleftrightarrow> parents ! i = -1 \<or>
     0 \<le> parents ! i \<and> parents ! i < int (length parents) \<and> parents ! i \<noteq> int i" if "i < length parents" for i
    using that assms as_i32_small [of i] as_i32_small [OF assms] by (auto simp: parent_problem_def)
  moreover have "concat (map (\<lambda>(i, p). parent_problem (length parents) i p) (enumerate 0 parents)) = [] \<longleftrightarrow>
      (\<forall>i < length parents. parent_problem (length parents) i (parents ! i) = [])"
    unfolding enumerate_eq_zip by (auto simp: set_zip) (metis add_0 nth_upt)
  ultimately show ?thesis
    unfolding push_tree_parent_problems_def parent_problems_from_eq parents_ok_def append_is_Nil_conv by blast
qed

lemma tree_problems_nil:
  assumes "length parents < 2 ^ 31"
  shows "tree_problems parents t_max anc_len = [] \<longleftrightarrow> tree_ok parents t_max anc_len"
proof -
  let ?ps = "push_tree_parent_problems parents (push_tree_shape_problems (length parents) t_max anc_len [])"
  obtain cs where "tree_problems parents t_max anc_len = ?ps @ map TreeCycle cs" "cs = [] \<longleftrightarrow> (\<forall>i < length parents. rooted parents i)"
    using check_tree_cycles_ok [of parents "[]" ?ps] unfolding tree_problems_def by blast
  then show ?thesis
    using parent_problems_nil [OF assms] shape_problems_nil unfolding tree_ok_def by simp
qed

lemma shape_no_cycle: "TreeCycle c \<notin> set (push_tree_shape_problems t t_max n [])"
  by (auto simp: push_tree_shape_problems_def Let_def split: option.splits)

lemma parent_no_cycle: "TreeCycle c \<in> set (push_tree_parent_problems parents ps) \<Longrightarrow> TreeCycle c \<in> set ps"
  by (auto simp: push_tree_parent_problems_def parent_problems_from_eq parent_problem_def split: if_splits)

lemma tree_problems_cycle:
  assumes "TreeCycle c \<in> set (tree_problems parents t_max n)"
  shows "on_cycle parents c"
proof -
  let ?ps = "push_tree_parent_problems parents (push_tree_shape_problems (length parents) t_max n [])"
  obtain cs where cs: "tree_problems parents t_max n = ?ps @ map TreeCycle cs" "\<forall>c \<in> set cs. on_cycle parents c"
    using check_tree_cycles_ok [of parents "[]" ?ps] unfolding tree_problems_def by blast
  have "TreeCycle c \<notin> set ?ps" using shape_no_cycle parent_no_cycle by blast
  with assms cs show ?thesis by auto
qed

end
