(* ===== verification/Batch_Meta.thy ===== *)
theory Batch_Meta
  imports Tree_Mask
begin

text \<open>
  \<open>BatchMeta\<close> and its builder of \<open>crates/r9v-ir/src/batch.rs\<close>: the fixed-shape batch input
  shared by all ops. \<open>build\<close> collects every presence, length, query and tree problem in the
  order the source pushes them. A \<open>Panic\<close> is an out-of-range index of the source: the loop
  over a tree's tokens indexes the parents by query lengths that need not add up to the
  token count.

  Field values are \<open>u32\<close> as natural numbers. \<open>expect("checked present")\<close> is \<open>the\<close>: on a
  problem-free build every field is present (\<open>build_Ok\<close>).
\<close>

section \<open>Data\<close>

definition BLOCK_TABLE_SENTINEL :: nat where "BLOCK_TABLE_SENTINEL = u32_max"

datatype positions = PerToken "nat list" | Mrope "(nat \<times> nat \<times> nat) list"

fun positions_len :: "positions \<Rightarrow> nat" where
  "positions_len (PerToken v) = length v"
| "positions_len (Mrope v) = length v"

record batch_meta =
  bm_g :: nat
  bm_s :: nat
  bm_t :: nat
  bm_max_blocks :: nat
  bm_seq_ids :: "nat list"
  bm_query_len :: "nat list"
  bm_ctx_len :: "nat list"
  bm_positions :: positions
  bm_slot_map :: "nat list"
  bm_block_table :: "nat list"
  bm_window_start :: "nat list"
  bm_tree :: "tree_mask option"

record batch_meta_builder =
  bb_g :: nat
  bb_s :: nat
  bb_t :: nat
  bb_max_blocks :: nat
  bb_seq_ids :: "nat list option"
  bb_query_len :: "nat list option"
  bb_ctx_len :: "nat list option"
  bb_positions :: "positions option"
  bb_slot_map :: "nat list option"
  bb_block_table :: "nat list option"
  bb_window_start :: "nat list option"
  bb_tree :: "tree_mask option"

definition builder :: "nat \<Rightarrow> nat \<Rightarrow> nat \<Rightarrow> nat \<Rightarrow> batch_meta_builder" where
  "builder g s t mb =
     \<lparr>bb_g = g, bb_s = s, bb_t = t, bb_max_blocks = mb, bb_seq_ids = None, bb_query_len = None,
      bb_ctx_len = None, bb_positions = None, bb_slot_map = None, bb_block_table = None,
      bb_window_start = None, bb_tree = None\<rparr>"

datatype build_fault = Panic | Problem ir_error

section \<open>Building\<close>

definition check_len :: "string \<Rightarrow> nat list option \<Rightarrow> nat option \<Rightarrow> ir_error list \<Rightarrow> ir_error list \<times> nat list option" where
  "check_len field value expected problems =
     (case value of
        None \<Rightarrow> (problems @ [MissingField field], None)
      | Some v \<Rightarrow>
          (case expected of
             None \<Rightarrow> (problems, None)
           | Some n \<Rightarrow> if length v = n then (problems, Some v) else (problems @ [BatchLength field n (length v)], None)))"

definition checked_product :: "string \<Rightarrow> nat list \<Rightarrow> ir_error list \<Rightarrow> ir_error list \<times> nat option" where
  "checked_product field factors problems =
     (let product = fold (\<lambda>f acc. Option.bind acc (\<lambda>p. checked_mul 64 p f)) factors (Some 1)
      in (if product = None then problems @ [BatchShapeOverflow field factors] else problems, product))"

definition check_positions :: "nat \<Rightarrow> positions option \<Rightarrow> ir_error list \<Rightarrow> ir_error list \<times> positions option" where
  "check_positions t positions problems =
     (case positions of
        None \<Rightarrow> (problems @ [MissingField ''positions''], None)
      | Some p \<Rightarrow> if positions_len p = t then (problems, Some p)
                  else (problems @ [BatchLength ''positions'' t (positions_len p)], None))"

definition query_problems :: "nat \<Rightarrow> nat list option \<Rightarrow> ir_error list \<Rightarrow> ir_error list" where
  "query_problems t query_len problems =
     (case query_len of
        None \<Rightarrow> problems
      | Some q \<Rightarrow>
          problems @ concat (map (\<lambda>(sq, len). if len = 0 then [EmptyQuery sq] else []) (List.enumerate 0 q)) @
          (if sum_list q \<noteq> t then [QueryTokenCount t (sum_list q)] else []))"

definition crosses :: "nat \<Rightarrow> nat \<Rightarrow> nat \<Rightarrow> nat \<Rightarrow> int \<Rightarrow> ir_error list" where
  "crosses sq seq_start seq_end token parent =
     (if parent \<ge> 0 \<and> (nat parent < seq_start \<or> nat parent \<ge> seq_end)
      then [TreeParentCrossesSequence token parent sq seq_start seq_end] else [])"

fun cross_seqs :: "int list \<Rightarrow> nat \<Rightarrow> nat \<Rightarrow> nat list \<Rightarrow> ir_error list \<Rightarrow> (build_fault, ir_error list) result" where
  "cross_seqs parents sq seq_start [] problems = Inr problems"
| "cross_seqs parents sq seq_start (seq_len # rest) problems =
     bind_r (fold_r (\<lambda>token ps. bind_r (ok_or Panic (get parents token))
               (\<lambda>parent. Inr (ps @ crosses sq seq_start (seq_start + seq_len) token parent)))
             [seq_start..<seq_start + seq_len] problems)
       (cross_seqs parents (Suc sq) (seq_start + seq_len) rest)"

definition tree_batch_problems :: "nat \<Rightarrow> tree_mask option \<Rightarrow> nat list option \<Rightarrow> ir_error list \<Rightarrow>
    (build_fault, ir_error list) result" where
  "tree_batch_problems t tree query_len problems =
     (case tree of
        None \<Rightarrow> Inr problems
      | Some tm \<Rightarrow>
          let n = length (tm_parents tm);
              ps1 = (if n \<noteq> t then problems @ [TreeBatchMismatch n t] else problems)
          in case query_len of
               None \<Rightarrow> Inr ps1
             | Some q \<Rightarrow>
                 let required = fold max q 0;
                     ps2 = (if tm_t_max tm < required then ps1 @ [TreeMaxTooSmall required (tm_t_max tm)] else ps1)
                 in if n = t then cross_seqs (tm_parents tm) 0 0 q ps2 else Inr ps2)"

definition build :: "batch_meta_builder \<Rightarrow> (build_fault, batch_meta) result" where
  "build b =
     (let g = bb_g b; s = bb_s b; t = bb_t b; mb = bb_max_blocks b;
          p0 = (if g = 0 \<or> s = 0 \<or> t = 0 \<or> mb = 0 then [ZeroBatchDim g s t mb] else []);
          (p1, seq_ids) = check_len ''seq_ids'' (bb_seq_ids b) (Some s) p0;
          (p2, query_len) = check_len ''query_len'' (bb_query_len b) (Some s) p1;
          (p3, ctx_len) = check_len ''ctx_len'' (bb_ctx_len b) (Some s) p2;
          (p4, slot_n) = checked_product ''slot_map'' [g, t] p3;
          (p5, block_n) = checked_product ''block_table'' [g, s, mb] p4;
          (p6, window_n) = checked_product ''window_start'' [g, s] p5;
          (p7, slot_map) = check_len ''slot_map'' (bb_slot_map b) slot_n p6;
          (p8, block_table) = check_len ''block_table'' (bb_block_table b) block_n p7;
          (p9, window_start) = check_len ''window_start'' (bb_window_start b) window_n p8;
          (p10, positions) = check_positions t (bb_positions b) p9;
          p11 = query_problems t query_len p10
      in bind_r (tree_batch_problems t (bb_tree b) query_len p11) (\<lambda>problems.
         if problems = []
         then Inr \<lparr>bm_g = g, bm_s = s, bm_t = t, bm_max_blocks = mb, bm_seq_ids = the seq_ids,
                   bm_query_len = the query_len, bm_ctx_len = the ctx_len, bm_positions = the positions,
                   bm_slot_map = the slot_map, bm_block_table = the block_table,
                   bm_window_start = the window_start, bm_tree = bb_tree b\<rparr>
         else if length problems = 1 then Inl (Problem (last problems))
         else Inl (Problem (Multiple problems))))"

section \<open>Row-major reads\<close>

text \<open>\<open>None\<close> is the assertion failure of an out-of-range index.\<close>

definition bm_slot :: "batch_meta \<Rightarrow> nat \<Rightarrow> nat \<Rightarrow> nat option" where
  "bm_slot m grp tok =
     (if grp < bm_g m \<and> tok < bm_t m then get (bm_slot_map m) (grp * bm_t m + tok) else None)"

definition bm_block :: "batch_meta \<Rightarrow> nat \<Rightarrow> nat \<Rightarrow> nat \<Rightarrow> nat option" where
  "bm_block m grp sq b =
     (if grp < bm_g m \<and> sq < bm_s m \<and> b < bm_max_blocks m
      then get (bm_block_table m) ((grp * bm_s m + sq) * bm_max_blocks m + b) else None)"

definition bm_window :: "batch_meta \<Rightarrow> nat \<Rightarrow> nat \<Rightarrow> nat option" where
  "bm_window m grp sq =
     (if grp < bm_g m \<and> sq < bm_s m then get (bm_window_start m) (grp * bm_s m + sq) else None)"

section \<open>What a build accepts\<close>

text \<open>A parent stays inside the token range of its own sequence.\<close>

fun within_seqs :: "int list \<Rightarrow> nat \<Rightarrow> nat list \<Rightarrow> bool" where
  "within_seqs parents start [] = True"
| "within_seqs parents start (n # ns) =
     ((\<forall>token \<in> {start..<start + n}. parents ! token \<ge> 0 \<longrightarrow>
         start \<le> nat (parents ! token) \<and> nat (parents ! token) < start + n) \<and>
      within_seqs parents (start + n) ns)"

definition tree_fits :: "tree_mask \<Rightarrow> nat \<Rightarrow> nat list \<Rightarrow> bool" where
  "tree_fits tm t q \<longleftrightarrow> length (tm_parents tm) = t \<and> (\<forall>n \<in> set q. n \<le> tm_t_max tm) \<and> within_seqs (tm_parents tm) 0 q"

definition bm_ok :: "batch_meta \<Rightarrow> bool" where
  "bm_ok m \<longleftrightarrow> 0 < bm_g m \<and> 0 < bm_s m \<and> 0 < bm_t m \<and> 0 < bm_max_blocks m \<and>
     length (bm_seq_ids m) = bm_s m \<and> length (bm_query_len m) = bm_s m \<and> length (bm_ctx_len m) = bm_s m \<and>
     length (bm_slot_map m) = bm_g m * bm_t m \<and> length (bm_block_table m) = bm_g m * bm_s m * bm_max_blocks m \<and>
     length (bm_window_start m) = bm_g m * bm_s m \<and> bm_g m * bm_t m < 2 ^ 64 \<and>
     bm_g m * bm_s m * bm_max_blocks m < 2 ^ 64 \<and> positions_len (bm_positions m) = bm_t m \<and>
     0 \<notin> set (bm_query_len m) \<and> sum_list (bm_query_len m) = bm_t m \<and>
     (\<forall>tm. bm_tree m = Some tm \<longrightarrow> tree_fits tm (bm_t m) (bm_query_len m))"

definition fields_of :: "batch_meta_builder \<Rightarrow> batch_meta \<Rightarrow> bool" where
  "fields_of b m \<longleftrightarrow> bm_g m = bb_g b \<and> bm_s m = bb_s b \<and> bm_t m = bb_t b \<and> bm_max_blocks m = bb_max_blocks b \<and>
     bb_seq_ids b = Some (bm_seq_ids m) \<and> bb_query_len b = Some (bm_query_len m) \<and>
     bb_ctx_len b = Some (bm_ctx_len m) \<and> bb_positions b = Some (bm_positions m) \<and>
     bb_slot_map b = Some (bm_slot_map m) \<and> bb_block_table b = Some (bm_block_table m) \<and>
     bb_window_start b = Some (bm_window_start m) \<and> bb_tree b = bm_tree m"

lemma fold_max_le: "fold max q (a::nat) \<le> n \<longleftrightarrow> a \<le> n \<and> (\<forall>x \<in> set q. x \<le> n)"
  by (induction q arbitrary: a) auto

lemma crosses_nil: "crosses sq a b token p = [] \<longleftrightarrow> (0 \<le> p \<longrightarrow> a \<le> nat p \<and> nat p < b)"
  by (auto simp: crosses_def)

lemma fold_r_collect:
  assumes "\<And>x. x \<in> set xs \<Longrightarrow> \<exists>y. h x = Inr y"
  shows "fold_r (\<lambda>x ps. bind_r (h x) (\<lambda>y. Inr (ps @ f x y))) xs ps =
    Inr (ps @ concat (map (\<lambda>x. f x (projr (h x))) xs))"
  using assms
proof (induction xs arbitrary: ps)
  case (Cons x xs)
  then obtain y where "h x = Inr y" by auto
  with Cons show ?case by simp
qed simp

text \<open>In range, the collected crossings are empty exactly when no parent crosses.\<close>

lemma cross_seqs_ok:
  assumes "start + sum_list q \<le> length parents"
  shows "\<exists>ps'. cross_seqs parents sq start q ps = Inr (ps @ ps') \<and> (ps' = [] \<longleftrightarrow> within_seqs parents start q)"
  using assms
proof (induction q arbitrary: sq start ps)
  case (Cons n q)
  let ?f = "\<lambda>token. crosses sq start (start + n) token (parents ! token)"
  have g: "ok_or Panic (get parents token) = Inr (parents ! token)" if "token \<in> set [start..<start + n]" for token
    using that Cons.prems by (simp add: get_def)
  have e: "fold_r (\<lambda>token ps. bind_r (ok_or Panic (get parents token))
      (\<lambda>parent. Inr (ps @ crosses sq start (start + n) token parent))) [start..<start + n] ps =
    Inr (ps @ concat (map ?f [start..<start + n]))"
  proof (subst fold_r_collect)
    have "map (\<lambda>x. crosses sq start (start + n) x (projr (ok_or Panic (get parents x)))) [start..<start + n] = map ?f [start..<start + n]"
      by (rule map_cong) (simp_all only: g sum.sel)
    then show "(Inr (ps @ concat (map (\<lambda>x. crosses sq start (start + n) x (projr (ok_or Panic (get parents x)))) [start..<start + n])) ::
        (build_fault, ir_error list) result) = Inr (ps @ concat (map ?f [start..<start + n]))" by (rule arg_cong [where f = "\<lambda>x. Inr (ps @ concat x)"])
  qed (use g in blast)
  obtain ps' where ps': "cross_seqs parents (Suc sq) (start + n) q (ps @ concat (map ?f [start..<start + n])) =
      Inr ((ps @ concat (map ?f [start..<start + n])) @ ps')" "ps' = [] \<longleftrightarrow> within_seqs parents (start + n) q"
  proof -
    have "start + n + sum_list q \<le> length parents" using Cons.prems by simp
    from Cons.IH [OF this, of "Suc sq" "ps @ concat (map ?f [start..<start + n])"] that show ?thesis by blast
  qed
  show ?case
    unfolding cross_seqs.simps e bind_r_simps ps'(1) using ps'(2) by (auto simp: crosses_nil)
qed simp

lemma fold_r_prefix:
  assumes "\<And>x b c. x \<in> set xs \<Longrightarrow> f x b = Inr c \<Longrightarrow> \<exists>d. c = b @ d" and "fold_r f xs ps = Inr ps'"
  shows "\<exists>d. ps' = ps @ d"
  using assms
proof (induction xs arbitrary: ps)
  case (Cons x xs)
  then obtain c where c: "f x ps = Inr c" "fold_r f xs c = Inr ps'" by (auto simp: bind_r_eq_Inr)
  moreover obtain d where "c = ps @ d" using Cons.prems(1) c(1) by (meson list.set_intros(1))
  moreover obtain d' where "ps' = c @ d'" using Cons.IH [OF _ c(2)] Cons.prems(1) by (metis list.set_intros(2))
  ultimately show ?case by simp
qed simp

lemma cross_seqs_prefix: "cross_seqs parents sq start q ps = Inr ps' \<Longrightarrow> \<exists>d. ps' = ps @ d"
proof (induction q arbitrary: sq start ps)
  case (Cons n q)
  then obtain c where c: "fold_r (\<lambda>token ps. bind_r (ok_or Panic (get parents token))
      (\<lambda>parent. Inr (ps @ crosses sq start (start + n) token parent))) [start..<start + n] ps = Inr c"
    "cross_seqs parents (Suc sq) (start + n) q c = Inr ps'" by (auto simp: bind_r_eq_Inr)
  obtain d where d: "c = ps @ d" using fold_r_prefix [OF _ c(1)] by (auto simp: bind_r_eq_Inr)
  obtain d' where "ps' = c @ d'" using Cons.IH [OF c(2)] by blast
  with d show ?case by simp
qed simp

lemma check_len_nil:
  "fst (check_len f v e ps) = [] \<longleftrightarrow> ps = [] \<and> (\<exists>x. v = Some x \<and> (\<forall>n. e = Some n \<longrightarrow> length x = n))"
  by (auto simp: check_len_def split: option.splits)

lemma check_len_snd:
  "snd (check_len f v (Some n) ps) = (if \<exists>x. v = Some x \<and> length x = n then v else None)"
  by (auto simp: check_len_def split: option.splits)

lemma checked_product_2:
  "checked_product f [a, b] ps = (if a < 2 ^ 64 \<and> a * b < 2 ^ 64 then (ps, Some (a * b)) else (ps @ [BatchShapeOverflow f [a, b]], None))"
  by (auto simp: checked_product_def Let_def checked_mul_def)

lemma checked_product_3:
  "checked_product f [a, b, c] ps = (if a < 2 ^ 64 \<and> a * b < 2 ^ 64 \<and> a * b * c < 2 ^ 64 then (ps, Some (a * b * c))
     else (ps @ [BatchShapeOverflow f [a, b, c]], None))"
  by (auto simp: checked_product_def Let_def checked_mul_def)

lemma query_problems_nil:
  "query_problems t ql ps = [] \<longleftrightarrow> ps = [] \<and> (\<forall>q. ql = Some q \<longrightarrow> 0 \<notin> set q \<and> sum_list q = t)"
proof (cases ql)
  case (Some q)
  have "(\<forall>x \<in> set (List.enumerate 0 q). snd x \<noteq> 0) \<longleftrightarrow> 0 \<notin> set q"
    by (metis map_snd_enumerate in_set_conv_nth list.set_map imageI image_iff)
  with Some show ?thesis by (auto simp: query_problems_def split: prod.splits)
qed (simp add: query_problems_def)

lemma tree_batch_problems_nil:
  assumes "\<And>q. ql = Some q \<Longrightarrow> ps = [] \<Longrightarrow> sum_list q = t"
  shows "tree_batch_problems t tree ql ps = Inr [] \<longleftrightarrow> ps = [] \<and>
    (\<forall>tm. tree = Some tm \<longrightarrow> length (tm_parents tm) = t \<and> (\<forall>q. ql = Some q \<longrightarrow> tree_fits tm t q))"
proof (cases tree)
  case (Some tm)
  show ?thesis
  proof (cases ql)
    case None
    with Some show ?thesis by (auto simp: tree_batch_problems_def Let_def split: if_splits)
  next
    case q: (Some q)
    show ?thesis
    proof (cases "ps = [] \<and> length (tm_parents tm) = t")
      case True
      have le: "0 + sum_list q \<le> length (tm_parents tm)" using True assms [OF q] by simp
      obtain d where d: "cross_seqs (tm_parents tm) 0 0 q [] = Inr d" "d = [] \<longleftrightarrow> within_seqs (tm_parents tm) 0 q"
        using cross_seqs_ok [OF le, of 0 "[]"] by auto
      have ne: "cross_seqs (tm_parents tm) 0 0 q [e] \<noteq> Inr []" for e using cross_seqs_prefix [of "tm_parents tm" 0 0 q "[e]"] by auto
      have mx: "tm_t_max tm < fold max q 0 \<longleftrightarrow> \<not> (\<forall>n \<in> set q. n \<le> tm_t_max tm)"
        using fold_max_le [of q 0 "tm_t_max tm"] by (metis le0 not_less)
      show ?thesis
        using True d ne by (simp add: Some q tree_batch_problems_def tree_fits_def Let_def mx)
    next
      case False
      with Some q show ?thesis
        by (auto simp: tree_batch_problems_def tree_fits_def Let_def split: if_splits dest!: cross_seqs_prefix)
    qed
  qed
qed (simp add: tree_batch_problems_def)

lemma tree_query_nil:
  "tree_batch_problems t tree ql (query_problems t ql ps) = Inr [] \<longleftrightarrow> query_problems t ql ps = [] \<and>
    (\<forall>tm. tree = Some tm \<longrightarrow> length (tm_parents tm) = t \<and> (\<forall>q. ql = Some q \<longrightarrow> tree_fits tm t q))"
  by (rule tree_batch_problems_nil) (simp add: query_problems_nil)

lemma check_positions_nil:
  "fst (check_positions t po ps) = [] \<longleftrightarrow> ps = [] \<and> (\<exists>p. po = Some p \<and> positions_len p = t)"
  by (auto simp: check_positions_def split: option.splits)

lemma check_positions_snd: "snd (check_positions t (Some p) ps) = (if positions_len p = t then Some p else None)"
  by (simp add: check_positions_def)

lemma checked_product_nil:
  "fst (checked_product f fs ps) = [] \<longleftrightarrow> ps = [] \<and> snd (checked_product f fs ps) \<noteq> None"
  "snd (checked_product f [a, b] ps) = (if a < 2 ^ 64 \<and> a * b < 2 ^ 64 then Some (a * b) else None)"
  "snd (checked_product f [a, b, c] ps) = (if a < 2 ^ 64 \<and> a * b < 2 ^ 64 \<and> a * b * c < 2 ^ 64 then Some (a * b * c) else None)"
  by (auto simp: checked_product_def Let_def checked_mul_def split: option.splits)

lemmas build_nil = tree_query_nil query_problems_nil check_positions_nil check_positions_snd
  check_len_nil check_len_snd checked_product_nil

text \<open>A build succeeds exactly on complete fields of the declared shape, and carries them over.\<close>

lemma factors_bound:
  fixes a b :: nat
  assumes "0 < b" and "a * b < n"
  shows "a < n"
proof -
  have "a \<le> a * b" using assms(1) by simp
  with assms(2) show ?thesis by linarith
qed

lemma build_Ok: "build b = Inr m \<longleftrightarrow> fields_of b m \<and> bm_ok m"
proof
  assume "build b = Inr m"
  then show "fields_of b m \<and> bm_ok m"
    unfolding build_def Let_def split_beta bind_r_eq_Inr
    by (clarsimp simp: build_nil fields_of_def bm_ok_def split: if_splits)
next
  assume *: "fields_of b m \<and> bm_ok m"
  then have "bm_g m < 2 ^ 64" "bm_g m * bm_s m < 2 ^ 64"
    by (auto simp: bm_ok_def intro: factors_bound)
  moreover have "bb_g b = bm_g m" "bb_s b = bm_s m" "bb_t b = bm_t m" "bb_max_blocks b = bm_max_blocks m"
    using * by (simp_all add: fields_of_def)
  ultimately show "build b = Inr m"
    using * unfolding build_def Let_def split_beta bind_r_eq_Inr
    by (intro exI [of _ "[]"]) (auto simp: build_nil fields_of_def bm_ok_def tree_fits_def)
qed

text \<open>
  The tree loop indexes in range when the query lengths cover at most the tree's tokens; a
  builder whose query lengths exceed them reaches the out-of-range index before it can
  report the mismatch.
\<close>

lemma build_no_panic:
  assumes "\<And>tm q. bb_tree b = Some tm \<Longrightarrow> bb_query_len b = Some q \<Longrightarrow> sum_list q \<le> length (tm_parents tm)"
  shows "build b \<noteq> Inl Panic"
proof -
  have tree: "tree_batch_problems t (bb_tree b) ql ps \<noteq> Inl Panic" if "ql = None \<or> ql = bb_query_len b" for t ql ps
  proof (cases "bb_tree b")
    case (Some tm)
    have "cross_seqs (tm_parents tm) 0 0 q ps \<noteq> Inl Panic" if "bb_query_len b = Some q" for q ps
      using cross_seqs_ok [of 0 q "tm_parents tm" 0 ps] assms [OF Some that] by auto
    with Some that show ?thesis by (auto simp: tree_batch_problems_def Let_def split: option.splits)
  qed (simp add: tree_batch_problems_def)
  have ql: "snd (check_len f v (Some n) ps) = None \<or> snd (check_len f v (Some n) ps) = v" for f v n ps by (auto simp: check_len_snd)
  have bind: "bind_r r k \<noteq> Inl Panic" if "r \<noteq> Inl Panic" "\<And>a. k a \<noteq> Inl Panic"
    for r :: "(build_fault, ir_error list) result" and k :: "ir_error list \<Rightarrow> (build_fault, batch_meta) result"
    using that by (simp add: bind_r_eq_Inl)
  have last: "(if c then Inr x else if d then Inl (Problem y) else Inl (Problem z)) \<noteq> Inl Panic"
    for c d y z and x :: batch_meta by simp
  show ?thesis
    unfolding build_def Let_def split_beta by (rule bind, rule tree [OF ql], rule last)
qed

end
