(* ===== verification/Batch_Emit.thy ===== *)
theory Batch_Emit
  imports Batch_Meta State_Manager
begin

text \<open>
  The batch half of \<open>crates/r9v-state/src/manager.rs\<close>: planning a batch (\<open>plan_batch\<close>),
  emitting its tensors (\<open>emit_batch_into\<close>), the owned builder path (\<open>batch_meta_with_options\<close>)
  and the caller-owned workspace of the hot path (\<open>BatchWorkspace\<close>,
  \<open>fill_batch_meta_with_options\<close>, \<open>fill_batch_meta_with_options_and_tree_input\<close>).

  Loops that push into caller buffers return the error, if any, together with the buffers
  as they are at that moment, so that what a failure leaves behind is part of the model.
  A vector is its items and its capacity; growing gives the least capacity that holds the
  items, and reserving gives the requested capacity, the least the allocator interface
  guarantees.
\<close>

section \<open>Loops over buffers\<close>

type_synonym 'w outcome = "state_error option \<times> 'w"

definition then_e :: "'w outcome \<Rightarrow> ('w \<Rightarrow> 'w outcome) \<Rightarrow> 'w outcome" where
  "then_e r k = (case r of (Some e, w) \<Rightarrow> (Some e, w) | (None, w) \<Rightarrow> k w)"

definition try_e :: "'a state_result \<Rightarrow> ('a \<Rightarrow> 'w \<Rightarrow> 'w outcome) \<Rightarrow> 'w \<Rightarrow> 'w outcome" where
  "try_e r k w = (case r of Inl e \<Rightarrow> (Some e, w) | Inr a \<Rightarrow> k a w)"

fun for_e :: "('a \<Rightarrow> 'w \<Rightarrow> 'w outcome) \<Rightarrow> 'a list \<Rightarrow> 'w \<Rightarrow> 'w outcome" where
  "for_e f [] w = (None, w)"
| "for_e f (x # xs) w = then_e (f x w) (for_e f xs)"

lemma outcome_simps [simp]:
  "then_e (None, w) j = j w"
  "then_e (Some e, w) j = (Some e, w)"
  "try_e (Inr a) k w = k a w"
  "try_e (Inl e) k w = (Some e, w)"
  by (simp_all add: then_e_def try_e_def)

lemma for_e_fold: "(\<And>x w. x \<in> set xs \<Longrightarrow> f x w = (None, g x w)) \<Longrightarrow> for_e f xs w = (None, fold g xs w)"
  by (induction xs arbitrary: w) auto

section \<open>Planning\<close>

record batch_plan =
  pl_total_tokens :: nat
  pl_total_u64 :: nat

fun plan_ids :: "nat \<Rightarrow> nat list \<Rightarrow> batch_problem list \<Rightarrow> nat list \<Rightarrow> batch_problem list state_result \<times> nat list" where
  "plan_ids i [] ps seen = (Inr ps, seen)"
| "plan_ids i (q # qs) ps seen =
     (if q > u32_max then (Inl (SeqIdOverflow q u32_max), seen)
      else if q \<in> set seen then plan_ids (Suc i) qs (ps @ [DuplicateSequence i q]) seen
      else plan_ids (Suc i) qs ps (seen @ [q]))"

fun plan_tokens :: "state_manager \<Rightarrow> nat \<Rightarrow> (nat \<times> nat) list \<Rightarrow> batch_problem list \<Rightarrow> nat \<Rightarrow> batch_problem list \<times> nat" where
  "plan_tokens m i [] ps tot = (ps, tot)"
| "plan_tokens m i ((q, n) # rest) ps tot =
     (case sm_seq m q of
        Inl _ \<Rightarrow> plan_tokens m (Suc i) rest (ps @ [UnknownSequence i q]) tot
      | Inr s \<Rightarrow>
          let ps1 = (if n = 0 \<or> n > ss_tail_len s then ps @ [QueryLenOutsideTail i n (ss_tail_len s)] else ps);
              ps2 = (case checked_add 32 (ss_ctx_len s) n of
                       Some e \<Rightarrow> if e \<le> sc_max_ctx (sm_config m) then ps1
                                 else ps1 @ [ExceedsMaxCtx i (ss_ctx_len s) n (sc_max_ctx (sm_config m))]
                     | None \<Rightarrow> ps1 @ [ExceedsMaxCtx i (ss_ctx_len s) n (sc_max_ctx (sm_config m))])
          in (case checked_add 64 tot n of
                Some t \<Rightarrow> plan_tokens m (Suc i) rest ps2 t
              | None \<Rightarrow> plan_tokens m (Suc i) rest (ps2 @ [TokenTotalOverflows i]) tot))"

text \<open>The result together with the id scratch it leaves.\<close>

definition plan_batch :: "state_manager \<Rightarrow> nat list \<Rightarrow> nat list \<Rightarrow> nat option \<Rightarrow> nat option \<Rightarrow> nat list \<Rightarrow>
    batch_plan state_result \<times> nat list" where
  "plan_batch m seqs query_lens pos_len tree_t seen_ids =
     (if length seqs \<noteq> length query_lens
      then (Inl (InvalidBatch (LengthMismatch (length seqs) (length query_lens))), seen_ids)
      else if seqs = [] then (Inl (InvalidBatch EmptyBatch), seen_ids)
      else case plan_ids 0 seqs [] [] of
             (Inl e, seen) \<Rightarrow> (Inl e, seen)
           | (Inr ps0, seen) \<Rightarrow>
               (let (ps1, tot) = plan_tokens m 0 (zip seqs query_lens) ps0 0;
                    ps2 = (if tot > MAX_BATCH_TOKENS_HARD then ps1 @ [TokensExceedCap tot] else ps1);
                    ps3 = (case pos_len of Some n \<Rightarrow> if n \<noteq> tot then ps2 @ [PositionsLenMismatch n tot] else ps2
                           | None \<Rightarrow> ps2);
                    ps4 = (case tree_t of Some n \<Rightarrow> if n \<noteq> tot then ps3 @ [TreeTokenCountMismatch n tot] else ps3
                           | None \<Rightarrow> ps3)
                in (if ps4 \<noteq> [] then Inl (InvalidBatch (BatchProblems ps4))
                    else Inr \<lparr>pl_total_tokens = tot, pl_total_u64 = tot\<rparr>, seen)))"

section \<open>Emission\<close>

record emit_bufs =
  eb_seq_ids :: "nat list"
  eb_ctx_lens :: "nat list"
  eb_positions :: "nat list option"
  eb_slot_map :: "nat list"
  eb_block_table :: "nat list"
  eb_window_start :: "nat list"

definition vanished :: "state_manager \<Rightarrow> nat \<Rightarrow> seq_state state_result" where
  "vanished m q = (case sm_seq m q of Inl _ \<Rightarrow> Inl (InvalidBatch SequenceVanished) | Inr s \<Rightarrow> Inr s)"

definition emit_id :: "nat \<Rightarrow> emit_bufs \<Rightarrow> emit_bufs outcome" where
  "emit_id q = try_e (ok_or (SeqIdOverflow q u32_max) (try_from 32 q))
     (\<lambda>dev_id w. (None, w\<lparr>eb_seq_ids := eb_seq_ids w @ [dev_id]\<rparr>))"

definition emit_ctx :: "state_manager \<Rightarrow> nat \<times> nat \<Rightarrow> emit_bufs \<Rightarrow> emit_bufs outcome" where
  "emit_ctx m = (\<lambda>(q, n). try_e (vanished m q) (\<lambda>s w.
     let w1 = w\<lparr>eb_ctx_lens := eb_ctx_lens w @ [ss_ctx_len s]\<rparr>
     in if eb_positions w1 = None then (None, w1)
        else for_e (\<lambda>k. try_e (ok_or (Overflow ''batch position'') (checked_add 32 (ss_ctx_len s) k))
                     (\<lambda>pos w. (None, w\<lparr>eb_positions := map_option (\<lambda>ps. ps @ [pos]) (eb_positions w)\<rparr>)))
               [0..<n] w1))"

definition emit_slots :: "state_manager \<Rightarrow> nat \<Rightarrow> nat \<times> nat \<times> nat \<Rightarrow> emit_bufs \<Rightarrow> emit_bufs outcome" where
  "emit_slots m gi = (\<lambda>(si, q, n). try_e (vanished m q) (\<lambda>s w.
     try_e (ok_or (RustPanic ''ctx_lens'') (get (eb_ctx_lens w) si)) (\<lambda>ctx.
     try_e (ok_or (Overflow ''batch reserved end'') (checked_add 32 ctx n)) (\<lambda>end_pos.
     for_e (\<lambda>k. try_e (ok_or (Overflow ''batch position'') (checked_add 32 ctx k)) (\<lambda>pos.
                 try_e (flatten_slot s gi pos end_pos) (\<lambda>sid w. (None, w\<lparr>eb_slot_map := eb_slot_map w @ [sid]\<rparr>))))
       [0..<n])) w))"

definition emit_cell :: "nat \<Rightarrow> nat \<Rightarrow> nat \<Rightarrow> nat \<Rightarrow> nat \<Rightarrow> nat list \<Rightarrow> nat \<times> nat \<Rightarrow> emit_bufs \<Rightarrow> emit_bufs outcome" where
  "emit_cell q gi s_len si max_b tables = (\<lambda>(at, cell).
     try_e (ok_or (InvalidBatch (SequenceHasNoTable q)) (get tables at)) (\<lambda>i.
     try_e (guard_r (cell < max_b) (Overflow ''block table index'')) (\<lambda>_.
     try_e (ok_or (Overflow ''block table offset'')
              (Option.bind (checked_mul 64 gi s_len) (\<lambda>v. Option.bind (checked_add 64 v si) (\<lambda>v.
               Option.bind (checked_mul 64 v max_b) (\<lambda>v. checked_add 64 v cell))))) (\<lambda>offset w.
     try_e (guard_r (offset < length (eb_block_table w)) (Overflow ''block table index'')) (\<lambda>_ w.
       (None, w\<lparr>eb_block_table := (eb_block_table w)[offset := i]\<rparr>)) w))))"

definition emit_row :: "state_manager \<Rightarrow> nat \<Rightarrow> layer_group \<Rightarrow> nat \<Rightarrow> nat \<times> nat \<Rightarrow> emit_bufs \<Rightarrow> emit_bufs outcome" where
  "emit_row m gi g s_len = (\<lambda>(si, q). try_e (vanished m q) (\<lambda>s w.
     then_e
       (if is_paged (lg_spec g)
        then try_e (ok_or (InvalidBatch (SequenceHasNoTable q)) (get (ss_indices s) gi)) (\<lambda>indices.
             try_e (ok_or (InvalidBatch (SequenceHasNoTable q)) (get (ss_tables s) gi)) (\<lambda>tables.
             for_e (emit_cell q gi s_len si (sm_max_blocks m) tables) (List.enumerate 0 indices))) w
        else (None, w))
       (\<lambda>w. (None, w\<lparr>eb_window_start := eb_window_start w @ [group_window_start (lg_spec g) (ss_ctx_len s)]\<rparr>))))"

definition emit_group :: "state_manager \<Rightarrow> nat list \<Rightarrow> nat list \<Rightarrow> nat \<Rightarrow> nat \<times> layer_group \<Rightarrow> emit_bufs \<Rightarrow> emit_bufs outcome" where
  "emit_group m seqs query_lens tot = (\<lambda>(gi, g) w.
     then_e
       (if \<not> is_paged (lg_spec g) then (None, w\<lparr>eb_slot_map := eb_slot_map w @ replicate tot SLOT_NONE\<rparr>)
        else for_e (emit_slots m gi) (List.enumerate 0 (zip seqs query_lens)) w)
       (for_e (emit_row m gi g (length seqs)) (List.enumerate 0 seqs)))"

definition emit_batch_into :: "state_manager \<Rightarrow> nat list \<Rightarrow> nat list \<Rightarrow> batch_plan \<Rightarrow> emit_bufs \<Rightarrow> emit_bufs outcome" where
  "emit_batch_into m seqs query_lens plan w =
     then_e (for_e emit_id seqs w) (\<lambda>w.
     then_e (for_e (emit_ctx m) (zip seqs query_lens) w)
       (for_e (emit_group m seqs query_lens (pl_total_tokens plan)) (List.enumerate 0 (sm_groups m))))"

section \<open>The owned path\<close>

definition batch_meta_with_options :: "state_manager \<Rightarrow> nat list \<Rightarrow> nat list \<Rightarrow> positions option \<Rightarrow> tree_mask option \<Rightarrow>
    batch_meta state_result" where
  "batch_meta_with_options m seqs query_lens positions tree =
     bind_r (fst (plan_batch m seqs query_lens (map_option positions_len positions)
       (map_option (\<lambda>t. length (tm_parents t)) tree) [])) (\<lambda>plan.
     let g_len = length (sm_groups m); s_len = length seqs in
     bind_r (ok_or (Overflow ''flat slot map size'') (checked_mul 64 g_len (pl_total_tokens plan))) (\<lambda>_.
     bind_r (ok_or (Overflow ''flat block table size'')
       (Option.bind (checked_mul 64 g_len s_len) (\<lambda>v. checked_mul 64 v (sm_max_blocks m)))) (\<lambda>total_blocks.
     bind_r (ok_or (Overflow ''flat window start size'') (checked_mul 64 g_len s_len)) (\<lambda>_.
     case emit_batch_into m seqs query_lens plan
            \<lparr>eb_seq_ids = [], eb_ctx_lens = [], eb_positions = Some [], eb_slot_map = [],
             eb_block_table = replicate total_blocks BLOCK_TABLE_SENTINEL, eb_window_start = []\<rparr> of
       (Some e, _) \<Rightarrow> Inl e
     | (None, w) \<Rightarrow>
         bind_r (ok_or (Overflow ''batch meta group count'') (try_from 32 g_len)) (\<lambda>num_groups.
         bind_r (ok_or (Overflow ''batch meta seq count'') (try_from 32 s_len)) (\<lambda>num_seqs.
         bind_r (ok_or (Overflow ''batch meta total tokens'') (try_from 32 (pl_total_u64 plan))) (\<lambda>total_u32.
         case build ((builder num_groups num_seqs total_u32 (sm_max_blocks m))
                \<lparr>bb_seq_ids := Some (eb_seq_ids w), bb_query_len := Some query_lens,
                 bb_ctx_len := Some (eb_ctx_lens w),
                 bb_positions := Some (case positions of Some p \<Rightarrow> p | None \<Rightarrow> PerToken (the (eb_positions w))),
                 bb_slot_map := Some (eb_slot_map w), bb_block_table := Some (eb_block_table w),
                 bb_window_start := Some (eb_window_start w), bb_tree := tree\<rparr>) of
           Inl Panic \<Rightarrow> Inl (RustPanic ''parents'')
         | Inl (Problem e) \<Rightarrow> Inl (Ir e)
         | Inr bm \<Rightarrow> Inr bm)))))))"

definition sm_batch_meta :: "state_manager \<Rightarrow> nat list \<Rightarrow> nat list \<Rightarrow> batch_meta state_result" where
  "sm_batch_meta m seqs query_lens = batch_meta_with_options m seqs query_lens None None"

definition batch_meta_with_tree :: "state_manager \<Rightarrow> nat list \<Rightarrow> nat list \<Rightarrow> tree_mask option \<Rightarrow> batch_meta state_result" where
  "batch_meta_with_tree m seqs query_lens tree = batch_meta_with_options m seqs query_lens None tree"

section \<open>The workspace\<close>

record 'a vec =
  v_items :: "'a list"
  v_cap :: nat

definition vec_new :: "'a vec" where "vec_new = \<lparr>v_items = [], v_cap = 0\<rparr>"

definition vec_set :: "'a vec \<Rightarrow> 'a list \<Rightarrow> 'a vec" where
  "vec_set v xs = \<lparr>v_items = xs, v_cap = max (v_cap v) (length xs)\<rparr>"

record tree_input =
  ti_parents :: "int list"
  ti_t_max :: nat
  ti_ancestors :: "bool list"

record tree_view =
  tv_parents :: "int list"
  tv_t_max :: nat
  tv_ancestors :: "bool list"

record batch_workspace =
  ws_last_g :: nat
  ws_last_s :: nat
  ws_last_t :: nat
  ws_last_max_blocks :: nat
  ws_last_position_width :: nat
  ws_seq_ids :: "nat vec"
  ws_query_lens :: "nat vec"
  ws_ctx_lens :: "nat vec"
  ws_positions :: "nat vec"
  ws_positions_mrope :: "(nat \<times> nat \<times> nat) vec"
  ws_slot_map :: "nat vec"
  ws_block_table :: "nat vec"
  ws_window_start :: "nat vec"
  ws_id_scratch :: "nat vec"
  ws_tree :: "tree_mask option"
  ws_tree_parents :: "int vec"
  ws_tree_ancestors :: "bool vec"
  ws_tree_t_max :: nat
  ws_tree_len :: nat
  ws_tree_anc_len :: nat
  ws_tree_present :: bool
  ws_tree_cycle_state :: "nat vec"
  ws_tree_cycle_path :: "nat vec"

definition ws_new :: batch_workspace where
  "ws_new = \<lparr>ws_last_g = 0, ws_last_s = 0, ws_last_t = 0, ws_last_max_blocks = 0, ws_last_position_width = 0,
     ws_seq_ids = vec_new, ws_query_lens = vec_new, ws_ctx_lens = vec_new, ws_positions = vec_new,
     ws_positions_mrope = vec_new, ws_slot_map = vec_new, ws_block_table = vec_new, ws_window_start = vec_new,
     ws_id_scratch = vec_new, ws_tree = None, ws_tree_parents = vec_new, ws_tree_ancestors = vec_new,
     ws_tree_t_max = 0, ws_tree_len = 0, ws_tree_anc_len = 0, ws_tree_present = False,
     ws_tree_cycle_state = vec_new, ws_tree_cycle_path = vec_new\<rparr>"

text \<open>\<open>try_reserve_exact\<close> on an empty vector, granted or refused by the allocator.\<close>

definition vec_sized :: "(nat \<Rightarrow> nat \<Rightarrow> bool) \<Rightarrow> nat \<Rightarrow> nat \<Rightarrow> 'a vec state_result" where
  "vec_sized grants esz cap =
     (if grants esz cap then Inr \<lparr>v_items = [], v_cap = cap\<rparr> else Inl (Overflow ''workspace capacity''))"

definition try_with_capacity :: "(nat \<Rightarrow> nat \<Rightarrow> bool) \<Rightarrow> nat \<Rightarrow> nat \<Rightarrow> nat \<Rightarrow> nat \<Rightarrow> batch_workspace state_result" where
  "try_with_capacity grants groups max_seqs max_tokens max_b =
     bind_r (ok_or (Overflow ''workspace slot map size'') (checked_mul 64 groups max_tokens)) (\<lambda>need_slot.
     bind_r (ok_or (Overflow ''workspace block table size'')
       (Option.bind (checked_mul 64 groups max_seqs) (\<lambda>v. checked_mul 64 v max_b))) (\<lambda>need_block.
     bind_r (ok_or (Overflow ''workspace window start size'') (checked_mul 64 groups max_seqs)) (\<lambda>need_window.
     bind_r (vec_sized grants 4 max_seqs) (\<lambda>seq_ids.
     bind_r (vec_sized grants 4 max_seqs) (\<lambda>query_lens.
     bind_r (vec_sized grants 4 max_seqs) (\<lambda>ctx_lens.
     bind_r (vec_sized grants 4 max_tokens) (\<lambda>positions.
     bind_r (vec_sized grants 12 max_tokens) (\<lambda>positions_mrope.
     bind_r (vec_sized grants 4 need_slot) (\<lambda>slot_map.
     bind_r (vec_sized grants 4 need_block) (\<lambda>block_table.
     bind_r (vec_sized grants 4 need_window) (\<lambda>window_start.
     bind_r (vec_sized grants 8 max_seqs) (\<lambda>id_scratch.
     Inr (ws_new\<lparr>ws_seq_ids := seq_ids, ws_query_lens := query_lens, ws_ctx_lens := ctx_lens,
                 ws_positions := positions, ws_positions_mrope := positions_mrope, ws_slot_map := slot_map,
                 ws_block_table := block_table, ws_window_start := window_start,
                 ws_id_scratch := id_scratch\<rparr>)))))))))))))"

text \<open>Growing from the length, not the capacity, so that a reused vector reaches the requested size.\<close>

definition reserve_at_least :: "(nat \<Rightarrow> nat \<Rightarrow> bool) \<Rightarrow> nat \<Rightarrow> string \<Rightarrow> nat \<Rightarrow> 'a vec \<Rightarrow> 'a vec state_result" where
  "reserve_at_least grants esz what need v =
     (if v_cap v < need
      then bind_r (ok_or (Overflow what) (checked_sub need (length (v_items v)))) (\<lambda>additional.
           if grants esz additional then Inr (v\<lparr>v_cap := max (v_cap v) (length (v_items v) + additional)\<rparr>)
           else Inl (Overflow what))
      else Inr v)"

definition try_reserve_tree :: "(nat \<Rightarrow> nat \<Rightarrow> bool) \<Rightarrow> nat \<Rightarrow> nat \<Rightarrow> batch_workspace \<Rightarrow> batch_workspace outcome" where
  "try_reserve_tree grants max_tokens max_t =
     try_e (ok_or (Overflow ''tree ancestor mask size'') (checked_mul 64 max_tokens max_t)) (\<lambda>need_anc ws.
     try_e (reserve_at_least grants 4 ''tree parents capacity'' max_tokens (ws_tree_parents ws)) (\<lambda>v ws.
     (let ws = ws\<lparr>ws_tree_parents := v\<rparr> in
     try_e (reserve_at_least grants 1 ''tree ancestors capacity'' need_anc (ws_tree_ancestors ws)) (\<lambda>v ws.
     (let ws = ws\<lparr>ws_tree_ancestors := v\<rparr> in
     try_e (reserve_at_least grants 1 ''tree cycle state capacity'' max_tokens (ws_tree_cycle_state ws)) (\<lambda>v ws.
     (let ws = ws\<lparr>ws_tree_cycle_state := v\<rparr> in
     try_e (reserve_at_least grants 4 ''tree cycle path capacity'' max_tokens (ws_tree_cycle_path ws)) (\<lambda>v ws.
     (None, ws\<lparr>ws_tree_cycle_path := v\<rparr>)) ws)) ws)) ws)) ws)"

definition try_with_capacity_and_tree :: "(nat \<Rightarrow> nat \<Rightarrow> bool) \<Rightarrow> nat \<Rightarrow> nat \<Rightarrow> nat \<Rightarrow> nat \<Rightarrow> nat \<Rightarrow> nat \<Rightarrow>
    batch_workspace state_result" where
  "try_with_capacity_and_tree grants groups max_seqs max_tokens max_b tree_tokens tree_t_max =
     bind_r (try_with_capacity grants groups max_seqs max_tokens max_b) (\<lambda>ws.
     case try_reserve_tree grants tree_tokens tree_t_max ws of (Some e, _) \<Rightarrow> Inl e | (None, ws') \<Rightarrow> Inr ws')"

definition positions_mrope_flat_value :: "batch_workspace \<Rightarrow> nat \<Rightarrow> nat option" where
  "positions_mrope_flat_value ws flat_idx =
     map_option (\<lambda>(a, b, c). [a, b, c] ! (flat_idx mod 3)) (get (v_items (ws_positions_mrope ws)) (flat_idx div 3))"

text \<open>Slicing panics when a stored length exceeds the vector; \<open>tree_stored\<close> below rules that out.\<close>

definition get_tree_view :: "batch_workspace \<Rightarrow> tree_view option" where
  "get_tree_view ws =
     (if ws_tree_present ws
      then Some \<lparr>tv_parents = take (ws_tree_len ws) (v_items (ws_tree_parents ws)), tv_t_max = ws_tree_t_max ws,
                 tv_ancestors = take (ws_tree_anc_len ws) (v_items (ws_tree_ancestors ws))\<rparr>
      else map_option (\<lambda>t. \<lparr>tv_parents = tm_parents t, tv_t_max = tm_t_max t, tv_ancestors = tm_ancestors t\<rparr>) (ws_tree ws))"

definition clear_tree :: "batch_workspace \<Rightarrow> batch_workspace" where
  "clear_tree ws = ws\<lparr>ws_tree_parents := vec_set (ws_tree_parents ws) [], ws_tree_ancestors := vec_set (ws_tree_ancestors ws) [],
     ws_tree_t_max := 0, ws_tree_len := 0, ws_tree_anc_len := 0, ws_tree_present := False\<rparr>"

definition fill_tree :: "tree_input \<Rightarrow> batch_workspace \<Rightarrow> batch_workspace outcome" where
  "fill_tree tree ws =
     (let t = length (ti_parents tree); t_max = ti_t_max tree in
      try_e (ok_or (Overflow ''tree ancestor mask size'') (checked_mul 64 t t_max)) (\<lambda>need_anc.
      try_e (guard_r (t \<le> v_cap (ws_tree_parents ws))
        (InvalidBatch (WorkspaceCapacity ''tree parents'' (v_cap (ws_tree_parents ws)) t))) (\<lambda>_.
      try_e (guard_r (need_anc \<le> v_cap (ws_tree_ancestors ws))
        (InvalidBatch (WorkspaceCapacity ''tree ancestors'' (v_cap (ws_tree_ancestors ws)) need_anc))) (\<lambda>_.
      try_e (guard_r (t \<le> v_cap (ws_tree_cycle_state ws) \<and> t \<le> v_cap (ws_tree_cycle_path ws))
        (InvalidBatch (WorkspaceCapacity ''tree cycle scratch'' 0 t))) (\<lambda>_ ws.
      let ws1 = ws\<lparr>ws_tree_parents := vec_set (ws_tree_parents ws) (ti_parents tree),
                   ws_tree_ancestors := vec_set (ws_tree_ancestors ws) (ti_ancestors tree)\<rparr>;
          (problems, marks, path) = check_tree_cycles (ti_parents tree) (replicate t 0) []
            (push_tree_parent_problems (ti_parents tree)
              (push_tree_shape_problems t t_max (length (ti_ancestors tree)) []));
          ws2 = ws1\<lparr>ws_tree_cycle_state := vec_set (ws_tree_cycle_state ws) marks,
                    ws_tree_cycle_path := vec_set (ws_tree_cycle_path ws) path\<rparr>
      in case validate_tree_slices (ti_parents tree) t_max (ti_ancestors tree) (replicate t 0)
                (v_cap (ws_tree_cycle_path ws)) of
           Inr _ \<Rightarrow> (None, ws2\<lparr>ws_tree := None, ws_tree_t_max := t_max, ws_tree_len := t,
                             ws_tree_anc_len := need_anc, ws_tree_present := True\<rparr>)
         | Inl e \<Rightarrow> (Some (Ir e), clear_tree ws2))))) ws)"

definition ws_slot :: "batch_workspace \<Rightarrow> nat \<Rightarrow> nat \<Rightarrow> nat option" where
  "ws_slot ws grp tok =
     Option.bind (checked_mul 64 grp (ws_last_t ws)) (\<lambda>v. Option.bind (checked_add 64 v tok) (get (v_items (ws_slot_map ws))))"

definition ws_block :: "batch_workspace \<Rightarrow> nat \<Rightarrow> nat \<Rightarrow> nat \<Rightarrow> nat option" where
  "ws_block ws grp sq b =
     Option.bind (checked_mul 64 grp (ws_last_s ws)) (\<lambda>v. Option.bind (checked_add 64 v sq) (\<lambda>v.
     Option.bind (checked_mul 64 v (ws_last_max_blocks ws)) (\<lambda>v. Option.bind (checked_add 64 v b)
       (get (v_items (ws_block_table ws))))))"

section \<open>Filling the workspace\<close>

fun cross_rules :: "int list \<Rightarrow> nat \<Rightarrow> nat \<Rightarrow> nat list \<Rightarrow> ir_error list" where
  "cross_rules parents sq seq_start [] = []"
| "cross_rules parents sq seq_start (seq_len # rest) =
     concat (map (\<lambda>(token, parent). crosses sq seq_start (seq_start + seq_len) token parent)
       (take seq_len (drop seq_start (List.enumerate 0 parents)))) @
     cross_rules parents (Suc sq) (seq_start + seq_len) rest"

definition check_tree_batch_rules :: "int list \<Rightarrow> nat \<Rightarrow> nat list \<Rightarrow> (ir_error, unit) result" where
  "check_tree_batch_rules parents t_max query_lens =
     (let required = fold max query_lens 0;
          ps = (if t_max < required then [TreeMaxTooSmall required t_max] else [])
      in from_problems (ps @ (if length parents = sum_list query_lens then cross_rules parents 0 0 query_lens else [])))"

definition ir_result :: "(ir_error, 'a) result \<Rightarrow> 'a state_result" where
  "ir_result r = (case r of Inl e \<Rightarrow> Inl (Ir e) | Inr a \<Rightarrow> Inr a)"

definition check_cap :: "string \<Rightarrow> 'a vec \<Rightarrow> nat \<Rightarrow> unit state_result" where
  "check_cap what v need =
     (if v_cap v < need then Inl (InvalidBatch (WorkspaceCapacity what (v_cap v) need)) else Inr ())"

definition is_mrope :: "positions option \<Rightarrow> bool" where
  "is_mrope p = (case p of Some (Mrope _) \<Rightarrow> True | _ \<Rightarrow> False)"

text \<open>The checked sizes and the capacity checks both fill paths start with: the length of the block table.\<close>

definition check_sizes :: "state_manager \<Rightarrow> nat \<Rightarrow> nat \<Rightarrow> positions option \<Rightarrow> batch_workspace \<Rightarrow> nat state_result" where
  "check_sizes m s_len t_len positions ws =
     (let g_len = length (sm_groups m) in
      bind_r (ok_or (Overflow ''flat slot map size'') (checked_mul 64 g_len t_len)) (\<lambda>need_slot.
      bind_r (ok_or (Overflow ''flat block table size'')
        (Option.bind (checked_mul 64 g_len s_len) (\<lambda>v. checked_mul 64 v (sm_max_blocks m)))) (\<lambda>need_block.
      bind_r (ok_or (Overflow ''flat window start size'') (checked_mul 64 g_len s_len)) (\<lambda>need_window.
      bind_r (check_cap ''seq_ids'' (ws_seq_ids ws) s_len) (\<lambda>_.
      bind_r (check_cap ''query_lens'' (ws_query_lens ws) s_len) (\<lambda>_.
      bind_r (check_cap ''ctx_lens'' (ws_ctx_lens ws) s_len) (\<lambda>_.
      bind_r (if is_mrope positions then check_cap ''positions_mrope'' (ws_positions_mrope ws) t_len
              else check_cap ''positions'' (ws_positions ws) t_len) (\<lambda>_.
      bind_r (check_cap ''slot_map'' (ws_slot_map ws) need_slot) (\<lambda>_.
      bind_r (check_cap ''block_table'' (ws_block_table ws) need_block) (\<lambda>_.
      bind_r (check_cap ''window_start'' (ws_window_start ws) need_window) (\<lambda>_.
      Inr need_block)))))))))))"

text \<open>Clearing the buffers, emitting into them and recording the shape: the tail both fill paths share.\<close>

definition fill_tensors :: "state_manager \<Rightarrow> nat list \<Rightarrow> nat list \<Rightarrow> positions option \<Rightarrow> batch_plan \<Rightarrow> nat \<Rightarrow>
    batch_workspace \<Rightarrow> batch_workspace outcome" where
  "fill_tensors m seqs query_lens positions plan need_block ws =
     (let (err, w) = emit_batch_into m seqs query_lens plan
            \<lparr>eb_seq_ids = [], eb_ctx_lens = [], eb_positions = (if positions = None then Some [] else None),
             eb_slot_map = [], eb_block_table = replicate need_block BLOCK_TABLE_SENTINEL, eb_window_start = []\<rparr>;
          ws1 = ws\<lparr>ws_seq_ids := vec_set (ws_seq_ids ws) (eb_seq_ids w), ws_query_lens := vec_set (ws_query_lens ws) query_lens,
                   ws_ctx_lens := vec_set (ws_ctx_lens ws) (eb_ctx_lens w),
                   ws_positions := vec_set (ws_positions ws) (case eb_positions w of Some ps \<Rightarrow> ps | None \<Rightarrow> []),
                   ws_positions_mrope := vec_set (ws_positions_mrope ws) [],
                   ws_slot_map := vec_set (ws_slot_map ws) (eb_slot_map w),
                   ws_block_table := vec_set (ws_block_table ws) (eb_block_table w),
                   ws_window_start := vec_set (ws_window_start ws) (eb_window_start w)\<rparr>
      in then_e (err, ws1) (\<lambda>ws.
         let ws2 = (case positions of
               None \<Rightarrow> ws\<lparr>ws_last_position_width := 1\<rparr>
             | Some (PerToken v) \<Rightarrow> ws\<lparr>ws_positions := vec_set (ws_positions ws) (v_items (ws_positions ws) @ v), ws_last_position_width := 1\<rparr>
             | Some (Mrope v) \<Rightarrow> ws\<lparr>ws_positions_mrope := vec_set (ws_positions_mrope ws) (v_items (ws_positions_mrope ws) @ v),
                                   ws_last_position_width := 3\<rparr>)
         in try_e (ok_or (Overflow ''batch meta group count'') (try_from 32 (length (sm_groups m)))) (\<lambda>g ws.
            try_e (ok_or (Overflow ''batch meta seq count'') (try_from 32 (length seqs))) (\<lambda>s ws.
            try_e (ok_or (Overflow ''batch meta total tokens'') (try_from 32 (pl_total_u64 plan))) (\<lambda>t ws.
            (None, ws\<lparr>ws_last_t := t, ws_last_max_blocks := sm_max_blocks m\<rparr>))
            (ws\<lparr>ws_last_s := s\<rparr>)) (ws\<lparr>ws_last_g := g\<rparr>)) ws2))"

definition fill_batch_meta_with_options :: "state_manager \<Rightarrow> nat list \<Rightarrow> nat list \<Rightarrow> positions option \<Rightarrow> tree_mask option \<Rightarrow>
    batch_workspace \<Rightarrow> batch_workspace outcome" where
  "fill_batch_meta_with_options m seqs query_lens positions tree ws =
     try_e (check_cap ''id scratch'' (ws_id_scratch ws) (length seqs)) (\<lambda>_ ws.
     let (planned, seen) = plan_batch m seqs query_lens (map_option positions_len positions)
           (map_option (\<lambda>t. length (tm_parents t)) tree) (v_items (ws_id_scratch ws));
         ws0 = ws\<lparr>ws_id_scratch := vec_set (ws_id_scratch ws) seen\<rparr>
     in try_e planned (\<lambda>plan ws.
        try_e (check_sizes m (length seqs) (pl_total_tokens plan) positions ws) (\<lambda>need_block.
        try_e (case tree of None \<Rightarrow> Inr () | Some t \<Rightarrow> ir_result (check_tree_batch_rules (tm_parents t) (tm_t_max t) query_lens)) (\<lambda>_ ws.
        then_e (fill_tensors m seqs query_lens positions plan need_block ws) (\<lambda>ws.
          (None, (clear_tree ws)\<lparr>ws_tree := tree\<rparr>)))) ws) ws0) ws"

definition fill_batch_meta :: "state_manager \<Rightarrow> nat list \<Rightarrow> nat list \<Rightarrow> tree_mask option \<Rightarrow> batch_workspace \<Rightarrow> batch_workspace outcome" where
  "fill_batch_meta m seqs query_lens tree ws = fill_batch_meta_with_options m seqs query_lens None tree ws"

definition fill_batch_meta_with_options_and_tree_input :: "state_manager \<Rightarrow> nat list \<Rightarrow> nat list \<Rightarrow> positions option \<Rightarrow>
    tree_input option \<Rightarrow> batch_workspace \<Rightarrow> batch_workspace outcome" where
  "fill_batch_meta_with_options_and_tree_input m seqs query_lens positions tree ws =
     try_e (check_cap ''id scratch'' (ws_id_scratch ws) (length seqs)) (\<lambda>_ ws.
     let (planned, seen) = plan_batch m seqs query_lens (map_option positions_len positions) None (v_items (ws_id_scratch ws));
         ws0 = ws\<lparr>ws_id_scratch := vec_set (ws_id_scratch ws) seen\<rparr>
     in try_e planned (\<lambda>plan.
        try_e (case tree of
                 None \<Rightarrow> Inr ()
               | Some t \<Rightarrow> if length (ti_parents t) \<noteq> pl_total_tokens plan
                           then bind_r (ok_or (Overflow ''batch meta total tokens'') (try_from 32 (pl_total_u64 plan)))
                                  (\<lambda>n. Inl (Ir (TreeBatchMismatch (length (ti_parents t)) n)))
                           else Inr ()) (\<lambda>_ ws.
        try_e (check_sizes m (length seqs) (pl_total_tokens plan) positions ws) (\<lambda>need_block ws.
        then_e (case tree of
                  None \<Rightarrow> (None, clear_tree ws)
                | Some t \<Rightarrow> try_e (ir_result (check_tree_batch_rules (ti_parents t) (ti_t_max t) query_lens))
                              (\<lambda>_. fill_tree t) ws) (\<lambda>ws.
        then_e (fill_tensors m seqs query_lens positions plan need_block ws) (\<lambda>ws.
          (None, ws\<lparr>ws_tree := None\<rparr>)))) ws)) ws0) ws"

definition fill_batch_meta_with_tree_input :: "state_manager \<Rightarrow> nat list \<Rightarrow> nat list \<Rightarrow> tree_input \<Rightarrow> batch_workspace \<Rightarrow>
    batch_workspace outcome" where
  "fill_batch_meta_with_tree_input m seqs query_lens tree ws =
     fill_batch_meta_with_options_and_tree_input m seqs query_lens None (Some tree) ws"

end
