(* ===== verification/Batch_Correct.thy ===== *)
theory Batch_Correct
  imports Batch_Emit State_Tokens
begin

text \<open>
  What the batch paths compute. A batch is plannable when it names distinct live sequences
  whose query lengths are covered by their reservations; on a well-formed manager emission
  of a plannable batch cannot fail and yields the declarative tensors below, and the hot
  workspace path stores exactly what the owned builder returns.
\<close>

section \<open>Plannable batches\<close>

definition batch_seq :: "state_manager \<Rightarrow> nat \<Rightarrow> seq_state" where
  "batch_seq m q = the (sm_seqs m q)"

definition batch_live :: "state_manager \<Rightarrow> nat list \<Rightarrow> nat list \<Rightarrow> bool" where
  "batch_live m seqs qs \<longleftrightarrow> length seqs = length qs \<and> seqs \<noteq> [] \<and> distinct seqs \<and>
     (\<forall>(q, n) \<in> set (zip seqs qs). \<exists>s. sm_seqs m q = Some s \<and> 0 < n \<and> n \<le> ss_tail_len s) \<and>
     sum_list qs \<le> MAX_BATCH_TOKENS_HARD"

lemma for_e_inv:
  assumes "\<And>x w. x \<in> set xs \<Longrightarrow> P w \<Longrightarrow> f x w = (None, g x w) \<and> P (g x w)" and "P w"
  shows "for_e f xs w = (None, fold g xs w) \<and> P (fold g xs w)"
  using assms by (induction xs arbitrary: w) auto

lemma plan_ids_eq:
  assumes "\<forall>q \<in> set qs. q \<le> u32_max"
  shows "\<exists>ps' seen'. plan_ids i qs ps seen = (Inr (ps @ ps'), seen') \<and> (ps' = [] \<longleftrightarrow> distinct qs \<and> set qs \<inter> set seen = {})"
  using assms
proof (induction i qs ps seen rule: plan_ids.induct)
  case (2 i q qs ps seen)
  show ?case
  proof (cases "q \<in> set seen")
    case True
    with "2.IH"(1) "2.prems" show ?thesis by auto
  next
    case False
    with "2.IH"(2) "2.prems" show ?thesis by auto
  qed
qed simp

lemma plan_ids_overflow:
  assumes "\<exists>q \<in> set qs. q > u32_max"
  shows "\<exists>e seen'. plan_ids i qs ps seen = (Inl e, seen')"
  using assms by (induction i qs ps seen rule: plan_ids.induct) auto

lemma plan_ids_error: "fst (plan_ids i qs ps seen) = Inl e \<Longrightarrow> \<exists>q. e = SeqIdOverflow q u32_max"
  by (induction i qs ps seen rule: plan_ids.induct) (auto split: if_splits)

definition covered :: "state_manager \<Rightarrow> (nat \<times> nat) list \<Rightarrow> bool" where
  "covered m zs \<longleftrightarrow> (\<forall>(q, n) \<in> set zs. \<exists>s. sm_seqs m q = Some s \<and> 0 < n \<and> n \<le> ss_tail_len s)"

lemma plan_tokens_prefix: "\<exists>d. fst (plan_tokens m i zs ps tot) = ps @ d"
proof (induction zs arbitrary: i ps tot)
  case (Cons z rest)
  obtain q n where z: "z = (q, n)" by (cases z)
  show ?case
  proof (cases "sm_seq m q")
    case (Inl e)
    obtain d where "fst (plan_tokens m (Suc i) rest (ps @ [UnknownSequence i q]) tot) = (ps @ [UnknownSequence i q]) @ d"
      using Cons.IH by blast
    with Inl z show ?thesis by simp
  next
    case (Inr s)
    have step: "\<exists>d. fst (plan_tokens m (Suc i) rest (ps @ e) t) = ps @ d" for e t using Cons.IH [of "Suc i" "ps @ e" t] by auto
    show ?thesis using Inr z step [of "[]"] step by (auto simp: Let_def split: option.splits)
  qed
qed simp

lemma plan_tokens_nil:
  assumes inv: "sm_inv m" and "tot < 2 ^ 64"
  shows "(fst (plan_tokens m i zs ps tot) = [] \<longleftrightarrow> ps = [] \<and> covered m zs \<and> tot + sum_list (map snd zs) < 2 ^ 64) \<and>
    (fst (plan_tokens m i zs ps tot) = [] \<longrightarrow> snd (plan_tokens m i zs ps tot) = tot + sum_list (map snd zs))"
  using assms(2)
proof (induction zs arbitrary: i ps tot)
  case Nil
  then show ?case by (simp add: covered_def)
next
  case (Cons z rest)
  obtain q n where z: "z = (q, n)" by (cases z)
  have ne: "fst (plan_tokens m j rest (ps @ [e]) t) \<noteq> []" for j e t ps
    using plan_tokens_prefix [of m j rest "ps @ [e]" t] by auto
  show ?case
  proof (cases "sm_seqs m q")
    case None
    then show ?thesis using ne by (auto simp: z sm_seq_def covered_def)
  next
    case (Some s)
    have len: "ss_ctx_len s + ss_tail_len s \<le> sc_max_ctx (sm_config m)" "ss_ctx_len s + ss_tail_len s \<le> 1048576"
      using sm_inv_seq [OF inv Some] seq_ok_len [OF inv Some] by (auto simp: seq_ok_def)
    show ?thesis
    proof (cases "0 < n \<and> n \<le> ss_tail_len s")
      case True
      with len have e: "ss_ctx_len s + n < 2 ^ 32" "ss_ctx_len s + n \<le> sc_max_ctx (sm_config m)" by auto
      have cov: "covered m (z # rest) = covered m rest" using True Some by (simp add: z covered_def)
      show ?thesis
      proof (cases "tot + n < 2 ^ 64")
        case fit: True
        have eq: "plan_tokens m i (z # rest) ps tot = plan_tokens m (Suc i) rest ps (tot + n)"
          using True e fit Some by (simp add: z sm_seq_def checked_add_def)
        have sum: "tot + sum_list (map snd (z # rest)) = (tot + n) + sum_list (map snd rest)" by (simp add: z)
        from Cons.IH [OF fit, of "Suc i" ps] show ?thesis unfolding eq cov sum .
      next
        case False
        with True e Some have "plan_tokens m i (z # rest) ps tot = plan_tokens m (Suc i) rest (ps @ [TokenTotalOverflows i]) tot"
          by (simp add: z sm_seq_def checked_add_def)
        with ne False show ?thesis by (simp add: z)
      qed
    next
      case False
      have ne': "fst (plan_tokens m (Suc i) rest ps' t) \<noteq> []" if "ps' \<noteq> []" for ps' t
        using plan_tokens_prefix [of m "Suc i" rest ps' t] that by auto
      from False Some have "fst (plan_tokens m i (z # rest) ps tot) \<noteq> []"
        by (auto simp: z sm_seq_def Let_def ne' split: option.splits)
      moreover have "\<not> covered m (z # rest)" using False Some by (auto simp: z covered_def)
      ultimately show ?thesis by simp
    qed
  qed
qed

lemma batch_live_covered:
  "batch_live m seqs qs \<longleftrightarrow> length seqs = length qs \<and> seqs \<noteq> [] \<and> distinct seqs \<and> covered m (zip seqs qs) \<and>
     sum_list qs \<le> MAX_BATCH_TOKENS_HARD"
  by (simp add: batch_live_def covered_def)

lemma covered_ids:
  assumes "sm_inv m" and "covered m (zip seqs qs)" and "length seqs = length qs"
  shows "set seqs \<subseteq> dom (sm_seqs m)" and "\<forall>q \<in> set seqs. q \<le> u32_max"
proof -
  show d: "set seqs \<subseteq> dom (sm_seqs m)"
  proof
    fix q assume "q \<in> set seqs"
    then obtain n where "(q, n) \<in> set (zip seqs qs)" using assms(3) by (metis in_set_impl_in_set_zip1)
    with assms(2) show "q \<in> dom (sm_seqs m)" by (auto simp: covered_def)
  qed
  show "\<forall>q \<in> set seqs. q \<le> u32_max"
  proof
    fix q assume "q \<in> set seqs"
    then have "q < sm_next_seq m" using d assms(1) unfolding sm_inv_def ids_ok_def by blast
    moreover have "sm_next_seq m \<le> u32_max + 1" using assms(1) by (simp add: sm_inv_def ids_ok_def)
    ultimately show "q \<le> u32_max" by simp
  qed
qed

text \<open>Planning accepts exactly the plannable batches whose positions and tree have the token count.\<close>

lemma plan_batch_Inr:
  assumes inv: "sm_inv m"
  shows "fst (plan_batch m seqs qs pl tt seen) = Inr plan \<longleftrightarrow> batch_live m seqs qs \<and>
    (\<forall>n. pl = Some n \<longrightarrow> n = sum_list qs) \<and> (\<forall>n. tt = Some n \<longrightarrow> n = sum_list qs) \<and>
    plan = \<lparr>pl_total_tokens = sum_list qs, pl_total_u64 = sum_list qs\<rparr>"
proof (cases "length seqs = length qs \<and> seqs \<noteq> []")
  case False
  then show ?thesis by (auto simp: plan_batch_def batch_live_covered)
next
  case True
  then have sm: "map snd (zip seqs qs) = qs" by simp
  show ?thesis
  proof (cases "\<forall>q \<in> set seqs. q \<le> u32_max")
    case False
    then obtain e seen' where "plan_ids 0 seqs [] [] = (Inl e, seen')"
      using plan_ids_overflow [of seqs 0 "[]" "[]"] by (auto simp: not_le)
    with True False covered_ids(2) [OF inv] show ?thesis by (auto simp: plan_batch_def batch_live_covered)
  next
    case ids: True
    obtain ps seen' where p: "plan_ids 0 seqs [] [] = (Inr ps, seen')" "ps = [] \<longleftrightarrow> distinct seqs"
      using plan_ids_eq [OF ids, of 0 "[]" "[]"] by auto
    obtain ps1 t where t: "plan_tokens m 0 (zip seqs qs) ps 0 = (ps1, t)" by (metis surj_pair)
    have nil: "ps1 = [] \<longleftrightarrow> distinct seqs \<and> covered m (zip seqs qs) \<and> sum_list qs < 2 ^ 64"
      and tot: "ps1 = [] \<longrightarrow> t = sum_list qs"
      using plan_tokens_nil [OF inv, of 0 0 "zip seqs qs" ps] t p(2) sm by auto
    have cap: "MAX_BATCH_TOKENS_HARD < 2 ^ 64" by (simp add: MAX_BATCH_TOKENS_HARD_def)
    have "fst (plan_batch m seqs qs pl tt seen) = Inr plan \<longleftrightarrow> ps1 = [] \<and> t \<le> MAX_BATCH_TOKENS_HARD \<and>
        (\<forall>n. pl = Some n \<longrightarrow> n = t) \<and> (\<forall>n. tt = Some n \<longrightarrow> n = t) \<and>
        plan = \<lparr>pl_total_tokens = t, pl_total_u64 = t\<rparr>"
      using True by (cases pl; cases tt) (auto simp: plan_batch_def p(1) t Let_def)
    with nil tot True cap show ?thesis by (auto simp: batch_live_covered)
  qed
qed

section \<open>The tensors of a batch\<close>

text \<open>
  Read off the block maps alone: the flat slot of a position, the cell of a block-table row
  and the rows of each group. A group without a block map (a recurrent one) has the
  reserved value everywhere.
\<close>

definition slot_value :: "state_manager \<Rightarrow> nat \<Rightarrow> nat \<Rightarrow> nat \<Rightarrow> nat" where
  "slot_value m gi q p = (case block_map (batch_seq m q) gi (p div 32) of Some i \<Rightarrow> i * 32 + p mod 32 | None \<Rightarrow> SLOT_NONE)"

definition table_cell :: "state_manager \<Rightarrow> nat \<Rightarrow> nat \<Rightarrow> nat \<Rightarrow> nat" where
  "table_cell m gi q b = (case block_map (batch_seq m q) gi b of Some i \<Rightarrow> i | None \<Rightarrow> BLOCK_TABLE_SENTINEL)"

definition batch_ctx :: "state_manager \<Rightarrow> nat \<Rightarrow> nat" where
  "batch_ctx m q = ss_ctx_len (batch_seq m q)"

definition batch_positions :: "state_manager \<Rightarrow> nat list \<Rightarrow> nat list \<Rightarrow> nat list" where
  "batch_positions m seqs qs = concat (map (\<lambda>(q, n). map (\<lambda>k. batch_ctx m q + k) [0..<n]) (zip seqs qs))"

definition slot_row :: "state_manager \<Rightarrow> nat list \<Rightarrow> nat list \<Rightarrow> nat \<Rightarrow> nat list" where
  "slot_row m seqs qs gi = concat (map (\<lambda>(q, n). map (\<lambda>k. slot_value m gi q (batch_ctx m q + k)) [0..<n]) (zip seqs qs))"

definition table_rows :: "state_manager \<Rightarrow> nat list \<Rightarrow> nat \<Rightarrow> nat list" where
  "table_rows m seqs gi = concat (map (\<lambda>q. map (table_cell m gi q) [0..<sm_max_blocks m]) seqs)"

definition window_row :: "state_manager \<Rightarrow> nat list \<Rightarrow> nat \<Rightarrow> nat list" where
  "window_row m seqs gi = map (\<lambda>q. group_window_start (lg_spec (sm_groups m ! gi)) (batch_ctx m q)) seqs"

lemma length_concat_const: "length (concat (map f xs)) = length xs * n" if "\<And>x. x \<in> set xs \<Longrightarrow> length (f x) = n"
  using that by (induction xs) auto

lemma length_table_rows [simp]: "length (table_rows m seqs gi) = length seqs * sm_max_blocks m"
  unfolding table_rows_def by (rule length_concat_const) simp

lemma length_slot_row [simp]: "length seqs = length qs \<Longrightarrow> length (slot_row m seqs qs gi) = sum_list qs"
  unfolding slot_row_def by (induction seqs qs rule: list_induct2) auto

lemma length_window_row [simp]: "length (window_row m seqs gi) = length seqs"
  by (simp add: window_row_def)

lemma length_batch_positions [simp]: "length seqs = length qs \<Longrightarrow> length (batch_positions m seqs qs) = sum_list qs"
  unfolding batch_positions_def by (induction seqs qs rule: list_induct2) auto

section \<open>Emission cannot fail\<close>

lemma vanished_live: "sm_seqs m q = Some s \<Longrightarrow> vanished m q = Inr s"
  by (simp add: vanished_def sm_seq_def)

lemma for_e_push:
  assumes "\<And>x w. x \<in> set xs \<Longrightarrow> f x w = (None, upd (v x) w)" and "\<And>a b w. upd b (upd a w) = upd (a @ b) w"
    and "\<And>w. upd [] w = w"
  shows "for_e f xs w = (None, upd (concat (map v xs)) w)"
  using assms(1) by (induction xs arbitrary: w) (simp_all add: assms(2,3))

lemma emit_ids_eq:
  assumes "\<forall>q \<in> set seqs. q \<le> u32_max"
  shows "for_e emit_id seqs w = (None, w\<lparr>eb_seq_ids := eb_seq_ids w @ seqs\<rparr>)"
proof -
  have "for_e emit_id seqs w = (None, (\<lambda>a w. w\<lparr>eb_seq_ids := eb_seq_ids w @ a\<rparr>) (concat (map (\<lambda>q. [q]) seqs)) w)"
    by (rule for_e_push) (use assms in \<open>auto simp: emit_id_def try_from_def u32_max_def\<close>)
  then show ?thesis by simp
qed

lemma covered_seq:
  assumes "sm_inv m" and "covered m zs" and "(q, n) \<in> set zs"
  obtains s where "sm_seqs m q = Some s" and "batch_seq m q = s" and "0 < n" and "n \<le> ss_tail_len s"
    and "batch_ctx m q = ss_ctx_len s" and "ss_ctx_len s + n \<le> 1048576"
proof -
  obtain s where s: "sm_seqs m q = Some s" "0 < n" "n \<le> ss_tail_len s" using assms(2,3) by (auto simp: covered_def)
  with seq_ok_len [OF assms(1) s(1)] that [of s] show thesis by (simp add: batch_seq_def batch_ctx_def)
qed

lemma emit_ctx_eq:
  assumes "sm_inv m" and "covered m zs"
  shows "for_e (emit_ctx m) zs w = (None, w\<lparr>eb_ctx_lens := eb_ctx_lens w @ map (\<lambda>(q, n). batch_ctx m q) zs,
    eb_positions := map_option (\<lambda>ps. ps @ concat (map (\<lambda>(q, n). map (\<lambda>k. batch_ctx m q + k) [0..<n]) zs)) (eb_positions w)\<rparr>)"
  using assms(2)
proof (induction zs arbitrary: w)
  case Nil
  show ?case by (simp add: option.map_ident)
next
  case (Cons z zs)
  obtain q n where z: "z = (q, n)" by (cases z)
  obtain s where s: "sm_seqs m q = Some s" "batch_ctx m q = ss_ctx_len s" "ss_ctx_len s + n \<le> 1048576"
    by (rule covered_seq [OF assms(1) Cons.prems]) (auto simp: z)
  have pos: "for_e (\<lambda>k. try_e (ok_or (Overflow ''batch position'') (checked_add 32 (ss_ctx_len s) k))
      (\<lambda>pos w. (None, w\<lparr>eb_positions := map_option (\<lambda>ps. ps @ [pos]) (eb_positions w)\<rparr>))) [0..<n] w =
      (None, (\<lambda>a w. w\<lparr>eb_positions := map_option (\<lambda>ps. ps @ a) (eb_positions w)\<rparr>) (concat (map (\<lambda>k. [ss_ctx_len s + k]) [0..<n])) w)" for w
    by (rule for_e_push) (use s(3) in \<open>auto simp: checked_add_def option.map_comp comp_def option.map_ident\<close>)
  have step: "emit_ctx m z w = (None, w\<lparr>eb_ctx_lens := eb_ctx_lens w @ [batch_ctx m q],
      eb_positions := map_option (\<lambda>ps. ps @ map (\<lambda>k. batch_ctx m q + k) [0..<n]) (eb_positions w)\<rparr>)"
    using vanished_live [OF s(1)] s(2) by (cases "eb_positions w") (simp_all add: emit_ctx_def z Let_def pos)
  show ?case
    unfolding for_e.simps step outcome_simps
    by (subst Cons.IH) (use Cons.prems in \<open>auto simp: z covered_def option.map_comp comp_def\<close>)
qed

lemma tail_slot:
  assumes inv: "sm_inv m" and s: "sm_seqs m q = Some s" and gi: "gi < length (sm_groups m)"
    and paged: "is_paged (lg_spec (sm_groups m ! gi))" and k: "k < ss_tail_len s"
  shows "flatten_slot s gi (ss_ctx_len s + k) e = Inr (slot_value m gi q (ss_ctx_len s + k))"
proof -
  have "(ss_ctx_len s + k) div 32 \<in> set (ss_indices s ! gi)"
    by (rule tail_mapped [OF sm_inv_seq [OF inv s] gi paged]) (use k in simp_all)
  moreover have "length (ss_tables s ! gi) = length (ss_indices s ! gi)"
    using seq_ok_tables [OF sm_inv_seq [OF inv s]] gi by (simp add: tables_ok_def)
  ultimately obtain i where i: "block_map s gi ((ss_ctx_len s + k) div 32) = Some i"
    using dom_block_map [of s gi] by blast
  show ?thesis
    using flatten_slot_mapped(1) [OF inv s gi i] i s by (simp add: slot_value_def batch_seq_def)
qed

lemma emit_slots_eq:
  assumes inv: "sm_inv m" and gi: "gi < length (sm_groups m)" and paged: "is_paged (lg_spec (sm_groups m ! gi))"
    and "covered m zs" and "eb_ctx_lens w = pre @ map (\<lambda>(q, n). batch_ctx m q) zs"
  shows "for_e (emit_slots m gi) (List.enumerate (length pre) zs) w = (None, w\<lparr>eb_slot_map := eb_slot_map w @
    concat (map (\<lambda>(q, n). map (\<lambda>k. slot_value m gi q (batch_ctx m q + k)) [0..<n]) zs)\<rparr>)"
  using assms(4,5)
proof (induction zs arbitrary: w pre)
  case (Cons z zs)
  obtain q n where z: "z = (q, n)" by (cases z)
  obtain s where s: "sm_seqs m q = Some s" "batch_ctx m q = ss_ctx_len s" "ss_ctx_len s + n \<le> 1048576" "n \<le> ss_tail_len s"
    by (rule covered_seq [OF inv Cons.prems(1)]) (auto simp: z)
  have get: "get (eb_ctx_lens w) (length pre) = Some (ss_ctx_len s)" using Cons.prems(2) s(2) by (simp add: z nth_append)
  have row: "for_e (\<lambda>k. try_e (ok_or (Overflow ''batch position'') (checked_add 32 (ss_ctx_len s) k)) (\<lambda>pos.
      try_e (flatten_slot s gi pos (ss_ctx_len s + n)) (\<lambda>sid w. (None, w\<lparr>eb_slot_map := eb_slot_map w @ [sid]\<rparr>)))) [0..<n] w =
      (None, (\<lambda>a w. w\<lparr>eb_slot_map := eb_slot_map w @ a\<rparr>) (concat (map (\<lambda>k. [slot_value m gi q (ss_ctx_len s + k)]) [0..<n])) w)" for w
    by (rule for_e_push) (use s in \<open>auto simp: checked_add_def tail_slot [OF inv s(1) gi paged]\<close>)
  have step: "emit_slots m gi (length pre, z) w = (None, w\<lparr>eb_slot_map := eb_slot_map w @
      map (\<lambda>k. slot_value m gi q (batch_ctx m q + k)) [0..<n]\<rparr>)"
  proof -
    have e: "ok_or (Overflow ''batch reserved end'') (checked_add 32 (ss_ctx_len s) n) = Inr (ss_ctx_len s + n)"
      using s(3) by (simp add: checked_add_def)
    have g: "ok_or (RustPanic ''ctx_lens'') (get (eb_ctx_lens w) (length pre)) = Inr (ss_ctx_len s)" unfolding get by simp
    show ?thesis by (simp add: emit_slots_def z vanished_live [OF s(1)] g e row s(2))
  qed
  have "for_e (emit_slots m gi) (List.enumerate (length (pre @ [batch_ctx m q])) zs) w' = (None, w'\<lparr>eb_slot_map := eb_slot_map w' @
      concat (map (\<lambda>(q, n). map (\<lambda>k. slot_value m gi q (batch_ctx m q + k)) [0..<n]) zs)\<rparr>)"
    if "eb_ctx_lens w' = eb_ctx_lens w" for w'
    by (rule Cons.IH) (use Cons.prems that in \<open>auto simp: z covered_def\<close>)
  with step show ?case by (simp add: z)
qed simp

subsection \<open>Block-table rows\<close>

lemma fold_update_nth:
  assumes "distinct (map fst kvs)" and "b < length xs"
  shows "fold (\<lambda>(c, v) xs. xs[c := v]) kvs xs ! b = (case map_of kvs b of Some v \<Rightarrow> v | None \<Rightarrow> xs ! b)"
  using assms
proof (induction kvs arbitrary: xs)
  case (Cons kv kvs)
  obtain c v where kv: "kv = (c, v)" by (cases kv)
  from Cons.prems have "c \<notin> fst ` set kvs" by (simp add: kv)
  then have "map_of kvs c = None" by (simp add: map_of_eq_None_iff)
  with Cons.IH [of "xs[c := v]"] Cons.prems show ?case by (auto simp: kv nth_list_update split: option.splits)
qed simp

lemma length_fold_update [simp]: "length (fold (\<lambda>(c, v) xs. xs[c := v]) kvs xs) = length xs"
  by (induction kvs arbitrary: xs) auto

lemma fold_update_append:
  assumes "\<forall>c \<in> fst ` set kvs. c < length mid"
  shows "fold (\<lambda>(c, v) xs. xs[length pre + c := v]) kvs (pre @ mid @ post) =
    pre @ fold (\<lambda>(c, v) xs. xs[c := v]) kvs mid @ post"
  using assms by (induction kvs arbitrary: mid) (auto simp: list_update_append)

lemma enumerate_table: "length tb = length ix \<Longrightarrow> map (\<lambda>(at, c). (c, tb ! at)) (List.enumerate 0 ix) = zip ix tb"
  by (rule nth_equalityI) (simp_all add: nth_enumerate_eq)

lemma emit_row_eq:
  assumes inv: "sm_inv m" and gi: "gi < length (sm_groups m)" and s: "sm_seqs m q = Some s"
    and pre: "length pre = (gi * s_len + si) * sm_max_blocks m"
    and bt: "eb_block_table w = pre @ replicate (sm_max_blocks m + k) BLOCK_TABLE_SENTINEL"
    and fit: "length (eb_block_table w) < 2 ^ 64"
  shows "emit_row m gi (sm_groups m ! gi) s_len (si, q) w = (None, w\<lparr>
    eb_block_table := pre @ map (table_cell m gi q) [0..<sm_max_blocks m] @ replicate k BLOCK_TABLE_SENTINEL,
    eb_window_start := eb_window_start w @ [group_window_start (lg_spec (sm_groups m ! gi)) (batch_ctx m q)]\<rparr>)"
proof -
  let ?mb = "sm_max_blocks m" and ?ix = "ss_indices s ! gi" and ?tb = "ss_tables s ! gi"
  have tok: "tables_ok (length (sm_groups m)) s" by (rule seq_ok_tables [OF sm_inv_seq [OF inv s]])
  have asc: "ascending ?ix" and len: "length ?tb = length ?ix"
    and gix: "get (ss_indices s) gi = Some ?ix" and gtb: "get (ss_tables s) gi = Some ?tb"
    using tok gi by (auto simp: tables_ok_def)
  have bs: "batch_seq m q = s" and ctx: "batch_ctx m q = ss_ctx_len s" using s by (simp_all add: batch_seq_def batch_ctx_def)
  have tok': "table_ok (sm_config m) (sm_groups m ! gi) gi s" using sm_inv_seq [OF inv s] gi by (simp add: seq_ok_def)
  show ?thesis
  proof (cases "is_paged (lg_spec (sm_groups m ! gi))")
    case False
    then have "?ix = []" using tok' by (simp add: table_ok_def)
    then have "table_cell m gi q = (\<lambda>b. BLOCK_TABLE_SENTINEL)" by (simp add: table_cell_def bs block_map_def fun_eq_iff)
    moreover have "w = w\<lparr>eb_block_table := eb_block_table w\<rparr>" by simp
    ultimately show ?thesis
      using False bt by (simp add: emit_row_def vanished_live [OF s] ctx replicate_add map_replicate_const)
  next
    case True
    have small: "c < ?mb" if "c \<in> set ?ix" for c
      using tok' True that sm_inv_static(3) [OF inv] by (simp add: table_ok_def)
    let ?g = "\<lambda>(at, c) w. w\<lparr>eb_block_table := (eb_block_table w)[length pre + c := ?tb ! at]\<rparr>"
    have cells: "for_e (emit_cell q gi s_len si ?mb ?tb) (List.enumerate 0 ?ix) w = (None, fold ?g (List.enumerate 0 ?ix) w) \<and>
        length (eb_block_table (fold ?g (List.enumerate 0 ?ix) w)) = length (eb_block_table w)"
    proof (rule for_e_inv)
      fix x and w' :: emit_bufs assume "x \<in> set (List.enumerate 0 ?ix)" and w': "length (eb_block_table w') = length (eb_block_table w)"
      then have "fst x < length ?ix" "?ix ! fst x = snd x" by (auto simp: in_set_enumerate_eq)
      then obtain at c where x: "x = (at, c)" "at < length ?ix" "c = ?ix ! at" by (metis prod.collapse)
      then have c: "c < ?mb" using small by simp
      have le: "gi * s_len + si \<le> length pre" using c pre by simp
      have b: "length pre + c < length (eb_block_table w)" using c bt by simp
      have off: "Option.bind (checked_mul 64 gi s_len) (\<lambda>v. Option.bind (checked_add 64 v si) (\<lambda>v.
          Option.bind (checked_mul 64 v ?mb) (\<lambda>v. checked_add 64 v c))) = Some (length pre + c)"
      proof -
        have a: "gi * s_len < 2 ^ 64" "gi * s_len + si < 2 ^ 64" "length pre < 2 ^ 64" "length pre + c < 2 ^ 64"
          using le b fit by linarith+
        then have m: "checked_mul 64 gi s_len = Some (gi * s_len)" "checked_add 64 (gi * s_len) si = Some (gi * s_len + si)"
          "checked_mul 64 (gi * s_len + si) ?mb = Some (length pre)" "checked_add 64 (length pre) c = Some (length pre + c)"
          unfolding checked_mul_def checked_add_def pre by (simp_all only: if_True)
        show ?thesis unfolding m Option.bind.simps ..
      qed
      have g: "get ?tb at = Some (?tb ! at)" using x(2) len by simp
      show "emit_cell q gi s_len si ?mb ?tb x w' = (None, ?g x w') \<and> length (eb_block_table (?g x w')) = length (eb_block_table w)"
        unfolding emit_cell_def x(1) prod.case off g ok_or_simps outcome_simps using c b w' by simp
    qed simp
    have fold: "fold ?g xs w = w\<lparr>eb_block_table := fold (\<lambda>(c, v) xs. xs[length pre + c := v]) (map (\<lambda>(at, c). (c, ?tb ! at)) xs) (eb_block_table w)\<rparr>" for xs w
      by (induction xs arbitrary: w) auto
    let ?kvs = "zip ?ix ?tb"
    have keys: "\<forall>c \<in> fst ` set ?kvs. c < ?mb" using small by (auto dest: set_zip_leftD)
    have "fold (\<lambda>(c, v) xs. xs[length pre + c := v]) ?kvs (eb_block_table w) =
        pre @ fold (\<lambda>(c, v) xs. xs[c := v]) ?kvs (replicate ?mb BLOCK_TABLE_SENTINEL) @ replicate k BLOCK_TABLE_SENTINEL"
      unfolding bt replicate_add by (rule fold_update_append) (use keys in simp)
    moreover have "fold (\<lambda>(c, v) xs. xs[c := v]) ?kvs (replicate ?mb BLOCK_TABLE_SENTINEL) = map (table_cell m gi q) [0..<?mb]"
      by (rule nth_equalityI)
         (use asc len in \<open>auto simp: fold_update_nth ascending_distinct table_cell_def bs block_map_def split: option.splits dest: set_zip_leftD\<close>)
    ultimately have bt': "fold ?g (List.enumerate 0 ?ix) w = w\<lparr>eb_block_table :=
        pre @ map (table_cell m gi q) [0..<?mb] @ replicate k BLOCK_TABLE_SENTINEL\<rparr>"
      unfolding fold enumerate_table [OF len] by simp
    show ?thesis
      unfolding emit_row_def prod.case vanished_live [OF s] outcome_simps gix gtb ok_or_simps using True
      by (simp add: cells [THEN conjunct1] bt' ctx)
  qed
qed

lemma emit_rows_eq:
  assumes inv: "sm_inv m" and gi: "gi < length (sm_groups m)" and "set seqs \<subseteq> dom (sm_seqs m)"
    and "length pre = (gi * s_len + si) * sm_max_blocks m"
    and "eb_block_table w = pre @ replicate (length seqs * sm_max_blocks m + k) BLOCK_TABLE_SENTINEL"
    and "length (eb_block_table w) < 2 ^ 64"
  shows "for_e (emit_row m gi (sm_groups m ! gi) s_len) (List.enumerate si seqs) w = (None, w\<lparr>
    eb_block_table := pre @ table_rows m seqs gi @ replicate k BLOCK_TABLE_SENTINEL,
    eb_window_start := eb_window_start w @ window_row m seqs gi\<rparr>)"
  using assms(3-6)
proof (induction seqs arbitrary: pre si w)
  case Nil
  then show ?case by (simp add: table_rows_def window_row_def)
next
  case (Cons q seqs)
  let ?mb = "sm_max_blocks m"
  obtain s where s: "sm_seqs m q = Some s" using Cons.prems(1) by auto
  have bt: "eb_block_table w = pre @ replicate (?mb + (length seqs * ?mb + k)) BLOCK_TABLE_SENTINEL"
    using Cons.prems(3) by (simp add: algebra_simps)
  note row = emit_row_eq [OF inv gi s Cons.prems(2) bt Cons.prems(4)]
  let ?w = "w\<lparr>eb_block_table := pre @ map (table_cell m gi q) [0..<?mb] @ replicate (length seqs * ?mb + k) BLOCK_TABLE_SENTINEL,
    eb_window_start := eb_window_start w @ [group_window_start (lg_spec (sm_groups m ! gi)) (batch_ctx m q)]\<rparr>"
  have "for_e (emit_row m gi (sm_groups m ! gi) s_len) (List.enumerate (Suc si) seqs) ?w = (None, ?w\<lparr>
    eb_block_table := (pre @ map (table_cell m gi q) [0..<?mb]) @ table_rows m seqs gi @ replicate k BLOCK_TABLE_SENTINEL,
    eb_window_start := eb_window_start ?w @ window_row m seqs gi\<rparr>)"
    by (rule Cons.IH) (use Cons.prems bt in \<open>auto simp: algebra_simps\<close>)
  then show ?case by (simp add: row table_rows_def window_row_def)
qed

lemma emit_group_eq:
  assumes inv: "sm_inv m" and gi: "gi < length (sm_groups m)" and cov: "covered m (zip seqs qs)"
    and len: "length seqs = length qs" and ctx: "eb_ctx_lens w = map (batch_ctx m) seqs"
    and pre: "length pre = gi * length seqs * sm_max_blocks m"
    and bt: "eb_block_table w = pre @ replicate (length seqs * sm_max_blocks m + k) BLOCK_TABLE_SENTINEL"
    and fit: "length (eb_block_table w) < 2 ^ 64"
  shows "emit_group m seqs qs (sum_list qs) (gi, sm_groups m ! gi) w = (None, w\<lparr>
    eb_slot_map := eb_slot_map w @ slot_row m seqs qs gi,
    eb_block_table := pre @ table_rows m seqs gi @ replicate k BLOCK_TABLE_SENTINEL,
    eb_window_start := eb_window_start w @ window_row m seqs gi\<rparr>)"
proof -
  let ?w = "w\<lparr>eb_slot_map := eb_slot_map w @ slot_row m seqs qs gi\<rparr>"
  have slots: "(if \<not> is_paged (lg_spec (sm_groups m ! gi)) then (None, w\<lparr>eb_slot_map := eb_slot_map w @ replicate (sum_list qs) SLOT_NONE\<rparr>)
      else for_e (emit_slots m gi) (List.enumerate 0 (zip seqs qs)) w) = (None, ?w)"
  proof (cases "is_paged (lg_spec (sm_groups m ! gi))")
    case True
    have "map (\<lambda>(q, n). batch_ctx m q) (zip seqs qs) = map (batch_ctx m) seqs"
      using len by (induction seqs qs rule: list_induct2) auto
    then have "eb_ctx_lens w = [] @ map (\<lambda>(q, n). batch_ctx m q) (zip seqs qs)" using ctx by simp
    from emit_slots_eq [OF inv gi True cov this] True show ?thesis by (simp add: slot_row_def)
  next
    case False
    have none: "slot_value m gi q p = SLOT_NONE" if q: "q \<in> set seqs" for q p
    proof -
      obtain s where s: "sm_seqs m q = Some s" using covered_ids(1) [OF inv cov len] q by blast
      then have "ss_indices s ! gi = []" using sm_inv_seq [OF inv s] gi False by (simp add: seq_ok_def table_ok_def)
      with s show ?thesis by (simp add: slot_value_def batch_seq_def block_map_def)
    qed
    have "slot_row m seqs qs gi = replicate (sum_list qs) SLOT_NONE"
      using len none unfolding slot_row_def
      by (induction seqs qs rule: list_induct2) (auto simp: map_replicate_const replicate_add)
    with False show ?thesis by simp
  qed
  have rows: "for_e (emit_row m gi (sm_groups m ! gi) (length seqs)) (List.enumerate 0 seqs) ?w = (None, ?w\<lparr>
      eb_block_table := pre @ table_rows m seqs gi @ replicate k BLOCK_TABLE_SENTINEL,
      eb_window_start := eb_window_start ?w @ window_row m seqs gi\<rparr>)"
    by (rule emit_rows_eq [OF inv gi covered_ids(1) [OF inv cov len]]) (use pre bt fit in auto)
  show ?thesis unfolding emit_group_def prod.case slots outcome_simps rows by simp
qed

lemma emit_groups_eq:
  assumes inv: "sm_inv m" and cov: "covered m (zip seqs qs)" and len: "length seqs = length qs"
    and "a + n = length (sm_groups m)" and "eb_ctx_lens w = map (batch_ctx m) seqs"
    and "length pre = a * length seqs * sm_max_blocks m"
    and "eb_block_table w = pre @ replicate (n * length seqs * sm_max_blocks m) BLOCK_TABLE_SENTINEL"
    and "length (eb_block_table w) < 2 ^ 64"
  shows "for_e (emit_group m seqs qs (sum_list qs)) (map (\<lambda>gi. (gi, sm_groups m ! gi)) [a..<a + n]) w = (None, w\<lparr>
    eb_slot_map := eb_slot_map w @ concat (map (slot_row m seqs qs) [a..<a + n]),
    eb_block_table := pre @ concat (map (table_rows m seqs) [a..<a + n]),
    eb_window_start := eb_window_start w @ concat (map (window_row m seqs) [a..<a + n])\<rparr>)"
  using assms(4-8)
proof (induction n arbitrary: a pre w)
  case (Suc n)
  let ?mb = "sm_max_blocks m"
  have up: "[a..<a + Suc n] = a # [Suc a..<Suc a + n]" by (simp add: upt_conv_Cons)
  have bt: "eb_block_table w = pre @ replicate (length seqs * ?mb + n * length seqs * ?mb) BLOCK_TABLE_SENTINEL"
    using Suc.prems(4) by (simp add: algebra_simps)
  have g: "emit_group m seqs qs (sum_list qs) (a, sm_groups m ! a) w = (None, w\<lparr>
      eb_slot_map := eb_slot_map w @ slot_row m seqs qs a,
      eb_block_table := pre @ table_rows m seqs a @ replicate (n * length seqs * ?mb) BLOCK_TABLE_SENTINEL,
      eb_window_start := eb_window_start w @ window_row m seqs a\<rparr>)" (is "_ = (None, ?w)")
    by (rule emit_group_eq [OF inv _ cov len Suc.prems(2,3) bt Suc.prems(5)]) (use Suc.prems(1) in simp)
  have "for_e (emit_group m seqs qs (sum_list qs)) (map (\<lambda>gi. (gi, sm_groups m ! gi)) [Suc a..<Suc a + n]) ?w = (None, ?w\<lparr>
      eb_slot_map := eb_slot_map ?w @ concat (map (slot_row m seqs qs) [Suc a..<Suc a + n]),
      eb_block_table := (pre @ table_rows m seqs a) @ concat (map (table_rows m seqs) [Suc a..<Suc a + n]),
      eb_window_start := eb_window_start ?w @ concat (map (window_row m seqs) [Suc a..<Suc a + n])\<rparr>)"
    by (rule Suc.IH) (use Suc.prems bt in \<open>auto simp: algebra_simps\<close>)
  then show ?case unfolding up list.map for_e.simps g outcome_simps by simp
qed simp

lemma enumerate_groups: "List.enumerate 0 xs = map (\<lambda>i. (i, xs ! i)) [0..<length xs]"
  by (rule nth_equalityI) (simp_all add: nth_enumerate_eq)

text \<open>The whole emission on empty buffers.\<close>

lemma emit_batch_eq:
  assumes inv: "sm_inv m" and live: "batch_live m seqs qs" and plan: "pl_total_tokens plan = sum_list qs"
    and fit: "length (sm_groups m) * length seqs * sm_max_blocks m < 2 ^ 64"
  shows "emit_batch_into m seqs qs plan \<lparr>eb_seq_ids = [], eb_ctx_lens = [], eb_positions = po, eb_slot_map = [],
      eb_block_table = replicate (length (sm_groups m) * length seqs * sm_max_blocks m) BLOCK_TABLE_SENTINEL, eb_window_start = []\<rparr> =
    (None, \<lparr>eb_seq_ids = seqs, eb_ctx_lens = map (batch_ctx m) seqs,
      eb_positions = map_option (\<lambda>ps. ps @ batch_positions m seqs qs) po,
      eb_slot_map = concat (map (slot_row m seqs qs) [0..<length (sm_groups m)]),
      eb_block_table = concat (map (table_rows m seqs) [0..<length (sm_groups m)]),
      eb_window_start = concat (map (window_row m seqs) [0..<length (sm_groups m)])\<rparr>)"
proof -
  have cov: "covered m (zip seqs qs)" and len: "length seqs = length qs" using live by (simp_all add: batch_live_covered)
  have "map (\<lambda>(q, n). batch_ctx m q) (zip seqs qs) = map (batch_ctx m) seqs"
    using len by (induction seqs qs rule: list_induct2) auto
  note ctx = emit_ctx_eq [OF inv cov, unfolded this]
  note groups = emit_groups_eq [OF inv cov len, of 0 "length (sm_groups m)" _ "[]"]
  show ?thesis
    unfolding emit_batch_into_def emit_ids_eq [OF covered_ids(2) [OF inv cov len]] outcome_simps ctx plan enumerate_groups
    by (subst groups [simplified]) (use fit in \<open>simp_all add: batch_positions_def\<close>)
qed

section \<open>The owned path\<close>

definition batch_of :: "state_manager \<Rightarrow> nat list \<Rightarrow> nat list \<Rightarrow> positions option \<Rightarrow> tree_mask option \<Rightarrow> batch_meta" where
  "batch_of m seqs qs po tree =
     \<lparr>bm_g = length (sm_groups m), bm_s = length seqs, bm_t = sum_list qs, bm_max_blocks = sm_max_blocks m,
      bm_seq_ids = seqs, bm_query_len = qs, bm_ctx_len = map (batch_ctx m) seqs,
      bm_positions = (case po of Some p \<Rightarrow> p | None \<Rightarrow> PerToken (batch_positions m seqs qs)),
      bm_slot_map = concat (map (slot_row m seqs qs) [0..<length (sm_groups m)]),
      bm_block_table = concat (map (table_rows m seqs) [0..<length (sm_groups m)]),
      bm_window_start = concat (map (window_row m seqs) [0..<length (sm_groups m)]), bm_tree = tree\<rparr>"

definition batch_request :: "state_manager \<Rightarrow> nat list \<Rightarrow> nat list \<Rightarrow> positions option \<Rightarrow> tree_mask option \<Rightarrow> bool" where
  "batch_request m seqs qs po tree \<longleftrightarrow> batch_live m seqs qs \<and> (\<forall>p. po = Some p \<longrightarrow> positions_len p = sum_list qs) \<and>
     (\<forall>tm. tree = Some tm \<longrightarrow> tree_fits tm (sum_list qs) qs)"

lemma batch_sizes:
  assumes inv: "sm_inv m" and live: "batch_live m seqs qs"
  shows "length (sm_groups m) \<le> 16" and "length seqs \<le> 65536" and "sum_list qs \<le> 1048576" and "0 < sum_list qs"
    and "0 < length seqs" and "0 < sm_max_blocks m" and "sm_max_blocks m \<le> 32768"
    and "length (sm_groups m) * length seqs * sm_max_blocks m < 2 ^ 64"
    and "length (sm_groups m) * sum_list qs < 2 ^ 64" and "length (sm_groups m) * length seqs < 2 ^ 64"
proof -
  note c = live [unfolded batch_live_covered]
  show g: "length (sm_groups m) \<le> 16" using sm_inv_static(2) [OF inv] by (simp add: groups_ok_def hard_caps)
  have "length seqs = card (set seqs)" using c by (simp add: distinct_card)
  also have "\<dots> \<le> card (dom (sm_seqs m))" by (rule card_mono [OF sm_inv_finite [OF inv]]) (use covered_ids(1) [OF inv] c in blast)
  also have "\<dots> \<le> 65536" using inv sm_inv_static(1) [OF inv] by (simp add: sm_inv_def ids_ok_def config_ok_def hard_caps)
  finally show s: "length seqs \<le> 65536" .
  show t: "sum_list qs \<le> 1048576" using c by (simp add: MAX_BATCH_TOKENS_HARD_def)
  show "0 < length seqs" using c by auto
  then obtain q n where "(q, n) \<in> set (zip seqs qs)" using c by (cases seqs; cases qs) auto
  moreover from this have "n \<in> set qs" by (rule set_zip_rightD)
  ultimately show "0 < sum_list qs" using c member_le_sum_list [of n qs] by (force simp: covered_def)
  show mb: "0 < sm_max_blocks m" "sm_max_blocks m \<le> 32768"
    using sm_inv_static(1,3) [OF inv] by (auto simp: config_ok_def max_blocks_def hard_caps)
  have gs: "length (sm_groups m) * length seqs \<le> 16 * 65536" using g s by (rule mult_le_mono)
  have "length (sm_groups m) * length seqs * sm_max_blocks m \<le> 16 * 65536 * 32768" using gs mb(2) by (rule mult_le_mono)
  then show "length (sm_groups m) * length seqs * sm_max_blocks m < 2 ^ 64" by simp
  have "length (sm_groups m) * sum_list qs \<le> 16 * 1048576" using g t by (rule mult_le_mono)
  then show "length (sm_groups m) * sum_list qs < 2 ^ 64" by simp
  show "length (sm_groups m) * length seqs < 2 ^ 64" using gs by simp
qed

lemma bm_ok_batch_of:
  assumes inv: "sm_inv m" and req: "batch_live m seqs qs" "\<forall>p. po = Some p \<longrightarrow> positions_len p = sum_list qs" and g: "sm_groups m \<noteq> []"
  shows "bm_ok (batch_of m seqs qs po tree) \<longleftrightarrow> (\<forall>tm. tree = Some tm \<longrightarrow> tree_fits tm (sum_list qs) qs)"
proof -
  note sz = batch_sizes [OF inv req(1)] and c = req(1) [unfolded batch_live_covered]
  have "0 \<notin> set qs"
  proof
    assume "0 \<in> set qs"
    then obtain q where "(q, 0) \<in> set (zip seqs qs)" using c by (metis in_set_impl_in_set_zip2)
    with c show False by (auto simp: covered_def)
  qed
  moreover have "length (concat (map (slot_row m seqs qs) [0..<length (sm_groups m)])) = length (sm_groups m) * sum_list qs"
    "length (concat (map (table_rows m seqs) [0..<length (sm_groups m)])) = length (sm_groups m) * (length seqs * sm_max_blocks m)"
    "length (concat (map (window_row m seqs) [0..<length (sm_groups m)])) = length (sm_groups m) * length seqs"
    using c length_concat_const [of "[0..<length (sm_groups m)]" "slot_row m seqs qs" "sum_list qs"]
      length_concat_const [of "[0..<length (sm_groups m)]" "table_rows m seqs" "length seqs * sm_max_blocks m"]
      length_concat_const [of "[0..<length (sm_groups m)]" "window_row m seqs" "length seqs"] by simp_all
  moreover have "positions_len (case po of Some p \<Rightarrow> p | None \<Rightarrow> PerToken (batch_positions m seqs qs)) = sum_list qs"
    using req(2) c by (cases po) simp_all
  ultimately show ?thesis using sz g c by (simp add: bm_ok_def batch_of_def mult.assoc)
qed

lemma batch_meta_eq:
  assumes inv: "sm_inv m"
  shows "batch_meta_with_options m seqs qs po tree = Inr bm \<longleftrightarrow>
    batch_request m seqs qs po tree \<and> sm_groups m \<noteq> [] \<and> bm = batch_of m seqs qs po tree"
    and "batch_meta_with_options m seqs qs po tree \<noteq> Inl (RustPanic s)"
proof -
  let ?plan = "plan_batch m seqs qs (map_option positions_len po) (map_option (\<lambda>t. length (tm_parents t)) tree) []"
  note plan = plan_batch_Inr [OF inv, of seqs qs "map_option positions_len po" "map_option (\<lambda>t. length (tm_parents t)) tree" "[]"]
  have "(batch_meta_with_options m seqs qs po tree = Inr bm \<longleftrightarrow>
    batch_request m seqs qs po tree \<and> sm_groups m \<noteq> [] \<and> bm = batch_of m seqs qs po tree) \<and>
    batch_meta_with_options m seqs qs po tree \<noteq> Inl (RustPanic s)"
  proof (cases "fst ?plan")
    case (Inl e)
    then have "\<not> batch_request m seqs qs po tree"
      using plan [of "\<lparr>pl_total_tokens = sum_list qs, pl_total_u64 = sum_list qs\<rparr>"]
      by (auto simp: batch_request_def tree_fits_def)
    moreover have "e \<noteq> RustPanic s"
      using Inl plan_ids_error [of 0 seqs "[]" "[]"] by (auto simp: plan_batch_def Let_def split: if_splits prod.splits sum.splits)
    ultimately show ?thesis using Inl by (simp add: batch_meta_with_options_def)
  next
    case (Inr pl)
    then have live: "batch_live m seqs qs" and pos: "\<forall>p. po = Some p \<longrightarrow> positions_len p = sum_list qs"
      and tree: "\<forall>tm. tree = Some tm \<longrightarrow> length (tm_parents tm) = sum_list qs"
      and pl: "pl = \<lparr>pl_total_tokens = sum_list qs, pl_total_u64 = sum_list qs\<rparr>"
      using plan [of pl] by auto
    note sz = batch_sizes [OF inv live]
    let ?b = "(builder (length (sm_groups m)) (length seqs) (sum_list qs) (sm_max_blocks m))
       \<lparr>bb_seq_ids := Some seqs, bb_query_len := Some qs, bb_ctx_len := Some (map (batch_ctx m) seqs),
        bb_positions := Some (case po of Some p \<Rightarrow> p | None \<Rightarrow> PerToken (batch_positions m seqs qs)),
        bb_slot_map := Some (concat (map (slot_row m seqs qs) [0..<length (sm_groups m)])),
        bb_block_table := Some (concat (map (table_rows m seqs) [0..<length (sm_groups m)])),
        bb_window_start := Some (concat (map (window_row m seqs) [0..<length (sm_groups m)])), bb_tree := tree\<rparr>"
    have emit: "emit_batch_into m seqs qs pl \<lparr>eb_seq_ids = [], eb_ctx_lens = [], eb_positions = Some [], eb_slot_map = [],
        eb_block_table = replicate (length (sm_groups m) * length seqs * sm_max_blocks m) BLOCK_TABLE_SENTINEL, eb_window_start = []\<rparr> =
      (None, \<lparr>eb_seq_ids = seqs, eb_ctx_lens = map (batch_ctx m) seqs, eb_positions = Some (batch_positions m seqs qs),
        eb_slot_map = concat (map (slot_row m seqs qs) [0..<length (sm_groups m)]),
        eb_block_table = concat (map (table_rows m seqs) [0..<length (sm_groups m)]),
        eb_window_start = concat (map (window_row m seqs) [0..<length (sm_groups m)])\<rparr>)"
      by (subst emit_batch_eq [OF inv live _ sz(8)]) (simp_all add: pl)
    have try32: "try_from 32 (length (sm_groups m)) = Some (length (sm_groups m))" "try_from 32 (length seqs) = Some (length seqs)"
      "try_from 32 (sum_list qs) = Some (sum_list qs)" using sz(1-3) by (simp_all add: try_from_def)
    have mul: "checked_mul 64 (length (sm_groups m)) (sum_list qs) = Some (length (sm_groups m) * sum_list qs)"
      "checked_mul 64 (length (sm_groups m)) (length seqs) = Some (length (sm_groups m) * length seqs)"
      "checked_mul 64 (length (sm_groups m) * length seqs) (sm_max_blocks m) = Some (length (sm_groups m) * length seqs * sm_max_blocks m)"
      using sz(8-10) by (simp_all add: checked_mul_def)
    have eq: "batch_meta_with_options m seqs qs po tree =
        (case build ?b of Inl Panic \<Rightarrow> Inl (RustPanic ''parents'') | Inl (Problem e) \<Rightarrow> Inl (Ir e) | Inr bm \<Rightarrow> Inr bm)"
      unfolding batch_meta_with_options_def Inr bind_r_simps Let_def pl batch_plan.select_convs mul Option.bind.simps ok_or_simps
        emit [unfolded pl] prod.case option.case emit_bufs.select_convs try32 option.sel ..
    have np: "build ?b \<noteq> Inl Panic" by (rule build_no_panic) (use tree in \<open>auto simp: builder_def\<close>)
    have fld: "fields_of ?b bm \<longleftrightarrow> bm = batch_of m seqs qs po tree"
      by (auto simp: fields_of_def builder_def batch_of_def)
    have ok: "bm_ok (batch_of m seqs qs po tree) \<longleftrightarrow> batch_request m seqs qs po tree \<and> sm_groups m \<noteq> []"
    proof (cases "sm_groups m = []")
      case False
      then show ?thesis using bm_ok_batch_of [OF inv live pos False] live pos by (simp add: batch_request_def)
    qed (simp add: bm_ok_def batch_of_def)
    show ?thesis using build_Ok [of ?b bm] fld ok np unfolding eq by (auto split: sum.splits build_fault.splits)
  qed
  then show "batch_meta_with_options m seqs qs po tree = Inr bm \<longleftrightarrow>
    batch_request m seqs qs po tree \<and> sm_groups m \<noteq> [] \<and> bm = batch_of m seqs qs po tree"
    and "batch_meta_with_options m seqs qs po tree \<noteq> Inl (RustPanic s)" by simp_all
qed

section \<open>The hot path\<close>

text \<open>Capacities that cover a batch, and the batch a filled workspace holds.\<close>

definition ws_fits :: "state_manager \<Rightarrow> nat list \<Rightarrow> nat list \<Rightarrow> positions option \<Rightarrow> batch_workspace \<Rightarrow> bool" where
  "ws_fits m seqs qs po ws \<longleftrightarrow> length seqs \<le> v_cap (ws_id_scratch ws) \<and> length seqs \<le> v_cap (ws_seq_ids ws) \<and>
     length seqs \<le> v_cap (ws_query_lens ws) \<and> length seqs \<le> v_cap (ws_ctx_lens ws) \<and>
     (if is_mrope po then sum_list qs \<le> v_cap (ws_positions_mrope ws) else sum_list qs \<le> v_cap (ws_positions ws)) \<and>
     length (sm_groups m) * sum_list qs \<le> v_cap (ws_slot_map ws) \<and>
     length (sm_groups m) * length seqs * sm_max_blocks m \<le> v_cap (ws_block_table ws) \<and>
     length (sm_groups m) * length seqs \<le> v_cap (ws_window_start ws)"

definition ws_batch :: "batch_workspace \<Rightarrow> batch_meta" where
  "ws_batch ws =
     \<lparr>bm_g = ws_last_g ws, bm_s = ws_last_s ws, bm_t = ws_last_t ws, bm_max_blocks = ws_last_max_blocks ws,
      bm_seq_ids = v_items (ws_seq_ids ws), bm_query_len = v_items (ws_query_lens ws), bm_ctx_len = v_items (ws_ctx_lens ws),
      bm_positions = (if ws_last_position_width ws = 3 then Mrope (v_items (ws_positions_mrope ws)) else PerToken (v_items (ws_positions ws))),
      bm_slot_map = v_items (ws_slot_map ws), bm_block_table = v_items (ws_block_table ws),
      bm_window_start = v_items (ws_window_start ws), bm_tree = ws_tree ws\<rparr>"

lemma check_cap_Inr [simp]: "check_cap what v need = Inr u \<longleftrightarrow> need \<le> v_cap v"
  by (simp add: check_cap_def)

lemma check_sizes_Inr:
  assumes "sm_inv m" and "batch_live m seqs qs" and "length seqs \<le> v_cap (ws_id_scratch ws)"
  shows "check_sizes m (length seqs) (sum_list qs) po ws = Inr n \<longleftrightarrow>
    ws_fits m seqs qs po ws \<and> n = length (sm_groups m) * length seqs * sm_max_blocks m"
  using batch_sizes(8-10) [OF assms(1,2)] assms(3)
  by (auto simp: check_sizes_def Let_def bind_r_eq_Inr ws_fits_def checked_mul_def)

lemma cross_rules_nil:
  assumes "start + sum_list q \<le> length parents"
  shows "cross_rules parents sq start q = [] \<longleftrightarrow> within_seqs parents start q"
  using assms
proof (induction q arbitrary: sq start)
  case (Cons n q)
  have "take n (drop start (List.enumerate 0 parents)) = map (\<lambda>t. (t, parents ! t)) [start..<start + n]"
    by (rule nth_equalityI) (use Cons.prems in \<open>auto simp: nth_enumerate_eq\<close>)
  with Cons.IH [of "start + n" "Suc sq"] Cons.prems show ?case by (auto simp: crosses_nil)
qed simp

lemma check_tree_batch_rules_Inr:
  assumes "length parents = sum_list qs"
  shows "check_tree_batch_rules parents t_max qs = Inr u \<longleftrightarrow> (\<forall>n \<in> set qs. n \<le> t_max) \<and> within_seqs parents 0 qs"
  using assms cross_rules_nil [of 0 qs parents 0] fold_max_le [of qs 0 t_max]
  by (auto simp: check_tree_batch_rules_def Let_def not_less)

lemma ir_result_Inr [simp]: "ir_result r = Inr a \<longleftrightarrow> r = Inr a"
  by (auto simp: ir_result_def split: sum.splits)

definition stored :: "state_manager \<Rightarrow> nat list \<Rightarrow> nat list \<Rightarrow> positions option \<Rightarrow> batch_workspace \<Rightarrow> batch_workspace" where
  "stored m seqs qs po ws = snd (fill_tensors m seqs qs po \<lparr>pl_total_tokens = sum_list qs, pl_total_u64 = sum_list qs\<rparr>
     (length (sm_groups m) * length seqs * sm_max_blocks m) ws)"

lemma fill_tensors_eq:
  assumes inv: "sm_inv m" and live: "batch_live m seqs qs"
  shows "fill_tensors m seqs qs po \<lparr>pl_total_tokens = sum_list qs, pl_total_u64 = sum_list qs\<rparr>
      (length (sm_groups m) * length seqs * sm_max_blocks m) ws = (None, stored m seqs qs po ws) \<and>
    ws_batch (stored m seqs qs po ws) = batch_of m seqs qs po (ws_tree ws) \<and>
    get_tree_view ((stored m seqs qs po ws)\<lparr>ws_tree := t\<rparr>) = get_tree_view (ws\<lparr>ws_tree := t\<rparr>) \<and> ws_tree (stored m seqs qs po ws) = ws_tree ws"
proof -
  note sz = batch_sizes [OF inv live]
  have try32: "try_from 32 (length (sm_groups m)) = Some (length (sm_groups m))" "try_from 32 (length seqs) = Some (length seqs)"
    "try_from 32 (sum_list qs) = Some (sum_list qs)" using sz(1-3) by (simp_all add: try_from_def)
  note emit = emit_batch_eq [OF inv live _ sz(8), of "\<lparr>pl_total_tokens = sum_list qs, pl_total_u64 = sum_list qs\<rparr>"]
  have "fst (fill_tensors m seqs qs po \<lparr>pl_total_tokens = sum_list qs, pl_total_u64 = sum_list qs\<rparr>
      (length (sm_groups m) * length seqs * sm_max_blocks m) ws) = None"
    unfolding fill_tensors_def Let_def by (simp add: emit try32)
  moreover have "ws_batch (stored m seqs qs po ws) = batch_of m seqs qs po (ws_tree ws) \<and>
      get_tree_view ((stored m seqs qs po ws)\<lparr>ws_tree := t\<rparr>) = get_tree_view (ws\<lparr>ws_tree := t\<rparr>) \<and> ws_tree (stored m seqs qs po ws) = ws_tree ws"
    unfolding stored_def fill_tensors_def Let_def
    by (cases po; cases "the po") (simp_all add: emit try32 ws_batch_def batch_of_def vec_set_def get_tree_view_def)
  ultimately show ?thesis unfolding stored_def by (metis prod.collapse)
qed

lemma get_tree_view_clear: "get_tree_view ((clear_tree ws)\<lparr>ws_tree := t\<rparr>) =
    map_option (\<lambda>t. \<lparr>tv_parents = tm_parents t, tv_t_max = tm_t_max t, tv_ancestors = tm_ancestors t\<rparr>) t"
  by (simp add: get_tree_view_def clear_tree_def)

lemma ws_batch_clear: "ws_batch ((clear_tree ws)\<lparr>ws_tree := t\<rparr>) = (ws_batch ws)\<lparr>bm_tree := t\<rparr>"
  by (simp add: ws_batch_def clear_tree_def)

text \<open>
  The hot fill with an owned tree: it succeeds exactly on the requests the owned path
  accepts, given the capacity; then the workspace holds the batch, otherwise only the id
  scratch has changed.
\<close>

lemma fill_batch_meta_cases:
  assumes inv: "sm_inv m"
  shows "if batch_request m seqs qs po tree \<and> ws_fits m seqs qs po ws
    then \<exists>ws'. fill_batch_meta_with_options m seqs qs po tree ws = (None, ws') \<and> ws_batch ws' = batch_of m seqs qs po tree
    else \<exists>e v. fill_batch_meta_with_options m seqs qs po tree ws = (Some e, ws\<lparr>ws_id_scratch := v\<rparr>)"
proof (cases "length seqs \<le> v_cap (ws_id_scratch ws)")
  case False
  then show ?thesis by (auto simp: fill_batch_meta_with_options_def check_cap_def ws_fits_def intro!: exI [of _ "ws_id_scratch ws"])
next
  case cap: True
  let ?tt = "map_option (\<lambda>t. length (tm_parents t)) tree"
  obtain planned seen where pl: "plan_batch m seqs qs (map_option positions_len po) ?tt (v_items (ws_id_scratch ws)) = (planned, seen)"
    by (metis surj_pair)
  let ?ws0 = "ws\<lparr>ws_id_scratch := vec_set (ws_id_scratch ws) seen\<rparr>"
  note plan = plan_batch_Inr [OF inv, of seqs qs "map_option positions_len po" ?tt "v_items (ws_id_scratch ws)", unfolded pl fst_conv]
  show ?thesis
  proof (cases planned)
    case (Inl e)
    then have "\<not> batch_request m seqs qs po tree"
      using plan [of "\<lparr>pl_total_tokens = sum_list qs, pl_total_u64 = sum_list qs\<rparr>"] by (auto simp: batch_request_def tree_fits_def)
    with Inl cap pl show ?thesis by (auto simp: fill_batch_meta_with_options_def check_cap_def)
  next
    case (Inr p)
    then have live: "batch_live m seqs qs" and pos: "\<forall>x. po = Some x \<longrightarrow> positions_len x = sum_list qs"
      and tree: "\<forall>tm. tree = Some tm \<longrightarrow> length (tm_parents tm) = sum_list qs"
      and p: "p = \<lparr>pl_total_tokens = sum_list qs, pl_total_u64 = sum_list qs\<rparr>"
      using plan [of p] by auto
    let ?rules = "case tree of None \<Rightarrow> Inr () | Some t \<Rightarrow> ir_result (check_tree_batch_rules (tm_parents t) (tm_t_max t) qs)"
    have rules: "?rules = Inr () \<longleftrightarrow> (\<forall>tm. tree = Some tm \<longrightarrow> tree_fits tm (sum_list qs) qs)"
      using tree by (cases tree) (auto simp: check_tree_batch_rules_Inr tree_fits_def)
    have cap0: "length seqs \<le> v_cap (ws_id_scratch ?ws0)" using cap by (simp add: vec_set_def)
    have fits: "ws_fits m seqs qs po ?ws0 \<longleftrightarrow> ws_fits m seqs qs po ws" using cap by (simp add: ws_fits_def vec_set_def le_max_iff_disj)
    note sizes = check_sizes_Inr [OF inv live cap0, of po, unfolded fits]
    have eq: "fill_batch_meta_with_options m seqs qs po tree ws =
        try_e (check_sizes m (length seqs) (sum_list qs) po ?ws0) (\<lambda>need_block. try_e ?rules (\<lambda>_ ws.
          then_e (fill_tensors m seqs qs po p need_block ws) (\<lambda>ws. (None, (clear_tree ws)\<lparr>ws_tree := tree\<rparr>)))) ?ws0"
      unfolding fill_batch_meta_with_options_def Let_def using cap by (simp add: pl Inr check_cap_def p)
    show ?thesis
    proof (cases "ws_fits m seqs qs po ws \<and> ?rules = Inr ()")
      case True
      then have sz: "check_sizes m (length seqs) (sum_list qs) po ?ws0 = Inr (length (sm_groups m) * length seqs * sm_max_blocks m)"
        and ru: "?rules = Inr ()" using sizes by blast+
      note ft = fill_tensors_eq [OF inv live, of po ?ws0]
      have "fill_batch_meta_with_options m seqs qs po tree ws = (None, (clear_tree (stored m seqs qs po ?ws0))\<lparr>ws_tree := tree\<rparr>)"
        unfolding eq sz ru outcome_simps using ft by (simp add: p)
      moreover have "ws_batch ((clear_tree (stored m seqs qs po ?ws0))\<lparr>ws_tree := tree\<rparr>) = batch_of m seqs qs po tree"
        unfolding ws_batch_clear using ft by (simp add: batch_of_def)
      moreover have "batch_request m seqs qs po tree" using live pos True rules by (simp add: batch_request_def)
      ultimately show ?thesis using True by auto
    next
      case False
      have "\<exists>e. fill_batch_meta_with_options m seqs qs po tree ws = (Some e, ?ws0)"
      proof (cases "check_sizes m (length seqs) (sum_list qs) po ?ws0")
        case (Inl e)
        then show ?thesis unfolding eq by simp
      next
        case (Inr n)
        then have "?rules \<noteq> Inr ()" using False sizes by blast
        then obtain e where "?rules = Inl e" by (cases ?rules) auto
        with Inr show ?thesis unfolding eq by simp
      qed
      moreover have "\<not> (batch_request m seqs qs po tree \<and> ws_fits m seqs qs po ws)"
        using False rules by (auto simp: batch_request_def)
      ultimately show ?thesis by auto
    qed
  qed
qed

text \<open>Borrowed trees.\<close>

definition tree_room :: "tree_input \<Rightarrow> batch_workspace \<Rightarrow> bool" where
  "tree_room ti ws \<longleftrightarrow> length (ti_parents ti) \<le> v_cap (ws_tree_parents ws) \<and>
     length (ti_parents ti) * ti_t_max ti \<le> v_cap (ws_tree_ancestors ws) \<and>
     length (ti_parents ti) \<le> v_cap (ws_tree_cycle_state ws) \<and> length (ti_parents ti) \<le> v_cap (ws_tree_cycle_path ws)"

definition view_of :: "tree_input \<Rightarrow> tree_view" where
  "view_of ti = \<lparr>tv_parents = ti_parents ti, tv_t_max = ti_t_max ti, tv_ancestors = ti_ancestors ti\<rparr>"

definition mask_of :: "tree_input \<Rightarrow> tree_mask" where
  "mask_of ti = \<lparr>tm_parents = ti_parents ti, tm_t_max = ti_t_max ti, tm_ancestors = ti_ancestors ti\<rparr>"

lemma fill_tree_cases:
  assumes small: "length (ti_parents ti) < 2 ^ 31"
  shows "if tree_ok (ti_parents ti) (ti_t_max ti) (length (ti_ancestors ti)) \<and> tree_room ti ws
    then \<exists>ws'. fill_tree ti ws = (None, ws') \<and> get_tree_view ws' = Some (view_of ti) \<and> ws_batch ws' = (ws_batch ws)\<lparr>bm_tree := None\<rparr>
    else \<exists>e ws'. fill_tree ti ws = (Some e, ws') \<and> ws_batch ws' = ws_batch ws"
proof (cases "length (ti_parents ti) * ti_t_max ti < 2 ^ 64 \<and> tree_room ti ws")
  case False
  then have "\<exists>e. fill_tree ti ws = (Some e, ws)"
    by (cases "length (ti_parents ti) * ti_t_max ti < 2 ^ 64"; cases "length (ti_parents ti) \<le> v_cap (ws_tree_parents ws)";
        cases "length (ti_parents ti) * ti_t_max ti \<le> v_cap (ws_tree_ancestors ws)";
        cases "length (ti_parents ti) \<le> v_cap (ws_tree_cycle_state ws)")
       (simp_all add: fill_tree_def Let_def tree_room_def checked_mul_def guard_r_def)
  moreover have "\<not> (tree_ok (ti_parents ti) (ti_t_max ti) (length (ti_ancestors ti)) \<and> tree_room ti ws)"
    using False by (auto simp: tree_ok_def shape_ok_def)
  ultimately show ?thesis by auto
next
  case True
  obtain ps marks path where cy: "check_tree_cycles (ti_parents ti) (replicate (length (ti_parents ti)) 0) []
      (push_tree_parent_problems (ti_parents ti)
        (push_tree_shape_problems (length (ti_parents ti)) (ti_t_max ti) (length (ti_ancestors ti)) [])) = (ps, marks, path)"
    by (metis prod_cases3)
  let ?v = "from_problems (tree_problems (ti_parents ti) (ti_t_max ti) (length (ti_ancestors ti)))"
  have v: "validate_tree_slices (ti_parents ti) (ti_t_max ti) (ti_ancestors ti) (replicate (length (ti_parents ti)) 0)
      (v_cap (ws_tree_cycle_path ws)) = ?v"
    using True by (simp add: validate_tree_slices_def tree_room_def)
  have ok: "?v = Inr () \<longleftrightarrow> tree_ok (ti_parents ti) (ti_t_max ti) (length (ti_ancestors ti))"
    using tree_problems_nil [OF small] by simp
  have eq: "fill_tree ti ws = (let ws2 = ws\<lparr>ws_tree_parents := vec_set (ws_tree_parents ws) (ti_parents ti),
        ws_tree_ancestors := vec_set (ws_tree_ancestors ws) (ti_ancestors ti),
        ws_tree_cycle_state := vec_set (ws_tree_cycle_state ws) marks, ws_tree_cycle_path := vec_set (ws_tree_cycle_path ws) path\<rparr>
      in case ?v of
           Inr _ \<Rightarrow> (None, ws2\<lparr>ws_tree := None, ws_tree_t_max := ti_t_max ti, ws_tree_len := length (ti_parents ti),
                             ws_tree_anc_len := length (ti_parents ti) * ti_t_max ti, ws_tree_present := True\<rparr>)
         | Inl e \<Rightarrow> (Some (Ir e), clear_tree ws2))"
    using True by (simp add: fill_tree_def Let_def tree_room_def checked_mul_def cy v)
  show ?thesis
  proof (cases ?v)
    case (Inl e)
    then show ?thesis unfolding eq using ok by (simp add: Let_def ws_batch_def clear_tree_def)
  next
    case (Inr u)
    then have t: "tree_ok (ti_parents ti) (ti_t_max ti) (length (ti_ancestors ti))" using ok by simp
    then have len: "length (ti_ancestors ti) = length (ti_parents ti) * ti_t_max ti" by (simp add: tree_ok_def shape_ok_def)
    let ?w = "ws\<lparr>ws_tree_parents := vec_set (ws_tree_parents ws) (ti_parents ti),
        ws_tree_ancestors := vec_set (ws_tree_ancestors ws) (ti_ancestors ti),
        ws_tree_cycle_state := vec_set (ws_tree_cycle_state ws) marks, ws_tree_cycle_path := vec_set (ws_tree_cycle_path ws) path,
        ws_tree := None, ws_tree_t_max := ti_t_max ti, ws_tree_len := length (ti_parents ti),
        ws_tree_anc_len := length (ti_parents ti) * ti_t_max ti, ws_tree_present := True\<rparr>"
    have "fill_tree ti ws = (None, ?w)" unfolding eq Inr Let_def sum.case ..
    moreover have "get_tree_view ?w = Some (view_of ti)" using len by (simp add: get_tree_view_def view_of_def vec_set_def)
    moreover have "ws_batch ?w = (ws_batch ws)\<lparr>bm_tree := None\<rparr>" by (simp add: ws_batch_def)
    ultimately show ?thesis using True t by simp
  qed
qed

definition tree_request :: "nat list \<Rightarrow> tree_input option \<Rightarrow> batch_workspace \<Rightarrow> bool" where
  "tree_request qs tree ws \<longleftrightarrow> (\<forall>ti. tree = Some ti \<longrightarrow> tree_fits (mask_of ti) (sum_list qs) qs \<and>
     tree_ok (ti_parents ti) (ti_t_max ti) (length (ti_ancestors ti)) \<and> tree_room ti ws)"

lemma tree_room_scratch [simp]: "tree_room ti (ws\<lparr>ws_id_scratch := v\<rparr>) = tree_room ti ws"
  by (simp add: tree_room_def)

lemma ws_batch_scratch [simp]: "ws_batch (ws\<lparr>ws_id_scratch := v\<rparr>) = ws_batch ws"
  by (simp add: ws_batch_def)

lemma fill_tree_input_cases:
  assumes inv: "sm_inv m"
  shows "if batch_request m seqs qs po None \<and> ws_fits m seqs qs po ws \<and> tree_request qs tree ws
    then \<exists>ws'. fill_batch_meta_with_options_and_tree_input m seqs qs po tree ws = (None, ws') \<and>
      ws_batch ws' = batch_of m seqs qs po None \<and> get_tree_view ws' = map_option view_of tree
    else \<exists>e ws'. fill_batch_meta_with_options_and_tree_input m seqs qs po tree ws = (Some e, ws') \<and> ws_batch ws' = ws_batch ws"
proof (cases "length seqs \<le> v_cap (ws_id_scratch ws)")
  case False
  then show ?thesis by (auto simp: fill_batch_meta_with_options_and_tree_input_def check_cap_def ws_fits_def)
next
  case cap: True
  obtain planned seen where pl: "plan_batch m seqs qs (map_option positions_len po) None (v_items (ws_id_scratch ws)) = (planned, seen)"
    by (metis surj_pair)
  let ?ws0 = "ws\<lparr>ws_id_scratch := vec_set (ws_id_scratch ws) seen\<rparr>"
  note plan = plan_batch_Inr [OF inv, of seqs qs "map_option positions_len po" None "v_items (ws_id_scratch ws)", unfolded pl fst_conv]
  show ?thesis
  proof (cases planned)
    case (Inl e)
    then have "\<not> batch_request m seqs qs po None"
      using plan [of "\<lparr>pl_total_tokens = sum_list qs, pl_total_u64 = sum_list qs\<rparr>"] by (auto simp: batch_request_def)
    with Inl cap pl show ?thesis by (auto simp: fill_batch_meta_with_options_and_tree_input_def check_cap_def)
  next
    case (Inr p)
    then have live: "batch_live m seqs qs" and pos: "\<forall>x. po = Some x \<longrightarrow> positions_len x = sum_list qs"
      and p: "p = \<lparr>pl_total_tokens = sum_list qs, pl_total_u64 = sum_list qs\<rparr>"
      using plan [of p] by auto
    have req: "batch_request m seqs qs po None" using live pos by (simp add: batch_request_def)
    have t32: "sum_list qs < 2 ^ 31" using batch_sizes(3) [OF inv live] by simp
    have cap0: "length seqs \<le> v_cap (ws_id_scratch ?ws0)" using cap by (simp add: vec_set_def)
    have fits: "ws_fits m seqs qs po ?ws0 \<longleftrightarrow> ws_fits m seqs qs po ws"
      using cap by (simp add: ws_fits_def vec_set_def le_max_iff_disj)
    note sizes = check_sizes_Inr [OF inv live cap0, of po, unfolded fits]
    let ?mismatch = "case tree of None \<Rightarrow> Inr () | Some t \<Rightarrow> if length (ti_parents t) \<noteq> pl_total_tokens p
        then bind_r (ok_or (Overflow ''batch meta total tokens'') (try_from 32 (pl_total_u64 p)))
          (\<lambda>n. Inl (Ir (TreeBatchMismatch (length (ti_parents t)) n))) else Inr ()"
    let ?stage = "\<lambda>ws. case tree of None \<Rightarrow> (None, clear_tree ws)
        | Some t \<Rightarrow> try_e (ir_result (check_tree_batch_rules (ti_parents t) (ti_t_max t) qs)) (\<lambda>_. fill_tree t) ws"
    have eq: "fill_batch_meta_with_options_and_tree_input m seqs qs po tree ws =
        try_e ?mismatch (\<lambda>_ ws. try_e (check_sizes m (length seqs) (sum_list qs) po ws) (\<lambda>need_block ws.
          then_e (?stage ws) (\<lambda>ws. then_e (fill_tensors m seqs qs po p need_block ws) (\<lambda>ws. (None, ws\<lparr>ws_tree := None\<rparr>)))) ws) ?ws0"
    proof -
      have pt: "pl_total_tokens p = sum_list qs" by (simp add: p)
      show ?thesis unfolding fill_batch_meta_with_options_and_tree_input_def Let_def using cap by (simp add: pl Inr check_cap_def pt)
    qed
    have mm: "?mismatch = Inr () \<longleftrightarrow> (\<forall>ti. tree = Some ti \<longrightarrow> length (ti_parents ti) = sum_list qs)"
      using t32 by (cases tree) (auto simp: p try_from_def)
    have stage: "if tree_request qs tree ws
      then \<exists>w. ?stage ?ws0 = (None, w) \<and> ws_batch (w\<lparr>ws_tree := None\<rparr>) = (ws_batch ws)\<lparr>bm_tree := None\<rparr> \<and>
        get_tree_view (w\<lparr>ws_tree := None\<rparr>) = map_option view_of tree
      else \<exists>e w. ?stage ?ws0 = (Some e, w) \<and> ws_batch w = ws_batch ws" if m': "?mismatch = Inr ()"
    proof (cases tree)
      case None
      then show ?thesis by (simp add: tree_request_def ws_batch_def clear_tree_def get_tree_view_def)
    next
      case (Some ti)
      have len: "length (ti_parents ti) = sum_list qs" using m' mm Some by blast
      then have small: "length (ti_parents ti) < 2 ^ 31" using t32 by simp
      note rules = check_tree_batch_rules_Inr [OF len, of "ti_t_max ti"]
      show ?thesis
      proof (cases "check_tree_batch_rules (ti_parents ti) (ti_t_max ti) qs")
        case (Inl e)
        then have "\<not> tree_request qs tree ws" using rules Some by (auto simp: tree_request_def tree_fits_def mask_of_def)
        with Inl Some show ?thesis by (simp add: ir_result_def)
      next
        case (Inr u)
        then have "tree_request qs tree ws \<longleftrightarrow> tree_ok (ti_parents ti) (ti_t_max ti) (length (ti_ancestors ti)) \<and> tree_room ti ws"
          using rules Some len by (auto simp: tree_request_def tree_fits_def mask_of_def)
        moreover have "get_tree_view (w\<lparr>ws_tree := None\<rparr>) = Some (view_of ti) \<and> ws_batch (w\<lparr>ws_tree := None\<rparr>) = ws_batch w"
          if "get_tree_view w = Some (view_of ti)" "ws_batch w = (ws_batch ws)\<lparr>bm_tree := None\<rparr>" for w
        proof -
          from that(2) have "ws_tree w = None" by (simp add: ws_batch_def)
          then have "w\<lparr>ws_tree := None\<rparr> = w" by simp
          with that(1) show ?thesis by simp
        qed
        ultimately show ?thesis using fill_tree_cases [OF small, of ?ws0] Inr Some by (fastforce simp: ir_result_def split: if_splits)
      qed
    qed
    show ?thesis
    proof (cases "ws_fits m seqs qs po ws \<and> tree_request qs tree ws")
      case True
      then have m': "?mismatch = Inr ()" using mm by (auto simp: tree_request_def tree_fits_def mask_of_def)
      have sz: "check_sizes m (length seqs) (sum_list qs) po ?ws0 = Inr (length (sm_groups m) * length seqs * sm_max_blocks m)"
        using True sizes by blast
      obtain w where w: "?stage ?ws0 = (None, w)" "get_tree_view (w\<lparr>ws_tree := None\<rparr>) = map_option view_of tree"
        using stage [OF m'] True by (auto split: if_splits)
      note ft = fill_tensors_eq [OF inv live, of po w]
      have "fill_batch_meta_with_options_and_tree_input m seqs qs po tree ws = (None, (stored m seqs qs po w)\<lparr>ws_tree := None\<rparr>)"
        unfolding eq m' outcome_simps sz w using ft by (simp add: p)
      moreover have "ws_batch ((stored m seqs qs po w)\<lparr>ws_tree := None\<rparr>) = (ws_batch (stored m seqs qs po w))\<lparr>bm_tree := None\<rparr>"
        by (simp add: ws_batch_def)
      then have "ws_batch ((stored m seqs qs po w)\<lparr>ws_tree := None\<rparr>) = batch_of m seqs qs po None" using ft by (simp add: batch_of_def)
      moreover have "get_tree_view ((stored m seqs qs po w)\<lparr>ws_tree := None\<rparr>) = get_tree_view (w\<lparr>ws_tree := None\<rparr>)"
        using fill_tensors_eq [OF inv live, of po w None] by simp
      ultimately show ?thesis using True req w(2) by auto
    next
      case False
      have "\<exists>e ws'. fill_batch_meta_with_options_and_tree_input m seqs qs po tree ws = (Some e, ws') \<and> ws_batch ws' = ws_batch ws"
      proof (cases ?mismatch)
        case (Inl e)
        then show ?thesis unfolding eq by simp
      next
        case (Inr u)
        then have m': "?mismatch = Inr ()" by simp
        show ?thesis
        proof (cases "check_sizes m (length seqs) (sum_list qs) po ?ws0")
          case (Inl e)
          then show ?thesis unfolding eq m' by simp
        next
          case (Inr n)
          then have "\<not> tree_request qs tree ws" using False sizes by blast
          then obtain e w where "?stage ?ws0 = (Some e, w)" "ws_batch w = ws_batch ws" using stage [OF m'] by auto
          with Inr show ?thesis unfolding eq m' by simp
        qed
      qed
      with False show ?thesis by auto
    qed
  qed
qed

end
