(* ===== verification/Batch_Props.thy ===== *)
theory Batch_Props
  imports State_Reach Batch_Correct
begin

text \<open>
  The properties of the batch and tree paths, over reachable managers, with witnesses on
  the small manager of \<open>State_Reach\<close> after it has reserved forty tokens.
\<close>

section \<open>Row-major indexing\<close>

lemma concat_rows_nth:
  assumes "\<And>i. i < g \<Longrightarrow> length (f i) = n" and "i < g" and "j < n"
  shows "concat (map f [0..<g]) ! (i * n + j) = f i ! j" and "i * n + j < g * n"
proof -
  show "i * n + j < g * n"
  proof -
    have "i * n + j < Suc i * n" using assms(3) by simp
    also have "\<dots> \<le> g * n" using assms(2) by (intro mult_le_mono1) simp
    finally show ?thesis .
  qed
  have "length (concat (map f [0..<i])) = i * n"
    using length_concat_const [of "[0..<i]" f n] assms(1,2) by simp
  moreover have "[0..<g] = [0..<i] @ i # [Suc i..<g]"
    using assms(2) upt_add_eq_append [of 0 i "g - i"] by (simp add: upt_conv_Cons)
  ultimately show "concat (map f [0..<g]) ! (i * n + j) = f i ! j"
    using assms by (simp add: nth_append)
qed

lemma concat_seq_rows_nth:
  "i < length xs \<Longrightarrow> j < n \<Longrightarrow> (\<And>x. x \<in> set xs \<Longrightarrow> length (f x) = n) \<Longrightarrow> concat (map f xs) ! (i * n + j) = f (xs ! i) ! j"
proof (induction xs arbitrary: i)
  case (Cons x xs)
  show ?case
  proof (cases i)
    case (Suc i')
    with Cons show ?thesis by (simp add: nth_append)
  qed (use Cons.prems in \<open>simp add: nth_append\<close>)
qed simp

lemma concat_ragged_nth:
  "length seqs = length qs \<Longrightarrow> si < length seqs \<Longrightarrow> k < qs ! si \<Longrightarrow>
   concat (map (\<lambda>(q, n). map (f q) [0..<n]) (zip seqs qs)) ! (sum_list (take si qs) + k) = f (seqs ! si) k"
proof (induction seqs qs arbitrary: si rule: list_induct2)
  case (Cons q seqs n qs)
  show ?case
  proof (cases si)
    case (Suc i)
    with Cons show ?thesis by (simp add: nth_append add.assoc)
  qed (use Cons.prems in \<open>simp add: nth_append\<close>)
qed simp

lemma ragged_bound: "si < length (qs :: nat list) \<Longrightarrow> k < qs ! si \<Longrightarrow> sum_list (take si qs) + k < sum_list qs"
proof (induction qs arbitrary: si)
  case (Cons n qs)
  then show ?case by (cases si) auto
qed simp

lemma batch_slot_read:
  assumes "length seqs = length qs" and "gi < length (sm_groups m)" and "tok < sum_list qs"
  shows "bm_slot (batch_of m seqs qs po tree) gi tok = Some (slot_row m seqs qs gi ! tok)"
proof -
  note r = concat_rows_nth [of "length (sm_groups m)" "slot_row m seqs qs" "sum_list qs" gi tok]
  have "length (concat (map (slot_row m seqs qs) [0..<length (sm_groups m)])) = length (sm_groups m) * sum_list qs"
    using length_concat_const [of "[0..<length (sm_groups m)]" "slot_row m seqs qs" "sum_list qs"] assms(1) by simp
  with r assms show ?thesis by (simp add: bm_slot_def batch_of_def)
qed

lemma batch_block_read:
  assumes "gi < length (sm_groups m)" and "si < length seqs" and "b < sm_max_blocks m"
  shows "bm_block (batch_of m seqs qs po tree) gi si b = Some (table_cell m gi (seqs ! si) b)"
proof -
  let ?n = "length seqs * sm_max_blocks m" and ?j = "si * sm_max_blocks m + b"
  have row: "table_rows m seqs gi ! ?j = table_cell m gi (seqs ! si) b"
    unfolding table_rows_def by (subst concat_seq_rows_nth) (use assms in simp_all)
  have "?j < Suc si * sm_max_blocks m" using assms(3) by simp
  also have "\<dots> \<le> ?n" using assms(2) by (intro mult_le_mono1) simp
  finally have j: "?j < ?n" .
  have ix: "(gi * length seqs + si) * sm_max_blocks m + b = gi * ?n + ?j" by (simp add: algebra_simps)
  have "length (concat (map (table_rows m seqs) [0..<length (sm_groups m)])) = length (sm_groups m) * ?n"
    using length_concat_const [of "[0..<length (sm_groups m)]" "table_rows m seqs" ?n] by simp
  with concat_rows_nth [of "length (sm_groups m)" "table_rows m seqs" ?n gi ?j] j row assms show ?thesis
    by (simp add: bm_block_def batch_of_def ix del: mult_Suc)
qed

section \<open>Building a batch\<close>

text \<open>
  \<open>BatchMetaBuilder::build\<close> succeeds exactly when every field is present with the length its
  shape demands, no dimension is zero or overflows, the query lengths are positive and add
  up to the token count, and the tree (if any) has the token count, enough columns and no
  parent outside its own sequence; the batch then carries the builder's fields.
\<close>

theorem build_iff: "build b = Inr m \<longleftrightarrow> fields_of b m \<and> bm_ok m"
  by (rule build_Ok)

definition overlong_builder :: batch_meta_builder where
  "overlong_builder = (builder 1 1 1 1)\<lparr>bb_seq_ids := Some [0], bb_query_len := Some [2], bb_ctx_len := Some [0],
     bb_positions := Some (PerToken [0]), bb_slot_map := Some [0], bb_block_table := Some [0], bb_window_start := Some [0],
     bb_tree := Some \<lparr>tm_parents = [-1], tm_t_max = 2, tm_ancestors = [True, False]\<rparr>\<rparr>"

text \<open>
  A builder whose query lengths exceed the token count does not get its typed error when it
  also carries a tree of the declared token count: the loop over the tree's parents runs
  past their end and panics. Without a tree the same builder reports the mismatch.
\<close>

theorem build_overlong_query_panics:
  "build overlong_builder = Inl Panic \<and>
   build (overlong_builder\<lparr>bb_tree := None\<rparr>) = Inl (Problem (QueryTokenCount 1 2))"
  by code_simp

section \<open>Batches of a reachable manager\<close>

text \<open>
  C39. On a reachable manager with at least one group, building a batch succeeds exactly when the
  batch names distinct live sequences, every query is covered by its sequence's
  reservation, the total is within the cap, and explicit positions and the tree fit; the
  result is the declarative batch. It never panics.
\<close>

theorem batch_meta_iff:
  assumes "reachable m" and "sm_groups m \<noteq> []"
  shows "(batch_meta_with_options m seqs qs po tree = Inr bm \<longleftrightarrow>
      batch_request m seqs qs po tree \<and> bm = batch_of m seqs qs po tree) \<and>
    batch_meta_with_options m seqs qs po tree \<noteq> Inl (RustPanic s)"
  using batch_meta_eq(1) [OF reachable_inv [OF assms(1)], of seqs qs po tree bm]
    batch_meta_eq(2) [OF reachable_inv [OF assms(1)], of seqs qs po tree s] assms(2) by simp

lemma demo2_groups: "sm_groups demo2 \<noteq> []"
proof -
  have "length (sm_groups demo2) = 3" by code_simp
  then show ?thesis by auto
qed

lemma demo2_request:
  assumes "0 < n" and "n \<le> 40"
  shows "batch_request demo2 [0] [n] None None"
proof -
  have "ss_tail_len (the (sm_seqs demo2 0)) = 40" by code_simp
  with demo_live(2) assms show ?thesis by (auto simp: batch_request_def batch_live_def MAX_BATCH_TOKENS_HARD_def)
qed

lemma demo2_batch_of:
  "0 < n \<Longrightarrow> n \<le> 40 \<Longrightarrow> batch_meta_with_options demo2 [0] [n] None None = Inr (batch_of demo2 [0] [n] None None)"
  using batch_meta_eq(1) [OF reachable_inv [OF demo_reachable(3)], of "[0]" "[n]" None None] demo2_request [of n] demo2_groups by blast

theorem batch_meta_iff_witness:
  "batch_meta_with_options demo2 [0] [40] None None = Inr (batch_of demo2 [0] [40] None None)"
proof -
  have "batch_request demo2 [0] [40] None None" by (rule demo2_request) simp_all
  with batch_meta_iff [OF demo_reachable(3) demo2_groups, of "[0]" "[40]" None None] show ?thesis by blast
qed

text \<open>
  The slot map and the block table of a batch agree: the slot of the \<open>k\<close>th new token of a
  sequence in a paged group is lane \<open>(ctx + k) mod 32\<close> of the block that the sequence's table
  row names at index \<open>(ctx + k) div 32\<close>, and that cell is not the padding sentinel.
\<close>

theorem batch_slot_matches_block_table:
  assumes "reachable m" and "batch_meta_with_options m seqs qs po tree = Inr bm"
    and "gi < length (sm_groups m)" and "is_paged (lg_spec (sm_groups m ! gi))"
    and "si < length seqs" and "k < qs ! si" and "sm_seqs m (seqs ! si) = Some s"
  shows "\<exists>blk < BLOCK_TABLE_SENTINEL. bm_block bm gi si ((ss_ctx_len s + k) div 32) = Some blk \<and>
    bm_slot bm gi (sum_list (take si qs) + k) = Some (blk * 32 + (ss_ctx_len s + k) mod 32)"
proof -
  note inv = reachable_inv [OF assms(1)]
  have req: "batch_live m seqs qs" and bm: "bm = batch_of m seqs qs po tree"
    using batch_meta_eq(1) [OF inv] assms(2) by (auto simp: batch_request_def)
  then have len: "length seqs = length qs" and cov: "covered m (zip seqs qs)" by (simp_all add: batch_live_covered)
  let ?q = "seqs ! si" and ?p = "ss_ctx_len s + k"
  have "(?q, qs ! si) \<in> set (zip seqs qs)" using assms(5) len by (auto simp: in_set_zip)
  then obtain s' where s': "sm_seqs m ?q = Some s'" "qs ! si \<le> ss_tail_len s'" using cov by (auto simp: covered_def)
  with assms(7) have tail: "k < ss_tail_len s" using assms(6) by simp
  have bs: "batch_seq m ?q = s" "batch_ctx m ?q = ss_ctx_len s" using assms(7) by (simp_all add: batch_seq_def batch_ctx_def)
  have mem: "?p div 32 \<in> set (ss_indices s ! gi)"
    by (rule tail_mapped [OF sm_inv_seq [OF inv assms(7)] assms(3,4)]) (use tail in simp_all)
  have tok: "table_ok (sm_config m) (sm_groups m ! gi) gi s" using sm_inv_seq [OF inv assms(7)] assms(3) by (simp add: seq_ok_def)
  then have "dom (block_map s gi) = set (ss_indices s ! gi)" by (intro dom_block_map) (simp add: table_ok_def)
  with mem obtain blk where blk: "block_map s gi (?p div 32) = Some blk" by blast
  have lt: "?p div 32 < sm_max_blocks m" using tok assms(4) mem sm_inv_static(3) [OF inv] by (simp add: table_ok_def)
  have "bm_block bm gi si (?p div 32) = Some blk"
    unfolding bm using batch_block_read [OF assms(3,5) lt] blk by (simp add: table_cell_def bs)
  moreover have "bm_slot bm gi (sum_list (take si qs) + k) = Some (blk * 32 + ?p mod 32)"
  proof -
    have "slot_row m seqs qs gi ! (sum_list (take si qs) + k) = slot_value m gi ?q (batch_ctx m ?q + k)"
      unfolding slot_row_def by (rule concat_ragged_nth [OF len assms(5,6)])
    with batch_slot_read [OF len assms(3) ragged_bound, of si k po tree] assms(5,6) len blk bs show ?thesis
      unfolding bm by (simp add: slot_value_def)
  qed
  moreover have "blk < BLOCK_TABLE_SENTINEL"
    using block_map_id_bound [OF inv assms(7,3) blk] by (simp add: MAX_SLOT_BLOCKS_def BLOCK_TABLE_SENTINEL_def u32_max_def)
  ultimately show ?thesis by blast
qed

theorem batch_slot_matches_block_table_witness:
  "\<exists>blk < BLOCK_TABLE_SENTINEL.
    bm_block (batch_of demo2 [0] [40] None None) 1 0 ((ss_ctx_len (the (sm_seqs demo2 0)) + 33) div 32) = Some blk \<and>
    bm_slot (batch_of demo2 [0] [40] None None) 1 (sum_list (take 0 [40]) + 33) =
      Some (blk * 32 + (ss_ctx_len (the (sm_seqs demo2 0)) + 33) mod 32)"
proof (rule batch_slot_matches_block_table [OF demo_reachable(3) demo2_batch_of [of 40]])
  show "1 < length (sm_groups demo2)" by code_simp
  show "is_paged (lg_spec (sm_groups demo2 ! 1))" by code_simp
  show "sm_seqs demo2 ([0] ! 0) = Some (the (sm_seqs demo2 0))" using demo_live(2) by simp
qed simp_all

lemma distinct_token_pairs:
  "length seqs = length qs \<Longrightarrow> distinct seqs \<Longrightarrow>
   distinct (concat (map (\<lambda>(q, n). map (\<lambda>k. (q, f q + k)) [0..<n]) (zip seqs (qs :: nat list))))"
proof (induction seqs qs rule: list_induct2)
  case (Cons q seqs n qs)
  have "inj_on (\<lambda>k. (q, f q + k)) {0..<n}" by (rule inj_onI) simp
  with Cons show ?case by (auto simp: distinct_map dest: set_zip_leftD)
qed simp

lemma slot_value_inj:
  assumes inv: "sm_inv m" and gi: "gi < length (sm_groups m)"
    and q: "sm_seqs m q = Some s" "block_map s gi (p div 32) = Some i"
    and q': "sm_seqs m q' = Some s'" "block_map s' gi (p' div 32) = Some i'"
    and eq: "slot_value m gi q p = slot_value m gi q' p'"
  shows "(q, p) = (q', p')"
proof -
  have e: "i * 32 + p mod 32 = i' * 32 + p' mod 32" using eq q q' by (simp add: slot_value_def batch_seq_def)
  then have "(i * 32 + p mod 32) div 32 = (i' * 32 + p' mod 32) div 32" "(i * 32 + p mod 32) mod 32 = (i' * 32 + p' mod 32) mod 32" by simp_all
  then have "i = i'" and m: "p mod 32 = p' mod 32" by simp_all
  with block_map_inj [OF inv gi q q'(1)] q'(2) have "q = q'" "p div 32 = p' div 32" by auto
  with m show ?thesis by (metis div_mult_mod_eq)
qed

text \<open>
  Within a batch the slots of a paged group are pairwise distinct, so that the kernels of one
  step never write two tokens to the same cache row.
\<close>

theorem batch_slots_distinct:
  assumes "reachable m" and "batch_meta_with_options m seqs qs po tree = Inr bm"
    and "gi < length (sm_groups m)" and "is_paged (lg_spec (sm_groups m ! gi))"
  shows "distinct (map (bm_slot bm gi) [0..<bm_t bm]) \<and> None \<notin> set (map (bm_slot bm gi) [0..<bm_t bm])"
proof -
  note inv = reachable_inv [OF assms(1)]
  have live: "batch_live m seqs qs" and bm: "bm = batch_of m seqs qs po tree"
    using batch_meta_eq(1) [OF inv] assms(2) by (auto simp: batch_request_def)
  then have len: "length seqs = length qs" and cov: "covered m (zip seqs qs)" and d: "distinct seqs" by (simp_all add: batch_live_covered)
  let ?ps = "concat (map (\<lambda>(q, n). map (\<lambda>k. (q, batch_ctx m q + k)) [0..<n]) (zip seqs qs))"
  have row: "slot_row m seqs qs gi = map (\<lambda>(q, p). slot_value m gi q p) ?ps"
    by (simp add: slot_row_def map_concat comp_def case_prod_unfold)
  have mapped: "\<exists>s i. sm_seqs m q = Some s \<and> block_map s gi (p div 32) = Some i" if "(q, p) \<in> set ?ps" for q p
  proof -
    from that obtain n k where n: "(q, n) \<in> set (zip seqs qs)" and k: "k < n" "p = batch_ctx m q + k" by auto
    obtain s where s: "sm_seqs m q = Some s" "n \<le> ss_tail_len s" "batch_ctx m q = ss_ctx_len s"
      by (rule covered_seq [OF inv cov n]) blast
    have "p div 32 \<in> set (ss_indices s ! gi)"
      by (rule tail_mapped [OF sm_inv_seq [OF inv s(1)] assms(3,4)]) (use s k in simp_all)
    moreover have "dom (block_map s gi) = set (ss_indices s ! gi)"
      by (rule dom_block_map) (use seq_ok_tables [OF sm_inv_seq [OF inv s(1)]] assms(3) in \<open>simp add: tables_ok_def\<close>)
    ultimately show ?thesis using s(1) by blast
  qed
  have "inj_on (\<lambda>(q, p). slot_value m gi q p) (set ?ps)"
  proof (rule inj_onI, clarify)
    fix q p q' p' assume a: "(q, p) \<in> set ?ps" "(q', p') \<in> set ?ps" and e: "slot_value m gi q p = slot_value m gi q' p'"
    obtain s i where "sm_seqs m q = Some s" "block_map s gi (p div 32) = Some i" using mapped [OF a(1)] by blast
    moreover obtain s' i' where "sm_seqs m q' = Some s'" "block_map s' gi (p' div 32) = Some i'" using mapped [OF a(2)] by blast
    ultimately show "q = q' \<and> p = p'" using slot_value_inj [OF inv assms(3) _ _ _ _ e] by blast
  qed
  then have "distinct (slot_row m seqs qs gi)"
    unfolding row distinct_map using distinct_token_pairs [OF len d] by blast
  moreover have "map (bm_slot bm gi) [0..<bm_t bm] = map Some (slot_row m seqs qs gi)"
  proof (rule nth_equalityI)
    show "length (map (bm_slot bm gi) [0..<bm_t bm]) = length (map Some (slot_row m seqs qs gi))"
      using len by (simp add: bm batch_of_def)
  next
    fix i assume "i < length (map (bm_slot bm gi) [0..<bm_t bm])"
    then have i: "i < sum_list qs" by (simp add: bm batch_of_def)
    have "bm_t bm = sum_list qs" by (simp add: bm batch_of_def)
    then show "map (bm_slot bm gi) [0..<bm_t bm] ! i = map Some (slot_row m seqs qs gi) ! i"
      using i batch_slot_read [OF len assms(3) i, of po tree] len by (simp add: bm)
  qed
  ultimately show ?thesis by (auto simp: distinct_map)
qed

theorem batch_slots_distinct_witness:
  "distinct (map (bm_slot (batch_of demo2 [0] [40] None None) 0) [0..<bm_t (batch_of demo2 [0] [40] None None)])"
proof -
  have "0 < length (sm_groups demo2)" "is_paged (lg_spec (sm_groups demo2 ! 0))" by code_simp+
  from batch_slots_distinct [OF demo_reachable(3) demo2_batch_of [of 40] this] show ?thesis by simp
qed

text \<open>
  C40. The allocation-free fill against the owned builder, on every reachable manager and every workspace. On a manager with a group and
  with the capacity, the fill succeeds on exactly the same requests and the workspace then holds the very batch the builder returns.
  Without the capacity it fails. On a manager without groups the two differ: the builder refuses every request, the fill accepts
  each well-formed one that fits. Whenever the fill fails, no tensor of the workspace has changed.
\<close>

theorem hot_fill_equals_owned:
  fixes seqs qs po tree ws
  assumes "reachable m"
  defines "owned \<equiv> batch_meta_with_options m seqs qs po tree" and "filled \<equiv> fill_batch_meta_with_options m seqs qs po tree ws"
  shows "(sm_groups m \<noteq> [] \<and> ws_fits m seqs qs po ws \<longrightarrow>
      (\<forall>bm. owned = Inr bm \<longleftrightarrow> (\<exists>ws'. filled = (None, ws') \<and> ws_batch ws' = bm)) \<and> (isl owned \<longleftrightarrow> fst filled \<noteq> None)) \<and>
    (\<not> ws_fits m seqs qs po ws \<longrightarrow> fst filled \<noteq> None) \<and>
    (sm_groups m = [] \<longrightarrow> isl owned \<and>
      (batch_request m seqs qs po tree \<and> ws_fits m seqs qs po ws \<longleftrightarrow> (\<exists>ws'. filled = (None, ws') \<and> ws_batch ws' = batch_of m seqs qs po tree))) \<and>
    (fst filled \<noteq> None \<longrightarrow> (\<exists>v. snd filled = ws\<lparr>ws_id_scratch := v\<rparr>))"
proof -
  note fill = fill_batch_meta_cases [OF reachable_inv [OF assms(1)], of seqs qs po tree ws, folded filled_def]
  have own: "owned = Inr bm \<longleftrightarrow> batch_request m seqs qs po tree \<and> sm_groups m \<noteq> [] \<and> bm = batch_of m seqs qs po tree" for bm
    unfolding owned_def by (rule batch_meta_eq(1) [OF reachable_inv [OF assms(1)]])
  then have refused: "isl owned \<longleftrightarrow> \<not> (batch_request m seqs qs po tree \<and> sm_groups m \<noteq> [])"
    by (cases owned) auto
  show ?thesis
  proof (cases "batch_request m seqs qs po tree \<and> ws_fits m seqs qs po ws")
    case True
    then obtain ws' where f: "filled = (None, ws')" "ws_batch ws' = batch_of m seqs qs po tree" using fill by auto
    show ?thesis unfolding own refused f(1) using True f(2) by auto
  next
    case False
    then obtain e v where f: "filled = (Some e, ws\<lparr>ws_id_scratch := v\<rparr>)" using fill by presburger
    have "snd filled = ws\<lparr>ws_id_scratch := v\<rparr>" "fst filled = Some e" "\<And>ws'. filled \<noteq> (None, ws')" by (simp_all add: f)
    then show ?thesis unfolding own refused using False by blast
  qed
qed

definition demo_ws :: batch_workspace where
  "demo_ws = projr (try_with_capacity_and_tree (\<lambda>_ _. True) 3 2 64 4 8 8)"

definition demo_small_ws :: batch_workspace where
  "demo_small_ws = projr (try_with_capacity_and_tree (\<lambda>_ _. True) 3 2 16 4 8 8)"

lemma demo_ws_fits: "ws_fits demo2 [0] [40] None demo_ws" "\<not> ws_fits demo2 [0] [40] None demo_small_ws"
  by code_simp+

text \<open>A manager of no layers, with one sequence that has reserved a position.\<close>

definition bare0 :: state_manager where
  "bare0 = projr (sm_new (\<lambda>_ _. True) demo_config [] 0)"

definition bare :: state_manager where
  "bare = snd (reserve (snd (new_seq bare0 [7])) 0 1)"

lemma bare_reachable: "reachable bare" "sm_groups bare = []"
proof -
  have "isl (sm_new (\<lambda>_ _. True) demo_config [] 0) = False" by code_simp
  then have "sm_new (\<lambda>_ _. True) demo_config [] 0 = Inr bare0" by (cases "sm_new (\<lambda>_ _. True) demo_config [] 0") (simp_all add: bare0_def)
  then have "reachable bare0" by (intro reachable_init [OF constructed.from_specs]) simp_all
  then show "reachable bare" unfolding bare_def by (intro reachable_ops)
  have "length (sm_groups bare) = 0" by code_simp
  then show "sm_groups bare = []" by simp
qed

lemma bare_request: "batch_request bare [0] [1] None None" "ws_fits bare [0] [1] None demo_ws"
proof -
  have "sm_seqs bare 0 = Some (the (sm_seqs bare 0))" by (rule liveI) code_simp
  moreover have "ss_tail_len (the (sm_seqs bare 0)) = 1" by code_simp
  ultimately show "batch_request bare [0] [1] None None" by (auto simp: batch_request_def batch_live_def MAX_BATCH_TOKENS_HARD_def)
qed code_simp

theorem hot_fill_equals_owned_witness:
  "(\<exists>ws'. fill_batch_meta_with_options demo2 [0] [40] None None demo_ws = (None, ws') \<and>
      ws_batch ws' = batch_of demo2 [0] [40] None None) \<and>
    (\<exists>v. snd (fill_batch_meta_with_options demo2 [0] [40] None None demo_small_ws) = demo_small_ws\<lparr>ws_id_scratch := v\<rparr>) \<and>
    isl (batch_meta_with_options bare [0] [1] None None) \<and> fst (fill_batch_meta_with_options bare [0] [1] None None demo_ws) = None"
proof (intro conjI)
  show "\<exists>ws'. fill_batch_meta_with_options demo2 [0] [40] None None demo_ws = (None, ws') \<and> ws_batch ws' = batch_of demo2 [0] [40] None None"
    using hot_fill_equals_owned [OF demo_reachable(3), of "[0]" "[40]" None demo_ws None] demo2_groups demo_ws_fits(1) demo2_batch_of [of 40] by auto
  show "\<exists>v. snd (fill_batch_meta_with_options demo2 [0] [40] None None demo_small_ws) = demo_small_ws\<lparr>ws_id_scratch := v\<rparr>"
    using hot_fill_equals_owned [OF demo_reachable(3), of "[0]" "[40]" None demo_small_ws None] demo_ws_fits(2) by blast
  note bare = hot_fill_equals_owned [OF bare_reachable(1), of "[0]" "[1]" None demo_ws None]
  show "isl (batch_meta_with_options bare [0] [1] None None)" using bare bare_reachable(2) by blast
  show "fst (fill_batch_meta_with_options bare [0] [1] None None demo_ws) = None"
    using bare bare_reachable(2) bare_request by (metis fst_conv)
qed

text \<open>
  The verify step with borrowed tree slices agrees with the owned tree path: given the
  capacity, the fill succeeds exactly when \<open>TreeMask::new\<close> accepts the slices and the owned
  builder accepts the batch with that mask; the workspace then holds the same tensors and
  its tree view is the input. A failure leaves every tensor as it was.
\<close>

theorem hot_tree_fill_equals_owned:
  assumes "reachable m" and "sm_groups m \<noteq> []" and "ws_fits m seqs qs po ws" and "tree_room ti ws"
    and "length (ti_parents ti) < 2 ^ 31"
  shows "if \<exists>tm bm. tree_mask_new (ti_parents ti) (ti_t_max ti) (ti_ancestors ti) = Inr tm \<and>
         batch_meta_with_options m seqs qs po (Some tm) = Inr bm
    then \<exists>ws' bm. fill_batch_meta_with_options_and_tree_input m seqs qs po (Some ti) ws = (None, ws') \<and>
         batch_meta_with_options m seqs qs po (Some (mask_of ti)) = Inr bm \<and>
         ws_batch ws' = bm\<lparr>bm_tree := None\<rparr> \<and> get_tree_view ws' = Some (view_of ti)
    else \<exists>e ws'. fill_batch_meta_with_options_and_tree_input m seqs qs po (Some ti) ws = (Some e, ws') \<and> ws_batch ws' = ws_batch ws"
proof -
  note inv = reachable_inv [OF assms(1)]
  have tm: "tree_mask_new (ti_parents ti) (ti_t_max ti) (ti_ancestors ti) = Inr tm \<longleftrightarrow>
      tree_ok (ti_parents ti) (ti_t_max ti) (length (ti_ancestors ti)) \<and> tm = mask_of ti" for tm
    using tree_problems_nil [OF assms(5)] by (auto simp: tree_mask_new_def Let_def mask_of_def)
  have c: "(\<exists>tm bm. tree_mask_new (ti_parents ti) (ti_t_max ti) (ti_ancestors ti) = Inr tm \<and>
      batch_meta_with_options m seqs qs po (Some tm) = Inr bm) \<longleftrightarrow>
    batch_request m seqs qs po None \<and> ws_fits m seqs qs po ws \<and> tree_request qs (Some ti) ws"
    unfolding tm batch_meta_eq(1) [OF inv] using assms(2-4) by (auto simp: batch_request_def tree_request_def)
  have "batch_meta_with_options m seqs qs po (Some (mask_of ti)) = Inr (batch_of m seqs qs po (Some (mask_of ti)))"
    if "batch_request m seqs qs po None" "tree_request qs (Some ti) ws"
    using batch_meta_eq(1) [OF inv, of seqs qs po "Some (mask_of ti)"] that assms(2) by (simp add: batch_request_def tree_request_def)
  moreover have "batch_of m seqs qs po None = (batch_of m seqs qs po (Some (mask_of ti)))\<lparr>bm_tree := None\<rparr>"
    by (simp add: batch_of_def)
  ultimately show ?thesis
    unfolding c using fill_tree_input_cases [OF inv, of seqs qs po ws "Some ti"] by (auto split: if_splits)
qed

definition demo_tree :: tree_input where
  "demo_tree = \<lparr>ti_parents = [-1, 0, 0], ti_t_max = 3, ti_ancestors = [True, False, False, True, True, False, True, False, True]\<rparr>"

theorem hot_tree_fill_equals_owned_witness:
  "\<exists>ws' bm. fill_batch_meta_with_options_and_tree_input demo2 [0] [3] None (Some demo_tree) demo_ws = (None, ws') \<and>
     batch_meta_with_options demo2 [0] [3] None (Some (mask_of demo_tree)) = Inr bm \<and>
     ws_batch ws' = bm\<lparr>bm_tree := None\<rparr> \<and> get_tree_view ws' = Some (view_of demo_tree)"
proof -
  have fit: "ws_fits demo2 [0] [3] None demo_ws" "tree_room demo_tree demo_ws" by code_simp+
  have small: "length (ti_parents demo_tree) < 2 ^ 31" by code_simp
  have "tree_mask_new (ti_parents demo_tree) (ti_t_max demo_tree) (ti_ancestors demo_tree) = Inr (mask_of demo_tree)" by code_simp
  moreover have "tree_fits (mask_of demo_tree) 3 [3]" by code_simp
  then have "batch_request demo2 [0] [3] None (Some (mask_of demo_tree))" using demo2_request [of 3] by (simp add: batch_request_def)
  then obtain bm where "batch_meta_with_options demo2 [0] [3] None (Some (mask_of demo_tree)) = Inr bm"
    using batch_meta_eq(1) [OF reachable_inv [OF demo_reachable(3)]] demo2_groups by blast
  ultimately show ?thesis
    using hot_tree_fill_equals_owned [OF demo_reachable(3) demo2_groups fit small] by (auto split: if_splits)
qed

section \<open>Trees\<close>

text \<open>
  \<open>TreeMask::new\<close> accepts exactly the well-formed trees: the mask has \<open>T * t_max\<close> entries, every
  parent is a root marker or another token, and following parents from any token ends at a
  root. \<open>validate_tree_slices\<close> with enough scratch gives the same verdict and the same error.
\<close>

theorem tree_checks_exact:
  assumes "length parents < 2 ^ 31" and "length parents \<le> length cycle_state" and "length parents \<le> path_capacity"
  shows "((\<exists>tm. tree_mask_new parents t_max ancestors = Inr tm) \<longleftrightarrow> tree_ok parents t_max (length ancestors)) \<and>
    (case tree_mask_new parents t_max ancestors of
       Inr _ \<Rightarrow> validate_tree_slices parents t_max ancestors cycle_state path_capacity = Inr ()
     | Inl e \<Rightarrow> validate_tree_slices parents t_max ancestors cycle_state path_capacity = Inl e)"
proof -
  let ?ps = "tree_problems parents t_max (length ancestors)"
  have v: "validate_tree_slices parents t_max ancestors cycle_state path_capacity = from_problems ?ps"
    using assms(2,3) by (simp add: validate_tree_slices_def Let_def)
  have nil: "?ps = [] \<longleftrightarrow> tree_ok parents t_max (length ancestors)" by (rule tree_problems_nil [OF assms(1)])
  show ?thesis
    unfolding v tree_mask_new_def Let_def nil [symmetric]
    by (cases ?ps rule: list.exhaust; cases "tl ?ps") (auto simp: from_problems_def)
qed

theorem tree_checks_exact_witness:
  "validate_tree_slices [-1, 2, 1] 1 [True, True, True] [7, 7, 7, 7] 3 = Inl (TreeCycle 1)"
proof -
  have "tree_mask_new [-1, 2, 1] 1 [True, True, True] = Inl (TreeCycle 1)" by code_simp
  with tree_checks_exact [of "[-1, 2, 1]" "[7, 7, 7, 7]" 3 1 "[True, True, True]"] show ?thesis by simp
qed

text \<open>
  A reported cycle is real and canonical: the reported token reaches itself by following
  parents, and it is the lowest token of its cycle.
\<close>

theorem tree_cycle_is_least:
  assumes "TreeCycle c \<in> set (tree_problems parents t_max anc_len)"
  shows "(c, c) \<in> (edges parents)\<^sup>+ \<and> (\<forall>d. (c, d) \<in> (edges parents)\<^sup>+ \<longrightarrow> c \<le> d)"
  using tree_problems_cycle [OF assms] by (simp add: on_cycle_def)

theorem tree_cycle_is_least_witness: "(1, 1) \<in> (edges [3, 2, 1, -1])\<^sup>+"
proof -
  have "TreeCycle 1 \<in> set (tree_problems [3, 2, 1, -1] 1 4)" by code_simp
  from tree_cycle_is_least [OF this] show ?thesis by blast
qed

end
