(* ===== verification/Step_Bucket.thy ===== *)
theory Step_Bucket
  imports State_Error "HOL-Library.Product_Lexorder"
begin

text \<open>
  The shape buckets and the step-graph key of \<open>crates/r9v-ir/src/graph.rs\<close> (\<open>bucket_s\<close>,
  \<open>bucket_t_dec\<close>, \<open>bucket_t_pre\<close>, \<open>bucket_step\<close>, \<open>StepGraphKey\<close>). A count is rounded up to the
  next of thirteen powers of two; zero and counts above 4096 are refused, all axes at
  once. Keys are ordered lexicographically by their fields, as the derived \<open>Ord\<close> of the
  source orders them.
\<close>

section \<open>Buckets\<close>

definition BUCKET_SIZES :: "nat list" where
  "BUCKET_SIZES = [1, 2, 4, 8, 16, 32, 64, 128, 256, 512, 1024, 2048, 4096]"

definition bucket_s :: "nat \<Rightarrow> (ir_error, nat) result" where
  "bucket_s s =
     (if s = 0 then Inl (InvalidBucket ''S'' s)
      else ok_or (BucketExceeded ''S'' s 4096) (List.find (\<lambda>b. s \<le> b) BUCKET_SIZES))"

definition bucket_t_dec :: "nat \<Rightarrow> (ir_error, nat) result" where
  "bucket_t_dec t_dec =
     (if t_dec = 0 then Inl (InvalidBucket ''T_dec'' t_dec)
      else ok_or (BucketExceeded ''T_dec'' t_dec 4096) (List.find (\<lambda>b. t_dec \<le> b) BUCKET_SIZES))"

definition bucket_t_pre :: "nat \<Rightarrow> (ir_error, nat) result" where
  "bucket_t_pre t_pre =
     (if t_pre = 0 then Inr 0
      else ok_or (BucketExceeded ''T_pre'' t_pre 4096) (List.find (\<lambda>b. t_pre \<le> b) BUCKET_SIZES))"

definition collect :: "(ir_error, nat) result \<Rightarrow> ir_error list \<Rightarrow> ir_error list \<times> nat" where
  "collect r problems = (case r of Inr v \<Rightarrow> (problems, v) | Inl e \<Rightarrow> (problems @ [e], 0))"

definition bucket_step :: "nat \<Rightarrow> nat \<Rightarrow> nat \<Rightarrow> (ir_error, nat \<times> nat \<times> nat) result" where
  "bucket_step s t_dec t_pre =
     (let (p1, b_s) = collect (bucket_s s) [];
          (p2, b_dec) = collect (bucket_t_dec t_dec) p1;
          (p3, b_pre) = collect (bucket_t_pre t_pre) p2
      in bind_r (from_problems p3) (\<lambda>_. Inr (b_s, b_dec, b_pre)))"

section \<open>Step-graph keys\<close>

datatype step_graph_key =
  StepGraphKey (key_plan_id: nat) (key_rank: nat) (key_s: nat) (key_t_dec: nat) (key_t_pre: nat) (key_segment: nat)

definition key_tuple :: "step_graph_key \<Rightarrow> nat \<times> nat \<times> nat \<times> nat \<times> nat \<times> nat" where
  "key_tuple k = (key_plan_id k, key_rank k, key_s k, key_t_dec k, key_t_pre k, key_segment k)"

lemma key_tuple_inj: "key_tuple k = key_tuple k' \<longleftrightarrow> k = k'"
  by (cases k; cases k') (simp add: key_tuple_def)

instantiation step_graph_key :: linorder
begin

definition "k \<le> k' \<longleftrightarrow> key_tuple k \<le> key_tuple k'"
definition "k < k' \<longleftrightarrow> key_tuple k < key_tuple k'"

instance
  by standard (auto simp: less_eq_step_graph_key_def less_step_graph_key_def simp flip: key_tuple_inj)

end

definition key_axis :: "string \<Rightarrow> bool \<Rightarrow> nat \<Rightarrow> ir_error list" where
  "key_axis axis zero_ok v =
     (if v > 4096 then [BucketExceeded axis v 4096]
      else if \<not> (zero_ok \<and> v = 0) \<and> v \<notin> set BUCKET_SIZES then [InvalidBucket axis v] else [])"

definition key_new :: "nat \<Rightarrow> nat \<Rightarrow> nat \<Rightarrow> nat \<Rightarrow> nat \<Rightarrow> nat \<Rightarrow> (ir_error, step_graph_key) result" where
  "key_new plan_id rank s t_dec t_pre segment =
     bind_r (from_problems (key_axis ''S'' False s @ key_axis ''T_dec'' False t_dec @ key_axis ''T_pre'' True t_pre))
       (\<lambda>_. Inr (StepGraphKey plan_id rank s t_dec t_pre segment))"

definition from_unbucketed :: "nat \<Rightarrow> nat \<Rightarrow> nat \<Rightarrow> nat \<Rightarrow> nat \<Rightarrow> nat \<Rightarrow> (ir_error, step_graph_key) result" where
  "from_unbucketed plan_id rank raw_s raw_t_dec raw_t_pre segment =
     bind_r (bucket_step raw_s raw_t_dec raw_t_pre) (\<lambda>(s, t_dec, t_pre).
       Inr (StepGraphKey plan_id rank s t_dec t_pre segment))"

section \<open>Facts\<close>

lemma bucket_sizes_set: "set BUCKET_SIZES = {2 ^ k | k. k \<le> 12}"
proof -
  have "{2 ^ k | k. k \<le> (12::nat)} = (\<lambda>k. 2 ^ k :: nat) ` {..12}" by auto
  also have "{..12::nat} = set [0..<13]" by auto
  finally show ?thesis by (simp add: BUCKET_SIZES_def upt_rec)
qed

lemma bucket_sizes_le: "b \<in> set BUCKET_SIZES \<Longrightarrow> b \<le> 4096"
  by (simp add: BUCKET_SIZES_def) presburger

text \<open>The search finds the least size that holds the count.\<close>

lemma find_sorted:
  "sorted xs \<Longrightarrow> List.find (\<lambda>b. v \<le> b) xs = Some b \<longleftrightarrow> b \<in> set xs \<and> v \<le> b \<and> (\<forall>c \<in> set xs. v \<le> c \<longrightarrow> b \<le> c)"
  by (induction xs) (auto dest: antisym)

lemma find_bucket:
  "List.find (\<lambda>b. v \<le> b) BUCKET_SIZES = Some b \<longleftrightarrow>
     b \<in> set BUCKET_SIZES \<and> v \<le> b \<and> (\<forall>c \<in> set BUCKET_SIZES. v \<le> c \<longrightarrow> b \<le> c)"
  by (rule find_sorted) (simp add: BUCKET_SIZES_def)

lemma find_bucket_total: "v \<le> 4096 \<Longrightarrow> \<exists>b. List.find (\<lambda>b. v \<le> b) BUCKET_SIZES = Some b"
  by (simp add: BUCKET_SIZES_def)

lemma bucket_step_unit:
  assumes "t_pre \<le> 4096"
  shows "\<exists>b. bucket_step 1 1 t_pre = Inr (1, 1, b) \<and> (b = 0 \<longleftrightarrow> t_pre = 0) \<and> t_pre \<le> b"
proof (cases "t_pre = 0")
  case True
  then show ?thesis by (simp add: bucket_step_def bucket_s_def bucket_t_dec_def bucket_t_pre_def BUCKET_SIZES_def collect_def
      from_problems_def)
next
  case False
  obtain b where b: "List.find (\<lambda>b. t_pre \<le> b) BUCKET_SIZES = Some b" using find_bucket_total [OF assms] by blast
  then have "t_pre \<le> b" unfolding find_bucket by simp
  then show ?thesis using False b
    by (simp add: bucket_step_def bucket_s_def bucket_t_dec_def bucket_t_pre_def collect_def from_problems_def)
       (simp add: BUCKET_SIZES_def)
qed

text \<open>Bucketing raw counts gives a key the checked constructor accepts.\<close>

lemma from_unbucketed_valid:
  assumes "from_unbucketed p r s d t g = Inr k"
  shows "key_new p r (key_s k) (key_t_dec k) (key_t_pre k) g = Inr k"
proof -
  have ax: "key_axis a z b = []" if "List.find (\<lambda>b. v \<le> b) BUCKET_SIZES = Some b" for a z b v
    using that bucket_sizes_le [of b] unfolding find_bucket by (simp add: key_axis_def)
  obtain bs bd bt where b: "bucket_step s d t = Inr (bs, bd, bt)"
    and k: "k = StepGraphKey p r bs bd bt g"
    using assms by (auto simp: from_unbucketed_def bind_r_eq_Inr)
  have c: "collect r0 ps = ([], v) \<longleftrightarrow> ps = [] \<and> r0 = Inr v" for r0 ps v
    by (auto simp: collect_def split: sum.splits)
  from b obtain "bucket_s s = Inr bs" "bucket_t_dec d = Inr bd" "bucket_t_pre t = Inr bt"
    by (auto simp: bucket_step_def Let_def bind_r_eq_Inr c split: prod.splits)
  then have "key_axis ''S'' False bs = []" "key_axis ''T_dec'' False bd = []" "key_axis ''T_pre'' True bt = []"
    using ax [of s bs] ax [of d bd] ax [of t bt]
    by (auto simp: bucket_s_def bucket_t_dec_def bucket_t_pre_def key_axis_def [of _ True 0] split: if_splits)
  then show ?thesis by (simp add: key_new_def k from_problems_def)
qed

end
