(* ===== verification/Sched_Error.thy ===== *)
theory Sched_Error
  imports Step_Bucket
begin

text \<open>
  \<open>SchedError\<close> of \<open>crates/r9v-sched/src/error.rs\<close>. Messages the source renders with \<open>format!\<close>
  are structured values: one constructor per message with the numbers it prints. The operator
  identifiers are those of the kernel registry (\<open>crates/r9v-registry/src/types.rs\<close>). The
  registry's own errors and the device's failure texts are opaque strings.

  An operation that can also panic returns a \<open>fate\<close>: its value, its error, or the place
  of the panic.
\<close>

datatype sched_problem =
    EmptyPrompt
  | ZeroMaxTokens
  | InvalidSamplingParam ir_error
  | PrefillMinChunkZero
  | PrefillMaxBelowMin nat nat
  | MaxSeqsNotOne nat
  | KMaxNotZero nat
  | VocabZero
  | ManualBudgetInvalid f32
  | MinAcceptInvalid f32
  | MaxOutstandingZero

datatype op_id =
    Op_EmbedGather | Op_NgramGather | Op_QuantAct | Op_Cast | Op_Copy | Op_GatherRows
  | Op_ScatterAddRows | Op_Split | Op_Concat | Op_Norm | Op_ResidualAdd | Op_ActMul
  | Op_Activation | Op_LogitSoftcap | Op_Rope | Op_Matmul | Op_MoeRoute | Op_MoeFfn
  | Op_StateWriteKv | Op_Attention | Op_CausalConv1d | Op_LinearAttnScan | Op_LogitsPostprocess | Op_Sample
  | Op_Verify | Op_AllReduce | Op_AllGather | Op_ReduceScatter | Op_AllToAll | Op_Send
  | Op_Recv | Op_Barrier

datatype capture_reason =
    ProgramEmpty
  | ProgramLacksSample
  | ResolveFailed op_id string string
  | MissingArgsTemplate op_id string
  | MissingWorkspaceSlot op_id nat
  | UnalignedWorkspaceSlot op_id nat
  | ArgsBlobUndersized op_id nat nat nat
  | ZeroLaunches

datatype detok_detail =
    TokenExceedsByte nat
  | InvalidStartByte nat
  | ExpectedContinuation nat
  | InvalidUtf8 "nat list"
  | BufferOverflow nat
  | OtherDetok string

datatype exec_detail =
    DeviceFault string
  | EventCount nat nat
  | MissingEvent nat nat
  | EventStepMismatch nat
  | NonMonotonicEvents nat
  | WrongEvent nat nat
  | AcceptLenContract nat nat nat nat bool

datatype sched_error =
    SchedState state_error
  | SchedRegistry string
  | SchedIr ir_error
  | InvalidRequest "sched_problem list"
  | ArithmeticOverflow string "nat list"
  | ArenaOverflow nat nat nat
  | SequenceNotFound nat
  | BudgetRefusal f32 f32 f32
  | GraphCaptureFailed step_graph_key capture_reason
  | DetokenizeError detok_detail
  | ExecutionFailed exec_detail
  | InvalidCost string f32
  | CapacityExceeded nat nat
  | StaleStep "nat option" nat
  | Internal string

type_synonym 'a sched_result = "(sched_error, 'a) result"

datatype 'a fate = Done 'a | Failed sched_error | Panicked string

text \<open>The \<open>?\<close> on a nested error: the \<open>#[from]\<close> conversions.\<close>

definition from_state :: "(state_error, 'a) result \<Rightarrow> 'a sched_result" where
  "from_state r = (case r of Inl e \<Rightarrow> Inl (SchedState e) | Inr a \<Rightarrow> Inr a)"

definition from_ir :: "(ir_error, 'a) result \<Rightarrow> 'a sched_result" where
  "from_ir r = (case r of Inl e \<Rightarrow> Inl (SchedIr e) | Inr a \<Rightarrow> Inr a)"

lemma from_nested_simps [simp]:
  "from_state (Inl e) = Inl (SchedState e)" "from_state (Inr a) = Inr a"
  "from_ir (Inl e') = Inl (SchedIr e')" "from_ir (Inr b) = Inr b"
  by (simp_all add: from_state_def from_ir_def)

lemma from_nested_Inr [simp]: "from_state r = Inr a \<longleftrightarrow> r = Inr a" "from_ir r' = Inr b \<longleftrightarrow> r' = Inr b"
  by (simp_all add: from_state_def from_ir_def split: sum.splits)

end
