(* ===== verification/Sched_Arena.thy ===== *)
theory Sched_Arena
  imports Sched_Error "HOL-Library.Word"
begin

text \<open>
  The scratch workspace arena of \<open>crates/r9v-sched/src/arena.rs\<close>: a bump allocator whose
  offsets are aligned to 256 bytes with the mask arithmetic of the source on 64-bit words,
  the requirement check and the growth that starts a new arena generation.
\<close>

unbundle bit_operations_syntax

section \<open>The arena\<close>

definition WORKSPACE_ALIGNMENT :: nat where "WORKSPACE_ALIGNMENT = 256"

record workspace_arena =
  wa_rank :: nat
  wa_capacity_bytes :: nat
  wa_allocated_bytes :: nat
  wa_peak_bytes :: nat
  wa_generation :: nat

definition arena_new :: "nat \<Rightarrow> nat \<Rightarrow> workspace_arena" where
  "arena_new rank capacity_bytes =
     \<lparr>wa_rank = rank, wa_capacity_bytes = capacity_bytes, wa_allocated_bytes = 0, wa_peak_bytes = 0, wa_generation = 1\<rparr>"

definition available_bytes :: "workspace_arena \<Rightarrow> nat" where
  "available_bytes a = wa_capacity_bytes a - wa_allocated_bytes a"

text \<open>\<open>sum & !align_mask\<close> on \<open>u64\<close>.\<close>

definition and_not :: "nat \<Rightarrow> nat \<Rightarrow> nat" where
  "and_not v align_mask = unat ((word_of_nat v :: 64 word) AND NOT (word_of_nat align_mask))"

definition allocate_slice :: "workspace_arena \<Rightarrow> nat \<Rightarrow> nat sched_result \<times> workspace_arena" where
  "allocate_slice a size_bytes =
     (case checked_sub WORKSPACE_ALIGNMENT 1 of
        None \<Rightarrow> (Inl (ArithmeticOverflow ''arena_alignment'' []), a)
      | Some align_mask \<Rightarrow>
     (case checked_add 64 (wa_allocated_bytes a) align_mask of
        None \<Rightarrow> (Inl (ArithmeticOverflow ''arena_alignment'' [wa_allocated_bytes a, align_mask]), a)
      | Some padded \<Rightarrow>
          let aligned_offset = and_not padded align_mask
          in (case checked_add 64 aligned_offset size_bytes of
                None \<Rightarrow> (Inl (ArithmeticOverflow ''arena_slice'' [aligned_offset, size_bytes]), a)
              | Some new_allocated \<Rightarrow>
                  if new_allocated > wa_capacity_bytes a
                  then (Inl (ArenaOverflow new_allocated (wa_capacity_bytes a) (new_allocated - wa_capacity_bytes a)), a)
                  else (Inr aligned_offset,
                        a\<lparr>wa_allocated_bytes := new_allocated, wa_peak_bytes := max (wa_peak_bytes a) new_allocated\<rparr>))))"

definition check_requirement :: "workspace_arena \<Rightarrow> nat \<Rightarrow> unit sched_result" where
  "check_requirement a required_bytes =
     (if required_bytes > wa_capacity_bytes a
      then Inl (ArenaOverflow required_bytes (wa_capacity_bytes a) (required_bytes - wa_capacity_bytes a))
      else Inr ())"

definition arena_reset :: "workspace_arena \<Rightarrow> workspace_arena" where
  "arena_reset a = a\<lparr>wa_allocated_bytes := 0\<rparr>"

definition arena_grow :: "workspace_arena \<Rightarrow> nat \<Rightarrow> unit sched_result \<times> workspace_arena" where
  "arena_grow a new_capacity_bytes =
     (if new_capacity_bytes \<le> wa_capacity_bytes a then (Inr (), a)
      else case checked_sub WORKSPACE_ALIGNMENT 1 of
             None \<Rightarrow> (Inl (ArithmeticOverflow ''arena_growth'' []), a)
           | Some align_mask \<Rightarrow>
               (case checked_add 64 new_capacity_bytes align_mask of
                  None \<Rightarrow> (Inl (ArithmeticOverflow ''arena_growth'' [new_capacity_bytes]), a)
                | Some padded \<Rightarrow>
                    let a1 = a\<lparr>wa_capacity_bytes := and_not padded align_mask\<rparr>
                    in (case checked_add 64 (wa_generation a1) 1 of
                          None \<Rightarrow> (Inl (ArithmeticOverflow ''arena_generation'' []), a1)
                        | Some g \<Rightarrow> (Inr (), a1\<lparr>wa_generation := g\<rparr>))))"

section \<open>Mask arithmetic is rounding\<close>

lemma and_not_mask: "v < 2 ^ 64 \<Longrightarrow> k < 64 \<Longrightarrow> and_not v (2 ^ k - 1) = v div 2 ^ k * 2 ^ k"
proof -
  assume v: "v < 2 ^ 64" and k: "k < 64"
  let ?w = "word_of_nat v :: 64 word"
  have uw: "unat ?w = v" using v by (simp add: unat_of_nat)
  have m: "word_of_nat (2 ^ k - 1) = (mask k :: 64 word)" by (simp add: mask_eq_exp_minus_1 of_nat_diff)
  have "?w AND NOT (mask k) = push_bit k (drop_bit k ?w)"
    by (rule bit_eqI) (auto simp: bit_simps)
  then have "and_not v (2 ^ k - 1) = unat (push_bit k (drop_bit k ?w))" by (simp only: and_not_def m)
  also have "\<dots> = unat ?w div 2 ^ k * 2 ^ k mod 2 ^ 64"
    unfolding unsigned_push_bit_eq unsigned_drop_bit_eq
    using v by (simp add: uw take_bit_eq_mod push_bit_eq_mult drop_bit_eq_div)
  also have "unat ?w = v" by (rule uw)
  also have "v div 2 ^ k * 2 ^ k mod 2 ^ 64 = v div 2 ^ k * 2 ^ k"
    using v by (intro mod_less) (meson div_times_less_eq_dividend le_less_trans)
  finally show ?thesis .
qed

definition align_up :: "nat \<Rightarrow> nat" where
  "align_up n = div_ceil n 256 * 256"

lemma div_ceil_add: "0 < b \<Longrightarrow> (n + (b - 1)) div b = div_ceil n b"
proof -
  assume b: "0 < b"
  have "(n + (b - 1)) div b \<le> k \<longleftrightarrow> div_ceil n b \<le> k" for k
  proof -
    have "(n + (b - 1)) div b \<le> k \<longleftrightarrow> (n + (b - 1)) div b < Suc k" by auto
    also have "\<dots> \<longleftrightarrow> n + (b - 1) < Suc k * b" using b by (simp add: div_less_iff_less_mult)
    also have "\<dots> \<longleftrightarrow> n \<le> k * b" using b by auto
    finally show ?thesis using div_ceil_le_iff [OF b] by simp
  qed
  then show ?thesis by (meson eq_iff order_refl)
qed

lemma and_not_255: "n + 255 < 2 ^ 64 \<Longrightarrow> and_not (n + 255) 255 = align_up n"
  using and_not_mask [of "n + 255" 8] div_ceil_add [of 256 n] by (simp add: align_up_def)

lemma align_up_facts: "256 dvd align_up n" "n \<le> align_up n" "align_up n < n + 256" "256 dvd n \<Longrightarrow> align_up n = n"
proof -
  show "256 dvd align_up n" by (simp add: align_up_def)
  show "n \<le> align_up n" using div_ceil_le_iff [of 256 n "div_ceil n 256"] by (simp add: align_up_def)
  show "align_up n < n + 256" 
  proof -
    have n: "n = 256 * (n div 256) + n mod 256" by simp
    have "align_up n \<le> 256 * (n div 256)" if "n mod 256 = 0" using that by (simp add: align_up_def div_ceil_def)
    moreover have "align_up n \<le> 256 * (n div 256) + 256" by (simp add: align_up_def div_ceil_def)
    ultimately show ?thesis using n by linarith
  qed
  show "256 dvd n \<Longrightarrow> align_up n = n" by (auto simp: align_up_def div_ceil_def)
qed

section \<open>Slices and growth\<close>

lemma allocate_slice_ok:
  "allocate_slice a n = (Inr off, a') \<longleftrightarrow>
     off = align_up (wa_allocated_bytes a) \<and> wa_allocated_bytes a + 255 < 2 ^ 64 \<and> off + n < 2 ^ 64 \<and>
     off + n \<le> wa_capacity_bytes a \<and>
     a' = a\<lparr>wa_allocated_bytes := off + n, wa_peak_bytes := max (wa_peak_bytes a) (off + n)\<rparr>"
  using and_not_255 [of "wa_allocated_bytes a"]
  by (auto simp: allocate_slice_def WORKSPACE_ALIGNMENT_def checked_sub_def checked_add_def Let_def)

lemma allocate_slice_refused: "fst (allocate_slice a n) = Inl e \<Longrightarrow> snd (allocate_slice a n) = a"
  by (auto simp: allocate_slice_def Let_def split: option.splits if_splits)

text \<open>
  Slices allocated one after the other from a fresh or reset arena: aligned, inside the
  capacity, each above the end of its predecessors.
\<close>

fun allocate_all :: "workspace_arena \<Rightarrow> nat list \<Rightarrow> nat list sched_result \<times> workspace_arena" where
  "allocate_all a [] = (Inr [], a)"
| "allocate_all a (n # ns) =
     (case allocate_slice a n of
        (Inl e, a1) \<Rightarrow> (Inl e, a1)
      | (Inr off, a1) \<Rightarrow>
          (case allocate_all a1 ns of (Inl e, a2) \<Rightarrow> (Inl e, a2) | (Inr offs, a2) \<Rightarrow> (Inr (off # offs), a2)))"

lemma allocate_all_layout:
  assumes "allocate_all a ns = (Inr offs, a')"
  shows "length offs = length ns \<and>
    (\<forall>i < length ns. 256 dvd offs ! i \<and> wa_allocated_bytes a \<le> offs ! i \<and> offs ! i + ns ! i \<le> wa_capacity_bytes a) \<and>
    (\<forall>i j. i < j \<longrightarrow> j < length ns \<longrightarrow> offs ! i + ns ! i \<le> offs ! j) \<and> wa_capacity_bytes a' = wa_capacity_bytes a"
  using assms
proof (induction ns arbitrary: a offs)
  case (Cons n ns)
  obtain off a1 offs' where 1: "allocate_slice a n = (Inr off, a1)" and 2: "allocate_all a1 ns = (Inr offs', a')"
    and offs: "offs = off # offs'"
    using Cons.prems by (auto split: prod.splits sum.splits)
  have a1: "wa_capacity_bytes a1 = wa_capacity_bytes a" "wa_allocated_bytes a1 = off + n"
      "off = align_up (wa_allocated_bytes a)" "off + n \<le> wa_capacity_bytes a"
    using 1 unfolding allocate_slice_ok by simp_all
  have le: "wa_allocated_bytes a \<le> off" and al: "256 dvd off" using align_up_facts a1(3) by simp_all
  note ih = Cons.IH [OF 2, unfolded a1(1,2)]
  have "256 dvd offs ! i \<and> wa_allocated_bytes a \<le> offs ! i \<and> offs ! i + (n # ns) ! i \<le> wa_capacity_bytes a"
    if "i < Suc (length ns)" for i
    using that ih le al a1 offs by (cases i) fastforce+
  moreover have "offs ! i + (n # ns) ! i \<le> offs ! j" if "i < j" "j < Suc (length ns)" for i j
    using that ih offs by (cases i; cases j) auto
  ultimately show ?case using ih offs by simp
qed simp

lemma arena_grow_ok:
  assumes "arena_grow a n = (Inr (), a')"
  shows "n \<le> wa_capacity_bytes a'" and "wa_capacity_bytes a \<le> wa_capacity_bytes a'"
    and "wa_generation a' = (if n \<le> wa_capacity_bytes a then wa_generation a else wa_generation a + 1)"
    and "wa_rank a' = wa_rank a" and "wa_allocated_bytes a' = wa_allocated_bytes a"
  using assms and_not_255 [of n] align_up_facts [of n]
  by (auto simp: arena_grow_def WORKSPACE_ALIGNMENT_def checked_sub_def checked_add_def Let_def split: if_splits)

lemma arena_grow_capacity_mono: "wa_capacity_bytes a \<le> wa_capacity_bytes (snd (arena_grow a n))"
  using and_not_255 [of n] align_up_facts [of n]
  by (auto simp: arena_grow_def WORKSPACE_ALIGNMENT_def checked_sub_def checked_add_def Let_def)

lemma arena_grow_total:
  "n + 255 < 2 ^ 64 \<Longrightarrow> wa_generation a + 1 < 2 ^ 64 \<Longrightarrow> fst (arena_grow a n) = Inr ()"
  by (auto simp: arena_grow_def WORKSPACE_ALIGNMENT_def checked_sub_def checked_add_def Let_def)

end
