(* ===== verification/Btree_Map.thy ===== *)
theory Btree_Map
  imports Prelude
begin

text \<open>
  The standard library's \<open>BTreeMap\<close> as the scheduler uses it: insertion, removal, lookup,
  length and iteration in key order, on association lists with strictly ascending keys.
\<close>

type_synonym ('k, 'v) btree = "('k \<times> 'v) list"

fun bt_insert :: "'k::linorder \<Rightarrow> 'v \<Rightarrow> ('k, 'v) btree \<Rightarrow> ('k, 'v) btree" where
  "bt_insert k v [] = [(k, v)]"
| "bt_insert k v ((k', v') # m) =
     (if k < k' then (k, v) # (k', v') # m else if k = k' then (k, v) # m else (k', v') # bt_insert k v m)"

definition bt_remove :: "'k \<Rightarrow> ('k, 'v) btree \<Rightarrow> 'v option \<times> ('k, 'v) btree" where
  "bt_remove k m = (map_of m k, filter (\<lambda>(k', _). k' \<noteq> k) m)"

definition bt_ok :: "('k::linorder, 'v) btree \<Rightarrow> bool" where
  "bt_ok m \<longleftrightarrow> ascending (map fst m)"

lemma bt_ok_Nil [simp]: "bt_ok []"
  by (simp add: bt_ok_def)

lemma bt_insert_keys: "fst ` set (bt_insert k v m) = insert k (fst ` set m)"
  by (induction k v m rule: bt_insert.induct) auto

lemma bt_insert_map_of [simp]: "map_of (bt_insert k v m) = (map_of m)(k \<mapsto> v)"
  by (induction k v m rule: bt_insert.induct) (auto simp: fun_eq_iff)

lemma bt_insert_ok [simp]: "bt_ok m \<Longrightarrow> bt_ok (bt_insert k v m)"
proof (induction k v m rule: bt_insert.induct)
  case (2 k v k' v' m)
  have keys: "set (map fst (bt_insert k v m)) = insert k (set (map fst m))" using bt_insert_keys [of k v m] by simp
  have "bt_ok m" using 2(2) by (simp add: bt_ok_def)
  with 2 keys show ?case by (auto simp: bt_ok_def)
qed (simp add: bt_ok_def)

lemma bt_length_insert: "bt_ok m \<Longrightarrow> length (bt_insert k v m) = (if map_of m k = None then length m + 1 else length m)"
proof (induction k v m rule: bt_insert.induct)
  case (2 k v k' v' m)
  have "k < k' \<Longrightarrow> map_of m k = None" using 2(2) by (auto simp: bt_ok_def map_of_eq_None_iff)
  moreover have "bt_ok m" using 2(2) by (simp add: bt_ok_def)
  ultimately show ?case using 2 by auto
qed simp

lemma bt_remove_ok [simp]: "bt_ok m \<Longrightarrow> bt_ok (snd (bt_remove k m))"
  by (induction m) (auto simp: bt_ok_def bt_remove_def)

lemma bt_remove_map_of [simp]: "map_of (snd (bt_remove k m)) = (map_of m)(k := None)"
  by (induction m) (auto simp: bt_remove_def fun_eq_iff)

lemma bt_remove_fst [simp]: "fst (bt_remove k m) = map_of m k"
  by (simp add: bt_remove_def)

lemma bt_length_remove:
  "bt_ok m \<Longrightarrow> length (snd (bt_remove k m)) = (if map_of m k = None then length m else length m - 1)"
proof (induction m)
  case (Cons a m)
  obtain k' v' where a: "a = (k', v')" by (cases a)
  have ok: "bt_ok m" and nin: "k' \<notin> fst ` set m" using Cons.prems a by (auto simp: bt_ok_def)
  have "filter (\<lambda>(k'', _). k'' \<noteq> k') m = m" using nin by (force simp: filter_id_conv)
  moreover have "map_of m k \<noteq> None \<Longrightarrow> 0 < length m" by (cases m) auto
  ultimately show ?case using Cons.IH [OF ok] a by (auto simp: bt_remove_def)
qed (simp add: bt_remove_def)

end
