(* ===== verification/Sched_Graph.thy ===== *)
theory Sched_Graph
  imports Sched_Arena Btree_Map
begin

text \<open>
  Step-graph capture and the graph cache of \<open>crates/r9v-sched/src/graph.rs\<close>. Capturing
  resolves every participating operation of the injected program, lays the workspaces of
  the launches out at aligned offsets, writes each offset into the declared slot of the
  argument blob and checks the total against the arena.

  The kernel registry is a parameter: \<open>resolve\<close> is \<open>Registry::resolve\<close> on the scheduler's
  architecture, of which capture reads the fields of \<open>resolved_variant\<close>. The resolver and the
  argument builder of an operation are the closures of the program.
\<close>

section \<open>Data\<close>

datatype tier = T0 | T0v | T1 | T2

record launch_geometry =
  lg_grid :: "nat \<times> nat \<times> nat"
  lg_block :: "nat \<times> nat \<times> nat"
  lg_shared_mem_bytes :: nat

record resolved_variant =
  rv_variant_hash :: nat
  rv_tier :: tier
  rv_entry_symbol :: string
  rv_launch_geometry :: launch_geometry
  rv_workspace_bytes :: nat
  rv_static_bytes :: nat
  rv_static_flops :: nat

record launch_entry =
  le_variant_hash :: nat
  le_entry_symbol :: string
  le_geometry :: launch_geometry
  le_workspace_bytes :: nat
  le_static_bytes :: nat
  le_static_flops :: nat
  le_args_blob :: "nat list"

record captured_graph =
  cg_key :: step_graph_key
  cg_launches :: "launch_entry list"
  cg_required_workspace_bytes :: nat
  cg_workspace_offsets :: "nat list"
  cg_resolved_tiers :: "(op_id \<times> tier) list"

record 's program_op =
  po_op_id :: op_id
  po_desc :: string
  po_resolver :: "step_graph_key \<Rightarrow> 's option"
  po_args_template_builder :: "step_graph_key \<Rightarrow> nat list option"
  po_workspace_slot :: "nat option"

type_synonym 's step_graph_program = "'s program_op list"

type_synonym 's resolver = "op_id \<Rightarrow> 's \<Rightarrow> (string, resolved_variant) result"

text \<open>The constructors of a program.\<close>

definition op_new :: "op_id \<Rightarrow> string \<Rightarrow> (step_graph_key \<Rightarrow> 's option) \<Rightarrow> nat list \<Rightarrow> nat option \<Rightarrow> 's program_op" where
  "op_new op_id desc resolver args_template workspace_slot =
     \<lparr>po_op_id = op_id, po_desc = desc, po_resolver = resolver, po_args_template_builder = (\<lambda>_. Some args_template),
      po_workspace_slot = workspace_slot\<rparr>"

definition with_args_template :: "'s program_op \<Rightarrow> nat list \<Rightarrow> nat option \<Rightarrow> 's program_op" where
  "with_args_template op template workspace_slot =
     op\<lparr>po_args_template_builder := (\<lambda>_. Some template), po_workspace_slot := workspace_slot\<rparr>"

definition with_args_builder :: "'s program_op \<Rightarrow> (step_graph_key \<Rightarrow> nat list option) \<Rightarrow> nat option \<Rightarrow> 's program_op" where
  "with_args_builder op build_args workspace_slot =
     op\<lparr>po_args_template_builder := build_args, po_workspace_slot := workspace_slot\<rparr>"

definition with_workspace_slot :: "'s program_op \<Rightarrow> nat option \<Rightarrow> 's program_op" where
  "with_workspace_slot op slot = op\<lparr>po_workspace_slot := slot\<rparr>"

definition add_op :: "'s step_graph_program \<Rightarrow> 's program_op \<Rightarrow> 's step_graph_program" where
  "add_op program op = program @ [op]"

section \<open>Capture\<close>

text \<open>\<open>u64::to_le_bytes\<close>.\<close>

definition to_le_bytes :: "nat \<Rightarrow> nat list" where
  "to_le_bytes v = map (\<lambda>i. v div 256 ^ i mod 256) [0..<8]"

definition next_aligned :: "nat \<Rightarrow> nat sched_result" where
  "next_aligned current_offset =
     (if current_offset mod 256 = 0 then Inr current_offset
      else let remainder = current_offset mod 256; pad = 256 - remainder
           in ok_or (ArithmeticOverflow ''workspace_alignment'' []) (checked_add 64 current_offset pad))"

record capture_state =
  cs_launches :: "launch_entry list"
  cs_tiers :: "(op_id \<times> tier) list"
  cs_offsets :: "nat list"
  cs_current :: nat

text \<open>The workspace binding: the blob with the offset written into its slot, and the offset.\<close>

definition bind_workspace :: "step_graph_key \<Rightarrow> 's program_op \<Rightarrow> nat \<Rightarrow> nat list \<Rightarrow> nat \<Rightarrow> (nat list \<times> nat) sched_result" where
  "bind_workspace key op workspace_bytes args_blob current_offset =
     (case po_workspace_slot op of
        None \<Rightarrow> Inl (GraphCaptureFailed key (MissingWorkspaceSlot (po_op_id op) workspace_bytes))
      | Some ws \<Rightarrow>
          if ws mod 8 \<noteq> 0 then Inl (GraphCaptureFailed key (UnalignedWorkspaceSlot (po_op_id op) ws))
          else bind_r (ok_or (ArithmeticOverflow ''workspace_slot'' []) (checked_add 64 ws 8)) (\<lambda>required_len.
            if length args_blob < required_len
            then Inl (GraphCaptureFailed key (ArgsBlobUndersized (po_op_id op) (length args_blob) ws required_len))
            else bind_r (next_aligned current_offset) (\<lambda>aligned_offset.
              Inr (take ws args_blob @ to_le_bytes aligned_offset @ drop required_len args_blob, aligned_offset))))"

definition capture_op :: "'s resolver \<Rightarrow> step_graph_key \<Rightarrow> 's program_op \<Rightarrow> capture_state \<Rightarrow> capture_state sched_result" where
  "capture_op resolve key op st =
     (case po_resolver op key of
        None \<Rightarrow> Inr st
      | Some op_static \<Rightarrow>
     (case resolve (po_op_id op) op_static of
        Inl e \<Rightarrow> Inl (GraphCaptureFailed key (ResolveFailed (po_op_id op) (po_desc op) e))
      | Inr variant \<Rightarrow>
     (case po_args_template_builder op key of
        None \<Rightarrow> Inl (GraphCaptureFailed key (MissingArgsTemplate (po_op_id op) (po_desc op)))
      | Some template \<Rightarrow>
          bind_r (if rv_workspace_bytes variant > 0
                  then bind_r (bind_workspace key op (rv_workspace_bytes variant) template (cs_current st)) (\<lambda>(blob, off).
                         bind_r (ok_or (ArithmeticOverflow ''workspace_offset'' []) (checked_add 64 off (rv_workspace_bytes variant)))
                           (\<lambda>next_offset. Inr (blob, off, next_offset)))
                  else Inr (template, 0, cs_current st)) (\<lambda>(blob, off, next_offset).
            Inr \<lparr>cs_launches = cs_launches st @
                   [\<lparr>le_variant_hash = rv_variant_hash variant, le_entry_symbol = rv_entry_symbol variant,
                     le_geometry = rv_launch_geometry variant, le_workspace_bytes = rv_workspace_bytes variant,
                     le_static_bytes = rv_static_bytes variant, le_static_flops = rv_static_flops variant,
                     le_args_blob = blob\<rparr>],
                 cs_tiers = cs_tiers st @ [(po_op_id op, rv_tier variant)],
                 cs_offsets = cs_offsets st @ [off], cs_current = next_offset\<rparr>))))"

definition capture_launches :: "'s resolver \<Rightarrow> step_graph_key \<Rightarrow> 's step_graph_program \<Rightarrow> capture_state sched_result" where
  "capture_launches resolve key program =
     (if program = [] then Inl (GraphCaptureFailed key ProgramEmpty)
      else if \<not> list_ex (\<lambda>op. po_op_id op = Op_Sample) program then Inl (GraphCaptureFailed key ProgramLacksSample)
      else bind_r (fold_r (capture_op resolve key) program
                     \<lparr>cs_launches = [], cs_tiers = [], cs_offsets = [], cs_current = 0\<rparr>) (\<lambda>st.
             if cs_launches st = [] then Inl (GraphCaptureFailed key ZeroLaunches) else Inr st))"

text \<open>The bounds of the non-empty slices, and the pairwise overlap check.\<close>

definition slice_bounds :: "nat list \<Rightarrow> launch_entry list \<Rightarrow> (nat \<times> nat) list sched_result" where
  "slice_bounds offsets launches =
     fold_r (\<lambda>(start, entry) bounds.
        if le_workspace_bytes entry = 0 then Inr bounds
        else bind_r (ok_or (ArithmeticOverflow ''workspace_bounds'' []) (checked_add 64 start (le_workspace_bytes entry)))
               (\<lambda>e. Inr (bounds @ [(start, e)])))
       (zip offsets launches) []"

fun overlapping :: "(nat \<times> nat) list \<Rightarrow> bool" where
  "overlapping [] \<longleftrightarrow> False"
| "overlapping ((start_i, end_i) # bs) \<longleftrightarrow>
     list_ex (\<lambda>(start_j, end_j). \<not> (end_i \<le> start_j \<or> end_j \<le> start_i)) bs \<or> overlapping bs"

definition capture :: "'s resolver \<Rightarrow> step_graph_key \<Rightarrow> 's step_graph_program \<Rightarrow> workspace_arena \<Rightarrow> captured_graph sched_result" where
  "capture resolve key program arena =
     bind_r (capture_launches resolve key program) (\<lambda>st.
     bind_r (check_requirement arena (cs_current st)) (\<lambda>_.
     bind_r (slice_bounds (cs_offsets st) (cs_launches st)) (\<lambda>bounds.
     if overlapping bounds then Inl (Internal ''detected overlapping workspace slices'')
     else Inr \<lparr>cg_key = key, cg_launches = cs_launches st, cg_required_workspace_bytes = cs_current st,
               cg_workspace_offsets = cs_offsets st, cg_resolved_tiers = cs_tiers st\<rparr>)))"

section \<open>The cache\<close>

definition WARM_T_DEC :: "nat list" where "WARM_T_DEC = [1, 2, 4, 8, 16, 32]"
definition WARM_T_PRE :: "nat list" where "WARM_T_PRE = [0, 128, 512, 2048]"

record 's graph_cache =
  gc_program :: "'s step_graph_program"
  gc_graphs :: "(step_graph_key, captured_graph) btree"
  gc_arena_generation :: nat

definition warm_keys :: "nat \<Rightarrow> nat \<Rightarrow> step_graph_key list" where
  "warm_keys plan_id rank =
     concat (map (\<lambda>s. concat (map (\<lambda>t_dec. if t_dec < s then []
       else map (\<lambda>t_pre. StepGraphKey plan_id rank s t_dec t_pre 0) WARM_T_PRE) WARM_T_DEC)) [1])"

definition eager_capture_warm_buckets :: "'s resolver \<Rightarrow> nat \<Rightarrow> nat \<Rightarrow> 's step_graph_program \<Rightarrow> workspace_arena \<Rightarrow>
    's graph_cache sched_result" where
  "eager_capture_warm_buckets resolve plan_id rank program arena =
     fold_r (\<lambda>key cache. bind_r (capture resolve key (gc_program cache) arena)
                (\<lambda>g. Inr (cache\<lparr>gc_graphs := bt_insert key g (gc_graphs cache)\<rparr>)))
       (warm_keys plan_id rank)
       \<lparr>gc_program = program, gc_graphs = [], gc_arena_generation = wa_generation arena\<rparr>"

text \<open>Recapture of every cached graph on the grown arena; a failure keeps what was replaced.\<close>

fun recapture :: "'s resolver \<Rightarrow> step_graph_key list \<Rightarrow> workspace_arena \<Rightarrow> 's graph_cache \<Rightarrow> unit sched_result \<times> 's graph_cache" where
  "recapture resolve [] arena cache = (Inr (), cache)"
| "recapture resolve (k # ks) arena cache =
     (case capture resolve k (gc_program cache) arena of
        Inl e \<Rightarrow> (Inl e, cache)
      | Inr g \<Rightarrow> recapture resolve ks arena (cache\<lparr>gc_graphs := bt_insert k g (gc_graphs cache)\<rparr>))"

definition get_or_capture :: "'s resolver \<Rightarrow> step_graph_key \<Rightarrow> 's graph_cache \<Rightarrow> workspace_arena \<Rightarrow>
    (captured_graph \<times> bool) sched_result \<times> 's graph_cache \<times> workspace_arena" where
  "get_or_capture resolve key cache arena =
     (case map_of (gc_graphs cache) key of
        Some g \<Rightarrow> (Inr (g, False), cache, arena)
      | None \<Rightarrow>
     (case capture resolve key (gc_program cache) arena of
        Inr g \<Rightarrow> (Inr (g, True), cache\<lparr>gc_graphs := bt_insert key g (gc_graphs cache)\<rparr>, arena)
      | Inl (ArenaOverflow required available shortfall) \<Rightarrow>
          (case arena_grow arena required of
             (Inl e, arena1) \<Rightarrow> (Inl e, cache, arena1)
           | (Inr _, arena1) \<Rightarrow>
               (case recapture resolve (map fst (gc_graphs cache)) arena1 cache of
                  (Inl e, cache1) \<Rightarrow> (Inl e, cache1, arena1)
                | (Inr _, cache1) \<Rightarrow>
                    let cache2 = cache1\<lparr>gc_arena_generation := wa_generation arena1\<rparr>
                    in (case capture resolve key (gc_program cache2) arena1 of
                          Inl e \<Rightarrow> (Inl e, cache2, arena1)
                        | Inr g \<Rightarrow> (Inr (g, True), cache2\<lparr>gc_graphs := bt_insert key g (gc_graphs cache2)\<rparr>, arena1))))
      | Inl e \<Rightarrow> (Inl e, cache, arena)))"

section \<open>Argument blobs\<close>

definition from_le_bytes :: "nat list \<Rightarrow> nat" where
  "from_le_bytes bs = foldr (\<lambda>b acc. b + 256 * acc) bs 0"

lemma le_bytes_prefix:
  "foldr (\<lambda>b acc. b + 256 * acc) (map (\<lambda>i. v div 256 ^ i mod 256) [k..<k + n]) 0 = (v::nat) div 256 ^ k mod 256 ^ n"
proof (induction n arbitrary: k)
  case (Suc n)
  let ?w = "v div 256 ^ k"
  have "[k..<k + Suc n] = k # [Suc k..<Suc k + n]" by (simp add: upt_conv_Cons del: upt_Suc)
  then have "foldr (\<lambda>b acc. b + 256 * acc) (map (\<lambda>i. v div 256 ^ i mod 256) [k..<k + Suc n]) 0 =
      ?w mod 256 + 256 * (v div 256 ^ Suc k mod 256 ^ n)"
    using Suc [of "Suc k"] by simp
  also have "v div 256 ^ Suc k = ?w div 256" by (simp only: power_Suc2 div_mult2_eq)
  also have "?w mod 256 + 256 * (?w div 256 mod 256 ^ n) = ?w mod (256 * 256 ^ n)"
    by (simp only: mod_mult2_eq add.commute)
  finally show ?case by (simp only: power_Suc)
qed simp

lemma le_bytes_round_trip: "v < 2 ^ 64 \<Longrightarrow> from_le_bytes (to_le_bytes v) = v"
  using le_bytes_prefix [of v 0 8] by (simp add: from_le_bytes_def to_le_bytes_def)

lemma next_aligned_Inr: "c < 2 ^ 64 \<Longrightarrow> next_aligned c = Inr off \<longleftrightarrow> off = align_up c \<and> align_up c < 2 ^ 64"
proof (cases "c mod 256 = 0")
  case False
  have "c + (256 - c mod 256) = align_up c"
  proof -
    have "c = c div 256 * 256 + c mod 256" "c mod 256 < 256" by simp_all
    then have "c + (256 - c mod 256) = (c div 256 + 1) * 256" by (simp only: add_mult_distrib mult_1)
    with False show ?thesis by (simp add: align_up_def div_ceil_def)
  qed
  then show ?thesis using False by (auto simp: next_aligned_def Let_def)
qed (auto simp: next_aligned_def align_up_def div_ceil_def)

text \<open>Binding writes the offset into the declared slot and keeps every other byte.\<close>

lemma bind_workspace_blob:
  assumes "bind_workspace key op n blob cur = Inr (blob', off)" and "cur < 2 ^ 64"
  shows "off = align_up cur" and "off < 2 ^ 64" and "length blob' = length blob"
    and "\<exists>ws. po_workspace_slot op = Some ws \<and> 8 dvd ws \<and> ws + 8 \<le> length blob \<and>
      from_le_bytes (take 8 (drop ws blob')) = off \<and> take ws blob' = take ws blob \<and> drop (ws + 8) blob' = drop (ws + 8) blob"
proof -
  obtain ws where ws: "po_workspace_slot op = Some ws" "8 dvd ws" "ws + 8 \<le> length blob"
    and al: "next_aligned cur = Inr off" and b: "blob' = take ws blob @ to_le_bytes off @ drop (ws + 8) blob"
    using assms(1) by (auto simp: bind_workspace_def bind_r_eq_Inr not_less split: option.splits if_splits)
  show off: "off = align_up cur" "off < 2 ^ 64" using next_aligned_Inr [OF assms(2), THEN iffD1, OF al] by simp_all
  have l: "length (to_le_bytes off) = 8" by (simp add: to_le_bytes_def)
  show "length blob' = length blob" using ws(3) by (simp add: b l)
  have "take 8 (drop ws blob') = to_le_bytes off" "take ws blob' = take ws blob" "drop (ws + 8) blob' = drop (ws + 8) blob"
    using ws(3) by (simp_all add: b l)
  with ws le_bytes_round_trip [OF off(2)] show "\<exists>ws. po_workspace_slot op = Some ws \<and> 8 dvd ws \<and> ws + 8 \<le> length blob \<and>
      from_le_bytes (take 8 (drop ws blob')) = off \<and> take ws blob' = take ws blob \<and> drop (ws + 8) blob' = drop (ws + 8) blob"
    by simp
qed

section \<open>Layout of the captured workspaces\<close>

definition apart :: "nat \<times> launch_entry \<Rightarrow> nat \<times> launch_entry \<Rightarrow> bool" where
  "apart = (\<lambda>(s, l) (s', l'). 0 < le_workspace_bytes l \<longrightarrow> 0 < le_workspace_bytes l' \<longrightarrow> s + le_workspace_bytes l \<le> s')"

definition within :: "nat \<Rightarrow> nat \<times> launch_entry \<Rightarrow> bool" where
  "within cur = (\<lambda>(s, l). 0 < le_workspace_bytes l \<longrightarrow> 256 dvd s \<and> s + le_workspace_bytes l \<le> cur)"

definition laid_out :: "nat list \<Rightarrow> launch_entry list \<Rightarrow> nat \<Rightarrow> bool" where
  "laid_out offs ls cur \<longleftrightarrow> length offs = length ls \<and> cur < 2 ^ 64 \<and> sorted_wrt apart (zip offs ls) \<and>
     (\<forall>x \<in> set (zip offs ls). within cur x)"

lemma laid_out_snoc:
  assumes "laid_out offs ls cur" and "cur \<le> cur'" and "cur' < 2 ^ 64"
    and "0 < le_workspace_bytes l \<Longrightarrow> 256 dvd off \<and> cur \<le> off \<and> off + le_workspace_bytes l \<le> cur'"
  shows "laid_out (offs @ [off]) (ls @ [l]) cur'"
proof -
  have z: "zip (offs @ [off]) (ls @ [l]) = zip offs ls @ [(off, l)]" using assms(1) by (simp add: laid_out_def)
  have "apart x (off, l)" if "x \<in> set (zip offs ls)" for x
    using assms that by (auto simp: laid_out_def apart_def within_def split: prod.splits)
  moreover have "within cur' x" if "x \<in> set (zip offs ls)" for x
  proof -
    have "within cur x" using assms(1) that by (auto simp: laid_out_def)
    then show ?thesis using assms(2) by (auto simp: within_def split: prod.splits)
  qed
  moreover have "within cur' (off, l)" using assms(4) by (simp add: within_def)
  ultimately show ?thesis using assms(1,3) unfolding laid_out_def z by (auto simp: sorted_wrt_append)
qed

lemma capture_op_laid_out:
  assumes "capture_op resolve key op st = Inr st'" and "laid_out (cs_offsets st) (cs_launches st) (cs_current st)"
  shows "laid_out (cs_offsets st') (cs_launches st') (cs_current st')"
proof (cases "po_resolver op key")
  case None
  with assms show ?thesis by (simp add: capture_op_def)
next
  case (Some os)
  then obtain v t where v: "resolve (po_op_id op) os = Inr v" "po_args_template_builder op key = Some t"
    using assms(1) by (auto simp: capture_op_def split: option.splits sum.splits)
  have cur: "cs_current st < 2 ^ 64" using assms(2) by (simp add: laid_out_def)
  show ?thesis
  proof (cases "rv_workspace_bytes v > 0")
    case True
    obtain blob off where b: "bind_workspace key op (rv_workspace_bytes v) t (cs_current st) = Inr (blob, off)"
      and le: "off + rv_workspace_bytes v < 2 ^ 64"
      and st': "cs_offsets st' = cs_offsets st @ [off]" "cs_current st' = off + rv_workspace_bytes v"
        "\<exists>l. cs_launches st' = cs_launches st @ [l] \<and> le_workspace_bytes l = rv_workspace_bytes v"
      using assms(1) Some v True by (auto simp: capture_op_def bind_r_eq_Inr)
    have "off = align_up (cs_current st)" using bind_workspace_blob(1) [OF b cur] .
    then have "256 dvd off" "cs_current st \<le> off" using align_up_facts by simp_all
    with st' le assms(2) show ?thesis by (auto intro!: laid_out_snoc [where cur = "cs_current st"])
  next
    case False
    with assms(1) Some v have st': "cs_offsets st' = cs_offsets st @ [0]" "cs_current st' = cs_current st"
        "\<exists>l. cs_launches st' = cs_launches st @ [l] \<and> le_workspace_bytes l = 0"
      by (auto simp: capture_op_def)
    with assms(2) cur show ?thesis by (auto intro!: laid_out_snoc [where cur = "cs_current st"])
  qed
qed

lemma fold_r_invariant:
  assumes "fold_r f xs b = Inr b'" and "P b" and "\<And>x b b'. f x b = Inr b' \<Longrightarrow> P b \<Longrightarrow> P b'"
  shows "P b'"
  using assms by (induction xs arbitrary: b) (auto simp: bind_r_eq_Inr)

lemma capture_launches_laid_out:
  assumes "capture_launches resolve key program = Inr st"
  shows "laid_out (cs_offsets st) (cs_launches st) (cs_current st)" and "cs_launches st \<noteq> []"
proof -
  have f: "fold_r (capture_op resolve key) program \<lparr>cs_launches = [], cs_tiers = [], cs_offsets = [], cs_current = 0\<rparr> = Inr st"
    and "cs_launches st \<noteq> []"
    using assms by (auto simp: capture_launches_def bind_r_eq_Inr split: if_splits)
  then show "cs_launches st \<noteq> []" by simp
  show "laid_out (cs_offsets st) (cs_launches st) (cs_current st)"
    by (rule fold_r_invariant [OF f]) (auto simp: laid_out_def dest: capture_op_laid_out)
qed

lemma slice_bounds_eq:
  assumes "laid_out offs ls cur"
  shows "slice_bounds offs ls =
    Inr (map (\<lambda>(s, l). (s, s + le_workspace_bytes l)) (filter (\<lambda>(s, l). 0 < le_workspace_bytes l) (zip offs ls)))"
proof -
  let ?f = "\<lambda>(start, entry) bounds. if le_workspace_bytes entry = 0 then Inr bounds
        else bind_r (ok_or (ArithmeticOverflow ''workspace_bounds'' []) (checked_add 64 start (le_workspace_bytes entry)))
               (\<lambda>e. Inr (bounds @ [(start, e)]))"
  have "fold_r ?f zs acc = Inr (acc @ map (\<lambda>(s, l). (s, s + le_workspace_bytes l)) (filter (\<lambda>(s, l). 0 < le_workspace_bytes l) zs))"
    if "\<forall>x \<in> set zs. within cur x" and "cur < 2 ^ 64" for zs acc
    using that(1)
  proof (induction zs arbitrary: acc)
    case (Cons z zs)
    obtain s l where z: "z = (s, l)" by (cases z)
    show ?case
    proof (cases "le_workspace_bytes l = 0")
      case False
      then have "s + le_workspace_bytes l < 2 ^ 64" using Cons.prems that(2) z by (auto simp: within_def)
      then show ?thesis using Cons z False by (simp add: checked_add_def)
    qed (use Cons z in simp)
  qed simp
  from this [of "zip offs ls" "[]"] show ?thesis using assms by (simp add: slice_bounds_def laid_out_def)
qed

lemma laid_out_not_overlapping:
  assumes "sorted_wrt apart zs"
  shows "\<not> overlapping (map (\<lambda>(s, l). (s, s + le_workspace_bytes l)) (filter (\<lambda>(s, l). 0 < le_workspace_bytes l) zs))"
  using assms
proof (induction zs)
  case (Cons z zs)
  obtain s l where z: "z = (s, l)" by (cases z)
  have "s + le_workspace_bytes l \<le> s'" if "(s', l') \<in> set zs" "0 < le_workspace_bytes l'" "0 < le_workspace_bytes l" for s' l'
    using Cons.prems that z by (force simp: apart_def)
  then show ?case using Cons by (auto simp: z list_ex_iff)
qed simp

text \<open>
  Capture as a pure function of the program and the key, checked against the arena: the
  overlap check never fires.
\<close>

lemma capture_eq:
  "capture resolve key program arena =
     bind_r (capture_launches resolve key program) (\<lambda>st.
     bind_r (check_requirement arena (cs_current st)) (\<lambda>_.
       Inr \<lparr>cg_key = key, cg_launches = cs_launches st, cg_required_workspace_bytes = cs_current st,
            cg_workspace_offsets = cs_offsets st, cg_resolved_tiers = cs_tiers st\<rparr>))"
proof (cases "capture_launches resolve key program")
  case (Inr st)
  note l = capture_launches_laid_out(1) [OF Inr]
  then have "sorted_wrt apart (zip (cs_offsets st) (cs_launches st))" by (simp add: laid_out_def)
  from laid_out_not_overlapping [OF this] show ?thesis
    by (simp add: capture_def Inr slice_bounds_eq [OF l])
qed (simp add: capture_def)

lemma capture_Inr:
  "capture resolve key program arena = Inr g \<longleftrightarrow>
     (\<exists>st. capture_launches resolve key program = Inr st \<and> cs_current st \<le> wa_capacity_bytes arena \<and>
       g = \<lparr>cg_key = key, cg_launches = cs_launches st, cg_required_workspace_bytes = cs_current st,
            cg_workspace_offsets = cs_offsets st, cg_resolved_tiers = cs_tiers st\<rparr>)"
  by (auto simp: capture_eq bind_r_eq_Inr check_requirement_def not_less split: if_splits)

lemma capture_launches_no_arena_error: "capture_launches resolve key program \<noteq> Inl (ArenaOverflow r a s)"
proof
  assume "capture_launches resolve key program = Inl (ArenaOverflow r a s)"
  then have "fold_r (capture_op resolve key) program \<lparr>cs_launches = [], cs_tiers = [], cs_offsets = [], cs_current = 0\<rparr> =
      Inl (ArenaOverflow r a s)"
    by (auto simp: capture_launches_def bind_r_eq_Inl split: if_splits)
  moreover have "capture_op resolve key op st \<noteq> Inl (ArenaOverflow r a s)" for op st
    by (auto simp: capture_op_def bind_workspace_def next_aligned_def Let_def bind_r_eq_Inl
        split: option.splits sum.splits if_splits)
  then have "fold_r (capture_op resolve key) ops st \<noteq> Inl (ArenaOverflow r a s)" for ops st
    by (induction ops arbitrary: st) (auto simp: bind_r_eq_Inl)
  ultimately show False by blast
qed

lemma capture_arena_overflow:
  "capture resolve key program arena = Inl (ArenaOverflow r av sh) \<longleftrightarrow>
     (\<exists>st. capture_launches resolve key program = Inr st \<and> r = cs_current st \<and> wa_capacity_bytes arena < r \<and>
       av = wa_capacity_bytes arena \<and> sh = r - wa_capacity_bytes arena)"
  by (auto simp: capture_launches_no_arena_error capture_eq bind_r_eq_Inl check_requirement_def split: if_splits)

lemma capture_mono:
  "capture resolve key program arena = Inr g \<Longrightarrow> wa_capacity_bytes arena \<le> wa_capacity_bytes arena' \<Longrightarrow>
   capture resolve key program arena' = Inr g"
  by (auto simp: capture_Inr)

section \<open>The cache holds exactly what capture yields\<close>

definition cache_ok :: "'s resolver \<Rightarrow> 's graph_cache \<Rightarrow> workspace_arena \<Rightarrow> bool" where
  "cache_ok resolve cache arena \<longleftrightarrow> bt_ok (gc_graphs cache) \<and>
     (\<forall>k g. map_of (gc_graphs cache) k = Some g \<longrightarrow> capture resolve k (gc_program cache) arena = Inr g)"

lemma cache_ok_mono:
  "cache_ok resolve cache arena \<Longrightarrow> wa_capacity_bytes arena \<le> wa_capacity_bytes arena' \<Longrightarrow> cache_ok resolve cache arena'"
  by (auto simp: cache_ok_def intro: capture_mono)

lemma cache_ok_insert:
  "cache_ok resolve cache arena \<Longrightarrow> capture resolve key (gc_program cache) arena = Inr g \<Longrightarrow>
   cache_ok resolve (cache\<lparr>gc_graphs := bt_insert key g (gc_graphs cache)\<rparr>) arena"
  by (auto simp: cache_ok_def)

lemma eager_capture_ok:
  assumes "eager_capture_warm_buckets resolve plan_id rank program arena = Inr cache"
  shows "cache_ok resolve cache arena" and "gc_program cache = program"
    and "gc_arena_generation cache = wa_generation arena"
    and "k \<in> set (warm_keys plan_id rank) \<Longrightarrow> map_of (gc_graphs cache) k \<noteq> None"
proof -
  let ?f = "\<lambda>key cache. bind_r (capture resolve key (gc_program cache) arena)
                (\<lambda>g. Inr (cache\<lparr>gc_graphs := bt_insert key g (gc_graphs cache)\<rparr>))"
  have f: "fold_r ?f ks c = Inr c' \<Longrightarrow> cache_ok resolve c arena \<Longrightarrow>
      cache_ok resolve c' arena \<and> gc_program c' = gc_program c \<and> gc_arena_generation c' = gc_arena_generation c \<and>
      dom (map_of (gc_graphs c')) = set ks \<union> dom (map_of (gc_graphs c))" for ks c c'
  proof (induction ks arbitrary: c)
    case (Cons k ks)
    then obtain g where g: "capture resolve k (gc_program c) arena = Inr g"
      "fold_r ?f ks (c\<lparr>gc_graphs := bt_insert k g (gc_graphs c)\<rparr>) = Inr c'"
      by (auto simp: bind_r_eq_Inr)
    from Cons.IH [OF g(2) cache_ok_insert [OF Cons.prems(2) g(1)]] show ?case by auto
  qed simp
  have i: "cache_ok resolve \<lparr>gc_program = program, gc_graphs = [], gc_arena_generation = wa_generation arena\<rparr> arena"
    by (simp add: cache_ok_def)
  note r = f [OF assms [unfolded eager_capture_warm_buckets_def] i]
  show "cache_ok resolve cache arena" "gc_program cache = program" "gc_arena_generation cache = wa_generation arena"
    using r by simp_all
  show "k \<in> set (warm_keys plan_id rank) \<Longrightarrow> map_of (gc_graphs cache) k \<noteq> None" using r by auto
qed

lemma bt_insert_same: "bt_ok m \<Longrightarrow> map_of m k = Some v \<Longrightarrow> bt_insert k v m = m"
proof (induction k v m rule: bt_insert.induct)
  case (2 k v k' v' m)
  have "k < k' \<Longrightarrow> map_of m k = None" using 2(2) by (auto simp: bt_ok_def map_of_eq_None_iff)
  moreover have "bt_ok m" using 2(2) by (simp add: bt_ok_def)
  ultimately show ?case using 2 by (auto split: if_splits)
qed simp

text \<open>Recapturing yields the graphs the cache already holds.\<close>

lemma recapture_same:
  "cache_ok resolve cache arena \<Longrightarrow> set ks \<subseteq> dom (map_of (gc_graphs cache)) \<Longrightarrow>
   recapture resolve ks arena cache = (Inr (), cache)"
proof (induction ks)
  case (Cons k ks)
  then obtain g where g: "map_of (gc_graphs cache) k = Some g" by auto
  then have "capture resolve k (gc_program cache) arena = Inr g" and "bt_ok (gc_graphs cache)"
    using Cons.prems(1) by (auto simp: cache_ok_def)
  then show ?case using Cons bt_insert_same [OF _ g] by simp
qed simp

lemma get_or_capture_ok:
  assumes "cache_ok resolve cache arena" and "get_or_capture resolve key cache arena = (r, cache', arena')"
  shows "cache_ok resolve cache' arena'" and "gc_program cache' = gc_program cache"
    and "wa_capacity_bytes arena \<le> wa_capacity_bytes arena'"
    and "map_of (gc_graphs cache) k = Some g \<Longrightarrow> map_of (gc_graphs cache') k = Some g"
    and "r = Inr (g, was_captured) \<Longrightarrow> capture resolve key (gc_program cache) arena' = Inr g \<and>
      map_of (gc_graphs cache') key = Some g \<and> (was_captured \<longleftrightarrow> map_of (gc_graphs cache) key = None)"
    and "r = Inl e \<Longrightarrow> gc_graphs cache' = gc_graphs cache"
proof -
  have "cache_ok resolve cache' arena' \<and> gc_program cache' = gc_program cache \<and>
      wa_capacity_bytes arena \<le> wa_capacity_bytes arena' \<and>
      (\<forall>k g. map_of (gc_graphs cache) k = Some g \<longrightarrow> map_of (gc_graphs cache') k = Some g) \<and>
      (\<forall>g b. r = Inr (g, b) \<longrightarrow> capture resolve key (gc_program cache) arena' = Inr g \<and>
         map_of (gc_graphs cache') key = Some g \<and> (b \<longleftrightarrow> map_of (gc_graphs cache) key = None)) \<and>
      (\<forall>e. r = Inl e \<longrightarrow> gc_graphs cache' = gc_graphs cache)"
  proof (cases "map_of (gc_graphs cache) key")
    case (Some g0)
    with assms show ?thesis by (auto simp: get_or_capture_def cache_ok_def)
  next
    case None
    show ?thesis
    proof (cases "\<exists>rq av sh. capture resolve key (gc_program cache) arena = Inl (ArenaOverflow rq av sh)")
      case False
      with assms None show ?thesis
        by (auto simp: get_or_capture_def split: sum.splits sched_error.splits intro: cache_ok_insert)
    next
      case True
      then obtain rq av sh where c: "capture resolve key (gc_program cache) arena = Inl (ArenaOverflow rq av sh)" by blast
      obtain rg arena1 where g: "arena_grow arena rq = (rg, arena1)" by (cases "arena_grow arena rq")
      have mono: "wa_capacity_bytes arena \<le> wa_capacity_bytes arena1" using arena_grow_capacity_mono [of arena rq] g by simp
      have ok1: "cache_ok resolve cache arena1" by (rule cache_ok_mono [OF assms(1) mono])
      show ?thesis
      proof (cases rg)
        case (Inl e)
        with assms None c g mono ok1 show ?thesis by (auto simp: get_or_capture_def)
      next
        case (Inr u)
        then have "rq \<le> wa_capacity_bytes arena1" using arena_grow_ok(1) [of arena rq arena1] g by simp
        then obtain g' where g': "capture resolve key (gc_program cache) arena1 = Inr g'"
          using c unfolding capture_arena_overflow by (auto simp: capture_Inr)
        have rec: "recapture resolve (map fst (gc_graphs cache)) arena1 cache = (Inr (), cache)"
          by (rule recapture_same [OF ok1]) (auto simp: dom_map_of_conv_image_fst)
        have ok2: "cache_ok resolve (cache\<lparr>gc_arena_generation := wa_generation arena1\<rparr>) arena1"
          using ok1 by (simp add: cache_ok_def)
        have res: "cache' = cache\<lparr>gc_arena_generation := wa_generation arena1, gc_graphs := bt_insert key g' (gc_graphs cache)\<rparr>"
          "arena' = arena1" "r = Inr (g', True)"
          using assms(2) None c g Inr rec g' by (auto simp: get_or_capture_def Let_def)
        have "cache_ok resolve cache' arena1" using cache_ok_insert [OF ok2, of key g'] g' by (simp add: res)
        with res None mono g' show ?thesis by auto
      qed
    qed
  qed
  then show "cache_ok resolve cache' arena'" "gc_program cache' = gc_program cache"
    "wa_capacity_bytes arena \<le> wa_capacity_bytes arena'"
    "map_of (gc_graphs cache) k = Some g \<Longrightarrow> map_of (gc_graphs cache') k = Some g"
    "r = Inr (g, was_captured) \<Longrightarrow> capture resolve key (gc_program cache) arena' = Inr g \<and>
      map_of (gc_graphs cache') key = Some g \<and> (was_captured \<longleftrightarrow> map_of (gc_graphs cache) key = None)"
    "r = Inl e \<Longrightarrow> gc_graphs cache' = gc_graphs cache"
    by blast+
qed

end
