(* ===== verification/Sched_Log.thy ===== *)
theory Sched_Log
  imports Sched_Error
begin

text \<open>
  The fixed-capacity containers of the scheduler: \<open>InlineVec\<close> of
  \<open>crates/r9v-sched/src/types.rs\<close> and the schedule records and the record ring of
  \<open>crates/r9v-sched/src/log.rs\<close>. Both are arrays of optional cells with counters; each is
  shown to refine a list: the inline vector its pushed items, the ring the most recent
  records in chronological order.

  \<open>bounded_log\<close> is the interface the scheduler relies on: a push that succeeds is seen at
  the end of the contents, and only the oldest entry can fall out.
\<close>

section \<open>Inline vectors\<close>

record 'a inline_vec =
  iv_data :: "'a option list"
  iv_len :: nat

definition iv_new :: "nat \<Rightarrow> 'a inline_vec" where
  "iv_new cap = \<lparr>iv_data = replicate cap None, iv_len = 0\<rparr>"

definition iv_push :: "'a inline_vec \<Rightarrow> 'a \<Rightarrow> unit sched_result \<times> 'a inline_vec" where
  "iv_push v x =
     (if iv_len v < length (iv_data v)
      then (case get (iv_data v) (iv_len v) of
              None \<Rightarrow> (Inl (Internal ''inline vec push index''), v)
            | Some _ \<Rightarrow> (Inr (), v\<lparr>iv_data := (iv_data v)[iv_len v := Some x], iv_len := iv_len v + 1\<rparr>))
      else (Inl (ArithmeticOverflow ''inline_vec_push'' [length (iv_data v)]), v))"

definition iv_pop :: "'a inline_vec \<Rightarrow> 'a option \<times> 'a inline_vec" where
  "iv_pop v =
     (if iv_len v > 0
      then let n = iv_len v - 1; v1 = v\<lparr>iv_len := n\<rparr>
           in case get (iv_data v1) n of
                None \<Rightarrow> (None, v1)
              | Some cell \<Rightarrow> (cell, v1\<lparr>iv_data := (iv_data v1)[n := None]\<rparr>)
      else (None, v))"

definition iv_clear :: "'a inline_vec \<Rightarrow> 'a inline_vec" where
  "iv_clear v = v\<lparr>iv_data := replicate (min (iv_len v) (length (iv_data v))) None @ drop (iv_len v) (iv_data v), iv_len := 0\<rparr>"

definition iv_get :: "'a inline_vec \<Rightarrow> nat \<Rightarrow> 'a option" where
  "iv_get v i = (if i < iv_len v then Option.bind (get (iv_data v) i) (\<lambda>c. c) else None)"

definition iv_iter :: "'a inline_vec \<Rightarrow> 'a list" where
  "iv_iter v = List.map_filter (\<lambda>c. c) (take (iv_len v) (iv_data v))"

definition iv_eq :: "'a inline_vec \<Rightarrow> 'a inline_vec \<Rightarrow> bool" where
  "iv_eq v w \<longleftrightarrow> iv_len v = iv_len w \<and> list_all (\<lambda>(a, b). a = b) (zip (iv_iter v) (iv_iter w))"

definition iv_deserialize :: "nat \<Rightarrow> 'a list \<Rightarrow> 'a inline_vec option" where
  "iv_deserialize cap raw =
     (if length raw > cap then None
      else case fold_r (\<lambda>x v. case iv_push v x of (Inl e, _) \<Rightarrow> Inl e | (Inr _, v') \<Rightarrow> Inr v') raw (iv_new cap) of
             Inl _ \<Rightarrow> None | Inr v \<Rightarrow> Some v)"

text \<open>The cells below the length are filled, those from it on are empty.\<close>

definition iv_holds :: "nat \<Rightarrow> 'a inline_vec \<Rightarrow> 'a list \<Rightarrow> bool" where
  "iv_holds cap v xs \<longleftrightarrow> length xs \<le> cap \<and>
     v = \<lparr>iv_data = map Some xs @ replicate (cap - length xs) None, iv_len = length xs\<rparr>"

lemma iv_holds_new: "iv_holds cap (iv_new cap) []"
  by (simp add: iv_holds_def iv_new_def)

lemma iv_holds_iter: "iv_holds cap v xs \<Longrightarrow> iv_iter v = xs"
  by (auto simp: iv_holds_def iv_iter_def map_filter_def comp_def)

lemma iv_holds_push:
  assumes "iv_holds cap v xs"
  shows "if length xs < cap then fst (iv_push v x) = Inr () \<and> iv_holds cap (snd (iv_push v x)) (xs @ [x])
         else iv_push v x = (Inl (ArithmeticOverflow ''inline_vec_push'' [cap]), v)"
proof (cases "length xs < cap")
  case True
  then obtain k where "cap - length xs = Suc k" by (metis Suc_diff_Suc)
  with True assms show ?thesis
    by (simp add: iv_holds_def iv_push_def get_def list_update_append)
qed (use assms in \<open>simp add: iv_holds_def iv_push_def\<close>)

lemma iv_holds_pop:
  assumes "iv_holds cap v xs"
  shows "fst (iv_pop v) = (if xs = [] then None else Some (last xs))"
    and "iv_holds cap (snd (iv_pop v)) (butlast xs)"
proof -
  show "fst (iv_pop v) = (if xs = [] then None else Some (last xs))"
    using assms by (cases xs rule: rev_cases) (auto simp: iv_holds_def iv_pop_def Let_def get_def nth_append)
  show "iv_holds cap (snd (iv_pop v)) (butlast xs)"
  proof (cases xs rule: rev_cases)
    case (snoc ys y)
    have "cap - length ys = Suc (cap - length xs)" using assms snoc by (auto simp: iv_holds_def)
    with assms snoc show ?thesis
      by (auto simp: iv_holds_def iv_pop_def Let_def get_def nth_append list_update_append)
  qed (use assms in \<open>simp add: iv_holds_def iv_pop_def\<close>)
qed

lemma iv_holds_clear: "iv_holds cap v xs \<Longrightarrow> iv_holds cap (iv_clear v) []"
  by (auto simp: iv_holds_def iv_clear_def simp flip: replicate_add)

lemma list_all_zip_eq: "length xs = length ys \<Longrightarrow> list_all (\<lambda>(a, b). a = b) (zip xs ys) \<longleftrightarrow> xs = ys"
  by (induction xs ys rule: list_induct2) auto

lemma iv_holds_eq: "iv_holds cap v xs \<Longrightarrow> iv_holds cap w ys \<Longrightarrow> iv_eq v w \<longleftrightarrow> xs = ys"
  unfolding iv_eq_def using list_all_zip_eq [of xs ys]
  by (metis iv_holds_iter iv_holds_def inline_vec.select_convs(2))

text \<open>Deserialisation is the inverse of the iterator serialisation, and refuses what does not fit.\<close>

lemma iv_push_fold:
  assumes "iv_holds cap v xs" and "length xs + length raw \<le> cap"
  shows "\<exists>v'. fold_r (\<lambda>x v. case iv_push v x of (Inl e, _) \<Rightarrow> Inl e | (Inr _, v') \<Rightarrow> Inr v') raw v = Inr v' \<and>
    iv_holds cap v' (xs @ raw)"
  using assms
proof (induction raw arbitrary: v xs)
  case (Cons x raw)
  then have "fst (iv_push v x) = Inr () \<and> iv_holds cap (snd (iv_push v x)) (xs @ [x])"
    using iv_holds_push [OF Cons.prems(1), of x] by simp
  then show ?case using Cons.IH [of "snd (iv_push v x)" "xs @ [x]"] Cons.prems by (auto split: prod.splits)
qed simp

lemma iv_deserialize_holds:
  "(if length raw \<le> cap then \<exists>v. iv_deserialize cap raw = Some v \<and> iv_holds cap v raw
    else iv_deserialize cap raw = None)"
  using iv_push_fold [OF iv_holds_new, where raw = raw and cap = cap] by (auto simp: iv_deserialize_def)

section \<open>Schedule records\<close>

datatype graph_mode = Auto | Launch_List | HipGraph

record schedule_record =
  sr_step_id :: nat
  sr_t_pre_us :: nat
  sr_t_draft_us :: nat
  sr_t_device_us :: nat
  sr_t_post_us :: nat
  sr_s :: nat
  sr_t_dec :: nat
  sr_t_pre :: nat
  sr_chunk :: nat
  sr_k :: "nat inline_vec"
  sr_accept_len :: "nat inline_vec"
  sr_forced_admission :: bool
  sr_budget_ms :: f32
  sr_bucket :: "nat \<times> nat \<times> nat"
  sr_graph_mode :: graph_mode
  sr_captured :: bool
  sr_paused :: "nat inline_vec"
  sr_segment_sync_us :: nat

section \<open>The ring\<close>

definition SCHEDULE_LOG_CAPACITY :: nat where "SCHEDULE_LOG_CAPACITY = 4096"

record 'r log_ring =
  lr_buffer :: "'r option list"
  lr_write_idx :: nat
  lr_total_written :: nat
  lr_capacity :: nat

type_synonym schedule_log_ring = "schedule_record log_ring"

definition ring_new :: "nat \<Rightarrow> 'r log_ring" where
  "ring_new capacity =
     (let cap = (if capacity = 0 then SCHEDULE_LOG_CAPACITY else capacity)
      in \<lparr>lr_buffer = replicate cap None, lr_write_idx = 0, lr_total_written = 0, lr_capacity = cap\<rparr>)"

definition ring_push :: "'r log_ring \<Rightarrow> 'r \<Rightarrow> unit sched_result \<times> 'r log_ring" where
  "ring_push r x =
     (case checked_add 64 (lr_total_written r) 1 of
        None \<Rightarrow> (Inl (ArithmeticOverflow ''total_written'' []), r)
      | Some next_total \<Rightarrow>
          (case get (lr_buffer r) (lr_write_idx r) of
             None \<Rightarrow> (Inl (Internal ''schedule log write index''), r)
           | Some _ \<Rightarrow>
               (Inr (), r\<lparr>lr_buffer := (lr_buffer r)[lr_write_idx r := Some x],
                          lr_write_idx := (lr_write_idx r + 1) mod lr_capacity r,
                          lr_total_written := next_total\<rparr>)))"

definition ring_len :: "'r log_ring \<Rightarrow> nat" where
  "ring_len r = (if lr_total_written r < lr_capacity r then lr_total_written r else lr_capacity r)"

definition ring_to_vec :: "'r log_ring \<Rightarrow> 'r list" where
  "ring_to_vec r =
     (if lr_total_written r < lr_capacity r
      then List.map_filter (\<lambda>c. c) (take (lr_total_written r) (lr_buffer r))
      else List.map_filter (\<lambda>i. Option.bind (get (lr_buffer r) ((lr_write_idx r + i) mod lr_capacity r)) (\<lambda>c. c))
             [0..<lr_capacity r])"

definition ring_clear :: "'r log_ring \<Rightarrow> 'r log_ring" where
  "ring_clear r = r\<lparr>lr_buffer := map (\<lambda>_. None) (lr_buffer r), lr_write_idx := 0, lr_total_written := 0\<rparr>"

section \<open>Refinement to the most recent records\<close>

text \<open>
  \<open>ring_logs r h\<close>: \<open>r\<close> has recorded exactly the history \<open>h\<close> since it was created or cleared. Cell
  \<open>i\<close> holds the latest record whose number is \<open>i\<close> modulo the capacity.
\<close>

definition ring_logs :: "'r log_ring \<Rightarrow> 'r list \<Rightarrow> bool" where
  "ring_logs r h \<longleftrightarrow> 0 < lr_capacity r \<and> length (lr_buffer r) = lr_capacity r \<and>
     lr_total_written r = length h \<and> lr_write_idx r = length h mod lr_capacity r \<and>
     (\<forall>j < length h. length h \<le> j + lr_capacity r \<longrightarrow> lr_buffer r ! (j mod lr_capacity r) = Some (h ! j))"

definition last_n :: "nat \<Rightarrow> 'a list \<Rightarrow> 'a list" where
  "last_n n xs = drop (length xs - n) xs"

lemma last_n_snoc: "0 < n \<Longrightarrow> last_n n (xs @ [x]) = (if length xs < n then xs @ [x] else tl (last_n n xs) @ [x])"
  by (auto simp: last_n_def Suc_diff_le tl_drop [symmetric] drop_Suc)

lemma length_last_n [simp]: "length (last_n n xs) = min n (length xs)"
  by (simp add: last_n_def)

lemma map_filter_Some: "(\<And>x. x \<in> set xs \<Longrightarrow> f x = Some (g x)) \<Longrightarrow> List.map_filter f xs = map g xs"
  by (induction xs) (simp_all add: map_filter_simps)

lemma ring_logs_new: "ring_logs (ring_new cap) []"
  by (simp add: ring_logs_def ring_new_def Let_def SCHEDULE_LOG_CAPACITY_def)

lemma ring_logs_clear: "ring_logs r h \<Longrightarrow> ring_logs (ring_clear r) []"
  by (simp add: ring_logs_def ring_clear_def)

lemma mod_neq_in_window:
  fixes j n c :: nat
  assumes "j < n" and "n < j + c"
  shows "j mod c \<noteq> n mod c"
proof
  assume "j mod c = n mod c"
  then have "(n - j) mod c = 0" using assms(1) by (metis mod_eq_dvd_iff_nat less_imp_le dvd_imp_mod_0)
  with assms show False by auto
qed

lemma ring_logs_push:
  assumes "ring_logs r h" and "length h + 1 < 2 ^ 64"
  shows "fst (ring_push r x) = Inr ()" and "ring_logs (snd (ring_push r x)) (h @ [x])"
proof -
  let ?c = "lr_capacity r" and ?n = "length h"
  have r: "0 < ?c" "length (lr_buffer r) = ?c" "lr_total_written r = ?n" "lr_write_idx r = ?n mod ?c"
    and cells: "\<And>j. j < ?n \<Longrightarrow> ?n \<le> j + ?c \<Longrightarrow> lr_buffer r ! (j mod ?c) = Some (h ! j)"
    using assms(1) by (auto simp: ring_logs_def)
  have lt: "?n mod ?c < ?c" using r(1) by simp
  have p: "ring_push r x = (Inr (), r\<lparr>lr_buffer := (lr_buffer r)[?n mod ?c := Some x],
      lr_write_idx := Suc ?n mod ?c, lr_total_written := ?n + 1\<rparr>)"
    using assms(2) r lt by (simp add: ring_push_def get_def checked_add_def mod_Suc_eq)
  then show "fst (ring_push r x) = Inr ()" by simp
  have "(lr_buffer r)[?n mod ?c := Some x] ! (j mod ?c) = Some ((h @ [x]) ! j)"
    if "j < Suc ?n" "Suc ?n \<le> j + ?c" for j
  proof (cases "j = ?n")
    case False
    then have "j < ?n" "?n < j + ?c" using that by auto
    then show ?thesis using cells [of j] mod_neq_in_window [of j ?n ?c] by (simp add: nth_append)
  qed (use lt r(2) in simp)
  then show "ring_logs (snd (ring_push r x)) (h @ [x])"
    using r by (simp add: p ring_logs_def)
qed

lemma ring_logs_to_vec:
  assumes "ring_logs r h"
  shows "ring_to_vec r = last_n (lr_capacity r) h"
proof -
  let ?c = "lr_capacity r" and ?n = "length h"
  have r: "0 < ?c" "length (lr_buffer r) = ?c" "lr_total_written r = ?n" "lr_write_idx r = ?n mod ?c"
    and cells: "\<And>j. j < ?n \<Longrightarrow> ?n \<le> j + ?c \<Longrightarrow> lr_buffer r ! (j mod ?c) = Some (h ! j)"
    using assms by (auto simp: ring_logs_def)
  show ?thesis
  proof (cases "?n < ?c")
    case True
    have "take ?n (lr_buffer r) = map Some h"
      by (rule nth_equalityI) (use True r cells in \<open>auto simp: mod_less\<close>)
    then show ?thesis using True r(3) by (simp add: ring_to_vec_def last_n_def map_filter_def comp_def)
  next
    case False
    have "Option.bind (get (lr_buffer r) ((lr_write_idx r + i) mod ?c)) (\<lambda>c. c) = Some (h ! (?n - ?c + i))"
      if "i < ?c" for i
    proof -
      have "(?n mod ?c + i) mod ?c = (?n - ?c + i) mod ?c"
        using False by (metis mod_add_left_eq le_mod_geq not_less)
      then show ?thesis using cells [of "?n - ?c + i"] that False r by (simp add: get_def)
    qed
    then have "ring_to_vec r = map (\<lambda>i. h ! (?n - ?c + i)) [0..<?c]"
      unfolding ring_to_vec_def r(3) using False by (simp only: if_False) (rule map_filter_Some, simp)
    also have "\<dots> = drop (?n - ?c) h" using False by (intro nth_equalityI) simp_all
    finally show ?thesis by (simp add: last_n_def)
  qed
qed

lemma ring_push_overflow:
  "ring_logs r h \<Longrightarrow> 2 ^ 64 \<le> length h + 1 \<Longrightarrow> ring_push r x = (Inl (ArithmeticOverflow ''total_written'' []), r)"
  by (simp add: ring_logs_def ring_push_def checked_add_def)

lemma ring_push_capacity [simp]: "lr_capacity (snd (ring_push r x)) = lr_capacity r"
  by (simp add: ring_push_def split: option.splits)

section \<open>The interface\<close>

locale bounded_log =
  fixes logs :: "'l \<Rightarrow> 'r list \<Rightarrow> bool" and contents :: "'l \<Rightarrow> 'r list" and push :: "'l \<Rightarrow> 'r \<Rightarrow> unit sched_result \<times> 'l"
    and clear :: "'l \<Rightarrow> 'l" and cap :: "'l \<Rightarrow> nat"
  assumes contents: "logs l h \<Longrightarrow> contents l = last_n (cap l) h"
    and cap_pos: "logs l h \<Longrightarrow> 0 < cap l"
    and push_cap: "cap (snd (push l x)) = cap l"
    and push_ok: "logs l h \<Longrightarrow> length h + 1 < 2 ^ 64 \<Longrightarrow> fst (push l x) = Inr () \<and> logs (snd (push l x)) (h @ [x])"
    and clear_ok: "logs l h \<Longrightarrow> logs (clear l) []"
begin

lemma push_contents:
  assumes "logs l h" and "length h + 1 < 2 ^ 64"
  shows "contents (snd (push l x)) =
    (if length h < cap l then contents l @ [x] else tl (contents l) @ [x])"
proof -
  have "contents (snd (push l x)) = last_n (cap l) (h @ [x])"
    using contents [OF conjunct2 [OF push_ok [OF assms]]] by (simp add: push_cap)
  also have "\<dots> = (if length h < cap l then h @ [x] else tl (contents l) @ [x])"
    by (simp add: last_n_snoc [OF cap_pos [OF assms(1)]] contents [OF assms(1)])
  finally show ?thesis using contents [OF assms(1)] by (simp add: last_n_def)
qed

lemma push_last: "logs l h \<Longrightarrow> length h + 1 < 2 ^ 64 \<Longrightarrow> last (contents (snd (push l x))) = x"
  using push_contents by simp

lemma pushes_contents:
  assumes "logs l h" and "length h + length xs < 2 ^ 64"
  shows "contents (foldl (\<lambda>l x. snd (push l x)) l xs) = last_n (cap l) (h @ xs)"
proof -
  have "logs (foldl (\<lambda>l x. snd (push l x)) l xs) (h @ xs) \<and> cap (foldl (\<lambda>l x. snd (push l x)) l xs) = cap l"
    using assms
  proof (induction xs arbitrary: l h)
    case (Cons x xs)
    then show ?case using push_ok [of l h x] Cons.IH [of "snd (push l x)" "h @ [x]"] by (simp add: push_cap)
  qed simp
  then show ?thesis using contents by metis
qed

end

interpretation ring: bounded_log ring_logs ring_to_vec ring_push ring_clear lr_capacity
proof
  fix l :: "'a log_ring" and h x
  assume l: "ring_logs l h"
  show "ring_to_vec l = last_n (lr_capacity l) h" by (rule ring_logs_to_vec [OF l])
  show "0 < lr_capacity l" using l by (simp add: ring_logs_def)
  show "ring_logs (ring_clear l) []" by (rule ring_logs_clear [OF l])
  assume "length h + 1 < 2 ^ 64"
  then show "fst (ring_push l x) = Inr () \<and> ring_logs (snd (ring_push l x)) (h @ [x])"
    using ring_logs_push [OF l] by simp
qed simp

end
