(* ===== verification/Sched_Streams.thy ===== *)
theory Sched_Streams
  imports Sched_Log
begin

text \<open>
  The three streams and the per-step event chain of \<open>crates/r9v-sched/src/streams.rs\<close>. The
  chain keeps at most sixteen records per step in fixed cells; \<open>validate_step_chain\<close> is
  shown to accept exactly the chains that follow the upload, compute and readback
  protocol.
\<close>

section \<open>Events\<close>

definition MAX_EVENTS_PER_STEP :: nat where "MAX_EVENTS_PER_STEP = 16"

datatype stream_kind = Compute | Comms | Copy

datatype event_kind =
  UploadComplete | WaitUpload | ComputeComplete | WaitCompute | ReadbackComplete | CommsComplete | WaitComms

record step_event_record =
  er_step_id :: nat
  er_stream :: stream_kind
  er_event_kind :: event_kind
  er_event_id :: nat
  er_awaited_event :: "nat option"

record step_event_chain =
  ec_event_counter :: nat
  ec_current_step :: "nat option"
  ec_records :: "step_event_record option list"
  ec_count :: nat

definition chain_new :: step_event_chain where
  "chain_new = \<lparr>ec_event_counter = 0, ec_current_step = None, ec_records = replicate MAX_EVENTS_PER_STEP None, ec_count = 0\<rparr>"

definition begin_step :: "step_event_chain \<Rightarrow> nat \<Rightarrow> step_event_chain" where
  "begin_step c step_id =
     c\<lparr>ec_current_step := Some step_id, ec_records := replicate MAX_EVENTS_PER_STEP None, ec_count := 0\<rparr>"

definition chain_get :: "step_event_chain \<Rightarrow> nat \<Rightarrow> step_event_record option" where
  "chain_get c i = (if i < ec_count c then Option.bind (get (ec_records c) i) (\<lambda>r. r) else None)"

definition next_event_id :: "step_event_chain \<Rightarrow> nat sched_result \<times> step_event_chain" where
  "next_event_id c =
     (case checked_add 64 (ec_event_counter c) 1 of
        None \<Rightarrow> (Inl (ArithmeticOverflow ''event_id'' []), c)
      | Some n \<Rightarrow> (Inr n, c\<lparr>ec_event_counter := n\<rparr>))"

definition record_entry :: "nat \<Rightarrow> stream_kind \<Rightarrow> event_kind \<Rightarrow> nat option \<Rightarrow> step_event_chain \<Rightarrow> nat sched_result \<times> step_event_chain" where
  "record_entry step_id stream kind awaited c =
     (if ec_count c \<ge> MAX_EVENTS_PER_STEP then (Inl (ArithmeticOverflow ''step_event_storage'' [MAX_EVENTS_PER_STEP]), c)
      else case next_event_id c of
             (Inl e, c1) \<Rightarrow> (Inl e, c1)
           | (Inr eid, c1) \<Rightarrow>
               (case get (ec_records c1) (ec_count c1) of
                  None \<Rightarrow> (Inl (Internal ''step event storage index out of bounds''), c1)
                | Some _ \<Rightarrow>
                    (Inr eid, c1\<lparr>ec_records := (ec_records c1)[ec_count c1 := Some
                       \<lparr>er_step_id = step_id, er_stream = stream, er_event_kind = kind, er_event_id = eid, er_awaited_event = awaited\<rparr>],
                      ec_count := ec_count c1 + 1\<rparr>)))"

definition record_upload_complete :: "nat \<Rightarrow> step_event_chain \<Rightarrow> nat sched_result \<times> step_event_chain" where
  "record_upload_complete step_id = record_entry step_id Copy UploadComplete None"

definition record_wait :: "nat \<Rightarrow> stream_kind \<Rightarrow> nat \<Rightarrow> step_event_chain \<Rightarrow> nat sched_result \<times> step_event_chain" where
  "record_wait step_id stream awaited_event =
     record_entry step_id stream (case stream of Compute \<Rightarrow> WaitUpload | Copy \<Rightarrow> WaitCompute | Comms \<Rightarrow> WaitComms)
       (Some awaited_event)"

definition record_compute_complete :: "nat \<Rightarrow> step_event_chain \<Rightarrow> nat sched_result \<times> step_event_chain" where
  "record_compute_complete step_id = record_entry step_id Compute ComputeComplete None"

definition record_readback_complete :: "nat \<Rightarrow> step_event_chain \<Rightarrow> nat sched_result \<times> step_event_chain" where
  "record_readback_complete step_id = record_entry step_id Copy ReadbackComplete None"

definition record_comms_event :: "nat \<Rightarrow> event_kind \<Rightarrow> step_event_chain \<Rightarrow> nat sched_result \<times> step_event_chain" where
  "record_comms_event step_id kind = record_entry step_id Comms kind None"

definition chain_clear :: "step_event_chain \<Rightarrow> step_event_chain" where
  "chain_clear c = c\<lparr>ec_records := replicate MAX_EVENTS_PER_STEP None, ec_count := 0, ec_current_step := None\<rparr>"

section \<open>Validation\<close>

definition check_chain_records :: "nat \<Rightarrow> step_event_record \<Rightarrow> step_event_record \<Rightarrow> step_event_record \<Rightarrow> step_event_record \<Rightarrow>
    step_event_record \<Rightarrow> unit sched_result" where
  "check_chain_records step_id r0 r1 r2 r3 r4 =
     (if er_step_id r0 \<noteq> step_id \<or> er_step_id r1 \<noteq> step_id \<or> er_step_id r2 \<noteq> step_id \<or> er_step_id r3 \<noteq> step_id \<or>
         er_step_id r4 \<noteq> step_id
      then Inl (ExecutionFailed (EventStepMismatch step_id))
      else if \<not> (er_event_id r0 < er_event_id r1 \<and> er_event_id r1 < er_event_id r2 \<and> er_event_id r2 < er_event_id r3 \<and>
                 er_event_id r3 < er_event_id r4)
      then Inl (ExecutionFailed (NonMonotonicEvents step_id))
      else if er_stream r0 \<noteq> Copy \<or> er_event_kind r0 \<noteq> UploadComplete
      then Inl (ExecutionFailed (WrongEvent step_id 0))
      else if er_stream r1 \<noteq> Compute \<or> er_event_kind r1 \<noteq> WaitUpload \<or> er_awaited_event r1 \<noteq> Some (er_event_id r0)
      then Inl (ExecutionFailed (WrongEvent step_id 1))
      else if er_stream r2 \<noteq> Compute \<or> er_event_kind r2 \<noteq> ComputeComplete
      then Inl (ExecutionFailed (WrongEvent step_id 2))
      else if er_stream r3 \<noteq> Copy \<or> er_event_kind r3 \<noteq> WaitCompute \<or> er_awaited_event r3 \<noteq> Some (er_event_id r2)
      then Inl (ExecutionFailed (WrongEvent step_id 3))
      else if er_stream r4 \<noteq> Copy \<or> er_event_kind r4 \<noteq> ReadbackComplete
      then Inl (ExecutionFailed (WrongEvent step_id 4))
      else Inr ())"

definition validate_step_chain :: "step_event_chain \<Rightarrow> nat \<Rightarrow> unit sched_result" where
  "validate_step_chain c step_id =
     (if ec_count c \<noteq> 5 then Inl (ExecutionFailed (EventCount step_id (ec_count c)))
      else bind_r (ok_or (ExecutionFailed (MissingEvent step_id 0)) (chain_get c 0)) (\<lambda>r0.
           bind_r (ok_or (ExecutionFailed (MissingEvent step_id 1)) (chain_get c 1)) (\<lambda>r1.
           bind_r (ok_or (ExecutionFailed (MissingEvent step_id 2)) (chain_get c 2)) (\<lambda>r2.
           bind_r (ok_or (ExecutionFailed (MissingEvent step_id 3)) (chain_get c 3)) (\<lambda>r3.
           bind_r (ok_or (ExecutionFailed (MissingEvent step_id 4)) (chain_get c 4)) (\<lambda>r4.
             check_chain_records step_id r0 r1 r2 r3 r4))))))"

section \<open>Recording\<close>

text \<open>The records of the current step, in order.\<close>

definition chain_holds :: "step_event_chain \<Rightarrow> step_event_record list \<Rightarrow> bool" where
  "chain_holds c rs \<longleftrightarrow> length rs \<le> MAX_EVENTS_PER_STEP \<and> ec_count c = length rs \<and>
     ec_records c = map Some rs @ replicate (MAX_EVENTS_PER_STEP - length rs) None"

lemma chain_holds_begin: "chain_holds (begin_step c i) []"
  by (simp add: chain_holds_def begin_step_def)

lemma chain_holds_get: "chain_holds c rs \<Longrightarrow> chain_get c i = (if i < length rs then Some (rs ! i) else None)"
  by (auto simp: chain_holds_def chain_get_def get_def nth_append)

lemma record_entry_ok:
  assumes "chain_holds c rs" and "length rs < MAX_EVENTS_PER_STEP" and "ec_event_counter c + 1 < 2 ^ 64"
  shows "\<exists>c'. record_entry i st k aw c = (Inr (ec_event_counter c + 1), c') \<and> ec_event_counter c' = ec_event_counter c + 1 \<and>
    chain_holds c' (rs @ [\<lparr>er_step_id = i, er_stream = st, er_event_kind = k, er_event_id = ec_event_counter c + 1,
      er_awaited_event = aw\<rparr>])"
proof -
  obtain n where "MAX_EVENTS_PER_STEP - length rs = Suc n" using assms(2) by (metis Suc_diff_Suc)
  moreover from this have "MAX_EVENTS_PER_STEP - Suc (length rs) = n" by simp
  ultimately show ?thesis using assms
    by (simp add: record_entry_def next_event_id_def checked_add_def chain_holds_def get_def list_update_append)
qed

lemma record_entry_overflow:
  "2 ^ 64 \<le> ec_event_counter c + 1 \<Longrightarrow> ec_count c < MAX_EVENTS_PER_STEP \<Longrightarrow>
   record_entry i st k aw c = (Inl (ArithmeticOverflow ''event_id'' []), c)"
  by (simp add: record_entry_def next_event_id_def checked_add_def)

text \<open>Validation accepts exactly the five-event protocol.\<close>

definition protocol :: "nat \<Rightarrow> step_event_record list \<Rightarrow> bool" where
  "protocol i rs \<longleftrightarrow>
     (\<exists>u w c w' r. u < w \<and> w < c \<and> c < w' \<and> w' < r \<and> (\<exists>a a' a''.
        rs = [\<lparr>er_step_id = i, er_stream = Copy, er_event_kind = UploadComplete, er_event_id = u, er_awaited_event = a\<rparr>,
              \<lparr>er_step_id = i, er_stream = Compute, er_event_kind = WaitUpload, er_event_id = w, er_awaited_event = Some u\<rparr>,
              \<lparr>er_step_id = i, er_stream = Compute, er_event_kind = ComputeComplete, er_event_id = c, er_awaited_event = a'\<rparr>,
              \<lparr>er_step_id = i, er_stream = Copy, er_event_kind = WaitCompute, er_event_id = w', er_awaited_event = Some c\<rparr>,
              \<lparr>er_step_id = i, er_stream = Copy, er_event_kind = ReadbackComplete, er_event_id = r, er_awaited_event = a''\<rparr>]))"

lemma check_chain_records_iff:
  "check_chain_records i r0 r1 r2 r3 r4 = Inr () \<longleftrightarrow> protocol i [r0, r1, r2, r3, r4]"
proof -
  have e: "r = \<lparr>er_step_id = i, er_stream = s, er_event_kind = k, er_event_id = n, er_awaited_event = a\<rparr> \<longleftrightarrow>
      er_step_id r = i \<and> er_stream r = s \<and> er_event_kind r = k \<and> er_event_id r = n \<and> er_awaited_event r = a"
    for r :: step_event_record and s k n a
    by (cases r) auto
  show ?thesis by (auto simp: check_chain_records_def protocol_def e)
qed

lemma validate_step_chain_iff:
  assumes "chain_holds c rs"
  shows "validate_step_chain c i = Inr () \<longleftrightarrow> protocol i rs"
proof (cases "length rs = 5")
  case True
  then obtain r0 r1 r2 r3 r4 where rs: "rs = [r0, r1, r2, r3, r4]"
    by (auto simp: length_Suc_conv eval_nat_numeral)
  have g: "chain_get c 0 = Some r0" "chain_get c 1 = Some r1" "chain_get c 2 = Some r2" "chain_get c 3 = Some r3" "chain_get c 4 = Some r4"
    using chain_holds_get [OF assms] by (simp_all add: rs)
  have "ec_count c = 5" using assms rs by (simp add: chain_holds_def)
  then show ?thesis unfolding validate_step_chain_def g by (simp add: check_chain_records_iff rs)
next
  case False
  then show ?thesis using assms by (auto simp: validate_step_chain_def chain_holds_def protocol_def)
qed

end
