(* ===== verification/Sched_Cost.thy ===== *)
theory Sched_Cost
  imports Sched_Error Btree_Map
begin

text \<open>
  Step costs of \<open>crates/r9v-sched/src/cost.rs\<close>: budget resolution, prefill room and the
  choice of the prefill chunk, over the \<open>cost_ms\<close> method of a cost table, which is a
  parameter of the definitions; \<open>stub_cost_ms\<close> is the method of the in-memory
  \<open>CostTableStub\<close>. Every value that is not finite, or negative where a cost or budget is
  expected, is refused.
\<close>

type_synonym cost_fn = "nat \<Rightarrow> nat \<Rightarrow> nat \<Rightarrow> f32 sched_result"

section \<open>Validation\<close>

definition validate_cost_ms :: "string \<Rightarrow> f32 \<Rightarrow> f32 sched_result" where
  "validate_cost_ms context_name v = (if \<not> is_finite v \<or> f32_less v f32_zero then Inl (InvalidCost context_name v) else Inr v)"

definition validate_budget_ms :: "f32 \<Rightarrow> f32 sched_result" where
  "validate_budget_ms v = (if \<not> is_finite v \<or> f32_le v f32_zero then Inl (InvalidCost ''step_budget'' v) else Inr v)"

datatype profile_mode = Latency | Throughput

datatype step_budget_config = Manual f32 | AutoBudget

section \<open>Default methods of the cost table\<close>

definition resolve_budget_ms :: "cost_fn \<Rightarrow> step_budget_config \<Rightarrow> profile_mode \<Rightarrow> f32 sched_result" where
  "resolve_budget_ms cost_ms config profile =
     bind_r (case config of
               Manual ms \<Rightarrow> Inr ms
             | AutoBudget \<Rightarrow> bind_r (cost_ms 1 1 0) (\<lambda>base.
                 Inr (case profile of Latency \<Rightarrow> f32_mul f32_1_25 base | Throughput \<Rightarrow> f32_mul (f32_of_nat 8) base)))
       validate_budget_ms"

definition decode_cost :: "cost_fn \<Rightarrow> nat \<Rightarrow> nat \<Rightarrow> f32 sched_result" where
  "decode_cost cost_ms s_dec t_dec = (if s_dec > 0 \<and> t_dec > 0 then cost_ms s_dec t_dec 0 else Inr f32_zero)"

definition prefill_room_ms :: "cost_fn \<Rightarrow> f32 \<Rightarrow> nat \<Rightarrow> nat \<Rightarrow> f32 \<Rightarrow> f32 sched_result" where
  "prefill_room_ms cost_ms budget_ms s_dec t_dec pre_step_estimate_ms =
     (if \<not> is_finite budget_ms \<or> \<not> is_finite pre_step_estimate_ms
      then Inl (InvalidCost ''prefill_room_inputs'' (if \<not> is_finite budget_ms then budget_ms else pre_step_estimate_ms))
      else bind_r (decode_cost cost_ms s_dec t_dec) (\<lambda>d_cost.
             Inr (f32_sub (f32_sub budget_ms d_cost) pre_step_estimate_ms)))"

text \<open>The loop over the buckets, largest first.\<close>

fun select_bucket :: "cost_fn \<Rightarrow> nat \<Rightarrow> nat \<Rightarrow> nat \<Rightarrow> f32 \<Rightarrow> nat \<Rightarrow> nat \<Rightarrow> f32 \<Rightarrow> nat list \<Rightarrow> nat option sched_result" where
  "select_bucket cost_ms remaining s_dec t_dec room_ms min_chunk max_chunk d_cost [] = Inr None"
| "select_bucket cost_ms remaining s_dec t_dec room_ms min_chunk max_chunk d_cost (b # bs) =
     (if b \<ge> min_chunk \<and> b \<le> max_chunk \<and> b \<le> remaining
      then bind_r (cost_ms (case checked_add 32 s_dec 1 of Some n \<Rightarrow> n | None \<Rightarrow> s_dec) t_dec b) (\<lambda>next_cost.
             if f32_le (f32_sub next_cost d_cost) room_ms then Inr (Some b)
             else select_bucket cost_ms remaining s_dec t_dec room_ms min_chunk max_chunk d_cost bs)
      else select_bucket cost_ms remaining s_dec t_dec room_ms min_chunk max_chunk d_cost bs)"

definition select_prefill_chunk :: "cost_fn \<Rightarrow> nat \<Rightarrow> nat \<Rightarrow> nat \<Rightarrow> f32 \<Rightarrow> nat \<Rightarrow> nat \<Rightarrow> nat option sched_result" where
  "select_prefill_chunk cost_ms remaining_prompt s_dec t_dec room_ms min_chunk max_chunk =
     (if \<not> is_finite room_ms then Inl (InvalidCost ''prefill_room'' room_ms)
      else if f32_le room_ms f32_zero \<or> remaining_prompt = 0 then Inr None
      else bind_r (decode_cost cost_ms s_dec t_dec) (\<lambda>d_cost.
        if remaining_prompt < min_chunk
        then bind_r (cost_ms (case checked_add 32 s_dec 1 of Some n \<Rightarrow> n | None \<Rightarrow> s_dec) t_dec min_chunk) (\<lambda>next_cost.
               if f32_le (f32_sub next_cost d_cost) room_ms then Inr (Some remaining_prompt) else Inr None)
        else select_bucket cost_ms remaining_prompt s_dec t_dec room_ms min_chunk max_chunk d_cost (rev BUCKET_SIZES)))"

definition estimate_pre_step_ms :: "f32 \<Rightarrow> f32" where
  "estimate_pre_step_ms budget_ms =
     (if \<not> is_finite budget_ms \<or> f32_le budget_ms f32_zero then f32_zero else f32_mul budget_ms f32_0_1)"

section \<open>The stub table\<close>

record cost_table_stub =
  ct_exact_table :: "(nat \<times> nat \<times> nat, f32) btree"
  ct_base_decode_ms :: f32
  ct_decode_token_ms :: f32
  ct_prefill_token_ms :: f32

definition unwrap_or :: "('e, 'a) result \<Rightarrow> 'a \<Rightarrow> 'a" where
  "unwrap_or r d = (case r of Inl _ \<Rightarrow> d | Inr a \<Rightarrow> a)"

definition bucket_shape :: "nat \<Rightarrow> nat \<Rightarrow> nat \<Rightarrow> nat \<times> nat \<times> nat" where
  "bucket_shape s t_dec t_pre =
     (unwrap_or (bucket_s (max s 1)) 1, unwrap_or (bucket_t_dec (max t_dec 1)) 1, unwrap_or (bucket_t_pre t_pre) 0)"

definition set_bucket_cost :: "cost_table_stub \<Rightarrow> nat \<Rightarrow> nat \<Rightarrow> nat \<Rightarrow> f32 \<Rightarrow> cost_table_stub" where
  "set_bucket_cost t s t_dec t_pre cost_ms =
     t\<lparr>ct_exact_table := bt_insert (bucket_shape s t_dec t_pre) cost_ms (ct_exact_table t)\<rparr>"

definition stub_cost_ms :: "cost_table_stub \<Rightarrow> cost_fn" where
  "stub_cost_ms t s t_dec t_pre =
     (let (b_s, b_dec, b_pre) = bucket_shape s t_dec t_pre;
          cost = (case map_of (ct_exact_table t) (b_s, b_dec, b_pre) of
                    Some c \<Rightarrow> c
                  | None \<Rightarrow>
                      let c0 = ct_base_decode_ms t;
                          c1 = (if b_dec > b_s then f32_add c0 (f32_mul (f32_of_nat (b_dec - b_s)) (ct_decode_token_ms t)) else c0)
                      in if b_pre > 0 then f32_add c1 (f32_mul (f32_of_nat b_pre) (ct_prefill_token_ms t)) else c1)
      in validate_cost_ms ''cost_table'' cost)"

section \<open>Facts\<close>

lemma resolve_budget_finite:
  "resolve_budget_ms cost_ms c p = Inr b \<Longrightarrow> is_finite b \<and> \<not> f32_le b f32_zero"
  by (auto simp: resolve_budget_ms_def validate_budget_ms_def bind_r_eq_Inr split: if_splits)

lemma stub_cost_valid: "stub_cost_ms t s d p = Inr c \<Longrightarrow> is_finite c \<and> \<not> f32_less c f32_zero"
  by (auto simp: stub_cost_ms_def validate_cost_ms_def Let_def split: prod.splits if_splits)

text \<open>The chosen bucket is a candidate that fits, and every larger candidate was too expensive.\<close>

definition chunk_fits :: "cost_fn \<Rightarrow> nat \<Rightarrow> nat \<Rightarrow> f32 \<Rightarrow> f32 \<Rightarrow> nat \<Rightarrow> bool" where
  "chunk_fits cost_ms s t_dec d_cost room_ms b \<longleftrightarrow>
     (\<exists>c. cost_ms s t_dec b = Inr c \<and> f32_le (f32_sub c d_cost) room_ms)"

lemma select_bucket_Some:
  assumes "select_bucket cost_ms n s d room lo hi dc bs = Inr (Some b)" and "sorted_wrt (>) bs" and "s + 1 < 2 ^ 32"
  shows "b \<in> set bs \<and> lo \<le> b \<and> b \<le> hi \<and> b \<le> n \<and> chunk_fits cost_ms (s + 1) d dc room b \<and>
    (\<forall>c \<in> set bs. b < c \<longrightarrow> lo \<le> c \<longrightarrow> c \<le> hi \<longrightarrow> c \<le> n \<longrightarrow> \<not> chunk_fits cost_ms (s + 1) d dc room c)"
  using assms
  by (induction cost_ms n s d room lo hi dc bs rule: select_bucket.induct)
     (auto simp: bind_r_eq_Inr chunk_fits_def checked_add_def split: if_splits)

lemma select_bucket_None:
  assumes "select_bucket cost_ms n s d room lo hi dc bs = Inr None" and "s + 1 < 2 ^ 32"
  shows "\<forall>c \<in> set bs. lo \<le> c \<longrightarrow> c \<le> hi \<longrightarrow> c \<le> n \<longrightarrow> \<not> chunk_fits cost_ms (s + 1) d dc room c"
  using assms
  by (induction cost_ms n s d room lo hi dc bs rule: select_bucket.induct)
     (auto simp: bind_r_eq_Inr chunk_fits_def checked_add_def split: if_splits)

lemma rev_buckets: "sorted_wrt (>) (rev BUCKET_SIZES)" "set (rev BUCKET_SIZES) = set BUCKET_SIZES"
  by (simp add: BUCKET_SIZES_def) (rule set_rev)

lemma select_prefill_chunk_bounds:
  assumes "select_prefill_chunk cost_ms n s d room lo hi = Inr (Some b)" and "0 < lo" and "lo \<le> hi" and "s + 1 < 2 ^ 32"
  shows "0 < b \<and> b \<le> n \<and> b \<le> hi"
proof (cases "n < lo")
  case True
  with assms show ?thesis by (auto simp: select_prefill_chunk_def bind_r_eq_Inr split: if_splits)
next
  case False
  with assms(1) obtain dc where "select_bucket cost_ms n s d room lo hi dc (rev BUCKET_SIZES) = Inr (Some b)"
    by (auto simp: select_prefill_chunk_def bind_r_eq_Inr split: if_splits)
  from select_bucket_Some [OF this rev_buckets(1) assms(4)] assms(2) show ?thesis by simp
qed

end
