(* ===== verification/Sched_Detok.thy ===== *)
theory Sched_Detok
  imports Sched_Error
begin

text \<open>
  Incremental detokenization of \<open>crates/r9v-sched/src/types.rs\<close>. Text is a list of bytes, the
  way a Rust \<open>String\<close> stores it; \<open>utf8_valid\<close> is the test of \<open>std::str::from_utf8\<close>. The
  \<open>Detokenizer\<close> trait is a record of operations over the detokenizer's own state, so that the
  scheduler can be run with any implementation; \<open>byte_detokenizer\<close> is the default one.

  \<open>detokenizer\<close> states what the trait promises its callers: text is only appended, what is
  appended is valid UTF-8 and its length is the returned count.
\<close>

type_synonym utf8 = "nat list"

section \<open>UTF-8\<close>

definition continuation :: "nat \<Rightarrow> bool" where
  "continuation b \<longleftrightarrow> 0x80 \<le> b \<and> b \<le> 0xBF"

text \<open>The length a leading byte announces; 0 for a byte that cannot lead.\<close>

definition char_len :: "nat \<Rightarrow> nat" where
  "char_len b =
     (if b \<le> 0x7F then 1 else if 0xC2 \<le> b \<and> b \<le> 0xDF then 2
      else if 0xE0 \<le> b \<and> b \<le> 0xEF then 3 else if 0xF0 \<le> b \<and> b \<le> 0xF4 then 4 else 0)"

text \<open>The well-formed encodings of one scalar value: no overlong form, no surrogate, at most \<open>U+10FFFF\<close>.\<close>

definition utf8_char :: "nat list \<Rightarrow> bool" where
  "utf8_char bs \<longleftrightarrow>
     (case bs of
        [a] \<Rightarrow> a \<le> 0x7F
      | [a, b] \<Rightarrow> 0xC2 \<le> a \<and> a \<le> 0xDF \<and> continuation b
      | [a, b, c] \<Rightarrow> 0xE0 \<le> a \<and> a \<le> 0xEF \<and> continuation b \<and> continuation c \<and>
          (a = 0xE0 \<longrightarrow> 0xA0 \<le> b) \<and> (a = 0xED \<longrightarrow> b \<le> 0x9F)
      | [a, b, c, d] \<Rightarrow> 0xF0 \<le> a \<and> a \<le> 0xF4 \<and> continuation b \<and> continuation c \<and> continuation d \<and>
          (a = 0xF0 \<longrightarrow> 0x90 \<le> b) \<and> (a = 0xF4 \<longrightarrow> b \<le> 0x8F)
      | _ \<Rightarrow> False)"

function utf8_valid :: "utf8 \<Rightarrow> bool" where
  "utf8_valid bs \<longleftrightarrow>
     (if bs = [] then True
      else let n = char_len (hd bs)
           in if 0 < n \<and> n \<le> length bs \<and> utf8_char (take n bs) then utf8_valid (drop n bs) else False)"
  by auto
termination by (relation "measure length") auto

declare utf8_valid.simps [simp del]

text \<open>A byte index at which a character starts or the text ends.\<close>

definition char_boundary :: "utf8 \<Rightarrow> nat \<Rightarrow> bool" where
  "char_boundary t i \<longleftrightarrow> i = length t \<or> (i < length t \<and> \<not> continuation (t ! i))"

lemma utf8_char_cases:
  assumes "utf8_char c"
  obtains a where "c = [a]" "a \<le> 0x7F"
  | a b where "c = [a, b]" "0xC2 \<le> a" "a \<le> 0xDF" "continuation b"
  | a b d where "c = [a, b, d]" "0xE0 \<le> a" "a \<le> 0xEF" "continuation b" "continuation d"
  | a b d e where "c = [a, b, d, e]" "0xF0 \<le> a" "a \<le> 0xF4" "continuation b" "continuation d" "continuation e"
  using assms by (auto simp: utf8_char_def split: list.splits)

lemma utf8_charD:
  assumes "utf8_char c"
  shows "c \<noteq> []" "char_len (hd c) = length c" "length c \<le> 4" "\<not> continuation (hd c)"
    "0 < i \<Longrightarrow> i < length c \<Longrightarrow> continuation (c ! i)"
proof -
  show "c \<noteq> []" "char_len (hd c) = length c" "length c \<le> 4" "\<not> continuation (hd c)"
    using assms by (cases rule: utf8_char_cases; simp add: char_len_def continuation_def)+
  show "0 < i \<Longrightarrow> i < length c \<Longrightarrow> continuation (c ! i)"
    using assms by (cases rule: utf8_char_cases) (auto simp: nth_Cons' numeral_3_eq_3 less_Suc_eq)
qed

lemma utf8_char_single: "utf8_char [a] \<longleftrightarrow> a \<le> 0x7F"
  by (simp add: utf8_char_def)

lemma utf8_valid_Nil [simp]: "utf8_valid []"
  by (simp add: utf8_valid.simps)

lemma utf8_valid_char_append: "utf8_char c \<Longrightarrow> utf8_valid (c @ t) \<longleftrightarrow> utf8_valid t"
proof -
  assume c: "utf8_char c"
  then have "char_len (hd (c @ t)) = length c" "c \<noteq> []" using utf8_charD(1,2) by (auto simp: hd_append)
  then show ?thesis using c by (subst utf8_valid.simps) (simp add: Let_def)
qed

lemma utf8_valid_charD:
  assumes "utf8_valid t" and "t \<noteq> []"
  obtains c t' where "t = c @ t'" and "utf8_char c" and "utf8_valid t'"
proof -
  have "utf8_char (take (char_len (hd t)) t)" "utf8_valid (drop (char_len (hd t)) t)"
    using assms utf8_valid.simps [of t] by (simp_all add: Let_def split: if_splits)
  then show thesis using that [of "take (char_len (hd t)) t" "drop (char_len (hd t)) t"] by simp
qed

text \<open>Induction over the characters of a valid text.\<close>

lemma utf8_induct [consumes 1, case_names empty char]:
  assumes "utf8_valid t" and "P []" and "\<And>c t. utf8_char c \<Longrightarrow> utf8_valid t \<Longrightarrow> P t \<Longrightarrow> P (c @ t)"
  shows "P t"
  using assms(1)
proof (induction t rule: length_induct)
  case (1 t)
  show ?case
  proof (cases "t = []")
    case False
    obtain c t' where t: "t = c @ t'" "utf8_char c" "utf8_valid t'" using utf8_valid_charD [OF 1(2) False] .
    then have "length t' < length t" using utf8_charD(1) by auto
    then show ?thesis using 1 t assms(3) by blast
  qed (use assms(2) in simp)
qed

lemma utf8_valid_append: "utf8_valid s \<Longrightarrow> utf8_valid (s @ t) \<longleftrightarrow> utf8_valid t"
  by (induction s rule: utf8_induct) (simp_all add: utf8_valid_char_append)

lemma boundary_in_char: "utf8_char c \<Longrightarrow> 0 < i \<Longrightarrow> i < length c \<Longrightarrow> \<not> char_boundary (c @ t) i"
  using utf8_charD(5) by (simp add: char_boundary_def nth_append)

lemma boundary_shift: "length c \<le> i \<Longrightarrow> char_boundary (c @ t) i \<longleftrightarrow> char_boundary t (i - length c)"
  by (auto simp: char_boundary_def nth_append)

text \<open>Cutting a valid text at a boundary, and only there, leaves two valid texts.\<close>

lemma utf8_valid_cut: "utf8_valid t \<Longrightarrow> char_boundary t i \<Longrightarrow> utf8_valid (take i t) \<and> utf8_valid (drop i t)"
proof (induction t arbitrary: i rule: utf8_induct)
  case (char c t)
  show ?case
  proof (cases "i < length c")
    case True
    then have "i = 0" using boundary_in_char [OF char(1)] char.prems by (cases "i = 0") auto
    then show ?thesis using char by (simp add: utf8_valid_char_append)
  next
    case False
    then show ?thesis using char boundary_shift [of c i t] by (simp add: utf8_valid_char_append)
  qed
qed (simp add: char_boundary_def)

lemma utf8_valid_boundary: "utf8_valid t \<Longrightarrow> utf8_valid (drop i t) \<Longrightarrow> i \<le> length t \<Longrightarrow> char_boundary t i"
proof (cases "i = length t")
  case False
  assume d: "utf8_valid (drop i t)" and "i \<le> length t"
  with False have i: "i < length t" by simp
  then have ne: "drop i t \<noteq> []" by simp
  obtain c t' where c: "drop i t = c @ t'" "utf8_char c" using utf8_valid_charD [OF d ne] by blast
  then have "t ! i = hd c" using utf8_charD(1) [OF c(2)] i by (simp flip: hd_drop_conv_nth)
  then show ?thesis using utf8_charD(4) [OF c(2)] i by (simp add: char_boundary_def)
qed (simp add: char_boundary_def)

lemma boundary_start: "utf8_valid t \<Longrightarrow> char_boundary t 0"
  by (rule utf8_valid_boundary) simp_all

text \<open>Boundaries are at most four bytes apart.\<close>

lemma boundary_near:
  assumes "utf8_valid t" and "i \<le> length t"
  shows "\<exists>j. i \<le> j \<and> j < i + 4 \<and> char_boundary t j"
  using assms
proof (induction t arbitrary: i rule: utf8_induct)
  case (char c t)
  show ?case
  proof (cases "length c \<le> i")
    case True
    then obtain j where j: "i - length c \<le> j" "j < i - length c + 4" "char_boundary t j"
      using char.IH [of "i - length c"] char.prems by (metis diff_le_mono diff_add_inverse length_append)
    with True show ?thesis using boundary_shift [of c "j + length c" t] by (intro exI [of _ "j + length c"]) auto
  next
    case False
    have "char_boundary (c @ t) (length c)" using boundary_shift [of c "length c" t] boundary_start [OF char(2)] by simp
    moreover have "char_boundary (c @ t) 0" using boundary_start char(1,2) utf8_valid_char_append by blast
    ultimately show ?thesis using False utf8_charD(3) [OF char(1)]
      by (cases "i = 0") (force intro: exI [of _ "length c"])+
  qed
qed (simp add: char_boundary_def)

section \<open>The interface\<close>

record 'd detok_ops =
  dt_append_token :: "'d \<Rightarrow> nat \<Rightarrow> nat \<Rightarrow> utf8 \<Rightarrow> nat sched_result \<times> 'd \<times> utf8"
  dt_buffered_len :: "'d \<Rightarrow> nat \<Rightarrow> nat"
  dt_reset :: "'d \<Rightarrow> nat \<Rightarrow> 'd"

text \<open>The provided methods of the trait.\<close>

fun detokenize_from :: "'d detok_ops \<Rightarrow> 'd \<Rightarrow> nat \<Rightarrow> nat list \<Rightarrow> utf8 \<Rightarrow> nat \<Rightarrow> nat sched_result \<times> 'd \<times> utf8" where
  "detokenize_from D d q [] out tot = (Inr tot, d, out)"
| "detokenize_from D d q (t # ts) out tot =
     (case dt_append_token D d q t out of
        (Inl e, d1, out1) \<Rightarrow> (Inl e, d1, out1)
      | (Inr n, d1, out1) \<Rightarrow>
          (case checked_add 64 tot n of
             None \<Rightarrow> (Inl (ArithmeticOverflow ''detokenize_to'' []), d1, out1)
           | Some tot1 \<Rightarrow> detokenize_from D d1 q ts out1 tot1))"

definition detokenize_to :: "'d detok_ops \<Rightarrow> 'd \<Rightarrow> nat \<Rightarrow> nat list \<Rightarrow> utf8 \<Rightarrow> nat sched_result \<times> 'd \<times> utf8" where
  "detokenize_to D d q ts out = detokenize_from D d q ts out 0"

definition detokenize :: "'d detok_ops \<Rightarrow> 'd \<Rightarrow> nat \<Rightarrow> nat list \<Rightarrow> utf8 sched_result \<times> 'd" where
  "detokenize D d q ts =
     (case detokenize_to D d q ts [] of (Inl e, d1, _) \<Rightarrow> (Inl e, d1) | (Inr _, d1, s) \<Rightarrow> (Inr s, d1))"

locale detokenizer =
  fixes D :: "'d detok_ops" and ok :: "'d \<Rightarrow> bool"
  assumes appends: "ok d \<Longrightarrow> dt_append_token D d q t out = (r, d', out') \<Longrightarrow> \<exists>bs. out' = out @ bs \<and> utf8_valid bs"
    and counts: "ok d \<Longrightarrow> dt_append_token D d q t out = (Inr n, d', out') \<Longrightarrow> length out' = length out + n"
    and keeps: "ok d \<Longrightarrow> dt_append_token D d q t out = (r, d', out') \<Longrightarrow> ok d'"
    and reset_ok: "ok d \<Longrightarrow> ok (dt_reset D d q)"
begin

lemma appended:
  assumes "ok d" and "dt_append_token D d q t out = (Inr n, d', out')"
  obtains bs where "out' = out @ bs" and "length bs = n" and "utf8_valid bs"
  using appends [OF assms] counts [OF assms] by auto

lemma detokenize_from_valid:
  assumes "ok d" and "utf8_valid out" and "detokenize_from D d q ts out tot = (r, d', out')"
  shows "utf8_valid out' \<and> ok d' \<and> (\<forall>n. r = Inr n \<longrightarrow> n + length out = tot + length out')"
  using assms
proof (induction ts arbitrary: d out tot)
  case (Cons t ts)
  obtain r1 d1 out1 where a: "dt_append_token D d q t out = (r1, d1, out1)" by (cases "dt_append_token D d q t out")
  have v: "utf8_valid out1" "ok d1" using appends [OF Cons.prems(1) a] keeps [OF Cons.prems(1) a] Cons.prems(2) utf8_valid_append by auto
  show ?case
  proof (cases r1)
    case (Inr n)
    have "length out1 = length out + n" using counts [OF Cons.prems(1)] a Inr by blast
    with v a Inr Cons.prems(3) Cons.IH [OF v(2,1), of "tot + n"] show ?thesis
      by (simp add: checked_add_def split: if_splits) auto
  qed (use a Cons.prems(3) v in auto)
qed auto

end

section \<open>The byte detokenizer\<close>

record byte_detokenizer =
  bd_active_seq :: "nat option"
  bd_buf :: "nat list"
  bd_buf_len :: nat
  bd_expected_len :: nat

definition byte_new :: byte_detokenizer where
  "byte_new = \<lparr>bd_active_seq = None, bd_buf = [0, 0, 0, 0], bd_buf_len = 0, bd_expected_len = 0\<rparr>"

definition byte_buffered_len :: "byte_detokenizer \<Rightarrow> nat \<Rightarrow> nat" where
  "byte_buffered_len d q = (if bd_active_seq d = Some q then bd_buf_len d else 0)"

text \<open>A leading byte of a multi-byte character goes to the first buffer cell.\<close>

definition start_char :: "byte_detokenizer \<Rightarrow> nat \<Rightarrow> nat \<Rightarrow> utf8 \<Rightarrow> nat sched_result \<times> byte_detokenizer \<times> utf8" where
  "start_char d b expected out =
     (if bd_buf d = [] then (Inl (DetokenizeError (OtherDetok ''detokenizer buffer unavailable'')), d, out)
      else (Inr 0, d\<lparr>bd_buf := (bd_buf d)[0 := b], bd_buf_len := 1, bd_expected_len := expected\<rparr>, out))"

definition byte_append_token :: "byte_detokenizer \<Rightarrow> nat \<Rightarrow> nat \<Rightarrow> utf8 \<Rightarrow> nat sched_result \<times> byte_detokenizer \<times> utf8" where
  "byte_append_token d0 q token out =
     (if token > 255 then (Inl (DetokenizeError (TokenExceedsByte token)), d0, out)
      else
        let b = token mod 256;
            d = (if bd_active_seq d0 \<noteq> Some q
                 then d0\<lparr>bd_active_seq := Some q, bd_buf_len := 0, bd_expected_len := 0\<rparr> else d0)
        in if bd_buf_len d = 0 then
             (if b \<le> 0x7F then (Inr 1, d, out @ [b])
              else if 0xC2 \<le> b \<and> b \<le> 0xDF then start_char d b 2 out
              else if 0xE0 \<le> b \<and> b \<le> 0xEF then start_char d b 3 out
              else if 0xF0 \<le> b \<and> b \<le> 0xF4 then start_char d b 4 out
              else (Inl (DetokenizeError (InvalidStartByte b)), d, out))
           else if continuation b then
             (let pos = bd_buf_len d
              in if length (bd_buf d) \<le> pos then (Inl (DetokenizeError (BufferOverflow pos)), d, out)
                 else let d1 = d\<lparr>bd_buf := (bd_buf d)[pos := b], bd_buf_len := bd_buf_len d + 1\<rparr>
                      in if bd_buf_len d1 = bd_expected_len d1
                         then (let tot = bd_buf_len d1; d2 = d1\<lparr>bd_buf_len := 0, bd_expected_len := 0\<rparr>;
                                   pending = take tot (bd_buf d2)
                               in if length (bd_buf d2) < tot
                                  then (Inl (DetokenizeError (BufferOverflow tot)), d2, out)
                                  else if utf8_valid pending then (Inr tot, d2, out @ pending)
                                  else (Inl (DetokenizeError (InvalidUtf8 pending)), d2, out))
                         else (Inr 0, d1, out))
           else (Inl (DetokenizeError (ExpectedContinuation b)), d\<lparr>bd_buf_len := 0, bd_expected_len := 0\<rparr>, out))"

definition byte_reset :: "byte_detokenizer \<Rightarrow> nat \<Rightarrow> byte_detokenizer" where
  "byte_reset d q =
     (if bd_active_seq d = Some q then d\<lparr>bd_buf_len := 0, bd_expected_len := 0, bd_active_seq := None\<rparr> else d)"

definition byte_ops :: "byte_detokenizer detok_ops" where
  "byte_ops = \<lparr>dt_append_token = byte_append_token, dt_buffered_len = byte_buffered_len, dt_reset = byte_reset\<rparr>"

text \<open>
  The buffer is empty, or holds a proper prefix of a character: its leading byte announces
  the expected length and continuation bytes follow.
\<close>

definition bd_ok :: "byte_detokenizer \<Rightarrow> bool" where
  "bd_ok d \<longleftrightarrow> length (bd_buf d) = 4 \<and>
     (bd_buf_len d = 0 \<or>
      (bd_buf_len d < bd_expected_len d \<and> bd_expected_len d = char_len (bd_buf d ! 0) \<and> 2 \<le> bd_expected_len d \<and>
       (\<forall>i. 0 < i \<longrightarrow> i < bd_buf_len d \<longrightarrow> continuation (bd_buf d ! i))))"

text \<open>The bytes of the sequence that are not text yet.\<close>

definition byte_pending :: "byte_detokenizer \<Rightarrow> nat \<Rightarrow> utf8" where
  "byte_pending d q = (if bd_active_seq d = Some q then take (bd_buf_len d) (bd_buf d) else [])"

lemma char_len_cases: "char_len b \<in> {0, 1, 2, 3, 4}"
  by (simp add: char_len_def)

lemma bd_ok_len: "bd_ok d \<Longrightarrow> bd_buf_len d < 4"
  using char_len_cases [of "bd_buf d ! 0"] by (auto simp: bd_ok_def)

lemma byte_pending_length: "bd_ok d \<Longrightarrow> length (byte_pending d q) = byte_buffered_len d q"
  using bd_ok_len [of d] by (auto simp: byte_pending_def byte_buffered_len_def bd_ok_def)

lemma bd_ok_new: "bd_ok byte_new" "byte_pending byte_new q = []"
  by (simp_all add: bd_ok_def byte_new_def byte_pending_def)

text \<open>
  One accepted token: the text and the bytes kept back together grow by exactly that byte,
  and only whole characters become text.
\<close>

definition byte_step :: "byte_detokenizer \<Rightarrow> nat \<Rightarrow> nat \<Rightarrow> utf8 \<Rightarrow> nat sched_result \<times> byte_detokenizer \<times> utf8 \<Rightarrow> bool" where
  "byte_step d q token out = (\<lambda>(r, d', out').
     bd_ok d' \<and>
     (case r of
        Inl e \<Rightarrow> out' = out \<and> (token \<le> 255 \<longrightarrow> byte_pending d' q = [])
      | Inr n \<Rightarrow> token \<le> 255 \<and> (\<exists>bs. out' = out @ bs \<and> length bs = n \<and> (bs = [] \<or> utf8_char bs) \<and>
          bs @ byte_pending d' q = byte_pending d q @ [token] \<and> (bs \<noteq> [] \<longrightarrow> byte_pending d' q = []))))"

lemma byte_step_cong: "byte_pending d q = byte_pending d2 q \<Longrightarrow> byte_step d q token out = byte_step d2 q token out"
  by (simp only: byte_step_def)

lemma utf8_valid_one_char:
  assumes "utf8_valid c" and "c \<noteq> []" and "char_len (hd c) = length c"
  shows "utf8_char c"
  using assms utf8_valid.simps [of c] by (simp add: Let_def split: if_splits)

lemma byte_append_fresh:
  assumes "bd_ok d" and "bd_active_seq d = Some q" and "bd_buf_len d = 0" and "token \<le> 255"
  shows "byte_step d q token out (byte_append_token d q token out)"
proof -
  have l: "length (bd_buf d) = 4" and ne: "bd_buf d \<noteq> []" using assms(1) by (auto simp: bd_ok_def)
  have p: "byte_pending d q = []" using assms by (simp add: byte_pending_def)
  have st: "byte_step d q token out (start_char d token n out)" if "n = char_len token" "2 \<le> n" for n
  proof -
    have "take 1 ((bd_buf d)[0 := token]) = [token]" using l by (cases "bd_buf d") auto
    then show ?thesis using that assms(2,3,4) l ne
      by (simp add: byte_step_def start_char_def bd_ok_def byte_pending_def)
  qed
  consider "token \<le> 0x7F" | "0xC2 \<le> token" "token \<le> 0xDF" | "0xE0 \<le> token" "token \<le> 0xEF"
    | "0xF0 \<le> token" "token \<le> 0xF4" | "0x80 \<le> token" "token \<le> 0xC1" | "0xF5 \<le> token" by linarith
  then show ?thesis
  proof cases
    case 1
    then show ?thesis using assms p by (simp add: byte_append_token_def byte_step_def utf8_char_single Let_def)
  next
    case 2
    then show ?thesis using assms st [of 2] by (simp add: byte_append_token_def Let_def char_len_def)
  next
    case 3
    then show ?thesis using assms st [of 3] by (simp add: byte_append_token_def Let_def char_len_def)
  next
    case 4
    then show ?thesis using assms st [of 4] by (simp add: byte_append_token_def Let_def char_len_def)
  qed (use assms p in \<open>simp_all add: byte_append_token_def byte_step_def Let_def\<close>)
qed

lemma byte_append_middle:
  assumes "bd_ok d" and "bd_active_seq d = Some q" and "bd_buf_len d \<noteq> 0" and "token \<le> 255"
  shows "byte_step d q token out (byte_append_token d q token out)"
proof (cases "continuation token")
  case False
  with assms show ?thesis by (simp add: byte_append_token_def byte_step_def Let_def bd_ok_def byte_pending_def)
next
  case True
  let ?n = "bd_buf_len d" and ?buf = "(bd_buf d)[bd_buf_len d := token]"
  have ok: "length (bd_buf d) = 4" "?n < bd_expected_len d" "bd_expected_len d = char_len (bd_buf d ! 0)" "2 \<le> bd_expected_len d"
      "\<And>i. 0 < i \<Longrightarrow> i < ?n \<Longrightarrow> continuation (bd_buf d ! i)"
    using assms(1,3) by (auto simp: bd_ok_def)
  have n4: "?n < 4" by (rule bd_ok_len [OF assms(1)])
  have h: "?buf ! 0 = bd_buf d ! 0" using assms(3) by simp
  have tk: "take (Suc ?n) ?buf = take ?n (bd_buf d) @ [token]" using n4 ok(1) by (simp add: take_Suc_conv_app_nth)
  have p: "byte_pending d q = take ?n (bd_buf d)" using assms(2) by (simp add: byte_pending_def)
  show ?thesis
  proof (cases "Suc ?n = bd_expected_len d")
    case False
    have "bd_ok (d\<lparr>bd_buf := ?buf, bd_buf_len := Suc ?n\<rparr>)"
      using ok False True h n4 by (auto simp: bd_ok_def nth_list_update less_Suc_eq)
    moreover have "byte_append_token d q token out = (Inr 0, d\<lparr>bd_buf := ?buf, bd_buf_len := Suc ?n\<rparr>, out)"
      using assms True False n4 ok(1) by (simp add: byte_append_token_def Let_def)
    ultimately show ?thesis using assms tk p by (simp add: byte_step_def byte_pending_def)
  next
    case full: True
    let ?d = "d\<lparr>bd_buf := ?buf, bd_buf_len := 0, bd_expected_len := 0\<rparr>" and ?c = "take (Suc ?n) ?buf"
    have e: "byte_append_token d q token out =
        (if utf8_valid ?c then (Inr (Suc ?n), ?d, out @ ?c) else (Inl (DetokenizeError (InvalidUtf8 ?c)), ?d, out))"
      using assms True full n4 ok(1) by (simp add: byte_append_token_def Let_def)
    have ok': "bd_ok ?d" "byte_pending ?d q = []" using ok(1) by (simp_all add: bd_ok_def byte_pending_def)
    have lc: "length ?c = Suc ?n" using n4 ok(1) by simp
    have "hd ?c = ?buf ! 0" using n4 ok(1) by (metis hd_conv_nth hd_take length_greater_0_conv length_list_update list.size(3) zero_less_Suc zero_neq_numeral)
    then have "char_len (hd ?c) = length ?c" using h ok(3) full lc by simp
    then have "utf8_valid ?c \<Longrightarrow> utf8_char ?c" using utf8_valid_one_char [of ?c] lc by fastforce
    then show ?thesis using assms(4) ok' tk p lc unfolding e by (auto simp: byte_step_def)
  qed
qed

lemma byte_append_step:
  assumes "bd_ok d"
  shows "byte_step d q token out (byte_append_token d q token out)"
proof (cases "token \<le> 255")
  case False
  with assms show ?thesis by (simp add: byte_append_token_def byte_step_def)
next
  case t: True
  show ?thesis
  proof (cases "bd_active_seq d = Some q")
    case True
    then show ?thesis using byte_append_fresh byte_append_middle assms t by (cases "bd_buf_len d = 0") auto
  next
    case False
    let ?d = "d\<lparr>bd_active_seq := Some q, bd_buf_len := 0, bd_expected_len := 0\<rparr>"
    have "byte_append_token d q token out = byte_append_token ?d q token out"
      using False t by (simp add: byte_append_token_def Let_def)
    moreover have "bd_ok ?d" using assms by (simp add: bd_ok_def)
    moreover have "byte_pending ?d q = []" "byte_pending d q = []" using False by (simp_all add: byte_pending_def)
    ultimately show ?thesis using byte_append_fresh [of ?d q token out] t byte_step_cong [of d q ?d] by simp
  qed
qed

lemma byte_append_facts:
  assumes "bd_ok d" and "dt_append_token byte_ops d q t out = (r, d', out')"
  shows "\<exists>bs. out' = out @ bs \<and> utf8_valid bs" and "bd_ok d'" and "r = Inr n \<Longrightarrow> length out' = length out + n"
proof -
  have s: "byte_step d q t out (r, d', out')" using byte_append_step [OF assms(1), of q t out] assms(2) by (simp add: byte_ops_def)
  then show "\<exists>bs. out' = out @ bs \<and> utf8_valid bs" and "bd_ok d'"
    using utf8_valid_char_append [where t = "[]"] by (fastforce simp: byte_step_def split: sum.splits)+
  show "r = Inr n \<Longrightarrow> length out' = length out + n" using s by (auto simp: byte_step_def)
qed

interpretation byte: detokenizer byte_ops bd_ok
proof
  show "\<exists>bs. out' = out @ bs \<and> utf8_valid bs" if "bd_ok d" "dt_append_token byte_ops d q t out = (r, d', out')"
    for d q t out r d' out' using byte_append_facts(1) [OF that] .
  show "length out' = length out + n" if "bd_ok d" "dt_append_token byte_ops d q t out = (Inr n, d', out')"
    for d q t out n d' out' using byte_append_facts(3) [OF that] by simp
  show "bd_ok d'" if "bd_ok d" "dt_append_token byte_ops d q t out = (r, d', out')"
    for d q t out r d' out' using byte_append_facts(2) [OF that] .
  show "bd_ok (dt_reset byte_ops d q)" if "bd_ok d" for d q
    using that by (simp add: byte_ops_def byte_reset_def bd_ok_def)
qed

section \<open>Incremental and batch decoding agree\<close>

text \<open>
  Accepted token by token, a stream is decoded to the text that \<open>from_utf8\<close> accepts for the
  same bytes, up to the bytes of a last unfinished character.
\<close>

lemma byte_detokenize_from:
  assumes "bd_ok d" and "detokenize_from byte_ops d q ts out tot = (Inr n, d', out')"
  shows "out' @ byte_pending d' q = out @ byte_pending d q @ ts" and "bd_ok d'" and "\<forall>t \<in> set ts. t \<le> 255"
proof -
  have "out' @ byte_pending d' q = out @ byte_pending d q @ ts \<and> bd_ok d' \<and> (\<forall>t \<in> set ts. t \<le> 255)"
    using assms
  proof (induction ts arbitrary: d out tot)
    case (Cons t ts)
    obtain m d1 out1 where a: "byte_append_token d q t out = (Inr m, d1, out1)"
        and rest: "detokenize_from byte_ops d1 q ts out1 (tot + m) = (Inr n, d', out')"
      using Cons.prems(2) by (auto simp: byte_ops_def checked_add_def split: prod.splits sum.splits if_splits)
    have s: "bd_ok d1" "t \<le> 255" "out1 @ byte_pending d1 q = out @ byte_pending d q @ [t]"
      using byte_append_step [OF Cons.prems(1), of q t out] by (auto simp: a byte_step_def)
    from Cons.IH [OF s(1) rest] s show ?case by (simp flip: append_assoc)
  qed simp
  then show "out' @ byte_pending d' q = out @ byte_pending d q @ ts" "bd_ok d'" "\<forall>t \<in> set ts. t \<le> 255" by blast+
qed

end
