(* ===== verification/Sched_Seq.thy ===== *)
theory Sched_Seq
  imports Sched_Detok
begin

text \<open>
  Requests, stop criteria and the sequence record of \<open>crates/r9v-sched/src/types.rs\<close>, with the
  sampling-parameter check of \<open>crates/r9v-ir/src/op.rs\<close>. \<open>append_generated_token\<close> is the whole
  method: incremental detokenization, byte spans, the budget, EOS and stop-string tests,
  and the bounded tail. \<open>String::drain\<close> panics when its end is not a character boundary, so
  the result is a \<open>fate\<close>. Vector capacities are not modelled.
\<close>

section \<open>Sampling parameters\<close>

record sampling_params =
  sp_temperature :: f32
  sp_top_k :: nat
  sp_top_p :: f32
  sp_min_p :: f32
  sp_repetition_penalty :: f32
  sp_presence_penalty :: f32
  sp_frequency_penalty :: f32
  sp_logit_bias :: "(nat \<times> f32) list"

definition sampling_problem :: "string \<Rightarrow> bool \<Rightarrow> f32 \<Rightarrow> ir_error list" where
  "sampling_problem attr bad v = (if bad then [OpAttributeInvalid ''sampling_params'' attr None v] else [])"

definition sampling_validate :: "sampling_params \<Rightarrow> (ir_error, unit) result" where
  "sampling_validate p = from_problems
     (sampling_problem ''temperature'' (\<not> is_finite (sp_temperature p) \<or> f32_less (sp_temperature p) f32_zero) (sp_temperature p) @
      sampling_problem ''top_p'' (\<not> is_finite (sp_top_p p) \<or> f32_le (sp_top_p p) f32_zero \<or> f32_less f32_one (sp_top_p p)) (sp_top_p p) @
      sampling_problem ''min_p'' (\<not> is_finite (sp_min_p p) \<or> f32_less (sp_min_p p) f32_zero \<or> f32_less f32_one (sp_min_p p)) (sp_min_p p) @
      sampling_problem ''repetition_penalty'' (\<not> is_finite (sp_repetition_penalty p) \<or> f32_le (sp_repetition_penalty p) f32_zero)
        (sp_repetition_penalty p) @
      sampling_problem ''presence_penalty'' (\<not> is_finite (sp_presence_penalty p)) (sp_presence_penalty p) @
      sampling_problem ''frequency_penalty'' (\<not> is_finite (sp_frequency_penalty p)) (sp_frequency_penalty p) @
      concat (map (\<lambda>(token, bias). if \<not> is_finite bias
                     then [OpAttributeInvalid ''sampling_params'' ''logit_bias'' (Some token) bias] else []) (sp_logit_bias p)))"

section \<open>Stop criteria\<close>

record stop_criteria =
  st_eos_token_ids :: "nat set"
  st_stop_strings :: "utf8 list"
  st_max_stop_len :: nat

definition stop_default :: stop_criteria where
  "stop_default = \<lparr>st_eos_token_ids = {}, st_stop_strings = [], st_max_stop_len = 256\<rparr>"

definition stop_new :: "nat set \<Rightarrow> utf8 list \<Rightarrow> stop_criteria" where
  "stop_new eos strings = \<lparr>st_eos_token_ids = eos, st_stop_strings = strings, st_max_stop_len = fold max (map length strings) 0\<rparr>"

definition is_eos :: "stop_criteria \<Rightarrow> nat \<Rightarrow> bool" where
  "is_eos c token_id \<longleftrightarrow> token_id \<in> st_eos_token_ids c"

text \<open>\<open>str::find\<close>: the least byte index at which the pattern occurs.\<close>

definition occurs :: "utf8 \<Rightarrow> utf8 \<Rightarrow> nat \<Rightarrow> bool" where
  "occurs pat t i \<longleftrightarrow> i + length pat \<le> length t \<and> take (length pat) (drop i t) = pat"

definition str_find :: "utf8 \<Rightarrow> utf8 \<Rightarrow> nat option" where
  "str_find t pat = List.find (occurs pat t) [0..<length t + 1]"

fun check_stop_from :: "utf8 \<Rightarrow> utf8 list \<Rightarrow> (nat \<times> utf8) option \<Rightarrow> (nat \<times> utf8) option" where
  "check_stop_from t [] earliest = earliest"
| "check_stop_from t (stop_str # rest) earliest =
     (if stop_str = [] then check_stop_from t rest earliest
      else case str_find t stop_str of
             None \<Rightarrow> check_stop_from t rest earliest
           | Some idx \<Rightarrow>
               (case earliest of
                  Some (earliest_idx, s) \<Rightarrow>
                    if idx < earliest_idx then check_stop_from t rest (Some (idx, stop_str))
                    else check_stop_from t rest earliest
                | None \<Rightarrow> check_stop_from t rest (Some (idx, stop_str))))"

definition check_stop_string :: "stop_criteria \<Rightarrow> utf8 \<Rightarrow> (nat \<times> utf8) option" where
  "check_stop_string c t = check_stop_from t (st_stop_strings c) None"

section \<open>Requests\<close>

record request =
  rq_id :: nat
  rq_tokens :: "nat list"
  rq_sampling :: sampling_params
  rq_max_tokens :: nat
  rq_stop :: stop_criteria
  rq_stream :: bool
  rq_seed :: nat

definition request_problems :: "nat list \<Rightarrow> nat \<Rightarrow> sampling_params \<Rightarrow> sched_problem list" where
  "request_problems tokens max_tokens sampling =
     (if tokens = [] then [EmptyPrompt] else []) @
     (if max_tokens = 0 then [ZeroMaxTokens] else []) @
     (case sampling_validate sampling of
        Inr _ \<Rightarrow> []
      | Inl (Multiple errs) \<Rightarrow> map InvalidSamplingParam errs
      | Inl e \<Rightarrow> [InvalidSamplingParam e])"

definition request_new_with_seed :: "nat \<Rightarrow> nat list \<Rightarrow> sampling_params \<Rightarrow> nat \<Rightarrow> stop_criteria \<Rightarrow> bool \<Rightarrow> nat \<Rightarrow> request sched_result" where
  "request_new_with_seed rid tokens sampling max_tokens stop stream seed =
     (let problems = request_problems tokens max_tokens sampling
      in if problems \<noteq> [] then Inl (InvalidRequest problems)
         else Inr \<lparr>rq_id = rid, rq_tokens = tokens, rq_sampling = sampling, rq_max_tokens = max_tokens, rq_stop = stop,
                   rq_stream = stream, rq_seed = seed\<rparr>)"

definition request_new :: "nat \<Rightarrow> nat list \<Rightarrow> sampling_params \<Rightarrow> nat \<Rightarrow> stop_criteria \<Rightarrow> bool \<Rightarrow> request sched_result" where
  "request_new rid tokens sampling max_tokens stop stream =
     request_new_with_seed rid tokens sampling max_tokens stop stream rid"

definition with_seed :: "request \<Rightarrow> nat \<Rightarrow> request" where
  "with_seed r seed = r\<lparr>rq_seed := seed\<rparr>"

section \<open>Sequences\<close>

datatype finish_reason = Eos nat | MaxTokens | StopString utf8 | Cancelled

datatype sequence_phase = Queued | Prefilling nat | Decoding | Finished finish_reason

record sequence =
  sq_req :: request
  sq_seq_id :: nat
  sq_phase :: sequence_phase
  sq_ctx_len :: nat
  sq_generated :: "nat list"
  sq_accept_ema :: f32
  sq_arrival_order :: nat
  sq_wait_steps :: nat
  sq_accumulated_wait_ms :: f32
  sq_detokenized_tail :: utf8
  sq_tail_start_byte :: nat
  sq_token_byte_spans :: "(nat \<times> nat \<times> nat) list"
  sq_pending_utf8_start :: "(nat \<times> nat) option"

definition sequence_new :: "request \<Rightarrow> nat \<Rightarrow> nat \<Rightarrow> sequence" where
  "sequence_new req seq_id arrival_order =
     \<lparr>sq_req = req, sq_seq_id = seq_id, sq_phase = Queued, sq_ctx_len = 0, sq_generated = [], sq_accept_ema = f32_one,
      sq_arrival_order = arrival_order, sq_wait_steps = 0, sq_accumulated_wait_ms = f32_zero, sq_detokenized_tail = [],
      sq_tail_start_byte = 0, sq_token_byte_spans = [], sq_pending_utf8_start = None\<rparr>"

definition is_finished :: "sequence \<Rightarrow> bool" where
  "is_finished s \<longleftrightarrow> (case sq_phase s of Finished _ \<Rightarrow> True | _ \<Rightarrow> False)"

text \<open>\<open>self.req.tokens.len() as u32\<close> truncates.\<close>

definition prompt_len :: "sequence \<Rightarrow> nat" where
  "prompt_len s = length (rq_tokens (sq_req s)) mod 2 ^ 32"

definition remaining_prompt :: "sequence \<Rightarrow> nat" where
  "remaining_prompt s =
     (case sq_phase s of Queued \<Rightarrow> prompt_len s | Prefilling n \<Rightarrow> prompt_len s - n | _ \<Rightarrow> 0)"

definition reset_tail_state :: "sequence \<Rightarrow> sequence" where
  "reset_tail_state s =
     s\<lparr>sq_detokenized_tail := [], sq_tail_start_byte := 0, sq_token_byte_spans := [], sq_pending_utf8_start := None\<rparr>"

section \<open>Appending a generated token\<close>

text \<open>The token's bytes and its span, step 1 after the detokenizer call.\<close>

definition push_token :: "sequence \<Rightarrow> nat \<Rightarrow> nat \<Rightarrow> nat \<Rightarrow> nat \<Rightarrow> nat \<Rightarrow> sequence" where
  "push_token s token token_idx token_start_byte appended_bytes token_end_byte =
     (let s1 = s\<lparr>sq_generated := sq_generated s @ [token]\<rparr>
      in if appended_bytes = 0
         then (if sq_pending_utf8_start s1 = None
               then s1\<lparr>sq_pending_utf8_start := Some (token_idx, token_start_byte)\<rparr> else s1)
         else (case sq_pending_utf8_start s1 of
                 Some (pending_idx, pending_byte) \<Rightarrow>
                   s1\<lparr>sq_pending_utf8_start := None,
                      sq_token_byte_spans := sq_token_byte_spans s1 @ [(pending_idx, pending_byte, token_end_byte)]\<rparr>
               | None \<Rightarrow>
                   s1\<lparr>sq_token_byte_spans := sq_token_byte_spans s1 @ [(token_idx, token_start_byte, token_end_byte)]\<rparr>))"

text \<open>Step 5: trim the generated tokens at the matched byte.\<close>

definition stop_at :: "sequence \<Rightarrow> nat \<Rightarrow> nat \<times> utf8 \<Rightarrow> (finish_reason option \<times> bool) fate \<times> sequence" where
  "stop_at s token_idx = (\<lambda>(match_offset, matched_str).
     case checked_add 64 (sq_tail_start_byte s) match_offset of
       None \<Rightarrow> (Failed (ArithmeticOverflow ''match_byte'' []), s)
     | Some absolute_match_byte \<Rightarrow>
         let cut_token_idx = (case List.find (\<lambda>(_, _, e). e > absolute_match_byte) (sq_token_byte_spans s) of
                                Some (idx, _, _) \<Rightarrow> idx | None \<Rightarrow> token_idx)
         in (Done (Some (StopString matched_str), token_idx \<ge> cut_token_idx),
             s\<lparr>sq_generated := take cut_token_idx (sq_generated s)\<rparr>))"

text \<open>Step 6: keep the tail bounded; \<open>drain\<close> panics off a character boundary.\<close>

definition drain_tail :: "sequence \<Rightarrow> nat \<Rightarrow> (finish_reason option \<times> bool) fate \<times> sequence" where
  "drain_tail s trim_bytes =
     (if \<not> char_boundary (sq_detokenized_tail s) trim_bytes then (Panicked ''drain end is not a char boundary'', s)
      else let s1 = s\<lparr>sq_detokenized_tail := drop trim_bytes (sq_detokenized_tail s)\<rparr>
           in case checked_add 64 (sq_tail_start_byte s) trim_bytes of
                None \<Rightarrow> (Failed (ArithmeticOverflow ''tail_start_byte'' []), s1)
              | Some start \<Rightarrow>
                  (Done (None, False),
                   s1\<lparr>sq_tail_start_byte := start,
                      sq_token_byte_spans := filter (\<lambda>(_, _, e). e > start) (sq_token_byte_spans s1)\<rparr>))"

definition bound_tail :: "sequence \<Rightarrow> (finish_reason option \<times> bool) fate \<times> sequence" where
  "bound_tail s =
     (let max_stop_len = st_max_stop_len (rq_stop (sq_req s)); tail = sq_detokenized_tail s;
          max_keep = max (case checked_mul 64 max_stop_len 2 of Some n \<Rightarrow> n | None \<Rightarrow> 512) 128
      in if max_stop_len > 0 \<and> length tail > max_keep then
           (let excess = length tail - max_stop_len;
                trim_bytes = (case List.find (\<lambda>i. excess \<le> i) (filter (\<lambda>i. \<not> continuation (tail ! i)) [0..<length tail]) of
                                Some i \<Rightarrow> i | None \<Rightarrow> excess)
            in if trim_bytes > 0 \<and> trim_bytes \<le> length tail then drain_tail s trim_bytes else (Done (None, False), s))
         else (Done (None, False), s))"

text \<open>Steps 2 to 6 on the pushed token.\<close>

definition evaluate_stop :: "'d detok_ops \<Rightarrow> sequence \<Rightarrow> nat \<Rightarrow> nat \<Rightarrow> bool \<Rightarrow> bool \<Rightarrow> 'd \<Rightarrow>
    (finish_reason option \<times> bool) fate \<times> sequence" where
  "evaluate_stop D s token token_idx fills_budget eos d =
     (if fills_budget then (Done (Some MaxTokens, False), s)
      else if dt_buffered_len D d (sq_seq_id s) > 0 then (Done (None, False), s)
      else if eos then (Done (Some (Eos token), False), s)
      else case (if st_stop_strings (rq_stop (sq_req s)) \<noteq> []
                 then check_stop_string (rq_stop (sq_req s)) (sq_detokenized_tail s) else None) of
             Some m \<Rightarrow> stop_at s token_idx m
           | None \<Rightarrow> bound_tail s)"

definition append_generated_token :: "'d detok_ops \<Rightarrow> sequence \<Rightarrow> nat \<Rightarrow> 'd \<Rightarrow>
    (finish_reason option \<times> bool) fate \<times> sequence \<times> 'd" where
  "append_generated_token D s token d =
     (let fills_budget = (length (sq_generated s) + 1 \<ge> rq_max_tokens (sq_req s));
          eos = is_eos (rq_stop (sq_req s)) token;
          token_idx = length (sq_generated s);
          tail_len_before = length (sq_detokenized_tail s)
      in case checked_add 64 (sq_tail_start_byte s) tail_len_before of
           None \<Rightarrow> (Failed (ArithmeticOverflow ''tail_bytes'' []), s, d)
         | Some token_start_byte \<Rightarrow>
             (case dt_append_token D d (sq_seq_id s) token (sq_detokenized_tail s) of
                (Inl e, d1, tail) \<Rightarrow> (Failed e, s\<lparr>sq_detokenized_tail := tail\<rparr>, d1)
              | (Inr appended_bytes, d1, tail) \<Rightarrow>
                  let s1 = s\<lparr>sq_detokenized_tail := tail\<rparr>
                  in case checked_add 64 token_start_byte appended_bytes of
                       None \<Rightarrow> (Failed (ArithmeticOverflow ''tail_bytes'' []), s1, d1)
                     | Some token_end_byte \<Rightarrow>
                         let s2 = push_token s1 token token_idx token_start_byte appended_bytes token_end_byte;
                             (f, s3) = evaluate_stop D s2 token token_idx fills_budget eos d1
                         in (f, s3, d1)))"

section \<open>What an append leaves alone\<close>

text \<open>The fields of a sequence that belong to the scheduler, not to its text.\<close>

definition same_frame :: "sequence \<Rightarrow> sequence \<Rightarrow> bool" where
  "same_frame s s' \<longleftrightarrow> sq_req s' = sq_req s \<and> sq_seq_id s' = sq_seq_id s \<and> sq_phase s' = sq_phase s \<and>
     sq_ctx_len s' = sq_ctx_len s \<and> sq_arrival_order s' = sq_arrival_order s"

lemma same_frame_refl [simp]: "same_frame s s"
  by (simp add: same_frame_def)

lemma same_frame_trans [trans]: "same_frame a b \<Longrightarrow> same_frame b c \<Longrightarrow> same_frame a c"
  by (simp add: same_frame_def)

lemma push_token_frame:
  "same_frame s (push_token s t i b n e)" "sq_generated (push_token s t i b n e) = sq_generated s @ [t]"
  by (simp_all add: same_frame_def push_token_def Let_def split: option.splits)

lemma stop_at_frame: "same_frame s (snd (stop_at s k m))" "fst (stop_at s k m) \<noteq> Done (None, tr)"
  by (simp_all add: same_frame_def stop_at_def Let_def split: option.splits prod.splits)

lemma drain_tail_frame: "same_frame s (snd (drain_tail s n))" "sq_generated (snd (drain_tail s n)) = sq_generated s"
  by (simp_all add: same_frame_def drain_tail_def Let_def split: option.splits)

lemma bound_tail_frame: "same_frame s (snd (bound_tail s))" "sq_generated (snd (bound_tail s)) = sq_generated s"
  using drain_tail_frame by (simp_all add: bound_tail_def Let_def del: upt_Suc)

lemma evaluate_stop_frame:
  "same_frame s (snd (evaluate_stop D s t i fb eos d))"
  "fst (evaluate_stop D s t i fb eos d) = Done (None, tr) \<Longrightarrow>
     sq_generated (snd (evaluate_stop D s t i fb eos d)) = sq_generated s \<and> \<not> fb"
  using stop_at_frame bound_tail_frame by (auto simp: evaluate_stop_def split: option.splits if_splits)

lemma append_cases_frame:
  assumes a: "append_generated_token D s tok d = (f, s', d')"
  shows "same_frame s s'"
    and "f = Done (None, tr) \<Longrightarrow> sq_generated s' = sq_generated s @ [tok] \<and> length (sq_generated s') < rq_max_tokens (sq_req s)"
proof -
  obtain r d1 tx where d: "dt_append_token D d (sq_seq_id s) tok (sq_detokenized_tail s) = (r, d1, tx)"
    by (cases "dt_append_token D d (sq_seq_id s) tok (sq_detokenized_tail s)")
  have tx: "same_frame s (s\<lparr>sq_detokenized_tail := tx\<rparr>)" by (simp add: same_frame_def)
  have "same_frame s s' \<and>
    (f = Done (None, tr) \<longrightarrow> sq_generated s' = sq_generated s @ [tok] \<and> length (sq_generated s') < rq_max_tokens (sq_req s))"
  proof (cases "\<exists>e. f = Failed e \<and> (s' = s \<or> s' = s\<lparr>sq_detokenized_tail := tx\<rparr>)")
    case True
    with tx show ?thesis by auto
  next
    case False
    then obtain n b e where s': "evaluate_stop D (push_token (s\<lparr>sq_detokenized_tail := tx\<rparr>) tok (length (sq_generated s)) b n e)
        tok (length (sq_generated s)) (length (sq_generated s) + 1 \<ge> rq_max_tokens (sq_req s)) (is_eos (rq_stop (sq_req s)) tok) d1 = (f, s')"
      using a d by (auto simp: append_generated_token_def Let_def split: option.splits sum.splits prod.splits)
    let ?s2 = "push_token (s\<lparr>sq_detokenized_tail := tx\<rparr>) tok (length (sq_generated s)) b n e"
    have s2: "same_frame s ?s2" "sq_generated ?s2 = sq_generated s @ [tok]"
      using push_token_frame(1) tx same_frame_trans by blast (simp add: push_token_frame(2))
    have "same_frame ?s2 s'" "f = Done (None, tr) \<Longrightarrow> sq_generated s' = sq_generated ?s2 \<and>
        \<not> length (sq_generated s) + 1 \<ge> rq_max_tokens (sq_req s)"
      using evaluate_stop_frame(1) [of ?s2 D tok "length (sq_generated s)" "length (sq_generated s) + 1 \<ge> rq_max_tokens (sq_req s)"
          "is_eos (rq_stop (sq_req s)) tok" d1]
        evaluate_stop_frame(2) [of D ?s2 tok "length (sq_generated s)" "length (sq_generated s) + 1 \<ge> rq_max_tokens (sq_req s)"
          "is_eos (rq_stop (sq_req s)) tok" d1 tr] unfolding s' by simp_all
    then show ?thesis using s2 same_frame_trans by auto
  qed
  then show "same_frame s s'"
    and "f = Done (None, tr) \<Longrightarrow> sq_generated s' = sq_generated s @ [tok] \<and> length (sq_generated s') < rq_max_tokens (sq_req s)"
    by auto
qed

end
