(* ===== verification/Scheduler.thy ===== *)
theory Scheduler
  imports Batch_Correct Sched_Graph Sched_Streams Sched_Cost Sched_Seq
begin

text \<open>
  The scheduler of \<open>crates/r9v-sched/src/scheduler.rs\<close>: configuration, construction, admission,
  cancellation, recovery and the pre-step, device, post-step loop. Every operation that takes
  \<open>&mut self\<close> returns its result together with the scheduler it leaves, on every path: the
  early returns, the failures that go through \<open>fail_step\<close> and the panic of a tail drain.

  Parameters: the environment holds the cost table, the kernel registry's \<open>resolve\<close> and the
  detokenizer; the executor is the \<open>StepExecutor\<close> trait object, three operations over a device
  state of its own; the allocator of the batch workspace is the one of \<open>Batch_Emit\<close>. Log
  output (\<open>tracing\<close>) and the proposer, whose methods are empty, are not modelled. Costs that the
  source carries as bits of an \<open>f32\<close> are the \<open>f32\<close>.
\<close>

section \<open>Data\<close>

record device_step_sample =
  ds_step_id :: nat
  ds_token :: nat
  ds_accept_len :: nat

record step_inputs =
  si_step_id :: nat
  si_seq_id :: nat
  si_reservation :: slot_range
  si_batch :: batch_workspace
  si_sampling :: sampling_params
  si_seed :: nat
  si_rng_counter :: nat
  si_prompt_tokens :: "nat list"
  si_generated_tokens :: "nat list"
  si_prefill :: "(nat \<times> nat) option"
  si_ctx_len :: nat

record 'x step_executor =
  ex_upload_inputs :: "'x \<Rightarrow> step_inputs \<Rightarrow> unit sched_result \<times> 'x"
  ex_replay_graph :: "'x \<Rightarrow> captured_graph \<Rightarrow> unit sched_result \<times> 'x"
  ex_readback_sample :: "'x \<Rightarrow> device_step_sample sched_result \<times> 'x"

record scheduler_config =
  cf_step_budget_ms :: step_budget_config
  cf_profile :: profile_mode
  cf_prefill_min_chunk :: nat
  cf_prefill_max_chunk :: nat
  cf_max_wait_ms :: nat
  cf_max_seqs :: nat
  cf_k_max :: nat
  cf_min_accept :: f32
  cf_graph_mode :: graph_mode
  cf_plan_id :: nat
  cf_rank :: nat
  cf_vocab_size :: nat
  cf_max_outstanding :: nat

definition DEFAULT_MAX_OUTSTANDING :: nat where "DEFAULT_MAX_OUTSTANDING = 1024"

definition config_default :: scheduler_config where
  "config_default = \<lparr>cf_step_budget_ms = AutoBudget, cf_profile = Latency, cf_prefill_min_chunk = 128,
     cf_prefill_max_chunk = 2048, cf_max_wait_ms = 500, cf_max_seqs = 1, cf_k_max = 0, cf_min_accept = f32_0_3,
     cf_graph_mode = Auto, cf_plan_id = 1, cf_rank = 0, cf_vocab_size = 32000,
     cf_max_outstanding = DEFAULT_MAX_OUTSTANDING\<rparr>"

definition config_problems :: "scheduler_config \<Rightarrow> sched_problem list" where
  "config_problems c =
     (if cf_prefill_min_chunk c = 0 then [PrefillMinChunkZero] else []) @
     (if cf_prefill_max_chunk c < cf_prefill_min_chunk c
      then [PrefillMaxBelowMin (cf_prefill_max_chunk c) (cf_prefill_min_chunk c)] else []) @
     (if cf_max_seqs c \<noteq> 1 then [MaxSeqsNotOne (cf_max_seqs c)] else []) @
     (if cf_k_max c \<noteq> 0 then [KMaxNotZero (cf_k_max c)] else []) @
     (if cf_vocab_size c = 0 then [VocabZero] else []) @
     (case cf_step_budget_ms c of
        Manual ms \<Rightarrow> if \<not> is_finite ms \<or> f32_le ms f32_zero then [ManualBudgetInvalid ms] else []
      | AutoBudget \<Rightarrow> []) @
     (if \<not> is_finite (cf_min_accept c) \<or> f32_less (cf_min_accept c) f32_zero \<or> f32_less f32_one (cf_min_accept c)
      then [MinAcceptInvalid (cf_min_accept c)] else []) @
     (if cf_max_outstanding c = 0 then [MaxOutstandingZero] else [])"

definition sched_config_validate :: "scheduler_config \<Rightarrow> unit sched_result" where
  "sched_config_validate c = (if config_problems c \<noteq> [] then Inl (InvalidRequest (config_problems c)) else Inr ())"

record in_flight_step =
  fl_step_id :: nat
  fl_seq_id :: nat
  fl_reservation :: slot_range

datatype admission_plan =
    PlanDecode "nat \<times> nat \<times> nat" f32 nat
  | PlanPrefill nat bool "nat \<times> nat \<times> nat" f32 nat
  | PlanWait

record step_desc =
  sd_step_id :: nat
  sd_seqs_decode :: "nat inline_vec"
  sd_seqs_prefill :: "(nat \<times> nat) inline_vec"
  sd_k :: "nat inline_vec"
  sd_bucket :: "nat \<times> nat \<times> nat"
  sd_graphs :: "step_graph_key inline_vec"

record step_result =
  rs_step :: step_desc
  rs_step_id :: nat
  rs_bucket :: "nat \<times> nat \<times> nat"
  rs_accepted_tokens :: "(nat \<times> nat inline_vec) inline_vec"
  rs_finished_sequences :: "(nat \<times> finish_reason) inline_vec"
  rs_record :: schedule_record

record ('s, 'd) scheduler =
  sc_config :: scheduler_config
  sc_state_manager :: state_manager
  sc_arena :: workspace_arena
  sc_batch_workspace :: batch_workspace
  sc_graph_cache :: "'s graph_cache"
  sc_event_chain :: step_event_chain
  sc_schedule_log :: schedule_log_ring
  sc_detokenizer :: 'd
  sc_step_counter :: nat
  sc_arrival_counter :: nat
  sc_in_flight :: "in_flight_step option"
  sc_last_committed_step :: "nat option"
  sc_queued :: "sequence list"
  sc_active :: "sequence option"
  sc_paused :: "sequence option"
  sc_pending_pause_report :: "nat option"
  sc_finished :: "(nat, request \<times> nat list \<times> finish_reason) btree"

record ('s, 'd) sched_env =
  en_cost_ms :: cost_fn
  en_resolve :: "'s resolver"
  en_detok :: "'d detok_ops"

section \<open>Construction and queries\<close>

definition scheduler_new :: "(nat \<Rightarrow> nat \<Rightarrow> bool) \<Rightarrow> ('s, 'd) sched_env \<Rightarrow> 'd \<Rightarrow> scheduler_config \<Rightarrow> state_manager \<Rightarrow>
    's step_graph_program \<Rightarrow> workspace_arena \<Rightarrow> ('s, 'd) scheduler sched_result" where
  "scheduler_new grants env detok config manager program arena =
     bind_r (sched_config_validate config) (\<lambda>_.
     bind_r (eager_capture_warm_buckets (en_resolve env) (cf_plan_id config) (cf_rank config) program arena) (\<lambda>cache.
     bind_r (from_state (try_with_capacity grants (length (sm_groups manager)) 1 (max (cf_prefill_max_chunk config) 1)
               (max_blocks (sm_config manager)))) (\<lambda>ws.
     Inr \<lparr>sc_config = config, sc_state_manager = manager, sc_arena = arena, sc_batch_workspace = ws,
          sc_graph_cache = cache, sc_event_chain = chain_new, sc_schedule_log = ring_new 4096, sc_detokenizer = detok,
          sc_step_counter = 0, sc_arrival_counter = 0, sc_in_flight = None, sc_last_committed_step = None,
          sc_queued = [], sc_active = None, sc_paused = None, sc_pending_pause_report = None, sc_finished = []\<rparr>)))"

definition active_sequence_count :: "('s, 'd) scheduler \<Rightarrow> nat" where
  "active_sequence_count sch =
     length (sc_queued sch) + (if sc_active sch \<noteq> None then 1 else 0) + (if sc_paused sch \<noteq> None then 1 else 0)"

definition is_idle :: "('s, 'd) scheduler \<Rightarrow> bool" where
  "is_idle sch \<longleftrightarrow> active_sequence_count sch = 0"

definition outstanding_count :: "('s, 'd) scheduler \<Rightarrow> nat" where
  "outstanding_count sch =
     length (sc_finished sch) + length (sc_queued sch) + (if sc_active sch \<noteq> None then 1 else 0) +
     (if sc_paused sch \<noteq> None then 1 else 0)"

text \<open>The mutable accessors: the detokenizer may be replaced, the manager may be operated on directly.\<close>

definition set_detokenizer :: "('s, 'd) sched_env \<Rightarrow> ('s, 'd) scheduler \<Rightarrow> 'd detok_ops \<Rightarrow> 'd \<Rightarrow> ('s, 'd) sched_env \<times> ('s, 'd) scheduler" where
  "set_detokenizer env sch ops d = (env\<lparr>en_detok := ops\<rparr>, sch\<lparr>sc_detokenizer := d\<rparr>)"

definition state_manager_mut :: "('s, 'd) scheduler \<Rightarrow> (state_manager \<Rightarrow> state_manager) \<Rightarrow> ('s, 'd) scheduler" where
  "state_manager_mut sch f = sch\<lparr>sc_state_manager := f (sc_state_manager sch)\<rparr>"

section \<open>Admission, cancellation and results\<close>

definition enqueue_request :: "('s, 'd) scheduler \<Rightarrow> request \<Rightarrow> nat sched_result \<times> ('s, 'd) scheduler" where
  "enqueue_request sch req =
     (let outstanding = outstanding_count sch; maximum = cf_max_outstanding (sc_config sch)
      in if outstanding \<ge> maximum then (Inl (CapacityExceeded outstanding maximum), sch)
         else case checked_add 64 (sc_arrival_counter sch) 1 of
                None \<Rightarrow> (Inl (ArithmeticOverflow ''arrival_counter'' []), sch)
              | Some next_arrival \<Rightarrow>
                  (case new_seq (sc_state_manager sch) (rq_tokens req) of
                     (Inl e, m) \<Rightarrow> (Inl (SchedState e), sch\<lparr>sc_state_manager := m\<rparr>)
                   | (Inr (seq_id, _), m) \<Rightarrow>
                       (Inr seq_id, sch\<lparr>sc_state_manager := m, sc_arrival_counter := next_arrival,
                                        sc_queued := sc_queued sch @ [sequence_new req seq_id next_arrival]\<rparr>)))"

definition try_unpause_sequences :: "('s, 'd) scheduler \<Rightarrow> ('s, 'd) scheduler" where
  "try_unpause_sequences sch =
     (if sc_active sch = None
      then (case sc_paused sch of None \<Rightarrow> sch | Some c \<Rightarrow> sch\<lparr>sc_paused := None, sc_active := Some c\<rparr>) else sch)"

text \<open>The shared tail of the three cancellation branches, on the sequence already taken out.\<close>

definition cancel_taken :: "('s, 'd) sched_env \<Rightarrow> ('s, 'd) scheduler \<Rightarrow> sequence \<Rightarrow> nat \<Rightarrow> bool sched_result \<times> ('s, 'd) scheduler" where
  "cancel_taken env sch sq seq_id =
     (case free_seq (sc_state_manager sch) seq_id of
        (Inl e, m) \<Rightarrow> (Inl (SchedState e), sch\<lparr>sc_state_manager := m\<rparr>)
      | (Inr _, m) \<Rightarrow>
          (Inr True, sch\<lparr>sc_state_manager := m, sc_detokenizer := dt_reset (en_detok env) (sc_detokenizer sch) seq_id,
                         sc_finished := bt_insert seq_id (sq_req sq, sq_generated sq, Cancelled) (sc_finished sch)\<rparr>))"

definition cancel_sequence :: "('s, 'd) sched_env \<Rightarrow> ('s, 'd) scheduler \<Rightarrow> nat \<Rightarrow> bool sched_result \<times> ('s, 'd) scheduler" where
  "cancel_sequence env sch seq_id =
     (if map_option sq_seq_id (sc_active sch) = Some seq_id
      then (case cancel_taken env (sch\<lparr>sc_active := None\<rparr>) (the (sc_active sch)) seq_id of
              (Inl e, sch1) \<Rightarrow> (Inl e, sch1)
            | (Inr b, sch1) \<Rightarrow> (Inr b, try_unpause_sequences sch1))
      else case List.find (\<lambda>(i, sq). sq_seq_id sq = seq_id) (List.enumerate 0 (sc_queued sch)) of
             Some (pos, sq) \<Rightarrow> cancel_taken env (sch\<lparr>sc_queued := remove_at pos (sc_queued sch)\<rparr>) sq seq_id
           | None \<Rightarrow>
               if map_option sq_seq_id (sc_paused sch) = Some seq_id
               then (case cancel_taken env (sch\<lparr>sc_paused := None\<rparr>) (the (sc_paused sch)) seq_id of
                       (Inl e, sch1) \<Rightarrow> (Inl e, sch1)
                     | (Inr b, sch1) \<Rightarrow>
                         (Inr b, sch1\<lparr>sc_pending_pause_report :=
                            if sc_pending_pause_report sch1 = Some seq_id then None else sc_pending_pause_report sch1\<rparr>))
               else (Inr False, sch))"

definition cancel_request :: "('s, 'd) sched_env \<Rightarrow> ('s, 'd) scheduler \<Rightarrow> nat \<Rightarrow> bool sched_result \<times> ('s, 'd) scheduler" where
  "cancel_request env sch req_id =
     (if map_option (\<lambda>s. rq_id (sq_req s)) (sc_active sch) = Some req_id
      then cancel_sequence env sch (sq_seq_id (the (sc_active sch)))
      else case List.find (\<lambda>s. rq_id (sq_req s) = req_id) (sc_queued sch) of
             Some sq \<Rightarrow> cancel_sequence env sch (sq_seq_id sq)
           | None \<Rightarrow>
               if map_option (\<lambda>s. rq_id (sq_req s)) (sc_paused sch) = Some req_id
               then cancel_sequence env sch (sq_seq_id (the (sc_paused sch)))
               else (Inr False, sch))"

definition get_finished_result :: "('s, 'd) scheduler \<Rightarrow> nat \<Rightarrow> (request \<times> nat list \<times> finish_reason) option" where
  "get_finished_result sch seq_id = map_of (sc_finished sch) seq_id"

definition take_finished_result :: "('s, 'd) scheduler \<Rightarrow> nat \<Rightarrow> (request \<times> nat list \<times> finish_reason) option \<times> ('s, 'd) scheduler" where
  "take_finished_result sch seq_id =
     (let (r, fin) = bt_remove seq_id (sc_finished sch) in (r, sch\<lparr>sc_finished := fin\<rparr>))"

definition abort_open_reservation :: "('s, 'd) scheduler \<Rightarrow> nat \<Rightarrow> bool sched_result \<times> ('s, 'd) scheduler" where
  "abort_open_reservation sch seq_id =
     (case sm_tail_len (sc_state_manager sch) seq_id of
        Inl e \<Rightarrow> (Inl (SchedState e), sch)
      | Inr tail \<Rightarrow>
          if tail = 0 then (Inr False, sch)
          else (case commit (sc_state_manager sch) seq_id 0 of
                  (Inl e, m) \<Rightarrow> (Inl (SchedState e), sch\<lparr>sc_state_manager := m\<rparr>)
                | (Inr _, m) \<Rightarrow> (Inr True, sch\<lparr>sc_state_manager := m, sc_in_flight := None\<rparr>)))"

section \<open>Planning a step\<close>

definition plan_admission :: "('s, 'd) sched_env \<Rightarrow> ('s, 'd) scheduler \<Rightarrow> sequence \<Rightarrow> f32 \<Rightarrow> f32 \<Rightarrow> admission_plan sched_result" where
  "plan_admission env sch sq budget_ms pre_step_estimate_ms =
     bind_r (ok_or (ArithmeticOverflow ''step_counter'' []) (checked_add 64 (sc_step_counter sch) 1)) (\<lambda>next_step.
     case sq_phase sq of
       Decoding \<Rightarrow>
         bind_r (from_ir (bucket_step 1 1 0)) (\<lambda>(s_b, d_b, p_b).
         bind_r (en_cost_ms env s_b d_b p_b) (\<lambda>cost. Inr (PlanDecode (s_b, d_b, p_b) cost next_step)))
     | Prefilling n \<Rightarrow>
         bind_r (ok_or (ArithmeticOverflow ''prefill_remaining'' []) (checked_sub (prompt_len sq) n)) (\<lambda>remaining.
         bind_r (prefill_room_ms (en_cost_ms env) budget_ms 0 0 pre_step_estimate_ms) (\<lambda>room.
         bind_r (select_prefill_chunk (en_cost_ms env) remaining 0 0 room (cf_prefill_min_chunk (sc_config sch))
                   (cf_prefill_max_chunk (sc_config sch))) (\<lambda>chunk_opt.
         let decision =
               (case chunk_opt of
                  Some c \<Rightarrow> Some (c, False)
                | None \<Rightarrow>
                    if f32_le (f32_of_nat (cf_max_wait_ms (sc_config sch))) (f32_add (sq_accumulated_wait_ms sq) budget_ms)
                    then Some (min remaining (cf_prefill_min_chunk (sc_config sch)), True) else None)
         in case decision of
              None \<Rightarrow> Inr PlanWait
            | Some (chunk, forced) \<Rightarrow>
                bind_r (from_ir (bucket_step 1 1 chunk)) (\<lambda>(s_b, d_b, p_b).
                bind_r (en_cost_ms env s_b d_b p_b) (\<lambda>cost.
                Inr (PlanPrefill chunk forced (s_b, d_b, p_b) cost next_step))))))
     | _ \<Rightarrow> Inl (Internal ''plan_admission called for inactive sequence''))"

text \<open>One more wait: the counter is checked, the budget accumulates.\<close>

definition account_wait :: "sequence \<Rightarrow> f32 \<Rightarrow> sequence option" where
  "account_wait sq budget_ms =
     map_option (\<lambda>n. sq\<lparr>sq_wait_steps := n, sq_accumulated_wait_ms := f32_add (sq_accumulated_wait_ms sq) budget_ms\<rparr>)
       (checked_add 64 (sq_wait_steps sq) 1)"

type_synonym ('s, 'd, 'x) step_ret = "step_result option fate \<times> ('s, 'd) scheduler \<times> 'x"

definition stall :: "('s, 'd) scheduler \<Rightarrow> sequence \<Rightarrow> f32 \<Rightarrow> 'x \<Rightarrow> ('s, 'd, 'x) step_ret" where
  "stall sch sq budget_ms x =
     (case account_wait sq budget_ms of
        None \<Rightarrow> (Failed (ArithmeticOverflow ''wait_steps'' []), sch\<lparr>sc_active := Some sq\<rparr>, x)
      | Some sq1 \<Rightarrow> (Done None, sch\<lparr>sc_active := Some sq1\<rparr>, x))"

text \<open>\<open>String::truncate\<close> panics off a character boundary, so the rollback may too: \<open>None\<close>.\<close>

definition rollback_append :: "sequence \<Rightarrow> sequence \<Rightarrow> sequence option" where
  "rollback_append snap sq =
     (let sq1 = sq\<lparr>sq_generated := take (length (sq_generated snap)) (sq_generated sq),
                   sq_token_byte_spans := take (length (sq_token_byte_spans snap)) (sq_token_byte_spans sq),
                   sq_pending_utf8_start := sq_pending_utf8_start snap\<rparr>;
          n = length (sq_detokenized_tail snap); tail = sq_detokenized_tail sq1
      in if sq_tail_start_byte sq1 = sq_tail_start_byte snap \<and> length tail \<ge> n
         then (if char_boundary tail n then Some (sq1\<lparr>sq_detokenized_tail := take n tail\<rparr>) else None)
         else Some sq1)"

definition fail_step :: "('s, 'd) scheduler \<Rightarrow> sequence \<Rightarrow> sched_error \<Rightarrow> 'x \<Rightarrow> ('s, 'd, 'x) step_ret" where
  "fail_step sch sq original x =
     (let sch1 = sch\<lparr>sc_active := Some sq, sc_in_flight := None\<rparr>;
          m = sc_state_manager sch1;
          m1 = (case sm_tail_len m (sq_seq_id sq) of
                  Inr tail \<Rightarrow> if tail > 0 then snd (commit m (sq_seq_id sq) 0) else m
                | Inl _ \<Rightarrow> m)
      in (Failed original, sch1\<lparr>sc_state_manager := m1\<rparr>, x))"

section \<open>The step\<close>

text \<open>What the plan hands to the mutating phases.\<close>

record admission =
  ad_chunk :: nat
  ad_forced :: bool
  ad_bucket :: "nat \<times> nat \<times> nat"
  ad_cost_ms :: f32
  ad_next_step :: nat
  ad_is_decode :: bool
  ad_budget_ms :: f32
  ad_pre_step_ms :: f32

definition promote :: "('s, 'd) scheduler \<Rightarrow> ('s, 'd) scheduler" where
  "promote sch =
     (if sc_active sch = None
      then (case sc_paused sch of
              Some c \<Rightarrow> sch\<lparr>sc_paused := None, sc_active := Some c\<rparr>
            | None \<Rightarrow> (case sc_queued sch of
                        [] \<Rightarrow> sch
                      | sq # rest \<Rightarrow> sch\<lparr>sc_queued := rest, sc_active := Some (sq\<lparr>sq_phase := Prefilling 0\<rparr>)\<rparr>))
      else sch)"

definition reserve_n :: "admission \<Rightarrow> nat" where
  "reserve_n ad = (if ad_is_decode ad then 1 else ad_chunk ad)"

definition step_key :: "('s, 'd) scheduler \<Rightarrow> admission \<Rightarrow> step_graph_key" where
  "step_key sch ad = (case ad_bucket ad of (s_b, d_b, p_b) \<Rightarrow>
     StepGraphKey (cf_plan_id (sc_config sch)) (cf_rank (sc_config sch)) s_b d_b p_b 0)"

definition is_intermediate :: "sequence \<Rightarrow> admission \<Rightarrow> bool" where
  "is_intermediate sq ad \<longleftrightarrow> \<not> ad_is_decode ad \<and>
     (case sq_phase sq of
        Prefilling n \<Rightarrow> min (2 ^ 32 - 1) (n + ad_chunk ad) < prompt_len sq
      | _ \<Rightarrow> False)"

text \<open>The public step descriptor, built before the device phase.\<close>

definition iv_of :: "'a \<Rightarrow> 'a inline_vec" where
  "iv_of a = snd (iv_push (iv_new 1) a)"

definition step_desc_of :: "('s, 'd) scheduler \<Rightarrow> sequence \<Rightarrow> admission \<Rightarrow> step_desc" where
  "step_desc_of sch sq ad =
     \<lparr>sd_step_id = ad_next_step ad,
      sd_seqs_decode = (if ad_is_decode ad then iv_of (sq_seq_id sq) else iv_new 1),
      sd_seqs_prefill = (if ad_is_decode ad then iv_new 1 else iv_of (sq_seq_id sq, ad_chunk ad)),
      sd_k = iv_of 0, sd_bucket = ad_bucket ad, sd_graphs = iv_of (step_key sch ad)\<rparr>"

definition step_inputs_of :: "('s, 'd) scheduler \<Rightarrow> sequence \<Rightarrow> admission \<Rightarrow> slot_range \<Rightarrow> step_inputs" where
  "step_inputs_of sch sq ad r =
     \<lparr>si_step_id = ad_next_step ad, si_seq_id = sq_seq_id sq, si_reservation = r, si_batch = sc_batch_workspace sch,
      si_sampling = rq_sampling (sq_req sq), si_seed = rq_seed (sq_req sq), si_rng_counter = ad_next_step ad,
      si_prompt_tokens = rq_tokens (sq_req sq), si_generated_tokens = sq_generated sq,
      si_prefill = (case sq_phase sq of Prefilling n \<Rightarrow> Some (n, ad_chunk ad) | _ \<Rightarrow> None),
      si_ctx_len = sq_ctx_len sq\<rparr>"

text \<open>The closure that records one event on the chain, and the device phase: upload, capture,
  replay and readback, each preceded and followed by its events; the first error stops it.\<close>

definition on_chain :: "(step_event_chain \<Rightarrow> nat sched_result \<times> step_event_chain) \<Rightarrow> ('s, 'd) scheduler \<Rightarrow>
    nat sched_result \<times> ('s, 'd) scheduler" where
  "on_chain f sch = (let (r, c) = f (sc_event_chain sch) in (r, sch\<lparr>sc_event_chain := c\<rparr>))"

definition device_begin :: "('s, 'd) scheduler \<Rightarrow> nat \<Rightarrow> ('s, 'd) scheduler" where
  "device_begin sch step_id =
     sch\<lparr>sc_arena := arena_reset (sc_arena sch), sc_event_chain := begin_step (sc_event_chain sch) step_id\<rparr>"

definition device_readback :: "'x step_executor \<Rightarrow> ('s, 'd) scheduler \<Rightarrow> 'x \<Rightarrow> nat \<Rightarrow> bool \<Rightarrow>
    (device_step_sample \<times> bool) sched_result \<times> ('s, 'd) scheduler \<times> 'x" where
  "device_readback X sch x step_id was_captured =
     (case on_chain (record_compute_complete step_id) sch of
        (Inl e, sch1) \<Rightarrow> (Inl e, sch1, x)
      | (Inr compute_eid, sch1) \<Rightarrow>
     (case on_chain (record_wait step_id Copy compute_eid) sch1 of
        (Inl e, sch2) \<Rightarrow> (Inl e, sch2, x)
      | (Inr _, sch2) \<Rightarrow>
     (case ex_readback_sample X x of
        (Inl e, x1) \<Rightarrow> (Inl e, sch2, x1)
      | (Inr sample, x1) \<Rightarrow>
     (case on_chain (record_readback_complete step_id) sch2 of
        (Inl e, sch3) \<Rightarrow> (Inl e, sch3, x1)
      | (Inr _, sch3) \<Rightarrow>
     (case validate_step_chain (sc_event_chain sch3) step_id of
        Inl e \<Rightarrow> (Inl e, sch3, x1)
      | Inr _ \<Rightarrow> (Inr (sample, was_captured), sch3, x1))))))"

definition device_phase :: "('s, 'd) sched_env \<Rightarrow> 'x step_executor \<Rightarrow> ('s, 'd) scheduler \<Rightarrow> 'x \<Rightarrow> step_inputs \<Rightarrow>
    step_graph_key \<Rightarrow> (device_step_sample \<times> bool) sched_result \<times> ('s, 'd) scheduler \<times> 'x" where
  "device_phase env X sch x upload key =
     (let step_id = si_step_id upload; sch0 = device_begin sch step_id
      in case ex_upload_inputs X x upload of
           (Inl e, x1) \<Rightarrow> (Inl e, sch0, x1)
         | (Inr _, x1) \<Rightarrow>
         (case on_chain (record_upload_complete step_id) sch0 of
            (Inl e, sch1) \<Rightarrow> (Inl e, sch1, x1)
          | (Inr upload_eid, sch1) \<Rightarrow>
         (case on_chain (record_wait step_id Compute upload_eid) sch1 of
            (Inl e, sch2) \<Rightarrow> (Inl e, sch2, x1)
          | (Inr _, sch2) \<Rightarrow>
         (case get_or_capture (en_resolve env) key (sc_graph_cache sch2) (sc_arena sch2) of
            (Inl e, cache, arena) \<Rightarrow> (Inl e, sch2\<lparr>sc_graph_cache := cache, sc_arena := arena\<rparr>, x1)
          | (Inr (graph, was_captured), cache, arena) \<Rightarrow>
              let sch3 = sch2\<lparr>sc_graph_cache := cache, sc_arena := arena\<rparr>
              in case ex_replay_graph X x1 graph of
                   (Inl e, x2) \<Rightarrow> (Inl e, sch3, x2)
                 | (Inr _, x2) \<Rightarrow> device_readback X sch3 x2 step_id was_captured))))"

text \<open>Step records and the finish of a sequence; the record is logged last.\<close>

definition schedule_record_of :: "('s, 'd) scheduler \<Rightarrow> admission \<Rightarrow> bool \<Rightarrow> nat \<Rightarrow> schedule_record" where
  "schedule_record_of sch ad captured accept_len =
     \<lparr>sr_step_id = ad_next_step ad, sr_t_pre_us = f32_to_u64 (f32_mul (ad_pre_step_ms ad) (f32_of_nat 1000)), sr_t_draft_us = 0,
      sr_t_device_us = f32_to_u64 (f32_mul (ad_cost_ms ad) (f32_of_nat 1000)), sr_t_post_us = 0, sr_s = 1,
      sr_t_dec = (if ad_is_decode ad then 1 else 0), sr_t_pre = ad_chunk ad, sr_chunk = ad_chunk ad, sr_k = iv_of 0,
      sr_accept_len = iv_of accept_len, sr_forced_admission = ad_forced ad, sr_budget_ms = ad_budget_ms ad,
      sr_bucket = ad_bucket ad, sr_graph_mode = cf_graph_mode (sc_config sch), sr_captured = captured,
      sr_paused = (case sc_pending_pause_report sch of None \<Rightarrow> iv_new 1 | Some q \<Rightarrow> iv_of q), sr_segment_sync_us = 0\<rparr>"

definition log_step :: "('s, 'd) scheduler \<Rightarrow> admission \<Rightarrow> step_desc \<Rightarrow> bool \<Rightarrow> nat \<Rightarrow> (nat \<times> nat inline_vec) inline_vec \<Rightarrow>
    (nat \<times> finish_reason) inline_vec \<Rightarrow> 'x \<Rightarrow> ('s, 'd, 'x) step_ret" where
  "log_step sch ad desc captured accept_len accepted fin x =
     (let record = schedule_record_of sch ad captured accept_len;
          (pushed, log) = ring_push (sc_schedule_log sch) record;
          sch1 = sch\<lparr>sc_pending_pause_report := None, sc_schedule_log := log\<rparr>
      in case pushed of
           Inl e \<Rightarrow> (Failed e, sch1, x)
         | Inr _ \<Rightarrow>
             (Done (Some \<lparr>rs_step = desc, rs_step_id = ad_next_step ad, rs_bucket = ad_bucket ad,
                          rs_accepted_tokens = accepted, rs_finished_sequences = fin, rs_record = record\<rparr>), sch1, x))"

definition finish_step :: "('s, 'd) sched_env \<Rightarrow> ('s, 'd) scheduler \<Rightarrow> sequence \<Rightarrow> admission \<Rightarrow> step_desc \<Rightarrow> bool \<Rightarrow> nat \<Rightarrow>
    (nat \<times> nat inline_vec) inline_vec \<Rightarrow> finish_reason option \<Rightarrow> 'x \<Rightarrow> ('s, 'd, 'x) step_ret" where
  "finish_step env sch sq ad desc captured accept_len accepted reason x =
     (case reason of
        None \<Rightarrow> log_step (sch\<lparr>sc_active := Some sq\<rparr>) ad desc captured accept_len accepted (iv_new 1) x
      | Some rsn \<Rightarrow>
          (case free_seq (sc_state_manager sch) (sq_seq_id sq) of
             (Inl e, m) \<Rightarrow> (Failed (SchedState e), sch\<lparr>sc_state_manager := m, sc_active := Some sq\<rparr>, x)
           | (Inr _, m) \<Rightarrow>
               let sch1 = sch\<lparr>sc_state_manager := m,
                              sc_detokenizer := dt_reset (en_detok env) (sc_detokenizer sch) (sq_seq_id sq),
                              sc_finished := bt_insert (sq_seq_id sq) (sq_req sq, sq_generated sq, rsn) (sc_finished sch),
                              sc_active := None\<rparr>
               in log_step (try_unpause_sequences sch1) ad desc captured accept_len accepted (iv_of (sq_seq_id sq, rsn)) x))"

text \<open>The commit of \<open>n\<close> tokens and the context length; \<open>undo\<close> is the sequence kept when the
  commit fails (\<open>None\<close> is a panic), \<open>k\<close> the rest of the step.\<close>

definition commit_then :: "('s, 'd) scheduler \<Rightarrow> sequence \<Rightarrow> sequence option \<Rightarrow> nat \<Rightarrow> nat \<Rightarrow> 'x \<Rightarrow>
    (('s, 'd) scheduler \<Rightarrow> sequence \<Rightarrow> ('s, 'd, 'x) step_ret) \<Rightarrow> ('s, 'd, 'x) step_ret" where
  "commit_then sch sq undo n step_id x k =
     (case commit (sc_state_manager sch) (sq_seq_id sq) n of
        (Inl e, m) \<Rightarrow>
          (case undo of
             None \<Rightarrow> (Panicked ''truncate off a char boundary'', sch\<lparr>sc_state_manager := m\<rparr>, x)
           | Some sq0 \<Rightarrow> (Failed (SchedState e), sch\<lparr>sc_state_manager := m, sc_active := Some sq0\<rparr>, x))
      | (Inr _, m) \<Rightarrow>
          (case checked_add 32 (sq_ctx_len sq) n of
             None \<Rightarrow> (Failed (ArithmeticOverflow ''ctx_len'' []), sch\<lparr>sc_state_manager := m, sc_active := Some sq\<rparr>, x)
           | Some ctx \<Rightarrow>
               k (sch\<lparr>sc_state_manager := m, sc_last_committed_step := Some step_id, sc_in_flight := None\<rparr>)
                 (sq\<lparr>sq_ctx_len := ctx\<rparr>)))"

definition accepted_of :: "nat \<Rightarrow> nat \<Rightarrow> bool \<Rightarrow> (nat \<times> nat inline_vec) inline_vec" where
  "accepted_of seq_id token trimmed = (if trimmed then iv_new 1 else iv_of (seq_id, iv_of token))"

definition post_prefill_last :: "('s, 'd) sched_env \<Rightarrow> ('s, 'd) scheduler \<Rightarrow> sequence \<Rightarrow> admission \<Rightarrow> step_desc \<Rightarrow>
    device_step_sample \<Rightarrow> bool \<Rightarrow> nat \<Rightarrow> 'x \<Rightarrow> ('s, 'd, 'x) step_ret" where
  "post_prefill_last env sch sq ad desc sample captured prev_done x =
     (case append_generated_token (en_detok env) (sq\<lparr>sq_phase := Decoding\<rparr>) (ds_token sample) (sc_detokenizer sch) of
        (Panicked p, sq1, d) \<Rightarrow> (Panicked p, sch\<lparr>sc_detokenizer := d\<rparr>, x)
      | (Failed e, sq1, d) \<Rightarrow>
          (case rollback_append sq sq1 of
             None \<Rightarrow> (Panicked ''truncate off a char boundary'', sch\<lparr>sc_detokenizer := d\<rparr>, x)
           | Some sq2 \<Rightarrow> fail_step (sch\<lparr>sc_detokenizer := d\<rparr>) (sq2\<lparr>sq_phase := Prefilling prev_done\<rparr>) e x)
      | (Done (opt_finish, trimmed), sq1, d) \<Rightarrow>
          commit_then (sch\<lparr>sc_detokenizer := d\<rparr>) sq1
            (map_option (\<lambda>sq2. sq2\<lparr>sq_phase := Prefilling prev_done\<rparr>) (rollback_append sq sq1)) (ad_chunk ad) (ad_next_step ad) x
            (\<lambda>sch1 sq2. finish_step env sch1 sq2 ad desc captured (if trimmed then 0 else ds_accept_len sample)
                          (accepted_of (sq_seq_id sq) (ds_token sample) trimmed) opt_finish x))"

definition post_prefill_intermediate :: "('s, 'd) sched_env \<Rightarrow> ('s, 'd) scheduler \<Rightarrow> sequence \<Rightarrow> admission \<Rightarrow> step_desc \<Rightarrow> bool \<Rightarrow>
    nat \<Rightarrow> 'x \<Rightarrow> ('s, 'd, 'x) step_ret" where
  "post_prefill_intermediate env sch sq ad desc captured new_done x =
     commit_then sch sq (Some sq) (ad_chunk ad) (ad_next_step ad) x
       (\<lambda>sch1 sq1. finish_step env sch1 (sq1\<lparr>sq_phase := Prefilling new_done\<rparr>) ad desc captured 0 (iv_new 1) None x)"

definition post_decode :: "('s, 'd) sched_env \<Rightarrow> ('s, 'd) scheduler \<Rightarrow> sequence \<Rightarrow> admission \<Rightarrow> step_desc \<Rightarrow>
    device_step_sample \<Rightarrow> bool \<Rightarrow> 'x \<Rightarrow> ('s, 'd, 'x) step_ret" where
  "post_decode env sch sq ad desc sample captured x =
     (case append_generated_token (en_detok env) sq (ds_token sample) (sc_detokenizer sch) of
        (Panicked p, sq1, d) \<Rightarrow> (Panicked p, sch\<lparr>sc_detokenizer := d\<rparr>, x)
      | (Failed e, sq1, d) \<Rightarrow> fail_step (sch\<lparr>sc_detokenizer := d\<rparr>) sq1 e x
      | (Done (opt_finish, trimmed), sq1, d) \<Rightarrow>
          let accept_len = (if trimmed then 0 else ds_accept_len sample)
          in commit_then (sch\<lparr>sc_detokenizer := d\<rparr>) sq1 (rollback_append sq sq1) 1 (ad_next_step ad) x
               (\<lambda>sch1 sq2. finish_step env sch1
                  (sq2\<lparr>sq_accept_ema := f32_add (f32_mul f32_0_8 (sq_accept_ema sq2)) (f32_mul f32_0_2 (f32_of_nat accept_len))\<rparr>)
                  ad desc captured accept_len (accepted_of (sq_seq_id sq) (ds_token sample) trimmed) opt_finish x))"

definition post_step :: "('s, 'd) sched_env \<Rightarrow> ('s, 'd) scheduler \<Rightarrow> sequence \<Rightarrow> admission \<Rightarrow> step_desc \<Rightarrow>
    device_step_sample \<Rightarrow> bool \<Rightarrow> 'x \<Rightarrow> ('s, 'd, 'x) step_ret" where
  "post_step env sch sq ad desc sample captured x =
     (case sq_phase sq of
        Prefilling n \<Rightarrow>
          (case checked_add 32 n (ad_chunk ad) of
             None \<Rightarrow> fail_step sch sq (ArithmeticOverflow ''prefill_done'' []) x
           | Some new_done \<Rightarrow>
               if new_done \<ge> prompt_len sq then post_prefill_last env sch sq ad desc sample captured n x
               else post_prefill_intermediate env sch sq ad desc captured new_done x)
      | Decoding \<Rightarrow> post_decode env sch sq ad desc sample captured x
      | _ \<Rightarrow> fail_step sch sq (Internal ''step admitted for inactive phase'') x)"

text \<open>The device phase and the checks on what it read back.\<close>

definition run_step :: "('s, 'd) sched_env \<Rightarrow> 'x step_executor \<Rightarrow> ('s, 'd) scheduler \<Rightarrow> sequence \<Rightarrow> admission \<Rightarrow>
    slot_range \<Rightarrow> 'x \<Rightarrow> ('s, 'd, 'x) step_ret" where
  "run_step env X sch sq ad reservation x =
     (let sch1 = sch\<lparr>sc_step_counter := ad_next_step ad,
                     sc_in_flight := Some \<lparr>fl_step_id = ad_next_step ad, fl_seq_id = sq_seq_id sq, fl_reservation = reservation\<rparr>\<rparr>;
          desc = step_desc_of sch sq ad; inter = is_intermediate sq ad; expected = (if inter then 0 else 1)
      in case device_phase env X sch1 x (step_inputs_of sch1 sq ad reservation) (step_key sch ad) of
           (Inl e, sch2, x1) \<Rightarrow> fail_step sch2 sq e x1
         | (Inr (sample, captured), sch2, x1) \<Rightarrow>
             if ds_step_id sample \<noteq> ad_next_step ad
             then fail_step sch2 sq (StaleStep (Some (ad_next_step ad)) (ds_step_id sample)) x1
             else if ds_accept_len sample \<noteq> expected
             then fail_step sch2 sq (ExecutionFailed (AcceptLenContract expected (ds_accept_len sample) (sq_seq_id sq) (ad_next_step ad) inter)) x1
             else post_step env sch2 sq ad desc sample captured x1)"

text \<open>The prompt slice handed to the proposer, the batch tensors of the reserved tokens, then the device.\<close>

definition slice_problem :: "sequence \<Rightarrow> admission \<Rightarrow> sched_error option" where
  "slice_problem sq ad =
     (if ad_is_decode ad then None
      else case sq_phase sq of
             Prefilling n \<Rightarrow>
               (case checked_add 64 n (ad_chunk ad) of
                  Some slice_end \<Rightarrow> if slice_end \<le> length (rq_tokens (sq_req sq)) then None
                                    else Some (ArithmeticOverflow ''slice_end'' [])
                | None \<Rightarrow> Some (ArithmeticOverflow ''slice_end'' []))
           | _ \<Rightarrow> Some (Internal ''prefill step without Prefilling phase''))"

definition fill_step :: "('s, 'd) sched_env \<Rightarrow> 'x step_executor \<Rightarrow> ('s, 'd) scheduler \<Rightarrow> sequence \<Rightarrow> admission \<Rightarrow>
    slot_range \<Rightarrow> 'x \<Rightarrow> ('s, 'd, 'x) step_ret" where
  "fill_step env X sch sq ad reservation x =
     (case slice_problem sq ad of
        Some e \<Rightarrow> fail_step sch sq e x
      | None \<Rightarrow>
          (case fill_batch_meta (sc_state_manager sch) [sq_seq_id sq] [reserve_n ad] None (sc_batch_workspace sch) of
             (Some e, ws) \<Rightarrow> fail_step (sch\<lparr>sc_batch_workspace := ws\<rparr>) sq (SchedState e) x
           | (None, ws) \<Rightarrow> run_step env X (sch\<lparr>sc_batch_workspace := ws\<rparr>) sq ad reservation x))"

definition reserve_step :: "('s, 'd) sched_env \<Rightarrow> 'x step_executor \<Rightarrow> ('s, 'd) scheduler \<Rightarrow> sequence \<Rightarrow> admission \<Rightarrow> 'x \<Rightarrow>
    ('s, 'd, 'x) step_ret" where
  "reserve_step env X sch sq ad x =
     (case reserve (sc_state_manager sch) (sq_seq_id sq) (reserve_n ad) of
        (Inr reservation, m) \<Rightarrow> fill_step env X (sch\<lparr>sc_state_manager := m\<rparr>) sq ad reservation x
      | (Inl (PoolExhausted _ _ _ _ _ _), m) \<Rightarrow>
          if ad_is_decode ad
          then (Done None, sch\<lparr>sc_state_manager := m, sc_pending_pause_report := Some (sq_seq_id sq), sc_paused := Some sq\<rparr>, x)
          else stall (sch\<lparr>sc_state_manager := m\<rparr>) sq (ad_budget_ms ad) x
      | (Inl e, m) \<Rightarrow> (Failed (SchedState e), sch\<lparr>sc_state_manager := m, sc_active := Some sq\<rparr>, x))"

definition admit_step :: "('s, 'd) sched_env \<Rightarrow> 'x step_executor \<Rightarrow> ('s, 'd) scheduler \<Rightarrow> sequence \<Rightarrow> admission \<Rightarrow> 'x \<Rightarrow>
    ('s, 'd, 'x) step_ret" where
  "admit_step env X sch sq ad x =
     (if ad_forced ad
      then (case account_wait sq (ad_budget_ms ad) of
              None \<Rightarrow> (Failed (ArithmeticOverflow ''wait_steps'' []), sch\<lparr>sc_active := Some sq\<rparr>, x)
            | Some sq1 \<Rightarrow> reserve_step env X sch sq1 ad x)
      else reserve_step env X sch sq ad x)"

definition plan_step :: "('s, 'd) sched_env \<Rightarrow> 'x step_executor \<Rightarrow> ('s, 'd) scheduler \<Rightarrow> sequence \<Rightarrow> f32 \<Rightarrow> 'x \<Rightarrow>
    ('s, 'd, 'x) step_ret" where
  "plan_step env X sch sq budget_ms x =
     (let pre = estimate_pre_step_ms budget_ms
      in case plan_admission env sch sq budget_ms pre of
           Inl e \<Rightarrow> (Failed e, sch\<lparr>sc_active := Some sq\<rparr>, x)
         | Inr PlanWait \<Rightarrow> stall sch sq budget_ms x
         | Inr (PlanDecode bucket cost next_step) \<Rightarrow>
             admit_step env X sch sq \<lparr>ad_chunk = 0, ad_forced = False, ad_bucket = bucket, ad_cost_ms = cost,
               ad_next_step = next_step, ad_is_decode = True, ad_budget_ms = budget_ms, ad_pre_step_ms = pre\<rparr> x
         | Inr (PlanPrefill chunk forced bucket cost next_step) \<Rightarrow>
             admit_step env X sch sq \<lparr>ad_chunk = chunk, ad_forced = forced, ad_bucket = bucket, ad_cost_ms = cost,
               ad_next_step = next_step, ad_is_decode = False, ad_budget_ms = budget_ms, ad_pre_step_ms = pre\<rparr> x)"

definition sched_step :: "('s, 'd) sched_env \<Rightarrow> 'x step_executor \<Rightarrow> ('s, 'd) scheduler \<Rightarrow> 'x \<Rightarrow> ('s, 'd, 'x) step_ret" where
  "sched_step env X sch x =
     (if is_idle sch then (Done None, sch, x)
      else case resolve_budget_ms (en_cost_ms env) (cf_step_budget_ms (sc_config sch)) (cf_profile (sc_config sch)) of
             Inl e \<Rightarrow> (Failed e, sch, x)
           | Inr budget_ms \<Rightarrow>
               let sch1 = promote sch
               in case sc_active sch1 of
                    None \<Rightarrow> (Done None, sch1, x)
                  | Some sq \<Rightarrow>
                      (case sq_phase sq of
                         Queued \<Rightarrow> (Done None, sch1, x)
                       | Finished _ \<Rightarrow> (Done None, sch1, x)
                       | _ \<Rightarrow> plan_step env X (sch1\<lparr>sc_active := None\<rparr>) sq budget_ms x))"

end
