(* ===== verification/Seq_Store.thy ===== *)
theory Seq_Store
  imports State_Lifecycle
begin

text \<open>
  What the scheduler relies on of the sequence-state manager, as an interface: each live
  sequence has a committed length, an open tail and a compaction mark; a reservation opens
  the tail, a commit folds an accepted prefix of it into the committed length and closes it,
  a failed call changes no sequence. The client's lemmas are about a ledger of sequences that are
  all closed, with at most one of them open while a step runs. The manager of
  \<open>crates/r9v-state/src/manager.rs\<close> is an instance.
\<close>

type_synonym seq_view = "nat \<times> nat \<times> nat option"

locale seq_store =
  fixes ok :: "'m \<Rightarrow> bool" and view :: "'m \<Rightarrow> nat \<rightharpoonup> seq_view" and issued :: "'m \<Rightarrow> nat set" and room :: "'m \<Rightarrow> bool"
    and start :: "'m \<Rightarrow> nat list \<Rightarrow> (nat \<times> nat) state_result \<times> 'm"
    and reserve_op :: "'m \<Rightarrow> nat \<Rightarrow> nat \<Rightarrow> 'r state_result \<times> 'm"
    and commit_op :: "'m \<Rightarrow> nat \<Rightarrow> nat \<Rightarrow> unit state_result \<times> 'm"
    and free_op :: "'m \<Rightarrow> nat \<Rightarrow> unit state_result \<times> 'm"
    and tail_op :: "'m \<Rightarrow> nat \<Rightarrow> nat state_result"
  assumes start_Inr: "ok m \<Longrightarrow> start m ts = (Inr (q, c), m') \<Longrightarrow>
      ok m' \<and> q \<notin> issued m \<and> issued m' = insert q (issued m) \<and> view m' = (view m)(q \<mapsto> (0, 0, None)) \<and> length ts < 2 ^ 32"
    and start_Inl: "ok m \<Longrightarrow> start m ts = (Inl e, m') \<Longrightarrow> m' = m"
    and viewed_issued: "ok m \<Longrightarrow> dom (view m) \<subseteq> issued m"
    and reserve_Inr: "ok m \<Longrightarrow> reserve_op m q n = (Inr r, m') \<Longrightarrow> ok m' \<and> issued m' = issued m \<and> (room m \<longrightarrow> room m') \<and> 0 < n \<and>
      (\<exists>c k. view m q = Some (c, 0, k) \<and> view m' = (view m)(q \<mapsto> (c, n, None)))"
    and reserve_Inl: "ok m \<Longrightarrow> reserve_op m q n = (Inl e, m') \<Longrightarrow> ok m' \<and> issued m' = issued m \<and> view m' = view m"
    and commit_open: "ok m \<Longrightarrow> room m \<Longrightarrow> view m q = Some (c, n, None) \<Longrightarrow> 0 < n \<Longrightarrow> a \<le> n \<Longrightarrow>
      \<exists>m'. commit_op m q a = (Inr (), m') \<and> ok m' \<and> issued m' = issued m \<and> view m' = (view m)(q \<mapsto> (c + a, 0, None))"
    and free_live: "ok m \<Longrightarrow> q \<in> dom (view m) \<Longrightarrow>
      \<exists>m'. free_op m q = (Inr (), m') \<and> ok m' \<and> issued m' = issued m \<and> view m' = (view m)(q := None)"
    and tail_of: "view m q = Some (c, n, k) \<Longrightarrow> tail_op m q = Inr n"
    and bounded: "ok m \<Longrightarrow> view m q = Some (c, n, k) \<Longrightarrow> c + n < 2 ^ 32"
begin

text \<open>A ledger: sequences with their committed lengths, none of them open.\<close>

definition ledger :: "'m \<Rightarrow> (nat \<times> nat) list \<Rightarrow> bool" where
  "ledger m L \<longleftrightarrow> ok m \<and> distinct (map fst L) \<and> (\<forall>p c. (p, c) \<in> set L \<longrightarrow> view m p = Some (c, 0, None))"

definition ledger_open :: "'m \<Rightarrow> (nat \<times> nat) list \<Rightarrow> nat \<Rightarrow> nat \<Rightarrow> nat \<Rightarrow> bool" where
  "ledger_open m L q c n \<longleftrightarrow> ok m \<and> distinct (q # map fst L) \<and> (\<forall>p c. (p, c) \<in> set L \<longrightarrow> view m p = Some (c, 0, None)) \<and>
     view m q = Some (c, n, None) \<and> 0 < n"

lemma ledger_ok: "ledger m L \<Longrightarrow> ok m" "ledger_open m L q c n \<Longrightarrow> ok m"
  by (simp_all add: ledger_def ledger_open_def)

lemma ledger_view: "ledger m L \<Longrightarrow> (q, c) \<in> set L \<Longrightarrow> view m q = Some (c, 0, None)"
  by (auto simp: ledger_def)

lemma ledger_start:
  assumes "ledger m L" and "start m ts = (Inr (q, c), m')"
  shows "ledger m' (L @ [(q, 0)])"
proof -
  have "ok m" and s: "ok m'" "q \<notin> issued m" "view m' = (view m)(q \<mapsto> (0, 0, None))"
    using assms start_Inr [of m ts q c m'] by (auto simp: ledger_def)
  then have "view m q = None" using viewed_issued by blast
  then have "(q, d) \<notin> set L" for d using assms(1) by (auto simp: ledger_def)
  then show ?thesis using assms(1) s by (auto simp: ledger_def)
qed

lemma ledger_reserve:
  assumes "ledger m ((q, c) # L)" and "reserve_op m q n = (Inr r, m')"
  shows "ledger_open m' L q c n"
proof -
  have l: "ok m" "distinct (q # map fst L)" "view m q = Some (c, 0, None)"
    "\<And>p d. (p, d) \<in> set L \<Longrightarrow> view m p = Some (d, 0, None)"
    using assms(1) by (auto simp: ledger_def)
  then have "ok m'" "0 < n" "view m' = (view m)(q \<mapsto> (c, n, None))" using reserve_Inr [OF l(1) assms(2)] by auto
  moreover have "p \<noteq> q" if "(p, d) \<in> set L" for p d using that l(2) by (auto simp: rev_image_eqI)
  ultimately show ?thesis using l by (simp add: ledger_open_def)
qed

lemma ledger_same: "ledger m L \<Longrightarrow> ok m' \<Longrightarrow> view m' = view m \<Longrightarrow> ledger m' L"
  by (simp add: ledger_def)

lemma ledger_commit:
  assumes "ledger_open m L q c n" and "room m" and "a \<le> n"
  shows "\<exists>m'. commit_op m q a = (Inr (), m') \<and> ledger m' ((q, c + a) # L) \<and> issued m' = issued m \<and>
    view m' = (view m)(q \<mapsto> (c + a, 0, None))"
proof -
  have l: "ok m" "distinct (q # map fst L)" "view m q = Some (c, n, None)" "0 < n"
    "\<And>p d. (p, d) \<in> set L \<Longrightarrow> view m p = Some (d, 0, None)"
    using assms(1) by (auto simp: ledger_open_def)
  obtain m' where m': "commit_op m q a = (Inr (), m')" "ok m'" "issued m' = issued m"
    "view m' = (view m)(q \<mapsto> (c + a, 0, None))"
    using commit_open [OF l(1) assms(2) l(3,4) assms(3)] by blast
  moreover have "p \<noteq> q" if "(p, d) \<in> set L" for p d using that l(2) by (auto simp: rev_image_eqI)
  ultimately have "ledger m' ((q, c + a) # L)" using l by (auto simp: ledger_def)
  with m' show ?thesis by blast
qed

text \<open>A reservation followed by an abort is invisible.\<close>

lemma reserve_abort:
  assumes "ledger m ((q, c) # L)" and "room m" and "reserve_op m q n = (Inr r, m1)"
  shows "\<exists>m2. commit_op m1 q 0 = (Inr (), m2) \<and> view m2 = view m \<and> ledger m2 ((q, c) # L)"
proof -
  have "ok m" using assms(1) by (rule ledger_ok)
  then have r: "view m1 = (view m)(q \<mapsto> (c, n, None))" "room m1"
    using reserve_Inr [OF _ assms(3)] ledger_view [OF assms(1), of q c] assms(2) by auto
  obtain m2 where "commit_op m1 q 0 = (Inr (), m2)" "ledger m2 ((q, c) # L)" "view m2 = (view m1)(q \<mapsto> (c, 0, None))"
    using ledger_commit [OF ledger_reserve [OF assms(1,3)] r(2), of 0] by auto
  then show ?thesis using r(1) ledger_view [OF assms(1), of q c] by (auto simp: fun_upd_idem)
qed

lemma ledger_free_mem:
  assumes "ledger m L" and "(q, c) \<in> set L"
  shows "\<exists>m'. free_op m q = (Inr (), m') \<and> ledger m' (filter (\<lambda>p. fst p \<noteq> q) L) \<and> issued m' = issued m \<and>
    view m' = (view m)(q := None)"
proof -
  have "ok m" and "q \<in> dom (view m)" using ledger_ok assms ledger_view [OF assms] by auto
  then obtain m' where m': "free_op m q = (Inr (), m')" "ok m'" "issued m' = issued m" "view m' = (view m)(q := None)"
    using free_live [of m q] by blast
  moreover have "ledger m' (filter (\<lambda>p. fst p \<noteq> q) L)"
    using assms(1) m' by (auto simp: ledger_def distinct_map_filter)
  ultimately show ?thesis by blast
qed

lemma ledger_free:
  assumes "ledger m ((q, c) # L)"
  shows "\<exists>m'. free_op m q = (Inr (), m') \<and> ledger m' L \<and> issued m' = issued m \<and> view m' = (view m)(q := None)"
proof -
  have "p \<in> set L \<Longrightarrow> fst p \<noteq> q" for p using assms by (auto simp: ledger_def)
  then have "filter (\<lambda>p. fst p \<noteq> q) ((q, c) # L) = L" by simp
  then show ?thesis using ledger_free_mem [OF assms, of q c] by simp
qed

end

section \<open>The manager\<close>

definition sm_view :: "state_manager \<Rightarrow> nat \<rightharpoonup> seq_view" where
  "sm_view m q = map_option (\<lambda>s. (ss_ctx_len s, ss_tail_len s, ss_compacted s)) (sm_seqs m q)"

definition sm_room :: "state_manager \<Rightarrow> bool" where
  "sm_room m \<longleftrightarrow> sm_commits m + 1 < 2 ^ 64 \<and> sm_swaps m + 1 < 2 ^ 64"

abbreviation sm_issued :: "state_manager \<Rightarrow> nat set" where "sm_issued m \<equiv> {q. q < sm_next_seq m}"

lemma sm_view_upd: "sm_seqs m' = (sm_seqs m)(q \<mapsto> s) \<Longrightarrow>
    sm_view m' = (sm_view m)(q \<mapsto> (ss_ctx_len s, ss_tail_len s, ss_compacted s))"
  by (auto simp: sm_view_def)

lemma sm_inv_view: "sm_inv m \<Longrightarrow> dom (sm_view m) \<subseteq> sm_issued m"
  by (auto simp: sm_inv_def ids_ok_def sm_view_def dom_def)

lemma sm_inv_max_ctx: "sm_inv m \<Longrightarrow> sc_max_ctx (sm_config m) < 2 ^ 32"
  by (simp add: sm_inv_def static_ok_def config_ok_def MAX_CTX_HARD_def)

lemma sm_inv_ctx: "sm_inv m \<Longrightarrow> sm_view m q = Some (c, n, k) \<Longrightarrow> c + n < 2 ^ 32"
  using sm_inv_max_ctx [of m] by (auto simp: sm_inv_def seqs_ok_def seq_ok_def sm_view_def dest!: spec)

lemma sm_start_Inr:
  assumes "sm_inv m" and "new_seq m ts = (Inr (q, c), m')"
  shows "sm_inv m' \<and> q \<notin> sm_issued m \<and> sm_issued m' = insert q (sm_issued m) \<and>
    sm_view m' = (sm_view m)(q \<mapsto> (0, 0, None)) \<and> length ts < 2 ^ 32"
proof -
  have can: "can_start m ts" using assms(2) new_seq_refused by fastforce
  then have "length ts < 2 ^ 32" using sm_inv_max_ctx [OF assms(1)] by (simp add: can_start_def)
  moreover obtain slots fixed' m1 where m1: "new_seq m ts = (Inr (sm_next_seq m, 0), m1)"
    "m1 = m\<lparr>sm_fixed := fixed', sm_seqs := (sm_seqs m)(sm_next_seq m \<mapsto> fresh_seq (length (sm_groups m)) slots),
        sm_next_seq := sm_next_seq m + 1, sm_live_count := sm_live_count m + 1\<rparr>" "sm_inv m1"
    by (rule new_seq_success [OF assms(1) can], rule that; assumption)
  ultimately show ?thesis using assms(2) by (auto simp: sm_view_def fresh_seq_def)
qed

lemma sm_reserve_Inr:
  assumes "sm_inv m" and "reserve m q n = (Inr r, m')"
  shows "sm_inv m' \<and> sm_issued m' = sm_issued m \<and> (sm_room m \<longrightarrow> sm_room m') \<and> 0 < n \<and>
    (\<exists>c k. sm_view m q = Some (c, 0, k) \<and> sm_view m' = (sm_view m)(q \<mapsto> (c, n, None)))"
proof -
  have can: "can_reserve m q n" using reserve_refused [OF assms(1), of q n] assms(2) by fastforce
  obtain s s' m1 where s: "sm_seqs m q = Some s" "reserve m q n = (Inr \<lparr>sr_seq = q, sr_start = ss_ctx_len s, sr_len = n\<rparr>, m1)"
    "sm_seqs m1 = (sm_seqs m)(q \<mapsto> s')" "sm_inv m1"
    "s' = s\<lparr>ss_tail_len := n, ss_compacted := None, ss_indices := ss_indices s', ss_tables := ss_tables s'\<rparr>"
    "m1 = m\<lparr>sm_seqs := sm_seqs m1, sm_pools := sm_pools m1, sm_reserve_scratch := sm_reserve_scratch m1\<rparr>"
    by (rule reserve_success [OF assms(1) can], rule that; assumption)
  have m': "m' = m1" using s(2) assms(2) by simp
  have "sm_next_seq m1 = sm_next_seq m" "sm_commits m1 = sm_commits m" "sm_swaps m1 = sm_swaps m"
    by (subst s(6), simp)+
  moreover have "ss_ctx_len s' = ss_ctx_len s" "ss_tail_len s' = n" "ss_compacted s' = None" by (subst s(5), simp)+
  moreover have "0 < n" "sm_view m q = Some (ss_ctx_len s, 0, ss_compacted s)"
    using can s(1) by (auto simp: can_reserve_def sm_view_def)
  ultimately show ?thesis using s(3,4) sm_view_upd [OF s(3)] by (auto simp: m' sm_room_def)
qed

lemma sm_commit_open:
  assumes "sm_inv m" and "sm_room m" and "sm_view m q = Some (c, n, None)" and "0 < n" and "a \<le> n"
  shows "\<exists>m'. commit m q a = (Inr (), m') \<and> sm_inv m' \<and> sm_issued m' = sm_issued m \<and>
    sm_view m' = (sm_view m)(q \<mapsto> (c + a, 0, None))"
proof -
  obtain s where s: "sm_seqs m q = Some s" "ss_ctx_len s = c" "ss_tail_len s = n" "ss_compacted s = None"
    using assms(3) by (auto simp: sm_view_def)
  have can: "can_commit m q a" using s assms by (simp add: can_commit_def sm_room_def)
  obtain s0 s' m' where m': "sm_seqs m q = Some s0" "commit m q a = (Inr (), m')" "sm_inv m'" "sm_seqs m' = (sm_seqs m)(q \<mapsto> s')"
    "ss_ctx_len s' = ss_ctx_len s0 + a" "ss_tail_len s' = 0" "ss_compacted s' = None"
    "m' = m\<lparr>sm_seqs := sm_seqs m', sm_pools := sm_pools m', sm_commits := sm_commits m', sm_swaps := sm_swaps m'\<rparr>"
    by (rule commit_success [OF assms(1) can], rule that; assumption)
  have "sm_next_seq m' = sm_next_seq m" by (subst m'(8)) simp
  then show ?thesis using m' s sm_view_upd [OF m'(4)] by auto
qed

lemma sm_start_Inl:
  assumes "sm_inv m" and "new_seq m ts = (Inl e, m')"
  shows "m' = m"
proof (cases "can_start m ts")
  case True
  then show ?thesis using new_seq_success [OF assms(1) True] assms(2) by fastforce
next
  case False
  then show ?thesis using new_seq_refused [OF False] assms(2) by auto
qed

lemma sm_reserve_Inl:
  assumes "sm_inv m" and "reserve m q n = (Inl e, m')"
  shows "sm_inv m' \<and> sm_issued m' = sm_issued m \<and> sm_view m' = sm_view m"
proof -
  have "\<not> can_reserve m q n" using reserve_success [OF assms(1), of q n] assms(2) by fastforce
  then obtain e' x where "reserve m q n = (Inl e', m\<lparr>sm_reserve_scratch := x\<rparr>)" by (rule reserve_refused [OF assms(1)])
  then have "m' = m\<lparr>sm_reserve_scratch := x\<rparr>" using assms(2) by simp
  then show ?thesis using assms(1) by (simp add: sm_view_def fun_eq_iff)
qed

lemma sm_free_live:
  assumes "sm_inv m" and "q \<in> dom (sm_view m)"
  shows "\<exists>m'. free_seq m q = (Inr (), m') \<and> sm_inv m' \<and> sm_issued m' = sm_issued m \<and> sm_view m' = (sm_view m)(q := None)"
proof -
  obtain s where s: "sm_seqs m q = Some s" using assms(2) by (auto simp: sm_view_def)
  obtain m' where m': "free_seq m q = (Inr (), m')" "sm_inv m'" "sm_seqs m' = (sm_seqs m)(q := None)"
    "m' = m\<lparr>sm_seqs := sm_seqs m', sm_pools := sm_pools m', sm_fixed := sm_fixed m', sm_live_count := sm_live_count m'\<rparr>"
    by (rule free_seq_success [OF assms(1) s], rule that; assumption)
  have "sm_next_seq m' = sm_next_seq m" by (subst m'(4)) simp
  then show ?thesis using m'(1-3) by (auto simp: sm_view_def fun_eq_iff)
qed

lemma sm_tail_of: "sm_view m q = Some (c, n, k) \<Longrightarrow> sm_tail_len m q = Inr n"
  by (auto simp: sm_tail_len_def sm_view_def sm_seq_def)

interpretation sm: seq_store sm_inv sm_view sm_issued sm_room new_seq reserve commit free_seq sm_tail_len
  by unfold_locales
    (fact sm_start_Inr sm_start_Inl sm_inv_view sm_reserve_Inr sm_reserve_Inl sm_commit_open sm_free_live sm_tail_of sm_inv_ctx)+

end
