(* ===== verification/Sched_Stop.thy ===== *)
theory Sched_Stop
  imports Sched_Seq
begin

text \<open>
  Correctness of incremental stop evaluation. The scheduler searches only a bounded tail
  of the generated text; \<open>tail_tracks\<close> says which part of the whole text that tail is and that
  no occurrence of a stop string can start before it, now or after any further token. The
  facts hold for every detokenizer that keeps the interface of \<open>Sched_Detok\<close>.
\<close>

section \<open>Occurrences\<close>

definition stop_texts :: "stop_criteria \<Rightarrow> utf8 set" where
  "stop_texts c = {t \<in> set (st_stop_strings c). t \<noteq> []}"

text \<open>What \<open>StopCriteria::new\<close> establishes: strings are valid UTF-8 and the tail bound covers them.\<close>

definition stop_ok :: "stop_criteria \<Rightarrow> bool" where
  "stop_ok c \<longleftrightarrow> (\<forall>t \<in> set (st_stop_strings c). utf8_valid t \<and> length t \<le> st_max_stop_len c)"

lemma fold_max_ge: "(x::nat) \<in> set xs \<Longrightarrow> x \<le> fold max xs a" "a \<le> fold max xs a"
proof -
  have "a \<le> fold max xs a \<and> (\<forall>x \<in> set xs. x \<le> fold max xs a)" for a
    by (induction xs arbitrary: a) (simp, metis fold_simps(2) list.set_intros max.bounded_iff set_ConsD)
  then show "(x::nat) \<in> set xs \<Longrightarrow> x \<le> fold max xs a" "a \<le> fold max xs a" by auto
qed

lemma stop_new_ok: "(\<And>t. t \<in> set strings \<Longrightarrow> utf8_valid t) \<Longrightarrow> stop_ok (stop_new eos strings)"
  by (simp add: stop_ok_def stop_new_def fold_max_ge)

lemma find_upt_Some: "List.find P [0..<n] = Some i \<longleftrightarrow> i < n \<and> P i \<and> (\<forall>j < i. \<not> P j)"
  by (auto simp: find_Some_iff)

lemma str_find_Some: "str_find t pat = Some i \<longleftrightarrow> occurs pat t i \<and> (\<forall>j < i. \<not> occurs pat t j)"
  unfolding str_find_def find_upt_Some by (auto simp: occurs_def)

lemma str_find_None: "str_find t pat = None \<longleftrightarrow> (\<forall>i. \<not> occurs pat t i)"
  by (auto simp: str_find_def find_None_iff occurs_def)

lemma occurs_drop: "k \<le> length t \<Longrightarrow> occurs pat (drop k t) i \<longleftrightarrow> occurs pat t (k + i)"
  by (auto simp: occurs_def add.commute)

text \<open>The least match over all stop strings.\<close>

definition earliest_match :: "utf8 set \<Rightarrow> utf8 \<Rightarrow> (nat \<times> utf8) option \<Rightarrow> bool" where
  "earliest_match ss t m \<longleftrightarrow>
     (case m of
        None \<Rightarrow> \<forall>s \<in> ss. \<forall>j. \<not> occurs s t j
      | Some (i, s0) \<Rightarrow> s0 \<in> ss \<and> occurs s0 t i \<and> (\<forall>s \<in> ss. \<forall>j. occurs s t j \<longrightarrow> i \<le> j))"

lemma check_stop_from_earliest:
  "earliest_match ss t m \<Longrightarrow> earliest_match (ss \<union> {s \<in> set xs. s \<noteq> []}) t (check_stop_from t xs m)"
proof (induction xs arbitrary: ss m)
  case (Cons x rest)
  have split: "ss \<union> {s \<in> set (x # rest). s \<noteq> []} = (if x = [] then ss else insert x ss) \<union> {s \<in> set rest. s \<noteq> []}" by auto
  have "\<exists>m'. check_stop_from t (x # rest) m = check_stop_from t rest m' \<and>
      earliest_match (if x = [] then ss else insert x ss) t m'"
  proof (cases "x = []")
    case False
    show ?thesis
    proof (cases "str_find t x")
      case None
      then have "\<not> occurs x t j" for j by (simp add: str_find_None)
      with Cons.prems False None show ?thesis
        by (intro exI [of _ m]) (auto simp: earliest_match_def split: option.splits)
    next
      case (Some i)
      have i: "occurs x t i" "\<And>j. occurs x t j \<Longrightarrow> i \<le> j" using Some by (auto simp: str_find_Some not_less [symmetric])
      show ?thesis
      proof (cases m)
        case None
        with Cons.prems False Some i show ?thesis
          by (intro exI [of _ "Some (i, x)"]) (auto simp: earliest_match_def)
      next
        case m: (Some p)
        obtain k s0 where p: "p = (k, s0)" by (cases p)
        have "earliest_match (insert x ss) t (if i < k then Some (i, x) else m)"
          using Cons.prems i m p by (auto simp: earliest_match_def dest: i(2)) (meson less_imp_le order_trans)
        with False Some m p show ?thesis by (intro exI [of _ "if i < k then Some (i, x) else m"]) simp
      qed
    qed
  qed (use Cons.prems in auto)
  with Cons.IH show ?case unfolding split by metis
qed simp

lemma check_stop_string_earliest: "earliest_match (stop_texts c) t (check_stop_string c t)"
  using check_stop_from_earliest [of "{}" t None "st_stop_strings c"]
  by (simp add: earliest_match_def check_stop_string_def stop_texts_def)

text \<open>Searching a suffix that holds every occurrence.\<close>

lemma check_stop_from_shift:
  assumes "\<And>x. x \<in> set xs \<Longrightarrow> x \<noteq> [] \<Longrightarrow> str_find H x = map_option (\<lambda>i. k + i) (str_find T x)"
  shows "check_stop_from H xs (map_option (\<lambda>(i, t). (k + i, t)) m) = map_option (\<lambda>(i, t). (k + i, t)) (check_stop_from T xs m)"
  using assms by (induction T xs m rule: check_stop_from.induct) (auto split: option.splits)

section \<open>The bounded tail\<close>

definition tail_tracks :: "sequence \<Rightarrow> utf8 \<Rightarrow> bool" where
  "tail_tracks s H \<longleftrightarrow> utf8_valid H \<and> sq_tail_start_byte s \<le> length H \<and> char_boundary H (sq_tail_start_byte s) \<and>
     sq_detokenized_tail s = drop (sq_tail_start_byte s) H \<and>
     (\<forall>t \<in> stop_texts (rq_stop (sq_req s)). \<forall>p. occurs t H p \<longrightarrow> sq_tail_start_byte s \<le> p) \<and>
     (\<forall>p. char_boundary H p \<longrightarrow> length H < p + st_max_stop_len (rq_stop (sq_req s)) \<longrightarrow> sq_tail_start_byte s \<le> p)"

lemma occurs_boundary: "utf8_valid t \<Longrightarrow> t \<noteq> [] \<Longrightarrow> occurs t H p \<Longrightarrow> char_boundary H p"
proof -
  assume t: "utf8_valid t" "t \<noteq> []" and o: "occurs t H p"
  obtain c t' where c: "t = c @ t'" "utf8_char c" using utf8_valid_charD [OF t] by blast
  have "p < length H" using o t(2) by (cases t) (auto simp: occurs_def)
  moreover have "H ! p = hd t" using o t(2) calculation by (metis occurs_def hd_drop_conv_nth hd_take length_greater_0_conv)
  moreover have "\<not> continuation (hd t)" using c utf8_charD(1,4) [OF c(2)] by (simp add: hd_append)
  ultimately show ?thesis by (simp add: char_boundary_def)
qed

lemma boundary_prefix: "char_boundary (H @ bs) p \<Longrightarrow> p \<le> length H \<Longrightarrow> char_boundary H p"
  by (cases "p = length H") (auto simp: char_boundary_def nth_append)

text \<open>More text never reveals an occurrence before the tail.\<close>

lemma tail_tracks_append:
  assumes "tail_tracks s H" and "stop_ok (rq_stop (sq_req s))" and "utf8_valid bs"
    and "sq_req s' = sq_req s" and "sq_tail_start_byte s' = sq_tail_start_byte s"
    and "sq_detokenized_tail s' = sq_detokenized_tail s @ bs"
  shows "tail_tracks s' (H @ bs)"
proof -
  let ?c = "rq_stop (sq_req s)" and ?ts = "sq_tail_start_byte s"
  have h: "utf8_valid H" "?ts \<le> length H" "char_boundary H ?ts" "sq_detokenized_tail s = drop ?ts H"
    and A: "\<And>t p. t \<in> stop_texts ?c \<Longrightarrow> occurs t H p \<Longrightarrow> ?ts \<le> p"
    and B: "\<And>p. char_boundary H p \<Longrightarrow> length H < p + st_max_stop_len ?c \<Longrightarrow> ?ts \<le> p"
    using assms(1) by (auto simp: tail_tracks_def)
  have B': "?ts \<le> p" if "char_boundary (H @ bs) p" "length H < p + st_max_stop_len ?c" for p
    using that B [OF boundary_prefix [OF that(1)]] h(2) by (cases "p \<le> length H") auto
  have "?ts \<le> p" if t: "t \<in> stop_texts ?c" and o: "occurs t (H @ bs) p" for t p
  proof (cases "p + length t \<le> length H")
    case True
    then have "occurs t H p" using o by (auto simp: occurs_def)
    then show ?thesis using A t by blast
  next
    case False
    have "utf8_valid t" "t \<noteq> []" "length t \<le> st_max_stop_len ?c" using t assms(2) by (auto simp: stop_texts_def stop_ok_def)
    then show ?thesis using B' [OF occurs_boundary [OF _ _ o]] False by auto
  qed
  moreover have "char_boundary (H @ bs) ?ts"
    using h(2,3) boundary_start [OF assms(3)] by (auto simp: char_boundary_def nth_append)
  ultimately show ?thesis
    using assms(3-6) h B' by (auto simp: tail_tracks_def utf8_valid_append)
qed

text \<open>So the tail search finds what a search of the whole text would find.\<close>

lemma tail_search:
  assumes "tail_tracks s H"
  shows "check_stop_string (rq_stop (sq_req s)) H =
    map_option (\<lambda>(i, t). (sq_tail_start_byte s + i, t)) (check_stop_string (rq_stop (sq_req s)) (sq_detokenized_tail s))"
proof -
  let ?c = "rq_stop (sq_req s)" and ?ts = "sq_tail_start_byte s"
  have h: "?ts \<le> length H" "sq_detokenized_tail s = drop ?ts H" and A: "\<And>t p. t \<in> stop_texts ?c \<Longrightarrow> occurs t H p \<Longrightarrow> ?ts \<le> p"
    using assms by (auto simp: tail_tracks_def)
  have "str_find H x = map_option (\<lambda>i. ?ts + i) (str_find (drop ?ts H) x)" if x: "x \<in> stop_texts ?c" for x
  proof (cases "str_find (drop ?ts H) x")
    case None
    have "\<not> occurs x H p" for p
      using None A [OF x, of p] occurs_drop [OF h(1), of x "p - ?ts"] by (auto simp: str_find_None)
    then have "str_find H x = None" by (simp add: str_find_None)
    with None show ?thesis by simp
  next
    case (Some i)
    then have i: "occurs x H (?ts + i)" "\<And>j. j < i \<Longrightarrow> \<not> occurs x H (?ts + j)"
      using occurs_drop [OF h(1)] by (auto simp: str_find_Some)
    have "\<not> occurs x H p" if "p < ?ts + i" for p
      using i(2) [of "p - ?ts"] A [OF x, of p] that by (auto simp: less_diff_conv2)
    with i(1) have "str_find H x = Some (?ts + i)" by (simp add: str_find_Some)
    with Some show ?thesis by simp
  qed
  then show ?thesis using check_stop_from_shift [of "st_stop_strings ?c" H ?ts "drop ?ts H" None] h(2)
    by (simp add: check_stop_string_def stop_texts_def)
qed

section \<open>Trimming the tail\<close>

text \<open>The first character start from which at most the tail bound remains, if there is one.\<close>

definition trim_point :: "utf8 \<Rightarrow> nat \<Rightarrow> nat option" where
  "trim_point t excess = List.find (\<lambda>i. excess \<le> i) (filter (\<lambda>i. \<not> continuation (t ! i)) [0..<length t])"

lemma find_filter: "List.find P (filter Q xs) = List.find (\<lambda>x. Q x \<and> P x) xs"
  by (induction xs) auto

lemma trim_point_Some:
  "trim_point t e = Some i \<longleftrightarrow> i < length t \<and> char_boundary t i \<and> e \<le> i \<and> (\<forall>j < i. e \<le> j \<longrightarrow> \<not> char_boundary t j)"
  unfolding trim_point_def find_filter find_upt_Some by (auto simp: char_boundary_def)

lemma trim_point_None: "trim_point t e = None \<longleftrightarrow> (\<forall>j < length t. e \<le> j \<longrightarrow> \<not> char_boundary t j)"
  unfolding trim_point_def find_filter by (auto simp: find_None_iff char_boundary_def)

definition tail_keep :: "stop_criteria \<Rightarrow> nat" where
  "tail_keep c = max (case checked_mul 64 (st_max_stop_len c) 2 of Some n \<Rightarrow> n | None \<Rightarrow> 512) 128"

text \<open>The tail has outgrown its bound.\<close>

definition tail_overfull :: "sequence \<Rightarrow> bool" where
  "tail_overfull s \<longleftrightarrow> 0 < st_max_stop_len (rq_stop (sq_req s)) \<and> tail_keep (rq_stop (sq_req s)) < length (sq_detokenized_tail s)"

definition trimmed_tail :: "sequence \<Rightarrow> nat \<Rightarrow> sequence" where
  "trimmed_tail s i = s\<lparr>sq_detokenized_tail := drop i (sq_detokenized_tail s), sq_tail_start_byte := sq_tail_start_byte s + i,
     sq_token_byte_spans := filter (\<lambda>(_, _, e). e > sq_tail_start_byte s + i) (sq_token_byte_spans s)\<rparr>"

lemma bound_tail_eq:
  assumes "sq_tail_start_byte s + length (sq_detokenized_tail s) < 2 ^ 64"
    and "utf8_valid (sq_detokenized_tail s)"
  shows "bound_tail s =
    (if tail_overfull s
     then (case trim_point (sq_detokenized_tail s) (length (sq_detokenized_tail s) - st_max_stop_len (rq_stop (sq_req s))) of
             Some i \<Rightarrow> if i = 0 then (Done (None, False), s) else (Done (None, False), trimmed_tail s i)
           | None \<Rightarrow> (Panicked ''drain end is not a char boundary'', s))
     else (Done (None, False), s))"
proof (cases "tail_overfull s")
  case False
  then show ?thesis by (auto simp: bound_tail_def tail_overfull_def tail_keep_def Let_def)
next
  case True
  let ?t = "sq_detokenized_tail s" and ?L = "st_max_stop_len (rq_stop (sq_req s))"
  let ?e = "length ?t - ?L"
  have L: "0 < ?L" "128 < length ?t" using True by (auto simp: tail_overfull_def tail_keep_def)
  have d: "bound_tail s =
      (let trim_bytes = (case trim_point ?t ?e of Some i \<Rightarrow> i | None \<Rightarrow> ?e)
       in if trim_bytes > 0 \<and> trim_bytes \<le> length ?t then drain_tail s trim_bytes else (Done (None, False), s))"
    using True by (simp only: bound_tail_def tail_overfull_def tail_keep_def trim_point_def Let_def if_True simp_thms)
  show ?thesis
  proof (cases "trim_point ?t ?e")
    case None
    have n: "\<not> char_boundary ?t j" if "j < length ?t" "?e \<le> j" for j using None that by (simp add: trim_point_None)
    have l: "0 < length ?t" using L(2) by linarith
    have "0 < ?e"
    proof (rule ccontr)
      assume "\<not> 0 < ?e"
      then have "?e \<le> 0" by linarith
      from n [OF l this] show False using boundary_start [OF assms(2)] by blast
    qed
    moreover have "\<not> char_boundary ?t ?e" by (rule n [OF diff_less [OF L(1) l] order_refl])
    ultimately show ?thesis using True None by (simp add: d drain_tail_def)
  next
    case (Some i)
    then have i: "i < length ?t" "char_boundary ?t i" by (auto simp: trim_point_Some)
    then have "sq_tail_start_byte s + i < 2 ^ 64" using assms(1) by linarith
    then show ?thesis using True Some i by (simp add: d drain_tail_def checked_add_def trimmed_tail_def Let_def)
  qed
qed

end
