(* ===== verification/Sched_Inv.thy ===== *)
theory Sched_Inv
  imports Scheduler Seq_Store Sched_Stop
begin

text \<open>
  The scheduler's invariant and what one step does to it. Between steps every live sequence is
  closed in the state manager at exactly the context length the scheduler records, a decoding
  sequence has committed its prompt and all but the newest of its tokens, at most one sequence
  occupies the decode slot, arrivals are served in order, and each finished sequence holds a
  result of at most its budget. A step either settles the sequence it took, forward by the admitted
  tokens or into the results, or leaves every sequence, commit and result as they were.
\<close>

section \<open>The append under a well-behaved detokenizer\<close>

lemma evaluate_stop_not_failed:
  assumes "sq_tail_start_byte s + length (sq_detokenized_tail s) < 2 ^ 64"
  shows "fst (evaluate_stop D s t i fb eos d) \<noteq> Failed e"
proof -
  have "m \<le> length (sq_detokenized_tail s)" if "check_stop_string c (sq_detokenized_tail s) = Some (m, p)" for c m p
    using check_stop_string_earliest [of c "sq_detokenized_tail s"] that by (auto simp: earliest_match_def occurs_def)
  then have "fst (stop_at s i m) \<noteq> Failed e" if "check_stop_string c (sq_detokenized_tail s) = Some m" for c m
    using that assms by (fastforce simp: stop_at_def checked_add_def Let_def split: prod.splits)
  moreover have "fst (bound_tail s) \<noteq> Failed e"
    using assms by (auto simp: bound_tail_def drain_tail_def checked_add_def Let_def split: option.splits)
  ultimately show ?thesis by (auto simp: evaluate_stop_def split: option.splits if_splits)
qed

lemma evaluate_stop_generated: "length (sq_generated (snd (evaluate_stop D s t i fb eos d))) \<le> length (sq_generated s)"
  using bound_tail_frame(2) [of s]
  by (auto simp: evaluate_stop_def stop_at_def Let_def split: option.splits prod.splits)

text \<open>An append stops at the detokenizer or its byte counts, or evaluates the pushed token.\<close>

lemma append_split:
  assumes "append_generated_token D s tok d = (f, s', d')" and "dt_append_token D d (sq_seq_id s) tok (sq_detokenized_tail s) = (r, d1, tx)"
  obtains e where "f = Failed e" and "s' = s \<or> s' = s\<lparr>sq_detokenized_tail := tx\<rparr>" and "d' = d \<or> d' = d1"
  | n b fb eos where "r = Inr n" and "d' = d1" and "b = sq_tail_start_byte s + length (sq_detokenized_tail s)" and "b + n < 2 ^ 64"
      and "evaluate_stop D (push_token (s\<lparr>sq_detokenized_tail := tx\<rparr>) tok (length (sq_generated s)) b n (b + n)) tok
             (length (sq_generated s)) fb eos d1 = (f, s')"
  using assms
  by (auto simp: append_generated_token_def checked_add_def Let_def split: if_splits sum.splits prod.splits)

lemma append_generated_length:
  assumes "append_generated_token D s tok d = (f, s', d')"
  shows "length (sq_generated s') \<le> length (sq_generated s) + 1"
proof -
  obtain r d1 tx where a: "dt_append_token D d (sq_seq_id s) tok (sq_detokenized_tail s) = (r, d1, tx)"
    by (cases "dt_append_token D d (sq_seq_id s) tok (sq_detokenized_tail s)")
  show ?thesis
  proof (rule append_split [OF assms a], goal_cases)
    case (2 n b fb eos)
    then show ?case
      using evaluate_stop_generated [of D "push_token (s\<lparr>sq_detokenized_tail := tx\<rparr>) tok (length (sq_generated s)) b n (b + n)" tok
          "length (sq_generated s)" fb eos d1] by (simp add: push_token_frame(2))
  qed auto
qed

context detokenizer
begin

lemma append_failed:
  assumes "ok d" and "append_generated_token D s tok d = (Failed e, s', d')"
  shows "\<exists>bs. s' = s\<lparr>sq_detokenized_tail := sq_detokenized_tail s @ bs\<rparr> \<and> utf8_valid bs"
proof -
  obtain r d1 tx where a: "dt_append_token D d (sq_seq_id s) tok (sq_detokenized_tail s) = (r, d1, tx)"
    by (cases "dt_append_token D d (sq_seq_id s) tok (sq_detokenized_tail s)")
  obtain bs where bs: "tx = sq_detokenized_tail s @ bs" "utf8_valid bs" using appends [OF assms(1) a] by blast
  have n: "length tx = length (sq_detokenized_tail s) + n" if "r = Inr n" for n
    using counts [OF assms(1)] a that by blast
  have "s' = s \<or> s' = s\<lparr>sq_detokenized_tail := tx\<rparr>"
  proof (rule append_split [OF assms(2) a], goal_cases)
    case (2 n b fb eos)
    let ?s = "push_token (s\<lparr>sq_detokenized_tail := tx\<rparr>) tok (length (sq_generated s)) b n (b + n)"
    have "sq_tail_start_byte ?s = sq_tail_start_byte s" "sq_detokenized_tail ?s = tx"
      by (simp_all add: push_token_def Let_def split: option.splits)
    then have "fst (evaluate_stop D ?s tok (length (sq_generated s)) fb eos d1) \<noteq> Failed e"
      using n [OF 2(1)] 2(3,4) by (intro evaluate_stop_not_failed) simp
    then show ?case using 2(5) by simp
  qed
  then show ?thesis using bs by (auto intro: exI [of _ "[]"] exI [of _ bs])
qed

lemma append_keeps: "ok d \<Longrightarrow> append_generated_token D s tok d = (f, s', d') \<Longrightarrow> ok d'"
  by (cases "dt_append_token D d (sq_seq_id s) tok (sq_detokenized_tail s)") (auto elim!: append_split intro: keeps)

text \<open>A rejected token is rolled back exactly, whatever it had appended.\<close>

lemma rollback_rejected:
  assumes "ok d" and "append_generated_token D (s\<lparr>sq_phase := p\<rparr>) tok d = (Failed e, s', d')"
  shows "rollback_append s s' = Some (s\<lparr>sq_phase := p\<rparr>)"
proof -
  obtain bs where "s' = s\<lparr>sq_phase := p, sq_detokenized_tail := sq_detokenized_tail s @ bs\<rparr>" "utf8_valid bs"
    using append_failed [OF assms] by auto
  moreover from this(2) have "char_boundary (sq_detokenized_tail s @ bs) (length (sq_detokenized_tail s))"
    using boundary_start [of bs] by (auto simp: char_boundary_def nth_append)
  ultimately show ?thesis by (simp add: rollback_append_def Let_def)
qed

end

section \<open>The invariant\<close>

definition opt_list :: "'a option \<Rightarrow> 'a list" where
  "opt_list x = (case x of None \<Rightarrow> [] | Some a \<Rightarrow> [a])"

lemma opt_list_simps [simp]: "opt_list None = []" "opt_list (Some a) = [a]"
  by (simp_all add: opt_list_def)

text \<open>The sequences the scheduler serves, in the order it serves them.\<close>

definition live :: "('s, 'd) scheduler \<Rightarrow> sequence list" where
  "live sch = opt_list (sc_active sch) @ opt_list (sc_paused sch) @ sc_queued sch"

definition seq_key :: "sequence \<Rightarrow> nat \<times> nat" where
  "seq_key s = (sq_seq_id s, sq_ctx_len s)"

definition request_ok :: "request \<Rightarrow> bool" where
  "request_ok r \<longleftrightarrow> rq_tokens r \<noteq> [] \<and> 0 < rq_max_tokens r"

text \<open>How far a live sequence is: the newest generated token is not committed yet.\<close>

definition seq_progress :: "sequence \<Rightarrow> bool" where
  "seq_progress s \<longleftrightarrow> request_ok (sq_req s) \<and> length (rq_tokens (sq_req s)) < 2 ^ 32 \<and>
     length (sq_generated s) < rq_max_tokens (sq_req s) \<and>
     (case sq_phase s of
        Queued \<Rightarrow> sq_ctx_len s = 0 \<and> sq_generated s = []
      | Prefilling n \<Rightarrow> sq_ctx_len s = n \<and> n < length (rq_tokens (sq_req s)) \<and> sq_generated s = []
      | Decoding \<Rightarrow> sq_generated s \<noteq> [] \<and> sq_ctx_len s + 1 = length (rq_tokens (sq_req s)) + length (sq_generated s)
      | Finished _ \<Rightarrow> False)"

definition is_running :: "sequence \<Rightarrow> bool" where
  "is_running s \<longleftrightarrow> (case sq_phase s of Prefilling _ \<Rightarrow> True | Decoding \<Rightarrow> True | _ \<Rightarrow> False)"

definition slots_ok :: "sequence option \<Rightarrow> sequence option \<Rightarrow> sequence list \<Rightarrow> bool" where
  "slots_ok act psd queue \<longleftrightarrow> (\<forall>s \<in> set queue. sq_phase s = Queued) \<and> (\<forall>s. act = Some s \<longrightarrow> is_running s) \<and>
     (\<forall>s. psd = Some s \<longrightarrow> sq_phase s = Decoding) \<and> (act = None \<or> psd = None)"

definition served_ok :: "state_manager \<Rightarrow> nat \<Rightarrow> sequence list \<Rightarrow> bool" where
  "served_ok m arrivals ss \<longleftrightarrow> sm.ledger m (map seq_key ss) \<and> (\<forall>s \<in> set ss. seq_progress s \<and> sq_arrival_order s \<le> arrivals) \<and>
     sorted_wrt (<) (map sq_arrival_order ss)"

definition results_ok :: "state_manager \<Rightarrow> (nat, request \<times> nat list \<times> finish_reason) btree \<Rightarrow> bool" where
  "results_ok m fin \<longleftrightarrow> bt_ok fin \<and>
     (\<forall>q r g f. map_of fin q = Some (r, g, f) \<longrightarrow> q < sm_next_seq m \<and> sm_view m q = None \<and> length g \<le> rq_max_tokens r)"

definition sched_inv :: "('d \<Rightarrow> bool) \<Rightarrow> ('s, 'd) scheduler \<Rightarrow> bool" where
  "sched_inv okd sch \<longleftrightarrow> okd (sc_detokenizer sch) \<and> served_ok (sc_state_manager sch) (sc_arrival_counter sch) (live sch) \<and>
     slots_ok (sc_active sch) (sc_paused sch) (sc_queued sch) \<and> results_ok (sc_state_manager sch) (sc_finished sch) \<and>
     sc_in_flight sch = None \<and> outstanding_count sch \<le> cf_max_outstanding (sc_config sch) \<and>
     (\<exists>h. ring_logs (sc_schedule_log sch) h)"

text \<open>Room in the 64-bit counters a step increments: commits, buffer swaps and logged records.\<close>

definition counters_ok :: "('s, 'd) scheduler \<Rightarrow> bool" where
  "counters_ok sch \<longleftrightarrow> sm_room (sc_state_manager sch) \<and> lr_total_written (sc_schedule_log sch) + 1 < 2 ^ 64"

section \<open>What a step may do\<close>

text \<open>The same work: identity, request, progress and tokens; waits, costs and text may differ.\<close>

definition same_work :: "sequence \<Rightarrow> sequence \<Rightarrow> bool" where
  "same_work s s' \<longleftrightarrow> same_frame s s' \<and> sq_generated s' = sq_generated s"

lemma same_work_refl [simp]: "same_work s s"
  by (simp add: same_work_def)

lemma same_work_trans [trans]: "same_work a b \<Longrightarrow> same_work b c \<Longrightarrow> same_work a c"
  by (auto simp: same_work_def intro: same_frame_trans)

lemma same_work_fields:
  assumes "same_work s s'"
  shows "seq_key s' = seq_key s" "seq_progress s' = seq_progress s" "is_running s' = is_running s"
    "sq_arrival_order s' = sq_arrival_order s" "sq_phase s' = sq_phase s" "sq_seq_id s' = sq_seq_id s" "sq_req s' = sq_req s"
    "sq_ctx_len s' = sq_ctx_len s" "sq_generated s' = sq_generated s"
  using assms by (simp_all add: same_work_def same_frame_def seq_key_def seq_progress_def is_running_def split: sequence_phase.splits)

lemma same_work_seq_upd [simp]:
  "same_work s (s\<lparr>sq_detokenized_tail := t\<rparr>)" "same_work s (s\<lparr>sq_accept_ema := f\<rparr>)"
  "same_work s (s\<lparr>sq_wait_steps := n, sq_accumulated_wait_ms := w\<rparr>)"
  by (simp_all add: same_work_def same_frame_def)

text \<open>Nothing settled: the taken sequence is back in a slot and every commit and result is as before.\<close>

definition unsettled :: "('s, 'd) scheduler \<Rightarrow> sequence \<Rightarrow> ('s, 'd) scheduler \<Rightarrow> bool" where
  "unsettled sch s sch' \<longleftrightarrow> sm_view (sc_state_manager sch') = sm_view (sc_state_manager sch) \<and>
     sc_finished sch' = sc_finished sch \<and> sc_queued sch' = sc_queued sch \<and> sc_schedule_log sch' = sc_schedule_log sch \<and>
     (\<exists>s'. same_work s s' \<and> (sc_active sch' = Some s' \<and> sc_paused sch' = None \<or> sc_active sch' = None \<and> sc_paused sch' = Some s'))"

text \<open>Settled: the sequence moved forward by the \<open>n\<close> admitted tokens and stays, or its result is stored.\<close>

definition settled :: "('s, 'd) scheduler \<Rightarrow> sequence \<Rightarrow> step_result \<Rightarrow> ('s, 'd) scheduler \<Rightarrow> bool" where
  "settled sch s rs sch' \<longleftrightarrow> sc_queued sch' = sc_queued sch \<and> sc_paused sch' = None \<and>
     ring_push (sc_schedule_log sch) (rs_record rs) = (Inr (), sc_schedule_log sch') \<and>
     rs_step_id rs = sc_step_counter sch + 1 \<and> sc_step_counter sch' = sc_step_counter sch + 1 \<and>
     (\<exists>n s'. 0 < n \<and> sq_seq_id s' = sq_seq_id s \<and> sq_req s' = sq_req s \<and> sq_arrival_order s' = sq_arrival_order s \<and>
        sq_ctx_len s' = sq_ctx_len s + n \<and>
        (sc_active sch' = Some s' \<and> sc_finished sch' = sc_finished sch \<and>
         sm_view (sc_state_manager sch') = (sm_view (sc_state_manager sch))(sq_seq_id s \<mapsto> (sq_ctx_len s + n, 0, None)) \<or>
         (\<exists>reason. sc_active sch' = None \<and>
           sc_finished sch' = bt_insert (sq_seq_id s) (sq_req s, sq_generated s', reason) (sc_finished sch) \<and>
           sm_view (sc_state_manager sch') = (sm_view (sc_state_manager sch))(sq_seq_id s := None))))"

definition step_ok :: "('d \<Rightarrow> bool) \<Rightarrow> ('s, 'd) scheduler \<Rightarrow> sequence \<Rightarrow> ('s, 'd, 'x) step_ret \<Rightarrow> bool" where
  "step_ok okd sch s ret \<longleftrightarrow> (case ret of (r, sch', _) \<Rightarrow>
     (case r of
        Panicked _ \<Rightarrow> True
      | Failed _ \<Rightarrow> sched_inv okd sch' \<and> unsettled sch s sch'
      | Done None \<Rightarrow> sched_inv okd sch' \<and> unsettled sch s sch'
      | Done (Some rs) \<Rightarrow> sched_inv okd sch' \<and> settled sch s rs sch'))"

lemma step_ok_simps [simp]:
  "step_ok okd sch s (Panicked p, sch', x)"
  "step_ok okd sch s (Failed e, sch', x) \<longleftrightarrow> sched_inv okd sch' \<and> unsettled sch s sch'"
  "step_ok okd sch s (Done None, sch', x) \<longleftrightarrow> sched_inv okd sch' \<and> unsettled sch s sch'"
  "step_ok okd sch s (Done (Some rs), sch', x) \<longleftrightarrow> sched_inv okd sch' \<and> settled sch s rs sch'"
  by (simp_all add: step_ok_def)

section \<open>Frames\<close>

text \<open>\<open>taken okd sch s\<close>: the step holds \<open>s\<close>, taken out of the slot of a good scheduler.\<close>

definition taken :: "('d \<Rightarrow> bool) \<Rightarrow> ('s, 'd) scheduler \<Rightarrow> sequence \<Rightarrow> bool" where
  "taken okd sch s \<longleftrightarrow> sc_active sch = None \<and> sched_inv okd (sch\<lparr>sc_active := Some s\<rparr>) \<and> counters_ok sch"

text \<open>What a step never touches before it settles.\<close>

definition same_rest :: "('s, 'd) scheduler \<Rightarrow> ('s, 'd) scheduler \<Rightarrow> bool" where
  "same_rest sch sch' \<longleftrightarrow> sc_queued sch' = sc_queued sch \<and> sc_finished sch' = sc_finished sch \<and> sc_config sch' = sc_config sch \<and>
     sc_arrival_counter sch' = sc_arrival_counter sch \<and> sc_schedule_log sch' = sc_schedule_log sch"

lemma takenD:
  assumes "taken okd sch s"
  shows "sc_active sch = None" "sc_paused sch = None" "okd (sc_detokenizer sch)"
    "served_ok (sc_state_manager sch) (sc_arrival_counter sch) (s # sc_queued sch)"
    "slots_ok (Some s) None (sc_queued sch)" "results_ok (sc_state_manager sch) (sc_finished sch)" "sc_in_flight sch = None"
    "length (sc_finished sch) + length (sc_queued sch) + 1 \<le> cf_max_outstanding (sc_config sch)"
    "\<exists>h. ring_logs (sc_schedule_log sch) h" "sm_room (sc_state_manager sch)" "lr_total_written (sc_schedule_log sch) + 1 < 2 ^ 64"
    "sm_inv (sc_state_manager sch)" "seq_progress s" "is_running s" "sm_view (sc_state_manager sch) (sq_seq_id s) = Some (sq_ctx_len s, 0, None)"
proof -
  show a: "sc_active sch = None" using assms by (simp add: taken_def)
  have inv: "sched_inv okd (sch\<lparr>sc_active := Some s\<rparr>)" and c: "counters_ok sch" using assms by (simp_all add: taken_def)
  from inv show p: "sc_paused sch = None" by (auto simp: sched_inv_def slots_ok_def)
  from inv show "okd (sc_detokenizer sch)" "results_ok (sc_state_manager sch) (sc_finished sch)" "sc_in_flight sch = None"
    "\<exists>h. ring_logs (sc_schedule_log sch) h" by (simp_all add: sched_inv_def)
  from inv p show "slots_ok (Some s) None (sc_queued sch)" by (simp add: sched_inv_def)
  from inv p show sv: "served_ok (sc_state_manager sch) (sc_arrival_counter sch) (s # sc_queued sch)"
    by (simp add: sched_inv_def live_def)
  from inv p show "length (sc_finished sch) + length (sc_queued sch) + 1 \<le> cf_max_outstanding (sc_config sch)"
    by (simp add: sched_inv_def outstanding_count_def)
  from c show "sm_room (sc_state_manager sch)" "lr_total_written (sc_schedule_log sch) + 1 < 2 ^ 64"
    by (simp_all add: counters_ok_def)
  from sv show "sm_inv (sc_state_manager sch)" "seq_progress s" by (auto simp: served_ok_def dest: sm.ledger_ok)
  from sv show "sm_view (sc_state_manager sch) (sq_seq_id s) = Some (sq_ctx_len s, 0, None)"
    by (auto simp: served_ok_def seq_key_def intro: sm.ledger_view)
  from inv show "is_running s" by (simp add: sched_inv_def slots_ok_def)
qed

lemma served_same:
  assumes "served_ok m a (s # q)" and "sm_inv m'" and "sm_view m' = sm_view m" and "same_work s s'"
  shows "served_ok m' a (s' # q)"
  using assms same_work_fields [OF assms(4)] by (auto simp: served_ok_def intro: sm.ledger_same)

lemma results_same:
  assumes "results_ok m fin" and "sm_issued m' = sm_issued m" and "sm_view m' = sm_view m"
  shows "results_ok m' fin"
  using assms by (fastforce simp: results_ok_def)

text \<open>Putting the sequence back into a slot settles nothing.\<close>

lemma put_back:
  assumes t: "taken okd sch s" and rest: "same_rest sch sch'" and w: "same_work s s'"
    and slot: "sc_active sch' = Some s' \<and> sc_paused sch' = None \<or>
       sc_active sch' = None \<and> sc_paused sch' = Some s' \<and> sq_phase s = Decoding"
    and m': "sm_inv (sc_state_manager sch')" "sm_view (sc_state_manager sch') = sm_view (sc_state_manager sch)"
      "sm_issued (sc_state_manager sch') = sm_issued (sc_state_manager sch)"
    and more: "sc_in_flight sch' = None" "okd (sc_detokenizer sch')"
  shows "sched_inv okd sch' \<and> unsettled sch s sch'"
proof -
  note T = takenD [OF t] and S = same_work_fields [OF w]
  have q: "sc_queued sch' = sc_queued sch" "sc_finished sch' = sc_finished sch" "sc_config sch' = sc_config sch"
    "sc_arrival_counter sch' = sc_arrival_counter sch" "sc_schedule_log sch' = sc_schedule_log sch"
    using rest by (simp_all add: same_rest_def)
  have l: "live sch' = s' # sc_queued sch" using slot q by (auto simp: live_def)
  have "slots_ok (sc_active sch') (sc_paused sch') (sc_queued sch')"
    using T(5) slot S q by (auto simp: slots_ok_def)
  moreover have "served_ok (sc_state_manager sch') (sc_arrival_counter sch') (live sch')"
    unfolding l q by (rule served_same [OF T(4) m'(1,2) w])
  moreover have "results_ok (sc_state_manager sch') (sc_finished sch')"
    unfolding q by (rule results_same [OF T(6) m'(3,2)])
  moreover have "outstanding_count sch' \<le> cf_max_outstanding (sc_config sch')"
    using T(8) slot q by (auto simp: outstanding_count_def)
  ultimately show ?thesis using more T(9) q m'(2) w slot by (auto simp: sched_inv_def unsettled_def)
qed

text \<open>\<open>idle_at okd sch sch1\<close>: the manager still shows what it showed when the sequence was taken.\<close>

definition idle_at :: "('d \<Rightarrow> bool) \<Rightarrow> ('s, 'd) scheduler \<Rightarrow> ('s, 'd) scheduler \<Rightarrow> bool" where
  "idle_at okd sch sch1 \<longleftrightarrow> same_rest sch sch1 \<and> sc_active sch1 = None \<and> sc_paused sch1 = None \<and> okd (sc_detokenizer sch1) \<and>
     sm_inv (sc_state_manager sch1) \<and> sm_view (sc_state_manager sch1) = sm_view (sc_state_manager sch) \<and>
     sm_issued (sc_state_manager sch1) = sm_issued (sc_state_manager sch)"

lemma idle_at_refl: "taken okd sch s \<Longrightarrow> idle_at okd sch sch"
  by (simp add: idle_at_def same_rest_def takenD)

lemma idle_active:
  assumes "taken okd sch s" and "idle_at okd sch sch1" and "same_work s s'" and "sc_in_flight sch1 = None"
  shows "sched_inv okd (sch1\<lparr>sc_active := Some s'\<rparr>) \<and> unsettled sch s (sch1\<lparr>sc_active := Some s'\<rparr>)"
  using assms by (intro put_back [OF assms(1) _ assms(3)]) (simp_all add: idle_at_def same_rest_def)

lemma idle_paused:
  assumes "taken okd sch s" and "idle_at okd sch sch1" and "same_work s s'" and "sc_in_flight sch1 = None" and "sq_phase s = Decoding"
  shows "sched_inv okd (sch1\<lparr>sc_pending_pause_report := p, sc_paused := Some s'\<rparr>) \<and>
    unsettled sch s (sch1\<lparr>sc_pending_pause_report := p, sc_paused := Some s'\<rparr>)"
  using assms by (intro put_back [OF assms(1) _ assms(3)]) (simp_all add: idle_at_def same_rest_def)

lemma stall_ok:
  assumes "taken okd sch s" and "idle_at okd sch sch1" and "same_work s s'" and "sc_in_flight sch1 = None"
  shows "step_ok okd sch s (stall sch1 s' b x)"
proof (cases "account_wait s' b")
  case None
  then show ?thesis using idle_active [OF assms] by (simp add: stall_def)
next
  case (Some s1)
  then have "same_work s s1" using assms(3) by (auto simp: account_wait_def intro: same_work_trans)
  then show ?thesis using idle_active [OF assms(1,2) _ assms(4), of s1] Some by (simp add: stall_def)
qed

text \<open>\<open>reserved_at okd sch s n sch1\<close>: \<open>n\<close> tokens of the taken sequence are reserved and nothing else moved.\<close>

definition reserved_at :: "('d \<Rightarrow> bool) \<Rightarrow> ('s, 'd) scheduler \<Rightarrow> sequence \<Rightarrow> nat \<Rightarrow> ('s, 'd) scheduler \<Rightarrow> bool" where
  "reserved_at okd sch s n sch1 \<longleftrightarrow> same_rest sch sch1 \<and> sc_active sch1 = None \<and> sc_paused sch1 = None \<and> okd (sc_detokenizer sch1) \<and>
     sm.ledger_open (sc_state_manager sch1) (map seq_key (sc_queued sch)) (sq_seq_id s) (sq_ctx_len s) n \<and>
     sm_issued (sc_state_manager sch1) = sm_issued (sc_state_manager sch) \<and> sm_room (sc_state_manager sch1) \<and>
     sm_view (sc_state_manager sch1) = (sm_view (sc_state_manager sch))(sq_seq_id s \<mapsto> (sq_ctx_len s, n, None))"

lemma reserved_mono:
  assumes "reserved_at okd sch s n sch1" and "sc_state_manager sch2 = sc_state_manager sch1" and "same_rest sch1 sch2"
    and "sc_active sch2 = None" and "sc_paused sch2 = None" and "okd (sc_detokenizer sch2)"
  shows "reserved_at okd sch s n sch2"
  using assms by (simp add: reserved_at_def same_rest_def)

lemma reserve_reserved:
  assumes t: "taken okd sch s" and r: "reserve (sc_state_manager sch) (sq_seq_id s) n = (Inr rg, m)"
  shows "reserved_at okd sch s n (sch\<lparr>sc_state_manager := m\<rparr>)"
proof -
  note T = takenD [OF t]
  have "sm.ledger_open m (map seq_key (sc_queued sch)) (sq_seq_id s) (sq_ctx_len s) n"
    using T(4) r by (intro sm.ledger_reserve) (auto simp: served_ok_def seq_key_def)
  moreover have "sm_issued m = sm_issued (sc_state_manager sch)" "sm_room m"
    "sm_view m = (sm_view (sc_state_manager sch))(sq_seq_id s \<mapsto> (sq_ctx_len s, n, None))"
    using sm.reserve_Inr [OF T(12) r] T(10,15) by auto
  ultimately show ?thesis using T by (simp add: reserved_at_def same_rest_def)
qed

text \<open>The recovery of a failed step is complete.\<close>

lemma fail_step_ok:
  assumes t: "taken okd sch s" and r: "reserved_at okd sch s n sch1" and w: "same_work s s'"
  shows "step_ok okd sch s (fail_step sch1 s' e x)"
proof -
  let ?m = "sc_state_manager sch1" and ?q = "sq_seq_id s"
  have id: "sq_seq_id s' = ?q" using same_work_fields [OF w] by simp
  have o: "sm.ledger_open ?m (map seq_key (sc_queued sch)) ?q (sq_ctx_len s) n" and room: "sm_room ?m"
    and v: "sm_view ?m = (sm_view (sc_state_manager sch))(?q \<mapsto> (sq_ctx_len s, n, None))"
    using r by (simp_all add: reserved_at_def)
  have n: "sm_tail_len ?m ?q = Inr n" "0 < n" using o by (auto simp: sm.ledger_open_def intro: sm.tail_of)
  obtain m' where m': "commit ?m ?q 0 = (Inr (), m')" "sm.ledger m' ((?q, sq_ctx_len s + 0) # map seq_key (sc_queued sch))"
    "sm_issued m' = sm_issued ?m" "sm_view m' = (sm_view ?m)(?q \<mapsto> (sq_ctx_len s + 0, 0, None))"
    using sm.ledger_commit [OF o room, of 0] by auto
  have view: "sm_view m' = sm_view (sc_state_manager sch)" using m'(4) v takenD(15) [OF t] by (simp add: fun_upd_idem)
  have f: "fail_step sch1 s' e x = (Failed e, sch1\<lparr>sc_active := Some s', sc_in_flight := None, sc_state_manager := m'\<rparr>, x)"
    using n m'(1) by (simp add: fail_step_def Let_def id)
  show ?thesis unfolding f step_ok_simps
    by (rule put_back [OF t _ w]) (use r sm.ledger_ok(1) [OF m'(2)] m'(3) view in \<open>simp_all add: reserved_at_def same_rest_def\<close>)
qed

section \<open>The device phase\<close>

text \<open>The device phase moves the arena, the graph cache and the event chain only.\<close>

definition device_only :: "('s, 'd) scheduler \<Rightarrow> ('s, 'd) scheduler \<Rightarrow> bool" where
  "device_only sch sch' \<longleftrightarrow> same_rest sch sch' \<and> sc_state_manager sch' = sc_state_manager sch \<and> sc_active sch' = sc_active sch \<and>
     sc_paused sch' = sc_paused sch \<and> sc_detokenizer sch' = sc_detokenizer sch \<and> sc_step_counter sch' = sc_step_counter sch"

lemma device_only_trans: "device_only a b \<Longrightarrow> device_only b c \<Longrightarrow> device_only a c"
  by (simp add: device_only_def same_rest_def)

lemma device_only_upd [simp]:
  "device_only sch sch"
  "device_only sch (sch\<lparr>sc_event_chain := e\<rparr>)" "device_only sch (sch\<lparr>sc_arena := a, sc_event_chain := e\<rparr>)"
  "device_only sch (sch\<lparr>sc_graph_cache := c, sc_arena := a\<rparr>)"
  by (simp_all add: device_only_def same_rest_def)

lemma on_chain_device: "on_chain f sch = (r, sch') \<Longrightarrow> device_only sch sch'"
  by (auto simp: on_chain_def split: prod.splits)

lemma device_readback_frame: "device_readback X sch x i cap = (r, sch', x') \<Longrightarrow> device_only sch sch'"
  by (auto simp: device_readback_def split: prod.splits sum.splits dest!: on_chain_device intro: device_only_trans)

lemma device_begin_only [simp]: "device_only sch (device_begin sch i)"
  by (simp add: device_begin_def)

text \<open>What follows the wait of the compute stream.\<close>

lemma device_replay_frame:
  assumes "(case get_or_capture res key (sc_graph_cache sch) (sc_arena sch) of
      (Inl e, cache, arena) \<Rightarrow> (Inl e, sch\<lparr>sc_graph_cache := cache, sc_arena := arena\<rparr>, x)
    | (Inr (graph, cap), cache, arena) \<Rightarrow>
        let sch3 = sch\<lparr>sc_graph_cache := cache, sc_arena := arena\<rparr>
        in case ex_replay_graph X x graph of
             (Inl e, x2) \<Rightarrow> (Inl e, sch3, x2)
           | (Inr _, x2) \<Rightarrow> device_readback X sch3 x2 i cap) = (r, sch', x')"
  shows "device_only sch sch'"
  using assms
  by (auto simp: Let_def split: prod.splits sum.splits dest!: device_readback_frame intro: device_only_trans [OF device_only_upd(4)])

lemma device_phase_frame:
  assumes "device_phase env X sch x u key = (r, sch', x')"
  shows "device_only sch sch'"
proof -
  let ?i = "si_step_id u" and ?sch0 = "device_begin sch (si_step_id u)"
  obtain r0 x1 where u: "ex_upload_inputs X x u = (r0, x1)" by (cases "ex_upload_inputs X x u")
  obtain r1 sch1 where c1: "on_chain (record_upload_complete ?i) ?sch0 = (r1, sch1)"
    by (cases "on_chain (record_upload_complete ?i) ?sch0")
  have d1: "device_only sch sch1" using device_only_trans [OF device_begin_only on_chain_device [OF c1]] .
  show ?thesis
  proof (cases r0)
    case (Inl e)
    then show ?thesis using assms u by (auto simp: device_phase_def Let_def)
  next
    case i0: (Inr unit)
    show ?thesis
    proof (cases r1)
      case (Inl e)
      then show ?thesis using assms u c1 d1 i0 by (auto simp: device_phase_def Let_def)
    next
      case i1: (Inr eid)
      obtain r2 sch2 where c2: "on_chain (record_wait ?i Compute eid) sch1 = (r2, sch2)"
        by (cases "on_chain (record_wait ?i Compute eid) sch1")
      have d2: "device_only sch sch2" using device_only_trans [OF d1 on_chain_device [OF c2]] .
      show ?thesis
      proof (cases r2)
        case (Inl e)
        then show ?thesis using assms u c1 c2 d2 i0 i1 by (auto simp: device_phase_def Let_def)
      next
        case (Inr unit)
        then have "device_only sch2 sch'" using assms u c1 c2 i0 i1
          by (intro device_replay_frame) (simp add: device_phase_def Let_def)
        with d2 show ?thesis by (rule device_only_trans)
      qed
    qed
  qed
qed

section \<open>Settling\<close>

text \<open>\<open>committed_at okd sch s n sch2\<close>: the reservation is committed in full.\<close>

definition committed_at :: "('d \<Rightarrow> bool) \<Rightarrow> ('s, 'd) scheduler \<Rightarrow> sequence \<Rightarrow> nat \<Rightarrow> ('s, 'd) scheduler \<Rightarrow> bool" where
  "committed_at okd sch s n sch2 \<longleftrightarrow> same_rest sch sch2 \<and> sc_active sch2 = None \<and> sc_paused sch2 = None \<and> okd (sc_detokenizer sch2) \<and>
     sc_in_flight sch2 = None \<and> sc_step_counter sch2 = sc_step_counter sch + 1 \<and> 0 < n \<and>
     sm.ledger (sc_state_manager sch2) ((sq_seq_id s, sq_ctx_len s + n) # map seq_key (sc_queued sch)) \<and>
     sm_issued (sc_state_manager sch2) = sm_issued (sc_state_manager sch) \<and>
     sm_view (sc_state_manager sch2) = (sm_view (sc_state_manager sch))(sq_seq_id s \<mapsto> (sq_ctx_len s + n, 0, None))"

lemma commit_then_ok:
  assumes t: "taken okd sch s" and r: "reserved_at okd sch s n sch1" and c: "sc_step_counter sch1 = sc_step_counter sch + 1"
    and s1: "sq_seq_id s1 = sq_seq_id s" "sq_ctx_len s1 = sq_ctx_len s"
    and k: "\<And>sch2. committed_at okd sch s n sch2 \<Longrightarrow> step_ok okd sch s (k sch2 (s1\<lparr>sq_ctx_len := sq_ctx_len s + n\<rparr>))"
  shows "step_ok okd sch s (commit_then sch1 s1 undo n i x k)"
proof -
  let ?m = "sc_state_manager sch1" and ?q = "sq_seq_id s"
  have o: "sm.ledger_open ?m (map seq_key (sc_queued sch)) ?q (sq_ctx_len s) n" and room: "sm_room ?m"
    and v: "sm_view ?m = (sm_view (sc_state_manager sch))(?q \<mapsto> (sq_ctx_len s, n, None))"
    and iss: "sm_issued ?m = sm_issued (sc_state_manager sch)"
    using r by (simp_all add: reserved_at_def)
  have n: "0 < n" using o by (simp add: sm.ledger_open_def)
  have b: "sq_ctx_len s + n < 2 ^ 32" using sm.bounded [OF sm.ledger_ok(2) [OF o], of ?q "sq_ctx_len s" n None] v by simp
  obtain m' where m': "commit ?m ?q n = (Inr (), m')" "sm.ledger m' ((?q, sq_ctx_len s + n) # map seq_key (sc_queued sch))"
    "sm_issued m' = sm_issued ?m" "sm_view m' = (sm_view ?m)(?q \<mapsto> (sq_ctx_len s + n, 0, None))"
    using sm.ledger_commit [OF o room, of n] by auto
  let ?sch2 = "sch1\<lparr>sc_state_manager := m', sc_last_committed_step := Some i, sc_in_flight := None\<rparr>"
  have "committed_at okd sch s n ?sch2" using r m' n v iss c by (simp add: committed_at_def reserved_at_def same_rest_def)
  from k [OF this] show ?thesis using m'(1) b s1 by (simp add: commit_then_def checked_add_def)
qed

lemma log_step_ok:
  assumes t: "taken okd sch s" and inv: "sched_inv okd sch2" and l: "sc_schedule_log sch2 = sc_schedule_log sch"
    and set: "\<And>p log rs. ring_push (sc_schedule_log sch) (rs_record rs) = (Inr (), log) \<Longrightarrow> rs_step_id rs = ad_next_step ad \<Longrightarrow>
        settled sch s rs (sch2\<lparr>sc_pending_pause_report := p, sc_schedule_log := log\<rparr>)"
  shows "step_ok okd sch s (log_step sch2 ad desc cap n acc fin x)"
proof -
  let ?r = "schedule_record_of sch2 ad cap n"
  obtain h where h: "ring_logs (sc_schedule_log sch) h" using takenD(9) [OF t] by blast
  then have b: "length h + 1 < 2 ^ 64" using takenD(11) [OF t] by (simp add: ring_logs_def)
  obtain log where push: "ring_push (sc_schedule_log sch) ?r = (Inr (), log)" and log: "ring_logs log (h @ [?r])"
    using ring_logs_push [OF h b, of ?r] by (cases "ring_push (sc_schedule_log sch) ?r") auto
  have "sched_inv okd (sch2\<lparr>sc_pending_pause_report := None, sc_schedule_log := log\<rparr>)"
    using inv log by (auto simp: sched_inv_def live_def outstanding_count_def)
  moreover have "settled sch s rs (sch2\<lparr>sc_pending_pause_report := None, sc_schedule_log := log\<rparr>)"
    if "rs_record rs = ?r" "rs_step_id rs = ad_next_step ad" for rs using push that by (intro set) simp_all
  ultimately show ?thesis using push by (simp add: log_step_def Let_def l)
qed

lemma served_head:
  assumes "served_ok m a (s # q)" and "sm.ledger m' (seq_key s' # map seq_key q)" and "seq_progress s'"
    and "sq_arrival_order s' = sq_arrival_order s"
  shows "served_ok m' a (s' # q)"
  using assms by (simp add: served_ok_def)

lemma results_view:
  assumes "results_ok m fin" and "sm_issued m' = sm_issued m" and "\<And>q. sm_view m q = None \<Longrightarrow> sm_view m' q = None"
  shows "results_ok m' fin"
  using assms by (fastforce simp: results_ok_def)

text \<open>The sequence stays in the slot.\<close>

lemma committed_active:
  assumes t: "taken okd sch s" and c: "committed_at okd sch s n sch2"
    and s2: "sq_seq_id s2 = sq_seq_id s" "sq_ctx_len s2 = sq_ctx_len s + n" "sq_arrival_order s2 = sq_arrival_order s"
    and p: "seq_progress s2" "is_running s2"
  shows "sched_inv okd (sch2\<lparr>sc_active := Some s2\<rparr>)"
proof -
  note T = takenD [OF t]
  have C: "same_rest sch sch2" "sc_paused sch2 = None" "okd (sc_detokenizer sch2)" "sc_in_flight sch2 = None"
    "sm.ledger (sc_state_manager sch2) (seq_key s2 # map seq_key (sc_queued sch))"
    "sm_issued (sc_state_manager sch2) = sm_issued (sc_state_manager sch)"
    "sm_view (sc_state_manager sch2) = (sm_view (sc_state_manager sch))(sq_seq_id s \<mapsto> (sq_ctx_len s + n, 0, None))"
    using c s2 by (simp_all add: committed_at_def seq_key_def)
  have "served_ok (sc_state_manager sch2) (sc_arrival_counter sch) (s2 # sc_queued sch)"
    by (rule served_head [OF T(4) C(5) p(1) s2(3)])
  moreover have "results_ok (sc_state_manager sch2) (sc_finished sch)"
    by (rule results_view [OF T(6) C(6)]) (use C(7) T(15) in auto)
  moreover have "slots_ok (Some s2) None (sc_queued sch)" using T(5) p(2) by (simp add: slots_ok_def)
  ultimately show ?thesis using C(1-4) T(8,9)
    by (simp add: sched_inv_def same_rest_def live_def outstanding_count_def)
qed

text \<open>The sequence leaves with its result.\<close>

lemma committed_finished:
  assumes t: "taken okd sch s" and c: "committed_at okd sch s n sch2" and d: "okd d"
    and m: "free_seq (sc_state_manager sch2) (sq_seq_id s) = (Inr (), m)" and g: "length g \<le> rq_max_tokens r"
  shows "sched_inv okd (sch2\<lparr>sc_state_manager := m, sc_detokenizer := d,
      sc_finished := bt_insert (sq_seq_id s) (r, g, f) (sc_finished sch2), sc_active := None\<rparr>)"
    and "sm_view m = (sm_view (sc_state_manager sch))(sq_seq_id s := None)"
proof -
  note T = takenD [OF t]
  have C: "same_rest sch sch2" "sc_paused sch2 = None" "okd (sc_detokenizer sch2)" "sc_in_flight sch2 = None"
    "sm.ledger (sc_state_manager sch2) ((sq_seq_id s, sq_ctx_len s + n) # map seq_key (sc_queued sch))"
    "sm_issued (sc_state_manager sch2) = sm_issued (sc_state_manager sch)"
    "sm_view (sc_state_manager sch2) = (sm_view (sc_state_manager sch))(sq_seq_id s \<mapsto> (sq_ctx_len s + n, 0, None))"
    using c by (simp_all add: committed_at_def)
  have f: "sm.ledger m (map seq_key (sc_queued sch))" "sm_issued m = sm_issued (sc_state_manager sch)"
    and v: "sm_view m = (sm_view (sc_state_manager sch))(sq_seq_id s := None)"
    using sm.ledger_free [OF C(5)] m C(6,7) by auto
  show "sm_view m = (sm_view (sc_state_manager sch))(sq_seq_id s := None)" by (rule v)
  have "sq_seq_id s < sm_next_seq (sc_state_manager sch)"
    using sm.viewed_issued [OF T(12)] T(15) by (auto simp: dom_def)
  then have "results_ok m (bt_insert (sq_seq_id s) (r, g, f) (sc_finished sch))"
    using T(6) f(2) v g by (auto simp: results_ok_def set_eq_iff)
  moreover have "served_ok m (sc_arrival_counter sch) (sc_queued sch)" using T(4) f(1) by (simp add: served_ok_def)
  moreover have "slots_ok None None (sc_queued sch)" using T(5) by (simp add: slots_ok_def)
  moreover have "length (bt_insert (sq_seq_id s) (r, g, f) (sc_finished sch)) \<le> length (sc_finished sch) + 1"
    using T(6) by (simp add: results_ok_def bt_length_insert)
  ultimately show "sched_inv okd (sch2\<lparr>sc_state_manager := m, sc_detokenizer := d,
      sc_finished := bt_insert (sq_seq_id s) (r, g, f) (sc_finished sch2), sc_active := None\<rparr>)"
    using C(1-4) T(8,9) d by (simp add: sched_inv_def same_rest_def live_def outstanding_count_def)
qed

lemma finish_step_ok:
  assumes t: "taken okd sch s" and c: "committed_at okd sch s n sch2" and ad: "ad_next_step ad = sc_step_counter sch + 1"
    and s2: "sq_seq_id s2 = sq_seq_id s" "sq_ctx_len s2 = sq_ctx_len s + n" "sq_arrival_order s2 = sq_arrival_order s" "sq_req s2 = sq_req s"
    and p: "reason = None \<Longrightarrow> seq_progress s2 \<and> is_running s2" and g: "length (sq_generated s2) \<le> rq_max_tokens (sq_req s)"
    and reset: "\<And>d q. okd d \<Longrightarrow> okd (dt_reset (en_detok env) d q)"
  shows "step_ok okd sch s (finish_step env sch2 s2 ad desc cap al acc reason x)"
proof (cases reason)
  case None
  have C: "sc_queued sch2 = sc_queued sch" "sc_paused sch2 = None" "sc_finished sch2 = sc_finished sch" "sc_schedule_log sch2 = sc_schedule_log sch"
    "sc_step_counter sch2 = sc_step_counter sch + 1" "0 < n"
    "sm_view (sc_state_manager sch2) = (sm_view (sc_state_manager sch))(sq_seq_id s \<mapsto> (sq_ctx_len s + n, 0, None))"
    using c by (simp_all add: committed_at_def same_rest_def)
  have "step_ok okd sch s (log_step (sch2\<lparr>sc_active := Some s2\<rparr>) ad desc cap al acc (iv_new 1) x)"
    by (rule log_step_ok [OF t]) (use committed_active [OF t c s2(1-3)] p None C s2 ad in \<open>auto simp: settled_def\<close>)
  then show ?thesis by (simp add: finish_step_def None)
next
  case (Some f)
  have C: "sc_queued sch2 = sc_queued sch" "sc_paused sch2 = None" "sc_finished sch2 = sc_finished sch" "sc_schedule_log sch2 = sc_schedule_log sch"
    "sc_step_counter sch2 = sc_step_counter sch + 1" "0 < n" "okd (sc_detokenizer sch2)"
    "sm.ledger (sc_state_manager sch2) ((sq_seq_id s, sq_ctx_len s + n) # map seq_key (sc_queued sch))"
    using c by (simp_all add: committed_at_def same_rest_def)
  obtain m where m: "free_seq (sc_state_manager sch2) (sq_seq_id s) = (Inr (), m)" using sm.ledger_free [OF C(8)] by blast
  let ?sch3 = "sch2\<lparr>sc_state_manager := m, sc_detokenizer := dt_reset (en_detok env) (sc_detokenizer sch2) (sq_seq_id s),
      sc_finished := bt_insert (sq_seq_id s) (sq_req s, sq_generated s2, f) (sc_finished sch2), sc_active := None\<rparr>"
  note F = committed_finished [OF t c reset [OF C(7)] m g]
  have "step_ok okd sch s (log_step ?sch3 ad desc cap al acc (iv_of (sq_seq_id s, f)) x)"
    by (rule log_step_ok [OF t]) (use F C s2 ad in \<open>auto simp: settled_def intro!: exI [of _ n] exI [of _ s2]\<close>)
  moreover have "try_unpause_sequences ?sch3 = ?sch3" using C(2) by (simp add: try_unpause_sequences_def)
  ultimately show ?thesis using m s2 by (simp add: finish_step_def Some Let_def)
qed

section \<open>The step\<close>

lemma prompt_len_eq: "seq_progress s \<Longrightarrow> prompt_len s = length (rq_tokens (sq_req s))"
  by (simp add: seq_progress_def prompt_len_def)

text \<open>Promotion moves the head of the service order into the empty slot.\<close>

text \<open>Everything of a sequence that its owner can see of its progress.\<close>

definition work :: "sequence \<Rightarrow> nat \<times> request \<times> nat \<times> nat \<times> nat list" where
  "work s = (sq_seq_id s, sq_req s, sq_arrival_order s, sq_ctx_len s, sq_generated s)"

lemma same_work_work: "same_work s s' \<Longrightarrow> work s' = work s"
  by (simp add: same_work_def same_frame_def work_def)

lemma promote_frame:
  "sc_state_manager (promote sch) = sc_state_manager sch" "sc_schedule_log (promote sch) = sc_schedule_log sch"
  "sc_finished (promote sch) = sc_finished sch" "sc_step_counter (promote sch) = sc_step_counter sch"
  "sc_arrival_counter (promote sch) = sc_arrival_counter sch" "sc_config (promote sch) = sc_config sch"
  "sc_detokenizer (promote sch) = sc_detokenizer sch" "sc_in_flight (promote sch) = sc_in_flight sch"
  "outstanding_count (promote sch) = outstanding_count sch" "map work (live (promote sch)) = map work (live sch)"
  by (simp_all add: promote_def live_def work_def outstanding_count_def split: option.splits list.splits)

lemma promote_active: "\<not> is_idle sch \<Longrightarrow> \<exists>s. sc_active (promote sch) = Some s"
  by (cases "sc_active sch"; cases "sc_paused sch"; cases "sc_queued sch") (auto simp: promote_def is_idle_def active_sequence_count_def)

lemma promote_head:
  assumes "slots_ok (sc_active sch) (sc_paused sch) (sc_queued sch)"
  shows "live (promote sch) = live sch \<or> (\<exists>s q. live sch = s # q \<and> sq_phase s = Queued \<and> live (promote sch) = s\<lparr>sq_phase := Prefilling 0\<rparr> # q)"
  using assms by (auto simp: promote_def live_def slots_ok_def split: option.splits list.splits)

lemma start_progress: "seq_progress s \<Longrightarrow> sq_phase s = Queued \<Longrightarrow> seq_progress (s\<lparr>sq_phase := Prefilling 0\<rparr>)"
  by (auto simp: seq_progress_def request_ok_def)

lemma promote_inv:
  assumes "sched_inv okd sch"
  shows "sched_inv okd (promote sch)"
proof -
  have slots: "slots_ok (sc_active sch) (sc_paused sch) (sc_queued sch)" using assms by (simp add: sched_inv_def)
  then have "slots_ok (sc_active (promote sch)) (sc_paused (promote sch)) (sc_queued (promote sch))"
    by (auto simp: promote_def slots_ok_def is_running_def split: option.splits list.splits)
  moreover have "served_ok (sc_state_manager sch) (sc_arrival_counter sch) (live (promote sch))"
    using promote_head [OF slots] assms start_progress by (auto simp: sched_inv_def served_ok_def seq_key_def)
  ultimately show ?thesis using assms by (simp add: sched_inv_def promote_frame)
qed

text \<open>The plan numbers the step and follows the phase.\<close>

lemma plan_admission_Inr:
  assumes "plan_admission env sch s b pre = Inr p"
  shows "case p of
      PlanDecode bk cost n \<Rightarrow> n = sc_step_counter sch + 1 \<and> sq_phase s = Decoding
    | PlanPrefill ch fo bk cost n \<Rightarrow> n = sc_step_counter sch + 1 \<and> sq_phase s \<noteq> Decoding
    | PlanWait \<Rightarrow> True"
proof -
  have "ok_or (ArithmeticOverflow ''step_counter'' []) (checked_add 64 (sc_step_counter sch) 1) = Inr (sc_step_counter sch + 1)"
    using assms by (auto simp: plan_admission_def checked_add_def bind_r_eq_Inr ok_or_def split: if_splits)
  then show ?thesis using assms
    by (cases "sq_phase s")
      (auto simp: plan_admission_def bind_r_eq_Inr Let_def split: if_splits option.splits admission_plan.splits)
qed

context detokenizer
begin

lemma post_decode_ok:
  assumes t: "taken ok sch s0" and w: "same_work s0 s" and env: "en_detok env = D" and ph: "sq_phase s = Decoding"
    and r: "reserved_at ok sch s0 1 sch1" and c: "sc_step_counter sch1 = sc_step_counter sch + 1" "ad_next_step ad = sc_step_counter sch + 1"
  shows "step_ok ok sch s0 (post_decode env sch1 s ad desc smp cap x)"
proof -
  note W = same_work_fields [OF w]
  have okd: "ok (sc_detokenizer sch1)" using r by (simp add: reserved_at_def)
  obtain f s1 d where a: "append_generated_token D s (ds_token smp) (sc_detokenizer sch1) = (f, s1, d)"
    by (cases "append_generated_token D s (ds_token smp) (sc_detokenizer sch1)")
  have d: "ok d" using append_keeps [OF okd a] .
  have r': "reserved_at ok sch s0 1 (sch1\<lparr>sc_detokenizer := d\<rparr>)"
    using r d by (auto intro!: reserved_mono [OF r] simp: same_rest_def reserved_at_def)
  have F: "same_frame s s1" and G: "\<And>tr. f = Done (None, tr) \<Longrightarrow> sq_generated s1 = sq_generated s @ [ds_token smp] \<and>
      length (sq_generated s1) < rq_max_tokens (sq_req s)"
    using append_cases_frame [OF a] by blast+
  have P: "seq_progress s" using takenD(13) [OF t] W by simp
  show ?thesis
  proof (cases f)
    case (Failed e)
    then have "same_work s s1" using append_failed [OF okd, of s "ds_token smp" e s1 d] a by auto
    then show ?thesis using fail_step_ok [OF t r' same_work_trans [OF w]] a env Failed by (simp add: post_decode_def)
  next
    case (Done v)
    obtain fin tr where v: "v = (fin, tr)" by (cases v)
    let ?al = "if tr then 0 else ds_accept_len smp"
    have "step_ok ok sch s0 (commit_then (sch1\<lparr>sc_detokenizer := d\<rparr>) s1 u 1 (ad_next_step ad) x (\<lambda>sch1 sq2. finish_step env sch1
        (sq2\<lparr>sq_accept_ema := f32_add (f32_mul f32_0_8 (sq_accept_ema sq2)) (f32_mul f32_0_2 (f32_of_nat ?al))\<rparr>)
        ad desc cap ?al acc fin x))" for u acc
    proof (rule commit_then_ok [OF t r'])
      fix sch2 assume c2: "committed_at ok sch s0 1 sch2"
      show "step_ok ok sch s0 (finish_step env sch2 (s1\<lparr>sq_ctx_len := sq_ctx_len s0 + 1,
          sq_accept_ema := f32_add (f32_mul f32_0_8 (sq_accept_ema (s1\<lparr>sq_ctx_len := sq_ctx_len s0 + 1\<rparr>))) (f32_mul f32_0_2 (f32_of_nat ?al))\<rparr>)
          ad desc cap ?al acc fin x)"
      proof (rule finish_step_ok [OF t c2 c(2)])
        show "length (sq_generated (s1\<lparr>sq_ctx_len := sq_ctx_len s0 + 1, sq_accept_ema := y\<rparr>)) \<le> rq_max_tokens (sq_req s0)" for y
          using append_generated_length [OF a] P W by (simp add: seq_progress_def)
        show "seq_progress (s1\<lparr>sq_ctx_len := sq_ctx_len s0 + 1, sq_accept_ema := y\<rparr>) \<and> is_running (s1\<lparr>sq_ctx_len := sq_ctx_len s0 + 1, sq_accept_ema := y\<rparr>)"
          if "fin = None" for y
          using P W F G [of tr] ph Done v that by (auto simp: seq_progress_def is_running_def same_frame_def)
      qed (use F W reset_ok env in \<open>auto simp: same_frame_def\<close>)
    qed (use F W c in \<open>auto simp: same_frame_def\<close>)
    then show ?thesis using a env Done v by (simp add: post_decode_def Let_def)
  qed (use a env in \<open>simp add: post_decode_def\<close>)
qed

lemma post_prefill_last_ok:
  assumes t: "taken ok sch s0" and w: "same_work s0 s" and env: "en_detok env = D" and ph: "sq_phase s = Prefilling n"
    and last: "n + ad_chunk ad = length (rq_tokens (sq_req s))"
    and r: "reserved_at ok sch s0 (ad_chunk ad) sch1"
    and c: "sc_step_counter sch1 = sc_step_counter sch + 1" "ad_next_step ad = sc_step_counter sch + 1"
  shows "step_ok ok sch s0 (post_prefill_last env sch1 s ad desc smp cap n x)"
proof -
  note W = same_work_fields [OF w]
  have okd: "ok (sc_detokenizer sch1)" using r by (simp add: reserved_at_def)
  obtain f s1 d where a: "append_generated_token D (s\<lparr>sq_phase := Decoding\<rparr>) (ds_token smp) (sc_detokenizer sch1) = (f, s1, d)"
    by (cases "append_generated_token D (s\<lparr>sq_phase := Decoding\<rparr>) (ds_token smp) (sc_detokenizer sch1)")
  have d: "ok d" using append_keeps [OF okd a] .
  have r': "reserved_at ok sch s0 (ad_chunk ad) (sch1\<lparr>sc_detokenizer := d\<rparr>)"
    using r d by (auto intro!: reserved_mono [OF r] simp: same_rest_def reserved_at_def)
  have F: "same_frame (s\<lparr>sq_phase := Decoding\<rparr>) s1" and G: "\<And>tr. f = Done (None, tr) \<Longrightarrow>
      sq_generated s1 = sq_generated s @ [ds_token smp] \<and> length (sq_generated s1) < rq_max_tokens (sq_req s)"
    using append_cases_frame [OF a] by force+
  have P: "seq_progress s" using takenD(13) [OF t] W by simp
  then have Q: "sq_ctx_len s0 = n" "sq_generated s0 = []" "request_ok (sq_req s0)" "length (rq_tokens (sq_req s0)) < 2 ^ 32"
    "0 < rq_max_tokens (sq_req s0)" using ph W by (simp_all add: seq_progress_def)
  show ?thesis
  proof (cases f)
    case (Failed e)
    then have "rollback_append s s1 = Some (s\<lparr>sq_phase := Decoding\<rparr>)" using rollback_rejected [OF okd] a by simp
    moreover have "s\<lparr>sq_phase := Prefilling n\<rparr> = s" using ph by simp
    ultimately show ?thesis using fail_step_ok [OF t r' w] a env Failed by (simp add: post_prefill_last_def)
  next
    case (Done v)
    obtain fin tr where v: "v = (fin, tr)" by (cases v)
    have "step_ok ok sch s0 (commit_then (sch1\<lparr>sc_detokenizer := d\<rparr>) s1 u (ad_chunk ad) (ad_next_step ad) x
        (\<lambda>sch1 sq2. finish_step env sch1 sq2 ad desc cap al acc fin x))" for u al acc
    proof (rule commit_then_ok [OF t r'])
      fix sch2 assume c2: "committed_at ok sch s0 (ad_chunk ad) sch2"
      show "step_ok ok sch s0 (finish_step env sch2 (s1\<lparr>sq_ctx_len := sq_ctx_len s0 + ad_chunk ad\<rparr>) ad desc cap al acc fin x)"
      proof (rule finish_step_ok [OF t c2 c(2)])
        show "length (sq_generated (s1\<lparr>sq_ctx_len := sq_ctx_len s0 + ad_chunk ad\<rparr>)) \<le> rq_max_tokens (sq_req s0)"
          using append_generated_length [OF a] P W by (simp add: seq_progress_def)
        show "seq_progress (s1\<lparr>sq_ctx_len := sq_ctx_len s0 + ad_chunk ad\<rparr>) \<and> is_running (s1\<lparr>sq_ctx_len := sq_ctx_len s0 + ad_chunk ad\<rparr>)"
          if "fin = None"
          using Q W F G [of tr] Done v that last by (auto simp: seq_progress_def is_running_def same_frame_def)
      qed (use F W reset_ok env in \<open>auto simp: same_frame_def\<close>)
    qed (use F W c in \<open>auto simp: same_frame_def\<close>)
    then show ?thesis using a env Done v by (simp add: post_prefill_last_def)
  qed (use a env in \<open>simp add: post_prefill_last_def\<close>)
qed

lemma post_prefill_intermediate_ok:
  assumes t: "taken ok sch s0" and w: "same_work s0 s" and env: "en_detok env = D" and ph: "sq_phase s = Prefilling n"
    and more: "n + ad_chunk ad < length (rq_tokens (sq_req s))"
    and r: "reserved_at ok sch s0 (ad_chunk ad) sch1"
    and c: "sc_step_counter sch1 = sc_step_counter sch + 1" "ad_next_step ad = sc_step_counter sch + 1"
  shows "step_ok ok sch s0 (post_prefill_intermediate env sch1 s ad desc cap (n + ad_chunk ad) x)"
proof -
  note W = same_work_fields [OF w]
  have P: "seq_progress s" using takenD(13) [OF t] W by simp
  then have Q: "sq_ctx_len s0 = n" "sq_generated s0 = []" "request_ok (sq_req s0)" "length (rq_tokens (sq_req s0)) < 2 ^ 32"
    "0 < rq_max_tokens (sq_req s0)" using ph W by (simp_all add: seq_progress_def)
  show ?thesis unfolding post_prefill_intermediate_def
  proof (rule commit_then_ok [OF t r])
    fix sch2 assume c2: "committed_at ok sch s0 (ad_chunk ad) sch2"
    show "step_ok ok sch s0 (finish_step env sch2 (s\<lparr>sq_ctx_len := sq_ctx_len s0 + ad_chunk ad, sq_phase := Prefilling (n + ad_chunk ad)\<rparr>)
        ad desc cap 0 (iv_new 1) None x)"
      by (rule finish_step_ok [OF t c2 c(2)]) (use W Q more reset_ok env in \<open>auto simp: seq_progress_def is_running_def\<close>)
  qed (use W c in auto)
qed

lemma post_step_ok:
  assumes t: "taken ok sch s0" and w: "same_work s0 s" and env: "en_detok env = D" and sl: "slice_problem s ad = None"
    and dec: "ad_is_decode ad \<longleftrightarrow> sq_phase s = Decoding"
    and r: "reserved_at ok sch s0 (reserve_n ad) sch1"
    and c: "sc_step_counter sch1 = sc_step_counter sch + 1" "ad_next_step ad = sc_step_counter sch + 1"
  shows "step_ok ok sch s0 (post_step env sch1 s ad desc smp cap x)"
proof -
  note W = same_work_fields [OF w]
  have P: "seq_progress s" "is_running s" using takenD(13,14) [OF t] W by simp_all
  show ?thesis
  proof (cases "sq_phase s")
    case (Prefilling n)
    have nd: "\<not> ad_is_decode ad" using dec Prefilling by simp
    then have b: "n + ad_chunk ad \<le> length (rq_tokens (sq_req s))" "length (rq_tokens (sq_req s)) < 2 ^ 32" and rn: "reserve_n ad = ad_chunk ad"
      using sl Prefilling P(1) by (auto simp: slice_problem_def checked_add_def reserve_n_def seq_progress_def split: if_splits)
    then show ?thesis using r b rn prompt_len_eq [OF P(1)] Prefilling
      by (simp add: post_step_def checked_add_def post_prefill_last_ok [OF t w env Prefilling _ _ c]
          post_prefill_intermediate_ok [OF t w env Prefilling _ _ c])
  next
    case Decoding
    then show ?thesis using r dec post_decode_ok [OF t w env Decoding _ c] by (simp add: post_step_def reserve_n_def)
  qed (use P in \<open>simp_all add: is_running_def\<close>)
qed

lemma run_step_ok:
  assumes t: "taken ok sch s0" and w: "same_work s0 s" and env: "en_detok env = D" and sl: "slice_problem s ad = None"
    and dec: "ad_is_decode ad \<longleftrightarrow> sq_phase s = Decoding"
    and r: "reserved_at ok sch s0 (reserve_n ad) sch1" and c: "ad_next_step ad = sc_step_counter sch + 1"
  shows "step_ok ok sch s0 (run_step env X sch1 s ad rg x)"
proof -
  let ?sch2 = "sch1\<lparr>sc_step_counter := ad_next_step ad,
      sc_in_flight := Some \<lparr>fl_step_id = ad_next_step ad, fl_seq_id = sq_seq_id s, fl_reservation = rg\<rparr>\<rparr>"
  obtain res sch3 x1 where dv: "device_phase env X ?sch2 x (step_inputs_of ?sch2 s ad rg) (step_key sch1 ad) = (res, sch3, x1)"
    by (cases "device_phase env X ?sch2 x (step_inputs_of ?sch2 s ad rg) (step_key sch1 ad)")
  have fr: "device_only ?sch2 sch3" by (rule device_phase_frame [OF dv])
  have r3: "reserved_at ok sch s0 (reserve_n ad) sch3"
    by (rule reserved_mono [OF r]) (use fr r in \<open>simp_all add: device_only_def same_rest_def reserved_at_def\<close>)
  have c3: "sc_step_counter sch3 = sc_step_counter sch + 1" using fr c by (simp add: device_only_def)
  note fails = fail_step_ok [OF t r3 w] and post = post_step_ok [OF t w env sl dec r3 c3 c]
  show ?thesis using dv fails post by (auto simp: run_step_def Let_def split: sum.splits)
qed

lemma fill_step_ok:
  assumes t: "taken ok sch s0" and w: "same_work s0 s" and env: "en_detok env = D"
    and dec: "ad_is_decode ad \<longleftrightarrow> sq_phase s = Decoding"
    and r: "reserved_at ok sch s0 (reserve_n ad) sch1" and c: "ad_next_step ad = sc_step_counter sch + 1"
  shows "step_ok ok sch s0 (fill_step env X sch1 s ad rg x)"
proof (cases "slice_problem s ad")
  case None
  have r': "reserved_at ok sch s0 (reserve_n ad) (sch1\<lparr>sc_batch_workspace := ws\<rparr>)" for ws
    by (rule reserved_mono [OF r]) (use r in \<open>simp_all add: same_rest_def reserved_at_def\<close>)
  show ?thesis using None fail_step_ok [OF t r' w] run_step_ok [OF t w env None dec r' c]
    by (auto simp: fill_step_def split: prod.splits option.splits)
qed (use fail_step_ok [OF t r w] in \<open>simp add: fill_step_def\<close>)

lemma reserve_step_ok:
  assumes t: "taken ok sch s0" and w: "same_work s0 s" and env: "en_detok env = D"
    and dec: "ad_is_decode ad \<longleftrightarrow> sq_phase s = Decoding" and c: "ad_next_step ad = sc_step_counter sch + 1"
  shows "step_ok ok sch s0 (reserve_step env X sch s ad x)"
proof -
  note T = takenD [OF t] and W = same_work_fields [OF w]
  obtain res m where rs: "reserve (sc_state_manager sch) (sq_seq_id s) (reserve_n ad) = (res, m)"
    by (cases "reserve (sc_state_manager sch) (sq_seq_id s) (reserve_n ad)")
  show ?thesis
  proof (cases res)
    case (Inr rg)
    have "reserved_at ok sch s0 (reserve_n ad) (sch\<lparr>sc_state_manager := m\<rparr>)"
      using rs Inr W by (intro reserve_reserved [OF t]) simp
    from fill_step_ok [OF t w env dec this c] show ?thesis using rs Inr by (simp add: reserve_step_def)
  next
    case (Inl e)
    have i: "idle_at ok sch (sch\<lparr>sc_state_manager := m\<rparr>)"
      using sm.reserve_Inl [OF T(12)] rs Inl T by (simp add: idle_at_def same_rest_def)
    have f: "sc_in_flight (sch\<lparr>sc_state_manager := m\<rparr>) = None" using T by simp
    have "ad_is_decode ad \<Longrightarrow> sq_phase s0 = Decoding" using dec W by simp
    then show ?thesis using idle_active [OF t i w f] idle_paused [OF t i w f] rs Inl
      by (simp add: reserve_step_def stall_ok [OF t i w f] split: state_error.splits)
  qed
qed

lemma plan_step_ok:
  assumes t: "taken ok sch s" and env: "en_detok env = D"
  shows "step_ok ok sch s (plan_step env X sch s b x)"
proof -
  note T = takenD [OF t]
  note idle = idle_active [OF t idle_at_refl [OF t] same_work_refl T(7)] and stalls = stall_ok [OF t idle_at_refl [OF t] same_work_refl T(7)]
  note res = reserve_step_ok [OF t _ env]
  have adm: "step_ok ok sch s (admit_step env X sch s ad x)"
    if ad: "ad_is_decode ad \<longleftrightarrow> sq_phase s = Decoding" "ad_next_step ad = sc_step_counter sch + 1" for ad
  proof (cases "account_wait s (ad_budget_ms ad)")
    case None
    then show ?thesis using idle by (simp add: admit_step_def res [OF same_work_refl ad])
  next
    case (Some s1)
    then have "same_work s s1" "sq_phase s1 = sq_phase s" by (auto simp: account_wait_def)
    then show ?thesis using Some ad by (simp add: admit_step_def res [OF same_work_refl ad] res [of s1 ad X x])
  qed
  have dec: "n = sc_step_counter sch + 1 \<and> sq_phase s = Decoding" if "plan_admission env sch s b p = Inr (PlanDecode bk cost n)" for p bk cost n
    using plan_admission_Inr [OF that] by auto
  have pre: "n = sc_step_counter sch + 1 \<and> sq_phase s \<noteq> Decoding"
    if "plan_admission env sch s b p = Inr (PlanPrefill ch fo bk cost n)" for p ch fo bk cost n
    using plan_admission_Inr [OF that] by auto
  show ?thesis
  proof (cases "plan_admission env sch s b (estimate_pre_step_ms b)")
    case (Inr p)
    then show ?thesis using dec pre by (cases p) (auto simp: plan_step_def Let_def stalls intro!: adm)
  qed (use idle in \<open>simp add: plan_step_def\<close>)
qed

lemma sched_step_ok:
  assumes inv: "sched_inv ok sch" and cnt: "counters_ok sch" and env: "en_detok env = D"
  obtains (quiet) r where "sched_step env X sch x = (r, sch, x)" and "r = Done None \<or> (\<exists>e. r = Failed e)"
  | (ran) s where "sc_active (promote sch) = Some s" and "taken ok (promote sch\<lparr>sc_active := None\<rparr>) s"
      and "step_ok ok (promote sch\<lparr>sc_active := None\<rparr>) s (sched_step env X sch x)"
proof (cases "is_idle sch")
  case True
  then show ?thesis by (intro quiet [of "Done None"]) (simp_all add: sched_step_def)
next
  case False
  show ?thesis
  proof (cases "resolve_budget_ms (en_cost_ms env) (cf_step_budget_ms (sc_config sch)) (cf_profile (sc_config sch))")
    case (Inl e)
    then show ?thesis using False by (intro quiet [of "Failed e"]) (simp_all add: sched_step_def)
  next
    case (Inr b)
    obtain s where s: "sc_active (promote sch) = Some s" using promote_active [OF False] by blast
    have p: "sched_inv ok (promote sch)" using promote_inv [OF inv] .
    then have "is_running s" using s by (auto simp: sched_inv_def slots_ok_def)
    have keep: "promote sch\<lparr>sc_active := None, sc_active := Some s\<rparr> = promote sch" using s by (cases "promote sch") simp
    have t: "taken ok (promote sch\<lparr>sc_active := None\<rparr>) s"
      unfolding taken_def keep using p cnt by (simp add: counters_ok_def promote_frame)
    show ?thesis using \<open>is_running s\<close> s plan_step_ok [OF t env, of X b x] Inr False
      by (intro ran [OF s t]) (simp add: sched_step_def is_running_def split: sequence_phase.splits)
  qed
qed

end

end
