(* ===== verification/Sched_Reach.thy ===== *)
theory Sched_Reach
  imports Sched_Inv
begin

text \<open>
  The operations around the step: enqueueing, cancelling and taking results keep the invariant, a
  new scheduler has it, and so has every scheduler that any sequence of calls reaches. The facts
  are proved for every well-behaved detokenizer and used at the default one.
\<close>

section \<open>What one step leaves\<close>

text \<open>The head of the service order, forward by \<open>n\<close> tokens or finished, the rest as it was.\<close>

definition advanced :: "('s, 'd) scheduler \<Rightarrow> ('s, 'd) scheduler \<Rightarrow> bool" where
  "advanced sch sch' \<longleftrightarrow> (\<exists>s rest n gen. map work (live sch) = work s # rest \<and> 0 < n \<and>
     (map work (live sch') = work (s\<lparr>sq_ctx_len := sq_ctx_len s + n, sq_generated := gen\<rparr>) # rest \<and>
      sc_finished sch' = sc_finished sch \<and>
      sm_view (sc_state_manager sch') = (sm_view (sc_state_manager sch))(sq_seq_id s \<mapsto> (sq_ctx_len s + n, 0, None)) \<or>
      (\<exists>reason. map work (live sch') = rest \<and> sc_finished sch' = bt_insert (sq_seq_id s) (sq_req s, gen, reason) (sc_finished sch) \<and>
       sm_view (sc_state_manager sch') = (sm_view (sc_state_manager sch))(sq_seq_id s := None))))"

definition unchanged :: "('s, 'd) scheduler \<Rightarrow> ('s, 'd) scheduler \<Rightarrow> bool" where
  "unchanged sch sch' \<longleftrightarrow> map work (live sch') = map work (live sch) \<and> sc_finished sch' = sc_finished sch \<and>
     sm_view (sc_state_manager sch') = sm_view (sc_state_manager sch) \<and> sc_schedule_log sch' = sc_schedule_log sch"

lemma live_taken:
  assumes "taken okd (p\<lparr>sc_active := None\<rparr>) s" and "sc_active p = Some s"
  shows "live p = s # sc_queued p"
  using takenD(2) [OF assms(1)] assms(2) by (simp add: live_def)

lemma unsettled_unchanged:
  assumes t: "taken okd (promote sch\<lparr>sc_active := None\<rparr>) s" and s: "sc_active (promote sch) = Some s"
    and u: "unsettled (promote sch\<lparr>sc_active := None\<rparr>) s sch'"
  shows "unchanged sch sch'"
proof -
  obtain s' where "same_work s s'" and "sc_active sch' = Some s' \<and> sc_paused sch' = None \<or> sc_active sch' = None \<and> sc_paused sch' = Some s'"
    and q: "sc_queued sch' = sc_queued (promote sch)" using u by (auto simp: unsettled_def)
  then have "live sch' = s' # sc_queued (promote sch)" and "work s' = work s" by (auto simp: live_def same_work_work)
  then have "map work (live sch') = map work (live (promote sch))" by (simp add: live_taken [OF t s])
  then show ?thesis using u by (simp add: unchanged_def unsettled_def promote_frame)
qed

lemma settled_advanced:
  assumes t: "taken okd (promote sch\<lparr>sc_active := None\<rparr>) s" and s: "sc_active (promote sch) = Some s"
    and u: "settled (promote sch\<lparr>sc_active := None\<rparr>) s rs sch'"
  shows "advanced sch sch'"
    and "rs_step_id rs = sc_step_counter sch + 1 \<and> sc_step_counter sch' = sc_step_counter sch + 1 \<and>
        ring_push (sc_schedule_log sch) (rs_record rs) = (Inr (), sc_schedule_log sch')"
proof -
  have l: "map work (live sch) = work s # map work (sc_queued (promote sch))"
    using live_taken [OF t s] promote_frame(10) [of sch] by simp
  obtain n s' where n: "0 < n" and s': "sq_seq_id s' = sq_seq_id s" "sq_req s' = sq_req s" "sq_arrival_order s' = sq_arrival_order s"
      "sq_ctx_len s' = sq_ctx_len s + n"
    and q: "sc_queued sch' = sc_queued (promote sch)" "sc_paused sch' = None"
    and alt: "sc_active sch' = Some s' \<and> sc_finished sch' = sc_finished sch \<and>
         sm_view (sc_state_manager sch') = (sm_view (sc_state_manager sch))(sq_seq_id s \<mapsto> (sq_ctx_len s + n, 0, None)) \<or>
         (\<exists>reason. sc_active sch' = None \<and>
           sc_finished sch' = bt_insert (sq_seq_id s) (sq_req s, sq_generated s', reason) (sc_finished sch) \<and>
           sm_view (sc_state_manager sch') = (sm_view (sc_state_manager sch))(sq_seq_id s := None))"
    using u by (auto simp: settled_def promote_frame)
  show "rs_step_id rs = sc_step_counter sch + 1 \<and> sc_step_counter sch' = sc_step_counter sch + 1 \<and>
      ring_push (sc_schedule_log sch) (rs_record rs) = (Inr (), sc_schedule_log sch')"
    using u by (simp add: settled_def promote_frame)
  show "advanced sch sch'" unfolding advanced_def
    by (rule exI [of _ s], rule exI [of _ "map work (sc_queued (promote sch))"], rule exI [of _ n], rule exI [of _ "sq_generated s'"])
      (use l n alt q s' in \<open>auto simp: live_def work_def\<close>)
qed

context detokenizer
begin

lemma sched_step_result:
  assumes inv: "sched_inv ok sch" and cnt: "counters_ok sch" and env: "en_detok env = D" and st: "sched_step env X sch x = (r, sch', x')"
  shows "(\<exists>p. r = Panicked p) \<or> sched_inv ok sch'"
    and "r = Done None \<or> r = Failed e \<Longrightarrow> unchanged sch sch'"
    and "r = Done (Some rs) \<Longrightarrow> advanced sch sch' \<and> rs_step_id rs = sc_step_counter sch + 1 \<and> sc_step_counter sch' = sc_step_counter sch + 1 \<and>
        ring_push (sc_schedule_log sch) (rs_record rs) = (Inr (), sc_schedule_log sch')"
proof -
  have "((\<exists>p. r = Panicked p) \<or> sched_inv ok sch') \<and> (r = Done None \<or> r = Failed e \<longrightarrow> unchanged sch sch') \<and>
    (r = Done (Some rs) \<longrightarrow> advanced sch sch' \<and> rs_step_id rs = sc_step_counter sch + 1 \<and> sc_step_counter sch' = sc_step_counter sch + 1 \<and>
        ring_push (sc_schedule_log sch) (rs_record rs) = (Inr (), sc_schedule_log sch'))"
  proof (rule sched_step_ok [OF inv cnt env, of X x], goal_cases)
    case (1 r')
    then show ?case using st inv by (auto simp: unchanged_def)
  next
    case (2 s)
    note u = unsettled_unchanged [OF 2(2,1)] and v = settled_advanced [OF 2(2,1)]
    have ok: "step_ok ok (promote sch\<lparr>sc_active := None\<rparr>) s (r, sch', x')" using 2(3) st by simp
    show ?case
    proof (cases r)
      case (Done res)
      then show ?thesis
      proof (cases res)
        case (Some rs')
        then show ?thesis using ok Done v(1) [of rs' sch'] v(2) [of rs' sch'] by auto
      qed (use ok u in auto)
    qed (use ok u in auto)
  qed
  then show "(\<exists>p. r = Panicked p) \<or> sched_inv ok sch'" and "r = Done None \<or> r = Failed e \<Longrightarrow> unchanged sch sch'"
    and "r = Done (Some rs) \<Longrightarrow> advanced sch sch' \<and> rs_step_id rs = sc_step_counter sch + 1 \<and> sc_step_counter sch' = sc_step_counter sch + 1 \<and>
        ring_push (sc_schedule_log sch) (rs_record rs) = (Inr (), sc_schedule_log sch')"
    by blast+
qed

end

section \<open>Enqueueing\<close>

lemma request_new_ok:
  assumes "request_new_with_seed rid ts smp mt stop str seed = Inr r"
  shows "request_ok r" and "rq_tokens r = ts" and "rq_max_tokens r = mt"
  using assms by (auto simp: request_new_with_seed_def request_problems_def request_ok_def Let_def split: if_splits)

lemma enqueue_ok:
  assumes inv: "sched_inv okd sch" and req: "request_ok req" and e: "enqueue_request sch req = (r, sch')"
  shows "sched_inv okd sch'"
    and "r = Inl err \<Longrightarrow> sch' = sch"
    and "r = Inr q \<Longrightarrow> live sch' = live sch @ [sequence_new req q (sc_arrival_counter sch + 1)] \<and> sc_finished sch' = sc_finished sch \<and>
        q \<notin> sq_seq_id ` set (live sch) \<and> map_of (sc_finished sch) q = None \<and> outstanding_count sch < cf_max_outstanding (sc_config sch)"
proof -
  have sv: "served_ok (sc_state_manager sch) (sc_arrival_counter sch) (live sch)" and fin: "results_ok (sc_state_manager sch) (sc_finished sch)"
    and slots: "slots_ok (sc_active sch) (sc_paused sch) (sc_queued sch)"
    using inv by (simp_all add: sched_inv_def)
  have m: "sm_inv (sc_state_manager sch)" using sv by (auto simp: served_ok_def dest: sm.ledger_ok)
  consider (refused) "sch' = sch" "\<exists>e. r = Inl e"
    | (queued) q c m' where "new_seq (sc_state_manager sch) (rq_tokens req) = (Inr (q, c), m')" "r = Inr q"
        "sch' = sch\<lparr>sc_state_manager := m', sc_arrival_counter := sc_arrival_counter sch + 1,
           sc_queued := sc_queued sch @ [sequence_new req q (sc_arrival_counter sch + 1)]\<rparr>"
        "outstanding_count sch < cf_max_outstanding (sc_config sch)"
  proof -
    obtain res m' where n: "new_seq (sc_state_manager sch) (rq_tokens req) = (res, m')"
      by (cases "new_seq (sc_state_manager sch) (rq_tokens req)")
    show ?thesis
    proof (cases res)
      case (Inl er)
      then have "m' = sc_state_manager sch" using sm.start_Inl [OF m] n by blast
      then show ?thesis using that(1) e n Inl by (auto simp: enqueue_request_def checked_add_def Let_def split: if_splits)
    next
      case (Inr qc)
      obtain q c where "qc = (q, c)" by (cases qc)
      then show ?thesis using that(1) that(2) [of q c m'] e n Inr
        by (auto simp: enqueue_request_def checked_add_def Let_def split: if_splits)
    qed
  qed
  then have "sched_inv okd sch' \<and> (r = Inl err \<longrightarrow> sch' = sch) \<and> (r = Inr q \<longrightarrow>
      live sch' = live sch @ [sequence_new req q (sc_arrival_counter sch + 1)] \<and> sc_finished sch' = sc_finished sch \<and>
      q \<notin> sq_seq_id ` set (live sch) \<and> map_of (sc_finished sch) q = None \<and> outstanding_count sch < cf_max_outstanding (sc_config sch))"
  proof cases
    case refused
    then show ?thesis using inv by auto
  next
    case (queued q' c m')
    have st: "sm_inv m'" "q' \<notin> sm_issued (sc_state_manager sch)" "sm_issued m' = insert q' (sm_issued (sc_state_manager sch))"
      "sm_view m' = (sm_view (sc_state_manager sch))(q' \<mapsto> (0, 0, None))" "length (rq_tokens req) < 2 ^ 32"
      using sm.start_Inr [OF m queued(1)] by auto
    have l: "live sch' = live sch @ [sequence_new req q' (sc_arrival_counter sch + 1)]" by (simp add: queued(3) live_def)
    have "seq_progress (sequence_new req q' a)" for a using req st(5) by (simp add: seq_progress_def request_ok_def sequence_new_def)
    moreover have "sm.ledger m' (map seq_key (live sch'))"
      unfolding l using sm.ledger_start [OF _ queued(1)] sv by (simp add: served_ok_def seq_key_def sequence_new_def)
    ultimately have "served_ok m' (sc_arrival_counter sch + 1) (live sch')"
      unfolding l using sv by (fastforce simp: served_ok_def sorted_wrt_append sequence_new_def)
    moreover have "results_ok m' (sc_finished sch)" using fin st(2-4) by (fastforce simp: results_ok_def)
    moreover have "slots_ok (sc_active sch) (sc_paused sch) (sc_queued sch')"
      using slots by (auto simp: queued(3) slots_ok_def sequence_new_def)
    ultimately have "sched_inv okd sch'" using inv queued(4) by (auto simp: queued(3) sched_inv_def outstanding_count_def)
    moreover have "q' \<notin> sq_seq_id ` set (live sch)"
    proof
      assume "q' \<in> sq_seq_id ` set (live sch)"
      then obtain s where "s \<in> set (live sch)" "sq_seq_id s = q'" by auto
      then have "sm_view (sc_state_manager sch) q' = Some (sq_ctx_len s, 0, None)"
        using sv by (intro sm.ledger_view) (auto simp: served_ok_def seq_key_def)
      then show False using sm.viewed_issued [OF m] st(2) by (auto simp: dom_def)
    qed
    moreover have "map_of (sc_finished sch) q' = None"
      using fin st(2) by (cases "map_of (sc_finished sch) q'") (auto simp: results_ok_def)
    ultimately show ?thesis using queued l by auto
  qed
  then show "sched_inv okd sch'" and "r = Inl err \<Longrightarrow> sch' = sch"
    and "r = Inr q \<Longrightarrow> live sch' = live sch @ [sequence_new req q (sc_arrival_counter sch + 1)] \<and> sc_finished sch' = sc_finished sch \<and>
        q \<notin> sq_seq_id ` set (live sch) \<and> map_of (sc_finished sch) q = None \<and> outstanding_count sch < cf_max_outstanding (sc_config sch)"
    by blast+
qed

section \<open>Cancelling and taking results\<close>

lemma filter_absent: "q \<notin> f ` set xs \<Longrightarrow> filter (\<lambda>x. f x \<noteq> q) xs = xs"
  by (rule filter_True) force

lemma remove_at_filter:
  assumes "distinct (map f xs)" and "i < length xs"
  shows "remove_at i xs = filter (\<lambda>x. f x \<noteq> f (xs ! i)) xs"
  using assms
proof (induction xs arbitrary: i)
  case (Cons x xs)
  show ?case
  proof (cases i)
    case 0
    then show ?thesis using Cons.prems filter_absent [of "f x" f xs] by (simp add: remove_at_def)
  next
    case (Suc j)
    then have "f x \<noteq> f (xs ! j)" using Cons.prems by force
    then show ?thesis using Cons.IH [of j] Cons.prems Suc by (simp add: remove_at_def)
  qed
qed simp

lemma live_ids_distinct: "sched_inv okd sch \<Longrightarrow> distinct (map sq_seq_id (live sch))"
  by (simp add: sched_inv_def served_ok_def sm.ledger_def seq_key_def comp_def)

text \<open>The outcome of a cancellation: the sequence leaves, its result so far is kept.\<close>

definition cancelled :: "('s, 'd) scheduler \<Rightarrow> sequence \<Rightarrow> ('s, 'd) scheduler \<Rightarrow> bool" where
  "cancelled sch s sch' \<longleftrightarrow> live sch' = filter (\<lambda>t. sq_seq_id t \<noteq> sq_seq_id s) (live sch) \<and>
     sc_finished sch' = bt_insert (sq_seq_id s) (sq_req s, sq_generated s, Cancelled) (sc_finished sch) \<and>
     sm_view (sc_state_manager sch') = (sm_view (sc_state_manager sch))(sq_seq_id s := None)"

lemma cancel_taken_ok:
  assumes inv: "sched_inv okd sch" and s: "s \<in> set (live sch)" and rest: "same_rest sch (sch1\<lparr>sc_queued := sc_queued sch\<rparr>)"
    and same: "sc_state_manager sch1 = sc_state_manager sch" "sc_detokenizer sch1 = sc_detokenizer sch" "sc_in_flight sch1 = sc_in_flight sch"
    and out: "live sch1 = filter (\<lambda>t. sq_seq_id t \<noteq> sq_seq_id s) (live sch)" "outstanding_count sch1 + 1 = outstanding_count sch"
    and slots: "slots_ok (sc_active sch1) (sc_paused sch1) (sc_queued sch1)"
    and reset: "\<And>d q. okd d \<Longrightarrow> okd (dt_reset (en_detok env) d q)"
  obtains sch2 where "cancel_taken env sch1 s (sq_seq_id s) = (Inr True, sch2)" and "sched_inv okd sch2" and "cancelled sch s sch2"
    and "sc_active sch2 = sc_active sch1" and "sc_paused sch2 = sc_paused sch1"
proof -
  let ?q = "sq_seq_id s" and ?m = "sc_state_manager sch"
  have sv: "served_ok ?m (sc_arrival_counter sch) (live sch)" and fin: "results_ok ?m (sc_finished sch)"
    using inv by (simp_all add: sched_inv_def)
  have led: "sm.ledger ?m (map seq_key (live sch))" "(?q, sq_ctx_len s) \<in> set (map seq_key (live sch))"
    using sv s by (auto simp: served_ok_def seq_key_def)
  obtain m' where m': "free_seq ?m ?q = (Inr (), m')" "sm.ledger m' (filter (\<lambda>p. fst p \<noteq> ?q) (map seq_key (live sch)))"
    "sm_issued m' = sm_issued ?m" "sm_view m' = (sm_view ?m)(?q := None)"
    using sm.ledger_free_mem [OF led] by blast
  have "sm_view ?m ?q \<noteq> None" using sm.ledger_view [OF led] by simp
  then have "?q < sm_next_seq ?m" using sm.viewed_issued [OF sm.ledger_ok(1) [OF led(1)]] by (auto simp: dom_def)
  moreover have "length (sq_generated s) \<le> rq_max_tokens (sq_req s)" using sv s by (auto simp: served_ok_def seq_progress_def)
  ultimately have "results_ok m' (bt_insert ?q (sq_req s, sq_generated s, Cancelled) (sc_finished sch))"
    using fin m'(3,4) by (auto simp: results_ok_def set_eq_iff)
  moreover have "served_ok m' (sc_arrival_counter sch) (live sch1)"
    using sv m'(2) by (auto simp: out(1) served_ok_def filter_map comp_def seq_key_def sorted_wrt_map sorted_wrt_filter)
  moreover have "length (bt_insert ?q (sq_req s, sq_generated s, Cancelled) (sc_finished sch)) \<le> length (sc_finished sch) + 1"
    using fin by (simp add: results_ok_def bt_length_insert)
  moreover define sch2 where "sch2 = sch1\<lparr>sc_state_manager := m', sc_detokenizer := dt_reset (en_detok env) (sc_detokenizer sch1) ?q,
      sc_finished := bt_insert ?q (sq_req s, sq_generated s, Cancelled) (sc_finished sch1)\<rparr>"
  ultimately have "sched_inv okd sch2" using inv slots same rest out(2) reset
    by (auto simp: sched_inv_def same_rest_def live_def outstanding_count_def)
  moreover have "cancelled sch s sch2" using out(1) rest m'(4) by (simp add: sch2_def cancelled_def live_def same_rest_def)
  moreover have "cancel_taken env sch1 s ?q = (Inr True, sch2)" using m'(1) same(1) by (simp add: cancel_taken_def sch2_def)
  ultimately show ?thesis using that by (simp add: sch2_def)
qed

lemma cancel_active:
  assumes inv: "sched_inv okd sch" and a: "sc_active sch = Some s" and reset: "\<And>d q. okd d \<Longrightarrow> okd (dt_reset (en_detok env) d q)"
  shows "\<exists>sch'. cancel_sequence env sch (sq_seq_id s) = (Inr True, sch') \<and> sched_inv okd sch' \<and> cancelled sch s sch'"
proof -
  have p: "sc_paused sch = None" and slots: "slots_ok (Some s) None (sc_queued sch)" using inv a by (auto simp: sched_inv_def slots_ok_def)
  have "filter (\<lambda>t. sq_seq_id t \<noteq> sq_seq_id s) (sc_queued sch) = sc_queued sch"
    using live_ids_distinct [OF inv] a p by (intro filter_absent) (simp add: live_def)
  then have l: "live (sch\<lparr>sc_active := None\<rparr>) = filter (\<lambda>t. sq_seq_id t \<noteq> sq_seq_id s) (live sch)" "s \<in> set (live sch)"
    using a p by (simp_all add: live_def)
  obtain sch2 where c: "cancel_taken env (sch\<lparr>sc_active := None\<rparr>) s (sq_seq_id s) = (Inr True, sch2)" "sched_inv okd sch2" "cancelled sch s sch2"
    "sc_active sch2 = sc_active (sch\<lparr>sc_active := None\<rparr>)" "sc_paused sch2 = sc_paused (sch\<lparr>sc_active := None\<rparr>)"
    by (rule cancel_taken_ok [OF inv l(2) _ _ _ _ l(1), of env])
      (use a p slots in \<open>simp_all add: same_rest_def outstanding_count_def slots_ok_def reset\<close>)
  then show ?thesis using a p by (simp add: cancel_sequence_def try_unpause_sequences_def)
qed

lemma cancel_queued:
  assumes inv: "sched_inv okd sch" and i: "i < length (sc_queued sch)" "sc_queued sch ! i = s"
    and reset: "\<And>d q. okd d \<Longrightarrow> okd (dt_reset (en_detok env) d q)"
  obtains sch2 where "cancel_taken env (sch\<lparr>sc_queued := remove_at i (sc_queued sch)\<rparr>) s (sq_seq_id s) = (Inr True, sch2)"
    and "sched_inv okd sch2" and "cancelled sch s sch2"
proof -
  have d: "distinct (map sq_seq_id (live sch))" by (rule live_ids_distinct [OF inv])
  have r: "remove_at i (sc_queued sch) = filter (\<lambda>t. sq_seq_id t \<noteq> sq_seq_id s) (sc_queued sch)"
    using remove_at_filter [of sq_seq_id, OF _ i(1)] d i(2) by (simp add: live_def)
  have s: "s \<in> set (sc_queued sch)" using i nth_mem by blast
  then have "filter (\<lambda>t. sq_seq_id t \<noteq> sq_seq_id s) (opt_list (sc_active sch)) = opt_list (sc_active sch)"
    "filter (\<lambda>t. sq_seq_id t \<noteq> sq_seq_id s) (opt_list (sc_paused sch)) = opt_list (sc_paused sch)"
    using d by (auto simp: live_def intro!: filter_absent)
  then have "live (sch\<lparr>sc_queued := remove_at i (sc_queued sch)\<rparr>) = filter (\<lambda>t. sq_seq_id t \<noteq> sq_seq_id s) (live sch)"
    by (simp add: live_def r)
  moreover have "slots_ok (sc_active sch) (sc_paused sch) (remove_at i (sc_queued sch))"
    using inv by (auto simp: sched_inv_def slots_ok_def r)
  moreover have "outstanding_count (sch\<lparr>sc_queued := remove_at i (sc_queued sch)\<rparr>) + 1 = outstanding_count sch"
    using i(1) by (simp add: outstanding_count_def)
  moreover have "s \<in> set (live sch)" using s by (simp add: live_def)
  ultimately show ?thesis
    using that by - (rule cancel_taken_ok [OF inv, of s "sch\<lparr>sc_queued := remove_at i (sc_queued sch)\<rparr>" env], simp_all add: same_rest_def reset)
qed

lemma cancel_paused:
  assumes inv: "sched_inv okd sch" and p: "sc_paused sch = Some s" and reset: "\<And>d q. okd d \<Longrightarrow> okd (dt_reset (en_detok env) d q)"
  obtains sch2 where "cancel_taken env (sch\<lparr>sc_paused := None\<rparr>) s (sq_seq_id s) = (Inr True, sch2)"
    and "sched_inv okd sch2" and "cancelled sch s sch2"
proof -
  have a: "sc_active sch = None" and slots: "slots_ok None (Some s) (sc_queued sch)" using inv p by (auto simp: sched_inv_def slots_ok_def)
  have "filter (\<lambda>t. sq_seq_id t \<noteq> sq_seq_id s) (sc_queued sch) = sc_queued sch"
    using live_ids_distinct [OF inv] a p by (intro filter_absent) (simp add: live_def)
  then have l: "live (sch\<lparr>sc_paused := None\<rparr>) = filter (\<lambda>t. sq_seq_id t \<noteq> sq_seq_id s) (live sch)" "s \<in> set (live sch)"
    using a p by (simp_all add: live_def)
  show ?thesis
    by (rule cancel_taken_ok [OF inv l(2) _ _ _ _ l(1), of env])
      (use that a p slots in \<open>simp_all add: same_rest_def outstanding_count_def slots_ok_def reset\<close>)
qed

lemma find_enumerate:
  "List.find (\<lambda>(i, x). P x) (List.enumerate n xs) = None \<longleftrightarrow> (\<forall>x \<in> set xs. \<not> P x)"
  "List.find (\<lambda>(i, x). P x) (List.enumerate 0 xs) = Some (i, x) \<Longrightarrow> i < length xs \<and> xs ! i = x \<and> P x"
proof -
  show "List.find (\<lambda>(i, x). P x) (List.enumerate n xs) = None \<longleftrightarrow> (\<forall>x \<in> set xs. \<not> P x)"
    by (induction xs arbitrary: n) auto
  show "i < length xs \<and> xs ! i = x \<and> P x" if "List.find (\<lambda>(i, x). P x) (List.enumerate 0 xs) = Some (i, x)"
    using that by (auto simp: find_Some_iff nth_enumerate_eq)
qed

text \<open>A cancellation finds exactly the live sequences, cancels one completely, and never fails.\<close>

lemma cancel_sequence_ok:
  assumes inv: "sched_inv okd sch" and reset: "\<And>d q. okd d \<Longrightarrow> okd (dt_reset (en_detok env) d q)"
  shows "(\<exists>s sch'. s \<in> set (live sch) \<and> sq_seq_id s = q \<and> cancel_sequence env sch q = (Inr True, sch') \<and> sched_inv okd sch' \<and> cancelled sch s sch') \<or>
    q \<notin> sq_seq_id ` set (live sch) \<and> cancel_sequence env sch q = (Inr False, sch)"
proof (cases "map_option sq_seq_id (sc_active sch) = Some q")
  case True
  then obtain s where "sc_active sch = Some s" "sq_seq_id s = q" by auto
  then show ?thesis using cancel_active [OF inv _ reset, of s] by (auto simp: live_def)
next
  case na: False
  let ?f = "List.find (\<lambda>(i, sq). sq_seq_id sq = q) (List.enumerate 0 (sc_queued sch))"
  show ?thesis
  proof (cases ?f)
    case (Some p)
    then obtain i s where i: "?f = Some (i, s)" by (cases p) auto
    then have s: "i < length (sc_queued sch)" "sc_queued sch ! i = s" "sq_seq_id s = q" using find_enumerate(2) [OF i] by auto
    obtain sch2 where "cancel_taken env (sch\<lparr>sc_queued := remove_at i (sc_queued sch)\<rparr>) s (sq_seq_id s) = (Inr True, sch2)"
      "sched_inv okd sch2" "cancelled sch s sch2" by (rule cancel_queued [OF inv s(1,2) reset])
    moreover have "s \<in> set (live sch)" using s nth_mem by (auto simp: live_def)
    ultimately show ?thesis using na i s(3) by (auto simp: cancel_sequence_def)
  next
    case None
    then have nq: "q \<notin> sq_seq_id ` set (sc_queued sch)" using find_enumerate(1) [of "\<lambda>x. sq_seq_id x = q"] by auto
    show ?thesis
    proof (cases "map_option sq_seq_id (sc_paused sch) = Some q")
      case True
      then obtain s where s: "sc_paused sch = Some s" "sq_seq_id s = q" by auto
      obtain sch2 where c: "cancel_taken env (sch\<lparr>sc_paused := None\<rparr>) s (sq_seq_id s) = (Inr True, sch2)"
        "sched_inv okd sch2" "cancelled sch s sch2" by (rule cancel_paused [OF inv s(1) reset])
      then have "sched_inv okd (sch2\<lparr>sc_pending_pause_report := p\<rparr>)" "cancelled sch s (sch2\<lparr>sc_pending_pause_report := p\<rparr>)" for p
        by (simp_all add: sched_inv_def cancelled_def live_def outstanding_count_def)
      moreover have "s \<in> set (live sch)" using s by (simp add: live_def)
      ultimately show ?thesis using na None s c by (auto simp: cancel_sequence_def)
    next
      case False
      then show ?thesis using na None nq by (cases "sc_active sch"; cases "sc_paused sch") (auto simp: cancel_sequence_def live_def)
    qed
  qed
qed

lemma cancel_request_ok:
  assumes inv: "sched_inv okd sch" and reset: "\<And>d q. okd d \<Longrightarrow> okd (dt_reset (en_detok env) d q)"
  shows "(\<exists>s sch'. s \<in> set (live sch) \<and> rq_id (sq_req s) = rid \<and> cancel_request env sch rid = (Inr True, sch') \<and> sched_inv okd sch' \<and> cancelled sch s sch') \<or>
    rid \<notin> (\<lambda>s. rq_id (sq_req s)) ` set (live sch) \<and> cancel_request env sch rid = (Inr False, sch)"
proof -
  have hit: ?thesis if s: "s \<in> set (live sch)" "rq_id (sq_req s) = rid" and c: "cancel_request env sch rid = cancel_sequence env sch (sq_seq_id s)" for s
  proof -
    obtain t sch' where t: "t \<in> set (live sch)" "sq_seq_id t = sq_seq_id s" "cancel_sequence env sch (sq_seq_id s) = (Inr True, sch')"
      "sched_inv okd sch'" "cancelled sch t sch'"
      using cancel_sequence_ok [OF inv reset, of "sq_seq_id s"] s by auto
    moreover have "t = s" using live_ids_distinct [OF inv] t(1,2) s(1) by (auto simp: distinct_map dest: inj_onD)
    ultimately show ?thesis using s c by auto
  qed
  show ?thesis
  proof (cases "map_option (\<lambda>s. rq_id (sq_req s)) (sc_active sch) = Some rid")
    case True
    then obtain s where "sc_active sch = Some s" "rq_id (sq_req s) = rid" by auto
    then show ?thesis by (intro hit [of s]) (auto simp: live_def cancel_request_def)
  next
    case na: False
    show ?thesis
    proof (cases "List.find (\<lambda>s. rq_id (sq_req s) = rid) (sc_queued sch)")
      case (Some s)
      then have "s \<in> set (sc_queued sch)" "rq_id (sq_req s) = rid" by (auto simp: find_Some_iff)
      then show ?thesis using na Some by (intro hit [of s]) (auto simp: live_def cancel_request_def)
    next
      case None
      show ?thesis
      proof (cases "map_option (\<lambda>s. rq_id (sq_req s)) (sc_paused sch) = Some rid")
        case True
        then obtain s where "sc_paused sch = Some s" "rq_id (sq_req s) = rid" by auto
        then show ?thesis using na None by (intro hit [of s]) (auto simp: live_def cancel_request_def)
      next
        case False
        moreover have "rid \<notin> (\<lambda>s. rq_id (sq_req s)) ` set (sc_queued sch)" using None by (auto simp: find_None_iff)
        ultimately show ?thesis using na None
          by (cases "sc_active sch"; cases "sc_paused sch") (simp_all add: cancel_request_def live_def)
      qed
    qed
  qed
qed

lemma take_finished_ok:
  assumes inv: "sched_inv okd sch" and t: "take_finished_result sch q = (r, sch')"
  shows "sched_inv okd sch'" and "r = get_finished_result sch q" and "get_finished_result sch' = (get_finished_result sch)(q := None)"
    and "live sch' = live sch"
proof -
  obtain fin where b: "bt_remove q (sc_finished sch) = (r, fin)" and sch': "sch' = sch\<lparr>sc_finished := fin\<rparr>"
    using t by (auto simp: take_finished_result_def Let_def split: prod.splits)
  have f: "map_of fin = (map_of (sc_finished sch))(q := None)" "r = map_of (sc_finished sch) q"
    using bt_remove_map_of [of q "sc_finished sch"] bt_remove_fst [of q "sc_finished sch"] by (simp_all add: b)
  have ok: "bt_ok (sc_finished sch)" using inv by (simp add: sched_inv_def results_ok_def)
  then have "bt_ok fin" "length fin \<le> length (sc_finished sch)"
    using bt_remove_ok [OF ok, of q] bt_length_remove [OF ok, of q] by (auto simp: b split: if_splits)
  then show "sched_inv okd sch'" using inv f(1)
    by (auto simp: sch' sched_inv_def results_ok_def live_def outstanding_count_def fun_upd_apply split: if_splits)
  show "r = get_finished_result sch q" "get_finished_result sch' = (get_finished_result sch)(q := None)" "live sch' = live sch"
    using f by (auto simp: sch' get_finished_result_def live_def)
qed

lemma scheduler_new_ok:
  assumes "scheduler_new grants env d cfg m prog arena = Inr sch" and "sm_inv m" and "okd d"
  shows "sched_inv okd sch" and "live sch = []" and "sc_finished sch = []" and "sc_state_manager sch = m" and "sc_config sch = cfg"
  using assms ring_logs_new [of 4096]
  by (auto simp: scheduler_new_def bind_r_eq_Inr sched_config_validate_def sched_inv_def live_def served_ok_def sm.ledger_def slots_ok_def
      results_ok_def outstanding_count_def split: if_splits)

section \<open>Reachable schedulers\<close>

datatype sched_call = Enqueue request | CancelSequence nat | CancelRequest nat | TakeResult nat | RunStep

text \<open>One public call; \<open>None\<close> when the step panicked.\<close>

definition sched_apply :: "('s, 'd) sched_env \<Rightarrow> 'x step_executor \<Rightarrow> sched_call \<Rightarrow> ('s, 'd) scheduler \<times> 'x \<Rightarrow> (('s, 'd) scheduler \<times> 'x) option" where
  "sched_apply env X c = (\<lambda>(sch, x). case c of
     Enqueue req \<Rightarrow> Some (snd (enqueue_request sch req), x)
   | CancelSequence q \<Rightarrow> Some (snd (cancel_sequence env sch q), x)
   | CancelRequest rid \<Rightarrow> Some (snd (cancel_request env sch rid), x)
   | TakeResult q \<Rightarrow> Some (snd (take_finished_result sch q), x)
   | RunStep \<Rightarrow> (case sched_step env X sch x of (Panicked _, _) \<Rightarrow> None | (_, sch', x') \<Rightarrow> Some (sch', x')))"

text \<open>
  The schedulers that calls reach from construction, over a state manager in its invariant, with requests
  that their constructor accepts, while the 64-bit counters have room. A client that changes the manager behind
  the scheduler (\<open>state_manager_mut\<close>), exchanges the detokenizer (\<open>set_detokenizer\<close>) or aborts a reservation of its own
  (\<open>abort_open_reservation\<close>) is not among them.
\<close>

inductive sched_reach :: "('s, 'd) sched_env \<Rightarrow> 'x step_executor \<Rightarrow> 'd \<Rightarrow> ('s, 'd) scheduler \<times> 'x \<Rightarrow> bool"
  for env :: "('s, 'd) sched_env" and X :: "'x step_executor" and d :: 'd where
  new: "scheduler_new grants env d cfg m prog arena = Inr sch \<Longrightarrow> sm_inv m \<Longrightarrow> sched_reach env X d (sch, x)"
| call: "sched_reach env X d st \<Longrightarrow> counters_ok (fst st) \<Longrightarrow> (\<And>req. c = Enqueue req \<Longrightarrow> request_ok req) \<Longrightarrow>
    sched_apply env X c st = Some st' \<Longrightarrow> sched_reach env X d st'"

context detokenizer
begin

lemma sched_apply_inv:
  assumes inv: "sched_inv ok (fst st)" and cnt: "counters_ok (fst st)" and env: "en_detok env = D"
    and req: "\<And>req. c = Enqueue req \<Longrightarrow> request_ok req" and st: "sched_apply env X c st = Some st'"
  shows "sched_inv ok (fst st')"
proof -
  obtain sch x where s: "st = (sch, x)" by (cases st)
  have i: "sched_inv ok sch" using inv s by simp
  have reset: "\<And>d q. ok d \<Longrightarrow> ok (dt_reset (en_detok env) d q)" using reset_ok env by simp
  show ?thesis
  proof (cases c)
    case (Enqueue r)
    then show ?thesis using st s enqueue_ok(1) [OF i req] by (auto simp: sched_apply_def) (metis prod.collapse)
  next
    case (CancelSequence q)
    then show ?thesis using st s i cancel_sequence_ok [OF i reset, of q] by (auto simp: sched_apply_def)
  next
    case (CancelRequest q)
    then show ?thesis using st s i cancel_request_ok [OF i reset, of q] by (auto simp: sched_apply_def)
  next
    case (TakeResult q)
    then show ?thesis using st s take_finished_ok(1) [OF i] by (auto simp: sched_apply_def) (metis prod.collapse)
  next
    case RunStep
    obtain r sch' x' where r: "sched_step env X sch x = (r, sch', x')" by (cases "sched_step env X sch x")
    show ?thesis using st s RunStep sched_step_result(1) [OF i _ env r] cnt r
      by (cases r) (auto simp: sched_apply_def)
  qed
qed

lemma sched_reach_inv:
  assumes "sched_reach env X d st" and "en_detok env = D" and "ok d"
  shows "sched_inv ok (fst st)"
  using assms(1)
proof (induction rule: sched_reach.induct)
  case (new grants cfg m prog arena sch x)
  then show ?case using scheduler_new_ok(1) [OF new(1,2), where okd = ok] assms(3) by simp
next
  case (call st c st')
  then show ?case using sched_apply_inv [OF call(5,2) assms(2) call(3,4)] by simp
qed

end

end
