(* ===== verification/Sched_Generate.thy ===== *)
theory Sched_Generate
  imports Sched_Stop
begin

text \<open>
  Generation with the default byte detokenizer. \<open>batch_finish\<close> is the reference: it looks at the
  whole list of generated tokens as one text. \<open>generating\<close> is what any number of accepted tokens
  makes of a new sequence; on such a sequence the incremental method, with its bounded tail,
  its spans and its pending marker, takes the decision of the reference.
\<close>

section \<open>Whole characters and their spans\<close>

function whole_chars :: "utf8 \<Rightarrow> utf8" where
  "whole_chars bs =
     (if bs = [] then []
      else let n = char_len (hd bs)
           in if 0 < n \<and> n \<le> length bs \<and> utf8_char (take n bs) then take n bs @ whole_chars (drop n bs) else [])"
  by auto
termination by (relation "measure length") auto

function char_spans :: "nat \<Rightarrow> utf8 \<Rightarrow> (nat \<times> nat \<times> nat) list" where
  "char_spans k bs =
     (if bs = [] then []
      else let n = char_len (hd bs) in if 0 < n then (k, k, k + n) # char_spans (k + n) (drop n bs) else [])"
  by auto
termination by (relation "measure (\<lambda>(k, bs). length bs)") auto

declare whole_chars.simps [simp del] char_spans.simps [simp del]

lemma whole_chars_char: "utf8_char c \<Longrightarrow> whole_chars (c @ t) = c @ whole_chars t"
proof -
  assume c: "utf8_char c"
  then have "char_len (hd (c @ t)) = length c" "c \<noteq> []" using utf8_charD(1,2) by (auto simp: hd_append)
  then show ?thesis using c by (subst whole_chars.simps) (simp add: Let_def)
qed

lemma whole_chars_append: "utf8_valid H \<Longrightarrow> whole_chars (H @ t) = H @ whole_chars t"
  by (induction H rule: utf8_induct) (simp_all add: whole_chars_char)

lemma char_spans_Nil [simp]: "char_spans k [] = []"
  by (simp add: char_spans.simps)

lemma char_spans_char: "utf8_char c \<Longrightarrow> char_spans k (c @ t) = (k, k, k + length c) # char_spans (k + length c) t"
proof -
  assume c: "utf8_char c"
  then have "char_len (hd (c @ t)) = length c" "c \<noteq> []" using utf8_charD(1,2) by (auto simp: hd_append)
  then show ?thesis by (subst char_spans.simps) (simp add: Let_def)
qed

lemma char_spans_append: "utf8_valid H \<Longrightarrow> char_spans k (H @ t) = char_spans k H @ char_spans (k + length H) t"
  by (induction H arbitrary: k rule: utf8_induct) (simp_all add: char_spans_char add.assoc)

text \<open>The first span that ends after a character start is the span of that character.\<close>

lemma find_span:
  assumes "utf8_valid H" and "char_boundary H p" and "p < length H"
  shows "\<exists>e. List.find (\<lambda>(_, _, e). e > k + p) (char_spans k H) = Some (k + p, k + p, e)"
  using assms
proof (induction H arbitrary: k p rule: utf8_induct)
  case (char c t)
  show ?case
  proof (cases "p < length c")
    case True
    then have "p = 0" using boundary_in_char [OF char(1)] char.prems(1) by (cases "p = 0") auto
    then show ?thesis using utf8_charD(1) [OF char(1)] by (simp add: char_spans_char [OF char(1)])
  next
    case False
    then have "char_boundary t (p - length c)" "p - length c < length t"
      using char.prems boundary_shift [of c p t] by auto
    from char.IH [OF this, of "k + length c"] show ?thesis
      using False by (auto simp: char_spans_char [OF char(1)])
  qed
qed simp

lemma find_filter_weaker: "(\<And>x. P x \<Longrightarrow> Q x) \<Longrightarrow> List.find P (filter Q xs) = List.find P xs"
  by (induction xs) auto

section \<open>The reference decision\<close>

definition batch_finish :: "request \<Rightarrow> nat list \<Rightarrow> finish_reason option \<times> nat list" where
  "batch_finish rq gs =
     (let text = whole_chars gs
      in if rq_max_tokens rq \<le> length gs then (Some MaxTokens, gs)
         else if length text < length gs then (None, gs)
         else if is_eos (rq_stop rq) (last gs) then (Some (Eos (last gs)), gs)
         else case check_stop_string (rq_stop rq) text of
                Some (p, t) \<Rightarrow> (Some (StopString t), take p gs)
              | None \<Rightarrow> (None, gs))"

section \<open>What the sequence record means\<close>

definition byte_tracks :: "sequence \<Rightarrow> byte_detokenizer \<Rightarrow> utf8 \<Rightarrow> bool" where
  "byte_tracks s d H \<longleftrightarrow> tail_tracks s H \<and> bd_ok d \<and> sq_generated s = H @ byte_pending d (sq_seq_id s) \<and>
     sq_token_byte_spans s = filter (\<lambda>(_, _, e). e > sq_tail_start_byte s) (char_spans 0 H) \<and>
     sq_pending_utf8_start s = (if byte_pending d (sq_seq_id s) = [] then None else Some (length H, length H)) \<and>
     check_stop_string (rq_stop (sq_req s)) H = None"

lemma pending_whole_chars: "bd_ok d \<Longrightarrow> whole_chars (byte_pending d q) = []"
proof (cases "byte_pending d q = []")
  case False
  assume ok: "bd_ok d"
  then have b: "bd_active_seq d = Some q" "bd_buf_len d \<noteq> 0" using False by (auto simp: byte_pending_def split: if_splits)
  then have l: "length (byte_pending d q) = bd_buf_len d" "bd_buf_len d < char_len (bd_buf d ! 0)" "length (bd_buf d) = 4"
    using ok byte_pending_length [OF ok, of q] by (auto simp: bd_ok_def byte_buffered_len_def)
  have "hd (byte_pending d q) = bd_buf d ! 0"
    using b l(3) by (simp add: byte_pending_def) (metis hd_conv_nth list.size(3) zero_neq_numeral)
  with False l show ?thesis by (subst whole_chars.simps) (simp add: Let_def)
qed (simp add: whole_chars.simps)

lemma tail_tracks_bytes: "tail_tracks s H \<Longrightarrow> sq_tail_start_byte s + length (sq_detokenized_tail s) = length H"
  by (auto simp: tail_tracks_def)

lemma tail_tracks_valid: "tail_tracks s H \<Longrightarrow> utf8_valid (sq_detokenized_tail s)"
  using utf8_valid_cut by (auto simp: tail_tracks_def)

text \<open>A new sequence on a detokenizer that holds nothing for it.\<close>

lemma byte_tracks_new:
  assumes "bd_ok d" and "byte_pending d q = []"
  shows "byte_tracks (sequence_new rq q n) d []"
proof -
  have "check_stop_string (rq_stop rq) [] = None"
    using check_stop_string_earliest [of "rq_stop rq" "[]"]
    by (auto simp: earliest_match_def stop_texts_def occurs_def split: option.splits)
  then show ?thesis using assms
    by (auto simp: byte_tracks_def tail_tracks_def sequence_new_def char_boundary_def stop_texts_def)
qed

lemma push_token_fields [simp]:
  "sq_req (push_token s t i b n e) = sq_req s" "sq_seq_id (push_token s t i b n e) = sq_seq_id s"
  "sq_detokenized_tail (push_token s t i b n e) = sq_detokenized_tail s"
  "sq_tail_start_byte (push_token s t i b n e) = sq_tail_start_byte s"
  "sq_generated (push_token s t i b n e) = sq_generated s @ [t]"
  "sq_phase (push_token s t i b n e) = sq_phase s" "sq_ctx_len (push_token s t i b n e) = sq_ctx_len s"
  by (auto simp: push_token_def Let_def split: option.splits)

lemma push_token_tracks:
  assumes t: "byte_tracks s d H" and ok: "stop_ok (rq_stop (sq_req s))"
    and a: "byte_append_token d (sq_seq_id s) tok (sq_detokenized_tail s) = (Inr n, d', tail)"
  defines "s2 \<equiv> push_token (s\<lparr>sq_detokenized_tail := tail\<rparr>) tok (length (sq_generated s)) (length H) n (length H + n)"
  obtains bs where "length bs = n" and "bs = [] \<or> utf8_char bs" and "bd_ok d'" and "tail_tracks s2 (H @ bs)"
    and "sq_generated s @ [tok] = (H @ bs) @ byte_pending d' (sq_seq_id s)"
    and "bs = [] \<longleftrightarrow> byte_pending d' (sq_seq_id s) \<noteq> []"
    and "sq_token_byte_spans s2 = filter (\<lambda>(_, _, e). e > sq_tail_start_byte s) (char_spans 0 (H @ bs))"
    and "sq_pending_utf8_start s2 = (if byte_pending d' (sq_seq_id s) = [] then None else Some (length (H @ bs), length (H @ bs)))"
proof -
  let ?q = "sq_seq_id s"
  have tt: "tail_tracks s H" "bd_ok d" "sq_generated s = H @ byte_pending d ?q"
      "sq_token_byte_spans s = filter (\<lambda>(_, _, e). e > sq_tail_start_byte s) (char_spans 0 H)"
      "sq_pending_utf8_start s = (if byte_pending d ?q = [] then None else Some (length H, length H))"
    using t by (auto simp: byte_tracks_def)
  have v: "utf8_valid H" "sq_tail_start_byte s \<le> length H" using tt(1) by (auto simp: tail_tracks_def)
  obtain bs where bs: "bd_ok d'" "tail = sq_detokenized_tail s @ bs" "length bs = n" "bs = [] \<or> utf8_char bs"
      "bs @ byte_pending d' ?q = byte_pending d ?q @ [tok]" "bs \<noteq> [] \<Longrightarrow> byte_pending d' ?q = []"
    using byte_append_step [OF tt(2), of ?q tok "sq_detokenized_tail s"] by (auto simp: a byte_step_def)
  have pend: "bs = [] \<longleftrightarrow> byte_pending d' ?q \<noteq> []" using bs(5,6) by (cases "bs = []") auto
  have vb: "utf8_valid bs" using bs(4) utf8_valid_char_append [of bs "[]"] by auto
  have tr: "tail_tracks s2 (H @ bs)" unfolding s2_def
    by (rule tail_tracks_append [OF tt(1) ok vb]) (simp_all add: bs(2))
  have gen: "sq_generated s @ [tok] = (H @ bs) @ byte_pending d' ?q" using tt(3) bs(5) by simp
  have spans: "sq_token_byte_spans s2 = filter (\<lambda>(_, _, e). e > sq_tail_start_byte s) (char_spans 0 (H @ bs))"
  proof (cases "bs = []")
    case True
    then show ?thesis using tt(4) bs(3) by (auto simp: s2_def push_token_def Let_def)
  next
    case False
    then have c: "utf8_char bs" and n: "0 < n" using bs(3,4) by auto
    have "char_spans 0 (H @ bs) = char_spans 0 H @ [(length H, length H, length H + n)]"
      using char_spans_append [OF v(1), of 0 bs] char_spans_char [OF c, of "length H" "[]"] bs(3) by simp
    moreover have "length (sq_generated s) = length H" if "byte_pending d ?q = []" using tt(3) that by simp
    ultimately show ?thesis using tt(4,5) v(2) n by (auto simp: s2_def push_token_def Let_def split: option.splits)
  qed
  have "sq_pending_utf8_start s2 = (if byte_pending d' ?q = [] then None else Some (length (H @ bs), length (H @ bs)))"
  proof (cases "bs = []")
    case True
    then show ?thesis using tt(3,5) bs(3) pend by (auto simp: s2_def push_token_def Let_def)
  next
    case False
    then show ?thesis using bs(3) pend by (auto simp: s2_def push_token_def Let_def split: option.splits)
  qed
  with that bs tr gen pend spans show thesis by blast
qed

section \<open>One token\<close>

text \<open>Cutting at the match leaves exactly the tokens before it.\<close>

lemma stop_at_cut:
  assumes tr: "tail_tracks s H" and ok: "stop_ok (rq_stop (sq_req s))" and small: "length H < 2 ^ 64"
    and spans: "sq_token_byte_spans s = filter (\<lambda>(_, _, e). e > sq_tail_start_byte s) (char_spans 0 H)"
    and m: "check_stop_string (rq_stop (sq_req s)) (sq_detokenized_tail s) = Some (i, t)"
    and last: "Suc k = length H"
  shows "check_stop_string (rq_stop (sq_req s)) H = Some (sq_tail_start_byte s + i, t)"
    and "stop_at s k (i, t) = (Done (Some (StopString t), True),
      s\<lparr>sq_generated := take (sq_tail_start_byte s + i) (sq_generated s)\<rparr>)"
proof -
  let ?p = "sq_tail_start_byte s + i"
  show c: "check_stop_string (rq_stop (sq_req s)) H = Some (?p, t)" using tail_search [OF tr] m by simp
  have "t \<in> stop_texts (rq_stop (sq_req s))" and o: "occurs t H ?p"
    using check_stop_string_earliest [of "rq_stop (sq_req s)" H] unfolding c by (auto simp: earliest_match_def)
  then have v: "utf8_valid t" "t \<noteq> []" using ok by (auto simp: stop_texts_def stop_ok_def)
  have b: "char_boundary H ?p" by (rule occurs_boundary [OF v o])
  have lt: "?p < length H" using o v(2) by (cases t) (auto simp: occurs_def)
  obtain e where e: "List.find (\<lambda>(_, _, e). e > ?p) (char_spans 0 H) = Some (?p, ?p, e)"
    using find_span [OF _ b lt, of 0] tr by (auto simp: tail_tracks_def)
  have "List.find (\<lambda>(_, _, e). e > ?p) (sq_token_byte_spans s) = Some (?p, ?p, e)"
    unfolding spans e [symmetric] by (rule find_filter_weaker) auto
  then show "stop_at s k (i, t) = (Done (Some (StopString t), True), s\<lparr>sq_generated := take ?p (sq_generated s)\<rparr>)"
    using lt small last by (simp add: stop_at_def checked_add_def)
qed

lemma trimmed_tail_tracks:
  assumes tr: "tail_tracks s H" and none: "check_stop_string (rq_stop (sq_req s)) H = None"
    and i: "trim_point (sq_detokenized_tail s) (length (sq_detokenized_tail s) - st_max_stop_len (rq_stop (sq_req s))) = Some i"
    and over: "tail_overfull s"
  shows "tail_tracks (trimmed_tail s i) H"
proof -
  let ?c = "rq_stop (sq_req s)" and ?ts = "sq_tail_start_byte s" and ?t = "sq_detokenized_tail s"
  let ?L = "st_max_stop_len ?c"
  have h: "utf8_valid H" "?ts \<le> length H" "?t = drop ?ts H" using tr by (auto simp: tail_tracks_def)
  have lt: "length ?t = length H - ?ts" using h(3) by simp
  have i': "i < length ?t" "char_boundary ?t i" "\<And>j. j < i \<Longrightarrow> length ?t - ?L \<le> j \<Longrightarrow> \<not> char_boundary ?t j"
    using i unfolding trim_point_Some by blast+
  have bd: "char_boundary ?t j \<longleftrightarrow> char_boundary H (?ts + j)" if "j \<le> length ?t" for j
    using that h(2) by (auto simp: char_boundary_def h(3))
  have no: "\<not> occurs t H p" if "t \<in> stop_texts ?c" for t p
    using check_stop_string_earliest [of ?c H] that by (simp add: none earliest_match_def)
  have "?ts + i \<le> p" if p: "char_boundary H p" "length H < p + ?L" for p
  proof (rule ccontr)
    assume "\<not> ?ts + i \<le> p"
    moreover have "?ts \<le> p" using tr p by (auto simp: tail_tracks_def)
    ultimately have j: "p - ?ts < i" "?ts + (p - ?ts) = p" by auto
    have "char_boundary ?t (p - ?ts)" using bd [of "p - ?ts"] j i'(1) p(1) by simp
    moreover have "length ?t - ?L \<le> p - ?ts" using p(2) lt \<open>?ts \<le> p\<close> by linarith
    ultimately show False using i'(3) [OF j(1)] by blast
  qed
  moreover have "char_boundary H (?ts + i)" using bd [of i] i' by simp
  ultimately show ?thesis using h i'(1) lt no
    by (auto simp: tail_tracks_def trimmed_tail_def add.commute)
qed

lemma append_unfold:
  assumes "tail_tracks s H" and "length H < 2 ^ 64"
  shows "append_generated_token byte_ops s tok d =
    (case byte_append_token d (sq_seq_id s) tok (sq_detokenized_tail s) of
       (Inl e, d1, tail) \<Rightarrow> (Failed e, s\<lparr>sq_detokenized_tail := tail\<rparr>, d1)
     | (Inr n, d1, tail) \<Rightarrow>
         if 2 ^ 64 \<le> length H + n then (Failed (ArithmeticOverflow ''tail_bytes'' []), s\<lparr>sq_detokenized_tail := tail\<rparr>, d1)
         else let s2 = push_token (s\<lparr>sq_detokenized_tail := tail\<rparr>) tok (length (sq_generated s)) (length H) n (length H + n);
                  (f, s3) = evaluate_stop byte_ops s2 tok (length (sq_generated s)) (length (sq_generated s) + 1 \<ge> rq_max_tokens (sq_req s))
                    (is_eos (rq_stop (sq_req s)) tok) d1
              in (f, s3, d1))"
proof -
  have "checked_add 64 (sq_tail_start_byte s) (length (sq_detokenized_tail s)) = Some (length H)"
    using tail_tracks_bytes [OF assms(1)] assms(2) by simp
  moreover have "dt_append_token byte_ops = byte_append_token" by (simp add: byte_ops_def)
  ultimately show ?thesis
    by (simp add: append_generated_token_def Let_def checked_add_def not_less split: prod.splits sum.splits)
qed

text \<open>The tail has outgrown its bound and no character starts in its last \<open>max_stop_len\<close> bytes.\<close>

definition drains_inside_char :: "stop_criteria \<Rightarrow> nat \<Rightarrow> utf8 \<Rightarrow> bool" where
  "drains_inside_char c tail_len H \<longleftrightarrow> 0 < st_max_stop_len c \<and> tail_keep c < tail_len \<and>
     (\<forall>j < length H. length H \<le> j + st_max_stop_len c \<longrightarrow> \<not> char_boundary H j)"

lemma overfull_trim_None:
  assumes "tail_tracks s H"
  shows "tail_overfull s \<and> trim_point (sq_detokenized_tail s)
      (length (sq_detokenized_tail s) - st_max_stop_len (rq_stop (sq_req s))) = None \<longleftrightarrow>
    drains_inside_char (rq_stop (sq_req s)) (length (sq_detokenized_tail s)) H"
proof -
  let ?c = "rq_stop (sq_req s)" and ?ts = "sq_tail_start_byte s" and ?t = "sq_detokenized_tail s"
  let ?L = "st_max_stop_len ?c"
  have h: "?ts \<le> length H" "?t = drop ?ts H" using assms by (auto simp: tail_tracks_def)
  have lt: "length ?t = length H - ?ts" using h(2) by simp
  have B: "\<And>p. char_boundary H p \<Longrightarrow> length H < p + ?L \<Longrightarrow> ?ts \<le> p" and ts: "char_boundary H ?ts"
    using assms by (auto simp: tail_tracks_def)
  have bd: "char_boundary ?t j \<longleftrightarrow> char_boundary H (?ts + j)" if "j \<le> length ?t" for j
    using that h(1) by (auto simp: char_boundary_def h(2))
  have "trim_point ?t (length ?t - ?L) = None \<longleftrightarrow> (\<forall>j < length H. length H \<le> j + ?L \<longrightarrow> \<not> char_boundary H j)"
    if over: "tail_overfull s"
  proof
    assume n: "trim_point ?t (length ?t - ?L) = None"
    show "\<forall>j < length H. length H \<le> j + ?L \<longrightarrow> \<not> char_boundary H j"
    proof (intro allI impI notI)
      fix j assume j: "j < length H" "length H \<le> j + ?L" "char_boundary H j"
      have ge: "?ts \<le> j"
      proof (rule ccontr)
        assume "\<not> ?ts \<le> j"
        then have "length ?t < ?L" using j(2) lt h(1) by linarith
        moreover have "0 < length ?t" using over unfolding tail_overfull_def by linarith
        ultimately have "\<not> char_boundary ?t 0" using n unfolding trim_point_None by auto
        then show False using bd [of 0] ts by simp
      qed
      then have "length ?t - ?L \<le> j - ?ts" "j - ?ts < length ?t" using j lt by linarith+
      then have "\<not> char_boundary ?t (j - ?ts)" using n unfolding trim_point_None by blast
      then show False using bd [of "j - ?ts"] ge j lt by simp
    qed
  next
    assume n: "\<forall>j < length H. length H \<le> j + ?L \<longrightarrow> \<not> char_boundary H j"
    have "\<not> char_boundary ?t j" if "j < length ?t" "length ?t - ?L \<le> j" for j
      using n [rule_format, of "?ts + j"] bd [of j] that lt by auto
    then show "trim_point ?t (length ?t - ?L) = None" unfolding trim_point_None by blast
  qed
  then show ?thesis by (auto simp: drains_inside_char_def tail_overfull_def)
qed

text \<open>The sequence after the push of an accepted token, and the decision taken on it.\<close>

definition accepted :: "sequence \<Rightarrow> byte_detokenizer \<Rightarrow> utf8 \<Rightarrow> bool" where
  "accepted s d H \<longleftrightarrow> bd_ok d \<and> tail_tracks s H \<and> stop_ok (rq_stop (sq_req s)) \<and> length H < 2 ^ 64 \<and>
     sq_generated s \<noteq> [] \<and> sq_generated s = H @ byte_pending d (sq_seq_id s) \<and>
     sq_token_byte_spans s = filter (\<lambda>(_, _, e). e > sq_tail_start_byte s) (char_spans 0 H) \<and>
     sq_pending_utf8_start s = (if byte_pending d (sq_seq_id s) = [] then None else Some (length H, length H)) \<and>
     (byte_pending d (sq_seq_id s) \<noteq> [] \<longrightarrow> check_stop_string (rq_stop (sq_req s)) H = None)"

definition decide :: "sequence \<Rightarrow> byte_detokenizer \<Rightarrow> (finish_reason option \<times> bool) fate \<times> sequence" where
  "decide s d =
     (if rq_max_tokens (sq_req s) \<le> length (sq_generated s) then (Done (Some MaxTokens, False), s)
      else if byte_pending d (sq_seq_id s) \<noteq> [] then (Done (None, False), s)
      else if is_eos (rq_stop (sq_req s)) (last (sq_generated s)) then (Done (Some (Eos (last (sq_generated s))), False), s)
      else case check_stop_string (rq_stop (sq_req s)) (sq_detokenized_tail s) of
             Some m \<Rightarrow> stop_at s (length (sq_generated s) - 1) m
           | None \<Rightarrow> bound_tail s)"

lemma append_cases:
  assumes t: "byte_tracks s d H" and ok: "stop_ok (rq_stop (sq_req s))" and small: "length H < 2 ^ 64"
  obtains (rejected) e s' d' where "append_generated_token byte_ops s tok d = (Failed e, s', d')" "sq_generated s' = sq_generated s"
      "sq_req s' = sq_req s" "sq_seq_id s' = sq_seq_id s" "bd_ok d'"
      "(\<exists>d1 tl. byte_append_token d (sq_seq_id s) tok (sq_detokenized_tail s) = (Inl e, d1, tl)) \<or> 2 ^ 64 \<le> length (sq_generated s) + 1"
    | (accepted) n d' tl s2 H' where "byte_append_token d (sq_seq_id s) tok (sq_detokenized_tail s) = (Inr n, d', tl)"
      "accepted s2 d' H'" "sq_generated s2 = sq_generated s @ [tok]" "sq_req s2 = sq_req s" "sq_seq_id s2 = sq_seq_id s"
      "sq_detokenized_tail s2 = tl" "append_generated_token byte_ops s tok d = (fst (decide s2 d'), snd (decide s2 d'), d')"
proof -
  let ?q = "sq_seq_id s"
  have tt: "tail_tracks s H" "bd_ok d" using t by (auto simp: byte_tracks_def)
  obtain r d1 tl where a: "byte_append_token d ?q tok (sq_detokenized_tail s) = (r, d1, tl)"
    by (cases "byte_append_token d ?q tok (sq_detokenized_tail s)")
  have ok1: "bd_ok d1" using byte_append_step [OF tt(2), of ?q tok "sq_detokenized_tail s"] by (simp add: a byte_step_def)
  note u = append_unfold [OF tt(1) small, of tok d, unfolded a prod.case]
  show thesis
  proof (cases r)
    case (Inl e)
    show thesis by (rule rejected [of e "s\<lparr>sq_detokenized_tail := tl\<rparr>" d1]) (simp_all add: u Inl ok1 a)
  next
    case (Inr n)
    define s2 where "s2 = push_token (s\<lparr>sq_detokenized_tail := tl\<rparr>) tok (length (sq_generated s)) (length H) n (length H + n)"
    obtain bs where bs: "length bs = n" "tail_tracks s2 (H @ bs)" "sq_generated s @ [tok] = (H @ bs) @ byte_pending d1 ?q"
        "bs = [] \<longleftrightarrow> byte_pending d1 ?q \<noteq> []"
        "sq_token_byte_spans s2 = filter (\<lambda>(_, _, e). e > sq_tail_start_byte s) (char_spans 0 (H @ bs))"
        "sq_pending_utf8_start s2 = (if byte_pending d1 ?q = [] then None else Some (length (H @ bs), length (H @ bs)))"
      using push_token_tracks [OF t ok] a Inr unfolding s2_def by metis
    have fr: "sq_req s2 = sq_req s" "sq_seq_id s2 = ?q" "sq_detokenized_tail s2 = tl" "sq_generated s2 = sq_generated s @ [tok]"
        "sq_tail_start_byte s2 = sq_tail_start_byte s"
      by (simp_all add: s2_def)
    show thesis
    proof (cases "2 ^ 64 \<le> length H + n")
      case True
      have "length H + n \<le> length (sq_generated s @ [tok])" unfolding bs(3) using bs(1) by simp
      then show thesis using True
        by (intro rejected [of "ArithmeticOverflow ''tail_bytes'' []" "s\<lparr>sq_detokenized_tail := tl\<rparr>" d1]) (simp_all add: u Inr ok1)
    next
      case False
      have buf: "byte_buffered_len d1 ?q > 0 \<longleftrightarrow> byte_pending d1 ?q \<noteq> []"
        using byte_pending_length [OF ok1, of ?q] by (metis length_greater_0_conv)
      have "accepted s2 d1 (H @ bs)"
        using ok ok1 bs(2-6) False bs(1) t unfolding accepted_def byte_tracks_def fr
        by (metis append_is_Nil_conv append_self_conv length_append not_Cons_self2 not_less)
      moreover have "evaluate_stop byte_ops s2 tok (length (sq_generated s)) (length (sq_generated s) + 1 \<ge> rq_max_tokens (sq_req s))
          (is_eos (rq_stop (sq_req s)) tok) d1 = decide s2 d1"
        unfolding evaluate_stop_def decide_def fr using buf
        by (auto simp: byte_ops_def check_stop_string_def split: option.splits)
      then have "append_generated_token byte_ops s tok d = (fst (decide s2 d1), snd (decide s2 d1), d1)"
        using False unfolding u Inr by (simp add: Let_def case_prod_unfold flip: s2_def)
      ultimately show thesis using accepted a Inr fr by blast
    qed
  qed
qed

text \<open>The decision is the one of the reference on all generated tokens.\<close>

definition decision_spec :: "sequence \<Rightarrow> byte_detokenizer \<Rightarrow> (finish_reason option \<times> bool) fate \<times> sequence \<Rightarrow> bool" where
  "decision_spec s d = (\<lambda>(f, s'). let gs = sq_generated s; rq = sq_req s;
       drains = (batch_finish rq gs = (None, gs) \<and> whole_chars gs = gs \<and>
                 drains_inside_char (rq_stop rq) (length (sq_detokenized_tail s)) gs) in
     sq_req s' = rq \<and> sq_seq_id s' = sq_seq_id s \<and>
     (case f of
        Done (fin, trimmed) \<Rightarrow> (fin, sq_generated s') = batch_finish rq gs \<and> (trimmed \<longleftrightarrow> (\<exists>t. fin = Some (StopString t))) \<and>
          (fin = None \<longrightarrow> (\<exists>H. byte_tracks s' d H \<and> length H < 2 ^ 64)) \<and> \<not> drains
      | Panicked w \<Rightarrow> drains
      | Failed e \<Rightarrow> False))"

lemma accepted_whole_chars:
  assumes "accepted s d H"
  shows "whole_chars (sq_generated s) = H"
    and "whole_chars (sq_generated s) = sq_generated s \<longleftrightarrow> byte_pending d (sq_seq_id s) = []"
proof -
  have a: "sq_generated s = H @ byte_pending d (sq_seq_id s)" "utf8_valid H" "bd_ok d"
    using assms by (auto simp: accepted_def tail_tracks_def)
  show w: "whole_chars (sq_generated s) = H" unfolding a(1) using whole_chars_append [OF a(2)] pending_whole_chars [OF a(3)] by simp
  show "whole_chars (sq_generated s) = sq_generated s \<longleftrightarrow> byte_pending d (sq_seq_id s) = []"
    unfolding w using a(1) by simp
qed

lemma accepted_tracks:
  "accepted s d H \<Longrightarrow> check_stop_string (rq_stop (sq_req s)) H = None \<Longrightarrow> byte_tracks s d H \<and> length H < 2 ^ 64"
  by (simp add: accepted_def byte_tracks_def)

lemma bound_tail_spec:
  assumes acc: "accepted s d H" and none: "check_stop_string (rq_stop (sq_req s)) (sq_detokenized_tail s) = None"
    and full: "byte_pending d (sq_seq_id s) = []" and bf: "batch_finish (sq_req s) (sq_generated s) = (None, sq_generated s)"
  shows "decision_spec s d (bound_tail s)"
proof -
  let ?c = "rq_stop (sq_req s)" and ?t = "sq_detokenized_tail s"
  let ?tp = "trim_point ?t (length ?t - st_max_stop_len ?c)"
  have tr: "tail_tracks s H" and small: "length H < 2 ^ 64" and gs: "sq_generated s = H"
    using acc full by (auto simp: accepted_def)
  have cn: "check_stop_string ?c H = None" using tail_search [OF tr] none by simp
  have eq: "bound_tail s = (if tail_overfull s
      then (case ?tp of Some i \<Rightarrow> if i = 0 then (Done (None, False), s) else (Done (None, False), trimmed_tail s i)
            | None \<Rightarrow> (Panicked ''drain end is not a char boundary'', s))
      else (Done (None, False), s))"
    using bound_tail_eq tail_tracks_bytes [OF tr] tail_tracks_valid [OF tr] small by simp
  have drains: "tail_overfull s \<and> ?tp = None \<longleftrightarrow> drains_inside_char ?c (length ?t) (sq_generated s)"
    using overfull_trim_None [OF tr] gs by simp
  have wc: "whole_chars (sq_generated s) = sq_generated s" using accepted_whole_chars(2) [OF acc] full by simp
  have trim: "byte_tracks (trimmed_tail s i) d H" if "tail_overfull s" "?tp = Some i" for i
  proof -
    have "filter (\<lambda>(_, _, e). e > sq_tail_start_byte s + i) (filter (\<lambda>(_, _, e). e > sq_tail_start_byte s) (char_spans 0 H)) =
        filter (\<lambda>(_, _, e). e > sq_tail_start_byte s + i) (char_spans 0 H)"
      by (auto simp: filter_filter intro!: filter_cong)
    then show ?thesis using trimmed_tail_tracks [OF tr cn that(2,1)] accepted_tracks [OF acc cn]
      by (simp add: byte_tracks_def trimmed_tail_def)
  qed
  show ?thesis
  proof (cases "tail_overfull s \<and> ?tp = None")
    case True
    then show ?thesis using drains wc bf by (simp add: eq decision_spec_def Let_def)
  next
    case False
    obtain s3 where "bound_tail s = (Done (None, False), s3)" "byte_tracks s3 d H" "sq_req s3 = sq_req s"
        "sq_seq_id s3 = sq_seq_id s" "sq_generated s3 = sq_generated s"
    proof (cases "tail_overfull s")
      case True
      then obtain i where i: "?tp = Some i" using False by auto
      then show thesis using that [of "if i = 0 then s else trimmed_tail s i"] True trim [OF True i] accepted_tracks [OF acc cn]
        by (simp add: eq trimmed_tail_def)
    qed (use that [of s] accepted_tracks [OF acc cn] in \<open>simp add: eq\<close>)
    with False drains bf small show ?thesis by (auto simp: decision_spec_def Let_def)
  qed
qed

lemma decide_spec:
  assumes acc: "accepted s d H"
  shows "decision_spec s d (decide s d)"
proof -
  let ?gs = "sq_generated s" and ?rq = "sq_req s" and ?c = "rq_stop (sq_req s)"
  note wc = accepted_whole_chars [OF acc]
  have a: "tail_tracks s H" "stop_ok ?c" "length H < 2 ^ 64" "?gs \<noteq> []" "?gs = H @ byte_pending d (sq_seq_id s)"
      "sq_token_byte_spans s = filter (\<lambda>(_, _, e). e > sq_tail_start_byte s) (char_spans 0 H)"
    using acc by (auto simp: accepted_def)
  consider (budget) "rq_max_tokens ?rq \<le> length ?gs"
    | (partial) "\<not> rq_max_tokens ?rq \<le> length ?gs" "byte_pending d (sq_seq_id s) \<noteq> []"
    | (eos) "\<not> rq_max_tokens ?rq \<le> length ?gs" "byte_pending d (sq_seq_id s) = []" "is_eos ?c (last ?gs)"
    | (plain) "\<not> rq_max_tokens ?rq \<le> length ?gs" "byte_pending d (sq_seq_id s) = []" "\<not> is_eos ?c (last ?gs)" by blast
  then show ?thesis
  proof cases
    case budget
    then show ?thesis by (simp add: decide_def decision_spec_def batch_finish_def Let_def)
  next
    case partial
    have "length (whole_chars ?gs) < length ?gs" unfolding wc(1) using a(5) partial(2) by simp
    then have "batch_finish ?rq ?gs = (None, ?gs)" using partial(1) by (simp add: batch_finish_def Let_def)
    moreover have "byte_tracks s d H \<and> length H < 2 ^ 64"
      using accepted_tracks [OF acc] acc partial(2) by (auto simp: accepted_def)
    ultimately show ?thesis using partial wc(2) by (auto simp: decide_def decision_spec_def Let_def)
  next
    case eos
    then show ?thesis using wc(2) by (simp add: decide_def decision_spec_def batch_finish_def Let_def)
  next
    case plain
    have gs: "?gs = H" using a(5) plain(2) by simp
    have bf: "batch_finish ?rq ?gs =
        (case check_stop_string ?c H of Some (p, x) \<Rightarrow> (Some (StopString x), take p ?gs) | None \<Rightarrow> (None, ?gs))"
      using plain wc gs by (simp add: batch_finish_def Let_def split: option.splits)
    show ?thesis
    proof (cases "check_stop_string ?c (sq_detokenized_tail s)")
      case None
      then have "batch_finish ?rq ?gs = (None, ?gs)" using bf tail_search [OF a(1)] by simp
      from bound_tail_spec [OF acc None plain(2) this] show ?thesis using plain None by (simp add: decide_def)
    next
      case (Some m)
      obtain i x where m: "m = (i, x)" by (cases m)
      have k: "Suc (length ?gs - 1) = length H" using a(4) gs by (cases ?gs) auto
      note cut = stop_at_cut [OF a(1,2,3,6) Some [unfolded m] k]
      have "decide s d = stop_at s (length ?gs - 1) (i, x)" using plain Some m by (simp add: decide_def)
      then show ?thesis using cut bf by (simp add: decision_spec_def Let_def)
    qed
  qed
qed

section \<open>Generation\<close>

inductive generating :: "request \<Rightarrow> nat \<Rightarrow> sequence \<Rightarrow> byte_detokenizer \<Rightarrow> bool" for rq q where
  start: "bd_ok d \<Longrightarrow> byte_pending d q = [] \<Longrightarrow> generating rq q (sequence_new rq q n) d"
| token: "generating rq q s d \<Longrightarrow> append_generated_token byte_ops s tok d = (Done (None, trimmed), s', d') \<Longrightarrow>
    generating rq q s' d'"

lemma generating_tracks:
  assumes "generating rq q s d" and "stop_ok (rq_stop rq)"
  shows "sq_req s = rq \<and> sq_seq_id s = q \<and> (\<exists>H. byte_tracks s d H \<and> length H < 2 ^ 64)"
  using assms(1)
proof induction
  case (start d n)
  then have "byte_tracks (sequence_new rq q n) d [] \<and> length ([]::utf8) < 2 ^ 64" using byte_tracks_new by simp
  then show ?case by (auto simp: sequence_new_def)
next
  case (token s d tok trimmed s' d')
  then obtain H where H: "byte_tracks s d H" "length H < 2 ^ 64" and s: "sq_req s = rq" "sq_seq_id s = q" by auto
  have ok: "stop_ok (rq_stop (sq_req s))" using assms(2) s by simp
  show ?case using H(1) ok H(2)
  proof (cases rule: append_cases [where tok = tok])
    case (rejected e s1 d1)
    then show ?thesis using token(2) by simp
  next
    case (accepted n d1 tl s2 H')
    have "decision_spec s2 d1 (Done (None, trimmed), s')" using decide_spec [OF accepted(2)] accepted(7) token(2) by (metis prod.collapse prod.inject)
    then show ?thesis using accepted token(2) s by (auto simp: decision_spec_def Let_def)
  qed
qed

lemma append_generating:
  assumes g: "generating rq q s d" and ok: "stop_ok (rq_stop rq)" and a: "append_generated_token byte_ops s tok d = (f, s', d')"
  shows "f = Done (fin, trimmed) \<Longrightarrow>
      (fin, sq_generated s') = batch_finish rq (sq_generated s @ [tok]) \<and> (trimmed \<longleftrightarrow> (\<exists>t. fin = Some (StopString t)))"
    and "(\<exists>w. f = Panicked w) \<longleftrightarrow> (\<exists>n d1 tl. byte_append_token d q tok (sq_detokenized_tail s) = (Inr n, d1, tl) \<and>
      batch_finish rq (sq_generated s @ [tok]) = (None, sq_generated s @ [tok]) \<and>
      whole_chars (sq_generated s @ [tok]) = sq_generated s @ [tok] \<and>
      drains_inside_char (rq_stop rq) (length tl) (sq_generated s @ [tok]) \<and> length (sq_generated s) + 1 < 2 ^ 64)"
    and "f = Failed e \<Longrightarrow> sq_generated s' = sq_generated s \<and>
      ((\<exists>d1 tl. byte_append_token d q tok (sq_detokenized_tail s) = (Inl e, d1, tl)) \<or> 2 ^ 64 \<le> length (sq_generated s) + 1)"
proof -
  obtain H where H: "byte_tracks s d H" "length H < 2 ^ 64" and s: "sq_req s = rq" "sq_seq_id s = q"
    using generating_tracks [OF g ok] by blast
  have ok': "stop_ok (rq_stop (sq_req s))" using ok s by simp
  have "(f = Done (fin, trimmed) \<longrightarrow>
      (fin, sq_generated s') = batch_finish rq (sq_generated s @ [tok]) \<and> (trimmed \<longleftrightarrow> (\<exists>t. fin = Some (StopString t)))) \<and>
    ((\<exists>w. f = Panicked w) \<longleftrightarrow> (\<exists>n d1 tl. byte_append_token d q tok (sq_detokenized_tail s) = (Inr n, d1, tl) \<and>
      batch_finish rq (sq_generated s @ [tok]) = (None, sq_generated s @ [tok]) \<and>
      whole_chars (sq_generated s @ [tok]) = sq_generated s @ [tok] \<and>
      drains_inside_char (rq_stop rq) (length tl) (sq_generated s @ [tok]) \<and> length (sq_generated s) + 1 < 2 ^ 64)) \<and>
    (f = Failed e \<longrightarrow> sq_generated s' = sq_generated s \<and>
      ((\<exists>d1 tl. byte_append_token d q tok (sq_detokenized_tail s) = (Inl e, d1, tl)) \<or> 2 ^ 64 \<le> length (sq_generated s) + 1))"
    using H(1) ok' H(2)
  proof (cases rule: append_cases [where tok = tok])
    case (rejected e1 s1 d1)
    then show ?thesis using a s by auto
  next
    case (accepted n d1 tl s2 H')
    have dec: "decide s2 d1 = (f, s')" using accepted(7) a by (cases "decide s2 d1") simp
    have sp: "decision_spec s2 d1 (f, s')" using decide_spec [OF accepted(2)] dec by simp
    have len: "whole_chars (sq_generated s @ [tok]) = sq_generated s @ [tok] \<Longrightarrow> length (sq_generated s) + 1 < 2 ^ 64"
      using accepted_whole_chars(1) [OF accepted(2)] accepted(2,3) unfolding accepted_def by (metis length_append_singleton Suc_eq_plus1)
    show ?thesis using sp len accepted s
      by (cases f) (auto simp: decision_spec_def Let_def split: prod.splits)
  qed
  then show "f = Done (fin, trimmed) \<Longrightarrow>
      (fin, sq_generated s') = batch_finish rq (sq_generated s @ [tok]) \<and> (trimmed \<longleftrightarrow> (\<exists>t. fin = Some (StopString t)))"
    and "(\<exists>w. f = Panicked w) \<longleftrightarrow> (\<exists>n d1 tl. byte_append_token d q tok (sq_detokenized_tail s) = (Inr n, d1, tl) \<and>
      batch_finish rq (sq_generated s @ [tok]) = (None, sq_generated s @ [tok]) \<and>
      whole_chars (sq_generated s @ [tok]) = sq_generated s @ [tok] \<and>
      drains_inside_char (rq_stop rq) (length tl) (sq_generated s @ [tok]) \<and> length (sq_generated s) + 1 < 2 ^ 64)"
    and "f = Failed e \<Longrightarrow> sq_generated s' = sq_generated s \<and>
      ((\<exists>d1 tl. byte_append_token d q tok (sq_detokenized_tail s) = (Inl e, d1, tl)) \<or> 2 ^ 64 \<le> length (sq_generated s) + 1)"
    by blast+
qed

text \<open>A bound of at least four bytes always has a character start inside it.\<close>

lemma wide_stop_never_drains_inside:
  assumes "utf8_valid H" and "H \<noteq> []" and "st_max_stop_len c = 0 \<or> 4 \<le> st_max_stop_len c"
  shows "\<not> drains_inside_char c n H"
proof -
  have "\<exists>j < length H. length H \<le> j + 4 \<and> char_boundary H j"
  proof (cases "length H < 4")
    case True
    then show ?thesis using boundary_start [OF assms(1)] assms(2) by (intro exI [of _ 0]) auto
  next
    case False
    obtain j where "length H - 4 \<le> j" "j < length H - 4 + 4" "char_boundary H j"
      using boundary_near [OF assms(1), of "length H - 4"] by auto
    with False show ?thesis by (intro exI [of _ j]) auto
  qed
  then obtain j where j: "j < length H" "length H \<le> j + 4" "char_boundary H j" by blast
  show ?thesis
  proof
    assume d: "drains_inside_char c n H"
    then have "4 \<le> st_max_stop_len c" using assms(3) by (auto simp: drains_inside_char_def)
    then have "length H \<le> j + st_max_stop_len c" using j(2) by linarith
    with d j(1,3) show False by (auto simp: drains_inside_char_def)
  qed
qed

section \<open>Feeding a stream of tokens\<close>

fun feed :: "'d detok_ops \<Rightarrow> sequence \<Rightarrow> nat list \<Rightarrow> 'd \<Rightarrow> (finish_reason option \<times> bool) fate \<times> sequence \<times> 'd" where
  "feed D s [] d = (Done (None, False), s, d)"
| "feed D s (t # ts) d =
     (case append_generated_token D s t d of
        (Done (None, trimmed), s1, d1) \<Rightarrow> feed D s1 ts d1
      | r \<Rightarrow> r)"

lemma feed_budget:
  assumes "feed D s ts d = (Done (None, tr), s', d')"
  shows "length (sq_generated s') = length (sq_generated s) + length ts \<and>
    (ts \<noteq> [] \<longrightarrow> length (sq_generated s') < rq_max_tokens (sq_req s))"
  using assms
proof (induction ts arbitrary: s d)
  case (Cons t ts)
  obtain tr1 s1 d1 where a: "append_generated_token D s t d = (Done (None, tr1), s1, d1)"
    and rest: "feed D s1 ts d1 = (Done (None, tr), s', d')"
    using Cons.prems by (auto split: prod.splits fate.splits option.splits)
  from append_cases_frame [OF a] Cons.IH [OF rest] show ?case by (cases "ts = []") (use rest in \<open>auto simp: same_frame_def\<close>)
qed simp

end
