(* ===== verification/Sched_Demo.thy ===== *)
theory Sched_Demo
  imports Sched_Reach State_Reach Sched_Generate
begin

text \<open>
  A concrete scheduler on the manager of \<open>State_Reach\<close>: one operation in the step program, a constant cost
  table, the byte detokenizer and one queued request of three prompt tokens. Its first step is evaluated
  twice, with an executor that answers and with one whose device is lost.
\<close>

definition demo_variant :: resolved_variant where
  "demo_variant = \<lparr>rv_variant_hash = 1, rv_tier = T1, rv_entry_symbol = ''sample'',
     rv_launch_geometry = \<lparr>lg_grid = (1, 1, 1), lg_block = (64, 1, 1), lg_shared_mem_bytes = 0\<rparr>,
     rv_workspace_bytes = 100, rv_static_bytes = 0, rv_static_flops = 0\<rparr>"

definition demo_program :: "unit step_graph_program" where
  "demo_program = add_op [] (op_new Op_Sample ''sample'' (\<lambda>_. Some ()) (replicate 16 0) (Some 8))"

definition demo_env :: "(unit, byte_detokenizer) sched_env" where
  "demo_env = \<lparr>en_cost_ms = (\<lambda>_ _ _. Inr f32_one), en_resolve = (\<lambda>_ _. Inr demo_variant), en_detok = byte_ops\<rparr>"

definition demo_budget :: f32 where "demo_budget = F32_Fin False 8388608 (-19)"

definition demo_sched_config :: scheduler_config where
  "demo_sched_config = config_default\<lparr>cf_step_budget_ms := Manual demo_budget\<rparr>"

definition demo_exec :: "nat step_executor" where
  "demo_exec = \<lparr>ex_upload_inputs = (\<lambda>_ u. (Inr (), si_step_id u)), ex_replay_graph = (\<lambda>x _. (Inr (), x)),
     ex_readback_sample = (\<lambda>x. (Inr \<lparr>ds_step_id = x, ds_token = 33, ds_accept_len = 1\<rparr>, x))\<rparr>"

definition demo_lost :: "nat step_executor" where
  "demo_lost = demo_exec\<lparr>ex_upload_inputs := (\<lambda>x _. (Inl (ExecutionFailed (DeviceFault ''device lost'')), x))\<rparr>"

definition demo_sampling :: sampling_params where
  "demo_sampling = \<lparr>sp_temperature = f32_one, sp_top_k = 0, sp_top_p = f32_one, sp_min_p = f32_zero, sp_repetition_penalty = f32_one,
     sp_presence_penalty = f32_zero, sp_frequency_penalty = f32_zero, sp_logit_bias = []\<rparr>"

definition demo_req :: request where
  "demo_req = \<lparr>rq_id = 7, rq_tokens = [7, 8, 9], rq_sampling = demo_sampling, rq_max_tokens = 2, rq_stop = stop_default,
     rq_stream = False, rq_seed = 7\<rparr>"

section \<open>Construction\<close>

definition demo_arena :: workspace_arena where "demo_arena = arena_new 0 4096"

lemma demo_capture: "100 \<le> wa_capacity_bytes a \<Longrightarrow> \<exists>g. capture (en_resolve demo_env) key demo_program a = Inr g"
  by (auto simp: capture_Inr capture_launches_def capture_op_def bind_workspace_def next_aligned_def demo_program_def add_op_def
      op_new_def demo_env_def demo_variant_def checked_add_def)

lemma demo_cache_ok: "\<exists>cache. eager_capture_warm_buckets (en_resolve demo_env) 1 0 demo_program demo_arena = Inr cache"
proof -
  have "\<exists>c'. fold_r (\<lambda>key cache. bind_r (capture (en_resolve demo_env) key (gc_program cache) demo_arena)
      (\<lambda>g. Inr (cache\<lparr>gc_graphs := bt_insert key g (gc_graphs cache)\<rparr>))) ks c = Inr c'" if "gc_program c = demo_program" for ks c
    using that
  proof (induction ks arbitrary: c)
    case (Cons k ks)
    obtain g where "capture (en_resolve demo_env) k demo_program demo_arena = Inr g"
      using demo_capture [of demo_arena k] by (auto simp: demo_arena_def arena_new_def)
    then show ?case using Cons by simp
  qed simp
  from this [of "\<lparr>gc_program = demo_program, gc_graphs = [], gc_arena_generation = wa_generation demo_arena\<rparr>"] show ?thesis
    unfolding eager_capture_warm_buckets_def by (simp only: graph_cache.simps simp_thms)
qed

definition demo_cache :: "unit graph_cache" where
  "demo_cache = projr (eager_capture_warm_buckets (en_resolve demo_env) 1 0 demo_program demo_arena)"

definition demo_bws :: batch_workspace where
  "demo_bws = projr (try_with_capacity (\<lambda>_ _. True) 3 1 2048 4)"

definition demo_base :: "(unit, byte_detokenizer) scheduler" where
  "demo_base = \<lparr>sc_config = demo_sched_config, sc_state_manager = demo0, sc_arena = demo_arena, sc_batch_workspace = demo_bws,
     sc_graph_cache = demo_cache, sc_event_chain = chain_new, sc_schedule_log = ring_new 4096, sc_detokenizer = byte_new,
     sc_step_counter = 0, sc_arrival_counter = 0, sc_in_flight = None, sc_last_committed_step = None, sc_queued = [],
     sc_active = None, sc_paused = None, sc_pending_pause_report = None, sc_finished = []\<rparr>"

definition demo_sched :: "(unit, byte_detokenizer) scheduler" where
  "demo_sched = demo_base\<lparr>sc_state_manager := demo1, sc_arrival_counter := 1, sc_queued := [sequence_new demo_req 0 1]\<rparr>"

lemma demo_base_new: "scheduler_new (\<lambda>_ _. True) demo_env byte_new demo_sched_config demo0 demo_program demo_arena = Inr demo_base"
proof -
  have c: "cf_plan_id demo_sched_config = 1" "cf_rank demo_sched_config = 0" "cf_prefill_max_chunk demo_sched_config = 2048"
    by (simp_all add: demo_sched_config_def config_default_def)
  have v: "sched_config_validate demo_sched_config = Inr ()" by code_simp
  have e: "eager_capture_warm_buckets (en_resolve demo_env) 1 0 demo_program demo_arena = Inr demo_cache"
    using demo_cache_ok by (auto simp: demo_cache_def)
  have g: "length (sm_groups demo0) = 3" "max_blocks (sm_config demo0) = 4"
    by (simp_all add: demo_defs max_blocks_def)
  have w: "try_with_capacity (\<lambda>_ _. True) 3 1 2048 4 = Inr demo_bws"
    by (simp add: demo_bws_def try_with_capacity_def vec_sized_def checked_mul_def)
  show ?thesis unfolding scheduler_new_def c g v e by (simp add: w [unfolded One_nat_def] demo_base_def)
qed

lemma demo_enqueue: "enqueue_request demo_base demo_req = (Inr 0, demo_sched)"
proof -
  have "new_seq demo0 (rq_tokens demo_req) = (Inr (0, 0), demo1)"
    by (simp add: new_seq_def demo_defs demo_req_def Let_def checked_eval u32_max_def fp_take_def slot_at_def get_def)
  then show ?thesis
    by (simp add: enqueue_request_def demo_base_def demo_sched_def outstanding_count_def demo_sched_config_def config_default_def
        DEFAULT_MAX_OUTSTANDING_def checked_add_def)
qed

lemma demo_req_ok: "request_ok demo_req"
  by (simp add: request_ok_def demo_req_def)

lemma demo_counters: "counters_ok demo_base" "counters_ok demo_sched"
  by (simp_all add: counters_ok_def sm_room_def demo_sched_def demo_base_def demo_defs ring_new_def Let_def)

lemma demo_reach: "sched_reach demo_env X byte_new (demo_sched, x)"
proof (rule sched_reach.call [where c = "Enqueue demo_req"])
  show "sched_reach demo_env X byte_new (demo_base, x)"
    by (rule sched_reach.new [OF demo_base_new reachable_inv [OF demo_reachable(1)]])
qed (simp_all add: demo_counters demo_req_ok sched_apply_def demo_enqueue)

lemma demo_inv: "sched_inv bd_ok demo_sched"
  using byte.sched_reach_inv [OF demo_reach] bd_ok_new by (simp add: demo_env_def)

section \<open>The first step\<close>

lemma demo_pre: "estimate_pre_step_ms demo_budget = F32_Fin False 13421773 (-23)"
  by code_simp

lemma demo_sub: "f32_sub demo_budget f32_zero = demo_budget" "f32_sub f32_one f32_zero = f32_one"
  by (simp_all add: demo_budget_def f32_sub_zero f32_one_def f32_of_nat_def f32_round_def Let_def)

lemma demo_room: "f32_sub demo_budget (F32_Fin False 13421773 (-23)) = F32_Fin False 15099494 (-20)"
  by (simp add: f32_sub_def demo_budget_def signed_at_def f32_round_def round_shift_def Let_def)

lemma demo_room_ok: "\<not> f32_le (F32_Fin False 15099494 (-20)) f32_zero" "f32_le f32_one (F32_Fin False 15099494 (-20))"
  "\<not> f32_le demo_budget f32_zero"
  by (simp_all add: f32_le_def f32_zero_def f32_one_def f32_of_nat_def f32_round_def signed_at_def Let_def demo_budget_def)

definition demo_seq1 :: sequence where
  "demo_seq1 = (sequence_new demo_req 0 1)\<lparr>sq_phase := Prefilling 0\<rparr>"

definition demo_taken :: "(unit, byte_detokenizer) scheduler" where
  "demo_taken = demo_sched\<lparr>sc_queued := []\<rparr>"

definition demo_ad :: admission where
  "demo_ad = \<lparr>ad_chunk = 3, ad_forced = False, ad_bucket = (1, 1, 4), ad_cost_ms = f32_one, ad_next_step = 1, ad_is_decode = False,
     ad_budget_ms = demo_budget, ad_pre_step_ms = F32_Fin False 13421773 (-23)\<rparr>"

lemma demo_plan: "plan_admission demo_env demo_taken demo_seq1 demo_budget (F32_Fin False 13421773 (-23)) =
    Inr (PlanPrefill 3 False (1, 1, 4) f32_one 1)"
proof -
  have b: "bucket_step 1 1 3 = Inr (1, 1, 4)" by code_simp
  show ?thesis using b
    by (simp add: plan_admission_def prefill_room_ms_def select_prefill_chunk_def decode_cost_def demo_taken_def demo_sched_def demo_base_def
        demo_seq1_def sequence_new_def prompt_len_def demo_req_def demo_env_def demo_sched_config_def config_default_def checked_eval
        demo_sub demo_room demo_room_ok demo_budget_def [THEN arg_cong, of is_finite] Let_def)
qed

lemma demo_step_starts:
  "sched_step demo_env X demo_sched x = reserve_step demo_env X demo_taken demo_seq1 demo_ad x"
proof -
  have r: "resolve_budget_ms c (cf_step_budget_ms (sc_config demo_sched)) p = Inr demo_budget" for c p
    by (simp add: resolve_budget_ms_def validate_budget_ms_def demo_sched_def demo_base_def demo_sched_config_def demo_room_ok)
       (simp add: demo_budget_def)
  have p: "promote demo_sched = demo_taken\<lparr>sc_active := Some demo_seq1\<rparr>"
    by (simp add: promote_def demo_taken_def demo_sched_def demo_base_def demo_seq1_def)
  have i: "\<not> is_idle demo_sched" by (simp add: is_idle_def active_sequence_count_def demo_sched_def)
  have a: "demo_taken\<lparr>sc_active := None\<rparr> = demo_taken" by (simp add: demo_taken_def demo_sched_def demo_base_def)
  have ph: "sq_phase demo_seq1 = Prefilling 0" by (simp add: demo_seq1_def)
  show ?thesis using i
    by (simp add: sched_step_def r p a ph plan_step_def Let_def demo_pre demo_plan admit_step_def) (simp add: demo_ad_def)
qed

definition demo_held :: state_manager where
  "demo_held = demo1\<lparr>sm_pools := demo_pools [4, 3, 2, 1] [4, 3, 2, 1], sm_reserve_scratch := [(0, 0), (1, 0)],
     sm_seqs := [0 \<mapsto> demo_seq [[0], [0], []] 3 Map.empty]\<rparr>"

lemma demo_reserve: "reserve demo1 0 3 = (Inr \<lparr>sr_seq = 0, sr_start = 0, sr_len = 3\<rparr>, demo_held)"
  by (simp add: reserve_def reserve_checks_def sm_seq_def demo_defs demo_held_def checked_eval hard_caps div_ceil_def get_def
      missing_indices_def partition_point_def place_reserve_blocks_def place_one_block_def slot_at_def bp_alloc_def
      insert_at_def upt_conv_Cons Let_def del: upt_Suc)

lemma demo_held_inv: "sm_inv demo_held"
  using reachable_inv [OF reachable_ops(2) [OF demo_reachable(2), of 0 3]] by (simp add: demo_reserve)

lemma demo_fill: "\<exists>ws. fill_batch_meta demo_held [0] [3] None demo_bws = (None, ws)"
proof -
  have "batch_request demo_held [0] [3] None None"
    by (simp add: batch_request_def) (simp add: batch_live_def demo_held_def demo_defs hard_caps)
  moreover have "ws_fits demo_held [0] [3] None demo_bws"
    by (simp add: ws_fits_def demo_held_def demo_defs demo_bws_def try_with_capacity_def vec_sized_def checked_mul_def is_mrope_def)
  ultimately show ?thesis using fill_batch_meta_cases [OF demo_held_inv, of "[0]" "[3]" None None demo_bws]
    by (auto simp: fill_batch_meta_def)
qed

lemma demo_step_runs:
  "\<exists>ws. sched_step demo_env X demo_sched x =
     run_step demo_env X (demo_taken\<lparr>sc_state_manager := demo_held, sc_batch_workspace := ws\<rparr>) demo_seq1 demo_ad
       \<lparr>sr_seq = 0, sr_start = 0, sr_len = 3\<rparr> x"
proof -
  have sl: "slice_problem demo_seq1 demo_ad = None"
    by (simp add: slice_problem_def demo_ad_def demo_seq1_def sequence_new_def demo_req_def checked_add_def)
  have a: "reserve_n demo_ad = 3" "sq_seq_id demo_seq1 = 0"
    by (simp_all add: reserve_n_def demo_ad_def demo_seq1_def sequence_new_def)
  have t: "sc_state_manager demo_taken = demo1" "sc_batch_workspace demo_taken = demo_bws"
    by (simp_all add: demo_taken_def demo_sched_def demo_base_def)
  obtain ws where "fill_batch_meta demo_held [0] [3] None demo_bws = (None, ws)" using demo_fill by blast
  then show ?thesis by (auto simp: demo_step_starts reserve_step_def fill_step_def a t demo_reserve sl)
qed

lemma fail_step_fate [simp]: "fst (fail_step sch s e x) = Failed e"
  by (simp add: fail_step_def Let_def)

lemma demo_lost_fails: "fst (sched_step demo_env demo_lost demo_sched 0) = Failed (ExecutionFailed (DeviceFault ''device lost''))"
proof -
  let ?e = "ExecutionFailed (DeviceFault ''device lost'')"
  have up: "ex_upload_inputs demo_lost x u = (Inl ?e, x)" for x u by (simp add: demo_lost_def)
  have d: "device_phase demo_env demo_lost sch x u key = (Inl ?e, device_begin sch (si_step_id u), x)" for sch x u key
    by (simp add: device_phase_def up Let_def)
  have "fst (run_step demo_env demo_lost sch s ad r x) = Failed ?e" for sch s ad r x
    by (simp only: run_step_def Let_def d prod.case sum.case fail_step_fate)
  then show ?thesis using demo_step_runs [of demo_lost 0] by (metis)
qed

section \<open>An answered step\<close>

text \<open>The device phase succeeds when the executor answers, the graph is captured and five events can be numbered.\<close>

lemma device_phase_answers:
  assumes up: "ex_upload_inputs X x u = (Inr (), x1)"
    and cap: "get_or_capture (en_resolve env) key (sc_graph_cache sch) (arena_reset (sc_arena sch)) = (Inr (g, was_captured), cache, arena)"
    and rep: "ex_replay_graph X x1 g = (Inr (), x2)" and rd: "ex_readback_sample X x2 = (Inr sample, x3)"
    and n: "ec_event_counter (sc_event_chain sch) + 5 < 2 ^ 64"
  shows "\<exists>sch'. device_phase env X sch x u key = (Inr (sample, was_captured), sch', x3)"
proof -
  let ?c = "begin_step (sc_event_chain sch) (si_step_id u)" and ?i = "si_step_id u" and ?k = "ec_event_counter (sc_event_chain sch)"
  let ?ev = "\<lambda>st kd n a. \<lparr>er_step_id = ?i, er_stream = st, er_event_kind = kd, er_event_id = n, er_awaited_event = a\<rparr>"
  have next_event: "\<exists>c'. record_entry ?i st kd a c = (Inr (Suc n), c') \<and> ec_event_counter c' = Suc n \<and> chain_holds c' (rs @ [?ev st kd (Suc n) a])"
    if "chain_holds c rs" "length rs < 5" "ec_event_counter c = n" "n < ?k + 5" for c rs n st kd a
    using record_entry_ok [OF that(1), of ?i st kd a] that assms(5) by (simp add: MAX_EVENTS_PER_STEP_def)
  obtain c1 where c1: "record_upload_complete ?i ?c = (Inr (Suc ?k), c1)" "ec_event_counter c1 = Suc ?k"
      "chain_holds c1 [?ev Copy UploadComplete (Suc ?k) None]"
    using next_event [OF chain_holds_begin, of "sc_event_chain sch" ?i ?k Copy UploadComplete None]
    by (auto simp: record_upload_complete_def begin_step_def)
  obtain c2 where c2: "record_wait ?i Compute (Suc ?k) c1 = (Inr (Suc (Suc ?k)), c2)" "ec_event_counter c2 = Suc (Suc ?k)"
      "chain_holds c2 [?ev Copy UploadComplete (Suc ?k) None, ?ev Compute WaitUpload (Suc (Suc ?k)) (Some (Suc ?k))]"
    using next_event [OF c1(3) _ c1(2), of Compute WaitUpload "Some (Suc ?k)"] by (auto simp: record_wait_def)
  obtain c3 where c3: "record_compute_complete ?i c2 = (Inr (Suc (Suc (Suc ?k))), c3)" "ec_event_counter c3 = Suc (Suc (Suc ?k))"
      "chain_holds c3 [?ev Copy UploadComplete (Suc ?k) None, ?ev Compute WaitUpload (Suc (Suc ?k)) (Some (Suc ?k)),
         ?ev Compute ComputeComplete (Suc (Suc (Suc ?k))) None]"
    using next_event [OF c2(3) _ c2(2), of Compute ComputeComplete None] by (auto simp: record_compute_complete_def)
  obtain c4 where c4: "record_wait ?i Copy (Suc (Suc (Suc ?k))) c3 = (Inr (Suc (Suc (Suc (Suc ?k)))), c4)"
      "ec_event_counter c4 = Suc (Suc (Suc (Suc ?k)))"
      "chain_holds c4 [?ev Copy UploadComplete (Suc ?k) None, ?ev Compute WaitUpload (Suc (Suc ?k)) (Some (Suc ?k)),
         ?ev Compute ComputeComplete (Suc (Suc (Suc ?k))) None, ?ev Copy WaitCompute (Suc (Suc (Suc (Suc ?k)))) (Some (Suc (Suc (Suc ?k))))]"
    using next_event [OF c3(3) _ c3(2), of Copy WaitCompute "Some (Suc (Suc (Suc ?k)))"] by (auto simp: record_wait_def)
  obtain c5 where c5: "record_readback_complete ?i c4 = (Inr (Suc (Suc (Suc (Suc (Suc ?k))))), c5)"
      "chain_holds c5 [?ev Copy UploadComplete (Suc ?k) None, ?ev Compute WaitUpload (Suc (Suc ?k)) (Some (Suc ?k)),
         ?ev Compute ComputeComplete (Suc (Suc (Suc ?k))) None, ?ev Copy WaitCompute (Suc (Suc (Suc (Suc ?k)))) (Some (Suc (Suc (Suc ?k)))),
         ?ev Copy ReadbackComplete (Suc (Suc (Suc (Suc (Suc ?k))))) None]"
    using next_event [OF c4(3) _ c4(2), of Copy ReadbackComplete None] by (auto simp: record_readback_complete_def)
  have v: "validate_step_chain c5 ?i = Inr ()" by (simp add: validate_step_chain_iff [OF c5(2)] protocol_def)
  show ?thesis
    by (simp add: device_phase_def device_begin_def on_chain_def device_readback_def Let_def up cap rep rd c1(1) c2(1) c3(1) c4(1) c5(1) v)
qed

lemma demo_captures:
  "\<exists>g cap cache. get_or_capture (en_resolve demo_env) key demo_cache (arena_reset demo_arena) = (Inr (g, cap), cache, arena_reset demo_arena)"
proof (cases "map_of (gc_graphs demo_cache) key")
  case None
  obtain cache0 where e: "eager_capture_warm_buckets (en_resolve demo_env) 1 0 demo_program demo_arena = Inr cache0"
    using demo_cache_ok by blast
  then have "gc_program demo_cache = demo_program" unfolding demo_cache_def using eager_capture_ok(2) [OF e] by (simp only: sum.sel)
  moreover obtain g where "capture (en_resolve demo_env) key demo_program (arena_reset demo_arena) = Inr g"
    using demo_capture [of "arena_reset demo_arena" key] by (auto simp: demo_arena_def arena_new_def arena_reset_def)
  ultimately show ?thesis using None by (auto simp: get_or_capture_def)
qed (auto simp: get_or_capture_def)

lemma demo_append:
  "\<exists>s d. append_generated_token byte_ops (demo_seq1\<lparr>sq_phase := Decoding\<rparr>) 33 byte_new = (Done (None, False), s, d)
     \<and> sq_seq_id s = 0 \<and> sq_ctx_len s = 0"
proof -
  have "fst (append_generated_token byte_ops (demo_seq1\<lparr>sq_phase := Decoding\<rparr>) 33 byte_new) = Done (None, False)"
    by code_simp
  moreover have "sq_seq_id (fst (snd (append_generated_token byte_ops (demo_seq1\<lparr>sq_phase := Decoding\<rparr>) 33 byte_new))) = 0"
    "sq_ctx_len (fst (snd (append_generated_token byte_ops (demo_seq1\<lparr>sq_phase := Decoding\<rparr>) 33 byte_new))) = 0"
    by code_simp+
  ultimately show ?thesis by (metis prod.collapse)
qed

lemma demo_commit: "\<exists>m. commit demo_held 0 3 = (Inr (), m)"
proof -
  have r: "sm_room demo_held" by (simp add: sm_room_def demo_held_def demo_defs)
  have v: "sm_view demo_held 0 = Some (0, 3, None)" by (simp add: sm_view_def demo_held_def demo_defs)
  from sm.commit_open [OF demo_held_inv r v zero_less_numeral order_refl] show ?thesis by blast
qed

lemma demo_answered: "\<exists>rs sch x'. sched_step demo_env demo_exec demo_sched 0 = (Done (Some rs), sch, x')"
proof -
  let ?r = "\<lparr>sr_seq = 0, sr_start = 0, sr_len = 3\<rparr>"
  obtain ws where run: "sched_step demo_env demo_exec demo_sched 0 =
      run_step demo_env demo_exec (demo_taken\<lparr>sc_state_manager := demo_held, sc_batch_workspace := ws\<rparr>) demo_seq1 demo_ad ?r 0"
    using demo_step_runs [of demo_exec 0] by (elim exE)
  define sch0 where "sch0 = demo_taken\<lparr>sc_state_manager := demo_held, sc_batch_workspace := ws\<rparr>"
  define sch1 where "sch1 = sch0\<lparr>sc_step_counter := ad_next_step demo_ad,
      sc_in_flight := Some \<lparr>fl_step_id = ad_next_step demo_ad, fl_seq_id = sq_seq_id demo_seq1, fl_reservation = ?r\<rparr>\<rparr>"
  let ?u = "step_inputs_of sch1 demo_seq1 demo_ad ?r" and ?key = "step_key sch0 demo_ad"
  let ?sample = "\<lparr>ds_step_id = 1, ds_token = 33, ds_accept_len = 1\<rparr>"
  have f: "sc_graph_cache sch1 = demo_cache" "sc_arena sch1 = demo_arena" "sc_event_chain sch1 = chain_new"
      "sc_state_manager sch1 = demo_held" "sc_detokenizer sch1 = byte_new" "sc_schedule_log sch1 = ring_new 4096"
    by (simp_all add: sch1_def sch0_def demo_taken_def demo_sched_def demo_base_def)
  have ad: "ad_next_step demo_ad = 1" "ad_chunk demo_ad = 3" "ad_is_decode demo_ad = False" by (simp_all add: demo_ad_def)
  have s: "sq_phase demo_seq1 = Prefilling 0" "prompt_len demo_seq1 = 3" "sq_seq_id demo_seq1 = 0"
    by (simp_all add: demo_seq1_def sequence_new_def prompt_len_def demo_req_def)
  obtain g cap cache where "get_or_capture (en_resolve demo_env) ?key demo_cache (arena_reset demo_arena) =
      (Inr (g, cap), cache, arena_reset demo_arena)" using demo_captures by blast
  then have q: "get_or_capture (en_resolve demo_env) ?key (sc_graph_cache sch1) (arena_reset (sc_arena sch1)) =
      (Inr (g, cap), cache, arena_reset demo_arena)" by (simp only: f)
  have "ex_upload_inputs demo_exec 0 ?u = (Inr (), 1)" "ex_replay_graph demo_exec 1 g = (Inr (), 1)"
    "ex_readback_sample demo_exec 1 = (Inr ?sample, 1)" by (simp_all add: demo_exec_def step_inputs_of_def ad)
  from device_phase_answers [OF this(1) q this(2,3)]
  obtain sch2 where d: "device_phase demo_env demo_exec sch1 0 ?u ?key = (Inr (?sample, cap), sch2, 1)"
    by (auto simp: f chain_new_def)
  have g: "sc_state_manager sch2 = demo_held" "sc_detokenizer sch2 = byte_new" "sc_schedule_log sch2 = ring_new 4096"
    using device_phase_frame [OF d] by (simp_all add: f device_only_def same_rest_def)
  obtain s1 d1 where a: "append_generated_token byte_ops (demo_seq1\<lparr>sq_phase := Decoding\<rparr>) 33 byte_new = (Done (None, False), s1, d1)"
      "sq_seq_id s1 = 0" "sq_ctx_len s1 = 0" using demo_append by blast
  obtain m where c: "commit demo_held 0 3 = (Inr (), m)" using demo_commit by blast
  have e: "en_detok demo_env = byte_ops" by (simp add: demo_env_def)
  have push: "\<exists>r. ring_push (ring_new 4096) y = (Inr (), r)" for y :: schedule_record
    by (simp add: ring_push_def ring_new_def checked_add_def get_def)
  have log: "\<exists>rs sch x'. log_step sch' demo_ad desc cap k acc fin x = (Done (Some rs), sch, x')" if "sc_schedule_log sch' = ring_new 4096"
    for sch' :: "(unit, byte_detokenizer) scheduler" and desc k acc fin and x :: nat
    using push [of "schedule_record_of sch' demo_ad cap k"] that by (auto simp: log_step_def Let_def)
  have "\<exists>rs sch x'. post_step demo_env sch2 demo_seq1 demo_ad desc ?sample cap (1::nat) = (Done (Some rs), sch, x')" for desc
    by (simp add: post_step_def s ad checked_add_def post_prefill_last_def e g a commit_then_def c finish_step_def log)
  moreover have "is_intermediate demo_seq1 demo_ad = False" by (simp add: is_intermediate_def ad s)
  ultimately show ?thesis unfolding run run_step_def Let_def sch0_def [symmetric] sch1_def [symmetric] d
    by (simp add: ad)
qed

end
