(* ===== verification/Sched_Props.thy ===== *)
theory Sched_Props
  imports Sched_Demo
begin

text \<open>
  The properties of the scheduler: the invariant of every reachable scheduler, what a failed and what a
  completed step leave behind, admission and cancellation, and a bound on the steps a workload takes.
\<close>

section \<open>Helpers\<close>

lemma byte_inv: "sched_reach env X byte_new (sch, x) \<Longrightarrow> en_detok env = byte_ops \<Longrightarrow> sched_inv bd_ok sch"
  using byte.sched_reach_inv bd_ok_new(1) by fastforce

text \<open>The token steps a sequence may still take, and the work left in a scheduler.\<close>

definition token_bound :: "request \<Rightarrow> nat" where
  "token_bound rq = length (rq_tokens rq) + rq_max_tokens rq"

definition remaining :: "('s, 'd) scheduler \<Rightarrow> nat" where
  "remaining sch = (\<Sum>s\<leftarrow>live sch. token_bound (sq_req s) - sq_ctx_len s)"

definition work_left :: "nat \<times> request \<times> nat \<times> nat \<times> nat list \<Rightarrow> nat" where
  "work_left = (\<lambda>(_, rq, _, ctx, _). token_bound rq - ctx)"

lemma remaining_work: "remaining sch = sum_list (map work_left (map work (live sch)))"
  by (simp add: remaining_def work_left_def work_def comp_def)

lemma progress_left: "seq_progress s \<Longrightarrow> sq_ctx_len s < token_bound (sq_req s)"
  by (auto simp: seq_progress_def token_bound_def request_ok_def split: sequence_phase.splits)

lemma live_progress: "sched_inv okd sch \<Longrightarrow> s \<in> set (live sch) \<Longrightarrow> seq_progress s"
  by (simp add: sched_inv_def served_ok_def)

lemma advanced_remaining:
  assumes inv: "sched_inv okd sch" "sched_inv okd sch'" and adv: "advanced sch sch'"
  shows "remaining sch' + 1 \<le> remaining sch"
proof -
  obtain s rest n gen where l: "map work (live sch) = work s # rest" and n: "0 < n"
    and alt: "map work (live sch') = work (s\<lparr>sq_ctx_len := sq_ctx_len s + n, sq_generated := gen\<rparr>) # rest \<or> map work (live sch') = rest"
    using adv by (auto simp: advanced_def)
  obtain t where t: "t \<in> set (live sch)" "work t = work s" using l by (cases "live sch") auto
  have head: "work_left (work s) = token_bound (sq_req s) - sq_ctx_len s" "sq_ctx_len s < token_bound (sq_req s)"
    using progress_left [OF live_progress [OF inv(1) t(1)]] t(2) by (auto simp: work_left_def work_def)
  from alt show ?thesis
  proof
    assume "map work (live sch') = rest"
    then show ?thesis using l head by (simp add: remaining_work)
  next
    assume m: "map work (live sch') = work (s\<lparr>sq_ctx_len := sq_ctx_len s + n, sq_generated := gen\<rparr>) # rest"
    then obtain u where u: "u \<in> set (live sch')" "work u = work (s\<lparr>sq_ctx_len := sq_ctx_len s + n, sq_generated := gen\<rparr>)"
      by (cases "live sch'") auto
    have "sq_ctx_len s + n < token_bound (sq_req s)"
      using progress_left [OF live_progress [OF inv(2) u(1)]] u(2) by (simp add: work_def)
    then show ?thesis using l m n by (simp add: remaining_work work_left_def work_def)
  qed
qed

lemma remaining_idle: "sched_inv okd sch \<Longrightarrow> remaining sch = 0 \<longleftrightarrow> is_idle sch"
proof -
  assume inv: "sched_inv okd sch"
  have "is_idle sch \<longleftrightarrow> live sch = []"
    by (cases "sc_active sch"; cases "sc_paused sch") (auto simp: is_idle_def active_sequence_count_def live_def)
  moreover have "remaining sch = 0 \<longleftrightarrow> live sch = []"
    using progress_left [OF live_progress [OF inv]] by (cases "live sch") (fastforce simp: remaining_def)+
  ultimately show ?thesis by simp
qed

section \<open>The invariant\<close>

text \<open>
  C5. Every scheduler that enqueueing, steps, cancellation and taking results reach from construction keeps its books: the sequences it serves have
  pairwise distinct ids, each is committed in the state manager up to exactly its recorded context
  length with no open tail, its phase agrees with its prompt and its generated tokens, sequences stand in arrival
  order, at most one of the active and the paused slot is taken, queued sequences wait, every stored result
  belongs to a freed sequence and respects its token budget, no step is in flight between calls and
  the outstanding requests stay within the configured bound.
\<close>

theorem reachable_scheduler_keeps_books:
  assumes "sched_reach env X byte_new (sch, x)" and "en_detok env = byte_ops"
  shows "distinct (map sq_seq_id (live sch)) \<and>
    (\<forall>s \<in> set (live sch). sm_view (sc_state_manager sch) (sq_seq_id s) = Some (sq_ctx_len s, 0, None) \<and> seq_progress s) \<and>
    sorted_wrt (<) (map sq_arrival_order (live sch)) \<and> (sc_active sch = None \<or> sc_paused sch = None) \<and>
    (\<forall>s \<in> set (sc_queued sch). sq_phase s = Queued) \<and>
    (\<forall>q rq gs why. get_finished_result sch q = Some (rq, gs, why) \<longrightarrow>
       sm_view (sc_state_manager sch) q = None \<and> length gs \<le> rq_max_tokens rq) \<and>
    sc_in_flight sch = None \<and> outstanding_count sch \<le> cf_max_outstanding (sc_config sch)"
proof -
  have inv: "sched_inv bd_ok sch" by (rule byte_inv [OF assms])
  then have led: "sm.ledger (sc_state_manager sch) (map seq_key (live sch))" by (simp add: sched_inv_def served_ok_def)
  have "sm_view (sc_state_manager sch) (sq_seq_id s) = Some (sq_ctx_len s, 0, None)" if "s \<in> set (live sch)" for s
    by (rule sm.ledger_view [OF led]) (use that in \<open>auto simp: seq_key_def\<close>)
  then show ?thesis using inv live_ids_distinct [OF inv]
    by (auto simp: sched_inv_def served_ok_def slots_ok_def results_ok_def get_finished_result_def)
qed

theorem reachable_scheduler_keeps_books_witness:
  "distinct (map sq_seq_id (live demo_sched)) \<and> length (live demo_sched) = 1 \<and>
   sm_view (sc_state_manager demo_sched) 0 = Some (0, 0, None)"
proof -
  have e: "en_detok demo_env = byte_ops" by (simp add: demo_env_def)
  have l: "live demo_sched = [sequence_new demo_req 0 1]" by (simp add: live_def demo_sched_def demo_base_def)
  show ?thesis using reachable_scheduler_keeps_books [OF demo_reach [of demo_exec 0] e]
    by (auto simp: l sequence_new_def)
qed

section \<open>Steps\<close>

text \<open>
  C6. A step that fails, at any stage and for any executor, or that admits nothing, keeps every
  commitment: the live sequences with their requests, order, context lengths and tokens, the stored results, the
  sequences of the state manager and the schedule log are those before the step, and
  the scheduler is again in its invariant. The reserved tail of a failed step is therefore rolled back.
\<close>

theorem failed_step_keeps_everything:
  assumes "sched_reach env X byte_new (sch, x)" and "en_detok env = byte_ops" and "counters_ok sch"
    and "sched_step env X sch x = (r, sch', x')" and "r = Done None \<or> (\<exists>e. r = Failed e)"
  shows "map work (live sch') = map work (live sch) \<and> sc_finished sch' = sc_finished sch \<and>
    sm_view (sc_state_manager sch') = sm_view (sc_state_manager sch) \<and> sc_schedule_log sch' = sc_schedule_log sch \<and>
    sched_inv bd_ok sch'"
proof -
  note res = byte.sched_step_result [OF byte_inv [OF assms(1,2)] assms(3,2,4)]
  have "unchanged sch sch'" using assms(5) res(2) by blast
  moreover have "sched_inv bd_ok sch'" using res(1) assms(5) by auto
  ultimately show ?thesis by (simp add: unchanged_def)
qed

theorem failed_step_keeps_everything_witness:
  "fst (sched_step demo_env demo_lost demo_sched 0) = Failed (ExecutionFailed (DeviceFault ''device lost'')) \<and>
   map work (live (fst (snd (sched_step demo_env demo_lost demo_sched 0)))) = [(0, demo_req, 1, 0, [])] \<and>
   sm_view (sc_state_manager (fst (snd (sched_step demo_env demo_lost demo_sched 0)))) 0 = Some (0, 0, None)"
proof -
  obtain sch' x' where st: "sched_step demo_env demo_lost demo_sched 0 = (Failed (ExecutionFailed (DeviceFault ''device lost'')), sch', x')"
    using demo_lost_fails by (metis prod.collapse)
  have e: "en_detok demo_env = byte_ops" by (simp add: demo_env_def)
  have "map work (live demo_sched) = [(0, demo_req, 1, 0, [])]" "sm_view (sc_state_manager demo_sched) 0 = Some (0, 0, None)"
    by (simp_all add: live_def demo_sched_def demo_base_def work_def sequence_new_def sm_view_def demo_defs)
  then show ?thesis using failed_step_keeps_everything [OF demo_reach e demo_counters(2) st] by (simp add: st)
qed

text \<open>
  C7. A step that completes moves exactly the first sequence in service order: forward by at least one token,
  committed in the state manager, or out of it with its result stored. All other sequences and results stay,
  the step has a fresh id and its record is the newest of the schedule log.
\<close>

theorem completed_step_serves_head:
  assumes "sched_reach env X byte_new (sch, x)" and "en_detok env = byte_ops" and "counters_ok sch"
    and "sched_step env X sch x = (Done (Some rs), sch', x')"
  shows "(\<exists>s rest n gen. map work (live sch) = work s # rest \<and> 0 < n \<and>
      (map work (live sch') = work (s\<lparr>sq_ctx_len := sq_ctx_len s + n, sq_generated := gen\<rparr>) # rest \<and>
       sc_finished sch' = sc_finished sch \<and>
       sm_view (sc_state_manager sch') = (sm_view (sc_state_manager sch))(sq_seq_id s \<mapsto> (sq_ctx_len s + n, 0, None)) \<or>
       (\<exists>reason. map work (live sch') = rest \<and> sc_finished sch' = bt_insert (sq_seq_id s) (sq_req s, gen, reason) (sc_finished sch) \<and>
        sm_view (sc_state_manager sch') = (sm_view (sc_state_manager sch))(sq_seq_id s := None)))) \<and>
    sched_inv bd_ok sch' \<and> rs_step_id rs = sc_step_counter sch + 1 \<and> sc_step_counter sch' = sc_step_counter sch + 1 \<and>
    last (ring_to_vec (sc_schedule_log sch')) = rs_record rs"
proof -
  have inv: "sched_inv bd_ok sch" by (rule byte_inv [OF assms(1,2)])
  note res = byte.sched_step_result [OF inv assms(3,2,4)]
  have adv: "advanced sch sch'" and ids: "rs_step_id rs = sc_step_counter sch + 1" "sc_step_counter sch' = sc_step_counter sch + 1"
    and push: "ring_push (sc_schedule_log sch) (rs_record rs) = (Inr (), sc_schedule_log sch')"
    using res(3) by blast+
  obtain h where h: "ring_logs (sc_schedule_log sch) h" using inv by (auto simp: sched_inv_def)
  then have "length h + 1 < 2 ^ 64" using assms(3) by (simp add: counters_ok_def ring_logs_def)
  from ring.push_last [OF h this] push have l: "last (ring_to_vec (sc_schedule_log sch')) = rs_record rs" by (metis snd_conv)
  have "sched_inv bd_ok sch'" using res(1) by auto
  with adv ids l show ?thesis unfolding advanced_def by blast
qed

theorem completed_step_serves_head_witness:
  "\<exists>rs sch' x'. sched_step demo_env demo_exec demo_sched 0 = (Done (Some rs), sch', x') \<and> rs_step_id rs = 1 \<and>
     sched_inv bd_ok sch' \<and> last (ring_to_vec (sc_schedule_log sch')) = rs_record rs"
proof -
  obtain rs sch' x' where st: "sched_step demo_env demo_exec demo_sched 0 = (Done (Some rs), sch', x')" using demo_answered by blast
  have e: "en_detok demo_env = byte_ops" by (simp add: demo_env_def)
  have "sc_step_counter demo_sched = 0" by (simp add: demo_sched_def demo_base_def)
  then show ?thesis using completed_step_serves_head [OF demo_reach e demo_counters(2) st] st by auto
qed

section \<open>Admission and cancellation\<close>

text \<open>
  Admission is all or nothing: a refused request leaves the whole scheduler as it was; an
  accepted one was below the bound on outstanding requests and stands last in service order under an id that no live
  sequence and no stored result has, untouched and in the state manager with an empty context.
\<close>

theorem enqueue_all_or_nothing:
  assumes "sched_reach env X byte_new (sch, x)" and "en_detok env = byte_ops"
    and "request_new_with_seed rid ts smp mt stop str seed = Inr req" and "enqueue_request sch req = (r, sch')"
  shows "(\<forall>e. r = Inl e \<longrightarrow> sch' = sch) \<and>
    (\<forall>q. r = Inr q \<longrightarrow> outstanding_count sch < cf_max_outstanding (sc_config sch) \<and>
       q \<notin> sq_seq_id ` set (live sch) \<and> get_finished_result sch q = None \<and>
       live sch' = live sch @ [sequence_new req q (sc_arrival_counter sch + 1)] \<and> sc_finished sch' = sc_finished sch \<and>
       sm_view (sc_state_manager sch') q = Some (0, 0, None))"
proof -
  note e = enqueue_ok [OF byte_inv [OF assms(1,2)] request_new_ok(1) [OF assms(3)] assms(4)]
  have "sm_view (sc_state_manager sch') q = Some (0, 0, None)" if "r = Inr q" for q
  proof -
    have "sm.ledger (sc_state_manager sch') (map seq_key (live sch'))" using e(1) by (simp add: sched_inv_def served_ok_def)
    moreover have "(q, 0) \<in> set (map seq_key (live sch'))" using e(3) [OF that] by (simp add: seq_key_def sequence_new_def)
    ultimately show ?thesis by (rule sm.ledger_view)
  qed
  then show ?thesis using e(2,3) by (auto simp: get_finished_result_def)
qed

theorem enqueue_all_or_nothing_witness:
  "enqueue_request demo_base demo_req = (Inr 0, demo_sched) \<and> live demo_sched = [sequence_new demo_req 0 1] \<and>
   sm_view (sc_state_manager demo_sched) 0 = Some (0, 0, None)"
proof -
  have e: "en_detok demo_env = byte_ops" by (simp add: demo_env_def)
  have r: "sched_reach demo_env demo_exec byte_new (demo_base, 0)"
    by (rule sched_reach.new [OF demo_base_new reachable_inv [OF demo_reachable(1)]])
  have q: "request_new_with_seed 7 [7, 8, 9] demo_sampling 2 stop_default False 7 = Inr demo_req" by code_simp
  show ?thesis using enqueue_all_or_nothing [OF r e q demo_enqueue] demo_enqueue by (simp add: live_def demo_base_def)
qed

text \<open>
  Cancellation by sequence id is exact and never fails: an id that is not live leaves the
  scheduler as it was and answers false; a live one, wherever it waits, leaves the service order, keeps the tokens
  generated so far in a result marked cancelled, and is freed in the state manager. Every other sequence keeps its place.
\<close>

theorem cancel_is_exact:
  assumes "sched_reach env X byte_new (sch, x)" and "en_detok env = byte_ops"
  shows "if q \<in> sq_seq_id ` set (live sch)
    then \<exists>s sch'. s \<in> set (live sch) \<and> sq_seq_id s = q \<and> cancel_sequence env sch q = (Inr True, sch') \<and>
      live sch' = filter (\<lambda>t. sq_seq_id t \<noteq> q) (live sch) \<and>
      sc_finished sch' = bt_insert q (sq_req s, sq_generated s, Cancelled) (sc_finished sch) \<and>
      sm_view (sc_state_manager sch') = (sm_view (sc_state_manager sch))(q := None) \<and> sched_inv bd_ok sch'
    else cancel_sequence env sch q = (Inr False, sch)"
proof -
  have reset: "\<And>d q. bd_ok d \<Longrightarrow> bd_ok (dt_reset (en_detok env) d q)" using byte.reset_ok assms(2) by simp
  show ?thesis using cancel_sequence_ok [OF byte_inv [OF assms] reset, of q] by (auto simp: cancelled_def)
qed

theorem cancel_is_exact_witness:
  "\<exists>sch'. cancel_sequence demo_env demo_sched 0 = (Inr True, sch') \<and> live sch' = [] \<and>
     get_finished_result sch' 0 = Some (demo_req, [], Cancelled)"
proof -
  have e: "en_detok demo_env = byte_ops" by (simp add: demo_env_def)
  have l: "live demo_sched = [sequence_new demo_req 0 1]" "sc_finished demo_sched = []"
    by (simp_all add: live_def demo_sched_def demo_base_def)
  show ?thesis using cancel_is_exact [OF demo_reach [of demo_exec 0] e, of 0]
    by (auto simp: l sequence_new_def get_finished_result_def)
qed

section \<open>Termination\<close>

text \<open>A run of completed steps, each started with room in the counters.\<close>

fun completed_steps :: "('s, 'd) sched_env \<Rightarrow> 'x step_executor \<Rightarrow> nat \<Rightarrow> ('s, 'd) scheduler \<Rightarrow> 'x \<Rightarrow> (('s, 'd) scheduler \<times> 'x) option" where
  "completed_steps env X 0 sch x = Some (sch, x)"
| "completed_steps env X (Suc n) sch x =
     (if counters_ok sch
      then (case sched_step env X sch x of
              (Done (Some rs), sch', x') \<Rightarrow> completed_steps env X n sch' x'
            | _ \<Rightarrow> None)
      else None)"

lemma completed_steps_bound:
  assumes "sched_inv bd_ok sch" and "en_detok env = byte_ops" and "completed_steps env X n sch x = Some (sch', x')"
  shows "n + remaining sch' \<le> remaining sch \<and> sched_inv bd_ok sch'"
  using assms(1,3)
proof (induction n arbitrary: sch x)
  case (Suc n)
  obtain rs sch1 x1 where c: "counters_ok sch" and st: "sched_step env X sch x = (Done (Some rs), sch1, x1)"
    and rest: "completed_steps env X n sch1 x1 = Some (sch', x')"
    using Suc.prems(2) by (auto split: if_splits prod.splits fate.splits option.splits)
  note res = byte.sched_step_result [OF Suc.prems(1) c assms(2) st]
  have i: "sched_inv bd_ok sch1" using res(1) by auto
  have "remaining sch1 + 1 \<le> remaining sch" by (rule advanced_remaining [OF Suc.prems(1) i]) (use res(3) in blast)
  with Suc.IH [OF i rest] show ?case by linarith
qed simp

text \<open>
  C9. Service ends: from any reachable scheduler at most as many steps can complete as the live requests
  have prompt tokens and token budget left beyond their committed contexts, and nothing is left exactly when
  the scheduler is idle. So a scheduler whose steps complete becomes idle after at most that many of them.
\<close>

theorem service_terminates:
  assumes "sched_reach env X byte_new (sch, x)" and "en_detok env = byte_ops" and "completed_steps env X n sch x = Some (sch', x')"
  shows "n + remaining sch' \<le> remaining sch \<and> (remaining sch' = 0 \<longleftrightarrow> is_idle sch') \<and> (n = remaining sch \<longrightarrow> is_idle sch')"
  using completed_steps_bound [OF byte_inv [OF assms(1,2)] assms(2,3)] remaining_idle by fastforce

theorem service_terminates_witness:
  "remaining demo_sched = 5 \<and> (\<exists>sch' x'. completed_steps demo_env demo_exec 1 demo_sched 0 = Some (sch', x') \<and> remaining sch' \<le> 4)"
proof -
  have e: "en_detok demo_env = byte_ops" by (simp add: demo_env_def)
  have r: "remaining demo_sched = 5"
    by (simp add: remaining_def live_def demo_sched_def demo_base_def sequence_new_def token_bound_def demo_req_def)
  obtain rs sch' x' where st: "sched_step demo_env demo_exec demo_sched 0 = (Done (Some rs), sch', x')" using demo_answered by blast
  have c: "completed_steps demo_env demo_exec 1 demo_sched 0 = Some (sch', x')"
    using st demo_counters(2) by (simp add: One_nat_def)
  with r service_terminates [OF demo_reach e c] show ?thesis by auto
qed

end
