(* ===== verification/Sched_Text_Props.thy ===== *)
theory Sched_Text_Props
  imports Sched_Demo
begin

text \<open>
  The properties of the text side of the scheduler (stop decisions, the detokenizer), of its step log,
  of its captured graphs and of the choice of prefill chunks.
\<close>

section \<open>A concrete generation\<close>

text \<open>A request that stops at a hash sign, after \<open>n\<close> generated letters, and inside a three-byte character.\<close>

definition hash_req :: request where
  "hash_req = demo_req\<lparr>rq_max_tokens := 200, rq_stop := stop_new {} [[35]]\<rparr>"

definition letters :: "nat \<Rightarrow> sequence" where
  "letters n = (sequence_new hash_req 0 1)\<lparr>sq_generated := replicate n 97, sq_detokenized_tail := replicate n 97,
     sq_token_byte_spans := map (\<lambda>k. (k, k, k + 1)) [0..<n]\<rparr>"

definition letters_d :: "nat \<Rightarrow> byte_detokenizer" where
  "letters_d n = (if n = 0 then byte_new else byte_new\<lparr>bd_active_seq := Some 0\<rparr>)"

definition in_char :: "nat list \<Rightarrow> sequence" where
  "in_char bs = (letters 126)\<lparr>sq_generated := replicate 126 97 @ bs, sq_pending_utf8_start := Some (126, 126)\<rparr>"

definition in_char_d :: "nat list \<Rightarrow> byte_detokenizer" where
  "in_char_d bs = \<lparr>bd_active_seq = Some 0, bd_buf = bs @ replicate (4 - length bs) 0, bd_buf_len = length bs, bd_expected_len = 3\<rparr>"

lemma hash_stop [simp]:
  "rq_max_tokens hash_req = 200" "rq_stop hash_req = stop_new {} [[35]]" "st_max_stop_len (stop_new {} [[35]]) = 1"
  "st_stop_strings (stop_new {} [[35]]) = [[35]]" "is_eos (stop_new {} [[35]]) t = False"
  by (simp_all add: hash_req_def stop_new_def is_eos_def)

lemma no_hash: "35 \<notin> set t \<Longrightarrow> check_stop_string (stop_new {} [[35]]) t = None"
proof -
  assume "35 \<notin> set t"
  then have "\<not> occurs [35] t i" for i by (auto simp: occurs_def take_Suc hd_drop_conv_nth Suc_le_eq dest: nth_mem)
  then show ?thesis by (simp add: check_stop_string_def str_find_None [THEN iffD2])
qed

lemma replicate_numeral_2: "replicate 2 x = [x, x]"
  by (simp add: numeral_2_eq_2)

lemma letters_append:
  "n < 128 \<Longrightarrow> append_generated_token byte_ops (letters n) 97 (letters_d n) = (Done (None, False), letters (Suc n), letters_d (Suc n))"
  by (simp add: append_generated_token_def letters_def letters_d_def byte_ops_def byte_append_token_def sequence_new_def checked_eval
      push_token_def evaluate_stop_def byte_buffered_len_def no_hash bound_tail_def Let_def replicate_append_same byte_new_def
      del: replicate_Suc upt_Suc)
     (simp add: replicate_append_same)

lemma in_char_append:
  "append_generated_token byte_ops (letters 126) 226 (letters_d 126) = (Done (None, False), in_char [226], in_char_d [226])"
  "append_generated_token byte_ops (in_char [226]) 130 (in_char_d [226]) = (Done (None, False), in_char [226, 130], in_char_d [226, 130])"
  by (simp_all add: append_generated_token_def letters_def letters_d_def byte_ops_def byte_append_token_def sequence_new_def checked_eval
      push_token_def evaluate_stop_def byte_buffered_len_def in_char_def in_char_d_def start_char_def Let_def byte_new_def continuation_def
      numeral_3_eq_3 replicate_numeral_2)

lemma letters_generating: "n \<le> 126 \<Longrightarrow> generating hash_req 0 (letters n) (letters_d n)"
proof (induction n)
  case 0
  have "letters 0 = sequence_new hash_req 0 1" "letters_d 0 = byte_new" by (simp_all add: letters_def letters_d_def sequence_new_def)
  then show ?case using generating.start [OF bd_ok_new, of hash_req 0 1] by simp
next
  case (Suc n)
  then show ?case using generating.token [OF _ letters_append] by simp
qed

lemma in_char_generating: "generating hash_req 0 (in_char [226, 130]) (in_char_d [226, 130])"
  by (rule generating.token [OF generating.token [OF letters_generating in_char_append(1)] in_char_append(2)]) simp

lemma hash_stop_ok: "stop_ok (rq_stop hash_req)"
  using stop_new_ok [of "[[35]]"] utf8_valid_char_append [of "[35]" "[]"] by (simp add: utf8_char_single)

lemma euro_valid: "utf8_valid [226, 130, 172]" "utf8_valid (replicate n 97 @ [226, 130, 172])"
proof -
  show e: "utf8_valid [226, 130, 172]"
    using utf8_valid_char_append [of "[226, 130, 172]" "[]"] by (simp add: utf8_char_def continuation_def)
  show "utf8_valid (replicate n 97 @ [226, 130, 172])"
    by (induction n) (use e utf8_valid_char_append [of "[97]"] in \<open>simp_all add: utf8_char_single\<close>)
qed

section \<open>Stop decisions\<close>

text \<open>
  C8. Every decision on an appended token is the one a reference takes from scratch on all generated tokens: the
  budget first, then an unfinished character, then an end token, then the earliest stop string in the whole
  decoded text, with the tokens cut at its first byte. The bounded tail, the incremental detokenizer
  and the recorded token spans therefore lose no match.
\<close>

theorem incremental_stop_matches_reference:
  assumes "generating rq q s d" and "stop_ok (rq_stop rq)"
    and "append_generated_token byte_ops s tok d = (Done (fin, trimmed), s', d')"
  shows "(fin, sq_generated s') = batch_finish rq (sq_generated s @ [tok]) \<and> (trimmed \<longleftrightarrow> (\<exists>t. fin = Some (StopString t)))"
  using append_generating(1) [OF assms(1,2,3)] by blast

theorem incremental_stop_matches_reference_witness:
  "append_generated_token byte_ops (letters 3) 97 (letters_d 3) = (Done (None, False), letters 4, letters_d 4) \<and>
   batch_finish hash_req (replicate 4 97) = (None, replicate 4 97)"
proof -
  have a: "append_generated_token byte_ops (letters 3) 97 (letters_d 3) = (Done (None, False), letters 4, letters_d 4)"
    using letters_append [of 3] by simp
  have g: "sq_generated (letters 3) @ [97] = replicate 4 97" "sq_generated (letters 4) = replicate 4 97"
    by (simp_all add: letters_def numeral_eq_Suc)
  show ?thesis using incremental_stop_matches_reference [OF letters_generating hash_stop_ok a] a g by simp
qed

text \<open>
  Appending a token panics exactly when the token is accepted and completes a character, nothing stops the
  generation, the kept tail has outgrown its bound and its last \<open>max_stop_len\<close> bytes contain no
  start of a character: the bound then falls inside the last character and \<open>drain\<close> is called off a boundary.
\<close>

theorem append_panics_iff:
  assumes "generating rq q s d" and "stop_ok (rq_stop rq)"
  shows "(\<exists>w. fst (append_generated_token byte_ops s tok d) = Panicked w) \<longleftrightarrow>
    (\<exists>n d1 tl. byte_append_token d q tok (sq_detokenized_tail s) = (Inr n, d1, tl) \<and>
      batch_finish rq (sq_generated s @ [tok]) = (None, sq_generated s @ [tok]) \<and>
      whole_chars (sq_generated s @ [tok]) = sq_generated s @ [tok] \<and>
      drains_inside_char (rq_stop rq) (length tl) (sq_generated s @ [tok]) \<and> length (sq_generated s) + 1 < 2 ^ 64)"
proof -
  obtain f s' d' where a: "append_generated_token byte_ops s tok d = (f, s', d')" by (cases "append_generated_token byte_ops s tok d")
  show ?thesis using append_generating(2) [OF assms a] by (simp add: a)
qed

theorem append_panics_iff_witness:
  "\<exists>w. fst (append_generated_token byte_ops (in_char [226, 130]) 172 (in_char_d [226, 130])) = Panicked w"
proof -
  let ?gs = "replicate 126 97 @ [226, 130, 172]"
  have g: "sq_generated (in_char [226, 130]) @ [172] = ?gs" "sq_detokenized_tail (in_char [226, 130]) = replicate 126 97"
    by (simp_all add: in_char_def letters_def)
  have b: "byte_append_token (in_char_d [226, 130]) 0 172 (replicate 126 97) =
      (Inr 3, \<lparr>bd_active_seq = Some 0, bd_buf = [226, 130, 172, 0], bd_buf_len = 0, bd_expected_len = 0\<rparr>, ?gs)"
    using euro_valid(1) by (simp add: byte_append_token_def in_char_d_def continuation_def replicate_numeral_2 Let_def numeral_3_eq_3)
  have w: "whole_chars ?gs = ?gs" using whole_chars_append [OF euro_valid(2), of 126 "[]"] by (simp add: whole_chars.simps)
  have f: "batch_finish hash_req ?gs = (None, ?gs)" by (simp add: batch_finish_def w no_hash Let_def)
  have c: "continuation (?gs ! 128)" by (simp add: nth_append continuation_def)
  have dr: "drains_inside_char (rq_stop hash_req) 129 ?gs"
  proof -
    have "continuation (?gs ! j)" if "j < 129" "128 \<le> j" for j
    proof -
      have "j = 128" using that by simp
      then show ?thesis using c by simp
    qed
    then show ?thesis by (simp add: drains_inside_char_def tail_keep_def checked_mul_def char_boundary_def)
  qed
  show ?thesis
    by (rule append_panics_iff [OF in_char_generating hash_stop_ok, THEN iffD2])
       (rule exI, rule exI, rule exI, unfold g, rule conjI [OF b], use f w dr in \<open>simp add: in_char_def\<close>)
qed

section \<open>Detokenized text\<close>

text \<open>The bytes of one character, fed to an empty buffer, come out as that character.\<close>

definition between_chars :: "byte_detokenizer \<Rightarrow> nat \<Rightarrow> bool" where
  "between_chars d q \<longleftrightarrow> length (bd_buf d) = 4 \<and> (bd_active_seq d = Some q \<longrightarrow> bd_buf_len d = 0)"

lemma detokenize_char:
  assumes c: "utf8_char c" and d: "between_chars d q" and fit: "tot + length c < 2 ^ 64"
  shows "\<exists>d'. between_chars d' q \<and> detokenize_from byte_ops d q (c @ ts) out tot = detokenize_from byte_ops d' q ts (out @ c) (tot + length c)"
proof -
  have "length (bd_buf d) = 4" using d by (simp add: between_chars_def)
  then obtain x0 x1 x2 x3 where buf: "bd_buf d = [x0, x1, x2, x3]" by (auto simp: numeral_eq_Suc length_Suc_conv)
  have v: "utf8_valid c" using utf8_valid_char_append [OF c, of "[]"] by simp
  have n: "bd_active_seq d = Some q \<Longrightarrow> bd_buf_len d = 0" using d by (simp add: between_chars_def)
  have same: "A y \<Longrightarrow> B y \<Longrightarrow> \<exists>d'. A d' \<and> B d' \<and> f y = f d'" for A B f and y :: byte_detokenizer by blast
  from c show ?thesis
    by (cases rule: utf8_char_cases)
       (use fit v n in \<open>simp_all add: byte_ops_def byte_append_token_def start_char_def buf Let_def checked_add_def between_chars_def continuation_def\<close>,
        (intro conjI impI; rule same; simp add: buf)+)
qed

lemma detokenize_text:
  assumes "utf8_valid ts" and "between_chars d q" and "tot + length ts < 2 ^ 64"
  shows "\<exists>d'. between_chars d' q \<and> detokenize_from byte_ops d q ts out tot = (Inr (tot + length ts), d', out @ ts)"
  using assms
proof (induction arbitrary: d out tot rule: utf8_induct)
  case (char c t)
  have "tot + length c < 2 ^ 64" using char.prems(2) by simp
  from detokenize_char [OF char(1) char.prems(1) this, of t out]
  obtain d1 where "between_chars d1 q" and e: "detokenize_from byte_ops d q (c @ t) out tot = detokenize_from byte_ops d1 q t (out @ c) (tot + length c)"
    by blast
  then show ?case using char.IH [of d1 "tot + length c" "out @ c"] char.prems(2) by (simp add: e add.assoc)
qed simp

text \<open>
  Text stays text: whatever tokens the byte detokenizer is fed, accepted or refused, the output it appended to remains
  well-formed UTF-8, the reported byte count is the growth of the output, and its
  buffer again holds a proper prefix of one character.
\<close>

theorem detokenized_output_is_text:
  assumes "bd_ok d" and "utf8_valid out" and "detokenize_to byte_ops d q ts out = (r, d', out')"
  shows "utf8_valid out' \<and> bd_ok d' \<and> (\<forall>n. r = Inr n \<longrightarrow> length out' = length out + n)"
  using byte.detokenize_from_valid [OF assms(1,2) assms(3) [unfolded detokenize_to_def]] by auto

theorem detokenized_output_is_text_witness:
  "utf8_valid (snd (snd (detokenize_to byte_ops byte_new 0 [226, 130, 65, 97] [97])))"
proof -
  obtain r d' out' where e: "detokenize_to byte_ops byte_new 0 [226, 130, 65, 97] [97] = (r, d', out')"
    by (cases "detokenize_to byte_ops byte_new 0 [226, 130, 65, 97] [97]")
  have v: "utf8_valid [97]" using utf8_valid_char_append [of "[97]" "[]"] by (simp add: utf8_char_single)
  show ?thesis using detokenized_output_is_text [OF bd_ok_new(1) v e] by (simp add: e)
qed

text \<open>
  Detokenizing inverts encoding: well-formed UTF-8 fed byte by byte to a new detokenizer
  comes out unchanged, and every accepted token stream is its text followed by the bytes still buffered.
\<close>

theorem detokenize_round_trip:
  "(utf8_valid ts \<and> length ts < 2 ^ 64 \<longrightarrow> fst (detokenize byte_ops byte_new q ts) = Inr ts) \<and>
   (\<forall>u. fst (detokenize byte_ops byte_new q ts) = Inr u \<longrightarrow>
      utf8_valid u \<and> u @ byte_pending (snd (detokenize byte_ops byte_new q ts)) q = ts)"
proof -
  obtain r d' out' where e: "detokenize_from byte_ops byte_new q ts [] 0 = (r, d', out')"
    by (cases "detokenize_from byte_ops byte_new q ts [] 0")
  have b: "between_chars byte_new q" by (simp add: between_chars_def byte_new_def)
  have "fst (detokenize byte_ops byte_new q ts) = Inr ts" if "utf8_valid ts" "length ts < 2 ^ 64"
  proof -
    have "0 + length ts < 2 ^ 64" using that by simp
    from detokenize_text [OF that(1) b this, of "[]"] show ?thesis by (auto simp: detokenize_def detokenize_to_def)
  qed
  moreover have "utf8_valid u \<and> u @ byte_pending (snd (detokenize byte_ops byte_new q ts)) q = ts"
    if t: "fst (detokenize byte_ops byte_new q ts) = Inr u" for u
  proof -
    have r: "detokenize byte_ops byte_new q ts = (Inr u, d')" "out' = u" "\<exists>n. r = Inr n"
      using t e by (cases r; simp add: detokenize_def detokenize_to_def)+
    then obtain n where n: "detokenize_from byte_ops byte_new q ts [] 0 = (Inr n, d', u)" using e by auto
    show ?thesis using byte_detokenize_from(1) [OF bd_ok_new(1) n] byte.detokenize_from_valid [OF bd_ok_new(1) utf8_valid_Nil n] bd_ok_new(2)
      by (simp add: r(1))
  qed
  ultimately show ?thesis by blast
qed

theorem detokenize_round_trip_witness: "fst (detokenize byte_ops byte_new 0 [226, 130, 172]) = Inr [226, 130, 172]"
  using detokenize_round_trip [of "[226, 130, 172]" 0] euro_valid(1) by simp

section \<open>The schedule log\<close>

lemma ring_new_capacity: "0 < cap \<Longrightarrow> lr_capacity (ring_new cap) = cap"
  by (simp add: ring_new_def)

text \<open>
  C10. The ring refines a history: after any pushes to a new ring its contents are the last \<open>capacity\<close>
  records pushed, in order.
\<close>

theorem log_ring_refines_history:
  assumes "0 < cap" and "length xs < 2 ^ 64"
  shows "ring_to_vec (foldl (\<lambda>l x. snd (ring_push l x)) (ring_new cap) xs) = last_n cap xs"
  using ring.pushes_contents [OF ring_logs_new, of xs cap] assms by (simp add: ring_new_capacity)

theorem log_ring_refines_history_witness:
  "ring_to_vec (foldl (\<lambda>l x. snd (ring_push l x)) (ring_new 2) [1::nat, 2, 3]) = [2, 3]"
  using log_ring_refines_history [of 2 "[1::nat, 2, 3]"] by (simp add: last_n_def)

section \<open>Captured graphs\<close>

text \<open>
  The workspaces of a captured graph never collide: every launch has an offset, offsets of launches that need
  workspace are aligned to 256 bytes, ascend without overlap and stay inside the arena the graph was captured on.
\<close>

theorem captured_workspaces_disjoint:
  assumes "capture resolve key program arena = Inr g"
  shows "length (cg_workspace_offsets g) = length (cg_launches g) \<and> cg_launches g \<noteq> [] \<and>
    (\<forall>i < length (cg_launches g). 0 < le_workspace_bytes (cg_launches g ! i) \<longrightarrow>
       256 dvd cg_workspace_offsets g ! i \<and>
       cg_workspace_offsets g ! i + le_workspace_bytes (cg_launches g ! i) \<le> wa_capacity_bytes arena) \<and>
    (\<forall>i j. i < j \<longrightarrow> j < length (cg_launches g) \<longrightarrow> 0 < le_workspace_bytes (cg_launches g ! i) \<longrightarrow>
       0 < le_workspace_bytes (cg_launches g ! j) \<longrightarrow>
       cg_workspace_offsets g ! i + le_workspace_bytes (cg_launches g ! i) \<le> cg_workspace_offsets g ! j)"
proof -
  obtain st where st: "capture_launches resolve key program = Inr st" "cs_current st \<le> wa_capacity_bytes arena"
    and g: "cg_launches g = cs_launches st" "cg_workspace_offsets g = cs_offsets st"
    using assms by (auto simp: capture_Inr)
  let ?o = "cs_offsets st" and ?l = "cs_launches st"
  have l: "length ?o = length ?l" "sorted_wrt apart (zip ?o ?l)" "\<forall>x \<in> set (zip ?o ?l). within (cs_current st) x" "?l \<noteq> []"
    using capture_launches_laid_out [OF st(1)] by (simp_all add: laid_out_def)
  have "within (cs_current st) (?o ! i, ?l ! i)" if "i < length ?l" for i
    using l(1,3) that nth_mem [of i "zip ?o ?l"] by simp
  moreover have "apart (?o ! i, ?l ! i) (?o ! j, ?l ! j)" if "i < j" "j < length ?l" for i j
    using sorted_wrt_nth_less [OF l(2), of i j] l(1) that by simp
  ultimately show ?thesis using l(1,4) st(2) unfolding g by (fastforce simp: within_def apart_def)
qed

theorem captured_workspaces_disjoint_witness:
  "\<exists>g. capture (en_resolve demo_env) (StepGraphKey 1 0 1 1 4 0) demo_program demo_arena = Inr g \<and>
     length (cg_workspace_offsets g) = length (cg_launches g)"
proof -
  obtain g where g: "capture (en_resolve demo_env) (StepGraphKey 1 0 1 1 4 0) demo_program demo_arena = Inr g"
    using demo_capture [of demo_arena] by (auto simp: demo_arena_def arena_new_def)
  then show ?thesis using captured_workspaces_disjoint [OF g] by blast
qed

section \<open>Prefill chunks\<close>

text \<open>
  The admitted prefill chunk is the best that fits the room: a prompt rest below the minimum is
  taken whole when the minimum fits, otherwise the chunk is the largest bucket size within the limits whose added cost fits;
  nothing is admitted only when no candidate fits.
\<close>

theorem prefill_chunk_is_largest:
  assumes "select_prefill_chunk cost_ms n s d room lo hi = Inr choice" and "decode_cost cost_ms s d = Inr dc"
    and "is_finite room" and "\<not> f32_le room f32_zero" and "0 < n" and "s + 1 < 2 ^ 32"
  shows "if n < lo then choice = (if chunk_fits cost_ms (s + 1) d dc room lo then Some n else None)
    else case choice of
      None \<Rightarrow> \<forall>c \<in> set BUCKET_SIZES. lo \<le> c \<and> c \<le> hi \<and> c \<le> n \<longrightarrow> \<not> chunk_fits cost_ms (s + 1) d dc room c
    | Some b \<Rightarrow> b \<in> set BUCKET_SIZES \<and> lo \<le> b \<and> b \<le> hi \<and> b \<le> n \<and> chunk_fits cost_ms (s + 1) d dc room b \<and>
        (\<forall>c \<in> set BUCKET_SIZES. b < c \<and> lo \<le> c \<and> c \<le> hi \<and> c \<le> n \<longrightarrow> \<not> chunk_fits cost_ms (s + 1) d dc room c)"
proof (cases "n < lo")
  case True
  then show ?thesis using assms by (auto simp: select_prefill_chunk_def bind_r_eq_Inr chunk_fits_def checked_add_def split: if_splits)
next
  case False
  then have b: "select_bucket cost_ms n s d room lo hi dc (rev BUCKET_SIZES) = Inr choice"
    using assms by (simp add: select_prefill_chunk_def)
  show ?thesis
  proof (cases choice)
    case None
    then show ?thesis using select_bucket_None [OF b [unfolded None] assms(6)] False by (simp add: rev_buckets(2))
  next
    case (Some c)
    then show ?thesis using select_bucket_Some [OF b [unfolded Some] rev_buckets(1) assms(6)] False by (simp add: rev_buckets(2))
  qed
qed

theorem prefill_chunk_is_largest_witness:
  "select_prefill_chunk (\<lambda>_ _ p. Inr (if p \<le> 32 then f32_one else f32_of_nat 20)) 100 0 0 demo_budget 16 512 = Inr (Some 32) \<and>
   \<not> chunk_fits (\<lambda>_ _ p. Inr (if p \<le> 32 then f32_one else f32_of_nat 20)) 1 0 f32_zero demo_budget 64"
proof -
  let ?c = "\<lambda>_ _ p. Inr (if p \<le> 32 then f32_one else f32_of_nat 20)"
  have twenty: "f32_sub (f32_of_nat 20) f32_zero = f32_of_nat 20" "\<not> f32_le (f32_of_nat 20) demo_budget" "f32_le f32_one demo_budget"
    by (simp_all add: f32_sub_zero f32_of_nat_def f32_one_def f32_round_def Let_def f32_le_def demo_budget_def signed_at_def)
  have c: "select_prefill_chunk ?c 100 0 0 demo_budget 16 512 = Inr (Some 32)"
    by (simp add: select_prefill_chunk_def demo_room_ok decode_cost_def BUCKET_SIZES_def checked_add_def demo_sub twenty
        demo_budget_def [THEN arg_cong, of is_finite])
  have d: "decode_cost ?c 0 0 = Inr f32_zero" by (simp add: decode_cost_def)
  have f: "is_finite demo_budget" by (simp add: demo_budget_def)
  show ?thesis using prefill_chunk_is_largest [OF c d f demo_room_ok(3)] c by (simp add: BUCKET_SIZES_def)
qed

end
