(* ===== verification/Ir_Tensor.thy ===== *)
theory Ir_Tensor
  imports Step_Bucket
begin

text \<open>
  The tensors of the operator IR: \<open>DType\<close> (\<open>crates/r9v-ir/src/dtype.rs\<close>), \<open>QuantScheme\<close>
  (\<open>quant.rs\<close>), \<open>LayoutId\<close> (\<open>layout.rs\<close>) and \<open>Tensor\<close> with its dimensions, placement, sharding
  and class (\<open>tensor.rs\<close>), and the variants of \<open>IrError\<close> that the graph and its operators report.
  Reasons the source renders with \<open>format!\<close> are structured values. \<open>Tensor::new\<close> is shown to accept
  exactly the well-formed tensors, and to accept every view the graph builds of one.
\<close>

section \<open>Data\<close>

datatype dtype = F32 | F16 | Bf16 | E4m3 | E5m2 | I8 | I4 | I32 | U32 | Bool

datatype quant_scheme = QuantNone | PerRow | Scheme nat | PerToken | PerBlock32

definition scale_dtype :: "quant_scheme \<Rightarrow> dtype option" where
  "scale_dtype q = (case q of QuantNone \<Rightarrow> None | Scheme _ \<Rightarrow> None | PerRow \<Rightarrow> Some F16 | PerToken \<Rightarrow> Some F32 | PerBlock32 \<Rightarrow> Some F32)"

type_synonym layout_id = nat

definition CONTIGUOUS :: layout_id where "CONTIGUOUS = 0"
definition L0 :: layout_id where "L0 = 1"
definition L1 :: layout_id where "L1 = 2"
definition L1S :: layout_id where "L1S = 3"
definition ATTENTION_GFX1201 :: layout_id where "ATTENTION_GFX1201 = 4"

datatype shape_symbol = Sym_T | Sym_S | Sym_Dm | Sym_Dff | Sym_H | Sym_Hkv | Sym_D | Sym_E | Sym_K | Sym_V | Sym_Np | Sym_L

datatype dim = Concrete nat | Symbolic shape_symbol

datatype placement = Device nat | Host | Tiered

datatype shard_layout = Replicated | ColShard nat | RowShard nat | HeadShard nat | ExpertShard nat | Partial

datatype tensor_class = Weight | Activation | State | Staging | Param

record tensor =
  tn_shape :: "dim list"
  tn_dtype :: dtype
  tn_quant :: quant_scheme
  tn_layout :: layout_id
  tn_placement :: placement
  tn_sharding :: shard_layout
  tn_class :: tensor_class

abbreviation tn_rank :: "tensor \<Rightarrow> nat" where "tn_rank t \<equiv> length (tn_shape t)"

datatype external_input_kind =
  TokenIds | BatchMeta | RngState | GatherStaging | GrammarMask | SamplingParams | EmbedOverride | EmbedMask | SubgraphHidden

datatype external_output_kind = Sampled | AcceptLen | Logits | Hidden | UpdatedRngState

datatype positions_kind = ScalarPositions | MropePositions

datatype attr_reason =
    NonTensorInput external_input_kind
  | DuplicateInput external_input_kind
  | TensorBackedInput external_input_kind
  | NonTensorOutput external_output_kind
  | DuplicateOutput external_output_kind
  | TensorBackedOutput external_output_kind
  | PermOutOfBounds "nat list" nat
  | PermDuplicates "nat list"
  | PermMissing "nat list"
  | ShardingRemap shard_layout

datatype shape_detail =
    LeadingDim nat shape_symbol dim
  | ElementCount nat nat
  | ExtentMismatch string nat string nat
  | SymbolMismatch string shape_symbol string shape_symbol

datatype graph_error =
    InvalidRank nat
  | ZeroExtent nat
  | PlacementForClass placement tensor_class
  | QuantForClass quant_scheme tensor_class
  | LayoutForClass layout_id tensor_class
  | DTypeForClass dtype tensor_class
  | QuantDType quant_scheme dtype
  | OpInputCountMismatch string nat nat
  | OpOutputCountMismatch string nat nat
  | OpDTypeMismatch string string "dtype list" dtype
  | OpRankMismatch string string nat nat
  | OpShapeMismatch string string shape_detail
  | OpLayoutMismatch string string layout_id layout_id
  | OpQuantMismatch string string quant_scheme
  | OpPlacementMismatch string string placement
  | OpClassMismatch string string tensor_class tensor_class
  | OpAttribute string string attr_reason
  | GraphCycle nat
  | GraphNodeNotFound nat
  | GraphEdgeNotFound nat
  | GraphExternalInputMissing external_input_kind string
  | GraphExternalOutputMissing external_output_kind string
  | GraphExternalOutputUnproduced external_output_kind nat
  | GraphSourceClassInvalid tensor_class
  | PositionsConflict positions_kind positions_kind
  | GraphPositionsMissing string
  | GraphRopePositionsMismatch nat nat nat
  | GraphTensorRankMismatch nat nat nat
  | StrideMismatch nat "int list" "int list"
  | Problems "graph_error list"

type_synonym 'a ir_result = "(graph_error, 'a) result"

text \<open>\<open>IrError::from_problems\<close>, and its inverse as \<open>Graph::validate\<close> flattens a nested report.\<close>

definition ir_from_problems :: "graph_error list \<Rightarrow> unit ir_result" where
  "ir_from_problems ps = (case ps of [] \<Rightarrow> Inr () | [p] \<Rightarrow> Inl p | _ \<Rightarrow> Inl (Problems ps))"

definition problems_of :: "'a ir_result \<Rightarrow> graph_error list" where
  "problems_of r = (case r of Inr _ \<Rightarrow> [] | Inl (Problems ps) \<Rightarrow> ps | Inl e \<Rightarrow> [e])"

lemma ir_from_problems_ok [simp]: "ir_from_problems ps = Inr u \<longleftrightarrow> ps = []"
  by (simp add: ir_from_problems_def split: list.splits)

lemma ir_from_problems_Nil [simp]: "ir_from_problems [] = Inr ()"
  by simp

section \<open>Tensor construction\<close>

definition zero_extents :: "dim list \<Rightarrow> graph_error list" where
  "zero_extents shape = map (\<lambda>(axis, _). ZeroExtent axis) (filter (\<lambda>(_, d). d = Concrete 0) (List.enumerate 0 shape))"

definition placement_problem :: "placement \<Rightarrow> tensor_class \<Rightarrow> graph_error list" where
  "placement_problem pl c = (case pl of Device _ \<Rightarrow> [] | _ \<Rightarrow> if c = Weight then [] else [PlacementForClass pl c])"

definition quant_problem :: "quant_scheme \<Rightarrow> tensor_class \<Rightarrow> graph_error list" where
  "quant_problem q c =
     (case q of
        QuantNone \<Rightarrow> []
      | PerRow \<Rightarrow> if c = Weight \<or> c = Staging then [] else [QuantForClass q c]
      | Scheme _ \<Rightarrow> if c = Weight \<or> c = Staging then [] else [QuantForClass q c]
      | PerToken \<Rightarrow> if c = Activation then [] else [QuantForClass q c]
      | PerBlock32 \<Rightarrow> if c = Activation then [] else [QuantForClass q c])"

definition invalid_layout :: "layout_id \<Rightarrow> tensor_class \<Rightarrow> bool" where
  "invalid_layout l c \<longleftrightarrow> (c = Activation \<and> l \<noteq> CONTIGUOUS) \<or> ((l = L1 \<or> l = L1S) \<and> c \<noteq> Weight)"

definition invalid_quant_dtype :: "quant_scheme \<Rightarrow> dtype \<Rightarrow> bool" where
  "invalid_quant_dtype q d =
     (case q of
        PerToken \<Rightarrow> \<not> (d = I8 \<or> d = E4m3)
      | PerBlock32 \<Rightarrow> d \<noteq> I8
      | PerRow \<Rightarrow> d \<in> {F32, Bf16, E5m2, I32, U32, Bool}
      | Scheme _ \<Rightarrow> d \<in> {F32, Bf16, E5m2, I32, U32, Bool}
      | QuantNone \<Rightarrow> d = I4)"

definition tensor_problems :: "tensor \<Rightarrow> graph_error list" where
  "tensor_problems t =
     (if tn_shape t = [] \<or> length (tn_shape t) > 4 then [InvalidRank (length (tn_shape t))] else []) @
     zero_extents (tn_shape t) @
     placement_problem (tn_placement t) (tn_class t) @
     quant_problem (tn_quant t) (tn_class t) @
     (if invalid_layout (tn_layout t) (tn_class t) then [LayoutForClass (tn_layout t) (tn_class t)] else []) @
     (if tn_dtype t = I4 \<and> \<not> (tn_class t = Weight \<or> tn_class t = Staging) then [DTypeForClass (tn_dtype t) (tn_class t)] else []) @
     (if invalid_quant_dtype (tn_quant t) (tn_dtype t) then [QuantDType (tn_quant t) (tn_dtype t)] else [])"

definition tensor_new :: "dim list \<Rightarrow> dtype \<Rightarrow> quant_scheme \<Rightarrow> layout_id \<Rightarrow> placement \<Rightarrow> shard_layout \<Rightarrow> tensor_class \<Rightarrow> tensor ir_result" where
  "tensor_new shape d q l pl sh c =
     (let t = \<lparr>tn_shape = shape, tn_dtype = d, tn_quant = q, tn_layout = l, tn_placement = pl, tn_sharding = sh, tn_class = c\<rparr>
      in bind_r (ir_from_problems (tensor_problems t)) (\<lambda>_. Inr t))"

section \<open>Well-formed tensors\<close>

definition shape_ok :: "dim list \<Rightarrow> bool" where
  "shape_ok shape \<longleftrightarrow> shape \<noteq> [] \<and> length shape \<le> 4 \<and> Concrete 0 \<notin> set shape"

definition kind_ok :: "dtype \<Rightarrow> quant_scheme \<Rightarrow> layout_id \<Rightarrow> placement \<Rightarrow> tensor_class \<Rightarrow> bool" where
  "kind_ok d q l pl c \<longleftrightarrow>
     (c \<noteq> Weight \<longrightarrow> (\<exists>r. pl = Device r) \<and> l \<noteq> L1 \<and> l \<noteq> L1S) \<and> (c = Activation \<longrightarrow> l = CONTIGUOUS) \<and>
     (d = I4 \<longrightarrow> (c = Weight \<or> c = Staging) \<and> q \<noteq> QuantNone) \<and>
     (case q of
        QuantNone \<Rightarrow> True
      | PerToken \<Rightarrow> c = Activation \<and> d \<in> {I8, E4m3}
      | PerBlock32 \<Rightarrow> c = Activation \<and> d = I8
      | _ \<Rightarrow> (c = Weight \<or> c = Staging) \<and> d \<in> {F16, E4m3, I8, I4})"

definition tensor_ok :: "tensor \<Rightarrow> bool" where
  "tensor_ok t \<longleftrightarrow> shape_ok (tn_shape t) \<and> kind_ok (tn_dtype t) (tn_quant t) (tn_layout t) (tn_placement t) (tn_class t)"

lemma zero_extents_Nil: "zero_extents shape = [] \<longleftrightarrow> Concrete 0 \<notin> set shape"
proof -
  have "Concrete 0 \<in> set shape \<longleftrightarrow> (\<exists>p \<in> set (List.enumerate 0 shape). snd p = Concrete 0)"
    by (metis (no_types, lifting) imageE image_eqI map_snd_enumerate set_map)
  then show ?thesis by (auto simp: zero_extents_def filter_empty_conv)
qed

lemma placement_problem_Nil: "placement_problem pl c = [] \<longleftrightarrow> c = Weight \<or> (\<exists>r. pl = Device r)"
  by (cases pl) (simp_all add: placement_problem_def)

lemma quant_problems_Nil:
  "quant_problem q c = [] \<and> \<not> (d = I4 \<and> \<not> (c = Weight \<or> c = Staging)) \<and> \<not> invalid_quant_dtype q d \<longleftrightarrow>
     (d = I4 \<longrightarrow> (c = Weight \<or> c = Staging) \<and> q \<noteq> QuantNone) \<and>
     (case q of
        QuantNone \<Rightarrow> True
      | PerToken \<Rightarrow> c = Activation \<and> d \<in> {I8, E4m3}
      | PerBlock32 \<Rightarrow> c = Activation \<and> d = I8
      | _ \<Rightarrow> (c = Weight \<or> c = Staging) \<and> d \<in> {F16, E4m3, I8, I4})"
  by (cases q; cases d; simp add: quant_problem_def invalid_quant_dtype_def)

lemma tensor_problems_Nil: "tensor_problems t = [] \<longleftrightarrow> tensor_ok t"
proof -
  let ?d = "tn_dtype t" and ?q = "tn_quant t" and ?c = "tn_class t" and ?l = "tn_layout t" and ?pl = "tn_placement t"
  have "tensor_problems t = [] \<longleftrightarrow> shape_ok (tn_shape t) \<and> placement_problem ?pl ?c = [] \<and> \<not> invalid_layout ?l ?c \<and>
      quant_problem ?q ?c = [] \<and> \<not> (?d = I4 \<and> \<not> (?c = Weight \<or> ?c = Staging)) \<and> \<not> invalid_quant_dtype ?q ?d"
    by (auto simp: tensor_problems_def shape_ok_def zero_extents_Nil)
  also have "\<dots> \<longleftrightarrow> tensor_ok t"
    unfolding quant_problems_Nil placement_problem_Nil tensor_ok_def kind_ok_def invalid_layout_def by blast
  finally show ?thesis .
qed

lemma tensor_new_Inr:
  "tensor_new shape d q l pl sh c = Inr t \<longleftrightarrow>
     t = \<lparr>tn_shape = shape, tn_dtype = d, tn_quant = q, tn_layout = l, tn_placement = pl, tn_sharding = sh, tn_class = c\<rparr> \<and> tensor_ok t"
  by (auto simp: tensor_new_def Let_def bind_r_eq_Inr tensor_problems_Nil)

lemma kind_ok_contiguous: "kind_ok d q l pl c \<Longrightarrow> kind_ok d q CONTIGUOUS pl c"
  by (auto simp: kind_ok_def CONTIGUOUS_def L1_def L1S_def)

text \<open>Views: a permuted shape, and the contiguous layout of the same data, are accepted.\<close>

lemma tensor_new_permuted:
  assumes "tensor_ok t" and "set shape = set (tn_shape t)" and "length shape = length (tn_shape t)"
  shows "tensor_new shape (tn_dtype t) (tn_quant t) (tn_layout t) (tn_placement t) sh (tn_class t) =
    Inr (t\<lparr>tn_shape := shape, tn_sharding := sh\<rparr>)"
  unfolding tensor_new_Inr using assms by (cases t) (auto simp: tensor_ok_def shape_ok_def)

lemma tensor_new_contiguous:
  assumes "tensor_ok t"
  shows "tensor_new (tn_shape t) (tn_dtype t) (tn_quant t) CONTIGUOUS (tn_placement t) (tn_sharding t) (tn_class t) =
    Inr (t\<lparr>tn_layout := CONTIGUOUS\<rparr>)"
  unfolding tensor_new_Inr using assms by (cases t) (auto simp: tensor_ok_def intro: kind_ok_contiguous)

end
