(* ===== verification/Ir_Graph.thy ===== *)
theory Ir_Graph
  imports Ir_Tensor
begin

text \<open>
  The step graph of \<open>crates/r9v-ir/src/graph.rs\<close>: operators over typed tensor edges, views as edges
  with a source edge, external inputs and outputs, the builder operations, stride requirements
  and the copies inserted for them, the execution order and the validation. An operator is one of the
  thirty-two of \<open>op.rs\<close>; the attributes of all but \<open>Copy\<close> are a type parameter. An operation returns its error or the new
  graph where the source changes nothing before its last check; \<open>materialize_copies\<close> returns both.
  A violated index or an arithmetic overflow is a panic, a value of its own.
\<close>

section \<open>Operators\<close>

datatype copy_kind = Contiguize | DeviceToDevice | HostToDevice | DeviceToHost

datatype 'a op =
    OpEmbedGather 'a | OpNgramGather 'a | OpQuantAct 'a | OpCast 'a | OpCopy copy_kind | OpGatherRows 'a | OpScatterAddRows 'a
  | OpSplit 'a | OpConcat 'a | OpNorm 'a | OpResidualAdd 'a | OpActMul 'a | OpActivation 'a | OpLogitSoftcap 'a | OpRope 'a
  | OpMatmul 'a | OpMoeRoute 'a | OpMoeFfn 'a | OpStateWriteKv 'a | OpAttention 'a | OpCausalConv1d 'a | OpLinearAttnScan 'a
  | OpLogitsPostprocess 'a | OpSample 'a | OpVerify 'a | OpAllReduce 'a | OpAllGather 'a | OpReduceScatter 'a | OpAllToAll 'a
  | OpSend 'a | OpRecv 'a | OpBarrier 'a

definition check_dim_match :: "string \<Rightarrow> string \<Rightarrow> dim \<Rightarrow> string \<Rightarrow> dim \<Rightarrow> string \<Rightarrow> graph_error list" where
  "check_dim_match op t1_name d1 t2_name d2 axis_name =
     (case (d1, d2) of
        (Concrete a, Concrete b) \<Rightarrow> if a \<noteq> b then [OpShapeMismatch op t1_name (ExtentMismatch axis_name a t2_name b)] else []
      | (Symbolic a, Symbolic b) \<Rightarrow> if a \<noteq> b then [OpShapeMismatch op t1_name (SymbolMismatch axis_name a t2_name b)] else []
      | _ \<Rightarrow> [])"

definition is_device :: "placement \<Rightarrow> bool" where
  "is_device p \<longleftrightarrow> (case p of Device _ \<Rightarrow> True | _ \<Rightarrow> False)"

definition copy_placement_problems :: "copy_kind \<Rightarrow> tensor \<Rightarrow> tensor \<Rightarrow> graph_error list" where
  "copy_placement_problems kind x y =
     (let px = tn_placement x; py = tn_placement y;
          bad_x = [OpPlacementMismatch ''copy'' ''x'' px]; bad_y = [OpPlacementMismatch ''copy'' ''y'' py];
          same_layout = (if tn_layout y \<noteq> tn_layout x then [OpLayoutMismatch ''copy'' ''y'' (tn_layout x) (tn_layout y)] else [])
      in case kind of
           Contiguize \<Rightarrow>
             (if px \<noteq> py then bad_y else []) @
             (if tn_layout y \<noteq> CONTIGUOUS then [OpLayoutMismatch ''copy'' ''y'' CONTIGUOUS (tn_layout y)] else [])
         | DeviceToDevice \<Rightarrow>
             (if \<not> is_device px then bad_x else []) @ (if \<not> is_device py then bad_y else []) @
             (if is_device px \<and> is_device py \<and> px = py then bad_y else []) @ same_layout
         | HostToDevice \<Rightarrow>
             (if is_device px then bad_x else []) @ (if \<not> is_device py then bad_y else []) @ same_layout
         | DeviceToHost \<Rightarrow>
             (if \<not> is_device px then bad_x else []) @ (if is_device py then bad_y else []) @ same_layout)"

definition copy_validate :: "copy_kind \<Rightarrow> tensor list \<Rightarrow> tensor list \<Rightarrow> unit ir_result" where
  "copy_validate kind inputs outputs =
     ir_from_problems
       ((if length inputs \<noteq> 1 then [OpInputCountMismatch ''copy'' 1 (length inputs)] else []) @
        (if length outputs \<noteq> 1 then [OpOutputCountMismatch ''copy'' 1 (length outputs)] else []) @
        (case (inputs, outputs) of
           ([x], [y]) \<Rightarrow>
             (if tn_dtype y \<noteq> tn_dtype x then [OpDTypeMismatch ''copy'' ''y'' [tn_dtype x] (tn_dtype y)] else []) @
             (if tn_rank x \<noteq> tn_rank y then [OpRankMismatch ''copy'' ''y'' (tn_rank x) (tn_rank y)]
              else concat (map (\<lambda>(dy, dx). check_dim_match ''copy'' ''y'' dy ''x'' dx ''dim'') (zip (tn_shape y) (tn_shape x)))) @
             (if tn_quant y \<noteq> tn_quant x then [OpQuantMismatch ''copy'' ''y'' (tn_quant y)] else []) @
             (if tn_class y \<noteq> tn_class x then [OpClassMismatch ''copy'' ''y'' (tn_class x) (tn_class y)] else []) @
             copy_placement_problems kind x y
         | _ \<Rightarrow> []))"

text \<open>\<open>Op::validate\<close>: \<open>check\<close> stands for the validation of the operators other than \<open>Copy\<close>.\<close>

type_synonym 'a op_check = "'a op \<Rightarrow> tensor list \<Rightarrow> tensor list \<Rightarrow> unit ir_result"

definition op_validate :: "'a op_check \<Rightarrow> 'a op_check" where
  "op_validate check oper inputs outputs =
     (case oper of OpCopy kind \<Rightarrow> copy_validate kind inputs outputs | _ \<Rightarrow> check oper inputs outputs)"

section \<open>External inputs and outputs\<close>

definition input_tensor_backed :: "external_input_kind \<Rightarrow> bool" where
  "input_tensor_backed k \<longleftrightarrow> k \<notin> {BatchMeta, SamplingParams, RngState}"

definition output_tensor_backed :: "external_output_kind \<Rightarrow> bool" where
  "output_tensor_backed k \<longleftrightarrow> k \<noteq> UpdatedRngState"

datatype external_input = TensorInput external_input_kind nat | BatchMetaInput | SamplingParamsInput | RngStateInput

datatype external_output = TensorOutput external_output_kind nat | UpdatedRngStateOutput

definition input_kind :: "external_input \<Rightarrow> external_input_kind" where
  "input_kind i = (case i of TensorInput k _ \<Rightarrow> k | BatchMetaInput \<Rightarrow> BatchMeta | SamplingParamsInput \<Rightarrow> SamplingParams | RngStateInput \<Rightarrow> RngState)"

definition input_edge_id :: "external_input \<Rightarrow> nat option" where
  "input_edge_id i = (case i of TensorInput _ e \<Rightarrow> Some e | _ \<Rightarrow> None)"

definition output_kind :: "external_output \<Rightarrow> external_output_kind" where
  "output_kind i = (case i of TensorOutput k _ \<Rightarrow> k | UpdatedRngStateOutput \<Rightarrow> UpdatedRngState)"

definition output_edge_id :: "external_output \<Rightarrow> nat option" where
  "output_edge_id i = (case i of TensorOutput _ e \<Rightarrow> Some e | _ \<Rightarrow> None)"

definition bucket_dim_matches :: "dim \<Rightarrow> nat \<Rightarrow> shape_symbol \<Rightarrow> bool" where
  "bucket_dim_matches d concrete symbolic \<longleftrightarrow> d = Concrete concrete \<or> d = Symbolic symbolic"

definition external_tensor_common :: "string \<Rightarrow> tensor \<Rightarrow> nat \<Rightarrow> dtype list \<Rightarrow> tensor_class \<Rightarrow> nat \<Rightarrow> graph_error list" where
  "external_tensor_common role t expected_rank expected_dtypes expected_class device_rank =
     (if tn_rank t \<noteq> expected_rank then [OpRankMismatch ''step_graph_external'' role expected_rank (tn_rank t)] else []) @
     (if tn_dtype t \<notin> set expected_dtypes then [OpDTypeMismatch ''step_graph_external'' role expected_dtypes (tn_dtype t)] else []) @
     (if tn_class t \<noteq> expected_class then [OpClassMismatch ''step_graph_external'' role expected_class (tn_class t)] else []) @
     (if tn_layout t \<noteq> CONTIGUOUS then [OpLayoutMismatch ''step_graph_external'' role CONTIGUOUS (tn_layout t)] else []) @
     (if tn_placement t \<noteq> Device device_rank then [OpPlacementMismatch ''step_graph_external'' role (tn_placement t)] else [])"

definition leading_problem :: "string \<Rightarrow> tensor \<Rightarrow> nat \<Rightarrow> shape_symbol \<Rightarrow> graph_error list" where
  "leading_problem role t concrete symbolic =
     (case tn_shape t of
        [] \<Rightarrow> []
      | d # _ \<Rightarrow> if bucket_dim_matches d concrete symbolic then []
                 else [OpShapeMismatch ''step_graph_external'' role (LeadingDim concrete symbolic d)])"

definition total_tokens :: "step_graph_key \<Rightarrow> nat" where
  "total_tokens key = min (2 ^ 32 - 1) (key_t_dec key + key_t_pre key)"

text \<open>Role, rank, dtypes, class and leading dimension of each tensor-backed kind.\<close>

definition input_contract :: "step_graph_key \<Rightarrow> external_input_kind \<Rightarrow>
    (string \<times> nat \<times> dtype list \<times> tensor_class \<times> nat \<times> shape_symbol) option" where
  "input_contract key kind =
     (let t = total_tokens key
      in case kind of
           TokenIds \<Rightarrow> Some (''token_ids'', 1, [U32], Activation, t, Sym_T)
         | GatherStaging \<Rightarrow> Some (''gather_staging'', 3, [I4, I8], Staging, t, Sym_T)
         | GrammarMask \<Rightarrow> Some (''grammar_mask'', 3, [Bool], Activation, key_s key, Sym_S)
         | EmbedOverride \<Rightarrow> Some (''embed_override'', 2, [F16, Bf16, F32], Activation, t, Sym_T)
         | EmbedMask \<Rightarrow> Some (''embed_mask'', 1, [Bool], Activation, t, Sym_T)
         | SubgraphHidden \<Rightarrow> Some (''subgraph_hidden'', 2, [F16, Bf16, F32], Activation, t, Sym_T)
         | _ \<Rightarrow> None)"

definition validate_external_input_tensor :: "step_graph_key \<Rightarrow> external_input_kind \<Rightarrow> tensor \<Rightarrow> unit ir_result" where
  "validate_external_input_tensor key kind t =
     (case input_contract key kind of
        None \<Rightarrow> Inl (OpAttribute ''add_external_input'' ''kind'' (NonTensorInput kind))
      | Some (role, rank, dtypes, cls, concrete, symbolic) \<Rightarrow>
          let quant_is_valid = (if kind = GatherStaging then (case tn_quant t of Scheme _ \<Rightarrow> True | _ \<Rightarrow> False) else tn_quant t = QuantNone)
          in ir_from_problems
               (external_tensor_common role t rank dtypes cls (key_rank key) @
                (if \<not> quant_is_valid then [OpQuantMismatch ''step_graph_external'' role (tn_quant t)] else []) @
                leading_problem role t concrete symbolic))"

definition output_contract :: "step_graph_key \<Rightarrow> external_output_kind \<Rightarrow> (string \<times> nat \<times> dtype list \<times> nat \<times> shape_symbol) option" where
  "output_contract key kind =
     (case kind of
        Sampled \<Rightarrow> Some (''sampled'', 2, [U32], key_s key, Sym_S)
      | AcceptLen \<Rightarrow> Some (''accept_len'', 1, [U32], key_s key, Sym_S)
      | Logits \<Rightarrow> Some (''logits'', 3, [F32], key_s key, Sym_S)
      | Hidden \<Rightarrow> Some (''hidden'', 2, [F16, Bf16, F32], total_tokens key, Sym_T)
      | UpdatedRngState \<Rightarrow> None)"

definition validate_external_output_tensor :: "step_graph_key \<Rightarrow> external_output_kind \<Rightarrow> tensor \<Rightarrow> unit ir_result" where
  "validate_external_output_tensor key kind t =
     (case output_contract key kind of
        None \<Rightarrow> Inl (OpAttribute ''add_external_output'' ''kind'' (NonTensorOutput kind))
      | Some (role, rank, dtypes, concrete, symbolic) \<Rightarrow>
          ir_from_problems
            (external_tensor_common role t rank dtypes Activation (key_rank key) @
             (if tn_quant t \<noteq> QuantNone then [OpQuantMismatch ''step_graph_external'' role (tn_quant t)] else []) @
             leading_problem role t concrete symbolic))"

section \<open>Edges, nodes and graphs\<close>

datatype stride_requirement = AnyStride | Contiguous

text \<open>Strides are \<open>i64\<close>; the running product saturates. A symbolic dimension counts as two.\<close>

definition i64_saturating_mul :: "int \<Rightarrow> int \<Rightarrow> int" where
  "i64_saturating_mul a b = min (max (a * b) (- (2 ^ 63))) (2 ^ 63 - 1)"

definition extent :: "dim \<Rightarrow> int" where
  "extent d = (case d of Concrete c \<Rightarrow> int c | Symbolic _ \<Rightarrow> 2)"

fun strides_from :: "dim list \<Rightarrow> int list \<times> int" where
  "strides_from [] = ([], 1)"
| "strides_from (d # ds) = (let (ss, stride) = strides_from ds in (stride # ss, i64_saturating_mul stride (max (extent d) 1)))"

definition compute_contiguous_strides :: "dim list \<Rightarrow> int list" where
  "compute_contiguous_strides shape = fst (strides_from shape)"

definition is_satisfied :: "stride_requirement \<Rightarrow> int list \<Rightarrow> dim list \<Rightarrow> bool" where
  "is_satisfied req strides shape = (case req of AnyStride \<Rightarrow> True | Contiguous \<Rightarrow> strides = compute_contiguous_strides shape)"

record graph_edge =
  ge_id :: nat
  ge_tensor :: tensor
  ge_strides :: "int list"
  ge_source :: "nat option"

definition is_contiguous :: "graph_edge \<Rightarrow> bool" where
  "is_contiguous e \<longleftrightarrow> ge_strides e = compute_contiguous_strides (tn_shape (ge_tensor e))"

record 'a graph_node =
  gn_id :: nat
  gn_op :: "'a op"
  gn_inputs :: "nat list"
  gn_input_requirements :: "stride_requirement list"
  gn_outputs :: "nat list"

record inserted_copy =
  ic_copy_node :: nat
  ic_source_edge :: nat
  ic_dest_edge :: nat
  ic_consumer_nodes :: "nat list"
  ic_actual_strides :: "int list"
  ic_expected_strides :: "int list"

record 'a graph =
  gr_key :: step_graph_key
  gr_nodes :: "'a graph_node list"
  gr_edges :: "graph_edge list"
  gr_external_inputs :: "external_input list"
  gr_external_outputs :: "external_output list"
  gr_inserted_copies :: "inserted_copy list"
  gr_positions :: "(positions_kind \<times> nat) option"

record graph_summary =
  gs_key :: step_graph_key
  gs_op_count :: nat
  gs_edge_count :: nat
  gs_external_inputs :: "external_input_kind list"
  gs_external_outputs :: "external_output_kind list"
  gs_inserted_copies :: "inserted_copy list"

definition graph_new :: "step_graph_key \<Rightarrow> 'a graph" where
  "graph_new key = \<lparr>gr_key = key, gr_nodes = [], gr_edges = [], gr_external_inputs = [], gr_external_outputs = [],
     gr_inserted_copies = [], gr_positions = None\<rparr>"

definition graph_summary_of :: "'a graph \<Rightarrow> graph_summary" where
  "graph_summary_of g = \<lparr>gs_key = gr_key g, gs_op_count = length (gr_nodes g), gs_edge_count = length (gr_edges g),
     gs_external_inputs = map input_kind (gr_external_inputs g), gs_external_outputs = map output_kind (gr_external_outputs g),
     gs_inserted_copies = gr_inserted_copies g\<rparr>"

section \<open>Building\<close>

definition fresh_edge :: "graph_edge list \<Rightarrow> tensor \<Rightarrow> graph_edge" where
  "fresh_edge es t = \<lparr>ge_id = length es, ge_tensor = t, ge_strides = compute_contiguous_strides (tn_shape t), ge_source = None\<rparr>"

definition push_tensor_edge :: "'a graph \<Rightarrow> tensor \<Rightarrow> nat \<times> 'a graph" where
  "push_tensor_edge g t = (length (gr_edges g), g\<lparr>gr_edges := gr_edges g @ [fresh_edge (gr_edges g) t]\<rparr>)"

definition rank_problem :: "step_graph_key \<Rightarrow> nat \<Rightarrow> tensor \<Rightarrow> graph_error list" where
  "rank_problem key edge t =
     (case tn_placement t of
        Device rank \<Rightarrow> if rank \<noteq> key_rank key then [GraphTensorRankMismatch edge rank (key_rank key)] else []
      | _ \<Rightarrow> [])"

definition add_tensor :: "'a graph \<Rightarrow> tensor \<Rightarrow> (nat \<times> 'a graph) ir_result" where
  "add_tensor g t =
     bind_r (ir_from_problems
       ((if tn_class t \<notin> {Weight, Param, State} then [GraphSourceClassInvalid (tn_class t)] else []) @
        rank_problem (gr_key g) (length (gr_edges g)) t))
       (\<lambda>_. Inr (push_tensor_edge g t))"

definition add_external_input :: "'a graph \<Rightarrow> external_input_kind \<Rightarrow> tensor \<Rightarrow> (nat \<times> 'a graph) ir_result" where
  "add_external_input g kind t =
     (if \<not> input_tensor_backed kind then Inl (OpAttribute ''add_external_input'' ''kind'' (NonTensorInput kind))
      else if kind \<in> input_kind ` set (gr_external_inputs g)
      then Inl (OpAttribute ''add_external_input'' ''kind'' (DuplicateInput kind))
      else bind_r (validate_external_input_tensor (gr_key g) kind t) (\<lambda>_.
             let (edge_id, g1) = push_tensor_edge g t
             in Inr (edge_id, g1\<lparr>gr_external_inputs := gr_external_inputs g1 @ [TensorInput kind edge_id]\<rparr>)))"

definition add_external_non_tensor :: "'a graph \<Rightarrow> external_input_kind \<Rightarrow> 'a graph ir_result" where
  "add_external_non_tensor g kind =
     (let add = (\<lambda>i. if i \<in> set (gr_external_inputs g)
                     then Inl (OpAttribute ''add_external_non_tensor'' ''kind'' (DuplicateInput kind))
                     else Inr (g\<lparr>gr_external_inputs := gr_external_inputs g @ [i]\<rparr>))
      in case kind of
           BatchMeta \<Rightarrow> add BatchMetaInput
         | SamplingParams \<Rightarrow> add SamplingParamsInput
         | RngState \<Rightarrow> add RngStateInput
         | _ \<Rightarrow> Inl (OpAttribute ''add_external_non_tensor'' ''kind'' (TensorBackedInput kind)))"

definition add_batch_meta_input :: "'a graph \<Rightarrow> 'a graph ir_result" where
  "add_batch_meta_input g = add_external_non_tensor g BatchMeta"

definition add_sampling_params_input :: "'a graph \<Rightarrow> 'a graph ir_result" where
  "add_sampling_params_input g = add_external_non_tensor g SamplingParams"

definition add_rng_state_input :: "'a graph \<Rightarrow> 'a graph ir_result" where
  "add_rng_state_input g = add_external_non_tensor g RngState"

definition bind_positions :: "'a graph \<Rightarrow> positions_kind \<Rightarrow> (nat \<times> 'a graph) ir_result" where
  "bind_positions g kind =
     (case gr_positions g of
        Some (existing, _) \<Rightarrow> Inl (PositionsConflict existing kind)
      | None \<Rightarrow>
          if BatchMetaInput \<notin> set (gr_external_inputs g) then Inl (GraphExternalInputMissing BatchMeta ''positions'')
          else bind_r (tensor_new (case kind of ScalarPositions \<Rightarrow> [Symbolic Sym_T] | MropePositions \<Rightarrow> [Symbolic Sym_T, Concrete 3])
                         U32 QuantNone CONTIGUOUS (Device (key_rank (gr_key g))) Replicated Activation) (\<lambda>t.
                 let (edge_id, g1) = push_tensor_edge g t in Inr (edge_id, g1\<lparr>gr_positions := Some (kind, edge_id)\<rparr>)))"

definition add_op_with_requirements :: "'a graph \<Rightarrow> 'a op \<Rightarrow> nat list \<Rightarrow> stride_requirement list \<Rightarrow> tensor list \<Rightarrow>
    (nat \<times> 'a graph) ir_result" where
  "add_op_with_requirements g oper input_edges reqs output_tensors =
     bind_r (ir_from_problems
       (map GraphEdgeNotFound (filter (\<lambda>e. e \<ge> length (gr_edges g)) input_edges) @
        (if length reqs \<noteq> length input_edges then [OpInputCountMismatch ''add_op'' (length input_edges) (length reqs)] else [])))
       (\<lambda>_. let node_id = length (gr_nodes g); first = length (gr_edges g);
                es = foldl (\<lambda>es t. es @ [fresh_edge es t]) (gr_edges g) output_tensors
            in Inr (node_id, g\<lparr>gr_edges := es,
                 gr_nodes := gr_nodes g @ [\<lparr>gn_id = node_id, gn_op = oper, gn_inputs = input_edges, gn_input_requirements = reqs,
                                            gn_outputs = [first..<length es]\<rparr>]\<rparr>))"

definition graph_add_op :: "'a graph \<Rightarrow> 'a op \<Rightarrow> nat list \<Rightarrow> tensor list \<Rightarrow> (nat \<times> 'a graph) ir_result" where
  "graph_add_op g oper input_edges output_tensors =
     add_op_with_requirements g oper input_edges (replicate (length input_edges) AnyStride) output_tensors"

section \<open>Producers\<close>

text \<open>The last insertion into the map wins.\<close>

definition producer_map :: "'a graph \<Rightarrow> nat \<rightharpoonup> nat" where
  "producer_map g = foldl (\<lambda>m node. foldl (\<lambda>m out. m(out \<mapsto> gn_id node)) m (gn_outputs node)) Map.empty (gr_nodes g)"

fun resolve_from :: "graph_edge list \<Rightarrow> (nat \<rightharpoonup> nat) \<Rightarrow> nat \<Rightarrow> nat \<Rightarrow> nat option" where
  "resolve_from es producers 0 current = None"
| "resolve_from es producers (Suc n) current =
     (case producers current of
        Some p \<Rightarrow> Some p
      | None \<Rightarrow> (case get es current of
                   None \<Rightarrow> None
                 | Some e \<Rightarrow> (case ge_source e of None \<Rightarrow> None | Some src \<Rightarrow> resolve_from es producers n src)))"

definition resolve_producer :: "'a graph \<Rightarrow> nat \<Rightarrow> (nat \<rightharpoonup> nat) \<Rightarrow> nat option" where
  "resolve_producer g edge producers = resolve_from (gr_edges g) producers (length (gr_edges g) + 1) edge"

definition add_external_output :: "'a graph \<Rightarrow> external_output_kind \<Rightarrow> nat \<Rightarrow> 'a graph ir_result" where
  "add_external_output g kind edge =
     (if \<not> output_tensor_backed kind then Inl (OpAttribute ''add_external_output'' ''kind'' (NonTensorOutput kind))
      else case get (gr_edges g) edge of
             None \<Rightarrow> Inl (GraphEdgeNotFound edge)
           | Some e \<Rightarrow>
               if kind \<in> output_kind ` set (gr_external_outputs g)
               then Inl (OpAttribute ''add_external_output'' ''kind'' (DuplicateOutput kind))
               else bind_r (validate_external_output_tensor (gr_key g) kind (ge_tensor e)) (\<lambda>_.
                      case resolve_producer g edge (producer_map g) of
                        None \<Rightarrow> Inl (GraphExternalOutputUnproduced kind edge)
                      | Some _ \<Rightarrow> Inr (g\<lparr>gr_external_outputs := gr_external_outputs g @ [TensorOutput kind edge]\<rparr>)))"

definition add_external_non_tensor_output :: "'a graph \<Rightarrow> external_output_kind \<Rightarrow> 'a graph ir_result" where
  "add_external_non_tensor_output g kind =
     (if kind = UpdatedRngState
      then (if UpdatedRngStateOutput \<in> set (gr_external_outputs g)
            then Inl (OpAttribute ''add_external_non_tensor_output'' ''kind'' (DuplicateOutput kind))
            else Inr (g\<lparr>gr_external_outputs := gr_external_outputs g @ [UpdatedRngStateOutput]\<rparr>))
      else Inl (OpAttribute ''add_external_non_tensor_output'' ''kind'' (TensorBackedOutput kind)))"

definition add_updated_rng_state_output :: "'a graph \<Rightarrow> 'a graph ir_result" where
  "add_updated_rng_state_output g = add_external_non_tensor_output g UpdatedRngState"

section \<open>The execution order\<close>

text \<open>What can also panic: an index out of bounds, or an arithmetic overflow.\<close>

datatype 'b ir_fate = IrOk 'b | IrErr graph_error | IrPanic

definition node_uses :: "'a graph \<Rightarrow> 'a graph_node \<Rightarrow> (nat \<times> nat) list" where
  "node_uses g node = List.map_filter (\<lambda>input. map_option (\<lambda>p. (p, gn_id node)) (resolve_producer g input (producer_map g)))
     (filter (\<lambda>input. input < length (gr_edges g)) (gn_inputs node))"

definition uses :: "'a graph \<Rightarrow> (nat \<times> nat) list" where
  "uses g = concat (map (node_uses g) (gr_nodes g))"

definition missing_inputs :: "'a graph \<Rightarrow> graph_error list" where
  "missing_inputs g = concat (map (\<lambda>node. map GraphEdgeNotFound (filter (\<lambda>input. input \<ge> length (gr_edges g)) (gn_inputs node))) (gr_nodes g))"

definition in_degree :: "nat \<Rightarrow> (nat \<times> nat) list \<Rightarrow> nat list" where
  "in_degree n us = fold (\<lambda>(_, c) deg. deg[c := deg ! c + 1]) us (replicate n 0)"

definition adjacency :: "nat \<Rightarrow> (nat \<times> nat) list \<Rightarrow> nat list list" where
  "adjacency n us = fold (\<lambda>(p, c) adj. adj[p := adj ! p @ [c]]) us (replicate n [])"

text \<open>The consumers of a popped node; an underflow of a degree is a panic.\<close>

fun relax :: "nat list \<Rightarrow> nat list \<Rightarrow> nat list \<Rightarrow> (nat list \<times> nat list) option" where
  "relax [] deg queue = Some (deg, queue)"
| "relax (c # cs) deg queue =
     (if c < length deg \<and> 0 < deg ! c
      then let deg' = deg[c := deg ! c - 1] in relax cs deg' (if deg' ! c = 0 then queue @ [c] else queue)
      else None)"

lemma relax_measure: "relax cs deg queue = Some (deg', queue') \<Longrightarrow> sum_list deg' + length queue' \<le> sum_list deg + length queue"
proof (induction cs arbitrary: deg queue)
  case (Cons c cs)
  then have c: "c < length deg" "0 < deg ! c" and r: "relax cs (deg[c := deg ! c - 1])
      (if (deg[c := deg ! c - 1]) ! c = 0 then queue @ [c] else queue) = Some (deg', queue')"
    by (auto simp: Let_def split: if_splits)
  have "sum_list (deg[c := deg ! c - 1]) + 1 = sum_list deg"
    using c elem_le_sum_list [OF c(1)] by (simp add: sum_list_update)
  with Cons.IH [OF r] show ?case by (auto split: if_splits)
qed simp

function kahn :: "nat list list \<Rightarrow> nat list \<Rightarrow> nat list \<Rightarrow> nat list \<Rightarrow> (nat list \<times> nat list) option" where
  "kahn adj deg [] order = Some (order, deg)"
| "kahn adj deg (node # queue) order =
     (if node < length adj
      then (case relax (adj ! node) deg queue of
              None \<Rightarrow> None
            | Some (deg', queue') \<Rightarrow> kahn adj deg' queue' (order @ [node]))
      else None)"
  by pat_completeness auto
termination
  by (relation "measure (\<lambda>(adj, deg, queue, order). sum_list deg + length queue)") (auto dest: relax_measure)

definition topological_order :: "'a graph \<Rightarrow> nat list ir_fate" where
  "topological_order g =
     (let n = length (gr_nodes g); us = uses g
      in if \<exists>(p, c) \<in> set us. p \<ge> n \<or> c \<ge> n then IrPanic
         else case ir_from_problems (missing_inputs g) of
           Inl e \<Rightarrow> IrErr e
         | Inr _ \<Rightarrow>
             let deg = in_degree n us
             in case kahn (adjacency n us) deg (filter (\<lambda>v. deg ! v = 0) [0..<n]) [] of
                  None \<Rightarrow> IrPanic
                | Some (order, deg') \<Rightarrow>
                    if length order \<noteq> n
                    then IrErr (GraphCycle (case List.find (\<lambda>v. 0 < deg' ! v) [0..<n] of Some v \<Rightarrow> v | None \<Rightarrow> 0))
                    else IrOk order)"

section \<open>Strides and views\<close>

definition set_edge_strides :: "'a graph \<Rightarrow> nat \<Rightarrow> int list \<Rightarrow> 'a graph ir_result" where
  "set_edge_strides g edge strides =
     (case get (gr_edges g) edge of
        None \<Rightarrow> Inl (GraphEdgeNotFound edge)
      | Some e \<Rightarrow>
          let rank = tn_rank (ge_tensor e)
          in if length strides \<noteq> rank then Inl (OpRankMismatch ''set_edge_strides'' ''edge'' rank (length strides))
             else Inr (g\<lparr>gr_edges := (gr_edges g)[edge := e\<lparr>ge_strides := strides\<rparr>]\<rparr>))"

definition set_node_input_requirement :: "'a graph \<Rightarrow> nat \<Rightarrow> nat \<Rightarrow> stride_requirement \<Rightarrow> 'a graph ir_fate" where
  "set_node_input_requirement g node input_pos requirement =
     (case get (gr_nodes g) node of
        None \<Rightarrow> IrErr (GraphNodeNotFound node)
      | Some nd \<Rightarrow>
          if input_pos \<ge> length (gn_inputs nd)
          then IrErr (OpInputCountMismatch ''set_node_input_requirement'' (length (gn_inputs nd)) input_pos)
          else if input_pos \<ge> length (gn_input_requirements nd) then IrPanic
          else IrOk (g\<lparr>gr_nodes := (gr_nodes g)[node := nd\<lparr>gn_input_requirements := (gn_input_requirements nd)[input_pos := requirement]\<rparr>]\<rparr>))"

definition perm_scan :: "nat \<Rightarrow> nat list \<Rightarrow> nat list \<times> nat list \<times> bool list" where
  "perm_scan rank perm =
     foldl (\<lambda>(oob, dups, seen) p. if p \<ge> rank then (oob @ [p], dups, seen)
                                 else if seen ! p then (oob, dups @ [p], seen) else (oob, dups, seen[p := True]))
       ([], [], replicate rank False) perm"

definition perm_problems :: "nat \<Rightarrow> nat list \<Rightarrow> graph_error list" where
  "perm_problems rank perm =
     (let (oob, dups, seen) = perm_scan rank perm; missing = filter (\<lambda>i. \<not> seen ! i) [0..<rank]
      in (if oob \<noteq> [] then [OpAttribute ''transpose_view'' ''perm'' (PermOutOfBounds oob rank)] else []) @
         (if dups \<noteq> [] then [OpAttribute ''transpose_view'' ''perm'' (PermDuplicates dups)] else []) @
         (if missing \<noteq> [] \<and> dups = [] \<and> oob = [] then [OpAttribute ''transpose_view'' ''perm'' (PermMissing missing)] else []))"

definition remap_axis :: "nat list \<Rightarrow> nat \<Rightarrow> nat" where
  "remap_axis perm old_axis = (case List.find (\<lambda>i. perm ! i = old_axis) [0..<length perm] of Some i \<Rightarrow> i | None \<Rightarrow> old_axis)"

definition remap_sharding :: "nat list \<Rightarrow> shard_layout \<Rightarrow> shard_layout" where
  "remap_sharding perm sh =
     (case sh of ColShard axis \<Rightarrow> ColShard (remap_axis perm axis) | RowShard axis \<Rightarrow> RowShard (remap_axis perm axis) | _ \<Rightarrow> sh)"

definition push_view :: "'a graph \<Rightarrow> nat \<Rightarrow> tensor \<Rightarrow> int list \<Rightarrow> nat \<times> 'a graph" where
  "push_view g edge t strides =
     (length (gr_edges g),
      g\<lparr>gr_edges := gr_edges g @ [\<lparr>ge_id = length (gr_edges g), ge_tensor = t, ge_strides = strides, ge_source = Some edge\<rparr>]\<rparr>)"

definition transpose_edge :: "'a graph \<Rightarrow> nat \<Rightarrow> nat list \<Rightarrow> (nat \<times> 'a graph) ir_fate" where
  "transpose_edge g edge perm =
     (case get (gr_edges g) edge of
        None \<Rightarrow> IrErr (GraphEdgeNotFound edge)
      | Some e \<Rightarrow>
          let t = ge_tensor e; rank = tn_rank t
          in if length perm \<noteq> rank then IrErr (OpRankMismatch ''transpose_view'' ''edge'' rank (length perm))
             else case ir_from_problems (perm_problems rank perm) of
                    Inl err \<Rightarrow> IrErr err
                  | Inr _ \<Rightarrow>
                      if length (ge_strides e) < rank then IrPanic
                      else case tensor_new (map (\<lambda>p. tn_shape t ! p) perm) (tn_dtype t) (tn_quant t) (tn_layout t) (tn_placement t)
                                  (remap_sharding perm (tn_sharding t)) (tn_class t) of
                             Inl err \<Rightarrow> IrErr err
                           | Inr t' \<Rightarrow> IrOk (push_view g edge t' (map (\<lambda>p. ge_strides e ! p) perm)))"

text \<open>\<open>count * extent\<close> in \<open>u128\<close>: \<open>None\<close> is the overflow, \<open>Some None\<close> a symbolic dimension.\<close>

fun concrete_count_from :: "dim list \<Rightarrow> nat \<Rightarrow> nat option option" where
  "concrete_count_from [] acc = Some (Some acc)"
| "concrete_count_from (Concrete c # ds) acc =
     (if acc * c < 2 ^ 128 then concrete_count_from ds (acc * c) else None)"
| "concrete_count_from (Symbolic _ # ds) acc = Some None"

definition concrete_element_count :: "dim list \<Rightarrow> nat option option" where
  "concrete_element_count shape = concrete_count_from shape 1"

definition reshape_edge :: "'a graph \<Rightarrow> nat \<Rightarrow> dim list \<Rightarrow> (nat \<times> 'a graph) ir_fate" where
  "reshape_edge g edge new_shape =
     (case get (gr_edges g) edge of
        None \<Rightarrow> IrErr (GraphEdgeNotFound edge)
      | Some e \<Rightarrow>
          let t = ge_tensor e; expected = compute_contiguous_strides (tn_shape t)
          in if ge_strides e \<noteq> expected then IrErr (StrideMismatch edge (ge_strides e) expected)
             else if tn_layout t \<noteq> CONTIGUOUS then IrErr (OpLayoutMismatch ''reshape_view'' ''edge'' CONTIGUOUS (tn_layout t))
             else if new_shape \<noteq> tn_shape t \<and> tn_sharding t \<notin> {Replicated, Partial}
             then IrErr (OpAttribute ''reshape_view'' ''sharding'' (ShardingRemap (tn_sharding t)))
             else case (concrete_element_count (tn_shape t), concrete_element_count new_shape) of
                    (Some old_count, Some new_count) \<Rightarrow>
                      if old_count \<noteq> None \<and> new_count \<noteq> None \<and> old_count \<noteq> new_count
                      then IrErr (OpShapeMismatch ''reshape_view'' ''edge'' (ElementCount (the old_count) (the new_count)))
                      else (case tensor_new new_shape (tn_dtype t) (tn_quant t) (tn_layout t) (tn_placement t) (tn_sharding t) (tn_class t) of
                              Inl err \<Rightarrow> IrErr err
                            | Inr t' \<Rightarrow> IrOk (push_view g edge t' (compute_contiguous_strides (tn_shape t'))))
                  | _ \<Rightarrow> IrPanic)"

definition rewire_node_input :: "'a graph \<Rightarrow> nat \<Rightarrow> nat \<Rightarrow> nat \<Rightarrow> 'a graph ir_result" where
  "rewire_node_input g node input_pos new_edge =
     bind_r (ir_from_problems
       ((if node \<ge> length (gr_nodes g) then [GraphNodeNotFound node] else []) @
        (if new_edge \<ge> length (gr_edges g) then [GraphEdgeNotFound new_edge] else []) @
        (case get (gr_nodes g) node of
           Some nd \<Rightarrow> if input_pos \<ge> length (gn_inputs nd) then [OpInputCountMismatch ''rewire'' (length (gn_inputs nd)) input_pos] else []
         | None \<Rightarrow> [])))
       (\<lambda>_. let nd = gr_nodes g ! node
            in Inr (g\<lparr>gr_nodes := (gr_nodes g)[node := nd\<lparr>gn_inputs := (gn_inputs nd)[input_pos := new_edge]\<rparr>]\<rparr>))"

section \<open>Inserting copies\<close>

record copy_plan =
  cp_src_edge_id :: nat
  cp_actual_strides :: "int list"
  cp_expected_strides :: "int list"
  cp_consumers :: "(nat \<times> nat) list"

record copy_scan =
  cs_plans :: "copy_plan list"
  cs_plan_by_source :: "nat \<rightharpoonup> nat"
  cs_existing_rewires :: "(nat \<times> nat \<times> nat) list"

text \<open>One input of one node; an edge out of range is a panic.\<close>

definition scan_input :: "'a graph \<Rightarrow> nat \<Rightarrow> 'a graph_node \<Rightarrow> nat \<Rightarrow> copy_scan \<Rightarrow> copy_scan option" where
  "scan_input g node_idx node input_pos st =
     (let edge_id = gn_inputs node ! input_pos;
          req = (case get (gn_input_requirements node) input_pos of Some r \<Rightarrow> r | None \<Rightarrow> AnyStride)
      in case req of
           AnyStride \<Rightarrow> Some st
         | Contiguous \<Rightarrow>
             (case get (gr_edges g) edge_id of
                None \<Rightarrow> None
              | Some edge \<Rightarrow>
                  let expected = compute_contiguous_strides (tn_shape (ge_tensor edge))
                  in if ge_strides edge = expected then Some st
                     else Some (case List.find (\<lambda>c. ic_source_edge c = edge_id) (gr_inserted_copies g) of
                            Some existing \<Rightarrow>
                              st\<lparr>cs_existing_rewires := cs_existing_rewires st @ [(ic_dest_edge existing, node_idx, input_pos)]\<rparr>
                          | None \<Rightarrow>
                              (case cs_plan_by_source st edge_id of
                                 Some i \<Rightarrow>
                                   st\<lparr>cs_plans := (cs_plans st)[i := (cs_plans st ! i)\<lparr>cp_consumers := cp_consumers (cs_plans st ! i) @ [(node_idx, input_pos)]\<rparr>]\<rparr>
                               | None \<Rightarrow>
                                   st\<lparr>cs_plan_by_source := (cs_plan_by_source st)(edge_id \<mapsto> length (cs_plans st)),
                                      cs_plans := cs_plans st @ [\<lparr>cp_src_edge_id = edge_id, cp_actual_strides = ge_strides edge,
                                        cp_expected_strides = expected, cp_consumers = [(node_idx, input_pos)]\<rparr>]\<rparr>))))"

fun fold_o :: "('a \<Rightarrow> 'b \<Rightarrow> 'b option) \<Rightarrow> 'a list \<Rightarrow> 'b \<Rightarrow> 'b option" where
  "fold_o f [] b = Some b"
| "fold_o f (x # xs) b = (case f x b of None \<Rightarrow> None | Some b' \<Rightarrow> fold_o f xs b')"

definition is_copy :: "'a op \<Rightarrow> bool" where
  "is_copy oper = (case oper of OpCopy _ \<Rightarrow> True | _ \<Rightarrow> False)"

definition scan_node :: "'a graph \<Rightarrow> nat \<times> 'a graph_node \<Rightarrow> copy_scan \<Rightarrow> copy_scan option" where
  "scan_node g = (\<lambda>(node_idx, node) st.
     if is_copy (gn_op node) then Some st else fold_o (scan_input g node_idx node) [0..<length (gn_inputs node)] st)"

definition copy_scan_of :: "'a graph \<Rightarrow> copy_scan option" where
  "copy_scan_of g = fold_o (scan_node g) (List.enumerate 0 (gr_nodes g))
     \<lparr>cs_plans = [], cs_plan_by_source = Map.empty, cs_existing_rewires = []\<rparr>"

definition set_input :: "nat \<Rightarrow> nat \<times> nat \<Rightarrow> 'a graph_node list \<Rightarrow> 'a graph_node list" where
  "set_input edge = (\<lambda>(node_idx, input_pos) nodes.
     nodes[node_idx := (nodes ! node_idx)\<lparr>gn_inputs := (gn_inputs (nodes ! node_idx))[input_pos := edge]\<rparr>])"

fun note_consumer :: "nat \<Rightarrow> nat \<Rightarrow> inserted_copy list \<Rightarrow> inserted_copy list" where
  "note_consumer dest node_idx [] = []"
| "note_consumer dest node_idx (c # cs) =
     (if ic_dest_edge c = dest
      then (if node_idx \<in> set (ic_consumer_nodes c) then c
            else c\<lparr>ic_consumer_nodes := sort (ic_consumer_nodes c @ [node_idx])\<rparr>) # cs
      else c # note_consumer dest node_idx cs)"

definition apply_rewire :: "nat \<times> nat \<times> nat \<Rightarrow> 'a graph \<Rightarrow> 'a graph" where
  "apply_rewire = (\<lambda>(dest, node_idx, input_pos) g.
     g\<lparr>gr_nodes := set_input dest (node_idx, input_pos) (gr_nodes g),
       gr_inserted_copies := note_consumer dest node_idx (gr_inserted_copies g)\<rparr>)"

definition apply_plan :: "copy_plan \<Rightarrow> 'a graph \<Rightarrow> 'a graph ir_result" where
  "apply_plan plan g =
     (let t = ge_tensor (gr_edges g ! cp_src_edge_id plan)
      in bind_r (tensor_new (tn_shape t) (tn_dtype t) (tn_quant t) CONTIGUOUS (tn_placement t) (tn_sharding t) (tn_class t)) (\<lambda>t'.
           let dest = length (gr_edges g); node = length (gr_nodes g);
               nodes = gr_nodes g @ [\<lparr>gn_id = node, gn_op = OpCopy Contiguize, gn_inputs = [cp_src_edge_id plan],
                                      gn_input_requirements = [AnyStride], gn_outputs = [dest]\<rparr>]
           in Inr (g\<lparr>gr_edges := gr_edges g @ [fresh_edge (gr_edges g) t'],
                     gr_nodes := fold (set_input dest) (cp_consumers plan) nodes,
                     gr_inserted_copies := gr_inserted_copies g @
                       [\<lparr>ic_copy_node = node, ic_source_edge = cp_src_edge_id plan, ic_dest_edge = dest,
                         ic_consumer_nodes = remdups (sort (map fst (cp_consumers plan))),
                         ic_actual_strides = cp_actual_strides plan, ic_expected_strides = cp_expected_strides plan\<rparr>]\<rparr>)))"

text \<open>An error stops between two plans and keeps the copies inserted before it.\<close>

fun apply_plans :: "copy_plan list \<Rightarrow> 'a graph \<Rightarrow> unit ir_result \<times> 'a graph" where
  "apply_plans [] g = (Inr (), g)"
| "apply_plans (p # ps) g = (case apply_plan p g of Inl e \<Rightarrow> (Inl e, g) | Inr g' \<Rightarrow> apply_plans ps g')"

definition materialize_copies :: "'a graph \<Rightarrow> nat ir_fate \<times> 'a graph" where
  "materialize_copies g =
     (case copy_scan_of g of
        None \<Rightarrow> (IrPanic, g)
      | Some st \<Rightarrow>
          (case apply_plans (cs_plans st) (fold apply_rewire (cs_existing_rewires st) g) of
             (Inl e, g') \<Rightarrow> (IrErr e, g')
           | (Inr _, g') \<Rightarrow> (IrOk (length (cs_plans st)), g')))"

section \<open>Validation\<close>

definition has_op :: "'a graph \<Rightarrow> ('a op \<Rightarrow> bool) \<Rightarrow> bool" where
  "has_op g P = list_ex (\<lambda>node. P (gn_op node)) (gr_nodes g)"

definition structured_problems :: "'a graph \<Rightarrow> graph_error list" where
  "structured_problems g =
     (let attention = has_op g (\<lambda>oper. case oper of OpAttention _ \<Rightarrow> True | _ \<Rightarrow> False);
          state_write = has_op g (\<lambda>oper. case oper of OpStateWriteKv _ \<Rightarrow> True | _ \<Rightarrow> False);
          postprocess = has_op g (\<lambda>oper. case oper of OpLogitsPostprocess _ \<Rightarrow> True | _ \<Rightarrow> False);
          sample = has_op g (\<lambda>oper. case oper of OpSample _ \<Rightarrow> True | _ \<Rightarrow> False);
          verify = has_op g (\<lambda>oper. case oper of OpVerify _ \<Rightarrow> True | _ \<Rightarrow> False);
          batch_meta = (BatchMetaInput \<in> set (gr_external_inputs g));
          sampling = (SamplingParamsInput \<in> set (gr_external_inputs g));
          rng = (RngStateInput \<in> set (gr_external_inputs g));
          updated = (UpdatedRngStateOutput \<in> set (gr_external_outputs g))
      in (if attention \<and> \<not> batch_meta then [GraphExternalInputMissing BatchMeta ''attention''] else []) @
         (if state_write \<and> \<not> batch_meta then [GraphExternalInputMissing BatchMeta ''state_write_kv''] else []) @
         (if postprocess \<and> \<not> sampling then [GraphExternalInputMissing SamplingParams ''logits_postprocess''] else []) @
         (if sample \<and> \<not> rng then [GraphExternalInputMissing RngState ''sample''] else []) @
         (if verify \<and> \<not> rng then [GraphExternalInputMissing RngState ''verify''] else []) @
         (if sample \<and> \<not> updated then [GraphExternalOutputMissing UpdatedRngState ''sample''] else []) @
         (if verify \<and> \<not> updated then [GraphExternalOutputMissing UpdatedRngState ''verify''] else []))"

definition rope_problems :: "'a graph \<Rightarrow> 'a graph_node \<Rightarrow> graph_error list" where
  "rope_problems g node =
     (case gn_op node of
        OpRope _ \<Rightarrow>
          (case gr_positions g of
             None \<Rightarrow> [GraphPositionsMissing ''rope'']
           | Some (_, expected) \<Rightarrow>
               (case get (gn_inputs node) 1 of
                  Some edge \<Rightarrow> if edge = expected then [] else [GraphRopePositionsMismatch (gn_id node) edge expected]
                | None \<Rightarrow> [GraphPositionsMissing ''rope'']))
      | _ \<Rightarrow> [])"

definition node_problems :: "'a op_check \<Rightarrow> 'a graph \<Rightarrow> 'a graph_node \<Rightarrow> graph_error list" where
  "node_problems check g node =
     (let n = length (gr_edges g); missing = filter (\<lambda>e. e \<ge> n) (gn_inputs node @ gn_outputs node);
          tensors = map (\<lambda>e. ge_tensor (gr_edges g ! e))
      in if missing \<noteq> [] then map GraphEdgeNotFound missing
         else problems_of (op_validate check (gn_op node) (tensors (gn_inputs node)) (tensors (gn_outputs node))))"

definition graph_validate :: "'a op_check \<Rightarrow> 'a graph \<Rightarrow> unit ir_fate" where
  "graph_validate check g =
     (case topological_order g of
        IrPanic \<Rightarrow> IrPanic
      | ordered \<Rightarrow>
          (case ir_from_problems
             (concat (map (\<lambda>e. rank_problem (gr_key g) (ge_id e) (ge_tensor e)) (gr_edges g)) @
              (case ordered of IrErr e \<Rightarrow> problems_of (Inl e :: unit ir_result) | _ \<Rightarrow> []) @
              structured_problems g @
              concat (map (rope_problems g) (gr_nodes g)) @
              concat (map (node_problems check g) (gr_nodes g)) @
              concat (map (\<lambda>out. case output_edge_id out of
                                   Some edge \<Rightarrow> if edge \<ge> length (gr_edges g) then [GraphEdgeNotFound edge] else []
                                 | None \<Rightarrow> []) (gr_external_outputs g))) of
             Inl e \<Rightarrow> IrErr e
           | Inr _ \<Rightarrow> IrOk ()))"

end
