(* ===== verification/Ir_Order.thy ===== *)
theory Ir_Order
  imports Ir_Graph
begin

text \<open>
  The execution order of \<open>Graph::topological_order\<close>: the loop over a queue of nodes without pending
  inputs never underflows a degree, visits every node after all producers of its inputs, and visits all
  nodes exactly when the dependencies have no cycle.
\<close>

section \<open>Degrees and adjacency\<close>

definition in_range :: "nat \<Rightarrow> (nat \<times> nat) list \<Rightarrow> bool" where
  "in_range n us \<longleftrightarrow> (\<forall>(p, c) \<in> set us. p < n \<and> c < n)"

lemma in_degree_length [simp]: "length (in_degree n us) = n"
proof -
  have "length (fold (\<lambda>(_, c) deg. deg[c := deg ! c + 1]) us deg) = length deg" for deg :: "nat list"
    by (induction us arbitrary: deg) auto
  then show ?thesis by (simp add: in_degree_def)
qed

lemma in_degree_nth: "c < n \<Longrightarrow> in_degree n us ! c = length (filter (\<lambda>u. snd u = c) us)"
proof -
  have "c < length deg \<Longrightarrow> fold (\<lambda>(_, c) deg. deg[c := deg ! c + 1]) us deg ! c = deg ! c + length (filter (\<lambda>u. snd u = c) us)"
    for deg :: "nat list"
    by (induction us arbitrary: deg) (auto simp: nth_list_update)
  then show "c < n \<Longrightarrow> ?thesis" by (simp add: in_degree_def)
qed

lemma adjacency_length [simp]: "length (adjacency n us) = n"
proof -
  have "length (fold (\<lambda>(p, c) adj. adj[p := adj ! p @ [c]]) us adj) = length adj" for adj :: "nat list list"
    by (induction us arbitrary: adj) auto
  then show ?thesis by (simp add: adjacency_def)
qed

lemma adjacency_nth: "p < n \<Longrightarrow> adjacency n us ! p = map snd (filter (\<lambda>u. fst u = p) us)"
proof -
  have "p < length adj \<Longrightarrow> fold (\<lambda>(p, c) adj. adj[p := adj ! p @ [c]]) us adj ! p = adj ! p @ map snd (filter (\<lambda>u. fst u = p) us)"
    for adj :: "nat list list"
    by (induction us arbitrary: adj) (auto simp: nth_list_update)
  then show "p < n \<Longrightarrow> ?thesis" by (simp add: adjacency_def)
qed

section \<open>One visit\<close>

lemma relax_ok:
  assumes "\<forall>c \<in> set cs. c < length deg" and "\<forall>c. count_list cs c \<le> deg ! c"
  shows "\<exists>q deg'. relax cs deg queue = Some (deg', queue @ q) \<and> length deg' = length deg \<and>
    (\<forall>c < length deg. deg' ! c = deg ! c - count_list cs c) \<and> distinct q \<and> set q = {c. c < length deg \<and> 0 < deg ! c \<and> deg ! c = count_list cs c}"
  using assms
proof (induction cs arbitrary: deg queue)
  case (Cons c cs)
  let ?deg = "deg[c := deg ! c - 1]" and ?q = "if deg ! c = 1 then [c] else []"
  have c: "c < length deg" "0 < deg ! c" using Cons.prems(1) Cons.prems(2) [rule_format, of c] by auto
  have le: "\<forall>v. count_list cs v \<le> ?deg ! v"
  proof
    fix v
    show "count_list cs v \<le> ?deg ! v" using Cons.prems(2) [rule_format, of v] c by (cases "v = c") auto
  qed
  have "\<forall>v \<in> set cs. v < length ?deg" using Cons.prems(1) by simp
  from Cons.IH [OF this le, of "queue @ ?q"] obtain q deg' where
    r: "relax cs ?deg (queue @ ?q) = Some (deg', (queue @ ?q) @ q)" "length deg' = length deg"
      "\<forall>v < length deg. deg' ! v = ?deg ! v - count_list cs v" "distinct q"
      "set q = {v. v < length deg \<and> 0 < ?deg ! v \<and> ?deg ! v = count_list cs v}" by auto
  have e: "relax (c # cs) deg queue = Some (deg', queue @ ?q @ q)" using r(1) c by (cases "deg ! c = 1") (simp_all add: Let_def)
  have "c \<notin> set q" if "deg ! c = 1" using r(5) that c by simp
  then have "distinct (?q @ q)" using r(4) by simp
  moreover have "\<forall>v < length deg. deg' ! v = deg ! v - count_list (c # cs) v"
    using r(3) c by (auto simp: nth_list_update)
  moreover have "set (?q @ q) = {v. v < length deg \<and> 0 < deg ! v \<and> deg ! v = count_list (c # cs) v}"
  proof (rule set_eqI)
    fix v
    show "v \<in> set (?q @ q) \<longleftrightarrow> v \<in> {v. v < length deg \<and> 0 < deg ! v \<and> deg ! v = count_list (c # cs) v}"
    proof (cases "v = c")
      case True
      have "count_list cs c \<le> deg ! c - 1" using le [rule_format, of c] c by simp
      moreover have "c \<in> set q \<longleftrightarrow> 0 < deg ! c - 1 \<and> deg ! c - 1 = count_list cs c" unfolding r(5) using c by simp
      ultimately show ?thesis using True c by (cases "deg ! c = 1") auto
    next
      case False
      have "v \<in> set q \<longleftrightarrow> v < length deg \<and> 0 < deg ! v \<and> deg ! v = count_list cs v" unfolding r(5) using False by simp
      then show ?thesis using False by simp
    qed
  qed
  ultimately show ?case using e r(2) by blast
qed auto

section \<open>The loop\<close>

definition visited :: "nat \<Rightarrow> (nat \<times> nat) list \<Rightarrow> nat list \<Rightarrow> nat list \<Rightarrow> nat list \<Rightarrow> bool" where
  "visited n us deg queue order \<longleftrightarrow> length deg = n \<and>
     (\<forall>c < n. deg ! c = length (filter (\<lambda>u. snd u = c \<and> fst u \<notin> set order) us)) \<and>
     distinct (order @ queue) \<and> set (order @ queue) = {c. c < n \<and> deg ! c = 0} \<and>
     (\<forall>i < length order. \<forall>p. (p, order ! i) \<in> set us \<longrightarrow> p \<in> set (take i order))"

lemma visitedD:
  assumes "visited n us deg queue order"
  shows "length deg = n" and "c < n \<Longrightarrow> deg ! c = length (filter (\<lambda>u. snd u = c \<and> fst u \<notin> set order) us)"
    and "distinct (order @ queue)" and "set (order @ queue) = {c. c < n \<and> deg ! c = 0}"
    and "i < length order \<Longrightarrow> (p, order ! i) \<in> set us \<Longrightarrow> p \<in> set (take i order)"
  using assms unfolding visited_def by blast+

lemma visited_start:
  "visited n us (in_degree n us) (filter (\<lambda>v. in_degree n us ! v = 0) [0..<n]) []"
  by (auto simp: visited_def in_degree_nth)

lemma count_filter: "count_list (map snd (filter P us)) c = length (filter (\<lambda>u. snd u = c \<and> P u) us)"
  by (induction us) auto

lemma filter_split:
  "x \<notin> A \<Longrightarrow> length (filter (\<lambda>u. Q u \<and> f u \<notin> A) us) =
     length (filter (\<lambda>u. Q u \<and> f u = x) us) + length (filter (\<lambda>u. Q u \<and> f u \<notin> insert x A) us)"
  by (induction us) auto

lemma visited_step:
  assumes v: "visited n us deg (node # queue) order" and r: "in_range n us"
  shows "\<exists>deg' queue'. relax (adjacency n us ! node) deg queue = Some (deg', queue') \<and> visited n us deg' queue' (order @ [node])"
proof -
  let ?cs = "adjacency n us ! node"
  have l: "length deg = n" and d: "\<And>c. c < n \<Longrightarrow> deg ! c = length (filter (\<lambda>u. snd u = c \<and> fst u \<notin> set order) us)"
    and dist: "distinct (order @ node # queue)" and zero: "set (order @ node # queue) = {c. c < n \<and> deg ! c = 0}"
    and pre: "\<And>i p. i < length order \<Longrightarrow> (p, order ! i) \<in> set us \<Longrightarrow> p \<in> set (take i order)"
    using visitedD [OF v] by blast+
  have node: "node < n" "deg ! node = 0" "node \<notin> set order" using zero dist by auto
  have cs: "?cs = map snd (filter (\<lambda>u. fst u = node) us)" by (rule adjacency_nth [OF node(1)])
  have sp: "deg ! c = count_list ?cs c + length (filter (\<lambda>u. snd u = c \<and> fst u \<notin> set (order @ [node])) us)" if "c < n" for c
    using filter_split [OF node(3), of "\<lambda>u. snd u = c" fst us] d [OF that] by (simp add: cs count_filter)
  have in_n: "\<forall>c \<in> set ?cs. c < length deg" using r l by (auto simp: cs in_range_def)
  have "count_list ?cs c \<le> deg ! c" for c
  proof (cases "c < n")
    case False
    then have "c \<notin> set ?cs" using in_n l by auto
    then show ?thesis by (simp add: count_notin)
  qed (use sp in simp)
  then obtain q deg' where
    rel: "relax ?cs deg queue = Some (deg', queue @ q)" "length deg' = n" "distinct q"
      "\<And>c. c < n \<Longrightarrow> deg' ! c = deg ! c - count_list ?cs c" "set q = {c. c < n \<and> 0 < deg ! c \<and> deg ! c = count_list ?cs c}"
    using relax_ok [OF in_n, of queue] l by auto
  have d': "deg' ! c = length (filter (\<lambda>u. snd u = c \<and> fst u \<notin> set (order @ [node])) us)" if "c < n" for c
    using rel(4) [OF that] sp [OF that] by simp
  have done': "p \<in> set order" if "(p, node) \<in> set us" for p
  proof (rule ccontr)
    assume "p \<notin> set order"
    then have "filter (\<lambda>u. snd u = node \<and> fst u \<notin> set order) us \<noteq> []" using that by (force simp: filter_empty_conv)
    then show False using d [OF node(1)] node(2) by simp
  qed
  have "visited n us deg' (queue @ q) (order @ [node])" unfolding visited_def
  proof (intro conjI)
    have "set q \<inter> set (order @ node # queue) = {}" unfolding zero rel(5) by auto
    then show "distinct ((order @ [node]) @ queue @ q)" using dist rel(3) by auto
    have "c < n \<and> deg' ! c = 0 \<longleftrightarrow> c \<in> set (order @ node # queue) \<or> c \<in> set q" for c
      unfolding zero rel(5) using rel(4) [of c] sp [of c] by auto
    then show "set ((order @ [node]) @ queue @ q) = {c. c < n \<and> deg' ! c = 0}" by auto
    show "\<forall>i<length (order @ [node]). \<forall>p. (p, (order @ [node]) ! i) \<in> set us \<longrightarrow> p \<in> set (take i (order @ [node]))"
    proof (intro allI impI)
      fix i p assume i: "i < length (order @ [node])" and u: "(p, (order @ [node]) ! i) \<in> set us"
      show "p \<in> set (take i (order @ [node]))"
      proof (cases "i < length order")
        case True
        then show ?thesis using pre [OF True, of p] u by (simp add: nth_append)
      next
        case False
        then have "i = length order" using i by simp
        then show ?thesis using done' [of p] u by simp
      qed
    qed
  qed (use rel(2) d' in auto)
  with rel(1) show ?thesis by blast
qed

lemma kahn_visited:
  assumes "in_range n us" and "visited n us deg queue order"
  shows "\<exists>order' deg'. kahn (adjacency n us) deg queue order = Some (order', deg') \<and> visited n us deg' [] order'"
  using assms(2)
proof (induction "adjacency n us" deg queue order rule: kahn.induct)
  case (2 deg node queue order)
  obtain deg' queue' where r: "relax (adjacency n us ! node) deg queue = Some (deg', queue')"
    and v: "visited n us deg' queue' (order @ [node])" using visited_step [OF 2(2) assms(1)] by blast
  have "node < n" using 2(2) by (auto simp: visited_def)
  with 2(1) [OF _ r refl v] r show ?case by simp
qed auto

section \<open>The result\<close>

lemma distinct_full: "distinct xs \<Longrightarrow> set xs \<subseteq> {..<n} \<Longrightarrow> length xs = n \<longleftrightarrow> set xs = {..<n::nat}"
  using distinct_card [of xs] card_subset_eq [of "{..<n}" "set xs"] by auto

lemma visited_acyclic:
  assumes v: "visited n us deg [] order" and r: "in_range n us"
  shows "length order = n \<longleftrightarrow> acyclic (set us)"
    and "set order = {c. c < n \<and> deg ! c = 0}" and "distinct order"
proof -
  have dist: "distinct order" and ord: "set order = {c. c < n \<and> deg ! c = 0}"
    and d: "\<And>c. c < n \<Longrightarrow> deg ! c = length (filter (\<lambda>u. snd u = c \<and> fst u \<notin> set order) us)"
    and pre: "\<And>i p. i < length order \<Longrightarrow> (p, order ! i) \<in> set us \<Longrightarrow> p \<in> set (take i order)"
    using visitedD [OF v, unfolded append_Nil2] by blast+
  show "set order = {c. c < n \<and> deg ! c = 0}" "distinct order" by (fact ord dist)+
  have "set order \<subseteq> {..<n}" unfolding ord by auto
  then have full: "length order = n \<longleftrightarrow> set order = {..<n}" by (rule distinct_full [OF dist])
  show "length order = n \<longleftrightarrow> acyclic (set us)"
  proof
    assume "length order = n"
    then have all: "set order = {..<n}" using full by simp
    define pos where "pos v = (THE i. i < length order \<and> order ! i = v)" for v
    have pos: "pos (order ! i) = i" if "i < length order" for i
      unfolding pos_def using that dist by (intro the_equality) (auto simp: nth_eq_iff_index_eq)
    have "pos p < pos c" if u: "(p, c) \<in> set us" for p c
    proof -
      have "c \<in> set order" using u r all by (auto simp: in_range_def)
      then obtain i where i: "i < length order" "order ! i = c" by (auto simp: in_set_conv_nth)
      then obtain j where "j < i" "order ! j = p" using pre [of i p] u by (auto simp: in_set_conv_nth)
      then show ?thesis using i pos [of i] pos [of j] by simp
    qed
    then have "set us \<subseteq> measure pos" by auto
    then show "acyclic (set us)" using wf_acyclic wf_measure acyclic_subset by metis
  next
    assume a: "acyclic (set us)"
    show "length order = n"
    proof (rule ccontr)
      assume "length order \<noteq> n"
      then have "{..<n} - set order \<noteq> {}" using full \<open>set order \<subseteq> {..<n}\<close> by blast
      then obtain c0 where c0: "c0 \<in> {c. c < n \<and> c \<notin> set order}" by blast
      have "wf (set us)" by (rule finite_acyclic_wf) (simp_all add: a)
      then obtain c where c: "c < n" "c \<notin> set order" and m: "\<And>p. (p, c) \<in> set us \<Longrightarrow> p \<notin> {c. c < n \<and> c \<notin> set order}"
        using c0 by (metis (mono_tags, lifting) wfE_min mem_Collect_eq)
      have "0 < deg ! c" using c ord by auto
      then have "filter (\<lambda>u. snd u = c \<and> fst u \<notin> set order) us \<noteq> []" using d [OF c(1)] by auto
      then obtain p where "(p, c) \<in> set us" "p \<notin> set order" by (auto simp: filter_empty_conv)
      then show False using m [of p] r by (auto simp: in_range_def)
    qed
  qed
qed

text \<open>
  The order of a graph whose uses are in range: found exactly for acyclic uses, a permutation of the nodes with
  every producer before its consumers, and a reported node waits for an input.
\<close>

lemma topological_order_cases:
  assumes r: "in_range (length (gr_nodes g)) (uses g)" and m: "missing_inputs g = []"
  shows "if acyclic (set (uses g))
    then \<exists>order. topological_order g = IrOk order \<and> distinct order \<and> set order = {..<length (gr_nodes g)} \<and>
      (\<forall>i < length order. \<forall>p. (p, order ! i) \<in> set (uses g) \<longrightarrow> p \<in> set (take i order))
    else \<exists>v. topological_order g = IrErr (GraphCycle v) \<and> v < length (gr_nodes g) \<and> (\<exists>p. (p, v) \<in> set (uses g))"
proof -
  let ?n = "length (gr_nodes g)" and ?us = "uses g"
  obtain order deg where k: "kahn (adjacency ?n ?us) (in_degree ?n ?us) (filter (\<lambda>v. in_degree ?n ?us ! v = 0) [0..<?n]) [] = Some (order, deg)"
    and v: "visited ?n ?us deg [] order" using kahn_visited [OF r visited_start] by blast
  note a = visited_acyclic [OF v r]
  have np: "\<not> (\<exists>(p, c) \<in> set ?us. p \<ge> ?n \<or> c \<ge> ?n)" using r by (auto simp: in_range_def)
  have t: "topological_order g = (if length order \<noteq> ?n
      then IrErr (GraphCycle (case List.find (\<lambda>v. 0 < deg ! v) [0..<?n] of Some v \<Rightarrow> v | None \<Rightarrow> 0)) else IrOk order)"
    unfolding topological_order_def Let_def using np m k by simp
  show ?thesis
  proof (cases "acyclic (set ?us)")
    case True
    then have l: "length order = ?n" using a(1) by simp
    have "set order \<subseteq> {..<?n}" unfolding a(2) by auto
    then have "set order = {..<?n}" using distinct_full [OF a(3)] l by blast
    then show ?thesis using True t l a(3) visitedD(5) [OF v] by auto
  next
    case False
    then have l: "length order \<noteq> ?n" using a(1) by simp
    have "\<exists>c < ?n. 0 < deg ! c"
    proof (rule ccontr)
      assume "\<not> ?thesis"
      then have "set order = {..<?n}" using a(2) by auto
      then show False using l distinct_card [OF a(3)] by simp
    qed
    then obtain w where w: "List.find (\<lambda>v. 0 < deg ! v) [0..<?n] = Some w" "w < ?n" "0 < deg ! w"
      by (cases "List.find (\<lambda>v. 0 < deg ! v) [0..<?n]") (auto simp: find_None_iff find_Some_iff)
    then have "filter (\<lambda>u. snd u = w \<and> fst u \<notin> set order) ?us \<noteq> []"
      using visitedD(2) [OF v w(2)] by (metis length_greater_0_conv)
    then have "\<exists>p. (p, w) \<in> set ?us" by (auto simp: filter_empty_conv)
    then show ?thesis using False t l w by simp
  qed
qed

end
