(* ===== verification/Ir_Build.thy ===== *)
theory Ir_Build
  imports Ir_Order
begin

text \<open>
  The invariant of step graphs and that every builder operation keeps it: identifiers are indices, tensors are
  well-formed, every edge has at most one producer, views refer to earlier edges, nodes refer to
  existing edges, and external bindings are unique and in range. In such a graph the producer of an edge is
  found through its views and the execution order never meets a bad index.
\<close>

section \<open>Invariant\<close>

definition edge_ok :: "graph_edge list \<Rightarrow> nat \<Rightarrow> bool" where
  "edge_ok es i \<longleftrightarrow> (let e = es ! i in ge_id e = i \<and> tensor_ok (ge_tensor e) \<and> length (ge_strides e) = tn_rank (ge_tensor e) \<and>
     (\<forall>s. ge_source e = Some s \<longrightarrow> s < i))"

definition edges_ok :: "graph_edge list \<Rightarrow> bool" where
  "edges_ok es \<longleftrightarrow> (\<forall>i < length es. edge_ok es i)"

definition node_ok :: "nat \<Rightarrow> nat \<Rightarrow> 'a graph_node \<Rightarrow> bool" where
  "node_ok n i node \<longleftrightarrow> gn_id node = i \<and> length (gn_input_requirements node) = length (gn_inputs node) \<and>
     set (gn_inputs node) \<subseteq> {..<n} \<and> set (gn_outputs node) \<subseteq> {..<n}"

definition nodes_ok :: "nat \<Rightarrow> 'a graph_node list \<Rightarrow> bool" where
  "nodes_ok n ns \<longleftrightarrow> (\<forall>i < length ns. node_ok n i (ns ! i)) \<and> distinct (concat (map gn_outputs ns))"

definition bindings_ok :: "'a graph \<Rightarrow> bool" where
  "bindings_ok g \<longleftrightarrow> distinct (map input_kind (gr_external_inputs g)) \<and> distinct (map output_kind (gr_external_outputs g)) \<and>
     (\<forall>k e. TensorInput k e \<in> set (gr_external_inputs g) \<longrightarrow> input_tensor_backed k \<and> e < length (gr_edges g)) \<and>
     (\<forall>k e. TensorOutput k e \<in> set (gr_external_outputs g) \<longrightarrow> output_tensor_backed k \<and> e < length (gr_edges g)) \<and>
     (\<forall>k e. gr_positions g = Some (k, e) \<longrightarrow> e < length (gr_edges g))"

definition graph_ok :: "'a graph \<Rightarrow> bool" where
  "graph_ok g \<longleftrightarrow> edges_ok (gr_edges g) \<and> nodes_ok (length (gr_edges g)) (gr_nodes g) \<and> bindings_ok g \<and>
     (\<forall>c \<in> set (gr_inserted_copies g). ic_source_edge c < length (gr_edges g) \<and> ic_dest_edge c < length (gr_edges g) \<and>
        ic_copy_node c < length (gr_nodes g))"

section \<open>Strides\<close>

lemma strides_length: "length (compute_contiguous_strides shape) = length shape"
proof -
  have "length (fst (strides_from shape)) = length shape"
    by (induction shape) (auto simp: Let_def split: prod.splits)
  then show ?thesis by (simp add: compute_contiguous_strides_def)
qed

lemma fresh_edge_fields [simp]:
  "ge_id (fresh_edge es t) = length es" "ge_tensor (fresh_edge es t) = t" "ge_source (fresh_edge es t) = None"
  "ge_strides (fresh_edge es t) = compute_contiguous_strides (tn_shape t)" "is_contiguous (fresh_edge es t)"
  by (simp_all add: fresh_edge_def is_contiguous_def)

section \<open>Growing a graph\<close>

lemma edges_ok_snoc:
  "edges_ok es \<Longrightarrow> ge_id e = length es \<Longrightarrow> tensor_ok (ge_tensor e) \<Longrightarrow> length (ge_strides e) = tn_rank (ge_tensor e) \<Longrightarrow>
   (\<And>s. ge_source e = Some s \<Longrightarrow> s < length es) \<Longrightarrow> edges_ok (es @ [e])"
  by (auto simp: edges_ok_def edge_ok_def nth_append less_Suc_eq Let_def)

lemma edges_ok_fresh: "edges_ok es \<Longrightarrow> tensor_ok t \<Longrightarrow> edges_ok (es @ [fresh_edge es t])"
  by (rule edges_ok_snoc) (simp_all add: strides_length)

lemma node_ok_mono: "node_ok n i node \<Longrightarrow> n \<le> m \<Longrightarrow> node_ok m i node"
  by (fastforce simp: node_ok_def)

lemma nodes_ok_mono: "nodes_ok n ns \<Longrightarrow> n \<le> m \<Longrightarrow> nodes_ok m ns"
  by (auto simp: nodes_ok_def intro: node_ok_mono)

lemma bindings_ok_grow:
  "bindings_ok g \<Longrightarrow> length (gr_edges g) \<le> length (gr_edges g') \<Longrightarrow> gr_external_inputs g' = gr_external_inputs g \<Longrightarrow>
   gr_external_outputs g' = gr_external_outputs g \<Longrightarrow> gr_positions g' = gr_positions g \<Longrightarrow> bindings_ok g'"
  unfolding bindings_ok_def by (metis order_less_le_trans)

text \<open>One more edge, nothing else.\<close>

lemma graph_ok_edge:
  assumes "graph_ok g" and "edges_ok (gr_edges g @ [e])"
  shows "graph_ok (g\<lparr>gr_edges := gr_edges g @ [e]\<rparr>)"
proof -
  have "bindings_ok (g\<lparr>gr_edges := gr_edges g @ [e]\<rparr>)" by (rule bindings_ok_grow [of g]) (use assms(1) in \<open>auto simp: graph_ok_def\<close>)
  then show ?thesis using assms by (auto simp: graph_ok_def intro: nodes_ok_mono less_SucI)
qed

lemma graph_new_ok: "graph_ok (graph_new key)"
  by (simp add: graph_ok_def graph_new_def edges_ok_def nodes_ok_def bindings_ok_def)

lemma push_tensor_edge_ok:
  "graph_ok g \<Longrightarrow> tensor_ok t \<Longrightarrow> push_tensor_edge g t = (e, g') \<Longrightarrow>
   graph_ok g' \<and> e < length (gr_edges g') \<and> g' = g\<lparr>gr_edges := gr_edges g @ [fresh_edge (gr_edges g) t]\<rparr>"
  using graph_ok_edge [of g "fresh_edge (gr_edges g) t"] edges_ok_fresh [of "gr_edges g" t]
  by (auto simp: push_tensor_edge_def graph_ok_def)

lemma add_tensor_ok:
  "graph_ok g \<Longrightarrow> tensor_ok t \<Longrightarrow> add_tensor g t = Inr (e, g') \<Longrightarrow> graph_ok g'"
  using push_tensor_edge_ok [of g t e g'] by (auto simp: add_tensor_def bind_r_eq_Inr)

lemma add_external_input_ok:
  assumes "graph_ok g" and "tensor_ok t" and "add_external_input g k t = Inr (e, g')"
  shows "graph_ok g'"
proof -
  obtain g1 where p: "push_tensor_edge g t = (e, g1)" and g': "g' = g1\<lparr>gr_external_inputs := gr_external_inputs g1 @ [TensorInput k e]\<rparr>"
    and k: "input_tensor_backed k" "k \<notin> input_kind ` set (gr_external_inputs g)"
    using assms(3) by (auto simp: add_external_input_def bind_r_eq_Inr Let_def split: if_splits prod.splits)
  have "graph_ok g1" "e < length (gr_edges g1)" "gr_external_inputs g1 = gr_external_inputs g"
    using push_tensor_edge_ok [OF assms(1,2) p] by auto
  then show ?thesis using k unfolding g' by (auto simp: graph_ok_def bindings_ok_def input_kind_def)
qed

lemma add_external_non_tensor_ok:
  assumes "graph_ok g" and "add_external_non_tensor g k = Inr g'"
  shows "graph_ok g'"
proof -
  obtain i where i: "i \<notin> set (gr_external_inputs g)" "i \<in> {BatchMetaInput, SamplingParamsInput, RngStateInput}"
    and g': "g' = g\<lparr>gr_external_inputs := gr_external_inputs g @ [i]\<rparr>"
    using assms(2) by (cases k) (auto simp: add_external_non_tensor_def Let_def split: if_splits)
  have t: "\<And>k e. TensorInput k e \<in> set (gr_external_inputs g) \<Longrightarrow> input_tensor_backed k"
    using assms(1) by (auto simp: graph_ok_def bindings_ok_def)
  have "input_kind i \<notin> input_kind ` set (gr_external_inputs g)"
  proof
    assume "input_kind i \<in> input_kind ` set (gr_external_inputs g)"
    then obtain j where j: "j \<in> set (gr_external_inputs g)" "input_kind j = input_kind i" by auto
    show False
    proof (cases j)
      case (TensorInput k' e)
      then show False using t [of k' e] i(2) j by (auto simp: input_kind_def input_tensor_backed_def)
    qed (use i j in \<open>auto simp: input_kind_def\<close>)
  qed
  then show ?thesis using assms(1) i(2) unfolding g' by (auto simp: graph_ok_def bindings_ok_def)
qed

lemma bind_positions_ok:
  assumes "graph_ok g" and "bind_positions g k = Inr (e, g')"
  shows "graph_ok g'"
proof -
  obtain t g1 where t: "tensor_ok t" and p: "push_tensor_edge g t = (e, g1)" and g': "g' = g1\<lparr>gr_positions := Some (k, e)\<rparr>"
    using assms(2) by (auto simp: bind_positions_def bind_r_eq_Inr tensor_new_Inr Let_def split: option.splits if_splits prod.splits)
  show ?thesis using push_tensor_edge_ok [OF assms(1) t p] unfolding g' by (auto simp: graph_ok_def bindings_ok_def)
qed

section \<open>Adding operators\<close>

lemma fresh_edges:
  assumes "edges_ok es" and "\<forall>t \<in> set ts. tensor_ok t"
  shows "edges_ok (foldl (\<lambda>es t. es @ [fresh_edge es t]) es ts)"
    and "\<exists>new. foldl (\<lambda>es t. es @ [fresh_edge es t]) es ts = es @ new \<and> map ge_tensor new = ts \<and>
      (\<forall>e \<in> set new. is_contiguous e \<and> ge_source e = None)"
proof -
  have "edges_ok (foldl (\<lambda>es t. es @ [fresh_edge es t]) es ts) \<and>
    (\<exists>new. foldl (\<lambda>es t. es @ [fresh_edge es t]) es ts = es @ new \<and> map ge_tensor new = ts \<and>
      (\<forall>e \<in> set new. is_contiguous e \<and> ge_source e = None))"
    using assms
  proof (induction ts arbitrary: es)
    case (Cons t ts)
    from Cons.IH [OF edges_ok_fresh [OF Cons.prems(1), of t]] Cons.prems(2)
    obtain new where "edges_ok (foldl (\<lambda>es t. es @ [fresh_edge es t]) (es @ [fresh_edge es t]) ts)"
      and "foldl (\<lambda>es t. es @ [fresh_edge es t]) (es @ [fresh_edge es t]) ts = (es @ [fresh_edge es t]) @ new" "map ge_tensor new = ts"
        "\<forall>e \<in> set new. is_contiguous e \<and> ge_source e = None" by auto
    then show ?case by (intro conjI exI [of _ "fresh_edge es t # new"]) auto
  qed simp
  then show "edges_ok (foldl (\<lambda>es t. es @ [fresh_edge es t]) es ts)"
    "\<exists>new. foldl (\<lambda>es t. es @ [fresh_edge es t]) es ts = es @ new \<and> map ge_tensor new = ts \<and>
      (\<forall>e \<in> set new. is_contiguous e \<and> ge_source e = None)" by blast+
qed

lemma nodes_ok_snoc:
  assumes "nodes_ok n ns" and "node_ok m (length ns) node" and "n \<le> m" and "distinct (gn_outputs node)"
    and "set (gn_outputs node) \<subseteq> {n..<m}"
  shows "nodes_ok m (ns @ [node])"
proof -
  have "set (concat (map gn_outputs ns)) \<subseteq> {..<n}" using assms(1) by (fastforce simp: nodes_ok_def node_ok_def in_set_conv_nth)
  then have "set (concat (map gn_outputs ns)) \<inter> set (gn_outputs node) = {}" using assms(5) by fastforce
  moreover have "node_ok m i ((ns @ [node]) ! i)" if "i < length (ns @ [node])" for i
    using that assms(1-3) node_ok_mono [of n i "ns ! i" m] by (cases "i = length ns") (auto simp: nodes_ok_def nth_append)
  ultimately show ?thesis using assms(1,4) by (auto simp: nodes_ok_def)
qed

lemma add_op_with_requirements_eq:
  "add_op_with_requirements g oper ins reqs ts = Inr (v, g') \<longleftrightarrow>
     (\<forall>e \<in> set ins. e < length (gr_edges g)) \<and> length reqs = length ins \<and> v = length (gr_nodes g) \<and>
     (let es = foldl (\<lambda>es t. es @ [fresh_edge es t]) (gr_edges g) ts
      in g' = g\<lparr>gr_edges := es, gr_nodes := gr_nodes g @ [\<lparr>gn_id = v, gn_op = oper, gn_inputs = ins, gn_input_requirements = reqs,
                                            gn_outputs = [length (gr_edges g)..<length es]\<rparr>]\<rparr>)"
  by (auto simp: add_op_with_requirements_def bind_r_eq_Inr Let_def filter_empty_conv not_le)

lemma add_op_with_requirements_ok:
  assumes "graph_ok g" and "\<forall>t \<in> set ts. tensor_ok t" and "add_op_with_requirements g oper ins reqs ts = Inr (v, g')"
  shows "graph_ok g'"
proof -
  let ?es = "foldl (\<lambda>es t. es @ [fresh_edge es t]) (gr_edges g) ts"
  have g': "g' = g\<lparr>gr_edges := ?es, gr_nodes := gr_nodes g @ [\<lparr>gn_id = length (gr_nodes g), gn_op = oper, gn_inputs = ins,
      gn_input_requirements = reqs, gn_outputs = [length (gr_edges g)..<length ?es]\<rparr>]\<rparr>"
    and ins: "\<forall>e \<in> set ins. e < length (gr_edges g)" "length reqs = length ins"
    using assms(3) by (auto simp: add_op_with_requirements_eq Let_def)
  have e: "edges_ok ?es" "length (gr_edges g) \<le> length ?es"
    using fresh_edges [OF _ assms(2), of "gr_edges g"] assms(1) by (auto simp: graph_ok_def)
  have "bindings_ok g'" by (rule bindings_ok_grow [of g]) (use assms(1) e in \<open>auto simp: graph_ok_def g'\<close>)
  moreover have "nodes_ok (length ?es) (gr_nodes g')"
    unfolding g' using assms(1) ins e(2) by (fastforce simp: graph_ok_def node_ok_def intro!: nodes_ok_snoc)
  ultimately show ?thesis using assms(1) e unfolding g' by (auto simp: graph_ok_def)
qed

section \<open>Views and requirements\<close>

lemma set_edge_strides_ok:
  assumes "graph_ok g" and "set_edge_strides g e ss = Inr g'"
  shows "graph_ok g'"
proof -
  have e: "e < length (gr_edges g)" "length ss = tn_rank (ge_tensor (gr_edges g ! e))"
    and g': "g' = g\<lparr>gr_edges := (gr_edges g)[e := (gr_edges g ! e)\<lparr>ge_strides := ss\<rparr>]\<rparr>"
    using assms(2) by (auto simp: set_edge_strides_def Let_def split: option.splits if_splits)
  have "edges_ok (gr_edges g')" using assms(1) e
    by (auto simp: graph_ok_def edges_ok_def edge_ok_def g' nth_list_update Let_def)
  then show ?thesis using assms(1) by (auto simp: graph_ok_def g' bindings_ok_def)
qed

lemma nodes_ok_update:
  assumes "nodes_ok n ns" and "i < length ns" and "node_ok n i node" and "gn_outputs node = gn_outputs (ns ! i)"
  shows "nodes_ok n (ns[i := node])"
proof -
  have "map gn_outputs (ns[i := node]) = map gn_outputs ns" by (rule nth_equalityI) (use assms in \<open>auto simp: nth_list_update\<close>)
  then show ?thesis using assms unfolding nodes_ok_def by (auto simp: nth_list_update)
qed

lemma graph_ok_node:
  assumes "graph_ok g" and "i < length (gr_nodes g)" and "node_ok (length (gr_edges g)) i node"
    and "gn_outputs node = gn_outputs (gr_nodes g ! i)"
  shows "graph_ok (g\<lparr>gr_nodes := (gr_nodes g)[i := node]\<rparr>)"
  using assms nodes_ok_update [of "length (gr_edges g)" "gr_nodes g" i node] by (auto simp: graph_ok_def bindings_ok_def)

lemma nodes_okD: "nodes_ok n ns \<Longrightarrow> i < length ns \<Longrightarrow> node_ok n i (ns ! i)"
  by (simp add: nodes_ok_def)

lemma set_node_input_requirement_ok:
  assumes "graph_ok g"
  shows "set_node_input_requirement g v p req \<noteq> IrPanic"
    and "set_node_input_requirement g v p req = IrOk g' \<Longrightarrow> graph_ok g'"
proof -
  have n: "v < length (gr_nodes g) \<Longrightarrow> node_ok (length (gr_edges g)) v (gr_nodes g ! v)" for v
    using assms nodes_okD by (auto simp: graph_ok_def)
  show "set_node_input_requirement g v p req \<noteq> IrPanic"
    using n [of v] by (auto simp: set_node_input_requirement_def node_ok_def split: option.splits)
  assume "set_node_input_requirement g v p req = IrOk g'"
  then show "graph_ok g'" using n [of v] assms
    by (auto simp: set_node_input_requirement_def node_ok_def split: option.splits if_splits intro!: graph_ok_node)
qed

lemma rewire_node_input_ok:
  assumes "graph_ok g" and "rewire_node_input g v p e = Inr g'"
  shows "graph_ok g'"
proof -
  have v: "v < length (gr_nodes g)" "e < length (gr_edges g)" "p < length (gn_inputs (gr_nodes g ! v))"
    and g': "g' = g\<lparr>gr_nodes := (gr_nodes g)[v := (gr_nodes g ! v)\<lparr>gn_inputs := (gn_inputs (gr_nodes g ! v))[p := e]\<rparr>]\<rparr>"
    using assms(2) by (auto simp: rewire_node_input_def bind_r_eq_Inr Let_def not_le split: option.splits if_splits)
  have "node_ok (length (gr_edges g)) v (gr_nodes g ! v)" using assms(1) v nodes_okD by (auto simp: graph_ok_def)
  then show ?thesis unfolding g' using v(2) set_update_subset_insert [of "gn_inputs (gr_nodes g ! v)" p e]
    by (intro graph_ok_node [OF assms(1) v(1)]) (auto simp: node_ok_def)
qed

text \<open>A permutation is accepted exactly when it is one.\<close>

lemma perm_scan_ok:
  assumes "perm_scan rank perm = (oob, dups, seen)"
  shows "oob = filter (\<lambda>p. rank \<le> p) perm \<and> (dups = [] \<longleftrightarrow> distinct (filter (\<lambda>p. p < rank) perm)) \<and> length seen = rank \<and>
    (\<forall>i < rank. seen ! i \<longleftrightarrow> i \<in> set perm)"
  using assms
proof (induction perm arbitrary: oob dups seen rule: rev_induct)
  case (snoc p perm)
  obtain oob' dups' seen' where s: "perm_scan rank perm = (oob', dups', seen')" by (metis surj_pair)
  from snoc.IH [OF s] snoc.prems s show ?case
    by (auto simp: perm_scan_def nth_list_update split: if_splits)
qed (simp add: perm_scan_def)

lemma perm_problems_Nil:
  "perm_problems rank perm = [] \<and> length perm = rank \<longleftrightarrow> distinct perm \<and> set perm = {..<rank}"
proof -
  obtain oob dups seen where s: "perm_scan rank perm = (oob, dups, seen)" by (metis surj_pair)
  note f = perm_scan_ok [OF s]
  have "perm_problems rank perm = [] \<longleftrightarrow> oob = [] \<and> dups = [] \<and> (\<forall>i < rank. seen ! i)"
    by (auto simp: perm_problems_def s filter_empty_conv)
  also have "\<dots> \<longleftrightarrow> (\<forall>p \<in> set perm. p < rank) \<and> distinct (filter (\<lambda>p. p < rank) perm) \<and> (\<forall>i < rank. i \<in> set perm)"
    using f by (auto simp: filter_empty_conv not_le)
  also have "\<dots> \<longleftrightarrow> distinct perm \<and> set perm = {..<rank}" 
  proof (cases "\<forall>p \<in> set perm. p < rank")
    case True
    then have "filter (\<lambda>p. p < rank) perm = perm" by (simp add: filter_id_conv)
    then show ?thesis using True by (auto simp del: filter_id_conv)
  qed auto
  finally have "perm_problems rank perm = [] \<longleftrightarrow> distinct perm \<and> set perm = {..<rank}" .
  moreover have "distinct perm \<Longrightarrow> set perm = {..<rank} \<Longrightarrow> length perm = rank" using distinct_card [of perm] by simp
  ultimately show ?thesis by blast
qed

definition view :: "'a graph \<Rightarrow> nat \<Rightarrow> nat list \<Rightarrow> tensor" where
  "view g e perm = (let t = ge_tensor (gr_edges g ! e) in t\<lparr>tn_shape := map ((!) (tn_shape t)) perm, tn_sharding := remap_sharding perm (tn_sharding t)\<rparr>)"

lemma push_view_ok:
  assumes "graph_ok g" and "tensor_ok t" and "length ss = tn_rank t" and "e < length (gr_edges g)"
  shows "graph_ok (snd (push_view g e t ss))"
  using graph_ok_edge [OF assms(1) edges_ok_snoc [of "gr_edges g" "\<lparr>ge_id = length (gr_edges g), ge_tensor = t, ge_strides = ss, ge_source = Some e\<rparr>"]] assms
  by (simp add: push_view_def graph_ok_def)

lemma edge_okD:
  assumes "graph_ok g" and "e < length (gr_edges g)"
  shows "ge_id (gr_edges g ! e) = e" "tensor_ok (ge_tensor (gr_edges g ! e))"
    "length (ge_strides (gr_edges g ! e)) = tn_rank (ge_tensor (gr_edges g ! e))" "ge_source (gr_edges g ! e) = Some s \<Longrightarrow> s < e"
  using assms by (auto simp: graph_ok_def edges_ok_def edge_ok_def Let_def)

lemma transpose_edge_eq:
  assumes ok: "graph_ok g"
  shows "transpose_edge g e perm \<noteq> IrPanic"
    and "transpose_edge g e perm = IrOk r \<longleftrightarrow> e < length (gr_edges g) \<and> distinct perm \<and> set perm = {..<tn_rank (ge_tensor (gr_edges g ! e))} \<and>
      r = push_view g e (view g e perm) (map ((!) (ge_strides (gr_edges g ! e))) perm)"
proof -
  let ?e = "gr_edges g ! e" and ?P = "distinct perm \<and> set perm = {..<tn_rank (ge_tensor (gr_edges g ! e))}"
  have "if e < length (gr_edges g) \<and> ?P
    then transpose_edge g e perm = IrOk (push_view g e (view g e perm) (map ((!) (ge_strides ?e)) perm))
    else \<exists>err. transpose_edge g e perm = IrErr err"
  proof (cases "e < length (gr_edges g)")
    case True
    let ?t = "ge_tensor ?e"
    have l: "length (ge_strides ?e) = tn_rank ?t" and t: "tensor_ok ?t" using edge_okD [OF ok True] by auto
    have g: "get (gr_edges g) e = Some ?e" using True by simp
    show ?thesis
    proof (cases "?P")
      case P: True
      then have p: "perm_problems (tn_rank ?t) perm = []" "length perm = tn_rank ?t" using perm_problems_Nil by metis+
      have "set (map ((!) (tn_shape ?t)) perm) = set (tn_shape ?t)" 
        using P nth_image [of "tn_rank ?t" "tn_shape ?t"] by (simp add: lessThan_atLeast0)
      from tensor_new_permuted [OF t this, of "remap_sharding perm (tn_sharding ?t)"] p show ?thesis using True P l
        by (simp add: transpose_edge_def Let_def view_def get_def)
    next
      case False
      then have "perm_problems (tn_rank ?t) perm \<noteq> [] \<or> length perm \<noteq> tn_rank ?t" using perm_problems_Nil by metis
      then have "\<exists>err. transpose_edge g e perm = IrErr err"
        by (cases "ir_from_problems (perm_problems (tn_rank ?t) perm)") (auto simp: transpose_edge_def Let_def g)
      then show ?thesis using False by meson
    qed
  qed (simp add: transpose_edge_def get_def)
  then show "transpose_edge g e perm \<noteq> IrPanic"
    "transpose_edge g e perm = IrOk r \<longleftrightarrow> e < length (gr_edges g) \<and> distinct perm \<and> set perm = {..<tn_rank (ge_tensor ?e)} \<and>
      r = push_view g e (view g e perm) (map ((!) (ge_strides ?e)) perm)" by (auto split: if_splits)
qed

lemma transpose_edge_ok:
  assumes ok: "graph_ok g" and t: "transpose_edge g e perm = IrOk (v, g')"
  shows "graph_ok g'"
proof -
  let ?e = "gr_edges g ! e" and ?t = "ge_tensor (gr_edges g ! e)"
  have e: "e < length (gr_edges g)" and p: "distinct perm" "set perm = {..<tn_rank ?t}"
    and g': "g' = snd (push_view g e (view g e perm) (map ((!) (ge_strides ?e)) perm))"
    using t unfolding transpose_edge_eq(2) [OF ok] by (metis snd_conv)+
  have "set (map ((!) (tn_shape ?t)) perm) = set (tn_shape ?t)" using p nth_image [of "tn_rank ?t" "tn_shape ?t"] by (simp add: lessThan_atLeast0)
  moreover have "length perm = tn_rank ?t" using distinct_card [OF p(1)] p(2) by simp
  ultimately have "tensor_ok (view g e perm)" using edge_okD(2) [OF ok e] by (auto simp: view_def Let_def tensor_ok_def shape_ok_def)
  then show ?thesis unfolding g' by (intro push_view_ok [OF ok _ _ e]) (simp_all add: view_def Let_def)
qed

lemma concrete_count_bounded:
  assumes "\<forall>c. Concrete c \<in> set shape \<longrightarrow> c < 2 ^ 32" and "acc * 2 ^ (32 * length shape) \<le> 2 ^ 128"
  shows "concrete_count_from shape acc \<noteq> None"
  using assms
proof (induction shape arbitrary: acc)
  case (Cons d ds)
  show ?case
  proof (cases d)
    case (Concrete c)
    then have c: "c < 2 ^ 32" using Cons.prems(1) by simp
    have le: "acc * c * 2 ^ (32 * length ds) \<le> 2 ^ 128"
    proof -
      have "acc * c * 2 ^ (32 * length ds) \<le> acc * 2 ^ 32 * 2 ^ (32 * length ds)" using c by (intro mult_mono) auto
      also have "\<dots> = acc * 2 ^ (32 * length (d # ds))" by (simp add: power_add)
      finally show ?thesis using Cons.prems(2) by linarith
    qed
    have "acc * c < 2 ^ 128"
    proof (cases "acc = 0")
      case False
      have "acc * c < acc * 2 ^ 32" using c False by simp
      also have "\<dots> \<le> acc * 2 ^ (32 * length (d # ds))" by (intro mult_left_mono power_increasing) auto
      finally show ?thesis using Cons.prems(2) by linarith
    qed simp
    then show ?thesis using Cons.IH [OF _ le] Cons.prems(1) Concrete by simp
  qed simp
qed simp

lemma reshape_edge_ok:
  assumes ok: "graph_ok g" and r: "reshape_edge g e shape = IrOk (v, g')"
  shows "graph_ok g'" "e < length (gr_edges g)" "is_contiguous (gr_edges g ! e)"
    "(v, g') = push_view g e ((ge_tensor (gr_edges g ! e))\<lparr>tn_shape := shape\<rparr>) (compute_contiguous_strides shape)"
proof -
  let ?e = "gr_edges g ! e" and ?t = "ge_tensor (gr_edges g ! e)"
  show e: "e < length (gr_edges g)" using r by (auto simp: reshape_edge_def split: option.splits)
  then show "is_contiguous ?e" using r by (auto simp: reshape_edge_def is_contiguous_def get_def Let_def split: if_splits)
  obtain t' where n: "tensor_new shape (tn_dtype ?t) (tn_quant ?t) (tn_layout ?t) (tn_placement ?t) (tn_sharding ?t) (tn_class ?t) = Inr t'"
    and g': "(v, g') = push_view g e t' (compute_contiguous_strides (tn_shape t'))"
    using r e by (auto simp: reshape_edge_def get_def Let_def split: if_splits option.splits sum.splits)
  have t': "t' = ?t\<lparr>tn_shape := shape\<rparr>" "tensor_ok t'" using n unfolding tensor_new_Inr by auto
  then show "(v, g') = push_view g e (?t\<lparr>tn_shape := shape\<rparr>) (compute_contiguous_strides shape)" using g' by simp
  have "g' = snd (push_view g e t' (compute_contiguous_strides (tn_shape t')))" using g' by (metis snd_conv)
  then show "graph_ok g'" using push_view_ok [OF ok t'(2) _ e] by (simp add: strides_length)
qed

section \<open>Outputs\<close>

lemma add_external_output_ok:
  assumes "graph_ok g" and "add_external_output g k e = Inr g'"
  shows "graph_ok g'"
proof -
  have "e < length (gr_edges g)" "output_tensor_backed k" "k \<notin> output_kind ` set (gr_external_outputs g)"
    and g': "g' = g\<lparr>gr_external_outputs := gr_external_outputs g @ [TensorOutput k e]\<rparr>"
    using assms(2) by (auto simp: add_external_output_def bind_r_eq_Inr split: if_splits option.splits)
  then show ?thesis using assms(1) by (auto simp: graph_ok_def bindings_ok_def output_kind_def)
qed

lemma add_external_non_tensor_output_ok:
  assumes "graph_ok g" and "add_external_non_tensor_output g k = Inr g'"
  shows "graph_ok g'"
proof -
  have u: "UpdatedRngStateOutput \<notin> set (gr_external_outputs g)"
    and g': "g' = g\<lparr>gr_external_outputs := gr_external_outputs g @ [UpdatedRngStateOutput]\<rparr>"
    using assms(2) by (auto simp: add_external_non_tensor_output_def split: if_splits)
  have t: "\<And>k e. TensorOutput k e \<in> set (gr_external_outputs g) \<Longrightarrow> output_tensor_backed k"
    using assms(1) by (auto simp: graph_ok_def bindings_ok_def)
  have "UpdatedRngState \<notin> output_kind ` set (gr_external_outputs g)"
  proof
    assume "UpdatedRngState \<in> output_kind ` set (gr_external_outputs g)"
    then obtain j where j: "j \<in> set (gr_external_outputs g)" "output_kind j = UpdatedRngState" by auto
    show False
    proof (cases j)
      case (TensorOutput k' e)
      then show False using t [of k' e] j by (auto simp: output_kind_def output_tensor_backed_def)
    qed (use u j in auto)
  qed
  then show ?thesis using assms(1) unfolding g' by (auto simp: graph_ok_def bindings_ok_def output_kind_def)
qed

section \<open>Producers\<close>

lemma note_outputs: "foldl (\<lambda>m out. m(out \<mapsto> i)) m outs = (\<lambda>e. if e \<in> set outs then Some i else m e)"
  by (induction outs arbitrary: m) auto

lemma producer_map_iff:
  assumes "nodes_ok n (gr_nodes g)"
  shows "producer_map g e = Some p \<longleftrightarrow> p < length (gr_nodes g) \<and> e \<in> set (gn_outputs (gr_nodes g ! p))"
proof -
  have "nodes_ok n ns \<Longrightarrow> foldl (\<lambda>m node e. if e \<in> set (gn_outputs node) then Some (gn_id node) else m e) (\<lambda>_. None) ns e = Some p \<longleftrightarrow>
      p < length ns \<and> e \<in> set (gn_outputs (ns ! p))" for ns :: "'a graph_node list"
  proof (induction ns rule: rev_induct)
    case (snoc node ns)
    have ok: "nodes_ok n ns" and i: "gn_id node = length ns" and d: "set (gn_outputs node) \<inter> set (concat (map gn_outputs ns)) = {}"
      using snoc.prems nodes_okD [OF snoc.prems, of "length ns"] by (auto simp: nodes_ok_def nth_append node_ok_def less_Suc_eq)
    show ?case
    proof (cases "e \<in> set (gn_outputs node)")
      case True
      then have "\<forall>q < length ns. e \<notin> set (gn_outputs (ns ! q))" using d by (fastforce simp: in_set_conv_nth)
      then show ?thesis using True i by (auto simp: nth_append less_Suc_eq)
    qed (use snoc.IH [OF ok] in \<open>auto simp: nth_append less_Suc_eq\<close>)
  qed simp
  with assms show ?thesis unfolding producer_map_def note_outputs by blast
qed

text \<open>The walk over views stops within the number of edges: the bound of the loop is never what ends it.\<close>

lemma resolve_from_fuel:
  assumes "edges_ok es" and "e < n" and "e < m"
  shows "resolve_from es ps n e = resolve_from es ps m e"
  using assms(2,3)
proof (induction e arbitrary: n m rule: less_induct)
  case (less e)
  obtain n' m' where n: "n = Suc n'" "m = Suc m'" using less.prems by (metis less_nat_zero_code not0_implies_Suc)
  have "resolve_from es ps n' s = resolve_from es ps m' s" if "e < length es" "ge_source (es ! e) = Some s" for s
  proof -
    have "s < e" using assms(1) that by (auto simp: edges_ok_def edge_ok_def Let_def)
    then show ?thesis using less.prems n by (intro less.IH) auto
  qed
  then show ?case unfolding n by (auto split: option.splits)
qed

lemma resolve_producer_eq:
  assumes "graph_ok g" and "e < length (gr_edges g)"
  shows "resolve_producer g e ps = (case ps e of Some p \<Rightarrow> Some p
    | None \<Rightarrow> (case ge_source (gr_edges g ! e) of None \<Rightarrow> None | Some s \<Rightarrow> resolve_producer g s ps))"
proof -
  have "resolve_from (gr_edges g) ps (length (gr_edges g)) s = resolve_from (gr_edges g) ps (length (gr_edges g) + 1) s"
    if "ge_source (gr_edges g ! e) = Some s" for s
    using edge_okD(4) [OF assms that] assms by (intro resolve_from_fuel) (auto simp: graph_ok_def)
  then show ?thesis using assms(2) by (auto simp: resolve_producer_def split: option.splits)
qed

lemma resolve_from_producer: "resolve_from es ps n e = Some p \<Longrightarrow> \<exists>e'. ps e' = Some p"
  by (induction es ps n e rule: resolve_from.induct) (auto split: option.splits)

lemma uses_in_range:
  assumes "graph_ok g"
  shows "in_range (length (gr_nodes g)) (uses g)"
proof -
  have n: "nodes_ok (length (gr_edges g)) (gr_nodes g)" using assms by (simp add: graph_ok_def)
  have "p < length (gr_nodes g) \<and> c < length (gr_nodes g)" if u: "(p, c) \<in> set (uses g)" for p c
  proof -
    obtain node e where e: "node \<in> set (gr_nodes g)" "c = gn_id node" "resolve_producer g e (producer_map g) = Some p"
      using u by (auto simp: uses_def node_uses_def List.map_filter_def)
    then show ?thesis using resolve_from_producer [of "gr_edges g"] producer_map_iff [OF n] nodes_okD [OF n]
      by (metis (no_types, lifting) in_set_conv_nth node_ok_def resolve_producer_def)
  qed
  then show ?thesis by (auto simp: in_range_def)
qed

lemma no_missing_inputs:
  assumes "graph_ok g"
  shows "missing_inputs g = []"
proof -
  have "e < length (gr_edges g)" if "node \<in> set (gr_nodes g)" "e \<in> set (gn_inputs node)" for node e
    using assms that by (fastforce simp: graph_ok_def nodes_ok_def node_ok_def in_set_conv_nth)
  then show ?thesis by (force simp: missing_inputs_def filter_empty_conv)
qed

lemma uses_iff:
  assumes "graph_ok g"
  shows "(p, c) \<in> set (uses g) \<longleftrightarrow> c < length (gr_nodes g) \<and>
    (\<exists>e \<in> set (gn_inputs (gr_nodes g ! c)). resolve_producer g e (producer_map g) = Some p)"
proof -
  have n: "\<And>i. i < length (gr_nodes g) \<Longrightarrow> node_ok (length (gr_edges g)) i (gr_nodes g ! i)"
    using assms by (auto simp: graph_ok_def nodes_ok_def)
  show ?thesis
  proof
    assume "(p, c) \<in> set (uses g)"
    then obtain node e where "node \<in> set (gr_nodes g)" "c = gn_id node" "e \<in> set (gn_inputs node)" "resolve_producer g e (producer_map g) = Some p"
      by (auto simp: uses_def node_uses_def List.map_filter_def)
    then show "c < length (gr_nodes g) \<and> (\<exists>e \<in> set (gn_inputs (gr_nodes g ! c)). resolve_producer g e (producer_map g) = Some p)"
      using n by (metis in_set_conv_nth node_ok_def)
  next
    assume "c < length (gr_nodes g) \<and> (\<exists>e \<in> set (gn_inputs (gr_nodes g ! c)). resolve_producer g e (producer_map g) = Some p)"
    then obtain e where c: "c < length (gr_nodes g)" and e: "e \<in> set (gn_inputs (gr_nodes g ! c))" "resolve_producer g e (producer_map g) = Some p"
      by blast
    have "(p, gn_id (gr_nodes g ! c)) \<in> set (node_uses g (gr_nodes g ! c))"
      using e n [OF c] by (force simp: node_uses_def List.map_filter_def node_ok_def)
    then show "(p, c) \<in> set (uses g)" using n [OF c] c by (auto simp: uses_def node_ok_def)
  qed
qed

end
