(* ===== verification/Ir_Copies.thy ===== *)
theory Ir_Copies
  imports Ir_Build
begin

text \<open>
  The copies of \<open>Graph::materialize_copies\<close>: the scan collects the inputs whose stride requirement fails, one plan
  per source edge, and the plans add one contiguous copy each and redirect those inputs to it.
\<close>

section \<open>The scan\<close>

definition needs_copy :: "'a graph \<Rightarrow> 'a graph_node \<Rightarrow> nat \<Rightarrow> bool" where
  "needs_copy g node p \<longleftrightarrow> gn_input_requirements node ! p = Contiguous \<and> \<not> is_contiguous (gr_edges g ! (gn_inputs node ! p))"

definition node_sites :: "'a graph \<Rightarrow> nat \<times> 'a graph_node \<Rightarrow> (nat \<times> nat) list" where
  "node_sites g = (\<lambda>(i, node). if is_copy (gn_op node) then [] else map (Pair i) (filter (needs_copy g node) [0..<length (gn_inputs node)]))"

definition sites :: "'a graph \<Rightarrow> (nat \<times> nat) list" where
  "sites g = concat (map (node_sites g) (List.enumerate 0 (gr_nodes g)))"

definition src :: "'a graph \<Rightarrow> nat \<times> nat \<Rightarrow> nat" where
  "src g s = gn_inputs (gr_nodes g ! fst s) ! snd s"

definition existing_copy :: "'a graph \<Rightarrow> nat \<Rightarrow> inserted_copy option" where
  "existing_copy g e = List.find (\<lambda>c. ic_source_edge c = e) (gr_inserted_copies g)"

definition scan_site :: "'a graph \<Rightarrow> nat \<times> nat \<Rightarrow> copy_scan \<Rightarrow> copy_scan" where
  "scan_site g s st =
     (let e = src g s; edge = gr_edges g ! e
      in case existing_copy g e of
           Some c \<Rightarrow> st\<lparr>cs_existing_rewires := cs_existing_rewires st @ [(ic_dest_edge c, fst s, snd s)]\<rparr>
         | None \<Rightarrow>
             (case cs_plan_by_source st e of
                Some i \<Rightarrow> st\<lparr>cs_plans := (cs_plans st)[i := (cs_plans st ! i)\<lparr>cp_consumers := cp_consumers (cs_plans st ! i) @ [s]\<rparr>]\<rparr>
              | None \<Rightarrow> st\<lparr>cs_plan_by_source := (cs_plan_by_source st)(e \<mapsto> length (cs_plans st)),
                          cs_plans := cs_plans st @ [\<lparr>cp_src_edge_id = e, cp_actual_strides = ge_strides edge,
                            cp_expected_strides = compute_contiguous_strides (tn_shape (ge_tensor edge)), cp_consumers = [s]\<rparr>]\<rparr>))"

lemma scan_input_eq:
  assumes "graph_ok g" and "i < length (gr_nodes g)" and "p < length (gn_inputs (gr_nodes g ! i))"
  shows "scan_input g i (gr_nodes g ! i) p st = Some (if needs_copy g (gr_nodes g ! i) p then scan_site g (i, p) st else st)"
proof -
  let ?node = "gr_nodes g ! i"
  have n: "node_ok (length (gr_edges g)) i ?node" using assms nodes_okD by (auto simp: graph_ok_def)
  have r: "get (gn_input_requirements ?node) p = Some (gn_input_requirements ?node ! p)" using n assms(3) by (simp add: node_ok_def)
  have "gn_inputs ?node ! p \<in> set (gn_inputs ?node)" using assms(3) by simp
  then have e: "get (gr_edges g) (gn_inputs ?node ! p) = Some (gr_edges g ! (gn_inputs ?node ! p))" using n by (auto simp: node_ok_def)
  let ?e = "gr_edges g ! (gn_inputs ?node ! p)"
  show ?thesis
    by (cases "gn_input_requirements ?node ! p"; cases "ge_strides ?e = compute_contiguous_strides (tn_shape (ge_tensor ?e))")
       (simp_all only: scan_input_def r e needs_copy_def is_contiguous_def scan_site_def src_def existing_copy_def Let_def fst_conv snd_conv
         option.case stride_requirement.case stride_requirement.distinct simp_thms if_True if_False)
qed

lemma fold_o_filter:
  "(\<And>x b. x \<in> set xs \<Longrightarrow> f x b = Some (if P x then h x b else b)) \<Longrightarrow> fold_o f xs b = Some (fold h (filter P xs) b)"
  by (induction xs arbitrary: b) auto

lemma fold_o_concat:
  "(\<And>x b. x \<in> set xs \<Longrightarrow> f x b = Some (fold h (k x) b)) \<Longrightarrow> fold_o f xs b = Some (fold h (concat (map k xs)) b)"
  by (induction xs arbitrary: b) auto

definition empty_scan :: copy_scan where
  "empty_scan = \<lparr>cs_plans = [], cs_plan_by_source = Map.empty, cs_existing_rewires = []\<rparr>"

lemma copy_scan_of_eq:
  assumes "graph_ok g"
  shows "copy_scan_of g = Some (fold (scan_site g) (sites g) empty_scan)"
  unfolding copy_scan_of_def sites_def empty_scan_def
proof (rule fold_o_concat)
  fix x st assume "x \<in> set (List.enumerate 0 (gr_nodes g))"
  then obtain i where x: "x = (i, gr_nodes g ! i)" and i: "i < length (gr_nodes g)" by (auto simp: in_set_enumerate_eq prod_eq_iff)
  show "scan_node g x st = Some (fold (scan_site g) (node_sites g x) st)"
  proof (cases "is_copy (gn_op (gr_nodes g ! i))")
    case False
    let ?h = "\<lambda>p. scan_site g (i, p)"
    have "fold_o (scan_input g i (gr_nodes g ! i)) [0..<length (gn_inputs (gr_nodes g ! i))] st =
        Some (fold ?h (filter (needs_copy g (gr_nodes g ! i)) [0..<length (gn_inputs (gr_nodes g ! i))]) st)"
      by (rule fold_o_filter) (simp add: scan_input_eq [OF assms i])
    then show ?thesis using False by (simp add: scan_node_def node_sites_def x fold_map comp_def)
  qed (simp add: scan_node_def node_sites_def x)
qed

lemma sites_iff:
  "s \<in> set (sites g) \<longleftrightarrow> fst s < length (gr_nodes g) \<and> \<not> is_copy (gn_op (gr_nodes g ! fst s)) \<and>
     snd s < length (gn_inputs (gr_nodes g ! fst s)) \<and> needs_copy g (gr_nodes g ! fst s) (snd s)"
proof -
  have "s \<in> set (sites g) \<longleftrightarrow> (\<exists>i < length (gr_nodes g). s \<in> set (node_sites g (i, gr_nodes g ! i)))"
    by (auto simp: sites_def in_set_enumerate_eq)
  also have "\<dots> \<longleftrightarrow> fst s < length (gr_nodes g) \<and> s \<in> set (node_sites g (fst s, gr_nodes g ! fst s))"
    by (auto simp: node_sites_def)
  finally show ?thesis by (cases s) (auto simp: node_sites_def)
qed

text \<open>What the scan has collected after the sites \<open>xs\<close>.\<close>

definition scanned :: "'a graph \<Rightarrow> (nat \<times> nat) list \<Rightarrow> copy_scan \<Rightarrow> bool" where
  "scanned g xs st \<longleftrightarrow>
     cs_existing_rewires st = List.map_filter (\<lambda>s. map_option (\<lambda>c. (ic_dest_edge c, fst s, snd s)) (existing_copy g (src g s))) xs \<and>
     distinct (map cp_src_edge_id (cs_plans st)) \<and>
     (\<forall>e i. cs_plan_by_source st e = Some i \<longleftrightarrow> i < length (cs_plans st) \<and> cp_src_edge_id (cs_plans st ! i) = e) \<and>
     (\<forall>plan \<in> set (cs_plans st). existing_copy g (cp_src_edge_id plan) = None \<and>
        cp_consumers plan = filter (\<lambda>s. src g s = cp_src_edge_id plan) xs \<and> cp_consumers plan \<noteq> []) \<and>
     (\<forall>s \<in> set xs. existing_copy g (src g s) = None \<longrightarrow> src g s \<in> cp_src_edge_id ` set (cs_plans st))"

lemma scan_site_scanned:
  assumes "scanned g xs st"
  shows "scanned g (xs @ [s]) (scan_site g s st)"
proof (cases "existing_copy g (src g s)")
  case (Some c)
  then show ?thesis using assms by (auto simp: scanned_def scan_site_def List.map_filter_def Let_def)
next
  case None
  note n = assms [unfolded scanned_def]
  show ?thesis
  proof (cases "cs_plan_by_source st (src g s)")
    case N: None
    let ?ps = "cs_plans st" and ?e = "src g s"
    let ?q = "\<lparr>cp_src_edge_id = ?e, cp_actual_strides = ge_strides (gr_edges g ! ?e),
        cp_expected_strides = compute_contiguous_strides (tn_shape (ge_tensor (gr_edges g ! ?e))), cp_consumers = [s]\<rparr>"
    have new: "\<forall>j < length ?ps. cp_src_edge_id (?ps ! j) \<noteq> ?e" using N n by (metis option.distinct(1))
    then have new': "?e \<notin> cp_src_edge_id ` set ?ps" by (force simp: in_set_conv_nth)
    have none: "filter (\<lambda>s'. src g s' = ?e) xs = []"
    proof (rule ccontr)
      assume "filter (\<lambda>s'. src g s' = ?e) xs \<noteq> []"
      then obtain s' where "s' \<in> set xs" "src g s' = ?e" by (auto simp: filter_empty_conv)
      then show False using n None new' by metis
    qed
    have "((cs_plan_by_source st)(?e \<mapsto> length ?ps)) e = Some i \<longleftrightarrow> i < length (?ps @ [?q]) \<and> cp_src_edge_id ((?ps @ [?q]) ! i) = e" for e i
      by (cases "i < length ?ps"; cases "e = ?e") (use n new in \<open>auto simp: nth_append less_Suc_eq\<close>)
    moreover have "\<forall>plan \<in> set (?ps @ [?q]). existing_copy g (cp_src_edge_id plan) = None \<and>
        cp_consumers plan = filter (\<lambda>s. src g s = cp_src_edge_id plan) (xs @ [s]) \<and> cp_consumers plan \<noteq> []"
      using n None none new' by auto
    moreover have "distinct (map cp_src_edge_id (?ps @ [?q]))" using n new' by auto
    ultimately show ?thesis using None N n unfolding scanned_def scan_site_def
      by (simp add: List.map_filter_def Let_def)
  next
    case (Some i)
    then have i: "i < length (cs_plans st)" "cp_src_edge_id (cs_plans st ! i) = src g s" using n by auto
    let ?ps = "(cs_plans st)[i := (cs_plans st ! i)\<lparr>cp_consumers := cp_consumers (cs_plans st ! i) @ [s]\<rparr>]"
    have ids: "map cp_src_edge_id ?ps = map cp_src_edge_id (cs_plans st)"
      by (rule nth_equalityI) (use i(1) in \<open>auto simp: nth_list_update\<close>)
    have "existing_copy g (cp_src_edge_id plan) = None \<and> cp_consumers plan = filter (\<lambda>s. src g s = cp_src_edge_id plan) (xs @ [s]) \<and>
        cp_consumers plan \<noteq> []" if plan: "plan \<in> set ?ps" for plan
    proof -
      obtain j where j: "j < length (cs_plans st)" "plan = ?ps ! j" using plan by (auto simp: in_set_conv_nth)
      have "cs_plans st ! j \<in> set (cs_plans st)" using j by simp
      then have "existing_copy g (cp_src_edge_id (cs_plans st ! j)) = None \<and> cp_consumers (cs_plans st ! j) \<noteq> [] \<and>
          cp_consumers (cs_plans st ! j) = filter (\<lambda>s. src g s = cp_src_edge_id (cs_plans st ! j)) xs" using n by blast
      moreover have "j = i \<longleftrightarrow> cp_src_edge_id (cs_plans st ! j) = src g s"
        using n i j nth_eq_iff_index_eq [of "map cp_src_edge_id (cs_plans st)" j i] by auto
      ultimately show ?thesis using i None j by (cases "j = i") auto
    qed
    note plans = this
    have eq: "scan_site g s st = st\<lparr>cs_plans := ?ps\<rparr>" using None Some by (simp add: scan_site_def Let_def)
    have im: "cp_src_edge_id ` set ?ps = cp_src_edge_id ` set (cs_plans st)" using ids by (metis list.set_map)
    have k: "cp_src_edge_id (?ps ! k) = cp_src_edge_id (cs_plans st ! k)" for k using i(1) by (simp add: nth_list_update)
    have rw: "cs_existing_rewires st = List.map_filter (\<lambda>s. map_option (\<lambda>c. (ic_dest_edge c, fst s, snd s)) (existing_copy g (src g s))) (xs @ [s])"
      using n None by (simp add: List.map_filter_def)
    have "src g s \<in> cp_src_edge_id ` set (cs_plans st)" using i by (metis image_eqI nth_mem)
    then have "\<forall>s' \<in> set (xs @ [s]). existing_copy g (src g s') = None \<longrightarrow> src g s' \<in> cp_src_edge_id ` set ?ps" using n im by simp
    moreover have "\<forall>e j. cs_plan_by_source st e = Some j \<longleftrightarrow> j < length ?ps \<and> cp_src_edge_id (?ps ! j) = e"
      unfolding k length_list_update using n by blast
    moreover have f: "cs_plans (scan_site g s st) = ?ps" "cs_plan_by_source (scan_site g s st) = cs_plan_by_source st"
      "cs_existing_rewires (scan_site g s st) = cs_existing_rewires st" by (simp_all add: eq)
    moreover have "distinct (map cp_src_edge_id ?ps)" using n ids by simp
    ultimately show ?thesis unfolding scanned_def f using plans rw by blast
  qed
qed

lemma scan_scanned: "scanned g xs (fold (scan_site g) xs empty_scan)"
proof (induction xs rule: rev_induct)
  case Nil
  show ?case by (simp add: scanned_def empty_scan_def List.map_filter_def)
qed (simp add: scan_site_scanned)

section \<open>Redirected inputs\<close>

definition redirect :: "(nat \<times> nat \<rightharpoonup> nat) \<Rightarrow> 'a graph_node list \<Rightarrow> 'a graph_node list" where
  "redirect m ns = map (\<lambda>i. (ns ! i)\<lparr>gn_inputs := map (\<lambda>p. case m (i, p) of None \<Rightarrow> gn_inputs (ns ! i) ! p | Some e \<Rightarrow> e)
     [0..<length (gn_inputs (ns ! i))]\<rparr>) [0..<length ns]"

lemma redirect_length [simp]: "length (redirect m ns) = length ns"
  by (simp add: redirect_def)

lemma redirect_nth:
  "i < length ns \<Longrightarrow> redirect m ns ! i = (ns ! i)\<lparr>gn_inputs := map (\<lambda>p. case m (i, p) of None \<Rightarrow> gn_inputs (ns ! i) ! p | Some e \<Rightarrow> e)
     [0..<length (gn_inputs (ns ! i))]\<rparr>"
  by (simp add: redirect_def cong: option.case_cong)

lemma redirect_same: "(\<And>p. m (i, p) = None) \<Longrightarrow> i < length ns \<Longrightarrow> redirect m ns ! i = ns ! i"
  by (simp add: redirect_nth map_nth)

lemma redirect_empty: "redirect Map.empty ns = ns"
  by (rule nth_equalityI) (simp_all add: redirect_same)

lemma redirect_append:
  assumes "\<And>s. m s \<noteq> None \<Longrightarrow> fst s < length ns"
  shows "redirect m (ns @ ms) = redirect m ns @ ms"
proof (rule nth_equalityI)
  fix i assume i: "i < length (redirect m (ns @ ms))"
  have "\<not> i < length ns \<Longrightarrow> m (i, p) = None" for p using assms [of "(i, p)"] by (cases "m (i, p)") auto
  then show "redirect m (ns @ ms) ! i = (redirect m ns @ ms) ! i"
    using i by (cases "i < length ns") (simp_all add: redirect_same, simp_all add: redirect_nth nth_append cong: option.case_cong)
qed simp

lemma set_input_redirect:
  assumes "fst s < length ns"
  shows "set_input e s (redirect m ns) = redirect (m(s \<mapsto> e)) ns"
proof (rule nth_equalityI)
  obtain i p where s: "s = (i, p)" by force
  fix k assume k: "k < length (set_input e s (redirect m ns))"
  show "set_input e s (redirect m ns) ! k = redirect (m(s \<mapsto> e)) ns ! k"
  proof (cases "k = i")
    case True
    have "(map (\<lambda>p. case m (i, p) of None \<Rightarrow> gn_inputs (ns ! i) ! p | Some e \<Rightarrow> e) [0..<length (gn_inputs (ns ! i))])[p := e] =
        map (\<lambda>q. case (m((i, p) \<mapsto> e)) (i, q) of None \<Rightarrow> gn_inputs (ns ! i) ! q | Some e \<Rightarrow> e) [0..<length (gn_inputs (ns ! i))]"
      by (rule nth_equalityI; cases "p < length (gn_inputs (ns ! i))") (auto simp: nth_list_update)
    then show ?thesis using True assms by (simp add: set_input_def s redirect_nth)
  qed (use k in \<open>simp add: set_input_def s redirect_nth\<close>)
qed (simp add: set_input_def split: prod.splits)

lemma fold_set_input:
  "(\<And>s. s \<in> set ss \<Longrightarrow> fst s < length ns) \<Longrightarrow>
   fold (set_input e) ss (redirect m ns) = redirect (\<lambda>s. if s \<in> set ss then Some e else m s) ns"
proof (induction ss arbitrary: m)
  case (Cons s ss)
  have "(\<lambda>t. if t \<in> set ss then Some e else (m(s \<mapsto> e)) t) = (\<lambda>t. if t \<in> set (s # ss) then Some e else m t)" by (auto simp: fun_eq_iff)
  then show ?case using Cons.IH [of "m(s \<mapsto> e)"] Cons.prems by (simp add: set_input_redirect del: fun_upd_apply)
qed simp

section \<open>Applying rewires and plans\<close>

definition copy_key :: "inserted_copy \<Rightarrow> nat \<times> nat \<times> nat" where
  "copy_key c = (ic_copy_node c, ic_source_edge c, ic_dest_edge c)"

lemma note_consumer_keys: "map copy_key (note_consumer d i cs) = map copy_key cs"
  by (induction cs) (auto simp: copy_key_def)

definition rewire_map :: "(nat \<times> nat \<times> nat) list \<Rightarrow> (nat \<times> nat \<rightharpoonup> nat) \<Rightarrow> (nat \<times> nat \<rightharpoonup> nat)" where
  "rewire_map rs m = fold (\<lambda>(d, s) m. m(s \<mapsto> d)) rs m"

lemma apply_rewires:
  assumes "\<forall>r \<in> set rs. fst (snd r) < length ns" and "gr_nodes h = redirect m ns"
  shows "\<exists>cs. fold apply_rewire rs h = h\<lparr>gr_nodes := redirect (rewire_map rs m) ns, gr_inserted_copies := cs\<rparr> \<and>
    map copy_key cs = map copy_key (gr_inserted_copies h)"
  using assms
proof (induction rs arbitrary: h m)
  case Nil
  then show ?case by (intro exI [of _ "gr_inserted_copies h"]) (simp add: rewire_map_def)
next
  case (Cons r rs)
  obtain d i p where r: "r = (d, i, p)" by (metis surj_pair)
  have s: "fst (i, p) < length ns" using Cons.prems(1) r by simp
  let ?h = "apply_rewire r h"
  have n: "gr_nodes ?h = redirect (m((i, p) \<mapsto> d)) ns"
    using Cons.prems(2) set_input_redirect [OF s] by (simp add: apply_rewire_def r del: fun_upd_apply)
  have "\<forall>r \<in> set rs. fst (snd r) < length ns" using Cons.prems(1) by auto
  from Cons.IH [OF this n] obtain cs where
    "fold apply_rewire rs ?h = ?h\<lparr>gr_nodes := redirect (rewire_map rs (m((i, p) \<mapsto> d))) ns, gr_inserted_copies := cs\<rparr>"
    "map copy_key cs = map copy_key (gr_inserted_copies ?h)" by blast
  then show ?case by (intro exI [of _ cs]) (simp add: rewire_map_def r apply_rewire_def note_consumer_keys)
qed

definition copy_tensor :: "'a graph \<Rightarrow> nat \<Rightarrow> tensor" where
  "copy_tensor g e = (ge_tensor (gr_edges g ! e))\<lparr>tn_layout := CONTIGUOUS\<rparr>"

definition copy_edge :: "'a graph \<Rightarrow> nat \<times> nat \<Rightarrow> graph_edge" where
  "copy_edge g = (\<lambda>(j, e). \<lparr>ge_id = length (gr_edges g) + j, ge_tensor = copy_tensor g e,
     ge_strides = compute_contiguous_strides (tn_shape (copy_tensor g e)), ge_source = None\<rparr>)"

definition copy_node :: "'a graph \<Rightarrow> nat \<times> nat \<Rightarrow> 'a graph_node" where
  "copy_node g = (\<lambda>(j, e). \<lparr>gn_id = length (gr_nodes g) + j, gn_op = OpCopy Contiguize, gn_inputs = [e],
     gn_input_requirements = [AnyStride], gn_outputs = [length (gr_edges g) + j]\<rparr>)"

definition new_key :: "'a graph \<Rightarrow> nat \<times> nat \<Rightarrow> nat \<times> nat \<times> nat" where
  "new_key g = (\<lambda>(j, e). (length (gr_nodes g) + j, e, length (gr_edges g) + j))"

definition plan_map :: "nat \<Rightarrow> copy_plan list \<Rightarrow> (nat \<times> nat \<rightharpoonup> nat) \<Rightarrow> (nat \<times> nat \<rightharpoonup> nat)" where
  "plan_map base ps m = fold (\<lambda>(j, plan) m s. if s \<in> set (cp_consumers plan) then Some (base + j) else m s) (List.enumerate 0 ps) m"

lemma plan_map_snoc:
  "plan_map base (ps @ [plan]) m = (\<lambda>s. if s \<in> set (cp_consumers plan) then Some (base + length ps) else plan_map base ps m s)"
  unfolding plan_map_def by (simp add: enumerate_append_eq)

lemma apply_plans_snoc:
  "apply_plans (ps @ [p]) g = (case apply_plans ps g of (Inl e, g') \<Rightarrow> (Inl e, g')
     | (Inr _, g') \<Rightarrow> (case apply_plan p g' of Inl e \<Rightarrow> (Inl e, g') | Inr g'' \<Rightarrow> (Inr (), g'')))"
  by (induction ps arbitrary: g) (auto split: sum.splits)

lemma apply_plans_eq:
  assumes "gr_nodes h = redirect m (gr_nodes g)" and "gr_edges h = gr_edges g" and "\<And>s. m s \<noteq> None \<Longrightarrow> fst s < length (gr_nodes g)"
    and "\<forall>plan \<in> set ps. cp_src_edge_id plan < length (gr_edges g) \<and> tensor_ok (ge_tensor (gr_edges g ! cp_src_edge_id plan)) \<and>
      (\<forall>s \<in> set (cp_consumers plan). fst s < length (gr_nodes g))"
  shows "\<exists>cs. apply_plans ps h = (Inr (), h\<lparr>gr_edges := gr_edges g @ map (copy_edge g) (List.enumerate 0 (map cp_src_edge_id ps)),
      gr_nodes := redirect (plan_map (length (gr_edges g)) ps m) (gr_nodes g) @ map (copy_node g) (List.enumerate 0 (map cp_src_edge_id ps)),
      gr_inserted_copies := gr_inserted_copies h @ cs\<rparr>) \<and>
    map copy_key cs = map (new_key g) (List.enumerate 0 (map cp_src_edge_id ps)) \<and>
    (\<forall>s. plan_map (length (gr_edges g)) ps m s \<noteq> None \<longrightarrow> fst s < length (gr_nodes g))"
  using assms(4)
proof (induction ps rule: rev_induct)
  case Nil
  show ?case by (intro exI [of _ "[]"]) (use assms in \<open>auto simp: plan_map_def\<close>)
next
  case (snoc plan ps)
  let ?e = "cp_src_edge_id plan" and ?ns = "gr_nodes g" and ?es = "gr_edges g" and ?m = "plan_map (length (gr_edges g)) ps m"
  let ?en = "List.enumerate 0 (map cp_src_edge_id ps)"
  define H where "H cs = h\<lparr>gr_edges := ?es @ map (copy_edge g) ?en, gr_nodes := redirect ?m ?ns @ map (copy_node g) ?en,
      gr_inserted_copies := gr_inserted_copies h @ cs\<rparr>" for cs
  have "\<forall>plan \<in> set ps. cp_src_edge_id plan < length ?es \<and> tensor_ok (ge_tensor (?es ! cp_src_edge_id plan)) \<and>
      (\<forall>s \<in> set (cp_consumers plan). fst s < length ?ns)" using snoc.prems by simp
  from snoc.IH [OF this] obtain cs where ih: "apply_plans ps h = (Inr (), H cs)"
    and cs: "map copy_key cs = map (new_key g) ?en" and dm: "\<And>s. ?m s \<noteq> None \<Longrightarrow> fst s < length ?ns" unfolding H_def by blast
  define h' where h': "h' = H cs"
  note h'_eq = h' and h' = h' [unfolded H_def]
  have e: "?e < length ?es" "tensor_ok (ge_tensor (?es ! ?e))" "\<And>s. s \<in> set (cp_consumers plan) \<Longrightarrow> fst s < length ?ns" using snoc.prems by auto
  have t: "ge_tensor (gr_edges h' ! ?e) = ge_tensor (?es ! ?e)" using e by (simp add: h' nth_append)
  let ?cp = "copy_node g (length ps, ?e)"
  have dm': "plan_map (length ?es) (ps @ [plan]) m s \<noteq> None \<Longrightarrow> fst s < length ?ns" for s
    using e(3) dm [of s] by (auto simp: plan_map_snoc split: if_splits)
  have f: "fold (set_input (length ?es + length ps)) (cp_consumers plan) (redirect ?m ?ns @ map (copy_node g) ?en @ [?cp]) =
      redirect (plan_map (length ?es) (ps @ [plan]) m) ?ns @ map (copy_node g) ?en @ [?cp]"
  proof -
    have "fold (set_input (length ?es + length ps)) (cp_consumers plan) (redirect ?m (?ns @ map (copy_node g) ?en @ [?cp])) =
        redirect (plan_map (length ?es) (ps @ [plan]) m) (?ns @ map (copy_node g) ?en @ [?cp])"
      unfolding plan_map_snoc by (rule fold_set_input) (use e(3) in force)
    then show ?thesis using dm' redirect_append [of ?m ?ns] redirect_append [of "plan_map (length ?es) (ps @ [plan]) m" ?ns] dm by metis
  qed
  define c where "c = \<lparr>ic_copy_node = length (gr_nodes h'), ic_source_edge = ?e, ic_dest_edge = length (gr_edges h'),
      ic_consumer_nodes = remdups (sort (map fst (cp_consumers plan))),
      ic_actual_strides = cp_actual_strides plan, ic_expected_strides = cp_expected_strides plan\<rparr>"
  have "apply_plan plan h' = Inr (h'\<lparr>gr_edges := gr_edges h' @ [copy_edge g (length ps, ?e)],
      gr_nodes := redirect (plan_map (length ?es) (ps @ [plan]) m) ?ns @ map (copy_node g) ?en @ [?cp],
      gr_inserted_copies := gr_inserted_copies h' @ [c]\<rparr>)"
  proof -
    have l: "length (gr_nodes h') = length ?ns + length ps" "length (gr_edges h') = length ?es + length ps" by (simp_all add: h')
    have fe: "fresh_edge (gr_edges h') ((ge_tensor (?es ! ?e))\<lparr>tn_layout := CONTIGUOUS\<rparr>) = copy_edge g (length ps, ?e)"
      by (simp add: fresh_edge_def copy_edge_def copy_tensor_def l)
    have cp: "\<lparr>gn_id = length ?ns + length ps, gn_op = OpCopy Contiguize, gn_inputs = [?e], gn_input_requirements = [AnyStride],
        gn_outputs = [length ?es + length ps]\<rparr> = ?cp" by (simp add: copy_node_def)
    have nn: "gr_nodes h' = redirect ?m ?ns @ map (copy_node g) ?en" by (simp add: h')
    show ?thesis unfolding apply_plan_def t tensor_new_contiguous [OF e(2)] Let_def bind_r_simps fe c_def l nn using f by (simp add: cp)
  qed
  then have "apply_plans (ps @ [plan]) h = (Inr (), h'\<lparr>gr_edges := gr_edges h' @ [copy_edge g (length ps, ?e)],
      gr_nodes := redirect (plan_map (length ?es) (ps @ [plan]) m) ?ns @ map (copy_node g) ?en @ [?cp],
      gr_inserted_copies := gr_inserted_copies h' @ [c]\<rparr>)" by (simp add: apply_plans_snoc ih flip: h'_eq)
  moreover have "copy_key c = new_key g (length ps, ?e)" by (simp add: c_def copy_key_def new_key_def h')
  ultimately show ?case using cs by (intro exI [of _ "cs @ [c]"] conjI allI impI dm') (simp_all add: h' enumerate_append_eq)
qed

section \<open>The graph with its copies\<close>

lemma rewire_map_sites:
  "rewire_map (List.map_filter (\<lambda>s. map_option (\<lambda>c. (ic_dest_edge c, fst s, snd s)) (f s)) xs) Map.empty s =
     (if s \<in> set xs then map_option ic_dest_edge (f s) else None)"
proof (induction xs rule: rev_induct)
  case (snoc x xs)
  then show ?case by (cases "f x") (auto simp: rewire_map_def List.map_filter_def)
qed (simp add: rewire_map_def List.map_filter_def)

lemma plan_map_at:
  assumes "j < length ps" and "s \<in> set (cp_consumers (ps ! j))" and "\<forall>k < length ps. s \<in> set (cp_consumers (ps ! k)) \<longrightarrow> k = j"
  shows "plan_map base ps m s = Some (base + j)"
  using assms
proof (induction ps rule: rev_induct)
  case (snoc p ps)
  show ?case
  proof (cases "j = length ps")
    case False
    then have "s \<notin> set (cp_consumers p)" using snoc.prems(3) [rule_format, of "length ps"] by auto
    moreover have "k = j" if "k < length ps" "s \<in> set (cp_consumers (ps ! k))" for k
      using snoc.prems(3) [rule_format, of k] that by (simp add: nth_append)
    moreover have j: "j < length ps" "s \<in> set (cp_consumers (ps ! j))" using snoc.prems(1,2) False by (auto simp: nth_append)
    ultimately have "s \<notin> set (cp_consumers p)" "plan_map base ps m s = Some (base + j)" using snoc.IH [OF j] by blast+
    then show ?thesis by (simp only: plan_map_snoc if_False)
  qed (use snoc.prems in \<open>simp add: plan_map_snoc\<close>)
qed simp

lemma plan_map_else: "\<forall>plan \<in> set ps. s \<notin> set (cp_consumers plan) \<Longrightarrow> plan_map base ps m s = m s"
  by (induction ps rule: rev_induct) (simp_all add: plan_map_snoc, simp add: plan_map_def)

definition target :: "'a graph \<Rightarrow> nat list \<Rightarrow> nat \<times> nat \<Rightarrow> nat \<Rightarrow> bool" where
  "target g srcs s d \<longleftrightarrow> (case existing_copy g (src g s) of
     Some c \<Rightarrow> d = ic_dest_edge c | None \<Rightarrow> (\<exists>j < length srcs. srcs ! j = src g s \<and> d = length (gr_edges g) + j))"

definition with_copies :: "'a graph \<Rightarrow> nat list \<Rightarrow> (nat \<times> nat \<rightharpoonup> nat) \<Rightarrow> inserted_copy list \<Rightarrow> 'a graph" where
  "with_copies g srcs m cs = g\<lparr>gr_edges := gr_edges g @ map (copy_edge g) (List.enumerate 0 srcs),
     gr_nodes := redirect m (gr_nodes g) @ map (copy_node g) (List.enumerate 0 srcs), gr_inserted_copies := cs\<rparr>"

definition copied :: "'a graph \<Rightarrow> nat list \<Rightarrow> (nat \<times> nat \<rightharpoonup> nat) \<Rightarrow> inserted_copy list \<Rightarrow> bool" where
  "copied g srcs m cs \<longleftrightarrow> map copy_key cs = map copy_key (gr_inserted_copies g) @ map (new_key g) (List.enumerate 0 srcs) \<and>
     distinct srcs \<and> (\<forall>e \<in> set srcs. e < length (gr_edges g) \<and> existing_copy g e = None) \<and>
     (\<forall>s. case m s of None \<Rightarrow> s \<notin> set (sites g) | Some d \<Rightarrow> s \<in> set (sites g) \<and> target g srcs s d)"

lemma src_in_range:
  assumes "graph_ok g" and "s \<in> set (sites g)"
  shows "src g s < length (gr_edges g)"
proof -
  have s: "fst s < length (gr_nodes g)" "snd s < length (gn_inputs (gr_nodes g ! fst s))" using assms(2) by (auto simp: sites_iff)
  then have "node_ok (length (gr_edges g)) (fst s) (gr_nodes g ! fst s)" using assms(1) nodes_okD by (auto simp: graph_ok_def)
  then show ?thesis using nth_mem [OF s(2)] by (auto simp: node_ok_def src_def)
qed

lemma materialize_eq:
  assumes ok: "graph_ok g"
  shows "\<exists>srcs m cs. materialize_copies g = (IrOk (length srcs), with_copies g srcs m cs) \<and> copied g srcs m cs"
proof -
  define st where "st = fold (scan_site g) (sites g) empty_scan"
  define ps where "ps = cs_plans st"
  define m0 where "m0 = rewire_map (cs_existing_rewires st) Map.empty"
  have scan: "copy_scan_of g = Some st" using copy_scan_of_eq [OF ok] by (simp add: st_def)
  have sc: "scanned g (sites g) st" unfolding st_def by (rule scan_scanned)
  note sc = sc [unfolded scanned_def, folded ps_def]
  have m0: "m0 s = (if s \<in> set (sites g) then map_option ic_dest_edge (existing_copy g (src g s)) else None)" for s
    unfolding m0_def conjunct1 [OF sc] by (rule rewire_map_sites)
  have consumers: "s \<in> set (cp_consumers plan) \<longleftrightarrow> s \<in> set (sites g) \<and> src g s = cp_src_edge_id plan" if "plan \<in> set ps" for s plan
  proof -
    have "cp_consumers plan = filter (\<lambda>s. src g s = cp_src_edge_id plan) (sites g)" using sc that by blast
    then show ?thesis by simp
  qed
  have plans: "existing_copy g (cp_src_edge_id plan) = None" "\<exists>s \<in> set (sites g). src g s = cp_src_edge_id plan" if "plan \<in> set ps" for plan
  proof -
    have p: "existing_copy g (cp_src_edge_id plan) = None" "cp_consumers plan \<noteq> []" using sc that by blast+
    show "existing_copy g (cp_src_edge_id plan) = None" by (rule p(1))
    show "\<exists>s \<in> set (sites g). src g s = cp_src_edge_id plan" using p(2) consumers [OF that] by (metis last_in_set)
  qed
  have "\<forall>r \<in> set (cs_existing_rewires st). fst (snd r) < length (gr_nodes g)"
    using sc by (auto simp: List.map_filter_def sites_iff)
  from apply_rewires [OF this, of g Map.empty] obtain cs0 h where
    h: "fold apply_rewire (cs_existing_rewires st) g = h" "h = g\<lparr>gr_nodes := redirect m0 (gr_nodes g), gr_inserted_copies := cs0\<rparr>"
    and cs0: "map copy_key cs0 = map copy_key (gr_inserted_copies g)" by (auto simp: redirect_empty m0_def)
  let ?m = "plan_map (length (gr_edges g)) ps m0" and ?srcs = "map cp_src_edge_id ps"
  have "\<exists>cs. apply_plans ps h = (Inr (), h\<lparr>gr_edges := gr_edges g @ map (copy_edge g) (List.enumerate 0 ?srcs),
      gr_nodes := redirect ?m (gr_nodes g) @ map (copy_node g) (List.enumerate 0 ?srcs),
      gr_inserted_copies := gr_inserted_copies h @ cs\<rparr>) \<and>
    map copy_key cs = map (new_key g) (List.enumerate 0 ?srcs) \<and> (\<forall>s. ?m s \<noteq> None \<longrightarrow> fst s < length (gr_nodes g))"
  proof (rule apply_plans_eq)
    show "\<forall>plan \<in> set ps. cp_src_edge_id plan < length (gr_edges g) \<and> tensor_ok (ge_tensor (gr_edges g ! cp_src_edge_id plan)) \<and>
        (\<forall>s \<in> set (cp_consumers plan). fst s < length (gr_nodes g))"
    proof
      fix plan assume p: "plan \<in> set ps"
      then have "cp_src_edge_id plan < length (gr_edges g)" using plans(2) src_in_range [OF ok] by metis
      then show "cp_src_edge_id plan < length (gr_edges g) \<and> tensor_ok (ge_tensor (gr_edges g ! cp_src_edge_id plan)) \<and>
          (\<forall>s \<in> set (cp_consumers plan). fst s < length (gr_nodes g))"
        using edge_okD(2) [OF ok] consumers [OF p] by (auto simp: sites_iff)
    qed
  qed (use h m0 in \<open>auto simp: sites_iff split: if_splits\<close>)
  then obtain cs where a: "apply_plans ps h = (Inr (), with_copies g ?srcs ?m (cs0 @ cs))"
    and cs: "map copy_key cs = map (new_key g) (List.enumerate 0 ?srcs)" by (auto simp: h(2) with_copies_def)
  have "case ?m s of None \<Rightarrow> s \<notin> set (sites g) | Some d \<Rightarrow> s \<in> set (sites g) \<and> target g ?srcs s d" for s
  proof (cases "\<exists>plan \<in> set ps. s \<in> set (cp_consumers plan)")
    case True
    then obtain j where j: "j < length ps" "s \<in> set (cp_consumers (ps ! j))" by (metis in_set_conv_nth)
    have s: "s \<in> set (sites g)" "src g s = cp_src_edge_id (ps ! j)" using consumers [of "ps ! j" s] j by auto
    have "k = j" if "k < length ps" "s \<in> set (cp_consumers (ps ! k))" for k
      using consumers [of "ps ! k" s] that j s sc nth_eq_iff_index_eq [of "map cp_src_edge_id ps" k j] by auto
    then have "?m s = Some (length (gr_edges g) + j)" using plan_map_at [OF j] by blast
    moreover have "existing_copy g (src g s) = None" using plans(1) [of "ps ! j"] j s by simp
    ultimately show ?thesis using s j by (auto simp: target_def)
  next
    case False
    then have "?m s = m0 s" by (intro plan_map_else) auto
    moreover have "existing_copy g (src g s) \<noteq> None" if s: "s \<in> set (sites g)"
    proof
      assume "existing_copy g (src g s) = None"
      then have "src g s \<in> cp_src_edge_id ` set ps" using sc s by blast
      then show False using False consumers s by blast
    qed
    ultimately show ?thesis by (auto simp: m0 target_def split: option.splits)
  qed
  then have "copied g ?srcs ?m (cs0 @ cs)"
    using cs0 cs sc plans src_in_range [OF ok] unfolding copied_def by fastforce
  moreover have "materialize_copies g = (IrOk (length ?srcs), with_copies g ?srcs ?m (cs0 @ cs))"
    by (simp add: materialize_copies_def scan h(1) a flip: ps_def)
  ultimately show ?thesis by blast
qed

end
