(* ===== verification/Ir_Exec.thy ===== *)
theory Ir_Exec
  imports Ir_Copies
begin

text \<open>
  What materialising copies gives: a well-formed graph in which every requirement of an operator holds, the tensors
  unchanged but for their layout, a second run that finds nothing, and an execution order whenever there was one.
\<close>

section \<open>Recorded copies\<close>

text \<open>The copy node a record names reads the source, writes the destination, and the destination is contiguous.\<close>

definition copy_current :: "'a graph \<Rightarrow> nat \<times> nat \<times> nat \<Rightarrow> bool" where
  "copy_current g = (\<lambda>(q, e, d). q < length (gr_nodes g) \<and> e < length (gr_edges g) \<and> d < length (gr_edges g) \<and>
     is_copy (gn_op (gr_nodes g ! q)) \<and> gn_inputs (gr_nodes g ! q) = [e] \<and> d \<in> set (gn_outputs (gr_nodes g ! q)) \<and>
     is_contiguous (gr_edges g ! d) \<and> ge_tensor (gr_edges g ! d) = copy_tensor g e)"

definition copies_current :: "'a graph \<Rightarrow> bool" where
  "copies_current g \<longleftrightarrow> (\<forall>c \<in> set (gr_inserted_copies g). copy_current g (copy_key c))"

lemma input_in_range:
  assumes "graph_ok g" and "i < length (gr_nodes g)" and "p < length (gn_inputs (gr_nodes g ! i))"
  shows "gn_inputs (gr_nodes g ! i) ! p < length (gr_edges g)"
proof -
  have "node_ok (length (gr_edges g)) i (gr_nodes g ! i)" using assms(1,2) nodes_okD by (auto simp: graph_ok_def)
  then show ?thesis using nth_mem [OF assms(3)] by (auto simp: node_ok_def)
qed

lemma existing_copyD: "existing_copy g e = Some c \<Longrightarrow> c \<in> set (gr_inserted_copies g) \<and> ic_source_edge c = e"
  by (auto simp: existing_copy_def find_Some_iff)

section \<open>Shape of the result\<close>

lemma with_copies_fields [simp]:
  "length (gr_edges (with_copies g srcs m cs)) = length (gr_edges g) + length srcs"
  "length (gr_nodes (with_copies g srcs m cs)) = length (gr_nodes g) + length srcs"
  "gr_inserted_copies (with_copies g srcs m cs) = cs" "gr_key (with_copies g srcs m cs) = gr_key g"
  "gr_external_inputs (with_copies g srcs m cs) = gr_external_inputs g" "gr_positions (with_copies g srcs m cs) = gr_positions g"
  "gr_external_outputs (with_copies g srcs m cs) = gr_external_outputs g"
  by (simp_all add: with_copies_def)

lemma with_copies_old:
  "i < length (gr_edges g) \<Longrightarrow> gr_edges (with_copies g srcs m cs) ! i = gr_edges g ! i"
  "i < length (gr_nodes g) \<Longrightarrow> gr_nodes (with_copies g srcs m cs) ! i = redirect m (gr_nodes g) ! i"
  by (simp_all add: with_copies_def nth_append)

lemma with_copies_new:
  "j < length srcs \<Longrightarrow> gr_edges (with_copies g srcs m cs) ! (length (gr_edges g) + j) = copy_edge g (j, srcs ! j)"
  "j < length srcs \<Longrightarrow> gr_nodes (with_copies g srcs m cs) ! (length (gr_nodes g) + j) = copy_node g (j, srcs ! j)"
  by (simp_all add: with_copies_def nth_append nth_enumerate_eq)

lemma index_cases:
  assumes "i < n + (k::nat)"
  obtains (old) "i < n" | (new) j where "j < k" "i = n + j"
  using assms by (metis add_less_cancel_left le_Suc_ex not_less)

lemma redirect_input:
  assumes "i < length ns" and "p < length (gn_inputs (ns ! i))"
  shows "gn_inputs (redirect m ns ! i) ! p = (case m (i, p) of None \<Rightarrow> gn_inputs (ns ! i) ! p | Some e \<Rightarrow> e)"
  using assms by (simp add: redirect_nth cong: option.case_cong)

lemma copiedD:
  assumes "copied g srcs m cs"
  shows "j < length srcs \<Longrightarrow> srcs ! j < length (gr_edges g)" "m s = Some d \<Longrightarrow> s \<in> set (sites g) \<and> target g srcs s d"
    "m s = None \<Longrightarrow> s \<notin> set (sites g)"
  using assms unfolding copied_def by (metis nth_mem, metis option.simps(5), metis option.simps(4))

lemma copied_keys:
  assumes "copied g srcs m cs" and "c \<in> set cs"
  shows "(\<exists>c' \<in> set (gr_inserted_copies g). copy_key c = copy_key c') \<or>
    (\<exists>j < length srcs. copy_key c = (length (gr_nodes g) + j, srcs ! j, length (gr_edges g) + j))"
proof -
  have "copy_key c \<in> set (map copy_key cs)" using assms(2) by simp
  also have "set (map copy_key cs) = copy_key ` set (gr_inserted_copies g) \<union> new_key g ` set (List.enumerate 0 srcs)"
    using assms(1) unfolding copied_def by (metis set_append set_map)
  finally show ?thesis by (auto simp: new_key_def in_set_enumerate_eq)
qed

text \<open>Where a redirected input leads.\<close>

lemma target_cases:
  assumes "copied g srcs m cs" and "m s = Some d"
  obtains (existing) c where "c \<in> set (gr_inserted_copies g)" "ic_source_edge c = src g s" "d = ic_dest_edge c"
  | (new) j where "j < length srcs" "srcs ! j = src g s" "d = length (gr_edges g) + j"
  using copiedD(2) [OF assms] existing_copyD [of g "src g s"] by (auto simp: target_def split: option.splits)

lemma with_copies_inputs:
  assumes ok: "graph_ok g" and c: "copied g srcs m cs" and i: "i < length (gr_nodes g)" and p: "p < length (gn_inputs (gr_nodes g ! i))"
  shows "gn_inputs (redirect m (gr_nodes g) ! i) ! p < length (gr_edges g) + length srcs"
proof (cases "m (i, p)")
  case None
  have "gn_inputs (gr_nodes g ! i) ! p < length (gr_edges g)" by (rule input_in_range [OF ok i p])
  then show ?thesis using None redirect_input [OF i p] by simp
next
  case (Some d)
  from c Some have "d < length (gr_edges g) + length srcs"
  proof (cases rule: target_cases)
    case (existing c)
    then have "ic_dest_edge c < length (gr_edges g)" using ok by (auto simp: graph_ok_def)
    then show ?thesis using existing by simp
  qed simp
  then show ?thesis using Some redirect_input [OF i p] by simp
qed

lemma redirect_fields [simp]:
  assumes "i < length ns"
  shows "gn_id (redirect m ns ! i) = gn_id (ns ! i)" "gn_op (redirect m ns ! i) = gn_op (ns ! i)"
    "gn_outputs (redirect m ns ! i) = gn_outputs (ns ! i)" "gn_input_requirements (redirect m ns ! i) = gn_input_requirements (ns ! i)"
    "length (gn_inputs (redirect m ns ! i)) = length (gn_inputs (ns ! i))"
  using assms by (simp_all add: redirect_nth)

lemma copy_tensor_ok: "tensor_ok (ge_tensor (gr_edges g ! e)) \<Longrightarrow> tensor_ok (copy_tensor g e)"
  by (auto simp: copy_tensor_def tensor_ok_def intro: kind_ok_contiguous)

lemma copy_fields [simp]:
  "gn_id (copy_node g (j, e)) = length (gr_nodes g) + j" "is_copy (gn_op (copy_node g (j, e)))" "gn_inputs (copy_node g (j, e)) = [e]"
  "gn_outputs (copy_node g (j, e)) = [length (gr_edges g) + j]" "gn_input_requirements (copy_node g (j, e)) = [AnyStride]"
  "ge_id (copy_edge g (j, e)) = length (gr_edges g) + j" "ge_tensor (copy_edge g (j, e)) = copy_tensor g e" "ge_source (copy_edge g (j, e)) = None"
  "is_contiguous (copy_edge g (j, e))" "ge_strides (copy_edge g (j, e)) = compute_contiguous_strides (tn_shape (copy_tensor g e))"
  by (simp_all add: copy_node_def copy_edge_def is_copy_def is_contiguous_def)

lemma with_copies_ok:
  assumes ok: "graph_ok g" and c: "copied g srcs m cs"
  shows "graph_ok (with_copies g srcs m cs)"
proof -
  let ?g = "with_copies g srcs m cs" and ?ne = "length (gr_edges g)" and ?nn = "length (gr_nodes g)" and ?k = "length srcs"
  have "edge_ok (gr_edges ?g) i" if i: "i < ?ne + ?k" for i
    using i
  proof (cases rule: index_cases)
    case old
    then show ?thesis using ok by (simp add: edge_ok_def with_copies_old graph_ok_def edges_ok_def Let_def)
  next
    case (new j)
    then show ?thesis using copy_tensor_ok edge_okD(2) [OF ok copiedD(1) [OF c new(1)]]
      by (simp add: edge_ok_def with_copies_new Let_def strides_length)
  qed
  then have es: "edges_ok (gr_edges ?g)" by (simp add: edges_ok_def)
  have "node_ok (?ne + ?k) i (gr_nodes ?g ! i)" if i: "i < ?nn + ?k" for i
    using i
  proof (cases rule: index_cases)
    case old
    then have "node_ok ?ne i (gr_nodes g ! i)" using ok by (simp add: graph_ok_def nodes_ok_def)
    then show ?thesis using old with_copies_inputs [OF ok c old] by (force simp: node_ok_def with_copies_old in_set_conv_nth)
  next
    case (new j)
    then show ?thesis using copiedD(1) [OF c new(1)] by (simp add: node_ok_def with_copies_new)
  qed
  moreover have "distinct (concat (map gn_outputs (gr_nodes ?g)))"
  proof -
    have "map gn_outputs (redirect m (gr_nodes g)) = map gn_outputs (gr_nodes g)" by (rule nth_equalityI) simp_all
    moreover have "map gn_outputs (map (copy_node g) (List.enumerate 0 srcs)) = map (\<lambda>e. [e]) [?ne..<?ne + ?k]"
      by (rule nth_equalityI) (simp_all add: nth_enumerate_eq)
    moreover have "concat (map (\<lambda>e. [e]) [?ne..<?ne + ?k]) = [?ne..<?ne + ?k]" by simp
    moreover have "distinct (concat (map gn_outputs (gr_nodes g)))" "set (concat (map gn_outputs (gr_nodes g))) \<subseteq> {..<?ne}"
      using ok by (simp add: graph_ok_def nodes_ok_def, fastforce simp: graph_ok_def nodes_ok_def node_ok_def in_set_conv_nth)
    ultimately show ?thesis by (auto simp: with_copies_def)
  qed
  ultimately have ns: "nodes_ok (?ne + ?k) (gr_nodes ?g)" by (simp add: nodes_ok_def)
  have b: "bindings_ok ?g" by (rule bindings_ok_grow [of g]) (use ok in \<open>simp_all add: graph_ok_def\<close>)
  have "ic_source_edge d < ?ne + ?k \<and> ic_dest_edge d < ?ne + ?k \<and> ic_copy_node d < ?nn + ?k" if d: "d \<in> set cs" for d
    using copied_keys [OF c d] ok copiedD(1) [OF c] by (fastforce simp: copy_key_def graph_ok_def)
  then show ?thesis using es ns b by (auto simp: graph_ok_def)
qed

section \<open>Requirements\<close>

lemma with_copies_target:
  assumes cur: "copies_current g" and c: "copied g srcs m cs" and m: "m s = Some d"
  shows "is_contiguous (gr_edges (with_copies g srcs m cs) ! d) \<and> ge_tensor (gr_edges (with_copies g srcs m cs) ! d) = copy_tensor g (src g s)"
  using c m
proof (cases rule: target_cases)
  case (existing c)
  then have "copy_current g (copy_key c)" using cur by (simp add: copies_current_def)
  then show ?thesis using existing by (auto simp: copy_current_def copy_key_def with_copies_old)
next
  case (new j)
  then show ?thesis by (simp add: with_copies_new)
qed

lemma with_copies_satisfied:
  assumes ok: "graph_ok g" and cur: "copies_current g" and c: "copied g srcs m cs" and i: "i < length (gr_nodes g)"
    and op: "\<not> is_copy (gn_op (gr_nodes g ! i))" and p: "p < length (gn_inputs (gr_nodes g ! i))"
  defines "e \<equiv> gn_inputs (gr_nodes g ! i) ! p" and "e' \<equiv> gn_inputs (gr_nodes (with_copies g srcs m cs) ! i) ! p"
  shows "gn_input_requirements (gr_nodes g ! i) ! p = Contiguous \<Longrightarrow> is_contiguous (gr_edges (with_copies g srcs m cs) ! e')"
    and "if needs_copy g (gr_nodes g ! i) p then ge_tensor (gr_edges (with_copies g srcs m cs) ! e') = copy_tensor g e else e' = e"
proof -
  have s: "(i, p) \<in> set (sites g) \<longleftrightarrow> needs_copy g (gr_nodes g ! i) p" using i op p by (simp add: sites_iff)
  have e': "e' = (case m (i, p) of None \<Rightarrow> e | Some d \<Rightarrow> d)"
    using redirect_input [OF i p] i by (simp add: e_def e'_def with_copies_old cong: option.case_cong)
  have e: "e < length (gr_edges g)" unfolding e_def by (rule input_in_range [OF ok i p])
  have "(gn_input_requirements (gr_nodes g ! i) ! p = Contiguous \<longrightarrow> is_contiguous (gr_edges (with_copies g srcs m cs) ! e')) \<and>
    (if needs_copy g (gr_nodes g ! i) p then ge_tensor (gr_edges (with_copies g srcs m cs) ! e') = copy_tensor g e else e' = e)"
  proof (cases "m (i, p)")
    case None
    then have n: "\<not> needs_copy g (gr_nodes g ! i) p" "e' = e" using copiedD(3) [OF c] s e' by auto
    then show ?thesis using e by (auto simp: needs_copy_def e_def with_copies_old)
  next
    case (Some d)
    then have "needs_copy g (gr_nodes g ! i) p" "e' = d" using copiedD(2) [OF c Some] s e' by auto
    then show ?thesis using with_copies_target [OF cur c Some] by (simp add: src_def e_def)
  qed
  then show "gn_input_requirements (gr_nodes g ! i) ! p = Contiguous \<Longrightarrow> is_contiguous (gr_edges (with_copies g srcs m cs) ! e')"
    "if needs_copy g (gr_nodes g ! i) p then ge_tensor (gr_edges (with_copies g srcs m cs) ! e') = copy_tensor g e else e' = e" by blast+
qed

lemma copy_current_kept:
  assumes ok: "graph_ok g" and c: "copied g srcs m cs" and k: "copy_current g key"
  shows "copy_current (with_copies g srcs m cs) key"
proof -
  obtain q e d where key: "key = (q, e, d)" by (metis surj_pair)
  have k: "q < length (gr_nodes g)" "e < length (gr_edges g)" "d < length (gr_edges g)" "is_copy (gn_op (gr_nodes g ! q))" "gn_inputs (gr_nodes g ! q) = [e]"
    using k by (auto simp: copy_current_def key)
  have "m (q, p) = None" for p
  proof (rule ccontr)
    assume "m (q, p) \<noteq> None"
    then show False using copiedD(2) [OF c] k(4) by (force simp: sites_iff)
  qed
  then have "redirect m (gr_nodes g) ! q = gr_nodes g ! q" using k(1) by (intro redirect_same) auto
  then show ?thesis using assms(3) k by (simp add: copy_current_def key with_copies_old copy_tensor_def)
qed

lemma copies_current_with_copies:
  assumes ok: "graph_ok g" and cur: "copies_current g" and c: "copied g srcs m cs"
  shows "copies_current (with_copies g srcs m cs)"
  unfolding copies_current_def with_copies_fields
proof
  fix d assume "d \<in> set cs"
  from copied_keys [OF c this] show "copy_current (with_copies g srcs m cs) (copy_key d)"
  proof
    assume "\<exists>c' \<in> set (gr_inserted_copies g). copy_key d = copy_key c'"
    then show ?thesis using copy_current_kept [OF ok c] cur by (metis copies_current_def)
  next
    assume "\<exists>j < length srcs. copy_key d = (length (gr_nodes g) + j, srcs ! j, length (gr_edges g) + j)"
    then obtain j where j: "j < length srcs" "copy_key d = (length (gr_nodes g) + j, srcs ! j, length (gr_edges g) + j)" by blast
    then show ?thesis using copiedD(1) [OF c j(1)]
      by (simp add: copy_current_def with_copies_new with_copies_old copy_tensor_def)
  qed
qed

lemma with_copies_no_sites:
  assumes ok: "graph_ok g" and cur: "copies_current g" and c: "copied g srcs m cs"
  shows "sites (with_copies g srcs m cs) = []"
proof -
  let ?g = "with_copies g srcs m cs"
  have "s \<notin> set (sites ?g)" for s
  proof
    assume "s \<in> set (sites ?g)"
    then have s: "fst s < length (gr_nodes g) + length srcs" "\<not> is_copy (gn_op (gr_nodes ?g ! fst s))"
      "snd s < length (gn_inputs (gr_nodes ?g ! fst s))" "needs_copy ?g (gr_nodes ?g ! fst s) (snd s)" by (auto simp: sites_iff)
    from s(1) show False
    proof (cases rule: index_cases)
      case old
      then show False using s with_copies_satisfied(1) [OF ok cur c old, of "snd s"] by (simp add: with_copies_old needs_copy_def)
    next
      case (new j)
      then show False using s(2) by (simp add: with_copies_new)
    qed
  qed
  then show ?thesis by (metis last_in_set)
qed

lemma materialize_none: "graph_ok g \<Longrightarrow> sites g = [] \<Longrightarrow> materialize_copies g = (IrOk 0, g)"
  using copy_scan_of_eq [of g] by (simp add: materialize_copies_def empty_scan_def)

lemma copy_validates: "copy_validate Contiguize [t] [t\<lparr>tn_layout := CONTIGUOUS\<rparr>] = Inr ()"
proof -
  have "check_dim_match a b d a' d b' = []" for a b d a' b' by (cases d) (simp_all add: check_dim_match_def)
  then have "concat (map (\<lambda>(dy, dx). check_dim_match ''copy'' ''y'' dy ''x'' dx ''dim'') (zip ds ds)) = []" for ds
    by (induction ds) auto
  then show ?thesis by (simp add: copy_validate_def copy_placement_problems_def)
qed

section \<open>Execution order\<close>

lemma with_copies_producers:
  assumes ok: "graph_ok g" and c: "copied g srcs m cs"
  defines "g' \<equiv> with_copies g srcs m cs"
  shows "e < length (gr_edges g) \<Longrightarrow> producer_map g' e = producer_map g e"
    and "j < length srcs \<Longrightarrow> producer_map g' (length (gr_edges g) + j) = Some (length (gr_nodes g) + j)"
proof -
  have ok': "graph_ok g'" unfolding g'_def by (rule with_copies_ok [OF ok c])
  have n: "nodes_ok (length (gr_edges g)) (gr_nodes g)" "nodes_ok (length (gr_edges g')) (gr_nodes g')" using ok ok' by (auto simp: graph_ok_def)
  note iff = producer_map_iff [OF n(1)] producer_map_iff [OF n(2)]
  show "producer_map g' (length (gr_edges g) + j) = Some (length (gr_nodes g) + j)" if "j < length srcs"
    unfolding iff(2) using that by (simp add: g'_def with_copies_new)
  show "producer_map g' e = producer_map g e" if e: "e < length (gr_edges g)"
  proof -
    have "producer_map g' e = Some p \<longleftrightarrow> producer_map g e = Some p" for p
    proof (cases "p < length (gr_nodes g) + length srcs")
      case True
      then show ?thesis
      proof (cases rule: index_cases)
        case old
        then show ?thesis unfolding iff by (simp add: g'_def with_copies_old)
      next
        case (new j)
        then show ?thesis unfolding iff using e by (simp add: g'_def with_copies_new)
      qed
    next
      case False
      then show ?thesis unfolding iff by (simp add: g'_def)
    qed
    then show ?thesis by (metis not_Some_eq)
  qed
qed

lemma with_copies_resolve:
  assumes ok: "graph_ok g" and c: "copied g srcs m cs"
  defines "g' \<equiv> with_copies g srcs m cs"
  shows "e < length (gr_edges g) \<Longrightarrow> resolve_producer g' e (producer_map g') = resolve_producer g e (producer_map g)"
    and "j < length srcs \<Longrightarrow> resolve_producer g' (length (gr_edges g) + j) (producer_map g') = Some (length (gr_nodes g) + j)"
proof -
  have ok': "graph_ok g'" unfolding g'_def by (rule with_copies_ok [OF ok c])
  note pm = with_copies_producers [OF ok c, folded g'_def]
  show "j < length srcs \<Longrightarrow> resolve_producer g' (length (gr_edges g) + j) (producer_map g') = Some (length (gr_nodes g) + j)"
    using resolve_producer_eq [OF ok', of "length (gr_edges g) + j"] pm(2) by (simp add: g'_def)
  show "e < length (gr_edges g) \<Longrightarrow> resolve_producer g' e (producer_map g') = resolve_producer g e (producer_map g)"
  proof (induction e rule: less_induct)
    case (less e)
    have e': "e < length (gr_edges g')" "gr_edges g' ! e = gr_edges g ! e" using less.prems by (simp_all add: g'_def with_copies_old)
    show ?case unfolding resolve_producer_eq [OF ok less.prems] resolve_producer_eq [OF ok' e'(1)] e'(2) pm(1) [OF less.prems]
      using less.IH edge_okD(4) [OF ok less.prems] less.prems by (auto split: option.splits)
  qed
qed

text \<open>The nodes an edge depends on.\<close>

definition needed :: "'a graph \<Rightarrow> nat \<Rightarrow> nat set" where
  "needed g e = (case resolve_producer g e (producer_map g) of None \<Rightarrow> {} | Some p \<Rightarrow> insert p {y. (y, p) \<in> (set (uses g))\<^sup>+})"

lemma ancestors_finite: "finite {y. (y, x) \<in> (set (uses g))\<^sup>+}"
proof -
  have "{y. (y, x) \<in> (set (uses g))\<^sup>+} \<subseteq> fst ` ((set (uses g))\<^sup>+)" by force
  then show ?thesis using finite_subset finite_trancl by blast
qed

lemma needed_finite: "finite (needed g e)"
  by (simp add: needed_def ancestors_finite split: option.splits)

lemma needed_input:
  assumes "graph_ok g" and "x < length (gr_nodes g)" and "e \<in> set (gn_inputs (gr_nodes g ! x))"
  shows "needed g e \<subseteq> {y. (y, x) \<in> (set (uses g))\<^sup>+}"
proof (cases "resolve_producer g e (producer_map g)")
  case (Some p)
  then have "(p, x) \<in> set (uses g)" using uses_iff [OF assms(1)] assms(2,3) by blast
  then show ?thesis using Some by (auto simp: needed_def)
qed (simp add: needed_def)

lemma ancestors_copy:
  assumes "graph_ok g" and "x < length (gr_nodes g)" and "gn_inputs (gr_nodes g ! x) = [e]"
  shows "{y. (y, x) \<in> (set (uses g))\<^sup>+} = needed g e"
proof
  show "needed g e \<subseteq> {y. (y, x) \<in> (set (uses g))\<^sup>+}" using needed_input [OF assms(1,2)] assms(3) by simp
  show "{y. (y, x) \<in> (set (uses g))\<^sup>+} \<subseteq> needed g e"
  proof
    fix y assume "y \<in> {y. (y, x) \<in> (set (uses g))\<^sup>+}"
    then obtain z where z: "(z, x) \<in> set (uses g)" "y = z \<or> (y, z) \<in> (set (uses g))\<^sup>+" by (auto elim: tranclE)
    then have "resolve_producer g e (producer_map g) = Some z" using uses_iff [OF assms(1)] assms(3) by auto
    then show "y \<in> needed g e" using z by (auto simp: needed_def)
  qed
qed

text \<open>Copies only lengthen dependencies: a node is ranked by what it depends on, a copy just before its consumers.\<close>

definition exec_rank :: "'a graph \<Rightarrow> nat list \<Rightarrow> nat \<Rightarrow> nat" where
  "exec_rank g srcs x =
     (if x < length (gr_nodes g)
      then 2 * card {y. (y, x) \<in> (set (uses g))\<^sup>+} + (if is_copy (gn_op (gr_nodes g ! x)) then 0 else 1)
      else 2 * card (needed g (srcs ! (x - length (gr_nodes g)))))"

lemma exec_rank_use:
  assumes "graph_ok g" and a: "acyclic (set (uses g))" and u: "(x, y) \<in> set (uses g)"
  shows "exec_rank g srcs x < exec_rank g srcs y"
proof -
  let ?A = "\<lambda>x. {y. (y, x) \<in> (set (uses g))\<^sup>+}"
  have "?A x \<subset> ?A y" using u a by (auto simp: acyclic_def intro: trancl_into_trancl)
  then have "card (?A x) < card (?A y)" using ancestors_finite by (metis psubset_card_mono)
  then show ?thesis using uses_in_range [OF assms(1)] u by (auto simp: exec_rank_def in_range_def)
qed

lemma exec_rank_copy:
  assumes "graph_ok g" and a: "acyclic (set (uses g))" and "resolve_producer g e (producer_map g) = Some x" and "x < length (gr_nodes g)"
  shows "exec_rank g srcs x < 2 * card (needed g e)"
proof -
  let ?A = "{y. (y, x) \<in> (set (uses g))\<^sup>+}"
  have "x \<notin> ?A" using a by (auto simp: acyclic_def)
  then have "card (needed g e) = card ?A + 1" using assms(3) ancestors_finite [of x g] by (simp add: needed_def)
  then show ?thesis using assms(4) by (simp add: exec_rank_def)
qed

lemma with_copies_acyclic:
  assumes ok: "graph_ok g" and cur: "copies_current g" and c: "copied g srcs m cs" and a: "acyclic (set (uses g))"
  shows "acyclic (set (uses (with_copies g srcs m cs)))"
proof -
  let ?g = "with_copies g srcs m cs" and ?nn = "length (gr_nodes g)" and ?ne = "length (gr_edges g)"
  have ok': "graph_ok ?g" by (rule with_copies_ok [OF ok c])
  note res = with_copies_resolve [OF ok c]
  have pr: "resolve_producer g e (producer_map g) = Some x \<Longrightarrow> x < ?nn" for e x
    using resolve_from_producer producer_map_iff ok by (metis graph_ok_def resolve_producer_def)
  have "exec_rank g srcs x < exec_rank g srcs y" if u: "(x, y) \<in> set (uses ?g)" for x y
  proof -
    obtain e' where y: "y < ?nn + length srcs" and e': "e' \<in> set (gn_inputs (gr_nodes ?g ! y))" "resolve_producer ?g e' (producer_map ?g) = Some x"
      using u uses_iff [OF ok'] by auto
    from y show ?thesis
    proof (cases rule: index_cases)
      case (new j)
      then have x: "resolve_producer g (srcs ! j) (producer_map g) = Some x"
        using e' copiedD(1) [OF c new(1)] res(1) by (auto simp: with_copies_new)
      have "exec_rank g srcs y = 2 * card (needed g (srcs ! j))" using new by (simp add: exec_rank_def)
      then show ?thesis using exec_rank_copy [OF ok a x pr [OF x]] by simp
    next
      case old
      obtain p where p: "p < length (gn_inputs (gr_nodes g ! y))" "e' = gn_inputs (redirect m (gr_nodes g) ! y) ! p"
        using e'(1) old by (auto simp: with_copies_old in_set_conv_nth)
      let ?e = "gn_inputs (gr_nodes g ! y) ! p"
      have e: "?e \<in> set (gn_inputs (gr_nodes g ! y))" "?e < ?ne" using p input_in_range [OF ok old] by auto
      show ?thesis
      proof (cases "m (y, p)")
        case None
        then have "e' = ?e" using p redirect_input [OF old p(1)] by simp
        then have "(x, y) \<in> set (uses g)" using e'(2) e res(1) uses_iff [OF ok] old by metis
        then show ?thesis by (rule exec_rank_use [OF ok a])
      next
        case (Some d)
        then have d: "e' = d" using p redirect_input [OF old p(1)] by simp
        have "\<not> is_copy (gn_op (gr_nodes g ! y))" using copiedD(2) [OF c Some] by (simp add: sites_iff)
        moreover have "card (needed g ?e) \<le> card {z. (z, y) \<in> (set (uses g))\<^sup>+}"
          by (rule card_mono [OF ancestors_finite needed_input [OF ok old e(1)]])
        moreover have "exec_rank g srcs x = 2 * card (needed g ?e)"
          using c Some
        proof (cases rule: target_cases)
          case (existing k)
          then have k: "copy_current g (ic_copy_node k, ?e, d)" using cur by (auto simp: copies_current_def copy_key_def src_def)
          then have "producer_map g d = Some (ic_copy_node k)" "d < ?ne" using producer_map_iff ok by (auto simp: copy_current_def graph_ok_def)
          then have "x = ic_copy_node k" using e'(2) d res(1) resolve_producer_eq [OF ok] by simp
          then show ?thesis using k ancestors_copy [OF ok] by (auto simp: copy_current_def exec_rank_def)
        next
          case (new j)
          then have "x = ?nn + j" using e'(2) d res(2) by simp
          then show ?thesis using new by (simp add: exec_rank_def src_def)
        qed
        moreover have "exec_rank g srcs y = 2 * card {z. (z, y) \<in> (set (uses g))\<^sup>+} + (if is_copy (gn_op (gr_nodes g ! y)) then 0 else 1)"
          using old by (simp add: exec_rank_def)
        ultimately show ?thesis by simp
      qed
    qed
  qed
  then have "set (uses ?g) \<subseteq> measure (exec_rank g srcs)" by auto
  then show ?thesis by (rule acyclic_subset [OF wf_acyclic [OF wf_measure]])
qed

end
