(* ===== verification/Ir_Reach.thy ===== *)
theory Ir_Reach
  imports Ir_Exec
begin

text \<open>
  The graphs clients can reach. The building operations only add edges and operators over what exists, or insert copies, so a
  built graph always has an execution order; overwriting strides and rewiring inputs keep the graph well-formed but can
  outdate a recorded copy or close a cycle.
\<close>

section \<open>Steps\<close>

inductive build_step :: "'a graph \<Rightarrow> 'a graph \<Rightarrow> bool" where
  build_tensor: "tensor_ok t \<Longrightarrow> add_tensor g t = Inr (e, g') \<Longrightarrow> build_step g g'"
| build_input: "tensor_ok t \<Longrightarrow> add_external_input g k t = Inr (e, g') \<Longrightarrow> build_step g g'"
| build_non_tensor: "add_external_non_tensor g k = Inr g' \<Longrightarrow> build_step g g'"
| build_positions: "bind_positions g pk = Inr (e, g') \<Longrightarrow> build_step g g'"
| build_op: "\<forall>t \<in> set ts. tensor_ok t \<Longrightarrow> add_op_with_requirements g oper ins reqs ts = Inr (v, g') \<Longrightarrow> build_step g g'"
| build_output: "add_external_output g ok e = Inr g' \<Longrightarrow> build_step g g'"
| build_non_tensor_output: "add_external_non_tensor_output g ok = Inr g' \<Longrightarrow> build_step g g'"
| build_requirement: "set_node_input_requirement g v p req = IrOk g' \<Longrightarrow> build_step g g'"
| build_transpose: "transpose_edge g e perm = IrOk (v, g') \<Longrightarrow> build_step g g'"
| build_reshape: "reshape_edge g e shape = IrOk (v, g') \<Longrightarrow> build_step g g'"
| build_copies: "materialize_copies g = (r, g') \<Longrightarrow> build_step g g'"

inductive edit_step :: "'a graph \<Rightarrow> 'a graph \<Rightarrow> bool" where
  edit_strides: "set_edge_strides g e ss = Inr g' \<Longrightarrow> edit_step g g'"
| edit_input: "rewire_node_input g v p e = Inr g' \<Longrightarrow> edit_step g g'"

inductive built :: "'a graph \<Rightarrow> bool" where
  built_new: "built (graph_new key)"
| built_step: "built g \<Longrightarrow> build_step g g' \<Longrightarrow> built g'"

inductive graph_reach :: "'a graph \<Rightarrow> bool" where
  reach_new: "graph_reach (graph_new key)"
| reach_build: "graph_reach g \<Longrightarrow> build_step g g' \<Longrightarrow> graph_reach g'"
| reach_edit: "graph_reach g \<Longrightarrow> edit_step g g' \<Longrightarrow> graph_reach g'"

lemma materialize_ok:
  assumes "graph_ok g" and "materialize_copies g = (r, g')"
  shows "graph_ok g'"
proof -
  obtain srcs m cs where "materialize_copies g = (IrOk (length srcs), with_copies g srcs m cs)" "copied g srcs m cs"
    using materialize_eq [OF assms(1)] by blast
  then show ?thesis using with_copies_ok [OF assms(1)] assms(2) by auto
qed

lemma build_step_ok: "build_step g g' \<Longrightarrow> graph_ok g \<Longrightarrow> graph_ok g'"
  by (induction rule: build_step.induct)
     (blast intro: add_tensor_ok add_external_input_ok add_external_non_tensor_ok bind_positions_ok add_op_with_requirements_ok
        add_external_output_ok add_external_non_tensor_output_ok set_node_input_requirement_ok(2) transpose_edge_ok reshape_edge_ok(1)
        materialize_ok)+

lemma edit_step_ok: "edit_step g g' \<Longrightarrow> graph_ok g \<Longrightarrow> graph_ok g'"
  by (induction rule: edit_step.induct) (blast intro: set_edge_strides_ok rewire_node_input_ok)+

lemma reach_ok: "graph_reach g \<Longrightarrow> graph_ok g"
  by (induction rule: graph_reach.induct) (blast intro: graph_new_ok build_step_ok edit_step_ok)+

lemma built_reach: "built g \<Longrightarrow> graph_reach g"
  by (induction rule: built.induct) (blast intro: graph_reach.intros)+

section \<open>Extensions\<close>

definition extends :: "'a graph \<Rightarrow> 'a graph \<Rightarrow> bool" where
  "extends g g' \<longleftrightarrow> (\<exists>es. gr_edges g' = gr_edges g @ es) \<and> gr_inserted_copies g' = gr_inserted_copies g \<and>
     length (gr_nodes g) \<le> length (gr_nodes g') \<and>
     (\<forall>i < length (gr_nodes g). gn_op (gr_nodes g' ! i) = gn_op (gr_nodes g ! i) \<and> gn_inputs (gr_nodes g' ! i) = gn_inputs (gr_nodes g ! i) \<and>
        gn_outputs (gr_nodes g' ! i) = gn_outputs (gr_nodes g ! i)) \<and>
     (\<forall>i < length (gr_nodes g'). length (gr_nodes g) \<le> i \<longrightarrow>
        set (gn_inputs (gr_nodes g' ! i)) \<subseteq> {..<length (gr_edges g)} \<and> set (gn_outputs (gr_nodes g' ! i)) \<inter> {..<length (gr_edges g)} = {})"

lemma extends_edges:
  "gr_edges g' = gr_edges g @ es \<Longrightarrow> gr_nodes g' = gr_nodes g \<Longrightarrow> gr_inserted_copies g' = gr_inserted_copies g \<Longrightarrow> extends g g'"
  by (auto simp: extends_def)

lemma extends_op:
  assumes "add_op_with_requirements g oper ins reqs ts = Inr (v, g')"
  shows "extends g g'"
proof -
  let ?es = "foldl (\<lambda>es t. es @ [fresh_edge es t]) (gr_edges g) ts"
  have "\<exists>new. foldl (\<lambda>es t. es @ [fresh_edge es t]) es ts = es @ new" for es :: "graph_edge list" and ts
  proof (induction ts arbitrary: es)
    case (Cons t ts)
    obtain new where "foldl (\<lambda>es t. es @ [fresh_edge es t]) (es @ [fresh_edge es t]) ts = (es @ [fresh_edge es t]) @ new"
      using Cons.IH by blast
    then show ?case by simp
  qed simp
  then obtain new where "?es = gr_edges g @ new" by blast
  then show ?thesis using assms by (auto simp: add_op_with_requirements_eq Let_def extends_def nth_append less_Suc_eq)
qed

lemma build_step_extends:
  assumes ok: "graph_ok g" and s: "build_step g g'"
  shows "extends g g' \<or> (\<exists>r. materialize_copies g = (r, g'))"
  using s
proof cases
  case (build_tensor t e)
  then show ?thesis by (auto simp: add_tensor_def bind_r_eq_Inr push_tensor_edge_def intro!: extends_edges)
next
  case (build_input t k e)
  then show ?thesis
    by (auto simp: add_external_input_def bind_r_eq_Inr push_tensor_edge_def Let_def split: if_splits intro!: extends_edges)
next
  case (build_non_tensor k)
  then show ?thesis by (cases k) (auto simp: add_external_non_tensor_def Let_def split: if_splits intro!: extends_edges)
next
  case (build_positions pk e)
  then show ?thesis
    by (auto simp: bind_positions_def bind_r_eq_Inr push_tensor_edge_def Let_def split: if_splits option.splits intro!: extends_edges)
next
  case (build_op ts oper ins reqs v)
  then show ?thesis using extends_op by blast
next
  case (build_output ok e)
  then show ?thesis by (auto simp: add_external_output_def bind_r_eq_Inr split: if_splits option.splits intro!: extends_edges)
next
  case (build_non_tensor_output ok)
  then show ?thesis by (auto simp: add_external_non_tensor_output_def split: if_splits intro!: extends_edges)
next
  case (build_requirement v p req)
  then show ?thesis by (auto simp: set_node_input_requirement_def extends_def nth_list_update split: if_splits option.splits)
next
  case (build_transpose e perm v)
  then show ?thesis unfolding transpose_edge_eq(2) [OF ok] by (auto simp: push_view_def intro!: extends_edges)
next
  case (build_reshape e shape v)
  show ?thesis using reshape_edge_ok(4) [OF ok build_reshape] by (auto simp: push_view_def intro!: extends_edges)
qed blast

lemma extends_producers:
  assumes ok: "graph_ok g" and ok': "graph_ok g'" and x: "extends g g'" and e: "e < length (gr_edges g)"
  shows "producer_map g' e = producer_map g e"
proof -
  have n: "nodes_ok (length (gr_edges g)) (gr_nodes g)" "nodes_ok (length (gr_edges g')) (gr_nodes g')" using ok ok' by (auto simp: graph_ok_def)
  have "producer_map g' e = Some p \<longleftrightarrow> producer_map g e = Some p" for p
  proof (cases "p < length (gr_nodes g)")
    case True
    then show ?thesis unfolding producer_map_iff [OF n(1)] producer_map_iff [OF n(2)] using x by (auto simp: extends_def)
  next
    case False
    then show ?thesis unfolding producer_map_iff [OF n(1)] producer_map_iff [OF n(2)] using x e by (fastforce simp: extends_def)
  qed
  then show ?thesis by (metis not_Some_eq)
qed

lemma extends_resolve:
  assumes ok: "graph_ok g" and ok': "graph_ok g'" and x: "extends g g'"
  shows "e < length (gr_edges g) \<Longrightarrow> resolve_producer g' e (producer_map g') = resolve_producer g e (producer_map g)"
proof (induction e rule: less_induct)
  case (less e)
  have e': "e < length (gr_edges g')" "gr_edges g' ! e = gr_edges g ! e" using less.prems x by (auto simp: extends_def nth_append)
  show ?case
    unfolding resolve_producer_eq [OF ok less.prems] resolve_producer_eq [OF ok' e'(1)] e'(2) extends_producers [OF assms less.prems]
    using less.IH edge_okD(4) [OF ok less.prems] less.prems by (auto split: option.splits)
qed

lemma extends_uses:
  assumes ok: "graph_ok g" and ok': "graph_ok g'" and x: "extends g g'" and u: "(p, c) \<in> set (uses g')"
  shows "(p, c) \<in> set (uses g) \<or> p < length (gr_nodes g) \<and> length (gr_nodes g) \<le> c"
proof -
  obtain e where c: "c < length (gr_nodes g')" and e: "e \<in> set (gn_inputs (gr_nodes g' ! c))" "resolve_producer g' e (producer_map g') = Some p"
    using u uses_iff [OF ok'] by auto
  have lt: "e < length (gr_edges g)"
  proof (cases "c < length (gr_nodes g)")
    case True
    then have "e \<in> set (gn_inputs (gr_nodes g ! c))" using x e(1) by (simp add: extends_def)
    then show ?thesis using input_in_range [OF ok True] by (auto simp: in_set_conv_nth)
  qed (use x c e(1) in \<open>auto simp: extends_def\<close>)
  then have r: "resolve_producer g e (producer_map g) = Some p" using e(2) extends_resolve [OF ok ok' x] by simp
  then have "p < length (gr_nodes g)" using resolve_from_producer producer_map_iff ok by (metis graph_ok_def resolve_producer_def)
  moreover have "(p, c) \<in> set (uses g)" if "c < length (gr_nodes g)"
    using uses_iff [OF ok] that r e(1) x by (auto simp: extends_def)
  ultimately show ?thesis by fastforce
qed

lemma acyclic_sinks:
  assumes "acyclic (R::(nat \<times> nat) set)" and "finite R" and "\<forall>(p, c) \<in> R. p < n \<and> c < n" and "finite S" and "\<forall>(p, c) \<in> S. p < n \<and> n \<le> c"
  shows "acyclic (R \<union> S)"
proof -
  have "S\<^sup>+ \<subseteq> {p. p < n} \<times> {c. n \<le> c}"
  proof
    fix q assume "q \<in> S\<^sup>+"
    then obtain a b where q: "q = (a, b)" "(a, b) \<in> S\<^sup>+" by (cases q) auto
    from q(2) have "a < n \<and> n \<le> b" using assms(5) by induction auto
    then show "q \<in> {p. p < n} \<times> {c. n \<le> c}" using q by simp
  qed
  then have "acyclic S" by (auto simp: acyclic_def)
  then have "wf S" using assms(4) finite_acyclic_wf by blast
  moreover have "wf R" using assms(1,2) finite_acyclic_wf by blast
  moreover have "S O R \<subseteq> S" using assms(3,5) by fastforce
  ultimately have "wf (S \<union> R)" by (metis wf_union_compatible)
  then show ?thesis by (metis wf_acyclic sup_commute)
qed

section \<open>Built graphs\<close>

lemma extends_acyclic:
  assumes ok: "graph_ok g" and ok': "graph_ok g'" and x: "extends g g'" and a: "acyclic (set (uses g))"
  shows "acyclic (set (uses g'))"
proof -
  let ?S = "{u \<in> set (uses g'). fst u < length (gr_nodes g) \<and> length (gr_nodes g) \<le> snd u}"
  have "acyclic (set (uses g) \<union> ?S)"
    by (rule acyclic_sinks [OF a]) (use uses_in_range [OF ok] in \<open>auto simp: in_range_def\<close>)
  moreover have "set (uses g') \<subseteq> set (uses g) \<union> ?S" using extends_uses [OF ok ok' x] by fastforce
  ultimately show ?thesis by (rule acyclic_subset)
qed

lemma extends_current:
  assumes x: "extends g g'" and c: "copies_current g"
  shows "copies_current g'"
proof -
  obtain es where es: "gr_edges g' = gr_edges g @ es" using x by (auto simp: extends_def)
  have "copy_current g' k" if "copy_current g k" for k
    using that x es by (auto simp: copy_current_def extends_def copy_tensor_def nth_append split: prod.splits)
  then show ?thesis using x c by (auto simp: copies_current_def extends_def)
qed

lemma built_ok: "built g \<Longrightarrow> graph_ok g \<and> copies_current g \<and> acyclic (set (uses g))"
proof (induction rule: built.induct)
  case (built_new key)
  show ?case using graph_new_ok [of key] by (simp add: copies_current_def graph_new_def uses_def acyclic_def)
next
  case (built_step g g')
  then have ok: "graph_ok g" "graph_ok g'" using build_step_ok by auto
  show ?case
  proof (cases "extends g g'")
    case True
    then show ?thesis using ok built_step.IH extends_acyclic extends_current by blast
  next
    case False
    then obtain srcs m cs where "g' = with_copies g srcs m cs" "copied g srcs m cs"
      using build_step_extends [OF ok(1) built_step.hyps(2)] materialize_eq [OF ok(1)] by auto
    then show ?thesis using ok built_step.IH copies_current_with_copies with_copies_acyclic by blast
  qed
qed

end
