(* ===== verification/Ir_Props.thy ===== *)
theory Ir_Props
  imports Ir_Reach
begin

text \<open>
  Properties of step graphs: reachable graphs are well-formed, the execution order is exact, built graphs execute, materialised copies
  meet every stride requirement once and for all, and validation says exactly what it checks; with the concrete graphs
  that witness them and the two findings on cycle reports and reshapes.
\<close>

section \<open>Concrete graphs\<close>

definition demo_key :: step_graph_key where
  "demo_key = StepGraphKey 0 0 1 1 0 0"

definition demo_weight :: tensor where
  "demo_weight = \<lparr>tn_shape = [Concrete 4, Concrete 8], tn_dtype = F16, tn_quant = QuantNone, tn_layout = CONTIGUOUS,
     tn_placement = Device 0, tn_sharding = ColShard 1, tn_class = Weight\<rparr>"

definition demo_act :: tensor where
  "demo_act = \<lparr>tn_shape = [Concrete 8, Concrete 4], tn_dtype = F16, tn_quant = QuantNone, tn_layout = CONTIGUOUS,
     tn_placement = Device 0, tn_sharding = Replicated, tn_class = Activation\<rparr>"

definition ok_graph :: "(nat \<times> unit graph) ir_result \<Rightarrow> unit graph" where
  "ok_graph r = (case r of Inr (_, g) \<Rightarrow> g | Inl _ \<Rightarrow> graph_new demo_key)"

definition fate_graph :: "(nat \<times> unit graph) ir_fate \<Rightarrow> unit graph" where
  "fate_graph r = (case r of IrOk (_, g) \<Rightarrow> g | _ \<Rightarrow> graph_new demo_key)"

text \<open>A weight, its transposed view, and an operator that needs the view contiguous.\<close>

definition demo1 :: "unit graph" where
  "demo1 = ok_graph (add_tensor (graph_new demo_key) demo_weight)"

definition demo2 :: "unit graph" where
  "demo2 = fate_graph (transpose_edge demo1 0 [1, 0])"

definition demo3 :: "unit graph" where
  "demo3 = ok_graph (add_op_with_requirements demo2 (OpCast ()) [1] [Contiguous] [demo_act])"

text \<open>Casts of one weight: the \<open>i\<close>-th reads the edge \<open>ins ! i\<close> and writes edge \<open>i + 1\<close>. In \<open>looped\<close> the last two feed each other and the first
  only reads the result.\<close>

definition casts :: "nat list \<Rightarrow> unit graph" where
  "casts ins = (graph_new demo_key)\<lparr>
     gr_edges := fresh_edge [] demo_weight # map (\<lambda>i. \<lparr>ge_id = Suc i, ge_tensor = demo_act,
       ge_strides = compute_contiguous_strides (tn_shape demo_act), ge_source = None\<rparr>) [0..<length ins],
     gr_nodes := map (\<lambda>i. \<lparr>gn_id = i, gn_op = OpCast (), gn_inputs = [ins ! i], gn_input_requirements = [AnyStride], gn_outputs = [Suc i]\<rparr>)
       [0..<length ins]\<rparr>"

definition looped :: "unit graph" where
  "looped = casts [3, 3, 2]"

lemma demo_tensors: "tensor_ok demo_weight" "tensor_ok demo_act"
  by (simp_all add: demo_weight_def demo_act_def tensor_ok_def shape_ok_def kind_ok_def CONTIGUOUS_def L1_def L1S_def)

lemma demo_steps:
  "add_tensor (graph_new demo_key) demo_weight = Inr (0, demo1)"
  "transpose_edge demo1 0 [1, 0] = IrOk (1, demo2)"
  "add_op_with_requirements demo2 (OpCast ()) [1] [Contiguous] [demo_act] = Inr (0, demo3)"
  by code_simp+

lemma demo_built: "built demo1" "built demo2" "built demo3"
proof -
  show 1: "built demo1" by (rule built_step [OF built_new build_tensor [OF demo_tensors(1) demo_steps(1)]])
  show 2: "built demo2" by (rule built_step [OF 1 build_transpose [OF demo_steps(2)]])
  show "built demo3" by (rule built_step [OF 2 build_op [OF _ demo_steps(3)]]) (simp add: demo_tensors)
qed

lemma casts_add:
  "e \<le> length ins \<Longrightarrow> add_op_with_requirements (casts ins) (OpCast ()) [e] [AnyStride] [demo_act] = Inr (length ins, casts (ins @ [e]))"
  by (auto simp: add_op_with_requirements_eq casts_def graph_new_def fresh_edge_def nth_append Let_def)

lemma casts_rewire: "v < length ins \<Longrightarrow> e \<le> length ins \<Longrightarrow> rewire_node_input (casts ins) v 0 e = Inr (casts (ins[v := e]))"
proof -
  assume v: "v < length ins" and e: "e \<le> length ins"
  let ?node = "\<lambda>ins i. \<lparr>gn_id = i, gn_op = OpCast (), gn_inputs = [ins ! i], gn_input_requirements = [AnyStride], gn_outputs = [Suc i]\<rparr>"
  have "(map (?node ins) [0..<length ins])[v := (?node ins v)\<lparr>gn_inputs := [e]\<rparr>] = map (?node (ins[v := e])) [0..<length ins]"
    by (rule nth_equalityI) (use v in \<open>auto simp: nth_list_update\<close>)
  then show ?thesis using v e by (simp add: rewire_node_input_def casts_def graph_new_def get_def Let_def)
qed

lemma looped_reach: "graph_reach looped"
proof -
  have t: "\<forall>t \<in> set [demo_act]. tensor_ok t" by (simp add: demo_tensors)
  have add: "graph_reach (casts (ins @ [e]))" if "graph_reach (casts ins)" "e \<le> length ins" for ins e
    by (rule reach_build [OF that(1) build_op [OF t casts_add [OF that(2)]]])
  have rewire: "graph_reach (casts (ins[v := e]))" if "graph_reach (casts ins)" "v < length ins" "e \<le> length ins" for ins v e
    by (rule reach_edit [OF that(1) edit_input [OF casts_rewire [OF that(2,3)]]])
  have "casts [] = demo1" by code_simp
  then have "graph_reach (casts [])" using built_reach [OF demo_built(1)] by simp
  from add [OF this, of 0] have "graph_reach (casts [0])" by simp
  from add [OF this, of 1] have "graph_reach (casts [0, 1])" by simp
  from add [OF this, of 2] have "graph_reach (casts [0, 1, 2])" by simp
  from rewire [OF this, of 1 3] have "graph_reach (casts [0, 3, 2])" by simp
  from rewire [OF this, of 0 3] show ?thesis by (simp add: looped_def)
qed

section \<open>Well-formed graphs\<close>

text \<open>
  C16. Every graph reachable through the public operations is well-formed: identifiers are indices, every tensor satisfies the rules
  of its class, views point to earlier edges, inputs and outputs of operators exist, no edge has two producers, and every external
  input or output kind is bound at most once.
\<close>

theorem reachable_graph_well_formed:
  assumes "graph_reach g"
  shows "graph_ok g"
  using assms by (rule reach_ok)

theorem reachable_graph_well_formed_witness:
  "graph_ok looped \<and> length (gr_nodes looped) = 3 \<and> length (gr_edges looped) = 4"
proof (intro conjI)
  show "graph_ok looped" by (rule reachable_graph_well_formed [OF looped_reach])
qed code_simp+

section \<open>Execution order\<close>

text \<open>
  What a node waits for, told from the edges alone: an edge is written by the node that lists it among its outputs, a view no node
  writes holds what its source holds, and a node depends on whatever writes one of its inputs.
\<close>

inductive written_by :: "'a graph \<Rightarrow> nat \<Rightarrow> nat \<Rightarrow> bool" for g where
  written: "p < length (gr_nodes g) \<Longrightarrow> e \<in> set (gn_outputs (gr_nodes g ! p)) \<Longrightarrow> written_by g e p"
| viewed: "\<forall>node \<in> set (gr_nodes g). e \<notin> set (gn_outputs node) \<Longrightarrow> ge_source (gr_edges g ! e) = Some s \<Longrightarrow>
    written_by g s p \<Longrightarrow> written_by g e p"

definition depends :: "'a graph \<Rightarrow> (nat \<times> nat) set" where
  "depends g = {(p, c). c < length (gr_nodes g) \<and> (\<exists>e \<in> set (gn_inputs (gr_nodes g ! c)). written_by g e p)}"

lemma resolve_written:
  assumes "graph_ok g" and "e < length (gr_edges g)"
  shows "resolve_producer g e (producer_map g) = Some p \<longleftrightarrow> written_by g e p"
  using assms(2)
proof (induction e rule: less_induct)
  case (less e)
  have n: "nodes_ok (length (gr_edges g)) (gr_nodes g)" using assms(1) by (simp add: graph_ok_def)
  show ?case
  proof (cases "producer_map g e")
    case (Some q)
    then have q: "q < length (gr_nodes g)" "e \<in> set (gn_outputs (gr_nodes g ! q))" using producer_map_iff [OF n] by auto
    have "written_by g e p \<longleftrightarrow> p = q"
    proof
      assume "written_by g e p"
      then show "p = q"
      proof cases
        case written
        then have "producer_map g e = Some p" using producer_map_iff [OF n] by blast
        then show ?thesis using Some by simp
      next
        case (viewed s)
        then show ?thesis using q nth_mem by blast
      qed
    qed (use q in \<open>auto intro: written_by.written\<close>)
    then show ?thesis using resolve_producer_eq [OF assms(1) less.prems] Some by auto
  next
    case None
    then have none: "p < length (gr_nodes g) \<Longrightarrow> e \<notin> set (gn_outputs (gr_nodes g ! p))" for p using producer_map_iff [OF n, of e p] by auto
    then have free: "\<forall>node \<in> set (gr_nodes g). e \<notin> set (gn_outputs node)" by (metis in_set_conv_nth)
    have "written_by g e p \<longleftrightarrow> (\<exists>s. ge_source (gr_edges g ! e) = Some s \<and> written_by g s p)"
      using none free by (subst written_by.simps) blast
    moreover have "resolve_producer g s (producer_map g) = Some p \<longleftrightarrow> written_by g s p" if "ge_source (gr_edges g ! e) = Some s" for s
    proof -
      have "s < e" by (rule edge_okD(4) [OF assms(1) less.prems that])
      then show ?thesis using less by simp
    qed
    ultimately show ?thesis using resolve_producer_eq [OF assms(1) less.prems] None by (auto split: option.split)
  qed
qed

lemma uses_depends:
  assumes "graph_ok g"
  shows "set (uses g) = depends g"
proof -
  have "e < length (gr_edges g)" if "c < length (gr_nodes g)" "e \<in> set (gn_inputs (gr_nodes g ! c))" for c e
    using assms that by (fastforce simp: graph_ok_def nodes_ok_def node_ok_def)
  then have "(p, c) \<in> set (uses g) \<longleftrightarrow> (p, c) \<in> depends g" for p c
    unfolding uses_iff [OF assms] depends_def using resolve_written [OF assms] by blast
  then show ?thesis by auto
qed

lemma looped_cyclic: "\<not> acyclic (depends looped)"
proof -
  have "set (uses looped) = {(2, 0), (2, 1), (1, 2)}" by code_simp
  then have d: "depends looped = {(2, 0), (2, 1), (1, 2)}" by (simp add: uses_depends [OF reach_ok [OF looped_reach]])
  have "(2, 2) \<in> (depends looped)\<^sup>+" unfolding d by (rule trancl_into_trancl [OF r_into_trancl, of 2 1]) simp_all
  then show ?thesis by (auto simp: acyclic_def)
qed

text \<open>
  C12. On a reachable graph \<open>topological_order\<close> never panics. If the dependencies have no cycle it returns every node exactly once, each
  after every node that writes one of its inputs, whether directly or through any number of views; otherwise it reports a node that
  waits for an input. Dependencies are told from the outputs of nodes and the sources of views, not from the lookup of the code.
\<close>

theorem topological_order_exact:
  assumes "graph_reach g"
  shows "if acyclic (depends g)
    then \<exists>order. topological_order g = IrOk order \<and> distinct order \<and> set order = {..<length (gr_nodes g)} \<and>
      (\<forall>i < length order. \<forall>p. (p, order ! i) \<in> depends g \<longrightarrow> p \<in> set (take i order))
    else \<exists>v. topological_order g = IrErr (GraphCycle v) \<and> v < length (gr_nodes g) \<and> (\<exists>p. (p, v) \<in> depends g)"
proof -
  have ok: "graph_ok g" by (rule reach_ok [OF assms])
  show ?thesis using topological_order_cases [OF uses_in_range [OF ok] no_missing_inputs [OF ok]] unfolding uses_depends [OF ok] .
qed

theorem topological_order_exact_witness:
  "\<exists>v. topological_order looped = IrErr (GraphCycle v) \<and> v < 3 \<and> (\<exists>p. (p, v) \<in> depends looped)"
proof -
  have "length (gr_nodes looped) = 3" by code_simp
  then show ?thesis using topological_order_exact [OF looped_reach] looped_cyclic by simp
qed

text \<open>
  C13. A graph built without overwriting strides or rewiring inputs always executes: there is an order of all its nodes in which every producer
  comes before its consumers, whatever views and copies were added.
\<close>

theorem built_graph_executes:
  assumes "built g"
  shows "\<exists>order. topological_order g = IrOk order \<and> distinct order \<and> set order = {..<length (gr_nodes g)} \<and>
    (\<forall>i < length order. \<forall>p. (p, order ! i) \<in> depends g \<longrightarrow> p \<in> set (take i order))"
proof -
  have ok: "graph_ok g" "acyclic (set (uses g))" using built_ok [OF assms] by auto
  then show ?thesis using topological_order_cases [OF uses_in_range no_missing_inputs, of g] unfolding uses_depends [OF ok(1)] by simp
qed

theorem built_graph_executes_witness: "\<exists>order. topological_order (snd (materialize_copies demo3)) = IrOk order \<and> set order = {..<2}"
proof -
  have "built (snd (materialize_copies demo3))" by (rule built_step [OF demo_built(3) build_copies [OF prod.collapse [symmetric]]])
  moreover have "length (gr_nodes (snd (materialize_copies demo3))) = 2" by code_simp
  ultimately show ?thesis using built_graph_executes by metis
qed

section \<open>Inserted copies\<close>

text \<open>
  C11. On a reachable graph whose recorded copies are current, \<open>materialize_copies\<close> succeeds and adds as many nodes and edges as it
  reports. Old edges and the operators, outputs and requirements of old nodes stay; every input of an operator other than a copy then
  meets its stride requirement and reads the same tensor as before up to the contiguous layout; every new node is a copy that
  passes the validation of copies.
\<close>

theorem materialize_meets_requirements:
  assumes "graph_reach g" and "copies_current g"
  shows "\<exists>k g'. materialize_copies g = (IrOk k, g') \<and> length (gr_nodes g') = length (gr_nodes g) + k \<and>
    length (gr_edges g') = length (gr_edges g) + k \<and> take (length (gr_edges g)) (gr_edges g') = gr_edges g \<and>
    (\<forall>i < length (gr_nodes g). let node = gr_nodes g ! i; node' = gr_nodes g' ! i in
       gn_op node' = gn_op node \<and> gn_outputs node' = gn_outputs node \<and> gn_input_requirements node' = gn_input_requirements node \<and>
       (\<not> is_copy (gn_op node) \<longrightarrow> (\<forall>p < length (gn_inputs node).
          let t = ge_tensor (gr_edges g ! (gn_inputs node ! p)); e' = gr_edges g' ! (gn_inputs node' ! p) in
            is_satisfied (gn_input_requirements node' ! p) (ge_strides e') (tn_shape (ge_tensor e')) \<and>
            ge_tensor e' \<in> {t, t\<lparr>tn_layout := CONTIGUOUS\<rparr>}))) \<and>
    (\<forall>j < k. let node = gr_nodes g' ! (length (gr_nodes g) + j); tensors = map (\<lambda>e. ge_tensor (gr_edges g' ! e)) in
       gn_op node = OpCopy Contiguize \<and> copy_validate Contiguize (tensors (gn_inputs node)) (tensors (gn_outputs node)) = Inr ())"
proof -
  have ok: "graph_ok g" using assms(1) by (rule reach_ok)
  obtain srcs m cs where mat: "materialize_copies g = (IrOk (length srcs), with_copies g srcs m cs)" and c: "copied g srcs m cs"
    using materialize_eq [OF ok] by blast
  let ?g = "with_copies g srcs m cs"
  have old: "take (length (gr_edges g)) (gr_edges ?g) = gr_edges g" by (simp add: with_copies_def)
  have sat: "is_satisfied (gn_input_requirements (gr_nodes ?g ! i) ! p) (ge_strides e') (tn_shape (ge_tensor e')) \<and> ge_tensor e' \<in> {t, t\<lparr>tn_layout := CONTIGUOUS\<rparr>}"
    if "i < length (gr_nodes g)" "\<not> is_copy (gn_op (gr_nodes g ! i))" "p < length (gn_inputs (gr_nodes g ! i))"
      "e' = gr_edges ?g ! (gn_inputs (gr_nodes ?g ! i) ! p)" "t = ge_tensor (gr_edges g ! (gn_inputs (gr_nodes g ! i) ! p))" for i p e' t
    using with_copies_satisfied [OF ok assms(2) c that(1-3)] that input_in_range [OF ok that(1,3)]
    by (cases "gn_input_requirements (gr_nodes g ! i) ! p")
       (auto simp: is_satisfied_def is_contiguous_def with_copies_old copy_tensor_def split: if_splits)
  have new: "gn_op (gr_nodes ?g ! (length (gr_nodes g) + j)) = OpCopy Contiguize \<and>
      copy_validate Contiguize (map (\<lambda>e. ge_tensor (gr_edges ?g ! e)) (gn_inputs (gr_nodes ?g ! (length (gr_nodes g) + j))))
        (map (\<lambda>e. ge_tensor (gr_edges ?g ! e)) (gn_outputs (gr_nodes ?g ! (length (gr_nodes g) + j)))) = Inr ()" if "j < length srcs" for j
    using copiedD(1) [OF c that] that copy_validates by (simp add: with_copies_new with_copies_old copy_tensor_def) (simp add: copy_node_def)
  show ?thesis unfolding Let_def
    by (intro exI [of _ "length srcs"] exI [of _ ?g] conjI allI impI mat old)
       (use sat new in \<open>simp_all add: with_copies_old\<close>)
qed

theorem materialize_meets_requirements_witness:
  "\<exists>k g'. materialize_copies demo3 = (IrOk k, g') \<and> length (gr_nodes g') = length (gr_nodes demo3) + k \<and> take 3 (gr_edges g') = gr_edges demo3"
proof -
  have "length (gr_edges demo3) = 3" by code_simp
  then show ?thesis using materialize_meets_requirements [OF built_reach [OF demo_built(3)]] built_ok [OF demo_built(3)] by metis
qed

text \<open>
  C14. Materialising is final: after one run on a reachable graph with current copies, a second run inserts nothing and changes
  nothing, the recorded copies are current again, and a graph that had an execution order still has one.
\<close>

theorem materialize_settles:
  assumes "graph_reach g" and "copies_current g"
  defines "g' \<equiv> snd (materialize_copies g)"
  shows "materialize_copies g' = (IrOk 0, g') \<and> copies_current g' \<and>
    ((\<exists>order. topological_order g = IrOk order) \<longrightarrow> (\<exists>order. topological_order g' = IrOk order))"
proof -
  have ok: "graph_ok g" using assms(1) by (rule reach_ok)
  obtain srcs m cs where g': "g' = with_copies g srcs m cs" and c: "copied g srcs m cs" using materialize_eq [OF ok] by (auto simp: g'_def)
  have ok': "graph_ok g'" unfolding g' by (rule with_copies_ok [OF ok c])
  have "materialize_copies g' = (IrOk 0, g')" using materialize_none [OF ok'] with_copies_no_sites [OF ok assms(2) c] by (simp add: g')
  moreover have "copies_current g'" unfolding g' by (rule copies_current_with_copies [OF ok assms(2) c])
  moreover have "\<exists>order. topological_order g' = IrOk order" if "topological_order g = IrOk order" for order
  proof -
    have "acyclic (set (uses g))" using topological_order_cases [OF uses_in_range [OF ok] no_missing_inputs [OF ok]] that by (auto split: if_splits)
    then have "acyclic (set (uses g'))" unfolding g' by (rule with_copies_acyclic [OF ok assms(2) c])
    then show ?thesis using topological_order_cases [OF uses_in_range [OF ok'] no_missing_inputs [OF ok']] by auto
  qed
  ultimately show ?thesis by blast
qed

theorem materialize_settles_witness:
  "materialize_copies (snd (materialize_copies demo3)) = (IrOk 0, snd (materialize_copies demo3)) \<and> fst (materialize_copies demo3) = IrOk 1"
proof (intro conjI)
  show "materialize_copies (snd (materialize_copies demo3)) = (IrOk 0, snd (materialize_copies demo3))"
    using materialize_settles [OF built_reach [OF demo_built(3)]] built_ok [OF demo_built(3)] by blast
qed code_simp

section \<open>Views\<close>

lemma remap_axis_nth:
  assumes "distinct perm" and "i < length perm"
  shows "remap_axis perm (perm ! i) = i"
proof -
  have "List.find (\<lambda>j. perm ! j = perm ! i) [0..<length perm] = Some i"
    using assms by (auto simp: find_Some_iff nth_eq_iff_index_eq intro!: exI [of _ i])
  then show ?thesis by (simp add: remap_axis_def)
qed

lemma remap_axis_outside: "a \<notin> set perm \<Longrightarrow> remap_axis perm a = a"
  by (auto simp: remap_axis_def find_Some_iff split: option.splits)

lemma inverse_perm:
  assumes p: "distinct perm" "set perm = {..<length perm}" and l: "length unperm = length perm" and i: "\<forall>i < length perm. unperm ! (perm ! i) = i"
  shows "distinct unperm" "set unperm = {..<length perm}" "\<And>j. j < length perm \<Longrightarrow> perm ! (unperm ! j) = j" "\<And>a. remap_axis unperm (remap_axis perm a) = a"
proof -
  have lt: "perm ! j < length perm" if "j < length perm" for j using p(2) that by (metis lessThan_iff nth_mem)
  have "{..<length perm} \<subseteq> set unperm" using i lt l by (metis lessThan_iff nth_mem subsetI)
  moreover have "card (set unperm) \<le> length perm" using l card_length by metis
  ultimately show s: "set unperm = {..<length perm}" by (metis List.finite_set card_lessThan card_seteq)
  then show d: "distinct unperm" using l by (metis card_distinct card_lessThan)
  have ex: "\<exists>k < length perm. perm ! k = j" if "j < length perm" for j using p(2) that by (metis in_set_conv_nth lessThan_iff)
  then show "j < length perm \<Longrightarrow> perm ! (unperm ! j) = j" for j using i by metis
  show "remap_axis unperm (remap_axis perm a) = a" for a
  proof (cases "a < length perm")
    case True
    then obtain k where k: "k < length perm" "perm ! k = a" using ex by blast
    then have "remap_axis perm a = unperm ! a" using remap_axis_nth [OF p(1)] i by auto
    then show ?thesis using remap_axis_nth [OF d] True l by simp
  next
    case False
    then show ?thesis using remap_axis_outside [of a perm] remap_axis_outside [of a unperm] p(2) s by auto
  qed
qed

lemma map_nth_inverse:
  assumes "length unperm = length perm" and "length xs = length perm" and "\<And>j. j < length perm \<Longrightarrow> perm ! (unperm ! j) = j" and "set unperm = {..<length perm}"
  shows "map ((!) (map ((!) xs) perm)) unperm = xs"
proof (rule nth_equalityI)
  fix j assume "j < length (map ((!) (map ((!) xs) perm)) unperm)"
  then have j: "j < length perm" using assms(1) by simp
  then have "unperm ! j < length perm" using assms(1,4) by (metis lessThan_iff nth_mem)
  then show "map ((!) (map ((!) xs) perm)) unperm ! j = xs ! j" using j assms(1,3) by simp
qed (use assms in simp)

lemma remap_sharding_inverse: "(\<And>a. remap_axis unperm (remap_axis perm a) = a) \<Longrightarrow> remap_sharding unperm (remap_sharding perm sh) = sh"
  by (cases sh) (simp_all add: remap_sharding_def)

lemma view_resolve:
  assumes ok: "graph_ok g" and e: "e < length (gr_edges g)" and v: "push_view g e t ss = (v, g')" and ok': "graph_ok g'"
  shows "resolve_producer g' v (producer_map g') = resolve_producer g e (producer_map g)"
proof -
  have x: "extends g g'" and v': "v = length (gr_edges g)" "v < length (gr_edges g')" "ge_source (gr_edges g' ! v) = Some e" "gr_nodes g' = gr_nodes g"
    using v by (auto simp: push_view_def intro!: extends_edges)
  have "producer_map g' v = None"
  proof (rule ccontr)
    assume "producer_map g' v \<noteq> None"
    then obtain p where "p < length (gr_nodes g)" "v \<in> set (gn_outputs (gr_nodes g ! p))"
      using producer_map_iff [of "length (gr_edges g')" g'] ok' v'(4) by (auto simp: graph_ok_def)
    then show False using ok v'(1) by (auto simp: graph_ok_def nodes_ok_def node_ok_def)
  qed
  then show ?thesis using resolve_producer_eq [OF ok' v'(2)] v'(3) extends_resolve [OF ok ok' x e] by simp
qed

text \<open>
  C17. \<open>transpose_edge\<close> accepts exactly permutations of the axes of an existing edge; transposing the view by the inverse permutation gives a view with the
  shape, sharding, strides and producer of the original edge.
\<close>

theorem transpose_round_trip:
  assumes r: "graph_reach g"
  shows "((\<exists>v. transpose_edge g e perm = IrOk v) \<longleftrightarrow>
      e < length (gr_edges g) \<and> distinct perm \<and> set perm = {..<tn_rank (ge_tensor (gr_edges g ! e))}) \<and>
    (transpose_edge g e perm = IrOk (v, g1) \<and> length unperm = length perm \<and> (\<forall>i < length perm. unperm ! (perm ! i) = i) \<longrightarrow>
      (\<exists>g2. transpose_edge g1 v unperm = IrOk (v + 1, g2) \<and>
        ge_tensor (gr_edges g2 ! (v + 1)) = ge_tensor (gr_edges g ! e) \<and> ge_strides (gr_edges g2 ! (v + 1)) = ge_strides (gr_edges g ! e) \<and>
        resolve_producer g2 (v + 1) (producer_map g2) = resolve_producer g e (producer_map g)))"
proof (intro conjI impI)
  have ok: "graph_ok g" using r by (rule reach_ok)
  show "(\<exists>v. transpose_edge g e perm = IrOk v) \<longleftrightarrow>
      e < length (gr_edges g) \<and> distinct perm \<and> set perm = {..<tn_rank (ge_tensor (gr_edges g ! e))}"
    using transpose_edge_eq(2) [OF ok, of e perm] by blast
  assume "transpose_edge g e perm = IrOk (v, g1) \<and> length unperm = length perm \<and> (\<forall>i < length perm. unperm ! (perm ! i) = i)"
  then have t: "transpose_edge g e perm = IrOk (v, g1)" and l: "length unperm = length perm" and i: "\<forall>i < length perm. unperm ! (perm ! i) = i" by auto
  let ?e = "gr_edges g ! e" and ?t = "ge_tensor (gr_edges g ! e)"
  have e: "e < length (gr_edges g)" and p: "distinct perm" "set perm = {..<tn_rank ?t}"
    and g1: "push_view g e (view g e perm) (map ((!) (ge_strides ?e)) perm) = (v, g1)"
    using t unfolding transpose_edge_eq(2) [OF ok] by auto
  have len: "length perm = tn_rank ?t" using distinct_card [OF p(1)] p(2) by simp
  note inverse = inverse_perm [OF p(1) _ l i, unfolded len, OF p(2)]
  have ok1: "graph_ok g1" by (rule transpose_edge_ok [OF ok t])
  have v: "v = length (gr_edges g)" "v < length (gr_edges g1)" "ge_tensor (gr_edges g1 ! v) = view g e perm"
    "ge_strides (gr_edges g1 ! v) = map ((!) (ge_strides ?e)) perm" "length (gr_edges g1) = v + 1"
    using g1 by (auto simp: push_view_def)
  define ss where "ss = map ((!) (map ((!) (ge_strides ?e)) perm)) unperm"
  have shape: "map ((!) (map ((!) (tn_shape ?t)) perm)) unperm = tn_shape ?t"
    by (rule map_nth_inverse) (use inverse l len in auto)
  have view: "view g1 v unperm = ?t"
    by (simp add: view_def v(3) Let_def shape remap_sharding_inverse [OF inverse(4)])
  have ss: "ss = ge_strides ?e" unfolding ss_def
    by (rule map_nth_inverse) (use edge_okD(3) [OF ok e] inverse l len in auto)
  obtain g2 where g2: "push_view g1 v (view g1 v unperm) ss = (v + 1, g2)" by (simp add: push_view_def v(5))
  have "tn_rank (view g e perm) = tn_rank ?t" using len by (simp add: view_def Let_def)
  then have t2: "transpose_edge g1 v unperm = IrOk (v + 1, g2)"
    unfolding transpose_edge_eq(2) [OF ok1] using v(2) g2 inverse(1,2) by (simp add: v(3,4) ss_def)
  have ok2: "graph_ok g2" by (rule transpose_edge_ok [OF ok1 t2])
  have "ge_tensor (gr_edges g2 ! (v + 1)) = ?t" "ge_strides (gr_edges g2 ! (v + 1)) = ge_strides ?e"
    using g2 v(5) by (auto simp: push_view_def view ss nth_append)
  then show "\<exists>g2. transpose_edge g1 v unperm = IrOk (v + 1, g2) \<and> ge_tensor (gr_edges g2 ! (v + 1)) = ?t \<and>
      ge_strides (gr_edges g2 ! (v + 1)) = ge_strides ?e \<and> resolve_producer g2 (v + 1) (producer_map g2) = resolve_producer g e (producer_map g)"
    using t2 view_resolve [OF ok1 v(2) g2 ok2] view_resolve [OF ok e g1 ok1] by auto
qed

theorem transpose_round_trip_witness:
  "\<exists>g2. transpose_edge demo2 1 [1, 0] = IrOk (2, g2) \<and> ge_tensor (gr_edges g2 ! 2) = demo_weight"
proof -
  have "ge_tensor (gr_edges demo1 ! 0) = demo_weight" by code_simp
  moreover have "\<forall>i < length [1, 0::nat]. [1, 0] ! ([1, 0] ! i) = i" by (simp add: less_Suc_eq)
  ultimately show ?thesis
    using transpose_round_trip [OF built_reach [OF demo_built(1)], of 0 "[1, 0]" 1 demo2 "[1, 0]"] demo_steps(2) by (auto simp: numeral_2_eq_2)
qed

section \<open>Validation\<close>

lemma op_is:
  "(case oper of OpAttention _ \<Rightarrow> True | _ \<Rightarrow> False) \<longleftrightarrow> (\<exists>a. oper = OpAttention a)"
  "(case oper of OpStateWriteKv _ \<Rightarrow> True | _ \<Rightarrow> False) \<longleftrightarrow> (\<exists>a. oper = OpStateWriteKv a)"
  "(case oper of OpLogitsPostprocess _ \<Rightarrow> True | _ \<Rightarrow> False) \<longleftrightarrow> (\<exists>a. oper = OpLogitsPostprocess a)"
  "(case oper of OpSample _ \<Rightarrow> True | _ \<Rightarrow> False) \<longleftrightarrow> (\<exists>a. oper = OpSample a)"
  "(case oper of OpVerify _ \<Rightarrow> True | _ \<Rightarrow> False) \<longleftrightarrow> (\<exists>a. oper = OpVerify a)"
  by (cases oper; simp)+

lemma structured_problems_Nil:
  "structured_problems g = [] \<longleftrightarrow>
     (\<forall>node \<in> set (gr_nodes g). \<forall>a.
       (gn_op node \<in> {OpAttention a, OpStateWriteKv a} \<longrightarrow> BatchMetaInput \<in> set (gr_external_inputs g)) \<and>
       (gn_op node = OpLogitsPostprocess a \<longrightarrow> SamplingParamsInput \<in> set (gr_external_inputs g)) \<and>
       (gn_op node \<in> {OpSample a, OpVerify a} \<longrightarrow> RngStateInput \<in> set (gr_external_inputs g) \<and> UpdatedRngStateOutput \<in> set (gr_external_outputs g)))"
proof -
  have if_Nil: "(if P then [x] else []) = [] \<longleftrightarrow> \<not> P" for P and x :: graph_error by simp
  show ?thesis unfolding structured_problems_def Let_def has_op_def list_ex_iff op_is append_is_Nil_conv if_Nil by blast
qed

lemma rope_problems_Nil:
  "rope_problems g node = [] \<longleftrightarrow>
     (\<forall>a. gn_op node = OpRope a \<longrightarrow> (\<exists>k e. gr_positions g = Some (k, e) \<and> get (gn_inputs node) 1 = Some e))"
  by (cases "gn_op node") (auto simp: rope_problems_def split: option.splits)

lemma node_problems_Nil:
  assumes "graph_ok g" and "node \<in> set (gr_nodes g)"
  shows "node_problems check g node = problems_of (op_validate check (gn_op node)
    (map (\<lambda>e. ge_tensor (gr_edges g ! e)) (gn_inputs node)) (map (\<lambda>e. ge_tensor (gr_edges g ! e)) (gn_outputs node)))"
proof -
  obtain i where "i < length (gr_nodes g)" "node = gr_nodes g ! i" using assms(2) by (auto simp: in_set_conv_nth)
  then have "node_ok (length (gr_edges g)) i node" using assms(1) by (auto simp: graph_ok_def nodes_ok_def)
  then have "filter (\<lambda>e. e \<ge> length (gr_edges g)) (gn_inputs node @ gn_outputs node) = []"
    by (auto simp: node_ok_def filter_empty_conv not_le)
  then show ?thesis by (simp add: node_problems_def Let_def del: filter_append)
qed

lemma output_edges_Nil:
  assumes "graph_ok g"
  shows "concat (map (\<lambda>out. case output_edge_id out of
      Some edge \<Rightarrow> if edge \<ge> length (gr_edges g) then [GraphEdgeNotFound edge] else [] | None \<Rightarrow> []) (gr_external_outputs g)) = []"
proof -
  have "\<And>k e. TensorOutput k e \<in> set (gr_external_outputs g) \<Longrightarrow> e < length (gr_edges g)"
    using assms by (auto simp: graph_ok_def bindings_ok_def)
  then show ?thesis by (fastforce simp: output_edge_id_def not_le split: external_output.splits)
qed

text \<open>
  C15. Validation of a reachable graph never panics and accepts exactly the graphs whose device tensors live on the rank of the key, whose
  dependencies have no cycle, whose operators find the structured inputs and outputs and the bound positions they use, and whose
  operators each accept the tensors on their edges.
\<close>

theorem validate_exact:
  assumes "graph_reach g"
  shows "graph_validate check g \<noteq> IrPanic \<and> (graph_validate check g = IrOk () \<longleftrightarrow>
    (\<forall>e \<in> set (gr_edges g). \<forall>r. tn_placement (ge_tensor e) = Device r \<longrightarrow> r = key_rank (gr_key g)) \<and>
    acyclic (depends g) \<and>
    (\<forall>node \<in> set (gr_nodes g). \<forall>a.
       (gn_op node \<in> {OpAttention a, OpStateWriteKv a} \<longrightarrow> BatchMetaInput \<in> set (gr_external_inputs g)) \<and>
       (gn_op node = OpLogitsPostprocess a \<longrightarrow> SamplingParamsInput \<in> set (gr_external_inputs g)) \<and>
       (gn_op node \<in> {OpSample a, OpVerify a} \<longrightarrow> RngStateInput \<in> set (gr_external_inputs g) \<and> UpdatedRngStateOutput \<in> set (gr_external_outputs g))) \<and>
    (\<forall>node \<in> set (gr_nodes g). \<forall>a. gn_op node = OpRope a \<longrightarrow> (\<exists>k e. gr_positions g = Some (k, e) \<and> get (gn_inputs node) 1 = Some e)) \<and>
    (\<forall>node \<in> set (gr_nodes g). problems_of (op_validate check (gn_op node)
       (map (\<lambda>e. ge_tensor (gr_edges g ! e)) (gn_inputs node)) (map (\<lambda>e. ge_tensor (gr_edges g ! e)) (gn_outputs node))) = []))"
proof -
  have ok: "graph_ok g" using assms by (rule reach_ok)
  have rank: "rank_problem k i t = [] \<longleftrightarrow> (\<forall>r. tn_placement t = Device r \<longrightarrow> r = key_rank k)" for k i t
    by (auto simp: rank_problem_def split: placement.splits)
  have sum: "(case ir_from_problems ps of Inl e \<Rightarrow> IrErr e | Inr _ \<Rightarrow> IrOk ()) = IrOk () \<longleftrightarrow> ps = []"
    "(case ir_from_problems ps of Inl e \<Rightarrow> IrErr e | Inr _ \<Rightarrow> IrOk ()) \<noteq> IrPanic" for ps
    by (simp_all add: ir_from_problems_def split: list.splits)
  have nodes: "(\<forall>node \<in> set (gr_nodes g). node_problems check g node = []) \<longleftrightarrow> (\<forall>node \<in> set (gr_nodes g). problems_of (op_validate check (gn_op node)
       (map (\<lambda>e. ge_tensor (gr_edges g ! e)) (gn_inputs node)) (map (\<lambda>e. ge_tensor (gr_edges g ! e)) (gn_outputs node))) = [])"
    using node_problems_Nil [OF ok, of _ check] by simp
  note cases = topological_order_cases [OF uses_in_range [OF ok] no_missing_inputs [OF ok], unfolded uses_depends [OF ok]]
  have p: "problems_of (Inl (GraphCycle v) :: unit ir_result) \<noteq> []" for v by (simp add: problems_of_def)
  show ?thesis
  proof (cases "acyclic (depends g)")
    case True
    then obtain order where "topological_order g = IrOk order" using cases by auto
    then show ?thesis using True
      by (simp only: graph_validate_def ir_fate.case sum append_is_Nil_conv structured_problems_Nil nodes output_edges_Nil [OF ok]
        concat_eq_Nil_conv set_map ball_simps rank rope_problems_Nil simp_thms)
  next
    case False
    then obtain v where "topological_order g = IrErr (GraphCycle v)" using cases by auto
    then show ?thesis using False by (simp only: graph_validate_def ir_fate.case sum append_is_Nil_conv p simp_thms)
  qed
qed

theorem validate_exact_witness: "graph_validate (\<lambda>_ _ _. Inr ()) looped \<noteq> IrOk ()"
proof -
  have "\<not> acyclic (depends looped)" by (rule looped_cyclic)
  then show ?thesis using validate_exact [OF looped_reach] by blast
qed

section \<open>Findings\<close>

text \<open>The node of a cycle report need not lie on a cycle: it may only wait for one.\<close>

lemma cycle_report_downstream: "topological_order looped = IrErr (GraphCycle 0) \<and> (0, 0) \<notin> (set (uses looped))\<^sup>+"
proof
  show "topological_order looped = IrErr (GraphCycle 0)" by code_simp
  have u: "set (uses looped) = {(2, 0), (2, 1), (1, 2)}" by code_simp
  show "(0, 0) \<notin> (set (uses looped))\<^sup>+"
  proof
    assume "(0, 0) \<in> (set (uses looped))\<^sup>+"
    then obtain z where "(0::nat, z) \<in> set (uses looped)" by (metis tranclD)
    then show False unfolding u by simp
  qed
qed

text \<open>A new shape of five dimensions overflows the element count before the rank is checked.\<close>

lemma reshape_overflow:
  "reshape_edge (ok_graph (add_tensor (graph_new demo_key) (demo_weight\<lparr>tn_sharding := Replicated\<rparr>))) 0 (replicate 5 (Concrete (2 ^ 32 - 1))) = IrPanic"
  by code_simp

end
