(* ===== verification/Fmt_Layout.thy ===== *)
theory Fmt_Layout
  imports Ir_Tensor
begin

text \<open>
  Weight layouts of \<open>crates/r9v-format/src/layout.rs\<close> and the region sizes of \<open>sparse.rs\<close>: layout and packing codes, padded
  matrix dimensions, the tile order of a 16 by 16 tile in 32 lanes of eight elements, row strides and scale blocks. Sizes of
  untrusted input are checked in the sources and checked here; the \<open>detail\<close> text of an overflow is left out. \<open>IndexPanic\<close> is
  the one value with no counterpart in the source: an index outside a vector.
\<close>

section \<open>Errors\<close>

datatype unknown_id = UnknownCode nat | UnknownName string

datatype format_error =
    InvalidDim string nat string
  | InvalidBlock string nat string
  | Overflow string
  | UnknownLayout unknown_id
  | InvalidBitWidth nat
  | LengthMismatch string nat nat
  | UnknownScheme unknown_id
  | ReservedScheme string string
  | SchemeMismatch string string string
  | InvalidScale string nat nat string
  | UnsupportedLayout string string
  | ValueOutOfRange string nat nat
  | PaddingNonzero nat nat nat
  | Multiple "format_error list"
  | IndexPanic

type_synonym 'a fmt_result = "(format_error, 'a) result"

definition collect :: "format_error list \<Rightarrow> unit fmt_result" where
  "collect ps = (case ps of [] \<Rightarrow> Inr () | [p] \<Rightarrow> Inl p | _ \<Rightarrow> Inl (Multiple ps))"

lemma collect_ok [simp]: "collect ps = Inr u \<longleftrightarrow> ps = []"
  by (simp add: collect_def split: list.splits)

lemma collect_Nil [simp]: "collect [] = Inr ()"
  by simp

section \<open>Layouts and packings\<close>

definition TILE_N :: nat where "TILE_N = 16"
definition TILE_K :: nat where "TILE_K = 16"
definition LANES_PER_TILE :: nat where "LANES_PER_TILE = 32"
definition ELEMS_PER_LANE :: nat where "ELEMS_PER_LANE = 8"
definition ELEMS_PER_TILE :: nat where "ELEMS_PER_TILE = 256"
definition LANE_K :: nat where "LANE_K = 8"

lemmas tile_consts [simp] = TILE_N_def TILE_K_def LANES_PER_TILE_def ELEMS_PER_LANE_def ELEMS_PER_TILE_def LANE_K_def

datatype layout = Lay_L0 | Lay_L1 | Lay_L1S

definition layout_code :: "layout \<Rightarrow> nat" where
  "layout_code l = (case l of Lay_L0 \<Rightarrow> 1 | Lay_L1 \<Rightarrow> 2 | Lay_L1S \<Rightarrow> 3)"

definition layout_from_code :: "nat \<Rightarrow> layout fmt_result" where
  "layout_from_code c = (if c = 1 then Inr Lay_L0 else if c = 2 then Inr Lay_L1 else if c = 3 then Inr Lay_L1S
     else Inl (UnknownLayout (UnknownCode c)))"

definition layout_name :: "layout \<Rightarrow> string" where
  "layout_name l = (case l of Lay_L0 \<Rightarrow> ''l0'' | Lay_L1 \<Rightarrow> ''l1'' | Lay_L1S \<Rightarrow> ''l1s'')"

definition layout_from_name :: "string \<Rightarrow> layout fmt_result" where
  "layout_from_name s = (if s = ''l0'' then Inr Lay_L0 else if s = ''l1'' then Inr Lay_L1 else if s = ''l1s'' then Inr Lay_L1S
     else Inl (UnknownLayout (UnknownName s)))"

definition layout_to_ir :: "layout \<Rightarrow> layout_id" where
  "layout_to_ir l = layout_code l"

definition layout_from_ir :: "layout_id \<Rightarrow> layout fmt_result" where
  "layout_from_ir i = layout_from_code i"

datatype packing = Nibble4 | Byte | Half16 | BitPlanes nat

definition bit_planes :: "nat \<Rightarrow> packing fmt_result" where
  "bit_planes bits = (if bits \<in> {2, 3, 5, 6} then Inr (BitPlanes bits) else Inl (InvalidBitWidth bits))"

definition bytes_per_lane :: "packing \<Rightarrow> nat" where
  "bytes_per_lane p = (case p of Nibble4 \<Rightarrow> 4 | Byte \<Rightarrow> 8 | Half16 \<Rightarrow> 16 | BitPlanes bits \<Rightarrow> div_ceil (8 * bits) 8)"

definition tile_bytes :: "packing \<Rightarrow> nat" where
  "tile_bytes p = bytes_per_lane p * LANES_PER_TILE"

definition packing_name :: "packing \<Rightarrow> string" where
  "packing_name p = (case p of Nibble4 \<Rightarrow> ''nibble4'' | Byte \<Rightarrow> ''byte'' | Half16 \<Rightarrow> ''half16'' | BitPlanes _ \<Rightarrow> ''bitplanes'')"

section \<open>Padded dimensions\<close>

record padded_dims =
  pd_n :: nat
  pd_k :: nat
  pd_n_padded :: nat
  pd_k_padded :: nat

definition round_up_u32 :: "nat \<Rightarrow> nat \<Rightarrow> string \<Rightarrow> nat fmt_result" where
  "round_up_u32 v align what =
     bind_r (ok_or (Overflow what) (checked_add 64 v (align - 1))) (\<lambda>steps.
       ok_or (Overflow what) (try_from 32 (steps div align * align)))"

definition padded_new :: "nat \<Rightarrow> nat \<Rightarrow> nat option \<Rightarrow> padded_dims fmt_result" where
  "padded_new n k superblock_k =
     (let bad = (case superblock_k of None \<Rightarrow> False | Some s \<Rightarrow> s = 0 \<or> s mod TILE_K \<noteq> 0);
          block = (case superblock_k of Some s \<Rightarrow> if bad then TILE_K else s | None \<Rightarrow> TILE_K)
      in bind_r (collect
           ((if n = 0 then [InvalidDim ''n'' 0 ''must be at least 1''] else []) @
            (if k = 0 then [InvalidDim ''k'' 0 ''must be at least 1''] else []) @
            (if bad then [InvalidBlock ''superblock_k'' (the superblock_k) ''must be a nonzero multiple of 16''] else []))) (\<lambda>_.
         bind_r (round_up_u32 n TILE_N ''padded_n'') (\<lambda>n_padded.
         bind_r (round_up_u32 k (max block TILE_K) ''padded_k'') (\<lambda>k_padded.
           Inr \<lparr>pd_n = n, pd_k = k, pd_n_padded = n_padded, pd_k_padded = k_padded\<rparr>))))"

definition n_tiles :: "padded_dims \<Rightarrow> nat" where "n_tiles d = pd_n_padded d div TILE_N"
definition k_tiles :: "padded_dims \<Rightarrow> nat" where "k_tiles d = pd_k_padded d div TILE_K"
definition tile_count :: "padded_dims \<Rightarrow> nat" where "tile_count d = n_tiles d * k_tiles d"
definition row_blocks :: "padded_dims \<Rightarrow> nat" where "row_blocks d = n_tiles d"

definition value_region_bytes :: "padded_dims \<Rightarrow> packing \<Rightarrow> nat fmt_result" where
  "value_region_bytes d p = ok_or (Overflow ''value_region_bytes'') (checked_mul 64 (tile_count d) (tile_bytes p))"

section \<open>Tile order\<close>

definition l1_lane :: "nat \<Rightarrow> nat \<Rightarrow> nat fmt_result" where
  "l1_lane n_in_tile kgroup =
     (if n_in_tile \<ge> TILE_N then Inl (InvalidDim ''n_in_tile'' n_in_tile ''must be below 16'')
      else if kgroup \<ge> 2 then Inl (InvalidDim ''kgroup'' kgroup ''must be 0 or 1'')
      else Inr (kgroup * TILE_N + n_in_tile))"

definition l1_elem :: "nat \<Rightarrow> nat \<Rightarrow> nat fmt_result" where
  "l1_elem lane j =
     (if lane \<ge> LANES_PER_TILE then Inl (InvalidDim ''lane'' lane ''must be below 32'')
      else if j \<ge> ELEMS_PER_LANE then Inl (InvalidDim ''j'' j ''must be below 8'')
      else Inr (lane * ELEMS_PER_LANE + j))"

definition tile_index :: "nat \<Rightarrow> nat \<Rightarrow> padded_dims \<Rightarrow> nat fmt_result" where
  "tile_index n_base k_base d =
     bind_r (collect
       ((if n_base mod TILE_N \<noteq> 0 then [InvalidDim ''n_base'' n_base ''must be a multiple of 16''] else []) @
        (if k_base mod TILE_K \<noteq> 0 then [InvalidDim ''k_base'' k_base ''must be a multiple of 16''] else []) @
        (if n_base \<ge> pd_n_padded d then [InvalidDim ''n_base'' n_base ''must be below padded N''] else []) @
        (if k_base \<ge> pd_k_padded d then [InvalidDim ''k_base'' k_base ''must be below padded K''] else []))) (\<lambda>_.
     ok_or (Overflow ''tile_index'')
       (Option.bind (checked_mul 64 (n_base div TILE_N) (k_tiles d)) (\<lambda>row. checked_add 64 row (k_base div TILE_K))))"

definition tile_origin :: "nat \<Rightarrow> padded_dims \<Rightarrow> (nat \<times> nat) fmt_result" where
  "tile_origin tile d =
     (if tile \<ge> tile_count d then Inl (InvalidDim ''tile'' tile ''must be below the tile count'')
      else Inr (tile div k_tiles d * TILE_N mod 2 ^ 32, tile mod k_tiles d * TILE_K mod 2 ^ 32))"

definition l1_forward_index :: "nat \<Rightarrow> nat \<Rightarrow> padded_dims \<Rightarrow> nat fmt_result" where
  "l1_forward_index n k d =
     bind_r (collect
       ((if n \<ge> pd_n_padded d then [InvalidDim ''n'' n ''must be below padded N''] else []) @
        (if k \<ge> pd_k_padded d then [InvalidDim ''k'' k ''must be below padded K''] else []))) (\<lambda>_.
     let tile = (n div TILE_N) * k_tiles d + k div TILE_K;
         lane = (k mod TILE_K div LANE_K) * TILE_N + n mod TILE_N
     in Inr (tile * ELEMS_PER_TILE + lane * ELEMS_PER_LANE + k mod LANE_K))"

definition l1_inverse_index :: "nat \<Rightarrow> padded_dims \<Rightarrow> (nat \<times> nat) fmt_result" where
  "l1_inverse_index pos d =
     (if pos \<ge> tile_count d * ELEMS_PER_TILE then Inl (InvalidDim ''pos'' pos ''must be below the tiled element count'')
      else let tile = pos div ELEMS_PER_TILE; lane = (pos mod ELEMS_PER_TILE) div ELEMS_PER_LANE;
               j = (pos mod ELEMS_PER_TILE) mod ELEMS_PER_LANE
           in Inr ((tile div k_tiles d * TILE_N + lane mod TILE_N) mod 2 ^ 32,
                   (tile mod k_tiles d * TILE_K + lane div TILE_N * LANE_K + j) mod 2 ^ 32))"

definition row_block_tiles :: "nat \<Rightarrow> padded_dims \<Rightarrow> (nat \<times> nat) fmt_result" where
  "row_block_tiles nb d =
     (if nb \<ge> row_blocks d then Inl (InvalidDim ''nb'' nb ''must be below the row-block count'')
      else Inr (nb * k_tiles d, nb * k_tiles d + k_tiles d))"

section \<open>Row strides and scale blocks\<close>

definition l0_row_values_bytes :: "nat \<Rightarrow> nat \<Rightarrow> nat fmt_result" where
  "l0_row_values_bytes dim_elems elem_bytes =
     bind_r (collect
       ((if dim_elems = 0 then [InvalidDim ''dim_elems'' 0 ''must be at least 1''] else []) @
        (if elem_bytes = 0 then [InvalidDim ''elem_bytes'' 0 ''must be at least 1''] else []))) (\<lambda>_.
     ok_or (Overflow ''l0_row_values_bytes'') (checked_mul 64 dim_elems elem_bytes))"

definition fmt_problems :: "'a fmt_result \<Rightarrow> format_error list" where
  "fmt_problems r = (case r of Inr _ \<Rightarrow> [] | Inl (Multiple ps) \<Rightarrow> ps | Inl e \<Rightarrow> [e])"

text \<open>The values read inside are those of \<open>l0_row_values_bytes\<close>, which succeeded when there is no problem.\<close>

definition l0_row_stride_bytes :: "nat \<Rightarrow> nat \<Rightarrow> nat \<Rightarrow> nat \<Rightarrow> nat fmt_result" where
  "l0_row_stride_bytes dim_elems elem_bytes k_blocks record_bytes =
     (let vals = l0_row_values_bytes dim_elems elem_bytes
      in bind_r (collect
           (fmt_problems vals @
            (if k_blocks = 0 then [InvalidBlock ''k_blocks'' 0 ''must be at least 1''] else []) @
            (if record_bytes = 0 then [InvalidBlock ''record_bytes'' 0 ''must be at least 1''] else []))) (\<lambda>_.
         bind_r vals (\<lambda>v.
           ok_or (Overflow ''l0_row_stride_bytes'')
             (Option.bind (checked_mul 64 k_blocks record_bytes) (\<lambda>scales. checked_add 64 scales v)))))"

definition l0_row_offset_bytes :: "nat \<Rightarrow> nat \<Rightarrow> nat fmt_result" where
  "l0_row_offset_bytes row stride = ok_or (Overflow ''l0_row_offset_bytes'') (checked_mul 64 row stride)"

definition l0_region_bytes :: "nat \<Rightarrow> nat \<Rightarrow> nat fmt_result" where
  "l0_region_bytes rows stride =
     (if rows = 0 then Inl (InvalidDim ''rows'' 0 ''must be at least 1'')
      else ok_or (Overflow ''l0_region_bytes'') (checked_mul 64 rows stride))"

definition scale_block_counts :: "padded_dims \<Rightarrow> nat \<Rightarrow> (nat \<times> nat) fmt_result" where
  "scale_block_counts d block_b =
     (if block_b = 0 \<or> block_b mod TILE_K \<noteq> 0 then Inl (InvalidBlock ''block_b'' block_b ''must be a nonzero multiple of 16'')
      else if pd_k_padded d mod block_b \<noteq> 0 then Inl (InvalidBlock ''block_b'' block_b ''must divide padded K'')
      else Inr (n_tiles d, pd_k_padded d div block_b))"

definition scale_record_count :: "nat \<Rightarrow> nat \<Rightarrow> nat fmt_result" where
  "scale_record_count n_blocks k_blocks =
     ok_or (Overflow ''scale_record_count'')
       (Option.bind (checked_mul 64 n_blocks k_blocks) (\<lambda>blocks. checked_mul 64 blocks TILE_N))"

definition scale_region_bytes :: "nat \<Rightarrow> nat \<Rightarrow> nat fmt_result" where
  "scale_region_bytes record_count record_bytes =
     (if record_bytes = 0 then Inl (InvalidBlock ''record_bytes'' 0 ''must be at least 1'')
      else ok_or (Overflow ''scale_region_bytes'') (checked_mul 64 record_count record_bytes))"

section \<open>Padding is the least aligned extent\<close>

definition dims_ok :: "padded_dims \<Rightarrow> bool" where
  "dims_ok d \<longleftrightarrow> 0 < pd_n d \<and> 0 < pd_k d \<and> pd_n d \<le> pd_n_padded d \<and> pd_k d \<le> pd_k_padded d \<and>
     pd_n_padded d < 2 ^ 32 \<and> pd_k_padded d < 2 ^ 32 \<and> 16 dvd pd_n_padded d \<and> 16 dvd pd_k_padded d"

definition round_up :: "nat \<Rightarrow> nat \<Rightarrow> nat" where
  "round_up v align = (v + (align - 1)) div align * align"

lemma round_up_props:
  assumes "0 < a"
  shows "v \<le> round_up v a" "a dvd round_up v a" "a dvd w \<Longrightarrow> v \<le> w \<Longrightarrow> round_up v a \<le> w" "round_up v a < v + a"
proof -
  let ?q = "(v + (a - 1)) div a"
  have e: "v + (a - 1) = ?q * a + (v + (a - 1)) mod a" by simp
  have m: "(v + (a - 1)) mod a < a" using assms by simp
  show 1: "v \<le> round_up v a" unfolding round_up_def using e m by linarith
  show "a dvd round_up v a" by (simp add: round_up_def)
  show lt: "round_up v a < v + a" unfolding round_up_def using e assms by linarith
  show "round_up v a \<le> w" if w: "a dvd w" "v \<le> w"
  proof (rule ccontr)
    assume "\<not> ?thesis"
    then have "w + a \<le> round_up v a" using w(1) by (auto simp: round_up_def dvd_def) (metis Suc_leI add.commute mult.commute mult_Suc mult_le_mono1 not_le mult_less_cancel2)
    then show False using lt w(2) by linarith
  qed
qed

lemma round_up_u32_Inr:
  assumes "v < 2 ^ 32" and "0 < a" and "a < 2 ^ 32"
  shows "round_up_u32 v a what = (if round_up v a < 2 ^ 32 then Inr (round_up v a) else Inl (Overflow what))"
proof -
  have "v + (a - 1) < 2 ^ 64" using assms by simp
  then show ?thesis by (simp add: round_up_u32_def round_up_def checked_add_def try_from_def del: power_numeral)
qed

definition block_of :: "nat option \<Rightarrow> nat" where
  "block_of sb = (case sb of None \<Rightarrow> 16 | Some s \<Rightarrow> s)"

lemma padded_new_Inr:
  assumes "n < 2 ^ 32" and "k < 2 ^ 32" and "block_of sb < 2 ^ 32"
  shows "padded_new n k sb = Inr d \<longleftrightarrow> 0 < n \<and> 0 < k \<and> 0 < block_of sb \<and> 16 dvd block_of sb \<and>
    round_up n 16 < 2 ^ 32 \<and> round_up k (block_of sb) < 2 ^ 32 \<and>
    d = \<lparr>pd_n = n, pd_k = k, pd_n_padded = round_up n 16, pd_k_padded = round_up k (block_of sb)\<rparr>" (is "_ \<longleftrightarrow> ?R")
proof (cases "0 < block_of sb \<and> 16 dvd block_of sb")
  case True
  have ge: "16 \<le> block_of sb" using True by (auto dest: dvd_imp_le)
  have good: "(case sb of None \<Rightarrow> False | Some s \<Rightarrow> s = 0 \<or> s mod TILE_K \<noteq> 0) = False"
    "max (case sb of Some s \<Rightarrow> if False then TILE_K else s | None \<Rightarrow> TILE_K) TILE_K = block_of sb"
    using True ge by (auto simp: block_of_def mod_eq_0_iff_dvd split: option.splits)
  have r: "round_up_u32 n TILE_N w = (if round_up n 16 < 2 ^ 32 then Inr (round_up n 16) else Inl (Overflow w))"
    "round_up_u32 k (block_of sb) w = (if round_up k (block_of sb) < 2 ^ 32 then Inr (round_up k (block_of sb)) else Inl (Overflow w))" for w
    using round_up_u32_Inr [OF assms(1), of 16 w] round_up_u32_Inr [OF assms(2) _ assms(3), of w] True by simp_all
  show ?thesis unfolding padded_new_def Let_def good r using True
    by (auto simp: bind_r_eq_Inr simp del: power_numeral split: if_splits)
next
  case False
  then have "(case sb of None \<Rightarrow> False | Some s \<Rightarrow> s = 0 \<or> s mod TILE_K \<noteq> 0) = True"
    by (auto simp: block_of_def mod_eq_0_iff_dvd split: option.splits)
  then show ?thesis using False unfolding padded_new_def Let_def by (auto simp: bind_r_eq_Inr)
qed

lemma padded_new_ok:
  assumes "n < 2 ^ 32" and "k < 2 ^ 32" and "block_of sb < 2 ^ 32" and "padded_new n k sb = Inr d"
  shows "dims_ok d"
proof -
  have "16 dvd round_up k (block_of sb)" using assms padded_new_Inr [OF assms(1-3)] round_up_props(2) [of "block_of sb" k] by (metis dvd_trans)
  then show ?thesis using assms padded_new_Inr [OF assms(1-3)] round_up_props(1) [of "block_of sb" k] round_up_props(1,2) [of 16 n]
    by (auto simp: dims_ok_def simp del: power_numeral)
qed

section \<open>The tile order is a bijection\<close>

definition fwd :: "padded_dims \<Rightarrow> nat \<Rightarrow> nat \<Rightarrow> nat" where
  "fwd d n k = (n div 16 * k_tiles d + k div 16) * 256 + (k mod 16 div 8 * 16 + n mod 16) * 8 + k mod 8"

definition elems :: "padded_dims \<Rightarrow> nat" where
  "elems d = pd_n_padded d * pd_k_padded d"

lemma elems_tiles: "dims_ok d \<Longrightarrow> elems d = tile_count d * 256"
  by (auto simp: dims_ok_def elems_def tile_count_def n_tiles_def k_tiles_def elim!: dvdE)

lemma tiles_pos: "dims_ok d \<Longrightarrow> 0 < k_tiles d \<and> pd_k_padded d = k_tiles d * 16 \<and> pd_n_padded d = n_tiles d * 16"
  by (auto simp: dims_ok_def n_tiles_def k_tiles_def elim!: dvdE)

lemma l1_forward_index_eq:
  "l1_forward_index n k d = Inr p \<longleftrightarrow> n < pd_n_padded d \<and> k < pd_k_padded d \<and> p = fwd d n k"
  by (auto simp: l1_forward_index_def bind_r_eq_Inr fwd_def Let_def)

lemma mixed_lt: "a < n \<Longrightarrow> b < m \<Longrightarrow> a * m + b < n * (m::nat)"
proof -
  assume "a < n" "b < m"
  then have "a * m + b < Suc a * m" by simp
  also have "\<dots> \<le> n * m" using \<open>a < n\<close> by (intro mult_right_mono) auto
  finally show ?thesis .
qed

lemma mixed_div_mod: "b < m \<Longrightarrow> (a * m + b) div m = a" "b < m \<Longrightarrow> (a * m + b) mod m = (b::nat)"
  by simp_all

lemma lane_lt: "k mod 16 div 8 * 16 + n mod 16 < (32::nat)" "(k mod 16 div 8 * 16 + n mod 16) * 8 + k mod 8 < (256::nat)"
proof -
  have "k mod 16 div 8 < 2" by (rule less_mult_imp_div_less) simp
  then have "k mod 16 div 8 * 16 + n mod 16 < 2 * 16" by (rule mixed_lt) simp
  then show *: "k mod 16 div 8 * 16 + n mod 16 < 32" by simp
  have "(k mod 16 div 8 * 16 + n mod 16) * 8 + k mod 8 < 32 * 8" by (rule mixed_lt [OF *]) simp
  then show "(k mod 16 div 8 * 16 + n mod 16) * 8 + k mod 8 < 256" by simp
qed

lemma fwd_lt:
  assumes "dims_ok d" and "n < pd_n_padded d" and "k < pd_k_padded d"
  shows "fwd d n k < elems d"
proof -
  have t: "n div 16 < n_tiles d" "k div 16 < k_tiles d" using assms tiles_pos [OF assms(1)] by (simp_all add: less_mult_imp_div_less)
  have "n div 16 * k_tiles d + k div 16 < n_tiles d * k_tiles d" by (rule mixed_lt [OF t])
  then have "(n div 16 * k_tiles d + k div 16) * 256 + ((k mod 16 div 8 * 16 + n mod 16) * 8 + k mod 8) < n_tiles d * k_tiles d * 256"
    by (rule mixed_lt) (rule lane_lt)
  then show ?thesis unfolding elems_tiles [OF assms(1)] by (simp add: fwd_def tile_count_def add.assoc)
qed

lemma l1_inverse_fwd:
  assumes d: "dims_ok d" and n: "n < pd_n_padded d" and k: "k < pd_k_padded d"
  shows "l1_inverse_index (fwd d n k) d = Inr (n, k)"
proof -
  let ?t = "n div 16 * k_tiles d + k div 16" and ?l = "k mod 16 div 8 * 16 + n mod 16" and ?j = "k mod 8"
  have lt: "?l < 32" "?j < 8" "?l * 8 + ?j < 256" "k div 16 < k_tiles d"
    using lane_lt [of k n] tiles_pos [OF d] k by (auto simp: less_mult_imp_div_less)
  have f: "fwd d n k = ?t * 256 + (?l * 8 + ?j)" by (simp add: fwd_def)
  have p: "fwd d n k div 256 = ?t" "fwd d n k mod 256 = ?l * 8 + ?j" unfolding f by (rule mixed_div_mod [OF lt(3)])+
  have q: "(?l * 8 + ?j) div 8 = ?l" "(?l * 8 + ?j) mod 8 = ?j" by (rule mixed_div_mod [OF lt(2)])+
  have r: "?t div k_tiles d = n div 16" "?t mod k_tiles d = k div 16" by (rule mixed_div_mod [OF lt(4)])+
  have l: "?l mod 16 = n mod 16" "?l div 16 = k mod 16 div 8" by simp_all
  have "k mod 16 = k mod 16 div 8 * 8 + k mod 8" using div_mult_mod_eq [of "k mod 16" 8] by (simp add: mod_mod_cancel)
  then have kk: "k div 16 * 16 + k mod 16 div 8 * 8 + k mod 8 = k" using div_mult_mod_eq [of k 16] by linarith
  have nn: "n div 16 * 16 + n mod 16 = n" by simp
  have "n < 2 ^ 32" "k < 2 ^ 32" using d n k by (auto simp: dims_ok_def)
  then show ?thesis using fwd_lt [OF assms] unfolding l1_inverse_index_def tile_consts elems_tiles [OF d] p q r l Let_def kk nn
    by (simp del: power_numeral)
qed

lemma fwd_inverse:
  assumes d: "dims_ok d" and p: "p < elems d"
  shows "\<exists>n k. l1_inverse_index p d = Inr (n, k) \<and> n < pd_n_padded d \<and> k < pd_k_padded d \<and> fwd d n k = p"
proof -
  let ?t = "p div 256" and ?l = "p mod 256 div 8" and ?j = "p mod 256 mod 8"
  let ?n = "?t div k_tiles d * 16 + ?l mod 16" and ?k = "?t mod k_tiles d * 16 + ?l div 16 * 8 + ?j"
  have kt: "0 < k_tiles d" and np: "pd_n_padded d = n_tiles d * 16" "pd_k_padded d = k_tiles d * 16" using tiles_pos [OF d] by auto
  have t: "?t < n_tiles d * k_tiles d" using p unfolding elems_tiles [OF d] tile_count_def by (simp add: less_mult_imp_div_less)
  have l: "?l < 32" by (simp add: less_mult_imp_div_less)
  have "?t div k_tiles d < n_tiles d" using t kt by (simp add: less_mult_imp_div_less)
  then have n: "?n < pd_n_padded d" unfolding np by (intro mixed_lt) auto
  have l2: "?l div 16 < 2" using l by (simp add: less_mult_imp_div_less)
  then have c: "?l div 16 * 8 + ?j < 2 * 8" by (intro mixed_lt) auto
  then have k: "?k < pd_k_padded d" unfolding np add.assoc using kt by (intro mixed_lt) auto
  have a: "?n div 16 = ?t div k_tiles d" "?n mod 16 = ?l mod 16" "?k div 16 = ?t mod k_tiles d" "?k mod 16 = ?l div 16 * 8 + ?j"
    using c by (simp_all add: add.assoc)
  have b: "?k mod 16 div 8 = ?l div 16" "?k mod 8 = ?j"
  proof -
    show "?k mod 16 div 8 = ?l div 16" unfolding a(4) by simp
    have "?k mod 8 = ?k mod 16 mod 8" by (simp add: mod_mod_cancel)
    then show "?k mod 8 = ?j" unfolding a(4) by simp
  qed
  have "fwd d ?n ?k = (?t div k_tiles d * k_tiles d + ?t mod k_tiles d) * 256 + (?l div 16 * 16 + ?l mod 16) * 8 + ?j"
    unfolding fwd_def a(1-3) b by simp
  also have "\<dots> = p" by simp
  finally have f: "fwd d ?n ?k = p" .
  have "?n < 2 ^ 32" "?k < 2 ^ 32" using d n k by (auto simp: dims_ok_def)
  then have "l1_inverse_index p d = Inr (?n, ?k)" using p unfolding l1_inverse_index_def tile_consts elems_tiles [OF d] Let_def
    by (simp del: power_numeral)
  then show ?thesis using n k f by blast
qed

end
