(* ===== verification/Fmt_Permute.thy ===== *)
theory Fmt_Permute
  imports Fmt_Layout "HOL-Library.Word"
begin

text \<open>
  Permutation into tile order and the element codecs of \<open>crates/r9v-format/src/permute.rs\<close>, with the index packing of
  \<open>sparse.rs\<close>. Elements and bytes are natural numbers below their width; the shifts that can leave a width are cut with
  \<open>take_bit\<close>. The lanes of a chunk are read at literal positions inside the chunk, which \<open>chunks_exact\<close> makes exactly
  as long as needed.
\<close>

unbundle bit_operations_syntax

section \<open>Vectors\<close>

definition write_at :: "nat \<Rightarrow> 'a \<Rightarrow> 'a list \<Rightarrow> 'a list fmt_result" where
  "write_at i v xs = (if i < length xs then Inr (xs[i := v]) else Inl IndexPanic)"

definition read_at :: "'a list \<Rightarrow> nat \<Rightarrow> 'a fmt_result" where
  "read_at xs i = ok_or IndexPanic (get xs i)"

definition expect_len :: "nat \<Rightarrow> nat \<Rightarrow> string \<Rightarrow> unit fmt_result" where
  "expect_len got expected what = guard_r (got = expected) (LengthMismatch what expected got)"

function chunks_exact :: "nat \<Rightarrow> 'a list \<Rightarrow> 'a list list" where
  "chunks_exact c xs = (if c = 0 \<or> length xs < c then [] else take c xs # chunks_exact c (drop c xs))"
  by pat_completeness auto
termination
  by (relation "measure (length \<circ> snd)") auto

declare chunks_exact.simps [simp del]

definition grid :: "nat \<Rightarrow> nat \<Rightarrow> (nat \<times> nat) list" where
  "grid n k = List.product [0..<n] [0..<k]"

definition out_of_range :: "string \<Rightarrow> nat \<Rightarrow> nat list \<Rightarrow> format_error list" where
  "out_of_range what limit xs =
     map (\<lambda>(pos, v). ValueOutOfRange what pos v) (filter (\<lambda>(pos, v). v \<ge> limit) (zip [0..<length xs] xs))"

section \<open>Permutation\<close>

definition total_elems :: "padded_dims \<Rightarrow> nat" where
  "total_elems d = pd_n_padded d * pd_k_padded d"

text \<open>The loop shared by \<open>l1_forward_elems\<close> and \<open>l1_pack_bytes\<close>, and the loop of their inverses.\<close>

definition to_tiles :: "nat list \<Rightarrow> padded_dims \<Rightarrow> nat list fmt_result" where
  "to_tiles src d =
     fold_r (\<lambda>(n, k) dst.
         bind_r (l1_forward_index n k d) (\<lambda>pos.
         bind_r (read_at src (n * pd_k_padded d + k)) (\<lambda>v. write_at pos v dst)))
       (grid (pd_n_padded d) (pd_k_padded d)) (replicate (total_elems d) 0)"

definition from_tiles :: "nat list \<Rightarrow> padded_dims \<Rightarrow> nat list fmt_result" where
  "from_tiles tiled d =
     fold_r (\<lambda>(pos, v) dst.
         bind_r (l1_inverse_index pos d) (\<lambda>(n, k). write_at (n * pd_k_padded d + k) v dst))
       (zip [0..<length tiled] tiled) (replicate (total_elems d) 0)"

definition l1_forward_elems :: "nat list \<Rightarrow> padded_dims \<Rightarrow> nat list fmt_result" where
  "l1_forward_elems src d =
     bind_r (expect_len (length src) (total_elems d) ''l1 row-major elements'') (\<lambda>_. to_tiles src d)"

definition l1_inverse_elems :: "nat list \<Rightarrow> padded_dims \<Rightarrow> nat list fmt_result" where
  "l1_inverse_elems tiled d =
     bind_r (expect_len (length tiled) (total_elems d) ''l1 tile-order elements'') (\<lambda>_. from_tiles tiled d)"

definition pad_row_major_elems :: "nat list \<Rightarrow> nat \<Rightarrow> nat \<Rightarrow> padded_dims \<Rightarrow> nat list fmt_result" where
  "pad_row_major_elems src n k d =
     (if n \<noteq> pd_n d \<or> k \<noteq> pd_k d then Inl (LengthMismatch ''unpadded row-major elements'' (n * k) (length src))
      else bind_r (expect_len (length src) (n * k) ''unpadded row-major elements'') (\<lambda>_.
        fold_r (\<lambda>(row, col) dst.
            bind_r (read_at src (row * k + col)) (\<lambda>v. write_at (row * pd_k_padded d + col) v dst))
          (grid n k) (replicate (total_elems d) 0)))"

definition verify_padding_zeros_elems :: "nat list \<Rightarrow> padded_dims \<Rightarrow> unit fmt_result" where
  "verify_padding_zeros_elems tiled d =
     bind_r (expect_len (length tiled) (total_elems d) ''l1 tile-order elements'') (\<lambda>_.
     bind_r (fold_r (\<lambda>(n, k) problems.
           if n < pd_n d \<and> k < pd_k d then Inr problems
           else bind_r (l1_forward_index n k d) (\<lambda>pos.
             bind_r (read_at tiled pos) (\<lambda>v.
               Inr (if v \<noteq> 0 then problems @ [PaddingNonzero n k v] else problems))))
         (grid (pd_n_padded d) (pd_k_padded d)) []) collect)"

definition l1_pack_bytes :: "nat list \<Rightarrow> padded_dims \<Rightarrow> nat list fmt_result" where
  "l1_pack_bytes src d = bind_r (expect_len (length src) (total_elems d) ''l1 row-major bytes'') (\<lambda>_. to_tiles src d)"

definition l1_unpack_bytes :: "nat list \<Rightarrow> padded_dims \<Rightarrow> nat list fmt_result" where
  "l1_unpack_bytes tiled d = bind_r (expect_len (length tiled) (total_elems d) ''l1 tile-order bytes'') (\<lambda>_. from_tiles tiled d)"

definition verify_padding_zeros_bytes :: "nat list \<Rightarrow> padded_dims \<Rightarrow> unit fmt_result" where
  "verify_padding_zeros_bytes tiled d = verify_padding_zeros_elems tiled d"

definition l1_pack_halfs :: "nat list \<Rightarrow> padded_dims \<Rightarrow> nat list fmt_result" where
  "l1_pack_halfs src d = l1_forward_elems src d"

definition l1_unpack_halfs :: "nat list \<Rightarrow> padded_dims \<Rightarrow> nat list fmt_result" where
  "l1_unpack_halfs tiled d = l1_inverse_elems tiled d"

section \<open>Element codecs\<close>

definition to_le_bytes16 :: "nat \<Rightarrow> nat list" where
  "to_le_bytes16 v = [v mod 256, v div 256 mod 256]"

definition from_le_bytes16 :: "nat \<Rightarrow> nat \<Rightarrow> nat" where
  "from_le_bytes16 lo hi = lo + 256 * hi"

definition encode_halfs_le :: "nat list \<Rightarrow> nat list" where
  "encode_halfs_le tiled = concat (map to_le_bytes16 tiled)"

definition decode_halfs_le :: "nat list \<Rightarrow> nat list fmt_result" where
  "decode_halfs_le bytes =
     (if length bytes mod 2 \<noteq> 0 then Inl (LengthMismatch ''half16 little-endian bytes'' (length bytes + 1) (length bytes))
      else Inr (map (\<lambda>pair. from_le_bytes16 (pair ! 0) (pair ! 1)) (chunks_exact 2 bytes)))"

definition pack_nibble_tiles :: "nat list \<Rightarrow> nat list" where
  "pack_nibble_tiles tiled =
     concat (map (\<lambda>tile. concat (map (\<lambda>lane.
         let base = lane * ELEMS_PER_LANE
         in map (\<lambda>m. (tile ! (base + 2 * m)) OR take_bit 8 (push_bit 4 (tile ! (base + 2 * m + 1)))) [0..<ELEMS_PER_LANE div 2])
       [0..<LANES_PER_TILE])) (chunks_exact ELEMS_PER_TILE tiled))"

definition l1_pack_nibbles :: "nat list \<Rightarrow> padded_dims \<Rightarrow> nat list fmt_result" where
  "l1_pack_nibbles src d =
     bind_r (expect_len (length src) (total_elems d) ''l1 row-major nibbles'') (\<lambda>_.
     if total_elems d mod 2 \<noteq> 0 then Inl (Overflow ''l1_pack_nibbles'')
     else bind_r (collect (out_of_range ''nibble'' 16 src)) (\<lambda>_.
       bind_r (l1_pack_bytes src d) (\<lambda>tiled. Inr (pack_nibble_tiles tiled))))"

definition expand_nibble_tiles :: "nat list \<Rightarrow> nat list" where
  "expand_nibble_tiles tiled =
     concat (map (\<lambda>tile. concat (map (\<lambda>lane.
         let base = lane * (ELEMS_PER_LANE div 2)
         in concat (map (\<lambda>m. let byte = tile ! (base + m) in [byte AND 15, drop_bit 4 byte]) [0..<ELEMS_PER_LANE div 2]))
       [0..<LANES_PER_TILE])) (chunks_exact (ELEMS_PER_TILE div 2) tiled))"

definition l1_unpack_nibbles :: "nat list \<Rightarrow> padded_dims \<Rightarrow> nat list fmt_result" where
  "l1_unpack_nibbles tiled d =
     (if total_elems d mod 2 \<noteq> 0 then Inl (Overflow ''l1_unpack_nibbles'')
      else bind_r (expect_len (length tiled) (total_elems d div 2) ''l1 tile-order nibble bytes'') (\<lambda>_.
        l1_unpack_bytes (expand_nibble_tiles tiled) d))"

definition l1_unpack_nibbles_for_check :: "nat list \<Rightarrow> padded_dims \<Rightarrow> nat list fmt_result" where
  "l1_unpack_nibbles_for_check tiled d =
     (if total_elems d mod 2 \<noteq> 0 then Inl (Overflow ''l1 nibble check'')
      else bind_r (expect_len (length tiled) (total_elems d div 2) ''l1 tile-order nibble bytes'') (\<lambda>_.
        Inr (expand_nibble_tiles tiled)))"

definition verify_padding_zeros_nibbles :: "nat list \<Rightarrow> padded_dims \<Rightarrow> unit fmt_result" where
  "verify_padding_zeros_nibbles tiled d =
     bind_r (l1_unpack_nibbles_for_check tiled d) (\<lambda>expanded. verify_padding_zeros_bytes expanded d)"

text \<open>The \<open>acc |= v << (j * width)\<close> loops: the largest shift is by 42 of a 16-bit value, inside the 64 bits of \<open>acc\<close>.\<close>

definition gather :: "nat \<Rightarrow> nat list \<Rightarrow> nat" where
  "gather width vs = fold (\<lambda>j acc. acc OR push_bit (j * width) (vs ! j)) [0..<length vs] 0"

definition pack_plane_tiles :: "nat \<Rightarrow> nat \<Rightarrow> nat list \<Rightarrow> nat list" where
  "pack_plane_tiles bits per_lane_bytes tiled =
     concat (map (\<lambda>tile. concat (map (\<lambda>lane.
         let acc = gather bits (map (\<lambda>j. tile ! (lane * ELEMS_PER_LANE + j)) [0..<ELEMS_PER_LANE])
         in map (\<lambda>b. take_bit 8 (drop_bit (b * 8) acc)) [0..<per_lane_bytes])
       [0..<LANES_PER_TILE])) (chunks_exact ELEMS_PER_TILE tiled))"

definition l1_pack_planes :: "nat list \<Rightarrow> padded_dims \<Rightarrow> nat \<Rightarrow> nat list fmt_result" where
  "l1_pack_planes src d bits =
     bind_r (bit_planes bits) (\<lambda>packing.
     bind_r (expect_len (length src) (total_elems d) ''l1 row-major plane values'') (\<lambda>_.
     bind_r (collect (out_of_range ''bit-plane value'' (2 ^ bits) src)) (\<lambda>_.
     bind_r (l1_forward_elems src d) (\<lambda>tiled.
       Inr (pack_plane_tiles bits (bytes_per_lane packing) tiled)))))"

definition expand_plane_tiles :: "nat \<Rightarrow> nat \<Rightarrow> nat \<Rightarrow> nat list \<Rightarrow> nat list" where
  "expand_plane_tiles bits per_lane_bytes per_tile_bytes tiled =
     concat (map (\<lambda>tile. concat (map (\<lambda>lane.
         let acc = gather 8 (map (\<lambda>b. tile ! (lane * per_lane_bytes + b)) [0..<per_lane_bytes])
         in map (\<lambda>j. take_bit 16 (drop_bit (j * bits) acc AND (2 ^ bits - 1))) [0..<ELEMS_PER_LANE])
       [0..<LANES_PER_TILE])) (chunks_exact per_tile_bytes tiled))"

definition l1_unpack_planes_to_elems :: "nat list \<Rightarrow> padded_dims \<Rightarrow> nat \<Rightarrow> nat list fmt_result" where
  "l1_unpack_planes_to_elems tiled d bits =
     bind_r (bit_planes bits) (\<lambda>packing.
     bind_r (expect_len (length tiled) (tile_count d * tile_bytes packing) ''l1 tile-order plane bytes'') (\<lambda>_.
       Inr (expand_plane_tiles bits (bytes_per_lane packing) (tile_bytes packing) tiled)))"

definition l1_unpack_planes :: "nat list \<Rightarrow> padded_dims \<Rightarrow> nat \<Rightarrow> nat list fmt_result" where
  "l1_unpack_planes tiled d bits =
     bind_r (bit_planes bits) (\<lambda>packing.
     bind_r (expect_len (length tiled) (tile_count d * tile_bytes packing) ''l1 tile-order plane bytes'') (\<lambda>_.
       l1_inverse_elems (expand_plane_tiles bits (bytes_per_lane packing) (tile_bytes packing) tiled) d))"

definition verify_padding_zeros_planes :: "nat list \<Rightarrow> padded_dims \<Rightarrow> nat \<Rightarrow> unit fmt_result" where
  "verify_padding_zeros_planes tiled d bits =
     bind_r (l1_unpack_planes_to_elems tiled d bits) (\<lambda>elems. verify_padding_zeros_elems elems d)"

definition lane_byte_offset :: "nat \<Rightarrow> packing \<Rightarrow> nat fmt_result" where
  "lane_byte_offset lane packing =
     (if lane \<ge> LANES_PER_TILE then Inl (InvalidDim ''lane'' lane ''must be below 32'')
      else Inr (lane * bytes_per_lane packing))"

section \<open>Structured sparsity\<close>

definition L1S_INDEX_BITS :: nat where "L1S_INDEX_BITS = 2"
definition L1S_KEPT_PER_LANE :: nat where "L1S_KEPT_PER_LANE = 8"
definition L1S_KEPT_PER_TILE :: nat where "L1S_KEPT_PER_TILE = 256"
definition L1S_INDEX_BYTES_PER_TILE :: nat where "L1S_INDEX_BYTES_PER_TILE = 64"
definition L1S_INDEX_BYTES_PER_LANE :: nat where "L1S_INDEX_BYTES_PER_LANE = 2"

lemmas l1s_consts [simp] = L1S_INDEX_BITS_def L1S_KEPT_PER_LANE_def L1S_KEPT_PER_TILE_def L1S_INDEX_BYTES_PER_TILE_def
  L1S_INDEX_BYTES_PER_LANE_def

definition l1s_value_dims :: "padded_dims \<Rightarrow> nat option \<Rightarrow> padded_dims fmt_result" where
  "l1s_value_dims d superblock_k =
     bind_r (collect
       ((if pd_k d mod 2 \<noteq> 0 then [InvalidDim ''k'' (pd_k d) ''must be even for 2:4 compression''] else []) @
        (case superblock_k of None \<Rightarrow> [] | Some s \<Rightarrow>
          if s = 0 \<or> s mod 32 \<noteq> 0
          then [InvalidBlock ''superblock_k'' s
                  ''must be a nonzero multiple of 32 so the halved superblock stays tile-aligned'']
          else []))) (\<lambda>_.
     padded_new (pd_n d) (pd_k d div 2) (map_option (\<lambda>s. s div 2) superblock_k))"

definition l1s_index_lane :: "nat \<Rightarrow> nat \<Rightarrow> nat fmt_result" where
  "l1s_index_lane n_in_tile kgroup = l1_lane n_in_tile kgroup"

definition l1s_index_region_bytes :: "nat \<Rightarrow> nat fmt_result" where
  "l1s_index_region_bytes tiles =
     ok_or (Overflow ''l1s_index_region_bytes'') (checked_mul 64 tiles L1S_INDEX_BYTES_PER_TILE)"

record l1s_regions =
  ls_values_bytes :: nat
  ls_scales_bytes :: nat
  ls_indices_bytes :: nat

definition l1s_regions_new :: "padded_dims \<Rightarrow> nat \<Rightarrow> nat \<Rightarrow> l1s_regions fmt_result" where
  "l1s_regions_new value_dims value_tile_bytes scales_bytes =
     bind_r (ok_or (Overflow ''l1s values_bytes'') (checked_mul 64 (tile_count value_dims) value_tile_bytes)) (\<lambda>values_bytes.
     bind_r (l1s_index_region_bytes (tile_count value_dims)) (\<lambda>indices_bytes.
       Inr \<lparr>ls_values_bytes = values_bytes, ls_scales_bytes = scales_bytes, ls_indices_bytes = indices_bytes\<rparr>))"

definition l1s_values_offset :: "l1s_regions \<Rightarrow> nat" where "l1s_values_offset r = 0"
definition l1s_scales_offset :: "l1s_regions \<Rightarrow> nat" where "l1s_scales_offset r = ls_values_bytes r"

definition l1s_indices_offset :: "l1s_regions \<Rightarrow> nat fmt_result" where
  "l1s_indices_offset r =
     ok_or (Overflow ''l1s indices_offset'') (checked_add 64 (ls_values_bytes r) (ls_scales_bytes r))"

definition l1s_total_bytes :: "l1s_regions \<Rightarrow> nat fmt_result" where
  "l1s_total_bytes r =
     bind_r (l1s_indices_offset r) (\<lambda>off. ok_or (Overflow ''l1s total_bytes'') (checked_add 64 off (ls_indices_bytes r)))"

record l1_regions =
  l1r_values_bytes :: nat
  l1r_scales_bytes :: nat

definition l1_regions_new :: "padded_dims \<Rightarrow> nat \<Rightarrow> nat \<Rightarrow> l1_regions fmt_result" where
  "l1_regions_new d value_tile_bytes scales_bytes =
     bind_r (ok_or (Overflow ''l1 values_bytes'') (checked_mul 64 (tile_count d) value_tile_bytes)) (\<lambda>values_bytes.
       Inr \<lparr>l1r_values_bytes = values_bytes, l1r_scales_bytes = scales_bytes\<rparr>)"

definition l1r_values_offset :: "l1_regions \<Rightarrow> nat" where "l1r_values_offset r = 0"
definition l1r_scales_offset :: "l1_regions \<Rightarrow> nat" where "l1r_scales_offset r = l1r_values_bytes r"

definition l1r_total_bytes :: "l1_regions \<Rightarrow> nat fmt_result" where
  "l1r_total_bytes r = ok_or (Overflow ''l1 total_bytes'') (checked_add 64 (l1r_values_bytes r) (l1r_scales_bytes r))"

definition pack_index_tiles :: "nat list \<Rightarrow> nat list" where
  "pack_index_tiles kept =
     concat (map (\<lambda>tile. concat (map (\<lambda>lane.
         let base = lane * L1S_KEPT_PER_LANE;
             acc = gather L1S_INDEX_BITS (map (\<lambda>m. (tile ! (base + m)) AND 3) [0..<L1S_KEPT_PER_LANE])
         in [acc AND 255, take_bit 8 (drop_bit 8 acc)])
       [0..<LANES_PER_TILE])) (chunks_exact L1S_KEPT_PER_TILE kept))"

definition l1s_pack_indices :: "nat list \<Rightarrow> padded_dims \<Rightarrow> nat list fmt_result" where
  "l1s_pack_indices kept value_dims =
     bind_r (ok_or (Overflow ''l1s kept indices'') (checked_mul 64 (tile_count value_dims) L1S_KEPT_PER_TILE)) (\<lambda>expected.
     bind_r (expect_len (length kept) expected ''l1s kept indices'') (\<lambda>_.
     bind_r (collect (out_of_range ''l1s index'' 4 kept)) (\<lambda>_. Inr (pack_index_tiles kept))))"

definition expand_index_tiles :: "nat list \<Rightarrow> nat list" where
  "expand_index_tiles bytes =
     concat (map (\<lambda>tile. concat (map (\<lambda>lane.
         let base = lane * L1S_INDEX_BYTES_PER_LANE;
             acc = (tile ! base) OR push_bit 8 (tile ! (base + 1))
         in map (\<lambda>m. take_bit 8 (drop_bit (m * L1S_INDEX_BITS) acc AND 3)) [0..<L1S_KEPT_PER_LANE])
       [0..<LANES_PER_TILE])) (chunks_exact L1S_INDEX_BYTES_PER_TILE bytes))"

definition l1s_unpack_indices :: "nat list \<Rightarrow> padded_dims \<Rightarrow> nat list fmt_result" where
  "l1s_unpack_indices bytes value_dims =
     bind_r (l1s_index_region_bytes (tile_count value_dims)) (\<lambda>expected.
     bind_r (expect_len (length bytes) expected ''l1s index bytes'') (\<lambda>_. Inr (expand_index_tiles bytes)))"

end
