(* ===== verification/Fmt_Tiles.thy ===== *)
theory Fmt_Tiles
  imports Fmt_Permute
begin

text \<open>
  Correctness of the tile permutation: a loop of writes to distinct positions stores every value, so the forward loop is a
  gather through the inverse index, the inverse loop a gather through the forward index, and each undoes the other.
\<close>

section \<open>Loops of writes\<close>

lemma expect_len_eq_Inr [simp]: "expect_len got expected what = Inr u \<longleftrightarrow> got = expected"
  by (simp add: expect_len_def)

lemma read_at_eq_Inr [simp]: "read_at xs i = Inr x \<longleftrightarrow> i < length xs \<and> xs ! i = x"
  by (simp add: read_at_def)

lemma read_at_nth [simp]: "i < length xs \<Longrightarrow> read_at xs i = Inr (xs ! i)"
  by simp

lemma write_at_nth [simp]: "i < length xs \<Longrightarrow> write_at i v xs = Inr (xs[i := v])"
  by (simp add: write_at_def)

lemma fold_r_cong: "(\<And>x b. x \<in> set xs \<Longrightarrow> f x b = g x b) \<Longrightarrow> fold_r f xs b = fold_r g xs b"
proof (induction xs arbitrary: b)
  case (Cons x xs)
  then have "fold_r f xs = fold_r g xs" by (intro ext) simp
  then show ?case using Cons.prems by simp
qed simp

lemma fold_r_total: "(\<And>x b. x \<in> set xs \<Longrightarrow> f x b = Inr (g x b)) \<Longrightarrow> fold_r f xs b = Inr (fold g xs b)"
  by (induction xs arbitrary: b) simp_all

lemma fold_write:
  assumes "inj_on pos (set is)" and "distinct is" and "\<And>i. i \<in> set is \<Longrightarrow> pos i < length dst"
  shows "\<exists>out. fold_r (\<lambda>i dst. write_at (pos i) (val i) dst) is dst = Inr out \<and> length out = length dst \<and>
    (\<forall>i \<in> set is. out ! pos i = val i) \<and> (\<forall>p. p \<notin> pos ` set is \<longrightarrow> out ! p = dst ! p)"
  using assms
proof (induction "is" arbitrary: dst)
  case (Cons i "is")
  let ?dst = "dst[pos i := val i]"
  obtain out where out: "fold_r (\<lambda>i dst. write_at (pos i) (val i) dst) is ?dst = Inr out" "length out = length ?dst"
    "\<forall>i \<in> set is. out ! pos i = val i" "\<forall>p. p \<notin> pos ` set is \<longrightarrow> out ! p = ?dst ! p"
    using Cons.IH [of ?dst] Cons.prems by auto
  have "pos i \<notin> pos ` set is" using Cons.prems(1,2) by (auto simp: inj_on_def)
  then have "out ! pos i = val i" using out(4) Cons.prems(3) [of i] by simp
  then show ?case using out Cons.prems(3) [of i] by (intro exI [of _ out]) auto
qed simp

section \<open>Row-major order\<close>

definition row_major :: "padded_dims \<Rightarrow> nat \<times> nat \<Rightarrow> nat" where
  "row_major d = (\<lambda>(n, k). n * pd_k_padded d + k)"

definition cell :: "padded_dims \<Rightarrow> nat \<Rightarrow> nat \<times> nat" where
  "cell d p = (case l1_inverse_index p d of Inr nk \<Rightarrow> nk | Inl _ \<Rightarrow> (0, 0))"

definition in_grid :: "padded_dims \<Rightarrow> nat \<times> nat \<Rightarrow> bool" where
  "in_grid d = (\<lambda>(n, k). n < pd_n_padded d \<and> k < pd_k_padded d)"

lemma total_elems_eq: "total_elems d = elems d"
  by (simp add: total_elems_def elems_def)

lemma set_grid: "set (grid n k) = {0..<n} \<times> {0..<k}" "distinct (grid n k)"
  by (auto simp: grid_def intro: distinct_product)

lemma row_major_lt: "in_grid d nk \<Longrightarrow> row_major d nk < elems d"
  by (cases nk) (simp add: in_grid_def row_major_def elems_def mixed_lt)

lemma row_major_inj: "in_grid d a \<Longrightarrow> in_grid d b \<Longrightarrow> row_major d a = row_major d b \<Longrightarrow> a = b"
proof (cases a; cases b)
  fix n k n' k'
  assume *: "in_grid d a" "in_grid d b" "row_major d a = row_major d b" "a = (n, k)" "b = (n', k')"
  then have k: "k < pd_k_padded d" "k' < pd_k_padded d" by (auto simp: in_grid_def)
  have "n * pd_k_padded d + k = n' * pd_k_padded d + k'" using * by (simp add: row_major_def)
  then show "a = b" using * mixed_div_mod [OF k(1), of n] mixed_div_mod [OF k(2), of n'] by simp
qed

lemma row_major_cell_of:
  assumes "i < elems d"
  shows "in_grid d (i div pd_k_padded d, i mod pd_k_padded d)" "row_major d (i div pd_k_padded d, i mod pd_k_padded d) = i"
proof -
  have "0 < pd_k_padded d" using assms by (auto simp: elems_def intro: gr0I)
  then show "in_grid d (i div pd_k_padded d, i mod pd_k_padded d)"
    using assms by (simp add: in_grid_def elems_def less_mult_imp_div_less)
  show "row_major d (i div pd_k_padded d, i mod pd_k_padded d) = i" by (simp add: row_major_def)
qed

lemma cell_fwd: "dims_ok d \<Longrightarrow> in_grid d (n, k) \<Longrightarrow> cell d (fwd d n k) = (n, k)"
  by (simp add: cell_def in_grid_def l1_inverse_fwd)

lemma cell_props:
  assumes "dims_ok d" and "p < elems d"
  shows "l1_inverse_index p d = Inr (cell d p)" "in_grid d (cell d p)" "fwd d (fst (cell d p)) (snd (cell d p)) = p"
  using fwd_inverse [OF assms] by (auto simp: cell_def in_grid_def)

lemma fwd_inj:
  "dims_ok d \<Longrightarrow> inj_on (\<lambda>(n, k). fwd d n k) {nk. in_grid d nk}"
  by (rule inj_on_inverseI [of _ "cell d"]) (auto simp: cell_fwd)

section \<open>The permutation as a gather\<close>

definition tiled_of :: "padded_dims \<Rightarrow> nat list \<Rightarrow> nat list" where
  "tiled_of d src = map (\<lambda>p. src ! row_major d (cell d p)) [0..<elems d]"

definition rows_of :: "padded_dims \<Rightarrow> nat list \<Rightarrow> nat list" where
  "rows_of d tiled = map (\<lambda>i. tiled ! fwd d (i div pd_k_padded d) (i mod pd_k_padded d)) [0..<elems d]"

lemma length_tiled_of [simp]: "length (tiled_of d src) = elems d" "length (rows_of d tiled) = elems d"
  by (simp_all add: tiled_of_def rows_of_def)

lemma tiled_of_fwd:
  "dims_ok d \<Longrightarrow> in_grid d (n, k) \<Longrightarrow> tiled_of d src ! fwd d n k = src ! row_major d (n, k)"
  using fwd_lt [of d n k] by (simp add: tiled_of_def cell_fwd in_grid_def)

lemma rows_of_row_major: "in_grid d (n, k) \<Longrightarrow> rows_of d tiled ! row_major d (n, k) = tiled ! fwd d n k"
  using row_major_lt [of d "(n, k)"] by (simp add: rows_of_def in_grid_def row_major_def mixed_div_mod)

lemma rows_tiled: "dims_ok d \<Longrightarrow> length src = elems d \<Longrightarrow> rows_of d (tiled_of d src) = src"
  by (rule nth_equalityI) (auto simp: rows_of_def tiled_of_fwd row_major_cell_of)

lemma tiled_rows: "dims_ok d \<Longrightarrow> length tiled = elems d \<Longrightarrow> tiled_of d (rows_of d tiled) = tiled"
proof (rule nth_equalityI)
  fix p assume d: "dims_ok d" "length tiled = elems d" and p: "p < length (tiled_of d (rows_of d tiled))"
  have "rows_of d tiled ! row_major d (cell d p) = tiled ! p"
    using cell_props [OF d(1), of p] p rows_of_row_major [of d "fst (cell d p)" "snd (cell d p)"] by simp
  then show "tiled_of d (rows_of d tiled) ! p = tiled ! p" using p by (simp add: tiled_of_def)
qed simp

lemma to_tiles_eq:
  assumes d: "dims_ok d" and l: "length src = elems d"
  shows "to_tiles src d = Inr (tiled_of d src)"
proof -
  let ?g = "grid (pd_n_padded d) (pd_k_padded d)" and ?z = "replicate (elems d) 0"
  have g: "set ?g = {nk. in_grid d nk}" by (auto simp: set_grid in_grid_def)
  have "to_tiles src d = fold_r (\<lambda>nk dst. write_at ((\<lambda>(n, k). fwd d n k) nk) (src ! row_major d nk) dst) ?g ?z"
    unfolding to_tiles_def total_elems_eq
  proof (rule fold_r_cong)
    fix nk dst assume "nk \<in> set ?g"
    then obtain n k where nk: "nk = (n, k)" and i: "in_grid d (n, k)" unfolding g by (cases nk) auto
    have "l1_forward_index n k d = Inr (fwd d n k)" using i by (simp add: l1_forward_index_eq in_grid_def)
    moreover have "read_at src (n * pd_k_padded d + k) = Inr (src ! row_major d (n, k))"
      using row_major_lt [OF i] l by (simp add: row_major_def)
    ultimately show "(case nk of (n, k) \<Rightarrow> \<lambda>dst. bind_r (l1_forward_index n k d) (\<lambda>pos.
         bind_r (read_at src (n * pd_k_padded d + k)) (\<lambda>v. write_at pos v dst))) dst =
       write_at ((\<lambda>(n, k). fwd d n k) nk) (src ! row_major d nk) dst" by (simp add: nk)
  qed
  moreover obtain out where out: "fold_r (\<lambda>nk dst. write_at ((\<lambda>(n, k). fwd d n k) nk) (src ! row_major d nk) dst) ?g ?z = Inr out"
    "length out = elems d" "\<forall>nk \<in> set ?g. out ! ((\<lambda>(n, k). fwd d n k) nk) = src ! row_major d nk"
    using fold_write [of "\<lambda>(n, k). fwd d n k" ?g ?z "\<lambda>nk. src ! row_major d nk"] fwd_inj [OF d] fwd_lt [OF d] set_grid(2)
    unfolding g by (auto simp: in_grid_def)
  moreover have "out = tiled_of d src"
  proof (rule nth_equalityI)
    fix p assume "p < length out"
    then have "out ! p = src ! row_major d (cell d p)"
      using out cell_props [OF d, of p] g by (cases "cell d p") force
    then show "out ! p = tiled_of d src ! p" using \<open>p < length out\<close> out(2) by (simp add: tiled_of_def)
  qed (simp add: out(2))
  ultimately show ?thesis by simp
qed

lemma from_tiles_eq:
  assumes d: "dims_ok d" and l: "length tiled = elems d"
  shows "from_tiles tiled d = Inr (rows_of d tiled)"
proof -
  let ?z = "replicate (elems d) 0" and ?ps = "zip [0..<length tiled] tiled" and ?pos = "\<lambda>pv. row_major d (cell d (fst pv))"
  have ps: "fst pv < elems d \<and> snd pv = tiled ! fst pv" if "pv \<in> set ?ps" for pv
    using that l by (auto simp: set_zip)
  have "from_tiles tiled d = fold_r (\<lambda>pv dst. write_at (?pos pv) (snd pv) dst) ?ps ?z"
    unfolding from_tiles_def total_elems_eq
    by (rule fold_r_cong) (use ps cell_props(1) [OF d] in \<open>force simp: row_major_def split: prod.splits\<close>)
  moreover have "inj_on ?pos (set ?ps)"
  proof (rule inj_onI)
    fix x y assume x: "x \<in> set ?ps" and y: "y \<in> set ?ps" and e: "?pos x = ?pos y"
    have "cell d (fst x) = cell d (fst y)" using row_major_inj [OF _ _ e] cell_props(2) [OF d] ps [OF x] ps [OF y] by simp
    then have "fst x = fst y" using cell_props(3) [OF d] ps [OF x] ps [OF y] by metis
    then show "x = y" using ps [OF x] ps [OF y] by (simp add: prod_eq_iff)
  qed
  then obtain out where out: "fold_r (\<lambda>pv dst. write_at (?pos pv) (snd pv) dst) ?ps ?z = Inr out"
    "length out = elems d" "\<forall>pv \<in> set ?ps. out ! ?pos pv = snd pv"
    using fold_write [of ?pos ?ps ?z snd] row_major_lt [OF cell_props(2) [OF d]] ps by (auto simp: distinct_zipI1)
  moreover have "out = rows_of d tiled"
  proof (rule nth_equalityI)
    fix i assume i: "i < length out"
    let ?n = "i div pd_k_padded d" and ?k = "i mod pd_k_padded d"
    note c = row_major_cell_of [of i d]
    have f: "fwd d ?n ?k < elems d" using c(1) fwd_lt [OF d] i out(2) by (simp add: in_grid_def)
    then have "(fwd d ?n ?k, tiled ! fwd d ?n ?k) \<in> set ?ps" using l by (auto simp: in_set_zip intro!: exI [of _ "fwd d ?n ?k"])
    then have "out ! i = tiled ! fwd d ?n ?k" using out(3) c cell_fwd [OF d, of ?n ?k] i out(2) by force
    then show "out ! i = rows_of d tiled ! i" using i out(2) by (simp add: rows_of_def)
  qed (simp add: out(2))
  ultimately show ?thesis by simp
qed

lemma l1_forward_elems_eq:
  "dims_ok d \<Longrightarrow> l1_forward_elems src d = Inr tiled \<longleftrightarrow> length src = elems d \<and> tiled = tiled_of d src"
  by (auto simp: l1_forward_elems_def bind_r_eq_Inr total_elems_eq to_tiles_eq)

lemma l1_inverse_elems_eq:
  "dims_ok d \<Longrightarrow> l1_inverse_elems tiled d = Inr src \<longleftrightarrow> length tiled = elems d \<and> src = rows_of d tiled"
  by (auto simp: l1_inverse_elems_def bind_r_eq_Inr total_elems_eq from_tiles_eq)

lemma l1_pack_bytes_eq:
  "dims_ok d \<Longrightarrow> l1_pack_bytes src d = Inr tiled \<longleftrightarrow> length src = elems d \<and> tiled = tiled_of d src"
  by (auto simp: l1_pack_bytes_def bind_r_eq_Inr total_elems_eq to_tiles_eq)

lemma l1_unpack_bytes_eq:
  "dims_ok d \<Longrightarrow> l1_unpack_bytes tiled d = Inr src \<longleftrightarrow> length tiled = elems d \<and> src = rows_of d tiled"
  by (auto simp: l1_unpack_bytes_def bind_r_eq_Inr total_elems_eq from_tiles_eq)

end
