(* ===== verification/Fmt_Codecs.thy ===== *)
theory Fmt_Codecs
  imports Fmt_Tiles
begin

text \<open>
  Correctness of the element codecs. A codec that works lane by lane on chunks is a map over the lanes, so it is inverted by the
  codec that inverts each lane; the lanes of nibbles, bit planes and sparse indices are base \<open>2 ^ b\<close> digits gathered into one
  accumulator.
\<close>

section \<open>Chunks\<close>

lemma chunks_exact_append [simp]: "0 < c \<Longrightarrow> length ys = c \<Longrightarrow> chunks_exact c (ys @ zs) = ys # chunks_exact c zs"
  by (simp add: chunks_exact.simps [of c "ys @ zs"])

lemma chunks_exact_short [simp]: "length ys < c \<Longrightarrow> chunks_exact c ys = []"
  by (simp add: chunks_exact.simps [of c ys])

lemma chunks_exact_concat: "0 < c \<Longrightarrow> \<forall>ys \<in> set yss. length ys = c \<Longrightarrow> chunks_exact c (concat yss) = yss"
  by (induction yss) auto

lemma chunks_split:
  "0 < c \<Longrightarrow> length xs = n * c \<Longrightarrow> \<exists>yss. xs = concat yss \<and> length yss = n \<and> (\<forall>ys \<in> set yss. length ys = c)"
proof (induction n arbitrary: xs)
  case (Suc n)
  then obtain yss where yss: "drop c xs = concat yss" "length yss = n" "\<forall>ys \<in> set yss. length ys = c"
    using Suc.IH [of "drop c xs"] by fastforce
  have "xs = take c xs @ concat yss" unfolding yss(1) [symmetric] by simp
  then show ?case using Suc.prems yss by (intro exI [of _ "take c xs # yss"]) auto
qed simp

lemma concat_const_nth:
  "\<forall>ys \<in> set yss. length ys = c \<Longrightarrow> i < length yss \<Longrightarrow> take c (drop (i * c) (concat yss)) = yss ! i"
proof (induction yss arbitrary: i)
  case (Cons ys yss)
  then show ?case by (cases i) (auto simp: add.commute)
qed simp

lemma concat_concat_const:
  "concat (map (\<lambda>ys. concat (map f (g ys))) yss) = concat (map f (concat (map g yss)))"
  by (induction yss) auto

definition lanes :: "nat \<Rightarrow> 'a list \<Rightarrow> 'a list list" where
  "lanes c tile = map (\<lambda>lane. take c (drop (lane * c) tile)) [0..<32]"

lemma lanes_concat: "length yss = 32 \<Longrightarrow> \<forall>ys \<in> set yss. length ys = c \<Longrightarrow> lanes c (concat yss) = yss"
  by (rule nth_equalityI) (auto simp: lanes_def concat_const_nth)

lemma concat_lanes: "length tile = 32 * c \<Longrightarrow> 0 < c \<Longrightarrow> concat (lanes c tile) = tile \<and> (\<forall>ys \<in> set (lanes c tile). length ys = c)"
  using chunks_split [of c tile 32] lanes_concat by metis

lemma lane_stream:
  assumes c: "0 < c" and l: "length xs = t * (32 * c)"
    and f: "\<And>tile lane. length tile = 32 * c \<Longrightarrow> lane < 32 \<Longrightarrow> f tile lane = g (take c (drop (lane * c) tile))"
  shows "\<exists>lss. xs = concat lss \<and> length lss = t * 32 \<and> (\<forall>ls \<in> set lss. length ls = c) \<and>
    concat (map (\<lambda>tile. concat (map (f tile) [0..<32])) (chunks_exact (32 * c) xs)) = concat (map g lss)"
proof -
  obtain tiles where t: "xs = concat tiles" "length tiles = t" "\<forall>tile \<in> set tiles. length tile = 32 * c"
    using chunks_split [of "32 * c" xs t] c l by auto
  let ?lss = "concat (map (lanes c) tiles)"
  have cl: "concat (lanes c tile) = tile" "\<forall>ys \<in> set (lanes c tile). length ys = c" if "tile \<in> set tiles" for tile
    using concat_lanes [of tile c] t(3) that c by auto
  have "xs = concat ?lss" unfolding t(1) concat_concat_const [of "\<lambda>x. x", simplified, symmetric] using cl(1) by (simp cong: map_cong)
  moreover have "length ?lss = t * 32" using t(2) by (simp add: length_concat lanes_def comp_def sum_list_triv)
  moreover have "\<forall>ls \<in> set ?lss. length ls = c" using cl(2) by auto
  moreover have "concat (map (f tile) [0..<32]) = concat (map g (lanes c tile))" if "tile \<in> set tiles" for tile
    using that t(3) f by (auto simp: lanes_def intro!: arg_cong [of _ _ concat])
  then have "concat (map (\<lambda>tile. concat (map (f tile) [0..<32])) (chunks_exact (32 * c) xs)) =
      concat (map (\<lambda>tile. concat (map g (lanes c tile))) tiles)"
    unfolding t(1) using c t(3) by (simp add: chunks_exact_concat cong: map_cong)
  then have "concat (map (\<lambda>tile. concat (map (f tile) [0..<32])) (chunks_exact (32 * c) xs)) = concat (map g ?lss)"
    unfolding concat_concat_const .
  ultimately show ?thesis by blast
qed

text \<open>Two lane codecs that invert each other on lanes that satisfy \<open>P\<close> invert each other on streams of tiles.\<close>

locale lane_codec =
  fixes c e :: nat and pack expand :: "nat list \<Rightarrow> nat list" and g h :: "nat list \<Rightarrow> nat list" and P :: "nat \<Rightarrow> bool"
  assumes c_pos: "0 < c" and e_pos: "0 < e"
    and pack_lanes: "length xs = t * (32 * c) \<Longrightarrow>
      \<exists>lss. xs = concat lss \<and> length lss = t * 32 \<and> (\<forall>ls \<in> set lss. length ls = c) \<and> pack xs = concat (map g lss)"
    and expand_lanes: "length ys = t * (32 * e) \<Longrightarrow>
      \<exists>lss. ys = concat lss \<and> length lss = t * 32 \<and> (\<forall>ls \<in> set lss. length ls = e) \<and> expand ys = concat (map h lss)"
    and g_length: "length ls = c \<Longrightarrow> length (g ls) = e"
    and g_h: "length ls = c \<Longrightarrow> \<forall>v \<in> set ls. P v \<Longrightarrow> h (g ls) = ls"
    and g_Q: "length ls = c \<Longrightarrow> \<forall>v \<in> set ls. P v \<Longrightarrow> \<forall>b \<in> set (g ls). b < 256"
    and h_length: "length ls = e \<Longrightarrow> length (h ls) = c"
    and h_g: "length ls = e \<Longrightarrow> \<forall>b \<in> set ls. b < 256 \<Longrightarrow> g (h ls) = ls"
    and h_P: "length ls = e \<Longrightarrow> \<forall>b \<in> set ls. b < 256 \<Longrightarrow> \<forall>v \<in> set (h ls). P v"
begin

lemma length_pack: "length xs = t * (32 * c) \<Longrightarrow> length (pack xs) = t * (32 * e)"
  using pack_lanes [of xs t] g_length by (auto simp: length_concat comp_def sum_list_triv cong: map_cong)

lemma length_expand: "length ys = t * (32 * e) \<Longrightarrow> length (expand ys) = t * (32 * c)"
  using expand_lanes [of ys t] h_length by (auto simp: length_concat comp_def sum_list_triv cong: map_cong)

lemma lanes_unique:
  "concat lss = concat lss' \<Longrightarrow> 0 < n \<Longrightarrow> \<forall>ls \<in> set lss. length ls = n \<Longrightarrow> \<forall>ls \<in> set lss'. length ls = n \<Longrightarrow> lss = lss'"
  by (metis chunks_exact_concat)

lemma expand_pack:
  assumes l: "length xs = t * (32 * c)" and P: "\<forall>v \<in> set xs. P v"
  shows "expand (pack xs) = xs"
proof -
  obtain lss where lss: "xs = concat lss" "\<forall>ls \<in> set lss. length ls = c" "pack xs = concat (map g lss)" using pack_lanes [OF l] by blast
  obtain mss where mss: "pack xs = concat mss" "\<forall>ls \<in> set mss. length ls = e" "expand (pack xs) = concat (map h mss)"
    using expand_lanes [OF length_pack [OF l]] by blast
  have "mss = map g lss" using lanes_unique [of mss "map g lss" e] mss(1,2) lss g_length e_pos by auto
  moreover have "map h (map g lss) = lss" using lss(1,2) P g_h by (auto intro!: map_idI)
  ultimately show ?thesis using mss(3) lss(1) by simp
qed

lemma pack_expand:
  assumes l: "length ys = t * (32 * e)" and b: "\<forall>b \<in> set ys. b < 256"
  shows "pack (expand ys) = ys" "\<forall>v \<in> set (expand ys). P v"
proof -
  obtain lss where lss: "ys = concat lss" "\<forall>ls \<in> set lss. length ls = e" "expand ys = concat (map h lss)" using expand_lanes [OF l] by blast
  obtain mss where mss: "expand ys = concat mss" "\<forall>ls \<in> set mss. length ls = c" "pack (expand ys) = concat (map g mss)"
    using pack_lanes [OF length_expand [OF l]] by blast
  have "mss = map h lss" using lanes_unique [of mss "map h lss" c] mss(1,2) lss h_length c_pos by auto
  moreover have "map g (map h lss) = lss" using lss(1,2) b h_g by (auto intro!: map_idI)
  ultimately show "pack (expand ys) = ys" using mss(3) lss(1) by simp
  show "\<forall>v \<in> set (expand ys). P v" using lss b h_P by auto
qed

lemma pack_bytes: "length xs = t * (32 * c) \<Longrightarrow> \<forall>v \<in> set xs. P v \<Longrightarrow> \<forall>b \<in> set (pack xs). b < 256"
  using pack_lanes [of xs t] g_Q by fastforce

end

section \<open>Digits\<close>

lemma bit_fold_or:
  "bit (fold (\<lambda>j acc. acc OR push_bit (j * w) (f j)) js (a::nat)) i \<longleftrightarrow>
     bit a i \<or> (\<exists>j \<in> set js. j * w \<le> i \<and> bit (f j) (i - j * w))"
  by (induction js arbitrary: a) (auto simp: bit_or_iff bit_push_bit_iff)

lemma bit_below: "v < 2 ^ w \<Longrightarrow> bit (v::nat) i \<Longrightarrow> i < w"
  by (metis bit_take_bit_iff take_bit_nat_eq_self)

lemma bit_gather:
  assumes "0 < w" and "\<forall>v \<in> set vs. v < 2 ^ w"
  shows "bit (gather w vs) i \<longleftrightarrow> i < length vs * w \<and> bit (vs ! (i div w)) (i mod w)"
proof
  assume "bit (gather w vs) i"
  then obtain j where j: "j < length vs" "j * w \<le> i" "bit (vs ! j) (i - j * w)" by (auto simp: gather_def bit_fold_or)
  have "vs ! j < 2 ^ w" using assms(2) j(1) by simp
  then have lt: "i - j * w < w" using j(3) by (rule bit_below)
  then have "i = j * w + (i - j * w)" using j(2) by simp
  then have dm: "i div w = j" "i mod w = i - j * w" using mixed_div_mod [OF lt, of j] by simp_all
  then show "i < length vs * w \<and> bit (vs ! (i div w)) (i mod w)" using j assms(1) by (simp add: dm div_less_iff_less_mult [symmetric])
next
  assume a: "i < length vs * w \<and> bit (vs ! (i div w)) (i mod w)"
  then have "i div w < length vs" by (simp add: less_mult_imp_div_less)
  moreover have "i div w * w \<le> i" "i - i div w * w = i mod w" by (simp_all add: minus_div_mult_eq_mod)
  ultimately show "bit (gather w vs) i" using a by (auto simp: gather_def bit_fold_or intro!: bexI [of _ "i div w"])
qed

lemma digit_gather:
  assumes "0 < w" and "\<forall>v \<in> set vs. v < 2 ^ w" and "j < length vs"
  shows "take_bit w (drop_bit (j * w) (gather w vs)) = vs ! j"
proof (rule bit_eqI)
  fix n
  have "vs ! j < 2 ^ w" using assms by simp
  then have out: "bit (vs ! j) n \<Longrightarrow> n < w" by (rule bit_below)
  have "j * w + n < length vs * w" if "n < w" using mixed_lt [OF assms(3) that] .
  moreover have "(j * w + n) div w = j" "(j * w + n) mod w = n" if "n < w" using mixed_div_mod [OF that] by auto
  ultimately show "bit (take_bit w (drop_bit (j * w) (gather w vs))) n \<longleftrightarrow> bit (vs ! j) n"
    using out by (auto simp: bit_take_bit_iff bit_drop_bit_eq bit_gather [OF assms(1,2)])
qed

lemma gather_digits:
  assumes "0 < w"
  shows "gather w (map (\<lambda>j. take_bit w (drop_bit (j * w) acc)) [0..<n]) = take_bit (n * w) acc"
proof (rule bit_eqI)
  fix i
  have lt: "\<forall>v \<in> set (map (\<lambda>j. take_bit w (drop_bit (j * w) acc)) [0..<n]). v < 2 ^ w" by auto
  show "bit (gather w (map (\<lambda>j. take_bit w (drop_bit (j * w) acc)) [0..<n])) i \<longleftrightarrow> bit (take_bit (n * w) acc) i"
    unfolding bit_gather [OF assms lt] using assms
    by (auto simp: bit_take_bit_iff bit_drop_bit_eq less_mult_imp_div_less div_mult_mod_eq)
qed

lemma gather_less:
  assumes "0 < w" and "\<forall>v \<in> set vs. v < 2 ^ w"
  shows "gather w vs < 2 ^ (length vs * w)"
proof -
  have "take_bit (length vs * w) (gather w vs) = gather w vs"
    by (rule bit_eqI) (auto simp: bit_take_bit_iff bit_gather [OF assms])
  then show ?thesis by (simp add: take_bit_nat_eq_self_iff)
qed

definition digits :: "nat \<Rightarrow> nat \<Rightarrow> nat \<Rightarrow> nat list" where
  "digits w n acc = map (\<lambda>j. take_bit w (drop_bit (j * w) acc)) [0..<n]"

lemma digits_gather: "0 < w \<Longrightarrow> \<forall>v \<in> set vs. v < 2 ^ w \<Longrightarrow> digits w (length vs) (gather w vs) = vs"
  unfolding digits_def by (rule nth_equalityI) (auto simp: digit_gather)

lemma digits_lt: "v \<in> set (digits w n acc) \<Longrightarrow> v < 2 ^ w"
  by (auto simp: digits_def)

lemma length_digits [simp]: "length (digits w n acc) = n"
  by (simp add: digits_def)

text \<open>Regrouping digits of one width as digits of another is inverted by regrouping back when both span the same bits.\<close>

lemma regroup:
  assumes "0 < a" and "0 < b" and "m * a = n * b" and "length vs = m" and "\<forall>v \<in> set vs. v < 2 ^ a"
  shows "digits a m (gather b (digits b n (gather a vs))) = vs"
proof -
  have "gather b (digits b n (gather a vs)) = take_bit (n * b) (gather a vs)" unfolding digits_def by (rule gather_digits [OF assms(2)])
  also have "\<dots> = gather a vs" using gather_less [OF assms(1,5)] assms(3,4) by (simp add: take_bit_nat_eq_self_iff)
  finally show ?thesis using digits_gather [OF assms(1,5)] assms(4) by simp
qed

end
