(* ===== verification/Fmt_Lanes.thy ===== *)
theory Fmt_Lanes
  imports Fmt_Codecs
begin

text \<open>
  The lane codecs of nibbles, bit planes and sparse indices satisfy the interface of \<open>Fmt_Codecs\<close>, and with the tile
  permutation the packed forms decode to what was packed, and every byte stream of the right length is the packing of what it
  decodes to.
\<close>

section \<open>Masks and byte pairs\<close>

lemma and_masks: "(v::nat) AND 3 = take_bit 2 v" "v AND 15 = take_bit 4 v" "v AND 255 = take_bit 8 v" "v AND (2 ^ w - 1) = take_bit w v"
  by (simp_all add: take_bit_eq_mask mask_eq_exp_minus_1)

lemma gather_pair: "gather w [x, y] = x OR push_bit w y"
  by (simp add: gather_def upt_rec)

lemma digits_pair: "digits w 2 v = [take_bit w v, take_bit w (drop_bit w v)]"
  by (simp add: digits_def upt_rec)

lemma nibble_pair: "x < 16 \<Longrightarrow> y < 16 \<Longrightarrow> [(x OR push_bit 4 y) AND 15, drop_bit 4 (x OR push_bit 4 y)] = [x, (y::nat)]"
  "x < 16 \<Longrightarrow> y < 16 \<Longrightarrow> x OR push_bit 4 y < (256::nat)"
proof -
  assume xy: "x < 16" "y < 16"
  then have l: "\<forall>v \<in> set [x, y]. v < 2 ^ 4" by simp
  have lt: "gather 4 [x, y] < 256" using gather_less [OF _ l] by simp
  then have "drop_bit 4 (gather 4 [x, y]) < 2 ^ 4" by (simp add: drop_bit_eq_div less_mult_imp_div_less)
  then have "take_bit 4 (drop_bit 4 (gather 4 [x, y])) = drop_bit 4 (gather 4 [x, y])" by (rule take_bit_nat_eq_self)
  then show "[(x OR push_bit 4 y) AND 15, drop_bit 4 (x OR push_bit 4 y)] = [x, y]"
    using digits_gather [OF _ l] unfolding and_masks gather_pair [symmetric] by (simp add: digits_pair numeral_2_eq_2 [symmetric])
  show "x OR push_bit 4 y < 256" using lt by (simp add: gather_pair)
qed

lemma byte_halves: "b < 256 \<Longrightarrow> (b AND 15) OR push_bit 4 (drop_bit 4 b) = (b::nat)"
  "b < 256 \<Longrightarrow> drop_bit 4 b < (16::nat)" "b AND 15 < (16::nat)"
proof -
  show lt: "drop_bit 4 b < 16" if "b < 256" using that by (simp add: drop_bit_eq_div less_mult_imp_div_less)
  show "b AND 15 < 16" unfolding and_masks using take_bit_nat_less_exp [of 4 b] by simp
  have "(b AND 15) OR push_bit 4 (drop_bit 4 b) = b" unfolding and_masks
  proof (rule bit_eqI)
    show "bit (take_bit 4 b OR push_bit 4 (drop_bit 4 b)) n = bit b n" for n
      by (cases "n < 4") (auto simp: bit_or_iff bit_take_bit_iff bit_push_bit_iff bit_drop_bit_eq)
  qed
  then show "(b AND 15) OR push_bit 4 (drop_bit 4 b) = b" .
qed

lemma shift_nibble: "v < 16 \<Longrightarrow> take_bit 8 (push_bit 4 v) = push_bit 4 (v::nat)"
  by (rule take_bit_nat_eq_self) (simp add: push_bit_eq_mult)

lemma out_of_range_Nil: "out_of_range what limit xs = [] \<longleftrightarrow> (\<forall>v \<in> set xs. v < limit)"
proof -
  have "out_of_range what limit xs = [] \<longleftrightarrow> (\<forall>pv \<in> set (zip [0..<length xs] xs). snd pv < limit)"
    by (auto simp: out_of_range_def filter_empty_conv)
  also have "\<dots> \<longleftrightarrow> (\<forall>v \<in> snd ` set (zip [0..<length xs] xs). v < limit)" by simp
  also have "snd ` set (zip [0..<length xs] xs) = set xs" by (simp flip: set_map)
  finally show ?thesis .
qed

lemma lane_slice:
  assumes "length tile = 32 * c" and "lane < 32"
  shows "map (\<lambda>j. f (tile ! (lane * c + j))) [0..<c] = map f (take c (drop (lane * c) tile))"
proof -
  have "lane * c + j < length tile" if "j < c" for j using mixed_lt [OF assms(2) that] assms(1) by simp
  then have "lane * c + c \<le> length tile \<or> c = 0" using assms by (cases c) (auto simp: Suc_le_eq)
  then show ?thesis by (intro nth_equalityI) (auto simp: less_diff_conv)
qed

lemmas lane_slice_id = lane_slice [where f = "\<lambda>x. x", simplified list.map_ident]

section \<open>Nibbles\<close>

definition nibble_lane :: "nat list \<Rightarrow> nat list" where
  "nibble_lane ls = map (\<lambda>m. (ls ! (2 * m)) OR take_bit 8 (push_bit 4 (ls ! (2 * m + 1)))) [0..<4]"

definition nibble_unlane :: "nat list \<Rightarrow> nat list" where
  "nibble_unlane ls = concat (map (\<lambda>m. [(ls ! m) AND 15, drop_bit 4 (ls ! m)]) [0..<4])"

lemma upt4: "[0..<4] = [0, 1, 2, 3::nat]" "[0..<8] = [0, 1, 2, 3, 4, 5, 6, 7::nat]"
  by (simp_all add: upt_rec)

lemma length8: "length ls = 8 \<Longrightarrow> \<exists>a b c d e f g h. ls = [a, b, c, d, e, f, g, h]"
  by (auto simp: length_Suc_conv numeral_eq_Suc)

lemma length4: "length ls = 4 \<Longrightarrow> \<exists>a b c d. ls = [a, b, c, d]"
  by (auto simp: length_Suc_conv numeral_eq_Suc)

lemma length2: "length ls = 2 \<Longrightarrow> \<exists>a b. ls = [a, b]"
  by (auto simp: length_Suc_conv numeral_eq_Suc)

interpretation nibble: lane_codec 8 4 pack_nibble_tiles expand_nibble_tiles nibble_lane nibble_unlane "\<lambda>v. v < 16"
proof unfold_locales
  fix xs :: "nat list" and t assume l: "length xs = t * (32 * 8)"
  have f: "(let base = lane * 8 in map (\<lambda>m. (tile ! (base + 2 * m)) OR take_bit 8 (push_bit 4 (tile ! (base + 2 * m + 1)))) [0..<4]) =
      nibble_lane (take 8 (drop (lane * 8) tile))" if "length tile = 32 * 8" "lane < 32" for tile lane
    using that by (auto simp: nibble_lane_def Let_def add.assoc)
  show "\<exists>lss. xs = concat lss \<and> length lss = t * 32 \<and> (\<forall>ls \<in> set lss. length ls = 8) \<and> pack_nibble_tiles xs = concat (map nibble_lane lss)"
    using lane_stream [where g = nibble_lane, OF _ l f] by (simp add: pack_nibble_tiles_def)
next
  fix xs :: "nat list" and t assume l: "length xs = t * (32 * 4)"
  have f: "(let base = lane * 4 in concat (map (\<lambda>m. let byte = tile ! (base + m) in [byte AND 15, drop_bit 4 byte]) [0..<4])) =
      nibble_unlane (take 4 (drop (lane * 4) tile))" if "length tile = 32 * 4" "lane < 32" for tile lane
    using that by (auto simp: nibble_unlane_def Let_def intro!: arg_cong [of _ _ concat])
  show "\<exists>lss. xs = concat lss \<and> length lss = t * 32 \<and> (\<forall>ls \<in> set lss. length ls = 4) \<and> expand_nibble_tiles xs = concat (map nibble_unlane lss)"
    using lane_stream [where g = nibble_unlane, OF _ l f] by (simp add: expand_nibble_tiles_def)
next
  fix ls :: "nat list" assume l: "length ls = 8" and v: "\<forall>v \<in> set ls. v < 16"
  then show "nibble_unlane (nibble_lane ls) = ls"
    using length8 [OF l] nibble_pair(1) by (auto simp: nibble_lane_def nibble_unlane_def upt4 shift_nibble)
  show "\<forall>b \<in> set (nibble_lane ls). b < 256"
    using length8 [OF l] v nibble_pair(2) by (auto simp: nibble_lane_def upt4 shift_nibble)
next
  fix ls :: "nat list" assume l: "length ls = 4" and b: "\<forall>b \<in> set ls. b < 256"
  then show "nibble_lane (nibble_unlane ls) = ls"
    using length4 [OF l] by (auto simp: nibble_lane_def nibble_unlane_def upt4 shift_nibble byte_halves)
  show "\<forall>v \<in> set (nibble_unlane ls). v < 16"
    using length4 [OF l] b by (auto simp: nibble_unlane_def upt4 byte_halves)
qed (auto simp: nibble_lane_def nibble_unlane_def upt4)

section \<open>Sparse indices\<close>

definition index_lane :: "nat list \<Rightarrow> nat list" where
  "index_lane ls = (let acc = gather 2 (map (\<lambda>v. v AND 3) ls) in [acc AND 255, take_bit 8 (drop_bit 8 acc)])"

definition index_unlane :: "nat list \<Rightarrow> nat list" where
  "index_unlane ls = map (\<lambda>m. take_bit 8 (drop_bit (m * 2) ((ls ! 0) OR push_bit 8 (ls ! 1)) AND 3)) [0..<8]"

lemma index_lane_digits: "\<forall>v \<in> set ls. v < 4 \<Longrightarrow> index_lane ls = digits 8 2 (gather 2 ls)"
  by (simp add: index_lane_def Let_def and_masks digits_pair take_bit_nat_eq_self cong: map_cong)

lemma index_unlane_digits: "length ls = 2 \<Longrightarrow> index_unlane ls = digits 2 8 (gather 8 ls)"
  using length2 [of ls] by (auto simp: index_unlane_def digits_def and_masks gather_pair)

interpretation index: lane_codec 8 2 pack_index_tiles expand_index_tiles index_lane index_unlane "\<lambda>v. v < 4"
proof unfold_locales
  fix xs :: "nat list" and t assume l: "length xs = t * (32 * 8)"
  have f: "(let acc = gather 2 (map (\<lambda>m. (tile ! (lane * 8 + m)) AND 3) [0..<8]) in [acc AND 255, take_bit 8 (drop_bit 8 acc)]) =
      index_lane (take 8 (drop (lane * 8) tile))" if "length tile = 32 * 8" "lane < 32" for tile lane
    unfolding index_lane_def lane_slice [OF that, of "\<lambda>v. v AND 3"] ..
  show "\<exists>lss. xs = concat lss \<and> length lss = t * 32 \<and> (\<forall>ls \<in> set lss. length ls = 8) \<and> pack_index_tiles xs = concat (map index_lane lss)"
    using lane_stream [where g = index_lane, OF _ l f] by (simp add: pack_index_tiles_def)
next
  fix xs :: "nat list" and t assume l: "length xs = t * (32 * 2)"
  have f: "(let base = lane * 2; acc = (tile ! base) OR push_bit 8 (tile ! (base + 1))
       in map (\<lambda>m. take_bit 8 (drop_bit (m * 2) acc AND 3)) [0..<8]) = index_unlane (take 2 (drop (lane * 2) tile))"
    if "length tile = 32 * 2" "lane < 32" for tile lane
    using that by (simp add: index_unlane_def Let_def)
  show "\<exists>lss. xs = concat lss \<and> length lss = t * 32 \<and> (\<forall>ls \<in> set lss. length ls = 2) \<and> expand_index_tiles xs = concat (map index_unlane lss)"
    using lane_stream [where g = index_unlane, OF _ l f] by (simp add: expand_index_tiles_def)
next
  fix ls :: "nat list" assume l: "length ls = 8" and v: "\<forall>v \<in> set ls. v < 4"
  then show "index_unlane (index_lane ls) = ls"
    using regroup [of 2 8 8 2 ls] by (simp add: index_lane_digits index_unlane_digits)
  show "\<forall>b \<in> set (index_lane ls). b < 256" using digits_lt [of _ 8] v by (auto simp: index_lane_digits)
next
  fix ls :: "nat list" assume l: "length ls = 2" and b: "\<forall>b \<in> set ls. b < 256"
  then show "index_lane (index_unlane ls) = ls"
    using regroup [of 8 2 2 8 ls] digits_lt [of _ 2 8] by (simp add: index_lane_digits index_unlane_digits)
  show "\<forall>v \<in> set (index_unlane ls). v < 4" using digits_lt [of _ 2 8] l by (auto simp: index_unlane_digits)
qed (auto simp: index_lane_def index_unlane_def Let_def)

section \<open>Bit planes\<close>

definition plane_lane :: "nat \<Rightarrow> nat list \<Rightarrow> nat list" where
  "plane_lane bits ls = digits 8 bits (gather bits ls)"

definition plane_unlane :: "nat \<Rightarrow> nat list \<Rightarrow> nat list" where
  "plane_unlane bits ls = digits bits 8 (gather 8 ls)"

lemma plane_codec:
  assumes w: "0 < bits" "bits \<le> 16"
  shows "lane_codec 8 bits (pack_plane_tiles bits bits) (expand_plane_tiles bits bits (32 * bits)) (plane_lane bits) (plane_unlane bits)
    (\<lambda>v. v < 2 ^ bits)"
proof unfold_locales
  fix xs :: "nat list" and t assume l: "length xs = t * (32 * 8)"
  have f: "(let acc = gather bits (map (\<lambda>j. tile ! (lane * 8 + j)) [0..<8]) in map (\<lambda>b. take_bit 8 (drop_bit (b * 8) acc)) [0..<bits]) =
      plane_lane bits (take 8 (drop (lane * 8) tile))" if "length tile = 32 * 8" "lane < 32" for tile lane
    unfolding plane_lane_def digits_def Let_def lane_slice_id [OF that] ..
  show "\<exists>lss. xs = concat lss \<and> length lss = t * 32 \<and> (\<forall>ls \<in> set lss. length ls = 8) \<and>
      pack_plane_tiles bits bits xs = concat (map (plane_lane bits) lss)"
    using lane_stream [where g = "plane_lane bits", OF _ l f] by (simp add: pack_plane_tiles_def)
next
  fix xs :: "nat list" and t assume l: "length xs = t * (32 * bits)"
  have f: "(let acc = gather 8 (map (\<lambda>b. tile ! (lane * bits + b)) [0..<bits])
       in map (\<lambda>j. take_bit 16 (drop_bit (j * bits) acc AND (2 ^ bits - 1))) [0..<8]) = plane_unlane bits (take bits (drop (lane * bits) tile))"
    if "length tile = 32 * bits" "lane < 32" for tile lane
    unfolding plane_unlane_def digits_def Let_def lane_slice_id [OF that] and_masks using w(2) by simp
  show "\<exists>lss. xs = concat lss \<and> length lss = t * 32 \<and> (\<forall>ls \<in> set lss. length ls = bits) \<and>
      expand_plane_tiles bits bits (32 * bits) xs = concat (map (plane_unlane bits) lss)"
    using lane_stream [where g = "plane_unlane bits", OF w(1) l f] by (simp add: expand_plane_tiles_def)
next
  fix ls :: "nat list" assume "length ls = 8" and "\<forall>v \<in> set ls. v < 2 ^ bits"
  then show "plane_unlane bits (plane_lane bits ls) = ls" using regroup [of bits 8 8 bits ls] w by (simp add: plane_lane_def plane_unlane_def)
next
  fix ls :: "nat list" assume "length ls = bits" and "\<forall>b \<in> set ls. b < 256"
  then show "plane_lane bits (plane_unlane bits ls) = ls" using regroup [of 8 bits bits 8 ls] w by (simp add: plane_lane_def plane_unlane_def)
qed (use w digits_lt [of _ 8] digits_lt [of _ bits] in \<open>auto simp: plane_lane_def plane_unlane_def\<close>)

section \<open>Packed tensors\<close>

lemma set_tiled_of: "dims_ok d \<Longrightarrow> length src = elems d \<Longrightarrow> set (tiled_of d src) = set src"
proof
  show sub: "set (tiled_of d src) \<subseteq> set src" if "dims_ok d" "length src = elems d" for src
    using that row_major_lt [OF cell_props(2)] by (auto simp: tiled_of_def)
  assume d: "dims_ok d" and l: "length src = elems d"
  have "set (rows_of d (tiled_of d src)) \<subseteq> set (tiled_of d src)"
    using fwd_lt [OF d] row_major_cell_of(1) by (force simp: rows_of_def [of d "tiled_of d src"] in_grid_def)
  then show "set src \<subseteq> set (tiled_of d src)" using rows_tiled [OF d l] by simp
qed

lemma rows_of_eq_iff:
  "dims_ok d \<Longrightarrow> length tiled = elems d \<Longrightarrow> length src = elems d \<Longrightarrow> rows_of d tiled = src \<longleftrightarrow> tiled = tiled_of d src"
  using rows_tiled tiled_rows by metis

lemma elems_lanes: "dims_ok d \<Longrightarrow> elems d = tile_count d * (32 * 8)"
  by (simp add: elems_tiles)

lemma packed_inverse:
  assumes codec: "lane_codec 8 e pack expand g h P" and d: "dims_ok d"
  shows "length src = elems d \<and> (\<forall>v \<in> set src. P v) \<and> bytes = pack (tiled_of d src) \<longleftrightarrow>
    length bytes = tile_count d * (32 * e) \<and> (\<forall>b \<in> set bytes. b < 256) \<and> src = rows_of d (expand bytes)"
    (is "?L \<longleftrightarrow> ?R")
proof
  assume l: ?L
  have len: "length (tiled_of d src) = tile_count d * (32 * 8)" by (simp add: elems_lanes [OF d])
  have P: "\<forall>v \<in> set (tiled_of d src). P v" using l set_tiled_of [OF d] by simp
  show ?R using l lane_codec.length_pack [OF codec len] lane_codec.pack_bytes [OF codec len P] lane_codec.expand_pack [OF codec len P]
      rows_tiled [OF d] by simp
next
  assume r: ?R
  then have len: "length bytes = tile_count d * (32 * e)" and b: "\<forall>b \<in> set bytes. b < 256" by simp_all
  have x: "length (expand bytes) = elems d" using lane_codec.length_expand [OF codec len] by (simp add: elems_lanes [OF d])
  have "tiled_of d src = expand bytes" using tiled_rows [OF d x] r by simp
  moreover have "set (expand bytes) = set src" using calculation set_tiled_of [OF d, of src] r by simp
  ultimately show ?L using lane_codec.pack_expand [OF codec len b] r by simp
qed

lemma l1_pack_nibbles_eq:
  "dims_ok d \<Longrightarrow> l1_pack_nibbles src d = Inr bytes \<longleftrightarrow>
     length src = elems d \<and> (\<forall>v \<in> set src. v < 16) \<and> bytes = pack_nibble_tiles (tiled_of d src)"
  by (auto simp: l1_pack_nibbles_def bind_r_eq_Inr total_elems_eq elems_tiles l1_pack_bytes_eq out_of_range_Nil split: if_splits)

lemma length_expand_nibbles:
  "dims_ok d \<Longrightarrow> length bytes = tile_count d * 128 \<Longrightarrow> length (expand_nibble_tiles bytes) = elems d"
  using nibble.length_expand [of bytes "tile_count d"] by (simp add: elems_tiles)

lemma l1_unpack_nibbles_eq:
  "dims_ok d \<Longrightarrow> l1_unpack_nibbles bytes d = Inr src \<longleftrightarrow>
     length bytes = tile_count d * 128 \<and> src = rows_of d (expand_nibble_tiles bytes)"
  by (auto simp: l1_unpack_nibbles_def bind_r_eq_Inr total_elems_eq elems_tiles l1_unpack_bytes_eq length_expand_nibbles split: if_splits)

lemma nibbles_inverse:
  assumes d: "dims_ok d"
  shows "l1_pack_nibbles src d = Inr bytes \<longleftrightarrow> l1_unpack_nibbles bytes d = Inr src \<and> (\<forall>b \<in> set bytes. b < 256)"
  using packed_inverse [OF nibble.lane_codec_axioms d, of src bytes] unfolding l1_pack_nibbles_eq [OF d] l1_unpack_nibbles_eq [OF d]
  by auto

lemma bit_planes_eq [simp]: "bit_planes bits = Inr p \<longleftrightarrow> bits \<in> {2, 3, 5, 6} \<and> p = BitPlanes bits"
  by (auto simp: bit_planes_def)

lemma plane_bytes: "bytes_per_lane (BitPlanes bits) = bits" "tile_bytes (BitPlanes bits) = 32 * bits"
  by (simp_all add: bytes_per_lane_def tile_bytes_def div_ceil_def)

lemma planes_inverse:
  assumes d: "dims_ok d"
  shows "l1_pack_planes src d bits = Inr bytes \<longleftrightarrow> l1_unpack_planes bytes d bits = Inr src \<and> (\<forall>b \<in> set bytes. b < 256)"
proof (cases "bits \<in> {2, 3, 5, 6}")
  case True
  then have codec: "lane_codec 8 bits (pack_plane_tiles bits bits) (expand_plane_tiles bits bits (32 * bits)) (plane_lane bits)
    (plane_unlane bits) (\<lambda>v. v < 2 ^ bits)" by (intro plane_codec) auto
  have "l1_pack_planes src d bits = Inr bytes \<longleftrightarrow>
      length src = elems d \<and> (\<forall>v \<in> set src. v < 2 ^ bits) \<and> bytes = pack_plane_tiles bits bits (tiled_of d src)"
    using True by (auto simp: l1_pack_planes_def bind_r_eq_Inr total_elems_eq l1_forward_elems_eq [OF d] out_of_range_Nil plane_bytes)
  moreover have "l1_unpack_planes bytes d bits = Inr src \<longleftrightarrow>
      length bytes = tile_count d * (32 * bits) \<and> src = rows_of d (expand_plane_tiles bits bits (32 * bits) bytes)"
    using True lane_codec.length_expand [OF codec, of bytes "tile_count d"]
    by (auto simp: l1_unpack_planes_def bind_r_eq_Inr plane_bytes l1_inverse_elems_eq [OF d] elems_lanes [OF d])
  ultimately show ?thesis using packed_inverse [OF codec d, of src bytes] by auto
qed (auto simp: l1_pack_planes_def l1_unpack_planes_def bind_r_eq_Inr)

lemma tile_count_small: "dims_ok d \<Longrightarrow> tile_count d * 256 < 2 ^ 64"
proof -
  assume d: "dims_ok d"
  have "pd_n_padded d * pd_k_padded d < 2 ^ 32 * 2 ^ 32" using d by (intro mult_strict_mono) (auto simp: dims_ok_def)
  then show ?thesis using elems_tiles [OF d] by (simp add: elems_def)
qed

lemma indices_inverse:
  assumes d: "dims_ok d"
  shows "l1s_pack_indices kept d = Inr bytes \<longleftrightarrow> l1s_unpack_indices bytes d = Inr kept \<and> (\<forall>b \<in> set bytes. b < 256)"
proof -
  have s: "tile_count d * 256 < 2 ^ 64" "tile_count d * 64 < 2 ^ 64" using tile_count_small [OF d] by simp_all
  have p: "l1s_pack_indices kept d = Inr bytes \<longleftrightarrow> length kept = tile_count d * (32 * 8) \<and> (\<forall>v \<in> set kept. v < 4) \<and> bytes = pack_index_tiles kept"
    using s by (auto simp: l1s_pack_indices_def bind_r_eq_Inr out_of_range_Nil simp del: power_numeral)
  have u: "l1s_unpack_indices bytes d = Inr kept \<longleftrightarrow> length bytes = tile_count d * (32 * 2) \<and> kept = expand_index_tiles bytes"
    using s by (auto simp: l1s_unpack_indices_def l1s_index_region_bytes_def bind_r_eq_Inr simp del: power_numeral)
  show ?thesis unfolding p u
    using index.expand_pack [of kept "tile_count d"] index.pack_bytes [of kept "tile_count d"] index.length_pack [of kept "tile_count d"]
      index.pack_expand [of bytes "tile_count d"] index.length_expand [of bytes "tile_count d"] by auto
qed

lemma le_bytes16:
  "v < 2 ^ 16 \<Longrightarrow> from_le_bytes16 (v mod 256) (v div 256 mod 256) = v"
  "lo < 256 \<Longrightarrow> hi < 256 \<Longrightarrow> to_le_bytes16 (from_le_bytes16 lo hi) = [lo, hi] \<and> from_le_bytes16 lo hi < 2 ^ 16"
  by (simp_all add: from_le_bytes16_def to_le_bytes16_def less_mult_imp_div_less)

lemma halfs_inverse:
  "encode_halfs_le xs = bytes \<and> (\<forall>v \<in> set xs. v < 2 ^ 16) \<longleftrightarrow> decode_halfs_le bytes = Inr xs \<and> (\<forall>b \<in> set bytes. b < 256)"
proof
  assume l: "encode_halfs_le xs = bytes \<and> (\<forall>v \<in> set xs. v < 2 ^ 16)"
  then have b: "bytes = concat (map to_le_bytes16 xs)" by (simp add: encode_halfs_le_def)
  have "chunks_exact 2 bytes = map to_le_bytes16 xs" unfolding b by (rule chunks_exact_concat) (auto simp: to_le_bytes16_def)
  moreover have "map (\<lambda>pair. from_le_bytes16 (pair ! 0) (pair ! 1)) (map to_le_bytes16 xs) = xs"
    using l by (auto simp: to_le_bytes16_def le_bytes16(1) intro!: map_idI)
  moreover have "length bytes = 2 * length xs" unfolding b by (simp add: length_concat comp_def to_le_bytes16_def sum_list_triv)
  ultimately show "decode_halfs_le bytes = Inr xs \<and> (\<forall>b \<in> set bytes. b < 256)"
    by (auto simp: decode_halfs_le_def b to_le_bytes16_def)
next
  assume r: "decode_halfs_le bytes = Inr xs \<and> (\<forall>b \<in> set bytes. b < 256)"
  then have "even (length bytes)" by (auto simp: decode_halfs_le_def split: if_splits)
  then obtain pss where pss: "bytes = concat pss" "\<forall>ps \<in> set pss. length ps = 2"
    using chunks_split [of 2 bytes "length bytes div 2"] by auto
  have "xs = map (\<lambda>pair. from_le_bytes16 (pair ! 0) (pair ! 1)) pss"
    using r pss chunks_exact_concat [of 2 pss] by (simp add: decode_halfs_le_def split: if_splits)
  moreover have "to_le_bytes16 (from_le_bytes16 (ps ! 0) (ps ! 1)) = ps \<and> from_le_bytes16 (ps ! 0) (ps ! 1) < 2 ^ 16" if "ps \<in> set pss" for ps
    using le_bytes16(2) [of "ps ! 0" "ps ! 1"] length2 [of ps] pss that r by (auto simp: nth_Cons')
  ultimately show "encode_halfs_le xs = bytes \<and> (\<forall>v \<in> set xs. v < 2 ^ 16)"
    by (auto simp: encode_halfs_le_def pss(1) intro!: arg_cong [of _ _ concat] map_idI)
qed

section \<open>Padding\<close>

definition padded_rows :: "padded_dims \<Rightarrow> nat list \<Rightarrow> nat list" where
  "padded_rows d src = map (\<lambda>i. let r = i div pd_k_padded d; c = i mod pd_k_padded d
     in if r < pd_n d \<and> c < pd_k d then src ! (r * pd_k d + c) else 0) [0..<elems d]"

lemma length_padded_rows [simp]: "length (padded_rows d src) = elems d"
  by (simp add: padded_rows_def)

lemma padded_rows_nth:
  "in_grid d (r, c) \<Longrightarrow> padded_rows d src ! row_major d (r, c) = (if r < pd_n d \<and> c < pd_k d then src ! (r * pd_k d + c) else 0)"
  using row_major_lt [of d "(r, c)"] by (simp add: padded_rows_def in_grid_def row_major_def mixed_div_mod)

lemma pad_row_major_elems_eq:
  assumes d: "dims_ok d"
  shows "pad_row_major_elems src n k d = Inr out \<longleftrightarrow>
    n = pd_n d \<and> k = pd_k d \<and> length src = n * k \<and> out = padded_rows d src"
proof -
  have "fold_r (\<lambda>(row, col) dst. bind_r (read_at src (row * k + col)) (\<lambda>v. write_at (row * pd_k_padded d + col) v dst))
      (grid n k) (replicate (elems d) 0) = Inr (padded_rows d src)" (is "?F = _")
    if n: "n = pd_n d" "k = pd_k d" and l: "length src = n * k"
  proof -
    have g: "in_grid d rc" "fst rc < n" "snd rc < k" if "rc \<in> set (grid n k)" for rc
      using that d n by (auto simp: set_grid in_grid_def dims_ok_def)
    let ?val = "\<lambda>rc. src ! (fst rc * k + snd rc)"
    have "?F = fold_r (\<lambda>rc dst. write_at (row_major d rc) (?val rc) dst) (grid n k) (replicate (elems d) 0)"
      by (rule fold_r_cong) (use g(2,3) l mixed_lt in \<open>force simp: row_major_def\<close>)
    moreover have inj: "inj_on (row_major d) (set (grid n k))" using g(1) row_major_inj by (intro inj_onI) blast
    obtain o' where o: "fold_r (\<lambda>rc dst. write_at (row_major d rc) (?val rc) dst) (grid n k) (replicate (elems d) 0) = Inr o'"
      "length o' = elems d" "\<forall>rc \<in> set (grid n k). o' ! row_major d rc = ?val rc"
      "\<forall>p. p \<notin> row_major d ` set (grid n k) \<longrightarrow> o' ! p = replicate (elems d) 0 ! p"
      using fold_write [OF inj set_grid(2), of "replicate (elems d) 0" ?val] g(1) row_major_lt by auto
    moreover have "o' = padded_rows d src"
    proof (rule nth_equalityI)
      fix i assume i: "i < length o'"
      let ?rc = "(i div pd_k_padded d, i mod pd_k_padded d)"
      note c = row_major_cell_of [of i d, OF i [unfolded o(2)]]
      show "o' ! i = padded_rows d src ! i"
      proof (cases "?rc \<in> set (grid n k)")
        case True
        then show ?thesis using o(3) padded_rows_nth [OF c(1), of src] c(2) n by (fastforce simp: set_grid)
      next
        case False
        then have "i \<notin> row_major d ` set (grid n k)" using row_major_inj [OF c(1)] g(1) c(2) by fastforce
        then show ?thesis using o(2,4) i padded_rows_nth [OF c(1), of src] c(2) n False by (auto simp: set_grid)
      qed
    qed (simp add: o(2))
    ultimately show ?thesis by simp
  qed
  then show ?thesis by (auto simp: pad_row_major_elems_def bind_r_eq_Inr total_elems_eq)
qed

lemma fold_r_collects:
  assumes "\<And>x ps. x \<in> set xs \<Longrightarrow> f x ps = Inr (ps @ q x)"
  shows "fold_r f xs ps = Inr (ps @ concat (map q xs))"
  using assms by (induction xs arbitrary: ps) simp_all

lemma verify_padding_zeros_eq:
  assumes d: "dims_ok d"
  shows "verify_padding_zeros_elems tiled d = Inr u \<longleftrightarrow> length tiled = elems d \<and>
    (\<forall>n k. in_grid d (n, k) \<longrightarrow> \<not> (n < pd_n d \<and> k < pd_k d) \<longrightarrow> tiled ! fwd d n k = 0)"
proof (cases "length tiled = elems d")
  case True
  let ?q = "\<lambda>(n, k). if n < pd_n d \<and> k < pd_k d \<or> tiled ! fwd d n k = 0 then [] else [PaddingNonzero n k (tiled ! fwd d n k)]"
  have "fold_r (\<lambda>(n, k) problems. if n < pd_n d \<and> k < pd_k d then Inr problems
           else bind_r (l1_forward_index n k d) (\<lambda>pos. bind_r (read_at tiled pos) (\<lambda>v.
               Inr (if v \<noteq> 0 then problems @ [PaddingNonzero n k v] else problems))))
         (grid (pd_n_padded d) (pd_k_padded d)) [] = Inr ([] @ concat (map ?q (grid (pd_n_padded d) (pd_k_padded d))))"
  proof (rule fold_r_collects, goal_cases)
    case (1 nk ps)
    then obtain n k where nk: "nk = (n, k)" "n < pd_n_padded d" "k < pd_k_padded d" unfolding set_grid by auto
    then have "l1_forward_index n k d = Inr (fwd d n k)" "read_at tiled (fwd d n k) = Inr (tiled ! fwd d n k)"
      using True fwd_lt [OF d] by (simp_all add: l1_forward_index_eq)
    then show ?case by (simp add: nk(1))
  qed
  then have "verify_padding_zeros_elems tiled d = Inr u \<longleftrightarrow> (\<forall>nk \<in> set (grid (pd_n_padded d) (pd_k_padded d)). ?q nk = [])"
    using True by (simp add: verify_padding_zeros_elems_def total_elems_eq bind_r_eq_Inr)
  moreover have "?q (n, k) = [] \<longleftrightarrow> n < pd_n d \<and> k < pd_k d \<or> tiled ! fwd d n k = 0" for n k by simp
  ultimately show ?thesis unfolding set_grid using True by (force simp: in_grid_def)
qed (simp add: verify_padding_zeros_elems_def bind_r_eq_Inr total_elems_eq)

end
