(* ===== verification/Fmt_Scheme.thy ===== *)
theory Fmt_Scheme
  imports Fmt_Lanes
begin

text \<open>
  Quantization schemes of \<open>crates/r9v-format/src/scheme.rs\<close>, the placement of their scale records (\<open>geometry.rs\<close>) and the
  sixteen-byte record of \<open>I4_K\<close> (\<open>records.rs\<close>).
\<close>

section \<open>Scheme ids\<close>

datatype scheme_id = I8R | I8B128 | I4K | E4M3B128 | I8B32F | I4B32F | I4B32FM | I5B32F | I5B32FM | I5K | I6K | I3K | I2K | I4Nl | I4Xs
  | Iq3Xxs | Iq3S | Iq2Xxs | Iq2Xs | Iq2S | Iq1S | Iq1M

definition scheme_all :: "scheme_id list" where
  "scheme_all = [I8R, I8B128, I4K, E4M3B128, I8B32F, I4B32F, I4B32FM, I5B32F, I5B32FM, I5K, I6K, I3K, I2K, I4Nl, I4Xs,
     Iq3Xxs, Iq3S, Iq2Xxs, Iq2Xs, Iq2S, Iq1S, Iq1M]"

definition scheme_code :: "scheme_id \<Rightarrow> nat" where
  "scheme_code s = (case s of I8R \<Rightarrow> 1 | I8B128 \<Rightarrow> 2 | I4K \<Rightarrow> 3 | E4M3B128 \<Rightarrow> 4 | I8B32F \<Rightarrow> 5 | I4B32F \<Rightarrow> 6 | I4B32FM \<Rightarrow> 7
     | I5B32F \<Rightarrow> 8 | I5B32FM \<Rightarrow> 9 | I5K \<Rightarrow> 10 | I6K \<Rightarrow> 11 | I3K \<Rightarrow> 12 | I2K \<Rightarrow> 13 | I4Nl \<Rightarrow> 14 | I4Xs \<Rightarrow> 15 | Iq3Xxs \<Rightarrow> 16
     | Iq3S \<Rightarrow> 17 | Iq2Xxs \<Rightarrow> 18 | Iq2Xs \<Rightarrow> 19 | Iq2S \<Rightarrow> 20 | Iq1S \<Rightarrow> 21 | Iq1M \<Rightarrow> 22)"

definition scheme_from_code :: "nat \<Rightarrow> scheme_id fmt_result" where
  "scheme_from_code c =
     (if c = 1 then Inr I8R else if c = 2 then Inr I8B128 else if c = 3 then Inr I4K else if c = 4 then Inr E4M3B128
      else if c = 5 then Inr I8B32F else if c = 6 then Inr I4B32F else if c = 7 then Inr I4B32FM else if c = 8 then Inr I5B32F
      else if c = 9 then Inr I5B32FM else if c = 10 then Inr I5K else if c = 11 then Inr I6K else if c = 12 then Inr I3K
      else if c = 13 then Inr I2K else if c = 14 then Inr I4Nl else if c = 15 then Inr I4Xs else if c = 16 then Inr Iq3Xxs
      else if c = 17 then Inr Iq3S else if c = 18 then Inr Iq2Xxs else if c = 19 then Inr Iq2Xs else if c = 20 then Inr Iq2S
      else if c = 21 then Inr Iq1S else if c = 22 then Inr Iq1M
      else Inl (UnknownScheme (UnknownCode c)))"

definition scheme_name :: "scheme_id \<Rightarrow> string" where
  "scheme_name s = (case s of I8R \<Rightarrow> ''i8_r'' | I8B128 \<Rightarrow> ''i8_b128'' | I4K \<Rightarrow> ''i4_k'' | E4M3B128 \<Rightarrow> ''e4m3_b128'' | I8B32F \<Rightarrow> ''i8_b32f''
     | I4B32F \<Rightarrow> ''i4_b32f'' | I4B32FM \<Rightarrow> ''i4_b32fm'' | I5B32F \<Rightarrow> ''i5_b32f'' | I5B32FM \<Rightarrow> ''i5_b32fm'' | I5K \<Rightarrow> ''i5_k'' | I6K \<Rightarrow> ''i6_k''
     | I3K \<Rightarrow> ''i3_k'' | I2K \<Rightarrow> ''i2_k'' | I4Nl \<Rightarrow> ''i4_nl'' | I4Xs \<Rightarrow> ''i4_xs'' | Iq3Xxs \<Rightarrow> ''iq3_xxs'' | Iq3S \<Rightarrow> ''iq3_s''
     | Iq2Xxs \<Rightarrow> ''iq2_xxs'' | Iq2Xs \<Rightarrow> ''iq2_xs'' | Iq2S \<Rightarrow> ''iq2_s'' | Iq1S \<Rightarrow> ''iq1_s'' | Iq1M \<Rightarrow> ''iq1_m'')"

definition scheme_from_name :: "string \<Rightarrow> scheme_id fmt_result" where
  "scheme_from_name s =
     (if s = ''i8_r'' then Inr I8R else if s = ''i8_b128'' then Inr I8B128 else if s = ''i4_k'' then Inr I4K
      else if s = ''e4m3_b128'' then Inr E4M3B128 else if s = ''i8_b32f'' then Inr I8B32F else if s = ''i4_b32f'' then Inr I4B32F
      else if s = ''i4_b32fm'' then Inr I4B32FM else if s = ''i5_b32f'' then Inr I5B32F else if s = ''i5_b32fm'' then Inr I5B32FM
      else if s = ''i5_k'' then Inr I5K else if s = ''i6_k'' then Inr I6K else if s = ''i3_k'' then Inr I3K
      else if s = ''i2_k'' then Inr I2K else if s = ''i4_nl'' then Inr I4Nl else if s = ''i4_xs'' then Inr I4Xs
      else if s = ''iq3_xxs'' then Inr Iq3Xxs else if s = ''iq3_s'' then Inr Iq3S else if s = ''iq2_xxs'' then Inr Iq2Xxs
      else if s = ''iq2_xs'' then Inr Iq2Xs else if s = ''iq2_s'' then Inr Iq2S else if s = ''iq1_s'' then Inr Iq1S
      else if s = ''iq1_m'' then Inr Iq1M
      else Inl (UnknownScheme (UnknownName s)))"

definition scheme_to_ir :: "scheme_id \<Rightarrow> nat" where "scheme_to_ir s = scheme_code s"
definition scheme_from_ir :: "nat \<Rightarrow> scheme_id fmt_result" where "scheme_from_ir i = scheme_from_code i"

definition is_native :: "scheme_id \<Rightarrow> bool" where
  "is_native s \<longleftrightarrow> s \<in> {I8R, I8B128, I4K, E4M3B128}"

definition owner_card :: "scheme_id \<Rightarrow> string" where
  "owner_card s = (if s \<in> {I8R, I8B128, I4K, E4M3B128} then ''A2.2''
     else if s \<in> {I8B32F, I4B32F, I4B32FM, I5B32F, I5B32FM, I5K, I6K, I3K, I2K} then ''A2.3'' else ''A2.4'')"

datatype native_scheme = N_I8R | N_I8B128 | N_I4K | N_E4M3B128

definition as_native :: "scheme_id \<Rightarrow> native_scheme fmt_result" where
  "as_native s = (case s of I8R \<Rightarrow> Inr N_I8R | I8B128 \<Rightarrow> Inr N_I8B128 | I4K \<Rightarrow> Inr N_I4K | E4M3B128 \<Rightarrow> Inr N_E4M3B128
     | _ \<Rightarrow> Inl (ReservedScheme (scheme_name s) (owner_card s)))"

definition bits_per_weight :: "scheme_id \<Rightarrow> nat \<Rightarrow> (nat \<times> nat) fmt_result" where
  "bits_per_weight s k = bind_r (as_native s) (\<lambda>native. case native of
       N_I8R \<Rightarrow>
         if k = 0 then Inl (InvalidDim ''k'' 0 ''must be at least 1'')
         else bind_r (ok_or (Overflow ''i8_r bits_per_weight'') (Option.bind (checked_mul 64 k 8) (\<lambda>v. checked_add 64 v 16))) (\<lambda>bits.
           Inr (bits, k))
     | N_I4K \<Rightarrow>
         if k = 0 \<or> k mod 256 \<noteq> 0 then Inl (InvalidBlock ''k'' k ''must be a nonzero multiple of 256'')
         else bind_r (ok_or (Overflow ''i4_k bits_per_weight'') (checked_mul 64 (k div 256) 1152)) (\<lambda>bits. Inr (bits, k))
     | _ \<Rightarrow>
         if k = 0 \<or> k mod 128 \<noteq> 0 then Inl (InvalidBlock ''k'' k ''must be a nonzero multiple of 128'')
         else bind_r (ok_or (Overflow ''b128 bits_per_weight'') (checked_mul 64 (k div 128) 1040)) (\<lambda>bits. Inr (bits, k)))"

section \<open>Scale geometry\<close>

definition scale_record_bytes :: "scheme_id \<Rightarrow> nat fmt_result" where
  "scale_record_bytes s = bind_r (as_native s) (\<lambda>native. Inr (case native of N_I4K \<Rightarrow> 16 | _ \<Rightarrow> 2))"

definition outer_block :: "scheme_id \<Rightarrow> nat option fmt_result" where
  "outer_block s = bind_r (as_native s) (\<lambda>native. Inr (case native of N_I8R \<Rightarrow> None | N_I4K \<Rightarrow> Some 256 | _ \<Rightarrow> Some 128))"

record scale_geometry =
  sg_scheme :: scheme_id
  sg_n_blocks :: nat
  sg_k_blocks :: nat
  sg_record_bytes :: nat
  sg_records :: nat
  sg_region_bytes :: nat

definition record_offset :: "scale_geometry \<Rightarrow> nat \<Rightarrow> nat \<Rightarrow> nat \<Rightarrow> nat fmt_result" where
  "record_offset g nb kb row =
     bind_r (collect
       ((if nb \<ge> sg_n_blocks g then [InvalidDim ''nb'' nb ''must be below the row-block count''] else []) @
        (if kb \<ge> sg_k_blocks g then [InvalidDim ''kb'' kb ''must be below the K-block count''] else []) @
        (if row \<ge> TILE_N then [InvalidDim ''row'' row ''must be below 16''] else []))) (\<lambda>_.
     ok_or (Overflow ''scale record_offset'')
       (Option.bind (checked_mul 64 nb (sg_k_blocks g)) (\<lambda>v.
        Option.bind (checked_add 64 v kb) (\<lambda>v.
        Option.bind (checked_mul 64 v TILE_N) (\<lambda>v.
        Option.bind (checked_add 64 v row) (\<lambda>v.
          checked_mul 64 v (sg_record_bytes g)))))))"

definition scale_geometry_of :: "scheme_id \<Rightarrow> layout \<Rightarrow> padded_dims \<Rightarrow> scale_geometry fmt_result" where
  "scale_geometry_of s l d =
     (if l = Lay_L0 then Inl (UnsupportedLayout (scheme_name s) (layout_name l))
      else bind_r (scale_record_bytes s) (\<lambda>record_bytes.
        bind_r (outer_block s) (\<lambda>ob.
        let block = (case ob of Some b \<Rightarrow> b | None \<Rightarrow> pd_k_padded d)
        in bind_r (scale_block_counts d block) (\<lambda>(n_blocks, k_blocks).
        bind_r (scale_record_count n_blocks k_blocks) (\<lambda>records.
        bind_r (scale_region_bytes records record_bytes) (\<lambda>region_bytes.
          Inr \<lparr>sg_scheme = s, sg_n_blocks = n_blocks, sg_k_blocks = k_blocks, sg_record_bytes = record_bytes,
               sg_records = records, sg_region_bytes = region_bytes\<rparr>))))))"

section \<open>The sixteen-byte record\<close>

record i4k_superblock =
  sb_d :: nat
  sb_dmin :: nat
  sb_sc :: "nat list"
  sb_mn :: "nat list"

definition i4k_pack :: "nat \<Rightarrow> nat \<Rightarrow> nat list \<Rightarrow> nat list \<Rightarrow> i4k_superblock fmt_result" where
  "i4k_pack d dmin sc mn =
     bind_r (collect (out_of_range ''i4_k scale'' 64 sc @ out_of_range ''i4_k min'' 64 mn)) (\<lambda>_.
       Inr \<lparr>sb_d = d, sb_dmin = dmin, sb_sc = sc, sb_mn = mn\<rparr>)"

definition i4k_from_bytes :: "nat list \<Rightarrow> i4k_superblock" where
  "i4k_from_bytes bytes =
     (let q = drop 4 bytes
      in \<lparr>sb_d = from_le_bytes16 (bytes ! 0) (bytes ! 1),
          sb_dmin = from_le_bytes16 (bytes ! 2) (bytes ! 3),
          sb_sc = map (\<lambda>j. if j < 4 then (q ! j) AND 63
                           else ((q ! (j + 4)) AND 15) OR take_bit 8 (push_bit 4 (drop_bit 6 (q ! (j - 4))))) [0..<8],
          sb_mn = map (\<lambda>j. if j < 4 then (q ! (j + 4)) AND 63
                           else drop_bit 4 (q ! (j + 4)) OR take_bit 8 (push_bit 4 (drop_bit 6 (q ! j)))) [0..<8]\<rparr>)"

definition i4k_to_bytes :: "i4k_superblock \<Rightarrow> nat list" where
  "i4k_to_bytes r =
     (let sc = sb_sc r; mn = sb_mn r
      in to_le_bytes16 (sb_d r) @ to_le_bytes16 (sb_dmin r) @
         map (\<lambda>j. (sc ! j) OR take_bit 8 (push_bit 6 (drop_bit 4 (sc ! (j + 4))))) [0..<4] @
         map (\<lambda>j. (mn ! j) OR take_bit 8 (push_bit 6 (drop_bit 4 (mn ! (j + 4))))) [0..<4] @
         map (\<lambda>j. ((sc ! j) AND 15) OR take_bit 8 (push_bit 4 ((mn ! j) AND 15))) [4..<8])"

section \<open>Codes and names\<close>

lemma scheme_code_inverse: "scheme_from_code c = Inr s \<longleftrightarrow> scheme_code s = c"
  by (cases s) (auto simp: scheme_from_code_def scheme_code_def)

lemma scheme_name_inverse: "scheme_from_name n = Inr s \<longleftrightarrow> scheme_name s = n"
  by (cases s) (auto simp: scheme_from_name_def scheme_name_def)

lemma layout_code_inverse: "layout_from_code c = Inr l \<longleftrightarrow> layout_code l = c" "layout_from_name n = Inr l \<longleftrightarrow> layout_name l = n"
  by (cases l; auto simp: layout_from_code_def layout_code_def layout_from_name_def layout_name_def)+

lemma scheme_all_code: "map scheme_code scheme_all = [1..<23]" "s \<in> set scheme_all"
  by (simp_all add: scheme_all_def scheme_code_def upt_rec) (cases s; simp)

lemma as_native_Inr: "(\<exists>n. as_native s = Inr n) \<longleftrightarrow> is_native s"
  by (cases s) (auto simp: as_native_def is_native_def)

section \<open>Records lie side by side\<close>

lemma scale_geometry_eq:
  assumes d: "dims_ok d" and g: "scale_geometry_of s l d = Inr g"
  shows "sg_records g = sg_n_blocks g * sg_k_blocks g * 16" "sg_region_bytes g = sg_records g * sg_record_bytes g"
    "sg_region_bytes g < 2 ^ 64" "sg_record_bytes g \<in> {2, 16}" "sg_n_blocks g = n_tiles d" "sg_scheme g = s" "is_native s"
  using g as_native_Inr [of s]
  by (auto simp: scale_geometry_of_def scale_record_bytes_def scale_block_counts_def scale_record_count_def scale_region_bytes_def
      bind_r_eq_Inr Let_def Option.bind_eq_Some_conv split: if_splits native_scheme.splits option.splits simp del: power_numeral)

lemma record_offset_eq:
  assumes d: "dims_ok d" and g: "scale_geometry_of s l d = Inr g"
  shows "record_offset g nb kb row = Inr off \<longleftrightarrow> nb < sg_n_blocks g \<and> kb < sg_k_blocks g \<and> row < 16 \<and>
    off = ((nb * sg_k_blocks g + kb) * 16 + row) * sg_record_bytes g"
proof -
  note e = scale_geometry_eq [OF d g]
  let ?i = "(nb * sg_k_blocks g + kb) * 16 + row"
  have lim: "nb * sg_k_blocks g + kb < 2 ^ 64 \<and> ?i < 2 ^ 64 \<and> ?i * sg_record_bytes g < 2 ^ 64"
    if r: "nb < sg_n_blocks g" "kb < sg_k_blocks g" "row < 16"
  proof -
    have "?i < sg_records g" unfolding e(1) by (intro mixed_lt r)
    moreover have "0 < sg_record_bytes g" using e(4) by auto
    ultimately have "?i * sg_record_bytes g < sg_region_bytes g" unfolding e(2) by simp
    then have *: "?i * sg_record_bytes g < 2 ^ 64" using e(3) by linarith
    moreover have "?i \<le> ?i * sg_record_bytes g" using \<open>0 < sg_record_bytes g\<close> by simp
    ultimately have i: "?i < 2 ^ 64" by linarith
    then have "nb * sg_k_blocks g + kb < 2 ^ 64" by (simp del: power_numeral)
    then show ?thesis using i * by blast
  qed
  show ?thesis
  proof (cases "nb < sg_n_blocks g \<and> kb < sg_k_blocks g \<and> row < 16")
    case True
    then show ?thesis using lim
      by (auto simp: record_offset_def bind_r_eq_Inr Option.bind_eq_Some_conv simp del: power_numeral)
  qed (auto simp: record_offset_def bind_r_eq_Inr)
qed

section \<open>The record round trip\<close>

lemma join_bits:
  assumes "x < 2 ^ n"
  shows "take_bit n (x OR push_bit n y) = (x::nat)" "drop_bit n (x OR push_bit n y) = y"
proof -
  show "take_bit n (x OR push_bit n y) = x"
    using bit_below [OF assms] by (auto intro!: bit_eqI simp: bit_take_bit_iff bit_or_iff bit_push_bit_iff)
  show "drop_bit n (x OR push_bit n y) = y"
    using bit_below [OF assms] by (fastforce intro!: bit_eqI simp: bit_drop_bit_eq bit_or_iff bit_push_bit_iff)
qed

lemma or_lt: "x < 2 ^ n \<Longrightarrow> y < 2 ^ n \<Longrightarrow> x OR y < (2::nat) ^ n"
  by (metis take_bit_nat_eq_self take_bit_nat_eq_self_iff take_bit_or)

lemma split_bits: "take_bit n v OR push_bit n (drop_bit n v) = (v::nat)"
proof (rule bit_eqI)
  show "bit (take_bit n v OR push_bit n (drop_bit n v)) i = bit v i" for i
    by (cases "i < n") (auto simp: bit_or_iff bit_take_bit_iff bit_push_bit_iff bit_drop_bit_eq)
qed

lemma drop_bit_lt: "v < 2 ^ (n + m) \<Longrightarrow> drop_bit n v < (2::nat) ^ m"
  by (simp add: drop_bit_eq_div less_mult_imp_div_less power_add mult.commute)

lemma push_bit_lt: "v < 2 ^ m \<Longrightarrow> push_bit n v < (2::nat) ^ (n + m)"
  by (simp add: push_bit_eq_mult power_add mult.commute)

lemma and_63: "(v::nat) AND 63 = take_bit 6 v"
  using and_masks(4) [of v 6] by simp

lemma and_63_lt: "(v::nat) AND 63 < 64"
  unfolding and_63 using take_bit_nat_less_exp [of 6 v] by simp

lemma i4k_shifts:
  assumes "b < 64"
  shows "take_bit 8 (push_bit 6 (drop_bit 4 b)) = push_bit 6 (drop_bit 4 (b::nat))" "take_bit 8 (push_bit 4 (b AND 15)) = push_bit 4 (b AND 15)"
    "take_bit 8 (push_bit 4 (drop_bit 4 b)) = push_bit 4 (drop_bit 4 b)" "(b AND 15) OR push_bit 4 (drop_bit 4 b) = b"
proof -
  have b: "drop_bit 4 b < 2 ^ 2" using drop_bit_lt [of b 4 2] assms by simp
  have c: "b AND 15 < 2 ^ 4" unfolding and_masks by (rule take_bit_nat_less_exp)
  have p: "push_bit 6 (drop_bit 4 b) < 2 ^ 8" "push_bit 4 (b AND 15) < 2 ^ 8" "push_bit 4 (drop_bit 4 b) < 2 ^ 8"
    using push_bit_lt [OF b, of 6] push_bit_lt [OF c, of 4] push_bit_lt [OF b, of 4] by simp_all
  show "take_bit 8 (push_bit 6 (drop_bit 4 b)) = push_bit 6 (drop_bit 4 b)" "take_bit 8 (push_bit 4 (b AND 15)) = push_bit 4 (b AND 15)"
    "take_bit 8 (push_bit 4 (drop_bit 4 b)) = push_bit 4 (drop_bit 4 b)" by (rule take_bit_nat_eq_self, rule p)+
  show "(b AND 15) OR push_bit 4 (drop_bit 4 b) = b" unfolding and_masks by (rule split_bits)
qed

definition i4k_ok :: "i4k_superblock \<Rightarrow> bool" where
  "i4k_ok r \<longleftrightarrow> sb_d r < 2 ^ 16 \<and> sb_dmin r < 2 ^ 16 \<and> length (sb_sc r) = 8 \<and> length (sb_mn r) = 8 \<and>
     (\<forall>v \<in> set (sb_sc r). v < 64) \<and> (\<forall>v \<in> set (sb_mn r). v < 64)"

lemma upt48: "[4..<8] = [4, 5, 6, 7::nat]"
  by (simp add: upt_rec)

lemma field_back:
  shows "a < 64 \<Longrightarrow> (a OR push_bit 6 (drop_bit 4 b)) AND 63 = (a::nat)" "a < 64 \<Longrightarrow> drop_bit 6 (a OR push_bit 6 (drop_bit 4 b)) = drop_bit 4 (b::nat)"
    "((b AND 15) OR push_bit 4 (c AND 15)) AND 15 = b AND (15::nat)" "drop_bit 4 ((b AND 15) OR push_bit 4 (c AND 15)) = c AND (15::nat)"
proof -
  have b: "b AND 15 < 2 ^ 4" unfolding and_masks by (rule take_bit_nat_less_exp)
  show "(a OR push_bit 6 (drop_bit 4 b)) AND 63 = a" "drop_bit 6 (a OR push_bit 6 (drop_bit 4 b)) = drop_bit 4 b" if "a < 64"
    unfolding and_63 using that by (intro join_bits; simp)+
  show "((b AND 15) OR push_bit 4 (c AND 15)) AND 15 = b AND 15" "drop_bit 4 ((b AND 15) OR push_bit 4 (c AND 15)) = c AND 15"
    using join_bits [OF b] unfolding and_masks by blast+
qed

lemma i4k_from_to:
  assumes "i4k_ok r"
  shows "i4k_from_bytes (i4k_to_bytes r) = r"
proof -
  obtain d dmin sc mn where r: "r = \<lparr>sb_d = d, sb_dmin = dmin, sb_sc = sc, sb_mn = mn\<rparr>" by (cases r)
  obtain a0 a1 a2 a3 a4 a5 a6 a7 where sc: "sc = [a0, a1, a2, a3, a4, a5, a6, a7]" using length8 [of sc] assms r by (auto simp: i4k_ok_def)
  obtain b0 b1 b2 b3 b4 b5 b6 b7 where mn: "mn = [b0, b1, b2, b3, b4, b5, b6, b7]" using length8 [of mn] assms r by (auto simp: i4k_ok_def)
  show ?thesis using assms unfolding r sc mn
    by (simp add: i4k_ok_def i4k_to_bytes_def i4k_from_bytes_def upt4 upt48 to_le_bytes16_def le_bytes16(1) i4k_shifts field_back Let_def
        del: take_bit_or take_bit_and drop_bit_or drop_bit_and push_bit_or push_bit_and)
qed

lemma length16: "length ls = 16 \<Longrightarrow> \<exists>a b c d e f g h i j k l m n p q. ls = [a, b, c, d, e, f, g, h, i, j, k, l, m, n, p, q]"
  by (auto simp: length_Suc_conv numeral_eq_Suc)

lemma byte_shifts:
  assumes "x < 256"
  shows "take_bit 8 (push_bit 4 (drop_bit 6 x)) = push_bit 4 (drop_bit 6 (x::nat))"
    "take_bit 8 (push_bit 6 (drop_bit 6 x)) = push_bit 6 (drop_bit 6 x)" "take_bit 8 (push_bit 4 (drop_bit 4 x)) = push_bit 4 (drop_bit 4 x)"
    "(x AND 63) OR push_bit 6 (drop_bit 6 x) = x"
proof -
  have y: "drop_bit 6 x < 2 ^ 2" "drop_bit 4 x < 2 ^ 4" using drop_bit_lt [of x 6 2] drop_bit_lt [of x 4 4] assms by simp_all
  have p: "push_bit 4 (drop_bit 6 x) < 2 ^ 8" "push_bit 6 (drop_bit 6 x) < 2 ^ 8" "push_bit 4 (drop_bit 4 x) < 2 ^ 8"
    using push_bit_lt [OF y(1), of 4] push_bit_lt [OF y(1), of 6] push_bit_lt [OF y(2), of 4] by simp_all
  show "take_bit 8 (push_bit 4 (drop_bit 6 x)) = push_bit 4 (drop_bit 6 x)" "take_bit 8 (push_bit 6 (drop_bit 6 x)) = push_bit 6 (drop_bit 6 x)"
    "take_bit 8 (push_bit 4 (drop_bit 4 x)) = push_bit 4 (drop_bit 4 x)" by (rule take_bit_nat_eq_self, rule p)+
  show "(x AND 63) OR push_bit 6 (drop_bit 6 x) = x" unfolding and_63 by (rule split_bits)
qed

lemma byte_fields:
  assumes "x < 256" and "y < 256"
  shows "(x AND 15) OR push_bit 4 (drop_bit 6 y) < (64::nat)" "drop_bit 4 x OR push_bit 4 (drop_bit 6 y) < (64::nat)"
    "((x AND 15) OR push_bit 4 (drop_bit 6 y)) AND 15 = (x AND 15::nat)" "drop_bit 4 ((x AND 15) OR push_bit 4 (drop_bit 6 y)) = drop_bit 6 y"
    "(drop_bit 4 x OR push_bit 4 (drop_bit 6 y)) AND 15 = drop_bit 4 x" "drop_bit 4 (drop_bit 4 x OR push_bit 4 (drop_bit 6 y)) = drop_bit 6 y"
proof -
  have y: "drop_bit 6 y < 2 ^ 2" using drop_bit_lt [of y 6 2] assms(2) by simp
  have x: "drop_bit 4 x < 2 ^ 4" "x AND 15 < 2 ^ 4" using drop_bit_lt [of x 4 4] assms(1) take_bit_nat_less_exp [of 4 x] by (simp_all add: and_masks)
  have p: "push_bit 4 (drop_bit 6 y) < 2 ^ 6" using push_bit_lt [OF y, of 4] by simp
  show "(x AND 15) OR push_bit 4 (drop_bit 6 y) < 64" "drop_bit 4 x OR push_bit 4 (drop_bit 6 y) < 64"
    using or_lt [of _ 6 "push_bit 4 (drop_bit 6 y)"] p x by simp_all
  show "((x AND 15) OR push_bit 4 (drop_bit 6 y)) AND 15 = x AND 15" "drop_bit 4 ((x AND 15) OR push_bit 4 (drop_bit 6 y)) = drop_bit 6 y"
    using join_bits [OF x(2), of "drop_bit 6 y"] by (simp_all add: and_masks)
  show "(drop_bit 4 x OR push_bit 4 (drop_bit 6 y)) AND 15 = drop_bit 4 x" "drop_bit 4 (drop_bit 4 x OR push_bit 4 (drop_bit 6 y)) = drop_bit 6 y"
    using join_bits [OF x(1), of "drop_bit 6 y"] by (simp_all add: and_masks)
qed

lemma i4k_to_from:
  assumes l: "length bytes = 16" and b: "\<forall>b \<in> set bytes. b < 256"
  shows "i4k_to_bytes (i4k_from_bytes bytes) = bytes" "i4k_ok (i4k_from_bytes bytes)"
proof -
  obtain c0 c1 c2 c3 q0 q1 q2 q3 q4 q5 q6 q7 q8 q9 q10 q11 where
    e: "bytes = [c0, c1, c2, c3, q0, q1, q2, q3, q4, q5, q6, q7, q8, q9, q10, q11]" using length16 [OF l] by blast
  note lt = b [unfolded e]
  show "i4k_to_bytes (i4k_from_bytes bytes) = bytes" using lt unfolding e
    by (simp add: i4k_to_bytes_def i4k_from_bytes_def upt4 upt48 le_bytes16(2) byte_shifts byte_fields byte_halves Let_def
        del: take_bit_or take_bit_and drop_bit_or drop_bit_and push_bit_or push_bit_and)
  show "i4k_ok (i4k_from_bytes bytes)" using lt unfolding e
    by (simp add: i4k_ok_def i4k_from_bytes_def upt4 le_bytes16(2) [THEN conjunct2, simplified] byte_shifts byte_fields and_63_lt Let_def
        del: take_bit_or take_bit_and drop_bit_or drop_bit_and push_bit_or push_bit_and)
qed

end
