(* ===== verification/Fmt_Scales.thy ===== *)
theory Fmt_Scales
  imports Fmt_Scheme F32
begin

text \<open>
  Scale and value codecs of \<open>crates/r9v-format/src/scales.rs\<close> and the reference dequantization of \<open>decode.rs\<close>. An \<open>f16\<close> is its
  sixteen bits and an \<open>f32\<close> its thirty-two, as \<open>to_bits\<close> gives them; arithmetic on them is that of the theory of binary32 numbers.
  The projection \<open>E4m3::from_f32\<close> is not modelled: it compares distances in binary64.
\<close>

section \<open>Bit patterns\<close>

definition f32_of_bits :: "nat \<Rightarrow> f32" where
  "f32_of_bits x =
     (let neg = bit x 31; exp = drop_bit 23 x AND 255; mant = x AND (2 ^ 23 - 1)
      in if exp = 255 then (if mant = 0 then F32_Inf neg else F32_NaN)
         else if exp = 0 then F32_Fin neg mant (-149) else F32_Fin neg (2 ^ 23 + mant) (int exp - 150))"

definition f32_of_int :: "int \<Rightarrow> f32" where
  "f32_of_int q = (if q < 0 then f32_neg (f32_of_nat (nat (- q))) else f32_of_nat (nat q))"

text \<open>
  The loop \<open>while m & lead == 0 { m <<= 1; e -= 1 }\<close>. It is entered with a nonzero \<open>m\<close> below \<open>lead\<close>, a power of two, where the
  masked bit is zero exactly when \<open>m\<close> is below \<open>lead\<close>.
\<close>

function renorm :: "nat \<Rightarrow> nat \<Rightarrow> int \<Rightarrow> nat \<times> int" where
  "renorm lead m e = (if m = 0 \<or> lead \<le> m then (m, e) else renorm lead (2 * m) (e - 1))"
  by pat_completeness auto
termination
  by (relation "measure (\<lambda>(lead, m, e). lead - m)") auto

declare renorm.simps [simp del]

definition f16_to_f32 :: "nat \<Rightarrow> nat" where
  "f16_to_f32 bits =
     (let sign = push_bit 16 (bits AND 0x8000); exp = drop_bit 10 bits AND 0x1F; mant = bits AND 0x3FF
      in if exp = 0 then
           (if mant = 0 then sign
            else let (m, e) = renorm 0x400 mant 1 in sign OR push_bit 23 (nat (e + 112)) OR push_bit 13 (m AND 0x3FF))
         else if exp = 31 then sign OR 0x7F800000 OR push_bit 13 mant
         else sign OR push_bit 23 (exp + 112) OR push_bit 13 mant)"

definition f32_to_f16_bits :: "nat \<Rightarrow> nat" where
  "f32_to_f16_bits x =
     (let exp = drop_bit 23 x AND 0xFF; mant = x AND 0x7FFFFF; sgn = drop_bit 16 x AND 0x8000
      in if exp = 0xFF then (if mant = 0 then sgn OR 0x7C00 else sgn OR 0x7E00)
         else let e = int exp - 112
         in if e \<ge> 31 then sgn OR 0x7C00
            else if e \<le> 0 then
              (if e < -10 then sgn
               else let mant_full = mant OR 0x800000; shift = nat (14 - e); kept = drop_bit shift mant_full;
                        rest = mant_full AND (2 ^ shift - 1); half = 2 ^ (shift - 1);
                        rounded = (if rest > half \<or> rest = half \<and> kept AND 1 = 1 then kept + 1 else kept)
                    in sgn OR (rounded AND 0x3FF))
            else
              let kept = drop_bit 13 mant; rest = mant AND 0x1FFF
              in if rest > 0x1000 \<or> rest = 0x1000 \<and> kept AND 1 = 1 then
                   (if kept + 1 = 0x400 then
                      (if e + 1 \<ge> 31 then sgn OR 0x7C00 else sgn OR push_bit 10 (nat (e + 1)) OR 0)
                    else sgn OR push_bit 10 (nat e) OR (kept + 1))
                 else sgn OR push_bit 10 (nat e) OR kept)"

definition check_f32_scale :: "string \<Rightarrow> nat \<Rightarrow> nat \<Rightarrow> nat fmt_result" where
  "check_f32_scale scheme record_ix x =
     (case f32_of_bits x of
        F32_NaN \<Rightarrow> Inl (InvalidScale scheme record_ix x ''nan'')
      | F32_Inf _ \<Rightarrow> Inl (InvalidScale scheme record_ix x ''infinite'')
      | v \<Rightarrow> if f32_less v f32_zero then Inl (InvalidScale scheme record_ix x ''negative'') else Inr x)"

definition f16_scale_bits :: "nat \<Rightarrow> string \<Rightarrow> nat \<Rightarrow> nat fmt_result" where
  "f16_scale_bits x scheme record_ix =
     bind_r (check_f32_scale scheme record_ix x) (\<lambda>_.
       let bits = f32_to_f16_bits x
       in if bits AND 0x7FFF = 0x7C00 then Inl (InvalidScale scheme record_ix x ''unrepresentable_in_f16'') else Inr bits)"

definition check_f16_scale :: "string \<Rightarrow> nat \<Rightarrow> nat \<Rightarrow> nat fmt_result" where
  "check_f16_scale scheme record_ix bits = check_f32_scale scheme record_ix (f16_to_f32 bits)"

definition e4m3_is_nan :: "nat \<Rightarrow> bool" where
  "e4m3_is_nan b \<longleftrightarrow> b AND 0x7F = 0x7F"

definition e4m3_check :: "nat \<Rightarrow> nat \<Rightarrow> nat fmt_result" where
  "e4m3_check b position = (if e4m3_is_nan b then Inl (ValueOutOfRange ''e4m3'' position b) else Inr b)"

definition e4m3_to_f32 :: "nat \<Rightarrow> nat" where
  "e4m3_to_f32 b =
     (let sign = push_bit 24 (b AND 0x80); exp = drop_bit 3 b AND 0xF; mant = b AND 7
      in if exp = 0 then
           (if mant = 0 then sign
            else let (m, e) = renorm 8 mant 1 in sign OR push_bit 23 (nat (e + 120)) OR push_bit 20 (m AND 7))
         else if exp = 15 then
           (if mant = 7 then sign OR 0x7FC00000 else sign OR push_bit 23 135 OR push_bit 20 mant)
         else sign OR push_bit 23 (exp + 120) OR push_bit 20 mant)"

section \<open>Scale records\<close>

definition i8_row_scale_value :: "nat \<Rightarrow> nat \<Rightarrow> nat fmt_result" where
  "i8_row_scale_value bits record_ix = check_f16_scale (scheme_name I8R) record_ix bits"

definition i8_block128_scale_value :: "nat \<Rightarrow> nat \<Rightarrow> nat fmt_result" where
  "i8_block128_scale_value bits record_ix = check_f16_scale (scheme_name I8B128) record_ix bits"

definition e4m3_block128_scale_value :: "nat \<Rightarrow> nat \<Rightarrow> nat fmt_result" where
  "e4m3_block128_scale_value bits record_ix = check_f16_scale (scheme_name E4M3B128) record_ix bits"

definition d_value :: "i4k_superblock \<Rightarrow> nat \<Rightarrow> nat fmt_result" where
  "d_value h record_ix = check_f16_scale (scheme_name I4K) record_ix (sb_d h)"

definition dmin_value :: "i4k_superblock \<Rightarrow> nat \<Rightarrow> nat fmt_result" where
  "dmin_value h record_ix = check_f16_scale (scheme_name I4K) record_ix (sb_dmin h)"

section \<open>Dequantization\<close>

datatype quant_value = QV_I8 int | QV_I4 nat | QV_E4M3 nat

definition quant_kind :: "quant_value \<Rightarrow> string" where
  "quant_kind v = (case v of QV_I8 _ \<Rightarrow> ''i8'' | QV_I4 _ \<Rightarrow> ''u4'' | QV_E4M3 _ \<Rightarrow> ''e4m3'')"

datatype scale_set = SS_F16 nat | SS_I4K nat nat nat nat

definition scale_set_f16 :: "scheme_id \<Rightarrow> nat \<Rightarrow> nat \<Rightarrow> scale_set fmt_result" where
  "scale_set_f16 scheme record_ix s = bind_r (check_f32_scale (scheme_name scheme) record_ix s) (\<lambda>s. Inr (SS_F16 s))"

definition one_problem :: "'a fmt_result \<Rightarrow> format_error list" where
  "one_problem r = (case r of Inl e \<Rightarrow> [e] | Inr _ \<Rightarrow> [])"

definition scale_set_i4k :: "scheme_id \<Rightarrow> nat \<Rightarrow> nat \<Rightarrow> nat \<Rightarrow> nat \<Rightarrow> nat \<Rightarrow> scale_set fmt_result" where
  "scale_set_i4k scheme record_ix d sc dmin mn =
     bind_r (collect
       (one_problem (check_f32_scale (scheme_name scheme) record_ix d) @
        one_problem (check_f32_scale (scheme_name scheme) record_ix dmin) @
        (if sc \<ge> 64 then [ValueOutOfRange ''i4_k scale'' 0 sc] else []) @
        (if mn \<ge> 64 then [ValueOutOfRange ''i4_k min'' 0 mn] else []))) (\<lambda>_.
     Inr (SS_I4K d sc dmin mn))"

definition scale_kind :: "scale_set \<Rightarrow> string" where
  "scale_kind s = (case s of SS_F16 _ \<Rightarrow> ''f16'' | SS_I4K _ _ _ _ \<Rightarrow> ''i4_k'')"

definition pair_name :: "quant_value \<Rightarrow> scale_set \<Rightarrow> string" where
  "pair_name v s = (case (v, s) of
      (QV_I8 _, SS_F16 _) \<Rightarrow> ''i8 + f16'' | (QV_I4 _, SS_I4K _ _ _ _) \<Rightarrow> ''u4 + i4_k'' | (QV_E4M3 _, SS_F16 _) \<Rightarrow> ''e4m3 + f16''
    | (QV_I8 _, SS_I4K _ _ _ _) \<Rightarrow> ''i8 + i4_k'' | (QV_I4 _, SS_F16 _) \<Rightarrow> ''u4 + f16'' | (QV_E4M3 _, SS_I4K _ _ _ _) \<Rightarrow> ''e4m3 + i4_k'')"

definition decode_i8 :: "nat \<Rightarrow> int \<Rightarrow> f32" where
  "decode_i8 s q = f32_mul (f32_of_bits s) (f32_of_int q)"

definition decode_e4m3 :: "nat \<Rightarrow> nat \<Rightarrow> f32" where
  "decode_e4m3 s q = f32_mul (f32_of_bits s) (f32_of_bits (e4m3_to_f32 q))"

definition decode :: "scheme_id \<Rightarrow> quant_value \<Rightarrow> scale_set \<Rightarrow> f32 fmt_result" where
  "decode scheme v scales = bind_r (as_native scheme) (\<lambda>native. case native of
       N_E4M3B128 \<Rightarrow> (case (v, scales) of
           (QV_E4M3 q, SS_F16 s) \<Rightarrow> bind_r (e4m3_check q 0) (\<lambda>_. Inr (decode_e4m3 s q))
         | _ \<Rightarrow> Inl (SchemeMismatch (scheme_name scheme) ''e4m3 + f16'' (pair_name v scales)))
     | N_I4K \<Rightarrow> (case (v, scales) of
           (QV_I4 q, SS_I4K d sc dmin mn) \<Rightarrow>
             if q > 15 then Inl (ValueOutOfRange ''i4_k nibble'' 0 q)
             else Inr (f32_sub (f32_mul (f32_mul (f32_of_bits d) (f32_of_nat sc)) (f32_of_nat q))
                               (f32_mul (f32_of_bits dmin) (f32_of_nat mn)))
         | _ \<Rightarrow> Inl (SchemeMismatch (scheme_name scheme) ''u4 + i4_k'' (pair_name v scales)))
     | _ \<Rightarrow> (case (v, scales) of
           (QV_I8 q, SS_F16 s) \<Rightarrow> Inr (decode_i8 s q)
         | _ \<Rightarrow> Inl (SchemeMismatch (scheme_name scheme) ''i8 + f16'' (pair_name v scales))))"

definition decode_i8_row :: "int list \<Rightarrow> nat \<Rightarrow> f32 list fmt_result" where
  "decode_i8_row q scale =
     (if q = [] then Inl (InvalidDim ''k'' 0 ''must be at least 1'')
      else bind_r (i8_row_scale_value scale 0) (\<lambda>s. Inr (map (decode_i8 s) q)))"

definition scale_results :: "(nat \<Rightarrow> nat \<Rightarrow> nat fmt_result) \<Rightarrow> nat list \<Rightarrow> nat fmt_result list" where
  "scale_results val scales = map (\<lambda>(i, sc). val sc i) (zip [0..<length scales] scales)"

definition oks :: "'a fmt_result list \<Rightarrow> 'a list" where
  "oks rs = concat (map (\<lambda>r. case r of Inr a \<Rightarrow> [a] | Inl _ \<Rightarrow> []) rs)"

definition decode_i8_block128 :: "int list \<Rightarrow> nat list \<Rightarrow> f32 list fmt_result" where
  "decode_i8_block128 q scales =
     (if q = [] \<or> length q mod 128 \<noteq> 0 then Inl (LengthMismatch ''i8_b128 values'' ((length q div 128 + 1) * 128) (length q))
      else let rs = scale_results i8_block128_scale_value scales
      in bind_r (collect
           ((if length scales \<noteq> length q div 128 then [LengthMismatch ''i8_b128 scales'' (length q div 128) (length scales)] else []) @
            concat (map one_problem rs))) (\<lambda>_.
         Inr (concat (map (\<lambda>(block, s). map (decode_i8 s) (take 128 (drop (block * 128) q)))
           (zip [0..<length (oks rs)] (oks rs))))))"

definition decode_i4k_superblock :: "nat list \<Rightarrow> i4k_superblock \<Rightarrow> f32 list fmt_result" where
  "decode_i4k_superblock q h =
     (if length q \<noteq> 256 then Inl (LengthMismatch ''i4_k nibbles'' 256 (length q))
      else bind_r (collect
           (out_of_range ''i4_k nibble'' 16 q @ one_problem (d_value h 0) @ one_problem (dmin_value h 0))) (\<lambda>_.
         bind_r (d_value h 0) (\<lambda>d. bind_r (dmin_value h 0) (\<lambda>dmin.
           Inr (concat (map (\<lambda>(jb, chunk).
               let block_d = f32_mul (f32_of_bits d) (f32_of_nat (sb_sc h ! jb));
                   block_m = f32_mul (f32_of_bits dmin) (f32_of_nat (sb_mn h ! jb))
               in map (\<lambda>v. f32_sub (f32_mul block_d (f32_of_nat v)) block_m) chunk)
             (zip [0..<length (chunks_exact 32 q)] (chunks_exact 32 q))))))))"

definition decode_e4m3_block128 :: "nat list \<Rightarrow> nat list \<Rightarrow> f32 list fmt_result" where
  "decode_e4m3_block128 q scales =
     (if q = [] \<or> length q mod 128 \<noteq> 0 then Inl (LengthMismatch ''e4m3_b128 values'' ((length q div 128 + 1) * 128) (length q))
      else let rs = scale_results e4m3_block128_scale_value scales
      in bind_r (collect
           ((if length scales \<noteq> length q div 128 then [LengthMismatch ''e4m3_b128 scales'' (length q div 128) (length scales)] else []) @
            concat (map one_problem rs) @
            map (\<lambda>(pos, v). ValueOutOfRange ''e4m3'' pos v) (filter (\<lambda>(pos, v). e4m3_is_nan v) (zip [0..<length q] q)))) (\<lambda>_.
         Inr (concat (map (\<lambda>(block, s). map (decode_e4m3 s) (take 128 (drop (block * 128) q)))
           (zip [0..<length (oks rs)] (oks rs))))))"

end
