(* ===== verification/Fmt_Half.thy ===== *)
theory Fmt_Half
  imports Fmt_Scales
begin

text \<open>
  Correctness of the half-precision codec: widening is exact, narrowing undoes it, and narrowing gives a nearest half for every
  finite value it does not overflow on, except in a short interval just below the smallest normal half, where it gives zero.
\<close>

section \<open>Fields\<close>

definition f16_exp :: "nat \<Rightarrow> nat" where "f16_exp b = drop_bit 10 b AND 0x1F"
definition f16_mant :: "nat \<Rightarrow> nat" where "f16_mant b = b AND 0x3FF"
definition f32_exp :: "nat \<Rightarrow> nat" where "f32_exp x = drop_bit 23 x AND 0xFF"
definition f32_mant :: "nat \<Rightarrow> nat" where "f32_mant x = x AND 0x7FFFFF"

lemma more_masks: "(v::nat) AND 0x1F = take_bit 5 v" "v AND 0x3FF = take_bit 10 v" "v AND 0x7FFFFF = take_bit 23 v" "v AND 0xFF = take_bit 8 v"
  "v AND 0x1FFF = take_bit 13 v" "v AND 0x7FFF = take_bit 15 v"
  using and_masks(4) [of v 5] and_masks(4) [of v 10] and_masks(4) [of v 23] and_masks(4) [of v 8] and_masks(4) [of v 13] and_masks(4) [of v 15]
  by simp_all

lemma and_exp: "v AND 2 ^ n = (if bit v n then 2 ^ n else (0::nat))"
  by (auto intro!: bit_eqI simp: bit_and_iff bit_exp_iff)

lemma and_sign: "v AND 0x8000 = (if bit v 15 then 2 ^ 15 else (0::nat))"
  using and_exp [of v 15] by simp

definition sign_of :: "bool \<Rightarrow> nat" where "sign_of s = (if s then 1 else 0)"

lemma sign_of_lt: "sign_of s < 2 ^ 1" "bit (sign_of s) 0 = s"
  by (auto simp: sign_of_def bit_0)

text \<open>A pattern put together from a sign, an exponent of \<open>w\<close> bits and a mantissa of \<open>n\<close> bits.\<close>

definition compose :: "nat \<Rightarrow> nat \<Rightarrow> bool \<Rightarrow> nat \<Rightarrow> nat \<Rightarrow> nat" where
  "compose w n s E M = push_bit (n + w) (sign_of s) OR push_bit n E OR M"

lemma compose_nested: "compose w n s E M = M OR push_bit n (E OR push_bit w (sign_of s))"
  by (simp add: compose_def push_bit_or push_bit_push_bit ac_simps)

lemma compose_fields:
  assumes "E < 2 ^ w" and "M < 2 ^ n"
  shows "take_bit n (compose w n s E M) = M" "take_bit w (drop_bit n (compose w n s E M)) = E" "bit (compose w n s E M) (n + w) = s"
    "compose w n s E M < 2 ^ (n + w + 1)"
proof -
  show "take_bit n (compose w n s E M) = M" unfolding compose_nested by (rule join_bits(1) [OF assms(2)])
  have d: "drop_bit n (compose w n s E M) = E OR push_bit w (sign_of s)" unfolding compose_nested by (rule join_bits(2) [OF assms(2)])
  show "take_bit w (drop_bit n (compose w n s E M)) = E" unfolding d by (rule join_bits(1) [OF assms(1)])
  have "drop_bit w (drop_bit n (compose w n s E M)) = sign_of s" unfolding d by (rule join_bits(2) [OF assms(1)])
  then have "drop_bit (n + w) (compose w n s E M) = sign_of s" by (simp add: drop_bit_drop_bit add.commute)
  then show "bit (compose w n s E M) (n + w) = s" using bit_drop_bit_eq [of "n + w" "compose w n s E M"] sign_of_lt(2) [of s]
    by (metis add.right_neutral comp_def)
  have "E OR push_bit w (sign_of s) < 2 ^ (w + 1)" using or_lt [of E "w + 1"] assms(1) push_bit_lt [OF sign_of_lt(1), of w s]
    by (simp add: less_le_trans)
  from push_bit_lt [OF this, of n] have "push_bit n (E OR push_bit w (sign_of s)) < 2 ^ (n + w + 1)" by (simp add: add.assoc)
  moreover have "M < 2 ^ (n + w + 1)" using assms(2) by (rule less_le_trans) (rule power_increasing, auto)
  ultimately show "compose w n s E M < 2 ^ (n + w + 1)" unfolding compose_nested by (intro or_lt)
qed

lemma decompose:
  assumes "b < 2 ^ (n + w + 1)"
  shows "compose w n (bit b (n + w)) (take_bit w (drop_bit n b)) (take_bit n b) = b"
proof -
  have "drop_bit (n + w) b < 2 ^ 1" using drop_bit_lt [of b "n + w" 1] assms by simp
  then have s: "sign_of (bit b (n + w)) = drop_bit w (drop_bit n b)"
    by (auto simp: sign_of_def bit_iff_odd_drop_bit drop_bit_drop_bit add.commute elim!: oddE)
  show ?thesis unfolding compose_nested s split_bits ..
qed

lemma f16_compose: "b < 2 ^ 16 \<Longrightarrow> compose 5 10 (bit b 15) (f16_exp b) (f16_mant b) = b"
  using decompose [of b 10 5] by (simp add: f16_exp_def f16_mant_def more_masks)

lemma f16_fields_lt: "f16_exp b < 32" "f16_mant b < 1024"
  using take_bit_nat_less_exp [of 5 "drop_bit 10 b"] take_bit_nat_less_exp [of 10 b] by (simp_all add: f16_exp_def f16_mant_def more_masks)

lemma f32_fields_lt: "f32_exp x < 256" "f32_mant x < 2 ^ 23"
  using take_bit_nat_less_exp [of 8 "drop_bit 23 x"] take_bit_nat_less_exp [of 23 x] by (simp_all add: f32_exp_def f32_mant_def more_masks)

lemma f32_compose_fields:
  assumes "E < 256" and "M < 2 ^ 23"
  shows "f32_exp (compose 8 23 s E M) = E" "f32_mant (compose 8 23 s E M) = M" "bit (compose 8 23 s E M) 31 = s"
  using compose_fields [of E 8 M 23 s] assms by (simp_all add: f32_exp_def f32_mant_def more_masks)

lemma f16_compose_fields:
  assumes "E < 32" and "M < 1024"
  shows "f16_exp (compose 5 10 s E M) = E" "f16_mant (compose 5 10 s E M) = M" "bit (compose 5 10 s E M) 15 = s" "compose 5 10 s E M < 2 ^ 16"
  using compose_fields [of E 5 M 10 s] assms by (simp_all add: f16_exp_def f16_mant_def more_masks)

section \<open>Both conversions on fields\<close>

lemma renorm_eq:
  assumes "0 < m" and "m < 2 * lead"
  shows "\<exists>j. renorm lead m e = (m * 2 ^ j, e - int j) \<and> lead \<le> m * 2 ^ j \<and> m * 2 ^ j < 2 * lead"
  using assms
proof (induction lead m e rule: renorm.induct)
  case (1 lead m e)
  show ?case
  proof (cases "lead \<le> m")
    case True
    then show ?thesis using 1(2-) by (intro exI [of _ 0]) (simp add: renorm.simps [of lead m e])
  next
    case False
    then obtain j where "renorm lead (2 * m) (e - 1) = (2 * m * 2 ^ j, e - 1 - int j) \<and> lead \<le> 2 * m * 2 ^ j \<and> 2 * m * 2 ^ j < 2 * lead"
      using 1 by auto
    then show ?thesis using False 1(2) by (intro exI [of _ "Suc j"]) (simp add: renorm.simps [of lead m e] mult.assoc mult.left_commute)
  qed
qed

lemma sign_shift: "push_bit 16 (b AND 0x8000) = push_bit 31 (sign_of (bit (b::nat) 15))"
  unfolding and_sign sign_of_def by (simp add: push_bit_eq_mult)

lemma sign_shift_back: "drop_bit 16 x AND 0x8000 = push_bit 15 (sign_of (bit (x::nat) 31))"
  unfolding and_sign sign_of_def by (simp add: push_bit_eq_mult bit_drop_bit_eq)

lemma f16_to_f32_zero: "f16_exp b = 0 \<Longrightarrow> f16_mant b = 0 \<Longrightarrow> f16_to_f32 b = compose 8 23 (bit b 15) 0 0"
  unfolding f16_to_f32_def sign_shift f16_exp_def f16_mant_def by (simp add: compose_def)

lemma f16_to_f32_normal:
  "0 < f16_exp b \<Longrightarrow> f16_to_f32 b =
     compose 8 23 (bit b 15) (if f16_exp b = 31 then 255 else f16_exp b + 112) (push_bit 13 (f16_mant b))"
proof -
  have "(0x7F800000::nat) = push_bit 23 255" by (simp add: push_bit_eq_mult)
  then show "0 < f16_exp b \<Longrightarrow> f16_to_f32 b =
     compose 8 23 (bit b 15) (if f16_exp b = 31 then 255 else f16_exp b + 112) (push_bit 13 (f16_mant b))"
    unfolding f16_to_f32_def sign_shift f16_exp_def f16_mant_def by (simp add: compose_def Let_def)
qed

lemma f16_to_f32_subnormal:
  assumes "f16_exp b = 0" and "0 < f16_mant b"
  shows "\<exists>j. 1 \<le> j \<and> j \<le> 10 \<and> 1024 \<le> f16_mant b * 2 ^ j \<and> f16_mant b * 2 ^ j < 2048 \<and>
    f16_to_f32 b = compose 8 23 (bit b 15) (113 - j) (push_bit 13 (f16_mant b * 2 ^ j - 1024))"
proof -
  obtain j where j: "renorm 0x400 (f16_mant b) 1 = (f16_mant b * 2 ^ j, 1 - int j)" "1024 \<le> f16_mant b * 2 ^ j" "f16_mant b * 2 ^ j < 2048"
    using renorm_eq [of "f16_mant b" "0x400" 1] assms(2) f16_fields_lt(2) [of b] by auto
  have j1: "1 \<le> j" using j(2) f16_fields_lt(2) [of b] by (cases j) auto
  have "1 * 2 ^ j \<le> f16_mant b * 2 ^ j" using assms(2) by (intro mult_right_mono) auto
  then have "2 ^ j < (2048::nat)" using j(3) by linarith
  then have "2 ^ j < (2::nat) ^ 11" by simp
  then have j10: "j \<le> 10" using power_less_imp_less_exp [of "2::nat" j 11] by simp
  have "(f16_mant b * 2 ^ j) AND 0x3FF = f16_mant b * 2 ^ j - 1024"
    unfolding more_masks take_bit_eq_mod using j(2,3) by (simp add: mod_if)
  moreover have "nat (1 - int j + 112) = 113 - j" using j10 by simp
  ultimately have "f16_to_f32 b = compose 8 23 (bit b 15) (113 - j) (push_bit 13 (f16_mant b * 2 ^ j - 1024))"
    using assms j(1) unfolding f16_to_f32_def sign_shift f16_exp_def [symmetric] f16_mant_def [symmetric]
    by (simp add: compose_def Let_def)
  then show ?thesis using j j1 j10 by blast
qed

definition round_half :: "nat \<Rightarrow> nat \<Rightarrow> nat" where
  "round_half N k = (if N mod 2 ^ k > 2 ^ (k - 1) \<or> N mod 2 ^ k = 2 ^ (k - 1) \<and> odd (N div 2 ^ k) then N div 2 ^ k + 1 else N div 2 ^ k)"

lemma and_one: "(v::nat) AND 1 = 1 \<longleftrightarrow> odd v"
  by (simp add: and_one_eq odd_iff_mod_2_eq_one)

lemma or_push: "x < 2 ^ n \<Longrightarrow> x OR push_bit n y = x + push_bit n (y::nat)"
proof -
  assume x: "x < 2 ^ n"
  show ?thesis
  proof (rule disjunctive_add [symmetric])
    show "\<not> bit x i \<or> \<not> bit (push_bit n y) i" for i using bit_below [OF x, of i] by (cases "i < n") (auto simp: bit_push_bit_iff)
  qed
qed

lemma f32_to_f16_fields:
  "f32_to_f16_bits x =
     (let exp = f32_exp x; mant = f32_mant x; sgn = push_bit 15 (sign_of (bit x 31))
      in if exp = 0xFF then (if mant = 0 then sgn OR 0x7C00 else sgn OR 0x7E00)
         else let e = int exp - 112
         in if e \<ge> 31 then sgn OR 0x7C00
            else if e \<le> 0 then
              (if e < -10 then sgn
               else let mant_full = mant OR 0x800000; shift = nat (14 - e); kept = drop_bit shift mant_full;
                        rest = mant_full AND (2 ^ shift - 1); half = 2 ^ (shift - 1);
                        rounded = (if rest > half \<or> rest = half \<and> kept AND 1 = 1 then kept + 1 else kept)
                    in sgn OR (rounded AND 0x3FF))
            else
              let kept = drop_bit 13 mant; rest = mant AND 0x1FFF
              in if rest > 0x1000 \<or> rest = 0x1000 \<and> kept AND 1 = 1 then
                   (if kept + 1 = 0x400 then
                      (if e + 1 \<ge> 31 then sgn OR 0x7C00 else sgn OR push_bit 10 (nat (e + 1)) OR 0)
                    else sgn OR push_bit 10 (nat e) OR (kept + 1))
                 else sgn OR push_bit 10 (nat e) OR kept)"
  unfolding f32_to_f16_bits_def f32_exp_def f32_mant_def sign_shift_back ..

lemma f32_to_f16_small: "f32_exp x < 102 \<Longrightarrow> f32_to_f16_bits x = compose 5 10 (bit x 31) 0 0"
  unfolding f32_to_f16_bits_def sign_shift_back f32_exp_def by (simp add: compose_def Let_def)

lemma f32_to_f16_sub:
  assumes "102 \<le> f32_exp x" and "f32_exp x \<le> 112"
  shows "f32_to_f16_bits x = compose 5 10 (bit x 31) 0 (round_half (2 ^ 23 + f32_mant x) (126 - f32_exp x) mod 1024)"
proof -
  let ?k = "126 - f32_exp x"
  have k: "nat (14 - (int (f32_exp x) - 112)) = ?k" using assms by simp
  have "f32_mant x OR 0x800000 = f32_mant x + 2 ^ 23"
    using or_push [OF f32_fields_lt(2), of x 1] by (simp add: push_bit_eq_mult)
  then have full: "f32_mant x OR 0x800000 = 2 ^ 23 + f32_mant x" by simp
  have ne: "f32_exp x \<noteq> 0xFF" "\<not> int (f32_exp x) - 112 \<ge> 31" "\<not> int (f32_exp x) - 112 < -10" using assms by simp_all
  have le: "int (f32_exp x) - 112 \<le> 0" using assms by simp
  show ?thesis
    unfolding f32_to_f16_fields Let_def if_not_P [OF ne(1)] if_not_P [OF ne(2)] if_P [OF le] if_not_P [OF ne(3)] k full
    unfolding more_masks and_masks(4) and_one compose_def round_half_def
    unfolding drop_bit_eq_div take_bit_eq_mod by simp
qed

lemma f32_to_f16_normal:
  assumes "113 \<le> f32_exp x" and "f32_exp x \<le> 142"
  shows "f32_to_f16_bits x = (let kept = round_half (f32_mant x) 13; E = f32_exp x - 112
     in if kept = 1024 then compose 5 10 (bit x 31) (E + 1) 0 else compose 5 10 (bit x 31) E kept)"
proof -
  have e: "nat (int (f32_exp x) - 112) = f32_exp x - 112" "nat (int (f32_exp x) - 112 + 1) = f32_exp x - 112 + 1" using assms by simp_all
  have q: "f32_mant x div 2 ^ 13 < 1024" using f32_fields_lt(2) [of x] by (simp add: less_mult_imp_div_less)
  have inf: "(0x7C00::nat) = push_bit 10 31 OR 0" by (simp add: push_bit_eq_mult)
  have ne: "f32_exp x \<noteq> 0xFF" "\<not> int (f32_exp x) - 112 \<ge> 31" "\<not> int (f32_exp x) - 112 \<le> 0" using assms by simp_all
  have half: "(2::nat) ^ (13 - 1) = 0x1000" by simp
  have last: "f32_exp x - 112 + 1 = 31" if "int (f32_exp x) - 112 + 1 \<ge> 31" using assms that by simp
  let ?q = "f32_mant x div 2 ^ 13" and ?r = "f32_mant x mod 2 ^ 13"
  have "f32_to_f16_bits x = (if ?r > 0x1000 \<or> ?r = 0x1000 \<and> odd ?q then
       (if ?q + 1 = 0x400 then
          (if int (f32_exp x) - 112 + 1 \<ge> 31 then push_bit 15 (sign_of (bit x 31)) OR push_bit 10 31 OR 0
           else push_bit 15 (sign_of (bit x 31)) OR push_bit 10 (f32_exp x - 112 + 1) OR 0)
        else push_bit 15 (sign_of (bit x 31)) OR push_bit 10 (f32_exp x - 112) OR (?q + 1))
     else push_bit 15 (sign_of (bit x 31)) OR push_bit 10 (f32_exp x - 112) OR ?q)"
    unfolding f32_to_f16_fields Let_def if_not_P [OF ne(1)] if_not_P [OF ne(2)] if_not_P [OF ne(3)] e inf
    unfolding more_masks and_one
    unfolding drop_bit_eq_div take_bit_eq_mod ..
  then show ?thesis using q last unfolding round_half_def half compose_def Let_def by (cases "?r > 0x1000 \<or> ?r = 0x1000 \<and> odd ?q") auto
qed

section \<open>Exactness and the round trip\<close>

text \<open>Magnitudes of finite values as multiples of the smallest subnormal, \<open>2 ^ -24\<close> for halves and \<open>2 ^ -149\<close> for singles.\<close>

definition f16_mag :: "nat \<Rightarrow> nat" where
  "f16_mag b = (if f16_exp b = 0 then f16_mant b else (1024 + f16_mant b) * 2 ^ (f16_exp b - 1))"

definition f32_mag :: "nat \<Rightarrow> nat" where
  "f32_mag x = (if f32_exp x = 0 then f32_mant x else (2 ^ 23 + f32_mant x) * 2 ^ (f32_exp x - 1))"

lemma push13: "m < 1024 \<Longrightarrow> push_bit 13 m < (2::nat) ^ 23"
  by (simp add: push_bit_eq_mult)

lemma widen_exact:
  assumes "f16_exp b < 31"
  shows "f32_exp (f16_to_f32 b) < 255" "f32_mag (f16_to_f32 b) = f16_mag b * 2 ^ 125" "bit (f16_to_f32 b) 31 = bit b 15"
proof -
  consider (zero) "f16_exp b = 0" "f16_mant b = 0" | (sub) "f16_exp b = 0" "0 < f16_mant b" | (norm) "0 < f16_exp b" by auto
  then have "f32_exp (f16_to_f32 b) < 255 \<and> f32_mag (f16_to_f32 b) = f16_mag b * 2 ^ 125 \<and> bit (f16_to_f32 b) 31 = bit b 15"
  proof cases
    case zero
    then show ?thesis using f32_compose_fields [of 0 0] by (simp add: f16_to_f32_zero f32_mag_def f16_mag_def)
  next
    case sub
    then obtain j where j: "1 \<le> j" "j \<le> 10" "1024 \<le> f16_mant b * 2 ^ j" "f16_mant b * 2 ^ j < 2048"
      "f16_to_f32 b = compose 8 23 (bit b 15) (113 - j) (push_bit 13 (f16_mant b * 2 ^ j - 1024))"
      using f16_to_f32_subnormal by blast
    have "(2 ^ 23 + push_bit 13 (f16_mant b * 2 ^ j - 1024)) = f16_mant b * 2 ^ j * 2 ^ 13" using j(3) by (simp add: push_bit_eq_mult diff_mult_distrib)
    moreover have "f16_mant b * 2 ^ j * 2 ^ 13 * 2 ^ (113 - j - 1) = f16_mant b * (2 ^ (j + (13 + (113 - j - 1))))" by (simp only: power_add mult.assoc)
    moreover have "j + (13 + (113 - j - 1)) = 125" using j(1,2) by simp
    ultimately show ?thesis unfolding j(5) using j(1,2,4) sub f32_compose_fields [of "113 - j" "push_bit 13 (f16_mant b * 2 ^ j - 1024)"] push13
      by (simp add: f32_mag_def f16_mag_def)
  next
    case norm
    have f: "f16_to_f32 b = compose 8 23 (bit b 15) (f16_exp b + 112) (push_bit 13 (f16_mant b))" using f16_to_f32_normal [OF norm] assms by simp
    have fl: "f32_exp (f16_to_f32 b) = f16_exp b + 112" "f32_mant (f16_to_f32 b) = push_bit 13 (f16_mant b)" "bit (f16_to_f32 b) 31 = bit b 15"
      unfolding f using assms by (intro f32_compose_fields push13 f16_fields_lt; simp)+
    have "2 ^ 23 + push_bit 13 (f16_mant b) = (1024 + f16_mant b) * 2 ^ 13" by (simp add: push_bit_eq_mult)
    moreover have "(1024 + f16_mant b) * 2 ^ 13 * 2 ^ (f16_exp b + 112 - 1) = (1024 + f16_mant b) * 2 ^ (f16_exp b - 1) * 2 ^ 125"
    proof -
      have "13 + (f16_exp b + 112 - 1) = f16_exp b - 1 + 125" using norm by simp
      then show ?thesis by (metis mult.assoc power_add)
    qed
    ultimately show ?thesis unfolding f32_mag_def f16_mag_def fl using norm assms by simp
  qed
  then show "f32_exp (f16_to_f32 b) < 255" "f32_mag (f16_to_f32 b) = f16_mag b * 2 ^ 125" "bit (f16_to_f32 b) 31 = bit b 15" by blast+
qed

lemma round_half_exact: "round_half (m * 2 ^ k) k = m"
  by (simp add: round_half_def)

lemma narrow_widen:
  assumes b: "b < 2 ^ 16" and nan: "\<not> (f16_exp b = 31 \<and> f16_mant b \<noteq> 0)"
  shows "f32_to_f16_bits (f16_to_f32 b) = b"
proof -
  consider (zero) "f16_exp b = 0" "f16_mant b = 0" | (sub) "f16_exp b = 0" "0 < f16_mant b" | (norm) "0 < f16_exp b" "f16_exp b < 31"
    | (inf) "f16_exp b = 31" "f16_mant b = 0" using nan f16_fields_lt(1) [of b] by linarith
  then show ?thesis
  proof cases
    case zero
    then show ?thesis using f32_compose_fields [of 0 0 "bit b 15"] f32_to_f16_small [of "f16_to_f32 b"] f16_compose [OF b] by (simp add: f16_to_f32_zero)
  next
    case sub
    then obtain j where j: "1 \<le> j" "j \<le> 10" "1024 \<le> f16_mant b * 2 ^ j" "f16_mant b * 2 ^ j < 2048"
      "f16_to_f32 b = compose 8 23 (bit b 15) (113 - j) (push_bit 13 (f16_mant b * 2 ^ j - 1024))"
      using f16_to_f32_subnormal by blast
    have fl: "f32_exp (f16_to_f32 b) = 113 - j" "f32_mant (f16_to_f32 b) = push_bit 13 (f16_mant b * 2 ^ j - 1024)" "bit (f16_to_f32 b) 31 = bit b 15"
      unfolding j(5) using j(1,2,4) by (intro f32_compose_fields push13; simp)+
    have "2 ^ 23 + f32_mant (f16_to_f32 b) = f16_mant b * 2 ^ (j + 13)" unfolding fl using j(3) by (simp add: push_bit_eq_mult diff_mult_distrib power_add)
    moreover have "126 - f32_exp (f16_to_f32 b) = j + 13" unfolding fl using j(1,2) by simp
    ultimately have "round_half (2 ^ 23 + f32_mant (f16_to_f32 b)) (126 - f32_exp (f16_to_f32 b)) = f16_mant b" by (simp only: round_half_exact)
    then show ?thesis using f32_to_f16_sub [of "f16_to_f32 b"] fl j(1,2) sub f16_fields_lt(2) [of b] f16_compose [OF b] by simp
  next
    case norm
    have f: "f16_to_f32 b = compose 8 23 (bit b 15) (f16_exp b + 112) (push_bit 13 (f16_mant b))" using f16_to_f32_normal [OF norm(1)] norm(2) by simp
    have fl: "f32_exp (f16_to_f32 b) = f16_exp b + 112" "f32_mant (f16_to_f32 b) = f16_mant b * 2 ^ 13" "bit (f16_to_f32 b) 31 = bit b 15"
      unfolding f using norm f32_compose_fields [of "f16_exp b + 112" "push_bit 13 (f16_mant b)"] push13 [OF f16_fields_lt(2)] by (simp_all add: push_bit_eq_mult)
    show ?thesis using f32_to_f16_normal [of "f16_to_f32 b"] fl norm f16_fields_lt(2) [of b] f16_compose [OF b]
      unfolding fl round_half_exact by (simp add: Let_def)
  next
    case inf
    then have "f16_to_f32 b = compose 8 23 (bit b 15) 255 0" using f16_to_f32_normal [of b] by simp
    then have "f32_exp (f16_to_f32 b) = 255" "f32_mant (f16_to_f32 b) = 0" "bit (f16_to_f32 b) 31 = bit b 15"
      using f32_compose_fields [of 255 0] by simp_all
    then have "f32_to_f16_bits (f16_to_f32 b) = compose 5 10 (bit b 15) 31 0"
      unfolding f32_to_f16_fields compose_def by (simp add: push_bit_eq_mult [of 10])
    then show ?thesis using f16_compose [OF b] inf by simp
  qed
qed

section \<open>Nearest halves\<close>

definition dist :: "nat \<Rightarrow> nat \<Rightarrow> nat" where
  "dist a b = (a - b) + (b - a)"

lemma dist_int: "int (dist a b) = \<bar>int a - int b\<bar>"
  by (auto simp: dist_def)

lemma round_half_nearest:
  assumes "0 < k"
  shows "dist (round_half N k * 2 ^ k) N \<le> dist (z * 2 ^ k) N"
proof -
  let ?q = "N div 2 ^ k" and ?r = "N mod 2 ^ k" and ?h = "(2::nat) ^ (k - 1)"
  have N: "N = ?q * 2 ^ k + ?r" by (rule div_mult_mod_eq [symmetric])
  have r: "?r < 2 ^ k" by simp
  have h: "2 ^ k = 2 * ?h" using assms by (cases k) auto
  have near: "min ?r (2 ^ k - ?r) \<le> dist (z * 2 ^ k) N"
  proof (cases "z \<le> ?q")
    case True
    then have "z * 2 ^ k \<le> ?q * 2 ^ k" by (intro mult_right_mono) auto
    then show ?thesis using N unfolding dist_def by linarith
  next
    case False
    then have "(?q + 1) * 2 ^ k \<le> z * 2 ^ k" by (intro mult_right_mono) auto
    then have "N + (2 ^ k - ?r) \<le> z * 2 ^ k" using N r by (simp only: add_mult_distrib mult_1)
    then show ?thesis unfolding dist_def by linarith
  qed
  have "(?q + 1) * 2 ^ k = ?q * 2 ^ k + 2 ^ k" by simp
  then have up: "dist ((?q + 1) * 2 ^ k) N = 2 ^ k - ?r" using N r unfolding dist_def by linarith
  have lo: "dist (?q * 2 ^ k) N = ?r" using N unfolding dist_def by linarith
  have "dist (round_half N k * 2 ^ k) N = min ?r (2 ^ k - ?r)"
  proof (cases "?r > ?h \<or> ?r = ?h \<and> odd ?q")
    case True
    then have R: "round_half N k = ?q + 1" unfolding round_half_def by (rule if_P)
    have "?h \<le> ?r" using True by linarith
    then show ?thesis unfolding R up using r h by linarith
  next
    case False
    then have R: "round_half N k = ?q" unfolding round_half_def by (rule if_not_P)
    have "?r \<le> ?h" using False by linarith
    then show ?thesis unfolding R lo using r h by linarith
  qed
  with near show ?thesis by simp
qed

lemma dist_scale: "dist (a * c) (b * c) = dist a b * c"
  by (simp add: dist_def diff_mult_distrib add_mult_distrib)

lemma near_half: "a \<le> b \<Longrightarrow> b \<le> c \<Longrightarrow> dist b c \<le> dist a c"
  by (simp add: dist_def)

lemma narrow_nearest_small:
  assumes "f32_exp x < 102"
  shows "f16_mag (f32_to_f16_bits x) = 0" "f32_mag x \<le> dist (z * 2 ^ 125) (f32_mag x)"
proof -
  show "f16_mag (f32_to_f16_bits x) = 0" using f32_to_f16_small [OF assms] f16_compose_fields [of 0 0] by (simp add: f16_mag_def)
  have "f32_mag x < 2 ^ 124"
  proof (cases "f32_exp x = 0")
    case False
    have "(2 ^ 23 + f32_mant x) * 2 ^ (f32_exp x - 1) < 2 ^ 24 * 2 ^ (f32_exp x - 1)" using f32_fields_lt(2) [of x] by simp
    also have "\<dots> \<le> 2 ^ 24 * 2 ^ 100" using assms by (intro mult_left_mono power_increasing) auto
    finally show ?thesis using False by (simp add: f32_mag_def)
  qed (use f32_fields_lt(2) [of x] in \<open>simp add: f32_mag_def\<close>)
  moreover have "z = 0 \<or> 1 * 2 ^ 125 \<le> z * 2 ^ 125" by (cases z) auto
  ultimately show "f32_mag x \<le> dist (z * 2 ^ 125) (f32_mag x)" by (auto simp: dist_def)
qed

lemma f32_mag_pos: "0 < f32_exp x \<Longrightarrow> f32_mag x = (2 ^ 23 + f32_mant x) * 2 ^ (f32_exp x - 1)"
  by (simp add: f32_mag_def)

lemma round_half_le: "round_half N k \<le> N div 2 ^ k + 1"
  by (simp add: round_half_def)

lemma narrow_sub_carry:
  assumes e: "102 \<le> f32_exp x" "f32_exp x \<le> 112" and R: "1024 \<le> round_half (2 ^ 23 + f32_mant x) (126 - f32_exp x)"
  shows "round_half (2 ^ 23 + f32_mant x) (126 - f32_exp x) = 1024" "2 ^ 135 - 2 ^ 124 \<le> f32_mag x" "f32_mag x < 2 ^ 135"
proof -
  let ?N = "2 ^ 23 + f32_mant x" and ?k = "126 - f32_exp x"
  have N: "?N < 2 ^ 24" using f32_fields_lt(2) [of x] by simp
  have q: "?N div 2 ^ ?k < 2 ^ (24 - ?k)"
  proof (rule less_mult_imp_div_less)
    have "(2::nat) ^ 24 = 2 ^ (24 - ?k) * 2 ^ ?k" using e by (simp flip: power_add)
    then show "?N < 2 ^ (24 - ?k) * 2 ^ ?k" using N by linarith
  qed
  have e112: "f32_exp x = 112"
  proof (rule ccontr)
    assume "f32_exp x \<noteq> 112"
    then have "(2::nat) ^ (24 - ?k) \<le> 2 ^ 9" using e by (intro power_increasing) auto
    then show False using q R round_half_le [of ?N ?k] by simp
  qed
  then have k: "?k = 14" by simp
  have q1: "?N div 2 ^ 14 < 1024" using q unfolding k by simp
  then have up: "?N mod 2 ^ 14 \<ge> 2 ^ 13" "?N div 2 ^ 14 = 1023"
    using R unfolding k round_half_def by (auto split: if_splits)
  show "round_half ?N ?k = 1024" using R round_half_le [of ?N ?k] q1 unfolding k by linarith
  have "?N = ?N div 2 ^ 14 * 2 ^ 14 + ?N mod 2 ^ 14" by (rule div_mult_mod_eq [symmetric])
  then have "?N = 1023 * 2 ^ 14 + ?N mod 2 ^ 14" unfolding up(2) .
  moreover have "(2::nat) ^ 24 - 2 ^ 13 = 1023 * 2 ^ 14 + 2 ^ 13" by simp
  ultimately have lo: "2 ^ 24 - 2 ^ 13 \<le> ?N" using up(1) by linarith
  have m: "f32_mag x = ?N * 2 ^ 111" using f32_mag_pos [of x] e112 by simp
  have "(2 ^ 24 - 2 ^ 13) * 2 ^ 111 \<le> ?N * 2 ^ 111" using lo by (rule mult_right_mono) simp
  then show "2 ^ 135 - 2 ^ 124 \<le> f32_mag x" unfolding m by simp
  have "?N * 2 ^ 111 < 2 ^ 24 * 2 ^ 111" using N by (rule mult_strict_right_mono) simp
  then show "f32_mag x < 2 ^ 135" unfolding m by simp
qed

lemma narrow_nearest_sub:
  assumes e: "102 \<le> f32_exp x" "f32_exp x \<le> 112" and R: "round_half (2 ^ 23 + f32_mant x) (126 - f32_exp x) < 1024"
  shows "dist (f16_mag (f32_to_f16_bits x) * 2 ^ 125) (f32_mag x) \<le> dist (z * 2 ^ 125) (f32_mag x)"
proof -
  let ?N = "2 ^ 23 + f32_mant x" and ?k = "126 - f32_exp x" and ?c = "2 ^ (f32_exp x - 1) :: nat"
  have r: "f16_mag (f32_to_f16_bits x) = round_half ?N ?k"
    using f32_to_f16_sub [OF e] R f16_compose_fields [of 0 "round_half ?N ?k"] by (simp add: f16_mag_def)
  have "?k + (f32_exp x - 1) = 125" using e by simp
  then have c: "(2::nat) ^ 125 = 2 ^ ?k * ?c" by (metis power_add)
  have m: "f32_mag x = ?N * ?c" using f32_mag_pos [of x] e by simp
  have s: "dist (a * 2 ^ 125) (?N * ?c) = dist (a * 2 ^ ?k) ?N * ?c" for a unfolding c mult.assoc [symmetric] dist_scale ..
  show ?thesis unfolding r m s by (intro mult_right_mono round_half_nearest) (use e in auto)
qed

lemma narrow_normal_mag:
  assumes e: "113 \<le> f32_exp x" "f32_exp x \<le> 142" and o: "f16_exp (f32_to_f16_bits x) < 31"
  shows "f16_mag (f32_to_f16_bits x) = round_half (2 ^ 23 + f32_mant x) 13 * 2 ^ (f32_exp x - 113)"
proof -
  let ?K = "round_half (f32_mant x) 13" and ?E = "f32_exp x - 112"
  have "(2 ^ 23 + f32_mant x) div 2 ^ 13 = 1024 + f32_mant x div 2 ^ 13" "(2 ^ 23 + f32_mant x) mod 2 ^ 13 = f32_mant x mod 2 ^ 13"
    using div_mult_self3 [of "2 ^ 13" 1024 "f32_mant x"] mod_mult_self3 [of 1024 "2 ^ 13" "f32_mant x"] by simp_all
  then have RK: "round_half (2 ^ 23 + f32_mant x) 13 = 1024 + ?K" unfolding round_half_def by simp
  have "f32_mant x div 2 ^ 13 < 1024" using f32_fields_lt(2) [of x] by (simp add: less_mult_imp_div_less)
  then have K: "?K \<le> 1024" using round_half_le [of "f32_mant x" 13] by linarith
  show ?thesis
  proof (cases "?K = 1024")
    case True
    then have f: "f32_to_f16_bits x = compose 5 10 (bit x 31) (?E + 1) 0" using f32_to_f16_normal [OF e] by (simp add: Let_def)
    have "?E + 1 < 32" using e by simp
    then have g: "f16_exp (f32_to_f16_bits x) = ?E + 1" "f16_mant (f32_to_f16_bits x) = 0" unfolding f by (intro f16_compose_fields; simp)+
    have "(2::nat) ^ ?E = 2 * 2 ^ (f32_exp x - 113)" using e by (simp flip: power_Suc add: Suc_diff_le)
    then show ?thesis unfolding f16_mag_def g RK True by simp
  next
    case False
    then have f: "f32_to_f16_bits x = compose 5 10 (bit x 31) ?E ?K" using f32_to_f16_normal [OF e] by (simp add: Let_def)
    have "?E < 32" "?K < 1024" using e K False by simp_all
    then have g: "f16_exp (f32_to_f16_bits x) = ?E" "f16_mant (f32_to_f16_bits x) = ?K" unfolding f by (intro f16_compose_fields; simp)+
    show ?thesis unfolding f16_mag_def g RK using e by simp
  qed
qed

lemma narrow_nearest_normal:
  assumes e: "113 \<le> f32_exp x" "f32_exp x \<le> 142" and o: "f16_exp (f32_to_f16_bits x) < 31"
  shows "dist (f16_mag (f32_to_f16_bits x) * 2 ^ 125) (f32_mag x) \<le> dist (f16_mag y * 2 ^ 125) (f32_mag x)"
proof -
  let ?N = "2 ^ 23 + f32_mant x" and ?u = "2 ^ (f32_exp x - 113) :: nat" and ?c = "2 ^ (f32_exp x - 1) :: nat"
  have "f32_exp x - 113 + 125 = 13 + (f32_exp x - 1)" using e by simp
  then have c: "?u * 2 ^ 125 = 2 ^ 13 * ?c" by (metis power_add)
  have m: "f32_mag x = ?N * ?c" using f32_mag_pos [of x] e by simp
  have s: "dist (z * ?u * 2 ^ 125) (?N * ?c) = dist (z * 2 ^ 13) ?N * ?c" for z
    unfolding mult.assoc [of z] c unfolding mult.assoc [symmetric] dist_scale ..
  have best: "dist (f16_mag (f32_to_f16_bits x) * 2 ^ 125) (f32_mag x) \<le> dist (z * ?u * 2 ^ 125) (f32_mag x)" for z
    unfolding narrow_normal_mag [OF e o] m s by (intro mult_right_mono round_half_nearest) auto
  show ?thesis
  proof (cases "f32_exp x - 112 \<le> f16_exp y")
    case True
    have "f16_exp y - 1 = (f16_exp y - (f32_exp x - 112)) + (f32_exp x - 113)" "f16_exp y \<noteq> 0" using True e by simp_all
    then have "f16_mag y = (1024 + f16_mant y) * 2 ^ (f16_exp y - (f32_exp x - 112)) * ?u"
      unfolding f16_mag_def by (simp only: power_add mult.assoc if_False)
    then show ?thesis using best by metis
  next
    case False
    have "f16_mag y \<le> 1024 * ?u"
    proof (cases "f16_exp y = 0")
      case True
      have "f16_mant y \<le> 1024 * 1" using f16_fields_lt(2) [of y] by simp
      also have "\<dots> \<le> 1024 * ?u" by (intro mult_left_mono) auto
      finally show ?thesis using True by (simp add: f16_mag_def)
    next
      case nz: False
      have "(1024 + f16_mant y) * 2 ^ (f16_exp y - 1) \<le> 2048 * 2 ^ (f16_exp y - 1)" using f16_fields_lt(2) [of y] by simp
      also have "\<dots> = 1024 * 2 ^ f16_exp y" using nz by (cases "f16_exp y") auto
      also have "\<dots> \<le> 1024 * ?u" using False by (intro mult_left_mono power_increasing) auto
      finally show ?thesis using nz by (simp add: f16_mag_def)
    qed
    then have "f16_mag y * 2 ^ 125 \<le> 1024 * ?u * 2 ^ 125" by (rule mult_right_mono) simp
    moreover have "1024 * ?u * 2 ^ 125 \<le> f32_mag x" unfolding mult.assoc [of 1024] c m by simp
    ultimately show ?thesis using best [of 1024] near_half order_trans by blast
  qed
qed

lemma narrow_nearest:
  assumes "f32_exp x < 255" and o: "f16_exp (f32_to_f16_bits x) < 31" and "f16_exp y < 31"
    and gap: "f32_mag x < 2 ^ 135 - 2 ^ 124 \<or> 2 ^ 135 \<le> f32_mag x"
  shows "dist (f16_mag (f32_to_f16_bits x) * 2 ^ 125) (f32_mag x) \<le> dist (f16_mag y * 2 ^ 125) (f32_mag x)"
proof -
  have "f32_exp x \<le> 142"
  proof (rule ccontr)
    assume "\<not> ?thesis"
    then have "f32_to_f16_bits x = compose 5 10 (bit x 31) 31 0"
      using assms(1) unfolding f32_to_f16_fields compose_def by (simp add: Let_def push_bit_eq_mult [of 10])
    then show False using o f16_compose_fields [of 31 0] by simp
  qed
  then consider (small) "f32_exp x < 102" | (sub) "102 \<le> f32_exp x" "f32_exp x \<le> 112" | (norm) "113 \<le> f32_exp x" "f32_exp x \<le> 142" by linarith
  then show ?thesis
  proof cases
    case small
    then show ?thesis using narrow_nearest_small [OF small] by (simp add: dist_def)
  next
    case sub
    then have "round_half (2 ^ 23 + f32_mant x) (126 - f32_exp x) < 1024" using narrow_sub_carry(2,3) [OF sub] gap by (meson leI not_le)
    then show ?thesis by (rule narrow_nearest_sub [OF sub])
  next
    case norm
    then show ?thesis by (rule narrow_nearest_normal [OF _ _ o])
  qed
qed

lemma narrow_gap:
  assumes "2 ^ 135 - 2 ^ 124 \<le> f32_mag x" and "f32_mag x < 2 ^ 135"
  shows "f16_mag (f32_to_f16_bits x) = 0"
proof -
  have e: "f32_exp x = 112" "2 ^ 24 - 2 ^ 13 \<le> 2 ^ 23 + f32_mant x"
  proof -
    have nz: "f32_exp x \<noteq> 0" using assms(1) f32_fields_lt(2) [of x] by (intro notI) (simp add: f32_mag_def)
    note m = f32_mag_pos [of x]
    have "\<not> f32_exp x < 112"
    proof
      assume "f32_exp x < 112"
      then have "(2 ^ 23 + f32_mant x) * 2 ^ (f32_exp x - 1) \<le> 2 ^ 24 * 2 ^ 110" using f32_fields_lt(2) [of x]
        by (intro mult_mono power_increasing) auto
      then show False using m nz assms(1) by simp
    qed
    moreover have "\<not> 112 < f32_exp x"
    proof
      assume "112 < f32_exp x"
      then have "2 ^ 23 * 2 ^ 112 \<le> (2 ^ 23 + f32_mant x) * 2 ^ (f32_exp x - 1)" by (intro mult_mono power_increasing) auto
      then show False using m nz assms(2) by simp
    qed
    ultimately show e: "f32_exp x = 112" by simp
    have "(2 ^ 24 - 2 ^ 13) * 2 ^ 111 \<le> (2 ^ 23 + f32_mant x) * 2 ^ 111" using m nz assms(1) unfolding e by simp
    then show "2 ^ 24 - 2 ^ 13 \<le> 2 ^ 23 + f32_mant x" by simp
  qed
  let ?N = "2 ^ 23 + f32_mant x"
  have N: "?N < 2 ^ 24" using f32_fields_lt(2) [of x] by simp
  have q: "?N div 2 ^ 14 = 1023" using e(2) N by (intro div_nat_eqI) simp_all
  have "?N = ?N div 2 ^ 14 * 2 ^ 14 + ?N mod 2 ^ 14" by (rule div_mult_mod_eq [symmetric])
  then have "2 ^ 13 \<le> ?N mod 2 ^ 14" using e(2) unfolding q by simp
  then have "round_half ?N 14 = 1024" using q unfolding round_half_def by auto
  then show ?thesis using f32_to_f16_sub [of x] e(1) f16_compose_fields [of 0 0] by (simp add: f16_mag_def)
qed

end
