(* ===== verification/Fmt_Decode.thy ===== *)
theory Fmt_Decode
  imports Fmt_Half
begin

text \<open>
  The block decoders against the single-value reference \<open>decode\<close>: they accept exactly the blocks of the right shape with valid
  scales and values, and each weight they return is the reference applied to that value with the scale of its block.
\<close>

section \<open>Scale validity\<close>

definition scale_ok :: "nat \<Rightarrow> bool" where
  "scale_ok x \<longleftrightarrow> f32_exp x < 255 \<and> (bit x 31 \<longrightarrow> f32_mag x = 0)"

lemma f32_of_bits_fields:
  "f32_of_bits x = (if f32_exp x = 255 then (if f32_mant x = 0 then F32_Inf (bit x 31) else F32_NaN)
     else if f32_exp x = 0 then F32_Fin (bit x 31) (f32_mant x) (-149) else F32_Fin (bit x 31) (2 ^ 23 + f32_mant x) (int (f32_exp x) - 150))"
  unfolding f32_of_bits_def f32_exp_def f32_mant_def by (simp add: Let_def)

lemma f32_negative:
  "f32_less (F32_Fin neg m e) f32_zero \<longleftrightarrow> neg \<and> 0 < m"
  by (simp add: f32_zero_def signed_at_def Let_def mult_less_0_iff)

lemma f32_mag_zero: "f32_mag x = 0 \<longleftrightarrow> f32_exp x = 0 \<and> f32_mant x = 0"
  by (simp add: f32_mag_def)

lemma check_f32_scale_eq: "check_f32_scale scheme i x = Inr y \<longleftrightarrow> scale_ok x \<and> y = x"
  using f32_fields_lt(1) [of x]
  by (auto simp: check_f32_scale_def f32_of_bits_fields f32_negative scale_ok_def f32_mag_zero)

lemma scale_ok_widen: "scale_ok (f16_to_f32 b) \<longleftrightarrow> f16_exp b < 31 \<and> (bit b 15 \<longrightarrow> f16_mag b = 0)"
proof (cases "f16_exp b < 31")
  case True
  then show ?thesis using widen_exact [OF True] by (simp add: scale_ok_def)
next
  case False
  then have "f16_exp b = 31" using f16_fields_lt(1) [of b] by simp
  then have "f16_to_f32 b = compose 8 23 (bit b 15) 255 (push_bit 13 (f16_mant b))" using f16_to_f32_normal [of b] by simp
  then have "f32_exp (f16_to_f32 b) = 255" using f32_compose_fields(1) [of 255 "push_bit 13 (f16_mant b)"] push13 [OF f16_fields_lt(2)] by simp
  then show ?thesis using False by (simp add: scale_ok_def)
qed

lemmas scale_value_defs = i8_row_scale_value_def i8_block128_scale_value_def e4m3_block128_scale_value_def d_value_def dmin_value_def
  check_f16_scale_def

lemma scale_value_eq:
  "i8_row_scale_value b i = Inr y \<longleftrightarrow> scale_ok (f16_to_f32 b) \<and> y = f16_to_f32 b"
  "i8_block128_scale_value b i = Inr y \<longleftrightarrow> scale_ok (f16_to_f32 b) \<and> y = f16_to_f32 b"
  "e4m3_block128_scale_value b i = Inr y \<longleftrightarrow> scale_ok (f16_to_f32 b) \<and> y = f16_to_f32 b"
  "d_value h i = Inr y \<longleftrightarrow> scale_ok (f16_to_f32 (sb_d h)) \<and> y = f16_to_f32 (sb_d h)"
  "dmin_value h i = Inr y \<longleftrightarrow> scale_ok (f16_to_f32 (sb_dmin h)) \<and> y = f16_to_f32 (sb_dmin h)"
  by (simp_all add: scale_value_defs check_f32_scale_eq)

section \<open>Blocks\<close>

lemma nth_concat_const:
  assumes "\<forall>ys \<in> set yss. length ys = c" and "i < length yss * c"
  shows "concat yss ! i = yss ! (i div c) ! (i mod c)"
proof -
  have c: "0 < c" using assms(2) by (auto intro: gr0I)
  have d: "i div c < length yss" using assms(2) by (simp add: less_mult_imp_div_less)
  have "length (concat yss) = length yss * c" using assms(1) by (simp add: length_concat sum_list_triv cong: map_cong)
  moreover have "i div c * c + i mod c = i" by simp
  moreover have "i div c * c \<le> length (concat yss)" using assms(2) calculation by linarith
  ultimately have "take c (drop (i div c * c) (concat yss)) ! (i mod c) = concat yss ! i" using c assms(2) by (simp add: nth_drop)
  then show ?thesis using concat_const_nth [OF assms(1) d] by simp
qed

lemma length_blocks_concat: "\<forall>ys \<in> set yss. length ys = c \<Longrightarrow> length (concat yss) = length yss * c"
  by (simp add: length_concat sum_list_triv cong: map_cong)

lemma slice_length: "length q = n * c \<Longrightarrow> j < n \<Longrightarrow> length (take c (drop (j * c) q)) = c"
  using mult_le_mono1 [of "Suc j" n c] by (simp add: diff_mult_distrib)

lemma concat_blocks:
  assumes l: "length q = n * c"
  shows "concat (map (\<lambda>j. map (g j) (take c (drop (j * c) q))) [0..<n]) = map (\<lambda>i. g (i div c) (q ! i)) [0..<length q]" (is "?L = _")
proof (rule nth_equalityI)
  have len: "\<forall>ys \<in> set (map (\<lambda>j. map (g j) (take c (drop (j * c) q))) [0..<n]). length ys = c" using slice_length [OF l] by auto
  show "length ?L = length (map (\<lambda>i. g (i div c) (q ! i)) [0..<length q])" using length_blocks_concat [OF len] l by simp
  fix i assume i: "i < length ?L"
  then have "i < n * c" using length_blocks_concat [OF len] by simp
  then have d: "i div c < n" and c: "0 < c" by (simp_all add: less_mult_imp_div_less) (auto intro: gr0I)
  have "i div c * c + i mod c = i" by simp
  then show "?L ! i = map (\<lambda>i. g (i div c) (q ! i)) [0..<length q] ! i"
    using nth_concat_const [OF len, of i] \<open>i < n * c\<close> d c l slice_length [OF l d] by (simp add: nth_drop)
qed

lemma zip_upt_map: "map (\<lambda>(j, x). f j x) (zip [0..<length xs] xs) = map (\<lambda>j. f j (xs ! j)) [0..<length xs]"
  by (rule nth_equalityI) auto

lemma scale_results_ok:
  assumes "\<And>b i y. val b i = Inr y \<longleftrightarrow> scale_ok (f16_to_f32 b) \<and> y = f16_to_f32 b"
  shows "concat (map one_problem (scale_results val scales)) = [] \<longleftrightarrow> (\<forall>s \<in> set scales. scale_ok (f16_to_f32 s))"
    "\<forall>s \<in> set scales. scale_ok (f16_to_f32 s) \<Longrightarrow> oks (scale_results val scales) = map f16_to_f32 scales"
proof -
  have r: "scale_results val scales = map (\<lambda>j. val (scales ! j) j) [0..<length scales]" unfolding scale_results_def by (rule zip_upt_map)
  have one: "one_problem (val b i) = [] \<longleftrightarrow> scale_ok (f16_to_f32 b)" for b i
    using assms [of b i] by (cases "val b i") (auto simp: one_problem_def)
  show "concat (map one_problem (scale_results val scales)) = [] \<longleftrightarrow> (\<forall>s \<in> set scales. scale_ok (f16_to_f32 s))"
    unfolding r by (auto simp: one all_set_conv_all_nth)
  assume "\<forall>s \<in> set scales. scale_ok (f16_to_f32 s)"
  then have "map (\<lambda>j. val (scales ! j) j) [0..<length scales] = map Inr (map f16_to_f32 scales)"
    using assms by (intro nth_equalityI) auto
  moreover have "oks (map Inr ys :: nat fmt_result list) = ys" for ys by (induction ys) (auto simp: oks_def)
  ultimately show "oks (scale_results val scales) = map f16_to_f32 scales" unfolding r by (simp only:)
qed

lemma scaled_blocks:
  assumes "length q = length scales * c"
  shows "concat (map (\<lambda>(block, s). map (g s) (take c (drop (block * c) q)))
      (zip [0..<length (map f16_to_f32 scales)] (map f16_to_f32 scales))) =
    map (\<lambda>i. g (f16_to_f32 (scales ! (i div c))) (q ! i)) [0..<length q]"
proof -
  have "map (\<lambda>(block, s). map (g s) (take c (drop (block * c) q))) (zip [0..<length (map f16_to_f32 scales)] (map f16_to_f32 scales)) =
      map (\<lambda>j. map (g (f16_to_f32 (scales ! j))) (take c (drop (j * c) q))) [0..<length scales]"
    unfolding zip_upt_map by (simp cong: map_cong)
  then show ?thesis using concat_blocks [OF assms, of "\<lambda>j. g (f16_to_f32 (scales ! j))"] by simp
qed

lemma decode_i8_block128_eq:
  "decode_i8_block128 q scales = Inr out \<longleftrightarrow>
     q \<noteq> [] \<and> length q = length scales * 128 \<and> (\<forall>s \<in> set scales. scale_ok (f16_to_f32 s)) \<and>
     out = map (\<lambda>i. decode_i8 (f16_to_f32 (scales ! (i div 128))) (q ! i)) [0..<length q]"
proof (cases "q \<noteq> [] \<and> length q = length scales * 128 \<and> (\<forall>s \<in> set scales. scale_ok (f16_to_f32 s))")
  case True
  then show ?thesis using scale_results_ok [OF scale_value_eq(2), where scales = scales] scaled_blocks [of q scales 128 decode_i8]
    by (auto simp: decode_i8_block128_def Let_def bind_r_eq_Inr)
next
  case False
  have "decode_i8_block128 q scales \<noteq> Inr out"
  proof
    assume "decode_i8_block128 q scales = Inr out"
    then have "q \<noteq> []" "length q mod 128 = 0" "length scales = length q div 128" "\<forall>s \<in> set scales. scale_ok (f16_to_f32 s)"
      using scale_results_ok(1) [OF scale_value_eq(2), where scales = scales] unfolding decode_i8_block128_def Let_def by (auto simp: bind_r_eq_Inr split: if_splits)
    then show False using False by (metis div_mult_mod_eq add_0_right)
  qed
  then show ?thesis using False by blast
qed

lemma decode_e4m3_block128_eq:
  "decode_e4m3_block128 q scales = Inr out \<longleftrightarrow>
     q \<noteq> [] \<and> length q = length scales * 128 \<and> (\<forall>s \<in> set scales. scale_ok (f16_to_f32 s)) \<and> (\<forall>v \<in> set q. \<not> e4m3_is_nan v) \<and>
     out = map (\<lambda>i. decode_e4m3 (f16_to_f32 (scales ! (i div 128))) (q ! i)) [0..<length q]"
proof -
  have nan: "map (\<lambda>(pos, v). ValueOutOfRange ''e4m3'' pos v) (filter (\<lambda>(pos, v). e4m3_is_nan v) (zip [0..<length q] q)) = [] \<longleftrightarrow>
      (\<forall>v \<in> set q. \<not> e4m3_is_nan v)" by (auto simp: filter_empty_conv set_zip all_set_conv_all_nth)
  show ?thesis
  proof (cases "q \<noteq> [] \<and> length q = length scales * 128 \<and> (\<forall>s \<in> set scales. scale_ok (f16_to_f32 s)) \<and> (\<forall>v \<in> set q. \<not> e4m3_is_nan v)")
    case True
    then show ?thesis using scale_results_ok [OF scale_value_eq(3), where scales = scales] scaled_blocks [of q scales 128 decode_e4m3] nan
      by (auto simp: decode_e4m3_block128_def Let_def bind_r_eq_Inr)
  next
    case False
    have "decode_e4m3_block128 q scales \<noteq> Inr out"
    proof
      assume "decode_e4m3_block128 q scales = Inr out"
      then have "q \<noteq> []" "length q mod 128 = 0" "length scales = length q div 128" "\<forall>s \<in> set scales. scale_ok (f16_to_f32 s)" "\<forall>v \<in> set q. \<not> e4m3_is_nan v"
        using scale_results_ok(1) [OF scale_value_eq(3), where scales = scales] nan unfolding decode_e4m3_block128_def Let_def
        by (auto simp: bind_r_eq_Inr split: if_splits)
      then show False using False by (metis div_mult_mod_eq add_0_right)
    qed
    then show ?thesis using False by blast
  qed
qed

definition i4k_weight :: "i4k_superblock \<Rightarrow> nat \<Rightarrow> nat \<Rightarrow> f32" where
  "i4k_weight h jb v =
     f32_sub (f32_mul (f32_mul (f32_of_bits (f16_to_f32 (sb_d h))) (f32_of_nat (sb_sc h ! jb))) (f32_of_nat v))
       (f32_mul (f32_of_bits (f16_to_f32 (sb_dmin h))) (f32_of_nat (sb_mn h ! jb)))"

lemma chunks_exact_slices:
  assumes "0 < c" and "length q = n * c"
  shows "chunks_exact c q = map (\<lambda>j. take c (drop (j * c) q)) [0..<n]"
proof -
  obtain yss where y: "q = concat yss" "length yss = n" "\<forall>ys \<in> set yss. length ys = c" using chunks_split [OF assms] by blast
  then show ?thesis using concat_const_nth [OF y(3)] by (simp add: chunks_exact_concat assms(1)) (auto intro!: nth_equalityI)
qed

lemma decode_i4k_superblock_eq:
  "decode_i4k_superblock q h = Inr out \<longleftrightarrow>
     length q = 256 \<and> (\<forall>v \<in> set q. v < 16) \<and> scale_ok (f16_to_f32 (sb_d h)) \<and> scale_ok (f16_to_f32 (sb_dmin h)) \<and>
     out = map (\<lambda>i. i4k_weight h (i div 32) (q ! i)) [0..<256]"
proof (cases "length q = 256")
  case True
  then have l: "length q = 8 * 32" by simp
  have ch: "chunks_exact 32 q = map (\<lambda>j. take 32 (drop (j * 32) q)) [0..<8]" using chunks_exact_slices [OF _ l] by simp
  have blocks: "concat (map (\<lambda>(jb, chunk). map (i4k_weight h jb) chunk) (zip [0..<length (chunks_exact 32 q)] (chunks_exact 32 q))) =
      map (\<lambda>i. i4k_weight h (i div 32) (q ! i)) [0..<256]"
  proof -
    have m: "map (\<lambda>j. map (i4k_weight h j) (map (\<lambda>j. take 32 (drop (j * 32) q)) [0..<8] ! j)) [0..<8] =
        map (\<lambda>j. map (i4k_weight h j) (take 32 (drop (j * 32) q))) [0..<8]" by (rule map_cong) auto
    show ?thesis unfolding zip_upt_map unfolding ch length_map length_upt diff_zero m concat_blocks [OF l] True ..
  qed
  have one: "one_problem r = [] \<longleftrightarrow> (\<exists>y. r = Inr y)" for r :: "nat fmt_result" by (cases r) (auto simp: one_problem_def)
  show ?thesis using blocks True
    by (auto simp: decode_i4k_superblock_def bind_r_eq_Inr out_of_range_Nil one scale_value_eq i4k_weight_def [abs_def] Let_def)
qed (simp add: decode_i4k_superblock_def)

end
