(* ===== verification/Fmt_Round.thy ===== *)
theory Fmt_Round
  imports Fmt_Half
begin

text \<open>
  Narrowing to half precision as rounding of signed values: the sign is kept, a value overflows to infinity exactly from the midpoint
  above the largest half on, and a value that lies halfway between two halves goes to the one with the even mantissa.
\<close>

section \<open>Signed values\<close>

text \<open>Values in units of \<open>2 ^ -149\<close>, the smallest positive single; a half counts in units of \<open>2 ^ -24\<close>.\<close>

definition f16_val :: "nat \<Rightarrow> int" where
  "f16_val b = (if bit b 15 then - 1 else 1) * int (f16_mag b * 2 ^ 125)"

definition f32_val :: "nat \<Rightarrow> int" where
  "f32_val x = (if bit x 31 then - 1 else 1) * int (f32_mag x)"

lemma val_dist_same: "bit b 15 = bit x 31 \<Longrightarrow> \<bar>f16_val b - f32_val x\<bar> = int (dist (f16_mag b * 2 ^ 125) (f32_mag x))"
  by (auto simp: f16_val_def f32_val_def dist_int)

lemma val_dist_other: "bit b 15 \<noteq> bit x 31 \<Longrightarrow> \<bar>f16_val b - f32_val x\<bar> = int (f16_mag b * 2 ^ 125 + f32_mag x)"
  by (auto simp: f16_val_def f32_val_def)

lemma f16_val_eq_0: "f16_val b = 0 \<longleftrightarrow> f16_mag b = 0"
  by (simp add: f16_val_def)

section \<open>Sign and overflow\<close>

lemma f32_to_f16_huge: "143 \<le> f32_exp x \<Longrightarrow> f32_exp x < 255 \<Longrightarrow> f32_to_f16_bits x = compose 5 10 (bit x 31) 31 0"
  unfolding f32_to_f16_fields compose_def by (simp add: Let_def push_bit_eq_mult [of 10])

lemma round_half_mant: "round_half (f32_mant x) 13 \<le> 1024"
proof -
  have "f32_mant x div 2 ^ 13 < 1024" using f32_fields_lt(2) [of x] by (simp add: less_mult_imp_div_less)
  then show ?thesis using round_half_le [of "f32_mant x" 13] by linarith
qed

lemma narrow_fields:
  assumes "f32_exp x < 255"
  shows "\<exists>E M. f32_to_f16_bits x = compose 5 10 (bit x 31) E M \<and> E < 32 \<and> M < 1024 \<and>
    (E = 31 \<longleftrightarrow> 143 \<le> f32_exp x \<or> f32_exp x = 142 \<and> round_half (f32_mant x) 13 = 1024) \<and> (E = 31 \<longrightarrow> M = 0)"
proof -
  consider (small) "f32_exp x < 102" | (sub) "102 \<le> f32_exp x" "f32_exp x \<le> 112" | (norm) "113 \<le> f32_exp x" "f32_exp x \<le> 142" | (huge) "143 \<le> f32_exp x"
    by linarith
  then show ?thesis
  proof cases
    case small
    then show ?thesis using f32_to_f16_small [OF small] by (intro exI [of _ 0]) simp
  next
    case sub
    then show ?thesis using f32_to_f16_sub [OF sub] by (intro exI [of _ 0] exI [of _ "round_half (2 ^ 23 + f32_mant x) (126 - f32_exp x) mod 1024"]) simp
  next
    case norm
    then show ?thesis
    proof (cases "round_half (f32_mant x) 13 = 1024")
      case True
      then show ?thesis using f32_to_f16_normal [OF norm] norm by (intro exI [of _ "f32_exp x - 112 + 1"] exI [of _ 0]) (auto simp: Let_def)
    next
      case False
      then show ?thesis using f32_to_f16_normal [OF norm] norm round_half_mant [of x]
        by (intro exI [of _ "f32_exp x - 112"] exI [of _ "round_half (f32_mant x) 13"]) (auto simp: Let_def)
    qed
  next
    case huge
    then show ?thesis using f32_to_f16_huge [OF huge assms] by (intro exI [of _ 31] exI [of _ 0]) simp
  qed
qed

lemma narrow_sign: "f32_exp x < 255 \<Longrightarrow> bit (f32_to_f16_bits x) 15 = bit x 31"
  using narrow_fields [of x] f16_compose_fields(3) by metis

lemma round_up_top: "round_half (f32_mant x) 13 = 1024 \<longleftrightarrow> 4095 * 2 ^ 12 \<le> 2 ^ 23 + f32_mant x"
proof -
  let ?m = "f32_mant x"
  have m: "?m < 2 ^ 23" by (rule f32_fields_lt(2))
  have d: "?m = ?m div 2 ^ 13 * 2 ^ 13 + ?m mod 2 ^ 13" by (rule div_mult_mod_eq [symmetric])
  have r: "?m mod 2 ^ 13 < 2 ^ 13" by simp
  have q: "?m div 2 ^ 13 \<le> 1023" using m by (simp add: less_mult_imp_div_less less_Suc_eq_le [symmetric])
  show ?thesis
  proof (cases "?m div 2 ^ 13 = 1023")
    case True
    have "round_half ?m 13 = 1024 \<longleftrightarrow> 2 ^ 12 \<le> ?m mod 2 ^ 13" unfolding round_half_def True by auto
    then have up: "round_half ?m 13 = 1024 \<longleftrightarrow> 4096 \<le> ?m mod 8192" by simp
    have "?m div 8192 = 1023" using True by simp
    then have "?m = 8380416 + ?m mod 8192" using div_mult_mod_eq [of ?m 8192] by linarith
    then have "4096 \<le> ?m mod 8192 \<longleftrightarrow> 8384512 \<le> ?m" by linarith
    then show ?thesis unfolding up by simp
  next
    case False
    then have le: "?m div 2 ^ 13 \<le> 1022" using q by simp
    then have "round_half ?m 13 \<noteq> 1024" using round_half_le [of ?m 13] by simp
    moreover have "?m div 2 ^ 13 * 2 ^ 13 \<le> 1022 * 2 ^ 13" using le by (rule mult_right_mono) simp
    then have "\<not> 4095 * 2 ^ 12 \<le> 2 ^ 23 + ?m" using d r by simp
    ultimately show ?thesis by simp
  qed
qed

lemma narrow_overflow:
  assumes "f32_exp x < 255"
  shows "f16_exp (f32_to_f16_bits x) = 31 \<longleftrightarrow> 65520 * 2 ^ 149 \<le> f32_mag x"
    and "f16_exp (f32_to_f16_bits x) = 31 \<Longrightarrow> f16_mant (f32_to_f16_bits x) = 0"
proof -
  obtain E M where h: "f32_to_f16_bits x = compose 5 10 (bit x 31) E M" "E < 32" "M < 1024" "E = 31 \<longrightarrow> M = 0"
    and E: "E = 31 \<longleftrightarrow> 143 \<le> f32_exp x \<or> f32_exp x = 142 \<and> round_half (f32_mant x) 13 = 1024"
    using narrow_fields [OF assms] by blast
  have f: "f16_exp (f32_to_f16_bits x) = E" "f16_mant (f32_to_f16_bits x) = M" using f16_compose_fields [OF h(2,3)] h(1) by simp_all
  then show "f16_exp (f32_to_f16_bits x) = 31 \<Longrightarrow> f16_mant (f32_to_f16_bits x) = 0" using h(4) by simp
  let ?N = "2 ^ 23 + f32_mant x"
  have N: "?N < 2 ^ 24" using f32_fields_lt(2) [of x] by simp
  consider (low) "f32_exp x < 142" | (top) "f32_exp x = 142" | (huge) "143 \<le> f32_exp x" by linarith
  then show "f16_exp (f32_to_f16_bits x) = 31 \<longleftrightarrow> 65520 * 2 ^ 149 \<le> f32_mag x"
  proof cases
    case low
    have "f32_mag x \<le> 2 ^ 24 * 2 ^ 140"
    proof (cases "f32_exp x = 0")
      case True
      then show ?thesis using f32_fields_lt(2) [of x] by (simp add: f32_mag_def)
    next
      case False
      have "?N * 2 ^ (f32_exp x - 1) \<le> 2 ^ 24 * 2 ^ 140" using low N by (intro mult_mono power_increasing) auto
      then show ?thesis using f32_mag_pos [of x] False by simp
    qed
    then show ?thesis using E low f by simp
  next
    case top
    have "4095 * 2 ^ 12 * 2 ^ 141 \<le> ?N * 2 ^ 141 \<longleftrightarrow> 4095 * 2 ^ 12 \<le> ?N" by (rule mult_le_cancel2 [THEN trans]) simp
    then show ?thesis using E top f f32_mag_pos [of x] round_up_top [of x] by simp
  next
    case huge
    have "2 ^ 23 * 2 ^ 142 \<le> ?N * 2 ^ (f32_exp x - 1)" using huge by (intro mult_mono power_increasing) auto
    then show ?thesis using E huge f f32_mag_pos [of x] by simp
  qed
qed

section \<open>Ties\<close>

lemma round_half_tie:
  assumes "0 < k" and tie: "dist (z * 2 ^ k) N = dist (round_half N k * 2 ^ k) N" and ne: "z \<noteq> round_half N k"
  shows "even (round_half N k)"
proof -
  let ?q = "N div 2 ^ k" and ?r = "N mod 2 ^ k" and ?h = "(2::nat) ^ (k - 1)"
  have N: "N = ?q * 2 ^ k + ?r" by (rule div_mult_mod_eq [symmetric])
  have r: "?r < 2 ^ k" by simp
  have h: "2 ^ k = 2 * ?h" using assms(1) by (cases k) auto
  have s: "(?q + 1) * 2 ^ k = ?q * 2 ^ k + 2 ^ k" by simp
  have lo: "dist (?q * 2 ^ k) N = ?r" and up: "dist ((?q + 1) * 2 ^ k) N = 2 ^ k - ?r" using N r s unfolding dist_def by linarith+
  have R: "round_half N k = (if ?r > ?h \<or> ?r = ?h \<and> odd ?q then ?q + 1 else ?q)" by (simp add: round_half_def)
  have near: "dist (round_half N k * 2 ^ k) N \<le> ?h"
  proof (cases "?r > ?h \<or> ?r = ?h \<and> odd ?q")
    case True
    then show ?thesis unfolding R if_P [OF True] up using h by linarith
  next
    case False
    then show ?thesis unfolding R if_not_P [OF False] lo by linarith
  qed
  have z: "z = ?q \<or> z = ?q + 1"
  proof (rule ccontr)
    assume "\<not> ?thesis"
    then consider "z + 1 \<le> ?q" | "?q + 2 \<le> z" by linarith
    then have "2 ^ k \<le> dist (z * 2 ^ k) N"
    proof cases
      case 1
      then have "(z + 1) * 2 ^ k \<le> ?q * 2 ^ k" by (intro mult_right_mono) auto
      then show ?thesis using N unfolding dist_def by simp
    next
      case 2
      then have "(?q + 2) * 2 ^ k \<le> z * 2 ^ k" by (intro mult_right_mono) auto
      then have "?q * 2 ^ k + 2 * 2 ^ k \<le> z * 2 ^ k" by (simp add: add_mult_distrib)
      then show ?thesis using N r unfolding dist_def by linarith
    qed
    moreover have "0 < ?h" by simp
    ultimately show False using tie near h by linarith
  qed
  have "?r = 2 ^ k - ?r"
  proof (cases "round_half N k = ?q")
    case True
    then show ?thesis using z ne tie lo up by simp
  next
    case False
    then have "round_half N k = ?q + 1" using R by (simp split: if_splits)
    then show ?thesis using z ne tie lo up by simp
  qed
  then have "?r = ?h" using h r by linarith
  then show ?thesis unfolding R by simp
qed

lemma even_f16: "even b \<longleftrightarrow> even (f16_mant b)"
  by (simp add: f16_mant_def more_masks even_take_bit_eq)

lemma narrow_tie_sub:
  assumes e: "102 \<le> f32_exp x" "f32_exp x \<le> 112" and R: "round_half (2 ^ 23 + f32_mant x) (126 - f32_exp x) < 1024"
    and tie: "dist (z * 2 ^ 125) (f32_mag x) = dist (f16_mag (f32_to_f16_bits x) * 2 ^ 125) (f32_mag x)" and ne: "z \<noteq> f16_mag (f32_to_f16_bits x)"
  shows "even (f32_to_f16_bits x)"
proof -
  let ?N = "2 ^ 23 + f32_mant x" and ?k = "126 - f32_exp x" and ?c = "2 ^ (f32_exp x - 1) :: nat"
  have r: "f16_mag (f32_to_f16_bits x) = round_half ?N ?k" "f16_mant (f32_to_f16_bits x) = round_half ?N ?k"
    using f32_to_f16_sub [OF e] R f16_compose_fields [of 0 "round_half ?N ?k"] by (simp_all add: f16_mag_def)
  have "?k + (f32_exp x - 1) = 125" using e by simp
  then have c: "(2::nat) ^ 125 = 2 ^ ?k * ?c" by (metis power_add)
  have m: "f32_mag x = ?N * ?c" using f32_mag_pos [of x] e by simp
  have s: "dist (a * 2 ^ 125) (?N * ?c) = dist (a * 2 ^ ?k) ?N * ?c" for a unfolding c mult.assoc [symmetric] dist_scale ..
  have "dist (z * 2 ^ ?k) ?N = dist (round_half ?N ?k * 2 ^ ?k) ?N" using tie by (simp only: r(1) m s mult_cancel2) simp
  then have "even (f16_mant (f32_to_f16_bits x))" using round_half_tie [of ?k z ?N] ne e unfolding r by simp
  then show ?thesis by (rule even_f16 [THEN iffD2])
qed

lemma round_half_shift: "round_half (2 ^ 23 + f32_mant x) 13 = 1024 + round_half (f32_mant x) 13"
proof -
  have "(2 ^ 23 + f32_mant x) div 2 ^ 13 = 1024 + f32_mant x div 2 ^ 13" "(2 ^ 23 + f32_mant x) mod 2 ^ 13 = f32_mant x mod 2 ^ 13"
    using div_mult_self3 [of "2 ^ 13" 1024 "f32_mant x"] mod_mult_self3 [of 1024 "2 ^ 13" "f32_mant x"] by simp_all
  then show ?thesis unfolding round_half_def by simp
qed

lemma low_binade:
  assumes "f16_exp y < f32_exp x - 112"
  shows "f16_mag y \<le> 1024 * 2 ^ (f32_exp x - 113)"
proof (cases "f16_exp y = 0")
  case True
  have "f16_mant y \<le> 1024 * 1" using f16_fields_lt(2) [of y] by simp
  also have "\<dots> \<le> 1024 * 2 ^ (f32_exp x - 113)" by (intro mult_left_mono) auto
  finally show ?thesis using True by (simp add: f16_mag_def)
next
  case False
  have "(1024 + f16_mant y) * 2 ^ (f16_exp y - 1) \<le> 2048 * 2 ^ (f16_exp y - 1)" using f16_fields_lt(2) [of y] by simp
  also have "\<dots> = 1024 * 2 ^ f16_exp y" using False by (cases "f16_exp y") auto
  also have "\<dots> \<le> 1024 * 2 ^ (f32_exp x - 113)" using assms by (intro mult_left_mono power_increasing) auto
  finally show ?thesis using False by (simp add: f16_mag_def)
qed

text \<open>A half smaller than every half of the binade of \<open>x\<close> is further away than the smallest of them, so it is never in a tie.\<close>

lemma narrow_tie_multiple:
  assumes e: "113 \<le> f32_exp x" "f32_exp x \<le> 142" and o: "f16_exp (f32_to_f16_bits x) < 31"
    and tie: "dist (f16_mag y * 2 ^ 125) (f32_mag x) = dist (f16_mag (f32_to_f16_bits x) * 2 ^ 125) (f32_mag x)"
  shows "\<exists>z. f16_mag y = z * 2 ^ (f32_exp x - 113)"
proof (cases "f32_exp x - 112 \<le> f16_exp y")
  case True
  have "f16_exp y - 1 = (f16_exp y - (f32_exp x - 112)) + (f32_exp x - 113)" "f16_exp y \<noteq> 0" using True e by simp_all
  then have "f16_mag y = (1024 + f16_mant y) * 2 ^ (f16_exp y - (f32_exp x - 112)) * 2 ^ (f32_exp x - 113)"
    unfolding f16_mag_def by (simp only: power_add mult.assoc if_False)
  then show ?thesis by blast
next
  case False
  let ?b = "compose 5 10 False (f32_exp x - 112) 0" and ?u = "2 ^ (f32_exp x - 113) :: nat"
  have b: "f16_exp ?b = f32_exp x - 112" "f16_mag ?b = 1024 * ?u"
    using f16_compose_fields [of "f32_exp x - 112" 0] e by (simp_all add: f16_mag_def)
  have near: "dist (f16_mag (f32_to_f16_bits x) * 2 ^ 125) (f32_mag x) \<le> dist (1024 * ?u * 2 ^ 125) (f32_mag x)"
    using narrow_nearest_normal [OF e o, of ?b] b by simp
  have le: "1024 * ?u * 2 ^ 125 \<le> f32_mag x"
  proof -
    have "f32_exp x - 113 + 125 = 13 + (f32_exp x - 1)" using e by simp
    then have "?u * 2 ^ 125 = 2 ^ 13 * 2 ^ (f32_exp x - 1)" by (metis power_add)
    then have "1024 * ?u * 2 ^ 125 = 2 ^ 23 * 2 ^ (f32_exp x - 1)" unfolding mult.assoc [of 1024] by simp
    also have "\<dots> \<le> (2 ^ 23 + f32_mant x) * 2 ^ (f32_exp x - 1)" by (intro mult_right_mono) auto
    finally show ?thesis using f32_mag_pos [of x] e by simp
  qed
  have "f16_mag y \<le> 1024 * ?u" by (rule low_binade) (use False in simp)
  moreover have "1024 * ?u * 2 ^ 125 \<le> f16_mag y * 2 ^ 125"
  proof (rule ccontr)
    assume "\<not> ?thesis"
    then show False using tie near le unfolding dist_def by linarith
  qed
  ultimately have "f16_mag y = 1024 * ?u" by simp
  then show ?thesis by blast
qed

lemma narrow_tie_normal:
  assumes e: "113 \<le> f32_exp x" "f32_exp x \<le> 142" and o: "f16_exp (f32_to_f16_bits x) < 31"
    and tie: "dist (f16_mag y * 2 ^ 125) (f32_mag x) = dist (f16_mag (f32_to_f16_bits x) * 2 ^ 125) (f32_mag x)"
    and ne: "f16_mag y \<noteq> f16_mag (f32_to_f16_bits x)"
  shows "even (f32_to_f16_bits x)"
proof -
  let ?N = "2 ^ 23 + f32_mant x" and ?u = "2 ^ (f32_exp x - 113) :: nat" and ?c = "2 ^ (f32_exp x - 1) :: nat" and ?h = "f32_to_f16_bits x"
  have "f32_exp x - 113 + 125 = 13 + (f32_exp x - 1)" using e by simp
  then have c: "?u * 2 ^ 125 = 2 ^ 13 * ?c" by (metis power_add)
  have m: "f32_mag x = ?N * ?c" using f32_mag_pos [of x] e by simp
  have s: "dist (z * ?u * 2 ^ 125) (?N * ?c) = dist (z * 2 ^ 13) ?N * ?c" for z
    unfolding mult.assoc [of z] c unfolding mult.assoc [symmetric] dist_scale ..
  have h: "f16_mag ?h = round_half ?N 13 * ?u" by (rule narrow_normal_mag [OF e o])
  obtain z where z: "f16_mag y = z * ?u" using narrow_tie_multiple [OF e o tie] by blast
  have "dist (z * 2 ^ 13) ?N = dist (round_half ?N 13 * 2 ^ 13) ?N" using tie by (simp only: h z m s mult_cancel2) simp
  then have ev: "even (round_half ?N 13)" using round_half_tie [of 13 z ?N] ne unfolding h z by auto
  have "even (f16_mant ?h)"
  proof (cases "round_half (f32_mant x) 13 = 1024")
    case True
    then show ?thesis using f32_to_f16_normal [OF e] e f16_compose_fields [of "f32_exp x - 112 + 1" 0] by (simp add: Let_def)
  next
    case False
    then have "f16_mant ?h = round_half (f32_mant x) 13"
      using f32_to_f16_normal [OF e] e f16_compose_fields [of "f32_exp x - 112" "round_half (f32_mant x) 13"] round_half_mant [of x] by (simp add: Let_def)
    then show ?thesis using ev unfolding round_half_shift by simp
  qed
  then show ?thesis by (rule even_f16 [THEN iffD2])
qed

lemma narrow_tie:
  assumes "f32_exp x < 255" and o: "f16_exp (f32_to_f16_bits x) < 31"
    and gap: "f32_mag x < 2 ^ 135 - 2 ^ 124 \<or> 2 ^ 135 \<le> f32_mag x"
    and tie: "dist (f16_mag y * 2 ^ 125) (f32_mag x) = dist (f16_mag (f32_to_f16_bits x) * 2 ^ 125) (f32_mag x)"
    and ne: "f16_mag y \<noteq> f16_mag (f32_to_f16_bits x)"
  shows "even (f32_to_f16_bits x)"
proof -
  have "f32_exp x \<le> 142"
  proof (rule ccontr)
    assume "\<not> ?thesis"
    then have "f32_to_f16_bits x = compose 5 10 (bit x 31) 31 0" using f32_to_f16_huge [OF _ assms(1)] by simp
    then show False using o f16_compose_fields(1) [of 31 0] by simp
  qed
  then consider (small) "f32_exp x < 102" | (sub) "102 \<le> f32_exp x" "f32_exp x \<le> 112" | (norm) "113 \<le> f32_exp x" "f32_exp x \<le> 142" by linarith
  then show ?thesis
  proof cases
    case small
    then have "f16_mant (f32_to_f16_bits x) = 0" using f32_to_f16_small [OF small] f16_compose_fields(2) [of 0 0] by simp
    then have "even (f16_mant (f32_to_f16_bits x))" by simp
    then show ?thesis by (rule even_f16 [THEN iffD2])
  next
    case sub
    then have "round_half (2 ^ 23 + f32_mant x) (126 - f32_exp x) < 1024" using narrow_sub_carry(2,3) [OF sub] gap by (meson leI not_le)
    then show ?thesis by (rule narrow_tie_sub [OF sub _ tie ne])
  next
    case norm
    then show ?thesis by (rule narrow_tie_normal [OF _ _ o tie ne])
  qed
qed

section \<open>Nearest signed halves\<close>

lemma narrow_nearest_signed:
  assumes x: "f32_exp x < 255" and o: "f16_exp (f32_to_f16_bits x) < 31" and y: "f16_exp y < 31"
    and gap: "f32_mag x < 2 ^ 135 - 2 ^ 124 \<or> 2 ^ 135 \<le> f32_mag x"
  defines "h \<equiv> f32_to_f16_bits x"
  shows "\<bar>f16_val h - f32_val x\<bar> \<le> \<bar>f16_val y - f32_val x\<bar>"
    and "\<bar>f16_val h - f32_val x\<bar> = \<bar>f16_val y - f32_val x\<bar> \<Longrightarrow> f16_val y \<noteq> f16_val h \<Longrightarrow> even h"
proof -
  note near = narrow_nearest [OF x o _ gap, folded h_def]
  have hd: "\<bar>f16_val h - f32_val x\<bar> = int (dist (f16_mag h * 2 ^ 125) (f32_mag x))"
    using val_dist_same [of h x] narrow_sign [OF x] by (simp add: h_def)
  have z: "f16_exp 0 = 0" "f16_mag 0 = 0" by (simp_all add: f16_exp_def f16_mant_def f16_mag_def)
  have zero: "dist (f16_mag h * 2 ^ 125) (f32_mag x) \<le> f32_mag x" using near [of 0] z by (simp add: dist_def)
  show "\<bar>f16_val h - f32_val x\<bar> \<le> \<bar>f16_val y - f32_val x\<bar>"
    using near [OF y] zero val_dist_same [of y x] val_dist_other [of y x] unfolding hd by (cases "bit y 15 = bit x 31") auto
  assume tie: "\<bar>f16_val h - f32_val x\<bar> = \<bar>f16_val y - f32_val x\<bar>" and ne: "f16_val y \<noteq> f16_val h"
  have "dist (f16_mag y * 2 ^ 125) (f32_mag x) = dist (f16_mag h * 2 ^ 125) (f32_mag x) \<and> f16_mag y \<noteq> f16_mag h"
  proof (cases "bit y 15 = bit x 31")
    case True
    then show ?thesis using tie ne val_dist_same [of y x] narrow_sign [OF x] unfolding hd by (auto simp: h_def f16_val_def)
  next
    case False
    then have d: "f16_mag y * 2 ^ 125 + f32_mag x = dist (f16_mag h * 2 ^ 125) (f32_mag x)" using tie val_dist_other [of y x] unfolding hd by simp
    then have "f16_mag y = 0" using zero by simp
    then show ?thesis using d ne f16_val_eq_0 [of y] f16_val_eq_0 [of h] by (auto simp: dist_def)
  qed
  then show "even h" using narrow_tie [OF x o gap, folded h_def] by blast
qed

end
