(* ===== verification/Fmt_Props.thy ===== *)
theory Fmt_Props
  imports Fmt_Decode Fmt_Round
begin

text \<open>
  The properties of weight layouts and quantized values: the tile order and the packings are invertible, padding is verified
  exactly, scale records tile their region, the sixteen-byte record and the half-precision codec round-trip, narrowing is
  nearest but for one interval, and block decoding agrees with the reference.
\<close>

section \<open>Instances\<close>

definition demo_dims :: padded_dims where
  "demo_dims = \<lparr>pd_n = 1, pd_k = 2, pd_n_padded = 16, pd_k_padded = 16\<rparr>"

lemma demo_dims_new: "padded_new 1 2 None = Inr demo_dims"
  by (simp add: padded_new_def demo_dims_def round_up_u32_def checked_add_def try_from_def)

lemma demo_dims_ok: "dims_ok demo_dims" "elems demo_dims = 256" "tile_count demo_dims = 1"
  by (simp_all add: demo_dims_def dims_ok_def elems_def tile_count_def n_tiles_def k_tiles_def)

lemma demo_dims_fields: "pd_n_padded demo_dims = 16" "pd_k_padded demo_dims = 16" "pd_n demo_dims = 1" "pd_k demo_dims = 2"
  by (simp_all add: demo_dims_def)

lemma padded_new_dims:
  assumes "n < 2 ^ 32" and "k < 2 ^ 32" and "block_of sb < 2 ^ 32" and "padded_new n k sb = Inr d"
  shows "dims_ok d" "pd_n d = n" "pd_k d = k"
proof -
  show "dims_ok d" by (rule padded_new_ok [OF assms])
  from iffD1 [OF padded_new_Inr [OF assms(1-3)] assms(4)]
  have "d = \<lparr>pd_n = n, pd_k = k, pd_n_padded = round_up n 16, pd_k_padded = round_up k (block_of sb)\<rparr>" by blast
  then show "pd_n d = n" "pd_k d = k" by simp_all
qed

lemma small_block: "block_of None < 2 ^ 32" "block_of (Some 256) < 2 ^ 32"
  by (simp_all add: block_of_def)

section \<open>Tile order\<close>

text \<open>C18. For dimensions that padding accepts, permuting padded row-major elements into tile order and permuting tile-order
  elements back are inverse to each other, on all inputs of the padded element count and no others; the element of row r and
  column c is found at the position that the forward index computes, inside the vector.\<close>

theorem tile_order_round_trip:
  assumes "n < 2 ^ 32" and "k < 2 ^ 32" and "block_of sb < 2 ^ 32" and "padded_new n k sb = Inr d"
  shows "(l1_forward_elems src d = Inr tiled \<longleftrightarrow> l1_inverse_elems tiled d = Inr src) \<and>
    ((\<exists>t. l1_forward_elems src d = Inr t) \<longleftrightarrow> length src = pd_n_padded d * pd_k_padded d) \<and>
    (l1_forward_elems src d = Inr tiled \<longrightarrow> r < pd_n_padded d \<longrightarrow> c < pd_k_padded d \<longrightarrow>
      (\<exists>p. l1_forward_index r c d = Inr p \<and> p < length tiled \<and> tiled ! p = src ! (r * pd_k_padded d + c)))"
proof (intro conjI impI)
  note d = padded_new_dims(1) [OF assms]
  show "l1_forward_elems src d = Inr tiled \<longleftrightarrow> l1_inverse_elems tiled d = Inr src"
    unfolding l1_forward_elems_eq [OF d] l1_inverse_elems_eq [OF d] using rows_tiled [OF d] tiled_rows [OF d] by auto
  show "(\<exists>t. l1_forward_elems src d = Inr t) \<longleftrightarrow> length src = pd_n_padded d * pd_k_padded d"
    by (simp add: l1_forward_elems_eq [OF d] elems_def)
  assume "l1_forward_elems src d = Inr tiled" "r < pd_n_padded d" "c < pd_k_padded d"
  then show "\<exists>p. l1_forward_index r c d = Inr p \<and> p < length tiled \<and> tiled ! p = src ! (r * pd_k_padded d + c)"
    using tiled_of_fwd [OF d, of r c src] fwd_lt [OF d, of r c] by (auto simp: l1_forward_elems_eq [OF d] l1_forward_index_eq in_grid_def row_major_def)
qed

theorem tile_order_round_trip_witness:
  "\<exists>tiled. l1_forward_elems [0..<256] demo_dims = Inr tiled \<and> l1_inverse_elems tiled demo_dims = Inr [0..<256] \<and>
     tiled ! 128 = 8"
proof -
  obtain tiled where t: "l1_forward_elems [0..<256] demo_dims = Inr tiled"
    using tile_order_round_trip [OF _ _ small_block(1) demo_dims_new, of "[0..<256]", THEN conjunct2, THEN conjunct1]
    by (auto simp: demo_dims_fields)
  have "l1_forward_index 0 8 demo_dims = Inr 128" by (simp add: l1_forward_index_def demo_dims_def k_tiles_def)
  then have "tiled ! 128 = 8" using tile_order_round_trip [OF _ _ small_block(1) demo_dims_new, of "[0..<256]" tiled 0 8] t
    by (auto simp: demo_dims_fields)
  then show ?thesis using t tile_order_round_trip [OF _ _ small_block(1) demo_dims_new, of "[0..<256]" tiled] by auto
qed

text \<open>C19. For dimensions that padding accepts, packing four-bit values, packing values of a supported bit-plane width and packing
  sparse indices each produce a byte stream exactly when unpacking that stream gives the values back, and every stream of bytes of
  the right length is the packing of what it unpacks to.\<close>

theorem packed_weights_round_trip:
  assumes "n < 2 ^ 32" and "k < 2 ^ 32" and "block_of sb < 2 ^ 32" and "padded_new n k sb = Inr d"
  shows "(l1_pack_nibbles src d = Inr bytes \<longleftrightarrow> l1_unpack_nibbles bytes d = Inr src \<and> (\<forall>b \<in> set bytes. b < 256)) \<and>
    (l1_pack_planes src d bits = Inr bytes \<longleftrightarrow> l1_unpack_planes bytes d bits = Inr src \<and> (\<forall>b \<in> set bytes. b < 256)) \<and>
    (l1s_pack_indices src d = Inr bytes \<longleftrightarrow> l1s_unpack_indices bytes d = Inr src \<and> (\<forall>b \<in> set bytes. b < 256)) \<and>
    ((\<exists>bs. l1_pack_nibbles src d = Inr bs) \<longleftrightarrow> length src = pd_n_padded d * pd_k_padded d \<and> (\<forall>v \<in> set src. v < 16))"
proof (intro conjI)
  note d = padded_new_dims(1) [OF assms]
  show "(\<exists>bs. l1_pack_nibbles src d = Inr bs) \<longleftrightarrow> length src = pd_n_padded d * pd_k_padded d \<and> (\<forall>v \<in> set src. v < 16)"
    by (simp add: l1_pack_nibbles_eq [OF d] elems_def)
qed (rule nibbles_inverse planes_inverse indices_inverse, rule padded_new_dims(1) [OF assms])+

theorem packed_weights_round_trip_witness:
  "\<exists>bytes. l1_pack_nibbles (replicate 256 9) demo_dims = Inr bytes \<and> l1_unpack_nibbles bytes demo_dims = Inr (replicate 256 9)"
proof -
  obtain bytes where "l1_pack_nibbles (replicate 256 9) demo_dims = Inr bytes"
    using packed_weights_round_trip [OF _ _ small_block(1) demo_dims_new, of "replicate 256 9",
        THEN conjunct2, THEN conjunct2, THEN conjunct2] by (auto simp: demo_dims_fields)
  then show ?thesis using packed_weights_round_trip [OF _ _ small_block(1) demo_dims_new, of "replicate 256 9" bytes] by auto
qed

text \<open>C20. A tile-order vector passes the padding check exactly when it is the tile order of some unpadded matrix padded with zeros,
  and padding keeps every element of that matrix.\<close>

theorem padding_verified_exactly:
  assumes "n < 2 ^ 32" and "k < 2 ^ 32" and "block_of sb < 2 ^ 32" and "padded_new n k sb = Inr d"
  shows "(verify_padding_zeros_elems tiled d = Inr () \<longleftrightarrow>
      (\<exists>src rows. pad_row_major_elems src n k d = Inr rows \<and> l1_forward_elems rows d = Inr tiled)) \<and>
    (pad_row_major_elems src n k d = Inr rows \<longrightarrow> r < n \<longrightarrow> c < k \<longrightarrow> rows ! (r * pd_k_padded d + c) = src ! (r * k + c))"
proof (intro conjI impI)
  note d = padded_new_dims [OF assms]
  have in_g: "in_grid d (r, c)" if "r < n" "c < k" for r c using that d by (auto simp: dims_ok_def in_grid_def)
  show "rows ! (r * pd_k_padded d + c) = src ! (r * k + c)" if "pad_row_major_elems src n k d = Inr rows" and "r < n" and "c < k"
    using that padded_rows_nth [OF in_g, of r c src] d by (auto simp: pad_row_major_elems_eq [OF d(1)] row_major_def)
  show "verify_padding_zeros_elems tiled d = Inr () \<longleftrightarrow>
      (\<exists>src rows. pad_row_major_elems src n k d = Inr rows \<and> l1_forward_elems rows d = Inr tiled)" (is "?V \<longleftrightarrow> ?E")
  proof
    assume ?V
    then have l: "length tiled = elems d" and z: "\<And>r c. in_grid d (r, c) \<Longrightarrow> \<not> (r < pd_n d \<and> c < pd_k d) \<Longrightarrow> tiled ! fwd d r c = 0"
      by (auto simp: verify_padding_zeros_eq [OF d(1)])
    let ?src = "map (\<lambda>i. rows_of d tiled ! row_major d (i div k, i mod k)) [0..<n * k]"
    have "padded_rows d ?src = rows_of d tiled"
    proof (rule nth_equalityI)
      fix i assume "i < length (padded_rows d ?src)"
      then have i: "i < elems d" by simp
      define r c where "r = i div pd_k_padded d" and "c = i mod pd_k_padded d"
      have rc: "in_grid d (r, c)" "row_major d (r, c) = i" using row_major_cell_of [OF i] by (simp_all add: r_def c_def)
      have v: "rows_of d tiled ! i = tiled ! fwd d r c" using rows_of_row_major [OF rc(1), of tiled] rc(2) by simp
      show "padded_rows d ?src ! i = rows_of d tiled ! i"
      proof (cases "r < n \<and> c < k")
        case True
        then have "r * k + c < n * k" "(r * k + c) div k = r" "(r * k + c) mod k = c" using mixed_lt mixed_div_mod by auto
        then show ?thesis using padded_rows_nth [OF rc(1), of ?src] True d rc(2) by simp
      next
        case False
        then show ?thesis using padded_rows_nth [OF rc(1), of ?src] z [OF rc(1)] v d rc(2) by auto
      qed
    qed simp
    moreover have "length ?src = n * k" by simp
    ultimately have "pad_row_major_elems ?src n k d = Inr (rows_of d tiled)" using d by (simp add: pad_row_major_elems_eq [OF d(1)])
    then show ?E using tiled_rows [OF d(1) l] l1_forward_elems_eq [OF d(1), of "rows_of d tiled" tiled] by fastforce
  next
    assume ?E
    then obtain src where "tiled = tiled_of d (padded_rows d src)" by (auto simp: pad_row_major_elems_eq [OF d(1)] l1_forward_elems_eq [OF d(1)])
    then show ?V using tiled_of_fwd [OF d(1)] padded_rows_nth by (auto simp: verify_padding_zeros_eq [OF d(1)])
  qed
qed

theorem padding_verified_exactly_witness:
  "\<exists>rows tiled. pad_row_major_elems [5, 6] 1 2 demo_dims = Inr rows \<and> rows ! 1 = 6 \<and> l1_forward_elems rows demo_dims = Inr tiled \<and>
     verify_padding_zeros_elems tiled demo_dims = Inr ()"
proof -
  obtain rows where r: "pad_row_major_elems [5, 6] 1 2 demo_dims = Inr rows" "length rows = elems demo_dims"
    using pad_row_major_elems_eq [OF demo_dims_ok(1), of "[5, 6]" 1 2] by (auto simp: demo_dims_def)
  obtain tiled where t: "l1_forward_elems rows demo_dims = Inr tiled" using l1_forward_elems_eq [OF demo_dims_ok(1)] r(2) by blast
  have "rows ! 1 = 6" using padding_verified_exactly [OF _ _ small_block(1) demo_dims_new, of tiled "[5, 6]" rows 0 1] r(1) by simp
  then show ?thesis using r(1) t padding_verified_exactly [OF _ _ small_block(1) demo_dims_new, of tiled] by auto
qed

section \<open>Scale records\<close>

lemma div_window: "0 < B \<Longrightarrow> j * B \<le> a \<and> a < j * B + B \<longleftrightarrow> j = a div (B::nat)"
proof
  assume "0 < B" "j * B \<le> a \<and> a < j * B + B"
  then show "j = a div B" by (intro div_nat_eqI [symmetric]) (simp_all add: mult.commute)
next
  assume B: "0 < B" and j: "j = a div B"
  show "j * B \<le> a \<and> a < j * B + B" unfolding j using div_mult_mod_eq [of a B] mod_less_divisor [OF B, of a] by linarith
qed

text \<open>C21. When a scheme has a scale geometry over padded dimensions, the scheme is native, the region has the bytes of its records and
  every byte of the region belongs to the record of exactly one row block, K block and row; a record offset exists exactly for the
  indices in range.\<close>

theorem scale_records_tile_region:
  assumes "n < 2 ^ 32" and "k < 2 ^ 32" and "block_of sb < 2 ^ 32" and "padded_new n k sb = Inr d" and g: "scale_geometry_of s l d = Inr g"
  shows "is_native s \<and> ((\<exists>off. record_offset g nb kb row = Inr off) \<longleftrightarrow> nb < sg_n_blocks g \<and> kb < sg_k_blocks g \<and> row < 16) \<and>
    (a < sg_region_bytes g \<longrightarrow>
       (\<exists>!(nb, kb, row). \<exists>off. record_offset g nb kb row = Inr off \<and> off \<le> a \<and> a < off + sg_record_bytes g)) \<and>
    (record_offset g nb kb row = Inr off \<longrightarrow> off + sg_record_bytes g \<le> sg_region_bytes g)"
proof (intro conjI impI)
  note d = padded_new_dims(1) [OF assms(1-4)]
  note e = scale_geometry_eq [OF d g] and off = record_offset_eq [OF d g]
  let ?B = "sg_record_bytes g" and ?K = "sg_k_blocks g"
  have B: "0 < ?B" using e(4) by auto
  show "is_native s" by (rule e(7))
  show "(\<exists>off. record_offset g nb kb row = Inr off) \<longleftrightarrow> nb < sg_n_blocks g \<and> kb < sg_k_blocks g \<and> row < 16" by (simp add: off)
  show "off + ?B \<le> sg_region_bytes g" if "record_offset g nb kb row = Inr off"
  proof -
    have o: "nb < sg_n_blocks g" "kb < ?K" "row < 16" "off = ((nb * ?K + kb) * 16 + row) * ?B" using that by (auto simp: off)
    have "(nb * ?K + kb) * 16 + row < sg_records g" unfolding e(1) by (intro mixed_lt o)
    then have "Suc ((nb * ?K + kb) * 16 + row) * ?B \<le> sg_records g * ?B" by (intro mult_right_mono) auto
    then show ?thesis unfolding e(2) o(4) by simp
  qed
  assume a: "a < sg_region_bytes g"
  define i where "i = a div ?B"
  have i: "i < sg_n_blocks g * ?K * 16" using a unfolding e(1,2) i_def by (simp add: less_mult_imp_div_less)
  have at: "((nb * ?K + kb) * 16 + row) * ?B \<le> a \<and> a < ((nb * ?K + kb) * 16 + row) * ?B + ?B \<longleftrightarrow> (nb * ?K + kb) * 16 + row = i" for nb kb row
    unfolding i_def by (rule div_window [OF B])
  have K: "0 < ?K" using i by (auto intro: gr0I)
  have r: "i div 16 div ?K < sg_n_blocks g" "i div 16 mod ?K < ?K" using i K by (simp_all add: less_mult_imp_div_less)
  show "\<exists>!(nb, kb, row). \<exists>off. record_offset g nb kb row = Inr off \<and> off \<le> a \<and> a < off + ?B"
  proof (rule ex1I [of _ "(i div 16 div ?K, i div 16 mod ?K, i mod 16)"], goal_cases)
    case 1
    have "(i div 16 div ?K * ?K + i div 16 mod ?K) * 16 + i mod 16 = i" by (simp only: div_mult_mod_eq)
    with at have "((i div 16 div ?K * ?K + i div 16 mod ?K) * 16 + i mod 16) * ?B \<le> a \<and>
        a < ((i div 16 div ?K * ?K + i div 16 mod ?K) * 16 + i mod 16) * ?B + ?B" by blast
    then show ?case using r unfolding off prod.case by (intro exI) auto
  next
    case (2 t)
    obtain nb kb row where t: "t = (nb, kb, row)" by (cases t)
    then have o: "kb < ?K" "row < 16" "(nb * ?K + kb) * 16 + row = i" using 2 at [of nb kb row] by (auto simp: off)
    then show ?case unfolding t using mixed_div_mod [OF o(2), of "nb * ?K + kb"] mixed_div_mod [OF o(1), of nb] by simp
  qed
qed

definition demo_block_dims :: padded_dims where
  "demo_block_dims = \<lparr>pd_n = 20, pd_k = 300, pd_n_padded = 32, pd_k_padded = 512\<rparr>"

definition demo_geometry :: scale_geometry where
  "demo_geometry = \<lparr>sg_scheme = I4K, sg_n_blocks = 2, sg_k_blocks = 2, sg_record_bytes = 16, sg_records = 64, sg_region_bytes = 1024\<rparr>"

theorem scale_records_tile_region_witness:
  "scale_geometry_of I4K Lay_L1 demo_block_dims = Inr demo_geometry \<and> is_native I4K \<and> (\<exists>off. record_offset demo_geometry 1 1 15 = Inr off)"
proof -
  have d: "padded_new 20 300 (Some 256) = Inr demo_block_dims"
    by (simp add: padded_new_def demo_block_dims_def round_up_u32_def checked_add_def try_from_def)
  have g: "scale_geometry_of I4K Lay_L1 demo_block_dims = Inr demo_geometry"
    by (simp add: scale_geometry_of_def scale_record_bytes_def outer_block_def as_native_def scale_block_counts_def scale_record_count_def
        scale_region_bytes_def n_tiles_def checked_mul_def demo_block_dims_def demo_geometry_def)
  have "is_native I4K \<and> ((\<exists>off. record_offset demo_geometry 1 1 15 = Inr off) \<longleftrightarrow> 1 < sg_n_blocks demo_geometry \<and> 1 < sg_k_blocks demo_geometry \<and> (15::nat) < 16)"
    using scale_records_tile_region [OF _ _ small_block(2) d g, of 1 1 15] by simp
  then show ?thesis using g by (simp add: demo_geometry_def)
qed

lemma i4k_to_bytes_ok:
  assumes "i4k_ok r"
  shows "length (i4k_to_bytes r) = 16" "\<forall>b \<in> set (i4k_to_bytes r). b < 256"
proof -
  show "length (i4k_to_bytes r) = 16" by (simp add: i4k_to_bytes_def to_le_bytes16_def Let_def)
  have lt: "a OR take_bit 8 b < 256" if "a < 256" for a b :: nat
    using or_lt [of a 8 "take_bit 8 b"] that take_bit_nat_less_exp [of 8 b] by simp
  have "v AND 15 < 256" for v :: nat using byte_halves(3) [of v] by simp
  moreover have "sb_sc r ! j < 256" "sb_mn r ! j < 256" if "j < 8" for j
  proof -
    have "sb_sc r ! j < 64" "sb_mn r ! j < 64" using assms that unfolding i4k_ok_def by simp_all
    then show "sb_sc r ! j < 256" "sb_mn r ! j < 256" by simp_all
  qed
  ultimately show "\<forall>b \<in> set (i4k_to_bytes r). b < 256"
    by (auto simp: i4k_to_bytes_def to_le_bytes16_def Let_def simp del: take_bit_and push_bit_and intro!: lt)
qed

text \<open>C22. The sixteen-byte superblock record: serialising a valid header and parsing sixteen bytes are inverse to each other, so
  every sixteen bytes are the serialisation of exactly one valid header.\<close>

theorem i4k_record_round_trip:
  "i4k_ok r \<and> i4k_to_bytes r = bytes \<longleftrightarrow> i4k_from_bytes bytes = r \<and> length bytes = 16 \<and> (\<forall>b \<in> set bytes. b < 256)"
  using i4k_from_to i4k_to_from i4k_to_bytes_ok by blast

theorem i4k_record_round_trip_witness:
  "i4k_to_bytes (i4k_from_bytes [0..<16]) = [0..<16] \<and> i4k_ok (i4k_from_bytes [0..<16])"
  using i4k_record_round_trip [of "i4k_from_bytes [0..<16]" "[0..<16]"] by simp

section \<open>Halves\<close>

text \<open>C24. Widening a finite half to single precision keeps its sign and its exact magnitude, and narrowing the widened pattern of
  any half that is not a NaN gives the half back.\<close>

theorem half_round_trip:
  assumes "b < 2 ^ 16" and "\<not> (f16_exp b = 31 \<and> f16_mant b \<noteq> 0)"
  shows "f32_to_f16_bits (f16_to_f32 b) = b \<and>
    (f16_exp b < 31 \<longrightarrow> f32_mag (f16_to_f32 b) = f16_mag b * 2 ^ 125 \<and> bit (f16_to_f32 b) 31 = bit b 15)"
  using narrow_widen [OF assms] widen_exact by blast

theorem half_round_trip_witness: "f32_to_f16_bits (f16_to_f32 5) = 5 \<and> f16_mag 5 = 5"
proof -
  have "f16_exp 5 = 0" "f16_mant 5 = 5" by (simp_all add: f16_exp_def f16_mant_def more_masks take_bit_eq_mod drop_bit_eq_div)
  then show ?thesis using half_round_trip [of 5] by (simp add: f16_mag_def)
qed

text \<open>C23. Narrowing a finite single to a half keeps the sign. It overflows to infinity exactly from \<open>65520\<close> on, the midpoint above the largest
  half. Otherwise the result is a finite half at least as near as any other finite half, and with a different half equally near its
  last bit is even, provided the magnitude is not in the interval from \<open>2 ^ -14 - 2 ^ -25\<close> up to but excluding \<open>2 ^ -14\<close>; on that
  interval the result is a zero, although the half of magnitude \<open>2 ^ -14\<close> and the same sign is nearer. Values are signed and counted in
  units of \<open>2 ^ -149\<close>.\<close>

theorem narrowing_nearest_but_for_gap:
  assumes "f32_exp x < 255" and "f16_exp y < 31"
  defines "h \<equiv> f32_to_f16_bits x"
  shows "bit h 15 = bit x 31 \<and>
    (if 65520 * 2 ^ 149 \<le> f32_mag x then f16_exp h = 31 \<and> f16_mant h = 0
     else f16_exp h < 31 \<and>
       (if 2 ^ 135 - 2 ^ 124 \<le> f32_mag x \<and> f32_mag x < 2 ^ 135
        then f16_mag h = 0 \<and> \<bar>f16_val (if bit x 31 then 0x8400 else 0x400) - f32_val x\<bar> < \<bar>f16_val h - f32_val x\<bar>
        else \<bar>f16_val h - f32_val x\<bar> \<le> \<bar>f16_val y - f32_val x\<bar> \<and>
          (\<bar>f16_val h - f32_val x\<bar> = \<bar>f16_val y - f32_val x\<bar> \<and> f16_val y \<noteq> f16_val h \<longrightarrow> even h)))"
proof (intro conjI)
  note over = narrow_overflow [OF assms(1), folded h_def]
  show sign: "bit h 15 = bit x 31" unfolding h_def by (rule narrow_sign [OF assms(1)])
  show "if 65520 * 2 ^ 149 \<le> f32_mag x then f16_exp h = 31 \<and> f16_mant h = 0
     else f16_exp h < 31 \<and>
       (if 2 ^ 135 - 2 ^ 124 \<le> f32_mag x \<and> f32_mag x < 2 ^ 135
        then f16_mag h = 0 \<and> \<bar>f16_val (if bit x 31 then 0x8400 else 0x400) - f32_val x\<bar> < \<bar>f16_val h - f32_val x\<bar>
        else \<bar>f16_val h - f32_val x\<bar> \<le> \<bar>f16_val y - f32_val x\<bar> \<and>
          (\<bar>f16_val h - f32_val x\<bar> = \<bar>f16_val y - f32_val x\<bar> \<and> f16_val y \<noteq> f16_val h \<longrightarrow> even h))" (is "if ?big then _ else _ \<and> ?rest")
  proof (cases ?big)
    case True
    then show ?thesis unfolding if_P [OF True] using over by blast
  next
    case False
    then have fin: "f16_exp h < 31" using over(1) f16_fields_lt(1) [of h] by linarith
    have ?rest
    proof (cases "2 ^ 135 - 2 ^ 124 \<le> f32_mag x \<and> f32_mag x < 2 ^ 135")
      case True
      have z: "f16_mag h = 0" unfolding h_def using narrow_gap True by blast
      let ?b = "if bit x 31 then 0x8400 else 0x400 :: nat"
      have b: "f16_mag ?b = 1024" "bit ?b 15 = bit x 31"
        by (simp_all add: f16_mag_def f16_exp_def f16_mant_def more_masks take_bit_eq_mod drop_bit_eq_div bit_iff_odd)
      have "dist (f16_mag ?b * 2 ^ 125) (f32_mag x) < dist 0 (f32_mag x)" unfolding b(1) using True by (simp add: dist_def) linarith
      then have "\<bar>f16_val ?b - f32_val x\<bar> < \<bar>f16_val h - f32_val x\<bar>"
        using val_dist_same [OF b(2)] val_dist_same [OF sign] z by simp
      then show ?thesis using z True by simp
    next
      case gap: False
      then have "f32_mag x < 2 ^ 135 - 2 ^ 124 \<or> 2 ^ 135 \<le> f32_mag x" by (meson not_le)
      then show ?thesis unfolding if_not_P [OF gap]
        using narrow_nearest_signed [OF assms(1) fin [unfolded h_def] assms(2), folded h_def] by blast
    qed
    then show ?thesis using fin unfolding if_not_P [OF False] by blast
  qed
qed

text \<open>The largest negative single above \<open>-2 ^ -14\<close>, and the midpoint of \<open>1\<close> and the next half.\<close>

theorem narrowing_nearest_but_for_gap_witness:
  "bit (f32_to_f16_bits 0xB87FFFFF) 15 \<and> f16_mag (f32_to_f16_bits 0xB87FFFFF) = 0 \<and>
   \<bar>f16_val 0x8400 - f32_val 0xB87FFFFF\<bar> < \<bar>f16_val (f32_to_f16_bits 0xB87FFFFF) - f32_val 0xB87FFFFF\<bar> \<and>
   f32_to_f16_bits 0x3F801000 = 0x3C00 \<and>
   \<bar>f16_val 0x3C00 - f32_val 0x3F801000\<bar> \<le> \<bar>f16_val 0x3C01 - f32_val 0x3F801000\<bar>"
proof -
  have f: "f32_exp 0xB87FFFFF = 112" "f32_mant 0xB87FFFFF = 0x7FFFFF" "f32_exp 0x3F801000 = 127" "f32_mant 0x3F801000 = 0x1000"
    by (simp_all add: f32_exp_def f32_mant_def more_masks take_bit_eq_mod drop_bit_eq_div)
  have b: "bit (0xB87FFFFF::nat) 31" "\<not> bit (0x3F801000::nat) 31" by (simp_all add: bit_iff_odd)
  have m: "f32_mag 0xB87FFFFF = 0xFFFFFF * 2 ^ 111" "f32_mag 0x3F801000 = 0x801000 * 2 ^ 126" using f by (simp_all add: f32_mag_def)
  have e: "f16_exp 0 = 0" "f16_exp 0x3C01 = 15" by (simp_all add: f16_exp_def more_masks take_bit_eq_mod drop_bit_eq_div)
  have t: "f32_to_f16_bits 0x3F801000 = 0x3C00"
    using f32_to_f16_normal [of "0x3F801000"] f b by (simp add: round_half_def compose_def sign_of_def push_bit_eq_mult Let_def)
  show ?thesis
    using narrowing_nearest_but_for_gap [of "0xB87FFFFF" 0] narrowing_nearest_but_for_gap [of "0x3F801000" "0x3C01"] f b m e t by simp
qed

section \<open>Dequantization\<close>

text \<open>C25. The three block decoders agree with the single-value reference: whatever they return, the weight at each position is the
  reference decoding of the value there with the validated scales of its block, and they return a result exactly for blocks of the
  right length, with one scale per block, valid scales and values in range.\<close>

theorem block_decoders_match_reference:
  "(decode_i8_block128 q8 scales = Inr out \<longrightarrow> length out = length q8 \<and>
      (\<forall>i < length q8. decode I8B128 (QV_I8 (q8 ! i)) (SS_F16 (f16_to_f32 (scales ! (i div 128)))) = Inr (out ! i))) \<and>
   (decode_e4m3_block128 qe scales = Inr out \<longrightarrow> length out = length qe \<and>
      (\<forall>i < length qe. decode E4M3B128 (QV_E4M3 (qe ! i)) (SS_F16 (f16_to_f32 (scales ! (i div 128)))) = Inr (out ! i))) \<and>
   (decode_i4k_superblock q4 h = Inr out \<longrightarrow> length out = 256 \<and>
      (\<forall>i < 256. decode I4K (QV_I4 (q4 ! i))
         (SS_I4K (f16_to_f32 (sb_d h)) (sb_sc h ! (i div 32)) (f16_to_f32 (sb_dmin h)) (sb_mn h ! (i div 32))) = Inr (out ! i))) \<and>
   ((\<exists>out. decode_i8_block128 q8 scales = Inr out) \<longleftrightarrow>
      q8 \<noteq> [] \<and> length q8 = length scales * 128 \<and> (\<forall>s \<in> set scales. f16_exp s < 31 \<and> (bit s 15 \<longrightarrow> f16_mag s = 0))) \<and>
   ((\<exists>out. decode_e4m3_block128 qe scales = Inr out) \<longleftrightarrow> (\<forall>v \<in> set qe. \<not> e4m3_is_nan v) \<and>
      qe \<noteq> [] \<and> length qe = length scales * 128 \<and> (\<forall>s \<in> set scales. f16_exp s < 31 \<and> (bit s 15 \<longrightarrow> f16_mag s = 0))) \<and>
   ((\<exists>out. decode_i4k_superblock q4 h = Inr out) \<longleftrightarrow> length q4 = 256 \<and> (\<forall>v \<in> set q4. v < 16) \<and>
      (\<forall>s \<in> {sb_d h, sb_dmin h}. f16_exp s < 31 \<and> (bit s 15 \<longrightarrow> f16_mag s = 0)))"
proof (intro conjI impI, goal_cases)
  case 2
  then show ?case by (simp add: decode_i8_block128_eq decode_def as_native_def)
next
  case 4
  then show ?case by (simp add: decode_e4m3_block128_eq decode_def as_native_def e4m3_check_def)
next
  case 6
  show ?case
  proof (intro allI impI)
    fix i :: nat assume i: "i < 256"
    have "q4 ! i < 16" "out ! i = i4k_weight h (i div 32) (q4 ! i)" using 6 i by (auto simp: decode_i4k_superblock_eq)
    then show "decode I4K (QV_I4 (q4 ! i))
         (SS_I4K (f16_to_f32 (sb_d h)) (sb_sc h ! (i div 32)) (f16_to_f32 (sb_dmin h)) (sb_mn h ! (i div 32))) = Inr (out ! i)"
      by (simp add: decode_def as_native_def i4k_weight_def)
  qed
qed (simp_all add: decode_i8_block128_eq decode_e4m3_block128_eq decode_i4k_superblock_eq scale_ok_widen conj_ac)

theorem block_decoders_match_reference_witness:
  "\<exists>out. decode_i8_block128 (replicate 128 (-3)) [0x3C00] = Inr out \<and>
     decode I8B128 (QV_I8 (-3)) (SS_F16 (f16_to_f32 0x3C00)) = Inr (out ! 5)"
proof -
  have "f16_exp 0x3C00 = 15" "\<not> bit (0x3C00::nat) 15" by (simp_all add: f16_exp_def more_masks take_bit_eq_mod drop_bit_eq_div bit_iff_odd)
  then obtain out where o: "decode_i8_block128 (replicate 128 (-3)) [0x3C00] = Inr out"
    using block_decoders_match_reference [of "replicate 128 (-3)" "[0x3C00]", THEN conjunct2, THEN conjunct2, THEN conjunct2, THEN conjunct1] by auto
  then have "decode I8B128 (QV_I8 (replicate 128 (-3) ! 5)) (SS_F16 (f16_to_f32 ([0x3C00] ! (5 div 128)))) = Inr (out ! 5)"
    using block_decoders_match_reference [of "replicate 128 (-3)" "[0x3C00]" out, THEN conjunct1] by simp
  then show ?thesis using o by auto
qed

end
