(* ===== verification/Dev_Arch.thy ===== *)
theory Dev_Arch
  imports Ir_Tensor
begin

text \<open>
  Devices as the planner sees them (\<open>crates/r9v-ir/src/arch.rs\<close>): what an instruction set offers, what
  one physical device reports, and what was measured. Dimensions, dtypes and layouts are those of
  \<^theory_text>\<open>Ir_Tensor\<close>, rates and clocks are binary32 values of \<^theory_text>\<open>F32\<close>. Strings are their UTF-8 bytes.
\<close>

datatype arch_family = Rdna4 | Rdna3 | Cdna3 | Reference | FamilyCpu

datatype arch_error =
    NonPositiveRate f32
  | ArchZeroExtent nat
  | InvalidAccumulator dtype
  | ArchMultiple "arch_error list"

type_synonym rel_rate = f32

definition rel_rate_new :: "f32 \<Rightarrow> (arch_error, rel_rate) result" where
  "rel_rate_new v = (if is_finite v \<and> f32_less f32_zero v then Inr v else Inl (NonPositiveRate v))"

record matrix_op =
  mo_shape :: "nat list"
  mo_a :: dtype
  mo_b :: dtype
  mo_acc :: dtype
  mo_rate :: rel_rate

definition matrix_op_new :: "nat list \<Rightarrow> dtype \<Rightarrow> dtype \<Rightarrow> dtype \<Rightarrow> rel_rate \<Rightarrow> (arch_error, matrix_op) result" where
  "matrix_op_new shape a b acc rate =
     (let problems = concat (map (\<lambda>(axis, dim). if dim = 0 then [ArchZeroExtent axis] else []) (List.enumerate 0 shape))
        @ (if acc \<in> {dtype.F32, I32} then [] else [InvalidAccumulator acc])
      in case problems of
           [] \<Rightarrow> Inr \<lparr>mo_shape = shape, mo_a = a, mo_b = b, mo_acc = acc, mo_rate = rate\<rparr>
         | [p] \<Rightarrow> Inl p
         | _ \<Rightarrow> Inl (ArchMultiple problems))"

datatype valu_dot = Dot4I32I8 | Dot2F32F16 | Dot2F32Bf16

datatype graph_capture = CaptureSupported | CaptureUnstable | CaptureNone

datatype device_identity = IdentityCpu | IdentityGpu "nat list option" string

record device_facts =
  df_identity :: device_identity
  df_cu_count :: nat
  df_vram_bytes :: nat
  df_l2_bytes :: "nat option"
  df_l3_bytes :: "nat option"
  df_nominal_mem_bw_gbps :: "f32 option"
  df_clock_mhz :: "f32 option"
  df_graph_capture :: graph_capture

datatype p2p_transport = Direct | HostStaged

record p2p_link =
  pl_peer_rank :: nat
  pl_transport :: p2p_transport
  pl_measured_gbps :: "f32 option"

record measured =
  me_mem_bw_gbps :: "f32 option"
  me_dispatch_overhead_us :: "f32 option"
  me_matrix_rates :: "rel_rate list"
  me_h2d_gbps :: "f32 option"
  me_d2h_gbps :: "f32 option"

definition measured_empty :: measured where
  "measured_empty = \<lparr>me_mem_bw_gbps = None, me_dispatch_overhead_us = None, me_matrix_rates = [], me_h2d_gbps = None, me_d2h_gbps = None\<rparr>"

definition measured_is_empty :: "measured \<Rightarrow> bool" where
  "measured_is_empty m \<longleftrightarrow> me_mem_bw_gbps m = None \<and> me_dispatch_overhead_us m = None \<and> me_matrix_rates m = [] \<and>
     me_h2d_gbps m = None \<and> me_d2h_gbps m = None"

record arch_descriptor =
  ar_name :: string
  ar_family :: arch_family
  ar_wave_size :: nat
  ar_lds_bytes_per_wg :: nat
  ar_vgprs_per_lane :: nat
  ar_matrix_ops :: "matrix_op list"
  ar_valu_dot :: "valu_dot list"
  ar_fp8_convert :: bool
  ar_sparse_matrix :: bool
  ar_fragment_layout :: layout_id
  ar_attention_layout :: layout_id
  ar_max_wg_size :: nat

record device_descriptor =
  dd_arch :: arch_descriptor
  dd_facts :: device_facts
  dd_measured :: measured
  dd_p2p :: "p2p_link list"

text \<open>The closure of \<open>gfx1201\<close> that expects its literals to be accepted; \<open>None\<close> is its panic.\<close>

definition expect_mat :: "nat list \<Rightarrow> dtype \<Rightarrow> dtype \<Rightarrow> dtype \<Rightarrow> f32 \<Rightarrow> matrix_op option" where
  "expect_mat shape a b acc r =
     (case bind_r (rel_rate_new r) (matrix_op_new shape a b acc) of Inl _ \<Rightarrow> None | Inr m \<Rightarrow> Some m)"

definition f32_two :: f32 where "f32_two = f32_of_nat 2"

definition gfx1201 :: "arch_descriptor option" where
  "gfx1201 =
     (case those
        [expect_mat [16, 16, 16] F16 F16 dtype.F32 f32_one,
         expect_mat [16, 16, 16] Bf16 Bf16 dtype.F32 f32_one,
         expect_mat [16, 16, 16] E4m3 E4m3 dtype.F32 f32_two,
         expect_mat [16, 16, 16] E4m3 E5m2 dtype.F32 f32_two,
         expect_mat [16, 16, 16] I8 I8 I32 f32_two,
         expect_mat [16, 16, 32] I4 I4 I32 f32_two] of
        None \<Rightarrow> None
      | Some ops \<Rightarrow>
          Some \<lparr>ar_name = ''gfx1201'', ar_family = Rdna4, ar_wave_size = 32, ar_lds_bytes_per_wg = 64 * 1024, ar_vgprs_per_lane = 256,
                ar_matrix_ops = ops, ar_valu_dot = [Dot4I32I8], ar_fp8_convert = True, ar_sparse_matrix = True,
                ar_fragment_layout = L1, ar_attention_layout = ATTENTION_GFX1201, ar_max_wg_size = 1024\<rparr>)"

definition arch_cpu :: arch_descriptor where
  "arch_cpu =
     \<lparr>ar_name = ''cpu'', ar_family = FamilyCpu, ar_wave_size = 1, ar_lds_bytes_per_wg = 0, ar_vgprs_per_lane = 0,
      ar_matrix_ops = [], ar_valu_dot = [], ar_fp8_convert = False, ar_sparse_matrix = False,
      ar_fragment_layout = CONTIGUOUS, ar_attention_layout = CONTIGUOUS, ar_max_wg_size = 1\<rparr>"

definition device_cpu :: device_descriptor where
  "device_cpu =
     \<lparr>dd_arch = arch_cpu,
      dd_facts = \<lparr>df_identity = IdentityCpu, df_cu_count = 1, df_vram_bytes = 0, df_l2_bytes = None, df_l3_bytes = None,
                  df_nominal_mem_bw_gbps = None, df_clock_mhz = None, df_graph_capture = CaptureNone\<rparr>,
      dd_measured = measured_empty, dd_p2p = []\<rparr>"

section \<open>Facts\<close>

lemma matrix_op_new_ok:
  "(\<exists>m. matrix_op_new shape a b acc rate = Inr m) \<longleftrightarrow> 0 \<notin> set shape \<and> acc \<in> {dtype.F32, I32}"
proof -
  define ps where "ps = concat (map (\<lambda>(axis, dim). if dim = 0 then [ArchZeroExtent axis] else []) (List.enumerate 0 shape))
    @ (if acc \<in> {dtype.F32, I32} then [] else [InvalidAccumulator acc])"
  have "concat (map (\<lambda>(axis, dim). if dim = 0 then [ArchZeroExtent axis] else []) (List.enumerate k shape)) = [] \<longleftrightarrow> 0 \<notin> set shape" for k
    by (induction shape arbitrary: k) auto
  then have nil: "ps = [] \<longleftrightarrow> 0 \<notin> set shape \<and> acc \<in> {dtype.F32, I32}" unfolding ps_def append_is_Nil_conv by (simp only: if_split) auto
  have "matrix_op_new shape a b acc rate =
      (case ps of [] \<Rightarrow> Inr \<lparr>mo_shape = shape, mo_a = a, mo_b = b, mo_acc = acc, mo_rate = rate\<rparr> | [p] \<Rightarrow> Inl p | _ \<Rightarrow> Inl (ArchMultiple ps))"
    unfolding matrix_op_new_def Let_def ps_def by (rule refl)
  then have "(\<exists>m. matrix_op_new shape a b acc rate = Inr m) \<longleftrightarrow> ps = []" by (simp split: list.split)
  then show ?thesis using nil by simp
qed

text \<open>The checked-in gfx1201 profile never panics and lists its six forms in order.\<close>

lemma gfx1201_ok:
  "\<exists>a. gfx1201 = Some a \<and> ar_name a = ''gfx1201'' \<and> length (ar_matrix_ops a) = 6 \<and>
     (\<forall>m \<in> set (ar_matrix_ops a). is_finite (mo_rate m) \<and> f32_less f32_zero (mo_rate m) \<and> 0 \<notin> set (mo_shape m))"
  by (simp add: gfx1201_def expect_mat_def rel_rate_new_def matrix_op_new_def Let_def f32_one_def f32_two_def f32_of_nat_def
      f32_zero_def f32_round_def bit_length.simps round_shift_def signed_at_def)

end
