(* ===== verification/Rust_Text.thy ===== *)
theory Rust_Text
  imports Prelude
begin

text \<open>
  Text as the sources handle it: strings are their UTF-8 bytes, \<open>str::trim\<close> removes the encodings of the
  Unicode white space characters, and numbers are rendered and parsed in hexadecimal as \<open>format!\<close> and
  \<open>u64::from_str_radix\<close> do.
\<close>

section \<open>Prefixes, parts and white space\<close>

definition prefix_of :: "string \<Rightarrow> string \<Rightarrow> bool" where
  "prefix_of p s \<longleftrightarrow> take (length p) s = p"

lemma prefix_of_iff: "prefix_of p s \<longleftrightarrow> (\<exists>r. s = p @ r)"
  by (metis append_eq_conv_conj append_take_drop_id prefix_of_def)

lemma prefix_of_length: "w \<noteq> [] \<Longrightarrow> prefix_of w s \<Longrightarrow> 0 < length w \<and> 0 < length s"
  by (cases s) (auto simp: prefix_of_def)

text \<open>\<open>str::split_once\<close> on a character, \<open>str::split\<close> on a character, and \<open>str::contains\<close>.\<close>

fun split_once :: "char \<Rightarrow> string \<Rightarrow> (string \<times> string) option" where
  "split_once d [] = None"
| "split_once d (c # cs) = (if c = d then Some ([], cs) else map_option (apfst ((#) c)) (split_once d cs))"

lemma split_once_Some: "split_once d s = Some (a, b) \<longleftrightarrow> s = a @ d # b \<and> d \<notin> set a"
proof (induction s arbitrary: a)
  case (Cons c cs)
  show ?case
  proof (cases a)
    case Nil
    then show ?thesis by (auto simp: apfst_def)
  next
    case (Cons x xs)
    then show ?thesis using Cons.IH [of xs] by (auto simp: apfst_def)
  qed
qed simp

fun split_on :: "char \<Rightarrow> string \<Rightarrow> string list" where
  "split_on d [] = [[]]"
| "split_on d (c # cs) = (if c = d then [] # split_on d cs else (case split_on d cs of [] \<Rightarrow> [[c]] | p # ps \<Rightarrow> (c # p) # ps))"

fun contains_text :: "string \<Rightarrow> string \<Rightarrow> bool" where
  "contains_text p [] \<longleftrightarrow> p = []"
| "contains_text p (c # cs) \<longleftrightarrow> prefix_of p (c # cs) \<or> contains_text p cs"

definition white_space :: "string list" where
  "white_space =
     map (\<lambda>b. [char_of (b :: nat)]) [9, 10, 11, 12, 13, 32] @
     map (map (char_of :: nat \<Rightarrow> char))
       ([[194, 133], [194, 160], [225, 154, 128]] @ map (\<lambda>b. [226, 128, b]) ([128..<139] @ [168, 169, 175]) @ [[226, 129, 159], [227, 128, 128]])"

lemma find_shortens:
  "List.find (\<lambda>w. w \<noteq> [] \<and> prefix_of w s) ws = Some w \<Longrightarrow> length (drop (length w) s) < length s"
proof -
  assume "List.find (\<lambda>w. w \<noteq> [] \<and> prefix_of w s) ws = Some w"
  then have "w \<noteq> []" "prefix_of w s" by (auto simp: find_Some_iff)
  then show ?thesis using prefix_of_length [of w s] by simp
qed

function trim_start :: "string \<Rightarrow> string" where
  "trim_start s =
     (case List.find (\<lambda>w. w \<noteq> [] \<and> prefix_of w s) white_space of
        None \<Rightarrow> s
      | Some w \<Rightarrow> trim_start (drop (length w) s))"
  by auto

termination by (relation "measure length") (auto simp del: length_drop intro: find_shortens)

declare trim_start.simps [simp del]

lemma find_end_shortens:
  "List.find (\<lambda>w. w \<noteq> [] \<and> prefix_of (rev w) (rev s)) ws = Some w \<Longrightarrow> length (take (length s - length w) s) < length s"
proof -
  assume "List.find (\<lambda>w. w \<noteq> [] \<and> prefix_of (rev w) (rev s)) ws = Some w"
  then have "w \<noteq> []" "prefix_of (rev w) (rev s)" by (auto simp: find_Some_iff)
  then show ?thesis using prefix_of_length [of "rev w" "rev s"] by simp
qed

function trim_end :: "string \<Rightarrow> string" where
  "trim_end s =
     (case List.find (\<lambda>w. w \<noteq> [] \<and> prefix_of (rev w) (rev s)) white_space of
        None \<Rightarrow> s
      | Some w \<Rightarrow> trim_end (take (length s - length w) s))"
  by auto

termination by (relation "measure length") (auto simp del: length_take intro: find_end_shortens)

declare trim_end.simps [simp del]

definition trim :: "string \<Rightarrow> string" where
  "trim s = trim_end (trim_start s)"

section \<open>Hexadecimal text\<close>

definition hex_digit :: "nat \<Rightarrow> char" where
  "hex_digit d = char_of (if d < 10 then 48 + d else 87 + d)"

text \<open>\<open>{:x}\<close>, and \<open>{:016x}\<close> with its padding.\<close>

fun hex_digits :: "nat \<Rightarrow> string" where
  "hex_digits n = (if n < 16 then [hex_digit n] else hex_digits (n div 16) @ [hex_digit (n mod 16)])"

declare hex_digits.simps [simp del]

definition hex16 :: "nat \<Rightarrow> string" where
  "hex16 n = replicate (16 - length (hex_digits n)) (hex_digit 0) @ hex_digits n"

definition hex_value :: "char \<Rightarrow> nat option" where
  "hex_value c =
     (let b = of_char c :: nat in
      if 48 \<le> b \<and> b \<le> 57 then Some (b - 48)
      else if 97 \<le> b \<and> b \<le> 102 then Some (b - 87)
      else if 65 \<le> b \<and> b \<le> 70 then Some (b - 55)
      else None)"

definition is_ascii_hexdigit :: "char \<Rightarrow> bool" where
  "is_ascii_hexdigit c \<longleftrightarrow> hex_value c \<noteq> None"

text \<open>\<open>u64::from_str_radix\<close> in base 16: an optional plus sign before at least one digit, an overflow being an error.\<close>

definition push_hex :: "nat option \<Rightarrow> char \<Rightarrow> nat option" where
  "push_hex acc c = Option.bind acc (\<lambda>a. Option.bind (hex_value c) (\<lambda>d. Option.bind (checked_mul 64 a 16) (\<lambda>m. checked_add 64 m d)))"

definition hex_number :: "string \<Rightarrow> nat option" where
  "hex_number digits = foldl push_hex (Some 0) digits"

definition from_str_radix_16 :: "string \<Rightarrow> nat option" where
  "from_str_radix_16 s =
     (case s of
        [] \<Rightarrow> None
      | c # cs \<Rightarrow> if c = CHR ''+'' \<and> cs \<noteq> [] then hex_number cs else hex_number s)"

section \<open>Rendering and parsing are inverse\<close>

lemma hex_value_digit: "d < 16 \<Longrightarrow> hex_value (hex_digit d) = Some d"
  by (auto simp: hex_value_def hex_digit_def Let_def)

lemma hex_digits_ne [simp]: "hex_digits n \<noteq> []"
  by (subst hex_digits.simps) simp

lemma is_hex_digit: "d < 16 \<Longrightarrow> is_ascii_hexdigit (hex_digit d)"
  by (simp add: is_ascii_hexdigit_def hex_value_digit)

lemma hex_digits_hex: "list_all is_ascii_hexdigit (hex_digits n)"
proof (induction n rule: hex_digits.induct)
  case (1 n)
  then show ?case by (subst hex_digits.simps) (simp add: is_hex_digit)
qed

lemma hex_digits_length: "0 < k \<Longrightarrow> n < 16 ^ k \<Longrightarrow> length (hex_digits n) \<le> k"
proof (induction k arbitrary: n)
  case (Suc k)
  show ?case
  proof (cases "n < 16")
    case True
    then show ?thesis by (subst hex_digits.simps) simp
  next
    case False
    then have "0 < k" using Suc.prems by (cases k) auto
    moreover have "n div 16 < 16 ^ k" using Suc.prems by auto
    ultimately show ?thesis using Suc.IH False by (subst hex_digits.simps) simp
  qed
qed simp

lemma hex_number_digits: "n \<le> u64_max \<Longrightarrow> hex_number (hex_digits n) = Some n"
proof (induction n rule: hex_digits.induct)
  case (1 n)
  show ?case
  proof (cases "n < 16")
    case True
    then show ?thesis by (subst hex_digits.simps) (simp add: hex_number_def push_hex_def hex_value_digit checked_mul_def checked_add_def)
  next
    case False
    have d: "hex_number (hex_digits (n div 16)) = Some (n div 16)" using "1.IH" [OF False] "1.prems" by simp
    have n: "n < 2 ^ 64" using "1.prems" u64_max_lt by blast
    have "checked_mul 64 (n div 16) 16 = Some (n div 16 * 16)" "checked_add 64 (n div 16 * 16) (n mod 16) = Some n"
      using n div_mult_mod_eq [of n 16] by (auto simp: checked_mul_def checked_add_def)
    then have "push_hex (Some (n div 16)) (hex_digit (n mod 16)) = Some n"
      using hex_value_digit [of "n mod 16"] unfolding push_hex_def by (simp del: checked_eq_Some)
    then show ?thesis using d False by (subst hex_digits.simps) (simp add: hex_number_def)
  qed
qed

lemma plus_not_hex: "\<not> is_ascii_hexdigit (CHR ''+'')"
  by (simp add: is_ascii_hexdigit_def hex_value_def)

lemma from_str_radix_digits: "s \<noteq> [] \<Longrightarrow> list_all is_ascii_hexdigit s \<Longrightarrow> from_str_radix_16 s = hex_number s"
  using plus_not_hex by (cases s) (auto simp: from_str_radix_16_def)

lemma from_hex_digits: "n \<le> u64_max \<Longrightarrow> from_str_radix_16 (hex_digits n) = Some n"
  using from_str_radix_digits hex_number_digits hex_digits_hex by simp

lemma push_hex_bound: "push_hex acc c = Some v \<Longrightarrow> v \<le> u64_max"
  by (auto simp: push_hex_def bind_eq_Some_conv u64_max_lt)

lemma hex_number_bound: "hex_number ds = Some v \<Longrightarrow> v \<le> u64_max"
  by (cases ds rule: rev_cases) (auto simp: hex_number_def dest: push_hex_bound)

lemma from_str_radix_bound: "from_str_radix_16 s = Some v \<Longrightarrow> v \<le> u64_max"
  by (cases s) (auto simp: from_str_radix_16_def dest: hex_number_bound split: if_splits)

lemma push_hex_zero: "push_hex (Some 0) (hex_digit 0) = Some 0"
  by (simp add: push_hex_def hex_value_digit checked_mul_def checked_add_def)

lemma hex_number_zeros: "hex_number (replicate k (hex_digit 0) @ s) = hex_number s"
proof -
  have "foldl push_hex (Some 0) (replicate k (hex_digit 0)) = Some 0" by (induction k) (simp_all add: push_hex_zero)
  then show ?thesis by (simp add: hex_number_def)
qed

lemma hex16_hex: "list_all is_ascii_hexdigit (hex16 n)"
  using hex_digits_hex [of n] is_hex_digit [of 0] by (auto simp: hex16_def list_all_iff)

lemma hex16_length: "n \<le> u64_max \<Longrightarrow> length (hex16 n) = 16"
proof -
  assume "n \<le> u64_max"
  then have "n < 16 ^ 16" using u64_max_lt by simp
  then have "length (hex_digits n) \<le> 16" by (intro hex_digits_length) auto
  then show ?thesis by (simp add: hex16_def)
qed

lemma from_hex16: "n \<le> u64_max \<Longrightarrow> from_str_radix_16 (hex16 n) = Some n"
proof -
  assume n: "n \<le> u64_max"
  have "hex16 n \<noteq> []" by (simp add: hex16_def)
  then show ?thesis using from_str_radix_digits [OF _ hex16_hex] hex_number_digits [OF n] by (simp add: hex16_def hex_number_zeros)
qed

lemma hex16_inj: "m \<le> u64_max \<Longrightarrow> n \<le> u64_max \<Longrightarrow> hex16 m = hex16 n \<longleftrightarrow> m = n"
  using from_hex16 by (metis option.inject)

end
