(* ===== verification/Dev_Constrain.thy ===== *)
theory Dev_Constrain
  imports Dev_Arch Rust_Text
begin

text \<open>
  Planning against a smaller card than the one installed (\<open>crates/r9v-ir/src/constrained.rs\<close>): the
  catalog of spoof targets, the provenance a plan carries, and the reduced view of a device. The
  variants of \<open>IrError\<close> these produce are a datatype of their own, in which a number the source renders
  with \<open>to_string\<close> stays a number. Text is that of
  \<^theory_text>\<open>Rust_Text\<close>.
\<close>

section \<open>Errors\<close>

datatype spoof_error =
    UnknownSpoofProfile string "string list"
  | SpoofArchMismatch string string string
  | SpoofInsufficientCus string nat nat nat
  | SpoofInsufficientVram string nat nat nat
  | SpoofProfileMismatch string string
  | SpoofLaunchContractMismatch string nat nat
  | InvalidCuCount nat nat
  | InvalidCuMask string string string
  | CuMaskMismatch string nat nat
  | SpoofQualificationRefused string string string
  | MissingCuMask string string string nat
  | UnexpectedCuMask string nat string string
  | SpoofMultiple "spoof_error list"

type_synonym 'a spoof_result = "(spoof_error, 'a) result"

definition spoof_from_problems :: "spoof_error list \<Rightarrow> unit spoof_result" where
  "spoof_from_problems ps = (case ps of [] \<Rightarrow> Inr () | [p] \<Rightarrow> Inl p | _ \<Rightarrow> Inl (SpoofMultiple ps))"

lemma spoof_from_problems_ok [simp]: "spoof_from_problems ps = Inr u \<longleftrightarrow> ps = []"
  by (simp add: spoof_from_problems_def split: list.splits)

section \<open>The catalog\<close>

datatype spoof_profile_id = Rx9070Xt | Rx9070

definition profile_all :: "spoof_profile_id list" where "profile_all = [Rx9070Xt, Rx9070]"

fun stable_id :: "spoof_profile_id \<Rightarrow> string" where
  "stable_id Rx9070Xt = ''rx-9070-xt-spoof''"
| "stable_id Rx9070 = ''rx-9070-spoof''"

definition profile_parse :: "string \<Rightarrow> spoof_profile_id spoof_result" where
  "profile_parse s =
     (let trimmed = trim s in
      case List.find (\<lambda>i. trimmed = stable_id i) profile_all of
        Some i \<Rightarrow> Inr i
      | None \<Rightarrow> Inl (UnknownSpoofProfile s (map stable_id profile_all)))"

record spoof_profile =
  sp_id :: spoof_profile_id
  sp_arch :: string
  sp_vram_bytes :: nat
  sp_cu_count :: nat

definition profile_label :: "spoof_profile \<Rightarrow> string" where
  "profile_label p = (case sp_id p of Rx9070Xt \<Rightarrow> ''RX 9070 XT (SPOOF)'' | Rx9070 \<Rightarrow> ''RX 9070 (SPOOF)'')"

definition SPOOF_CATALOG :: "spoof_profile list" where
  "SPOOF_CATALOG =
     [\<lparr>sp_id = Rx9070Xt, sp_arch = ''gfx1201'', sp_vram_bytes = 16 * 1024 * 1024 * 1024, sp_cu_count = 64\<rparr>,
      \<lparr>sp_id = Rx9070, sp_arch = ''gfx1201'', sp_vram_bytes = 16 * 1024 * 1024 * 1024, sp_cu_count = 56\<rparr>]"

fun spoof_lookup :: "spoof_profile_id \<Rightarrow> spoof_profile" where
  "spoof_lookup Rx9070Xt = SPOOF_CATALOG ! 0"
| "spoof_lookup Rx9070 = SPOOF_CATALOG ! 1"

section \<open>Provenance\<close>

datatype provenance = Physical device_identity | Spoof device_identity spoof_profile_id

fun is_spoof :: "provenance \<Rightarrow> bool" where
  "is_spoof (Spoof _ _) = True"
| "is_spoof _ = False"

fun is_physical :: "provenance \<Rightarrow> bool" where
  "is_physical (Physical _) = True"
| "is_physical _ = False"

fun physical_identity :: "provenance \<Rightarrow> device_identity" where
  "physical_identity (Physical i) = i"
| "physical_identity (Spoof i _) = i"

fun target_label :: "provenance \<Rightarrow> string option" where
  "target_label (Physical _) = None"
| "target_label (Spoof _ p) = Some (profile_label (spoof_lookup p))"

fun qualification_disclaimer :: "provenance \<Rightarrow> string" where
  "qualification_disclaimer (Physical _) = ''Physical device identity: discovered facts, not a product qualification.''"
| "qualification_disclaimer (Spoof _ _) =
     ''Spoof-constrained planning view: not an official product qualification and not a performance claim.''"

fun check_official_claim :: "provenance \<Rightarrow> unit spoof_result" where
  "check_official_claim (Physical _) = Inr ()"
| "check_official_claim (Spoof i p) =
     Inl (SpoofQualificationRefused (stable_id p) (profile_label (spoof_lookup p)) (qualification_disclaimer (Spoof i p)))"

definition hex_byte :: "nat \<Rightarrow> string" where
  "hex_byte b = [hex_digit (b div 16), hex_digit (b mod 16)]"

fun fmt_identity :: "device_identity \<Rightarrow> string" where
  "fmt_identity IdentityCpu = ''cpu''"
| "fmt_identity (IdentityGpu uuid pci_bdf) =
     pci_bdf @ (case uuid of None \<Rightarrow> [] | Some bytes \<Rightarrow> '' uuid='' @ concat (map hex_byte bytes))"

fun provenance_fmt :: "provenance \<Rightarrow> string" where
  "provenance_fmt (Physical i) = ''physical '' @ fmt_identity i"
| "provenance_fmt (Spoof i p) = profile_label (spoof_lookup p) @ '' on '' @ fmt_identity i"

section \<open>The reduced view\<close>

record effective_view =
  ev_arch :: arch_descriptor
  ev_identity :: device_identity
  ev_cu_count :: nat
  ev_vram_bytes :: nat
  ev_profile :: spoof_profile_id
  ev_provenance :: provenance

record constrained_device =
  cd_physical :: device_descriptor
  cd_effective :: effective_view
  cd_profile :: spoof_profile_id
  cd_provenance :: provenance

definition constrain_problems :: "device_descriptor \<Rightarrow> spoof_profile_id \<Rightarrow> spoof_error list" where
  "constrain_problems physical profile =
     (let row = spoof_lookup profile; facts = dd_facts physical in
      (if ar_name (dd_arch physical) \<noteq> sp_arch row
       then [SpoofArchMismatch (stable_id profile) (sp_arch row) (ar_name (dd_arch physical))] else []) @
      (if df_cu_count facts < sp_cu_count row
       then [SpoofInsufficientCus (stable_id profile) (sp_cu_count row) (df_cu_count facts) (sp_cu_count row - df_cu_count facts)] else []) @
      (if df_vram_bytes facts < sp_vram_bytes row
       then [SpoofInsufficientVram (stable_id profile) (sp_vram_bytes row) (df_vram_bytes facts) (sp_vram_bytes row - df_vram_bytes facts)] else []))"

definition constrain :: "device_descriptor \<Rightarrow> spoof_profile_id \<Rightarrow> constrained_device spoof_result" where
  "constrain physical profile =
     (let row = spoof_lookup profile in
      bind_r (spoof_from_problems (constrain_problems physical profile)) (\<lambda>_.
        let provenance = Spoof (df_identity (dd_facts physical)) profile;
            effective = \<lparr>ev_arch = dd_arch physical, ev_identity = df_identity (dd_facts physical), ev_cu_count = sp_cu_count row,
                         ev_vram_bytes = sp_vram_bytes row, ev_profile = profile, ev_provenance = provenance\<rparr>
        in Inr \<lparr>cd_physical = physical, cd_effective = effective, cd_profile = profile, cd_provenance = provenance\<rparr>))"

definition view_check_official_claim :: "effective_view \<Rightarrow> unit spoof_result" where
  "view_check_official_claim v = check_official_claim (ev_provenance v)"

definition device_check_official_claim :: "constrained_device \<Rightarrow> unit spoof_result" where
  "device_check_official_claim d = check_official_claim (cd_provenance d)"

definition view_profile_data :: "effective_view \<Rightarrow> spoof_profile" where
  "view_profile_data v = spoof_lookup (ev_profile v)"

definition device_profile_data :: "constrained_device \<Rightarrow> spoof_profile" where
  "device_profile_data d = spoof_lookup (cd_profile d)"

definition cu_reduction :: "constrained_device \<Rightarrow> nat" where
  "cu_reduction d = df_cu_count (dd_facts (cd_physical d)) - ev_cu_count (cd_effective d)"

definition vram_reduction_bytes :: "constrained_device \<Rightarrow> nat" where
  "vram_reduction_bytes d = df_vram_bytes (dd_facts (cd_physical d)) - ev_vram_bytes (cd_effective d)"

section \<open>Facts\<close>

lemma spoof_lookup_sel [simp]:
  "sp_id (spoof_lookup p) = p" "sp_arch (spoof_lookup p) = ''gfx1201''" "sp_vram_bytes (spoof_lookup p) = 17179869184"
  "sp_cu_count (spoof_lookup p) = (case p of Rx9070Xt \<Rightarrow> 64 | Rx9070 \<Rightarrow> 56)"
  by (cases p; simp add: SPOOF_CATALOG_def)+

declare spoof_lookup.simps [simp del]

lemma profile_cu_range: "0 < sp_cu_count (spoof_lookup p)" "sp_cu_count (spoof_lookup p) \<le> 64"
  by (simp_all split: spoof_profile_id.split)

lemma stable_id_inj [simp]: "stable_id p = stable_id q \<longleftrightarrow> p = q"
  by (cases p; cases q) auto

text \<open>An id is recognised exactly when it is the stable id up to surrounding white space.\<close>

lemma profile_parse_iff: "profile_parse s = Inr i \<longleftrightarrow> trim s = stable_id i"
  by (cases i) (auto simp: profile_parse_def profile_all_def Let_def)

text \<open>The label of a target always ends in the qualifier, and so does every rendering of a spoof plan begin with it.\<close>

lemma profile_label_qualified: "\<exists>model. profile_label p = model @ '' (SPOOF)''"
proof (cases "sp_id p")
  case Rx9070Xt
  then show ?thesis by (intro exI [of _ "''RX 9070 XT''"]) (simp add: profile_label_def)
next
  case Rx9070
  then show ?thesis by (intro exI [of _ "''RX 9070''"]) (simp add: profile_label_def)
qed

lemma constrain_problems_Nil:
  "constrain_problems d p = [] \<longleftrightarrow> ar_name (dd_arch d) = ''gfx1201'' \<and> sp_cu_count (spoof_lookup p) \<le> df_cu_count (dd_facts d) \<and>
     17179869184 \<le> df_vram_bytes (dd_facts d)"
  by (auto simp: constrain_problems_def Let_def)

lemma constrain_Inr:
  "constrain d p = Inr cd \<longleftrightarrow> constrain_problems d p = [] \<and>
     cd = \<lparr>cd_physical = d,
           cd_effective = \<lparr>ev_arch = dd_arch d, ev_identity = df_identity (dd_facts d), ev_cu_count = sp_cu_count (spoof_lookup p),
                           ev_vram_bytes = 17179869184, ev_profile = p, ev_provenance = Spoof (df_identity (dd_facts d)) p\<rparr>,
           cd_profile = p, cd_provenance = Spoof (df_identity (dd_facts d)) p\<rparr>"
  by (auto simp: constrain_def Let_def bind_r_eq_Inr)

end
