(* ===== verification/Dev_Mask.thy ===== *)
theory Dev_Mask
  imports Dev_Constrain
begin

text \<open>
  The compute-unit mask a launcher passes in the environment (\<open>CuMask\<close> of
  \<open>crates/r9v-ir/src/constrained.rs\<close>): the mask of the lowest units, its hexadecimal rendering and the
  parser that accepts the canonical rendering only. The 64-bit word is a natural number below \<open>2 ^ 64\<close>;
  the shift and the increment of the source stay below that bound on the branches that perform them.
\<close>

unbundle bit_operations_syntax

section \<open>Masks\<close>

definition MAX_MASK_CUS :: nat where "MAX_MASK_CUS = 64"

definition CU_MASK_ENV_NAME :: string where "CU_MASK_ENV_NAME = ''ROC_GLOBAL_CU_MASK''"

definition CU_MASK_GRAMMAR :: string where
  "CU_MASK_GRAMMAR = ''`0x` followed by 1-16 lowercase hex digits (contiguous low bits)''"

type_synonym cu_mask = nat

definition for_cu_count :: "nat \<Rightarrow> cu_mask spoof_result" where
  "for_cu_count cus =
     (if cus = 0 \<or> cus > MAX_MASK_CUS then Inl (InvalidCuCount cus MAX_MASK_CUS)
      else Inr (if cus = MAX_MASK_CUS then u64_max else push_bit cus 1 - 1))"

text \<open>\<open>u64::count_ones\<close>.\<close>

fun count_ones :: "nat \<Rightarrow> nat" where
  "count_ones n = (if n = 0 then 0 else n mod 2 + count_ones (n div 2))"

declare count_ones.simps [simp del]

definition lowest_bits :: "nat \<Rightarrow> nat" where
  "lowest_bits n = (if n \<ge> MAX_MASK_CUS then u64_max else push_bit n 1 - 1)"

section \<open>Rendering and parsing the value\<close>

definition to_env_value :: "cu_mask \<Rightarrow> string" where
  "to_env_value m = ''0x'' @ hex_digits m"

definition strip_0x :: "string \<Rightarrow> string option" where
  "strip_0x s = (if take 2 s = ''0x'' then Some (drop 2 s) else None)"

definition contiguous :: "nat \<Rightarrow> bool" where
  "contiguous value \<longleftrightarrow> value = u64_max \<or> value AND (value + 1) = 0"

definition mask_parse :: "string \<Rightarrow> cu_mask spoof_result" where
  "mask_parse s =
     bind_r (ok_or (InvalidCuMask s ''mask must start with `0x`'' CU_MASK_GRAMMAR) (strip_0x s)) (\<lambda>digits.
     if digits = [] \<or> length digits > 16 then Inl (InvalidCuMask s ''mask must carry 1-16 hex digits after `0x`'' CU_MASK_GRAMMAR)
     else if \<not> list_all is_ascii_hexdigit digits then Inl (InvalidCuMask s ''mask digits must be hexadecimal'' CU_MASK_GRAMMAR)
     else bind_r (ok_or (InvalidCuMask s ''mask digits do not decode as u64 hex'' CU_MASK_GRAMMAR) (from_str_radix_16 digits)) (\<lambda>value.
       if value = 0 then Inl (InvalidCuMask s ''mask must enable at least one CU'' ''a nonzero mask such as `0x1`'')
       else let canonical = ''0x'' @ hex_digits value in
         if s \<noteq> canonical then Inl (InvalidCuMask s ''mask is not canonical lowercase hex'' canonical)
         else if \<not> contiguous value then
           Inl (InvalidCuMask s ''mask must enable the lowest N CUs contiguously'' (to_env_value (lowest_bits (count_ones value))))
         else Inr value))"

section \<open>Numbers of bits\<close>

lemma count_ones_simps [simp]:
  "count_ones 0 = 0" "count_ones (2 * n) = count_ones n" "count_ones (Suc (2 * n)) = Suc (count_ones n)"
  by (simp_all add: count_ones.simps [of "2 * n"] count_ones.simps [of "Suc (2 * n)"] count_ones.simps [of 0])

lemma mask_Suc: "2 ^ Suc n - 1 = Suc (2 * (2 ^ n - 1 :: nat))"
proof -
  have "(1 :: nat) \<le> 2 ^ n" by simp
  then show ?thesis unfolding power_Suc by linarith
qed

lemma count_ones_mask [simp]: "count_ones (2 ^ n - 1) = n"
proof (induction n)
  case (Suc n)
  then show ?case unfolding mask_Suc by simp
qed simp

lemma count_ones_le: "v < 2 ^ n \<Longrightarrow> count_ones v \<le> n"
proof (induction n arbitrary: v)
  case (Suc n)
  then have "count_ones (v div 2) \<le> n" by (intro Suc.IH) auto
  then show ?case by (subst count_ones.simps) auto
qed simp

lemma count_ones_pos: "0 < v \<Longrightarrow> 0 < count_ones v"
proof (induction v rule: count_ones.induct)
  case (1 n)
  then show ?case by (subst count_ones.simps) (cases "n mod 2"; fastforce)
qed

text \<open>A word without a gap below its highest bit is one less than a power of two.\<close>

lemma and_Suc_even: "(2 * w) AND Suc (2 * w) = (2 * w :: nat)"
  by (subst and_rec) simp

lemma and_Suc_odd: "Suc (2 * w) AND Suc (Suc (2 * w)) = 2 * (w AND Suc w)"
  by (subst and_rec) simp

lemma and_Suc_eq_0: "v AND Suc v = 0 \<longleftrightarrow> (\<exists>n. v = 2 ^ n - (1 :: nat))"
proof (induction v rule: less_induct)
  case (less v)
  show ?case
  proof (cases "even v")
    case True
    then obtain w where w: "v = 2 * w" by (elim evenE)
    have "2 * w = 2 ^ n - 1 \<longleftrightarrow> w = 0 \<and> n = 0" for n
    proof (cases n)
      case (Suc k)
      show ?thesis unfolding Suc mask_Suc by presburger
    qed simp
    then show ?thesis by (auto simp: w and_Suc_even)
  next
    case False
    then obtain w where w: "v = Suc (2 * w)" by (metis oddE Suc_eq_plus1)
    have "Suc (2 * w) = 2 ^ n - 1 \<longleftrightarrow> (\<exists>k. n = Suc k \<and> w = 2 ^ k - 1)" for n
    proof (cases n)
      case (Suc k)
      show ?thesis unfolding Suc mask_Suc by auto
    qed simp
    then show ?thesis using less [of w] by (auto simp: w and_Suc_odd simp del: power_Suc)
  qed
qed

lemma u64_max_mask: "u64_max = 2 ^ 64 - 1"
  by (simp add: u64_max_def)

lemma contiguous_iff:
  assumes v: "0 < v" "v \<le> u64_max"
  shows "contiguous v \<longleftrightarrow> (\<exists>n. 0 < n \<and> n \<le> 64 \<and> v = 2 ^ n - 1)"
proof -
  have "v = 2 ^ n - 1 \<Longrightarrow> 0 < n \<and> n \<le> 64" for n
  proof -
    assume e: "v = 2 ^ n - 1"
    have "n = count_ones v" unfolding e by (rule count_ones_mask [symmetric])
    then show ?thesis using count_ones_le [of v 64] count_ones_pos [OF v(1)] v(2) u64_max_lt by simp
  qed
  then show ?thesis using and_Suc_eq_0 [of v] u64_max_mask by (auto simp: contiguous_def)
qed

lemma lowest_bits_mask: "n \<le> 64 \<Longrightarrow> lowest_bits n = 2 ^ n - 1"
  by (auto simp: lowest_bits_def MAX_MASK_CUS_def u64_max_mask push_bit_eq_mult)

lemma for_cu_count_Inr: "for_cu_count n = Inr m \<longleftrightarrow> 0 < n \<and> n \<le> 64 \<and> m = 2 ^ n - 1"
  by (auto simp: for_cu_count_def MAX_MASK_CUS_def u64_max_mask push_bit_eq_mult)

lemma mask_bounds: "0 < n \<Longrightarrow> n \<le> 64 \<Longrightarrow> 0 < (2 ^ n - 1 :: nat) \<and> 2 ^ n - 1 \<le> u64_max"
proof -
  assume n: "0 < n" "n \<le> 64"
  have "(2 :: nat) ^ 1 \<le> 2 ^ n" using n(1) by (intro power_increasing) auto
  moreover have "(2 :: nat) ^ n \<le> 2 ^ 64" using n(2) by (rule power_increasing) simp
  ultimately show ?thesis unfolding u64_max_mask by auto
qed

section \<open>What is accepted\<close>

lemma strip_0x_Some: "strip_0x s = Some ds \<longleftrightarrow> s = ''0x'' @ ds"
  by (auto simp: strip_0x_def) (metis append_take_drop_id append_Cons append_Nil)

text \<open>The parser on the rendering of a word it can hold.\<close>

lemma mask_parse_rendered:
  assumes "0 < v" "v \<le> u64_max"
  shows "mask_parse (to_env_value v) =
    (if contiguous v then Inr v
     else Inl (InvalidCuMask (to_env_value v) ''mask must enable the lowest N CUs contiguously'' (to_env_value (lowest_bits (count_ones v)))))"
proof -
  have "v < 16 ^ 16" using assms u64_max_lt by simp
  then have "length (hex_digits v) \<le> 16" by (intro hex_digits_length) auto
  then show ?thesis
    using assms from_hex_digits [of v] hex_digits_hex [of v]
    by (simp add: mask_parse_def to_env_value_def strip_0x_def Let_def)
qed

lemma mask_parse_InrD:
  "mask_parse s = Inr v \<Longrightarrow> 0 < v \<and> v \<le> u64_max \<and> contiguous v \<and> s = to_env_value v"
  by (auto simp: mask_parse_def bind_r_eq_Inr Let_def to_env_value_def dest: from_str_radix_bound split: if_splits)

lemma mask_parse_Inr: "mask_parse s = Inr v \<longleftrightarrow> (\<exists>n. for_cu_count n = Inr v) \<and> s = to_env_value v"
proof
  assume "mask_parse s = Inr v"
  then show "(\<exists>n. for_cu_count n = Inr v) \<and> s = to_env_value v"
    using mask_parse_InrD contiguous_iff by (force simp: for_cu_count_Inr)
next
  assume r: "(\<exists>n. for_cu_count n = Inr v) \<and> s = to_env_value v"
  then obtain n where n: "0 < n" "n \<le> 64" "v = 2 ^ n - 1" by (auto simp: for_cu_count_Inr)
  then have b: "0 < v" "v \<le> u64_max" using mask_bounds by auto
  then have "contiguous v" using contiguous_iff n by blast
  then show "mask_parse s = Inr v" using r mask_parse_rendered [OF b] by simp
qed

lemma mask_parse_InlD:
  assumes "mask_parse s = Inl e"
  shows "\<exists>d x. e = InvalidCuMask s d x \<and> (x = CU_MASK_GRAMMAR \<or> x = ''a nonzero mask such as `0x1`'' \<or>
    (\<exists>v. 0 < v \<and> v \<le> u64_max \<and> from_str_radix_16 (drop 2 s) = Some v \<and>
       (s \<noteq> to_env_value v \<and> x = to_env_value v \<or> s = to_env_value v \<and> \<not> contiguous v \<and> x = to_env_value (lowest_bits (count_ones v)))))"
  using assms
  by (auto simp: mask_parse_def bind_r_eq_Inl Let_def to_env_value_def strip_0x_Some dest: from_str_radix_bound split: if_splits)

end
