(* ===== verification/Dev_Launch.thy ===== *)
theory Dev_Launch
  imports Dev_Mask
begin

text \<open>
  The contract a launcher fulfils before the engine creates a queue (\<open>PreQueueLaunchContract\<close> of
  \<open>crates/r9v-ir/src/constrained.rs\<close>): which mask it must assign, when it must assign none, and how the
  engine validates what it finds in its environment. The process environment is read, never written; the
  value read is an argument here.
\<close>

record launch_contract =
  lc_profile :: spoof_profile_id
  lc_physical_cus :: nat
  lc_effective_cus :: nat
  lc_effective_vram_bytes :: nat
  lc_mask :: cu_mask

text \<open>\<open>for_constrained\<close>; \<open>None\<close> is the panic of its \<open>expect\<close>.\<close>

definition for_constrained :: "constrained_device \<Rightarrow> launch_contract option" where
  "for_constrained device =
     (let cus = ev_cu_count (cd_effective device) in
      case for_cu_count cus of
        Inl _ \<Rightarrow> None
      | Inr m \<Rightarrow>
          Some \<lparr>lc_profile = cd_profile device, lc_physical_cus = df_cu_count (dd_facts (cd_physical device)), lc_effective_cus = cus,
                lc_effective_vram_bytes = ev_vram_bytes (cd_effective device), lc_mask = m\<rparr>)"

definition requires_mask :: "launch_contract \<Rightarrow> bool" where
  "requires_mask c \<longleftrightarrow> lc_effective_cus c < lc_physical_cus c"

definition env_name :: "launch_contract \<Rightarrow> string" where
  "env_name c = CU_MASK_ENV_NAME"

definition env_value :: "launch_contract \<Rightarrow> string" where
  "env_value c = to_env_value (lc_mask c)"

definition env_assignment :: "launch_contract \<Rightarrow> (string \<times> string) option" where
  "env_assignment c = (if requires_mask c then Some (env_name c, env_value c) else None)"

definition against_problems :: "launch_contract \<Rightarrow> constrained_device \<Rightarrow> spoof_error list" where
  "against_problems c device =
     (let physical = df_cu_count (dd_facts (cd_physical device)); cus = ev_cu_count (cd_effective device); vram = ev_vram_bytes (cd_effective device) in
      (if lc_profile c \<noteq> cd_profile device then [SpoofProfileMismatch (stable_id (lc_profile c)) (stable_id (cd_profile device))] else []) @
      (if lc_physical_cus c \<noteq> physical then [SpoofLaunchContractMismatch ''physical_cus'' (lc_physical_cus c) physical] else []) @
      (if lc_effective_cus c \<noteq> cus then [SpoofLaunchContractMismatch ''effective_cus'' (lc_effective_cus c) cus] else []) @
      (if lc_effective_vram_bytes c \<noteq> vram
       then [SpoofLaunchContractMismatch ''effective_vram_bytes'' (lc_effective_vram_bytes c) vram] else []) @
      (if count_ones (lc_mask c) \<noteq> cus then [CuMaskMismatch (to_env_value (lc_mask c)) (count_ones (lc_mask c)) cus] else []))"

definition validate_against :: "launch_contract \<Rightarrow> constrained_device \<Rightarrow> unit spoof_result" where
  "validate_against c device = spoof_from_problems (against_problems c device)"

definition validate_env_value :: "launch_contract \<Rightarrow> string option \<Rightarrow> unit spoof_result" where
  "validate_env_value c value =
     (case value of
        None \<Rightarrow>
          (if requires_mask c then Inl (MissingCuMask (stable_id (lc_profile c)) (env_name c) (env_value c) (lc_effective_cus c))
           else Inr ())
      | Some input \<Rightarrow>
          (if \<not> requires_mask c then Inl (UnexpectedCuMask (stable_id (lc_profile c)) (lc_effective_cus c) (env_name c) input)
           else bind_r (mask_parse input) (\<lambda>mask.
             if count_ones mask \<noteq> lc_effective_cus c then Inl (CuMaskMismatch (to_env_value mask) (count_ones mask) (lc_effective_cus c))
             else Inr ())))"

datatype env_var = EnvValue string | EnvNotPresent | EnvNotUnicode

definition validate_process_env :: "launch_contract \<Rightarrow> env_var \<Rightarrow> unit spoof_result" where
  "validate_process_env c v =
     (case v of
        EnvValue value \<Rightarrow> validate_env_value c (Some value)
      | EnvNotPresent \<Rightarrow> validate_env_value c None
      | EnvNotUnicode \<Rightarrow> Inl (InvalidCuMask ''<non-UTF-8 value>'' ''mask value is not valid Unicode'' (env_value c)))"

section \<open>Facts\<close>

text \<open>The contract of a constrained device exists and is determined by the target and the physical unit count.\<close>

lemma for_constrained_eq:
  assumes "constrain d p = Inr cd"
  shows "for_constrained cd = Some \<lparr>lc_profile = p, lc_physical_cus = df_cu_count (dd_facts d), lc_effective_cus = sp_cu_count (spoof_lookup p),
    lc_effective_vram_bytes = 17179869184, lc_mask = 2 ^ sp_cu_count (spoof_lookup p) - 1\<rparr>"
proof -
  have "for_cu_count (sp_cu_count (spoof_lookup p)) = Inr (2 ^ sp_cu_count (spoof_lookup p) - 1)"
    using profile_cu_range [of p] by (simp add: for_cu_count_Inr del: spoof_lookup_sel(4))
  then show ?thesis using assms unfolding constrain_Inr
    by (simp add: for_constrained_def Let_def del: spoof_lookup_sel(4))
qed

lemma count_ones_for: "for_cu_count n = Inr m \<Longrightarrow> count_ones m = n"
  using count_ones_mask [of n] by (simp only: for_cu_count_Inr)

text \<open>A mask value with the right number of units is the one the contract renders.\<close>

lemma validate_mask_iff:
  assumes "for_cu_count (lc_effective_cus c) = Inr (lc_mask c)" "requires_mask c"
  shows "validate_env_value c (Some input) = Inr () \<longleftrightarrow> input = env_value c"
proof -
  have "(\<exists>m. mask_parse input = Inr m \<and> count_ones m = lc_effective_cus c) \<longleftrightarrow> input = env_value c"
    using assms(1) count_ones_for unfolding mask_parse_Inr env_value_def by (metis sum.inject(2))
  then show ?thesis using assms(2) by (auto simp: validate_env_value_def bind_r_eq_Inr)
qed

lemma validate_env_iff:
  assumes "for_cu_count (lc_effective_cus c) = Inr (lc_mask c)"
  shows "validate_env_value c v = Inr () \<longleftrightarrow> v = map_option snd (env_assignment c)"
proof (cases v)
  case None
  then show ?thesis by (simp add: validate_env_value_def env_assignment_def)
next
  case (Some input)
  then show ?thesis using validate_mask_iff [OF assms] by (cases "requires_mask c") (auto simp: validate_env_value_def env_assignment_def)
qed

lemma against_problems_Nil:
  "against_problems c cd = [] \<longleftrightarrow> lc_profile c = cd_profile cd \<and> lc_physical_cus c = df_cu_count (dd_facts (cd_physical cd)) \<and>
     lc_effective_cus c = ev_cu_count (cd_effective cd) \<and> lc_effective_vram_bytes c = ev_vram_bytes (cd_effective cd) \<and>
     count_ones (lc_mask c) = ev_cu_count (cd_effective cd)"
  by (simp add: against_problems_def Let_def)

end
