(* ===== verification/Hip_Budget.thy ===== *)
theory Hip_Budget
  imports Prelude
begin

text \<open>
  The hard allocation budget of constrained execution (\<open>crates/r9v-hip/src/budget.rs\<close>) with the
  device buffers it pays for (\<open>handles.rs\<close>, \<open>library.rs\<close>), as a machine of threads that interleave.

  The ledger is one atomic counter shared by every clone of an \<open>AllocationBudget\<close>. All accesses to it
  are a load, a weak compare-and-exchange and a fetch-and-subtract on that single location, so the
  threads act on it in one total order and a step of the machine is one such access or one return of a
  HIP call. The compare-and-exchange may fail spuriously. \<open>hipMalloc\<close> and \<open>hipFree\<close> are not part of the
  sources: what they return is chosen by the event of the step, and two ghost counters record the bytes
  the device holds and the bytes whose \<open>hipFree\<close> was refused. The sum types of the Rust results are
  kept, a failed assertion is a thread state of its own.
\<close>

section \<open>Data\<close>

datatype hip_error =
    LibraryNotFound "string list"
  | LibraryLoadFailed "string list"
  | SymbolNotFound string string
  | ApiError string int string
  | NullPointer string
  | InvalidNulByte string nat
  | BufferTooSmall string nat nat
  | InvalidDeviceCount int
  | InvalidDeviceOrdinal int
  | InconsistentPciIdentity nat string string
  | SysfsError string string string
  | InvalidPciBdf string string
  | InvalidHipUuid string string
  | BudgetExceeded nat nat nat nat

record device_buffer =
  db_ptr :: nat
  db_size :: nat

record budgeted_buffer =
  bb_buffer :: device_buffer
  bb_charged :: nat

record budget_inner =
  bi_limit :: nat
  bi_used :: nat

definition budget_new :: "nat \<Rightarrow> budget_inner" where
  "budget_new limit_bytes = \<lparr>bi_limit = limit_bytes, bi_used = 0\<rparr>"

definition budget_available :: "budget_inner \<Rightarrow> nat" where
  "budget_available b = bi_limit b - bi_used b"

section \<open>One access to the ledger\<close>

definition refusal :: "nat \<Rightarrow> nat \<Rightarrow> nat \<Rightarrow> hip_error" where
  "refusal limit used requested = BudgetExceeded limit used requested (limit - used)"

text \<open>The guard of the loop of \<open>reserve\<close>, on the value \<open>used\<close> the thread has loaded.\<close>

definition reserve_target :: "nat \<Rightarrow> nat \<Rightarrow> nat \<Rightarrow> (hip_error, nat) result" where
  "reserve_target limit used requested =
     (case checked_add 64 used requested of
        None \<Rightarrow> Inl (refusal limit used requested)
      | Some new_used \<Rightarrow> if new_used > limit then Inl (refusal limit used requested) else Inr new_used)"

definition fetch_sub :: "nat \<Rightarrow> nat \<Rightarrow> nat" where
  "fetch_sub used charged = (used + 2 ^ 64 - charged) mod 2 ^ 64"

text \<open>\<open>release\<close>: the new counter and whether the assertion on the previous value holds.\<close>

definition release :: "budget_inner \<Rightarrow> nat \<Rightarrow> budget_inner \<times> bool" where
  "release b charged =
     (if charged = 0 then (b, True)
      else (b\<lparr>bi_used := fetch_sub (bi_used b) charged\<rparr>, bi_used b \<ge> charged))"

section \<open>The HIP calls\<close>

definition lib_malloc :: "(hip_error, nat) result \<Rightarrow> nat \<Rightarrow> (hip_error, nat) result" where
  "lib_malloc returned size_bytes =
     bind_r returned (\<lambda>ptr. if ptr = 0 \<and> size_bytes > 0 then Inl (NullPointer ''hipMalloc returned null pointer'') else Inr ptr)"

definition device_allocate :: "(hip_error, nat) result \<Rightarrow> nat \<Rightarrow> (hip_error, device_buffer) result" where
  "device_allocate returned size_bytes =
     bind_r (lib_malloc returned size_bytes) (\<lambda>ptr. Inr \<lparr>db_ptr = ptr, db_size = size_bytes\<rparr>)"

section \<open>Threads\<close>

datatype thread =
    Idle
  | ReserveLoad nat
  | ReserveLoop nat nat
  | Allocating nat
  | RollingBack nat hip_error
  | Returned "(hip_error, budgeted_buffer) result"
  | Freeing budgeted_buffer
  | Releasing nat
  | Aborted

text \<open>
  What drives a step: a call of \<open>BudgetedDeviceBuffer::allocate\<close>, the drop of the live buffer at an
  index, the use of a result, the next atomic access (with whether a compare-and-exchange fails
  spuriously), and the return of a HIP call.
\<close>

datatype event =
    CallAllocate nat
  | CallDrop nat
  | TakeResult
  | Access bool
  | MallocReturns "(hip_error, nat) result"
  | FreeReturns bool

record budget_state =
  bs_budget :: budget_inner
  bs_threads :: "thread list"
  bs_live :: "budgeted_buffer list"
  bs_resident :: nat
  bs_leaked :: nat

definition set_thread :: "nat \<Rightarrow> thread \<Rightarrow> budget_state \<Rightarrow> budget_state" where
  "set_thread t p s = s\<lparr>bs_threads := (bs_threads s)[t := p]\<rparr>"

text \<open>\<open>reserve\<close>: the first load, then one turn of the loop per access.\<close>

definition reserve_load :: "nat \<Rightarrow> nat \<Rightarrow> budget_state \<Rightarrow> budget_state" where
  "reserve_load t requested s = set_thread t (ReserveLoop requested (bi_used (bs_budget s))) s"

definition reserve_turn :: "nat \<Rightarrow> nat \<Rightarrow> nat \<Rightarrow> bool \<Rightarrow> budget_state \<Rightarrow> budget_state" where
  "reserve_turn t requested used spurious s =
     (case reserve_target (bi_limit (bs_budget s)) used requested of
        Inl e \<Rightarrow> set_thread t (Returned (Inl e)) s
      | Inr new_used \<Rightarrow>
          (if bi_used (bs_budget s) = used \<and> \<not> spurious
           then set_thread t (Allocating requested) (s\<lparr>bs_budget := (bs_budget s)\<lparr>bi_used := new_used\<rparr>\<rparr>)
           else set_thread t (ReserveLoop requested (bi_used (bs_budget s))) s))"

text \<open>The return of \<open>hipMalloc\<close> inside \<open>BudgetedDeviceBuffer::allocate\<close>.\<close>

definition allocate_return :: "nat \<Rightarrow> nat \<Rightarrow> (hip_error, nat) result \<Rightarrow> budget_state \<Rightarrow> budget_state" where
  "allocate_return t requested returned s =
     (case device_allocate returned requested of
        Inr buffer \<Rightarrow>
          set_thread t (Returned (Inr \<lparr>bb_buffer = buffer, bb_charged = requested\<rparr>))
            (s\<lparr>bs_resident := bs_resident s + requested\<rparr>)
      | Inl e \<Rightarrow> set_thread t (RollingBack requested e) s)"

definition release_then :: "nat \<Rightarrow> nat \<Rightarrow> thread \<Rightarrow> budget_state \<Rightarrow> budget_state" where
  "release_then t charged p s =
     (case release (bs_budget s) charged of
        (b, ok) \<Rightarrow> set_thread t (if ok then p else Aborted) (s\<lparr>bs_budget := b\<rparr>))"

text \<open>Drop: \<open>hipFree\<close> unless the pointer is null, its result ignored, and then the release.\<close>

definition drop_free :: "nat \<Rightarrow> budgeted_buffer \<Rightarrow> bool \<Rightarrow> budget_state \<Rightarrow> budget_state" where
  "drop_free t b ok s =
     (let size = db_size (bb_buffer b) in
      set_thread t (Releasing (bb_charged b))
        (if db_ptr (bb_buffer b) = 0 \<or> ok then s\<lparr>bs_resident := bs_resident s - size\<rparr>
         else s\<lparr>bs_leaked := bs_leaked s + size\<rparr>))"

definition take_result :: "nat \<Rightarrow> (hip_error, budgeted_buffer) result \<Rightarrow> budget_state \<Rightarrow> budget_state" where
  "take_result t r s =
     set_thread t Idle (case r of Inl _ \<Rightarrow> s | Inr b \<Rightarrow> s\<lparr>bs_live := bs_live s @ [b]\<rparr>)"

fun thread_step :: "nat \<Rightarrow> thread \<Rightarrow> event \<Rightarrow> budget_state \<Rightarrow> budget_state option" where
  "thread_step t Idle (CallAllocate n) s = (if n \<le> u64_max then Some (set_thread t (ReserveLoad n) s) else None)"
| "thread_step t Idle (CallDrop i) s =
     (if i < length (bs_live s) then Some (set_thread t (Freeing (bs_live s ! i)) (s\<lparr>bs_live := remove_at i (bs_live s)\<rparr>)) else None)"
| "thread_step t (ReserveLoad n) (Access _) s = Some (reserve_load t n s)"
| "thread_step t (ReserveLoop n u) (Access spurious) s = Some (reserve_turn t n u spurious s)"
| "thread_step t (Allocating n) (MallocReturns r) s = Some (allocate_return t n r s)"
| "thread_step t (RollingBack n e) (Access _) s = Some (release_then t n (Returned (Inl e)) s)"
| "thread_step t (Returned r) TakeResult s = Some (take_result t r s)"
| "thread_step t (Freeing b) (FreeReturns ok) s = Some (drop_free t b ok s)"
| "thread_step t (Releasing n) (Access _) s = Some (release_then t n Idle s)"
| "thread_step t _ _ s = None"

definition budget_step :: "nat \<times> event \<Rightarrow> budget_state \<Rightarrow> budget_state option" where
  "budget_step te s = (if fst te < length (bs_threads s) then thread_step (fst te) (bs_threads s ! fst te) (snd te) s else None)"

fun budget_run :: "(nat \<times> event) list \<Rightarrow> budget_state \<Rightarrow> budget_state option" where
  "budget_run [] s = Some s"
| "budget_run (te # tes) s = Option.bind (budget_step te s) (budget_run tes)"

definition budget_start :: "nat \<Rightarrow> nat \<Rightarrow> budget_state" where
  "budget_start limit threads =
     \<lparr>bs_budget = budget_new limit, bs_threads = replicate threads Idle, bs_live = [], bs_resident = 0, bs_leaked = 0\<rparr>"

inductive budget_reachable :: "nat \<Rightarrow> nat \<Rightarrow> budget_state \<Rightarrow> bool" for limit threads where
  start: "budget_reachable limit threads (budget_start limit threads)"
| step: "budget_reachable limit threads s \<Longrightarrow> budget_step te s = Some s' \<Longrightarrow> budget_reachable limit threads s'"

end
