(* ===== verification/Hip_Ledger.thy ===== *)
theory Hip_Ledger
  imports Hip_Budget
begin

text \<open>
  The books of the allocation budget: in every interleaving the counter is the sum of what the live
  buffers and the threads in between hold, it never exceeds the limit, no release underflows, and the
  bytes the device holds are those of the buffers plus the ones whose \<open>hipFree\<close> was refused.
\<close>

section \<open>Single accesses\<close>

lemma reserve_target_eq:
  assumes "limit \<le> u64_max"
  shows "reserve_target limit used n = (if used + n \<le> limit then Inr (used + n) else Inl (refusal limit used n))"
proof (cases "used + n \<le> limit")
  case True
  then have "used + n < 2 ^ 64" using assms u64_max_lt by (meson le_trans)
  then show ?thesis using True by (simp add: reserve_target_def checked_add_def)
next
  case False
  then show ?thesis by (auto simp: reserve_target_def split: option.split)
qed

lemma fetch_sub_eq:
  assumes "charged \<le> used" "used \<le> u64_max"
  shows "fetch_sub used charged = used - charged"
proof -
  have "used + 2 ^ 64 - charged = (used - charged) + 2 ^ 64" using assms(1) by simp
  moreover have "used - charged < 2 ^ 64" using assms(2) u64_max_lt by (meson diff_le_self le_trans)
  ultimately show ?thesis unfolding fetch_sub_def by (metis mod_add_self2 mod_less)
qed

lemma release_eq:
  assumes "charged \<le> bi_used b" "bi_used b \<le> u64_max"
  shows "release b charged = (b\<lparr>bi_used := bi_used b - charged\<rparr>, True)"
  using fetch_sub_eq [OF assms] assms(1) by (simp add: release_def)

section \<open>Sums over threads and buffers\<close>

lemma sum_list_update_nat:
  "i < length xs \<Longrightarrow> sum_list (map f (xs[i := x])) + f (xs ! i) = sum_list (map f xs) + (f x :: nat)"
  by (induction xs arbitrary: i) (auto simp: nth_Cons split: nat.split)

lemma sum_list_remove_at:
  "i < length xs \<Longrightarrow> sum_list (map f (remove_at i xs)) + f (xs ! i) = (sum_list (map f xs) :: nat)"
proof -
  assume i: "i < length xs"
  have "map f xs = map f (take i xs) @ f (xs ! i) # map f (drop (Suc i) xs)" using id_take_nth_drop [OF i] by (metis list.simps(9) map_append)
  then show ?thesis by (simp add: remove_at_def)
qed

lemma sum_list_member_le: "i < length xs \<Longrightarrow> f (xs ! i) \<le> (sum_list (map f xs) :: nat)"
  by (metis elem_le_sum_list length_map nth_map)

lemma set_remove_at: "set (remove_at i xs) \<subseteq> set xs"
  by (metis le_supI remove_at_def set_append set_drop_subset set_take_subset)

text \<open>The bytes a thread has reserved and not yet passed on, and the bytes its buffer occupies.\<close>

fun thread_holds :: "thread \<Rightarrow> nat" where
  "thread_holds (Allocating n) = n"
| "thread_holds (RollingBack n e) = n"
| "thread_holds (Returned (Inr b)) = bb_charged b"
| "thread_holds (Freeing b) = bb_charged b"
| "thread_holds (Releasing n) = n"
| "thread_holds _ = 0"

fun thread_occupies :: "thread \<Rightarrow> nat" where
  "thread_occupies (Returned (Inr b)) = db_size (bb_buffer b)"
| "thread_occupies (Freeing b) = db_size (bb_buffer b)"
| "thread_occupies _ = 0"

definition buffer_ok :: "budgeted_buffer \<Rightarrow> bool" where
  "buffer_ok b \<longleftrightarrow> bb_charged b = db_size (bb_buffer b)"

fun thread_ok :: "thread \<Rightarrow> bool" where
  "thread_ok (Returned (Inr b)) \<longleftrightarrow> buffer_ok b"
| "thread_ok (Freeing b) \<longleftrightarrow> buffer_ok b"
| "thread_ok Aborted \<longleftrightarrow> False"
| "thread_ok _ \<longleftrightarrow> True"

definition books :: "budget_state \<Rightarrow> nat" where
  "books s = sum_list (map bb_charged (bs_live s)) + sum_list (map thread_holds (bs_threads s))"

definition occupied :: "budget_state \<Rightarrow> nat" where
  "occupied s = sum_list (map (\<lambda>b. db_size (bb_buffer b)) (bs_live s)) + sum_list (map thread_occupies (bs_threads s))"

definition ledger_inv :: "nat \<Rightarrow> budget_state \<Rightarrow> bool" where
  "ledger_inv limit s \<longleftrightarrow>
     bi_limit (bs_budget s) = limit \<and> bi_used (bs_budget s) = books s \<and> books s \<le> limit \<and>
     bs_resident s = occupied s + bs_leaked s \<and> (\<forall>b \<in> set (bs_live s). buffer_ok b) \<and> (\<forall>p \<in> set (bs_threads s). thread_ok p)"

section \<open>Preservation\<close>

text \<open>Moving a thread changes the books and the occupation by what the two thread states differ in.\<close>

lemma books_set_thread:
  "t < length (bs_threads s) \<Longrightarrow> books (set_thread t p s) + thread_holds (bs_threads s ! t) = books s + thread_holds p"
  using sum_list_update_nat [of t "bs_threads s" thread_holds p] by (simp add: books_def set_thread_def)

lemma occupied_set_thread:
  "t < length (bs_threads s) \<Longrightarrow> occupied (set_thread t p s) + thread_occupies (bs_threads s ! t) = occupied s + thread_occupies p"
  using sum_list_update_nat [of t "bs_threads s" thread_occupies p] by (simp add: occupied_def set_thread_def)

lemma set_thread_simps [simp]:
  "bs_budget (set_thread t p s) = bs_budget s"
  "bs_live (set_thread t p s) = bs_live s"
  "bs_resident (set_thread t p s) = bs_resident s"
  "bs_leaked (set_thread t p s) = bs_leaked s"
  "bs_threads (set_thread t p s) = (bs_threads s)[t := p]"
  by (simp_all add: set_thread_def)

lemma books_frame [simp]:
  "books (s\<lparr>bs_budget := b\<rparr>) = books s" "books (s\<lparr>bs_resident := r\<rparr>) = books s" "books (s\<lparr>bs_leaked := l\<rparr>) = books s"
  "occupied (s\<lparr>bs_budget := b\<rparr>) = occupied s" "occupied (s\<lparr>bs_resident := r\<rparr>) = occupied s" "occupied (s\<lparr>bs_leaked := l\<rparr>) = occupied s"
  by (simp_all add: books_def occupied_def)

lemma threads_ok_update: "\<forall>p \<in> set ps. thread_ok p \<Longrightarrow> thread_ok q \<Longrightarrow> \<forall>p \<in> set (ps[t := q]). thread_ok p"
  using set_update_subset_insert [of ps t q] by auto

lemma holds_le_books: "t < length (bs_threads s) \<Longrightarrow> thread_holds (bs_threads s ! t) \<le> books s"
  using sum_list_member_le [of t "bs_threads s" thread_holds] by (simp add: books_def)

text \<open>A step that moves one thread between states holding the same bytes keeps the books.\<close>

lemma ledger_inv_move:
  assumes "ledger_inv limit s" "t < length (bs_threads s)" "thread_ok p"
    and "thread_holds p = thread_holds (bs_threads s ! t)" "thread_occupies p = thread_occupies (bs_threads s ! t)"
  shows "ledger_inv limit (set_thread t p s)"
  using assms books_set_thread [of t s p] occupied_set_thread [of t s p] threads_ok_update [of "bs_threads s" p t]
  by (simp add: ledger_inv_def)

lemma ledger_inv_release_then:
  assumes inv: "ledger_inv limit s" and t: "t < length (bs_threads s)" and lim: "limit \<le> u64_max"
    and h: "thread_holds (bs_threads s ! t) = n" "thread_occupies (bs_threads s ! t) = 0"
    and p: "thread_holds p = 0" "thread_occupies p = 0" "thread_ok p"
  shows "release_then t n p s = set_thread t p (s\<lparr>bs_budget := (bs_budget s)\<lparr>bi_used := bi_used (bs_budget s) - n\<rparr>\<rparr>)"
    and "ledger_inv limit (release_then t n p s)"
proof -
  let ?b = "(bs_budget s)\<lparr>bi_used := bi_used (bs_budget s) - n\<rparr>"
  have le: "n \<le> bi_used (bs_budget s)" "bi_used (bs_budget s) \<le> u64_max"
    using inv holds_le_books [OF t] h lim by (auto simp: ledger_inv_def)
  show eq: "release_then t n p s = set_thread t p (s\<lparr>bs_budget := (bs_budget s)\<lparr>bi_used := bi_used (bs_budget s) - n\<rparr>\<rparr>)"
    by (simp add: release_then_def release_eq [OF le])
  show "ledger_inv limit (release_then t n p s)"
    unfolding eq
    using inv le h p t books_set_thread [of t "s\<lparr>bs_budget := ?b\<rparr>" p] occupied_set_thread [of t "s\<lparr>bs_budget := ?b\<rparr>" p]
      threads_ok_update [of "bs_threads s" p t]
    by (simp add: ledger_inv_def)
qed

lemma ledger_inv_reserve_turn:
  assumes inv: "ledger_inv limit s" and t: "t < length (bs_threads s)" and lim: "limit \<le> u64_max"
    and h: "bs_threads s ! t = ReserveLoop n u"
  shows "ledger_inv limit (reserve_turn t n u sp s)"
proof -
  have l: "bi_limit (bs_budget s) = limit" using inv by (simp add: ledger_inv_def)
  show ?thesis
  proof (cases "u + n \<le> limit \<and> bi_used (bs_budget s) = u \<and> \<not> sp")
    case True
    let ?b = "(bs_budget s)\<lparr>bi_used := u + n\<rparr>"
    have e: "reserve_turn t n u sp s = set_thread t (Allocating n) (s\<lparr>bs_budget := ?b\<rparr>)"
      using True by (simp add: reserve_turn_def l reserve_target_eq [OF lim])
    show ?thesis
      unfolding e using inv True t h books_set_thread [of t "s\<lparr>bs_budget := ?b\<rparr>" "Allocating n"]
        occupied_set_thread [of t "s\<lparr>bs_budget := ?b\<rparr>" "Allocating n"] threads_ok_update [of "bs_threads s" "Allocating n" t]
      by (simp add: ledger_inv_def)
  next
    case False
    then obtain p where "reserve_turn t n u sp s = set_thread t p s" "thread_ok p" "thread_holds p = 0" "thread_occupies p = 0"
      by (cases "u + n \<le> limit") (auto simp: reserve_turn_def l reserve_target_eq [OF lim])
    then show ?thesis using ledger_inv_move [OF inv t] h by simp
  qed
qed

lemma ledger_inv_allocate_return:
  assumes inv: "ledger_inv limit s" and t: "t < length (bs_threads s)" and h: "bs_threads s ! t = Allocating n"
  shows "ledger_inv limit (allocate_return t n r s)"
proof (cases "device_allocate r n")
  case (Inl e)
  then show ?thesis using ledger_inv_move [OF inv t] h by (simp add: allocate_return_def)
next
  case (Inr b)
  then have b: "db_size b = n" by (auto simp: device_allocate_def bind_r_eq_Inr)
  let ?s = "s\<lparr>bs_resident := bs_resident s + n\<rparr>" and ?p = "Returned (Inr \<lparr>bb_buffer = b, bb_charged = n\<rparr>)"
  have ok: "thread_ok ?p" using b by (simp add: buffer_ok_def)
  show ?thesis
    using inv t h b ok books_set_thread [of t ?s ?p] occupied_set_thread [of t ?s ?p] threads_ok_update [of "bs_threads s" ?p t]
    by (simp add: allocate_return_def Inr ledger_inv_def)
qed

lemma ledger_inv_drop_free:
  assumes inv: "ledger_inv limit s" and t: "t < length (bs_threads s)" and h: "bs_threads s ! t = Freeing b"
  shows "ledger_inv limit (drop_free t b ok s)"
proof -
  let ?u = "if db_ptr (bb_buffer b) = 0 \<or> ok then s\<lparr>bs_resident := bs_resident s - db_size (bb_buffer b)\<rparr>
    else s\<lparr>bs_leaked := bs_leaked s + db_size (bb_buffer b)\<rparr>"
  have "db_size (bb_buffer b) \<le> occupied s"
    using sum_list_member_le [OF t, of thread_occupies] h by (simp add: occupied_def)
  then show ?thesis
    using inv t h books_set_thread [of t ?u "Releasing (bb_charged b)"] occupied_set_thread [of t ?u "Releasing (bb_charged b)"]
      threads_ok_update [of "bs_threads s" "Releasing (bb_charged b)" t]
    by (auto simp: drop_free_def Let_def ledger_inv_def)
qed

lemma ledger_inv_take_result:
  assumes inv: "ledger_inv limit s" and t: "t < length (bs_threads s)" and h: "bs_threads s ! t = Returned r"
  shows "ledger_inv limit (take_result t r s)"
proof (cases r)
  case (Inl e)
  then show ?thesis using ledger_inv_move [OF inv t] h by (simp add: take_result_def)
next
  case (Inr b)
  have ok: "buffer_ok b" using inv t h Inr nth_mem [OF t] by (fastforce simp: ledger_inv_def)
  have "books (s\<lparr>bs_live := bs_live s @ [b]\<rparr>) = books s + bb_charged b"
    "occupied (s\<lparr>bs_live := bs_live s @ [b]\<rparr>) = occupied s + db_size (bb_buffer b)" by (simp_all add: books_def occupied_def)
  then show ?thesis
    using inv t h Inr ok books_set_thread [of t "s\<lparr>bs_live := bs_live s @ [b]\<rparr>" Idle] occupied_set_thread [of t "s\<lparr>bs_live := bs_live s @ [b]\<rparr>" Idle]
      threads_ok_update [of "bs_threads s" Idle t]
    by (auto simp: take_result_def ledger_inv_def)
qed

lemma ledger_inv_call_drop:
  assumes inv: "ledger_inv limit s" and t: "t < length (bs_threads s)" and h: "bs_threads s ! t = Idle" and i: "i < length (bs_live s)"
  shows "ledger_inv limit (set_thread t (Freeing (bs_live s ! i)) (s\<lparr>bs_live := remove_at i (bs_live s)\<rparr>))"
proof -
  let ?s = "s\<lparr>bs_live := remove_at i (bs_live s)\<rparr>" let ?b = "bs_live s ! i"
  have ok: "buffer_ok ?b" using inv i by (simp add: ledger_inv_def)
  have "books ?s + bb_charged ?b = books s" "occupied ?s + db_size (bb_buffer ?b) = occupied s"
    using sum_list_remove_at [OF i, of bb_charged] sum_list_remove_at [OF i, of "\<lambda>b. db_size (bb_buffer b)"]
    by (simp_all add: books_def occupied_def)
  then show ?thesis
    using inv t h ok books_set_thread [of t ?s "Freeing ?b"] occupied_set_thread [of t ?s "Freeing ?b"]
      threads_ok_update [of "bs_threads s" "Freeing ?b" t] set_remove_at [of i "bs_live s"]
    by (auto simp: ledger_inv_def)
qed

lemma budget_step_SomeD:
  "budget_step (t, e) s = Some s' \<Longrightarrow> t < length (bs_threads s) \<and> thread_step t (bs_threads s ! t) e s = Some s'"
  by (simp add: budget_step_def split: if_splits)

lemma ledger_inv_step:
  assumes inv: "ledger_inv limit s" and lim: "limit \<le> u64_max" and st: "budget_step te s = Some s'"
  shows "ledger_inv limit s'"
proof -
  obtain t e where te: "te = (t, e)" by force
  have t: "t < length (bs_threads s)" and st': "thread_step t (bs_threads s ! t) e s = Some s'"
    using budget_step_SomeD st te by blast+
  show ?thesis
  proof (cases "bs_threads s ! t")
    case Idle
    then show ?thesis using st' ledger_inv_move [OF inv t] ledger_inv_call_drop [OF inv t] by (cases e) (auto split: if_splits)
  next
    case (ReserveLoad n)
    then show ?thesis using st' ledger_inv_move [OF inv t] by (cases e) (auto simp: reserve_load_def)
  next
    case (ReserveLoop n u)
    then show ?thesis using st' ledger_inv_reserve_turn [OF inv t lim] by (cases e) auto
  next
    case (Allocating n)
    then show ?thesis using st' ledger_inv_allocate_return [OF inv t] by (cases e) auto
  next
    case (RollingBack n x)
    then show ?thesis using st' ledger_inv_release_then(2) [OF inv t lim] by (cases e) auto
  next
    case (Returned r)
    then show ?thesis using st' ledger_inv_take_result [OF inv t] by (cases e) auto
  next
    case (Freeing b)
    then show ?thesis using st' ledger_inv_drop_free [OF inv t] by (cases e) auto
  next
    case (Releasing n)
    then show ?thesis using st' ledger_inv_release_then(2) [OF inv t lim] by (cases e) auto
  next
    case Aborted
    then show ?thesis using st' by simp
  qed
qed

lemma reachable_ledger_inv: "budget_reachable limit threads s \<Longrightarrow> limit \<le> u64_max \<Longrightarrow> ledger_inv limit s"
proof (induction rule: budget_reachable.induct)
  case start
  then show ?case by (simp add: budget_start_def ledger_inv_def books_def occupied_def budget_new_def map_replicate_const sum_list_replicate)
next
  case (step s te s')
  then show ?case using ledger_inv_step by blast
qed

lemma occupied_le_books: "ledger_inv limit s \<Longrightarrow> occupied s \<le> books s"
proof -
  assume inv: "ledger_inv limit s"
  have "thread_ok p \<Longrightarrow> thread_occupies p \<le> thread_holds p" for p by (cases p rule: thread_ok.cases) (auto simp: buffer_ok_def)
  then show ?thesis
    using inv unfolding occupied_def books_def ledger_inv_def
    by (intro add_mono sum_list_mono) (auto simp: buffer_ok_def)
qed

lemma quiet_ledger:
  "ledger_inv limit s \<Longrightarrow> set (bs_threads s) \<subseteq> {Idle} \<Longrightarrow> bi_used (bs_budget s) = sum_list (map (\<lambda>b. db_size (bb_buffer b)) (bs_live s))"
proof -
  assume inv: "ledger_inv limit s" and q: "set (bs_threads s) \<subseteq> {Idle}"
  have "sum_list (map thread_holds (bs_threads s)) = 0" using q by (simp add: sum_list_eq_0_iff subset_iff) (metis thread_holds.simps(6))
  moreover have "map bb_charged (bs_live s) = map (\<lambda>b. db_size (bb_buffer b)) (bs_live s)"
    using inv by (simp add: ledger_inv_def buffer_ok_def)
  then have "sum_list (map bb_charged (bs_live s)) = sum_list (map (\<lambda>b. db_size (bb_buffer b)) (bs_live s))" by (rule arg_cong)
  ultimately show ?thesis using inv unfolding ledger_inv_def books_def by linarith
qed

lemma reachable_threads: "budget_reachable limit threads s \<Longrightarrow> length (bs_threads s) = threads"
proof (induction rule: budget_reachable.induct)
  case start
  then show ?case by (simp add: budget_start_def)
next
  case (step s te s')
  obtain t e where te: "te = (t, e)" by force
  have "thread_step t (bs_threads s ! t) e s = Some s'" using budget_step_SomeD step te by blast
  then have "length (bs_threads s') = length (bs_threads s)"
    by (cases "(t, bs_threads s ! t, e, s)" rule: thread_step.cases)
      (auto simp: reserve_load_def reserve_turn_def allocate_return_def release_then_def take_result_def drop_free_def Let_def
        split: if_splits sum.splits prod.splits)
  then show ?case using step by simp
qed

end
