(* ===== verification/Hip_Refine.thy ===== *)
theory Hip_Refine
  imports Hip_Ledger
begin

text \<open>
  What the budget promises its clients, as a ledger on which a whole reservation is one indivisible
  act: it is granted when the bytes fit the ledger at that moment and refused with the figures of that
  moment when they do not. The ledger is deterministic, and every act names the client and what the
  outside world did: the call, the answer of \<open>hipMalloc\<close> or \<open>hipFree\<close>, the use of a result. The
  lock-free threads of \<^theory_text>\<open>Hip_Budget\<close> and the ledger simulate each other with the same visible acts: a
  refusal takes effect at the load it rests on, a grant at the compare-and-exchange. A thread that runs
  alone decides after two accesses, and a call that runs alone allocates, rolls back and returns exactly.
\<close>

section \<open>The atomic ledger\<close>

datatype client =
    Quiet
  | Asked nat
  | Reserved nat
  | Undoing nat hip_error
  | Answered "(hip_error, budgeted_buffer) result"
  | Dropping budgeted_buffer
  | Repaying nat

datatype act = Visible event | Decide | Repay

record atomic_ledger =
  al_limit :: nat
  al_used :: nat
  al_clients :: "client list"
  al_live :: "budgeted_buffer list"

definition client_to :: "nat \<Rightarrow> client \<Rightarrow> atomic_ledger \<Rightarrow> atomic_ledger" where
  "client_to t c l = l\<lparr>al_clients := (al_clients l)[t := c]\<rparr>"

fun client_act :: "nat \<Rightarrow> client \<Rightarrow> act \<Rightarrow> atomic_ledger \<Rightarrow> atomic_ledger option" where
  "client_act t Quiet (Visible (CallAllocate n)) l = (if n \<le> u64_max then Some (client_to t (Asked n) l) else None)"
| "client_act t Quiet (Visible (CallDrop i)) l =
     (if i < length (al_live l)
      then Some (client_to t (Dropping (al_live l ! i)) (l\<lparr>al_live := take i (al_live l) @ drop (Suc i) (al_live l)\<rparr>)) else None)"
| "client_act t (Asked n) Decide l =
     (if al_used l + n \<le> al_limit l then Some (client_to t (Reserved n) (l\<lparr>al_used := al_used l + n\<rparr>))
      else Some (client_to t (Answered (Inl (BudgetExceeded (al_limit l) (al_used l) n (al_limit l - al_used l)))) l))"
| "client_act t (Reserved n) (Visible (MallocReturns (Inl e))) l = Some (client_to t (Undoing n e) l)"
| "client_act t (Reserved n) (Visible (MallocReturns (Inr p))) l =
     Some (client_to t (if p = 0 \<and> 0 < n then Undoing n (NullPointer ''hipMalloc returned null pointer'')
       else Answered (Inr \<lparr>bb_buffer = \<lparr>db_ptr = p, db_size = n\<rparr>, bb_charged = n\<rparr>)) l)"
| "client_act t (Undoing n e) Repay l =
     (if n \<le> al_used l then Some (client_to t (Answered (Inl e)) (l\<lparr>al_used := al_used l - n\<rparr>)) else None)"
| "client_act t (Answered (Inl e)) (Visible TakeResult) l = Some (client_to t Quiet l)"
| "client_act t (Answered (Inr b)) (Visible TakeResult) l = Some (client_to t Quiet (l\<lparr>al_live := al_live l @ [b]\<rparr>))"
| "client_act t (Dropping b) (Visible (FreeReturns ok)) l = Some (client_to t (Repaying (bb_charged b)) l)"
| "client_act t (Repaying n) Repay l =
     (if n \<le> al_used l then Some (client_to t Quiet (l\<lparr>al_used := al_used l - n\<rparr>)) else None)"
| "client_act t _ _ l = None"

definition ledger_act :: "nat \<times> act \<Rightarrow> atomic_ledger \<Rightarrow> atomic_ledger option" where
  "ledger_act ta l =
     (if fst ta < length (al_clients l) then client_act (fst ta) (al_clients l ! fst ta) (snd ta) l else None)"

definition ledger_start :: "nat \<Rightarrow> nat \<Rightarrow> atomic_ledger" where
  "ledger_start limit clients = \<lparr>al_limit = limit, al_used = 0, al_clients = replicate clients Quiet, al_live = []\<rparr>"

fun run_all :: "('e \<Rightarrow> 's \<Rightarrow> 's option) \<Rightarrow> 'e list \<Rightarrow> 's \<Rightarrow> 's option" where
  "run_all step [] s = Some s"
| "run_all step (e # es) s = Option.bind (step e s) (run_all step es)"

lemma run_all_append: "run_all step (xs @ ys) s = Option.bind (run_all step xs s) (run_all step ys)"
proof (induction xs arbitrary: s)
  case (Cons x xs)
  then show ?case by (cases "step x s") simp_all
qed simp

lemma budget_run_all: "budget_run = run_all budget_step"
proof (intro ext)
  show "budget_run tes s = run_all budget_step tes s" for tes s
  proof (induction tes arbitrary: s)
    case (Cons te tes)
    then show ?case by (cases "budget_step te s") simp_all
  qed simp
qed

text \<open>What a run shows of itself: everything but the accesses to the counter.\<close>

fun shown_event :: "nat \<times> event \<Rightarrow> (nat \<times> event) list" where
  "shown_event (t, Access sp) = []"
| "shown_event te = [te]"

fun shown_act :: "nat \<times> act \<Rightarrow> (nat \<times> event) list" where
  "shown_act (t, Visible e) = [(t, e)]"
| "shown_act _ = []"

section \<open>Simulation\<close>

text \<open>
  A system all of whose steps can be matched by finitely many steps of another one that show the same.
\<close>

locale simulation =
  fixes cstep :: "'c \<Rightarrow> 's \<Rightarrow> 's option" and astep :: "'a \<Rightarrow> 'r \<Rightarrow> 'r option"
    and match :: "'s \<Rightarrow> 'r \<Rightarrow> bool" and cshow :: "'c \<Rightarrow> 'v list" and ashow :: "'a \<Rightarrow> 'v list"
  assumes simulates: "match s r \<Longrightarrow> cstep e s = Some s' \<Longrightarrow>
    \<exists>as r'. run_all astep as r = Some r' \<and> match s' r' \<and> concat (map ashow as) = cshow e"
begin

lemma simulates_run:
  assumes "match s r" and "run_all cstep es s = Some s'"
  shows "\<exists>ass. length ass = length es \<and> (\<forall>i < length es. concat (map ashow (ass ! i)) = cshow (es ! i)) \<and>
    (\<forall>k \<le> length es. \<exists>sk rk. run_all cstep (take k es) s = Some sk \<and> run_all astep (concat (take k ass)) r = Some rk \<and> match sk rk)"
  using assms
proof (induction es arbitrary: s r)
  case Nil
  then show ?case by simp
next
  case (Cons e es)
  obtain s1 where s1: "cstep e s = Some s1" "run_all cstep es s1 = Some s'" using Cons.prems(2) by (cases "cstep e s") auto
  obtain as r1 where a: "run_all astep as r = Some r1" "match s1 r1" "concat (map ashow as) = cshow e"
    using simulates [OF Cons.prems(1) s1(1)] by blast
  obtain ass where n: "length ass = length es" and sh: "\<forall>i < length es. concat (map ashow (ass ! i)) = cshow (es ! i)"
    and m: "\<forall>k \<le> length es. \<exists>sk rk. run_all cstep (take k es) s1 = Some sk \<and> run_all astep (concat (take k ass)) r1 = Some rk \<and> match sk rk"
    using Cons.IH [OF a(2) s1(2)] by blast
  have "\<exists>sk rk. run_all cstep (take k (e # es)) s = Some sk \<and> run_all astep (concat (take k (as # ass))) r = Some rk \<and> match sk rk"
    if "k \<le> length (e # es)" for k
    using that m s1(1) a(1) Cons.prems(1) by (cases k) (simp_all add: run_all_append)
  moreover have "concat (map ashow ((as # ass) ! i)) = cshow ((e # es) ! i)" if "i < length (e # es)" for i
    using that sh a(3) by (cases i) simp_all
  ultimately show ?case using n by (intro exI [of _ "as # ass"]) simp
qed

end

text \<open>A thread in its loop counts as refused as soon as the value it has loaded is too large.\<close>

fun client_of :: "nat \<Rightarrow> thread \<Rightarrow> client" where
  "client_of limit (ReserveLoad n) = Asked n"
| "client_of limit (ReserveLoop n u) = (if u + n \<le> limit then Asked n else Answered (Inl (refusal limit u n)))"
| "client_of limit (Allocating n) = Reserved n"
| "client_of limit (RollingBack n e) = Undoing n e"
| "client_of limit (Returned r) = Answered r"
| "client_of limit (Freeing b) = Dropping b"
| "client_of limit (Releasing n) = Repaying n"
| "client_of limit _ = Quiet"

definition ledger_view :: "budget_state \<Rightarrow> atomic_ledger" where
  "ledger_view s =
     (let limit = bi_limit (bs_budget s) in
      \<lparr>al_limit = limit, al_used = bi_used (bs_budget s), al_clients = map (client_of limit) (bs_threads s),
       al_live = bs_live s\<rparr>)"

lemma ledger_view_sel [simp]:
  "al_limit (ledger_view s) = bi_limit (bs_budget s)"
  "al_used (ledger_view s) = bi_used (bs_budget s)"
  "al_clients (ledger_view s) = map (client_of (bi_limit (bs_budget s))) (bs_threads s)"
  "al_live (ledger_view s) = bs_live s"
  by (simp_all add: ledger_view_def Let_def)

lemma ledger_view_move:
  "ledger_view (set_thread t p s) = client_to t (client_of (bi_limit (bs_budget s)) p) (ledger_view s)"
  by (simp add: ledger_view_def client_to_def Let_def map_update)

lemma ledger_view_live: "ledger_view (s\<lparr>bs_live := bs\<rparr>) = (ledger_view s)\<lparr>al_live := bs\<rparr>"
  by (simp add: ledger_view_def Let_def)

lemma ledger_view_used:
  "ledger_view (s\<lparr>bs_budget := (bs_budget s)\<lparr>bi_used := u\<rparr>\<rparr>) = (ledger_view s)\<lparr>al_used := u\<rparr>"
  by (simp add: ledger_view_def Let_def)

lemma ledger_view_frame [simp]:
  "ledger_view (s\<lparr>bs_resident := r\<rparr>) = ledger_view s" "ledger_view (s\<lparr>bs_leaked := l\<rparr>) = ledger_view s"
  by (simp_all add: ledger_view_def)

lemmas view_simps = ledger_view_move ledger_view_live ledger_view_used

lemma view_stutter:
  "t < length (bs_threads s) \<Longrightarrow> client_of (bi_limit (bs_budget s)) (bs_threads s ! t) = c \<Longrightarrow> client_to t c (ledger_view s) = ledger_view s"
  by (simp add: ledger_view_def Let_def client_to_def) (metis length_map list_update_id nth_map)

lemma ledger_act_view:
  "t < length (bs_threads s) \<Longrightarrow>
   ledger_act (t, a) (ledger_view s) = client_act t (client_of (bi_limit (bs_budget s)) (bs_threads s ! t)) a (ledger_view s)"
  by (simp add: ledger_act_def)

section \<open>The threads simulate the ledger\<close>

text \<open>One step of a thread is invisible to the ledger or one act of the client.\<close>

definition acts_as :: "budget_state \<Rightarrow> nat \<times> event \<Rightarrow> budget_state \<Rightarrow> bool" where
  "acts_as s te s' \<longleftrightarrow>
     (ledger_view s' = ledger_view s \<and> shown_event te = []) \<or>
     (\<exists>a. ledger_act (fst te, a) (ledger_view s) = Some (ledger_view s') \<and> shown_act (fst te, a) = shown_event te)"

lemma acts_asI: "ledger_act (t, a) (ledger_view s) = Some (ledger_view s') \<Longrightarrow> shown_act (t, a) = shown_event (t, e) \<Longrightarrow> acts_as s (t, e) s'"
  by (auto simp: acts_as_def)

text \<open>Loading the counter either leaves the request open or settles the refusal.\<close>

lemma load_acts:
  assumes t: "t < length (bs_threads s)" and h: "client_of (bi_limit (bs_budget s)) (bs_threads s ! t) = Asked n"
  shows "acts_as s (t, Access sp) (set_thread t (ReserveLoop n (bi_used (bs_budget s))) s)"
proof (cases "bi_used (bs_budget s) + n \<le> bi_limit (bs_budget s)")
  case True
  then show ?thesis using view_stutter [OF t h] by (simp add: acts_as_def view_simps)
next
  case False
  then show ?thesis using h by (intro acts_asI [of t Decide]) (simp_all add: ledger_act_view [OF t] view_simps refusal_def)
qed

lemma turn_acts:
  assumes inv: "ledger_inv limit s" and lim: "limit \<le> u64_max" and t: "t < length (bs_threads s)" and h: "bs_threads s ! t = ReserveLoop n u"
  shows "acts_as s (t, Access sp) (reserve_turn t n u sp s)"
proof -
  have l: "bi_limit (bs_budget s) = limit" using inv by (simp add: ledger_inv_def)
  consider "\<not> u + n \<le> limit" | "u + n \<le> limit" "bi_used (bs_budget s) = u \<and> \<not> sp" | "u + n \<le> limit" "\<not> (bi_used (bs_budget s) = u \<and> \<not> sp)"
    by blast
  then show ?thesis
  proof cases
    case 1
    then show ?thesis using view_stutter [OF t] h l by (simp add: acts_as_def view_simps reserve_turn_def reserve_target_eq [OF lim])
  next
    case 2
    then show ?thesis using h l
      by (intro acts_asI [of t Decide]) (simp_all add: ledger_act_view [OF t] view_simps reserve_turn_def reserve_target_eq [OF lim])
  next
    case 3
    then show ?thesis using load_acts [OF t, of n] h l by (auto simp: reserve_turn_def reserve_target_eq [OF lim])
  qed
qed

lemma release_acts:
  assumes inv: "ledger_inv limit s" and lim: "limit \<le> u64_max" and t: "t < length (bs_threads s)"
    and h: "bs_threads s ! t = RollingBack n e \<and> p = Returned (Inl e) \<or> bs_threads s ! t = Releasing n \<and> p = Idle"
  shows "ledger_act (t, Repay) (ledger_view s) = Some (ledger_view (release_then t n p s))"
proof -
  have hf: "thread_holds (bs_threads s ! t) = n" "thread_occupies (bs_threads s ! t) = 0" "thread_holds p = 0" "thread_occupies p = 0" "thread_ok p"
    using h by auto
  have le: "n \<le> bi_used (bs_budget s)" using inv holds_le_books [OF t] hf(1) by (simp add: ledger_inv_def)
  show ?thesis unfolding ledger_inv_release_then(1) [OF inv t lim hf] using h le by (auto simp: ledger_act_view [OF t] view_simps)
qed

lemma malloc_acts:
  assumes t: "t < length (bs_threads s)" and h: "bs_threads s ! t = Allocating n"
  shows "ledger_act (t, Visible (MallocReturns r)) (ledger_view s) = Some (ledger_view (allocate_return t n r s))"
  using h by (cases r) (auto simp: ledger_act_view [OF t] view_simps allocate_return_def device_allocate_def lib_malloc_def)

lemma step_acts:
  assumes inv: "ledger_inv limit s" and lim: "limit \<le> u64_max" and st: "budget_step te s = Some s'"
  shows "acts_as s te s'"
proof -
  obtain t e where te: "te = (t, e)" by force
  have t: "t < length (bs_threads s)" and st: "thread_step t (bs_threads s ! t) e s = Some s'"
    using budget_step_SomeD st te by blast+
  note view = ledger_act_view [OF t] view_simps
  have "acts_as s (t, e) s'"
  proof (cases "bs_threads s ! t")
    case Idle
    then show ?thesis using st by (cases e) (auto simp: view remove_at_def intro!: acts_asI [of t "Visible e"] split: if_splits)
  next
    case (ReserveLoad n)
    then show ?thesis using st load_acts [OF t, of n] by (cases e) (auto simp: reserve_load_def)
  next
    case (ReserveLoop n u)
    then show ?thesis using st turn_acts [OF inv lim t] by (cases e) auto
  next
    case (Allocating n)
    then show ?thesis using st malloc_acts [OF t] by (cases e) (auto intro: acts_asI [of t "Visible e"])
  next
    case (RollingBack n x)
    then show ?thesis using st release_acts [OF inv lim t] by (cases e) (auto intro: acts_asI [of t Repay])
  next
    case (Returned r)
    then show ?thesis using st by (cases e; cases r) (auto simp: view take_result_def intro!: acts_asI [of t "Visible e"])
  next
    case (Freeing b)
    then show ?thesis using st by (cases e) (auto simp: view drop_free_def Let_def intro!: acts_asI [of t "Visible e"])
  next
    case (Releasing n)
    then show ?thesis using st release_acts [OF inv lim t] by (cases e) (auto intro: acts_asI [of t Repay])
  next
    case Aborted
    then show ?thesis using st by simp
  qed
  then show ?thesis by (simp add: te)
qed

definition books_in_order :: "budget_state \<Rightarrow> bool" where
  "books_in_order s \<longleftrightarrow> (\<exists>limit \<le> u64_max. ledger_inv limit s)"

lemma books_in_order_step: "books_in_order s \<Longrightarrow> budget_step te s = Some s' \<Longrightarrow> books_in_order s'"
  unfolding books_in_order_def using ledger_inv_step by blast

lemma books_in_order_run: "books_in_order s \<Longrightarrow> run_all budget_step tes s = Some s' \<Longrightarrow> books_in_order s'"
proof (induction tes arbitrary: s)
  case (Cons te tes)
  then obtain s1 where "budget_step te s = Some s1" "run_all budget_step tes s1 = Some s'" by (cases "budget_step te s") auto
  then show ?case using Cons.IH books_in_order_step [OF Cons.prems(1)] by blast
qed simp

interpretation ledger: simulation budget_step ledger_act "\<lambda>s l. l = ledger_view s \<and> books_in_order s" shown_event shown_act
proof
  fix s l te s' assume m: "l = ledger_view s \<and> books_in_order s" and st: "budget_step te s = Some s'"
  have "acts_as s te s'" using m st step_acts unfolding books_in_order_def by blast
  then obtain as where "run_all ledger_act as l = Some (ledger_view s')" "concat (map shown_act as) = shown_event te"
    unfolding acts_as_def
  proof (elim disjE exE conjE)
    fix a assume "ledger_act (fst te, a) (ledger_view s) = Some (ledger_view s')" "shown_act (fst te, a) = shown_event te"
    then show thesis using m by (intro that [of "[(fst te, a)]"]) simp_all
  qed (use m in \<open>auto intro: that [of "[]"]\<close>)
  then show "\<exists>as r'. run_all ledger_act as l = Some r' \<and> (r' = ledger_view s' \<and> books_in_order s') \<and> concat (map shown_act as) = shown_event te"
    using m st books_in_order_step by blast
qed

section \<open>The ledger simulates the threads\<close>

text \<open>
  In the other direction a decision of the ledger is taken by two accesses of the thread in a row, so
  that no thread rests inside its loop.
\<close>

definition outside_loops :: "budget_state \<Rightarrow> bool" where
  "outside_loops s \<longleftrightarrow> (\<forall>p \<in> set (bs_threads s). \<forall>n u. p \<noteq> ReserveLoop n u)"

lemma outside_loops_at: "outside_loops s \<Longrightarrow> t < length (bs_threads s) \<Longrightarrow> bs_threads s ! t \<noteq> ReserveLoop n u"
  by (auto simp: outside_loops_def)

lemma outside_loops_set: "outside_loops s \<Longrightarrow> \<forall>n u. p \<noteq> ReserveLoop n u \<Longrightarrow> bs_threads s' = (bs_threads s)[t := p] \<Longrightarrow> outside_loops s'"
  using set_update_subset_insert [of "bs_threads s" t p] by (auto simp: outside_loops_def)

lemma budget_step_at [simp]: "t < length (bs_threads s) \<Longrightarrow> budget_step (t, e) s = thread_step t (bs_threads s ! t) e s"
  by (simp add: budget_step_def)

lemma set_thread_twice [simp]: "set_thread t p (set_thread t q s) = set_thread t p s"
  by (simp add: set_thread_def)

definition realises :: "budget_state \<Rightarrow> nat \<times> act \<Rightarrow> atomic_ledger \<Rightarrow> bool" where
  "realises s ta l' \<longleftrightarrow> (\<exists>tes s'. run_all budget_step tes s = Some s' \<and> ledger_view s' = l' \<and> outside_loops s' \<and>
     concat (map shown_event tes) = shown_act ta)"

lemma realises_step:
  assumes "t < length (bs_threads s)" "thread_step t (bs_threads s ! t) e s = Some s'" "ledger_view s' = l'"
    and "outside_loops s" "bs_threads s' = (bs_threads s)[t := p]" "\<forall>n u. p \<noteq> ReserveLoop n u" "shown_event (t, e) = shown_act (t, a)"
  shows "realises s (t, a) l'"
  unfolding realises_def using assms outside_loops_set [OF assms(4,6,5)] by (intro exI [of _ "[(t, e)]"] exI [of _ s']) simp

lemma release_then_thread:
  assumes "\<forall>n u. p \<noteq> ReserveLoop n u"
  obtains p' where "bs_threads (release_then t n p s) = (bs_threads s)[t := p']" "\<forall>n u. p' \<noteq> ReserveLoop n u"
  using assms by (intro that [of "if snd (release (bs_budget s) n) then p else Aborted"]) (auto simp: release_then_def split: prod.split)

lemma two_accesses:
  assumes lim: "bi_limit (bs_budget s) \<le> u64_max" and t: "t < length (bs_threads s)" and h: "bs_threads s ! t = ReserveLoad n"
  shows "run_all budget_step [(t, Access False), (t, Access False)] s = Some
    (if bi_used (bs_budget s) + n \<le> bi_limit (bs_budget s)
     then set_thread t (Allocating n) (s\<lparr>bs_budget := (bs_budget s)\<lparr>bi_used := bi_used (bs_budget s) + n\<rparr>\<rparr>)
     else set_thread t (Returned (Inl (refusal (bi_limit (bs_budget s)) (bi_used (bs_budget s)) n))) s)"
proof -
  have "set_thread t p ((set_thread t q s)\<lparr>bs_budget := b\<rparr>) = set_thread t p (s\<lparr>bs_budget := b\<rparr>)" for p q b by (simp add: set_thread_def)
  then show ?thesis using assms by (simp add: reserve_load_def reserve_turn_def reserve_target_eq)
qed

lemma decide_realised:
  assumes "ledger_inv limit s" "limit \<le> u64_max" and out: "outside_loops s" and t: "t < length (bs_threads s)" and h: "bs_threads s ! t = ReserveLoad n"
    and l': "ledger_act (t, Decide) (ledger_view s) = Some l'"
  shows "realises s (t, Decide) l'"
proof -
  have lim: "bi_limit (bs_budget s) \<le> u64_max" using assms(1,2) by (simp add: ledger_inv_def)
  let ?s = "if bi_used (bs_budget s) + n \<le> bi_limit (bs_budget s)
     then set_thread t (Allocating n) (s\<lparr>bs_budget := (bs_budget s)\<lparr>bi_used := bi_used (bs_budget s) + n\<rparr>\<rparr>)
     else set_thread t (Returned (Inl (refusal (bi_limit (bs_budget s)) (bi_used (bs_budget s)) n))) s"
  have "ledger_view ?s = l'" using l' h by (auto simp: ledger_act_view [OF t] view_simps refusal_def)
  moreover have "outside_loops ?s" by (rule outside_loops_set [OF out, of "if bi_used (bs_budget s) + n \<le> bi_limit (bs_budget s)
    then Allocating n else Returned (Inl (refusal (bi_limit (bs_budget s)) (bi_used (bs_budget s)) n))" _ t]) auto
  ultimately show ?thesis unfolding realises_def using two_accesses [OF lim t h]
    by (intro exI [of _ "[(t, Access False), (t, Access False)]"] exI [of _ ?s]) simp
qed

lemma act_realised:
  assumes inv: "ledger_inv limit s" "limit \<le> u64_max" and out: "outside_loops s" and act: "ledger_act ta (ledger_view s) = Some l'"
  shows "realises s ta l'"
proof -
  obtain t a where ta: "ta = (t, a)" by force
  have t: "t < length (bs_threads s)" using act by (simp add: ta ledger_act_def split: if_splits)
  note view = ledger_act_view [OF t] view_simps
  have c: "client_act t (client_of (bi_limit (bs_budget s)) (bs_threads s ! t)) a (ledger_view s) = Some l'"
    using act by (simp add: ta ledger_act_view [OF t])
  have "realises s (t, a) l'"
  proof (cases "bs_threads s ! t")
    case Idle
    then obtain e where a: "a = Visible e" using c by (cases a) auto
    show ?thesis
    proof (cases e)
      case (CallAllocate n)
      show ?thesis by (rule realises_step [OF t, of "CallAllocate n" _ _ "ReserveLoad n"])
        (use c Idle a CallAllocate out in \<open>auto simp: view split: if_splits\<close>)
    next
      case (CallDrop i)
      show ?thesis by (rule realises_step [OF t, of "CallDrop i" _ _ "Freeing (bs_live s ! i)"])
        (use c Idle a CallDrop out in \<open>auto simp: view remove_at_def split: if_splits\<close>)
    qed (use c Idle a in auto)
  next
    case (ReserveLoad n)
    then have "a = Decide" using c by (cases a) auto
    then show ?thesis using decide_realised [OF inv out t ReserveLoad] act by (simp add: ta)
  next
    case (ReserveLoop n u)
    then show ?thesis using outside_loops_at [OF out t] by simp
  next
    case (Allocating n)
    then obtain r where a: "a = Visible (MallocReturns r)" using c by (cases "(t, Reserved n, a, ledger_view s)" rule: client_act.cases) auto
    obtain p where p: "bs_threads (allocate_return t n r s) = (bs_threads s)[t := p]" "\<forall>n u. p \<noteq> ReserveLoop n u"
      by (cases "device_allocate r n") (auto simp: allocate_return_def)
    show ?thesis by (rule realises_step [OF t, of "MallocReturns r", OF _ _ out p])
      (use act malloc_acts [OF t Allocating, of r] Allocating in \<open>auto simp: ta a\<close>)
  next
    case (RollingBack n e)
    then have a: "a = Repay" using c by (cases a) auto
    obtain p where p: "bs_threads (release_then t n (Returned (Inl e)) s) = (bs_threads s)[t := p]" "\<forall>n u. p \<noteq> ReserveLoop n u"
      by (rule release_then_thread [of "Returned (Inl e)" t n s]) auto
    show ?thesis by (rule realises_step [OF t, of "Access False", OF _ _ out p])
      (use act release_acts [OF inv t] RollingBack in \<open>auto simp: ta a\<close>)
  next
    case (Returned r)
    then have a: "a = Visible TakeResult" using c by (cases "(t, Answered r, a, ledger_view s)" rule: client_act.cases) auto
    show ?thesis by (rule realises_step [OF t, of TakeResult _ _ Idle])
      (use c Returned a out in \<open>auto simp: view take_result_def split: sum.splits\<close>)
  next
    case (Freeing b)
    then obtain ok where a: "a = Visible (FreeReturns ok)" using c by (cases "(t, Dropping b, a, ledger_view s)" rule: client_act.cases) auto
    show ?thesis by (rule realises_step [OF t, of "FreeReturns ok" _ _ "Releasing (bb_charged b)"])
      (use c Freeing a out in \<open>auto simp: view drop_free_def Let_def\<close>)
  next
    case (Releasing n)
    then have a: "a = Repay" using c by (cases a) auto
    obtain p where p: "bs_threads (release_then t n Idle s) = (bs_threads s)[t := p]" "\<forall>n u. p \<noteq> ReserveLoop n u"
      by (rule release_then_thread [of Idle t n s]) auto
    show ?thesis by (rule realises_step [OF t, of "Access False", OF _ _ out p])
      (use act release_acts [OF inv t] Releasing in \<open>auto simp: ta a\<close>)
  next
    case Aborted
    then show ?thesis using inv nth_mem [OF t] by (fastforce simp: ledger_inv_def)
  qed
  then show ?thesis by (simp add: ta)
qed

interpretation threads: simulation ledger_act budget_step "\<lambda>l s. l = ledger_view s \<and> books_in_order s \<and> outside_loops s" shown_act shown_event
proof
  fix l s ta l' assume m: "l = ledger_view s \<and> books_in_order s \<and> outside_loops s" and st: "ledger_act ta l = Some l'"
  then have "realises s ta l'" using act_realised unfolding books_in_order_def by blast
  then show "\<exists>tes s'. run_all budget_step tes s = Some s' \<and> (l' = ledger_view s' \<and> books_in_order s' \<and> outside_loops s') \<and>
      concat (map shown_event tes) = shown_act ta"
    unfolding realises_def using m books_in_order_run by blast
qed

lemma start_view: "ledger_view (budget_start limit threads) = ledger_start limit threads"
  by (simp add: ledger_view_def ledger_start_def budget_start_def budget_new_def Let_def)

lemma start_in_order: "limit \<le> u64_max \<Longrightarrow> books_in_order (budget_start limit threads) \<and> outside_loops (budget_start limit threads)"
  using reachable_ledger_inv [OF budget_reachable.start] by (auto simp: books_in_order_def outside_loops_def budget_start_def)

section \<open>Threads that run alone\<close>

lemma lone_turn:
  assumes lim: "bi_limit (bs_budget s) \<le> u64_max" and t: "t < length (bs_threads s)"
    and h: "bs_threads s ! t = ReserveLoop n (bi_used (bs_budget s))"
  shows "budget_step (t, Access False) s = Some
    (if bi_used (bs_budget s) + n \<le> bi_limit (bs_budget s)
     then set_thread t (Allocating n) (s\<lparr>bs_budget := (bs_budget s)\<lparr>bi_used := bi_used (bs_budget s) + n\<rparr>\<rparr>)
     else set_thread t (Returned (Inl (refusal (bi_limit (bs_budget s)) (bi_used (bs_budget s)) n))) s)"
  using t h by (simp add: reserve_turn_def reserve_target_eq [OF lim])

lemma set_thread_same: "t < length (bs_threads s) \<Longrightarrow> bs_threads s ! t = p \<Longrightarrow> set_thread t p s = s"
  by (auto simp: set_thread_def)

text \<open>Two accesses are enough for a thread whose ledger nobody else touches.\<close>

lemma lone_reserve_decides:
  assumes lim: "bi_limit (bs_budget s) = limit" "limit \<le> u64_max" and t: "t < length (bs_threads s)"
    and h: "bs_threads s ! t \<in> {ReserveLoad n, ReserveLoop n u}"
  shows "\<exists>k \<le> 2. \<exists>s'. budget_run (replicate k (t, Access False)) s = Some s' \<and>
    (s' = set_thread t (Allocating n) (s\<lparr>bs_budget := (bs_budget s)\<lparr>bi_used := bi_used (bs_budget s) + n\<rparr>\<rparr>) \<and>
       bi_used (bs_budget s) + n \<le> limit \<or>
     (\<exists>v. s' = set_thread t (Returned (Inl (refusal limit v n))) s \<and> limit < v + n))"
proof -
  let ?s1 = "set_thread t (ReserveLoop n (bi_used (bs_budget s))) s"
  let ?s2 = "if bi_used (bs_budget s) + n \<le> limit
    then set_thread t (Allocating n) (s\<lparr>bs_budget := (bs_budget s)\<lparr>bi_used := bi_used (bs_budget s) + n\<rparr>\<rparr>)
    else set_thread t (Returned (Inl (refusal limit (bi_used (bs_budget s)) n))) s"
  have two: "budget_step (t, Access False) ?s1 = Some ?s2"
  proof -
    have "set_thread t p (?s1\<lparr>bs_budget := b\<rparr>) = set_thread t p (s\<lparr>bs_budget := b\<rparr>)" for p b by (simp add: set_thread_def)
    then show ?thesis using lone_turn [of ?s1 t n] lim t by auto
  qed
  have settled: ?thesis if "budget_step (t, Access False) s = Some ?s1"
  proof -
    have "budget_run (replicate 2 (t, Access False)) s = Some ?s2" using that two by (simp add: numeral_2_eq_2 del: budget_step_at)
    then show ?thesis by (cases "bi_used (bs_budget s) + n \<le> limit") (intro exI [of _ 2], force)+
  qed
  show ?thesis
  proof (cases "bs_threads s ! t = ReserveLoad n")
    case True
    then have "budget_step (t, Access False) s = Some ?s1" using t by (simp add: reserve_load_def)
    then show ?thesis using settled by blast
  next
    case False
    then have u: "bs_threads s ! t = ReserveLoop n u" using h by simp
    consider "\<not> u + n \<le> limit" | "u + n \<le> limit" "bi_used (bs_budget s) = u" | "u + n \<le> limit" "bi_used (bs_budget s) \<noteq> u" by blast
    then show ?thesis
    proof cases
      case 1
      then have "budget_step (t, Access False) s = Some (set_thread t (Returned (Inl (refusal limit u n))) s)"
        using t u lim by (simp add: reserve_turn_def reserve_target_eq)
      then show ?thesis using 1 by (intro exI [of _ 1]) (auto simp del: budget_step_at)
    next
      case 2
      then have "budget_step (t, Access False) s =
          Some (set_thread t (Allocating n) (s\<lparr>bs_budget := (bs_budget s)\<lparr>bi_used := bi_used (bs_budget s) + n\<rparr>\<rparr>))"
        using t u lim by (simp add: reserve_turn_def reserve_target_eq)
      then show ?thesis using 2 by (intro exI [of _ 1]) (auto simp del: budget_step_at)
    next
      case 3
      then have "budget_step (t, Access False) s = Some ?s1" using t u lim by (simp add: reserve_turn_def reserve_target_eq)
      then show ?thesis using settled by blast
    qed
  qed
qed

section \<open>Calls that run alone\<close>

definition reserve_trace :: "nat \<Rightarrow> nat \<Rightarrow> (nat \<times> event) list" where
  "reserve_trace t n = [(t, CallAllocate n), (t, Access False), (t, Access False)]"

lemma budget_run_append: "budget_run (xs @ ys) s = Option.bind (budget_run xs s) (budget_run ys)"
  by (simp add: budget_run_all run_all_append)

lemma lone_reserve:
  assumes lim: "bi_limit (bs_budget s) = limit" "limit \<le> u64_max" and t: "t < length (bs_threads s)" "bs_threads s ! t = Idle" and n: "n \<le> u64_max"
  shows "budget_run (reserve_trace t n) s = Some
    (if bi_used (bs_budget s) + n \<le> limit
     then set_thread t (Allocating n) (s\<lparr>bs_budget := (bs_budget s)\<lparr>bi_used := bi_used (bs_budget s) + n\<rparr>\<rparr>)
     else set_thread t (Returned (Inl (refusal limit (bi_used (bs_budget s)) n))) s)"
proof -
  have "set_thread t p ((set_thread t q s)\<lparr>bs_budget := b\<rparr>) = set_thread t p (s\<lparr>bs_budget := b\<rparr>)" for p q b by (simp add: set_thread_def)
  then show ?thesis using assms by (simp add: reserve_trace_def reserve_load_def reserve_turn_def reserve_target_eq)
qed

lemma lone_grant:
  assumes lim: "bi_limit (bs_budget s) = limit" "limit \<le> u64_max" and t: "t < length (bs_threads s)" "bs_threads s ! t = Idle"
    and n: "bi_used (bs_budget s) + n \<le> limit" and p: "p \<noteq> 0 \<or> n = 0"
  shows "budget_run (reserve_trace t n @ [(t, MallocReturns (Inr p)), (t, TakeResult)]) s = Some
    (s\<lparr>bs_budget := (bs_budget s)\<lparr>bi_used := bi_used (bs_budget s) + n\<rparr>,
       bs_live := bs_live s @ [\<lparr>bb_buffer = \<lparr>db_ptr = p, db_size = n\<rparr>, bb_charged = n\<rparr>], bs_resident := bs_resident s + n\<rparr>)"
proof -
  have "n \<le> u64_max" using n lim by simp
  moreover have "device_allocate (Inr p) n = Inr \<lparr>db_ptr = p, db_size = n\<rparr>" using p by (auto simp: device_allocate_def lib_malloc_def)
  moreover have "(bs_threads s)[t := Idle] = bs_threads s" using t by (metis list_update_id)
  ultimately show ?thesis using assms
    by (simp add: budget_run_append lone_reserve allocate_return_def take_result_def set_thread_def)
qed

lemma release_after_reserve:
  assumes "bi_used b + n \<le> u64_max"
  shows "release (b\<lparr>bi_used := bi_used b + n\<rparr>) n = (b, True)"
  using release_eq [of n "b\<lparr>bi_used := bi_used b + n\<rparr>"] assms by simp

lemma lone_rollback:
  assumes lim: "bi_limit (bs_budget s) = limit" "limit \<le> u64_max" and t: "t < length (bs_threads s)" "bs_threads s ! t = Idle"
    and n: "bi_used (bs_budget s) + n \<le> limit" and e: "lib_malloc r n = Inl e"
  shows "budget_run (reserve_trace t n @ [(t, MallocReturns r), (t, Access False)]) s = Some (set_thread t (Returned (Inl e)) s)"
proof -
  have n': "n \<le> u64_max" "bi_used (bs_budget s) + n \<le> u64_max" using n lim by auto
  have "device_allocate r n = Inl e" using e by (simp add: device_allocate_def)
  then show ?thesis using assms n'
    by (simp add: budget_run_append lone_reserve allocate_return_def release_then_def release_after_reserve set_thread_def)
qed

lemma lone_drop:
  assumes t: "t < length (bs_threads s)" "bs_threads s ! t = Idle" and n: "bi_used (bs_budget s) + n \<le> u64_max"
    and b: "bb_charged b = n" "db_size (bb_buffer b) = n"
    and s': "s' = s\<lparr>bs_budget := (bs_budget s)\<lparr>bi_used := bi_used (bs_budget s) + n\<rparr>, bs_live := bs_live s @ [b], bs_resident := bs_resident s + n\<rparr>"
  shows "budget_run [(t, CallDrop (length (bs_live s))), (t, FreeReturns True), (t, Access False)] s' = Some s"
proof -
  have "(bs_threads s)[t := Idle] = bs_threads s" using t by (metis list_update_id)
  then show ?thesis using assms
    by (simp add: remove_at_def drop_free_def Let_def release_then_def release_after_reserve set_thread_def)
qed

end
