(* ===== verification/Dev_Props.thy ===== *)
theory Dev_Props
  imports Dev_Launch Hip_Refine
begin

text \<open>
  The properties of constrained execution: which devices a target can be planned on, which environment
  values the engine accepts, and that the allocation budget holds in every interleaving, with the way the
  two meet: a budget created from a launch contract keeps the device memory within the planned target.
\<close>

section \<open>A device and its interleavings used by the witnesses\<close>

definition demo_device :: device_descriptor where
  "demo_device = device_cpu\<lparr>dd_arch := arch_cpu\<lparr>ar_name := ''gfx1201''\<rparr>,
     dd_facts := (dd_facts device_cpu)\<lparr>df_cu_count := 64, df_vram_bytes := 34359738368\<rparr>\<rparr>"

lemma demo_device_sel [simp]:
  "ar_name (dd_arch demo_device) = ''gfx1201''" "df_cu_count (dd_facts demo_device) = 64" "df_vram_bytes (dd_facts demo_device) = 34359738368"
  "df_identity (dd_facts demo_device) = IdentityCpu"
  by (simp_all add: demo_device_def device_cpu_def)

definition demo_constrained :: constrained_device where
  "demo_constrained = \<lparr>cd_physical = demo_device,
     cd_effective = \<lparr>ev_arch = dd_arch demo_device, ev_identity = IdentityCpu, ev_cu_count = 56, ev_vram_bytes = 17179869184,
                     ev_profile = Rx9070, ev_provenance = Spoof IdentityCpu Rx9070\<rparr>,
     cd_profile = Rx9070, cd_provenance = Spoof IdentityCpu Rx9070\<rparr>"

lemma demo_constrains: "constrain demo_device Rx9070 = Inr demo_constrained"
  by (simp add: constrain_Inr constrain_problems_Nil demo_constrained_def)

text \<open>Two threads race for sixty of a hundred bytes; the second sees its exchange fail and reloads.\<close>

definition demo_race :: "(nat \<times> event) list" where
  "demo_race = [(0, CallAllocate 60), (1, CallAllocate 60), (0, Access False), (1, Access False), (0, Access False), (1, Access False)]"

definition demo_raced :: budget_state where
  "demo_raced = \<lparr>bs_budget = \<lparr>bi_limit = 100, bi_used = 60\<rparr>, bs_threads = [Allocating 60, ReserveLoop 60 60],
     bs_live = [], bs_resident = 0, bs_leaked = 0\<rparr>"

lemma replicate_two [simp]: "replicate 2 x = [x, x]"
  by (simp add: numeral_2_eq_2)

lemma demo_race_runs: "budget_run demo_race (budget_start 100 2) = Some demo_raced"
  by (simp add: demo_race_def demo_raced_def budget_start_def budget_new_def set_thread_def reserve_load_def
      reserve_turn_def reserve_target_def checked_add_def u64_max_def)

lemma run_reachable: "budget_run tes s = Some s' \<Longrightarrow> budget_reachable limit threads s \<Longrightarrow> budget_reachable limit threads s'"
  by (induction tes arbitrary: s) (auto simp: bind_eq_Some_conv intro: budget_reachable.step)

lemma demo_raced_reachable: "budget_reachable 100 2 demo_raced"
  using run_reachable [OF demo_race_runs budget_reachable.start] .

section \<open>Planning on a smaller card\<close>

text \<open>
  A device can be planned as a target exactly when it is of the target's instruction set and covers its
  compute units and memory. The plan then keeps the physical descriptor and identity, its bounds are the
  catalog's and add up with the reductions to the physical ones, and every official claim on it is refused.
  A device that cannot is refused with each of its shortfalls, alone or collected in order.
\<close>

theorem constrain_exact:
  fixes d p
  defines "row \<equiv> spoof_lookup p" and "facts \<equiv> dd_facts d"
  shows "(\<exists>cd. constrain d p = Inr cd) \<longleftrightarrow>
      ar_name (dd_arch d) = sp_arch row \<and> sp_cu_count row \<le> df_cu_count facts \<and> sp_vram_bytes row \<le> df_vram_bytes facts"
    and "constrain d p = Inr cd \<Longrightarrow>
      cd_physical cd = d \<and> ev_identity (cd_effective cd) = df_identity facts \<and> ev_arch (cd_effective cd) = dd_arch d \<and>
      ev_cu_count (cd_effective cd) + cu_reduction cd = df_cu_count facts \<and>
      ev_vram_bytes (cd_effective cd) + vram_reduction_bytes cd = df_vram_bytes facts \<and>
      device_profile_data cd = row \<and> view_profile_data (cd_effective cd) = row \<and>
      (\<exists>e. device_check_official_claim cd = Inl e \<and> view_check_official_claim (cd_effective cd) = Inl e)"
    and "constrain d p = Inl e \<Longrightarrow>
      \<exists>ps. ps \<noteq> [] \<and> e = (if length ps = 1 then hd ps else SpoofMultiple ps) \<and>
        ps = filter (\<lambda>_. ar_name (dd_arch d) \<noteq> sp_arch row) [SpoofArchMismatch (stable_id p) (sp_arch row) (ar_name (dd_arch d))] @
             filter (\<lambda>_. df_cu_count facts < sp_cu_count row)
               [SpoofInsufficientCus (stable_id p) (sp_cu_count row) (df_cu_count facts) (sp_cu_count row - df_cu_count facts)] @
             filter (\<lambda>_. df_vram_bytes facts < sp_vram_bytes row)
               [SpoofInsufficientVram (stable_id p) (sp_vram_bytes row) (df_vram_bytes facts) (sp_vram_bytes row - df_vram_bytes facts)]"
proof -
  show "(\<exists>cd. constrain d p = Inr cd) \<longleftrightarrow>
      ar_name (dd_arch d) = sp_arch row \<and> sp_cu_count row \<le> df_cu_count facts \<and> sp_vram_bytes row \<le> df_vram_bytes facts"
    using constrain_Inr [of d p] constrain_problems_Nil [of d p] by (simp add: row_def facts_def del: spoof_lookup_sel(4))
next
  assume "constrain d p = Inr cd"
  then show "cd_physical cd = d \<and> ev_identity (cd_effective cd) = df_identity facts \<and> ev_arch (cd_effective cd) = dd_arch d \<and>
      ev_cu_count (cd_effective cd) + cu_reduction cd = df_cu_count facts \<and>
      ev_vram_bytes (cd_effective cd) + vram_reduction_bytes cd = df_vram_bytes facts \<and>
      device_profile_data cd = row \<and> view_profile_data (cd_effective cd) = row \<and>
      (\<exists>e. device_check_official_claim cd = Inl e \<and> view_check_official_claim (cd_effective cd) = Inl e)"
    by (simp add: constrain_Inr constrain_problems_Nil row_def facts_def cu_reduction_def vram_reduction_bytes_def device_profile_data_def
        view_profile_data_def device_check_official_claim_def view_check_official_claim_def del: spoof_lookup_sel(4))
next
  assume "constrain d p = Inl e"
  then have "spoof_from_problems (constrain_problems d p) = Inl e" by (auto simp: constrain_def Let_def bind_r_eq_Inl)
  then have "constrain_problems d p \<noteq> [] \<and> e = (if length (constrain_problems d p) = 1 then hd (constrain_problems d p) else SpoofMultiple (constrain_problems d p))"
    by (auto simp: spoof_from_problems_def split: list.splits)
  then show "\<exists>ps. ps \<noteq> [] \<and> e = (if length ps = 1 then hd ps else SpoofMultiple ps) \<and>
        ps = filter (\<lambda>_. ar_name (dd_arch d) \<noteq> sp_arch row) [SpoofArchMismatch (stable_id p) (sp_arch row) (ar_name (dd_arch d))] @
             filter (\<lambda>_. df_cu_count facts < sp_cu_count row)
               [SpoofInsufficientCus (stable_id p) (sp_cu_count row) (df_cu_count facts) (sp_cu_count row - df_cu_count facts)] @
             filter (\<lambda>_. df_vram_bytes facts < sp_vram_bytes row)
               [SpoofInsufficientVram (stable_id p) (sp_vram_bytes row) (df_vram_bytes facts) (sp_vram_bytes row - df_vram_bytes facts)]"
    by (intro exI [of _ "constrain_problems d p"]) (simp add: constrain_problems_def Let_def row_def facts_def)
qed

theorem constrain_exact_witness:
  "cd_physical demo_constrained = demo_device \<and> 56 + cu_reduction demo_constrained = 64 \<and>
   (\<exists>e. device_check_official_claim demo_constrained = Inl e) \<and>
   (\<exists>ps. constrain device_cpu Rx9070 = Inl (SpoofMultiple ps) \<and> length ps = 3)"
proof -
  have "\<exists>e. constrain device_cpu Rx9070 = Inl e"
    using constrain_exact(1) [of device_cpu Rx9070] by (cases "constrain device_cpu Rx9070") (auto simp: device_cpu_def arch_cpu_def)
  then obtain e where "constrain device_cpu Rx9070 = Inl e" by blast
  then have "\<exists>ps. constrain device_cpu Rx9070 = Inl (SpoofMultiple ps) \<and> length ps = 3"
    using constrain_exact(3) [of device_cpu Rx9070 e] by (auto simp: device_cpu_def arch_cpu_def)
  then show ?thesis using constrain_exact(2) [OF demo_constrains] by (auto simp: demo_constrained_def)
qed

section \<open>The mask in the environment\<close>

lemma hex_digit_letters [simp]: "hex_digit 10 = CHR ''a''" "hex_digit 15 = CHR ''f''"
  by (simp_all add: hex_digit_def char_of_def bit_0)

text \<open>
  C31. The parser accepts a text exactly when it is the rendering of the mask of some number of compute units
  from one to sixty-four, and then returns that mask; the mask enables exactly that many units.
\<close>

theorem mask_text_exact:
  "mask_parse s = Inr m \<longleftrightarrow> (\<exists>n \<in> {1..64}. for_cu_count n = Inr m \<and> count_ones m = n \<and> s = to_env_value m)"
proof -
  have "(\<exists>n. for_cu_count n = Inr m) \<longleftrightarrow> (\<exists>n \<in> {1..64}. for_cu_count n = Inr m \<and> count_ones m = n)"
    using count_ones_for for_cu_count_Inr by fastforce
  then show ?thesis unfolding mask_parse_Inr by blast
qed

theorem mask_text_exact_witness:
  "mask_parse ''0xff'' = Inr 255 \<and> (\<exists>n \<in> {1..64}. for_cu_count n = Inr 255 \<and> count_ones 255 = n \<and> ''0xff'' = to_env_value 255)"
proof -
  have f: "for_cu_count 8 = Inr 255" by (simp add: for_cu_count_Inr)
  have h: "to_env_value 255 = ''0xff''" by (simp add: to_env_value_def hex_digits.simps)
  have "mask_parse ''0xff'' = Inr 255"
    using mask_text_exact [of "''0xff''" 255] f h count_ones_for [OF f] by force
  then show ?thesis using mask_text_exact [of "''0xff''" 255] by blast
qed

text \<open>
  A refused text is reported with what to write instead. For a canonical text whose units are not the
  lowest ones the suggestion is accepted and enables as many units. For a text in another spelling the
  suggestion is the canonical spelling of the same word, which is accepted only if its units are the lowest ones.
\<close>

theorem mask_suggestions:
  assumes "mask_parse s = Inl e"
  shows "\<exists>d x. e = InvalidCuMask s d x \<and> (x = CU_MASK_GRAMMAR \<or> x = ''a nonzero mask such as `0x1`'' \<or>
    (\<exists>v. 0 < v \<and> v \<le> u64_max \<and> from_str_radix_16 (drop 2 s) = Some v \<and>
       (s = to_env_value v \<and> (\<exists>m. mask_parse x = Inr m \<and> count_ones m = count_ones v) \<or>
        s \<noteq> to_env_value v \<and> x = to_env_value v \<and> ((\<exists>m. mask_parse x = Inr m) \<longleftrightarrow> contiguous v))))"
proof -
  have hint: "\<exists>m. mask_parse (to_env_value (lowest_bits (count_ones v))) = Inr m \<and> count_ones m = count_ones v"
    if "0 < v" "v \<le> u64_max" for v
  proof -
    have n: "0 < count_ones v" "count_ones v \<le> 64" using count_ones_pos count_ones_le [of v 64] that u64_max_lt by auto
    then have "for_cu_count (count_ones v) = Inr (lowest_bits (count_ones v))" by (simp add: for_cu_count_Inr lowest_bits_mask)
    then show ?thesis using mask_parse_Inr count_ones_for by blast
  qed
  have plain: "(\<exists>m. mask_parse (to_env_value v) = Inr m) \<longleftrightarrow> contiguous v" if "0 < v" "v \<le> u64_max" for v
    using mask_parse_rendered [OF that] by simp
  show ?thesis using mask_parse_InlD [OF assms] hint plain by metis
qed

lemma demo_spelling: "mask_parse ''0x0a'' = Inl (InvalidCuMask ''0x0a'' ''mask is not canonical lowercase hex'' ''0xa'')"
  by (simp add: mask_parse_def strip_0x_def is_ascii_hexdigit_def hex_value_def from_str_radix_16_def hex_number_def push_hex_def checked_mul_def checked_add_def
      hex_digits.simps Let_def)

theorem mask_suggestions_witness:
  "mask_parse ''0x0a'' = Inl (InvalidCuMask ''0x0a'' ''mask is not canonical lowercase hex'' ''0xa'') \<and> (\<nexists>m. mask_parse ''0xa'' = Inr m)"
proof -
  have v: "from_str_radix_16 (drop 2 ''0x0a'') = Some 10"
    by (simp add: from_str_radix_16_def hex_number_def push_hex_def hex_value_def checked_mul_def checked_add_def)
  have t: "to_env_value 10 = ''0xa''" by (simp add: to_env_value_def hex_digits.simps)
  have "\<not> contiguous 10" by (simp add: contiguous_def u64_max_def)
  then show ?thesis using mask_suggestions [OF demo_spelling] v t demo_spelling by (auto simp: CU_MASK_GRAMMAR_def)
qed

text \<open>
  C30. Every constrained device has a launch contract. The engine accepts an environment exactly when it holds
  what the contract tells the launcher to assign: the one mask value on a card with more units than planned,
  and no value at all on a card with exactly as many. The contract of a device passes the check against a
  device exactly when it is that device's contract.
\<close>

theorem launch_value_exact:
  assumes "constrain d p = Inr cd"
  shows "\<exists>c. for_constrained cd = Some c \<and>
    (\<forall>v. validate_env_value c v = Inr () \<longleftrightarrow> v = map_option snd (env_assignment c)) \<and>
    (\<forall>v. validate_process_env c v = Inr () \<longleftrightarrow> v = (case map_option snd (env_assignment c) of None \<Rightarrow> EnvNotPresent | Some text \<Rightarrow> EnvValue text)) \<and>
    (env_assignment c = None \<longleftrightarrow> df_cu_count (dd_facts d) = sp_cu_count (spoof_lookup p)) \<and>
    (\<forall>d' p' cd' c'. constrain d' p' = Inr cd' \<longrightarrow> for_constrained cd' = Some c' \<longrightarrow> (validate_against c' cd = Inr () \<longleftrightarrow> c' = c))"
proof -
  define c where "c = \<lparr>lc_profile = p, lc_physical_cus = df_cu_count (dd_facts d), lc_effective_cus = sp_cu_count (spoof_lookup p),
    lc_effective_vram_bytes = 17179869184, lc_mask = 2 ^ sp_cu_count (spoof_lookup p) - 1\<rparr>"
  have c: "for_constrained cd = Some c" using for_constrained_eq [OF assms] by (simp add: c_def)
  have m: "for_cu_count (lc_effective_cus c) = Inr (lc_mask c)"
    using profile_cu_range [of p] by (simp add: c_def for_cu_count_Inr del: spoof_lookup_sel(4))
  have env: "validate_env_value c v = Inr () \<longleftrightarrow> v = map_option snd (env_assignment c)" for v by (rule validate_env_iff [OF m])
  have proc: "validate_process_env c v = Inr () \<longleftrightarrow> v = (case map_option snd (env_assignment c) of None \<Rightarrow> EnvNotPresent | Some text \<Rightarrow> EnvValue text)" for v
    using env by (cases v) (auto simp: validate_process_env_def split: option.splits)
  have none: "env_assignment c = None \<longleftrightarrow> df_cu_count (dd_facts d) = sp_cu_count (spoof_lookup p)"
    using assms unfolding constrain_Inr constrain_problems_Nil
    by (auto simp: env_assignment_def requires_mask_def c_def simp del: spoof_lookup_sel(4))
  have own: "validate_against c' cd = Inr () \<longleftrightarrow> c' = c" if "constrain d' p' = Inr cd'" "for_constrained cd' = Some c'" for d' p' cd' c'
  proof -
    have c': "c' = \<lparr>lc_profile = p', lc_physical_cus = df_cu_count (dd_facts d'), lc_effective_cus = sp_cu_count (spoof_lookup p'),
        lc_effective_vram_bytes = 17179869184, lc_mask = 2 ^ sp_cu_count (spoof_lookup p') - 1\<rparr>"
      using for_constrained_eq [OF that(1)] that(2) by simp
    show ?thesis using assms count_ones_mask [of "sp_cu_count (spoof_lookup p')"] unfolding constrain_Inr
      by (auto simp: validate_against_def against_problems_Nil c' c_def simp del: spoof_lookup_sel(4) One_nat_def)
  qed
  show ?thesis by (rule exI [of _ c]) (intro conjI allI impI c env proc none own)
qed

theorem launch_value_exact_witness:
  "\<exists>c. for_constrained demo_constrained = Some c \<and> validate_process_env c EnvNotPresent \<noteq> Inr () \<and>
     validate_against c demo_constrained = Inr () \<and> env_assignment c \<noteq> None"
proof (rule exE [OF launch_value_exact [OF demo_constrains]], elim conjE)
  fix c
  assume c: "for_constrained demo_constrained = Some c"
    and env: "\<forall>v. validate_process_env c v = Inr () \<longleftrightarrow>
      v = (case map_option snd (env_assignment c) of None \<Rightarrow> EnvNotPresent | Some text \<Rightarrow> EnvValue text)"
    and none: "env_assignment c = None \<longleftrightarrow> df_cu_count (dd_facts demo_device) = sp_cu_count (spoof_lookup Rx9070)"
    and own: "\<forall>d' p' cd' c'. constrain d' p' = Inr cd' \<longrightarrow> for_constrained cd' = Some c' \<longrightarrow> (validate_against c' demo_constrained = Inr () \<longleftrightarrow> c' = c)"
  have "validate_against c demo_constrained = Inr ()" using own demo_constrains c by simp
  moreover have "env_assignment c \<noteq> None" using none by simp
  then obtain a where "env_assignment c = Some a" by blast
  ultimately show ?thesis using c env by (intro exI [of _ c]) simp
qed

section \<open>The allocation budget\<close>

text \<open>
  C26. In every interleaving of allocations, failures and drops the counter of the budget is the sum of what
  live buffers and threads in between are charged and never exceeds the limit, no release underflows, and the
  bytes on the device are covered by the counter but for the buffers whose \<open>hipFree\<close> was refused. With every
  thread at rest the counter is the size of the live buffers.
\<close>

theorem budget_never_overcommits:
  assumes "budget_reachable limit threads s" "limit \<le> u64_max"
  shows "bi_limit (bs_budget s) = limit \<and> bi_used (bs_budget s) \<le> limit \<and>
    bi_used (bs_budget s) = sum_list (map bb_charged (bs_live s)) + sum_list (map thread_holds (bs_threads s)) \<and>
    bs_resident s \<le> bi_used (bs_budget s) + bs_leaked s \<and> Aborted \<notin> set (bs_threads s) \<and>
    (set (bs_threads s) \<subseteq> {Idle} \<longrightarrow> bi_used (bs_budget s) = sum_list (map (\<lambda>b. db_size (bb_buffer b)) (bs_live s)))"
  using reachable_ledger_inv [OF assms] occupied_le_books [of limit s] quiet_ledger [of limit s]
  by (auto simp: ledger_inv_def books_def)

theorem budget_never_overcommits_witness:
  "bi_used (bs_budget demo_raced) \<le> 100 \<and> bi_used (bs_budget demo_raced) = 60 \<and> Aborted \<notin> set (bs_threads demo_raced)"
  using budget_never_overcommits [OF demo_raced_reachable] by (simp add: u64_max_def demo_raced_def)

text \<open>
  C27. The lock-free budget and a ledger on which a reservation is one indivisible act have the same
  behaviours. Every run of the racing threads is matched step by step by acts of the ledger with the same calls, the same answers of
  HIP and the same uses of results, so that after each step the counter, the live buffers and what every thread has been granted or
  answered are the ledger's; and every run of the ledger is matched in the same way by a run of the threads. The ledger grants
  a request exactly when it fits at that moment and otherwise refuses it with the figures of that moment.
\<close>

theorem budget_refines_atomic_ledger:
  fixes threads :: nat
  assumes "limit \<le> u64_max"
  defines "threads0 \<equiv> budget_start limit threads" and "ledger0 \<equiv> ledger_start limit threads"
  shows "(\<forall>tes s. budget_run tes threads0 = Some s \<longrightarrow> (\<exists>ass. length ass = length tes \<and>
      (\<forall>i < length tes. concat (map shown_act (ass ! i)) = shown_event (tes ! i)) \<and>
      (\<forall>k \<le> length tes. run_all ledger_act (concat (take k ass)) ledger0 = map_option ledger_view (budget_run (take k tes) threads0)))) \<and>
    (\<forall>as l. run_all ledger_act as ledger0 = Some l \<longrightarrow> (\<exists>tess. length tess = length as \<and>
      (\<forall>i < length as. concat (map shown_event (tess ! i)) = shown_act (as ! i)) \<and>
      (\<forall>k \<le> length as. map_option ledger_view (budget_run (concat (take k tess)) threads0) = run_all ledger_act (take k as) ledger0)))"
proof -
  have start: "ledger0 = ledger_view threads0" "books_in_order threads0" "outside_loops threads0"
    using start_in_order [OF assms(1), of threads] by (simp_all add: threads0_def ledger0_def start_view)
  have there: "\<exists>ass. length ass = length tes \<and> (\<forall>i < length tes. concat (map shown_act (ass ! i)) = shown_event (tes ! i)) \<and>
      (\<forall>k \<le> length tes. run_all ledger_act (concat (take k ass)) ledger0 = map_option ledger_view (budget_run (take k tes) threads0))"
    if r: "budget_run tes threads0 = Some s" for tes s
  proof -
    obtain ass where ass: "length ass = length tes" "\<forall>i < length tes. concat (map shown_act (ass ! i)) = shown_event (tes ! i)"
      "\<forall>k \<le> length tes. \<exists>sk rk. run_all budget_step (take k tes) threads0 = Some sk \<and>
         run_all ledger_act (concat (take k ass)) ledger0 = Some rk \<and> rk = ledger_view sk \<and> books_in_order sk"
      using ledger.simulates_run [where s = threads0 and r = ledger0 and es = tes] r start unfolding budget_run_all by blast
    then have "\<forall>k \<le> length tes. run_all ledger_act (concat (take k ass)) ledger0 = map_option ledger_view (budget_run (take k tes) threads0)"
      unfolding budget_run_all by fastforce
    then show ?thesis using ass(1,2) by blast
  qed
  have backward: "\<exists>tess. length tess = length as \<and> (\<forall>i < length as. concat (map shown_event (tess ! i)) = shown_act (as ! i)) \<and>
      (\<forall>k \<le> length as. map_option ledger_view (budget_run (concat (take k tess)) threads0) = run_all ledger_act (take k as) ledger0)"
    if r: "run_all ledger_act as ledger0 = Some l" for as l
  proof -
    obtain tess where tess: "length tess = length as" "\<forall>i < length as. concat (map shown_event (tess ! i)) = shown_act (as ! i)"
      "\<forall>k \<le> length as. \<exists>lk sk. run_all ledger_act (take k as) ledger0 = Some lk \<and>
         run_all budget_step (concat (take k tess)) threads0 = Some sk \<and> lk = ledger_view sk \<and> books_in_order sk \<and> outside_loops sk"
      using threads.simulates_run [where s = ledger0 and r = threads0 and es = as] r start by blast
    then have "\<forall>k \<le> length as. map_option ledger_view (budget_run (concat (take k tess)) threads0) = run_all ledger_act (take k as) ledger0"
      unfolding budget_run_all by fastforce
    then show ?thesis using tess(1,2) by blast
  qed
  show ?thesis using there backward by blast
qed

theorem budget_refines_atomic_ledger_witness:
  "\<exists>ass. length ass = length demo_race \<and> run_all ledger_act (concat ass) (ledger_start 100 2) = Some
     \<lparr>al_limit = 100, al_used = 60, al_clients = [Reserved 60, Answered (Inl (BudgetExceeded 100 60 60 40))], al_live = []\<rparr>"
proof -
  have "(100::nat) \<le> u64_max" by (simp add: u64_max_def)
  then obtain ass where n: "length ass = length demo_race"
    and k: "\<forall>k \<le> length demo_race. run_all ledger_act (concat (take k ass)) (ledger_start 100 2) =
      map_option ledger_view (budget_run (take k demo_race) (budget_start 100 2))"
    using budget_refines_atomic_ledger [of 100 2] demo_race_runs by blast
  have "run_all ledger_act (concat ass) (ledger_start 100 2) = Some (ledger_view demo_raced)"
    using k [rule_format, OF order_refl] n demo_race_runs by simp
  then show ?thesis using n by (auto simp: demo_raced_def ledger_view_def refusal_def)
qed

text \<open>
  C28. A thread in the loop of a reservation decides after at most two of its own accesses when no other
  thread gets in between and no exchange fails spuriously: the bytes are charged, or the request is refused
  because it did not fit on a value the thread has loaded.
\<close>

theorem lone_thread_decides:
  assumes "budget_reachable limit threads s" "limit \<le> u64_max" "t < threads" "bs_threads s ! t \<in> {ReserveLoad n, ReserveLoop n u}"
  shows "\<exists>k \<le> 2. \<exists>s'. budget_run (replicate k (t, Access False)) s = Some s' \<and>
    (s' = set_thread t (Allocating n) (s\<lparr>bs_budget := (bs_budget s)\<lparr>bi_used := bi_used (bs_budget s) + n\<rparr>\<rparr>) \<and>
       bi_used (bs_budget s) + n \<le> limit \<or>
     (\<exists>v. s' = set_thread t (Returned (Inl (refusal limit v n))) s \<and> limit < v + n))"
  using lone_reserve_decides [of s limit t n u] reachable_ledger_inv [OF assms(1,2)] reachable_threads [OF assms(1)] assms
  by (simp add: ledger_inv_def)

theorem lone_thread_decides_witness:
  "\<exists>k \<le> 2. \<exists>s'. budget_run (replicate k (1, Access False)) demo_raced = Some s' \<and> (\<exists>v. bs_threads s' ! 1 = Returned (Inl (refusal 100 v 60)))"
proof -
  have "bs_threads demo_raced ! 1 \<in> {ReserveLoad 60, ReserveLoop 60 60}" by (simp add: demo_raced_def)
  then obtain k s' where k: "k \<le> 2" "budget_run (replicate k (1, Access False)) demo_raced = Some s'"
    and s': "bi_used (bs_budget demo_raced) + 60 \<le> 100 \<or> (\<exists>v. s' = set_thread 1 (Returned (Inl (refusal 100 v 60))) demo_raced)"
    using lone_thread_decides [OF demo_raced_reachable, of 1 60 60] by (auto simp: u64_max_def)
  then have "\<exists>v. bs_threads s' ! 1 = Returned (Inl (refusal 100 v 60))" by (auto simp: demo_raced_def set_thread_def)
  then show ?thesis using k by blast
qed

text \<open>
  C29. A call that runs alone is exact. Bytes that fit give a buffer charged with them, and dropping it
  restores the state before the call; an allocation HIP refuses leaves everything but the returned error as it
  was; bytes that do not fit are refused with the limit, the counter, the request and the room left, before any HIP call.
\<close>

theorem lone_allocation_exact:
  assumes "budget_reachable limit threads s" "limit \<le> u64_max" "t < threads" "bs_threads s ! t = Idle" "n \<le> u64_max"
  defines "used \<equiv> bi_used (bs_budget s)" and "b \<equiv> \<lambda>p. \<lparr>bb_buffer = \<lparr>db_ptr = p, db_size = n\<rparr>, bb_charged = n\<rparr>"
  shows "(used + n \<le> limit \<longrightarrow> p \<noteq> 0 \<or> n = 0 \<longrightarrow>
      (\<exists>s'. budget_run (reserve_trace t n @ [(t, MallocReturns (Inr p)), (t, TakeResult)]) s = Some s' \<and>
        bi_used (bs_budget s') = used + n \<and> bs_live s' = bs_live s @ [b p] \<and>
        budget_run [(t, CallDrop (length (bs_live s))), (t, FreeReturns True), (t, Access False)] s' = Some s)) \<and>
    (used + n \<le> limit \<longrightarrow> lib_malloc r n = Inl e \<longrightarrow>
      budget_run (reserve_trace t n @ [(t, MallocReturns r), (t, Access False)]) s = Some (set_thread t (Returned (Inl e)) s)) \<and>
    (limit < used + n \<longrightarrow>
      budget_run (reserve_trace t n) s = Some (set_thread t (Returned (Inl (BudgetExceeded limit used n (limit - used)))) s))"
proof -
  have l: "bi_limit (bs_budget s) = limit" "t < length (bs_threads s)"
    using reachable_ledger_inv [OF assms(1,2)] reachable_threads [OF assms(1)] assms(3) by (auto simp: ledger_inv_def)
  note lone = l(1) assms(2) l(2) assms(4)
  let ?s = "s\<lparr>bs_budget := (bs_budget s)\<lparr>bi_used := used + n\<rparr>, bs_live := bs_live s @ [b p], bs_resident := bs_resident s + n\<rparr>"
  have grant: "budget_run (reserve_trace t n @ [(t, MallocReturns (Inr p)), (t, TakeResult)]) s = Some ?s" if "used + n \<le> limit" "p \<noteq> 0 \<or> n = 0"
    using lone_grant [OF lone] that by (simp add: used_def b_def)
  have dropped: "budget_run [(t, CallDrop (length (bs_live s))), (t, FreeReturns True), (t, Access False)] ?s = Some s" if "used + n \<le> limit"
    by (rule lone_drop [OF l(2) assms(4), of n "b p"]) (use that assms(2) in \<open>simp_all add: b_def used_def\<close>)
  show ?thesis
    using grant dropped lone_rollback [OF lone] lone_reserve [OF lone assms(5)] by (auto simp: used_def refusal_def)
qed

theorem lone_allocation_exact_witness:
  "\<exists>s'. budget_run (reserve_trace 0 60 @ [(0, MallocReturns (Inr 4096)), (0, TakeResult)]) (budget_start 100 2) = Some s' \<and>
     bi_used (bs_budget s') = 60 \<and>
     budget_run [(0, CallDrop 0), (0, FreeReturns True), (0, Access False)] s' = Some (budget_start 100 2)"
proof -
  have "\<exists>s'. budget_run (reserve_trace 0 60 @ [(0, MallocReturns (Inr 4096)), (0, TakeResult)]) (budget_start 100 2) = Some s' \<and>
      bi_used (bs_budget s') = 0 + 60 \<and> bs_live s' = [] @ [\<lparr>bb_buffer = \<lparr>db_ptr = 4096, db_size = 60\<rparr>, bb_charged = 60\<rparr>] \<and>
      budget_run [(0, CallDrop (length [])), (0, FreeReturns True), (0, Access False)] s' = Some (budget_start 100 2)"
    using lone_allocation_exact [OF budget_reachable.start [of 100 2], of 0 60 4096]
    by (simp add: budget_start_def budget_new_def u64_max_def del: budget_run.simps)
  then show ?thesis by auto
qed

lemma run_keeps_leaked:
  assumes "budget_run tes s = Some s'" and "\<forall>t. (t, FreeReturns False) \<notin> set tes"
  shows "bs_leaked s' = bs_leaked s"
  using assms
proof (induction tes arbitrary: s)
  case (Cons te tes)
  obtain t e where te: "te = (t, e)" by force
  obtain s1 where s1: "budget_step te s = Some s1" "budget_run tes s1 = Some s'" using Cons.prems(1) by (cases "budget_step te s") auto
  have "thread_step t (bs_threads s ! t) e s = Some s1" "e \<noteq> FreeReturns False" using budget_step_SomeD s1(1) te Cons.prems(2) by auto
  then have "bs_leaked s1 = bs_leaked s"
    by (cases "(t, bs_threads s ! t, e, s)" rule: thread_step.cases)
      (auto simp: reserve_load_def reserve_turn_def allocate_return_def release_then_def take_result_def drop_free_def Let_def
        split: if_splits sum.splits prod.splits)
  then show ?case using Cons.IH [OF s1(2)] Cons.prems(2) by simp
qed simp

text \<open>The drop ignores a refused \<open>hipFree\<close> and returns the bytes to the budget, which then hands them out once more.\<close>

lemma failed_free_overcommits:
  assumes "0 < limit" "limit \<le> u64_max" "0 < threads"
  shows "\<exists>tes s. budget_run tes (budget_start limit threads) = Some s \<and> bi_used (bs_budget s) = limit \<and> bs_resident s = 2 * limit"
proof -
  obtain k where k: "threads = Suc k" using assms(3) by (cases threads) auto
  let ?take = "\<lambda>p. reserve_trace 0 limit @ [(0, MallocReturns (Inr p)), (0, TakeResult)]"
  let ?drop = "[(0, CallDrop 0), (0, FreeReturns False), (0, Access False)]"
  let ?s = "budget_start limit threads"
  let ?s1 = "?s\<lparr>bs_budget := (bs_budget ?s)\<lparr>bi_used := limit\<rparr>, bs_live := [\<lparr>bb_buffer = \<lparr>db_ptr = 1, db_size = limit\<rparr>, bb_charged = limit\<rparr>],
    bs_resident := limit\<rparr>"
  let ?s2 = "?s\<lparr>bs_resident := limit, bs_leaked := limit\<rparr>"
  have 1: "budget_run (?take 1) ?s = Some ?s1"
    using lone_grant [of ?s limit 0 limit 1] assms k by (simp add: budget_start_def budget_new_def)
  have 2: "budget_run ?drop ?s1 = Some ?s2"
    using assms k by (simp add: budget_start_def budget_new_def remove_at_def drop_free_def Let_def release_then_def release_def fetch_sub_def set_thread_def)
  obtain s where 3: "budget_run (?take 2) ?s2 = Some s" "bi_used (bs_budget s) = limit" "bs_resident s = 2 * limit"
    using lone_grant [of ?s2 limit 0 limit 2] assms k by (simp add: budget_start_def budget_new_def)
  have "budget_run (?take 1 @ ?drop @ ?take 2) ?s = Some s"
    using 3(1) by (simp only: budget_run_append [of "?take 1" "?drop @ ?take 2"] budget_run_append [of ?drop "?take 2"] 1 2 bind.bind_lunit)
  then show ?thesis using 3 by blast
qed

text \<open>
  C32. A budget created from the launch contract of a constrained device keeps the bytes its buffers occupy on the card within the memory of
  the target, and so within what the physical device has, in every run in which HIP frees what it is asked to free. The
  proviso is needed: with one refused \<open>hipFree\<close> there is a run that occupies twice the memory of the target while the counter reports no more than the target.
\<close>

theorem constrained_memory_fits:
  assumes "constrain d p = Inr cd" "for_constrained cd = Some c" "0 < threads"
  defines "target \<equiv> sp_vram_bytes (spoof_lookup p)" and "start \<equiv> budget_start (lc_effective_vram_bytes c) threads"
  shows "(\<forall>tes s. budget_run tes start = Some s \<longrightarrow> (\<forall>t. (t, FreeReturns False) \<notin> set tes) \<longrightarrow>
      bs_resident s \<le> target \<and> target \<le> df_vram_bytes (dd_facts d)) \<and>
    (\<exists>tes s. budget_run tes start = Some s \<and> bi_used (bs_budget s) = target \<and> bs_resident s = 2 * target)"
proof -
  have v: "lc_effective_vram_bytes c = target" "target = 17179869184" "target \<le> u64_max"
    using for_constrained_eq [OF assms(1)] assms(2) by (auto simp: target_def u64_max_def)
  have "target \<le> df_vram_bytes (dd_facts d)" using assms(1) unfolding constrain_Inr constrain_problems_Nil v(2) by blast
  moreover have "bs_resident s \<le> target" if r: "budget_run tes start = Some s" and f: "\<forall>t. (t, FreeReturns False) \<notin> set tes" for tes s
  proof -
    have inv: "ledger_inv target s"
      using reachable_ledger_inv [OF run_reachable [OF r [unfolded start_def] budget_reachable.start]] v by simp
    have "bs_leaked s = 0" using run_keeps_leaked [OF r f] by (simp add: start_def budget_start_def)
    then show ?thesis using inv occupied_le_books [OF inv] by (simp add: ledger_inv_def)
  qed
  moreover have "\<exists>tes s. budget_run tes start = Some s \<and> bi_used (bs_budget s) = target \<and> bs_resident s = 2 * target"
    using failed_free_overcommits [OF _ v(3) assms(3)] v by (simp add: start_def)
  ultimately show ?thesis by blast
qed

definition demo_alloc :: "(nat \<times> event) list" where
  "demo_alloc = reserve_trace 0 4096 @ [(0, MallocReturns (Inr 1)), (0, TakeResult)]"

theorem constrained_memory_fits_witness:
  "\<exists>c s. for_constrained demo_constrained = Some c \<and> budget_run demo_alloc (budget_start (lc_effective_vram_bytes c) 4) = Some s \<and>
     bs_resident s = 4096 \<and> bs_resident s \<le> sp_vram_bytes (spoof_lookup Rx9070) \<and>
     sp_vram_bytes (spoof_lookup Rx9070) \<le> df_vram_bytes (dd_facts demo_device)"
proof -
  obtain c where c: "for_constrained demo_constrained = Some c" "lc_effective_vram_bytes c = 17179869184"
    using for_constrained_eq [OF demo_constrains] by auto
  obtain s where s: "budget_run demo_alloc (budget_start (lc_effective_vram_bytes c) 4) = Some s" "bs_resident s = 4096"
    using lone_grant [of "budget_start 17179869184 4" 17179869184 0 4096 1] c(2)
    by (simp add: demo_alloc_def budget_start_def budget_new_def u64_max_def)
  have "\<forall>t. (t, FreeReturns False) \<notin> set demo_alloc" by (simp add: demo_alloc_def reserve_trace_def)
  then have "bs_resident s \<le> sp_vram_bytes (spoof_lookup Rx9070) \<and> sp_vram_bytes (spoof_lookup Rx9070) \<le> df_vram_bytes (dd_facts demo_device)"
    using constrained_memory_fits [OF demo_constrains c(1), of 4, OF zero_less_numeral] s(1) by blast
  then show ?thesis using c(1) s by blast
qed

end
