(* ===== verification/Spec2Isabelle.thy ===== *)
theory Spec2Isabelle
  imports State_Props State_Arena_Props Batch_Props Sched_Props Sched_Text_Props Ir_Props Fmt_Props Dev_Props
begin

text \<open>
  R9V is an inference engine written as a workspace of Rust crates under \<open>src/crates\<close>. This development models the parts that
  decide what runs and where data lies: the sequence-state manager (\<open>r9v-state\<close>), the batch metadata, step graphs and tensors of
  the operator IR (\<open>r9v-ir\<close>), the scheduler (\<open>r9v-sched\<close>), the weight layouts, schemes and scale codecs of \<open>r9v-format\<close>, and
  constrained execution: device descriptors and launch contracts (\<open>r9v-ir\<close>) with the allocation budget they set (\<open>r9v-hip\<close>).

  How the parts interact. A request enters the scheduler, which starts a sequence in the state manager. Every step the scheduler
  promotes the first sequence in service order, plans how many of its tokens fit the cost budget, reserves positions in the
  manager, asks it for the batch tensors, rounds the shape up to a bucket, takes a captured step graph from the cache, hands the step
  to the device and, when the device answers, commits the accepted tokens, appends the sampled token to the sequence's text, decides
  whether it is finished, and logs the step. A failure at any stage goes through one recovery path. The kernels that the graph
  launches read weights stored in the tile order and with the scale records of the format crate; the graph itself is built and
  checked with the IR.

  \<^bold>\<open>Shared theories.\<close> \<open>Rust_Text\<close> has trimming and hexadecimal text. \<open>Prelude\<close> has results as sums, checked arithmetic with the width as a parameter, slices, the collections of facts
  and the lemmas on ordered vectors. \<open>Btree_Map\<close> is the ordered map of the standard library, \<open>F32\<close> binary32 arithmetic with rounding
  to nearest even.

  \<^bold>\<open>State manager\<close> (\<open>r9v-state/src/spec.rs\<close>, \<open>error.rs\<close>, \<open>manager.rs\<close>).
  \<open>State_Error\<close> and \<open>State_Spec\<close>: errors, layer declarations, their validation, byte sizes and grouping. \<open>Block_Pool\<close>: the paged block
  pool and the fixed slot pool, both instances of the locale \<open>id_pool\<close>. \<open>State_Manager\<close>: the record of the manager and every operation
  on it (construction, \<open>new_seq\<close>, \<open>reserve\<close>, \<open>write_tokens\<close>, \<open>compact\<close>, \<open>commit\<close>, \<open>free_seq\<close>); an operation on a mutable reference returns
  its result with the manager it leaves, on every path. \<open>State_Inv\<close>, \<open>State_New\<close>, \<open>State_Lifecycle\<close>, \<open>State_Reserve\<close>, \<open>State_Commit\<close> and
  \<open>State_Tokens\<close> prove that each operation keeps the invariant and say what it does; \<open>State_Reach\<close> is the transition system of a client
  that calls anything in any order. \<open>State_Props\<close> and \<open>State_Arena_Props\<close>: no two live positions share a slot, the free list and the tables partition the pool,
  each operation succeeds exactly under the conditions written out, a refusal changes nothing, a lone sequence never starves, and the
  arena regions are disjoint. \<open>Seq_Store\<close> is the interface the scheduler relies on, interpreted on this manager.

  \<^bold>\<open>Batches\<close> (\<open>manager.rs\<close>, \<open>r9v-ir/src/batch.rs\<close>). \<open>Tree_Mask\<close>: the checks on speculative trees, whose parent walk terminates and finds
  cycles exactly. \<open>Batch_Meta\<close>: the batch and its builder. \<open>Batch_Emit\<close>: planning, emission and the caller-owned workspace, with vectors
  that have a capacity and an allocator that may refuse as a parameter. \<open>Batch_Correct\<close> and \<open>Batch_Props\<close>: when a batch is built, what it
  contains, and when the allocation-free fill stores what the owned builder returns.

  \<^bold>\<open>Scheduler\<close> (\<open>r9v-sched/src\<close>). \<open>Sched_Error\<close> (\<open>error.rs\<close>), \<open>Sched_Arena\<close> (\<open>arena.rs\<close>, on 64-bit words), \<open>Sched_Log\<close> (\<open>log.rs\<close> and the
  inline vectors; the locale \<open>bounded_log\<close>), \<open>Sched_Detok\<close>, \<open>Sched_Seq\<close>, \<open>Sched_Stop\<close> and \<open>Sched_Generate\<close> (\<open>types.rs\<close>: detokenizer,
  requests, stop criteria), \<open>Sched_Cost\<close> (\<open>cost.rs\<close>), \<open>Sched_Streams\<close> (\<open>streams.rs\<close>), \<open>Step_Bucket\<close> (buckets of \<open>r9v-ir/src/graph.rs\<close>),
  \<open>Sched_Graph\<close> (\<open>graph.rs\<close>: capture and cache) and \<open>Scheduler\<close> (\<open>scheduler.rs\<close>: the whole step with its failure path). The device executor,
  the kernel registry's resolution, the cost table, the detokenizer and the randomness of request seeds are parameters.
  \<open>Sched_Inv\<close> and \<open>Sched_Reach\<close> prove the invariant of every reachable scheduler: one that a client drives through submission, steps, cancellation and the
  taking of results. Direct access to the manager (\<open>state_manager_mut\<close>), the exchange of the detokenizer (\<open>set_detokenizer\<close>) and \<open>abort_open_reservation\<close> are not
  steps of that client, and the results on text are for the byte detokenizer. \<open>Sched_Demo\<close> is a concrete one. \<open>Sched_Props\<close> and
  \<open>Sched_Text_Props\<close>: books are kept, a failed step keeps everything, a completed one serves the head of the queue, service terminates
  within the remaining tokens, incremental stop decisions equal the decision on the whole text, the log ring refines the list of the
  last records, text round-trips and workspaces of a captured graph are disjoint.

  \<^bold>\<open>Step graphs\<close> (\<open>r9v-ir/src/tensor.rs\<close>, \<open>dtype.rs\<close>, \<open>quant.rs\<close>, \<open>layout.rs\<close>, \<open>graph.rs\<close>). \<open>Ir_Tensor\<close>: tensors and their construction.
  \<open>Ir_Graph\<close>: the graph, its builder, views, insertion of copies, the execution order and validation. The validation of the operators
  other than \<open>Copy\<close> is a parameter. \<open>Ir_Build\<close>, \<open>Ir_Order\<close>, \<open>Ir_Copies\<close>, \<open>Ir_Exec\<close> and \<open>Ir_Reach\<close> prove well-formedness, the ordering loop,
  what copies achieve and what clients can reach. \<open>Ir_Props\<close>: materialised copies meet every stride requirement and settle, the order is
  a permutation with the writers of every input first, through views too, exactly when there is no cycle, graphs built without rewiring always execute, validation is
  exact.

  \<^bold>\<open>Weight format\<close> (\<open>r9v-format/src/layout.rs\<close>, \<open>permute.rs\<close>, \<open>sparse.rs\<close>, \<open>scheme.rs\<close>, \<open>geometry.rs\<close>, \<open>records.rs\<close>, \<open>scales.rs\<close>, \<open>decode.rs\<close>).
  \<open>Fmt_Layout\<close>: codes, padded dimensions, the tile index laws. \<open>Fmt_Permute\<close>: permutation and element codecs. \<open>Fmt_Tiles\<close>: the loops of writes
  are gathers through the inverse index. \<open>Fmt_Codecs\<close> and \<open>Fmt_Lanes\<close>: the locale \<open>lane_codec\<close> lifts inverse lane codecs to tile streams and is
  interpreted on nibbles and sparse indices, and instantiated for every bit-plane width; lanes are digits of one accumulator.
  \<open>Fmt_Scheme\<close>: scheme ids, scale geometry and the sixteen-byte record. \<open>Fmt_Scales\<close>: the half and E4M3 codecs, scale checks and decoders.
  \<open>Fmt_Half\<close>, \<open>Fmt_Round\<close> and \<open>Fmt_Decode\<close>: exactness of widening, narrowing as rounding of signed values with overflow and ties, and agreement of the block decoders with the reference.
  \<open>Fmt_Props\<close> states the properties.

  \<^bold>\<open>Constrained execution\<close> (\<open>r9v-ir/src/arch.rs\<close>, \<open>constrained.rs\<close>, \<open>r9v-hip/src/budget.rs\<close> with \<open>DeviceBuffer\<close> of \<open>handles.rs\<close> and \<open>malloc\<close> of
  \<open>library.rs\<close>). \<open>Dev_Arch\<close>: device descriptors. \<open>Dev_Constrain\<close>: the catalog of smaller cards, provenance and the reduced view of a device.
  \<open>Dev_Mask\<close>: the compute-unit mask, its rendering and parser. \<open>Dev_Launch\<close>: the launch contract. \<open>Hip_Budget\<close>: the ledger as threads that
  interleave on one atomic counter, with spurious failures of the compare-and-exchange and the answers of HIP as events of a step.
  \<open>Hip_Ledger\<close> proves the invariant of every interleaving; \<open>Hip_Refine\<close> has the atomic ledger that specifies the budget, the locale
  \<open>simulation\<close> with its interpretations in both directions between the two, and the runs of a single thread. \<open>Dev_Props\<close>: the budget is never overcommitted and
  has the behaviours of the atomic ledger, an undisturbed thread decides in two accesses, allocation and drop are exact inverses, the engine accepts
  exactly the environment the contract assigns, mask texts round-trip, and a budget made from a contract stays within the target while frees succeed.

  \<^bold>\<open>Integers, panics, loops.\<close> Unsigned integers are natural numbers; where the source uses a checked operation the model does, with the
  width written out, and casts that can cut are written as remainders or \<open>take_bit\<close>. The arena arithmetic, which masks, is on words.
  An arithmetic overflow, an index out of range or an explicit panic of the source is a value (\<open>RustPanic\<close>, \<open>Panic\<close>, \<open>IndexPanic\<close> or the
  third outcome of a scheduler call), and the theorems say where it can occur. Loops are structural recursion, folds or functions with
  a measure: the ordering loop by the unvisited nodes and the queue, the tree walk by unmarked tokens, chunking by the remaining length,
  renormalisation by the distance to the leading bit. The producer search through views carries fuel, the number of edges plus one;
  a view refers to an earlier edge in every well-formed graph, so the fuel is never spent.

  \<^bold>\<open>Not modelled.\<close> The signature checks of the thirty-one operators other than \<open>Copy\<close> with the sharding and fusion tables (large tables of
  rules, a parameter of the graph); GGUF containers, metadata and the repacking of foreign block formats with their lookup tables; the
  weight encoders and \<open>E4m3::from_f32\<close>, which need binary32 division and binary64; the loader, chat templates and tokenizers; model
  families; the kernel registry beyond the data capture reads; the kernel generator; the floating-point reference kernels of
  \<open>r9v-t0\<close>; HIP bindings below the budget, configuration, command line and the empty crates. Only the budget is shared between threads
  and modelled so; the other components are called by one thread through mutable references. Rendered messages, tracing, serialisation and \<open>Display\<close> are omitted throughout, and the
  utilisation statistics of the manager.
\<close>

end
